(* ===== verification/F2FS_Prelude.thy ===== *)
theory F2FS_Prelude
  imports Main "HOL-Library.Word" "HOL-Library.AList"
begin

text \<open>
  Shared vocabulary of the development: the C integer types, kernel bitmaps with the two
  bitmap searches of the kernel library, the search contract (locale \<open>bit_search\<close>) that
  every bitmap search of the program is measured against, and the list and word lemmas
  several components use.

  A bitmap (\<open>unsigned long *\<close> in the code, accessed through \<open>test_bit\<close>, \<open>set_bit\<close>,
  \<open>clear_bit\<close>) is a function from bit numbers to booleans; \<open>find_next_bit\<close> and
  \<open>find_next_zero_bit\<close> are the kernel library's searches, which return the size when no
  bit qualifies.
\<close>

unbundle bit_operations_syntax

section \<open>Types and fact collections\<close>

type_synonym u8 = "8 word"
type_synonym u16 = "16 word"
type_synonym u32 = "32 word"
type_synonym u64 = "64 word"
type_synonym bitmap = "nat \<Rightarrow> bool"

named_theorems bit_search_laws "what a bitmap search guarantees"
named_theorems frame_laws "fields an operation leaves unchanged"
named_theorems inv_laws "invariants an operation preserves"

section \<open>Kernel bitmap searches\<close>

function find_next_bit :: "bitmap \<Rightarrow> nat \<Rightarrow> nat \<Rightarrow> nat" where
  "find_next_bit b sz off =
     (if off < sz then (if b off then off else find_next_bit b sz (Suc off)) else sz)"
  by pat_completeness auto
termination
  by (relation "measure (\<lambda>(b, sz, off). sz - off)") auto

declare find_next_bit.simps [simp del]

definition find_next_zero_bit :: "bitmap \<Rightarrow> nat \<Rightarrow> nat \<Rightarrow> nat" where
  "find_next_zero_bit b sz off = find_next_bit (\<lambda>i. \<not> b i) sz off"

text \<open>
  The contract of a bitmap search: it returns the least qualifying position at or after the
  start, or the size. \<open>valid\<close> says when the stored map covers the size.
\<close>

locale bit_search =
  fixes search :: "'m \<Rightarrow> nat \<Rightarrow> nat \<Rightarrow> nat"
    and bit_at :: "'m \<Rightarrow> nat \<Rightarrow> bool"
    and valid :: "'m \<Rightarrow> nat \<Rightarrow> bool"
  assumes search_le: "valid m sz \<Longrightarrow> search m sz off \<le> sz"
    and search_hit: "valid m sz \<Longrightarrow> search m sz off < sz \<Longrightarrow>
          off \<le> search m sz off \<and> bit_at m (search m sz off)"
    and search_least: "valid m sz \<Longrightarrow> off \<le> i \<Longrightarrow> i < search m sz off \<Longrightarrow> \<not> bit_at m i"
begin

lemma search_none_iff:
  "valid m sz \<Longrightarrow> sz \<le> search m sz off \<longleftrightarrow> (\<forall>i. off \<le> i \<and> i < sz \<longrightarrow> \<not> bit_at m i)"
  using search_le [of m sz off] search_hit [of m sz off] search_least [of m sz off]
  by (metis le_neq_implies_less less_le_trans nat_le_linear not_le)

lemma search_upper:
  "valid m sz \<Longrightarrow> off \<le> i \<Longrightarrow> i < sz \<Longrightarrow> bit_at m i \<Longrightarrow> search m sz off \<le> i"
  using search_least [of m sz off i] by (meson not_le)

lemma search_found:
  assumes "valid m sz" and "off \<le> i" and "i < sz" and "bit_at m i"
  shows "search m sz off < sz" and "bit_at m (search m sz off)"
    and "off \<le> search m sz off"
proof -
  have "search m sz off \<le> i"
    using assms by (rule search_upper)
  then show "search m sz off < sz"
    using assms(3) by simp
  then show "bit_at m (search m sz off)" and "off \<le> search m sz off"
    using search_hit [OF assms(1)] by blast+
qed

lemma search_unique:
  assumes "valid m sz" and "r \<le> sz"
    and "r < sz \<Longrightarrow> off \<le> r \<and> bit_at m r"
    and "\<And>i. off \<le> i \<Longrightarrow> i < r \<Longrightarrow> \<not> bit_at m i"
  shows "search m sz off = r"
proof (rule antisym)
  show "search m sz off \<le> r"
  proof (cases "r < sz")
    case True
    then show ?thesis using assms(1,3) search_upper by blast
  next
    case False
    then show ?thesis using assms(2) search_le [OF assms(1), of off] by simp
  qed
  show "r \<le> search m sz off"
  proof (rule ccontr)
    assume "\<not> ?thesis"
    then have lt: "search m sz off < r" by simp
    with assms(2) have "search m sz off < sz" by simp
    then have "off \<le> search m sz off" and "bit_at m (search m sz off)"
      using search_hit [OF assms(1)] by blast+
    with assms(4) lt show False by blast
  qed
qed

end

lemma find_next_bit_le: "find_next_bit b sz off \<le> sz"
  by (induction b sz off rule: find_next_bit.induct) (subst find_next_bit.simps, auto)

lemma find_next_bit_hit:
  "find_next_bit b sz off < sz \<Longrightarrow> off \<le> find_next_bit b sz off \<and> b (find_next_bit b sz off)"
proof (induction b sz off rule: find_next_bit.induct)
  case (1 b sz off)
  then show ?case
    by (auto simp: find_next_bit.simps [of b sz off] split: if_splits)
qed

lemma find_next_bit_least:
  "off \<le> i \<Longrightarrow> i < find_next_bit b sz off \<Longrightarrow> \<not> b i"
proof (induction b sz off rule: find_next_bit.induct)
  case (1 b sz off)
  then show ?case
    by (cases "i = off") (auto simp: find_next_bit.simps [of b sz off] split: if_splits)
qed

interpretation fnb: bit_search find_next_bit "\<lambda>b. b" "\<lambda>_ _. True"
  by unfold_locales (auto simp: find_next_bit_le find_next_bit_hit find_next_bit_least)

interpretation fnzb: bit_search find_next_zero_bit "\<lambda>b i. \<not> b i" "\<lambda>_ _. True"
  by unfold_locales
    (auto simp: find_next_zero_bit_def find_next_bit_le
      dest: find_next_bit_hit find_next_bit_least)

lemmas find_next_bit_laws [bit_search_laws] =
  fnb.search_le fnb.search_hit fnb.search_least fnb.search_none_iff

lemmas find_next_zero_bit_laws [bit_search_laws] =
  fnzb.search_le fnzb.search_hit fnzb.search_least fnzb.search_none_iff

text \<open>The bits visited by \<open>for_each_set_bit_from\<close>.\<close>

function for_each_set_bit :: "bitmap \<Rightarrow> nat \<Rightarrow> nat \<Rightarrow> nat list" where
  "for_each_set_bit b sz off =
     (let p = find_next_bit b sz off
      in if p < sz then p # for_each_set_bit b sz (p + 1) else [])"
  by pat_completeness auto
termination
proof (relation "measure (\<lambda>(b, sz, off). sz - off)")
  fix b :: bitmap and sz off p
  assume "p = find_next_bit b sz off" and "p < sz"
  then have "off \<le> p" using find_next_bit_hit by blast
  with \<open>p < sz\<close> show "((b, sz, p + 1), b, sz, off) \<in> measure (\<lambda>(b, sz, off). sz - off)"
    by simp
qed simp

declare for_each_set_bit.simps [simp del]

lemma for_each_set_bit_eq: "for_each_set_bit b sz off = filter b [off..<sz]"
proof (induction b sz off rule: for_each_set_bit.induct)
  case (1 b sz off)
  let ?p = "find_next_bit b sz off"
  show ?case
  proof (cases "?p < sz")
    case True
    then have p: "off \<le> ?p" "b ?p" and none: "\<And>i. off \<le> i \<Longrightarrow> i < ?p \<Longrightarrow> \<not> b i"
      using find_next_bit_hit find_next_bit_least by blast+
    have "[off..<sz] = [off..<?p] @ ?p # [?p + 1..<sz]"
      using p(1) True upt_add_eq_append [of off ?p "sz - ?p"] by (simp add: upt_conv_Cons)
    moreover have "filter b [off..<?p] = []"
      using none by (simp add: filter_empty_conv)
    ultimately show ?thesis
      using 1 [OF refl True] p(2) True by (simp add: for_each_set_bit.simps [of b sz off] Let_def)
  next
    case False
    then have "\<forall>i\<in>set [off..<sz]. \<not> b i"
      using fnb.search_none_iff [of sz b off] by auto
    then show ?thesis
      using False by (simp add: for_each_set_bit.simps [of b sz off] Let_def filter_empty_conv)
  qed
qed

section \<open>Counting set bits\<close>

definition count_bits :: "bitmap \<Rightarrow> nat \<Rightarrow> nat" where
  "count_bits b n = card {i. i < n \<and> b i}"

lemma count_bits_le: "count_bits b n \<le> n"
  unfolding count_bits_def using card_mono [of "{..<n}" "{i. i < n \<and> b i}"] by auto

lemma count_bits_insert:
  assumes "k < n" and "\<not> b k"
  shows "count_bits (b(k := True)) n = Suc (count_bits b n)"
proof -
  have "{i. i < n \<and> (b(k := True)) i} = insert k {i. i < n \<and> b i}"
    using assms by auto
  then show ?thesis
    using assms by (simp add: count_bits_def)
qed

lemma count_bits_remove:
  assumes "k < n" and "b k"
  shows "Suc (count_bits (b(k := False)) n) = count_bits b n"
proof -
  have "{i. i < n \<and> b i} = insert k {i. i < n \<and> (b(k := False)) i}"
    using assms by auto
  then show ?thesis
    by (simp add: count_bits_def)
qed

lemma count_bits_same [simp]:
  "b k \<Longrightarrow> count_bits (b(k := True)) n = count_bits b n"
  "\<not> b k \<Longrightarrow> count_bits (b(k := False)) n = count_bits b n"
  by (simp_all add: fun_upd_idem)

lemma count_bits_outside [simp]: "n \<le> k \<Longrightarrow> count_bits (b(k := v)) n = count_bits b n"
  unfolding count_bits_def by (rule arg_cong [where f = card]) auto

lemma count_bits_pos: "k < n \<Longrightarrow> b k \<Longrightarrow> 0 < count_bits b n"
  unfolding count_bits_def by (auto simp: card_gt_0_iff)

section \<open>Words\<close>

lemma word_eq_bits: "x = y \<longleftrightarrow> (\<forall>n. bit x n = bit y n)" for x y :: "'a::len word"
  by (auto simp: bit_eq_iff dest: bit_imp_le_length)

lemma word_eq_0_bits: "x = 0 \<longleftrightarrow> (\<forall>n. \<not> bit x n)" for x :: "'a::len word"
  by (simp add: word_eq_bits)

lemma word_eq_max_bits: "x = NOT 0 \<longleftrightarrow> (\<forall>n<LENGTH('a). bit x n)" for x :: "'a::len word"
  by (auto simp: word_eq_bits bit_not_iff dest: bit_imp_le_length)

lemma unat_of_nat_small: "n < 2 ^ LENGTH('a) \<Longrightarrow> unat (of_nat n :: 'a::len word) = n"
  by (simp add: unat_of_nat take_bit_nat_eq_self)

lemma word_of_nat_inject_small:
  "a < 2 ^ LENGTH('a) \<Longrightarrow> b < 2 ^ LENGTH('a) \<Longrightarrow>
     (of_nat a :: 'a::len word) = of_nat b \<longleftrightarrow> a = b"
  by (metis unat_of_nat_small)

lemma unat_plus_small:
  "unat a + unat b < 2 ^ LENGTH('a) \<Longrightarrow> unat (a + b :: 'a::len word) = unat a + unat b"
  by (simp add: unat_word_ariths)

lemma unat_minus_small:
  "b \<le> a \<Longrightarrow> unat (a - b :: 'a::len word) = unat a - unat b"
  by (simp add: unat_sub word_le_nat_alt)

lemma unat_times_small:
  "unat a * unat b < 2 ^ LENGTH('a) \<Longrightarrow> unat (a * b :: 'a::len word) = unat a * unat b"
  by (simp add: unat_word_ariths)

section \<open>Association lists\<close>

lemma length_update: "length (AList.update k v xs) = (if k \<in> fst ` set xs then length xs else Suc (length xs))"
  by (induction xs) auto

lemma length_delete:
  "distinct (map fst xs) \<Longrightarrow> length (AList.delete k xs) = (if k \<in> fst ` set xs then length xs - 1 else length xs)"
proof (induction xs)
  case (Cons p xs)
  then show ?case by (cases "fst p = k"; cases xs) (auto simp: image_iff)
qed simp

lemma map_entry_keys [simp]: "map fst (AList.map_entry k f xs) = map fst xs"
  by (induction xs) auto

lemma length_map_entry [simp]: "length (AList.map_entry k f xs) = length xs"
  by (induction xs) auto

lemma map_of_in_keys: "map_of xs k = Some v \<Longrightarrow> k \<in> fst ` set xs"
  by (force dest: map_of_SomeD)

end
