(* ===== verification/Bit_Search.thy ===== *)
theory Bit_Search
  imports F2FS_Prelude
begin

text \<open>
  Bit operations on validity bitmaps, in which bit 0 of a block map is the most significant
  bit of the first byte: \<open>f2fs_test_bit\<close> and its companions of \<open>f2fs.h\<close> on byte arrays,
  and the word-wise searches \<open>__find_rev_next_bit\<close> and \<open>__find_rev_next_zero_bit\<close> of
  \<open>segment.c\<close> (64-bit little-endian longs) on arrays of longs. The searches are measured
  against the contract \<open>bit_search\<close>.
\<close>

section \<open>Byte maps\<close>

type_synonym bytemap = "u8 list"

definition byte_pos :: "nat \<Rightarrow> nat" where
  "byte_pos nr = 7 - nr mod 8"

definition f2fs_mask :: "nat \<Rightarrow> u8" where
  "f2fs_mask nr = push_bit (byte_pos nr) 1"

definition f2fs_test_bit :: "nat \<Rightarrow> bytemap \<Rightarrow> u8" where
  "f2fs_test_bit nr addr = f2fs_mask nr AND addr ! (nr div 8)"

definition f2fs_test_and_set_bit :: "nat \<Rightarrow> bytemap \<Rightarrow> u8 \<times> bytemap" where
  "f2fs_test_and_set_bit nr addr =
     (f2fs_mask nr AND addr ! (nr div 8),
      addr[nr div 8 := addr ! (nr div 8) OR f2fs_mask nr])"

definition f2fs_test_and_clear_bit :: "nat \<Rightarrow> bytemap \<Rightarrow> u8 \<times> bytemap" where
  "f2fs_test_and_clear_bit nr addr =
     (f2fs_mask nr AND addr ! (nr div 8),
      addr[nr div 8 := addr ! (nr div 8) AND NOT (f2fs_mask nr)])"

definition f2fs_change_bit :: "nat \<Rightarrow> bytemap \<Rightarrow> bytemap" where
  "f2fs_change_bit nr addr = addr[nr div 8 := addr ! (nr div 8) XOR f2fs_mask nr]"

text \<open>The abstract view of a byte map: which bits are set.\<close>

definition byte_bit :: "bytemap \<Rightarrow> nat \<Rightarrow> bool" where
  "byte_bit addr nr \<longleftrightarrow> f2fs_test_bit nr addr \<noteq> 0"

lemma byte_pos_less: "byte_pos nr < 8"
  by (simp add: byte_pos_def)

lemma bit_f2fs_mask: "bit (f2fs_mask nr) i \<longleftrightarrow> i = byte_pos nr"
  using byte_pos_less [of nr] by (auto simp: f2fs_mask_def bit_exp_iff)

lemma f2fs_mask_and_eq_0: "f2fs_mask nr AND w = 0 \<longleftrightarrow> \<not> bit w (byte_pos nr)"
  using byte_pos_less [of nr] by (auto simp: word_eq_0_bits bit_and_iff bit_f2fs_mask)

lemma byte_bit_iff: "byte_bit addr nr \<longleftrightarrow> bit (addr ! (nr div 8)) (byte_pos nr)"
  by (simp add: byte_bit_def f2fs_test_bit_def f2fs_mask_and_eq_0)

lemma same_byte_bit: "nr div 8 = k div 8 \<Longrightarrow> byte_pos k = byte_pos nr \<longleftrightarrow> nr = k"
proof -
  assume d: "nr div 8 = k div 8"
  have "k mod 8 < 8" and "nr mod 8 < 8" by simp_all
  then have "byte_pos k = byte_pos nr \<longleftrightarrow> k mod 8 = nr mod 8"
    unfolding byte_pos_def by linarith
  also have "\<dots> \<longleftrightarrow> nr = k" using d by (metis div_mult_mod_eq)
  finally show ?thesis .
qed

lemma byte_index: "nr < 8 * length addr \<Longrightarrow> nr div 8 < length addr"
  by (simp add: less_mult_imp_div_less mult.commute)

lemma byte_bit_update:
  assumes "nr < 8 * length addr"
    and upd: "\<And>i. bit w i \<longleftrightarrow> (if i = byte_pos nr then v else bit (addr ! (nr div 8)) i)"
  shows "byte_bit (addr[nr div 8 := w]) = (byte_bit addr)(nr := v)"
proof
  fix k
  show "byte_bit (addr[nr div 8 := w]) k = ((byte_bit addr)(nr := v)) k"
  proof (cases "nr div 8 = k div 8")
    case True
    then have "byte_bit (addr[nr div 8 := w]) k \<longleftrightarrow> bit w (byte_pos k)"
      using byte_index [OF assms(1)] by (simp add: byte_bit_iff)
    then show ?thesis
      using same_byte_bit [OF True] True by (auto simp: upd byte_bit_iff)
  next
    case False
    then show ?thesis by (auto simp: byte_bit_iff)
  qed
qed

lemma fst_test_and_set [simp]: "fst (f2fs_test_and_set_bit nr addr) \<noteq> 0 \<longleftrightarrow> byte_bit addr nr"
  and fst_test_and_clear [simp]:
    "fst (f2fs_test_and_clear_bit nr addr) \<noteq> 0 \<longleftrightarrow> byte_bit addr nr"
  by (simp_all add: f2fs_test_and_set_bit_def f2fs_test_and_clear_bit_def byte_bit_def
      f2fs_test_bit_def)

lemma length_bitops [simp]:
  "length (snd (f2fs_test_and_set_bit nr addr)) = length addr"
  "length (snd (f2fs_test_and_clear_bit nr addr)) = length addr"
  "length (f2fs_change_bit nr addr) = length addr"
  by (simp_all add: f2fs_test_and_set_bit_def f2fs_test_and_clear_bit_def f2fs_change_bit_def)

lemma byte_bit_set:
  "nr < 8 * length addr \<Longrightarrow>
     byte_bit (snd (f2fs_test_and_set_bit nr addr)) = (byte_bit addr)(nr := True)"
  unfolding f2fs_test_and_set_bit_def snd_conv
  by (rule byte_bit_update) (auto simp: bit_or_iff bit_f2fs_mask)

lemma byte_bit_clear:
  "nr < 8 * length addr \<Longrightarrow>
     byte_bit (snd (f2fs_test_and_clear_bit nr addr)) = (byte_bit addr)(nr := False)"
  unfolding f2fs_test_and_clear_bit_def snd_conv
  by (rule byte_bit_update)
    (auto simp: bit_and_iff bit_not_iff bit_f2fs_mask dest: bit_imp_le_length)

lemma byte_bit_change:
  "nr < 8 * length addr \<Longrightarrow>
     byte_bit (f2fs_change_bit nr addr) = (byte_bit addr)(nr := \<not> byte_bit addr nr)"
  unfolding f2fs_change_bit_def
  by (rule byte_bit_update) (auto simp: bit_xor_iff bit_f2fs_mask byte_bit_iff)

section \<open>Searches on longs\<close>

definition rev_pos :: "nat \<Rightarrow> nat" where
  "rev_pos k = 8 * (k div 8) + (7 - k mod 8)"

definition long_bit :: "u64 list \<Rightarrow> nat \<Rightarrow> bool" where
  "long_bit addr k \<longleftrightarrow> bit (addr ! (k div 64)) (rev_pos (k mod 64))"

definition reverse_ffs :: "u64 \<Rightarrow> nat" where
  "reverse_ffs word =
     (let (num, word) = (if word AND 0xffffffff = 0 then (32, drop_bit 32 word) else (0, word));
          (num, word) = (if word AND 0xffff = 0 then (num + 16, drop_bit 16 word) else (num, word));
          (num, word) = (if word AND 0xff = 0 then (num + 8, drop_bit 8 word) else (num, word));
          (num, word) = (if word AND 0xf0 = 0 then (num + 4, word) else (num, drop_bit 4 word));
          (num, word) = (if word AND 0xc = 0 then (num + 2, word) else (num, drop_bit 2 word))
      in if word AND 0x2 = 0 then num + 1 else num)"

definition reverse_ffz :: "u64 \<Rightarrow> nat" where
  "reverse_ffz x = reverse_ffs (NOT x)"

definition found_first_bit :: "u64 \<Rightarrow> nat \<Rightarrow> nat \<Rightarrow> nat" where
  "found_first_bit tmp sz result =
     (let tmp = tmp AND drop_bit (64 - sz) (NOT 0)
      in if tmp = 0 then result + sz else result + reverse_ffs tmp)"

function aligned_bit :: "u64 list \<Rightarrow> nat \<Rightarrow> nat \<Rightarrow> nat \<Rightarrow> nat" where
  "aligned_bit addr p sz result =
     (if 64 \<le> sz
      then (if addr ! p \<noteq> 0 then result + reverse_ffs (addr ! p)
            else aligned_bit addr (p + 1) (sz - 64) (result + 64))
      else if sz = 0 then result
      else found_first_bit (addr ! p) sz result)"
  by pat_completeness auto
termination
  by (relation "measure (\<lambda>(addr, p, sz, result). sz)") auto

declare aligned_bit.simps [simp del]

definition find_rev_next_bit :: "u64 list \<Rightarrow> nat \<Rightarrow> nat \<Rightarrow> nat" where
  "find_rev_next_bit addr sz off =
     (let p = off div 64; result = off - off mod 64
      in if sz \<le> off then sz
         else let sz' = sz - result; o' = off mod 64
         in if o' = 0 then aligned_bit addr p sz' result
            else let quot = 8 * (o' div 8); rest = o' mod 8;
                     msk = push_bit quot (NOT 0);
                     submask = drop_bit rest (ucast (push_bit rest 0xff :: u8) :: u64);
                     submask = push_bit quot submask;
                     msk = msk AND submask;
                     tmp = addr ! p AND msk
                 in if sz' < 64 then found_first_bit tmp sz' result
                    else if tmp \<noteq> 0 then result + reverse_ffs tmp
                    else aligned_bit addr (p + 1) (sz' - 64) (result + 64))"

definition found_first_zero_bit :: "u64 \<Rightarrow> nat \<Rightarrow> nat \<Rightarrow> nat" where
  "found_first_zero_bit tmp sz result =
     (let tmp = tmp OR push_bit sz (NOT 0)
      in if tmp = NOT 0 then result + sz else result + reverse_ffz tmp)"

function aligned_zero_bit :: "u64 list \<Rightarrow> nat \<Rightarrow> nat \<Rightarrow> nat \<Rightarrow> nat" where
  "aligned_zero_bit addr p sz result =
     (if 64 \<le> sz
      then (if NOT (addr ! p) \<noteq> 0 then result + reverse_ffz (addr ! p)
            else aligned_zero_bit addr (p + 1) (sz - 64) (result + 64))
      else if sz = 0 then result
      else found_first_zero_bit (addr ! p) sz result)"
  by pat_completeness auto
termination
  by (relation "measure (\<lambda>(addr, p, sz, result). sz)") auto

declare aligned_zero_bit.simps [simp del]

definition find_rev_next_zero_bit :: "u64 list \<Rightarrow> nat \<Rightarrow> nat \<Rightarrow> nat" where
  "find_rev_next_zero_bit addr sz off =
     (let p = off div 64; result = off - off mod 64
      in if sz \<le> off then sz
         else let sz' = sz - result; o' = off mod 64
         in if o' = 0 then aligned_zero_bit addr p sz' result
            else let quot = 8 * (o' div 8); rest = o' mod 8;
                     msk = NOT (push_bit quot (NOT 0));
                     submask = ucast (NOT (drop_bit rest (push_bit rest 0xff :: u8))) :: u64;
                     submask = push_bit quot submask;
                     msk = msk + submask;
                     tmp = addr ! p OR msk
                 in if sz' < 64 then found_first_zero_bit tmp sz' result
                    else if NOT tmp \<noteq> 0 then result + reverse_ffz tmp
                    else aligned_zero_bit addr (p + 1) (sz' - 64) (result + 64))"

section \<open>Correctness of \<open>__reverse_ffs\<close>\<close>

lemma and_field_eq_0:
  "v AND push_bit a (mask b) = 0 \<longleftrightarrow> (\<forall>i. a \<le> i \<and> i < a + b \<longrightarrow> \<not> bit v i)"
  for v :: "'a::len word"
proof
  assume z: "v AND push_bit a (mask b) = 0"
  show "\<forall>i. a \<le> i \<and> i < a + b \<longrightarrow> \<not> bit v i"
  proof (intro allI impI notI)
    fix i assume i: "a \<le> i \<and> i < a + b" and v: "bit v i"
    then have l: "i < LENGTH('a)" by (auto dest: bit_imp_le_length)
    then have "bit (v AND push_bit a (mask b)) i"
      using i v by (auto simp: bit_and_iff bit_push_bit_iff bit_mask_iff)
    with z show False by simp
  qed
next
  assume "\<forall>i. a \<le> i \<and> i < a + b \<longrightarrow> \<not> bit v i"
  then show "v AND push_bit a (mask b) = 0"
    by (auto simp: word_eq_0_bits bit_and_iff bit_push_bit_iff bit_mask_iff)
qed

lemma and_fields:
  fixes v :: u64
  shows "v AND 0xffffffff = 0 \<longleftrightarrow> (\<forall>i<32. \<not> bit v i)"
    and "v AND 0xffff = 0 \<longleftrightarrow> (\<forall>i<16. \<not> bit v i)"
    and "v AND 0xff = 0 \<longleftrightarrow> (\<forall>i<8. \<not> bit v i)"
    and "v AND 0xf0 = 0 \<longleftrightarrow> \<not> bit v 4 \<and> \<not> bit v 5 \<and> \<not> bit v 6 \<and> \<not> bit v 7"
    and "v AND 0xc = 0 \<longleftrightarrow> \<not> bit v 2 \<and> \<not> bit v 3"
    and "v AND 0x2 = 0 \<longleftrightarrow> \<not> bit v 1"
proof -
  have m: "(0xffffffff::u64) = push_bit 0 (mask 32)" "(0xffff::u64) = push_bit 0 (mask 16)"
    "(0xff::u64) = push_bit 0 (mask 8)" "(0xf0::u64) = push_bit 4 (mask 4)"
    "(0xc::u64) = push_bit 2 (mask 2)" "(0x2::u64) = push_bit 1 (mask 1)"
    by (simp_all add: mask_eq_exp_minus_1)
  have r4: "(\<forall>i. 4 \<le> i \<and> i < 4 + 4 \<longrightarrow> P i) \<longleftrightarrow> P 4 \<and> P 5 \<and> P 6 \<and> P 7" for P :: "nat \<Rightarrow> bool"
    by (auto simp: less_Suc_eq numeral_eq_Suc le_Suc_eq)
  have r2: "(\<forall>i. 2 \<le> i \<and> i < 2 + 2 \<longrightarrow> P i) \<longleftrightarrow> P 2 \<and> P 3" for P :: "nat \<Rightarrow> bool"
    by (auto simp: less_Suc_eq numeral_eq_Suc le_Suc_eq)
  show "v AND 0xffffffff = 0 \<longleftrightarrow> (\<forall>i<32. \<not> bit v i)"
    and "v AND 0xffff = 0 \<longleftrightarrow> (\<forall>i<16. \<not> bit v i)"
    and "v AND 0xff = 0 \<longleftrightarrow> (\<forall>i<8. \<not> bit v i)"
    by (subst m, simp only: and_field_eq_0, simp)+
  show "v AND 0xf0 = 0 \<longleftrightarrow> \<not> bit v 4 \<and> \<not> bit v 5 \<and> \<not> bit v 6 \<and> \<not> bit v 7"
    by (subst m(4)) (simp only: and_field_eq_0 r4)
  show "v AND 0xc = 0 \<longleftrightarrow> \<not> bit v 2 \<and> \<not> bit v 3"
    by (subst m(5)) (simp only: and_field_eq_0 r2)
  show "v AND 0x2 = 0 \<longleftrightarrow> \<not> bit v 1"
    by (subst m(6)) (simp only: and_field_eq_0, auto simp: le_Suc_eq less_Suc_eq)
qed

definition ffs_skip :: "nat \<Rightarrow> nat \<times> u64 \<Rightarrow> nat \<times> u64" where
  "ffs_skip h nv = (if snd nv AND mask h = 0 then (fst nv + h, drop_bit h (snd nv)) else nv)"

definition ffs_byte :: "u64 \<Rightarrow> nat" where
  "ffs_byte v =
     (let (num, word) = (if v AND 0xf0 = 0 then (4, v) else (0, drop_bit 4 v));
          (num, word) = (if word AND 0xc = 0 then (num + 2, word) else (num, drop_bit 2 word))
      in if word AND 0x2 = 0 then num + 1 else num)"

lemma reverse_ffs_split:
  "reverse_ffs w = (case ffs_skip 8 (ffs_skip 16 (ffs_skip 32 (0, w))) of (n, v) \<Rightarrow> n + ffs_byte v)"
proof -
  have m: "mask 32 = (0xffffffff::u64)" "mask 16 = (0xffff::u64)" "mask 8 = (0xff::u64)"
    by (simp_all add: mask_eq_exp_minus_1)
  obtain n1 v1 where s1: "(if w AND 0xffffffff = 0 then (32, drop_bit 32 w) else (0, w)) = (n1 :: nat, v1)"
    by fastforce
  obtain n2 v2 where s2: "(if v1 AND 0xffff = 0 then (n1 + 16, drop_bit 16 v1) else (n1, v1)) = (n2, v2)"
    by fastforce
  obtain n3 v3 where s3: "(if v2 AND 0xff = 0 then (n2 + 8, drop_bit 8 v2) else (n2, v2)) = (n3, v3)"
    by fastforce
  have "reverse_ffs w = n3 + ffs_byte v3"
    unfolding reverse_ffs_def ffs_byte_def Let_def s1 prod.case s2 s3
    by (cases "v3 AND 0xf0 = 0") simp_all
  moreover have "ffs_skip 8 (ffs_skip 16 (ffs_skip 32 (0, w))) = (n3, v3)"
    unfolding ffs_skip_def m fst_conv snd_conv add_0 s1 s2 s3 by (rule refl)
  ultimately show ?thesis by simp
qed

lemma ffs_byte_eq:
  "ffs_byte v =
     (if bit v 7 then 0 else if bit v 6 then 1 else if bit v 5 then 2 else if bit v 4 then 3
      else if bit v 3 then 4 else if bit v 2 then 5 else if bit v 1 then 6 else 7)"
  unfolding ffs_byte_def Let_def and_fields by (simp add: and_fields bit_drop_bit_eq)

lemma ffs_byte_spec:
  assumes "\<exists>i<8. bit v i"
  shows "ffs_byte v < 8 \<and> bit v (7 - ffs_byte v) \<and> (\<forall>m<ffs_byte v. \<not> bit v (7 - m))"
proof -
  have some: "bit v 0 \<or> bit v 1 \<or> bit v 2 \<or> bit v 3 \<or> bit v 4 \<or> bit v 5 \<or> bit v 6 \<or> bit v 7"
    using assms by (auto simp: numeral_eq_Suc less_Suc_eq)
  have all: "(\<forall>m<Suc n. P m) \<longleftrightarrow> P n \<and> (\<forall>m<n. P m)" for P :: "nat \<Rightarrow> bool" and n
    by (auto simp: less_Suc_eq)
  have n: "(1::nat) = Suc 0" "(2::nat) = Suc (Suc 0)" "(3::nat) = Suc (Suc (Suc 0))"
    by simp_all
  consider "bit v 7" | "\<not> bit v 7" "bit v 6" | "\<not> bit v 7" "\<not> bit v 6" "bit v 5"
    | "\<not> bit v 7" "\<not> bit v 6" "\<not> bit v 5" "bit v 4"
    | "\<not> bit v 7" "\<not> bit v 6" "\<not> bit v 5" "\<not> bit v 4" "bit v 3"
    | "\<not> bit v 7" "\<not> bit v 6" "\<not> bit v 5" "\<not> bit v 4" "\<not> bit v 3" "bit v 2"
    | "\<not> bit v 7" "\<not> bit v 6" "\<not> bit v 5" "\<not> bit v 4" "\<not> bit v 3" "\<not> bit v 2" "bit v 1"
    | "\<not> bit v 7" "\<not> bit v 6" "\<not> bit v 5" "\<not> bit v 4" "\<not> bit v 3" "\<not> bit v 2" "\<not> bit v 1" "bit v 0"
    using some by blast
  then show ?thesis
    by cases (simp_all add: ffs_byte_eq all numeral_eq_Suc)
qed

lemma ffs_skip_spec:
  assumes "ffs_skip h (n, v) = (n', v')" and "v = drop_bit n w" and "\<forall>i<n. \<not> bit w i"
    and "\<exists>i<2*h. bit v i"
  shows "v' = drop_bit n' w \<and> (\<forall>i<n'. \<not> bit w i) \<and> (\<exists>i<h. bit v' i) \<and> (n' = n \<or> n' = n + h)"
proof (cases "v AND mask h = 0")
  case True
  then have low: "\<forall>i<h. \<not> bit v i"
    using and_field_eq_0 [of v 0 h] by simp
  have "\<not> bit w i" if "i < n + h" for i
    using low assms(2,3) that
    by (cases "i < n") (auto simp: bit_drop_bit_eq dest!: spec [of _ "i - n"])
  moreover have "\<exists>i<h. bit (drop_bit h v) i"
  proof -
    obtain i where "i < 2*h" and "bit v i" using assms(4) by blast
    then have "h \<le> i" and "i - h < h" using low by (auto simp: not_less [symmetric])
    then show ?thesis using \<open>bit v i\<close> by (auto simp: bit_drop_bit_eq intro!: exI [of _ "i - h"])
  qed
  ultimately show ?thesis
    using assms(1,2) True by (auto simp: ffs_skip_def add.commute)
next
  case False
  then have "\<exists>i<h. bit v i"
    using and_field_eq_0 [of v 0 h] by auto
  then show ?thesis
    using assms False by (auto simp: ffs_skip_def)
qed

lemma reverse_ffs_spec:
  assumes "w \<noteq> 0"
  shows "reverse_ffs w < 64" and "bit w (rev_pos (reverse_ffs w))"
    and "\<And>m. m < reverse_ffs w \<Longrightarrow> \<not> bit w (rev_pos m)"
proof -
  obtain n1 v1 where s1: "ffs_skip 32 (0, w) = (n1, v1)" by (cases "ffs_skip 32 (0, w)")
  obtain n2 v2 where s2: "ffs_skip 16 (n1, v1) = (n2, v2)" by (cases "ffs_skip 16 (n1, v1)")
  obtain n3 v3 where s3: "ffs_skip 8 (n2, v2) = (n3, v3)" by (cases "ffs_skip 8 (n2, v2)")
  have ex: "\<exists>i<2*32. bit w i"
  proof -
    obtain i where i: "bit w i" using assms by (auto simp: word_eq_0_bits)
    then have "i < 2*32" using bit_imp_le_length [of w i] by simp
    with i show ?thesis by blast
  qed
  have a1: "v1 = drop_bit n1 w \<and> (\<forall>i<n1. \<not> bit w i) \<and> (\<exists>i<32. bit v1 i) \<and>
      (n1 = 0 \<or> n1 = 0 + 32)"
    by (rule ffs_skip_spec [OF s1 _ _ ex]) simp_all
  then have "\<exists>i<32. bit v1 i" by blast
  then have ex1: "\<exists>i<2*16. bit v1 i" by simp
  have a2: "v2 = drop_bit n2 w \<and> (\<forall>i<n2. \<not> bit w i) \<and> (\<exists>i<16. bit v2 i) \<and>
      (n2 = n1 \<or> n2 = n1 + 16)"
    using a1 by (intro ffs_skip_spec [OF s2 _ _ ex1]) blast+
  then have "\<exists>i<16. bit v2 i" by blast
  then have ex2: "\<exists>i<2*8. bit v2 i" by simp
  have a3: "v3 = drop_bit n3 w \<and> (\<forall>i<n3. \<not> bit w i) \<and> (\<exists>i<8. bit v3 i) \<and>
      (n3 = n2 \<or> n3 = n2 + 8)"
    using a2 by (intro ffs_skip_spec [OF s3 _ _ ex2]) blast+
  have n3: "n3 mod 8 = 0" "n3 < 64"
    using a1 a2 a3 by auto
  then obtain c where c: "n3 = 8 * c" by (metis mod_0_imp_dvd dvdE)
  let ?b = "ffs_byte v3"
  have b: "?b < 8" "bit v3 (7 - ?b)" "\<forall>m<?b. \<not> bit v3 (7 - m)"
    using ffs_byte_spec a3 by blast+
  have r: "reverse_ffs w = 8 * c + ?b"
    by (simp add: reverse_ffs_split s1 s2 s3 c)
  have pos: "rev_pos (8 * c + k) = 8 * c + (7 - k)" if "k < 8" for k
    using that by (simp add: rev_pos_def)
  show "reverse_ffs w < 64" using r b(1) n3 c by simp
  show "bit w (rev_pos (reverse_ffs w))"
    using b a3 by (simp add: r pos c bit_drop_bit_eq add.commute)
  show "\<not> bit w (rev_pos m)" if m: "m < reverse_ffs w" for m
  proof (cases "m < n3")
    case True
    then have "m div 8 < c" using c by (simp add: less_mult_imp_div_less mult.commute)
    then have "rev_pos m < n3" unfolding rev_pos_def c by linarith
    then show ?thesis using a3 by blast
  next
    case False
    then obtain k where k: "m = 8 * c + k" "k < ?b"
      using m r c by (metis add_less_cancel_left le_Suc_ex not_less)
    then show ?thesis
      using b(1,3) a3 pos [of k] by (simp add: c bit_drop_bit_eq add.commute)
  qed
qed

section \<open>Correctness of the searches\<close>

text \<open>\<open>r\<close> is the first position of \<open>P\<close> in \<open>off..<sz\<close>, or \<open>sz\<close>.\<close>

definition is_first :: "(nat \<Rightarrow> bool) \<Rightarrow> nat \<Rightarrow> nat \<Rightarrow> nat \<Rightarrow> bool" where
  "is_first P off sz r \<longleftrightarrow>
     r \<le> sz \<and> (r < sz \<longrightarrow> off \<le> r \<and> P r) \<and> (\<forall>i. off \<le> i \<and> i < r \<longrightarrow> \<not> P i)"

lemma is_first_found: "off \<le> r \<Longrightarrow> r < sz \<Longrightarrow> P r \<Longrightarrow> (\<And>i. off \<le> i \<Longrightarrow> i < r \<Longrightarrow> \<not> P i) \<Longrightarrow>
    is_first P off sz r"
  by (auto simp: is_first_def)

lemma is_first_none: "(\<And>i. off \<le> i \<Longrightarrow> i < sz \<Longrightarrow> \<not> P i) \<Longrightarrow> is_first P off sz sz"
  by (auto simp: is_first_def)

lemma is_first_skip:
  "is_first P off' sz r \<Longrightarrow> off \<le> off' \<Longrightarrow> off' \<le> sz \<Longrightarrow> (\<And>i. off \<le> i \<Longrightarrow> i < off' \<Longrightarrow> \<not> P i) \<Longrightarrow>
    is_first P off sz r"
  unfolding is_first_def by (metis le_trans not_le)

lemma is_first_cong:
  "is_first P off sz r \<Longrightarrow> (\<And>i. off \<le> i \<Longrightarrow> i < sz \<Longrightarrow> P i = Q i) \<Longrightarrow> is_first Q off sz r"
  unfolding is_first_def by auto

lemma rev_pos_byte: "rev_pos k div 8 = k div 8"
  by (simp add: rev_pos_def)

lemma rev_pos_less: "c mod 8 = 0 \<Longrightarrow> rev_pos k < c \<longleftrightarrow> k < c"
proof -
  assume "c mod 8 = 0"
  then obtain d where d: "c = 8 * d" by (auto elim: dvdE simp: mod_eq_0_iff_dvd)
  have "j < 8 * d \<longleftrightarrow> j div 8 < d" for j :: nat
    by (simp add: div_less_iff_less_mult mult.commute)
  then show ?thesis by (simp add: d rev_pos_byte)
qed

text \<open>A word that holds, of the positions of long \<open>p\<close>, those that satisfy \<open>P\<close>.\<close>

definition covers :: "u64 \<Rightarrow> nat \<Rightarrow> (nat \<Rightarrow> bool) \<Rightarrow> bool" where
  "covers w p P \<longleftrightarrow> (\<forall>k<64. bit w (rev_pos k) \<longleftrightarrow> P (64 * p + k))"

lemma coversD: "covers w p P \<Longrightarrow> k < 64 \<Longrightarrow> bit w (rev_pos k) \<longleftrightarrow> P (64 * p + k)"
  by (simp add: covers_def)

lemma covers_first:
  assumes "covers w p P" and "w \<noteq> 0" and "64 * p + 64 \<le> sz"
  shows "is_first P (64 * p) sz (64 * p + reverse_ffs w)"
proof (rule is_first_found)
  have r: "reverse_ffs w < 64" "bit w (rev_pos (reverse_ffs w))"
    using assms(2) by (rule reverse_ffs_spec)+
  show "64 * p + reverse_ffs w < sz" using r(1) assms(3) by simp
  show "P (64 * p + reverse_ffs w)" using r coversD [OF assms(1)] by simp
  show "\<not> P i" if lo: "64 * p \<le> i" and hi: "i < 64 * p + reverse_ffs w" for i
  proof -
    obtain k where k: "i = 64 * p + k" using lo by (auto simp: le_iff_add)
    then have "k < reverse_ffs w" using hi by simp
    then have "\<not> bit w (rev_pos k)" and "k < 64"
      by (rule reverse_ffs_spec(3) [OF assms(2)], rule less_trans [OF _ reverse_ffs_spec(1) [OF assms(2)]])
    then show ?thesis using coversD [OF assms(1)] k by simp
  qed
qed simp

lemma covers_zero:
  assumes "covers 0 p P" and "64 * p \<le> i" and "i < 64 * p + 64"
  shows "\<not> P i"
proof -
  obtain k where "i = 64 * p + k" using assms(2) by (auto simp: le_iff_add)
  then show ?thesis using assms by (auto simp: covers_def)
qed

lemma found_first_bit:
  assumes "covers w p P" and "sz < 64" and "sz mod 8 = 0"
  shows "is_first P (64 * p) (64 * p + sz) (found_first_bit w sz (64 * p))"
proof -
  let ?w = "w AND drop_bit (64 - sz) (NOT 0)"
  have b: "bit ?w i \<longleftrightarrow> bit w i \<and> i < sz" for i
    using assms(2) by (auto simp: bit_and_iff bit_drop_bit_eq bit_not_iff bit_mask_iff dest: bit_imp_le_length)
  have c: "covers ?w p (\<lambda>i. P i \<and> i < 64 * p + sz)"
    unfolding covers_def b using coversD [OF assms(1)] rev_pos_less [OF assms(3)] by simp
  show ?thesis
  proof (cases "?w = 0")
    case True
    then have "\<not> P i" if "64 * p \<le> i" and "i < 64 * p + sz" for i
      using covers_zero [of p _ i] c that assms(2) by auto
    then show ?thesis using True by (auto simp: found_first_bit_def intro: is_first_none)
  next
    case False
    then have "is_first (\<lambda>i. P i \<and> i < 64 * p + sz) (64 * p) (64 * p + 64) (64 * p + reverse_ffs ?w)"
      using covers_first [OF c] by simp
    moreover have "reverse_ffs ?w < 64" using False by (rule reverse_ffs_spec)
    ultimately show ?thesis
      using False by (auto simp: found_first_bit_def is_first_def)
  qed
qed

lemma aligned_bit:
  assumes "\<And>q. q < length addr \<Longrightarrow> p \<le> q \<Longrightarrow> covers (addr ! q) q P"
    and "64 * p + sz \<le> 64 * length addr" and "sz mod 8 = 0" and "result = 64 * p"
  shows "is_first P result (result + sz) (aligned_bit addr p sz result)"
  using assms
proof (induction addr p sz result rule: aligned_bit.induct)
  case (1 addr p sz result)
  note prems = "1.prems"
  show ?case
  proof (cases "64 \<le> sz")
    case True
    then have p: "p < length addr" using prems(2) by linarith
    then have c: "covers (addr ! p) p P" using prems(1) by simp
    show ?thesis
    proof (cases "addr ! p = 0")
      case False
      then show ?thesis
        using covers_first [OF c] True prems(4) by (simp add: aligned_bit.simps [of addr p sz])
    next
      case z: True
      let ?r = "aligned_bit addr (p + 1) (sz - 64) (result + 64)"
      have "(sz - 64) mod 8 = 0" using prems(3) True by presburger
      then have "is_first P (result + 64) (result + 64 + (sz - 64)) ?r"
        using prems True z by (intro "1.IH") auto
      then have ir: "is_first P (result + 64) (result + sz) ?r"
        using True by simp
      have np: "\<not> P i" if "result \<le> i" and "i < result + 64" for i
        using covers_zero [of p P i] c z that prems(4) by simp
      have "is_first P result (result + sz) ?r"
        by (rule is_first_skip [OF ir _ _ np]) (use True in simp_all)
      then show ?thesis
        using True z by (simp add: aligned_bit.simps [of addr p sz])
    qed
  next
    case False
    show ?thesis
    proof (cases "sz = 0")
      case True
      then show ?thesis by (subst aligned_bit.simps) (auto simp: is_first_def)
    next
      case pos: False
      then have "p < length addr" using prems(2) by linarith
      then have "covers (addr ! p) p P" using prems(1) by simp
      then show ?thesis
        using found_first_bit [of "addr ! p" p P sz] prems(3,4) False pos
        by (simp add: aligned_bit.simps [of addr p sz])
    qed
  qed
qed

text \<open>The bits that the first, partial word of the search keeps.\<close>

lemma first_mask:
  assumes "rest < 8"
  shows "bit (push_bit quot (NOT 0) AND
              push_bit quot (drop_bit rest (ucast (push_bit rest 0xff :: u8) :: u64))) i \<longleftrightarrow>
         quot \<le> i \<and> i < quot + (8 - rest) \<and> i < 64"
proof -
  have ff: "(0xff :: u8) = NOT 0" by simp
  show ?thesis
    unfolding ff using assms
    by (auto simp: bit_and_iff bit_push_bit_iff bit_not_iff bit_drop_bit_eq bit_ucast_iff bit_mask_iff
        dest: bit_imp_le_length)
qed

lemma first_zero_mask:
  assumes "rest < 8" and "quot + 8 \<le> 64"
  shows "bit (NOT (push_bit quot (NOT 0)) +
              push_bit quot (ucast (NOT (drop_bit rest (push_bit rest 0xff :: u8))) :: u64)) i \<longleftrightarrow>
         i < quot \<or> quot + (8 - rest) \<le> i \<and> i < quot + 8"
proof -
  have ff: "(0xff :: u8) = NOT 0" by simp
  let ?a = "NOT (push_bit quot (NOT 0)) :: u64"
  let ?b = "push_bit quot (ucast (NOT (drop_bit rest (push_bit rest 0xff :: u8))) :: u64)"
  have a: "bit ?a i \<longleftrightarrow> i < quot" for i
    using assms by (auto simp: bit_push_bit_iff bit_not_iff bit_mask_iff dest: bit_imp_le_length)
  have b: "bit ?b i \<longleftrightarrow> quot + (8 - rest) \<le> i \<and> i < quot + 8" for i
    unfolding ff using assms
    by (auto simp: bit_push_bit_iff bit_not_iff bit_drop_bit_eq bit_ucast_iff bit_mask_iff dest: bit_imp_le_length)
  have "?a AND ?b = 0" unfolding word_eq_0_bits bit_and_iff a b by simp
  then have "?a + ?b = ?a OR ?b"
    by (simp add: disjunctive_add_eq_or)
  then show ?thesis by (simp only: bit_or_iff a b)
qed

lemma is_first_restrict:
  "is_first (\<lambda>i. P i \<and> off \<le> i) off' sz r \<Longrightarrow> off' \<le> off \<Longrightarrow> is_first P off sz r"
  unfolding is_first_def by (meson order_trans)

lemma partial_first:
  assumes tmp: "covers tmp p (\<lambda>i. P i \<and> off \<le> i)" and p: "p = off div 64"
    and off: "off < sz" and sz: "sz \<le> 64 * length addr" "sz mod 8 = 0"
    and cov: "\<And>q. p < q \<Longrightarrow> q < length addr \<Longrightarrow> covers (addr ! q) q P"
  shows "is_first P off sz
           (if sz - 64 * p < 64 then found_first_bit tmp (sz - 64 * p) (64 * p)
            else if tmp \<noteq> 0 then 64 * p + reverse_ffs tmp
            else aligned_bit addr (p + 1) (sz - 64 * p - 64) (64 * p + 64))"
proof -
  have o: "64 * p \<le> off" "off < 64 * p + 64" using p by simp_all
  consider "sz - 64 * p < 64" | "64 \<le> sz - 64 * p" "tmp \<noteq> 0" | "64 \<le> sz - 64 * p" "tmp = 0"
    by linarith
  then show ?thesis
  proof cases
    case 1
    have "(sz - 64 * p) mod 8 = 0" using sz(2) by presburger
    with found_first_bit [OF tmp 1 this] have
      "is_first (\<lambda>i. P i \<and> off \<le> i) (64 * p) sz (found_first_bit tmp (sz - 64 * p) (64 * p))"
      using o off by simp
    then show ?thesis using 1 o(1) by (simp add: is_first_restrict)
  next
    case 2
    have "64 * p + 64 \<le> sz" using 2 by simp
    then have "is_first (\<lambda>i. P i \<and> off \<le> i) (64 * p) sz (64 * p + reverse_ffs tmp)"
      by (rule covers_first [OF tmp 2(2)])
    then show ?thesis using 2 o(1) by (simp add: is_first_restrict)
  next
    case 3
    have m: "(sz - 64 * p - 64) mod 8 = 0" using sz(2) by presburger
    have "is_first P (64 * p + 64) (64 * p + 64 + (sz - 64 * p - 64))
            (aligned_bit addr (p + 1) (sz - 64 * p - 64) (64 * p + 64))"
      by (rule aligned_bit [OF cov]) (use sz 3 m in auto)
    moreover have "64 * p + 64 + (sz - 64 * p - 64) = sz" using 3 by simp
    ultimately have ir: "is_first P (64 * p + 64) sz
            (aligned_bit addr (p + 1) (sz - 64 * p - 64) (64 * p + 64))"
      by simp
    have np: "\<not> P i" if "off \<le> i" and "i < 64 * p + 64" for i
      using covers_zero [of p "\<lambda>i. P i \<and> off \<le> i" i] tmp 3(2) that o(1) by simp
    have "is_first P off sz (aligned_bit addr (p + 1) (sz - 64 * p - 64) (64 * p + 64))"
      by (rule is_first_skip [OF ir _ _ np]) (use o 3 in simp_all)
    then show ?thesis using 3 by simp
  qed
qed

lemma long_byte: "(64 * p + k) div 8 = 8 * p + k div (8::nat)"
  by presburger

lemma byte_window:
  "b < 8 \<Longrightarrow> r < 8 \<Longrightarrow>
     8 * c \<le> 8 * a + (7 - b) \<and> 8 * a + (7 - b) < 8 * c + (8 - r) \<longleftrightarrow>
     a = c \<and> 8 * c + r \<le> 8 * a + (b :: nat)"
  by (cases a c rule: linorder_cases) auto

lemma find_rev_next_bit_first:
  assumes "sz \<le> 64 * length addr" and "sz mod 8 = 0"
  shows "is_first (\<lambda>i. long_bit addr i \<and>
             (off mod 64 = 0 \<or> i div 8 = off div 8 \<or> i div 64 \<noteq> off div 64))
           off sz (find_rev_next_bit addr sz off)"
    (is "is_first ?P off sz _")
proof (cases "sz \<le> off")
  case True
  then show ?thesis by (auto simp: find_rev_next_bit_def is_first_def)
next
  case False
  define p where "p = off div 64"
  define o' where "o' = off mod 64"
  have off: "off = 64 * p + o'" "o' < 64" by (simp_all add: p_def o'_def)
  have res: "off - o' = 64 * p" using off by simp
  have p: "p < length addr" using False assms(1) off by linarith
  have szm: "(sz - 64 * p) mod 8 = 0" using assms(2) by presburger
  have cov: "covers (addr ! q) q ?P" if "p < q \<or> o' = 0" for q
    using that off by (auto simp: covers_def long_bit_def)
  show ?thesis
  proof (cases "o' = 0")
    case True
    have "is_first ?P (64 * p) (64 * p + (sz - 64 * p)) (aligned_bit addr p (sz - 64 * p) (64 * p))"
      using assms(1) szm False off True by (intro aligned_bit cov) auto
    then show ?thesis
      using False True off res
      by (simp add: find_rev_next_bit_def p_def [symmetric] o'_def [symmetric] Let_def)
  next
    case part: False
    define quot where "quot = 8 * (o' div 8)"
    define rest where "rest = o' mod 8"
    define msk where "msk = push_bit quot (NOT 0) AND
      push_bit quot (drop_bit rest (ucast (push_bit rest 0xff :: u8) :: u64))"
    define tmp where "tmp = addr ! p AND msk"
    have qr: "o' = quot + rest" "rest < 8" "quot mod 8 = 0" "quot + 8 \<le> 64"
      using off(2) by (simp_all add: quot_def rest_def)
    have bm: "bit msk i \<longleftrightarrow> quot \<le> i \<and> i < quot + (8 - rest) \<and> i < 64" for i
      unfolding msk_def by (rule first_mask [OF qr(2)])
    have kpos: "quot \<le> rev_pos k \<and> rev_pos k < quot + (8 - rest) \<longleftrightarrow> k div 8 = o' div 8 \<and> o' \<le> k"
      for k
      unfolding rev_pos_def quot_def rest_def
      by (subst byte_window) (simp_all only: mod_less_divisor zero_less_numeral mult_div_mod_eq)
    have d: "(64 * p + k) div 8 = off div 8 \<longleftrightarrow> k div 8 = o' div 8" for k
      by (simp only: off(1) long_byte add_left_cancel)
    have "covers tmp p (\<lambda>i. ?P i \<and> off \<le> i)"
      unfolding covers_def tmp_def bit_and_iff bm
    proof (intro allI impI)
      fix k :: nat
      assume k: "k < 64"
      then have "rev_pos k < 64" using rev_pos_less [of 64 k] by simp
      moreover have "(64 * p + k) div 64 = off div 64" using k off by simp
      moreover have "long_bit addr (64 * p + k) = bit (addr ! p) (rev_pos k)"
        using k by (simp add: long_bit_def)
      ultimately show "(bit (addr ! p) (rev_pos k) \<and>
            quot \<le> rev_pos k \<and> rev_pos k < quot + (8 - rest) \<and> rev_pos k < 64) =
          (?P (64 * p + k) \<and> off \<le> 64 * p + k)"
        using kpos [of k] d [of k] part off by auto
    qed
    then have "is_first ?P off sz
           (if sz - 64 * p < 64 then found_first_bit tmp (sz - 64 * p) (64 * p)
            else if tmp \<noteq> 0 then 64 * p + reverse_ffs tmp
            else aligned_bit addr (p + 1) (sz - 64 * p - 64) (64 * p + 64))"
      using False assms cov by (intro partial_first) (auto simp: p_def)
    then show ?thesis
      using False part
      unfolding find_rev_next_bit_def Let_def p_def [symmetric] o'_def [symmetric] res
          quot_def [symmetric] rest_def [symmetric] msk_def [symmetric] tmp_def [symmetric]
      by (simp only: if_False)
  qed
qed

text \<open>The zero search is the search for ones in the complement.\<close>

lemma found_first_zero_bit_compl:
  assumes "sz < 64"
  shows "found_first_zero_bit tmp sz r = found_first_bit (NOT tmp) sz r"
proof -
  have m: "NOT (tmp OR push_bit sz (NOT 0)) = NOT tmp AND drop_bit (64 - sz) (NOT 0)"
    using assms
    by (auto simp: word_eq_bits bit_and_iff bit_or_iff bit_not_iff bit_push_bit_iff bit_drop_bit_eq
        bit_mask_iff dest: bit_imp_le_length)
  have "tmp OR push_bit sz (NOT 0) = NOT 0 \<longleftrightarrow> NOT (tmp OR push_bit sz (NOT 0)) = 0"
    by (metis bit.compl_zero bit.double_compl)
  then show ?thesis
    unfolding found_first_zero_bit_def found_first_bit_def Let_def reverse_ffz_def m by simp
qed

lemma aligned_zero_bit_compl:
  assumes "64 * p + sz \<le> 64 * length addr"
  shows "aligned_zero_bit addr p sz r = aligned_bit (map NOT addr) p sz r"
  using assms
proof (induction addr p sz r rule: aligned_zero_bit.induct)
  case (1 addr p sz r)
  consider "sz = 0" | "0 < sz" "sz < 64" | "64 \<le> sz" by linarith
  then show ?case
  proof cases
    case 1
    then show ?thesis by (simp add: aligned_zero_bit.simps [of addr p 0] aligned_bit.simps [of _ p 0])
  next
    case 2
    then have "p < length addr" using "1.prems" by linarith
    then show ?thesis
      using 2 by (simp add: aligned_zero_bit.simps [of addr p sz] aligned_bit.simps [of _ p sz]
          found_first_zero_bit_compl)
  next
    case 3
    then have "p < length addr" using "1.prems" by linarith
    moreover have "NOT (addr ! p) = 0 \<Longrightarrow>
        aligned_zero_bit addr (p + 1) (sz - 64) (r + 64) =
        aligned_bit (map NOT addr) (p + 1) (sz - 64) (r + 64)"
      using 3 "1.prems" by (intro "1.IH") auto
    ultimately show ?thesis
      using 3 by (simp add: aligned_zero_bit.simps [of addr p sz] aligned_bit.simps [of _ p sz]
          reverse_ffz_def)
  qed
qed

lemma covers_compl: "covers (NOT w) q (\<lambda>i. \<not> P i) \<longleftrightarrow> covers w q P"
proof -
  have "rev_pos k < 64" if "k < 64" for k using that rev_pos_less [of 64 k] by simp
  then show ?thesis by (auto simp: covers_def bit_not_iff)
qed

lemma byte_window_compl:
  "b < 8 \<Longrightarrow> r < 8 \<Longrightarrow>
     \<not> (8 * a + (7 - b) < 8 * c \<or> 8 * c + (8 - r) \<le> 8 * a + (7 - b) \<and> 8 * a + (7 - b) < 8 * c + 8) \<longleftrightarrow>
     8 * c + r \<le> 8 * a + (b :: nat)"
  by (cases a c rule: linorder_cases) auto

lemma find_rev_next_zero_bit_first:
  assumes "sz \<le> 64 * length addr" and "sz mod 8 = 0"
  shows "is_first (\<lambda>i. \<not> long_bit addr i) off sz (find_rev_next_zero_bit addr sz off)"
    (is "is_first ?P off sz _")
proof (cases "sz \<le> off")
  case True
  then show ?thesis by (auto simp: find_rev_next_zero_bit_def is_first_def)
next
  case False
  define p where "p = off div 64"
  define o' where "o' = off mod 64"
  have off: "off = 64 * p + o'" "o' < 64" by (simp_all add: p_def o'_def)
  have res: "off - o' = 64 * p" using off by simp
  have p: "p < length addr" using False assms(1) off by linarith
  have szm: "(sz - 64 * p) mod 8 = 0" using assms(2) by presburger
  have cov: "covers (map NOT addr ! q) q ?P" if "q < length addr" for q
    using that by (simp add: covers_compl) (simp add: covers_def long_bit_def)
  show ?thesis
  proof (cases "o' = 0")
    case True
    have "is_first ?P (64 * p) (64 * p + (sz - 64 * p))
        (aligned_bit (map NOT addr) p (sz - 64 * p) (64 * p))"
      using assms(1) szm False off True by (intro aligned_bit cov) auto
    moreover have "aligned_zero_bit addr p (sz - 64 * p) (64 * p) =
        aligned_bit (map NOT addr) p (sz - 64 * p) (64 * p)"
      using assms(1) False off True by (intro aligned_zero_bit_compl) auto
    ultimately show ?thesis
      using False True off res
      by (simp add: find_rev_next_zero_bit_def p_def [symmetric] o'_def [symmetric] Let_def)
  next
    case part: False
    define quot where "quot = 8 * (o' div 8)"
    define rest where "rest = o' mod 8"
    define msk where "msk = NOT (push_bit quot (NOT 0)) +
      push_bit quot (ucast (NOT (drop_bit rest (push_bit rest 0xff :: u8))) :: u64)"
    define tmp where "tmp = addr ! p OR msk"
    have qr: "rest < 8" "quot + 8 \<le> 64"
      using off(2) by (simp_all add: quot_def rest_def)
    have bm: "bit msk i \<longleftrightarrow> i < quot \<or> quot + (8 - rest) \<le> i \<and> i < quot + 8" for i
      unfolding msk_def by (rule first_zero_mask [OF qr])
    have kpos: "\<not> (rev_pos k < quot \<or> quot + (8 - rest) \<le> rev_pos k \<and> rev_pos k < quot + 8) \<longleftrightarrow> o' \<le> k"
      for k
      unfolding rev_pos_def quot_def rest_def
      by (subst byte_window_compl) (simp_all only: mod_less_divisor zero_less_numeral mult_div_mod_eq)
    have "covers (NOT tmp) p (\<lambda>i. ?P i \<and> off \<le> i)"
      unfolding covers_def tmp_def bit_not_iff bit_or_iff bm
    proof (intro allI impI)
      fix k :: nat
      assume k: "k < 64"
      then have "rev_pos k < 64" using rev_pos_less [of 64 k] by simp
      moreover have "long_bit addr (64 * p + k) = bit (addr ! p) (rev_pos k)"
        using k by (simp add: long_bit_def)
      ultimately show "(possible_bit TYPE(u64) (rev_pos k) \<and> \<not> (bit (addr ! p) (rev_pos k) \<or>
            rev_pos k < quot \<or> quot + (8 - rest) \<le> rev_pos k \<and> rev_pos k < quot + 8)) =
          (?P (64 * p + k) \<and> off \<le> 64 * p + k)"
        using kpos [of k] off(1) by auto
    qed
    then have "is_first ?P off sz
           (if sz - 64 * p < 64 then found_first_bit (NOT tmp) (sz - 64 * p) (64 * p)
            else if NOT tmp \<noteq> 0 then 64 * p + reverse_ffs (NOT tmp)
            else aligned_bit (map NOT addr) (p + 1) (sz - 64 * p - 64) (64 * p + 64))"
      using False assms cov by (intro partial_first) (auto simp: p_def)
    moreover have "find_rev_next_zero_bit addr sz off =
           (if sz - 64 * p < 64 then found_first_zero_bit tmp (sz - 64 * p) (64 * p)
            else if NOT tmp \<noteq> 0 then 64 * p + reverse_ffz tmp
            else aligned_zero_bit addr (p + 1) (sz - 64 * p - 64) (64 * p + 64))"
      using False part
      unfolding find_rev_next_zero_bit_def Let_def p_def [symmetric] o'_def [symmetric] res
          quot_def [symmetric] rest_def [symmetric] msk_def [symmetric] tmp_def [symmetric]
      by (simp only: if_False)
    moreover have "64 \<le> sz - 64 * p \<Longrightarrow>
        aligned_zero_bit addr (p + 1) (sz - 64 * p - 64) (64 * p + 64) =
        aligned_bit (map NOT addr) (p + 1) (sz - 64 * p - 64) (64 * p + 64)"
      using assms(1) by (intro aligned_zero_bit_compl) auto
    ultimately show ?thesis
      by (cases "sz - 64 * p < 64"; cases "NOT tmp = 0")
        (simp_all add: found_first_zero_bit_compl reverse_ffz_def)
  qed
qed

definition longs_valid :: "u64 list \<Rightarrow> nat \<Rightarrow> bool" where
  "longs_valid addr sz \<longleftrightarrow> sz \<le> 64 * length addr \<and> sz mod 8 = 0"

interpretation rev0: bit_search find_rev_next_zero_bit "\<lambda>addr i. \<not> long_bit addr i" longs_valid
proof (unfold_locales, goal_cases)
  case (1 m sz off)
  then show ?case using find_rev_next_zero_bit_first [of sz m off] by (simp add: longs_valid_def is_first_def)
next
  case (2 m sz off)
  then show ?case using find_rev_next_zero_bit_first [of sz m off] by (simp add: longs_valid_def is_first_def)
next
  case (3 m sz off i)
  then show ?case using find_rev_next_zero_bit_first [of sz m off] by (simp add: longs_valid_def is_first_def)
qed


section \<open>Longs over bytes\<close>

text \<open>
  The code reads a byte map through an \<open>unsigned long *\<close> (little-endian); the bits of the
  two views agree.
\<close>

definition long_at :: "bytemap \<Rightarrow> nat \<Rightarrow> u64" where
  "long_at bs j = fold (\<lambda>k acc. acc OR push_bit (8 * k) (ucast (bs ! (8 * j + k)))) [0..<8] 0"

definition longs_of_bytes :: "bytemap \<Rightarrow> u64 list" where
  "longs_of_bytes bs = map (long_at bs) [0..<length bs div 8]"

lemma bit_fold_bytes:
  "n \<le> 8 \<Longrightarrow>
     bit (fold (\<lambda>k acc. acc OR push_bit (8 * k) (ucast (bs ! (8 * j + k)))) [0..<n] (0 :: u64)) i \<longleftrightarrow>
     i < 8 * n \<and> bit (bs ! (8 * j + i div 8) :: u8) (i mod 8)"
proof (induction n)
  case 0
  then show ?case by simp
next
  case (Suc n)
  have "bit (push_bit (8 * n) (ucast (bs ! (8 * j + n)) :: u64)) i \<longleftrightarrow>
      8 * n \<le> i \<and> i < 8 * Suc n \<and> bit (bs ! (8 * j + i div 8)) (i mod 8)"
  proof (cases "8 * n \<le> i \<and> i < 8 * Suc n")
    case True
    then have d: "i div 8 = n" by (intro div_nat_eqI) auto
    then have "i mod 8 = i - 8 * n" using minus_mult_div_eq_mod [of i 8] by simp
    then show ?thesis using True Suc.prems d by (auto simp: bit_push_bit_iff bit_ucast_iff)
  next
    case False
    have "bit (bs ! (8 * j + n)) (i - 8 * n) \<Longrightarrow> i - 8 * n < 8"
      using bit_imp_le_length [of "bs ! (8 * j + n)" "i - 8 * n"] by simp
    with False show ?thesis by (simp add: bit_push_bit_iff bit_ucast_iff) linarith
  qed
  then show ?case
    using Suc by (auto simp: bit_or_iff)
qed

lemma bit_long_at: "bit (long_at bs j) i \<longleftrightarrow> i < 64 \<and> bit (bs ! (8 * j + i div 8)) (i mod 8)"
  unfolding long_at_def by (subst bit_fold_bytes) simp_all

lemma rev_pos_mod: "rev_pos k mod 8 = byte_pos k"
  unfolding rev_pos_def byte_pos_def
  by (rule trans [OF mod_mult_self4]) simp

lemma long_bit_of_bytes:
  assumes "k < 64 * (length bs div 8)"
  shows "long_bit (longs_of_bytes bs) k = byte_bit bs k"
proof -
  have "rev_pos (k mod 64) < 64" using rev_pos_less [of 64 "k mod 64"] by simp
  moreover have "8 * (k div 64) + k mod 64 div 8 = k div 8"
    using long_byte [of "k div 64" "k mod 64"] by simp
  moreover have "byte_pos (k mod 64) = byte_pos k"
    by (simp add: byte_pos_def mod_mod_cancel)
  moreover have "k div 64 < length bs div 8" using assms by (simp add: less_mult_imp_div_less mult.commute)
  ultimately show ?thesis
    by (simp add: long_bit_def longs_of_bytes_def bit_long_at byte_bit_iff rev_pos_byte rev_pos_mod)
qed

lemma length_longs_of_bytes [simp]: "length (longs_of_bytes bs) = length bs div 8"
  by (simp add: longs_of_bytes_def)

section \<open>Properties\<close>

text \<open>
  \<open>__find_rev_next_zero_bit\<close> returns the first clear position at or after the offset
  in the reversed bit order of a block map, or the size when there is none, for every offset
  and every map of whole bytes.
\<close>
theorem find_rev_next_zero_bit_correct:
  assumes "longs_valid addr sz"
  shows "find_rev_next_zero_bit addr sz off \<le> sz \<and>
    (find_rev_next_zero_bit addr sz off = sz \<longleftrightarrow> (\<forall>i. off \<le> i \<and> i < sz \<longrightarrow> long_bit addr i)) \<and>
    (find_rev_next_zero_bit addr sz off < sz \<longrightarrow>
       off \<le> find_rev_next_zero_bit addr sz off \<and>
       \<not> long_bit addr (find_rev_next_zero_bit addr sz off) \<and>
       (\<forall>i. off \<le> i \<and> i < find_rev_next_zero_bit addr sz off \<longrightarrow> long_bit addr i))"
  using rev0.search_le [OF assms, of off] rev0.search_hit [OF assms, of off]
    rev0.search_least [OF assms, of off] rev0.search_none_iff [OF assms, of off]
  by (metis antisym le_refl)

theorem find_rev_next_zero_bit_correct_witness:
  "find_rev_next_zero_bit [0x80FF] 64 2 \<le> 64 \<and> find_rev_next_zero_bit [0x80FF] 64 2 = 9"
proof -
  have "longs_valid [0x80FF] 64" by (simp add: longs_valid_def)
  from find_rev_next_zero_bit_correct [OF this, of 2]
  have "find_rev_next_zero_bit [0x80FF] 64 2 \<le> 64" by blast
  moreover have "find_rev_next_zero_bit [0x80FF] 64 2 = 9" by code_simp
  ultimately show ?thesis by blast
qed

text \<open>
  \<open>__find_rev_next_bit\<close> returns the first set position at or after the offset among
  those it looks at: from an offset inside a long it looks at the rest of the offset's byte and
  then at the following longs, and nowhere else.
\<close>
theorem find_rev_next_bit_behaviour:
  assumes "longs_valid addr sz"
  shows "is_first (\<lambda>i. long_bit addr i \<and>
             (off mod 64 = 0 \<or> i div 8 = off div 8 \<or> i div 64 \<noteq> off div 64))
           off sz (find_rev_next_bit addr sz off)"
  using assms unfolding longs_valid_def by (intro find_rev_next_bit_first) auto

theorem find_rev_next_bit_behaviour_witness:
  "longs_valid [0, 0x80] 128 \<and> find_rev_next_bit [0, 0x80] 128 3 = 64 \<and>
   is_first (\<lambda>i. long_bit [0, 0x80] i \<and> (3 mod 64 = (0::nat) \<or> i div 8 = 3 div 8 \<or> i div 64 \<noteq> 3 div 64))
     3 128 (find_rev_next_bit [0, 0x80] 128 3)"
proof -
  have v: "longs_valid [0, 0x80] 128" by (simp add: longs_valid_def)
  have "find_rev_next_bit [0, 0x80] 128 3 = 64" by code_simp
  then show ?thesis using find_rev_next_bit_behaviour [OF v, of 3] v by blast
qed

text \<open>
  from an offset that is not a multiple of 64, \<open>__find_rev_next_bit\<close> never returns a
  position of a later byte of the same long, set or not: the mask of the first, partial long
  keeps one byte only.
\<close>
theorem find_rev_next_bit_skips_bytes:
  assumes "longs_valid addr sz" and "off mod 64 \<noteq> 0"
    and "i div 64 = off div 64" and "i div 8 \<noteq> off div 8" and "i < sz"
  shows "find_rev_next_bit addr sz off \<noteq> i"
proof
  assume r: "find_rev_next_bit addr sz off = i"
  have "is_first (\<lambda>i. long_bit addr i \<and>
             (off mod 64 = 0 \<or> i div 8 = off div 8 \<or> i div 64 \<noteq> off div 64)) off sz i"
    using find_rev_next_bit_first [of sz addr off] assms(1) by (simp add: r longs_valid_def)
  with assms(2-5) show False by (simp add: is_first_def)
qed

theorem find_rev_next_bit_skips_bytes_witness:
  "long_bit [0x4000] 9 \<and> find_rev_next_bit [0x4000] 64 1 \<noteq> 9"
proof -
  have v: "longs_valid [0x4000] 64" by (simp add: longs_valid_def)
  have "long_bit [0x4000] 9" by code_simp
  then show ?thesis using find_rev_next_bit_skips_bytes [OF v, of 1 9] by simp
qed

end
