(* ===== verification/Disk_Layout.thy ===== *)
theory Disk_Layout
  imports F2FS_Prelude
begin

text \<open>
  The constants of the on-disk format. They are declared in the kernel header
  \<open>linux/f2fs_fs.h\<close>, which is not part of the repository, so they are a parameter of the
  model: a record that the definitions take as an argument. \<open>layout_ok\<close> states what the
  code relies on (table sizes are not zero, flag masks are distinct bits, the two special
  block addresses differ); \<open>small_layout\<close> is a concrete instance for evaluation.
\<close>

text \<open>The file types of a directory entry; their numbers are in the header too.\<close>

datatype f2fs_ft = F2FS_FT_UNKNOWN | F2FS_FT_REG_FILE | F2FS_FT_DIR | F2FS_FT_CHRDEV | F2FS_FT_BLKDEV
  | F2FS_FT_FIFO | F2FS_FT_SOCK | F2FS_FT_SYMLINK

record layout =
  addrs_per_block :: nat         \<comment> \<open>ADDRS_PER_BLOCK\<close>
  nids_per_block :: nat          \<comment> \<open>NIDS_PER_BLOCK\<close>
  def_addrs_per_inode :: nat     \<comment> \<open>DEF_ADDRS_PER_INODE\<close>
  inline_xattr_addrs :: nat      \<comment> \<open>F2FS_INLINE_XATTR_ADDRS\<close>
  node_dir1_block :: nat         \<comment> \<open>NODE_DIR1_BLOCK\<close>
  node_dir2_block :: nat         \<comment> \<open>NODE_DIR2_BLOCK\<close>
  node_ind1_block :: nat         \<comment> \<open>NODE_IND1_BLOCK\<close>
  node_ind2_block :: nat         \<comment> \<open>NODE_IND2_BLOCK\<close>
  node_dind_block :: nat         \<comment> \<open>NODE_DIND_BLOCK\<close>
  offset_bit_shift :: nat        \<comment> \<open>OFFSET_BIT_SHIFT\<close>
  offset_bit_mask :: u32         \<comment> \<open>OFFSET_BIT_MASK\<close>
  cold_bit_shift :: nat          \<comment> \<open>COLD_BIT_SHIFT\<close>
  fsync_bit_shift :: nat         \<comment> \<open>FSYNC_BIT_SHIFT\<close>
  dent_bit_shift :: nat          \<comment> \<open>DENT_BIT_SHIFT\<close>
  inline_xattr_mask :: u8        \<comment> \<open>F2FS_INLINE_XATTR\<close>
  inline_data_mask :: u8         \<comment> \<open>F2FS_INLINE_DATA\<close>
  inline_dentry_mask :: u8       \<comment> \<open>F2FS_INLINE_DENTRY\<close>
  data_exist_mask :: u8          \<comment> \<open>F2FS_DATA_EXIST\<close>
  inline_dots_mask :: u8         \<comment> \<open>F2FS_INLINE_DOTS\<close>
  null_addr :: u32               \<comment> \<open>NULL_ADDR\<close>
  new_addr :: u32                \<comment> \<open>NEW_ADDR\<close>
  hash_col_bit :: u32            \<comment> \<open>F2FS_HASH_COL_BIT\<close>
  sit_vblock_map_size :: nat     \<comment> \<open>SIT_VBLOCK_MAP_SIZE\<close>
  sit_vblocks_shift :: nat       \<comment> \<open>SIT_VBLOCKS_SHIFT\<close>
  sit_entry_per_block :: nat     \<comment> \<open>SIT_ENTRY_PER_BLOCK\<close>
  nat_entry_per_block :: nat     \<comment> \<open>NAT_ENTRY_PER_BLOCK\<close>
  slot_len :: nat                \<comment> \<open>F2FS_SLOT_LEN\<close>
  nr_dentry_in_block :: nat      \<comment> \<open>NR_DENTRY_IN_BLOCK\<close>
  nr_inline_dentry :: nat        \<comment> \<open>NR_INLINE_DENTRY\<close>
  super_magic :: u32             \<comment> \<open>F2FS_SUPER_MAGIC\<close>
  nat_journal_entries :: nat     \<comment> \<open>NAT_JOURNAL_ENTRIES\<close>
  sit_journal_entries :: nat     \<comment> \<open>SIT_JOURNAL_ENTRIES\<close>
  reserved_node_num :: u32       \<comment> \<open>F2FS_RESERVED_NODE_NUM\<close>
  orphans_per_block :: nat       \<comment> \<open>F2FS_ORPHANS_PER_BLOCK\<close>
  sum_journal_size :: nat        \<comment> \<open>SUM_JOURNAL_SIZE\<close>
  summary_size :: nat            \<comment> \<open>SUMMARY_SIZE\<close>
  sum_footer_size :: nat         \<comment> \<open>SUM_FOOTER_SIZE\<close>
  page_size :: nat               \<comment> \<open>PAGE_CACHE_SIZE\<close>
  max_dir_hash_depth :: nat      \<comment> \<open>MAX_DIR_HASH_DEPTH\<close>
  max_dir_buckets :: nat         \<comment> \<open>MAX_DIR_BUCKETS\<close>
  name_len :: nat                \<comment> \<open>F2FS_NAME_LEN\<close>
  cp_umount_flag :: u32          \<comment> \<open>CP_UMOUNT_FLAG\<close>
  cp_orphan_present_flag :: u32  \<comment> \<open>CP_ORPHAN_PRESENT_FLAG\<close>
  cp_compact_sum_flag :: u32     \<comment> \<open>CP_COMPACT_SUM_FLAG\<close>
  cp_error_flag :: u32           \<comment> \<open>CP_ERROR_FLAG\<close>
  cp_fsck_flag :: u32            \<comment> \<open>CP_FSCK_FLAG\<close>
  cp_fastboot_flag :: u32        \<comment> \<open>CP_FASTBOOT_FLAG\<close>
  f2fs_cp_packs :: nat           \<comment> \<open>F2FS_CP_PACKS\<close>
  node_footer_size :: nat        \<comment> \<open>sizeof(struct node_footer)\<close>
  dentry_slots :: "nat \<Rightarrow> nat"   \<comment> \<open>GET_DENTRY_SLOTS\<close>
  ft_code :: "f2fs_ft \<Rightarrow> u8"     \<comment> \<open>F2FS_FT_UNKNOWN, ..., F2FS_FT_SYMLINK\<close>
  ft_max :: u8                   \<comment> \<open>F2FS_FT_MAX\<close>
  max_inline_data :: nat         \<comment> \<open>MAX_INLINE_DATA\<close>
  inline_dentry_bitmap_size :: nat  \<comment> \<open>INLINE_DENTRY_BITMAP_SIZE\<close>

definition layout_ok :: "layout \<Rightarrow> bool" where
  "layout_ok L \<longleftrightarrow>
     0 < addrs_per_block L \<and> 0 < nids_per_block L \<and> nids_per_block L < 2 ^ 15 \<and>
     7 + 2 * nids_per_block L + nids_per_block L * (nids_per_block L + 1)
       < 2 ^ (32 - offset_bit_shift L) \<and>
     inline_xattr_addrs L < def_addrs_per_inode L \<and>
     0 < sit_vblock_map_size L \<and> sit_vblock_map_size L mod 8 = 0 \<and>
     0 < sit_entry_per_block L \<and> 0 < nat_entry_per_block L \<and>
     0 < slot_len L \<and> 0 < nr_dentry_in_block L \<and>
     offset_bit_shift L < 32 \<and> offset_bit_mask L = mask (offset_bit_shift L) \<and>
     cold_bit_shift L < offset_bit_shift L \<and> fsync_bit_shift L < offset_bit_shift L \<and>
     dent_bit_shift L < offset_bit_shift L \<and>
     distinct [cold_bit_shift L, fsync_bit_shift L, dent_bit_shift L] \<and>
     null_addr L \<noteq> new_addr L"

definition cp_flags :: "layout \<Rightarrow> u32 list" where
  "cp_flags L = [cp_umount_flag L, cp_orphan_present_flag L, cp_compact_sum_flag L, cp_error_flag L,
     cp_fsck_flag L, cp_fastboot_flag L]"

text \<open>The checkpoint flags are distinct bits.\<close>

definition cp_flags_ok :: "layout \<Rightarrow> bool" where
  "cp_flags_ok L \<longleftrightarrow> (\<forall>i<6. \<forall>j<6. (cp_flags L ! i AND cp_flags L ! j \<noteq> 0) = (i = j))"

definition inline_masks :: "layout \<Rightarrow> u8 list" where
  "inline_masks L = [inline_xattr_mask L, inline_data_mask L, inline_dentry_mask L,
     data_exist_mask L, inline_dots_mask L]"

text \<open>The inline flags are distinct bits of the inode's \<open>i_inline\<close> byte.\<close>

definition inline_masks_ok :: "layout \<Rightarrow> bool" where
  "inline_masks_ok L \<longleftrightarrow>
     (\<forall>i<5. \<forall>j<5. (inline_masks L ! i AND inline_masks L ! j \<noteq> 0) = (i = j))"

definition small_layout :: layout where
  "small_layout = \<lparr>
     addrs_per_block = 4, nids_per_block = 3, def_addrs_per_inode = 6, inline_xattr_addrs = 2,
     node_dir1_block = 7, node_dir2_block = 8, node_ind1_block = 9, node_ind2_block = 10,
     node_dind_block = 11, offset_bit_shift = 3, offset_bit_mask = 7,
     cold_bit_shift = 0, fsync_bit_shift = 1, dent_bit_shift = 2,
     inline_xattr_mask = 1, inline_data_mask = 2, inline_dentry_mask = 4, data_exist_mask = 8,
     inline_dots_mask = 16,
     null_addr = 0, new_addr = 0xFFFFFFFF, hash_col_bit = 0x80000000,
     sit_vblock_map_size = 8, sit_vblocks_shift = 10, sit_entry_per_block = 4,
     nat_entry_per_block = 4, slot_len = 8, nr_dentry_in_block = 16, nr_inline_dentry = 8,
     super_magic = 0xF2F52010, nat_journal_entries = 2, sit_journal_entries = 2,
     reserved_node_num = 3, orphans_per_block = 4, sum_journal_size = 32, summary_size = 7,
     sum_footer_size = 5, page_size = 64, max_dir_hash_depth = 6, max_dir_buckets = 1024,
     name_len = 20, cp_umount_flag = 1, cp_orphan_present_flag = 2, cp_compact_sum_flag = 4,
     cp_error_flag = 8, cp_fsck_flag = 16, cp_fastboot_flag = 32, f2fs_cp_packs = 2,
     node_footer_size = 24, dentry_slots = (\<lambda>n. (n + 7) div 8),
     ft_code = (\<lambda>t. case t of F2FS_FT_UNKNOWN \<Rightarrow> 0 | F2FS_FT_REG_FILE \<Rightarrow> 1 | F2FS_FT_DIR \<Rightarrow> 2 | F2FS_FT_CHRDEV \<Rightarrow> 3
       | F2FS_FT_BLKDEV \<Rightarrow> 4 | F2FS_FT_FIFO \<Rightarrow> 5 | F2FS_FT_SOCK \<Rightarrow> 6 | F2FS_FT_SYMLINK \<Rightarrow> 7),
     ft_max = 8, max_inline_data = 40, inline_dentry_bitmap_size = 1 \<rparr>"

lemma small_layout_ok: "layout_ok small_layout"
  by (simp add: layout_ok_def small_layout_def mask_eq_exp_minus_1)

lemma all_less_5: "(\<forall>i<5. P i) \<longleftrightarrow> P 0 \<and> P 1 \<and> P 2 \<and> P 3 \<and> P (4::nat)"
proof -
  have "i < 5 \<longleftrightarrow> i = 0 \<or> i = 1 \<or> i = 2 \<or> i = 3 \<or> i = 4" for i :: nat by auto
  then show ?thesis by auto
qed

lemma small_layout_masks: "inline_masks_ok small_layout"
  unfolding inline_masks_ok_def all_less_5
  by (simp add: inline_masks_def small_layout_def)

end
