(* ===== verification/Inode_State.thy ===== *)
theory Inode_State
  imports Disk_Layout
begin

text \<open>
  The in-memory inode (\<open>struct f2fs_inode_info\<close>, \<open>f2fs.h\<close>): its per-file flags, the flag
  accessors, and the exchange of the inline flags with the on-disk inode.
\<close>

section \<open>State\<close>

record extent_info =
  fofs :: u32
  blk :: u32
  len :: u32

record f2fs_inode_info =
  i_mode_dir :: bool          \<comment> \<open>S_ISDIR(vfs_inode.i_mode)\<close>
  i_mode_reg :: bool          \<comment> \<open>S_ISREG(vfs_inode.i_mode)\<close>
  i_blocks :: u64             \<comment> \<open>vfs_inode.i_blocks\<close>
  i_advise :: u8
  i_dir_level :: nat
  i_current_depth :: nat
  i_acl_mode :: u16
  i_flags :: u64              \<comment> \<open>flags\<close>
  dirty_pages :: u32
  i_xattr_nid :: u32
  i_ext :: extent_info        \<comment> \<open>ext\<close>

text \<open>The flag numbers, in the order of the enumeration in \<open>f2fs.h\<close>.\<close>

datatype fi_flag =
  FI_NEW_INODE | FI_DIRTY_INODE | FI_DIRTY_DIR | FI_INC_LINK | FI_ACL_MODE | FI_NO_ALLOC
| FI_UPDATE_DIR | FI_DELAY_IPUT | FI_NO_EXTENT | FI_INLINE_XATTR | FI_INLINE_DATA
| FI_INLINE_DENTRY | FI_APPEND_WRITE | FI_UPDATE_WRITE | FI_NEED_IPU | FI_ATOMIC_FILE
| FI_VOLATILE_FILE | FI_FIRST_BLOCK_WRITTEN | FI_DROP_CACHE | FI_DATA_EXIST | FI_INLINE_DOTS

fun fi_no :: "fi_flag \<Rightarrow> nat" where
  "fi_no FI_NEW_INODE = 0"
| "fi_no FI_DIRTY_INODE = 1"
| "fi_no FI_DIRTY_DIR = 2"
| "fi_no FI_INC_LINK = 3"
| "fi_no FI_ACL_MODE = 4"
| "fi_no FI_NO_ALLOC = 5"
| "fi_no FI_UPDATE_DIR = 6"
| "fi_no FI_DELAY_IPUT = 7"
| "fi_no FI_NO_EXTENT = 8"
| "fi_no FI_INLINE_XATTR = 9"
| "fi_no FI_INLINE_DATA = 10"
| "fi_no FI_INLINE_DENTRY = 11"
| "fi_no FI_APPEND_WRITE = 12"
| "fi_no FI_UPDATE_WRITE = 13"
| "fi_no FI_NEED_IPU = 14"
| "fi_no FI_ATOMIC_FILE = 15"
| "fi_no FI_VOLATILE_FILE = 16"
| "fi_no FI_FIRST_BLOCK_WRITTEN = 17"
| "fi_no FI_DROP_CACHE = 18"
| "fi_no FI_DATA_EXIST = 19"
| "fi_no FI_INLINE_DOTS = 20"

definition is_inode_flag_set :: "f2fs_inode_info \<Rightarrow> fi_flag \<Rightarrow> bool" where
  "is_inode_flag_set fi flag = bit (i_flags fi) (fi_no flag)"

definition set_inode_flag :: "f2fs_inode_info \<Rightarrow> fi_flag \<Rightarrow> f2fs_inode_info" where
  "set_inode_flag fi flag =
     (if \<not> bit (i_flags fi) (fi_no flag)
      then fi\<lparr>i_flags := set_bit (fi_no flag) (i_flags fi)\<rparr> else fi)"

definition clear_inode_flag :: "f2fs_inode_info \<Rightarrow> fi_flag \<Rightarrow> f2fs_inode_info" where
  "clear_inode_flag fi flag =
     (if bit (i_flags fi) (fi_no flag)
      then fi\<lparr>i_flags := unset_bit (fi_no flag) (i_flags fi)\<rparr> else fi)"

definition set_acl_inode :: "f2fs_inode_info \<Rightarrow> u16 \<Rightarrow> f2fs_inode_info" where
  "set_acl_inode fi mode = set_inode_flag (fi\<lparr>i_acl_mode := mode\<rparr>) FI_ACL_MODE"

definition f2fs_clear_inline_inode :: "f2fs_inode_info \<Rightarrow> f2fs_inode_info" where
  "f2fs_clear_inline_inode fi =
     clear_inode_flag (clear_inode_flag fi FI_INLINE_DATA) FI_DATA_EXIST"

abbreviation f2fs_has_inline_xattr :: "f2fs_inode_info \<Rightarrow> bool" where
  "f2fs_has_inline_xattr fi \<equiv> is_inode_flag_set fi FI_INLINE_XATTR"

definition addrs_per_inode :: "layout \<Rightarrow> f2fs_inode_info \<Rightarrow> nat" where
  "addrs_per_inode L fi =
     (if f2fs_has_inline_xattr fi then def_addrs_per_inode L - inline_xattr_addrs L
      else def_addrs_per_inode L)"

definition inline_xattr_size :: "layout \<Rightarrow> f2fs_inode_info \<Rightarrow> nat" where
  "inline_xattr_size L fi = (if f2fs_has_inline_xattr fi then inline_xattr_addrs L * 4 else 0)"

section \<open>Inline flags on disk\<close>

text \<open>\<open>get_inline_info\<close> and \<open>set_raw_inline\<close>; the on-disk inode is its \<open>i_inline\<close> byte.\<close>

definition get_inline_info :: "layout \<Rightarrow> f2fs_inode_info \<Rightarrow> u8 \<Rightarrow> f2fs_inode_info" where
  "get_inline_info L fi i_inline =
     (let fi = (if i_inline AND inline_xattr_mask L \<noteq> 0 then set_inode_flag fi FI_INLINE_XATTR else fi);
          fi = (if i_inline AND inline_data_mask L \<noteq> 0 then set_inode_flag fi FI_INLINE_DATA else fi);
          fi = (if i_inline AND inline_dentry_mask L \<noteq> 0 then set_inode_flag fi FI_INLINE_DENTRY else fi);
          fi = (if i_inline AND data_exist_mask L \<noteq> 0 then set_inode_flag fi FI_DATA_EXIST else fi);
          fi = (if i_inline AND inline_dots_mask L \<noteq> 0 then set_inode_flag fi FI_INLINE_DOTS else fi)
      in fi)"

definition set_raw_inline :: "layout \<Rightarrow> f2fs_inode_info \<Rightarrow> u8" where
  "set_raw_inline L fi =
     (let r = 0;
          r = (if is_inode_flag_set fi FI_INLINE_XATTR then r OR inline_xattr_mask L else r);
          r = (if is_inode_flag_set fi FI_INLINE_DATA then r OR inline_data_mask L else r);
          r = (if is_inode_flag_set fi FI_INLINE_DENTRY then r OR inline_dentry_mask L else r);
          r = (if is_inode_flag_set fi FI_DATA_EXIST then r OR data_exist_mask L else r);
          r = (if is_inode_flag_set fi FI_INLINE_DOTS then r OR inline_dots_mask L else r)
      in r)"

lemma fi_no_less: "fi_no flag < 21"
  by (cases flag) simp_all

lemma fi_no_inj [simp]: "fi_no a = fi_no b \<longleftrightarrow> a = b"
  by (cases a; cases b) simp_all

lemma flag_after_set [simp]:
  "is_inode_flag_set (set_inode_flag fi a) b \<longleftrightarrow> b = a \<or> is_inode_flag_set fi b"
  using fi_no_less [of a]
  by (auto simp: is_inode_flag_set_def set_inode_flag_def bit_set_bit_iff)

lemma flag_after_clear [simp]:
  "is_inode_flag_set (clear_inode_flag fi a) b \<longleftrightarrow> b \<noteq> a \<and> is_inode_flag_set fi b"
  by (auto simp: is_inode_flag_set_def clear_inode_flag_def bit_unset_bit_iff)

lemma flag_frame [frame_laws]:
  "i_advise (set_inode_flag fi a) = i_advise fi" "i_blocks (set_inode_flag fi a) = i_blocks fi"
  "i_advise (clear_inode_flag fi a) = i_advise fi" "i_blocks (clear_inode_flag fi a) = i_blocks fi"
  "i_ext (set_inode_flag fi a) = i_ext fi" "i_ext (clear_inode_flag fi a) = i_ext fi"
  by (simp_all add: set_inode_flag_def clear_inode_flag_def)

definition inline_flags :: "fi_flag list" where
  "inline_flags = [FI_INLINE_XATTR, FI_INLINE_DATA, FI_INLINE_DENTRY, FI_DATA_EXIST, FI_INLINE_DOTS]"

lemma get_inline_info_flag:
  "is_inode_flag_set (get_inline_info L fi r) f \<longleftrightarrow>
     is_inode_flag_set fi f \<or>
     (f = FI_INLINE_XATTR \<and> r AND inline_xattr_mask L \<noteq> 0) \<or>
     (f = FI_INLINE_DATA \<and> r AND inline_data_mask L \<noteq> 0) \<or>
     (f = FI_INLINE_DENTRY \<and> r AND inline_dentry_mask L \<noteq> 0) \<or>
     (f = FI_DATA_EXIST \<and> r AND data_exist_mask L \<noteq> 0) \<or>
     (f = FI_INLINE_DOTS \<and> r AND inline_dots_mask L \<noteq> 0)"
  by (auto simp: get_inline_info_def Let_def)

lemma masks_disjoint:
  assumes "inline_masks_ok L" and "i < 5" and "j < 5"
  shows "inline_masks L ! i AND inline_masks L ! j = 0 \<longleftrightarrow> i \<noteq> j"
  using assms unfolding inline_masks_ok_def by blast

text \<open>
  The inline flags survive a trip through the on-disk inode: reading back with
  \<open>get_inline_info\<close> what \<open>set_raw_inline\<close> wrote sets each of the five inline flags exactly
  when it was set (or was set already in the inode read into), and no other flag changes.
\<close>
theorem inline_flags_roundtrip:
  assumes "inline_masks_ok L"
  shows "is_inode_flag_set (get_inline_info L fi0 (set_raw_inline L fi)) f \<longleftrightarrow>
     is_inode_flag_set fi0 f \<or> f \<in> set inline_flags \<and> is_inode_flag_set fi f"
proof -
  define g where "g = is_inode_flag_set fi"
  note m = masks_disjoint [OF assms, unfolded inline_masks_def]
  have d: "inline_xattr_mask L AND inline_data_mask L = 0" "inline_xattr_mask L AND inline_dentry_mask L = 0"
    "inline_xattr_mask L AND data_exist_mask L = 0" "inline_xattr_mask L AND inline_dots_mask L = 0"
    "inline_data_mask L AND inline_dentry_mask L = 0" "inline_data_mask L AND data_exist_mask L = 0"
    "inline_data_mask L AND inline_dots_mask L = 0" "inline_dentry_mask L AND data_exist_mask L = 0"
    "inline_dentry_mask L AND inline_dots_mask L = 0" "data_exist_mask L AND inline_dots_mask L = 0"
    using m [of 0 1] m [of 0 2] m [of 0 3] m [of 0 4] m [of 1 2] m [of 1 3] m [of 1 4] m [of 2 3]
      m [of 2 4] m [of 3 4] by simp_all
  have n: "inline_xattr_mask L \<noteq> 0" "inline_data_mask L \<noteq> 0" "inline_dentry_mask L \<noteq> 0"
    "data_exist_mask L \<noteq> 0" "inline_dots_mask L \<noteq> 0"
    using m [of 0 0] m [of 1 1] m [of 2 2] m [of 3 3] m [of 4 4] by simp_all
  have z: "w AND x = 0 \<Longrightarrow> x AND w = 0" for w x :: u8 by (simp add: and.commute)
  have r: "set_raw_inline L fi AND inline_xattr_mask L \<noteq> 0 \<longleftrightarrow> g FI_INLINE_XATTR"
    "set_raw_inline L fi AND inline_data_mask L \<noteq> 0 \<longleftrightarrow> g FI_INLINE_DATA"
    "set_raw_inline L fi AND inline_dentry_mask L \<noteq> 0 \<longleftrightarrow> g FI_INLINE_DENTRY"
    "set_raw_inline L fi AND data_exist_mask L \<noteq> 0 \<longleftrightarrow> g FI_DATA_EXIST"
    "set_raw_inline L fi AND inline_dots_mask L \<noteq> 0 \<longleftrightarrow> g FI_INLINE_DOTS"
    using n d d [THEN z]
    by (simp_all add: set_raw_inline_def Let_def g_def [symmetric] bit.conj_disj_distrib2)
  show ?thesis
    unfolding get_inline_info_flag r by (auto simp: inline_flags_def g_def)
qed

theorem inline_flags_roundtrip_witness:
  "let fi = \<lparr>i_mode_dir = False, i_mode_reg = True, i_blocks = 1, i_advise = 0, i_dir_level = 0,
       i_current_depth = 0, i_acl_mode = 0, i_flags = 0, dirty_pages = 0, i_xattr_nid = 0,
       i_ext = \<lparr>fofs = 0, blk = 0, len = 0\<rparr>\<rparr>
   in is_inode_flag_set (get_inline_info small_layout fi
        (set_raw_inline small_layout (fi\<lparr>i_flags := 2 ^ 10\<rparr>))) FI_INLINE_DATA"
  unfolding Let_def
  unfolding inline_flags_roundtrip [OF small_layout_masks]
  by (simp add: is_inode_flag_set_def inline_flags_def bit_exp_iff)

end
