(* ===== verification/Node_Path.thy ===== *)
theory Node_Path
  imports Inode_State
begin

text \<open>
  The tree of node blocks below an inode: \<open>get_node_path\<close> of \<open>node.c\<close> (from a block index to
  the path of offsets and node numbers), its inverse \<open>start_bidx_of_node\<close> of \<open>gc.c\<close>, the
  classification \<open>IS_DNODE\<close> of \<open>node.h\<close>, the limit \<open>max_file_size\<close> of \<open>super.c\<close>, the step
  \<open>PGOFS_OF_NEXT_DNODE\<close> of \<open>f2fs.h\<close>, and the node footer of \<open>node.h\<close>.
\<close>

section \<open>From block index to node path\<close>

text \<open>
  The result is the level with the offsets and the node offsets of the path, entry \<open>k\<close> being
  the one at depth \<open>k\<close>; \<open>None\<close> is the \<open>BUG()\<close> of the code. The block index is the file's
  page index, which is not negative.
\<close>

definition get_node_path :: "layout \<Rightarrow> f2fs_inode_info \<Rightarrow> nat \<Rightarrow> (nat \<times> nat list \<times> nat list) option" where
  "get_node_path L fi block =
     (let direct_index = addrs_per_inode L fi;
          direct_blks = addrs_per_block L;
          dptrs_per_blk = nids_per_block L;
          indirect_blks = addrs_per_block L * nids_per_block L;
          dindirect_blks = indirect_blks * nids_per_block L
      in if block < direct_index then Some (0, [block], [0])
         else let block = block - direct_index
         in if block < direct_blks then Some (1, [node_dir1_block L, block], [0, 1])
         else let block = block - direct_blks
         in if block < direct_blks then Some (1, [node_dir2_block L, block], [0, 2])
         else let block = block - direct_blks
         in if block < indirect_blks
         then Some (2, [node_ind1_block L, block div direct_blks, block mod direct_blks],
                    [0, 3, 4 + block div direct_blks])
         else let block = block - indirect_blks
         in if block < indirect_blks
         then Some (2, [node_ind2_block L, block div direct_blks, block mod direct_blks],
                    [0, 4 + dptrs_per_blk, 5 + dptrs_per_blk + block div direct_blks])
         else let block = block - indirect_blks
         in if block < dindirect_blks
         then let o1 = block div indirect_blks; o2 = (block div direct_blks) mod dptrs_per_blk
              in Some (3, [node_dind_block L, o1, o2, block mod direct_blks],
                       [0, 5 + dptrs_per_blk * 2, 6 + dptrs_per_blk * 2 + o1 * (dptrs_per_blk + 1),
                        7 + dptrs_per_blk * 2 + o1 * (dptrs_per_blk + 1) + o2])
         else None)"

text \<open>Unsigned 32-bit arithmetic, as in the code.\<close>

definition start_bidx_of_node :: "layout \<Rightarrow> u32 \<Rightarrow> f2fs_inode_info \<Rightarrow> u32" where
  "start_bidx_of_node L node_ofs fi =
     (let indirect_blks = of_nat (2 * nids_per_block L + 4) :: u32
      in if node_ofs = 0 then 0
         else let bidx =
           (if node_ofs \<le> 2 then node_ofs - 1
            else if node_ofs \<le> indirect_blks
            then let dec = (node_ofs - 4) div of_nat (nids_per_block L + 1) in node_ofs - 2 - dec
            else let dec = (node_ofs - indirect_blks - 3) div of_nat (nids_per_block L + 1)
                 in node_ofs - 5 - dec)
         in bidx * of_nat (addrs_per_block L) + of_nat (addrs_per_inode L fi))"

definition xattr_node_offset :: "layout \<Rightarrow> u32" where
  "xattr_node_offset L = drop_bit (offset_bit_shift L) (push_bit (offset_bit_shift L) (- 1))"

definition f2fs_has_xattr_block :: "layout \<Rightarrow> u32 \<Rightarrow> bool" where
  "f2fs_has_xattr_block L ofs \<longleftrightarrow> ofs = xattr_node_offset L"

text \<open>\<open>IS_DNODE\<close> on the node offset of the page.\<close>

definition is_dnode_ofs :: "layout \<Rightarrow> u32 \<Rightarrow> bool" where
  "is_dnode_ofs L ofs =
     (let n = of_nat (nids_per_block L) :: u32
      in if f2fs_has_xattr_block L ofs then False
         else if ofs = 3 \<or> ofs = 4 + n \<or> ofs = 5 + 2 * n then False
         else if 6 + 2 * n \<le> ofs \<and> (ofs - (6 + 2 * n)) mod (n + 1) = 0 then False
         else True)"

text \<open>\<open>max_file_size\<close>, in blocks (the code shifts the result by the block size).\<close>

definition max_file_blocks :: "layout \<Rightarrow> nat" where
  "max_file_blocks L =
     (let result = def_addrs_per_inode L - inline_xattr_addrs L;
          leaf_count = addrs_per_block L;
          result = result + leaf_count * 2;
          leaf_count = leaf_count * nids_per_block L;
          result = result + leaf_count * 2;
          leaf_count = leaf_count * nids_per_block L
      in result + leaf_count)"

definition pgofs_of_next_dnode :: "layout \<Rightarrow> f2fs_inode_info \<Rightarrow> nat \<Rightarrow> nat" where
  "pgofs_of_next_dnode L fi pgofs =
     (if pgofs < addrs_per_inode L fi then addrs_per_inode L fi
      else (pgofs - addrs_per_inode L fi + addrs_per_block L) div addrs_per_block L
             * addrs_per_block L + addrs_per_inode L fi)"

section \<open>The node footer\<close>

record node_footer =
  f_nid :: u32
  f_ino :: u32
  f_flag :: u32
  f_cp_ver :: u64
  f_next_blkaddr :: u32

definition ofs_of_node :: "layout \<Rightarrow> node_footer \<Rightarrow> u32" where
  "ofs_of_node L f = drop_bit (offset_bit_shift L) (f_flag f)"

text \<open>With \<open>reset\<close> the whole node is zeroed before its footer is written.\<close>

definition fill_node_footer :: "layout \<Rightarrow> node_footer \<Rightarrow> u32 \<Rightarrow> u32 \<Rightarrow> u32 \<Rightarrow> bool \<Rightarrow> node_footer" where
  "fill_node_footer L f nid ino ofs reset =
     (let old_flag = (if reset then 0 else f_flag f);
          f = (if reset then \<lparr>f_nid = 0, f_ino = 0, f_flag = 0, f_cp_ver = 0, f_next_blkaddr = 0\<rparr>
               else f)
      in f\<lparr>f_nid := nid, f_ino := ino,
           f_flag := push_bit (offset_bit_shift L) ofs OR (old_flag AND offset_bit_mask L)\<rparr>)"

definition fill_node_footer_blkaddr :: "node_footer \<Rightarrow> u64 \<Rightarrow> u32 \<Rightarrow> node_footer" where
  "fill_node_footer_blkaddr f checkpoint_ver blkaddr =
     f\<lparr>f_cp_ver := checkpoint_ver, f_next_blkaddr := blkaddr\<rparr>"

definition is_node :: "node_footer \<Rightarrow> nat \<Rightarrow> bool" where
  "is_node f ty \<longleftrightarrow> f_flag f AND push_bit ty 1 \<noteq> 0"

definition set_mark :: "node_footer \<Rightarrow> bool \<Rightarrow> nat \<Rightarrow> node_footer" where
  "set_mark f mark ty =
     f\<lparr>f_flag := (if mark then f_flag f OR push_bit ty 1 else f_flag f AND NOT (push_bit ty 1))\<rparr>"

definition set_cold_node :: "layout \<Rightarrow> bool \<Rightarrow> node_footer \<Rightarrow> node_footer" where
  "set_cold_node L is_dir f =
     f\<lparr>f_flag := (if is_dir then f_flag f AND NOT (push_bit (cold_bit_shift L) 1)
                  else f_flag f OR push_bit (cold_bit_shift L) 1)\<rparr>"

definition raw_is_inode :: "node_footer \<Rightarrow> bool" where
  "raw_is_inode f \<longleftrightarrow> f_nid f = f_ino f"

section \<open>Arithmetic of node offsets\<close>

text \<open>The natural-number reading of \<open>start_bidx_of_node\<close>, for the offsets of direct nodes.\<close>

definition dnode_index :: "nat \<Rightarrow> nat \<Rightarrow> nat" where
  "dnode_index n ofs =
     (if ofs \<le> 2 then ofs - 1
      else if ofs \<le> 2 * n + 4 then ofs - 2 - (ofs - 4) div (n + 1)
      else ofs - 5 - (ofs - (2 * n + 4) - 3) div (n + 1))"

lemma start_bidx_of_node_nat:
  assumes n: "nids_per_block L < 2 ^ 15" and lo: "0 < ofs" "ofs \<noteq> 3" "ofs \<noteq> 2 * nids_per_block L + 5"
      "ofs \<noteq> 2 * nids_per_block L + 6"
    and hi: "ofs < 2 ^ 32"
  shows "start_bidx_of_node L (of_nat ofs) fi =
           of_nat (dnode_index (nids_per_block L) ofs * addrs_per_block L + addrs_per_inode L fi)"
proof -
  let ?N = "nids_per_block L"
  have u: "unat (of_nat k :: u32) = k" if "k < 2 ^ 32" for k
    using that by (simp add: unat_of_nat_small)
  have le: "(of_nat a :: u32) \<le> of_nat b \<longleftrightarrow> a \<le> b" if "a < 2 ^ 32" "b < 2 ^ 32" for a b
    using that by (simp add: word_le_nat_alt u)
  have dv: "(of_nat a :: u32) div of_nat b = of_nat (a div b)" if "a < 2 ^ 32" "b < 2 ^ 32" for a b
  proof (rule word_unat_eq_iff [THEN iffD2])
    have "a div b < 2 ^ 32" using that(1) by (meson div_le_dividend le_less_trans)
    then show "unat ((of_nat a :: u32) div of_nat b) = unat (of_nat (a div b) :: u32)"
      using that by (simp add: unat_div u)
  qed
  have sub: "(of_nat a :: u32) - of_nat b = of_nat (a - b)" if "b \<le> a" for a b
    using that by simp
  have le2: "(of_nat ofs :: u32) \<le> 2 \<longleftrightarrow> ofs \<le> 2" using le [of ofs 2] hi by simp
  have le3: "(of_nat ofs :: u32) \<le> of_nat (2 * ?N + 4) \<longleftrightarrow> ofs \<le> 2 * ?N + 4"
    using n by (intro le hi) simp
  have z: "(of_nat ofs :: u32) \<noteq> 0"
    using u [OF hi] lo(1) by (metis unat_0 less_irrefl)
  consider (a) "ofs \<le> 2" | (b) "4 \<le> ofs" "ofs \<le> 2 * ?N + 4" | (c) "2 * ?N + 7 \<le> ofs" "4 \<le> ofs"
    using lo by linarith
  then have "(if (of_nat ofs :: u32) \<le> 2 then of_nat ofs - 1
       else if (of_nat ofs :: u32) \<le> of_nat (2 * ?N + 4)
       then of_nat ofs - 2 - (of_nat ofs - 4) div of_nat (?N + 1)
       else of_nat ofs - 5 - (of_nat ofs - of_nat (2 * ?N + 4) - 3) div of_nat (?N + 1))
     = (of_nat (dnode_index ?N ofs) :: u32)"
  proof cases
    case a
    then show ?thesis using sub [of 1 ofs] lo(1) by (simp add: le2 dnode_index_def)
  next
    case b
    have "(ofs - 4) div (?N + 1) \<le> ofs - 4" by (rule div_le_dividend)
    then have q: "(ofs - 4) div (?N + 1) \<le> ofs - 2" by linarith
    have "(of_nat ofs - 4 :: u32) div of_nat (?N + 1) = of_nat ((ofs - 4) div (?N + 1))"
      using sub [of 4 ofs] b hi n by (subst dv [symmetric]) simp_all
    moreover have "(of_nat ofs - 2 :: u32) = of_nat (ofs - 2)" using sub [of 2 ofs] b by simp
    ultimately show ?thesis
      using b sub [OF q] unfolding le2 le3 dnode_index_def by simp
  next
    case c
    have "(ofs - (2 * ?N + 4) - 3) div (?N + 1) \<le> ofs - (2 * ?N + 4) - 3" by (rule div_le_dividend)
    then have q: "(ofs - (2 * ?N + 4) - 3) div (?N + 1) \<le> ofs - 5" by linarith
    have "(of_nat ofs - of_nat (2 * ?N + 4) - 3 :: u32) = of_nat (ofs - (2 * ?N + 4) - 3)"
      using sub [of "2 * ?N + 4" ofs] sub [of 3 "ofs - (2 * ?N + 4)"] c by simp
    then have "(of_nat ofs - of_nat (2 * ?N + 4) - 3 :: u32) div of_nat (?N + 1) =
        of_nat ((ofs - (2 * ?N + 4) - 3) div (?N + 1))"
      using hi n by (simp only:) (rule dv, simp_all)
    moreover have "(of_nat ofs - 5 :: u32) = of_nat (ofs - 5)" using sub [of 5 ofs] c by simp
    ultimately show ?thesis
      using c sub [OF q] unfolding le2 le3 dnode_index_def by simp
  qed
  then show ?thesis
    unfolding start_bidx_of_node_def Let_def using z by simp
qed

section \<open>Properties\<close>

text \<open>The six shapes of a path, with the block's distance \<open>c\<close> into the region it lies in.\<close>

lemma get_node_path_cases:
  fixes L fi
  defines "A \<equiv> addrs_per_block L" and "N \<equiv> nids_per_block L" and "I \<equiv> addrs_per_inode L fi"
  assumes path: "get_node_path L fi b = Some (lvl, offs, nofs)" and pos: "0 < A" "0 < N"
  obtains (inode) "lvl = 0" "offs = [b]" "nofs = [0]" "b < I"
    | (dir1) c where "lvl = 1" "offs = [node_dir1_block L, c]" "nofs = [0, 1]" "b = I + c" "c < A"
    | (dir2) c where "lvl = 1" "offs = [node_dir2_block L, c]" "nofs = [0, 2]" "b = I + A + c" "c < A"
    | (ind1) k c where "lvl = 2" "offs = [node_ind1_block L, k, c]" "nofs = [0, 3, 4 + k]"
        "b = I + A + A + (k * A + c)" "k < N" "c < A"
    | (ind2) k c where "lvl = 2" "offs = [node_ind2_block L, k, c]" "nofs = [0, 4 + N, 5 + N + k]"
        "b = I + A + A + A * N + (k * A + c)" "k < N" "c < A"
    | (dind) i j c where "lvl = 3" "offs = [node_dind_block L, i, j, c]"
        "nofs = [0, 5 + N * 2, 6 + N * 2 + i * (N + 1), 7 + N * 2 + i * (N + 1) + j]"
        "b = I + A + A + A * N + A * N + ((i * N + j) * A + c)" "i < N" "j < N" "c < A"
proof -
  note p = path [unfolded get_node_path_def Let_def, folded A_def N_def I_def]
  have split: "b < lo \<or> (\<exists>c. b = lo + c \<and> c < w) \<or> lo + w \<le> b" for lo w :: nat
    by (metis add_less_cancel_left le_iff_add not_le)
  consider (0) "b < I"
    | (1) c where "b = I + c" "c < A"
    | (2) c where "b = I + A + c" "c < A"
    | (3) c where "b = I + A + A + c" "c < A * N"
    | (4) c where "b = I + A + A + A * N + c" "c < A * N"
    | (5) c where "b = I + A + A + A * N + A * N + c" "c < A * N * N"
    | (6) c where "b = I + A + A + A * N + A * N + A * N * N + c"
    using split [of I A] split [of "I + A" A] split [of "I + A + A" "A * N"]
        split [of "I + A + A + A * N" "A * N"] split [of "I + A + A + A * N + A * N" "A * N * N"]
        le_iff_add [of "I + A + A + A * N + A * N + A * N * N" b]
    by (metis not_le)
  then show thesis
  proof cases
    case 0
    then show ?thesis using p inode by auto
  next
    case 1
    then show ?thesis using p dir1 by auto
  next
    case 2
    then show ?thesis using p dir2 by auto
  next
    case (3 c)
    then have "c div A < N" using pos by (simp add: less_mult_imp_div_less mult.commute)
    then show ?thesis using p 3 pos by (intro ind1 [of "c div A" "c mod A"]) auto
  next
    case (4 c)
    then have "c div A < N" using pos by (simp add: less_mult_imp_div_less mult.commute)
    then show ?thesis using p 4 pos by (intro ind2 [of "c div A" "c mod A"]) auto
  next
    case (5 c)
    have ij: "c div (A * N) * N + c div A mod N = c div A" by (simp add: div_mult2_eq)
    have i: "c div (A * N) < N" using 5(2) by (simp add: less_mult_imp_div_less mult.commute)
    show ?thesis
      using p 5 i pos by (intro dind [of "c div (A * N)" "c div A mod N" "c mod A"]) (auto simp: ij)
  next
    case 6
    then show ?thesis using p by auto
  qed
qed

lemma get_node_path_leaf:
  assumes path: "get_node_path L fi b = Some (lvl, offs, nofs)" and pos: "0 < addrs_per_block L"
    "0 < nids_per_block L"
  shows "length offs = lvl + 1 \<and> length nofs = lvl + 1 \<and> hd nofs = 0 \<and>
    (lvl = 0 \<and> offs = [b] \<and> nofs = [0] \<and> b < addrs_per_inode L fi \<or>
     0 < lvl \<and> lvl \<le> 3 \<and> addrs_per_inode L fi \<le> b \<and> last offs < addrs_per_block L \<and>
     0 < last nofs \<and> last nofs \<noteq> 3 \<and> last nofs \<noteq> 2 * nids_per_block L + 5 \<and>
     last nofs \<noteq> 2 * nids_per_block L + 6 \<and>
     last nofs < 7 + 2 * nids_per_block L + nids_per_block L * (nids_per_block L + 1) \<and>
     b = dnode_index (nids_per_block L) (last nofs) * addrs_per_block L + addrs_per_inode L fi + last offs)"
  using path pos
proof (cases rule: get_node_path_cases)
  case (ind2 k c)
  have "(5 + nids_per_block L + k - 4) div (nids_per_block L + 1) = 1"
    using ind2 by (intro div_nat_eqI) auto
  then have "dnode_index (nids_per_block L) (5 + nids_per_block L + k) = 2 + nids_per_block L + k"
    using ind2 by (simp add: dnode_index_def)
  then show ?thesis using ind2 by (simp add: algebra_simps)
next
  case (dind i j c)
  define N where "N = nids_per_block L"
  note d = dind [folded N_def]
  have "(7 + N * 2 + i * (N + 1) + j - (2 * N + 4) - 3) div (N + 1) = i"
    using d by (intro div_nat_eqI) (auto simp: algebra_simps)
  then have ix: "dnode_index N (7 + N * 2 + i * (N + 1) + j) = 2 + 2 * N + i * N + j"
    by (simp add: dnode_index_def algebra_simps)
  have "Suc i * (N + 1) \<le> N * (N + 1)" using d by (intro mult_le_mono1) simp
  then have "i * (N + 1) + j < N * (N + 1)" using d by simp
  moreover have "b = (2 + 2 * N + i * N + j) * addrs_per_block L + addrs_per_inode L fi + c"
    using d by (simp add: algebra_simps)
  ultimately show ?thesis
    unfolding N_def [symmetric] using d ix by (simp add: mult.commute)
qed (auto simp: dnode_index_def algebra_simps)

lemma layout_okD:
  assumes "layout_ok L"
  shows "0 < addrs_per_block L" and "0 < nids_per_block L" and "nids_per_block L < 2 ^ 15"
    and "7 + 2 * nids_per_block L + nids_per_block L * (nids_per_block L + 1)
         < 2 ^ (32 - offset_bit_shift L)"
    and "offset_bit_shift L < 32"
    and "inline_xattr_addrs L < def_addrs_per_inode L"
  using assms by (simp_all add: layout_ok_def)

lemma node_offsets_small:
  assumes "layout_ok L" and "n \<le> 7 + 2 * nids_per_block L + nids_per_block L * (nids_per_block L + 1)"
  shows "n < 2 ^ 32"
proof -
  have "(2::nat) ^ (32 - offset_bit_shift L) \<le> 2 ^ 32" by (rule power_increasing) simp_all
  then show ?thesis using assms(2) layout_okD(4) [OF assms(1)] by linarith
qed

text \<open>
  C37: \<open>start_bidx_of_node\<close> (used by the garbage collector to find a victim block's place in its
  file) inverts \<open>get_node_path\<close>: for every block index, the start index computed from the node
  offset of the path's last node, plus the offset in that node, is the block index again (in
  the 32-bit arithmetic of the code), at every depth of the tree.
\<close>
theorem start_bidx_inverts_node_path:
  assumes "layout_ok L" and "get_node_path L fi block = Some (level, offset, noffset)"
  shows "start_bidx_of_node L (of_nat (last noffset)) fi + of_nat (last offset) = of_nat block"
proof -
  have leaf: "level = 0 \<and> offset = [block] \<and> noffset = [0] \<or>
     0 < last noffset \<and> last noffset \<noteq> 3 \<and> last noffset \<noteq> 2 * nids_per_block L + 5 \<and>
     last noffset \<noteq> 2 * nids_per_block L + 6 \<and> last noffset < 2 ^ 32 \<and>
     block = dnode_index (nids_per_block L) (last noffset) * addrs_per_block L
               + addrs_per_inode L fi + last offset"
    using get_node_path_leaf [OF assms(2) layout_okD(1,2) [OF assms(1)]]
      node_offsets_small [OF assms(1), of "last noffset"] by auto
  then show ?thesis
  proof (elim disjE conjE)
    assume "offset = [block]" and "noffset = [0]"
    then show ?thesis by (simp add: start_bidx_of_node_def)
  next
    assume *: "0 < last noffset" "last noffset \<noteq> 3" "last noffset \<noteq> 2 * nids_per_block L + 5"
      "last noffset \<noteq> 2 * nids_per_block L + 6" "last noffset < 2 ^ 32"
      and b: "block = dnode_index (nids_per_block L) (last noffset) * addrs_per_block L
               + addrs_per_inode L fi + last offset"
    show ?thesis
      unfolding start_bidx_of_node_nat [OF layout_okD(3) [OF assms(1)] *]
      using arg_cong [OF b, of "of_nat :: nat \<Rightarrow> u32"] by simp
  qed
qed

definition plain_inode :: f2fs_inode_info where
  "plain_inode = \<lparr>i_mode_dir = False, i_mode_reg = True, i_blocks = 1, i_advise = 0,
     i_dir_level = 0, i_current_depth = 0, i_acl_mode = 0, i_flags = 0, dirty_pages = 0,
     i_xattr_nid = 0, i_ext = \<lparr>fofs = 0, blk = 0, len = 0\<rparr>\<rparr>"

theorem start_bidx_inverts_node_path_witness:
  "get_node_path small_layout plain_inode 60 = Some (3, [11, 1, 2, 2], [0, 11, 16, 19]) \<and>
   start_bidx_of_node small_layout (of_nat (last [0, 11, 16, 19])) plain_inode + of_nat (last [11, 1, 2, 2])
     = of_nat (60::nat)"
proof -
  have p: "get_node_path small_layout plain_inode 60 = Some (3, [11, 1, 2, 2], [0, 11, 16, 19])"
    by code_simp
  show ?thesis using start_bidx_inverts_node_path [OF small_layout_ok p] p by blast
qed

text \<open>
  Every path \<open>get_node_path\<close> returns is well formed: one entry per level with at most three
  levels below the inode, node offset 0 for the inode, offsets in the last node within it, and
  node offsets that fit the bits of the node footer.
\<close>
theorem get_node_path_wf:
  assumes "layout_ok L" and "get_node_path L fi block = Some (level, offset, noffset)"
  shows "level \<le> 3 \<and> length offset = level + 1 \<and> length noffset = level + 1 \<and> hd noffset = 0 \<and>
    last offset < (if level = 0 then addrs_per_inode L fi else addrs_per_block L) \<and>
    last noffset < 2 ^ (32 - offset_bit_shift L)"
  using get_node_path_leaf [OF assms(2) layout_okD(1,2) [OF assms(1)]] layout_okD(4) [OF assms(1)]
  by auto

theorem get_node_path_wf_witness:
  "get_node_path small_layout plain_inode 15 = Some (2, [9, 0, 1], [0, 3, 4]) \<and>
   last [9, 0, 1] < addrs_per_block small_layout"
proof -
  have p: "get_node_path small_layout plain_inode 15 = Some (2, [9, 0, 1], [0, 3, 4])" by code_simp
  show ?thesis using get_node_path_wf [OF small_layout_ok p] p by simp
qed

text \<open>
  C38: \<open>get_node_path\<close> never reaches its \<open>BUG()\<close> for a block below the limit that
  \<open>max_file_size\<close> announces at mount time, whatever the inline flags of the inode.
\<close>
theorem get_node_path_below_max_file_size:
  assumes "layout_ok L" and "block < max_file_blocks L"
  shows "\<exists>level offset noffset. get_node_path L fi block = Some (level, offset, noffset)"
proof -
  define A where "A = addrs_per_block L"
  define N where "N = nids_per_block L"
  define I where "I = addrs_per_inode L fi"
  have "def_addrs_per_inode L - inline_xattr_addrs L \<le> I"
    by (simp add: I_def addrs_per_inode_def)
  then have "block < I + A + A + A * N + A * N + A * N * N"
    using assms(2) by (simp add: max_file_blocks_def Let_def A_def N_def algebra_simps)
  then show ?thesis
    unfolding get_node_path_def Let_def A_def [symmetric] N_def [symmetric] I_def [symmetric]
    by (auto simp: not_less)
qed

theorem get_node_path_below_max_file_size_witness:
  "max_file_blocks small_layout = 72 \<and>
   (\<exists>level offset noffset. get_node_path small_layout plain_inode 71 = Some (level, offset, noffset))"
proof -
  have m: "max_file_blocks small_layout = 72" by code_simp
  show ?thesis using get_node_path_below_max_file_size [OF small_layout_ok, of 71] m by simp
qed

text \<open>
  \<open>PGOFS_OF_NEXT_DNODE\<close> steps exactly to the first block of the next direct node (or of
  the first one, from the inode): the start of the current node plus its capacity.
\<close>
theorem pgofs_of_next_dnode_step:
  assumes "layout_ok L" and "get_node_path L fi pgofs = Some (level, offset, noffset)"
  shows "pgofs_of_next_dnode L fi pgofs =
    pgofs - last offset + (if level = 0 then addrs_per_inode L fi else addrs_per_block L)"
proof -
  define A where "A = addrs_per_block L"
  define I where "I = addrs_per_inode L fi"
  have A: "0 < A" using layout_okD(1) [OF assms(1)] by (simp add: A_def)
  obtain d where d: "level = 0 \<and> offset = [pgofs] \<and> pgofs < I \<or>
      0 < level \<and> pgofs = d * A + I + last offset \<and> last offset < A"
    using get_node_path_leaf [OF assms(2) layout_okD(1,2) [OF assms(1)]] unfolding A_def I_def by auto
  then show ?thesis
  proof (elim disjE conjE)
    assume "level = 0" "offset = [pgofs]" "pgofs < I"
    then show ?thesis by (simp add: pgofs_of_next_dnode_def I_def)
  next
    assume l: "0 < level" and p: "pgofs = d * A + I + last offset" and o: "last offset < A"
    have "(d * A + last offset + A) div A = d + 1"
      using o by (intro div_nat_eqI) (auto simp: algebra_simps)
    then show ?thesis
      using l p A unfolding pgofs_of_next_dnode_def A_def [symmetric] I_def [symmetric]
      by (simp add: algebra_simps)
  qed
qed

theorem pgofs_of_next_dnode_step_witness:
  "get_node_path small_layout plain_inode 15 = Some (2, [9, 0, 1], [0, 3, 4]) \<and>
   pgofs_of_next_dnode small_layout plain_inode 15 = 18"
proof -
  have p: "get_node_path small_layout plain_inode 15 = Some (2, [9, 0, 1], [0, 3, 4])" by code_simp
  show ?thesis using pgofs_of_next_dnode_step [OF small_layout_ok p] p
    by (simp add: small_layout_def)
qed

lemma bit_push_one: "bit (push_bit k (1 :: u32)) n \<longleftrightarrow> n = k \<and> k < 32"
  by (auto simp: bit_exp_iff)

lemma bit_imp_unat_ge:
  fixes w :: "'a::len word"
  assumes "bit w n"
  shows "2 ^ n \<le> unat w"
proof -
  have "bit (uint w) n"
    using assms by (simp add: bit_uint_iff bit_imp_le_length)
  then have "uint w div 2 ^ n \<noteq> 0"
    by (auto simp: bit_iff_odd)
  then have "\<not> uint w < 2 ^ n"
    by (metis div_pos_pos_trivial uint_ge_0)
  then have "int (2 ^ n) \<le> int (unat w)"
    by simp
  then show ?thesis
    by (simp only: of_nat_le_iff)
qed

lemma bit_above_unat:
  fixes w :: "'a::len word"
  assumes "k \<le> n" and "unat w < 2 ^ k"
  shows "\<not> bit w n"
proof
  assume "bit w n"
  then have "2 ^ n \<le> unat w"
    by (rule bit_imp_unat_ge)
  moreover have "(2 :: nat) ^ k \<le> 2 ^ n"
    using assms(1) by simp
  ultimately show False
    using assms(2) by simp
qed

lemma is_node_iff: "ty < 32 \<Longrightarrow> is_node f ty \<longleftrightarrow> bit (f_flag f) ty"
  unfolding is_node_def word_eq_0_bits bit_and_iff bit_push_one by auto

text \<open>
  The node footer keeps the node offset and the marks apart: \<open>fill_node_footer\<close> stores an
  offset that \<open>ofs_of_node\<close> reads back and keeps the cold, fsync and dentry marks (unless the
  node is reset), and \<open>set_mark\<close> changes its own mark only.
\<close>
theorem node_footer_offset_marks:
  assumes "layout_ok L" and "unat ofs < 2 ^ (32 - offset_bit_shift L)"
    and "ty < offset_bit_shift L" and "ty' < offset_bit_shift L"
  shows "ofs_of_node L (fill_node_footer L f nid ino ofs reset) = ofs \<and>
    (is_node (fill_node_footer L f nid ino ofs reset) ty \<longleftrightarrow> \<not> reset \<and> is_node f ty) \<and>
    ofs_of_node L (set_mark f mark ty) = ofs_of_node L f \<and>
    (is_node (set_mark f mark ty) ty' \<longleftrightarrow> (if ty' = ty then mark else is_node f ty'))"
proof -
  let ?s = "offset_bit_shift L"
  have s: "?s < 32" and m: "offset_bit_mask L = mask ?s" using assms(1) by (simp_all add: layout_ok_def)
  have t: "ty < 32" "ty' < 32" using assms s by simp_all
  have hi: "\<not> bit ofs n" if "32 - ?s \<le> n" for n
    using that assms(2) by (rule bit_above_unat)
  let ?f = "fill_node_footer L f nid ino ofs reset"
  have fl: "bit (f_flag ?f) n \<longleftrightarrow> (?s \<le> n \<and> n < 32 \<and> bit ofs (n - ?s)) \<or> (\<not> reset \<and> bit (f_flag f) n \<and> n < ?s)"
    for n
    using s by (auto simp: fill_node_footer_def Let_def m bit_or_iff bit_and_iff bit_push_bit_iff bit_mask_iff)
  have 1: "ofs_of_node L ?f = ofs"
    unfolding ofs_of_node_def word_eq_bits bit_drop_bit_eq
    using hi s by (auto simp: fl) (metis hi add.commute le_diff_conv not_le)
  have mk: "bit (f_flag (set_mark f mark ty)) n \<longleftrightarrow> (if n = ty then mark else bit (f_flag f) n)" for n
    using t bit_imp_le_length [of "f_flag f" n] by (auto simp: set_mark_def bit_or_iff bit_and_iff bit_not_iff bit_exp_iff)
  have 2: "ofs_of_node L (set_mark f mark ty) = ofs_of_node L f"
    unfolding ofs_of_node_def word_eq_bits bit_drop_bit_eq using assms(3) by (auto simp: mk)
  show ?thesis
    using 1 2 assms(3) t by (auto simp: is_node_iff fl mk)
qed

theorem node_footer_offset_marks_witness:
  "ofs_of_node small_layout (fill_node_footer small_layout
      \<lparr>f_nid = 0, f_ino = 0, f_flag = 5, f_cp_ver = 0, f_next_blkaddr = 0\<rparr> 9 4 100 False) = 100"
proof -
  have "unat (100 :: u32) < 2 ^ (32 - offset_bit_shift small_layout)"
    and "0 < offset_bit_shift small_layout"
    by (simp_all add: small_layout_def)
  from node_footer_offset_marks [OF small_layout_ok this this(2),
      of "\<lparr>f_nid = 0, f_ino = 0, f_flag = 5, f_cp_ver = 0, f_next_blkaddr = 0\<rparr>" 9 4 False True]
  show ?thesis by blast
qed

end
