(* ===== verification/Dentry_Hash.thy ===== *)
theory Dentry_Hash
  imports Disk_Layout
begin

text \<open>
  The directory hash of \<open>hash.c\<close>: the TEA transform over 16-byte chunks of the name.
  \<open>unsigned char\<close> and \<open>unsigned int\<close> are words of 8 and 32 bits; a name is the byte buffer
  of the \<open>qstr\<close> with its length.
\<close>

section \<open>Definitions\<close>

definition tea_delta :: u32 where
  "tea_delta = 0x9E3779B9"

text \<open>One round of the loop of \<open>TEA_transform\<close> on \<open>(acc, b0, b1)\<close>.\<close>

definition tea_round :: "u32 \<Rightarrow> u32 \<Rightarrow> u32 \<Rightarrow> u32 \<Rightarrow> u32 \<times> u32 \<times> u32 \<Rightarrow> u32 \<times> u32 \<times> u32" where
  "tea_round a b c d s =
     (case s of (acc, b0, b1) \<Rightarrow>
        let acc = acc + tea_delta;
            b0 = b0 + (((push_bit 4 b1 + a) XOR (b1 + acc)) XOR (drop_bit 5 b1 + b));
            b1 = b1 + (((push_bit 4 b0 + c) XOR (b0 + acc)) XOR (drop_bit 5 b0 + d))
        in (acc, b0, b1))"

definition tea_transform :: "u32 list \<Rightarrow> u32 list \<Rightarrow> u32 list" where
  "tea_transform buf inp =
     (let (acc, b0, b1) =
        ((tea_round (inp ! 0) (inp ! 1) (inp ! 2) (inp ! 3)) ^^ 16) (0, buf ! 0, buf ! 1)
      in buf[0 := buf ! 0 + b0, 1 := buf ! 1 + b1])"

fun hashbuf_loop :: "u32 \<Rightarrow> u8 list \<Rightarrow> nat \<Rightarrow> u32 \<Rightarrow> int \<Rightarrow> u32 list \<Rightarrow> u32 \<times> int \<times> u32 list" where
  "hashbuf_loop pad [] i val num out = (val, num, out)"
| "hashbuf_loop pad (c # cs) i val num out =
     (let val = (if i mod 4 = 0 then pad else val);
          val = ucast c + push_bit 8 val
      in if i mod 4 = 3 then hashbuf_loop pad cs (Suc i) pad (num - 1) (out @ [val])
         else hashbuf_loop pad cs (Suc i) val num out)"

text \<open>The result is the sequence of words stored through \<open>buf\<close>.\<close>

definition str2hashbuf :: "u8 list \<Rightarrow> nat \<Rightarrow> int \<Rightarrow> u32 list" where
  "str2hashbuf msg len num =
     (let pad = of_nat len OR push_bit 8 (of_nat len);
          pad = pad OR push_bit 16 pad;
          len = (if int len > num * 4 then nat (num * 4) else len);
          (val, num, out) = hashbuf_loop pad (take len msg) 0 pad num [];
          num = num - 1;
          out = (if 0 \<le> num then out @ [val] else out)
      in out @ replicate (nat num) pad)"

function hash_chunks :: "u8 list \<Rightarrow> nat \<Rightarrow> u32 list \<Rightarrow> u32 list" where
  "hash_chunks p len buf =
     (let buf = tea_transform buf (str2hashbuf p len 4)
      in if len \<le> 16 then buf else hash_chunks (drop 16 p) (len - 16) buf)"
  by pat_completeness auto
termination
  by (relation "measure (\<lambda>(p, len, buf). len)") auto

declare hash_chunks.simps [simp del]

definition hash_seed :: "u32 list" where
  "hash_seed = [0x67452301, 0xefcdab89, 0x98badcfe, 0x10325476]"

definition is_dot_name :: "u8 list \<Rightarrow> nat \<Rightarrow> bool" where
  "is_dot_name name len \<longleftrightarrow> len \<le> 2 \<and> name ! 0 = 46 \<and> (name ! 1 = 46 \<or> name ! 1 = 0)"

definition f2fs_dentry_hash :: "layout \<Rightarrow> u8 list \<Rightarrow> nat \<Rightarrow> u32" where
  "f2fs_dentry_hash L name len =
     (if is_dot_name name len then 0
      else hash_chunks name len hash_seed ! 0 AND NOT (hash_col_bit L))"

section \<open>Reference definition of a chunk\<close>

text \<open>A word of the chunk: its bytes shifted into the padding from the right.\<close>

definition hash_word :: "u32 \<Rightarrow> u8 list \<Rightarrow> u32" where
  "hash_word pad bs = foldl (\<lambda>v c. ucast c + push_bit 8 v) pad bs"

definition hash_pad :: "nat \<Rightarrow> u32" where
  "hash_pad len =
     (let p = of_nat len OR push_bit 8 (of_nat len) in p OR push_bit 16 p)"

definition chunk_words :: "u8 list \<Rightarrow> nat \<Rightarrow> nat \<Rightarrow> u32 list" where
  "chunk_words msg len n =
     map (\<lambda>k. hash_word (hash_pad len) (take 4 (drop (4 * k) (take (min len (4 * n)) msg)))) [0..<n]"

lemma hashbuf_loop_word:
  assumes "length bs + i mod 4 < 4"
  shows "hashbuf_loop pad bs i val num out =
     (if bs = [] then val else hash_word (if i mod 4 = 0 then pad else val) bs, num, out)"
  using assms
proof (induction bs arbitrary: i val)
  case Nil
  then show ?case by simp
next
  case (Cons c cs)
  have s: "Suc i mod 4 = Suc (i mod 4)" using Cons.prems by (simp add: mod_Suc)
  show ?case
    using Cons.prems Cons.IH [of "Suc i"] s by (auto simp: Let_def hash_word_def)
qed

lemma hashbuf_loop_4:
  assumes "i mod 4 = 0"
  shows "hashbuf_loop pad (a # b # c # d # cs) i val num out =
    hashbuf_loop pad cs (i + 4) pad (num - 1) (out @ [hash_word pad [a, b, c, d]])"
proof -
  have "Suc i mod 4 = 1" "Suc (Suc i) mod 4 = 2" "Suc (Suc (Suc i)) mod 4 = 3"
    using assms by presburger+
  moreover have "i + 4 = Suc (Suc (Suc (Suc i)))"
    by simp
  ultimately show ?thesis
    using assms by (simp only: hashbuf_loop.simps Let_def hash_word_def foldl_Cons foldl_Nil) simp
qed

lemma four_cons:
  assumes "\<not> length bs < 4"
  obtains a b c d cs where "bs = a # b # c # d # cs"
proof -
  have "Suc (Suc (Suc (Suc 0))) \<le> length bs"
    using assms by simp
  then show ?thesis
    using that by (auto simp: Suc_le_length_iff)
qed

lemma hashbuf_loop_all:
  assumes "i mod 4 = 0" and "length bs \<le> 4 * n"
  shows "(case hashbuf_loop pad bs i pad (int n) out of (val, num, out') \<Rightarrow>
           (if 0 \<le> num - 1 then out' @ [val] else out') @ replicate (nat (num - 1)) pad)
         = out @ map (\<lambda>k. hash_word pad (take 4 (drop (4 * k) bs))) [0..<n]"
  using assms
proof (induction n arbitrary: bs i out)
  case 0
  then show ?case by simp
next
  case (Suc n)
  have up: "map f [0..<Suc n] = f 0 # map (\<lambda>k. f (Suc k)) [0..<n]" for f :: "nat \<Rightarrow> u32"
    by (simp add: upt_conv_Cons map_Suc_upt [symmetric] del: upt_Suc map_Suc_upt)
  show ?case
  proof (cases "length bs < 4")
    case True
    have "map (\<lambda>k. hash_word pad (take 4 (drop (4 * Suc k) bs))) [0..<n] = replicate n pad"
      using True by (intro replicate_eqI) (auto simp: hash_word_def)
    then show ?thesis
      using True Suc.prems hashbuf_loop_word [of bs i pad pad "int (Suc n)" out] unfolding up
      by (auto simp: hash_word_def)
  next
    case False
    then obtain a b c d cs where bs: "bs = a # b # c # d # cs"
      by (rule four_cons)
    have d: "drop (4 * Suc k) bs = drop (4 * k) cs" and t: "take 4 (drop (4 * 0) bs) = [a, b, c, d]" for k
    proof -
      have "drop (4 * Suc k) bs = drop (4 * k) (drop 4 bs)"
        by (simp only: drop_drop mult_Suc_right add.commute)
      then show "drop (4 * Suc k) bs = drop (4 * k) cs" by (simp add: bs)
    qed (simp add: bs)
    have len: "length cs \<le> 4 * n" and pos: "int (Suc n) - 1 = int n"
      using Suc.prems(2) by (simp_all add: bs)
    show ?thesis
      unfolding up d t using Suc.IH [of "i + 4" cs "out @ [hash_word pad [a, b, c, d]]"] Suc.prems(1) len
      unfolding bs hashbuf_loop_4 [OF Suc.prems(1)] pos by simp
  qed
qed

text \<open>
  \<open>str2hashbuf\<close> packs a chunk as its reference definition says: word \<open>k\<close> is the padding
  with the bytes \<open>4k\<close> to \<open>4k + 3\<close> of the (truncated) message shifted in, and exactly \<open>num\<close>
  words are written, for every length.
\<close>
theorem str2hashbuf_reference:
  assumes "len \<le> length msg"
  shows "str2hashbuf msg len (int num) = chunk_words msg len num"
proof -
  have l: "(if int len > int num * 4 then nat (int num * 4) else len) = min len (4 * num)"
    by auto
  have "length (take (min len (4 * num)) msg) \<le> 4 * num" by simp
  note h = hashbuf_loop_all [OF _ this, of 0 "hash_pad len" "[]"]
  show ?thesis
    unfolding str2hashbuf_def Let_def l chunk_words_def
    using h unfolding hash_pad_def Let_def by (auto split: prod.splits)
qed

theorem str2hashbuf_reference_witness:
  "str2hashbuf [97, 98, 99, 100, 101, 0] 5 (int 4) = chunk_words [97, 98, 99, 100, 101, 0] 5 4 \<and>
   str2hashbuf [97, 98, 99, 100, 101, 0] 5 4 = [0x61626364, 0x05050565, 0x05050505, 0x05050505]"
proof -
  have "5 \<le> length [97, 98, 99, 100, 101, 0 :: u8]" by simp
  from str2hashbuf_reference [OF this, of 4]
  have "str2hashbuf [97, 98, 99, 100, 101, 0] 5 (int 4) = chunk_words [97, 98, 99, 100, 101, 0] 5 4" .
  moreover have "str2hashbuf [97, 98, 99, 100, 101, 0] 5 4 =
      [0x61626364, 0x05050565, 0x05050505, 0x05050505]" by code_simp
  ultimately show ?thesis by blast
qed

lemma str2hashbuf_take: "len \<le> n \<Longrightarrow> str2hashbuf (take n p) len num = str2hashbuf p len num"
  by (auto simp: str2hashbuf_def Let_def min_def)

lemma hash_chunks_take: "len \<le> n \<Longrightarrow> hash_chunks (take n p) len buf = hash_chunks p len buf"
proof (induction p len buf arbitrary: n rule: hash_chunks.induct)
  case (1 p len buf)
  show ?case
  proof (cases "len \<le> 16")
    case True
    then show ?thesis
      using 1(2) by (simp add: hash_chunks.simps [of _ len] str2hashbuf_take Let_def)
  next
    case False
    have "hash_chunks (take (n - 16) (drop 16 p)) (len - 16) (tea_transform buf (str2hashbuf p len 4)) =
        hash_chunks (drop 16 p) (len - 16) (tea_transform buf (str2hashbuf p len 4))"
      using 1 False by simp
    then show ?thesis
      using 1(2) False
      by (simp add: hash_chunks.simps [of _ len] str2hashbuf_take Let_def drop_take)
  qed
qed

text \<open>
  The directory hash depends on the bytes of the name only (for a name longer than two
  bytes), and never has the collision bit set.
\<close>
theorem f2fs_dentry_hash_name_only:
  assumes "2 < len" and "take len name = take len name'"
  shows "f2fs_dentry_hash L name len = f2fs_dentry_hash L name' len \<and>
    f2fs_dentry_hash L name len AND hash_col_bit L = 0"
proof -
  have "hash_chunks name len hash_seed = hash_chunks name' len hash_seed"
    using hash_chunks_take [of len len name hash_seed] hash_chunks_take [of len len name' hash_seed]
      assms(2) by simp
  moreover have "(w AND NOT m) AND m = 0" for w m :: u32
    by (simp add: word_eq_0_bits bit_and_iff bit_not_iff)
  ultimately show ?thesis
    using assms(1) by (simp add: f2fs_dentry_hash_def is_dot_name_def)
qed

theorem f2fs_dentry_hash_name_only_witness:
  "f2fs_dentry_hash small_layout [97, 98, 99, 0] 3 = f2fs_dentry_hash small_layout [97, 98, 99, 7] 3"
proof -
  have "2 < (3::nat)" and "take 3 [97, 98, 99, 0 :: u8] = take 3 [97, 98, 99, 7]" by simp_all
  from f2fs_dentry_hash_name_only [OF this, of small_layout] show ?thesis by blast
qed

end
