(* ===== verification/Sb_State.thy ===== *)
theory Sb_State
  imports Bit_Search Disk_Layout
begin

text \<open>
  The in-memory superblock (\<open>struct f2fs_sb_info\<close>, \<open>f2fs.h\<close>) with the segment manager's
  sub-structures (\<open>segment.h\<close>), its flags and mount options, and the accounting of valid
  blocks, nodes and inodes.

  The values fixed at mount time are a separate record \<open>geom\<close>, passed as an argument; segment
  and section numbers are natural numbers (\<open>NULL_SEGNO\<close> is \<open>2 ^ 32 - 1\<close>), block addresses and
  counters are 32-bit words. Arrays are functions from the index; \<open>geom_ok\<close> states what a
  mounted volume's geometry satisfies. Locks are not modelled: every operation runs under the
  locks the code takes, so it is a function of the state.
\<close>

section \<open>Geometry\<close>

record geom =
  main_segments :: nat
  total_sections :: nat
  segs_per_sec :: nat
  secs_per_zone :: nat
  log_blocks_per_seg :: nat
  blocks_per_seg :: nat
  seg_count :: nat              \<comment> \<open>sm_info segment_count\<close>
  reserved_segments :: u32
  ovp_segments :: u32
  rec_prefree_segments :: u32
  seg0_blkaddr :: u32
  main_blkaddr :: u32
  ssa_blkaddr :: u32
  start_segno :: nat
  sit_base_addr :: u32
  sit_blocks :: u32
  user_block_count :: u32
  total_node_count :: u32
  active_logs :: nat
  cp_blkaddr :: u32             \<comment> \<open>raw_super cp_blkaddr\<close>
  cp_payload :: u32             \<comment> \<open>raw_super cp_payload\<close>
  ipu_policy :: u32
  min_ipu_util :: u32
  max_discards :: int
  trim_sections :: u32
  max_victim_search :: u32

definition geom_ok :: "layout \<Rightarrow> geom \<Rightarrow> bool" where
  "geom_ok L g \<longleftrightarrow>
     0 < segs_per_sec g \<and> 0 < secs_per_zone g \<and>
     0 < total_sections g \<and> total_sections g mod secs_per_zone g = 0 \<and>
     main_segments g = total_sections g * segs_per_sec g \<and>
     blocks_per_seg g = 2 ^ log_blocks_per_seg g \<and> log_blocks_per_seg g < 16 \<and>
     blocks_per_seg g = 8 * sit_vblock_map_size L \<and>
     start_segno g + main_segments g \<le> seg_count g \<and>
     unat (seg0_blkaddr g) + seg_count g * blocks_per_seg g < 2 ^ 32 \<and>
     main_blkaddr g = seg0_blkaddr g + of_nat (start_segno g * blocks_per_seg g) \<and>
     (\<forall>a \<in> {null_addr L, new_addr L}.
        unat a < unat (seg0_blkaddr g) \<or>
        unat (seg0_blkaddr g) + seg_count g * blocks_per_seg g \<le> unat a)"

abbreviation (input) NULL_SEGNO :: nat where "NULL_SEGNO \<equiv> 2 ^ 32 - 1"
abbreviation (input) NULL_SECNO :: nat where "NULL_SECNO \<equiv> 2 ^ 32 - 1"

section \<open>Block addresses\<close>

definition GET_SECNO :: "geom \<Rightarrow> nat \<Rightarrow> nat" where
  "GET_SECNO g segno = segno div segs_per_sec g"

definition GET_ZONENO_FROM_SEGNO :: "geom \<Rightarrow> nat \<Rightarrow> nat" where
  "GET_ZONENO_FROM_SEGNO g segno = (segno div segs_per_sec g) div secs_per_zone g"

definition START_BLOCK :: "geom \<Rightarrow> nat \<Rightarrow> u32" where
  "START_BLOCK g segno =
     seg0_blkaddr g + push_bit (log_blocks_per_seg g) (of_nat segno + of_nat (start_segno g))"

definition MAX_BLKADDR :: "geom \<Rightarrow> u32" where
  "MAX_BLKADDR g = seg0_blkaddr g + push_bit (log_blocks_per_seg g) (of_nat (seg_count g))"

definition GET_SEGOFF_FROM_SEG0 :: "geom \<Rightarrow> u32 \<Rightarrow> u32" where
  "GET_SEGOFF_FROM_SEG0 g blk_addr = blk_addr - seg0_blkaddr g"

definition GET_SEGNO_FROM_SEG0 :: "geom \<Rightarrow> u32 \<Rightarrow> u32" where
  "GET_SEGNO_FROM_SEG0 g blk_addr =
     drop_bit (log_blocks_per_seg g) (GET_SEGOFF_FROM_SEG0 g blk_addr)"

definition GET_BLKOFF_FROM_SEG0 :: "geom \<Rightarrow> u32 \<Rightarrow> nat" where
  "GET_BLKOFF_FROM_SEG0 g blk_addr =
     unat (GET_SEGOFF_FROM_SEG0 g blk_addr AND (of_nat (blocks_per_seg g) - 1))"

definition GET_SEGNO :: "layout \<Rightarrow> geom \<Rightarrow> u32 \<Rightarrow> nat" where
  "GET_SEGNO L g blk_addr =
     (if blk_addr = null_addr L \<or> blk_addr = new_addr L then NULL_SEGNO
      else unat (GET_SEGNO_FROM_SEG0 g blk_addr - of_nat (start_segno g)))"

definition GET_SUM_BLOCK :: "geom \<Rightarrow> nat \<Rightarrow> u32" where
  "GET_SUM_BLOCK g segno = ssa_blkaddr g + of_nat segno"

section \<open>State of the segment manager\<close>

record seg_entry =
  valid_blocks :: u16
  cur_valid_map :: bytemap
  ckpt_valid_blocks :: u16
  ckpt_valid_map :: bytemap
  se_type :: nat               \<comment> \<open>type\<close>
  se_mtime :: u64              \<comment> \<open>mtime\<close>

record sit_info =
  sit_bitmap :: bytemap
  dirty_sentries_bitmap :: bitmap
  dirty_sentries :: u32
  sentries :: "nat \<Rightarrow> seg_entry"
  sec_entries :: "nat \<Rightarrow> u32"       \<comment> \<open>valid_blocks of struct sec_entry\<close>
  written_valid_blocks :: u32
  elapsed_time :: u64
  mounted_time :: u64
  min_mtime :: u64
  max_mtime :: u64

record free_segmap_info =
  free_segments :: u32
  free_sections :: u32
  free_segmap :: bitmap
  free_secmap :: bitmap

record dirty_seglist_info =
  dirty_segmap :: "nat \<Rightarrow> bitmap"
  nr_dirty :: "nat \<Rightarrow> int"
  victim_secmap :: bitmap

record f2fs_summary =
  s_nid :: u32
  s_ofs_in_node :: u16
  s_version :: u8

text \<open>
  A summary block: its entries, its journal (count and slots, a key and a raw entry per slot)
  and the type in its footer.
\<close>

record 'e journal =
  jn :: nat                    \<comment> \<open>n_nats / n_sits\<close>
  jkey :: "nat \<Rightarrow> u32"         \<comment> \<open>nid / segno\<close>
  jent :: "nat \<Rightarrow> 'e"

record f2fs_sit_entry =
  r_vblocks :: u16
  r_valid_map :: bytemap
  r_mtime :: u64

record raw_nat_entry =
  r_version :: u8
  r_ino :: u32
  r_block_addr :: u32

record summary_block =
  sum_entries :: "f2fs_summary list"
  nat_j :: "raw_nat_entry journal"
  sit_j :: "f2fs_sit_entry journal"
  sum_type :: nat              \<comment> \<open>footer.entry_type\<close>

record curseg_info =
  sum_blk :: summary_block
  alloc_type :: nat
  cs_segno :: nat              \<comment> \<open>segno\<close>
  next_blkoff :: nat
  cs_zone :: nat               \<comment> \<open>zone\<close>
  next_segno :: nat

record discard_entry =
  d_blkaddr :: u32
  d_len :: u32

record f2fs_checkpoint =
  checkpoint_ver :: u64
  ckpt_flags :: u32
  cp_pack_start_sum :: u32
  cp_pack_total_block_count :: u32
  ck_alloc_type :: "nat \<Rightarrow> nat"
  cur_data_segno :: "nat \<Rightarrow> nat"
  cur_data_blkoff :: "nat \<Rightarrow> nat"
  cur_node_segno :: "nat \<Rightarrow> nat"
  cur_node_blkoff :: "nat \<Rightarrow> nat"
  ck_elapsed_time :: u64
  ck_valid_block_count :: u64
  ck_free_segment_count :: u32
  ck_valid_node_count :: u32
  ck_valid_inode_count :: u32
  ck_next_free_nid :: u32
  checksum_offset :: u32
  ck_sit_bitmap :: bytemap     \<comment> \<open>\<open>__bitmap_ptr(SIT_BITMAP)\<close>\<close>
  ck_nat_bitmap :: bytemap     \<comment> \<open>\<open>__bitmap_ptr(NAT_BITMAP)\<close>\<close>

record sb_info =
  s_flag :: u32
  mount_opt :: u32
  ckpt :: f2fs_checkpoint
  total_valid_block_count :: u32
  alloc_valid_block_count :: u32
  last_valid_block_count :: u32
  total_valid_node_count :: u32
  total_valid_inode_count :: u32
  nr_pages :: "nat \<Rightarrow> int"
  sit_i :: sit_info
  free_i :: free_segmap_info
  dirty_i :: dirty_seglist_info
  cursegs :: "nat \<Rightarrow> curseg_info"     \<comment> \<open>curseg_array\<close>
  discard_list :: "discard_entry list"
  nr_discards :: int
  cur_victim_sec :: nat
  last_victim :: "nat \<Rightarrow> nat"
  sum_pages :: "u32 \<Rightarrow> summary_block" \<comment> \<open>summary blocks in the meta mapping, by address\<close>
  now :: u64                   \<comment> \<open>CURRENT_TIME_SEC.tv_sec\<close>
  sit_pages :: "nat \<Rightarrow> nat \<Rightarrow> f2fs_sit_entry" \<comment> \<open>SIT blocks in the meta mapping, by address\<close>

section \<open>Enumerations\<close>

abbreviation (input) CURSEG_HOT_DATA :: nat where "CURSEG_HOT_DATA \<equiv> 0"
abbreviation (input) CURSEG_WARM_DATA :: nat where "CURSEG_WARM_DATA \<equiv> 1"
abbreviation (input) CURSEG_COLD_DATA :: nat where "CURSEG_COLD_DATA \<equiv> 2"
abbreviation (input) CURSEG_HOT_NODE :: nat where "CURSEG_HOT_NODE \<equiv> 3"
abbreviation (input) CURSEG_WARM_NODE :: nat where "CURSEG_WARM_NODE \<equiv> 4"
abbreviation (input) CURSEG_COLD_NODE :: nat where "CURSEG_COLD_NODE \<equiv> 5"
abbreviation (input) CURSEG_DIRECT_IO :: nat where "CURSEG_DIRECT_IO \<equiv> 6"
abbreviation (input) NR_CURSEG_TYPE :: nat where "NR_CURSEG_TYPE \<equiv> 6"

abbreviation (input) DIRTY :: nat where "DIRTY \<equiv> 6"
abbreviation (input) PRE :: nat where "PRE \<equiv> 7"

abbreviation (input) LFS :: nat where "LFS \<equiv> 0"
abbreviation (input) SSR :: nat where "SSR \<equiv> 1"

datatype count_type = F2FS_WRITEBACK | F2FS_DIRTY_DENTS | F2FS_DIRTY_NODES | F2FS_DIRTY_META
  | F2FS_INMEM_PAGES

fun count_no :: "count_type \<Rightarrow> nat" where
  "count_no F2FS_WRITEBACK = 0"
| "count_no F2FS_DIRTY_DENTS = 1"
| "count_no F2FS_DIRTY_NODES = 2"
| "count_no F2FS_DIRTY_META = 3"
| "count_no F2FS_INMEM_PAGES = 4"

datatype cp_reason = CP_UMOUNT | CP_FASTBOOT | CP_SYNC | CP_RECOVERY | CP_DISCARD

section \<open>Flags\<close>

datatype sbi_flag = SBI_IS_DIRTY | SBI_IS_CLOSE | SBI_NEED_FSCK | SBI_POR_DOING

fun sbi_no :: "sbi_flag \<Rightarrow> nat" where
  "sbi_no SBI_IS_DIRTY = 0"
| "sbi_no SBI_IS_CLOSE = 1"
| "sbi_no SBI_NEED_FSCK = 2"
| "sbi_no SBI_POR_DOING = 3"

definition is_sbi_flag_set :: "sb_info \<Rightarrow> sbi_flag \<Rightarrow> bool" where
  "is_sbi_flag_set s f \<longleftrightarrow> s_flag s AND push_bit (sbi_no f) 1 \<noteq> 0"

definition set_sbi_flag :: "sbi_flag \<Rightarrow> sb_info \<Rightarrow> sb_info" where
  "set_sbi_flag f s = s\<lparr>s_flag := s_flag s OR push_bit (sbi_no f) 1\<rparr>"

definition clear_sbi_flag :: "sbi_flag \<Rightarrow> sb_info \<Rightarrow> sb_info" where
  "clear_sbi_flag f s = s\<lparr>s_flag := s_flag s AND NOT (push_bit (sbi_no f) 1)\<rparr>"

text \<open>\<open>f2fs_bug_on\<close> of a build without \<open>CONFIG_F2FS_CHECK_FS\<close>.\<close>

definition f2fs_bug_on :: "bool \<Rightarrow> sb_info \<Rightarrow> sb_info" where
  "f2fs_bug_on c s = (if c then set_sbi_flag SBI_NEED_FSCK s else s)"

datatype mount_flag = MOUNT_BG_GC | MOUNT_DISABLE_ROLL_FORWARD | MOUNT_DISCARD | MOUNT_NOHEAP
  | MOUNT_XATTR_USER | MOUNT_POSIX_ACL | MOUNT_DISABLE_EXT_IDENTIFY | MOUNT_INLINE_XATTR
  | MOUNT_INLINE_DATA | MOUNT_INLINE_DENTRY | MOUNT_FLUSH_MERGE | MOUNT_NOBARRIER
  | MOUNT_FASTBOOT | MOUNT_EXTENT_CACHE

fun mount_mask :: "mount_flag \<Rightarrow> u32" where
  "mount_mask MOUNT_BG_GC = 0x00000001"
| "mount_mask MOUNT_DISABLE_ROLL_FORWARD = 0x00000002"
| "mount_mask MOUNT_DISCARD = 0x00000004"
| "mount_mask MOUNT_NOHEAP = 0x00000008"
| "mount_mask MOUNT_XATTR_USER = 0x00000010"
| "mount_mask MOUNT_POSIX_ACL = 0x00000020"
| "mount_mask MOUNT_DISABLE_EXT_IDENTIFY = 0x00000040"
| "mount_mask MOUNT_INLINE_XATTR = 0x00000080"
| "mount_mask MOUNT_INLINE_DATA = 0x00000100"
| "mount_mask MOUNT_INLINE_DENTRY = 0x00000200"
| "mount_mask MOUNT_FLUSH_MERGE = 0x00000400"
| "mount_mask MOUNT_NOBARRIER = 0x00000800"
| "mount_mask MOUNT_FASTBOOT = 0x00001000"
| "mount_mask MOUNT_EXTENT_CACHE = 0x00002000"

definition test_opt :: "u32 \<Rightarrow> mount_flag \<Rightarrow> bool" where
  "test_opt opt f \<longleftrightarrow> opt AND mount_mask f \<noteq> 0"

definition set_opt :: "u32 \<Rightarrow> mount_flag \<Rightarrow> u32" where
  "set_opt opt f = opt OR mount_mask f"

definition clear_opt :: "u32 \<Rightarrow> mount_flag \<Rightarrow> u32" where
  "clear_opt opt f = opt AND NOT (mount_mask f)"

definition is_set_ckpt_flags :: "f2fs_checkpoint \<Rightarrow> u32 \<Rightarrow> bool" where
  "is_set_ckpt_flags cp f \<longleftrightarrow> ckpt_flags cp AND f \<noteq> 0"

definition set_ckpt_flags :: "u32 \<Rightarrow> f2fs_checkpoint \<Rightarrow> f2fs_checkpoint" where
  "set_ckpt_flags f cp = cp\<lparr>ckpt_flags := ckpt_flags cp OR f\<rparr>"

definition clear_ckpt_flags :: "u32 \<Rightarrow> f2fs_checkpoint \<Rightarrow> f2fs_checkpoint" where
  "clear_ckpt_flags f cp = cp\<lparr>ckpt_flags := ckpt_flags cp AND NOT f\<rparr>"

definition get_cp_reason :: "sb_info \<Rightarrow> cp_reason" where
  "get_cp_reason s =
     (let reason = CP_SYNC;
          reason = (if test_opt (mount_opt s) MOUNT_FASTBOOT then CP_FASTBOOT else reason)
      in if is_sbi_flag_set s SBI_IS_CLOSE then CP_UMOUNT else reason)"

definition remain_node_summaries :: "cp_reason \<Rightarrow> bool" where
  "remain_node_summaries reason \<longleftrightarrow> reason = CP_UMOUNT \<or> reason = CP_FASTBOOT"

definition start_cp_addr :: "geom \<Rightarrow> f2fs_checkpoint \<Rightarrow> u32" where
  "start_cp_addr g cp =
     (if checkpoint_ver cp AND 1 = 0 then cp_blkaddr g + of_nat (blocks_per_seg g)
      else cp_blkaddr g)"

definition start_sum_block :: "geom \<Rightarrow> f2fs_checkpoint \<Rightarrow> u32" where
  "start_sum_block g cp = start_cp_addr g cp + cp_pack_start_sum cp"

definition sum_blk_addr :: "geom \<Rightarrow> f2fs_checkpoint \<Rightarrow> nat \<Rightarrow> nat \<Rightarrow> u32" where
  "sum_blk_addr g cp base ty =
     start_cp_addr g cp + cp_pack_total_block_count cp - (of_nat base + 1) + of_nat ty"

section \<open>Address arithmetic\<close>

lemma geom_okD:
  assumes "geom_ok L g"
  shows "0 < segs_per_sec g" "0 < secs_per_zone g" "0 < total_sections g"
    "main_segments g = total_sections g * segs_per_sec g"
    "blocks_per_seg g = 2 ^ log_blocks_per_seg g" "log_blocks_per_seg g < 16"
    "blocks_per_seg g = 8 * sit_vblock_map_size L"
    "start_segno g + main_segments g \<le> seg_count g"
    "unat (seg0_blkaddr g) + seg_count g * blocks_per_seg g < 2 ^ 32"
    "main_blkaddr g = seg0_blkaddr g + of_nat (start_segno g * blocks_per_seg g)"
    "total_sections g mod secs_per_zone g = 0"
  using assms unfolding geom_ok_def by blast+

lemma geom_blocks: "geom_ok L g \<Longrightarrow> 0 < blocks_per_seg g \<and> blocks_per_seg g < 2 ^ 16"
  using geom_okD(5,6) by (metis one_less_numeral_iff power_strict_increasing_iff semiring_norm(76) zero_less_numeral zero_less_power)

lemma push_bit_small:
  "n * 2 ^ k < 2 ^ LENGTH('a) \<Longrightarrow> push_bit k (of_nat n :: 'a::len word) = of_nat (n * 2 ^ k)"
  by (simp add: push_bit_eq_mult)

text \<open>The address of a block of the main area, as a natural number.\<close>

definition blk_nat :: "geom \<Rightarrow> nat \<Rightarrow> nat \<Rightarrow> nat" where
  "blk_nat g segno off =
     unat (seg0_blkaddr g) + (segno + start_segno g) * blocks_per_seg g + off"

lemma blk_nat_bound:
  assumes "geom_ok L g" and "segno < main_segments g" and "off < blocks_per_seg g"
  shows "blk_nat g segno off < unat (seg0_blkaddr g) + seg_count g * blocks_per_seg g"
proof -
  have "Suc (segno + start_segno g) \<le> seg_count g"
    using geom_okD(8) [OF assms(1)] assms(2) by simp
  then have "Suc (segno + start_segno g) * blocks_per_seg g \<le> seg_count g * blocks_per_seg g"
    by (rule mult_le_mono1)
  then show ?thesis
    using assms(3) by (simp add: blk_nat_def)
qed

lemma main_segments_bound:
  assumes "geom_ok L g"
  shows "main_segments g < 2 ^ 32"
proof -
  have "main_segments g * 1 \<le> seg_count g * blocks_per_seg g"
    using geom_okD(8) [OF assms] geom_blocks [OF assms] by (intro mult_le_mono) simp_all
  then show ?thesis
    using geom_okD(9) [OF assms] by simp
qed

lemma START_BLOCK_nat:
  assumes "geom_ok L g" and "segno < main_segments g" and "off < blocks_per_seg g"
  shows "START_BLOCK g segno + of_nat off = of_nat (blk_nat g segno off)"
  by (simp add: START_BLOCK_def blk_nat_def push_bit_eq_mult geom_okD(5) [OF assms(1)] algebra_simps)

lemma unat_START_BLOCK:
  assumes "geom_ok L g" and "segno < main_segments g" and "off < blocks_per_seg g"
  shows "unat (START_BLOCK g segno + of_nat off) = blk_nat g segno off"
  unfolding START_BLOCK_nat [OF assms]
  using blk_nat_bound [OF assms] geom_okD(9) [OF assms(1)] by (intro unat_of_nat_small) simp

lemma segoff_START_BLOCK:
  assumes "geom_ok L g" and "segno < main_segments g" and "off < blocks_per_seg g"
  shows "unat (GET_SEGOFF_FROM_SEG0 g (START_BLOCK g segno + of_nat off)) =
     (segno + start_segno g) * blocks_per_seg g + off"
proof -
  have "seg0_blkaddr g \<le> START_BLOCK g segno + of_nat off"
    unfolding word_le_nat_alt unat_START_BLOCK [OF assms] by (simp add: blk_nat_def)
  then show ?thesis
    unfolding GET_SEGOFF_FROM_SEG0_def
    by (simp add: unat_minus_small unat_START_BLOCK [OF assms] blk_nat_def)
qed

lemma START_BLOCK_special:
  assumes "geom_ok L g" and "segno < main_segments g" and "off < blocks_per_seg g"
  shows "START_BLOCK g segno + of_nat off \<noteq> null_addr L"
    and "START_BLOCK g segno + of_nat off \<noteq> new_addr L"
proof -
  have out: "unat a < unat (seg0_blkaddr g) \<or>
      unat (seg0_blkaddr g) + seg_count g * blocks_per_seg g \<le> unat a"
    if "a \<in> {null_addr L, new_addr L}" for a
    using assms(1) that unfolding geom_ok_def by blast
  have "unat (seg0_blkaddr g) \<le> blk_nat g segno off" by (simp add: blk_nat_def)
  then show "START_BLOCK g segno + of_nat off \<noteq> null_addr L"
    and "START_BLOCK g segno + of_nat off \<noteq> new_addr L"
    using out [of "null_addr L"] out [of "new_addr L"] blk_nat_bound [OF assms]
      unat_START_BLOCK [OF assms] by force+
qed

lemma GET_SEGNO_START_BLOCK:
  assumes "geom_ok L g" and "segno < main_segments g" and "off < blocks_per_seg g"
  shows "GET_SEGNO L g (START_BLOCK g segno + of_nat off) = segno"
proof -
  let ?a = "START_BLOCK g segno + of_nat off"
  have "unat (GET_SEGNO_FROM_SEG0 g ?a) =
      ((segno + start_segno g) * blocks_per_seg g + off) div blocks_per_seg g"
    unfolding GET_SEGNO_FROM_SEG0_def unat_drop_bit_eq segoff_START_BLOCK [OF assms]
    by (simp add: drop_bit_eq_div geom_okD(5) [OF assms(1)])
  also have "\<dots> = segno + start_segno g"
    using assms(3) by simp
  finally have n: "unat (GET_SEGNO_FROM_SEG0 g ?a) = segno + start_segno g" .
  have "GET_SEGNO_FROM_SEG0 g ?a = of_nat (segno + start_segno g)"
    unfolding n [symmetric] by simp
  then have d: "GET_SEGNO_FROM_SEG0 g ?a - of_nat (start_segno g) = of_nat segno"
    by simp
  have "segno < 2 ^ LENGTH(32)"
    using main_segments_bound [OF assms(1)] assms(2) by simp
  then have "unat (of_nat segno :: u32) = segno"
    by (rule unat_of_nat_small)
  then show ?thesis
    unfolding GET_SEGNO_def d using START_BLOCK_special [OF assms] by (simp only: if_False simp_thms)
qed

lemma GET_BLKOFF_START_BLOCK:
  assumes "geom_ok L g" and "segno < main_segments g" and "off < blocks_per_seg g"
  shows "GET_BLKOFF_FROM_SEG0 g (START_BLOCK g segno + of_nat off) = off"
proof -
  have m: "of_nat (blocks_per_seg g) - 1 = (mask (log_blocks_per_seg g) :: u32)"
    by (simp add: geom_okD(5) [OF assms(1)] mask_eq_exp_minus_1)
  have "GET_BLKOFF_FROM_SEG0 g (START_BLOCK g segno + of_nat off) =
      ((segno + start_segno g) * blocks_per_seg g + off) mod blocks_per_seg g"
    unfolding GET_BLKOFF_FROM_SEG0_def m take_bit_eq_mask [symmetric] unsigned_take_bit_eq
      segoff_START_BLOCK [OF assms]
    by (simp add: take_bit_eq_mod geom_okD(5) [OF assms(1)])
  then show ?thesis using assms(3) by simp
qed

definition in_main :: "geom \<Rightarrow> u32 \<Rightarrow> bool" where
  "in_main g a \<longleftrightarrow> unat (main_blkaddr g) \<le> unat a \<and>
     unat a < unat (main_blkaddr g) + main_segments g * blocks_per_seg g"

lemma unat_main_blkaddr:
  assumes "geom_ok L g"
  shows "unat (main_blkaddr g) = unat (seg0_blkaddr g) + start_segno g * blocks_per_seg g"
proof -
  have "start_segno g * blocks_per_seg g \<le> seg_count g * blocks_per_seg g"
    using geom_okD(8) [OF assms] by (intro mult_le_mono1) simp
  then have "unat (seg0_blkaddr g) + start_segno g * blocks_per_seg g < 2 ^ 32"
    using geom_okD(9) [OF assms] by (meson add_le_cancel_left le_less_trans)
  then have b: "unat (seg0_blkaddr g) + start_segno g * blocks_per_seg g < 2 ^ LENGTH(32)"
    by simp
  then have "unat (of_nat (start_segno g * blocks_per_seg g) :: u32) = start_segno g * blocks_per_seg g"
    by (intro unat_of_nat_small) simp
  then show ?thesis
    unfolding geom_okD(10) [OF assms] using b by (subst unat_plus_small) simp_all
qed

lemma in_main_block:
  assumes "geom_ok L g" and "in_main g a"
  obtains segno off where "segno < main_segments g" and "off < blocks_per_seg g"
    and "a = START_BLOCK g segno + of_nat off"
proof -
  define d where "d = unat a - unat (main_blkaddr g)"
  let ?s = "d div blocks_per_seg g" and ?o = "d mod blocks_per_seg g"
  have "d < main_segments g * blocks_per_seg g"
    using assms(2) unfolding d_def in_main_def by linarith
  then have s: "?s < main_segments g"
    by (simp add: less_mult_imp_div_less)
  have o: "?o < blocks_per_seg g"
    using geom_blocks [OF assms(1)] by simp
  have "?s * blocks_per_seg g + ?o = d"
    by simp
  then have "blk_nat g ?s ?o = unat (main_blkaddr g) + d"
    unfolding blk_nat_def unat_main_blkaddr [OF assms(1)] by (simp add: algebra_simps)
  also have "\<dots> = unat a"
    using assms(2) unfolding d_def in_main_def by linarith
  finally have "START_BLOCK g ?s + of_nat ?o = a"
    unfolding START_BLOCK_nat [OF assms(1) s o] by simp
  with s o that show ?thesis by metis
qed

lemma START_BLOCK_in_main:
  assumes "geom_ok L g" and "segno < main_segments g" and "off < blocks_per_seg g"
  shows "in_main g (START_BLOCK g segno + of_nat off)"
proof -
  have "Suc segno * blocks_per_seg g \<le> main_segments g * blocks_per_seg g"
    using assms(2) by (intro mult_le_mono1) simp
  then show ?thesis
    using assms(3) unfolding in_main_def unat_START_BLOCK [OF assms] unat_main_blkaddr [OF assms(1)]
    by (simp add: blk_nat_def algebra_simps)
qed

definition small_geom :: geom where
  "small_geom = \<lparr>
     main_segments = 8, total_sections = 4, segs_per_sec = 2, secs_per_zone = 2,
     log_blocks_per_seg = 6, blocks_per_seg = 64, seg_count = 10,
     reserved_segments = 2, ovp_segments = 2, rec_prefree_segments = 1,
     seg0_blkaddr = 64, main_blkaddr = 192, ssa_blkaddr = 128, start_segno = 2,
     sit_base_addr = 80, sit_blocks = 4, user_block_count = 300, total_node_count = 100,
     active_logs = 6, cp_blkaddr = 1, cp_payload = 0, ipu_policy = 16, min_ipu_util = 70,
     max_discards = 8, trim_sections = 1, max_victim_search = 16 \<rparr>"

lemma small_geom_ok: "geom_ok small_layout small_geom"
  unfolding geom_ok_def by (simp add: small_geom_def small_layout_def)

text \<open>
  C39: Block addresses and (segment, offset) pairs correspond one to one in the main area, in
  32-bit arithmetic: \<open>GET_SEGNO\<close> and \<open>GET_BLKOFF_FROM_SEG0\<close> take the address of a block back
  to its segment and offset, that address lies in the main area and is neither special
  address, and every address of the main area is obtained so.
\<close>
theorem block_address_roundtrip:
  assumes "geom_ok L g" and "segno < main_segments g" and "off < blocks_per_seg g"
    and "in_main g a"
  shows "GET_SEGNO L g (START_BLOCK g segno + of_nat off) = segno \<and>
    GET_BLKOFF_FROM_SEG0 g (START_BLOCK g segno + of_nat off) = off \<and>
    in_main g (START_BLOCK g segno + of_nat off) \<and>
    START_BLOCK g segno + of_nat off \<notin> {null_addr L, new_addr L} \<and>
    GET_SEGNO L g a < main_segments g \<and> GET_BLKOFF_FROM_SEG0 g a < blocks_per_seg g \<and>
    START_BLOCK g (GET_SEGNO L g a) + of_nat (GET_BLKOFF_FROM_SEG0 g a) = a"
proof -
  obtain s' o' where a: "s' < main_segments g" "o' < blocks_per_seg g"
      "a = START_BLOCK g s' + of_nat o'"
    using in_main_block [OF assms(1,4)] .
  show ?thesis
    using GET_SEGNO_START_BLOCK [OF assms(1-3)] GET_BLKOFF_START_BLOCK [OF assms(1-3)]
      START_BLOCK_in_main [OF assms(1-3)] START_BLOCK_special [OF assms(1-3)]
      GET_SEGNO_START_BLOCK [OF assms(1) a(1,2)] GET_BLKOFF_START_BLOCK [OF assms(1) a(1,2)] a
    by simp
qed

theorem block_address_roundtrip_witness:
  "GET_SEGNO small_layout small_geom (START_BLOCK small_geom 5 + of_nat 17) = 5 \<and>
   START_BLOCK small_geom 5 + of_nat 17 = 529"
proof -
  have h: "5 < main_segments small_geom" "17 < blocks_per_seg small_geom" "in_main small_geom 200"
    by (simp_all add: small_geom_def in_main_def)
  from block_address_roundtrip [OF small_geom_ok h] have
    "GET_SEGNO small_layout small_geom (START_BLOCK small_geom 5 + of_nat 17) = 5" by blast
  moreover have "START_BLOCK small_geom 5 + of_nat 17 = 529" by code_simp
  ultimately show ?thesis by blast
qed

end
