(* ===== verification/Block_Count.thy ===== *)
theory Block_Count
  imports Sb_State Inode_State
begin

text \<open>
  Accounting of valid blocks, nodes and inodes (\<open>f2fs.h\<close>): the counters of the superblock and
  the block count of an inode move together. \<open>stat_lock\<close> makes every operation atomic, so a
  run is a sequence of steps of \<open>count_step\<close>.
\<close>

section \<open>Flags\<close>

lemma sbi_no_inj [simp]: "sbi_no a = sbi_no b \<longleftrightarrow> a = b"
  by (cases a; cases b) simp_all

lemma sbi_no_less: "sbi_no f < 32"
  by (cases f) simp_all

lemma is_sbi_flag_set_bit: "is_sbi_flag_set s f \<longleftrightarrow> bit (s_flag s) (sbi_no f)"
  using sbi_no_less [of f]
  by (auto simp: is_sbi_flag_set_def word_eq_0_bits bit_and_iff bit_exp_iff)

lemma sbi_flag_after_set [simp]:
  "is_sbi_flag_set (set_sbi_flag a s) b \<longleftrightarrow> b = a \<or> is_sbi_flag_set s b"
  using sbi_no_less [of a]
  by (auto simp: is_sbi_flag_set_bit set_sbi_flag_def bit_or_iff bit_exp_iff)

lemma sbi_flag_after_clear [simp]:
  "is_sbi_flag_set (clear_sbi_flag a s) b \<longleftrightarrow> b \<noteq> a \<and> is_sbi_flag_set s b"
  using sbi_no_less [of a] sbi_no_less [of b]
  by (auto simp: is_sbi_flag_set_bit clear_sbi_flag_def bit_and_iff bit_not_iff bit_exp_iff)

lemma bug_on_flag [simp]:
  "is_sbi_flag_set (f2fs_bug_on c s) f \<longleftrightarrow> c \<and> f = SBI_NEED_FSCK \<or> is_sbi_flag_set s f"
  by (auto simp: f2fs_bug_on_def)

lemma bug_on_frame [simp]:
  "total_valid_block_count (f2fs_bug_on c s) = total_valid_block_count s"
  "total_valid_node_count (f2fs_bug_on c s) = total_valid_node_count s"
  "total_valid_inode_count (f2fs_bug_on c s) = total_valid_inode_count s"
  "alloc_valid_block_count (f2fs_bug_on c s) = alloc_valid_block_count s"
  "nr_pages (f2fs_bug_on c s) = nr_pages s"
  by (simp_all add: f2fs_bug_on_def set_sbi_flag_def)

lemma is_sbi_flag_set_frame [simp]:
  "is_sbi_flag_set (s\<lparr>total_valid_block_count := a\<rparr>) f = is_sbi_flag_set s f"
  "is_sbi_flag_set (s\<lparr>alloc_valid_block_count := a\<rparr>) f = is_sbi_flag_set s f"
  "is_sbi_flag_set (s\<lparr>total_valid_node_count := a\<rparr>) f = is_sbi_flag_set s f"
  "is_sbi_flag_set (s\<lparr>total_valid_inode_count := a\<rparr>) f = is_sbi_flag_set s f"
  "is_sbi_flag_set (s\<lparr>nr_pages := c\<rparr>) f = is_sbi_flag_set s f"
  by (simp_all add: is_sbi_flag_set_def)

section \<open>Operations\<close>

definition inc_valid_block_count ::
  "geom \<Rightarrow> u64 \<Rightarrow> sb_info \<times> f2fs_inode_info \<Rightarrow> bool \<times> sb_info \<times> f2fs_inode_info" where
  "inc_valid_block_count g count st =
     (case st of (s, fi) \<Rightarrow>
        let valid_block_count = total_valid_block_count s + ucast count
        in if valid_block_count > user_block_count g then (False, s, fi)
           else (True,
             s\<lparr>total_valid_block_count := valid_block_count,
               alloc_valid_block_count := alloc_valid_block_count s + ucast count\<rparr>,
             fi\<lparr>i_blocks := i_blocks fi + count\<rparr>))"

definition dec_valid_block_count ::
  "u64 \<Rightarrow> sb_info \<times> f2fs_inode_info \<Rightarrow> sb_info \<times> f2fs_inode_info" where
  "dec_valid_block_count count st =
     (case st of (s, fi) \<Rightarrow>
        let s = f2fs_bug_on (total_valid_block_count s < ucast count) s;
            s = f2fs_bug_on (i_blocks fi < count) s
        in (s\<lparr>total_valid_block_count := total_valid_block_count s - ucast count\<rparr>,
            fi\<lparr>i_blocks := i_blocks fi - count\<rparr>))"

text \<open>The inode may be absent (\<open>NULL\<close>).\<close>

definition inc_valid_node_count ::
  "geom \<Rightarrow> sb_info \<times> f2fs_inode_info option \<Rightarrow> bool \<times> sb_info \<times> f2fs_inode_info option" where
  "inc_valid_node_count g st =
     (case st of (s, fi) \<Rightarrow>
        let valid_block_count = total_valid_block_count s + 1
        in if valid_block_count > user_block_count g then (False, s, fi)
           else let valid_node_count = total_valid_node_count s + 1
           in if valid_node_count > total_node_count g then (False, s, fi)
              else (True,
                s\<lparr>alloc_valid_block_count := alloc_valid_block_count s + 1,
                  total_valid_node_count := total_valid_node_count s + 1,
                  total_valid_block_count := total_valid_block_count s + 1\<rparr>,
                map_option (\<lambda>fi. fi\<lparr>i_blocks := i_blocks fi + 1\<rparr>) fi))"

definition dec_valid_node_count ::
  "sb_info \<times> f2fs_inode_info \<Rightarrow> sb_info \<times> f2fs_inode_info" where
  "dec_valid_node_count st =
     (case st of (s, fi) \<Rightarrow>
        let s = f2fs_bug_on (total_valid_block_count s = 0) s;
            s = f2fs_bug_on (total_valid_node_count s = 0) s;
            s = f2fs_bug_on (i_blocks fi = 0) s
        in (s\<lparr>total_valid_node_count := total_valid_node_count s - 1,
              total_valid_block_count := total_valid_block_count s - 1\<rparr>,
            fi\<lparr>i_blocks := i_blocks fi - 1\<rparr>))"

definition inc_valid_inode_count :: "geom \<Rightarrow> sb_info \<Rightarrow> sb_info" where
  "inc_valid_inode_count g s =
     (let s = f2fs_bug_on (total_valid_inode_count s = total_node_count g) s
      in s\<lparr>total_valid_inode_count := total_valid_inode_count s + 1\<rparr>)"

definition dec_valid_inode_count :: "sb_info \<Rightarrow> sb_info" where
  "dec_valid_inode_count s =
     (let s = f2fs_bug_on (total_valid_inode_count s = 0) s
      in s\<lparr>total_valid_inode_count := total_valid_inode_count s - 1\<rparr>)"

definition inc_page_count :: "count_type \<Rightarrow> sb_info \<Rightarrow> sb_info" where
  "inc_page_count ty s =
     set_sbi_flag SBI_IS_DIRTY (s\<lparr>nr_pages := (nr_pages s)(count_no ty := nr_pages s (count_no ty) + 1)\<rparr>)"

definition dec_page_count :: "count_type \<Rightarrow> sb_info \<Rightarrow> sb_info" where
  "dec_page_count ty s =
     s\<lparr>nr_pages := (nr_pages s)(count_no ty := nr_pages s (count_no ty) - 1)\<rparr>"

definition inode_inc_dirty_pages :: "sb_info \<times> f2fs_inode_info \<Rightarrow> sb_info \<times> f2fs_inode_info" where
  "inode_inc_dirty_pages st =
     (case st of (s, fi) \<Rightarrow>
        (if i_mode_dir fi then inc_page_count F2FS_DIRTY_DENTS s else s,
         fi\<lparr>dirty_pages := dirty_pages fi + 1\<rparr>))"

definition inode_dec_dirty_pages :: "sb_info \<times> f2fs_inode_info \<Rightarrow> sb_info \<times> f2fs_inode_info" where
  "inode_dec_dirty_pages st =
     (case st of (s, fi) \<Rightarrow>
        if \<not> i_mode_dir fi \<and> \<not> i_mode_reg fi then (s, fi)
        else (if i_mode_dir fi then dec_page_count F2FS_DIRTY_DENTS s else s,
              fi\<lparr>dirty_pages := dirty_pages fi - 1\<rparr>))"

definition get_pages :: "sb_info \<Rightarrow> count_type \<Rightarrow> int" where
  "get_pages s ty = nr_pages s (count_no ty)"

definition get_blocktype_secs :: "geom \<Rightarrow> sb_info \<Rightarrow> count_type \<Rightarrow> nat" where
  "get_blocktype_secs g s block_type =
     (let pages_per_sec = of_nat (segs_per_sec g) * push_bit (log_blocks_per_seg g) 1 :: u32
      in unat (drop_bit (log_blocks_per_seg g) (of_int (get_pages s block_type) + pages_per_sec - 1))
         div segs_per_sec g)"

definition has_blocks :: "f2fs_inode_info \<Rightarrow> bool" where
  "has_blocks fi = (if i_xattr_nid fi \<noteq> 0 then i_blocks fi > 1 + 1 else i_blocks fi > 1)"

section \<open>Runs\<close>

inductive count_step ::
  "geom \<Rightarrow> sb_info \<times> f2fs_inode_info \<Rightarrow> sb_info \<times> f2fs_inode_info \<Rightarrow> bool" for g where
  inc_block: "inc_valid_block_count g n st = (r, s', fi') \<Longrightarrow> count_step g st (s', fi')"
| dec_block: "count_step g st (dec_valid_block_count n st)"
| inc_node: "inc_valid_node_count g (s, Some fi) = (r, s', Some fi') \<Longrightarrow>
    count_step g (s, fi) (s', fi')"
| inc_node_null: "inc_valid_node_count g (s, None) = (r, s', None) \<Longrightarrow>
    count_step g (s, fi) (s', fi)"
| dec_node: "count_step g st (dec_valid_node_count st)"
| inc_inode: "count_step g (s, fi) (inc_valid_inode_count g s, fi)"
| dec_inode: "count_step g (s, fi) (dec_valid_inode_count s, fi)"
| inc_dirty: "count_step g st (inode_inc_dirty_pages st)"
| dec_dirty: "count_step g st (inode_dec_dirty_pages st)"
| other_inode: "count_step g (s, fi) (s, fi')"

definition counts_ok :: "geom \<Rightarrow> sb_info \<Rightarrow> bool" where
  "counts_ok g s \<longleftrightarrow>
     total_valid_block_count s \<le> user_block_count g \<and>
     total_valid_node_count s \<le> total_node_count g \<and>
     total_valid_inode_count s \<le> total_node_count g"

abbreviation need_fsck :: "sb_info \<Rightarrow> bool" where
  "need_fsck s \<equiv> is_sbi_flag_set s SBI_NEED_FSCK"

lemma word_inc_le: "x \<le> m \<Longrightarrow> x \<noteq> m \<Longrightarrow> x + 1 \<le> m" for x m :: "'a::len word"
  by (metis inc_le le_neq_trans)

lemma word_sub_le_trans: "x \<le> m \<Longrightarrow> n \<le> x \<Longrightarrow> x - n \<le> m" for x m n :: "'a::len word"
  by (meson order.trans word_sub_le)

lemma word_ge_1: "x \<noteq> 0 \<Longrightarrow> 1 \<le> x" for x :: "'a::len word"
  by (simp add: word_le_nat_alt Suc_leI unat_gt_0)

lemma word_dec_le: "x \<le> m \<Longrightarrow> x \<noteq> 0 \<Longrightarrow> x - 1 \<le> m" for x m :: "'a::len word"
  by (rule word_sub_le_trans) (simp_all add: word_ge_1)

lemma fsck_mono: "count_step g st st' \<Longrightarrow> need_fsck (fst st) \<Longrightarrow> need_fsck (fst st')"
  by (induction rule: count_step.induct)
    (auto simp: inc_valid_block_count_def dec_valid_block_count_def inc_valid_node_count_def
      dec_valid_node_count_def inc_valid_inode_count_def dec_valid_inode_count_def Let_def
      inode_inc_dirty_pages_def inode_dec_dirty_pages_def inc_page_count_def dec_page_count_def
      split: if_splits prod.splits)

lemma counts_ok_step:
  assumes "count_step g st st'" and "counts_ok g (fst st)" and "\<not> need_fsck (fst st')"
  shows "counts_ok g (fst st')"
  using assms
  by (induction rule: count_step.induct)
    (auto simp: inc_valid_block_count_def dec_valid_block_count_def inc_valid_node_count_def
      dec_valid_node_count_def inc_valid_inode_count_def dec_valid_inode_count_def Let_def
      inode_inc_dirty_pages_def inode_dec_dirty_pages_def inc_page_count_def dec_page_count_def
      set_sbi_flag_def counts_ok_def word_inc_le word_dec_le word_sub_le_trans not_less
      split: if_splits prod.splits)


text \<open>
  C36: From counts within the limits on, the limits on valid blocks, nodes and inodes hold after every run of the counter
  operations, in wrapping 32-bit arithmetic, unless the run hit one of the \<open>f2fs_bug_on\<close>
  checks: as long as \<open>SBI_NEED_FSCK\<close> is clear, no counter has passed its limit.
\<close>
theorem valid_counts_within_limits:
  assumes "(count_step g)\<^sup>*\<^sup>* st st'" and "counts_ok g (fst st)" and "\<not> need_fsck (fst st')"
  shows "counts_ok g (fst st')"
  using assms
proof (induction rule: rtranclp_induct)
  case base
  then show ?case by blast
next
  case (step st1 st2)
  then have "\<not> need_fsck (fst st1)"
    using fsck_mono by blast
  with step show ?case
    by (intro counts_ok_step [OF step.hyps(2)]) blast+
qed

definition sample_ckpt :: f2fs_checkpoint where
  "sample_ckpt = \<lparr>checkpoint_ver = 3, ckpt_flags = 0, cp_pack_start_sum = 1,
     cp_pack_total_block_count = 8, ck_alloc_type = (\<lambda>_. 0), cur_data_segno = id,
     cur_data_blkoff = (\<lambda>_. 0), cur_node_segno = (\<lambda>i. i + 3), cur_node_blkoff = (\<lambda>_. 0),
     ck_elapsed_time = 0, ck_valid_block_count = 10, ck_free_segment_count = 2, ck_valid_node_count = 5,
     ck_valid_inode_count = 2, ck_next_free_nid = 0, checksum_offset = 60, ck_sit_bitmap = [0], ck_nat_bitmap = [0]\<rparr>"

definition sample_inode :: f2fs_inode_info where
  "sample_inode = \<lparr>i_mode_dir = False, i_mode_reg = True, i_blocks = 1, i_advise = 0,
     i_dir_level = 0, i_current_depth = 0, i_acl_mode = 0, i_flags = 0, dirty_pages = 0,
     i_xattr_nid = 0, i_ext = \<lparr>fofs = 0, blk = 0, len = 0\<rparr>\<rparr>"

text \<open>A state of \<open>small_geom\<close>: nothing valid, the six logs on segments 0 to 5.\<close>

definition sample_seg :: "nat \<Rightarrow> seg_entry" where
  "sample_seg ty = \<lparr>valid_blocks = 0, cur_valid_map = replicate 8 0, ckpt_valid_blocks = 0,
     ckpt_valid_map = replicate 8 0, se_type = ty, se_mtime = 0\<rparr>"

definition sample_sum :: summary_block where
  "sample_sum = \<lparr>sum_entries = replicate 64 \<lparr>s_nid = 0, s_ofs_in_node = 0, s_version = 0\<rparr>,
     nat_j = \<lparr>jn = 0, jkey = (\<lambda>_. 0), jent = (\<lambda>_. \<lparr>r_version = 0, r_ino = 0, r_block_addr = 0\<rparr>)\<rparr>,
     sit_j = \<lparr>jn = 0, jkey = (\<lambda>_. 0),
       jent = (\<lambda>_. \<lparr>r_vblocks = 0, r_valid_map = replicate 8 0, r_mtime = 0\<rparr>)\<rparr>,
     sum_type = 0\<rparr>"

definition sample_sb :: sb_info where
  "sample_sb = \<lparr>s_flag = 0, mount_opt = 0, ckpt = sample_ckpt,
     total_valid_block_count = 10, alloc_valid_block_count = 0, last_valid_block_count = 10,
     total_valid_node_count = 5, total_valid_inode_count = 2, nr_pages = (\<lambda>_. 0),
     sit_i = \<lparr>sit_bitmap = [0], dirty_sentries_bitmap = (\<lambda>_. False), dirty_sentries = 0,
       sentries = (\<lambda>n. sample_seg (if n < 6 then n else 0)), sec_entries = (\<lambda>_. 0),
       written_valid_blocks = 0, elapsed_time = 0, mounted_time = 0, min_mtime = 0, max_mtime = 0\<rparr>,
     free_i = \<lparr>free_segments = 2, free_sections = 1, free_segmap = (\<lambda>n. n < 6),
       free_secmap = (\<lambda>n. n < 3)\<rparr>,
     dirty_i = \<lparr>dirty_segmap = (\<lambda>_ _. False), nr_dirty = (\<lambda>_. 0), victim_secmap = (\<lambda>_. False)\<rparr>,
     cursegs = (\<lambda>t. \<lparr>sum_blk = sample_sum, alloc_type = 0, cs_segno = t, next_blkoff = 0,
       cs_zone = t div 4, next_segno = NULL_SEGNO\<rparr>),
     discard_list = [], nr_discards = 0, cur_victim_sec = NULL_SECNO, last_victim = (\<lambda>_. 0),
     sum_pages = (\<lambda>_. sample_sum), now = 0,
     sit_pages = (\<lambda>_ _. \<lparr>r_vblocks = 0, r_valid_map = replicate 8 0, r_mtime = 0\<rparr>)\<rparr>"

theorem valid_counts_within_limits_witness:
  "counts_ok small_geom (fst (snd (inc_valid_block_count small_geom 7 (sample_sb, sample_inode))))"
proof -
  obtain r s' fi' where r: "inc_valid_block_count small_geom 7 (sample_sb, sample_inode) = (r, s', fi')"
    by (rule prod_cases3)
  have "(count_step small_geom)\<^sup>*\<^sup>* (sample_sb, sample_inode) (s', fi')"
    by (rule r_into_rtranclp) (rule inc_block [OF r])
  moreover have "counts_ok small_geom (fst (sample_sb, sample_inode))"
    by (simp add: counts_ok_def sample_sb_def small_geom_def)
  moreover have "\<not> need_fsck (fst (s', fi'))"
    using r by (auto simp: inc_valid_block_count_def sample_sb_def small_geom_def Let_def
        is_sbi_flag_set_def split: if_splits)
  ultimately have "counts_ok small_geom (fst (s', fi'))"
    by (rule valid_counts_within_limits)
  then show ?thesis by (simp add: r)
qed

text \<open>
  Reserving \<open>count\<close> blocks succeeds exactly when they fit under \<open>user_block_count\<close>, changes
  nothing when it fails, and releasing the same blocks restores both counters without any
  \<open>f2fs_bug_on\<close> (when the sums fit their words).
\<close>
theorem valid_block_count_inc_dec:
  assumes "total_valid_block_count s \<le> user_block_count g"
    and "unat count + unat (user_block_count g) < 2 ^ 32" and "unat (i_blocks fi) + unat count < 2 ^ 64"
    and "inc_valid_block_count g count (s, fi) = (r, s', fi')"
  shows "(r \<longleftrightarrow> unat (total_valid_block_count s) + unat count \<le> unat (user_block_count g)) \<and>
    (\<not> r \<longrightarrow> s' = s \<and> fi' = fi) \<and>
    (r \<longrightarrow> dec_valid_block_count count (s', fi') =
       (s\<lparr>alloc_valid_block_count := alloc_valid_block_count s + ucast count\<rparr>, fi))"
proof -
  let ?t = "total_valid_block_count s"
  have c: "unat (ucast count :: u32) = unat count"
    using assms(2) by (simp add: unsigned_ucast_eq take_bit_nat_eq_self)
  have sum: "unat (?t + ucast count) = unat ?t + unat count"
    using assms(1,2) c by (subst unat_plus_small) (simp_all add: word_le_nat_alt)
  have ib: "unat (i_blocks fi + count) = unat (i_blocks fi) + unat count"
    using assms(3) by (subst unat_plus_small) simp_all
  have "\<not> ?t + ucast count < ucast count" and "\<not> i_blocks fi + count < count"
    unfolding word_less_nat_alt sum ib c by simp_all
  then have d: "r \<longrightarrow> dec_valid_block_count count (s', fi') =
       (s\<lparr>alloc_valid_block_count := alloc_valid_block_count s + ucast count\<rparr>, fi)"
    using assms(4) by (auto simp: inc_valid_block_count_def dec_valid_block_count_def Let_def
        f2fs_bug_on_def split: if_splits)
  have "r \<longleftrightarrow> \<not> user_block_count g < ?t + ucast count" and "\<not> r \<longrightarrow> s' = s \<and> fi' = fi"
    using assms(4) by (auto simp: inc_valid_block_count_def Let_def split: if_splits)
  then show ?thesis
    using d unfolding word_less_nat_alt sum by auto
qed

theorem valid_block_count_inc_dec_witness:
  "dec_valid_block_count 7 (snd (inc_valid_block_count small_geom 7 (sample_sb, sample_inode))) =
     (sample_sb\<lparr>alloc_valid_block_count := 7\<rparr>, sample_inode)"
proof -
  obtain r s' fi' where r: "inc_valid_block_count small_geom 7 (sample_sb, sample_inode) = (r, s', fi')"
    by (rule prod_cases3)
  have h: "total_valid_block_count sample_sb \<le> user_block_count small_geom"
    "unat (7 :: u64) + unat (user_block_count small_geom) < 2 ^ 32"
    "unat (i_blocks sample_inode) + unat (7 :: u64) < 2 ^ 64"
    "unat (total_valid_block_count sample_sb) + unat (7 :: u64) \<le> unat (user_block_count small_geom)"
    "alloc_valid_block_count sample_sb = 0"
    by (simp_all add: sample_sb_def small_geom_def sample_inode_def)
  from valid_block_count_inc_dec [OF h(1-3) r] h(4,5)
  show ?thesis by (simp add: r)
qed

lemma get_blocktype_secs_ceil:
  assumes "geom_ok L g" and "0 \<le> get_pages s ty"
    and "nat (get_pages s ty) + segs_per_sec g * blocks_per_seg g < 2 ^ 32"
  shows "get_blocktype_secs g s ty =
    (nat (get_pages s ty) + segs_per_sec g * blocks_per_seg g - 1) div (segs_per_sec g * blocks_per_seg g)"
proof -
  define n where "n = nat (get_pages s ty)"
  define p where "p = segs_per_sec g * blocks_per_seg g"
  have p: "0 < p"
    using geom_okD(1) [OF assms(1)] geom_blocks [OF assms(1)] by (simp add: p_def)
  have n_int: "get_pages s ty = int n"
    using assms(2) by (simp add: n_def)
  have i: "(of_int (get_pages s ty) :: u32) = of_nat n"
    by (simp add: n_int)
  have pp: "of_nat (segs_per_sec g) * push_bit (log_blocks_per_seg g) (1 :: u32) = of_nat p"
    by (simp add: p_def geom_okD(5) [OF assms(1)] push_bit_eq_mult)
  have np: "of_nat n + of_nat p - 1 = (of_nat (n + p - 1) :: u32)"
    using p by (simp add: of_nat_diff)
  have u: "unat (of_nat (n + p - 1) :: u32) = n + p - 1"
    using assms(3) unfolding n_def [symmetric] p_def [symmetric] by (intro unat_of_nat_small) simp
  have "get_blocktype_secs g s ty = (n + p - 1) div blocks_per_seg g div segs_per_sec g"
    unfolding get_blocktype_secs_def Let_def i pp np unat_drop_bit_eq u
    by (simp only: drop_bit_eq_div geom_okD(5) [OF assms(1)])
  then show ?thesis
    unfolding n_def p_def by (simp only: div_mult2_eq mult.commute [of "segs_per_sec g"])
qed

end
