(* ===== verification/Set_Store.thy ===== *)
theory Set_Store
  imports F2FS_Prelude
begin

text \<open>
  The interface shared by the components that keep a set of numbers with a counter: the map of
  used segments, the lists of dirty and prefree segments, the inode lists of the checkpoint.
  \<open>members\<close> is the abstract set, \<open>ins\<close> and \<open>del\<close> the operations, \<open>inv\<close> what every operation
  keeps; \<open>ok\<close> bounds the numbers. \<open>counted_store\<close> adds the counter.
\<close>

locale set_store =
  fixes inv :: "'s \<Rightarrow> bool"
    and ok :: "nat \<Rightarrow> bool"
    and members :: "'s \<Rightarrow> nat set"
    and ins :: "nat \<Rightarrow> 's \<Rightarrow> 's"
    and del :: "nat \<Rightarrow> 's \<Rightarrow> 's"
  assumes ins_inv: "inv s \<Longrightarrow> ok x \<Longrightarrow> inv (ins x s)"
    and ins_members: "inv s \<Longrightarrow> ok x \<Longrightarrow> members (ins x s) = insert x (members s)"
    and del_inv: "inv s \<Longrightarrow> ok x \<Longrightarrow> inv (del x s)"
    and del_members: "inv s \<Longrightarrow> ok x \<Longrightarrow> members (del x s) = members s - {x}"
begin

lemma fold_del:
  assumes "inv s" and "\<forall>x\<in>set xs. ok x"
  shows "inv (fold del xs s) \<and> members (fold del xs s) = members s - set xs"
  using assms
proof (induction xs arbitrary: s)
  case (Cons x xs)
  then have "inv (del x s)" and "members (del x s) = members s - {x}"
    using del_inv del_members by simp_all
  with Cons show ?case by auto
qed simp

lemma fold_ins:
  assumes "inv s" and "\<forall>x\<in>set xs. ok x"
  shows "inv (fold ins xs s) \<and> members (fold ins xs s) = members s \<union> set xs"
  using assms
proof (induction xs arbitrary: s)
  case (Cons x xs)
  then have "inv (ins x s)" and "members (ins x s) = insert x (members s)"
    using ins_inv ins_members by simp_all
  with Cons show ?case by auto
qed simp

lemma del_ins_members: "inv s \<Longrightarrow> ok x \<Longrightarrow> members (del x (ins x s)) = members s - {x}"
  using ins_inv ins_members del_members by auto

end

locale counted_store = set_store +
  fixes count :: "'s \<Rightarrow> nat"
  assumes finite_members: "inv s \<Longrightarrow> finite (members s)"
    and count_members: "inv s \<Longrightarrow> count s = card (members s)"
begin

lemma count_ins:
  "inv s \<Longrightarrow> ok x \<Longrightarrow> count (ins x s) = (if x \<in> members s then count s else Suc (count s))"
  using ins_inv ins_members finite_members count_members by (simp add: insert_absorb)

lemma count_del:
  "inv s \<Longrightarrow> ok x \<Longrightarrow> count (del x s) = (if x \<in> members s then count s - 1 else count s)"
  using del_inv del_members finite_members count_members by simp

lemma count_fold_del:
  assumes "inv s" and "\<forall>x\<in>set xs. ok x" and "set xs \<subseteq> members s" and "distinct xs"
  shows "count (fold del xs s) + length xs = count s"
proof -
  have "card (members s - set xs) + card (set xs) = card (members s)"
    using assms(1,3) finite_members by (simp add: card_Diff_subset card_mono)
  then show ?thesis
    using fold_del [OF assms(1,2)] count_members assms(1,4) by (simp add: distinct_card)
qed

lemma count_zero: "inv s \<Longrightarrow> count s = 0 \<longleftrightarrow> members s = {}"
  using count_members finite_members by simp

end

end
