(* ===== verification/Free_Segmap.thy ===== *)
theory Free_Segmap
  imports Block_Count Set_Store
begin

text \<open>
  The map of used segments and sections (\<open>struct free_segmap_info\<close>, \<open>segment.h\<close>): a set bit is
  a segment in use, and the counters count the clear bits. The invariant \<open>free_ok\<close> ties the
  segment map, the section map and both counters together; every operation keeps it.
\<close>

section \<open>Operations\<close>

definition find_next_inuse :: "free_segmap_info \<Rightarrow> nat \<Rightarrow> nat \<Rightarrow> nat" where
  "find_next_inuse f mx segno = find_next_bit (free_segmap f) mx segno"

definition set_free :: "geom \<Rightarrow> nat \<Rightarrow> free_segmap_info \<Rightarrow> free_segmap_info" where
  "set_free g segno f =
     (let secno = segno div segs_per_sec g;
          start = secno * segs_per_sec g;
          f = f\<lparr>free_segmap := (free_segmap f)(segno := False),
                free_segments := free_segments f + 1\<rparr>;
          nxt = find_next_bit (free_segmap f) (start + segs_per_sec g) start
      in if nxt \<ge> start + segs_per_sec g
         then f\<lparr>free_secmap := (free_secmap f)(secno := False),
                free_sections := free_sections f + 1\<rparr>
         else f)"

definition set_inuse :: "geom \<Rightarrow> nat \<Rightarrow> free_segmap_info \<Rightarrow> free_segmap_info" where
  "set_inuse g segno f =
     (let secno = segno div segs_per_sec g;
          f = f\<lparr>free_segmap := (free_segmap f)(segno := True),
                free_segments := free_segments f - 1\<rparr>;
          old = free_secmap f secno;
          f = f\<lparr>free_secmap := (free_secmap f)(secno := True)\<rparr>
      in if \<not> old then f\<lparr>free_sections := free_sections f - 1\<rparr> else f)"

definition set_test_and_free :: "geom \<Rightarrow> nat \<Rightarrow> free_segmap_info \<Rightarrow> free_segmap_info" where
  "set_test_and_free g segno f =
     (let secno = segno div segs_per_sec g;
          start = secno * segs_per_sec g
      in if free_segmap f segno
         then let f = f\<lparr>free_segmap := (free_segmap f)(segno := False),
                        free_segments := free_segments f + 1\<rparr>;
                  nxt = find_next_bit (free_segmap f) (start + segs_per_sec g) start
              in if nxt \<ge> start + segs_per_sec g
                 then (if free_secmap f secno
                       then f\<lparr>free_secmap := (free_secmap f)(secno := False),
                              free_sections := free_sections f + 1\<rparr>
                       else f)
                 else f
         else f)"

definition set_test_and_inuse :: "geom \<Rightarrow> nat \<Rightarrow> free_segmap_info \<Rightarrow> free_segmap_info" where
  "set_test_and_inuse g segno f =
     (let secno = segno div segs_per_sec g
      in if \<not> free_segmap f segno
         then let f = f\<lparr>free_segmap := (free_segmap f)(segno := True),
                        free_segments := free_segments f - 1\<rparr>
              in if \<not> free_secmap f secno
                 then f\<lparr>free_secmap := (free_secmap f)(secno := True),
                        free_sections := free_sections f - 1\<rparr>
                 else f
         else f)"

section \<open>Invariant\<close>

definition inuse :: "geom \<Rightarrow> free_segmap_info \<Rightarrow> nat set" where
  "inuse g f = {s. s < main_segments g \<and> free_segmap f s}"

definition sec_inuse :: "geom \<Rightarrow> bitmap \<Rightarrow> nat \<Rightarrow> bool" where
  "sec_inuse g m sec \<longleftrightarrow> (\<exists>s. s div segs_per_sec g = sec \<and> m s)"

definition free_ok :: "geom \<Rightarrow> free_segmap_info \<Rightarrow> bool" where
  "free_ok g f \<longleftrightarrow>
     0 < segs_per_sec g \<and> main_segments g = total_sections g * segs_per_sec g \<and>
     main_segments g < 2 ^ 32 \<and>
     free_segments f = of_nat (main_segments g - count_bits (free_segmap f) (main_segments g)) \<and>
     (\<forall>sec < total_sections g. free_secmap f sec \<longleftrightarrow> sec_inuse g (free_segmap f) sec) \<and>
     free_sections f = of_nat (total_sections g - count_bits (free_secmap f) (total_sections g))"

lemma sec_search:
  assumes "0 < segs_per_sec g"
  shows "c * segs_per_sec g + segs_per_sec g \<le> find_next_bit m (c * segs_per_sec g + segs_per_sec g) (c * segs_per_sec g)
    \<longleftrightarrow> \<not> sec_inuse g m c"
proof -
  let ?k = "segs_per_sec g"
  have "s div ?k = c \<longleftrightarrow> c * ?k \<le> s \<and> s < c * ?k + ?k" for s
    using assms by (metis add.commute div_nat_eqI dividend_less_times_div mult.commute mult_Suc_right times_div_less_eq_dividend)
  then show ?thesis
    using fnb.search_none_iff [of "c * ?k + ?k" m "c * ?k"] by (auto simp: sec_inuse_def)
qed

lemma sec_inuse_upd:
  "d \<noteq> segno div segs_per_sec g \<Longrightarrow> sec_inuse g (m(segno := v)) d = sec_inuse g m d"
  "sec_inuse g (m(segno := True)) (segno div segs_per_sec g)"
  "m segno \<Longrightarrow> sec_inuse g m (segno div segs_per_sec g)"
  by (auto simp: sec_inuse_def)

lemma sec_less:
  assumes "free_ok g f" and "s < main_segments g"
  shows "s div segs_per_sec g < total_sections g"
  using assms unfolding free_ok_def by (metis less_mult_imp_div_less)

lemma free_okD:
  assumes "free_ok g f"
  shows "0 < segs_per_sec g"
    "sec < total_sections g \<Longrightarrow> free_secmap f sec \<longleftrightarrow> sec_inuse g (free_segmap f) sec"
  using assms by (simp_all add: free_ok_def)

lemma of_nat_count_remove:
  assumes "k < n" and "b k"
  shows "(of_nat (n - count_bits b n) :: 'a::len word) + 1 = of_nat (n - count_bits (b(k := False)) n)"
proof -
  have "n - count_bits (b(k := False)) n = Suc (n - count_bits b n)"
    using count_bits_remove [of k n b] assms count_bits_le [of b n] by simp
  then show ?thesis by simp
qed

lemma of_nat_count_insert:
  assumes "k < n" and "\<not> b k"
  shows "(of_nat (n - count_bits b n) :: 'a::len word) - 1 = of_nat (n - count_bits (b(k := True)) n)"
proof -
  have "n - count_bits b n = Suc (n - count_bits (b(k := True)) n)"
    using count_bits_insert [of k n b] assms count_bits_le [of "b(k := True)" n] by simp
  then show ?thesis by simp
qed

lemma free_ok_test_and_free:
  assumes "free_ok g f" and "segno < main_segments g"
  shows "free_ok g (set_test_and_free g segno f)"
proof (cases "free_segmap f segno")
  case True
  let ?c = "segno div segs_per_sec g"
  let ?m = "(free_segmap f)(segno := False)"
  have c: "?c < total_sections g" by (rule sec_less [OF assms])
  have on: "free_secmap f ?c"
    using True c by (simp add: free_okD(2) [OF assms(1)] sec_inuse_upd)
  have sec: "sec_inuse g ?m d \<longleftrightarrow> ((free_secmap f)(?c := sec_inuse g ?m ?c)) d"
    if "d < total_sections g" for d
    using that by (cases "d = ?c") (simp_all add: sec_inuse_upd free_okD(2) [OF assms(1)])
  have seg: "free_segments f + 1 = of_nat (main_segments g - count_bits ?m (main_segments g))"
    using assms True by (simp add: free_ok_def of_nat_count_remove)
  have cnt: "free_sections f + 1 =
      of_nat (total_sections g - count_bits ((free_secmap f)(?c := False)) (total_sections g))"
    using assms on c by (simp add: free_ok_def of_nat_count_remove)
  show ?thesis
  proof (cases "sec_inuse g ?m ?c")
    case True
    then have "(free_secmap f)(?c := sec_inuse g ?m ?c) = free_secmap f"
      using on by (simp add: fun_upd_idem)
    then show ?thesis
      using assms(1) sec seg True \<open>free_segmap f segno\<close> free_okD(1) [OF assms(1)]
      by (simp add: set_test_and_free_def Let_def free_ok_def sec_search)
  next
    case False
    then show ?thesis
      using assms(1) sec seg cnt on \<open>free_segmap f segno\<close> free_okD(1) [OF assms(1)]
      by (simp add: set_test_and_free_def Let_def free_ok_def sec_search)
  qed
next
  case False
  then show ?thesis using assms by (simp add: set_test_and_free_def Let_def)
qed

lemma free_ok_test_and_inuse:
  assumes "free_ok g f" and "segno < main_segments g"
  shows "free_ok g (set_test_and_inuse g segno f)"
proof (cases "free_segmap f segno")
  case False
  let ?c = "segno div segs_per_sec g"
  let ?m = "(free_segmap f)(segno := True)"
  have c: "?c < total_sections g" by (rule sec_less [OF assms])
  have sec: "sec_inuse g ?m d \<longleftrightarrow> ((free_secmap f)(?c := True)) d"
    if "d < total_sections g" for d
    using that by (cases "d = ?c") (simp_all add: sec_inuse_upd free_okD(2) [OF assms(1)])
  have seg: "free_segments f - 1 = of_nat (main_segments g - count_bits ?m (main_segments g))"
    using assms False by (simp add: free_ok_def of_nat_count_insert)
  have cnt: "\<not> free_secmap f ?c \<Longrightarrow> free_sections f - 1 =
      of_nat (total_sections g - count_bits ((free_secmap f)(?c := True)) (total_sections g))"
    using assms c by (simp add: free_ok_def of_nat_count_insert)
  show ?thesis
    using assms(1) sec seg cnt False
    by (cases "free_secmap f ?c") (simp_all add: set_test_and_inuse_def Let_def free_ok_def fun_upd_idem)
qed (use assms in \<open>simp add: set_test_and_inuse_def Let_def\<close>)

text \<open>The unguarded operations agree with the guarded ones on a map where they are used.\<close>

lemma set_free_eq: "free_segmap f segno \<Longrightarrow> free_secmap f (segno div segs_per_sec g) \<Longrightarrow>
    set_free g segno f = set_test_and_free g segno f"
  by (simp add: set_free_def set_test_and_free_def Let_def)

lemma set_inuse_eq: "\<not> free_segmap f segno \<Longrightarrow> set_inuse g segno f = set_test_and_inuse g segno f"
  by (simp add: set_inuse_def set_test_and_inuse_def Let_def fun_upd_idem)

lemma segmap_after [simp]:
  "free_segmap (set_test_and_free g segno f) = (free_segmap f)(segno := False)"
  "free_segmap (set_test_and_inuse g segno f) = (free_segmap f)(segno := True)"
  by (simp_all add: set_test_and_free_def set_test_and_inuse_def Let_def fun_upd_idem)

lemma free_ok_bound:
  assumes "free_ok g f"
  shows "main_segments g < 2 ^ 32" and "total_sections g < 2 ^ 32"
proof -
  have "total_sections g * 1 \<le> total_sections g * segs_per_sec g"
    using free_okD(1) [OF assms] by (intro mult_le_mono2) simp
  moreover have "main_segments g = total_sections g * segs_per_sec g"
    and m: "main_segments g < 2 ^ 32"
    using assms unfolding free_ok_def by blast+
  ultimately show "total_sections g < 2 ^ 32" and "main_segments g < 2 ^ 32" by linarith+
qed

lemma free_segments_nat:
  assumes "free_ok g f"
  shows "unat (free_segments f) = main_segments g - count_bits (free_segmap f) (main_segments g)"
proof -
  have "main_segments g - count_bits (free_segmap f) (main_segments g) < 2 ^ LENGTH(32)"
    using free_ok_bound [OF assms] by (simp add: less_imp_diff_less)
  moreover have "free_segments f = of_nat (main_segments g - count_bits (free_segmap f) (main_segments g))"
    using assms unfolding free_ok_def by blast
  ultimately show ?thesis
    using unat_of_nat_small by metis
qed

lemma free_sections_nat:
  assumes "free_ok g f"
  shows "unat (free_sections f) = total_sections g - count_bits (free_secmap f) (total_sections g)"
proof -
  have "total_sections g - count_bits (free_secmap f) (total_sections g) < 2 ^ LENGTH(32)"
    using free_ok_bound [OF assms] by (simp add: less_imp_diff_less)
  moreover have "free_sections f = of_nat (total_sections g - count_bits (free_secmap f) (total_sections g))"
    using assms unfolding free_ok_def by blast
  ultimately show ?thesis
    using unat_of_nat_small by metis
qed

interpretation segs: counted_store "free_ok g" "\<lambda>s. s < main_segments g" "inuse g"
    "set_test_and_inuse g" "set_test_and_free g"
    "\<lambda>f. main_segments g - unat (free_segments f)" for g
proof unfold_locales
  fix f
  assume ok: "free_ok g f"
  have "count_bits (free_segmap f) (main_segments g) \<le> main_segments g"
    by (rule count_bits_le)
  moreover have "unat (free_segments f) = main_segments g - count_bits (free_segmap f) (main_segments g)"
    by (rule free_segments_nat [OF ok])
  ultimately show "main_segments g - unat (free_segments f) = card (inuse g f)"
    by (simp add: count_bits_def inuse_def)
qed (auto simp: free_ok_test_and_free free_ok_test_and_inuse inuse_def)


lemma free_secmap_free:
  assumes "free_ok g f" and "sec < total_sections g" and "\<not> free_secmap f sec"
    and "s div segs_per_sec g = sec"
  shows "\<not> free_segmap f s"
  using assms free_okD(2) [OF assms(1,2)] by (auto simp: sec_inuse_def)

section \<open>Properties\<close>

text \<open>
  C35: Every operation on the segment map keeps its invariant: the counters equal the number of
  free segments and free sections, and a section is marked used exactly when one of its
  segments is. The guarded operations need a segment number in range; \<open>__set_free\<close> is for a
  used segment, \<open>__set_inuse\<close> for a free one.
\<close>
theorem free_segmap_invariant:
  assumes "free_ok g f" and "segno < main_segments g"
  shows "free_ok g (set_test_and_free g segno f) \<and> free_ok g (set_test_and_inuse g segno f) \<and>
    (free_segmap f segno \<longrightarrow> free_ok g (set_free g segno f)) \<and>
    (\<not> free_segmap f segno \<longrightarrow> free_ok g (set_inuse g segno f)) \<and>
    unat (free_segments f) + card (inuse g f) = main_segments g \<and>
    unat (free_sections f) + card {c. c < total_sections g \<and> sec_inuse g (free_segmap f) c}
      = total_sections g"
proof -
  have "unat (free_segments f) + card (inuse g f) = main_segments g"
    using free_segments_nat [OF assms(1)] count_bits_le [of "free_segmap f" "main_segments g"]
    by (simp add: count_bits_def inuse_def)
  moreover have "{c. c < total_sections g \<and> sec_inuse g (free_segmap f) c} =
      {c. c < total_sections g \<and> free_secmap f c}"
    using free_okD(2) [OF assms(1)] by blast
  then have "unat (free_sections f) + card {c. c < total_sections g \<and> sec_inuse g (free_segmap f) c}
      = total_sections g"
    using free_sections_nat [OF assms(1)] count_bits_le [of "free_secmap f" "total_sections g"]
    by (simp add: count_bits_def)
  moreover have "free_segmap f segno \<Longrightarrow> free_secmap f (segno div segs_per_sec g)"
    using free_okD(2) [OF assms(1) sec_less [OF assms]] sec_inuse_upd(3) by blast
  ultimately show ?thesis
    using free_ok_test_and_free [OF assms] free_ok_test_and_inuse [OF assms] set_free_eq set_inuse_eq
    by auto
qed

lemma sample_free_ok: "free_ok small_geom (free_i sample_sb)"
proof -
  have c: "count_bits (\<lambda>n. n < k) m = k" if "k \<le> m" for k m
  proof -
    have "{i. i < m \<and> i < k} = {..<k}" using that by auto
    then show ?thesis by (simp add: count_bits_def)
  qed
  have "(\<exists>s. s div 2 = c \<and> s < 6) \<longleftrightarrow> c < 3" for c :: nat
    by (auto intro!: exI [of _ "2 * c"])
  then show ?thesis
    by (simp add: free_ok_def sample_sb_def small_geom_def c sec_inuse_def)
qed

theorem free_segmap_invariant_witness:
  "free_ok small_geom (set_test_and_free small_geom 4 (free_i sample_sb))"
  using free_segmap_invariant [OF sample_free_ok, of 4] by (simp add: small_geom_def)

end
