(* ===== verification/Dirty_Seglist.thy ===== *)
theory Dirty_Seglist
  imports Free_Segmap
begin

text \<open>
  The lists of dirty and prefree segments (\<open>struct dirty_seglist_info\<close>, \<open>segment.c\<close>): one
  bitmap with a counter for every log type, one for all dirty segments (\<open>DIRTY\<close>) and one for
  the entirely obsolete segments (\<open>PRE\<close>) that the next checkpoint frees. Discards are returned
  as the list of extents (start block, number of blocks) sent to the device.
\<close>

section \<open>Operations\<close>

definition IS_CURSEG :: "sb_info \<Rightarrow> nat \<Rightarrow> bool" where
  "IS_CURSEG s seg \<longleftrightarrow> list_ex (\<lambda>t. seg = cs_segno (cursegs s t)) [0..<NR_CURSEG_TYPE]"

definition IS_CURSEC :: "geom \<Rightarrow> sb_info \<Rightarrow> nat \<Rightarrow> bool" where
  "IS_CURSEC g s secno \<longleftrightarrow>
     list_ex (\<lambda>t. secno = cs_segno (cursegs s t) div segs_per_sec g) [0..<NR_CURSEG_TYPE]"

definition get_valid_blocks :: "geom \<Rightarrow> sb_info \<Rightarrow> nat \<Rightarrow> nat \<Rightarrow> nat" where
  "get_valid_blocks g s segno section =
     (if section > 1 then unat (sec_entries (sit_i s) (GET_SECNO g segno))
      else unat (valid_blocks (sentries (sit_i s) segno)))"

text \<open>\<open>test_and_set_bit\<close> and \<open>test_and_clear_bit\<close> on a list, with its counter.\<close>

definition dirty_add :: "nat \<Rightarrow> nat \<Rightarrow> dirty_seglist_info \<Rightarrow> dirty_seglist_info" where
  "dirty_add t segno d =
     (if \<not> dirty_segmap d t segno
      then d\<lparr>dirty_segmap := (dirty_segmap d)(t := (dirty_segmap d t)(segno := True)),
             nr_dirty := (nr_dirty d)(t := nr_dirty d t + 1)\<rparr>
      else d)"

definition dirty_del :: "nat \<Rightarrow> nat \<Rightarrow> dirty_seglist_info \<Rightarrow> dirty_seglist_info" where
  "dirty_del t segno d =
     (if dirty_segmap d t segno
      then d\<lparr>dirty_segmap := (dirty_segmap d)(t := (dirty_segmap d t)(segno := False)),
             nr_dirty := (nr_dirty d)(t := nr_dirty d t - 1)\<rparr>
      else d)"

definition locate_dirty :: "nat \<Rightarrow> nat \<Rightarrow> sb_info \<Rightarrow> sb_info" where
  "locate_dirty dirty_type segno s =
     (if IS_CURSEG s segno then s
      else let s = s\<lparr>dirty_i := dirty_add dirty_type segno (dirty_i s)\<rparr>
        in if dirty_type = DIRTY
           then let t = se_type (sentries (sit_i s) segno)
             in if t \<ge> DIRTY then f2fs_bug_on True s
                else s\<lparr>dirty_i := dirty_add t segno (dirty_i s)\<rparr>
           else s)"

definition remove_dirty :: "geom \<Rightarrow> nat \<Rightarrow> nat \<Rightarrow> sb_info \<Rightarrow> sb_info" where
  "remove_dirty g dirty_type segno s =
     (let s = s\<lparr>dirty_i := dirty_del dirty_type segno (dirty_i s)\<rparr>
      in if dirty_type = DIRTY
         then let t = se_type (sentries (sit_i s) segno);
                  s = s\<lparr>dirty_i := dirty_del t segno (dirty_i s)\<rparr>
           in if get_valid_blocks g s segno (segs_per_sec g) = 0
              then s\<lparr>dirty_i := (dirty_i s)\<lparr>victim_secmap :=
                       (victim_secmap (dirty_i s))(GET_SECNO g segno := False)\<rparr>\<rparr>
              else s
         else s)"

definition locate_dirty_segment :: "geom \<Rightarrow> nat \<Rightarrow> sb_info \<Rightarrow> sb_info" where
  "locate_dirty_segment g segno s =
     (if segno = NULL_SEGNO \<or> IS_CURSEG s segno then s
      else let valid = get_valid_blocks g s segno 0
        in if valid = 0 then remove_dirty g DIRTY segno (locate_dirty PRE segno s)
           else if valid < blocks_per_seg g then locate_dirty DIRTY segno s
           else remove_dirty g DIRTY segno s)"

definition set_prefree_as_free_segments :: "geom \<Rightarrow> sb_info \<Rightarrow> sb_info" where
  "set_prefree_as_free_segments g s =
     s\<lparr>free_i := fold (set_test_and_free g)
         (for_each_set_bit (dirty_segmap (dirty_i s) PRE) (main_segments g) 0) (free_i s)\<rparr>"

text \<open>
  The loop of \<open>clear_prefree_segments\<close>; \<open>e\<close> is \<open>end + 1\<close>, \<open>pre\<close> the bitmap, \<open>n\<close> the counter,
  \<open>out\<close> the discards issued.
\<close>

function clear_prefree_loop ::
  "geom \<Rightarrow> bool \<Rightarrow> nat \<Rightarrow> bitmap \<Rightarrow> int \<Rightarrow> (u32 \<times> u32) list \<Rightarrow> bitmap \<times> int \<times> (u32 \<times> u32) list" where
  "clear_prefree_loop g discard e pre n out =
     (let start = find_next_bit pre (main_segments g) e
      in if start \<ge> main_segments g then (pre, n, out)
         else let fin = find_next_zero_bit pre (main_segments g) (start + 1);
                  pre = fold (\<lambda>i m. m(i := False)) [start..<fin] pre;
                  n = n - int (fin - start);
                  out = (if \<not> discard then out
                         else out @ [(START_BLOCK g start,
                                      push_bit (log_blocks_per_seg g) (of_nat (fin - start)))])
              in clear_prefree_loop g discard (fin + 1) pre n out)"
  by pat_completeness auto
termination
proof (relation "measure (\<lambda>(g, discard, e, pre, n, out). Suc (main_segments g) - e)", goal_cases)
  case (2 g discard e pre n out start fin)
  have "e \<le> start" "start < main_segments g"
    using find_next_bit_hit [of pre "main_segments g" e] 2(1,2) by simp_all
  moreover have "start < fin"
  proof (cases "fin < main_segments g")
    case True
    then show ?thesis using fnzb.search_hit [of pre "main_segments g" "start + 1"] 2(3) by simp
  next
    case False
    then show ?thesis using \<open>start < main_segments g\<close> by simp
  qed
  ultimately show ?case by simp
qed simp

declare clear_prefree_loop.simps [simp del]

definition clear_prefree_segments :: "geom \<Rightarrow> sb_info \<Rightarrow> sb_info \<times> (u32 \<times> u32) list" where
  "clear_prefree_segments g s =
     (let d = dirty_i s;
          (pre, n, out) = clear_prefree_loop g (test_opt (mount_opt s) MOUNT_DISCARD) 0
             (dirty_segmap d PRE) (nr_dirty d PRE) [];
          s = s\<lparr>dirty_i := d\<lparr>dirty_segmap := (dirty_segmap d)(PRE := pre),
                            nr_dirty := (nr_dirty d)(PRE := n)\<rparr>\<rparr>
      in fold (\<lambda>entry (s, out).
           (s\<lparr>discard_list := tl (discard_list s),
              nr_discards := nr_discards s - sint (d_len entry)\<rparr>,
            out @ [(d_blkaddr entry, d_len entry)]))
         (discard_list s) (s, out))"

definition release_discard_addrs :: "sb_info \<Rightarrow> sb_info" where
  "release_discard_addrs s = s\<lparr>discard_list := []\<rparr>"

section \<open>Invariant\<close>

definition dirty_ok :: "geom \<Rightarrow> sb_info \<Rightarrow> bool" where
  "dirty_ok g s \<longleftrightarrow>
     (\<forall>t<8. nr_dirty (dirty_i s) t = int (count_bits (dirty_segmap (dirty_i s) t) (main_segments g))) \<and>
     (\<forall>x<main_segments g. se_type (sentries (sit_i s) x) < 6 \<and>
        (\<forall>t<6. dirty_segmap (dirty_i s) t x \<longleftrightarrow>
           dirty_segmap (dirty_i s) DIRTY x \<and> se_type (sentries (sit_i s) x) = t))"

lemma dirty_add_map [simp]:
  "dirty_segmap (dirty_add t x d) = (dirty_segmap d)(t := (dirty_segmap d t)(x := True))"
  "dirty_segmap (dirty_del t x d) = (dirty_segmap d)(t := (dirty_segmap d t)(x := False))"
  "victim_secmap (dirty_add t x d) = victim_secmap d"
  "victim_secmap (dirty_del t x d) = victim_secmap d"
  by (auto simp: dirty_add_def dirty_del_def fun_upd_idem)

definition dirty_counts :: "geom \<Rightarrow> dirty_seglist_info \<Rightarrow> bool" where
  "dirty_counts g d \<longleftrightarrow>
     (\<forall>t<8. nr_dirty d t = int (count_bits (dirty_segmap d t) (main_segments g)))"

lemma dirty_counts_add:
  assumes "dirty_counts g d" and "x < main_segments g" and "t < 8"
  shows "dirty_counts g (dirty_add t x d)" and "dirty_counts g (dirty_del t x d)"
proof -
  show "dirty_counts g (dirty_add t x d)"
    using assms count_bits_insert [of x "main_segments g" "dirty_segmap d t"]
    by (auto simp: dirty_counts_def dirty_add_def)
  show "dirty_counts g (dirty_del t x d)"
    using assms count_bits_remove [of x "main_segments g" "dirty_segmap d t"]
    by (auto simp: dirty_counts_def dirty_del_def)
qed

definition dirty_types :: "geom \<Rightarrow> (nat \<Rightarrow> seg_entry) \<Rightarrow> (nat \<Rightarrow> bitmap) \<Rightarrow> bool" where
  "dirty_types g se m \<longleftrightarrow>
     (\<forall>x<main_segments g. se_type (se x) < 6 \<and>
        (\<forall>t<6. m t x \<longleftrightarrow> m DIRTY x \<and> se_type (se x) = t))"

lemma dirty_ok_iff:
  "dirty_ok g s \<longleftrightarrow> dirty_counts g (dirty_i s) \<and> dirty_types g (sentries (sit_i s)) (dirty_segmap (dirty_i s))"
  by (simp add: dirty_ok_def dirty_counts_def dirty_types_def)

lemma IS_CURSEG_iff: "IS_CURSEG s x \<longleftrightarrow> (\<exists>t<6. cs_segno (cursegs s t) = x)"
  by (auto simp: IS_CURSEG_def list_ex_iff)

lemma IS_CURSEG_frame [simp]: "IS_CURSEG (s\<lparr>dirty_i := d\<rparr>) x = IS_CURSEG s x"
  by (simp add: IS_CURSEG_def)

lemma get_valid_blocks_frame [simp]:
  "get_valid_blocks g (s\<lparr>dirty_i := d\<rparr>) x k = get_valid_blocks g s x k"
  by (simp add: get_valid_blocks_def)

lemma locate_dirty_ok:
  assumes "dirty_ok g s" and "x < main_segments g" and "t = DIRTY \<or> t = PRE"
  shows "dirty_ok g (locate_dirty t x s)"
proof -
  have ty: "se_type (sentries (sit_i s) x) < 6"
    using assms(1,2) by (simp add: dirty_ok_def)
  show ?thesis
    using assms ty unfolding dirty_ok_iff
    by (auto simp: locate_dirty_def Let_def dirty_counts_add dirty_types_def)
qed

lemma remove_dirty_map:
  "dirty_segmap (dirty_i (remove_dirty g PRE x s)) =
     (dirty_segmap (dirty_i s))(PRE := (dirty_segmap (dirty_i s) PRE)(x := False))"
  "se_type (sentries (sit_i s) x) < 6 \<Longrightarrow>
   dirty_segmap (dirty_i (remove_dirty g DIRTY x s)) =
     (\<lambda>t. if t = DIRTY \<or> t = se_type (sentries (sit_i s) x)
          then (dirty_segmap (dirty_i s) t)(x := False) else dirty_segmap (dirty_i s) t)"
  by (auto simp: remove_dirty_def Let_def)

lemma locate_dirty_map:
  "locate_dirty t x s = s \<or> \<not> IS_CURSEG s x"
  "\<not> IS_CURSEG s x \<Longrightarrow> dirty_segmap (dirty_i (locate_dirty PRE x s)) =
     (dirty_segmap (dirty_i s))(PRE := (dirty_segmap (dirty_i s) PRE)(x := True))"
  "\<not> IS_CURSEG s x \<Longrightarrow> se_type (sentries (sit_i s) x) < 6 \<Longrightarrow>
   dirty_segmap (dirty_i (locate_dirty DIRTY x s)) =
     (\<lambda>t. if t = DIRTY \<or> t = se_type (sentries (sit_i s) x)
          then (dirty_segmap (dirty_i s) t)(x := True) else dirty_segmap (dirty_i s) t)"
  by (auto simp: locate_dirty_def Let_def)

lemma remove_dirty_counts:
  assumes "dirty_counts g (dirty_i s)" and "x < main_segments g" and "t < 8"
    and "se_type (sentries (sit_i s) x) < 6"
  shows "dirty_counts g (dirty_i (remove_dirty g t x s))"
proof -
  have v: "dirty_counts g (d\<lparr>victim_secmap := m\<rparr>) = dirty_counts g d" for d m
    by (simp add: dirty_counts_def)
  have "dirty_counts g (dirty_del t x (dirty_i s))"
    by (rule dirty_counts_add(2) [OF assms(1-3)])
  moreover have "dirty_counts g (dirty_del (se_type (sentries (sit_i s) x)) x (dirty_del t x (dirty_i s)))"
    using assms(4) by (intro dirty_counts_add(2) [OF calculation assms(2)]) simp
  ultimately show ?thesis
    by (auto simp: remove_dirty_def Let_def v)
qed

lemma dirty_frame [simp]:
  "sit_i (locate_dirty t x s) = sit_i s" "sit_i (remove_dirty g t x s) = sit_i s"
  "cursegs (locate_dirty t x s) = cursegs s" "cursegs (remove_dirty g t x s) = cursegs s"
  "free_i (locate_dirty t x s) = free_i s" "free_i (remove_dirty g t x s) = free_i s"
  by (simp_all add: locate_dirty_def remove_dirty_def Let_def f2fs_bug_on_def set_sbi_flag_def)

lemma remove_dirty_ok:
  assumes "dirty_ok g s" and "x < main_segments g" and "t = DIRTY \<or> t = PRE"
  shows "dirty_ok g (remove_dirty g t x s)"
proof -
  let ?m = "dirty_segmap (dirty_i s)" and ?se = "sentries (sit_i s)"
  have ty: "se_type (?se x) < 6"
    using assms(1,2) by (simp add: dirty_ok_def)
  have d: "dirty_types g ?se ?m"
    using assms(1) by (simp add: dirty_ok_iff)
  have "dirty_types g ?se (dirty_segmap (dirty_i (remove_dirty g t x s)))"
    using assms(3)
  proof
    assume "t = DIRTY"
    with d ty show ?thesis
      by (simp add: remove_dirty_map dirty_types_def)
  next
    assume "t = PRE"
    with d show ?thesis
      by (simp add: remove_dirty_map dirty_types_def)
  qed
  moreover have "dirty_counts g (dirty_i (remove_dirty g t x s))"
    using assms ty by (intro remove_dirty_counts) (auto simp: dirty_ok_iff)
  ultimately show ?thesis by (simp add: dirty_ok_iff)
qed

lemma locate_dirty_segment_ok:
  assumes "dirty_ok g s" and "x < main_segments g"
  shows "dirty_ok g (locate_dirty_segment g x s)"
  using assms by (simp add: locate_dirty_segment_def Let_def locate_dirty_ok remove_dirty_ok)

definition members :: "geom \<Rightarrow> nat \<Rightarrow> sb_info \<Rightarrow> nat set" where
  "members g t s = {x. x < main_segments g \<and> dirty_segmap (dirty_i s) t x}"

lemma members_card: "dirty_ok g s \<Longrightarrow> t < 8 \<Longrightarrow> nat (nr_dirty (dirty_i s) t) = card (members g t s)"
  by (simp add: dirty_ok_def members_def count_bits_def)

definition not_log :: "(nat \<Rightarrow> curseg_info) \<Rightarrow> nat \<Rightarrow> bool" where
  "not_log cs x \<longleftrightarrow> (\<forall>t<6. cs_segno (cs t) \<noteq> x)"

lemma not_log_iff: "not_log (cursegs s) x \<longleftrightarrow> \<not> IS_CURSEG s x"
  by (auto simp: not_log_def IS_CURSEG_iff)

interpretation prefree: counted_store "\<lambda>s. dirty_ok g s \<and> cursegs s = cs"
    "\<lambda>x. x < main_segments g \<and> not_log cs x" "members g PRE"
    "locate_dirty PRE" "remove_dirty g PRE" "\<lambda>s. nat (nr_dirty (dirty_i s) PRE)" for g cs
  by unfold_locales
    (auto simp: locate_dirty_ok remove_dirty_ok members_card not_log_iff members_def
      locate_dirty_map remove_dirty_map split: if_splits)

interpretation dirty: counted_store "\<lambda>s. dirty_ok g s \<and> cursegs s = cs"
    "\<lambda>x. x < main_segments g \<and> not_log cs x" "members g DIRTY"
    "locate_dirty DIRTY" "remove_dirty g DIRTY" "\<lambda>s. nat (nr_dirty (dirty_i s) DIRTY)" for g cs
proof unfold_locales
  fix s x
  assume s: "dirty_ok g s \<and> cursegs s = cs" and x: "x < main_segments g \<and> not_log cs x"
  have ty: "se_type (sentries (sit_i s) x) < 6"
    using s x by (simp add: dirty_ok_def)
  have nc: "\<not> IS_CURSEG s x" using s x not_log_iff by blast
  show "members g DIRTY (locate_dirty DIRTY x s) = insert x (members g DIRTY s)"
    using x by (auto simp: members_def locate_dirty_map(3) [OF nc ty])
  show "members g DIRTY (remove_dirty g DIRTY x s) = members g DIRTY s - {x}"
    using x by (auto simp: members_def remove_dirty_map(2) [OF ty] split: if_splits)
qed (auto simp: locate_dirty_ok remove_dirty_ok members_card members_def)

section \<open>Clearing the prefree list\<close>

lemma fold_clear: "fold (\<lambda>i m. m(i := False)) xs m = (\<lambda>i. m i \<and> i \<notin> set xs)"
  by (induction xs arbitrary: m) (auto simp: fun_eq_iff)

definition is_run :: "geom \<Rightarrow> bitmap \<Rightarrow> nat \<Rightarrow> (nat \<times> nat) list \<Rightarrow> bool" where
  "is_run g pre e runs \<longleftrightarrow>
     (\<forall>(a, b) \<in> set runs. a < b \<and> b \<le> main_segments g) \<and>
     (\<forall>i. (\<exists>(a, b) \<in> set runs. a \<le> i \<and> i < b) \<longleftrightarrow> e \<le> i \<and> i < main_segments g \<and> pre i)"

definition run_extent :: "geom \<Rightarrow> nat \<times> nat \<Rightarrow> u32 \<times> u32" where
  "run_extent g r = (START_BLOCK g (fst r), push_bit (log_blocks_per_seg g) (of_nat (snd r - fst r)))"

lemma clear_prefree_loop_spec:
  assumes "clear_prefree_loop g discard e pre n out = (pre', n', out')"
  shows "(\<forall>i<main_segments g. pre' i \<longleftrightarrow> pre i \<and> i < e) \<and>
    n' = n - int (card {i. e \<le> i \<and> i < main_segments g \<and> pre i}) \<and>
    (\<exists>runs. is_run g pre e runs \<and> out' = (if discard then out @ map (run_extent g) runs else out))"
  using assms
proof (induction g discard e pre n out rule: clear_prefree_loop.induct)
  case (1 g discard e pre n out)
  let ?N = "main_segments g"
  let ?a = "find_next_bit pre ?N e"
  let ?b = "find_next_zero_bit pre ?N (?a + 1)"
  show ?case
  proof (cases "?a < ?N")
    case False
    then have none: "\<forall>i. e \<le> i \<and> i < ?N \<longrightarrow> \<not> pre i"
      using fnb.search_none_iff [of ?N pre e] by simp
    then have "{i. e \<le> i \<and> i < ?N \<and> pre i} = {}" by blast
    moreover have "is_run g pre e []" using none by (auto simp: is_run_def)
    moreover have "clear_prefree_loop g discard e pre n out = (pre, n, out)"
      using False by (simp add: clear_prefree_loop.simps [of g discard e])
    ultimately show ?thesis
      using 1(2) none by (auto intro!: exI [of _ "[]"] simp: not_less)
  next
    case True
    then have a: "e \<le> ?a" "pre ?a" and before: "\<And>i. e \<le> i \<Longrightarrow> i < ?a \<Longrightarrow> \<not> pre i"
      using find_next_bit_hit find_next_bit_least by blast+
    have b: "?b \<le> ?N" and inside: "\<And>i. ?a + 1 \<le> i \<Longrightarrow> i < ?b \<Longrightarrow> pre i"
      and at_b: "?b < ?N \<Longrightarrow> ?a + 1 \<le> ?b \<and> \<not> pre ?b"
      using fnzb.search_le [where m = pre and sz = ?N and off = "?a + 1"] fnzb.search_least [where m = pre and sz = ?N and off = "?a + 1"]
        fnzb.search_hit [where m = pre and sz = ?N and off = "?a + 1"] by auto
    have ab: "?a < ?b" using at_b True b by (cases "?b < ?N") auto
    have all: "pre i" if "?a \<le> i" "i < ?b" for i
      using that a(2) inside [of i] by (cases "i = ?a") auto
    let ?pre = "\<lambda>i. pre i \<and> i \<notin> set [?a..<?b]"
    let ?out = "if \<not> discard then out else out @ [run_extent g (?a, ?b)]"
    have step: "clear_prefree_loop g discard (?b + 1) ?pre (n - int (?b - ?a)) ?out = (pre', n', out')"
      using 1(2) True clear_prefree_loop.simps [of g discard e pre n out]
      by (cases discard) (simp_all add: Let_def fold_clear run_extent_def)
    note IH = 1(1) [OF refl _ refl refl refl refl]
    have ih: "(\<forall>i<?N. pre' i \<longleftrightarrow> ?pre i \<and> i < ?b + 1) \<and>
        n' = n - int (?b - ?a) - int (card {i. ?b + 1 \<le> i \<and> i < ?N \<and> ?pre i}) \<and>
        (\<exists>runs. is_run g ?pre (?b + 1) runs \<and>
          out' = (if discard then ?out @ map (run_extent g) runs else ?out))"
      using IH True step by (cases discard) (simp_all add: fold_clear run_extent_def)
    have split: "{i. e \<le> i \<and> i < ?N \<and> pre i} = {?a..<?b} \<union> {i. ?b + 1 \<le> i \<and> i < ?N \<and> ?pre i}"
    proof (intro set_eqI iffI)
      fix i
      assume i: "i \<in> {i. e \<le> i \<and> i < ?N \<and> pre i}"
      then have "?a \<le> i" using before [of i] by (cases "i < ?a") auto
      moreover have "i \<noteq> ?b" using i at_b by auto
      ultimately show "i \<in> {?a..<?b} \<union> {i. ?b + 1 \<le> i \<and> i < ?N \<and> ?pre i}"
        using i by auto
    next
      fix i
      assume "i \<in> {?a..<?b} \<union> {i. ?b + 1 \<le> i \<and> i < ?N \<and> ?pre i}"
      then show "i \<in> {i. e \<le> i \<and> i < ?N \<and> pre i}"
        using all [of i] a(1) b ab by auto
    qed
    have "card {i. e \<le> i \<and> i < ?N \<and> pre i} = (?b - ?a) + card {i. ?b + 1 \<le> i \<and> i < ?N \<and> ?pre i}"
      unfolding split by (subst card_Un_disjoint) auto
    then have n': "n' = n - int (card {i. e \<le> i \<and> i < ?N \<and> pre i})"
      using ih by simp
    obtain runs where runs: "is_run g ?pre (?b + 1) runs"
        and out': "out' = (if discard then ?out @ map (run_extent g) runs else ?out)"
      using ih by blast
    have "is_run g pre e ((?a, ?b) # runs)"
      using runs ab b split unfolding is_run_def set_eq_iff
      by (simp del: set_upt)
    moreover have "pre' i \<longleftrightarrow> pre i \<and> i < e" if "i < ?N" for i
    proof -
      have "i \<in> {i. e \<le> i \<and> i < ?N \<and> pre i} \<longleftrightarrow> i \<in> {?a..<?b} \<union> {i. ?b + 1 \<le> i \<and> i < ?N \<and> ?pre i}"
        using split by blast
      then show ?thesis using ih that a(1) ab by auto
    qed
    ultimately show ?thesis
      using n' out' by (intro conjI allI impI exI [of _ "(?a, ?b) # runs"]) auto
  qed
qed

text \<open>A block lies in an extent (start, number of blocks).\<close>

definition in_extent :: "u32 \<times> u32 \<Rightarrow> u32 \<Rightarrow> bool" where
  "in_extent e b \<longleftrightarrow> unat (fst e) \<le> unat b \<and> unat b < unat (fst e) + unat (snd e)"

lemma run_extent_covers:
  assumes "geom_ok L g" and "a < b" and "b \<le> main_segments g"
    and "x < main_segments g" and "off < blocks_per_seg g"
  shows "in_extent (run_extent g (a, b)) (START_BLOCK g x + of_nat off) \<longleftrightarrow> a \<le> x \<and> x < b"
proof -
  let ?B = "blocks_per_seg g"
  have a: "a < main_segments g" using assms(2,3) by simp
  have B: "0 < ?B" using geom_blocks [OF assms(1)] by simp
  have q: "(x * ?B + off) div ?B = x" using assms(5) by simp
  have sa: "unat (START_BLOCK g a) = blk_nat g a 0"
    using unat_START_BLOCK [OF assms(1) a B] by simp
  have "(b - a) * ?B \<le> seg_count g * ?B"
    using geom_okD(8) [OF assms(1)] assms(3) by (intro mult_le_mono1) simp
  then have "(b - a) * ?B < 2 ^ 32"
    using geom_okD(9) [OF assms(1)] by linarith
  then have l: "(b - a) * ?B < 2 ^ LENGTH(32)"
    by simp
  have "push_bit (log_blocks_per_seg g) (of_nat (b - a) :: u32) = of_nat ((b - a) * ?B)"
    by (simp add: push_bit_eq_mult geom_okD(5) [OF assms(1)])
  then have sl: "unat (push_bit (log_blocks_per_seg g) (of_nat (b - a) :: u32)) = (b - a) * ?B"
    using unat_of_nat_small [OF l] by simp
  have "in_extent (run_extent g (a, b)) (START_BLOCK g x + of_nat off) \<longleftrightarrow>
      a * ?B \<le> x * ?B + off \<and> x * ?B + off < a * ?B + (b - a) * ?B"
    unfolding in_extent_def run_extent_def fst_conv snd_conv sa sl unat_START_BLOCK [OF assms(1,4,5)]
    by (simp add: blk_nat_def algebra_simps)
  also have "a * ?B + (b - a) * ?B = b * ?B"
    using assms(2) by (simp add: algebra_simps diff_mult_distrib2)
  also have "a * ?B \<le> x * ?B + off \<longleftrightarrow> a \<le> x"
    using less_eq_div_iff_mult_less_eq [OF B, of a "x * ?B + off"] q by simp
  also have "x * ?B + off < b * ?B \<longleftrightarrow> x < b"
    using div_less_iff_less_mult [OF B, of "x * ?B + off" b] q by simp
  finally show ?thesis .
qed

lemma drain_discards:
  "fold (\<lambda>entry (s, out). (s\<lparr>discard_list := tl (discard_list s),
        nr_discards := nr_discards s - sint (d_len entry)\<rparr>, out @ [(d_blkaddr entry, d_len entry)]))
     ds (s, out) =
   (s\<lparr>discard_list := drop (length ds) (discard_list s),
      nr_discards := nr_discards s - (\<Sum>d\<leftarrow>ds. sint (d_len d))\<rparr>,
    out @ map (\<lambda>d. (d_blkaddr d, d_len d)) ds)"
proof (induction ds arbitrary: s out)
  case (Cons d ds)
  then show ?case by (simp add: drop_Suc algebra_simps)
qed simp

section \<open>Properties\<close>

lemma locate_dirty_segment_members:
  assumes "dirty_ok g s" and "x < main_segments g" and "x \<noteq> NULL_SEGNO" and "\<not> IS_CURSEG s x"
    and "s' = locate_dirty_segment g x s" and "v = get_valid_blocks g s x 0"
  shows "dirty_ok g s' \<and>
    members g DIRTY s' = (if 0 < v \<and> v < blocks_per_seg g then insert x (members g DIRTY s)
                          else members g DIRTY s - {x}) \<and>
    members g PRE s' = (if v = 0 then insert x (members g PRE s) else members g PRE s) \<and>
    (\<forall>t<8. nr_dirty (dirty_i s') t = int (card (members g t s')))"
proof -
  have nl: "x < main_segments g \<and> not_log (cursegs s) x" using assms(2,4) by (simp add: not_log_iff)
  have inv: "dirty_ok g s \<and> cursegs s = cursegs s" using assms(1) by simp
  have ty: "se_type (sentries (sit_i s) x) < 6" using assms(1,2) by (simp add: dirty_ok_def)
  let ?p = "locate_dirty PRE x s"
  have p: "dirty_ok g ?p \<and> cursegs ?p = cursegs s" using prefree.ins_inv [OF inv nl] .
  have pm: "members g PRE ?p = insert x (members g PRE s)" "members g DIRTY ?p = members g DIRTY s"
    using prefree.ins_members [OF inv nl] locate_dirty_map(2) [OF assms(4)] by (simp_all add: members_def)
  have d: "members g PRE (remove_dirty g DIRTY x u) = members g PRE u"
      "members g PRE (locate_dirty DIRTY x s) = members g PRE s"
    if "se_type (sentries (sit_i u) x) < 6" for u
    using that ty remove_dirty_map(2) [of u x g] locate_dirty_map(3) [OF assms(4) ty]
    by (simp_all add: members_def)
  have ok: "dirty_ok g s'" unfolding assms(5) by (rule locate_dirty_segment_ok [OF assms(1,2)])
  then have "\<forall>t<8. nr_dirty (dirty_i s') t = int (card (members g t s'))"
    by (simp add: dirty_ok_def members_def count_bits_def)
  moreover have "s' = (if v = 0 then remove_dirty g DIRTY x ?p
      else if v < blocks_per_seg g then locate_dirty DIRTY x s else remove_dirty g DIRTY x s)"
    using assms(3,4) by (simp add: assms(5,6) locate_dirty_segment_def Let_def)
  ultimately show ?thesis
    using ok pm d [of ?p] d [of s] ty dirty.ins_members [OF inv nl] dirty.del_members [OF inv nl]
      dirty.del_members [OF p nl] by simp
qed

text \<open>
  \<open>locate_dirty_segment\<close> files a segment that is not a current log by its number of valid
  blocks: a segment with none is on the prefree list and not dirty, a partly valid one is
  dirty, a full one is not dirty; the prefree list changes for an empty segment only, the
  entries of all other segments stay, and the counters stay exact.
\<close>
theorem locate_dirty_segment_files:
  assumes "dirty_ok g s" and "x < main_segments g" and "x \<noteq> NULL_SEGNO" and "\<not> IS_CURSEG s x"
    and "s' = locate_dirty_segment g x s" and "v = get_valid_blocks g s x 0"
  shows "dirty_ok g s' \<and>
    members g DIRTY s' = (if 0 < v \<and> v < blocks_per_seg g then insert x (members g DIRTY s)
                          else members g DIRTY s - {x}) \<and>
    members g PRE s' = (if v = 0 then insert x (members g PRE s) else members g PRE s) \<and>
    (\<forall>t<8. nr_dirty (dirty_i s') t = int (card (members g t s')))"
  by (rule locate_dirty_segment_members [OF assms])

definition dirty_sample :: sb_info where
  "dirty_sample = sample_sb\<lparr>sit_i := (sit_i sample_sb)\<lparr>sentries :=
     (sentries (sit_i sample_sb))(6 := (sample_seg 2)\<lparr>valid_blocks := 3\<rparr>)\<rparr>\<rparr>"

lemma dirty_sample_ok: "dirty_ok small_geom dirty_sample"
  by (simp add: dirty_ok_def dirty_sample_def sample_sb_def count_bits_def sample_seg_def)

theorem locate_dirty_segment_files_witness:
  "6 \<in> members small_geom DIRTY (locate_dirty_segment small_geom 6 dirty_sample)"
proof -
  have h: "6 < main_segments small_geom" "6 \<noteq> NULL_SEGNO" "\<not> IS_CURSEG dirty_sample 6"
    "get_valid_blocks small_geom dirty_sample 6 0 = 3" "blocks_per_seg small_geom = 64"
    by (simp_all add: small_geom_def IS_CURSEG_iff dirty_sample_def sample_sb_def
        get_valid_blocks_def sample_seg_def)
  from locate_dirty_segment_files [OF dirty_sample_ok h(1-3) refl refl] h(4,5)
  show ?thesis by simp
qed

text \<open>
  The checkpoint frees exactly the prefree segments: \<open>set_prefree_as_free_segments\<close> takes
  them out of the segment map and adds those that were in use to the free counter, and
  \<open>clear_prefree_segments\<close> empties the list, resets its counter to zero, keeps the dirty
  lists consistent and, under the discard option, discards a block of the main area (besides
  the small discards queued before) exactly when its segment was on the list.
\<close>
theorem prefree_segments_freed:
  assumes "geom_ok L g" and "free_ok g (free_i s)" and "dirty_ok g s"
    and "clear_prefree_segments g s = (s', out)"
    and "x < main_segments g" and "off < blocks_per_seg g"
  shows "free_ok g (free_i (set_prefree_as_free_segments g s)) \<and>
    inuse g (free_i (set_prefree_as_free_segments g s)) = inuse g (free_i s) - members g PRE s \<and>
    dirty_ok g s' \<and> members g PRE s' = {} \<and> nr_dirty (dirty_i s') PRE = 0 \<and>
    discard_list s' = [] \<and>
    (\<exists>ext. out = ext @ map (\<lambda>d. (d_blkaddr d, d_len d)) (discard_list s) \<and>
      (if test_opt (mount_opt s) MOUNT_DISCARD
       then (\<exists>e \<in> set ext. in_extent e (START_BLOCK g x + of_nat off)) \<longleftrightarrow> x \<in> members g PRE s
       else ext = []))"
proof -
  let ?pre = "dirty_segmap (dirty_i s) PRE" and ?N = "main_segments g"
  let ?disc = "test_opt (mount_opt s) MOUNT_DISCARD"
  have "set (for_each_set_bit ?pre ?N 0) = members g PRE s"
    by (auto simp: for_each_set_bit_eq members_def)
  then have 1: "free_ok g (free_i (set_prefree_as_free_segments g s))"
      "inuse g (free_i (set_prefree_as_free_segments g s)) = inuse g (free_i s) - members g PRE s"
    using segs.fold_del [OF assms(2), of "for_each_set_bit ?pre ?N 0"]
    by (auto simp: set_prefree_as_free_segments_def members_def)
  obtain pre' n' ext where loop: "clear_prefree_loop g ?disc 0 ?pre (nr_dirty (dirty_i s) PRE) [] = (pre', n', ext)"
    by (rule prod_cases3)
  note spec = clear_prefree_loop_spec [OF loop]
  obtain runs where runs: "is_run g ?pre 0 runs" and ext: "ext = (if ?disc then map (run_extent g) runs else [])"
    using spec by auto
  have pre0: "\<forall>i<?N. \<not> pre' i" using spec by simp
  have "n' = nr_dirty (dirty_i s) PRE - int (card (members g PRE s))"
    using spec by (simp add: members_def)
  then have n0: "n' = 0"
    using assms(3) by (simp add: dirty_ok_def members_def count_bits_def)
  have s': "s' = s\<lparr>dirty_i := (dirty_i s)\<lparr>dirty_segmap := (dirty_segmap (dirty_i s))(PRE := pre'),
        nr_dirty := (nr_dirty (dirty_i s))(PRE := n')\<rparr>, discard_list := [],
        nr_discards := nr_discards s - (\<Sum>d\<leftarrow>discard_list s. sint (d_len d))\<rparr>"
    and out: "out = ext @ map (\<lambda>d. (d_blkaddr d, d_len d)) (discard_list s)"
    using assms(4) unfolding clear_prefree_segments_def Let_def loop prod.case drain_discards by auto
  have "count_bits pre' ?N = 0"
    using pre0 by (simp add: count_bits_def)
  then have 2: "dirty_ok g s'"
    using assms(3) n0 unfolding s' dirty_ok_def by simp
  have 3: "members g PRE s' = {}" "nr_dirty (dirty_i s') PRE = 0" "discard_list s' = []"
    using pre0 n0 by (auto simp: s' members_def)
  have each: "in_extent (run_extent g r) (START_BLOCK g x + of_nat off) \<longleftrightarrow> (case r of (a, b) \<Rightarrow> a \<le> x \<and> x < b)"
    if "r \<in> set runs" for r
  proof (cases r)
    case (Pair a b)
    then have "a < b" and "b \<le> main_segments g"
      using runs that unfolding is_run_def by blast+
    then show ?thesis
      unfolding Pair using run_extent_covers [OF assms(1) _ _ assms(5,6)] by simp
  qed
  have "(\<exists>e \<in> set (map (run_extent g) runs). in_extent e (START_BLOCK g x + of_nat off)) \<longleftrightarrow>
      (\<exists>(a, b) \<in> set runs. a \<le> x \<and> x < b)"
    unfolding set_map bex_simps(7) using each by (intro bex_cong refl) blast
  also have "\<dots> \<longleftrightarrow> x \<in> members g PRE s"
    using runs assms(5) unfolding is_run_def by (simp add: members_def)
  finally have cov: "(\<exists>e \<in> set (map (run_extent g) runs). in_extent e (START_BLOCK g x + of_nat off)) \<longleftrightarrow>
      x \<in> members g PRE s" .
  have 4: "if ?disc then (\<exists>e \<in> set ext. in_extent e (START_BLOCK g x + of_nat off)) \<longleftrightarrow> x \<in> members g PRE s
      else ext = []"
    unfolding ext using cov by (cases ?disc) (simp_all only: if_True if_False)
  show ?thesis
    by (intro conjI exI [of _ ext] 1 2 3 out 4)
qed

definition prefree_sample :: sb_info where
  "prefree_sample = sample_sb\<lparr>mount_opt := 4,
     free_i := \<lparr>free_segments = 1, free_sections = 0, free_segmap = (\<lambda>n. n < 7), free_secmap = (\<lambda>n. n < 4)\<rparr>,
     dirty_i := \<lparr>dirty_segmap = (\<lambda>t n. t = PRE \<and> n = 6), nr_dirty = (\<lambda>t. if t = PRE then 1 else 0),
       victim_secmap = (\<lambda>_. False)\<rparr>\<rparr>"

theorem prefree_segments_freed_witness:
  "inuse small_geom (free_i (set_prefree_as_free_segments small_geom prefree_sample)) = {0..<6} \<and>
   members small_geom PRE (fst (clear_prefree_segments small_geom prefree_sample)) = {}"
proof -
  obtain s' out where c: "clear_prefree_segments small_geom prefree_sample = (s', out)"
    by (rule prod.exhaust)
  have cb: "count_bits (\<lambda>n. n < k) m = k" if "k \<le> m" for k m
  proof -
    have "{i. i < m \<and> i < k} = {..<k}" using that by auto
    then show ?thesis by (simp add: count_bits_def)
  qed
  have "{i. i < 8 \<and> i = (6::nat)} = {6}" by auto
  then have one: "count_bits (\<lambda>n. n = 6) 8 = 1" "count_bits (\<lambda>n. False) m = 0" for m
    by (simp_all add: count_bits_def)
  have "(\<exists>s. s div 2 = c \<and> s < 7) \<longleftrightarrow> c < 4" for c :: nat
    by (auto intro!: exI [of _ "2 * c"])
  then have f: "free_ok small_geom (free_i prefree_sample)"
    by (simp add: free_ok_def prefree_sample_def small_geom_def cb sec_inuse_def)
  have d: "dirty_ok small_geom prefree_sample"
    by (auto simp: dirty_ok_def prefree_sample_def small_geom_def sample_sb_def one sample_seg_def)
  have h: "6 < main_segments small_geom" "0 < blocks_per_seg small_geom"
    by (simp_all add: small_geom_def)
  from prefree_segments_freed [OF small_geom_ok f d c h]
  have "inuse small_geom (free_i (set_prefree_as_free_segments small_geom prefree_sample)) =
      inuse small_geom (free_i prefree_sample) - members small_geom PRE prefree_sample" by blast
  also have "\<dots> = {0..<6}"
    by (auto simp: inuse_def members_def prefree_sample_def small_geom_def)
  finally have "inuse small_geom (free_i (set_prefree_as_free_segments small_geom prefree_sample)) = {0..<6}" .
  with prefree_segments_freed [OF small_geom_ok f d c h] c show ?thesis by simp
qed

end
