(* ===== verification/Sit.thy ===== *)
theory Sit
  imports Dirty_Seglist
begin

text \<open>
  The segment information table in memory (\<open>struct sit_info\<close>, \<open>segment.c\<close> and \<open>segment.h\<close>):
  valid-block counts and bitmaps per segment, counts per section, the dirty entries and the
  exchange with the on-disk entries. The invariant \<open>sit_ok\<close> says that every count is the
  number of set bits it stands for.
\<close>

section \<open>Operations\<close>

definition get_mtime :: "sb_info \<Rightarrow> u64" where
  "get_mtime s = elapsed_time (sit_i s) + now s - mounted_time (sit_i s)"

definition mark_sit_entry_dirty :: "nat \<Rightarrow> sit_info \<Rightarrow> bool \<times> sit_info" where
  "mark_sit_entry_dirty segno si =
     (if \<not> dirty_sentries_bitmap si segno
      then (False, si\<lparr>dirty_sentries_bitmap := (dirty_sentries_bitmap si)(segno := True),
                      dirty_sentries := dirty_sentries si + 1\<rparr>)
      else (True, si))"

definition put_seg_entry :: "nat \<Rightarrow> seg_entry \<Rightarrow> sit_info \<Rightarrow> sit_info" where
  "put_seg_entry segno se si = si\<lparr>sentries := (sentries si)(segno := se)\<rparr>"

definition set_sit_entry_type :: "nat \<Rightarrow> nat \<Rightarrow> bool \<Rightarrow> sit_info \<Rightarrow> sit_info" where
  "set_sit_entry_type ty segno modified si =
     (let si = put_seg_entry segno ((sentries si segno)\<lparr>se_type := ty\<rparr>) si
      in if modified then snd (mark_sit_entry_dirty segno si) else si)"

definition update_sit_entry :: "layout \<Rightarrow> geom \<Rightarrow> u32 \<Rightarrow> int \<Rightarrow> sb_info \<Rightarrow> sb_info" where
  "update_sit_entry L g blkaddr del s =
     (let segno = GET_SEGNO L g blkaddr;
          se = sentries (sit_i s) segno;
          new_vblocks = int (unat (valid_blocks se)) + del;
          offset = GET_BLKOFF_FROM_SEG0 g blkaddr;
          s = f2fs_bug_on (drop_bit 16 new_vblocks \<noteq> 0 \<or> new_vblocks > int (blocks_per_seg g)) s;
          se = se\<lparr>valid_blocks := of_int new_vblocks, se_mtime := get_mtime s\<rparr>;
          si = (sit_i s)\<lparr>max_mtime := se_mtime se\<rparr>;
          (old, vmap) = (if del > 0 then f2fs_test_and_set_bit offset (cur_valid_map se)
                         else f2fs_test_and_clear_bit offset (cur_valid_map se));
          se = se\<lparr>cur_valid_map := vmap\<rparr>;
          s = f2fs_bug_on (if del > 0 then old \<noteq> 0 else old = 0) s;
          se = (if f2fs_test_bit offset (ckpt_valid_map se) = 0
                then se\<lparr>ckpt_valid_blocks := ckpt_valid_blocks se + of_int del\<rparr> else se);
          si = put_seg_entry segno se si;
          si = snd (mark_sit_entry_dirty segno si);
          si = si\<lparr>written_valid_blocks := written_valid_blocks si + of_int del\<rparr>;
          si = (if segs_per_sec g > 1
                then si\<lparr>sec_entries := (sec_entries si)
                       (GET_SECNO g segno := sec_entries si (GET_SECNO g segno) + of_int del)\<rparr>
                else si)
      in s\<lparr>sit_i := si\<rparr>)"

definition refresh_sit_entry :: "layout \<Rightarrow> geom \<Rightarrow> u32 \<Rightarrow> u32 \<Rightarrow> sb_info \<Rightarrow> sb_info" where
  "refresh_sit_entry L g old new s =
     (let s = update_sit_entry L g new 1 s;
          s = (if GET_SEGNO L g old \<noteq> NULL_SEGNO then update_sit_entry L g old (-1) s else s);
          s = locate_dirty_segment g (GET_SEGNO L g old) s
      in locate_dirty_segment g (GET_SEGNO L g new) s)"

definition invalidate_blocks :: "layout \<Rightarrow> geom \<Rightarrow> u32 \<Rightarrow> sb_info \<Rightarrow> sb_info" where
  "invalidate_blocks L g addr s =
     (let segno = GET_SEGNO L g addr;
          s = f2fs_bug_on (addr = null_addr L) s
      in if addr = new_addr L then s
         else locate_dirty_segment g segno (update_sit_entry L g addr (-1) s))"

text \<open>
  The exchange with the raw entry; \<open>vb\<close> and \<open>ty\<close> stand for \<open>GET_SIT_VBLOCKS\<close> and
  \<open>GET_SIT_TYPE\<close> of the kernel header.
\<close>

definition seg_info_from_raw_sit ::
  "(u16 \<Rightarrow> u16) \<Rightarrow> (u16 \<Rightarrow> nat) \<Rightarrow> f2fs_sit_entry \<Rightarrow> seg_entry \<Rightarrow> seg_entry" where
  "seg_info_from_raw_sit vb ty rs se =
     se\<lparr>valid_blocks := vb (r_vblocks rs), ckpt_valid_blocks := vb (r_vblocks rs),
        cur_valid_map := r_valid_map rs, ckpt_valid_map := r_valid_map rs,
        se_type := ty (r_vblocks rs), se_mtime := r_mtime rs\<rparr>"

definition seg_info_to_raw_sit :: "layout \<Rightarrow> seg_entry \<Rightarrow> seg_entry \<times> f2fs_sit_entry" where
  "seg_info_to_raw_sit L se =
     (let raw_vblocks = push_bit (sit_vblocks_shift L) (of_nat (se_type se)) OR valid_blocks se;
          rs = \<lparr>r_vblocks = raw_vblocks, r_valid_map = cur_valid_map se, r_mtime = se_mtime se\<rparr>
      in (se\<lparr>ckpt_valid_map := r_valid_map rs, ckpt_valid_blocks := valid_blocks se\<rparr>, rs))"

text \<open>\<open>test_bit_le\<close> on a byte map: bit 0 is the least significant bit of the first byte.\<close>

definition le_bit :: "bytemap \<Rightarrow> nat \<Rightarrow> bool" where
  "le_bit m k \<longleftrightarrow> bit (m ! (k div 8)) (k mod 8)"

text \<open>The counting loop of \<open>check_block_count\<close> (\<open>CONFIG_F2FS_CHECK_FS\<close>).\<close>

function check_count_loop :: "bytemap \<Rightarrow> nat \<Rightarrow> bool \<Rightarrow> nat \<Rightarrow> nat \<Rightarrow> nat" where
  "check_count_loop m bps is_valid cur n =
     (let nxt = (if is_valid then find_next_zero_bit (le_bit m) bps cur
                 else find_next_bit (le_bit m) bps cur);
          n = (if is_valid then n + (nxt - cur) else n)
      in if nxt < bps then check_count_loop m bps (\<not> is_valid) nxt n else n)"
  by pat_completeness auto
termination
proof (relation "measure (\<lambda>(m, bps, is_valid, cur, n). 2 * (bps - cur) + (if is_valid = le_bit m cur then 0 else 1))",
    goal_cases)
  case (2 m bps is_valid cur n nxt n')
  have hit: "cur \<le> nxt" "le_bit m nxt = (\<not> is_valid)"
    using 2 find_next_bit_hit [of "le_bit m" bps cur] find_next_bit_hit [of "\<lambda>i. \<not> le_bit m i" bps cur]
    by (cases is_valid; simp add: find_next_zero_bit_def)+
  show ?case
  proof (cases "cur = nxt")
    case True
    then show ?thesis using hit(2) by simp
  next
    case False
    then have "2 * (bps - nxt) + 1 < 2 * (bps - cur)" using hit(1) 2(3) by linarith
    then show ?thesis using hit(2) by simp
  qed
qed simp

declare check_count_loop.simps [simp del]

section \<open>Invariant\<close>

definition nvalid :: "geom \<Rightarrow> seg_entry \<Rightarrow> nat" where
  "nvalid g se = count_bits (byte_bit (cur_valid_map se)) (blocks_per_seg g)"

definition seg_ok :: "layout \<Rightarrow> geom \<Rightarrow> seg_entry \<Rightarrow> bool" where
  "seg_ok L g se \<longleftrightarrow>
     length (cur_valid_map se) = sit_vblock_map_size L \<and>
     length (ckpt_valid_map se) = sit_vblock_map_size L \<and>
     valid_blocks se = of_nat (nvalid g se) \<and>
     ckpt_valid_blocks se = of_nat (count_bits
       (\<lambda>i. byte_bit (cur_valid_map se) i \<or> byte_bit (ckpt_valid_map se) i) (blocks_per_seg g))"

definition sec_segs :: "geom \<Rightarrow> nat \<Rightarrow> nat set" where
  "sec_segs g c = {c * segs_per_sec g ..< c * segs_per_sec g + segs_per_sec g}"

definition sit_ok :: "layout \<Rightarrow> geom \<Rightarrow> sit_info \<Rightarrow> bool" where
  "sit_ok L g si \<longleftrightarrow>
     (\<forall>x<main_segments g. seg_ok L g (sentries si x)) \<and>
     dirty_sentries si = of_nat (count_bits (dirty_sentries_bitmap si) (main_segments g)) \<and>
     written_valid_blocks si = (\<Sum>x<main_segments g. of_nat (nvalid g (sentries si x))) \<and>
     (segs_per_sec g > 1 \<longrightarrow> (\<forall>c<total_sections g.
        sec_entries si c = (\<Sum>x\<in>sec_segs g c. of_nat (nvalid g (sentries si x)))))"

lemma sum_upd:
  fixes f :: "'a \<Rightarrow> 'b::ab_group_add"
  assumes "finite A" and "x \<in> A"
  shows "(\<Sum>i\<in>A. if i = x then v else f i) = (\<Sum>i\<in>A. f i) - f x + v"
proof -
  have "(\<Sum>i\<in>A. if i = x then v else f i) = v + (\<Sum>i\<in>A - {x}. if i = x then v else f i)"
    using assms by (simp add: sum.remove)
  also have "(\<Sum>i\<in>A - {x}. if i = x then v else f i) = (\<Sum>i\<in>A - {x}. f i)"
    by (rule sum.cong) auto
  also have "\<dots> = (\<Sum>i\<in>A. f i) - f x"
    using assms by (simp add: sum.remove)
  finally show ?thesis by simp
qed

text \<open>The entry after \<open>update_sit_entry\<close>.\<close>

definition seg_update :: "nat \<Rightarrow> int \<Rightarrow> u64 \<Rightarrow> seg_entry \<Rightarrow> seg_entry" where
  "seg_update off del t se =
     se\<lparr>valid_blocks := valid_blocks se + of_int del, se_mtime := t,
        cur_valid_map := snd (if del > 0 then f2fs_test_and_set_bit off (cur_valid_map se)
                              else f2fs_test_and_clear_bit off (cur_valid_map se)),
        ckpt_valid_blocks := (if byte_bit (ckpt_valid_map se) off then ckpt_valid_blocks se
                              else ckpt_valid_blocks se + of_int del)\<rparr>"

definition sit_update :: "geom \<Rightarrow> nat \<Rightarrow> nat \<Rightarrow> int \<Rightarrow> u64 \<Rightarrow> sit_info \<Rightarrow> sit_info" where
  "sit_update g x off del t si =
     (let se = seg_update off del t (sentries si x);
          si = put_seg_entry x se (si\<lparr>max_mtime := t\<rparr>);
          si = snd (mark_sit_entry_dirty x si);
          si = si\<lparr>written_valid_blocks := written_valid_blocks si + of_int del\<rparr>
      in if segs_per_sec g > 1
         then si\<lparr>sec_entries := (sec_entries si)(GET_SECNO g x := sec_entries si (GET_SECNO g x) + of_int del)\<rparr>
         else si)"

definition vblocks_bug :: "geom \<Rightarrow> seg_entry \<Rightarrow> nat \<Rightarrow> int \<Rightarrow> bool" where
  "vblocks_bug g se off del \<longleftrightarrow>
     drop_bit 16 (int (unat (valid_blocks se)) + del) \<noteq> 0 \<or>
     int (unat (valid_blocks se)) + del > int (blocks_per_seg g) \<or>
     (del > 0) = byte_bit (cur_valid_map se) off"

lemma bug_on_bug_on: "f2fs_bug_on a (f2fs_bug_on b s) = f2fs_bug_on (a \<or> b) s"
  by (simp add: f2fs_bug_on_def set_sbi_flag_def or.assoc)

lemma bug_on_sit [simp]:
  "sit_i (f2fs_bug_on c s) = sit_i s" "now (f2fs_bug_on c s) = now s"
  "dirty_i (f2fs_bug_on c s) = dirty_i s" "cursegs (f2fs_bug_on c s) = cursegs s"
  "free_i (f2fs_bug_on c s) = free_i s"
  by (simp_all add: f2fs_bug_on_def set_sbi_flag_def)

lemma update_sit_entry_eq:
  assumes "GET_SEGNO L g b = x" and "GET_BLKOFF_FROM_SEG0 g b = off"
  shows "update_sit_entry L g b del s =
    (f2fs_bug_on (vblocks_bug g (sentries (sit_i s) x) off del) s)
      \<lparr>sit_i := sit_update g x off del (get_mtime s) (sit_i s)\<rparr>"
proof -
  have t: "get_mtime (f2fs_bug_on c s) = get_mtime s" for c
    by (simp add: get_mtime_def)
  have b: "f2fs_test_bit k m = 0 \<longleftrightarrow> \<not> byte_bit m k" for k m
    by (simp add: byte_bit_def)
  have z: "fst (f2fs_test_and_set_bit k m) = 0 \<longleftrightarrow> \<not> byte_bit m k"
      "fst (f2fs_test_and_clear_bit k m) = 0 \<longleftrightarrow> \<not> byte_bit m k" for k m
    using fst_test_and_set [of k m] fst_test_and_clear [of k m] by blast+
  show ?thesis
    unfolding update_sit_entry_def assms Let_def sit_update_def
    by (cases "del > 0"; cases "byte_bit (cur_valid_map (sentries (sit_i s) x)) off")
      (simp_all add: case_prod_beta bug_on_bug_on t b z seg_update_def vblocks_bug_def disj_commute
        disj_left_commute put_seg_entry_def)
qed

lemma seg_update_ok:
  assumes "geom_ok L g" and "seg_ok L g se" and "off < blocks_per_seg g"
    and "del = 1 \<and> \<not> byte_bit (cur_valid_map se) off \<or> del = -1 \<and> byte_bit (cur_valid_map se) off"
  shows "seg_ok L g (seg_update off del t se)"
    and "int (nvalid g (seg_update off del t se)) = int (nvalid g se) + del"
    and "byte_bit (cur_valid_map (seg_update off del t se)) = (byte_bit (cur_valid_map se))(off := del > 0)"
proof -
  let ?cur = "byte_bit (cur_valid_map se)" and ?ck = "byte_bit (ckpt_valid_map se)"
  let ?B = "blocks_per_seg g"
  have o: "off < 8 * length (cur_valid_map se)"
    using assms(2,3) geom_okD(7) [OF assms(1)] by (simp add: seg_ok_def)
  show map: "byte_bit (cur_valid_map (seg_update off del t se)) = ?cur(off := del > 0)"
    using assms(4) by (auto simp: seg_update_def byte_bit_set [OF o] byte_bit_clear [OF o])
  show n: "int (nvalid g (seg_update off del t se)) = int (nvalid g se) + del"
    using assms(4) count_bits_insert [OF assms(3), of ?cur] count_bits_remove [OF assms(3), of ?cur]
    unfolding nvalid_def map by auto
  have u: "(\<lambda>i. (?cur(off := v)) i \<or> ?ck i) = (if ?ck off then (\<lambda>i. ?cur i \<or> ?ck i) else (\<lambda>i. ?cur i \<or> ?ck i)(off := v))"
    for v
    by (auto simp: fun_eq_iff)
  have ck: "ckpt_valid_blocks (seg_update off del t se) =
      of_nat (count_bits (\<lambda>i. (?cur(off := del > 0)) i \<or> ?ck i) ?B)"
  proof (cases "?ck off")
    case True
    then show ?thesis
      unfolding u using assms(2) by (simp add: seg_update_def seg_ok_def)
  next
    case False
    let ?u = "\<lambda>i. ?cur i \<or> ?ck i"
    have old: "ckpt_valid_blocks se = of_nat (count_bits ?u ?B)"
      using assms(2) by (simp add: seg_ok_def)
    have new: "int (count_bits (?u(off := del > 0)) ?B) = int (count_bits ?u ?B) + del"
      using assms(4) False count_bits_insert [OF assms(3), of ?u] count_bits_remove [OF assms(3), of ?u]
      by auto
    have "(of_nat (count_bits (?u(off := del > 0)) ?B) :: u16) = of_nat (count_bits ?u ?B) + of_int del"
      using arg_cong [OF new, of "of_int :: int \<Rightarrow> u16"] by simp
    then show ?thesis
      unfolding u using False old by (simp add: seg_update_def)
  qed
  have "valid_blocks (seg_update off del t se) = of_int (int (nvalid g se) + del)"
    using assms(2) by (simp add: seg_update_def seg_ok_def)
  also have "\<dots> = of_nat (nvalid g (seg_update off del t se))"
    unfolding n [symmetric] by simp
  finally show "seg_ok L g (seg_update off del t se)"
    using assms(2) ck unfolding seg_ok_def map
    by (auto simp: seg_update_def)
qed

lemma mark_dirty_frame [simp]:
  "sentries (snd (mark_sit_entry_dirty x si)) = sentries si"
  "sec_entries (snd (mark_sit_entry_dirty x si)) = sec_entries si"
  "written_valid_blocks (snd (mark_sit_entry_dirty x si)) = written_valid_blocks si"
  "dirty_sentries_bitmap (snd (mark_sit_entry_dirty x si)) = (dirty_sentries_bitmap si)(x := True)"
  "sit_bitmap (snd (mark_sit_entry_dirty x si)) = sit_bitmap si"
  by (auto simp: mark_sit_entry_dirty_def fun_upd_idem)

lemma mark_dirty_count:
  assumes "x < n" and "dirty_sentries si = of_nat (count_bits (dirty_sentries_bitmap si) n)"
  shows "dirty_sentries (snd (mark_sit_entry_dirty x si)) =
    of_nat (count_bits ((dirty_sentries_bitmap si)(x := True)) n)"
  using assms by (auto simp: mark_sit_entry_dirty_def count_bits_insert)

lemma sit_update_frame [simp]:
  "sentries (sit_update g x off del t si) = (sentries si)(x := seg_update off del t (sentries si x))"
  "dirty_sentries_bitmap (sit_update g x off del t si) = (dirty_sentries_bitmap si)(x := True)"
  "written_valid_blocks (sit_update g x off del t si) = written_valid_blocks si + of_int del"
  "sit_bitmap (sit_update g x off del t si) = sit_bitmap si"
  by (simp_all add: sit_update_def Let_def put_seg_entry_def)

lemma sec_segs_iff: "0 < segs_per_sec g \<Longrightarrow> x \<in> sec_segs g c \<longleftrightarrow> x div segs_per_sec g = c"
  unfolding sec_segs_def atLeastLessThan_iff
  by (metis add.commute div_nat_eqI dividend_less_times_div mult.commute mult_Suc_right times_div_less_eq_dividend)

lemma sit_update_ok:
  assumes "geom_ok L g" and "sit_ok L g si" and "x < main_segments g" and "off < blocks_per_seg g"
    and "del = 1 \<and> \<not> byte_bit (cur_valid_map (sentries si x)) off \<or>
         del = -1 \<and> byte_bit (cur_valid_map (sentries si x)) off"
  shows "sit_ok L g (sit_update g x off del t si)"
proof -
  let ?si = "sit_update g x off del t si" and ?se = "seg_update off del t (sentries si x)"
  have se: "seg_ok L g (sentries si x)" using assms(2,3) by (simp add: sit_ok_def)
  note upd = seg_update_ok [OF assms(1) se assms(4,5), of t]
  have nw: "(of_nat (nvalid g ?se) :: u32) = of_nat (nvalid g (sentries si x)) + of_int del"
    using arg_cong [OF upd(2), of "of_int :: int \<Rightarrow> u32"] by simp
  have f: "(of_nat (nvalid g (sentries ?si i)) :: u32) =
      (if i = x then of_nat (nvalid g ?se) else of_nat (nvalid g (sentries si i)))" for i
    by simp
  have 1: "\<forall>i<main_segments g. seg_ok L g (sentries ?si i)"
    using assms(2) upd(1) by (simp add: sit_ok_def)
  have 2: "written_valid_blocks ?si = (\<Sum>i<main_segments g. of_nat (nvalid g (sentries ?si i)))"
    unfolding f using assms(2,3) nw by (subst sum_upd) (simp_all add: sit_ok_def)
  have 3: "dirty_sentries ?si = of_nat (count_bits (dirty_sentries_bitmap ?si) (main_segments g))"
  proof -
    have "dirty_sentries si = of_nat (count_bits (dirty_sentries_bitmap si) (main_segments g))"
      using assms(2) by (simp add: sit_ok_def)
    then show ?thesis
      using mark_dirty_count [OF assms(3), of "put_seg_entry x ?se (si\<lparr>max_mtime := t\<rparr>)"]
      by (simp add: sit_update_def Let_def put_seg_entry_def)
  qed
  have 4: "sec_entries ?si c = (\<Sum>i\<in>sec_segs g c. of_nat (nvalid g (sentries ?si i)))"
    if "segs_per_sec g > 1" and c: "c < total_sections g" for c
  proof -
    have s: "sec_entries ?si = (sec_entries si)(GET_SECNO g x := sec_entries si (GET_SECNO g x) + of_int del)"
      using that by (simp add: sit_update_def Let_def put_seg_entry_def)
    have old: "sec_entries si c = (\<Sum>i\<in>sec_segs g c. of_nat (nvalid g (sentries si i)))"
      using assms(2) that by (simp add: sit_ok_def)
    show ?thesis
    proof (cases "c = GET_SECNO g x")
      case True
      then have "x \<in> sec_segs g c"
        using that by (simp add: sec_segs_iff GET_SECNO_def)
      then show ?thesis
        unfolding f s using True old nw by (subst sum_upd) (simp_all add: sec_segs_def)
    next
      case False
      then have "x \<notin> sec_segs g c"
        using that by (simp add: sec_segs_iff GET_SECNO_def)
      then have "(\<Sum>i\<in>sec_segs g c. of_nat (nvalid g (sentries ?si i)) :: u32) =
          (\<Sum>i\<in>sec_segs g c. of_nat (nvalid g (sentries si i)))"
        by (intro sum.cong) auto
      then show ?thesis unfolding s using False old by simp
    qed
  qed
  show ?thesis using 1 2 3 4 unfolding sit_ok_def by blast
qed

lemma seg_valid_nat:
  assumes "geom_ok L g" and "seg_ok L g se"
  shows "unat (valid_blocks se) = nvalid g se"
proof -
  have "nvalid g se \<le> blocks_per_seg g" by (simp add: nvalid_def count_bits_le)
  then have "nvalid g se < 2 ^ LENGTH(16)" using geom_blocks [OF assms(1)] by simp
  then have "unat (of_nat (nvalid g se) :: u16) = nvalid g se" by (rule unat_of_nat_small)
  then show ?thesis using assms(2) by (simp add: seg_ok_def)
qed

lemma no_vblocks_bug:
  assumes "geom_ok L g" and "seg_ok L g se" and "off < blocks_per_seg g"
    and "del = 1 \<and> \<not> byte_bit (cur_valid_map se) off \<or> del = -1 \<and> byte_bit (cur_valid_map se) off"
  shows "\<not> vblocks_bug g se off del"
proof -
  let ?n = "nvalid g (seg_update off del 0 se)"
  have n: "int ?n = int (nvalid g se) + del" by (rule seg_update_ok(2) [OF assms])
  have le: "nvalid g se \<le> blocks_per_seg g" "?n \<le> blocks_per_seg g"
    by (simp_all add: nvalid_def count_bits_le)
  have u: "unat (valid_blocks se) = nvalid g se"
    by (rule seg_valid_nat [OF assms(1,2)])
  have "drop_bit 16 (int ?n) = 0"
    using le geom_blocks [OF assms(1)] by (simp add: drop_bit_eq_div)
  then show ?thesis
    using le assms(4) unfolding vblocks_bug_def u n [symmetric] by auto
qed

section \<open>The set of valid blocks\<close>

definition valid_set :: "layout \<Rightarrow> geom \<Rightarrow> sit_info \<Rightarrow> u32 set" where
  "valid_set L g si = {a. in_main g a \<and>
     byte_bit (cur_valid_map (sentries si (GET_SEGNO L g a))) (GET_BLKOFF_FROM_SEG0 g a)}"

text \<open>The \<open>DIRTY\<close> list holds exactly the partly valid segments, apart from the current logs.\<close>

definition dirty_exact :: "geom \<Rightarrow> sb_info \<Rightarrow> bool" where
  "dirty_exact g s \<longleftrightarrow> (\<forall>x<main_segments g. \<not> IS_CURSEG s x \<longrightarrow>
     (dirty_segmap (dirty_i s) DIRTY x \<longleftrightarrow>
        0 < nvalid g (sentries (sit_i s) x) \<and> nvalid g (sentries (sit_i s) x) < blocks_per_seg g))"

definition store_ok :: "layout \<Rightarrow> geom \<Rightarrow> sb_info \<Rightarrow> bool" where
  "store_ok L g s \<longleftrightarrow> sit_ok L g (sit_i s) \<and> dirty_ok g s"

lemma main_addr:
  assumes "geom_ok L g" and "in_main g a"
  shows "GET_SEGNO L g a < main_segments g" and "GET_BLKOFF_FROM_SEG0 g a < blocks_per_seg g"
    and "START_BLOCK g (GET_SEGNO L g a) + of_nat (GET_BLKOFF_FROM_SEG0 g a) = a"
    and "GET_SEGNO L g a \<noteq> NULL_SEGNO"
proof -
  obtain x off where a: "x < main_segments g" "off < blocks_per_seg g" "a = START_BLOCK g x + of_nat off"
    using in_main_block [OF assms] .
  have s: "GET_SEGNO L g a = x" and o: "GET_BLKOFF_FROM_SEG0 g a = off"
    using GET_SEGNO_START_BLOCK [OF assms(1) a(1,2)] GET_BLKOFF_START_BLOCK [OF assms(1) a(1,2)] a(3)
    by simp_all
  then show "GET_SEGNO L g a < main_segments g" and "GET_BLKOFF_FROM_SEG0 g a < blocks_per_seg g"
    and "START_BLOCK g (GET_SEGNO L g a) + of_nat (GET_BLKOFF_FROM_SEG0 g a) = a"
    using a by simp_all
  have "main_segments g \<le> 2 ^ 32 - 1"
    using main_segments_bound [OF assms(1)] by simp
  then show "GET_SEGNO L g a \<noteq> NULL_SEGNO" using s a(1) by simp
qed

lemma same_addr_iff:
  assumes "geom_ok L g" and "in_main g a" and "in_main g b"
  shows "a = b \<longleftrightarrow> GET_SEGNO L g a = GET_SEGNO L g b \<and>
    GET_BLKOFF_FROM_SEG0 g a = GET_BLKOFF_FROM_SEG0 g b"
  using main_addr(3) [OF assms(1,2)] main_addr(3) [OF assms(1,3)] by metis

lemma special_segno:
  "a = null_addr L \<or> a = new_addr L \<Longrightarrow> GET_SEGNO L g a = NULL_SEGNO"
  by (simp add: GET_SEGNO_def)

lemma IS_CURSEG_sit [simp]: "IS_CURSEG (s\<lparr>sit_i := si\<rparr>) x = IS_CURSEG s x"
  by (simp add: IS_CURSEG_def)

lemma IS_CURSEG_bug [simp]: "IS_CURSEG (f2fs_bug_on c s) x = IS_CURSEG s x"
  by (simp add: IS_CURSEG_def)

lemma update_sit_entry_spec:
  assumes "geom_ok L g" and "store_ok L g s" and "in_main g a"
    and "del = 1 \<and> a \<notin> valid_set L g (sit_i s) \<or> del = -1 \<and> a \<in> valid_set L g (sit_i s)"
    and "s' = update_sit_entry L g a del s"
  shows "store_ok L g s'"
    and "valid_set L g (sit_i s') =
      (if del = 1 then insert a (valid_set L g (sit_i s)) else valid_set L g (sit_i s) - {a})"
    and "s_flag s' = s_flag s" and "dirty_i s' = dirty_i s" and "cursegs s' = cursegs s"
    and "free_i s' = free_i s"
    and "y \<noteq> GET_SEGNO L g a \<Longrightarrow> sentries (sit_i s') y = sentries (sit_i s) y"
proof -
  let ?x = "GET_SEGNO L g a" and ?o = "GET_BLKOFF_FROM_SEG0 g a"
  let ?se = "sentries (sit_i s) ?x" and ?si = "sit_update g ?x ?o del (get_mtime s) (sit_i s)"
  note m = main_addr [OF assms(1,3)]
  have v: "del = 1 \<and> \<not> byte_bit (cur_valid_map ?se) ?o \<or> del = -1 \<and> byte_bit (cur_valid_map ?se) ?o"
    using assms(3,4) by (simp add: valid_set_def)
  have sit: "sit_ok L g (sit_i s)" using assms(2) by (simp add: store_ok_def)
  have seok: "seg_ok L g ?se" using sit m(1) by (simp add: sit_ok_def)
  have s': "s' = s\<lparr>sit_i := ?si\<rparr>"
    unfolding assms(5) update_sit_entry_eq [OF refl refl]
    using no_vblocks_bug [OF assms(1) seok m(2) v] by (simp add: f2fs_bug_on_def)
  have ty: "se_type (sentries ?si y) = se_type (sentries (sit_i s) y)" for y
    by (simp add: seg_update_def)
  have "dirty_ok g s'"
    using assms(2) unfolding s' store_ok_def dirty_ok_def by (simp add: seg_update_def)
  then show "store_ok L g s'"
    using sit_update_ok [OF assms(1) sit m(1,2) v] by (simp add: store_ok_def s')
  show "s_flag s' = s_flag s" "dirty_i s' = dirty_i s" "cursegs s' = cursegs s" "free_i s' = free_i s"
    by (simp_all add: s')
  show "sentries (sit_i s') y = sentries (sit_i s) y" if "y \<noteq> ?x"
    using that by (simp add: s')
  show "valid_set L g (sit_i s') =
      (if del = 1 then insert a (valid_set L g (sit_i s)) else valid_set L g (sit_i s) - {a})"
  proof (rule set_eqI)
    fix b
    have "b \<in> valid_set L g (sit_i s') \<longleftrightarrow>
        (if b = a then del = 1 else b \<in> valid_set L g (sit_i s))"
    proof (cases "in_main g b")
      case True
      have "byte_bit (cur_valid_map (sentries ?si (GET_SEGNO L g b))) (GET_BLKOFF_FROM_SEG0 g b) \<longleftrightarrow>
          (if b = a then del = 1
           else byte_bit (cur_valid_map (sentries (sit_i s) (GET_SEGNO L g b))) (GET_BLKOFF_FROM_SEG0 g b))"
        using same_addr_iff [OF assms(1) True assms(3)] seg_update_ok(3) [OF assms(1) seok m(2) v, of "get_mtime s"] v
        by auto
      then show ?thesis using True by (simp add: valid_set_def s')
    next
      case False
      then show ?thesis using assms(3) by (auto simp: valid_set_def)
    qed
    then show "b \<in> valid_set L g (sit_i s') \<longleftrightarrow>
        b \<in> (if del = 1 then insert a (valid_set L g (sit_i s)) else valid_set L g (sit_i s) - {a})"
      using v by auto
  qed
qed

lemma valid_blocks_nvalid:
  assumes "geom_ok L g" and "store_ok L g s" and "x < main_segments g"
  shows "get_valid_blocks g s x 0 = nvalid g (sentries (sit_i s) x)"
  using assms seg_valid_nat [OF assms(1)] by (simp add: get_valid_blocks_def store_ok_def sit_ok_def)

lemma s_flag_dirty:
  assumes "dirty_ok g s" and "x < main_segments g"
  shows "s_flag (locate_dirty t x s) = s_flag s" and "s_flag (remove_dirty g t x s) = s_flag s"
  using assms by (auto simp: dirty_ok_def locate_dirty_def remove_dirty_def Let_def f2fs_bug_on_def)

lemma locate_segment_spec:
  assumes "geom_ok L g" and "store_ok L g s" and "x < main_segments g"
    and "s' = locate_dirty_segment g x s"
  shows "store_ok L g s'" and "sit_i s' = sit_i s" and "cursegs s' = cursegs s"
    and "free_i s' = free_i s" and "s_flag s' = s_flag s"
    and "\<not> IS_CURSEG s x \<Longrightarrow> y < main_segments g \<Longrightarrow> dirty_segmap (dirty_i s') DIRTY y =
      (if y = x then 0 < nvalid g (sentries (sit_i s) x) \<and> nvalid g (sentries (sit_i s) x) < blocks_per_seg g
       else dirty_segmap (dirty_i s) DIRTY y)"
    and "IS_CURSEG s x \<Longrightarrow> s' = s"
proof -
  have d: "dirty_ok g s" using assms(2) by (simp add: store_ok_def)
  have nn: "x \<noteq> NULL_SEGNO"
    using main_segments_bound [OF assms(1)] assms(3) by simp
  show sit: "sit_i s' = sit_i s" and "cursegs s' = cursegs s" and "free_i s' = free_i s"
    by (simp_all add: assms(4) locate_dirty_segment_def Let_def)
  show "store_ok L g s'"
    using locate_dirty_segment_ok [OF d assms(3)] assms(2) sit by (simp add: store_ok_def assms(4))
  show "s_flag s' = s_flag s"
    using s_flag_dirty [OF d assms(3)] s_flag_dirty [OF locate_dirty_ok [OF d assms(3)] assms(3)]
    by (simp add: assms(4) locate_dirty_segment_def Let_def)
  show "dirty_segmap (dirty_i s') DIRTY y =
      (if y = x then 0 < nvalid g (sentries (sit_i s) x) \<and> nvalid g (sentries (sit_i s) x) < blocks_per_seg g
       else dirty_segmap (dirty_i s) DIRTY y)"
    if "\<not> IS_CURSEG s x" and y: "y < main_segments g"
  proof -
    let ?n = "nvalid g (sentries (sit_i s) x)"
    have "y \<in> members g DIRTY s' \<longleftrightarrow> y \<in> (if 0 < ?n \<and> ?n < blocks_per_seg g
        then insert x (members g DIRTY s) else members g DIRTY s - {x})"
      using locate_dirty_segment_members [OF d assms(3) nn that(1) assms(4) refl]
      unfolding valid_blocks_nvalid [OF assms(1-3)] by metis
    then have "y \<in> members g DIRTY s' \<longleftrightarrow>
        (if y = x then 0 < ?n \<and> ?n < blocks_per_seg g else y \<in> members g DIRTY s)"
      by (cases "0 < ?n \<and> ?n < blocks_per_seg g") auto
    then show ?thesis
      using y unfolding members_def mem_Collect_eq by metis
  qed
  show "s' = s" if "IS_CURSEG s x"
    using that by (simp add: assms(4) locate_dirty_segment_def)
qed

lemma locate_null [simp]: "locate_dirty_segment g 4294967295 s = s"
  by (simp add: locate_dirty_segment_def)

section \<open>Properties\<close>

text \<open>
  \<open>exact_but\<close> allows the segments in \<open>X\<close> to be misfiled, as they are between the update of
  their counts and \<open>locate_dirty_segment\<close>.
\<close>

definition exact_but :: "geom \<Rightarrow> nat set \<Rightarrow> sb_info \<Rightarrow> bool" where
  "exact_but g X s \<longleftrightarrow> (\<forall>x<main_segments g. x \<notin> X \<and> \<not> IS_CURSEG s x \<longrightarrow>
     (dirty_segmap (dirty_i s) DIRTY x \<longleftrightarrow>
        0 < nvalid g (sentries (sit_i s) x) \<and> nvalid g (sentries (sit_i s) x) < blocks_per_seg g))"

lemma dirty_exact_iff: "dirty_exact g s \<longleftrightarrow> exact_but g {} s"
  by (simp add: dirty_exact_def exact_but_def)

lemma IS_CURSEG_cong: "cursegs s' = cursegs s \<Longrightarrow> IS_CURSEG s' x = IS_CURSEG s x"
  by (simp add: IS_CURSEG_def)

lemma exact_update:
  assumes "geom_ok L g" and "store_ok L g s" and "in_main g a"
    and "del = 1 \<and> a \<notin> valid_set L g (sit_i s) \<or> del = -1 \<and> a \<in> valid_set L g (sit_i s)"
    and "exact_but g X s"
  shows "exact_but g (insert (GET_SEGNO L g a) X) (update_sit_entry L g a del s)"
  using assms(5) update_sit_entry_spec(4,5,7) [OF assms(1-4) refl]
    IS_CURSEG_cong [OF update_sit_entry_spec(5) [OF assms(1-4) refl]]
  by (auto simp: exact_but_def)

lemma exact_locate:
  assumes "geom_ok L g" and "store_ok L g s" and "x < main_segments g" and "exact_but g X s"
  shows "exact_but g (X - {x}) (locate_dirty_segment g x s)"
proof (cases "IS_CURSEG s x")
  case True
  then show ?thesis
    using assms(4) locate_segment_spec(7) [OF assms(1-3) refl] by (auto simp: exact_but_def)
next
  case False
  note l = locate_segment_spec [OF assms(1-3) refl]
  show ?thesis
    using assms(4) l(6) [OF False] l(2) IS_CURSEG_cong [OF l(3)] by (auto simp: exact_but_def)
qed

lemma refresh_sit_entry_spec:
  assumes "geom_ok L g" and "sit_ok L g (sit_i s)" and "dirty_ok g s" and "exact_but g X s"
    and "in_main g new" and "new \<notin> valid_set L g (sit_i s)"
    and "old \<in> valid_set L g (sit_i s) \<or> old = null_addr L \<or> old = new_addr L"
    and "s' = refresh_sit_entry L g old new s"
  shows "sit_ok L g (sit_i s') \<and> dirty_ok g s' \<and> exact_but g (X - {GET_SEGNO L g new}) s' \<and>
    valid_set L g (sit_i s') = insert new (valid_set L g (sit_i s)) - {old} \<and>
    s_flag s' = s_flag s \<and> cursegs s' = cursegs s \<and> free_i s' = free_i s"
proof -
  have st: "store_ok L g s" using assms(2,3) by (simp add: store_ok_def)
  note ex = assms(4)
  define s1 where "s1 = update_sit_entry L g new 1 s"
  have d1: "(1::int) = 1 \<and> new \<notin> valid_set L g (sit_i s) \<or> (1::int) = -1 \<and> new \<in> valid_set L g (sit_i s)"
    using assms(6) by simp
  note u1 = update_sit_entry_spec [OF assms(1) st assms(5) d1 s1_def]
  have e1: "exact_but g (insert (GET_SEGNO L g new) X) s1"
    using exact_update [OF assms(1) st assms(5) d1 ex] by (simp add: s1_def)
  note mn = main_addr(1,4) [OF assms(1,5)]
  show ?thesis
  proof (cases "old \<in> valid_set L g (sit_i s)")
    case True
    then have old: "in_main g old" by (simp add: valid_set_def)
    note mo = main_addr(1,4) [OF assms(1) old]
    define s2 where "s2 = update_sit_entry L g old (-1) s1"
    have d2: "(-1::int) = 1 \<and> old \<notin> valid_set L g (sit_i s1) \<or> (-1::int) = -1 \<and> old \<in> valid_set L g (sit_i s1)"
      using True u1(2) by simp
    note u2 = update_sit_entry_spec [OF assms(1) u1(1) old d2 s2_def]
    have e2: "exact_but g (insert (GET_SEGNO L g old) (insert (GET_SEGNO L g new) X)) s2"
      using exact_update [OF assms(1) u1(1) old d2 e1] by (simp add: s2_def)
    define s3 where "s3 = locate_dirty_segment g (GET_SEGNO L g old) s2"
    note l3 = locate_segment_spec [OF assms(1) u2(1) mo(1) s3_def]
    have e3: "exact_but g (insert (GET_SEGNO L g old) (insert (GET_SEGNO L g new) X) - {GET_SEGNO L g old}) s3"
      unfolding s3_def by (rule exact_locate [OF assms(1) u2(1) mo(1) e2])
    have s': "s' = locate_dirty_segment g (GET_SEGNO L g new) s3"
      using mo(2) by (simp add: assms(8) refresh_sit_entry_def Let_def s1_def s2_def s3_def)
    note l4 = locate_segment_spec [OF assms(1) l3(1) mn(1) s']
    have "exact_but g (insert (GET_SEGNO L g old) (insert (GET_SEGNO L g new) X) - {GET_SEGNO L g old} - {GET_SEGNO L g new}) s'"
      unfolding s' by (rule exact_locate [OF assms(1) l3(1) mn(1) e3])
    then have "exact_but g (X - {GET_SEGNO L g new}) s'" by (auto simp: exact_but_def)
    moreover have "valid_set L g (sit_i s') = insert new (valid_set L g (sit_i s)) - {old}"
      using u1(2) u2(2) l3(2) l4(2) by simp
    ultimately show ?thesis
      using l4(1,3,4,5) l3(3,4,5) u2(3,5,6) u1(3,5,6) by (simp add: store_ok_def)
  next
    case False
    then have sp: "GET_SEGNO L g old = NULL_SEGNO" using assms(7) special_segno by blast
    have s': "s' = locate_dirty_segment g (GET_SEGNO L g new) s1"
      by (simp add: assms(8) refresh_sit_entry_def Let_def s1_def sp)
    note l = locate_segment_spec [OF assms(1) u1(1) mn(1) s']
    have "exact_but g (insert (GET_SEGNO L g new) X - {GET_SEGNO L g new}) s'"
      unfolding s' by (rule exact_locate [OF assms(1) u1(1) mn(1) e1])
    then have "exact_but g (X - {GET_SEGNO L g new}) s'" by (auto simp: exact_but_def)
    moreover have "old \<noteq> new"
      using sp mn(2) by auto
    then have "valid_set L g (sit_i s') = insert new (valid_set L g (sit_i s)) - {old}"
      using u1(2) l(2) False by auto
    ultimately show ?thesis
      using l(1,3,4,5) u1(3,5,6) by (simp add: store_ok_def)
  qed
qed

text \<open>
  C2: Moving a block to an address of the main area that is not valid, from a valid one or from none, keeps the whole
  segment information table consistent: after \<open>refresh_sit_entry\<close> the set of valid blocks has gained
  exactly the new address and lost exactly the old one (when there is one), every per-segment, per-section
  and global count is again the number of valid blocks it stands for, the dirty list still holds exactly the
  partly valid segments outside the logs, and no \<open>f2fs_bug_on\<close> fires.
\<close>
theorem refresh_sit_entry_moves_block:
  assumes "geom_ok L g" and "sit_ok L g (sit_i s)" and "dirty_ok g s" and "dirty_exact g s"
    and "in_main g new" and "new \<notin> valid_set L g (sit_i s)"
    and "old \<in> valid_set L g (sit_i s) \<or> old = null_addr L \<or> old = new_addr L"
    and "s' = refresh_sit_entry L g old new s"
  shows "sit_ok L g (sit_i s') \<and> dirty_ok g s' \<and> dirty_exact g s' \<and>
    valid_set L g (sit_i s') = insert new (valid_set L g (sit_i s)) - {old} \<and>
    s_flag s' = s_flag s"
  using refresh_sit_entry_spec [OF assms(1-3) _ assms(5-8), of "{}"] assms(4)
  by (simp add: dirty_exact_iff)

lemma no_bits: "i < 64 \<Longrightarrow> \<not> byte_bit (replicate 8 0) i"
  by (simp add: byte_bit_iff)

lemma sample_nvalid: "nvalid small_geom (sample_seg t) = 0"
proof -
  have "{i. i < 64 \<and> byte_bit (replicate 8 0) i} = {}" using no_bits by auto
  then show ?thesis by (simp add: nvalid_def sample_seg_def small_geom_def count_bits_def)
qed

lemma sample_store_ok:
  "sit_ok small_layout small_geom (sit_i sample_sb)" "dirty_ok small_geom sample_sb"
  "dirty_exact small_geom sample_sb"
proof -
  have c: "count_bits (\<lambda>i. byte_bit (replicate 8 0) i) 64 = 0" "count_bits (\<lambda>i. False) n = 0" for n
    using sample_nvalid by (simp_all add: nvalid_def sample_seg_def small_geom_def count_bits_def)
  have "seg_ok small_layout small_geom (sample_seg t)" for t
    using c by (simp add: seg_ok_def sample_nvalid) (simp add: sample_seg_def small_geom_def small_layout_def)
  then show "sit_ok small_layout small_geom (sit_i sample_sb)"
    using c by (simp add: sit_ok_def sample_sb_def sample_nvalid)
  show "dirty_ok small_geom sample_sb"
    using c by (simp add: dirty_ok_def sample_sb_def sample_seg_def)
  show "dirty_exact small_geom sample_sb"
    by (simp add: dirty_exact_def sample_sb_def sample_nvalid)
qed

lemma sample_valid_set: "valid_set small_layout small_geom (sit_i sample_sb) = {}"
proof -
  have "\<not> byte_bit (cur_valid_map (sample_seg t)) (GET_BLKOFF_FROM_SEG0 small_geom a)"
    if "in_main small_geom a" for a t
    using main_addr(2) [OF small_geom_ok that] no_bits
    by (simp add: small_geom_def sample_seg_def)
  then show ?thesis by (simp add: valid_set_def sample_sb_def)
qed

theorem refresh_sit_entry_moves_block_witness:
  "valid_set small_layout small_geom (sit_i (refresh_sit_entry small_layout small_geom 0 200 sample_sb)) = {200}"
proof -
  have n: "in_main small_geom 200" "200 \<notin> valid_set small_layout small_geom (sit_i sample_sb)"
    "0 \<in> valid_set small_layout small_geom (sit_i sample_sb) \<or> 0 = null_addr small_layout \<or> 0 = new_addr small_layout"
    by (simp add: in_main_def small_geom_def, simp add: sample_valid_set, simp add: small_layout_def)
  from refresh_sit_entry_moves_block [OF small_geom_ok sample_store_ok n refl]
  show ?thesis by (simp add: sample_valid_set)
qed

text \<open>
  C3: Invalidating a valid block removes exactly that block from the valid set and keeps every count and the dirty
  list exact; for a preallocated block (\<open>NEW_ADDR\<close>) there is nothing to invalidate.
\<close>
theorem invalidate_blocks_removes_block:
  assumes "geom_ok L g" and "sit_ok L g (sit_i s)" and "dirty_ok g s" and "dirty_exact g s"
    and "a \<in> valid_set L g (sit_i s)" and "null_addr L \<noteq> new_addr L"
    and "s' = invalidate_blocks L g a s"
  shows "sit_ok L g (sit_i s') \<and> dirty_ok g s' \<and> dirty_exact g s' \<and>
    valid_set L g (sit_i s') = valid_set L g (sit_i s) - {a} \<and> s_flag s' = s_flag s \<and>
    invalidate_blocks L g (new_addr L) s = s"
proof -
  have st: "store_ok L g s" using assms(2,3) by (simp add: store_ok_def)
  have ex: "exact_but g {} s" using assms(4) by (simp add: dirty_exact_iff)
  have a: "in_main g a" using assms(5) by (simp add: valid_set_def)
  note m = main_addr [OF assms(1) a]
  have sp: "a \<noteq> new_addr L" "a \<noteq> null_addr L"
    using START_BLOCK_special [OF assms(1) m(1,2)] m(3) by simp_all
  define s1 where "s1 = update_sit_entry L g a (-1) s"
  have d: "(-1::int) = 1 \<and> a \<notin> valid_set L g (sit_i s) \<or> (-1::int) = -1 \<and> a \<in> valid_set L g (sit_i s)"
    using assms(5) by simp
  note u = update_sit_entry_spec [OF assms(1) st a d s1_def]
  have e: "exact_but g {GET_SEGNO L g a} s1"
    using exact_update [OF assms(1) st a d ex] by (simp add: s1_def)
  have s': "s' = locate_dirty_segment g (GET_SEGNO L g a) s1"
    using sp by (simp add: assms(7) invalidate_blocks_def s1_def f2fs_bug_on_def)
  note l = locate_segment_spec [OF assms(1) u(1) m(1) s']
  have "exact_but g ({GET_SEGNO L g a} - {GET_SEGNO L g a}) s'"
    unfolding s' by (rule exact_locate [OF assms(1) u(1) m(1) e])
  then have 1: "sit_ok L g (sit_i s') \<and> dirty_ok g s' \<and> dirty_exact g s' \<and>
      valid_set L g (sit_i s') = valid_set L g (sit_i s) - {a} \<and> s_flag s' = s_flag s"
    using l(1,2,5) u(2,3) by (simp add: store_ok_def dirty_exact_iff)
  have 2: "invalidate_blocks L g (new_addr L) s = s"
    using assms(6) by (auto simp: invalidate_blocks_def f2fs_bug_on_def)
  show ?thesis using 1 2 by blast
qed

definition valid_sample :: sb_info where
  "valid_sample = refresh_sit_entry small_layout small_geom 0 200 sample_sb"

theorem invalidate_blocks_removes_block_witness:
  "valid_set small_layout small_geom (sit_i (invalidate_blocks small_layout small_geom 200 valid_sample)) = {}"
proof -
  have n: "in_main small_geom 200" "200 \<notin> valid_set small_layout small_geom (sit_i sample_sb)"
    "0 \<in> valid_set small_layout small_geom (sit_i sample_sb) \<or> 0 = null_addr small_layout \<or> 0 = new_addr small_layout"
    by (simp add: in_main_def small_geom_def, simp add: sample_valid_set, simp add: small_layout_def)
  note v = refresh_sit_entry_spec [OF small_geom_ok sample_store_ok(1,2)
      sample_store_ok(3) [unfolded dirty_exact_iff] n valid_sample_def, folded dirty_exact_iff]
  have h: "sit_ok small_layout small_geom (sit_i valid_sample)" "dirty_ok small_geom valid_sample"
      "dirty_exact small_geom valid_sample" "200 \<in> valid_set small_layout small_geom (sit_i valid_sample)"
    using v by (simp_all add: sample_valid_set dirty_exact_iff)
  have nn: "null_addr small_layout \<noteq> new_addr small_layout" by (simp add: small_layout_def)
  show ?thesis
    using invalidate_blocks_removes_block [OF small_geom_ok h nn refl] v by (simp add: sample_valid_set)
qed

section \<open>The consistency check of a raw entry\<close>

lemma check_count_loop_spec:
  assumes "cur \<le> bps"
  shows "check_count_loop m bps is_valid cur n = n + card {i. cur \<le> i \<and> i < bps \<and> le_bit m i}"
  using assms
proof (induction m bps is_valid cur n rule: check_count_loop.induct)
  case (1 m bps is_valid cur n)
  define nxt where "nxt = (if is_valid then find_next_zero_bit (le_bit m) bps cur
                 else find_next_bit (le_bit m) bps cur)"
  have hit: "nxt < bps \<Longrightarrow> cur \<le> nxt" and le: "nxt \<le> bps"
    and all: "\<And>i. cur \<le> i \<Longrightarrow> i < nxt \<Longrightarrow> le_bit m i = is_valid"
    using find_next_bit_hit [of "le_bit m" bps cur] find_next_bit_hit [of "\<lambda>i. \<not> le_bit m i" bps cur]
      find_next_bit_le [of "le_bit m" bps cur] find_next_bit_le [of "\<lambda>i. \<not> le_bit m i" bps cur]
      find_next_bit_least [of cur _ "le_bit m" bps] find_next_bit_least [of cur _ "\<lambda>i. \<not> le_bit m i" bps]
    by (cases is_valid; simp add: nxt_def find_next_zero_bit_def)+
  have cn: "cur \<le> nxt" using hit le 1(2) by (cases "nxt < bps") auto
  have split: "{i. cur \<le> i \<and> i < bps \<and> le_bit m i} =
      (if is_valid then {cur..<nxt} else {}) \<union> {i. nxt \<le> i \<and> i < bps \<and> le_bit m i}"
  proof (rule set_eqI)
    fix i
    show "i \<in> {i. cur \<le> i \<and> i < bps \<and> le_bit m i} \<longleftrightarrow>
        i \<in> (if is_valid then {cur..<nxt} else {}) \<union> {i. nxt \<le> i \<and> i < bps \<and> le_bit m i}"
      using all [of i] cn le by (cases "i < nxt") auto
  qed
  have c: "card {i. cur \<le> i \<and> i < bps \<and> le_bit m i} =
      (if is_valid then nxt - cur else 0) + card {i. nxt \<le> i \<and> i < bps \<and> le_bit m i}"
    unfolding split by (subst card_Un_disjoint) auto
  show ?case
  proof (cases "nxt < bps")
    case True
    then show ?thesis
      using 1(1) [OF nxt_def refl] c by (simp add: check_count_loop.simps [of m bps is_valid] nxt_def [symmetric] Let_def)
  next
    case False
    then have "{i. nxt \<le> i \<and> i < bps \<and> le_bit m i} = {}" by auto
    then have "card {i. cur \<le> i \<and> i < bps \<and> le_bit m i} = (if is_valid then nxt - cur else 0)"
      using c by simp
    then show ?thesis
      using False by (simp add: check_count_loop.simps [of m bps is_valid] nxt_def [symmetric] Let_def)
  qed
qed

text \<open>
  \<open>check_block_count\<close> of a build with \<open>CONFIG_F2FS_CHECK_FS\<close>: False stands for a \<open>BUG_ON\<close>;
  \<open>vb\<close> is the count read by \<open>GET_SIT_VBLOCKS\<close>.
\<close>

definition check_block_count :: "geom \<Rightarrow> nat \<Rightarrow> nat \<Rightarrow> bytemap \<Rightarrow> bool" where
  "check_block_count g segno vb valid_map \<longleftrightarrow>
     \<not> (vb > blocks_per_seg g) \<and> \<not> (segno > seg_count g - 1) \<and>
     \<not> (vb \<noteq> check_count_loop valid_map (blocks_per_seg g) (le_bit valid_map 0) 0 0)"

text \<open>
  C40: The consistency check of a raw segment entry accepts exactly the entries whose count is
  the number of set bits of their bitmap and whose segment number is in the volume: the loop
  that alternates \<open>find_next_zero_bit_le\<close> and \<open>find_next_bit_le\<close> ends and counts every set
  bit once.
\<close>
theorem check_block_count_exact:
  "check_block_count g segno vb m \<longleftrightarrow>
     vb = card {i. i < blocks_per_seg g \<and> le_bit m i} \<and> segno \<le> seg_count g - 1"
proof -
  have "check_count_loop m (blocks_per_seg g) v 0 0 = card {i. i < blocks_per_seg g \<and> le_bit m i}" for v
    using check_count_loop_spec [of 0 "blocks_per_seg g" m v 0] by simp
  moreover have "card {i. i < blocks_per_seg g \<and> le_bit m i} \<le> card {..<blocks_per_seg g}"
    by (rule card_mono) auto
  ultimately show ?thesis
    by (auto simp: check_block_count_def)
qed

lemma raw_sit_roundtrip:
  assumes "vb (push_bit (sit_vblocks_shift L) (of_nat (se_type se)) OR valid_blocks se) = valid_blocks se"
    and "ty (push_bit (sit_vblocks_shift L) (of_nat (se_type se)) OR valid_blocks se) = se_type se"
  shows "seg_info_from_raw_sit vb ty (snd (seg_info_to_raw_sit L se)) se0 = se0\<lparr>
    valid_blocks := valid_blocks se, cur_valid_map := cur_valid_map se,
    ckpt_valid_blocks := valid_blocks se, ckpt_valid_map := cur_valid_map se,
    se_type := se_type se, se_mtime := se_mtime se\<rparr>"
  using assms by (simp add: seg_info_from_raw_sit_def seg_info_to_raw_sit_def Let_def)

lemma to_raw_seg_ok:
  assumes "seg_ok L g se"
  shows "seg_ok L g (fst (seg_info_to_raw_sit L se))"
    and "nvalid g (fst (seg_info_to_raw_sit L se)) = nvalid g se"
  using assms by (simp_all add: seg_ok_def nvalid_def seg_info_to_raw_sit_def Let_def)

end
