(* ===== verification/Victim.thy ===== *)
theory Victim
  imports Sit "HOL-Library.Signed_Division"
begin

text \<open>
  Victim selection for cleaning and for slack space recycling (\<open>gc.c\<close>): the policy, the two
  cost functions and the search loop of \<open>get_victim_by_default\<close>.
\<close>

section \<open>Policy\<close>

datatype gc_type = BG_GC | FG_GC
datatype gc_mode = GC_CB | GC_GREEDY

fun mode_no :: "gc_mode \<Rightarrow> nat" where
  "mode_no GC_CB = 0"
| "mode_no GC_GREEDY = 1"

record f2fs_gc_kthread =
  min_sleep_time :: u32
  max_sleep_time :: u32
  no_gc_sleep_time :: u32
  gc_idle :: u32

record victim_sel_policy =
  p_alloc_mode :: nat
  p_gc_mode :: gc_mode
  p_dirty_segmap :: bitmap
  p_max_search :: nat
  p_offset :: nat
  p_ofs_unit :: nat

definition select_gc_type :: "f2fs_gc_kthread option \<Rightarrow> gc_type \<Rightarrow> gc_mode" where
  "select_gc_type gc_th gc_type =
     (let gc_mode = (if gc_type = BG_GC then GC_CB else GC_GREEDY)
      in case gc_th of
           None \<Rightarrow> gc_mode
         | Some th \<Rightarrow> if gc_idle th = 1 then GC_CB else if gc_idle th = 2 then GC_GREEDY else gc_mode)"

definition select_policy ::
  "geom \<Rightarrow> f2fs_gc_kthread option \<Rightarrow> sb_info \<Rightarrow> gc_type \<Rightarrow> nat \<Rightarrow> nat \<Rightarrow> victim_sel_policy" where
  "select_policy g gc_th s gc_type ty alloc_mode =
     (let d = dirty_i s;
          mode = (if alloc_mode = SSR then GC_GREEDY else select_gc_type gc_th gc_type);
          t = (if alloc_mode = SSR then ty else DIRTY);
          mx = nat (nr_dirty d t mod 2 ^ 32);
          mx = (if mx > unat (max_victim_search g) then unat (max_victim_search g) else mx)
      in \<lparr>p_alloc_mode = alloc_mode, p_gc_mode = mode, p_dirty_segmap = dirty_segmap d t,
          p_max_search = mx, p_offset = last_victim s (mode_no mode),
          p_ofs_unit = (if alloc_mode = SSR then 1 else segs_per_sec g)\<rparr>)"

definition UINT_MAX :: nat where "UINT_MAX = 2 ^ 32 - 1"

definition get_max_cost :: "geom \<Rightarrow> victim_sel_policy \<Rightarrow> nat" where
  "get_max_cost g p =
     (if p_alloc_mode p = SSR then 2 ^ log_blocks_per_seg g
      else case p_gc_mode p of
             GC_GREEDY \<Rightarrow> 2 ^ log_blocks_per_seg g * p_ofs_unit p
           | GC_CB \<Rightarrow> UINT_MAX)"

definition sec_usage_check :: "geom \<Rightarrow> sb_info \<Rightarrow> nat \<Rightarrow> bool" where
  "sec_usage_check g s secno \<longleftrightarrow> IS_CURSEC g s secno \<or> cur_victim_sec s = secno"

definition check_bg_victims :: "geom \<Rightarrow> sb_info \<Rightarrow> nat \<times> sb_info" where
  "check_bg_victims g s =
     (case find (\<lambda>secno. \<not> sec_usage_check g s secno)
             (for_each_set_bit (victim_secmap (dirty_i s)) (total_sections g) 0) of
        Some secno \<Rightarrow>
          (secno * segs_per_sec g,
           s\<lparr>dirty_i := (dirty_i s)\<lparr>victim_secmap := (victim_secmap (dirty_i s))(secno := False)\<rparr>\<rparr>)
      | None \<Rightarrow> (NULL_SEGNO, s))"

section \<open>Costs\<close>

text \<open>\<open>unsigned char\<close> and \<open>u64\<close> arithmetic as in the code; the final quotient is an \<open>int\<close>.\<close>

definition get_cb_cost :: "geom \<Rightarrow> sb_info \<Rightarrow> nat \<Rightarrow> u32 \<times> sb_info" where
  "get_cb_cost g s segno =
     (let si = sit_i s;
          start = GET_SECNO g segno * segs_per_sec g;
          mtime = (\<Sum>i\<leftarrow>[0..<segs_per_sec g]. se_mtime (sentries si (start + i)));
          vblocks = get_valid_blocks g s segno (segs_per_sec g);
          mtime = mtime div of_nat (segs_per_sec g);
          vblocks = vblocks div segs_per_sec g;
          u = ucast (drop_bit (log_blocks_per_seg g) (of_nat vblocks * 100 :: u32)) :: u8;
          si = (if mtime < min_mtime si then si\<lparr>min_mtime := mtime\<rparr> else si);
          si = (if mtime > max_mtime si then si\<lparr>max_mtime := mtime\<rparr> else si);
          age = (if max_mtime si \<noteq> min_mtime si
                 then ucast (100 - (100 * (mtime - min_mtime si)) div (max_mtime si - min_mtime si)) :: u8
                 else 0);
          q = (100 * (100 - int (unat u)) * int (unat age)) sdiv (100 + int (unat u))
      in (of_nat UINT_MAX - of_int q, s\<lparr>sit_i := si\<rparr>))"

definition get_gc_cost :: "geom \<Rightarrow> victim_sel_policy \<Rightarrow> sb_info \<Rightarrow> nat \<Rightarrow> nat \<times> sb_info" where
  "get_gc_cost g p s segno =
     (if p_alloc_mode p = SSR then (unat (ckpt_valid_blocks (sentries (sit_i s) segno)), s)
      else case p_gc_mode p of
             GC_GREEDY \<Rightarrow> (get_valid_blocks g s segno (segs_per_sec g), s)
           | GC_CB \<Rightarrow> (let (c, s) = get_cb_cost g s segno in (unat c, s)))"

section \<open>The search\<close>

text \<open>
  The loop of \<open>get_victim_by_default\<close>; \<open>off\<close> is \<open>p.offset\<close>, \<open>seg\<close> and \<open>mc\<close> are \<open>p.min_segno\<close>
  and \<open>p.min_cost\<close>, \<open>n\<close> is \<open>nsearched\<close>, \<open>lv\<close> is \<open>last_victim[p.gc_mode]\<close>. \<open>None\<close> is a loop
  that does not end, which the code excludes by a nonzero \<open>ofs_unit\<close>.
\<close>

partial_function (option) victim_loop ::
  "geom \<Rightarrow> gc_type \<Rightarrow> victim_sel_policy \<Rightarrow> nat \<Rightarrow> sb_info \<Rightarrow> nat \<Rightarrow> nat \<Rightarrow> nat \<Rightarrow> nat \<Rightarrow> nat \<Rightarrow>
   (nat \<times> nat \<times> sb_info) option"
where
  "victim_loop g gc_type p max_cost s lv off seg mc n =
     (let segno = find_next_bit (p_dirty_segmap p) (main_segments g) off
      in if segno \<ge> main_segments g
         then (if lv \<noteq> 0 then victim_loop g gc_type p max_cost s 0 0 seg mc n
               else Some (seg, lv, s))
         else let off = segno + p_ofs_unit p;
                  off = (if p_ofs_unit p > 1 then off - segno mod p_ofs_unit p else off);
                  secno = GET_SECNO g segno
              in if sec_usage_check g s secno \<or> gc_type = BG_GC \<and> victim_secmap (dirty_i s) secno
                 then victim_loop g gc_type p max_cost s lv off seg mc n
                 else let cost = fst (get_gc_cost g p s segno);
                          s = snd (get_gc_cost g p s segno)
                      in if mc > cost
                         then (if n \<ge> p_max_search p then Some (segno, segno, s)
                               else victim_loop g gc_type p max_cost s lv off segno cost (n + 1))
                         else if cost = max_cost
                         then victim_loop g gc_type p max_cost s lv off seg mc n
                         else (if n \<ge> p_max_search p then Some (seg, segno, s)
                               else victim_loop g gc_type p max_cost s lv off seg mc (n + 1)))"

definition take_victim ::
  "geom \<Rightarrow> gc_type \<Rightarrow> victim_sel_policy \<Rightarrow> nat \<Rightarrow> sb_info \<Rightarrow> nat \<times> sb_info" where
  "take_victim g gc_type p seg s =
     (let s = (if p_alloc_mode p = LFS
               then let secno = GET_SECNO g seg
                 in if gc_type = FG_GC then s\<lparr>cur_victim_sec := secno\<rparr>
                    else s\<lparr>dirty_i := (dirty_i s)\<lparr>victim_secmap := (victim_secmap (dirty_i s))(secno := True)\<rparr>\<rparr>
               else s)
      in (seg div p_ofs_unit p * p_ofs_unit p, s))"

text \<open>
  The result is the return value, the victim (\<open>*result\<close>, unchanged when none is found) and
  the state.
\<close>

definition get_victim_by_default ::
  "geom \<Rightarrow> f2fs_gc_kthread option \<Rightarrow> sb_info \<Rightarrow> nat \<Rightarrow> gc_type \<Rightarrow> nat \<Rightarrow> nat \<Rightarrow>
   (bool \<times> nat \<times> sb_info) option" where
  "get_victim_by_default g gc_th s result gc_type ty alloc_mode =
     (let p = select_policy g gc_th s gc_type ty alloc_mode;
          max_cost = get_max_cost g p;
          (bg, s) = (if alloc_mode = LFS \<and> gc_type = FG_GC then check_bg_victims g s
                     else (NULL_SEGNO, s))
      in if bg \<noteq> NULL_SEGNO
         then (let (r, s) = take_victim g gc_type p bg s in Some (True, r, s))
         else case victim_loop g gc_type p max_cost s (last_victim s (mode_no (p_gc_mode p)))
                     (p_offset p) NULL_SEGNO max_cost 0 of
                None \<Rightarrow> None
              | Some (seg, lv, s) \<Rightarrow>
                  (let s = s\<lparr>last_victim := (last_victim s)(mode_no (p_gc_mode p) := lv)\<rparr>
                   in if seg \<noteq> NULL_SEGNO
                      then (let (r, s) = take_victim g gc_type p seg s in Some (True, r, s))
                      else Some (False, result, s)))"

section \<open>A rule for the search loop\<close>

type_synonym vstate = "sb_info \<times> nat \<times> nat \<times> nat \<times> nat \<times> nat"

definition next_off :: "victim_sel_policy \<Rightarrow> nat \<Rightarrow> nat" where
  "next_off p segno = (if p_ofs_unit p > 1 then segno + p_ofs_unit p - segno mod p_ofs_unit p
                       else segno + p_ofs_unit p)"

definition eligible :: "geom \<Rightarrow> gc_type \<Rightarrow> sb_info \<Rightarrow> nat \<Rightarrow> bool" where
  "eligible g gc_type s x \<longleftrightarrow> \<not> sec_usage_check g s (GET_SECNO g x) \<and>
     \<not> (gc_type = BG_GC \<and> victim_secmap (dirty_i s) (GET_SECNO g x))"

definition victim_step ::
  "geom \<Rightarrow> gc_type \<Rightarrow> victim_sel_policy \<Rightarrow> nat \<Rightarrow> vstate \<Rightarrow> vstate + (nat \<times> nat \<times> sb_info)" where
  "victim_step g gc_type p max_cost st =
     (case st of (s, lv, off, seg, mc, n) \<Rightarrow>
        let x = find_next_bit (p_dirty_segmap p) (main_segments g) off
        in if x \<ge> main_segments g then (if lv \<noteq> 0 then Inl (s, 0, 0, seg, mc, n) else Inr (seg, lv, s))
           else if \<not> eligible g gc_type s x then Inl (s, lv, next_off p x, seg, mc, n)
           else let cost = fst (get_gc_cost g p s x); s = snd (get_gc_cost g p s x)
             in if mc > cost
                then (if n \<ge> p_max_search p then Inr (x, x, s)
                      else Inl (s, lv, next_off p x, x, cost, n + 1))
                else if cost = max_cost then Inl (s, lv, next_off p x, seg, mc, n)
                else (if n \<ge> p_max_search p then Inr (seg, x, s)
                      else Inl (s, lv, next_off p x, seg, mc, n + 1)))"

lemma victim_loop_step:
  "victim_loop g gc_type p max_cost s lv off seg mc n =
     (case victim_step g gc_type p max_cost (s, lv, off, seg, mc, n) of
        Inl (s, lv, off, seg, mc, n) \<Rightarrow> victim_loop g gc_type p max_cost s lv off seg mc n
      | Inr r \<Rightarrow> Some r)"
  by (subst victim_loop.simps)
    (auto simp: victim_step_def Let_def eligible_def next_off_def)

definition vmeasure :: "geom \<Rightarrow> vstate \<Rightarrow> nat" where
  "vmeasure g st = (case st of (s, lv, off, seg, mc, n) \<Rightarrow>
     (if lv = 0 then 0 else Suc (main_segments g)) + (main_segments g - off))"

lemma next_off_gt: "0 < p_ofs_unit p \<Longrightarrow> x < next_off p x"
proof -
  assume "0 < p_ofs_unit p"
  then have "x mod p_ofs_unit p < p_ofs_unit p" by simp
  then have "x < x + p_ofs_unit p - x mod p_ofs_unit p" by linarith
  then show ?thesis using \<open>0 < p_ofs_unit p\<close> by (simp add: next_off_def)
qed

lemma victim_step_less:
  assumes "0 < p_ofs_unit p" and "victim_step g gc_type p max_cost st = Inl st'"
  shows "vmeasure g st' < vmeasure g st"
proof -
  obtain s lv off seg mc n where st: "st = (s, lv, off, seg, mc, n)" by (cases st) blast
  let ?x = "find_next_bit (p_dirty_segmap p) (main_segments g) off"
  show ?thesis
  proof (cases "?x < main_segments g")
    case True
    then have "off \<le> ?x" using find_next_bit_hit by blast
    then have "main_segments g - next_off p ?x < main_segments g - off"
      using True next_off_gt [OF assms(1), of ?x] by linarith
    then show ?thesis
      using assms(2) True unfolding st victim_step_def vmeasure_def
      by (auto simp: Let_def split: if_splits)
  next
    case False
    then show ?thesis
      using assms(2) unfolding st victim_step_def vmeasure_def
      by (auto simp: Let_def split: if_splits)
  qed
qed

lemma victim_loop_rule:
  assumes "0 < p_ofs_unit p" and "I (s, lv, off, seg, mc, n)"
    and "\<And>st. I st \<Longrightarrow> (case victim_step g gc_type p max_cost st of Inl st' \<Rightarrow> I st' | Inr r \<Rightarrow> Q r)"
  shows "\<exists>r. victim_loop g gc_type p max_cost s lv off seg mc n = Some r \<and> Q r"
  using assms(2)
proof (induction "vmeasure g (s, lv, off, seg, mc, n)" arbitrary: s lv off seg mc n rule: less_induct)
  case less
  show ?case
  proof (cases "victim_step g gc_type p max_cost (s, lv, off, seg, mc, n)")
    case (Inl st')
    obtain s' lv' off' seg' mc' n' where st': "st' = (s', lv', off', seg', mc', n')" by (cases st') blast
    have "I st'" using assms(3) [OF less(2)] Inl by simp
    then have "\<exists>r. victim_loop g gc_type p max_cost s' lv' off' seg' mc' n' = Some r \<and> Q r"
      using less(1) victim_step_less [OF assms(1) Inl] unfolding st' by blast
    then show ?thesis using Inl st' by (subst victim_loop_step) simp
  next
    case (Inr r)
    then show ?thesis using assms(3) [OF less(2)] by (subst victim_loop_step) simp
  qed
qed


section \<open>What the search finds\<close>

definition same_but_mtime :: "sb_info \<Rightarrow> sb_info \<Rightarrow> bool" where
  "same_but_mtime s s' \<longleftrightarrow>
     (\<exists>a b. s' = s\<lparr>sit_i := (sit_i s)\<lparr>min_mtime := a, max_mtime := b\<rparr>\<rparr>)"

lemma same_but_mtime_refl: "same_but_mtime s s"
  unfolding same_but_mtime_def by (intro exI [of _ "min_mtime (sit_i s)"] exI [of _ "max_mtime (sit_i s)"]) simp

lemma same_but_mtime_trans: "same_but_mtime s t \<Longrightarrow> same_but_mtime t u \<Longrightarrow> same_but_mtime s u"
  unfolding same_but_mtime_def by fastforce

lemma get_cb_cost_frame: "same_but_mtime s (snd (get_cb_cost g s x))"
proof -
  define m where "m = (\<Sum>i\<leftarrow>[0..<segs_per_sec g]. se_mtime (sentries (sit_i s)
      (GET_SECNO g x * segs_per_sec g + i))) div of_nat (segs_per_sec g)"
  let ?si = "sit_i s"
  have "snd (get_cb_cost g s x) = s\<lparr>sit_i := ?si\<lparr>
      min_mtime := (if m < min_mtime ?si then m else min_mtime ?si),
      max_mtime := (if m > max_mtime ?si then m else max_mtime ?si)\<rparr>\<rparr>"
    by (simp add: get_cb_cost_def Let_def m_def)
  then show ?thesis unfolding same_but_mtime_def by blast
qed

lemma get_gc_cost_frame: "same_but_mtime s (snd (get_gc_cost g p s x))"
  using get_cb_cost_frame [of s g x]
  by (simp add: get_gc_cost_def same_but_mtime_refl case_prod_beta Let_def split: gc_mode.splits)

lemma eligible_frame: "same_but_mtime s s' \<Longrightarrow> eligible g gc_type s' x = eligible g gc_type s x"
  unfolding same_but_mtime_def
  by (auto simp: eligible_def sec_usage_check_def IS_CURSEC_def)

lemma victim_loop_valid:
  assumes "0 < p_ofs_unit p"
  shows "\<exists>seg lv' s'. victim_loop g gc_type p max_cost s lv off NULL_SEGNO mc n = Some (seg, lv', s') \<and>
    same_but_mtime s s' \<and>
    (seg = NULL_SEGNO \<or> seg < main_segments g \<and> p_dirty_segmap p seg \<and> eligible g gc_type s seg)"
proof -
  define ok where "ok = (\<lambda>seg. seg = NULL_SEGNO \<or>
      seg < main_segments g \<and> p_dirty_segmap p seg \<and> eligible g gc_type s seg)"
  define I where "I = (\<lambda>st :: vstate. case st of (t, lv, off, seg, mc, n) \<Rightarrow> same_but_mtime s t \<and> ok seg)"
  define Q where "Q = (\<lambda>(seg, lv' :: nat, s'). same_but_mtime s s' \<and> ok seg)"
  have init: "I (s, lv, off, NULL_SEGNO, mc, n)"
    by (simp add: I_def ok_def same_but_mtime_refl)
  have step: "case victim_step g gc_type p max_cost st of Inl st' \<Rightarrow> I st' | Inr r \<Rightarrow> Q r" if "I st" for st
  proof -
    obtain t l o' seg c k where st: "st = (t, l, o', seg, c, k)" by (cases st) blast
    have t: "same_but_mtime s t" and seg: "ok seg" using that by (simp_all add: I_def st)
    let ?x = "find_next_bit (p_dirty_segmap p) (main_segments g) o'"
    have t': "same_but_mtime s (snd (get_gc_cost g p t ?x))"
      by (rule same_but_mtime_trans [OF t get_gc_cost_frame])
    have "ok ?x" if "?x < main_segments g" and "eligible g gc_type t ?x"
      using that find_next_bit_hit [OF that(1)] eligible_frame [OF t] by (simp add: ok_def)
    then show ?thesis
      using t t' seg unfolding st victim_step_def
      by (simp add: I_def Q_def Let_def)
  qed
  obtain r where r: "victim_loop g gc_type p max_cost s lv off NULL_SEGNO mc n = Some r" and q: "Q r"
    using victim_loop_rule [of p I s lv off NULL_SEGNO mc n, OF assms init step] by blast
  show ?thesis using r q by (cases r) (auto simp: Q_def ok_def)
qed

section \<open>Least cost\<close>

text \<open>
  The greedy costs do not change the state: \<open>pcost\<close> is the cost of a segment, \<open>cand\<close> the
  segments the search may take.
\<close>

definition pcost :: "geom \<Rightarrow> victim_sel_policy \<Rightarrow> sb_info \<Rightarrow> nat \<Rightarrow> nat" where
  "pcost g p s x = fst (get_gc_cost g p s x)"

definition greedy :: "victim_sel_policy \<Rightarrow> bool" where
  "greedy p \<longleftrightarrow> p_alloc_mode p = SSR \<or> p_gc_mode p = GC_GREEDY"

definition listed :: "geom \<Rightarrow> victim_sel_policy \<Rightarrow> nat set" where
  "listed g p = {x. x < main_segments g \<and> p_dirty_segmap p x}"

definition cand :: "geom \<Rightarrow> gc_type \<Rightarrow> victim_sel_policy \<Rightarrow> sb_info \<Rightarrow> nat set" where
  "cand g gc_type p s = {x \<in> listed g p. eligible g gc_type s x}"

definition unit_ok :: "geom \<Rightarrow> victim_sel_policy \<Rightarrow> bool" where
  "unit_ok g p \<longleftrightarrow> 0 < segs_per_sec g \<and>
     p_ofs_unit p = (if p_alloc_mode p = SSR then 1 else segs_per_sec g)"

lemma greedy_cost: "greedy p \<Longrightarrow> get_gc_cost g p s x = (pcost g p s x, s)"
  by (cases "p_alloc_mode p = SSR") (auto simp: pcost_def get_gc_cost_def greedy_def)

lemma same_unit:
  assumes "unit_ok g p" and "greedy p" and "x \<le> y" and "y < next_off p x"
  shows "GET_SECNO g y = GET_SECNO g x" and "pcost g p s y = pcost g p s x"
proof -
  let ?u = "p_ofs_unit p"
  have sec: "GET_SECNO g y = GET_SECNO g x \<and> pcost g p s y = pcost g p s x"
  proof (cases "?u > 1")
    case True
    then have u: "?u = segs_per_sec g" and ns: "p_alloc_mode p \<noteq> SSR"
      using assms(1) by (auto simp: unit_ok_def split: if_splits)
    have "x = x div ?u * ?u + x mod ?u" by simp
    then have "y < x div ?u * ?u + ?u" and "x div ?u * ?u \<le> y"
      using assms(3,4) True by (simp_all add: next_off_def, linarith+)
    then have "y div ?u = x div ?u"
      by (metis div_nat_eqI mult.commute mult_Suc_right add.commute)
    then have "GET_SECNO g y = GET_SECNO g x" by (simp add: GET_SECNO_def u)
    then show ?thesis
      using ns assms(2) True u by (simp add: pcost_def get_gc_cost_def greedy_def get_valid_blocks_def)
  next
    case False
    then have "y = x" using assms(1,3,4) by (auto simp: next_off_def unit_ok_def split: if_splits)
    then show ?thesis by simp
  qed
  then show "GET_SECNO g y = GET_SECNO g x" and "pcost g p s y = pcost g p s x" by simp_all
qed

lemma same_unit_cand:
  assumes "unit_ok g p" and "greedy p" and "x \<le> y" and "y < next_off p x" and "\<not> eligible g gc_type s x"
  shows "y \<notin> cand g gc_type p s"
  using same_unit(1) [OF assms(1-4)] assms(5) by (simp add: cand_def eligible_def)

text \<open>The segments the search has passed: up to \<open>off\<close> from \<open>lv0\<close>, or around the end.\<close>

definition passed :: "nat \<Rightarrow> nat \<Rightarrow> nat \<Rightarrow> nat \<Rightarrow> bool" where
  "passed lv0 lv off y \<longleftrightarrow> (if lv = lv0 then lv0 \<le> y \<and> y < off else lv0 \<le> y \<or> y < off)"

definition cinv :: "geom \<Rightarrow> gc_type \<Rightarrow> victim_sel_policy \<Rightarrow> nat \<Rightarrow> sb_info \<Rightarrow> nat \<Rightarrow> vstate \<Rightarrow> bool" where
  "cinv g gc_type p max_cost s0 lv0 st \<longleftrightarrow> (case st of (s, lv, off, seg, mc, n) \<Rightarrow>
     s = s0 \<and> (lv = lv0 \<and> lv0 \<le> off \<or> lv = 0) \<and>
     (\<forall>y \<in> cand g gc_type p s0. passed lv0 lv off y \<longrightarrow> mc \<le> pcost g p s0 y) \<and>
     n \<le> card {y \<in> listed g p. lv0 \<le> y \<and> (lv = lv0 \<longrightarrow> y < off)} +
         (if lv = lv0 then 0 else card {y \<in> listed g p. y < off}) \<and>
     (seg = NULL_SEGNO \<and> mc = max_cost \<or>
      seg \<in> cand g gc_type p s0 \<and> mc = pcost g p s0 seg \<and> mc < max_cost))"

definition best :: "geom \<Rightarrow> gc_type \<Rightarrow> victim_sel_policy \<Rightarrow> nat \<Rightarrow> sb_info \<Rightarrow> nat \<Rightarrow> bool" where
  "best g gc_type p max_cost s seg \<longleftrightarrow>
     seg = NULL_SEGNO \<and> (\<forall>y \<in> cand g gc_type p s. max_cost \<le> pcost g p s y) \<or>
     seg \<in> cand g gc_type p s \<and> pcost g p s seg < max_cost \<and>
       (\<forall>y \<in> cand g gc_type p s. pcost g p s seg \<le> pcost g p s y)"

lemma finite_listed: "finite (listed g p)"
  by (simp add: listed_def)

text \<open>Passing the next listed segment.\<close>

lemma pass_next:
  assumes "unit_ok g p" and "greedy p" and "x = find_next_bit (p_dirty_segmap p) (main_segments g) off"
    and "x < main_segments g" and "lv = lv0 \<and> lv0 \<le> off \<or> lv = 0"
    and "\<forall>y \<in> cand g gc_type p s. passed lv0 lv off y \<longrightarrow> mc \<le> pcost g p s y"
    and "eligible g gc_type s x \<Longrightarrow> mc' \<le> pcost g p s x" and "mc' \<le> mc"
  shows "\<forall>y \<in> cand g gc_type p s. passed lv0 lv (next_off p x) y \<longrightarrow> mc' \<le> pcost g p s y"
proof (intro ballI impI)
  fix y
  assume y: "y \<in> cand g gc_type p s" and v: "passed lv0 lv (next_off p x) y"
  have ox: "off \<le> x" "\<And>i. off \<le> i \<Longrightarrow> i < x \<Longrightarrow> \<not> p_dirty_segmap p i"
    using assms(3,4) find_next_bit_hit find_next_bit_least by blast+
  consider "passed lv0 lv off y" | "off \<le> y" "y < x" | "x \<le> y" "y < next_off p x"
    using v unfolding passed_def by (cases "lv = lv0") (simp_all, linarith+)
  then show "mc' \<le> pcost g p s y"
  proof cases
    case 1
    then show ?thesis using assms(6,8) y by fastforce
  next
    case 2
    then show ?thesis using ox(2) y by (auto simp: cand_def listed_def)
  next
    case 3
    then have "eligible g gc_type s x" using same_unit_cand [OF assms(1,2) 3] y by blast
    then show ?thesis using same_unit(2) [OF assms(1,2) 3] assms(7) by simp
  qed
qed

lemma count_pass:
  assumes "x \<in> listed g p" and "off \<le> x" and "x < off'" and "lv = lv0 \<and> lv0 \<le> off \<or> lv = 0"
    and "n \<le> card {y \<in> listed g p. lv0 \<le> y \<and> (lv = lv0 \<longrightarrow> y < off)} +
         (if lv = lv0 then 0 else card {y \<in> listed g p. y < off})"
  shows "n + 1 \<le> card {y \<in> listed g p. lv0 \<le> y \<and> (lv = lv0 \<longrightarrow> y < off')} +
         (if lv = lv0 then 0 else card {y \<in> listed g p. y < off'})"
proof (cases "lv = lv0")
  case True
  then have "lv0 \<le> x" using assms(2,4) by auto
  have "card (insert x {y \<in> listed g p. lv0 \<le> y \<and> y < off}) \<le> card {y \<in> listed g p. lv0 \<le> y \<and> y < off'}"
    using assms(1-3) \<open>lv0 \<le> x\<close> finite_listed [of g p] by (intro card_mono) auto
  then show ?thesis using True assms(2,5) finite_listed [of g p] by simp
next
  case False
  have "card (insert x {y \<in> listed g p. y < off}) \<le> card {y \<in> listed g p. y < off'}"
    using assms(1-3) finite_listed [of g p] by (intro card_mono) auto
  then show ?thesis using False assms(2,5) finite_listed [of g p] by simp
qed

text \<open>A search that stops on its limit has passed every listed segment.\<close>

lemma stop_all:
  assumes "x = find_next_bit (p_dirty_segmap p) (main_segments g) off" and "x < main_segments g"
    and "lv = lv0 \<and> lv0 \<le> off \<or> lv = 0"
    and "n \<le> card {y \<in> listed g p. lv0 \<le> y \<and> (lv = lv0 \<longrightarrow> y < off)} +
         (if lv = lv0 then 0 else card {y \<in> listed g p. y < off})"
    and "card (listed g p) \<le> n" and "y \<in> listed g p" and "x < off'"
  shows "passed lv0 lv off' y"
proof -
  have ox: "off \<le> x" "p_dirty_segmap p x" and none: "\<And>i. off \<le> i \<Longrightarrow> i < x \<Longrightarrow> \<not> p_dirty_segmap p i"
    using assms(1,2) find_next_bit_hit find_next_bit_least by blast+
  have xl: "x \<in> listed g p" using assms(2) ox by (simp add: listed_def)
  have fin: "finite (listed g p)" by (rule finite_listed)
  show ?thesis
  proof (cases "lv = lv0")
    case True
    have "x \<notin> {y \<in> listed g p. lv0 \<le> y \<and> y < off}" using ox(1) by simp
    then have "{y \<in> listed g p. lv0 \<le> y \<and> y < off} \<subset> listed g p" using xl by blast
    then have "card {y \<in> listed g p. lv0 \<le> y \<and> y < off} < card (listed g p)"
      by (rule psubset_card_mono [OF fin])
    then show ?thesis using True assms(4,5) by simp
  next
    case False
    show ?thesis
    proof (rule ccontr)
      assume "\<not> passed lv0 lv off' y"
      then have y: "y < lv0" "off' \<le> y" using False by (auto simp: passed_def)
      let ?A = "{y \<in> listed g p. lv0 \<le> y}" and ?B = "{y \<in> listed g p. y < off}"
      have "off \<le> lv0" using y assms(7) ox(1) by linarith
      then have "?A \<inter> ?B = {}" by auto
      then have "card ?A + card ?B = card (?A \<union> ?B)" using fin by (simp add: card_Un_disjoint)
      also have "\<dots> < card (listed g p)"
      proof (rule psubset_card_mono [OF fin])
        have "x < lv0" using y assms(7) by linarith
        then have "x \<notin> ?A \<union> ?B" using ox(1) by simp
        then show "?A \<union> ?B \<subset> listed g p" using xl by blast
      qed
      finally show False using False assms(4,5) by simp
    qed
  qed
qed


lemma cinv_step:
  assumes "unit_ok g p" and "greedy p" and "cinv g gc_type p max_cost s0 lv0 st"
    and "main_segments g \<le> NULL_SEGNO"
  shows "case victim_step g gc_type p max_cost st of
      Inl st' \<Rightarrow> cinv g gc_type p max_cost s0 lv0 st'
    | Inr (seg, lv', s') \<Rightarrow> s' = s0 \<and>
        (seg = NULL_SEGNO \<or> seg \<in> cand g gc_type p s0 \<and> pcost g p s0 seg < max_cost) \<and>
        (card (listed g p) \<le> p_max_search p \<longrightarrow> best g gc_type p max_cost s0 seg)"
proof -
  obtain s lv off seg mc n where st: "st = (s, lv, off, seg, mc, n)" by (cases st) blast
  define cnt where "cnt = (\<lambda>off. card {y \<in> listed g p. lv0 \<le> y \<and> (lv = lv0 \<longrightarrow> y < off)} +
         (if lv = lv0 then 0 else card {y \<in> listed g p. y < off}))"
  have s: "s = s0" and lv: "lv = lv0 \<and> lv0 \<le> off \<or> lv = 0"
    and seen: "\<forall>y \<in> cand g gc_type p s0. passed lv0 lv off y \<longrightarrow> mc \<le> pcost g p s0 y"
    and n: "n \<le> cnt off"
    and pick: "seg = NULL_SEGNO \<and> mc = max_cost \<or>
      seg \<in> cand g gc_type p s0 \<and> mc = pcost g p s0 seg \<and> mc < max_cost"
    using assms(3) unfolding st cinv_def cnt_def by auto
  let ?x = "find_next_bit (p_dirty_segmap p) (main_segments g) off"
  let ?o = "next_off p ?x"
  have u: "0 < p_ofs_unit p" using assms(1) by (auto simp: unit_ok_def)
  have lt: "?x < ?o" by (rule next_off_gt [OF u])
  show ?thesis
  proof (cases "?x < main_segments g")
    case False
    then have none: "\<And>y. off \<le> y \<Longrightarrow> y < main_segments g \<Longrightarrow> \<not> p_dirty_segmap p y"
      using fnb.search_none_iff [of "main_segments g" "p_dirty_segmap p" off] by simp
    have low: "y < off" if "y \<in> listed g p" for y
      using none [of y] that by (auto simp: listed_def not_less [symmetric])
    show ?thesis
    proof (cases "lv = 0")
      case True
      have "passed lv0 lv off y" if "y \<in> cand g gc_type p s0" for y
        using low [of y] that True by (auto simp: passed_def cand_def)
      then have "best g gc_type p max_cost s0 seg"
        using seen pick unfolding best_def by blast
      then show ?thesis using True False s pick by (auto simp: st victim_step_def)
    next
      case nz: False
      have "passed lv0 lv off y" if "y \<in> cand g gc_type p s0" "lv0 \<le> y" for y
        using low [of y] that nz lv by (auto simp: passed_def cand_def)
      moreover have "{y \<in> listed g p. lv0 \<le> y \<and> y < off} \<subseteq> {y \<in> listed g p. lv0 \<le> y}" by auto
      then have "cnt off \<le> card {y \<in> listed g p. lv0 \<le> y}"
        using nz lv finite_listed [of g p] by (auto simp: cnt_def intro!: card_mono)
      moreover have "lv = lv0" "lv0 \<noteq> 0" using nz lv by auto
      ultimately show ?thesis
        using nz False s seen n pick by (auto simp: st victim_step_def cinv_def passed_def)
    qed
  next
    case True
    then have ox: "off \<le> ?x" "p_dirty_segmap p ?x" using find_next_bit_hit by blast+
    have xl: "?x \<in> listed g p" using True ox by (simp add: listed_def)
    have cnt: "n + 1 \<le> cnt ?o" using count_pass [OF xl ox(1) lt lv] n unfolding cnt_def by blast
    have lvo: "lv = lv0 \<and> lv0 \<le> ?o \<or> lv = 0" using lv ox(1) lt by linarith
    show ?thesis
    proof (cases "eligible g gc_type s0 ?x")
      case False
      have "\<forall>y \<in> cand g gc_type p s0. passed lv0 lv ?o y \<longrightarrow> mc \<le> pcost g p s0 y"
        by (rule pass_next [OF assms(1,2) refl True lv seen]) (use False in auto)
      then have "cinv g gc_type p max_cost s0 lv0 (s0, lv, ?o, seg, mc, n)"
        using lvo cnt pick unfolding cinv_def cnt_def by auto
      then show ?thesis using True False s by (simp add: st victim_step_def)
    next
      case el: True
      let ?c = "pcost g p s0 ?x"
      have xc: "?x \<in> cand g gc_type p s0" using xl el by (simp add: cand_def)
      define mc' where "mc' = min mc ?c"
      define seg' where "seg' = (if mc > ?c then ?x else seg)"
      have mc': "mc' \<le> ?c" "mc' \<le> mc" by (simp_all add: mc'_def)
      have seen': "\<forall>y \<in> cand g gc_type p s0. passed lv0 lv ?o y \<longrightarrow> mc' \<le> pcost g p s0 y"
        by (rule pass_next [OF assms(1,2) refl True lv seen mc'])
      have pick': "seg' = NULL_SEGNO \<and> mc' = max_cost \<or>
          seg' \<in> cand g gc_type p s0 \<and> mc' = pcost g p s0 seg' \<and> mc' < max_cost"
        using pick xc unfolding seg'_def mc'_def by (cases "mc > ?c") auto
      have go: "cinv g gc_type p max_cost s0 lv0 (s0, lv, ?o, seg', mc', k)" if "k \<le> n + 1" for k
        using lvo cnt pick' seen' that unfolding cinv_def cnt_def by auto
      have stop: "best g gc_type p max_cost s0 seg'" if "n \<ge> p_max_search p" "card (listed g p) \<le> p_max_search p"
      proof -
        have "passed lv0 lv ?o y" if "y \<in> cand g gc_type p s0" for y
          using stop_all [OF refl True lv n [unfolded cnt_def] _ _ lt, of y] that
            \<open>n \<ge> p_max_search p\<close> \<open>card (listed g p) \<le> p_max_search p\<close> by (simp add: cand_def)
        then show ?thesis using seen' pick' unfolding best_def by blast
      qed
      have step: "victim_step g gc_type p max_cost st =
          (if mc > ?c then (if n \<ge> p_max_search p then Inr (seg', ?x, s0)
             else Inl (s0, lv, ?o, seg', mc', n + 1))
           else if ?c = max_cost then Inl (s0, lv, ?o, seg', mc', n)
           else (if n \<ge> p_max_search p then Inr (seg', ?x, s0)
             else Inl (s0, lv, ?o, seg', mc', n + 1)))"
        using True el s by (simp add: st victim_step_def Let_def greedy_cost [OF assms(2)] seg'_def mc'_def min_def)
      show ?thesis
        unfolding step using go [of n] go [of "n + 1"] stop pick' by auto
    qed
  qed
qed

lemma victim_loop_best:
  assumes "unit_ok g p" and "greedy p" and "main_segments g \<le> NULL_SEGNO"
  shows "\<exists>seg lv'. victim_loop g gc_type p max_cost s lv lv NULL_SEGNO max_cost 0 = Some (seg, lv', s) \<and>
    (seg = NULL_SEGNO \<or> seg \<in> cand g gc_type p s \<and> pcost g p s seg < max_cost) \<and>
    (card (listed g p) \<le> p_max_search p \<longrightarrow> best g gc_type p max_cost s seg)"
proof -
  let ?Q = "\<lambda>(seg, lv' :: nat, s'). s' = s \<and>
    (seg = NULL_SEGNO \<or> seg \<in> cand g gc_type p s \<and> pcost g p s seg < max_cost) \<and>
    (card (listed g p) \<le> p_max_search p \<longrightarrow> best g gc_type p max_cost s seg)"
  have u: "0 < p_ofs_unit p" using assms(1) by (auto simp: unit_ok_def)
  have init: "cinv g gc_type p max_cost s lv (s, lv, lv, NULL_SEGNO, max_cost, 0)"
    by (simp add: cinv_def passed_def)
  obtain r where r: "victim_loop g gc_type p max_cost s lv lv NULL_SEGNO max_cost 0 = Some r" and q: "?Q r"
    using victim_loop_rule [where I = "cinv g gc_type p max_cost s lv" and Q = ?Q, OF u init
        cinv_step [OF assms(1,2) _ assms(3)]] by blast
  obtain seg lv' s' where "r = (seg, lv', s')" by (cases r) blast
  then show ?thesis using r q by auto
qed

section \<open>Properties\<close>

lemma select_policy_unit:
  assumes "0 < segs_per_sec g"
  shows "unit_ok g (select_policy g gc_th s gc_type ty alloc_mode)"
    and "p_alloc_mode (select_policy g gc_th s gc_type ty alloc_mode) = alloc_mode"
  using assms by (simp_all add: unit_ok_def select_policy_def Let_def)

lemma check_bg_victims_some:
  assumes "check_bg_victims g s = (bg, s')" and "bg \<noteq> NULL_SEGNO"
  obtains secno where "bg = secno * segs_per_sec g" and "secno < total_sections g"
    and "\<not> sec_usage_check g s secno" and "victim_secmap (dirty_i s) secno"
    and "s' = s\<lparr>dirty_i := (dirty_i s)\<lparr>victim_secmap := (victim_secmap (dirty_i s))(secno := False)\<rparr>\<rparr>"
proof -
  let ?l = "for_each_set_bit (victim_secmap (dirty_i s)) (total_sections g) 0"
  obtain secno where f: "find (\<lambda>secno. \<not> sec_usage_check g s secno) ?l = Some secno"
    using assms by (cases "find (\<lambda>secno. \<not> sec_usage_check g s secno) ?l") (auto simp: check_bg_victims_def)
  then have "secno \<in> set ?l" and "\<not> sec_usage_check g s secno"
    by (auto simp: find_Some_iff)
  then show ?thesis
    using that [of secno] assms(1) f by (auto simp: check_bg_victims_def for_each_set_bit_eq)
qed

lemma check_bg_victims_none:
  "check_bg_victims g s = (NULL_SEGNO, s') \<Longrightarrow> main_segments g \<le> NULL_SEGNO \<Longrightarrow>
     main_segments g = total_sections g * segs_per_sec g \<Longrightarrow> 0 < segs_per_sec g \<Longrightarrow> s' = s"
proof -
  assume c: "check_bg_victims g s = (NULL_SEGNO, s')" and m: "main_segments g \<le> NULL_SEGNO"
    and t: "main_segments g = total_sections g * segs_per_sec g" and p: "0 < segs_per_sec g"
  let ?f = "find (\<lambda>secno. \<not> sec_usage_check g s secno)
      (for_each_set_bit (victim_secmap (dirty_i s)) (total_sections g) 0)"
  show "s' = s"
  proof (cases ?f)
    case None
    then show ?thesis using c by (simp add: check_bg_victims_def)
  next
    case (Some secno)
    then have "secno < total_sections g" by (auto simp: find_Some_iff for_each_set_bit_eq dest: nth_mem)
    then have "secno * segs_per_sec g < main_segments g" using p by (simp add: t)
    moreover have "secno * segs_per_sec g = NULL_SEGNO" using c Some by (simp add: check_bg_victims_def)
    ultimately show ?thesis using m by simp
  qed
qed

definition victim_ok ::
  "geom \<Rightarrow> gc_type \<Rightarrow> nat \<Rightarrow> nat \<Rightarrow> sb_info \<Rightarrow> nat \<Rightarrow> sb_info \<Rightarrow> bool" where
  "victim_ok g gc_type ty alloc_mode s r s' \<longleftrightarrow>
     r < main_segments g \<and> \<not> IS_CURSEC g s (GET_SECNO g r) \<and> cur_victim_sec s \<noteq> GET_SECNO g r \<and>
     (alloc_mode = SSR \<longrightarrow> dirty_segmap (dirty_i s) ty r \<and> dirty_i s' = dirty_i s) \<and>
     (alloc_mode = LFS \<longrightarrow> r mod segs_per_sec g = 0 \<and>
        (if gc_type = FG_GC then cur_victim_sec s' = GET_SECNO g r
         else victim_secmap (dirty_i s') (GET_SECNO g r)))"

lemma unit_start:
  assumes "0 < k" and "x < t * k"
  shows "x div k * k < t * (k::nat)" and "x div k * k mod k = 0" and "x div k * k div k = x div k"
  using assms by (simp_all add: less_mult_imp_div_less)

lemma get_victim_spec:
  assumes "geom_ok L g" and "alloc_mode = LFS \<or> alloc_mode = SSR"
  shows "\<exists>ret r s'. get_victim_by_default g gc_th s result gc_type ty alloc_mode = Some (ret, r, s') \<and>
    (ret \<longrightarrow> victim_ok g gc_type ty alloc_mode s r s') \<and> (\<not> ret \<longrightarrow> r = result) \<and>
    free_i s' = free_i s \<and> cursegs s' = cursegs s"
proof -
  define p where "p = select_policy g gc_th s gc_type ty alloc_mode"
  note g = geom_okD [OF assms(1)]
  have m: "main_segments g \<le> NULL_SEGNO" using main_segments_bound [OF assms(1)] by simp
  have unit: "unit_ok g p" and mode: "p_alloc_mode p = alloc_mode"
    using select_policy_unit [OF g(1)] by (simp_all add: p_def)
  have u: "0 < p_ofs_unit p" using unit by (auto simp: unit_ok_def)
  have ul: "alloc_mode = LFS \<Longrightarrow> p_ofs_unit p = segs_per_sec g"
    using unit mode by (simp add: unit_ok_def)
  obtain bg s0 where bg: "(if alloc_mode = LFS \<and> gc_type = FG_GC then check_bg_victims g s
      else (NULL_SEGNO, s)) = (bg, s0)" by (meson surj_pair)
  show ?thesis
  proof (cases "bg = NULL_SEGNO")
    case False
    then have l: "alloc_mode = LFS" "gc_type = FG_GC" "check_bg_victims g s = (bg, s0)"
      using bg by (auto split: if_splits)
    obtain c where c: "bg = c * segs_per_sec g" "c < total_sections g" "\<not> sec_usage_check g s c"
        "s0 = s\<lparr>dirty_i := (dirty_i s)\<lparr>victim_secmap := (victim_secmap (dirty_i s))(c := False)\<rparr>\<rparr>"
      using check_bg_victims_some [OF l(3) False] by metis
    have r: "get_victim_by_default g gc_th s result gc_type ty alloc_mode =
        Some (True, bg, s0\<lparr>cur_victim_sec := c\<rparr>)"
    proof -
      have "take_victim g gc_type p bg s0 = (bg, s0\<lparr>cur_victim_sec := c\<rparr>)"
        using mode l(1,2) ul [OF l(1)] c(1) g(1) by (simp add: take_victim_def GET_SECNO_def)
      then show ?thesis
        unfolding get_victim_by_default_def p_def [symmetric] Let_def bg prod.case
        using False by (simp only: not_False_eq_True if_True prod.case)
    qed
    have "bg < main_segments g" using c(1,2) g(1,4) by simp
    then have "victim_ok g gc_type ty alloc_mode s bg (s0\<lparr>cur_victim_sec := c\<rparr>)"
      using l c g(1) by (simp add: victim_ok_def sec_usage_check_def GET_SECNO_def)
    then show ?thesis using r c(4) by (intro exI [of _ True] exI [of _ bg] exI [of _ "s0\<lparr>cur_victim_sec := c\<rparr>"]) simp
  next
    case True
    have s0: "s0 = s"
      using bg True check_bg_victims_none [OF _ m g(4,1), of s s0] by (auto split: if_splits)
    let ?mc = "get_max_cost g p" and ?i = "mode_no (p_gc_mode p)"
    obtain seg lv' s1 where loop: "victim_loop g gc_type p ?mc s (last_victim s ?i) (p_offset p) NULL_SEGNO ?mc 0
          = Some (seg, lv', s1)" and fr: "same_but_mtime s s1"
        and seg: "seg = NULL_SEGNO \<or> seg < main_segments g \<and> p_dirty_segmap p seg \<and> eligible g gc_type s seg"
      using victim_loop_valid [OF u] by blast
    define s2 where "s2 = s1\<lparr>last_victim := (last_victim s1)(?i := lv')\<rparr>"
    have f2: "dirty_i s2 = dirty_i s" "free_i s2 = free_i s" "cursegs s2 = cursegs s"
      using fr by (auto simp: same_but_mtime_def s2_def)
    have r: "get_victim_by_default g gc_th s result gc_type ty alloc_mode =
        (if seg \<noteq> NULL_SEGNO then (let (r, s) = take_victim g gc_type p seg s2 in Some (True, r, s))
         else Some (False, result, s2))"
      using bg True loop by (simp add: get_victim_by_default_def p_def [symmetric] Let_def s0 s2_def)
    show ?thesis
    proof (cases "seg = NULL_SEGNO")
      case True
      then show ?thesis using r f2 by (intro exI [of _ False] exI [of _ result] exI [of _ s2]) simp
    next
      case False
      then have sg: "seg < main_segments g" "p_dirty_segmap p seg" "eligible g gc_type s seg" using seg by auto
      have el: "\<not> IS_CURSEC g s (GET_SECNO g seg)" "cur_victim_sec s \<noteq> GET_SECNO g seg"
        using sg(3) by (auto simp: eligible_def sec_usage_check_def)
      obtain v s3 where t: "take_victim g gc_type p seg s2 = (v, s3)" by (meson surj_pair)
      have f3: "free_i s3 = free_i s" "cursegs s3 = cursegs s"
        using t f2 by (auto simp: take_victim_def Let_def split: if_splits)
      have "victim_ok g gc_type ty alloc_mode s v s3"
      proof (cases "alloc_mode = SSR")
        case True
        then have "v = seg" "s3 = s2" using t unit mode by (auto simp: take_victim_def unit_ok_def)
        moreover have "dirty_segmap (dirty_i s) ty seg"
          using sg(2) True by (simp add: p_def select_policy_def Let_def)
        ultimately show ?thesis using True sg(1) el f2 by (simp add: victim_ok_def)
      next
        case False
        then have l: "alloc_mode = LFS" using assms(2) by simp
        have v: "v = seg div segs_per_sec g * segs_per_sec g"
          using t ul [OF l] by (auto simp: take_victim_def Let_def)
        have sv: "GET_SECNO g v = GET_SECNO g seg" using g(1) by (simp add: v GET_SECNO_def)
        have "v < main_segments g" and "v mod segs_per_sec g = 0"
          using unit_start [OF g(1), of seg "total_sections g"] sg(1) g(4) by (simp_all add: v)
        moreover have "if gc_type = FG_GC then cur_victim_sec s3 = GET_SECNO g seg
            else victim_secmap (dirty_i s3) (GET_SECNO g seg)"
          using t l mode by (auto simp: take_victim_def Let_def split: if_splits)
        ultimately show ?thesis using l el sv by (simp add: victim_ok_def)
      qed
      then show ?thesis
        using r False t f3 by (intro exI [of _ True] exI [of _ v] exI [of _ s3]) simp
    qed
  qed
qed

text \<open>
  C4: Victim selection always ends, and a victim it returns is usable: it lies in the main area
  and in no section that holds a current log or is being cleaned already. For slack space
  recycling it is a dirty segment of the requested type and the lists do not change; for
  cleaning it is the first segment of a section, which foreground cleaning records as the
  current victim and background cleaning marks in \<open>victim_secmap\<close>.
\<close>
theorem get_victim_usable:
  assumes "geom_ok L g" and "alloc_mode = LFS \<or> alloc_mode = SSR"
  shows "\<exists>ret r s'. get_victim_by_default g gc_th s result gc_type ty alloc_mode = Some (ret, r, s') \<and>
    (ret \<longrightarrow> victim_ok g gc_type ty alloc_mode s r s') \<and> (\<not> ret \<longrightarrow> r = result)"
  using get_victim_spec [OF assms] by blast

theorem get_victim_usable_witness:
  "\<exists>ret r s'. get_victim_by_default small_geom None dirty_sample 0 BG_GC 2 SSR = Some (ret, r, s') \<and>
    (ret \<longrightarrow> victim_ok small_geom BG_GC 2 SSR dirty_sample r s') \<and> (\<not> ret \<longrightarrow> r = 0)"
  using get_victim_usable [OF small_geom_ok, of SSR None dirty_sample 0 BG_GC 2] by simp

lemma ssr_victim_spec:
  assumes "geom_ok L g"
  shows "\<exists>seg lv'. get_victim_by_default g gc_th s result BG_GC ty SSR =
      (let s = s\<lparr>last_victim := (last_victim s)(1 := lv')\<rparr>
       in Some (if seg = NULL_SEGNO then (False, result, s) else (True, seg, s))) \<and>
    (seg = NULL_SEGNO \<or> seg \<in> members g ty s \<and> eligible g BG_GC s seg \<and>
       unat (ckpt_valid_blocks (sentries (sit_i s) seg)) < blocks_per_seg g)"
proof -
  define p where "p = select_policy g gc_th s BG_GC ty SSR"
  have m: "main_segments g \<le> NULL_SEGNO" using main_segments_bound [OF assms(1)] by simp
  have unit: "unit_ok g p" and mode: "p_alloc_mode p = SSR"
    using select_policy_unit [OF geom_okD(1) [OF assms(1)]] by (simp_all add: p_def)
  have gr: "greedy p" using mode by (simp add: greedy_def)
  have l: "listed g p = members g ty s" and pm: "mode_no (p_gc_mode p) = 1"
    by (simp_all add: p_def select_policy_def Let_def listed_def members_def)
  have off: "p_offset p = last_victim s 1"
    by (simp add: p_def select_policy_def Let_def)
  obtain seg lv' where loop: "victim_loop g BG_GC p (get_max_cost g p) s (p_offset p) (p_offset p)
        NULL_SEGNO (get_max_cost g p) 0 = Some (seg, lv', s)"
      and b: "seg = NULL_SEGNO \<or> seg \<in> cand g BG_GC p s \<and> pcost g p s seg < get_max_cost g p"
    using victim_loop_best [OF unit gr m] by blast
  have tv: "take_victim g BG_GC p seg t = (seg, t)" for t
    using unit mode by (simp add: take_victim_def unit_ok_def)
  have "get_victim_by_default g gc_th s result BG_GC ty SSR =
      (let s = s\<lparr>last_victim := (last_victim s)(1 := lv')\<rparr>
       in Some (if seg = NULL_SEGNO then (False, result, s) else (True, seg, s)))"
    unfolding get_victim_by_default_def p_def [symmetric] Let_def pm
    using loop by (simp add: tv off [symmetric, unfolded One_nat_def])
  moreover have "seg = NULL_SEGNO \<or> seg \<in> members g ty s \<and> eligible g BG_GC s seg \<and>
       unat (ckpt_valid_blocks (sentries (sit_i s) seg)) < blocks_per_seg g"
    using b mode geom_okD(5) [OF assms(1)]
    by (auto simp: cand_def l pcost_def get_gc_cost_def get_max_cost_def)
  ultimately show ?thesis by blast
qed

text \<open>
  C5: The greedy search is optimal when the search limit covers the list, whose length the counter gives: with slack space
  recycling it returns a segment of the type's dirty list whose count \<open>ckpt_valid_blocks\<close> is least among all
  candidates (segments outside the sections in use and not marked as background victims), and reports no
  victim only if every candidate is full. The search starts anywhere in the list (\<open>last_victim\<close>) and
  wraps around once.
\<close>
theorem ssr_victim_least_valid:
  assumes "geom_ok L g" and "nr_dirty (dirty_i s) ty = int (card (members g ty s))"
    and "card (members g ty s) \<le> unat (max_victim_search g)"
    and "get_victim_by_default g gc_th s result BG_GC ty SSR = Some (ret, r, s')"
    and "cands = {x \<in> members g ty s. eligible g BG_GC s x}"
    and "cost = (\<lambda>x. unat (ckpt_valid_blocks (sentries (sit_i s) x)))"
  shows "(ret \<longrightarrow> r \<in> cands \<and> (\<forall>y \<in> cands. cost r \<le> cost y)) \<and>
    (\<not> ret \<longrightarrow> (\<forall>y \<in> cands. blocks_per_seg g \<le> cost y))"
proof -
  define p where "p = select_policy g gc_th s BG_GC ty SSR"
  have m: "main_segments g \<le> NULL_SEGNO" using main_segments_bound [OF assms(1)] by simp
  have unit: "unit_ok g p" and mode: "p_alloc_mode p = SSR"
    using select_policy_unit [OF geom_okD(1) [OF assms(1)]] by (simp_all add: p_def)
  have gr: "greedy p" using mode by (simp add: greedy_def)
  have l: "listed g p = members g ty s"
    by (simp add: p_def select_policy_def Let_def listed_def members_def)
  have "card (members g ty s) \<le> card {..<main_segments g}"
    by (rule card_mono) (auto simp: members_def)
  then have "card (members g ty s) < 2 ^ 32" using m by simp
  then have "int (card (members g ty s)) mod 2 ^ 32 = int (card (members g ty s))" by simp
  then have mx: "card (listed g p) \<le> p_max_search p"
    using assms(2,3) unfolding l by (simp add: p_def select_policy_def Let_def)
  have off: "p_offset p = last_victim s (mode_no (p_gc_mode p))"
    by (simp add: p_def select_policy_def Let_def)
  obtain seg lv' where loop: "victim_loop g BG_GC p (get_max_cost g p) s (p_offset p) (p_offset p)
        NULL_SEGNO (get_max_cost g p) 0 = Some (seg, lv', s)"
      and b: "best g BG_GC p (get_max_cost g p) s seg"
    using victim_loop_best [OF unit gr m] mx by blast
  have cost: "pcost g p s = cost" "cand g BG_GC p s = cands" "get_max_cost g p = blocks_per_seg g"
    using mode geom_okD(5) [OF assms(1)]
    by (simp_all add: fun_eq_iff pcost_def get_gc_cost_def assms(5,6) cand_def l get_max_cost_def)
  have null: "NULL_SEGNO \<notin> cands" using m by (simp add: assms(5) members_def)
  define s2 where "s2 = s\<lparr>last_victim := (last_victim s)(mode_no (p_gc_mode p) := lv')\<rparr>"
  have tv: "take_victim g BG_GC p seg t = (seg, t)" for t
    using unit mode by (simp add: take_victim_def unit_ok_def)
  have "get_victim_by_default g gc_th s result BG_GC ty SSR =
      (if seg \<noteq> NULL_SEGNO then Some (True, seg, s2) else Some (False, result, s2))"
    unfolding get_victim_by_default_def p_def [symmetric] Let_def
    using loop by (simp add: off [symmetric] tv s2_def)
  then have "ret = (seg \<noteq> NULL_SEGNO) \<and> (ret \<longrightarrow> r = seg)"
    using assms(4) by (auto split: if_splits)
  then show ?thesis
    using b null unfolding best_def cost by auto
qed


definition victim_sample :: sb_info where
  "victim_sample = dirty_sample\<lparr>dirty_i := \<lparr>dirty_segmap = (\<lambda>t n. (t = 2 \<or> t = DIRTY) \<and> n = 6),
     nr_dirty = (\<lambda>t. if t = 2 \<or> t = DIRTY then 1 else 0), victim_secmap = (\<lambda>_. False)\<rparr>\<rparr>"

theorem ssr_victim_least_valid_witness:
  "\<exists>ret r s'. get_victim_by_default small_geom None victim_sample 0 BG_GC 2 SSR = Some (ret, r, s') \<and>
    (\<not> ret \<longrightarrow> (\<forall>y \<in> {6}. 64 \<le> unat (ckpt_valid_blocks (sentries (sit_i victim_sample) y))))"
proof -
  have m: "members small_geom 2 victim_sample = {6}"
    by (auto simp: members_def victim_sample_def small_geom_def)
  have e: "eligible small_geom BG_GC victim_sample 6"
    by (simp add: eligible_def sec_usage_check_def IS_CURSEC_def victim_sample_def dirty_sample_def
        sample_sb_def small_geom_def GET_SECNO_def upt_rec)
  obtain ret r s' where v: "get_victim_by_default small_geom None victim_sample 0 BG_GC 2 SSR = Some (ret, r, s')"
    using get_victim_spec [OF small_geom_ok, of SSR] by blast
  have h: "nr_dirty (dirty_i victim_sample) 2 = int (card (members small_geom 2 victim_sample))"
    "card (members small_geom 2 victim_sample) \<le> unat (max_victim_search small_geom)"
    "{6} = {x \<in> members small_geom 2 victim_sample. eligible small_geom BG_GC victim_sample x}"
    using m e by (auto simp: victim_sample_def small_geom_def)
  from ssr_victim_least_valid [OF small_geom_ok h(1,2) v h(3) refl] v
  show ?thesis by (intro exI conjI) (auto simp: small_geom_def)
qed

end
