(* ===== verification/Curseg.thy ===== *)
theory Curseg
  imports Victim
begin

text \<open>
  The six current segments (logs) and block allocation (\<open>segment.c\<close>): finding a free segment,
  switching a log to a free segment (LFS) or to a partly valid one (SSR), and
  \<open>allocate_data_block\<close>. The victim selection is called through the operation table
  (\<open>v_ops\<close>), so it is an argument here; \<open>default_v_ops\<close> is the table of \<open>gc.c\<close>.
\<close>

section \<open>Space estimates\<close>

definition reserved_sections :: "geom \<Rightarrow> u32" where
  "reserved_sections g = reserved_segments g div of_nat (segs_per_sec g)"

definition overprovision_sections :: "geom \<Rightarrow> u32" where
  "overprovision_sections g = ovp_segments g div of_nat (segs_per_sec g)"

definition need_SSR :: "geom \<Rightarrow> sb_info \<Rightarrow> bool" where
  "need_SSR g s =
     (let node_secs = get_blocktype_secs g s F2FS_DIRTY_NODES;
          dent_secs = get_blocktype_secs g s F2FS_DIRTY_DENTS
      in free_sections (free_i s) \<le> of_nat node_secs + 2 * of_nat dent_secs + reserved_sections g + 1)"

definition has_not_enough_free_secs :: "geom \<Rightarrow> sb_info \<Rightarrow> nat \<Rightarrow> bool" where
  "has_not_enough_free_secs g s freed =
     (let node_secs = get_blocktype_secs g s F2FS_DIRTY_NODES;
          dent_secs = get_blocktype_secs g s F2FS_DIRTY_DENTS
      in if is_sbi_flag_set s SBI_POR_DOING then False
         else free_sections (free_i s) + of_nat freed
              \<le> of_nat node_secs + 2 * of_nat dent_secs + reserved_sections g)"

section \<open>Free segments\<close>

datatype direction = ALLOC_RIGHT | ALLOC_LEFT

definition is_next_segment_free :: "geom \<Rightarrow> sb_info \<Rightarrow> nat \<Rightarrow> bool" where
  "is_next_segment_free g s ty =
     (let segno = cs_segno (cursegs s ty) + 1
      in if segno < main_segments g \<and> segno mod segs_per_sec g \<noteq> 0
         then \<not> free_segmap (free_i s) segno else False)"

text \<open>The loop to the left; the boolean is the \<open>f2fs_bug_on\<close> after its last resort.\<close>

fun left_walk :: "bitmap \<Rightarrow> nat \<Rightarrow> nat \<Rightarrow> nat \<times> bool" where
  "left_walk m tot 0 =
     (if m 0 then (find_next_zero_bit m tot 0, find_next_zero_bit m tot 0 \<ge> tot) else (0, False))"
| "left_walk m tot (Suc n) = (if m (Suc n) then left_walk m tot n else (Suc n, False))"

text \<open>From the label \<open>find_other_zone\<close> to \<open>skip_left\<close>: section, \<open>go_left\<close>, \<open>left_start\<close>, bug.\<close>

definition find_section ::
  "bitmap \<Rightarrow> nat \<Rightarrow> direction \<Rightarrow> nat \<Rightarrow> bool \<Rightarrow> nat \<Rightarrow> nat \<times> bool \<times> nat \<times> bool" where
  "find_section m tot dir hint go_left left_start =
     (let secno = find_next_zero_bit m tot hint;
          (secno, go_left, left_start, bug) =
            (if secno \<ge> tot
             then if dir = ALLOC_RIGHT
                  then (find_next_zero_bit m tot 0, go_left, left_start, find_next_zero_bit m tot 0 \<ge> tot)
                  else (secno, True, (hint + 2 ^ 32 - 1) mod 2 ^ 32, False)
             else (secno, go_left, left_start, False))
      in if \<not> go_left then (secno, go_left, left_start, bug)
         else let (left_start, b) = left_walk m tot left_start
              in (left_start, go_left, left_start, bug \<or> b))"

definition zone_in_use :: "sb_info \<Rightarrow> nat \<Rightarrow> bool" where
  "zone_in_use s zoneno \<longleftrightarrow> list_ex (\<lambda>i. cs_zone (cursegs s i) = zoneno) [0..<NR_CURSEG_TYPE]"

definition take_segment :: "geom \<Rightarrow> nat \<Rightarrow> sb_info \<Rightarrow> nat \<times> sb_info" where
  "take_segment g segno s =
     (let s = f2fs_bug_on (free_segmap (free_i s) segno) s
      in (segno, s\<lparr>free_i := set_inuse g segno (free_i s)\<rparr>))"

definition get_new_segment ::
  "geom \<Rightarrow> nat \<Rightarrow> bool \<Rightarrow> direction \<Rightarrow> sb_info \<Rightarrow> nat \<times> sb_info" where
  "get_new_segment g newseg new_sec dir s =
     (let f = free_i s; tot = total_sections g; spz = secs_per_zone g; spS = segs_per_sec g;
          total_zones = tot div spz;
          hint = newseg div spS;
          old_zoneno = GET_ZONENO_FROM_SEGNO g newseg;
          segno = find_next_zero_bit (free_segmap f) (main_segments g) (newseg + 1)
      in if \<not> new_sec \<and> (newseg + 1) mod spS \<noteq> 0 \<and> segno - newseg < spS - newseg mod spS
         then take_segment g segno s
         else let (secno, go_left, left_start, bug) =
                    find_section (free_secmap f) tot dir hint False hint;
                  s = f2fs_bug_on bug s;
                  segno = secno * spS;
                  zoneno = secno div spz
              in if spz = 1 \<or> zoneno = old_zoneno \<or>
                    dir = ALLOC_LEFT \<and> (\<not> go_left \<and> zoneno + 1 \<ge> total_zones \<or> go_left \<and> zoneno = 0) \<or>
                    \<not> zone_in_use s zoneno
                 then take_segment g segno s
                 else let hint = (if go_left then zoneno * spz - 1
                                  else if zoneno + 1 \<ge> total_zones then 0
                                  else (zoneno + 1) * spz);
                          (secno, go_left, left_start, bug) =
                            find_section (free_secmap f) tot dir hint go_left left_start;
                          s = f2fs_bug_on bug s
                      in take_segment g (secno * spS) s)"

section \<open>Summaries\<close>

definition set_summary :: "u32 \<Rightarrow> u16 \<Rightarrow> u8 \<Rightarrow> f2fs_summary" where
  "set_summary nid ofs_in_node version = \<lparr>s_nid = nid, s_ofs_in_node = ofs_in_node, s_version = version\<rparr>"

definition put_curseg :: "nat \<Rightarrow> curseg_info \<Rightarrow> sb_info \<Rightarrow> sb_info" where
  "put_curseg ty c s = s\<lparr>cursegs := (cursegs s)(ty := c)\<rparr>"

definition write_sum_page :: "summary_block \<Rightarrow> u32 \<Rightarrow> sb_info \<Rightarrow> sb_info" where
  "write_sum_page blkp blk_addr s = s\<lparr>sum_pages := (sum_pages s)(blk_addr := blkp)\<rparr>"

definition get_sum_page :: "geom \<Rightarrow> nat \<Rightarrow> sb_info \<Rightarrow> summary_block" where
  "get_sum_page g segno s = sum_pages s (GET_SUM_BLOCK g segno)"

definition add_sum_entry :: "nat \<Rightarrow> f2fs_summary \<Rightarrow> sb_info \<Rightarrow> sb_info" where
  "add_sum_entry ty sm s =
     (let c = cursegs s ty; b = sum_blk c
      in put_curseg ty (c\<lparr>sum_blk := b\<lparr>sum_entries := (sum_entries b)[next_blkoff c := sm]\<rparr>\<rparr>) s)"

section \<open>Switching a log\<close>

text \<open>\<open>SUM_TYPE_DATA\<close> and \<open>SUM_TYPE_NODE\<close> are arguments (kernel header).\<close>

definition reset_curseg :: "geom \<Rightarrow> nat \<times> nat \<Rightarrow> nat \<Rightarrow> bool \<Rightarrow> sb_info \<Rightarrow> sb_info" where
  "reset_curseg g stypes ty modified s =
     (let c = cursegs s ty;
          c = c\<lparr>cs_segno := next_segno c\<rparr>;
          c = c\<lparr>cs_zone := GET_ZONENO_FROM_SEGNO g (cs_segno c), next_blkoff := 0,
                next_segno := NULL_SEGNO\<rparr>;
          b = (sum_blk c)\<lparr>sum_type := 0\<rparr>;
          b = (if ty \<le> CURSEG_COLD_DATA then b\<lparr>sum_type := fst stypes\<rparr> else b);
          b = (if ty \<ge> CURSEG_HOT_NODE then b\<lparr>sum_type := snd stypes\<rparr> else b);
          c = c\<lparr>sum_blk := b\<rparr>;
          s = put_curseg ty c s
      in s\<lparr>sit_i := set_sit_entry_type ty (cs_segno c) modified (sit_i s)\<rparr>)"

definition new_curseg :: "geom \<Rightarrow> nat \<times> nat \<Rightarrow> nat \<Rightarrow> bool \<Rightarrow> sb_info \<Rightarrow> sb_info" where
  "new_curseg g stypes ty new_sec s =
     (let c = cursegs s ty;
          segno = cs_segno c;
          s = write_sum_page (sum_blk c) (GET_SUM_BLOCK g segno) s;
          dir = ALLOC_LEFT;
          dir = (if ty = CURSEG_WARM_DATA \<or> ty = CURSEG_COLD_DATA then ALLOC_RIGHT else dir);
          dir = (if test_opt (mount_opt s) MOUNT_NOHEAP then ALLOC_RIGHT else dir);
          (segno, s) = get_new_segment g segno new_sec dir s;
          s = put_curseg ty ((cursegs s ty)\<lparr>next_segno := segno\<rparr>) s;
          s = reset_curseg g stypes ty True s
      in put_curseg ty ((cursegs s ty)\<lparr>alloc_type := LFS\<rparr>) s)"

text \<open>The merged map is built long by long, as in the code.\<close>

definition merged_map :: "seg_entry \<Rightarrow> u64 list" where
  "merged_map se = map2 (OR) (longs_of_bytes (ckpt_valid_map se)) (longs_of_bytes (cur_valid_map se))"

definition next_free_blkoff :: "geom \<Rightarrow> nat \<Rightarrow> nat \<Rightarrow> sb_info \<Rightarrow> sb_info" where
  "next_free_blkoff g ty start s =
     (let c = cursegs s ty; se = sentries (sit_i s) (cs_segno c);
          pos = find_rev_next_zero_bit (merged_map se) (blocks_per_seg g) start
      in put_curseg ty (c\<lparr>next_blkoff := pos\<rparr>) s)"

definition refresh_next_blkoff :: "geom \<Rightarrow> nat \<Rightarrow> sb_info \<Rightarrow> sb_info" where
  "refresh_next_blkoff g ty s =
     (let c = cursegs s ty
      in if alloc_type c = SSR then next_free_blkoff g ty (next_blkoff c + 1) s
         else put_curseg ty (c\<lparr>next_blkoff := next_blkoff c + 1\<rparr>) s)"

text \<open>\<open>SUM_ENTRY_SIZE\<close> covers the entries of the summary block.\<close>

definition change_curseg :: "geom \<Rightarrow> nat \<times> nat \<Rightarrow> nat \<Rightarrow> bool \<Rightarrow> sb_info \<Rightarrow> sb_info" where
  "change_curseg g stypes ty reuse s =
     (let c = cursegs s ty;
          new_segno = next_segno c;
          s = write_sum_page (sum_blk c) (GET_SUM_BLOCK g (cs_segno c)) s;
          s = s\<lparr>free_i := set_test_and_inuse g new_segno (free_i s)\<rparr>;
          s = remove_dirty g PRE new_segno s;
          s = remove_dirty g DIRTY new_segno s;
          s = reset_curseg g stypes ty True s;
          s = put_curseg ty ((cursegs s ty)\<lparr>alloc_type := SSR\<rparr>) s;
          s = next_free_blkoff g ty 0 s
      in if reuse
         then (let c = cursegs s ty
               in put_curseg ty (c\<lparr>sum_blk := (sum_blk c)\<lparr>sum_entries := sum_entries (get_sum_page g new_segno s)\<rparr>\<rparr>) s)
         else s)"

section \<open>Allocation\<close>

type_synonym victim_ops = "sb_info \<Rightarrow> nat \<Rightarrow> gc_type \<Rightarrow> nat \<Rightarrow> nat \<Rightarrow> bool \<times> nat \<times> sb_info"

text \<open>\<open>get_victim_usable\<close> shows that the selection always returns.\<close>

definition default_v_ops :: "geom \<Rightarrow> f2fs_gc_kthread option \<Rightarrow> victim_ops" where
  "default_v_ops g gc_th s result gc_type ty alloc_mode =
     the (get_victim_by_default g gc_th s result gc_type ty alloc_mode)"

definition try_victim :: "victim_ops \<Rightarrow> nat \<Rightarrow> nat \<Rightarrow> sb_info \<Rightarrow> bool \<times> sb_info" where
  "try_victim v_ops slot ty s =
     (let (ret, r, s) = v_ops s (next_segno (cursegs s slot)) BG_GC ty SSR
      in (ret, put_curseg slot ((cursegs s slot)\<lparr>next_segno := r\<rparr>) s))"

fun ssr_data_loop :: "victim_ops \<Rightarrow> nat \<Rightarrow> nat \<Rightarrow> sb_info \<Rightarrow> bool \<times> sb_info" where
  "ssr_data_loop v_ops slot 0 s = try_victim v_ops slot 0 s"
| "ssr_data_loop v_ops slot (Suc ty) s =
     (let (ret, s) = try_victim v_ops slot (Suc ty) s
      in if ret then (True, s) else ssr_data_loop v_ops slot ty s)"

definition get_ssr_segment :: "geom \<Rightarrow> victim_ops \<Rightarrow> nat \<Rightarrow> sb_info \<Rightarrow> bool \<times> sb_info" where
  "get_ssr_segment g v_ops ty s =
     (if ty \<ge> CURSEG_HOT_NODE \<or> \<not> has_not_enough_free_secs g s 0 then try_victim v_ops ty ty s
      else ssr_data_loop v_ops ty ty s)"

definition allocate_segment_by_default ::
  "geom \<Rightarrow> victim_ops \<Rightarrow> nat \<times> nat \<Rightarrow> nat \<Rightarrow> bool \<Rightarrow> sb_info \<Rightarrow> sb_info" where
  "allocate_segment_by_default g v_ops stypes ty force s =
     (let c = cursegs s ty
      in if force then new_curseg g stypes ty True s
         else if ty = CURSEG_WARM_NODE then new_curseg g stypes ty False s
         else if alloc_type c = LFS \<and> is_next_segment_free g s ty then new_curseg g stypes ty False s
         else if need_SSR g s
              then (let (ok, s) = get_ssr_segment g v_ops ty s
                    in if ok then change_curseg g stypes ty True s else new_curseg g stypes ty False s)
         else new_curseg g stypes ty False s)"

definition allocate_new_segment_of ::
  "geom \<Rightarrow> victim_ops \<Rightarrow> nat \<times> nat \<Rightarrow> nat \<Rightarrow> sb_info \<Rightarrow> sb_info" where
  "allocate_new_segment_of g v_ops stypes ty s =
     (let old_segno = cs_segno (cursegs s ty)
      in locate_dirty_segment g old_segno (allocate_segment_by_default g v_ops stypes ty True s))"

definition allocate_new_segments :: "geom \<Rightarrow> victim_ops \<Rightarrow> nat \<times> nat \<Rightarrow> sb_info \<Rightarrow> sb_info" where
  "allocate_new_segments g v_ops stypes s =
     fold (allocate_new_segment_of g v_ops stypes) [CURSEG_HOT_DATA ..< CURSEG_COLD_DATA + 1] s"

definition NEXT_FREE_BLKADDR :: "geom \<Rightarrow> curseg_info \<Rightarrow> u32" where
  "NEXT_FREE_BLKADDR g c = START_BLOCK g (cs_segno c) + of_nat (next_blkoff c)"

definition has_curseg_space :: "geom \<Rightarrow> sb_info \<Rightarrow> nat \<Rightarrow> bool" where
  "has_curseg_space g s ty \<longleftrightarrow> next_blkoff (cursegs s ty) < blocks_per_seg g"

text \<open>The new address and the state; the node footer is written by the caller's page.\<close>

definition allocate_data_block ::
  "layout \<Rightarrow> geom \<Rightarrow> victim_ops \<Rightarrow> nat \<times> nat \<Rightarrow> u32 \<Rightarrow> f2fs_summary \<Rightarrow> nat \<Rightarrow> sb_info \<Rightarrow> u32 \<times> sb_info"
where
  "allocate_data_block L g v_ops stypes old_blkaddr sm ty s =
     (let direct_io = (ty = CURSEG_DIRECT_IO);
          ty = (if direct_io then CURSEG_WARM_DATA else ty);
          s = (if direct_io \<and> next_blkoff (cursegs s ty) \<noteq> 0
               then allocate_new_segment_of g v_ops stypes ty s else s);
          new_blkaddr = NEXT_FREE_BLKADDR g (cursegs s ty);
          s = add_sum_entry ty sm s;
          s = refresh_next_blkoff g ty s;
          s = (if \<not> has_curseg_space g s ty then allocate_segment_by_default g v_ops stypes ty False s
               else s)
      in (new_blkaddr, refresh_sit_entry L g old_blkaddr new_blkaddr s))"

section \<open>Choosing the log\<close>

datatype page_type = DATA | NODE | META

text \<open>The page, as far as the choice depends on it.\<close>

record page_kind =
  pk_dir :: bool            \<comment> \<open>its inode is a directory\<close>
  pk_dnode :: bool          \<comment> \<open>\<open>IS_DNODE\<close>\<close>
  pk_cold_node :: bool      \<comment> \<open>\<open>is_cold_node\<close>\<close>
  pk_cold_data :: bool      \<comment> \<open>\<open>is_cold_data\<close> of the page\<close>
  pk_cold_file :: bool      \<comment> \<open>\<open>file_is_cold\<close> of its inode\<close>

definition get_segment_type_2 :: "page_kind \<Rightarrow> page_type \<Rightarrow> nat" where
  "get_segment_type_2 pg p_type = (if p_type = DATA then CURSEG_HOT_DATA else CURSEG_HOT_NODE)"

definition get_segment_type_4 :: "page_kind \<Rightarrow> page_type \<Rightarrow> nat" where
  "get_segment_type_4 pg p_type =
     (if p_type = DATA
      then if pk_dir pg then CURSEG_HOT_DATA else CURSEG_COLD_DATA
      else if pk_dnode pg \<and> pk_cold_node pg then CURSEG_WARM_NODE else CURSEG_COLD_NODE)"

definition get_segment_type_6 :: "page_kind \<Rightarrow> page_type \<Rightarrow> nat" where
  "get_segment_type_6 pg p_type =
     (if p_type = DATA
      then if pk_dir pg then CURSEG_HOT_DATA
           else if pk_cold_data pg \<or> pk_cold_file pg then CURSEG_COLD_DATA else CURSEG_WARM_DATA
      else if pk_dnode pg then if pk_cold_node pg then CURSEG_WARM_NODE else CURSEG_HOT_NODE
           else CURSEG_COLD_NODE)"

definition get_segment_type :: "geom \<Rightarrow> page_kind \<Rightarrow> page_type \<Rightarrow> sb_info \<Rightarrow> nat \<times> sb_info" where
  "get_segment_type g pg p_type s =
     (if active_logs g = 2 then (get_segment_type_2 pg p_type, s)
      else if active_logs g = 4 then (get_segment_type_4 pg p_type, s)
      else (get_segment_type_6 pg p_type, f2fs_bug_on (active_logs g \<noteq> NR_CURSEG_TYPE) s))"

section \<open>Free offsets\<close>

lemma long_bit_or:
  "k < 64 * length a \<Longrightarrow> length a = length b \<Longrightarrow>
     long_bit (map2 (OR) a b) k \<longleftrightarrow> long_bit a k \<or> long_bit b k"
  by (simp add: long_bit_def less_mult_imp_div_less mult.commute bit_or_iff)

lemma map_longs:
  assumes "layout_ok L" and "geom_ok L g" and "length m = sit_vblock_map_size L"
  shows "64 * (length m div 8) = blocks_per_seg g"
proof -
  have "sit_vblock_map_size L mod 8 = 0" using assms(1) by (simp add: layout_ok_def)
  then have "8 * (length m div 8) = length m" using assms(3) by presburger
  then show ?thesis using geom_okD(7) [OF assms(2)] assms(3) by simp
qed

lemma merged_map_bit:
  assumes "layout_ok L" and "geom_ok L g" and "seg_ok L g se" and "k < blocks_per_seg g"
  shows "long_bit (merged_map se) k \<longleftrightarrow> byte_bit (cur_valid_map se) k \<or> byte_bit (ckpt_valid_map se) k"
    and "longs_valid (merged_map se) (blocks_per_seg g)"
proof -
  have l: "length (cur_valid_map se) = sit_vblock_map_size L" "length (ckpt_valid_map se) = sit_vblock_map_size L"
    using assms(3) by (simp_all add: seg_ok_def)
  note b = map_longs [OF assms(1,2) l(1)] map_longs [OF assms(1,2) l(2)]
  have "k < 64 * length (longs_of_bytes (ckpt_valid_map se))" using assms(4) b by simp
  then show "long_bit (merged_map se) k \<longleftrightarrow> byte_bit (cur_valid_map se) k \<or> byte_bit (ckpt_valid_map se) k"
    unfolding merged_map_def using l b assms(4)
    by (subst long_bit_or) (auto simp: long_bit_of_bytes)
  show "longs_valid (merged_map se) (blocks_per_seg g)"
    using l b geom_okD(7) [OF assms(2)] by (simp add: longs_valid_def merged_map_def)
qed

lemma free_offset:
  assumes "layout_ok L" and "geom_ok L g" and "seg_ok L g se"
    and "pos = find_rev_next_zero_bit (merged_map se) (blocks_per_seg g) start"
  shows "pos \<le> blocks_per_seg g"
    and "pos < blocks_per_seg g \<Longrightarrow> start \<le> pos \<and> \<not> byte_bit (cur_valid_map se) pos \<and> \<not> byte_bit (ckpt_valid_map se) pos"
    and "start \<le> i \<Longrightarrow> i < blocks_per_seg g \<Longrightarrow> \<not> byte_bit (cur_valid_map se) i \<Longrightarrow>
      \<not> byte_bit (ckpt_valid_map se) i \<Longrightarrow> pos \<le> i"
proof -
  have B: "0 < blocks_per_seg g" using geom_blocks [OF assms(2)] by simp
  note v = merged_map_bit(2) [OF assms(1-3) B]
  note b = merged_map_bit(1) [OF assms(1-3)]
  show "pos \<le> blocks_per_seg g" unfolding assms(4) by (rule rev0.search_le [OF v])
  show "start \<le> pos \<and> \<not> byte_bit (cur_valid_map se) pos \<and> \<not> byte_bit (ckpt_valid_map se) pos"
    if "pos < blocks_per_seg g"
    using rev0.search_hit [OF v, of start] that b [OF that] unfolding assms(4) by blast
  show "pos \<le> i" if "start \<le> i" "i < blocks_per_seg g" "\<not> byte_bit (cur_valid_map se) i"
      "\<not> byte_bit (ckpt_valid_map se) i"
    using rev0.search_upper [OF v that(1,2)] that(3,4) b [OF that(2)] unfolding assms(4) by blast
qed

section \<open>Finding a free segment\<close>

lemma left_walk_spec:
  assumes "c < tot" and "\<not> m c" and "n < tot"
  shows "fst (left_walk m tot n) < tot \<and> \<not> m (fst (left_walk m tot n)) \<and> \<not> snd (left_walk m tot n)"
  using assms(3)
proof (induction n)
  case 0
  have "find_next_zero_bit m tot 0 \<le> c"
    by (rule fnzb.search_upper) (use assms in auto)
  then have "find_next_zero_bit m tot 0 < tot" using assms(1) by simp
  then show ?case using 0 fnzb.search_hit [where m = m and sz = tot and off = 0] by auto
qed simp

lemma find_section_spec:
  assumes "c < tot" and "\<not> m c" and "hint \<le> tot" and "tot < 2 ^ 32"
    and "go_left \<Longrightarrow> ls < tot \<and> \<not> m ls"
    and "find_section m tot dir hint go_left ls = (secno, gl, ls', bug)"
  shows "secno < tot \<and> \<not> m secno \<and> \<not> bug \<and> (gl \<longrightarrow> ls' = secno)"
proof -
  let ?z = "find_next_zero_bit m tot hint" and ?first = "find_next_zero_bit m tot 0"
  have z: "?z < tot \<Longrightarrow> \<not> m ?z" using fnzb.search_hit [where m = m and sz = tot and off = hint] by blast
  have "?first \<le> c" by (rule fnzb.search_upper) (use assms in auto)
  then have z0: "?first < tot" "\<not> m ?first"
    using assms(1) fnzb.search_hit [where m = m and sz = tot and off = 0] by auto
  have w: "fst (left_walk m tot n) < tot \<and> \<not> m (fst (left_walk m tot n)) \<and> \<not> snd (left_walk m tot n)"
    if "n < tot" for n
    using left_walk_spec [where m = m, OF assms(1,2) that] .
  show ?thesis
  proof (cases "?z < tot")
    case True
    then show ?thesis
      using assms(5,6) z w [of ls]
      by (cases go_left) (auto simp: find_section_def Let_def case_prod_beta)
  next
    case False
    have "hint \<noteq> 0" using False z0(1) by (cases "hint = 0") auto
    then have "(hint + 2 ^ 32 - 1) mod 2 ^ 32 = hint - 1"
      using assms(3,4) by (simp add: mod_if)
    then have "(hint + 2 ^ 32 - 1) mod 2 ^ 32 < tot" using \<open>hint \<noteq> 0\<close> assms(3) by simp
    then show ?thesis
      using False assms(5,6) z0 w [of ls] w [of "(hint + 2 ^ 32 - 1) mod 2 ^ 32"]
      by (cases dir; cases go_left) (auto simp: find_section_def Let_def case_prod_beta)
  qed
qed

lemma section_end:
  assumes "0 < (k::nat)" and "x < t * k"
  shows "x - x mod k + k \<le> t * k"
proof -
  have "Suc (x div k) * k \<le> t * k"
    using assms by (intro mult_le_mono1) (simp add: less_mult_imp_div_less Suc_leI)
  then show ?thesis by (simp add: minus_mod_eq_div_mult)
qed

lemma take_segment_free:
  assumes "\<not> free_segmap (free_i s) x"
  shows "take_segment g x s = (x, s\<lparr>free_i := set_test_and_inuse g x (free_i s)\<rparr>)"
  using assms by (simp add: take_segment_def f2fs_bug_on_def set_inuse_eq)

lemma get_new_segment_spec:
  assumes "geom_ok L g" and "free_ok g (free_i s)" and "newseg < main_segments g"
    and "c < total_sections g" and "\<not> free_secmap (free_i s) c"
    and "get_new_segment g newseg new_sec dir s = (x, s')"
  shows "x < main_segments g \<and> \<not> free_segmap (free_i s) x \<and>
    s' = s\<lparr>free_i := set_test_and_inuse g x (free_i s)\<rparr> \<and>
    (GET_SECNO g x = GET_SECNO g newseg \<and> newseg < x \<and> \<not> new_sec \<or>
     x mod segs_per_sec g = 0 \<and> \<not> free_secmap (free_i s) (GET_SECNO g x))"
proof -
  let ?f = "free_i s" and ?k = "segs_per_sec g" and ?tot = "total_sections g" and ?z = "secs_per_zone g"
  note gd = geom_okD [OF assms(1)]
  have tot: "?tot < 2 ^ 32" using free_ok_bound(2) [OF assms(2)] .
  have hint: "newseg div ?k \<le> ?tot"
    using assms(3) gd(4) by (simp add: less_mult_imp_div_less less_imp_le)
  have sec: "secno * ?k < main_segments g \<and> \<not> free_segmap ?f (secno * ?k) \<and> secno * ?k mod ?k = 0 \<and>
      \<not> free_secmap ?f (GET_SECNO g (secno * ?k))" if "secno < ?tot" "\<not> free_secmap ?f secno" for secno
    using free_secmap_free [OF assms(2) that, of "secno * ?k"] that gd(1,4) by (simp add: GET_SECNO_def)
  define y where "y = find_next_zero_bit (free_segmap ?f) (main_segments g) (newseg + 1)"
  show ?thesis
  proof (cases "\<not> new_sec \<and> (newseg + 1) mod ?k \<noteq> 0 \<and> y - newseg < ?k - newseg mod ?k")
    case True
    have "newseg - newseg mod ?k + ?k \<le> main_segments g"
      using section_end [OF gd(1)] assms(3) gd(4) by simp
    moreover have "newseg mod ?k \<le> newseg" by simp
    ultimately have y: "y < main_segments g" and yk: "y < newseg - newseg mod ?k + ?k"
      using True by linarith+
    have hit: "newseg + 1 \<le> y" "\<not> free_segmap ?f y"
      using fnzb.search_hit [where m = "free_segmap ?f" and sz = "main_segments g" and off = "newseg + 1"] y
      unfolding y_def by blast+
    have "y div ?k = newseg div ?k"
    proof (rule div_nat_eqI)
      have n: "newseg - newseg mod ?k = ?k * (newseg div ?k)" by (simp add: minus_mod_eq_mult_div)
      then show "?k * (newseg div ?k) \<le> y" using hit(1) by linarith
      show "y < ?k * Suc (newseg div ?k)" using yk n by simp
    qed
    moreover have "get_new_segment g newseg new_sec dir s = take_segment g y s"
      using True unfolding get_new_segment_def Let_def y_def by simp
    then have "x = y" and "s' = s\<lparr>free_i := set_test_and_inuse g y ?f\<rparr>"
      using assms(6) take_segment_free [OF hit(2)] by simp_all
    ultimately show ?thesis using y hit True by (simp add: GET_SECNO_def)
  next
    case False
    obtain s1 gl ls b where fs: "find_section (free_secmap ?f) ?tot dir (newseg div ?k) False (newseg div ?k)
        = (s1, gl, ls, b)" by (metis prod_cases4)
    have r1: "s1 < ?tot" "\<not> free_secmap ?f s1" "\<not> b" "gl \<longrightarrow> ls = s1"
      using find_section_spec [OF assms(4,5) hint tot _ fs] by simp_all
    define A where "A \<longleftrightarrow> ?z = 1 \<or> s1 div ?z = GET_ZONENO_FROM_SEGNO g newseg \<or>
        dir = ALLOC_LEFT \<and> (\<not> gl \<and> s1 div ?z + 1 \<ge> ?tot div ?z \<or> gl \<and> s1 div ?z = 0) \<or>
        \<not> zone_in_use s (s1 div ?z)"
    define hint' where "hint' = (if gl then s1 div ?z * ?z - 1 else if s1 div ?z + 1 \<ge> ?tot div ?z then 0
        else (s1 div ?z + 1) * ?z)"
    obtain s2 gl2 ls2 b2 where fs2: "find_section (free_secmap ?f) ?tot dir hint' gl ls = (s2, gl2, ls2, b2)"
      by (metis prod_cases4)
    have "s1 div ?z * ?z \<le> s1" by simp
    then have "s1 div ?z * ?z - 1 \<le> ?tot" using r1(1) by linarith
    moreover have "(s1 div ?z + 1) * ?z \<le> ?tot" if "s1 div ?z + 1 < ?tot div ?z"
    proof -
      have "(s1 div ?z + 1) * ?z \<le> ?tot div ?z * ?z" using that by (intro mult_le_mono1) simp
      then show ?thesis using div_times_less_eq_dividend [of ?tot ?z] by linarith
    qed
    ultimately have "hint' \<le> ?tot" using r1(1) unfolding hint'_def by (auto simp: not_le)
    then have r2: "s2 < ?tot" "\<not> free_secmap ?f s2" "\<not> b2"
      using find_section_spec [OF assms(4,5) _ tot _ fs2] r1 by simp_all
    have nb: "f2fs_bug_on False s = s" by (simp add: f2fs_bug_on_def)
    have b: "b = False" "b2 = False" using r1(3) r2(3) by simp_all
    have "get_new_segment g newseg new_sec dir s =
        (if A then take_segment g (s1 * ?k) s else take_segment g (s2 * ?k) s)"
      unfolding get_new_segment_def Let_def
      by (simp only: y_def [symmetric] False if_False fs prod.case b nb A_def [symmetric]
          hint'_def [symmetric] fs2)
    then show ?thesis
      using assms(6) sec [OF r1(1,2)] sec [OF r2(1,2)] take_segment_free by (cases A) auto
  qed
qed

section \<open>Invariant of the logs\<close>

text \<open>
  A log sits on its own used segment, and the offsets it may still write hold no block that is
  valid now or in the last checkpoint: for LFS every offset from \<open>next_blkoff\<close> on, for SSR
  \<open>next_blkoff\<close> itself.
\<close>

definition unused :: "seg_entry \<Rightarrow> nat \<Rightarrow> bool" where
  "unused se i \<longleftrightarrow> \<not> byte_bit (cur_valid_map se) i \<and> \<not> byte_bit (ckpt_valid_map se) i"

definition log_ok :: "geom \<Rightarrow> sb_info \<Rightarrow> nat \<Rightarrow> bool" where
  "log_ok g s t \<longleftrightarrow>
     (let c = cursegs s t; se = sentries (sit_i s) (cs_segno c)
      in cs_segno c < main_segments g \<and> free_segmap (free_i s) (cs_segno c) \<and> se_type se = t \<and>
         next_blkoff c \<le> blocks_per_seg g \<and>
         (alloc_type c = LFS \<and> (\<forall>i<blocks_per_seg g. next_blkoff c \<le> i \<longrightarrow> unused se i) \<or>
          alloc_type c = SSR \<and> (next_blkoff c < blocks_per_seg g \<longrightarrow> unused se (next_blkoff c))))"

definition logs_ok :: "geom \<Rightarrow> sb_info \<Rightarrow> bool" where
  "logs_ok g s \<longleftrightarrow> (\<forall>t<6. log_ok g s t) \<and>
     (\<forall>t<6. \<forall>u<6. cs_segno (cursegs s t) = cs_segno (cursegs s u) \<longrightarrow> t = u)"

definition free_clean :: "geom \<Rightarrow> sb_info \<Rightarrow> bool" where
  "free_clean g s \<longleftrightarrow>
     (\<forall>x<main_segments g. \<not> free_segmap (free_i s) x \<longrightarrow> ckpt_valid_blocks (sentries (sit_i s) x) = 0)"

definition alloc_inv :: "layout \<Rightarrow> geom \<Rightarrow> nat set \<Rightarrow> sb_info \<Rightarrow> bool" where
  "alloc_inv L g X s \<longleftrightarrow> store_ok L g s \<and> exact_but g X s \<and> free_ok g (free_i s) \<and>
     free_clean g s \<and> logs_ok g s"

lemma alloc_invD:
  assumes "alloc_inv L g X s"
  shows "store_ok L g s" "exact_but g X s" "free_ok g (free_i s)" "free_clean g s" "logs_ok g s"
  using assms by (simp_all add: alloc_inv_def)

lemma clean_unused:
  assumes "geom_ok L g" and "seg_ok L g se" and "ckpt_valid_blocks se = 0" and "i < blocks_per_seg g"
  shows "unused se i" and "nvalid g se = 0"
proof -
  let ?u = "\<lambda>i. byte_bit (cur_valid_map se) i \<or> byte_bit (ckpt_valid_map se) i"
  have "count_bits ?u (blocks_per_seg g) < 2 ^ LENGTH(16)"
    using count_bits_le [of ?u "blocks_per_seg g"] geom_blocks [OF assms(1)] by simp
  then have "unat (of_nat (count_bits ?u (blocks_per_seg g)) :: u16) = count_bits ?u (blocks_per_seg g)"
    by (rule unat_of_nat_small)
  then have z: "count_bits ?u (blocks_per_seg g) = 0"
    using assms(2,3) by (simp add: seg_ok_def)
  have none: "\<not> ?u j" if "j < blocks_per_seg g" for j
    using count_bits_pos [of j "blocks_per_seg g" ?u] that z by auto
  then show "unused se i" using assms(4) by (simp add: unused_def)
  have "{j. j < blocks_per_seg g \<and> byte_bit (cur_valid_map se) j} = {}" using none by blast
  then show "nvalid g se = 0" by (simp only: nvalid_def count_bits_def card.empty)
qed

lemma free_segment_clean:
  assumes "geom_ok L g" and "alloc_inv L g X s" and "x < main_segments g" and "\<not> free_segmap (free_i s) x"
  shows "i < blocks_per_seg g \<Longrightarrow> unused (sentries (sit_i s) x) i"
    and "nvalid g (sentries (sit_i s) x) = 0" and "\<not> IS_CURSEG s x"
proof -
  have se: "seg_ok L g (sentries (sit_i s) x)"
    using alloc_invD(1) [OF assms(2)] assms(3) by (simp add: store_ok_def sit_ok_def)
  have z: "ckpt_valid_blocks (sentries (sit_i s) x) = 0"
    using alloc_invD(4) [OF assms(2)] assms(3,4) by (simp add: free_clean_def)
  show "unused (sentries (sit_i s) x) i" if "i < blocks_per_seg g"
    using clean_unused [OF assms(1) se z that] by simp
  have "0 < blocks_per_seg g" using geom_blocks [OF assms(1)] by simp
  then show "nvalid g (sentries (sit_i s) x) = 0" by (rule clean_unused(2) [OF assms(1) se z])
  show "\<not> IS_CURSEG s x"
    using alloc_invD(5) [OF assms(2)] assms(4)
    by (auto simp: logs_ok_def log_ok_def Let_def IS_CURSEG_iff)
qed

text \<open>What a change of the parts an invariant reads preserves.\<close>

lemma alloc_inv_cong:
  assumes "sit_i s' = sit_i s" and "free_i s' = free_i s" and "dirty_i s' = dirty_i s"
    and "\<And>t. t < 6 \<Longrightarrow> cs_segno (cursegs s' t) = cs_segno (cursegs s t) \<and>
       next_blkoff (cursegs s' t) = next_blkoff (cursegs s t) \<and> alloc_type (cursegs s' t) = alloc_type (cursegs s t)"
  shows "alloc_inv L g X s' = alloc_inv L g X s"
proof -
  have "IS_CURSEG s' x = IS_CURSEG s x" for x using assms(4) by (auto simp: IS_CURSEG_iff)
  moreover have "log_ok g s' t = log_ok g s t" if "t < 6" for t
    using assms that by (simp add: log_ok_def Let_def)
  ultimately show ?thesis
    using assms by (simp add: alloc_inv_def store_ok_def dirty_ok_def exact_but_def free_clean_def logs_ok_def)
qed

lemma set_type_frame [simp]:
  "sentries (set_sit_entry_type ty x md si) = (sentries si)(x := (sentries si x)\<lparr>se_type := ty\<rparr>)"
  "written_valid_blocks (set_sit_entry_type ty x md si) = written_valid_blocks si"
  "sec_entries (set_sit_entry_type ty x md si) = sec_entries si"
  by (simp_all add: set_sit_entry_type_def put_seg_entry_def Let_def)

lemma seg_type_irrelevant [simp]:
  "seg_ok L g (se\<lparr>se_type := ty\<rparr>) = seg_ok L g se" "nvalid g (se\<lparr>se_type := ty\<rparr>) = nvalid g se"
  "unused (se\<lparr>se_type := ty\<rparr>) i = unused se i"
  by (simp_all add: seg_ok_def nvalid_def unused_def)

lemma nvalid_type_upd [simp]:
  "nvalid g (if i = x then (f x)\<lparr>se_type := ty\<rparr> else f i) = nvalid g (f i)"
  by simp

lemma set_type_sit_ok:
  assumes "sit_ok L g si" and "x < main_segments g"
  shows "sit_ok L g (set_sit_entry_type ty x md si)"
proof -
  let ?si = "put_seg_entry x ((sentries si x)\<lparr>se_type := ty\<rparr>) si"
  have d: "dirty_sentries si = of_nat (count_bits (dirty_sentries_bitmap si) (main_segments g))"
    using assms(1) by (simp add: sit_ok_def)
  then have "dirty_sentries (set_sit_entry_type ty x md si) =
      of_nat (count_bits (dirty_sentries_bitmap (set_sit_entry_type ty x md si)) (main_segments g))"
    using mark_dirty_count [OF assms(2), of ?si]
    by (simp add: set_sit_entry_type_def Let_def) (simp add: put_seg_entry_def)
  then show ?thesis
    using assms(1) by (simp add: sit_ok_def fun_upd_apply cong: if_cong)
qed

lemma switch_log:
  assumes "geom_ok L g" and inv: "alloc_inv L g X s" and ty: "ty < 6" and x: "x < main_segments g"
    and nc: "\<not> IS_CURSEG s x"
    and sit: "sit_i s' = set_sit_entry_type ty x True (sit_i s)"
    and free: "free_i s' = set_test_and_inuse g x (free_i s)"
    and cs: "cursegs s' = (cursegs s)(ty := c)" and seg: "cs_segno c = x"
    and off: "next_blkoff c \<le> blocks_per_seg g"
    and space: "alloc_type c = LFS \<and> (\<forall>i<blocks_per_seg g. next_blkoff c \<le> i \<longrightarrow> unused (sentries (sit_i s) x) i) \<or>
      alloc_type c = SSR \<and> (next_blkoff c < blocks_per_seg g \<longrightarrow> unused (sentries (sit_i s) x) (next_blkoff c))"
    and dirty: "dirty_ok g (s\<lparr>dirty_i := dirty_i s'\<rparr>)" "\<not> dirty_segmap (dirty_i s') DIRTY x"
    and same: "\<And>y. y < main_segments g \<Longrightarrow> y \<noteq> x \<Longrightarrow>
      dirty_segmap (dirty_i s') DIRTY y = dirty_segmap (dirty_i s) DIRTY y"
  shows "alloc_inv L g (insert (cs_segno (cursegs s ty)) X) s'"
proof -
  note D = alloc_invD [OF inv]
  have segs: "cs_segno (cursegs s' t) = (if t = ty then x else cs_segno (cursegs s t))" for t
    by (simp add: cs seg)
  have ne: "cs_segno (cursegs s t) \<noteq> x" if "t < 6" for t using nc that by (auto simp: IS_CURSEG_iff)
  have "sit_ok L g (sit_i s')"
    unfolding sit using D(1) x by (intro set_type_sit_ok) (simp_all add: store_ok_def)
  moreover have "dirty_ok g s'"
  proof -
    have "dirty_types g (sentries (sit_i s)) (dirty_segmap (dirty_i s'))"
      using dirty(1) by (simp add: dirty_ok_iff)
    then have "dirty_types g (sentries (sit_i s')) (dirty_segmap (dirty_i s'))"
      using dirty(2) ty by (simp add: dirty_types_def sit)
    then show ?thesis using dirty(1) by (simp add: dirty_ok_iff)
  qed
  moreover have "exact_but g (insert (cs_segno (cursegs s ty)) X) s'"
    unfolding exact_but_def
  proof (intro allI impI, elim conjE)
    fix y
    assume y: "y < main_segments g" "y \<notin> insert (cs_segno (cursegs s ty)) X" "\<not> IS_CURSEG s' y"
    have yx: "y \<noteq> x" using y(3) ty segs by (auto simp: IS_CURSEG_iff)
    have "cs_segno (cursegs s t) \<noteq> y" if "t < 6" for t
      using y(2,3) that segs [of t] by (cases "t = ty") (auto simp: IS_CURSEG_iff)
    then have "\<not> IS_CURSEG s y" by (auto simp: IS_CURSEG_iff)
    then show "dirty_segmap (dirty_i s') DIRTY y \<longleftrightarrow>
        0 < nvalid g (sentries (sit_i s') y) \<and> nvalid g (sentries (sit_i s') y) < blocks_per_seg g"
      using D(2) y(1,2) yx same [OF y(1) yx] by (simp add: exact_but_def sit)
  qed
  moreover have "free_ok g (free_i s')"
    unfolding free by (rule free_ok_test_and_inuse [OF D(3) x])
  moreover have "free_clean g s'"
    using D(4) by (auto simp: free_clean_def free sit)
  moreover have "logs_ok g s'"
    unfolding logs_ok_def
  proof (intro conjI allI impI)
    fix t :: nat assume t: "t < 6"
    show "log_ok g s' t"
    proof (cases "t = ty")
      case True
      then show ?thesis
        using x off space by (simp add: log_ok_def Let_def cs seg sit free)
    next
      case False
      have "log_ok g s t" using D(5) t by (simp add: logs_ok_def)
      then show ?thesis
        using False ne [OF t] by (simp add: log_ok_def Let_def cs sit free)
    qed
    fix u :: nat assume u: "u < 6" and eq: "cs_segno (cursegs s' t) = cs_segno (cursegs s' u)"
    show "t = u"
      using D(5) eq segs [of t] segs [of u] ne [OF t] ne [OF u] t u
      by (auto simp: logs_ok_def split: if_splits)
  qed
  ultimately show ?thesis by (simp add: alloc_inv_def store_ok_def)
qed

definition same_maps :: "sit_info \<Rightarrow> sit_info \<Rightarrow> bool" where
  "same_maps si si' \<longleftrightarrow> (\<forall>x. cur_valid_map (sentries si' x) = cur_valid_map (sentries si x) \<and>
     ckpt_valid_map (sentries si' x) = ckpt_valid_map (sentries si x))"

lemma same_maps_valid: "same_maps si si' \<Longrightarrow> valid_set L g si' = valid_set L g si"
  by (simp add: same_maps_def valid_set_def)

lemma same_maps_trans: "same_maps a b \<Longrightarrow> same_maps b c \<Longrightarrow> same_maps a c"
  by (simp add: same_maps_def)

lemma same_maps_refl [simp]: "same_maps a a"
  by (simp add: same_maps_def)

lemma set_type_same_maps: "same_maps si (set_sit_entry_type ty x md si)"
  by (simp add: same_maps_def)

definition sum_blk_of_type :: "nat \<times> nat \<Rightarrow> nat \<Rightarrow> summary_block \<Rightarrow> summary_block" where
  "sum_blk_of_type stypes ty b =
     (let b = b\<lparr>sum_type := 0\<rparr>;
          b = (if ty \<le> CURSEG_COLD_DATA then b\<lparr>sum_type := fst stypes\<rparr> else b)
      in if ty \<ge> CURSEG_HOT_NODE then b\<lparr>sum_type := snd stypes\<rparr> else b)"

lemma sum_type_entries [simp]: "sum_entries (sum_blk_of_type stypes ty b) = sum_entries b"
  by (simp add: sum_blk_of_type_def Let_def)

lemma reset_curseg_eq:
  "reset_curseg g stypes ty modified s =
     (let c = cursegs s ty; x = next_segno c
      in s\<lparr>cursegs := (cursegs s)(ty := c\<lparr>cs_segno := x, cs_zone := GET_ZONENO_FROM_SEGNO g x,
             next_blkoff := 0, next_segno := NULL_SEGNO, sum_blk := sum_blk_of_type stypes ty (sum_blk c)\<rparr>),
           sit_i := set_sit_entry_type ty x modified (sit_i s)\<rparr>)"
  by (simp add: reset_curseg_def Let_def put_curseg_def sum_blk_of_type_def)

text \<open>What switching a log does: \<open>old\<close> is the segment it leaves.\<close>

definition switched :: "layout \<Rightarrow> geom \<Rightarrow> nat \<Rightarrow> sb_info \<Rightarrow> sb_info \<Rightarrow> bool" where
  "switched L g ty s s' \<longleftrightarrow>
     alloc_inv L g {cs_segno (cursegs s ty)} s' \<and> same_maps (sit_i s) (sit_i s') \<and>
     next_blkoff (cursegs s' ty) < blocks_per_seg g \<and>
     \<not> IS_CURSEG s (cs_segno (cursegs s' ty)) \<and>
     (\<forall>t. t \<noteq> ty \<longrightarrow> cursegs s' t = cursegs s t) \<and> s_flag s' = s_flag s \<and>
     (\<forall>y. free_segmap (free_i s) y \<longrightarrow> free_segmap (free_i s') y) \<and>
     sum_pages s' (GET_SUM_BLOCK g (cs_segno (cursegs s ty))) = sum_blk (cursegs s ty)"

lemma new_curseg_spec:
  assumes "geom_ok L g" and "alloc_inv L g {} s" and "ty < 6"
    and "c < total_sections g" and "\<not> free_secmap (free_i s) c"
  shows "switched L g ty s (new_curseg g stypes ty new_sec s)"
proof -
  let ?c = "cursegs s ty" and ?s' = "new_curseg g stypes ty new_sec s"
  define s1 where "s1 = write_sum_page (sum_blk ?c) (GET_SUM_BLOCK g (cs_segno ?c)) s"
  define dir where "dir = (if test_opt (mount_opt s1) MOUNT_NOHEAP then ALLOC_RIGHT else
      (if ty = CURSEG_WARM_DATA \<or> ty = CURSEG_COLD_DATA then ALLOC_RIGHT else ALLOC_LEFT))"
  obtain x s2 where gn: "get_new_segment g (cs_segno ?c) new_sec dir s1 = (x, s2)" by (meson surj_pair)
  have f1: "free_i s1 = free_i s" by (simp add: s1_def write_sum_page_def)
  have old: "cs_segno ?c < main_segments g"
    using alloc_invD(5) [OF assms(2)] assms(3) by (simp add: logs_ok_def log_ok_def Let_def)
  have x: "x < main_segments g" "\<not> free_segmap (free_i s) x"
      "s2 = s1\<lparr>free_i := set_test_and_inuse g x (free_i s1)\<rparr>"
    using get_new_segment_spec [OF assms(1) _ old assms(4) _ gn] alloc_invD(3) [OF assms(2)] assms(5) f1
    by simp_all
  define c' where "c' = ?c\<lparr>cs_segno := x, cs_zone := GET_ZONENO_FROM_SEGNO g x, next_blkoff := 0,
      next_segno := NULL_SEGNO, sum_blk := sum_blk_of_type stypes ty (sum_blk ?c), alloc_type := LFS\<rparr>"
  have s': "?s' = s1\<lparr>free_i := set_test_and_inuse g x (free_i s), cursegs := (cursegs s)(ty := c'),
      sit_i := set_sit_entry_type ty x True (sit_i s)\<rparr>"
    unfolding new_curseg_def Let_def s1_def [symmetric] dir_def [symmetric] gn prod.case reset_curseg_eq
    by (simp add: x(3) f1 put_curseg_def c'_def s1_def write_sum_page_def)
  note cl = free_segment_clean [OF assms(1,2) x(1,2)]
  have "0 < blocks_per_seg g" using geom_blocks [OF assms(1)] by simp
  have nd: "\<not> dirty_segmap (dirty_i s) DIRTY x"
    using alloc_invD(2) [OF assms(2)] x(1) cl(2,3) by (simp add: exact_but_def)
  have di: "dirty_i ?s' = dirty_i s" by (simp add: s' s1_def write_sum_page_def)
  have cs: "cursegs ?s' = (cursegs s)(ty := c')" and seg: "cs_segno c' = x" and lfs: "alloc_type c' = LFS"
    and off: "next_blkoff c' = 0"
    by (simp_all add: s' c'_def)
  have "alloc_inv L g (insert (cs_segno (cursegs s ty)) {}) ?s'"
  proof (rule switch_log [OF assms(1,2,3) x(1) cl(3) _ _ cs seg])
    show "dirty_ok g (s\<lparr>dirty_i := dirty_i ?s'\<rparr>)"
      using alloc_invD(1) [OF assms(2)] by (simp add: di store_ok_def)
  qed (use s' lfs off cl(1) nd di in simp_all)
  moreover have "sum_pages ?s' (GET_SUM_BLOCK g (cs_segno ?c)) = sum_blk ?c"
    by (simp add: s' s1_def write_sum_page_def)
  ultimately show ?thesis
    using cl(3) \<open>0 < blocks_per_seg g\<close>
    by (simp add: switched_def cs seg off) (simp add: s' same_maps_def s1_def write_sum_page_def)
qed

text \<open>A segment the victim selection may hand to a log that writes in SSR mode.\<close>

definition ssr_usable :: "geom \<Rightarrow> sb_info \<Rightarrow> nat \<Rightarrow> bool" where
  "ssr_usable g s x \<longleftrightarrow> x < main_segments g \<and> \<not> IS_CURSEG s x \<and>
     unat (ckpt_valid_blocks (sentries (sit_i s) x)) < blocks_per_seg g"

lemma remove_dirty_frame:
  "sit_i (remove_dirty g t x s) = sit_i s" "cursegs (remove_dirty g t x s) = cursegs s"
  "free_i (remove_dirty g t x s) = free_i s" "sum_pages (remove_dirty g t x s) = sum_pages s"
  "s_flag (remove_dirty g t x s) = s_flag s"
  by (simp_all add: remove_dirty_def Let_def)

lemma unused_exists:
  assumes "geom_ok L g" and "seg_ok L g se" and "unat (ckpt_valid_blocks se) < blocks_per_seg g"
  shows "\<exists>i<blocks_per_seg g. unused se i"
proof (rule ccontr)
  let ?u = "\<lambda>i. byte_bit (cur_valid_map se) i \<or> byte_bit (ckpt_valid_map se) i"
  assume "\<not> ?thesis"
  then have "{i. i < blocks_per_seg g \<and> ?u i} = {..<blocks_per_seg g}" by (auto simp: unused_def)
  then have "count_bits ?u (blocks_per_seg g) = blocks_per_seg g" by (simp add: count_bits_def)
  moreover have "unat (of_nat (blocks_per_seg g) :: u16) = blocks_per_seg g"
    using geom_blocks [OF assms(1)] by (intro unat_of_nat_small) simp
  ultimately show False using assms(2,3) by (simp add: seg_ok_def)
qed

lemma change_curseg_spec:
  assumes "layout_ok L" and "geom_ok L g" and inv: "alloc_inv L g {} s" and "ty < 6"
    and use: "ssr_usable g s (next_segno (cursegs s ty))"
  shows "switched L g ty s (change_curseg g stypes ty True s)"
proof -
  let ?c = "cursegs s ty" and ?s' = "change_curseg g stypes ty True s"
  define x where "x = next_segno ?c"
  note u = use [folded x_def, unfolded ssr_usable_def]
  let ?se = "sentries (sit_i s) x"
  have se: "seg_ok L g ?se" and ty: "se_type ?se < 6"
    using alloc_invD(1) [OF inv] u by (simp_all add: store_ok_def sit_ok_def dirty_ok_def)
  define s2 where "s2 = s\<lparr>sum_pages := (sum_pages s)(GET_SUM_BLOCK g (cs_segno ?c) := sum_blk ?c),
      free_i := set_test_and_inuse g x (free_i s)\<rparr>"
  define s4 where "s4 = remove_dirty g DIRTY x (remove_dirty g PRE x s2)"
  have s4: "sit_i s4 = sit_i s" "cursegs s4 = cursegs s" "free_i s4 = set_test_and_inuse g x (free_i s)"
    "sum_pages s4 = (sum_pages s)(GET_SUM_BLOCK g (cs_segno ?c) := sum_blk ?c)" "s_flag s4 = s_flag s"
    by (simp_all add: s4_def s2_def remove_dirty_frame)
  have map4: "dirty_segmap (dirty_i s4) =
     (\<lambda>t. if t = PRE \<or> t = DIRTY \<or> t = se_type ?se then (dirty_segmap (dirty_i s) t)(x := False)
          else dirty_segmap (dirty_i s) t)"
    using ty by (auto simp: s4_def remove_dirty_map remove_dirty_frame s2_def)
  define pos where "pos = find_rev_next_zero_bit (merged_map ?se) (blocks_per_seg g) 0"
  have pos: "pos < blocks_per_seg g" "unused ?se pos"
  proof -
    obtain i where i: "i < blocks_per_seg g" "unused ?se i"
      using unused_exists [OF assms(2) se] u by blast
    have "pos \<le> i" using free_offset(3) [OF assms(1,2) se pos_def _ i(1)] i(2) by (simp add: unused_def)
    then show "pos < blocks_per_seg g" using i(1) by simp
    then show "unused ?se pos"
      using free_offset(2) [OF assms(1,2) se pos_def] by (simp add: unused_def)
  qed
  define b where "b = sum_blk_of_type stypes ty (sum_blk ?c)"
  define c' where "c' = ?c\<lparr>cs_segno := x, cs_zone := GET_ZONENO_FROM_SEGNO g x, next_segno := NULL_SEGNO,
      alloc_type := SSR, next_blkoff := pos, sum_blk := b\<lparr>sum_entries := sum_entries (sum_pages s4 (GET_SUM_BLOCK g x))\<rparr>\<rparr>"
  have s': "?s' = s4\<lparr>sit_i := set_sit_entry_type ty x True (sit_i s), cursegs := (cursegs s)(ty := c')\<rparr>"
    unfolding change_curseg_def Let_def x_def [symmetric] write_sum_page_def
    by (simp add: s2_def [symmetric]
        s4_def [symmetric] reset_curseg_eq put_curseg_def next_free_blkoff_def s4 b_def [symmetric] pos_def
        merged_map_def c'_def get_sum_page_def Let_def x_def [symmetric])
  have c': "cs_segno c' = x" "next_blkoff c' = pos" "alloc_type c' = SSR"
    by (simp_all add: c'_def)
  have "dirty_ok g s2" using alloc_invD(1) [OF inv] by (simp add: store_ok_def dirty_ok_def s2_def)
  then have dok: "dirty_ok g s4"
    unfolding s4_def using u by (intro remove_dirty_ok) simp_all
  have "alloc_inv L g (insert (cs_segno (cursegs s ty)) {}) ?s'"
  proof (rule switch_log [OF assms(2) inv assms(4) _ _ _ _ _ c'(1)])
    show "dirty_ok g (s\<lparr>dirty_i := dirty_i ?s'\<rparr>)"
      using dok by (simp add: s' dirty_ok_iff s4)
  qed (use u s' s4 map4 c' pos ty in simp_all)
  then show ?thesis
    using u pos by (simp add: switched_def s' s4 c' same_maps_def)
qed


section \<open>The interface of victim selection\<close>

text \<open>
  What the allocator relies on in \<open>DIRTY_I(sbi)->v_ops->get_victim\<close>: only the position of the
  search is changed, and a segment handed to an SSR log is usable. The laws need no assumption on
  the state, so they hold at every call.
\<close>

locale ssr_provider =
  fixes L :: layout and g :: geom and v_ops :: victim_ops
  assumes select: "geom_ok L g \<Longrightarrow> v_ops s r BG_GC ty SSR = (ok, x, s') \<Longrightarrow>
      (\<exists>lv. s' = s\<lparr>last_victim := lv\<rparr>) \<and> (ok \<longrightarrow> ssr_usable g s x)"
begin

definition searched :: "nat \<Rightarrow> sb_info \<Rightarrow> sb_info \<Rightarrow> bool" where
  "searched slot s s' \<longleftrightarrow> (\<exists>lv x. s' = s\<lparr>last_victim := lv,
     cursegs := (cursegs s)(slot := (cursegs s slot)\<lparr>next_segno := x\<rparr>)\<rparr>)"

lemma searched_trans: "searched slot s s1 \<Longrightarrow> searched slot s1 s2 \<Longrightarrow> searched slot s s2"
  unfolding searched_def by force

lemma searched_facts:
  assumes "searched slot s s'"
  shows "sit_i s' = sit_i s" "free_i s' = free_i s" "dirty_i s' = dirty_i s" "s_flag s' = s_flag s"
    "cs_segno (cursegs s' t) = cs_segno (cursegs s t)" "next_blkoff (cursegs s' t) = next_blkoff (cursegs s t)"
    "alloc_type (cursegs s' t) = alloc_type (cursegs s t)" "sum_blk (cursegs s' t) = sum_blk (cursegs s t)"
    "t \<noteq> slot \<Longrightarrow> cursegs s' t = cursegs s t" "IS_CURSEG s' x = IS_CURSEG s x"
  using assms by (auto simp: searched_def IS_CURSEG_iff)

lemma try_victim_spec:
  assumes "geom_ok L g" and "try_victim v_ops slot ty s = (ok, s')"
  shows "searched slot s s' \<and> (ok \<longrightarrow> ssr_usable g s' (next_segno (cursegs s' slot)))"
proof -
  obtain x s1 where v: "v_ops s (next_segno (cursegs s slot)) BG_GC ty SSR = (ok, x, s1)"
      and s': "s' = put_curseg slot ((cursegs s1 slot)\<lparr>next_segno := x\<rparr>) s1"
    using assms(2) by (auto simp: try_victim_def split: prod.splits)
  obtain lv where s1: "s1 = s\<lparr>last_victim := lv\<rparr>" and ok: "ok \<longrightarrow> ssr_usable g s x"
    using select [OF assms(1) v] by blast
  have "searched slot s s'" by (auto simp: searched_def s' s1 put_curseg_def)
  moreover from this ok have "ok \<longrightarrow> ssr_usable g s' x"
    by (simp add: ssr_usable_def searched_facts)
  ultimately show ?thesis by (simp add: s' put_curseg_def)
qed

lemma ssr_data_loop_spec:
  assumes "geom_ok L g"
  shows "ssr_data_loop v_ops slot ty s = (ok, s') \<Longrightarrow>
    searched slot s s' \<and> (ok \<longrightarrow> ssr_usable g s' (next_segno (cursegs s' slot)))"
proof (induction ty arbitrary: s)
  case 0
  then show ?case using try_victim_spec [OF assms, of slot 0] by simp
next
  case (Suc ty)
  obtain ok1 s1 where t: "try_victim v_ops slot (Suc ty) s = (ok1, s1)" by fastforce
  note u = try_victim_spec [OF assms t]
  show ?case
  proof (cases ok1)
    case True
    then show ?thesis using Suc.prems t u by simp
  next
    case False
    then have "ssr_data_loop v_ops slot ty s1 = (ok, s')" using Suc.prems t by simp
    then show ?thesis using Suc.IH u searched_trans by blast
  qed
qed

lemma get_ssr_segment_spec:
  assumes "geom_ok L g" and "get_ssr_segment g v_ops ty s = (ok, s')"
  shows "searched ty s s' \<and> (ok \<longrightarrow> ssr_usable g s' (next_segno (cursegs s' ty)))"
  using assms(2) try_victim_spec [OF assms(1)] ssr_data_loop_spec [OF assms(1)]
  unfolding get_ssr_segment_def by (metis (full_types))

lemma switched_searched:
  assumes "searched ty s s1" and "switched L g ty s1 s'"
  shows "switched L g ty s s'"
  using assms(2) unfolding switched_def searched_facts [OF assms(1)]
  using searched_facts(9) [OF assms(1)] by simp

lemma allocate_segment_switches:
  assumes "layout_ok L" and "geom_ok L g" and inv: "alloc_inv L g {} s" and ty: "ty < 6"
    and sec: "c < total_sections g" "\<not> free_secmap (free_i s) c"
  shows "switched L g ty s (allocate_segment_by_default g v_ops stypes ty force s)"
proof -
  note new = new_curseg_spec [OF assms(2) inv ty sec]
  obtain ok s1 where r: "get_ssr_segment g v_ops ty s = (ok, s1)" by fastforce
  note sp = get_ssr_segment_spec [OF assms(2) r]
  note fr = searched_facts [OF sp [THEN conjunct1]]
  have inv1: "alloc_inv L g {} s1"
    using inv alloc_inv_cong [where L = L and g = g and X = "{}", OF fr(1-3)] fr(5-7) by simp
  have sec1: "\<not> free_secmap (free_i s1) c" using sec(2) fr(2) by simp
  have "switched L g ty s1 (if ok then change_curseg g stypes ty True s1 else new_curseg g stypes ty False s1)"
    using change_curseg_spec [OF assms(1,2) inv1 ty] new_curseg_spec [OF assms(2) inv1 ty sec(1) sec1] sp
    by simp
  then have "switched L g ty s (if ok then change_curseg g stypes ty True s1 else new_curseg g stypes ty False s1)"
    using switched_searched sp by blast
  then show ?thesis
    using new unfolding allocate_segment_by_default_def Let_def r prod.case by (simp only: split: if_split) simp
qed

end

interpretation ssr: ssr_provider L g "default_v_ops g gc_th" for L g gc_th
proof unfold_locales
  fix s r ty ok x s'
  assume g: "geom_ok L g" and v: "default_v_ops g gc_th s r BG_GC ty SSR = (ok, x, s')"
  obtain seg lv where gv: "get_victim_by_default g gc_th s r BG_GC ty SSR =
      (let s = s\<lparr>last_victim := (last_victim s)(1 := lv)\<rparr>
       in Some (if seg = NULL_SEGNO then (False, r, s) else (True, seg, s)))"
    and ok: "seg = NULL_SEGNO \<or> seg \<in> members g ty s \<and> eligible g BG_GC s seg \<and>
       unat (ckpt_valid_blocks (sentries (sit_i s) seg)) < blocks_per_seg g"
    using ssr_victim_spec [OF g, of gc_th s r ty] by blast
  have "ssr_usable g s seg" if "seg \<noteq> NULL_SEGNO"
  proof -
    have e: "\<not> IS_CURSEC g s (GET_SECNO g seg)" and "seg < main_segments g"
      using ok that by (simp_all add: eligible_def sec_usage_check_def members_def)
    moreover have "\<not> IS_CURSEG s seg"
      using e by (auto simp: IS_CURSEC_def IS_CURSEG_iff list_ex_iff GET_SECNO_def)
    ultimately show ?thesis using ok that by (simp add: ssr_usable_def)
  qed
  then show "(\<exists>lv. s' = s\<lparr>last_victim := lv\<rparr>) \<and> (ok \<longrightarrow> ssr_usable g s x)"
    using v gv by (auto simp: default_v_ops_def Let_def split: if_splits)
qed

end
