(* ===== verification/Block_Alloc.thy ===== *)
theory Block_Alloc imports Curseg begin

text \<open>
  Block allocation as a whole (\<open>allocate_data_block\<close>, \<open>segment.c\<close>): the block given out is free, the
  invariant of segments, lists and logs is kept, whether the log goes on, switches to a free segment or
  reuses one.
\<close>

text \<open>
  \<open>allocate_data_block\<close> of segment.c, the path every block write takes: what one allocation
  guarantees about the block it hands out, the valid-block maps, the summary entries and the logs.
  The definitions are in \<open>Curseg\<close>; here are the proofs, for any victim selection that meets the
  contract \<open>ssr_provider\<close>, and for the selection of gc.c by its interpretation.
\<close>


section \<open>The SIT update of an allocation\<close>

lemma update_sit_entry_frame:
  "ckpt_valid_map (sentries (sit_i (update_sit_entry L g a del s)) y) = ckpt_valid_map (sentries (sit_i s) y)"
  "se_type (sentries (sit_i (update_sit_entry L g a del s)) y) = se_type (sentries (sit_i s) y)"
  "y \<noteq> GET_SEGNO L g a \<Longrightarrow> sentries (sit_i (update_sit_entry L g a del s)) y = sentries (sit_i s) y"
  by (simp_all add: update_sit_entry_eq [OF refl refl] seg_update_def f2fs_bug_on_def)

lemma locate_dirty_segment_keeps:
  "sit_i (locate_dirty_segment g x s) = sit_i s" "sum_pages (locate_dirty_segment g x s) = sum_pages s"
  by (simp_all add: locate_dirty_segment_def locate_dirty_def remove_dirty_def Let_def f2fs_bug_on_def
      set_sbi_flag_def)

lemma update_sit_entry_sums: "sum_pages (update_sit_entry L g a del s) = sum_pages s"
  unfolding update_sit_entry_eq [OF refl refl] f2fs_bug_on_def by (simp add: set_sbi_flag_def)

lemma refresh_sit_entry_frame:
  "ckpt_valid_map (sentries (sit_i (refresh_sit_entry L g old new s)) y) = ckpt_valid_map (sentries (sit_i s) y)"
  "se_type (sentries (sit_i (refresh_sit_entry L g old new s)) y) = se_type (sentries (sit_i s) y)"
  "y \<noteq> GET_SEGNO L g new \<Longrightarrow> GET_SEGNO L g old \<noteq> NULL_SEGNO \<Longrightarrow> y \<noteq> GET_SEGNO L g old \<Longrightarrow>
     sentries (sit_i (refresh_sit_entry L g old new s)) y = sentries (sit_i s) y"
  "y \<noteq> GET_SEGNO L g new \<Longrightarrow> GET_SEGNO L g old = NULL_SEGNO \<Longrightarrow>
     sentries (sit_i (refresh_sit_entry L g old new s)) y = sentries (sit_i s) y"
  unfolding refresh_sit_entry_def Let_def locate_dirty_segment_keeps by (simp_all add: update_sit_entry_frame)

lemma unused_iff:
  assumes "geom_ok L g" and "x < main_segments g" and "i < blocks_per_seg g"
  shows "unused (sentries si x) i \<longleftrightarrow> START_BLOCK g x + of_nat i \<notin> valid_set L g si \<and>
    \<not> byte_bit (ckpt_valid_map (sentries si x)) i"
  using GET_SEGNO_START_BLOCK [OF assms] GET_BLKOFF_START_BLOCK [OF assms] START_BLOCK_in_main [OF assms]
  by (simp add: unused_def valid_set_def)

lemma valid_segment_used:
  assumes "geom_ok L g" and "alloc_inv L g X s" and "a \<in> valid_set L g (sit_i s)"
  shows "free_segmap (free_i s) (GET_SEGNO L g a)"
proof (rule ccontr)
  assume f: "\<not> ?thesis"
  have a: "in_main g a" using assms(3) by (simp add: valid_set_def)
  note m = main_addr(1,2) [OF assms(1) a]
  show False
    using free_segment_clean(1) [OF assms(1,2) m(1) f m(2)] assms(3) by (simp add: unused_def valid_set_def)
qed

lemma refresh_alloc_inv:
  assumes g: "geom_ok L g" and inv: "alloc_inv L g X s"
    and new: "in_main g new" "new \<notin> valid_set L g (sit_i s)" "free_segmap (free_i s) (GET_SEGNO L g new)"
    and old: "old \<in> valid_set L g (sit_i s) \<or> old = null_addr L \<or> old = new_addr L"
    and past: "\<And>t. t < 6 \<Longrightarrow> cs_segno (cursegs s t) = GET_SEGNO L g new \<Longrightarrow>
      GET_BLKOFF_FROM_SEG0 g new < next_blkoff (cursegs s t)"
    and s': "s' = refresh_sit_entry L g old new s"
  shows "alloc_inv L g (X - {GET_SEGNO L g new}) s'"
    and "valid_set L g (sit_i s') = insert new (valid_set L g (sit_i s)) - {old}"
    and "s_flag s' = s_flag s" and "cursegs s' = cursegs s"
    and "ckpt_valid_map (sentries (sit_i s') y) = ckpt_valid_map (sentries (sit_i s) y)"
    and "sum_pages s' = sum_pages s"
proof -
  note D = alloc_invD [OF inv]
  have st: "sit_ok L g (sit_i s)" "dirty_ok g s" using D(1) by (simp_all add: store_ok_def)
  note r = refresh_sit_entry_spec [OF g st D(2) new(1,2) old s']
  show v: "valid_set L g (sit_i s') = insert new (valid_set L g (sit_i s)) - {old}"
    and fl: "s_flag s' = s_flag s" and cs: "cursegs s' = cursegs s"
    using r by blast+
  have fr: "free_i s' = free_i s" using r by blast
  show ck: "ckpt_valid_map (sentries (sit_i s') y) = ckpt_valid_map (sentries (sit_i s) y)" for y
    by (simp add: s' refresh_sit_entry_frame)
  show "sum_pages s' = sum_pages s"
    unfolding s' refresh_sit_entry_def Let_def locate_dirty_segment_keeps
    by (simp add: update_sit_entry_sums)
  have ty: "se_type (sentries (sit_i s') y) = se_type (sentries (sit_i s) y)" for y
    by (simp add: s' refresh_sit_entry_frame)
  have keep: "unused (sentries (sit_i s') x) i"
    if "x < main_segments g" "i < blocks_per_seg g" "unused (sentries (sit_i s) x) i"
      "START_BLOCK g x + of_nat i \<noteq> new" for x i
    using that(3,4) unfolding unused_iff [OF g that(1,2)] v ck by blast
  have "free_clean g s'"
    unfolding free_clean_def
  proof (intro allI impI)
    fix x assume x: "x < main_segments g" "\<not> free_segmap (free_i s') x"
    have "x \<noteq> GET_SEGNO L g new" using x(2) new(3) fr by auto
    moreover have "x \<noteq> GET_SEGNO L g old" if "GET_SEGNO L g old \<noteq> NULL_SEGNO"
    proof -
      have "old \<in> valid_set L g (sit_i s)" using old that by (auto simp: GET_SEGNO_def)
      then show ?thesis using valid_segment_used [OF g inv] x(2) fr by metis
    qed
    ultimately have "sentries (sit_i s') x = sentries (sit_i s) x"
      unfolding s' by (cases "GET_SEGNO L g old = NULL_SEGNO") (simp_all only: refresh_sit_entry_frame simp_thms)
    then show "ckpt_valid_blocks (sentries (sit_i s') x) = 0"
      using D(4) x fr by (simp add: free_clean_def)
  qed
  moreover have "logs_ok g s'"
    unfolding logs_ok_def
  proof (intro conjI allI impI)
    fix t :: nat assume t: "t < 6"
    let ?c = "cursegs s t"
    have l: "log_ok g s t" using D(5) t by (simp add: logs_ok_def)
    then have x: "cs_segno ?c < main_segments g" by (simp add: log_ok_def Let_def)
    have ne: "START_BLOCK g (cs_segno ?c) + of_nat i \<noteq> new" if "i < blocks_per_seg g" "next_blkoff ?c \<le> i" for i
      using GET_SEGNO_START_BLOCK [OF g x that(1)] GET_BLKOFF_START_BLOCK [OF g x that(1)] past [OF t] that(2)
      by auto
    show "log_ok g s' t"
      using l keep [OF x] ne unfolding log_ok_def Let_def cs fr ty by auto
    fix u :: nat assume "u < 6" "cs_segno (cursegs s' t) = cs_segno (cursegs s' u)"
    then show "t = u" using D(5) t cs by (simp add: logs_ok_def)
  qed
  ultimately show "alloc_inv L g (X - {GET_SEGNO L g new}) s'"
    using r D(3) fr by (simp add: alloc_inv_def store_ok_def)
qed


section \<open>One allocation\<close>

text \<open>The summary entry of a block: in its log while the segment is current, else in the SSA.\<close>

definition sum_entry_at :: "geom \<Rightarrow> sb_info \<Rightarrow> nat \<Rightarrow> nat \<Rightarrow> f2fs_summary" where
  "sum_entry_at g s x i =
     sum_entries (case find (\<lambda>t. cs_segno (cursegs s t) = x) [0..<6] of
         Some t \<Rightarrow> sum_blk (cursegs s t) | None \<Rightarrow> sum_pages s (GET_SUM_BLOCK g x)) ! i"

lemma sum_entry_in_log:
  assumes "logs_ok g s" and "t < 6"
  shows "sum_entry_at g s (cs_segno (cursegs s t)) i = sum_entries (sum_blk (cursegs s t)) ! i"
proof -
  have ne: "cs_segno (cursegs s j) \<noteq> cs_segno (cursegs s t)" if "j < t" for j
    using assms that unfolding logs_ok_def by (metis less_trans less_irrefl)
  have "find (\<lambda>u. cs_segno (cursegs s u) = cs_segno (cursegs s t)) [0..<6] = Some t"
    unfolding find_Some_iff using assms(2) ne by (intro exI [of _ t]) auto
  then show ?thesis by (simp add: sum_entry_at_def)
qed

lemma sum_entry_in_page:
  assumes "\<And>t. t < 6 \<Longrightarrow> cs_segno (cursegs s t) \<noteq> x"
  shows "sum_entry_at g s x i = sum_entries (sum_pages s (GET_SUM_BLOCK g x)) ! i"
proof -
  have "find (\<lambda>u. cs_segno (cursegs s u) = x) [0..<6] = None"
    unfolding find_None_iff using assms by auto
  then show ?thesis by (simp add: sum_entry_at_def)
qed

text \<open>The write position moves past the block just taken.\<close>

lemma refresh_next_blkoff_spec:
  assumes "layout_ok L" and "geom_ok L g" and inv: "alloc_inv L g {} s" and ty: "ty < 6"
    and room: "next_blkoff (cursegs s ty) < blocks_per_seg g"
    and s': "s' = refresh_next_blkoff g ty (add_sum_entry ty sm s)"
  shows "\<exists>n. next_blkoff (cursegs s ty) < n \<and> n \<le> blocks_per_seg g \<and>
    s' = s\<lparr>cursegs := (cursegs s)(ty := (cursegs s ty)\<lparr>sum_blk := (sum_blk (cursegs s ty))
      \<lparr>sum_entries := (sum_entries (sum_blk (cursegs s ty)))[next_blkoff (cursegs s ty) := sm]\<rparr>,
      next_blkoff := n\<rparr>)\<rparr> \<and> alloc_inv L g {} s'"
proof -
  let ?c = "cursegs s ty" and ?b = "\<lambda>n c. c\<lparr>sum_blk := (sum_blk c)
      \<lparr>sum_entries := (sum_entries (sum_blk c))[next_blkoff c := sm]\<rparr>, next_blkoff := n\<rparr>"
  let ?se = "sentries (sit_i s) (cs_segno ?c)"
  note D = alloc_invD [OF inv]
  have l: "log_ok g s ty" using D(5) ty by (simp add: logs_ok_def)
  then have x: "cs_segno ?c < main_segments g" by (simp add: log_ok_def Let_def)
  then have se: "seg_ok L g ?se" using D(1) by (simp add: store_ok_def sit_ok_def)
  define pos where "pos = find_rev_next_zero_bit (merged_map ?se) (blocks_per_seg g) (next_blkoff ?c + 1)"
  define n where "n = (if alloc_type ?c = SSR then pos else next_blkoff ?c + 1)"
  note p = free_offset [OF assms(1,2) se pos_def]
  have e: "s' = s\<lparr>cursegs := (cursegs s)(ty := ?b n ?c)\<rparr>"
    unfolding s' refresh_next_blkoff_def next_free_blkoff_def add_sum_entry_def put_curseg_def Let_def
    by (simp add: n_def pos_def)
  have n: "next_blkoff ?c < n" "n \<le> blocks_per_seg g"
    using p(1,2) room by (cases "pos < blocks_per_seg g"; simp add: n_def)+
  have "logs_ok g s'"
    unfolding logs_ok_def
  proof (intro conjI allI impI)
    fix t :: nat assume t: "t < 6"
    have lt: "log_ok g s t" using D(5) t by (simp add: logs_ok_def)
    show "log_ok g s' t"
    proof (cases "t = ty")
      case True
      have "alloc_type ?c = SSR \<longrightarrow> n < blocks_per_seg g \<longrightarrow> unused ?se n"
        using p(2) by (simp add: n_def unused_def)
      then show ?thesis using l n True by (auto simp: log_ok_def Let_def e)
    qed (use lt in \<open>simp add: log_ok_def Let_def e\<close>)
    fix u :: nat assume "u < 6" "cs_segno (cursegs s' t) = cs_segno (cursegs s' u)"
    then show "t = u" using D(5) t by (simp add: logs_ok_def e split: if_splits)
  qed
  moreover have "IS_CURSEG s' y = IS_CURSEG s y" for y by (auto simp: e IS_CURSEG_iff)
  ultimately have "alloc_inv L g {} s'"
    using D by (simp add: alloc_inv_def e store_ok_def dirty_ok_def exact_but_def free_clean_def)
  then show ?thesis using n e by blast
qed


text \<open>
  What one allocation in the log \<open>ty\<close> promises. The new block is a main-area block that is neither
  valid now nor part of the last checkpoint, it replaces \<open>old\<close> in the set of valid blocks, its
  summary entry is recorded, and the log has room for the next block.
\<close>

definition allocated ::
  "layout \<Rightarrow> geom \<Rightarrow> nat \<Rightarrow> u32 \<Rightarrow> f2fs_summary \<Rightarrow> sb_info \<Rightarrow> u32 \<Rightarrow> sb_info \<Rightarrow> bool" where
  "allocated L g ty old sm s new s' \<longleftrightarrow>
     in_main g new \<and> new \<notin> valid_set L g (sit_i s) \<and>
     \<not> byte_bit (ckpt_valid_map (sentries (sit_i s) (GET_SEGNO L g new))) (GET_BLKOFF_FROM_SEG0 g new) \<and>
     valid_set L g (sit_i s') = insert new (valid_set L g (sit_i s)) - {old} \<and>
     sum_entry_at g s' (GET_SEGNO L g new) (GET_BLKOFF_FROM_SEG0 g new) = sm \<and>
     has_curseg_space g s' ty \<and> alloc_inv L g {} s' \<and> s_flag s' = s_flag s"

context ssr_provider
begin

lemma allocate_in_log:
  assumes "layout_ok L" and g: "geom_ok L g" and inv: "alloc_inv L g {} s" and ty: "ty < 6"
    and room: "has_curseg_space g s ty"
    and entries: "next_blkoff (cursegs s ty) < length (sum_entries (sum_blk (cursegs s ty)))"
    and sec: "\<not> has_curseg_space g s1 ty \<Longrightarrow> \<exists>c<total_sections g. \<not> free_secmap (free_i s) c"
    and old: "old \<in> valid_set L g (sit_i s) \<or> old = null_addr L \<or> old = new_addr L"
    and new: "new = NEXT_FREE_BLKADDR g (cursegs s ty)"
    and s1: "s1 = refresh_next_blkoff g ty (add_sum_entry ty sm s)"
    and s2: "s2 = (if has_curseg_space g s1 ty then s1 else allocate_segment_by_default g v_ops stypes ty False s1)"
    and s': "s' = refresh_sit_entry L g old new s2"
  shows "allocated L g ty old sm s new s'"
proof -
  let ?c = "cursegs s ty"
  define x off where "x = cs_segno ?c" and "off = next_blkoff ?c"
  note D = alloc_invD [OF inv]
  have l: "log_ok g s ty" using D(5) ty by (simp add: logs_ok_def)
  have xo: "x < main_segments g" "off < blocks_per_seg g" "free_segmap (free_i s) x"
    using l room by (simp_all add: x_def off_def log_ok_def Let_def has_curseg_space_def)
  have n: "new = START_BLOCK g x + of_nat off" by (simp add: new NEXT_FREE_BLKADDR_def x_def off_def)
  have nx: "GET_SEGNO L g new = x" "GET_BLKOFF_FROM_SEG0 g new = off" "in_main g new"
    unfolding n using GET_SEGNO_START_BLOCK [OF g xo(1,2)] GET_BLKOFF_START_BLOCK [OF g xo(1,2)]
      START_BLOCK_in_main [OF g xo(1,2)] by simp_all
  have un: "unused (sentries (sit_i s) x) off"
    using l xo(2) by (auto simp: log_ok_def Let_def x_def off_def)
  note unf = un [unfolded unused_iff [OF g xo(1,2)], folded n]
  obtain k where k: "off < k"
      and e1: "s1 = s\<lparr>cursegs := (cursegs s)(ty := ?c\<lparr>sum_blk := (sum_blk ?c)
        \<lparr>sum_entries := (sum_entries (sum_blk ?c))[off := sm]\<rparr>, next_blkoff := k\<rparr>)\<rparr>"
      and inv1: "alloc_inv L g {} s1"
    using refresh_next_blkoff_spec [OF assms(1) g inv ty _ s1] room
    unfolding off_def has_curseg_space_def by blast
  have f1: "free_i s1 = free_i s" "sit_i s1 = sit_i s" "s_flag s1 = s_flag s" "cs_segno (cursegs s1 ty) = x"
    "sum_entries (sum_blk (cursegs s1 ty)) ! off = sm" "next_blkoff (cursegs s1 ty) = k"
    using entries by (simp_all add: e1 x_def off_def)
  have logs1: "logs_ok g s1" using alloc_invD(5) [OF inv1] .
  have m0: "(alloc_inv L g {x} s2 \<or> alloc_inv L g {} s2) \<and> same_maps (sit_i s) (sit_i s2) \<and> s_flag s2 = s_flag s \<and>
      has_curseg_space g s2 ty \<and> free_segmap (free_i s2) x \<and> sum_entry_at g s2 x off = sm \<and>
      (\<forall>t<6. cs_segno (cursegs s2 t) = x \<longrightarrow> off < next_blkoff (cursegs s2 t))"
  proof (cases "has_curseg_space g s1 ty")
    case True
    have "t = ty" if "t < 6" "cs_segno (cursegs s1 t) = x" for t
      using logs1 that ty f1(4) by (simp add: logs_ok_def)
    then show ?thesis
      using True inv1 f1 k xo(3) sum_entry_in_log [OF logs1 ty, of off] by (auto simp: s2)
  next
    case False
    then have "switched L g ty s1 s2"
      using allocate_segment_switches [OF assms(1) g inv1 ty, of _ stypes False] sec f1(1) by (auto simp: s2)
    note sw = this [unfolded switched_def f1]
    have nx: "cs_segno (cursegs s2 t) \<noteq> x" if "t < 6" for t
    proof (cases "t = ty")
      case True
      then show ?thesis using sw ty f1(4) by (auto simp: IS_CURSEG_iff)
    next
      case False
      then show ?thesis using logs1 that ty f1(4) sw by (auto simp: logs_ok_def)
    qed
    then show ?thesis
      using sw xo(3) sum_entry_in_page [of s2 x] f1(5) by (simp add: has_curseg_space_def)
  qed
  have mid: "alloc_inv L g {x} s2 \<or> alloc_inv L g {} s2" "same_maps (sit_i s) (sit_i s2)" "s_flag s2 = s_flag s"
    "has_curseg_space g s2 ty" "free_segmap (free_i s2) x" "sum_entry_at g s2 x off = sm"
    "\<And>t. t < 6 \<Longrightarrow> cs_segno (cursegs s2 t) = x \<Longrightarrow> off < next_blkoff (cursegs s2 t)"
    using m0 by blast+
  have v2: "valid_set L g (sit_i s2) = valid_set L g (sit_i s)" by (rule same_maps_valid [OF mid(2)])
  obtain X where X: "alloc_inv L g X s2" "X \<subseteq> {x}" using mid(1) by blast
  have "new \<notin> valid_set L g (sit_i s2)" "old \<in> valid_set L g (sit_i s2) \<or> old = null_addr L \<or> old = new_addr L"
    using unf old v2 by simp_all
  note r = refresh_alloc_inv [OF g X(1) nx(3) this(1) _ this(2) _ s', unfolded nx(1,2)]
  have xx: "X - {x} = {}" using X(2) by blast
  then have r': "alloc_inv L g {} s'" "cursegs s' = cursegs s2" "sum_pages s' = sum_pages s2"
    "valid_set L g (sit_i s') = insert new (valid_set L g (sit_i s2)) - {old}" "s_flag s' = s_flag s2"
    using r [unfolded xx] mid(5,7) by blast+
  moreover have "sum_entry_at g s' x off = sm"
    using mid(6) unfolding sum_entry_at_def r'(2,3) .
  ultimately show ?thesis
    using nx unf mid v2 by (simp add: allocated_def has_curseg_space_def)
qed


lemma new_log_empty:
  "alloc_type (cursegs (new_curseg g stypes ty b s) ty) = LFS"
  "next_blkoff (cursegs (new_curseg g stypes ty b s) ty) = 0"
  "sum_entries (sum_blk (cursegs (new_curseg g stypes ty b s) ty)) = sum_entries (sum_blk (cursegs s ty))"
proof -
  have c: "cursegs (snd (get_new_segment g n b d s)) = cursegs s" for n d s
    by (simp add: get_new_segment_def Let_def take_segment_def f2fs_bug_on_def set_sbi_flag_def
        split: prod.splits)
  show "alloc_type (cursegs (new_curseg g stypes ty b s) ty) = LFS"
    "next_blkoff (cursegs (new_curseg g stypes ty b s) ty) = 0"
    "sum_entries (sum_blk (cursegs (new_curseg g stypes ty b s) ty)) = sum_entries (sum_blk (cursegs s ty))"
    by (simp_all add: new_curseg_def Let_def reset_curseg_eq put_curseg_def case_prod_beta c write_sum_page_def)
qed

lemma forced_switch:
  assumes "layout_ok L" and g: "geom_ok L g" and inv: "alloc_inv L g {} s" and ty: "ty < 6"
    and sec: "c < total_sections g" "\<not> free_secmap (free_i s) c"
    and s': "s' = allocate_new_segment_of g v_ops stypes ty s"
  shows "alloc_inv L g {} s'" "same_maps (sit_i s) (sit_i s')" "s_flag s' = s_flag s"
    "alloc_type (cursegs s' ty) = LFS" "next_blkoff (cursegs s' ty) = 0"
    "sum_entries (sum_blk (cursegs s' ty)) = sum_entries (sum_blk (cursegs s ty))"
proof -
  define s1 where "s1 = allocate_segment_by_default g v_ops stypes ty True s"
  let ?x = "cs_segno (cursegs s ty)"
  have sw: "switched L g ty s s1"
    using allocate_segment_switches [OF assms(1) g inv ty sec] by (simp add: s1_def)
  note w = sw [unfolded switched_def]
  have l: "s1 = new_curseg g stypes ty True s" by (simp add: s1_def allocate_segment_by_default_def Let_def)
  have s': "s' = locate_dirty_segment g ?x s1"
    by (simp add: s' allocate_new_segment_of_def Let_def s1_def)
  have inv1: "alloc_inv L g {?x} s1" using w by blast
  note D = alloc_invD [OF inv1]
  have x: "?x < main_segments g"
    using alloc_invD(5) [OF inv] ty by (simp add: logs_ok_def log_ok_def Let_def)
  note ls = locate_segment_spec [OF g D(1) x s']
  have nx: "cs_segno (cursegs s1 t) \<noteq> ?x" if "t < 6" for t
    using w ty that alloc_invD(5) [OF inv] by (cases "t = ty") (auto simp: logs_ok_def IS_CURSEG_iff)
  then have nc: "\<not> IS_CURSEG s1 ?x" by (auto simp: IS_CURSEG_iff)
  have "exact_but g {} s'"
    using D(2) ls(2) ls(6) [OF nc] IS_CURSEG_cong [OF ls(3)] by (simp add: exact_but_def)
  moreover have "free_clean g s'" using D(4) ls(2,4) by (simp add: free_clean_def)
  moreover have "logs_ok g s'"
    using D(5) ls(2,3,4) by (simp add: logs_ok_def log_ok_def)
  ultimately show "alloc_inv L g {} s'" using ls(1,4) D(3) by (simp add: alloc_inv_def)
  show "same_maps (sit_i s) (sit_i s')" "s_flag s' = s_flag s" using w ls(2,5) by simp_all
  show "alloc_type (cursegs s' ty) = LFS" "next_blkoff (cursegs s' ty) = 0"
    "sum_entries (sum_blk (cursegs s' ty)) = sum_entries (sum_blk (cursegs s ty))"
    unfolding ls(3) l by (rule new_log_empty)+
qed

end

lemma allocate_data_block_cases:
  assumes "layout_ok L" and g: "geom_ok L g" and inv: "alloc_inv L g {} s"
    and ty: "ty < 6 \<or> ty = CURSEG_DIRECT_IO" and t: "t = (if ty = CURSEG_DIRECT_IO then CURSEG_WARM_DATA else ty)"
    and room: "has_curseg_space g s t"
    and entries: "length (sum_entries (sum_blk (cursegs s t))) = blocks_per_seg g"
    and sec: "c < total_sections g" "\<not> free_secmap (free_i s) c"
    and old: "old \<in> valid_set L g (sit_i s) \<or> old = null_addr L \<or> old = new_addr L"
    and r: "allocate_data_block L g (default_v_ops g gc_th) stypes old sm ty s = (new, s')"
  shows "allocated L g t old sm s new s'"
proof -
  have t6: "t < 6" using ty t by auto
  let ?v = "default_v_ops g gc_th"
  define s0 where "s0 = (if ty = CURSEG_DIRECT_IO \<and> next_blkoff (cursegs s t) \<noteq> 0
      then allocate_new_segment_of g ?v stypes t s else s)"
  define s1 where "s1 = refresh_next_blkoff g t (add_sum_entry t sm s0)"
  define s2 where "s2 = (if has_curseg_space g s1 t then s1 else allocate_segment_by_default g ?v stypes t False s1)"
  have B: "1 < blocks_per_seg g"
    using geom_okD(5,7) [OF g] geom_blocks [OF g] by (metis One_nat_def Suc_lessI dvd_1_left dvd_triv_left mult_eq_1_iff numeral_eq_one_iff semiring_norm(83))
  have s': "new = NEXT_FREE_BLKADDR g (cursegs s0 t)" "s' = refresh_sit_entry L g old new s2"
    using r unfolding allocate_data_block_def Let_def s2_def s1_def s0_def t
    by (auto split: if_splits)
  show ?thesis
  proof (cases "s0 = s")
    case True
    have "\<exists>c<total_sections g. \<not> free_secmap (free_i s) c" using sec by blast
    then show ?thesis
      using ssr.allocate_in_log [OF assms(1) g inv t6 room _ _ old _ _ s2_def s'(2)] entries room s'(1)
      by (simp add: True s1_def has_curseg_space_def)
  next
    case False
    then have s0: "s0 = allocate_new_segment_of g ?v stypes t s" by (auto simp: s0_def)
    note f = ssr.forced_switch [OF assms(1) g inv t6 sec s0]
    have room0: "has_curseg_space g s0 t" using f(5) B by (simp add: has_curseg_space_def)
    have "has_curseg_space g s1 t"
      using f(4,5) B by (simp add: s1_def refresh_next_blkoff_def add_sum_entry_def put_curseg_def Let_def
          has_curseg_space_def)
    then have "allocated L g t old sm s0 new s'"
      using ssr.allocate_in_log [OF assms(1) g f(1) t6 room0 _ _ _ s'(1) s1_def s2_def s'(2)] entries f(5,6) B
        old same_maps_valid [OF f(2)] by simp
    then show ?thesis
      using f(2,3) same_maps_valid [OF f(2)] by (simp add: allocated_def same_maps_def)
  qed
qed

text \<open>
  C1: While a free section is left, every block write is safe: from a state in the invariant, for one of the logs with
  room (or direct I/O) and an old address that is a valid block or no block, the block \<open>allocate_data_block\<close>
  hands out lies in the main area and is neither valid now nor part of the last checkpoint (so a crash loses
  nothing); it takes the place of the old block among the valid blocks; its summary entry is recorded, in the
  log or, when the log has moved on, in the summary area; the log has room for the next block; the
  invariant of SIT, free map, dirty lists and logs is kept, and no consistency check of the code fires.
  (Without a free section the code runs into the \<open>f2fs_bug_on\<close> of \<open>get_new_segment\<close>.)
\<close>
theorem allocate_data_block_safe:
  assumes "layout_ok L" and "geom_ok L g" and "alloc_inv L g {} s"
    and "ty < 6 \<or> ty = CURSEG_DIRECT_IO" and "t = (if ty = CURSEG_DIRECT_IO then CURSEG_WARM_DATA else ty)"
    and "has_curseg_space g s t"
    and "length (sum_entries (sum_blk (cursegs s t))) = blocks_per_seg g"
    and "c < total_sections g" and "\<not> free_secmap (free_i s) c"
    and "old \<in> valid_set L g (sit_i s) \<or> old = null_addr L \<or> old = new_addr L"
    and "allocate_data_block L g (default_v_ops g gc_th) stypes old sm ty s = (new, s')"
  shows "in_main g new \<and> new \<notin> valid_set L g (sit_i s) \<and>
     \<not> byte_bit (ckpt_valid_map (sentries (sit_i s) (GET_SEGNO L g new))) (GET_BLKOFF_FROM_SEG0 g new) \<and>
     valid_set L g (sit_i s') = insert new (valid_set L g (sit_i s)) - {old} \<and>
     sum_entry_at g s' (GET_SEGNO L g new) (GET_BLKOFF_FROM_SEG0 g new) = sm \<and>
     has_curseg_space g s' t \<and> alloc_inv L g {} s' \<and> s_flag s' = s_flag s"
  using allocate_data_block_cases [OF assms] by (simp add: allocated_def)

lemma sample_alloc_inv: "alloc_inv small_layout small_geom {} sample_sb"
proof -
  have seg: "next_blkoff (cursegs sample_sb t) = 0" "cs_segno (cursegs sample_sb t) = t"
    "alloc_type (cursegs sample_sb t) = LFS" for t by (simp_all add: sample_sb_def)
  have u: "unused (sentries (sit_i sample_sb) x) i" if "i < 64" for x i
    using that no_bits [of i] by (auto simp: unused_def sample_sb_def sample_seg_def)
  have f: "free_ok small_geom (free_i sample_sb)"
    by (rule sample_free_ok)
  have "logs_ok small_geom sample_sb"
    using u by (auto simp: logs_ok_def log_ok_def Let_def seg small_geom_def)
      (simp_all add: sample_sb_def sample_seg_def)
  moreover have "free_clean small_geom sample_sb"
    by (simp add: free_clean_def sample_sb_def sample_seg_def)
  ultimately show ?thesis
    using sample_store_ok f by (simp add: alloc_inv_def store_ok_def dirty_exact_iff)
qed

theorem allocate_data_block_safe_witness:
  "\<exists>new s'. allocate_data_block small_layout small_geom (default_v_ops small_geom None) (1, 0) 0
      \<lparr>s_nid = 7, s_ofs_in_node = 3, s_version = 0\<rparr> CURSEG_HOT_NODE sample_sb = (new, s') \<and>
     valid_set small_layout small_geom (sit_i s') = {new} - {0}"
proof -
  obtain new s' where r: "allocate_data_block small_layout small_geom (default_v_ops small_geom None) (1, 0) 0
      \<lparr>s_nid = 7, s_ofs_in_node = 3, s_version = 0\<rparr> CURSEG_HOT_NODE sample_sb = (new, s')" by (meson surj_pair)
  have c: "3 < total_sections small_geom" "\<not> free_secmap (free_i sample_sb) 3"
    and t: "has_curseg_space small_geom sample_sb CURSEG_HOT_NODE"
      "length (sum_entries (sum_blk (cursegs sample_sb CURSEG_HOT_NODE))) = blocks_per_seg small_geom"
    and ty: "CURSEG_HOT_NODE < 6 \<or> CURSEG_HOT_NODE = CURSEG_DIRECT_IO"
      "CURSEG_HOT_NODE = (if CURSEG_HOT_NODE = CURSEG_DIRECT_IO then CURSEG_WARM_DATA else CURSEG_HOT_NODE)"
    and o: "0 \<in> valid_set small_layout small_geom (sit_i sample_sb) \<or> 0 = null_addr small_layout \<or> 0 = new_addr small_layout"
    by (simp_all add: sample_sb_def small_geom_def has_curseg_space_def sample_sum_def small_layout_def)
  from allocate_data_block_safe [OF small_layout_ok small_geom_ok sample_alloc_inv ty t c o r]
  show ?thesis using r by (auto simp: sample_valid_set)
qed

text \<open>
  C6: While a free section is left, \<open>get_new_segment\<close> finds a free segment for every hint inside the main area: no
  \<open>f2fs_bug_on\<close> of the search fires, the segment was free and is now in use, and nothing else changed. It is the
  next free segment of the hint's own section, or the first segment of a wholly free section; with
  \<open>new_sec\<close> always the latter.
\<close>
theorem get_new_segment_takes_free_segment:
  assumes "geom_ok L g" and "free_ok g (free_i s)" and "newseg < main_segments g"
    and "c < total_sections g" and "\<not> free_secmap (free_i s) c"
    and "get_new_segment g newseg new_sec dir s = (x, s')"
  shows "x < main_segments g \<and> \<not> free_segmap (free_i s) x \<and>
    s' = s\<lparr>free_i := set_test_and_inuse g x (free_i s)\<rparr> \<and>
    (GET_SECNO g x = GET_SECNO g newseg \<and> newseg < x \<and> \<not> new_sec \<or>
     x mod segs_per_sec g = 0 \<and> \<not> free_secmap (free_i s) (GET_SECNO g x))"
  by (rule get_new_segment_spec [OF assms])

theorem get_new_segment_takes_free_segment_witness:
  "\<exists>x s'. get_new_segment small_geom 1 True ALLOC_LEFT sample_sb = (x, s') \<and>
     x < 8 \<and> \<not> free_segmap (free_i sample_sb) x \<and> free_segmap (free_i s') x"
proof -
  obtain x s' where r: "get_new_segment small_geom 1 True ALLOC_LEFT sample_sb = (x, s')" by (meson surj_pair)
  have h: "1 < main_segments small_geom" "3 < total_sections small_geom" "\<not> free_secmap (free_i sample_sb) 3"
    by (simp_all add: small_geom_def sample_sb_def)
  from get_new_segment_takes_free_segment [OF small_geom_ok sample_free_ok h r]
  show ?thesis using r by (auto simp: small_geom_def)
qed

text \<open>The search to the left after it ran into the end of the map.\<close>

lemma left_walk_free: "\<not> m n \<Longrightarrow> left_walk m tot n = (n, False)"
  by (cases n) simp_all

text \<open>
  The search for another zone does not work to the left. When the first search went left, found
  a section and its zone turns out to be in use, the code sets the hint to the zone below and
  searches again; but \<open>left_start\<close> still points to the free section found before, so the second
  search returns that same section, and the log shares a zone although other zones may be free.
\<close>
theorem left_zone_retry_returns_same_section:
  assumes "c < tot" and "\<not> m c" and "hint \<le> tot" and "tot < 2 ^ 32"
    and "find_section m tot ALLOC_LEFT hint False hint = (secno, True, ls, b)"
    and "secno div z \<noteq> 0"
  shows "find_section m tot ALLOC_LEFT (secno div z * z - 1) True ls = (secno, True, secno, False)"
proof -
  have r: "secno < tot" "\<not> m secno" "ls = secno"
    using find_section_spec [OF assms(1-4) _ assms(5)] by simp_all
  have "secno div z * z - 1 \<le> secno" by (meson div_times_less_eq_dividend diff_le_self le_trans)
  then have "find_next_zero_bit m tot (secno div z * z - 1) \<le> secno"
    using r by (intro fnzb.search_upper) auto
  then have "\<not> tot \<le> find_next_zero_bit m tot (secno div z * z - 1)" using r(1) by simp
  then show ?thesis using r by (simp add: find_section_def Let_def left_walk_free)
qed

text \<open>Eight sections in four zones: sections 6 and 7 are taken, the hint is 7, zone 2 is in use.\<close>

theorem left_zone_retry_returns_same_section_witness:
  "find_section (\<lambda>n. n = 6 \<or> n = 7) 8 ALLOC_LEFT (5 div 2 * 2 - 1) True 5 = (5, True, 5, False) \<and>
   \<not> (\<lambda>n::nat. n = 6 \<or> n = 7) 0"
proof -
  have f: "find_section (\<lambda>n. n = 6 \<or> n = 7) 8 ALLOC_LEFT 6 False 6 = (5, True, 5, False)"
  proof -
    have "find_next_zero_bit (\<lambda>n. n = 6 \<or> n = 7) 8 6 = 8" by code_simp
    then show ?thesis by (simp add: find_section_def Let_def left_walk_free)
  qed
  have "find_section (\<lambda>n. n = 6 \<or> n = 7) 8 ALLOC_LEFT (5 div 2 * 2 - 1) True 5 = (5, True, 5, False)"
    by (rule left_zone_retry_returns_same_section [of 0 8, OF _ _ _ _ f]) simp_all
  then show ?thesis by simp
qed

end
