(* ===== verification/Extent_Cache.thy ===== *)
theory Extent_Cache imports Node_Path Sb_State "HOL-Library.Tree" begin

text \<open>
  The extent cache of data.c: runs of consecutive blocks of a file, one run in the inode or, with
  the mount option \<open>extent_cache\<close>, a tree of runs per inode. A cached extent that does not match the
  node pages would make reads return the wrong block.
\<close>

section \<open>Extents\<close>

abbreviation (input) F2FS_MIN_EXTENT_LEN :: u32 where "F2FS_MIN_EXTENT_LEN \<equiv> 64"

definition set_extent_info :: "u32 \<Rightarrow> u32 \<Rightarrow> u32 \<Rightarrow> extent_info" where
  "set_extent_info fo bl le = \<lparr>fofs = fo, blk = bl, len = le\<rparr>"

definition is_extent_same :: "extent_info \<Rightarrow> extent_info \<Rightarrow> bool" where
  "is_extent_same ei1 ei2 \<longleftrightarrow> fofs ei1 = fofs ei2 \<and> blk ei1 = blk ei2 \<and> len ei1 = len ei2"

definition is_extent_mergeable :: "extent_info \<Rightarrow> extent_info \<Rightarrow> bool" where
  "is_extent_mergeable back front \<longleftrightarrow>
     fofs back + len back = fofs front \<and> blk back + len back = blk front"

definition is_back_mergeable :: "extent_info \<Rightarrow> extent_info \<Rightarrow> bool" where
  "is_back_mergeable cur back \<longleftrightarrow> is_extent_mergeable back cur"

definition is_front_mergeable :: "extent_info \<Rightarrow> extent_info \<Rightarrow> bool" where
  "is_front_mergeable cur front \<longleftrightarrow> is_extent_mergeable cur front"

section \<open>The single extent of an inode\<close>

definition lookup_extent_info :: "f2fs_inode_info \<Rightarrow> u64 \<Rightarrow> extent_info option" where
  "lookup_extent_info fi pgofs =
     (if len (i_ext fi) = 0 then None
      else let start_fofs = ucast (fofs (i_ext fi)) :: u64;
               end_fofs = ucast (fofs (i_ext fi) + len (i_ext fi) - 1) :: u64
           in if pgofs \<ge> start_fofs \<and> pgofs \<le> end_fofs then Some (i_ext fi) else None)"

text \<open>Whether the inode has to be written, and the inode.\<close>

definition update_extent_info :: "layout \<Rightarrow> f2fs_inode_info \<Rightarrow> u64 \<Rightarrow> u32 \<Rightarrow> bool \<times> f2fs_inode_info" where
  "update_extent_info L fi fo blkaddr =
     (let ext = i_ext fi;
          start_fofs = ucast (fofs ext) :: u64;
          end_fofs = ucast (fofs ext + len ext - 1) :: u64;
          start_blkaddr = blk ext;
          end_blkaddr = blk ext + len ext - 1;
          ext = (if len ext = 1 \<and> fo = start_fofs then ext\<lparr>len := 0\<rparr> else ext)
      in if len ext = 0
         then (True, fi\<lparr>i_ext := (if blkaddr \<noteq> null_addr L
                 then ext\<lparr>fofs := ucast fo, blk := blkaddr, len := 1\<rparr> else ext)\<rparr>)
         else if fo = start_fofs - 1 \<and> blkaddr = start_blkaddr - 1
         then (True, fi\<lparr>i_ext := ext\<lparr>fofs := fofs ext - 1, blk := blk ext - 1, len := len ext + 1\<rparr>\<rparr>)
         else if fo = end_fofs + 1 \<and> blkaddr = end_blkaddr + 1
         then (True, fi\<lparr>i_ext := ext\<lparr>len := len ext + 1\<rparr>\<rparr>)
         else let (ext, need_update) =
                    (if len ext > 1 \<and> fo \<ge> start_fofs \<and> fo \<le> end_fofs
                     then (if end_fofs - fo < ucast (drop_bit 1 (len ext))
                           then (ext\<lparr>len := ucast (fo - start_fofs)\<rparr>, True)
                           else (ext\<lparr>fofs := ucast (fo + 1),
                                     blk := ucast (ucast start_blkaddr + fo - start_fofs + 1),
                                     len := len ext - ucast (fo - start_fofs + 1)\<rparr>, True))
                     else (ext, False))
              in if len ext < F2FS_MIN_EXTENT_LEN
                 then (True, set_inode_flag (fi\<lparr>i_ext := ext\<lparr>len := 0\<rparr>\<rparr>) FI_NO_EXTENT)
                 else (need_update, fi\<lparr>i_ext := ext\<rparr>))"

section \<open>The extent tree\<close>

text \<open>
  Nodes are named by numbers, so that \<open>cached_en\<close> and the global list can refer to them; the
  red-black tree of the kernel is a binary tree whose rebalancing is a parameter.
\<close>

record extent_node =
  en_id :: nat
  ei :: extent_info

record extent_tree =
  et_root :: "extent_node tree"      \<comment> \<open>root\<close>
  cached_en :: "nat option"
  et_refcount :: int                 \<comment> \<open>refcount\<close>
  et_count :: u32                    \<comment> \<open>count\<close>

record rb_lib =
  rb_insert_color :: "extent_node tree \<Rightarrow> extent_node tree"
  rb_erase :: "nat \<Rightarrow> extent_node tree \<Rightarrow> extent_node tree"

text \<open>
  The part of the superblock: the radix tree of the trees by inode number, the list of all nodes
  in the order of use, and the counters. \<open>en_next\<close> is the name of the next allocated node;
  an allocation with \<open>GFP_ATOMIC\<close> may fail, which \<open>ok\<close> decides below.
\<close>

record ext_sb =
  extent_tree_root :: "(nat \<times> extent_tree) list"
  extent_list :: "nat list"
  total_ext_tree :: int
  total_ext_node :: int
  en_next :: nat

type_synonym 'a op = "extent_tree \<Rightarrow> ext_sb \<Rightarrow> 'a \<times> extent_tree \<times> ext_sb"

definition find_node :: "nat \<Rightarrow> extent_node tree \<Rightarrow> extent_node option" where
  "find_node i t = find (\<lambda>n. en_id n = i) (inorder t)"

definition upd_node :: "nat \<Rightarrow> (extent_info \<Rightarrow> extent_info) \<Rightarrow> extent_node tree \<Rightarrow> extent_node tree" where
  "upd_node i f t = map_tree (\<lambda>n. if en_id n = i then n\<lparr>ei := f (ei n)\<rparr> else n) t"

fun rb_prev :: "nat \<Rightarrow> extent_node list \<Rightarrow> extent_node option" where
  "rb_prev i (a # b # xs) = (if en_id b = i then Some a else rb_prev i (b # xs))"
| "rb_prev i _ = None"

fun rb_next :: "nat \<Rightarrow> extent_node list \<Rightarrow> extent_node option" where
  "rb_next i (a # b # xs) = (if en_id a = i then Some b else rb_next i (b # xs))"
| "rb_next i _ = None"

fun link_node :: "extent_node \<Rightarrow> extent_node tree \<Rightarrow> extent_node tree" where
  "link_node n Leaf = Node Leaf n Leaf"
| "link_node n (Node l en r) =
     (if fofs (ei n) < fofs (ei en) then Node (link_node n l) en r else Node l en (link_node n r))"

definition attach_extent_node :: "rb_lib \<Rightarrow> (nat \<Rightarrow> bool) \<Rightarrow> extent_info \<Rightarrow> nat option op" where
  "attach_extent_node rb ok x et s =
     (let i = en_next s; s = s\<lparr>en_next := i + 1\<rparr>
      in if \<not> ok i then (None, et, s)
         else (Some i,
               et\<lparr>et_root := rb_insert_color rb (link_node \<lparr>en_id = i, ei = x\<rparr> (et_root et)),
                  et_count := et_count et + 1\<rparr>,
               s\<lparr>total_ext_node := total_ext_node s + 1\<rparr>))"

definition detach_extent_node :: "rb_lib \<Rightarrow> nat \<Rightarrow> extent_tree \<Rightarrow> ext_sb \<Rightarrow> extent_tree \<times> ext_sb" where
  "detach_extent_node rb en et s =
     (et\<lparr>et_root := rb_erase rb en (et_root et), et_count := et_count et - 1,
         cached_en := (if cached_en et = Some en then None else cached_en et)\<rparr>,
      s\<lparr>total_ext_node := total_ext_node s - 1\<rparr>)"

fun tree_search :: "u32 \<Rightarrow> extent_node tree \<Rightarrow> extent_node option" where
  "tree_search fo Leaf = None"
| "tree_search fo (Node l en r) =
     (if fo < fofs (ei en) then tree_search fo l
      else if fo \<ge> fofs (ei en) + len (ei en) then tree_search fo r
      else Some en)"

definition lookup_extent_tree :: "u32 \<Rightarrow> extent_tree \<Rightarrow> extent_node option \<times> extent_tree" where
  "lookup_extent_tree fo et =
     (case Option.bind (cached_en et) (\<lambda>c. find_node c (et_root et)) of
        Some en \<Rightarrow>
          if fofs (ei en) \<le> fo \<and> fofs (ei en) + len (ei en) > fo then (Some en, et)
          else (case tree_search fo (et_root et) of
                  Some en \<Rightarrow> (Some en, et\<lparr>cached_en := Some (en_id en)\<rparr>) | None \<Rightarrow> (None, et))
      | None \<Rightarrow> (case tree_search fo (et_root et) of
                  Some en \<Rightarrow> (Some en, et\<lparr>cached_en := Some (en_id en)\<rparr>) | None \<Rightarrow> (None, et)))"

text \<open>The node a merge made superfluous, if any.\<close>

definition try_back_merge :: "rb_lib \<Rightarrow> nat \<Rightarrow> nat option op" where
  "try_back_merge rb en et s =
     (case (rb_prev en (inorder (et_root et)), find_node en (et_root et)) of
        (Some prev, Some n) \<Rightarrow>
          if is_back_mergeable (ei n) (ei prev)
          then let et = et\<lparr>et_root := upd_node en (\<lambda>x. x\<lparr>fofs := fofs (ei prev), blk := blk (ei prev),
                                    len := len x + len (ei prev)\<rparr>) (et_root et)\<rparr>;
                   (et, s) = detach_extent_node rb (en_id prev) et s
               in (Some (en_id prev), et, s)
          else (None, et, s)
      | _ \<Rightarrow> (None, et, s))"

definition try_front_merge :: "rb_lib \<Rightarrow> nat \<Rightarrow> nat option op" where
  "try_front_merge rb en et s =
     (case (rb_next en (inorder (et_root et)), find_node en (et_root et)) of
        (Some nxt, Some n) \<Rightarrow>
          if is_front_mergeable (ei n) (ei nxt)
          then let et = et\<lparr>et_root := upd_node en (\<lambda>x. x\<lparr>len := len x + len (ei nxt)\<rparr>) (et_root et)\<rparr>;
                   (et, s) = detach_extent_node rb (en_id nxt) et s
               in (Some (en_id nxt), et, s)
          else (None, et, s)
      | _ \<Rightarrow> (None, et, s))"

text \<open>
  Where the descent of \<open>__insert_extent_tree\<close> ends. On an overlap the code reports a bug and does
  not move on: the loop never ends.
\<close>

datatype ins_pos = At_leaf | Front_of nat | Back_of nat | Overlap

fun find_ins_pos :: "extent_info \<Rightarrow> extent_node tree \<Rightarrow> ins_pos" where
  "find_ins_pos x Leaf = At_leaf"
| "find_ins_pos x (Node l en r) =
     (if fofs x < fofs (ei en)
      then if is_front_mergeable x (ei en) then Front_of (en_id en) else find_ins_pos x l
      else if fofs x \<ge> fofs (ei en) + len (ei en)
      then if is_back_mergeable x (ei en) then Back_of (en_id en) else find_ins_pos x r
      else Overlap)"

text \<open>
  The node that holds the extent and the node merged away. \<open>den\<close> says whether the caller passes a
  place for the latter; without one a merge would write through a null pointer. \<open>None\<close>: no return.
\<close>

definition insert_extent_tree ::
  "rb_lib \<Rightarrow> (nat \<Rightarrow> bool) \<Rightarrow> extent_info \<Rightarrow> bool \<Rightarrow> extent_tree \<Rightarrow> ext_sb \<Rightarrow>
   (nat option \<times> nat option \<times> extent_tree \<times> ext_sb) option"
where
  "insert_extent_tree rb ok x den et s =
     (case find_ins_pos x (et_root et) of
        Front_of en \<Rightarrow>
          if \<not> den then None
          else let et = et\<lparr>et_root := upd_node en (\<lambda>e. e\<lparr>fofs := fofs x, blk := blk x,
                                   len := len e + len x\<rparr>) (et_root et)\<rparr>;
                   (d, et, s) = try_back_merge rb en et s
               in Some (Some en, d, et, s)
      | Back_of en \<Rightarrow>
          if \<not> den then None
          else let et = et\<lparr>et_root := upd_node en (\<lambda>e. e\<lparr>len := len e + len x\<rparr>) (et_root et)\<rparr>;
                   (d, et, s) = try_front_merge rb en et s
               in Some (Some en, d, et, s)
      | Overlap \<Rightarrow> None
      | At_leaf \<Rightarrow>
          let (en, et, s) = attach_extent_node rb ok x et s in Some (en, None, et, s))"

definition list_del :: "nat \<Rightarrow> ext_sb \<Rightarrow> ext_sb" where
  "list_del i s = s\<lparr>extent_list := filter (\<lambda>x. x \<noteq> i) (extent_list s)\<rparr>"

definition list_add_tail :: "nat \<Rightarrow> ext_sb \<Rightarrow> ext_sb" where
  "list_add_tail i s = s\<lparr>extent_list := extent_list s @ [i]\<rparr>"

definition free_extent_tree :: "rb_lib \<Rightarrow> bool \<Rightarrow> extent_tree \<Rightarrow> ext_sb \<Rightarrow> u32 \<times> extent_tree \<times> ext_sb" where
  "free_extent_tree rb free_all et s =
     (let (et', s) = fold (\<lambda>en (et, s).
            let s = (if free_all then list_del (en_id en) s else s)
            in if free_all \<or> en_id en \<notin> set (extent_list s)
               then detach_extent_node rb (en_id en) et s else (et, s))
          (inorder (et_root et)) (et, s)
      in (et_count et - et_count et', et', s))"

section \<open>The extent cache of the file system\<close>

definition find_extent_tree :: "nat \<Rightarrow> ext_sb \<Rightarrow> extent_tree option" where
  "find_extent_tree ino s = map_of (extent_tree_root s) ino"

definition put_extent_tree :: "nat \<Rightarrow> extent_tree \<Rightarrow> ext_sb \<Rightarrow> ext_sb" where
  "put_extent_tree ino et s = s\<lparr>extent_tree_root := AList.update ino et (extent_tree_root s)\<rparr>"

definition grab_extent_tree :: "nat \<Rightarrow> ext_sb \<Rightarrow> extent_tree \<times> ext_sb" where
  "grab_extent_tree ino s =
     (case find_extent_tree ino s of
        Some et \<Rightarrow> (et, s)
      | None \<Rightarrow> let et = \<lparr>et_root = Leaf, cached_en = None, et_refcount = 0, et_count = 0\<rparr>
                in (et, put_extent_tree ino et (s\<lparr>total_ext_tree := total_ext_tree s + 1\<rparr>)))"

text \<open>
  The reference count is taken and dropped within each operation, so between operations it is as
  before; the two steps are left out where they enclose the whole body.
\<close>

definition f2fs_init_extent_tree ::
  "rb_lib \<Rightarrow> (nat \<Rightarrow> bool) \<Rightarrow> nat \<Rightarrow> extent_info \<Rightarrow> ext_sb \<Rightarrow> ext_sb option" where
  "f2fs_init_extent_tree rb ok ino r_ext s =
     (if len r_ext < F2FS_MIN_EXTENT_LEN then Some s
      else let (et, s) = grab_extent_tree ino s
           in if et_count et \<noteq> 0 then Some s
              else case insert_extent_tree rb ok (set_extent_info (fofs r_ext) (blk r_ext) (len r_ext)) False et s of
                     None \<Rightarrow> None
                   | Some (None, d, et, s) \<Rightarrow> Some (put_extent_tree ino et s)
                   | Some (Some en, d, et, s) \<Rightarrow>
                       Some (list_add_tail en (put_extent_tree ino (et\<lparr>cached_en := Some en\<rparr>) s)))"

definition f2fs_lookup_extent_tree :: "nat \<Rightarrow> u32 \<Rightarrow> ext_sb \<Rightarrow> extent_info option \<times> ext_sb" where
  "f2fs_lookup_extent_tree ino pgofs s =
     (case find_extent_tree ino s of
        None \<Rightarrow> (None, s)
      | Some et \<Rightarrow>
          (case lookup_extent_tree pgofs et of
             (Some en, et) \<Rightarrow>
               (Some (ei en),
                (let s = put_extent_tree ino et s
                 in if en_id en \<in> set (extent_list s) then list_add_tail (en_id en) (list_del (en_id en) s)
                    else s))
           | (None, et) \<Rightarrow> (None, put_extent_tree ino et s)))"

text \<open>Step 2 of the update: the parts left and right of the block, when they are long enough.\<close>

definition insert_parts ::
  "rb_lib \<Rightarrow> (nat \<Rightarrow> bool) \<Rightarrow> u32 \<Rightarrow> extent_info \<Rightarrow> extent_tree \<Rightarrow> ext_sb \<Rightarrow>
   (nat option \<times> nat option \<times> extent_tree \<times> ext_sb) option"
where
  "insert_parts rb ok fo dei et s =
     (if len dei > 1
      then case (if fo - fofs dei \<ge> F2FS_MIN_EXTENT_LEN
                 then insert_extent_tree rb ok (set_extent_info (fofs dei) (blk dei) (fo - fofs dei)) False et s
                 else Some (None, None, et, s)) of
             None \<Rightarrow> None
           | Some (en1, _, et, s) \<Rightarrow>
               let endofs = fofs dei + len dei - 1
               in case (if endofs - fo \<ge> F2FS_MIN_EXTENT_LEN
                        then insert_extent_tree rb ok
                               (set_extent_info (fo + 1) (fo - fofs dei + blk dei) (endofs - fo)) False et s
                        else Some (None, None, et, s)) of
                    None \<Rightarrow> None
                  | Some (en2, _, et, s) \<Rightarrow> Some (en1, en2, et, s)
      else Some (None, None, et, s))"

definition f2fs_update_extent_tree ::
  "rb_lib \<Rightarrow> (nat \<Rightarrow> bool) \<Rightarrow> nat \<Rightarrow> u32 \<Rightarrow> u32 \<Rightarrow> ext_sb \<Rightarrow> ext_sb option" where
  "f2fs_update_extent_tree rb ok ino fo blkaddr s =
     (let (et, s) = grab_extent_tree ino s;
          (en, et) = lookup_extent_tree fo et
      in case (case en of
                 None \<Rightarrow> Some (None, None, et, s)
               | Some n \<Rightarrow> let (et, s) = detach_extent_node rb (en_id n) et s
                           in insert_parts rb ok fo (ei n) et s) of
           None \<Rightarrow> None
         | Some (en1, en2, et, s) \<Rightarrow>
             case (if blkaddr \<noteq> 0 then insert_extent_tree rb ok (set_extent_info fo blkaddr 1) True et s
                   else Some (None, None, et, s)) of
               None \<Rightarrow> None
             | Some (en3, den, et, s) \<Rightarrow>
                 let s = (case en of Some n \<Rightarrow> list_del (en_id n) s | None \<Rightarrow> s);
                     s = (case en1 of Some i \<Rightarrow> list_add_tail i s | None \<Rightarrow> s);
                     s = (case en2 of Some i \<Rightarrow> list_add_tail i s | None \<Rightarrow> s);
                     s = (case en3 of Some i \<Rightarrow> list_add_tail i (list_del i s) | None \<Rightarrow> s);
                     s = (case den of Some i \<Rightarrow> list_del i s | None \<Rightarrow> s)
                 in Some (put_extent_tree ino et s))"

text \<open>The inode, and whether it has to be written. The lists of the cache do not change.\<close>

definition f2fs_preserve_extent_tree ::
  "u32 \<Rightarrow> nat \<Rightarrow> f2fs_inode_info \<Rightarrow> ext_sb \<Rightarrow> bool \<times> f2fs_inode_info" where
  "f2fs_preserve_extent_tree opt ino fi s =
     (let drop = (if len (i_ext fi) \<noteq> 0 then (True, fi\<lparr>i_ext := (i_ext fi)\<lparr>len := 0\<rparr>\<rparr>) else (False, fi))
      in if \<not> test_opt opt MOUNT_EXTENT_CACHE then (False, fi)
         else case find_extent_tree ino s of
                None \<Rightarrow> drop
              | Some et \<Rightarrow>
                  if et_count et \<noteq> 0
                  then let en = (case Option.bind (cached_en et) (\<lambda>c. find_node c (et_root et)) of
                                   Some n \<Rightarrow> n | None \<Rightarrow> hd (inorder (et_root et)))
                       in if is_extent_same (i_ext fi) (ei en) then (False, fi)
                          else (True, fi\<lparr>i_ext := ei en\<rparr>)
                  else drop)"

text \<open>\<open>free_mem\<close> is the answer of \<open>available_free_memory\<close>; \<open>root_ino\<close> the first inode number.\<close>

definition f2fs_shrink_extent_tree :: "rb_lib \<Rightarrow> u32 \<Rightarrow> bool \<Rightarrow> nat \<Rightarrow> nat \<Rightarrow> ext_sb \<Rightarrow> ext_sb" where
  "f2fs_shrink_extent_tree rb opt free_mem root_ino nr_shrink s =
     (if \<not> test_opt opt MOUNT_EXTENT_CACHE then s
      else if free_mem then s
      else let s = s\<lparr>extent_list := drop nr_shrink (extent_list s)\<rparr>;
               s = fold (\<lambda>ino s. case find_extent_tree ino s of
                      Some et \<Rightarrow> let (_, et, s) = free_extent_tree rb False et s in put_extent_tree ino et s
                    | None \<Rightarrow> s)
                 (filter (\<lambda>ino. ino \<ge> root_ino) (map fst (extent_tree_root s))) s;
               dead = (\<lambda>(ino, et). ino \<ge> root_ino \<and> et_refcount et = 0 \<and> et_count et = 0)
           in s\<lparr>extent_tree_root := filter (\<lambda>p. \<not> dead p) (extent_tree_root s),
                total_ext_tree := total_ext_tree s - int (length (filter dead (extent_tree_root s)))\<rparr>)"

text \<open>Also whether the \<open>f2fs_bug_on\<close> fires.\<close>

definition f2fs_destroy_extent_tree :: "rb_lib \<Rightarrow> u32 \<Rightarrow> nat \<Rightarrow> ext_sb \<Rightarrow> bool \<times> ext_sb" where
  "f2fs_destroy_extent_tree rb opt ino s =
     (if \<not> test_opt opt MOUNT_EXTENT_CACHE then (False, s)
      else case find_extent_tree ino s of
             None \<Rightarrow> (False, s)
           | Some et \<Rightarrow>
               let (_, et, s) = free_extent_tree rb True et s
               in (et_refcount et \<noteq> 0 \<or> et_count et \<noteq> 0,
                   s\<lparr>extent_tree_root := AList.delete ino (extent_tree_root s),
                     total_ext_tree := total_ext_tree s - 1\<rparr>))"

definition f2fs_init_extent_cache ::
  "rb_lib \<Rightarrow> (nat \<Rightarrow> bool) \<Rightarrow> u32 \<Rightarrow> nat \<Rightarrow> extent_info \<Rightarrow> f2fs_inode_info \<Rightarrow> ext_sb \<Rightarrow>
   (f2fs_inode_info \<times> ext_sb) option"
where
  "f2fs_init_extent_cache rb ok opt ino r_ext fi s =
     map_option (\<lambda>s. (fi\<lparr>i_ext := r_ext\<rparr>, s))
       (if test_opt opt MOUNT_EXTENT_CACHE then f2fs_init_extent_tree rb ok ino r_ext s else Some s)"

definition f2fs_lookup_extent_cache ::
  "u32 \<Rightarrow> nat \<Rightarrow> f2fs_inode_info \<Rightarrow> u64 \<Rightarrow> ext_sb \<Rightarrow> extent_info option \<times> ext_sb" where
  "f2fs_lookup_extent_cache opt ino fi pgofs s =
     (if is_inode_flag_set fi FI_NO_EXTENT then (None, s)
      else if test_opt opt MOUNT_EXTENT_CACHE then f2fs_lookup_extent_tree ino (ucast pgofs) s
      else (lookup_extent_info fi pgofs, s))"

text \<open>The node of the block is given by its footer; the booleans are the
  \<open>f2fs_bug_on\<close> and \<open>sync_inode_page\<close>.\<close>

definition f2fs_update_extent_cache ::
  "rb_lib \<Rightarrow> (nat \<Rightarrow> bool) \<Rightarrow> layout \<Rightarrow> u32 \<Rightarrow> nat \<Rightarrow> node_footer \<Rightarrow> u32 \<Rightarrow> u32 \<Rightarrow> f2fs_inode_info \<Rightarrow> ext_sb \<Rightarrow>
   (bool \<times> bool \<times> f2fs_inode_info \<times> ext_sb) option"
where
  "f2fs_update_extent_cache rb ok L opt ino footer ofs_in_node data_blkaddr fi s =
     (let bug = (data_blkaddr = new_addr L)
      in if is_inode_flag_set fi FI_NO_EXTENT then Some (bug, False, fi, s)
         else let fo = start_bidx_of_node L (ofs_of_node L footer) fi + ofs_in_node
              in if test_opt opt MOUNT_EXTENT_CACHE
                 then map_option (\<lambda>s. (bug, False, fi, s)) (f2fs_update_extent_tree rb ok ino fo data_blkaddr s)
                 else let (sync, fi) = update_extent_info L fi (ucast fo) data_blkaddr
                      in Some (bug, sync, fi, s))"

definition init_extent_cache_info :: ext_sb where
  "init_extent_cache_info =
     \<lparr>extent_tree_root = [], extent_list = [], total_ext_tree = 0, total_ext_node = 0, en_next = 0\<rparr>"

section \<open>Runs of blocks\<close>

definition ex_end :: "extent_info \<Rightarrow> nat" where
  "ex_end e = unat (fofs e) + unat (len e)"

definition ext_ok :: "extent_info \<Rightarrow> bool" where
  "ext_ok e \<longleftrightarrow> 0 < len e \<and> ex_end e < 2 ^ 32 \<and> unat (blk e) + unat (len e) < 2 ^ 32"

definition ext_graph :: "extent_info \<Rightarrow> (nat \<times> nat) set" where
  "ext_graph e = {(f, b). unat (fofs e) \<le> f \<and> f < ex_end e \<and> b = unat (blk e) + (f - unat (fofs e))}"

lemma unat_small_add:
  fixes a b :: "'a::len word"
  assumes "unat a + unat b < 2 ^ LENGTH('a)"
  shows "unat (a + b) = unat a + unat b"
  using assms by (simp add: unat_word_ariths)

lemma mergeable_iff:
  assumes "ext_ok a"
  shows "is_extent_mergeable a b \<longleftrightarrow> ex_end a = unat (fofs b) \<and> unat (blk a) + unat (len a) = unat (blk b)"
  using assms unat_small_add [of "fofs a" "len a"] unat_small_add [of "blk a" "len a"]
  by (auto simp: is_extent_mergeable_def ext_ok_def ex_end_def word_unat_eq_iff)

lemma len_pos: "ext_ok e \<Longrightarrow> unat (fofs e) < ex_end e"
  by (simp add: ext_ok_def ex_end_def word_less_nat_alt)

lemma covers_iff:
  assumes "ext_ok e"
  shows "fo < fofs e + len e \<longleftrightarrow> unat fo < ex_end e"
  using assms unat_small_add [of "fofs e" "len e"] by (simp add: word_less_nat_alt ext_ok_def ex_end_def)

text \<open>Two runs that fit together make one.\<close>

definition glued :: "extent_info \<Rightarrow> extent_info \<Rightarrow> extent_info" where
  "glued a b = \<lparr>fofs = fofs a, blk = blk a, len = len a + len b\<rparr>"

lemma glued_facts:
  assumes "ext_ok a" and "ext_ok b" and "is_extent_mergeable a b"
  shows "ext_ok (glued a b)" and "ex_end (glued a b) = ex_end b"
    and "ext_graph (glued a b) = ext_graph a \<union> ext_graph b"
    and "is_extent_mergeable (glued a b) c = is_extent_mergeable b c"
    and "is_extent_mergeable c (glued a b) = is_extent_mergeable c a"
proof -
  have m: "ex_end a = unat (fofs b)" "unat (blk a) + unat (len a) = unat (blk b)"
    using mergeable_iff [OF assms(1)] assms(3) by simp_all
  have l: "unat (len a + len b) = unat (len a) + unat (len b)"
    using m assms(2) by (intro unat_small_add) (simp add: ext_ok_def ex_end_def)
  show e: "ex_end (glued a b) = ex_end b" using m l by (simp add: glued_def ex_end_def)
  show ok: "ext_ok (glued a b)"
    using assms(1,2) m l e by (auto simp: ext_ok_def glued_def word_less_nat_alt)
  show "ext_graph (glued a b) = ext_graph a \<union> ext_graph b"
    unfolding ext_graph_def e using len_pos [OF assms(1)] len_pos [OF assms(2)] m
    by (auto simp: glued_def ex_end_def)
  show "is_extent_mergeable (glued a b) c = is_extent_mergeable b c"
    unfolding mergeable_iff [OF ok] mergeable_iff [OF assms(2)] using m l e by (auto simp: glued_def)
  show "is_extent_mergeable c (glued a b) = is_extent_mergeable c a"
    by (simp add: is_extent_mergeable_def glued_def)
qed

section \<open>Sorted runs\<close>

definition before :: "extent_node \<Rightarrow> extent_node \<Rightarrow> bool" where
  "before a b \<longleftrightarrow> ex_end (ei a) \<le> unat (fofs (ei b)) \<and> \<not> is_extent_mergeable (ei a) (ei b)"

definition nodes_ok :: "extent_node list \<Rightarrow> bool" where
  "nodes_ok xs \<longleftrightarrow> sorted_wrt before xs \<and> (\<forall>n\<in>set xs. ext_ok (ei n)) \<and> distinct (map en_id xs)"

definition graph :: "extent_node list \<Rightarrow> (nat \<times> nat) set" where
  "graph xs = (\<Union>n\<in>set xs. ext_graph (ei n))"

lemma before_fofs: "before a b \<Longrightarrow> ext_ok (ei a) \<Longrightarrow> fofs (ei a) < fofs (ei b)"
  using len_pos [of "ei a"] by (simp add: before_def word_less_nat_alt)

lemma not_mergeable_apart:
  "ext_ok (ei a) \<Longrightarrow> ex_end (ei a) < unat (fofs (ei b)) \<Longrightarrow> \<not> is_extent_mergeable (ei a) (ei b)"
  by (simp add: mergeable_iff)

lemma nodes_ok_simps:
  "nodes_ok (as @ n # bs) \<longleftrightarrow> nodes_ok as \<and> nodes_ok bs \<and> ext_ok (ei n) \<and>
     (\<forall>a\<in>set as. before a n) \<and> (\<forall>b\<in>set bs. before n b) \<and> (\<forall>a\<in>set as. \<forall>b\<in>set bs. before a b) \<and>
     distinct (map en_id (as @ n # bs))"
  by (auto simp: nodes_ok_def sorted_wrt_append)

lemma nodes_ok_filter: "nodes_ok xs \<Longrightarrow> nodes_ok (filter P xs)"
  by (auto simp: nodes_ok_def sorted_wrt_filter distinct_map_filter)

text \<open>The node \<open>n\<close> has grown to the left and may now fit to its left neighbour.\<close>

definition prev_glued :: "extent_node list \<Rightarrow> extent_node \<Rightarrow> extent_node list \<Rightarrow> nat option \<times> extent_node list" where
  "prev_glued as n bs =
     (if as \<noteq> [] \<and> is_extent_mergeable (ei (last as)) (ei n)
      then (Some (en_id (last as)), butlast as @ n\<lparr>ei := glued (ei (last as)) (ei n)\<rparr> # bs)
      else (None, as @ n # bs))"

lemma prev_glued_ok:
  assumes "nodes_ok as" and "nodes_ok (n # bs)" and "\<forall>a\<in>set as. ex_end (ei a) \<le> unat (fofs (ei n))"
    and "\<forall>a\<in>set as. \<forall>b\<in>set bs. before a b" and d: "distinct (map en_id (as @ n # bs))"
    and "prev_glued as n bs = (den, ys)"
  shows "nodes_ok ys \<and> graph ys = graph (as @ n # bs) \<and>
    en_id ` set ys = en_id ` set (as @ n # bs) - set_option den \<and> (den \<noteq> None \<longrightarrow> den \<noteq> Some (en_id n) \<and>
    set_option den \<subseteq> en_id ` set as)"
proof (cases "as \<noteq> [] \<and> is_extent_mergeable (ei (last as)) (ei n)")
  case False
  have "before a n" if a: "a \<in> set as" for a
  proof -
    obtain as' p where p: "as = as' @ [p]" using a by (cases as rule: rev_cases) auto
    have ok: "ext_ok (ei p)" "ext_ok (ei a)" "\<forall>a\<in>set as'. before a p"
      using assms(1) a p by (auto simp: nodes_ok_def sorted_wrt_append)
    have pn: "ex_end (ei p) \<le> unat (fofs (ei n))" "\<not> is_extent_mergeable (ei p) (ei n)"
      using assms(3) False p by simp_all
    consider "a = p" | "a \<in> set as'" using a p by auto
    then show ?thesis
    proof cases
      case 2
      then have "ex_end (ei a) \<le> unat (fofs (ei p))" using ok(3) by (simp add: before_def)
      then have "ex_end (ei a) < unat (fofs (ei n))" using len_pos [OF ok(1)] pn(1) by linarith
      then show ?thesis using not_mergeable_apart [OF ok(2)] by (simp add: before_def)
    qed (use pn in \<open>simp add: before_def\<close>)
  qed
  then have all: "\<forall>a\<in>set as. before a n" by blast
  have nb: "nodes_ok bs" "ext_ok (ei n)" "\<forall>b\<in>set bs. before n b"
    using assms(2) nodes_ok_simps [of "[]" n bs] by simp_all
  have ys: "ys = as @ n # bs" "den = None" using False assms(6) by (auto simp: prev_glued_def)
  have "nodes_ok ys" unfolding ys(1) nodes_ok_simps using assms(1,4) nb all d by blast
  then show ?thesis by (simp add: ys)
next
  case True
  then obtain as' p where p: "as = as' @ [p]" by (metis append_butlast_last_id)
  let ?n = "n\<lparr>ei := glued (ei p) (ei n)\<rparr>"
  have ok: "ext_ok (ei p)" "ext_ok (ei n)" "is_extent_mergeable (ei p) (ei n)"
    using assms(1,2) True p by (simp_all add: nodes_ok_def)
  note g = glued_facts [OF ok]
  have ys: "ys = as' @ ?n # bs" "den = Some (en_id p)"
    using True assms(6) p by (simp_all add: prev_glued_def)
  have asok: "nodes_ok as'" "\<forall>a\<in>set as'. before a p"
    using assms(1) p nodes_ok_simps [of as' p "[]"] by simp_all
  have nb: "nodes_ok bs" "\<forall>b\<in>set bs. before n b"
    using assms(2) nodes_ok_simps [of "[]" n bs] by simp_all
  have "\<forall>a\<in>set as'. before a ?n"
    using asok(2) g(5) by (simp add: before_def) (simp add: glued_def)
  moreover have "\<forall>b\<in>set bs. before ?n b"
    using nb(2) g(2,4) by (simp add: before_def)
  moreover have "\<forall>a\<in>set as'. \<forall>b\<in>set bs. before a b" using assms(4) p by simp
  moreover have "distinct (map en_id (as' @ ?n # bs))" using d p by auto
  ultimately have "nodes_ok ys"
    unfolding ys(1) nodes_ok_simps using asok(1) nb(1) g(1) by simp
  moreover have "graph ys = graph (as @ n # bs)"
    unfolding graph_def ys(1) p using g(3) by auto
  moreover have "en_id ` set ys = en_id ` set (as @ n # bs) - {en_id p}"
    using d unfolding ys(1) p by (auto simp: image_iff)
  moreover have "en_id p \<noteq> en_id n" using d p by auto
  ultimately show ?thesis using ys(2) p by simp
qed


text \<open>The node \<open>n\<close> has grown to the right and may now fit to its right neighbour.\<close>

definition next_glued :: "extent_node list \<Rightarrow> extent_node \<Rightarrow> extent_node list \<Rightarrow> nat option \<times> extent_node list" where
  "next_glued as n bs =
     (if bs \<noteq> [] \<and> is_extent_mergeable (ei n) (ei (hd bs))
      then (Some (en_id (hd bs)), as @ n\<lparr>ei := glued (ei n) (ei (hd bs))\<rparr> # tl bs)
      else (None, as @ n # bs))"

lemma next_glued_ok:
  assumes "nodes_ok (as @ [n])" and "nodes_ok bs" and "\<forall>b\<in>set bs. ex_end (ei n) \<le> unat (fofs (ei b))"
    and "\<forall>a\<in>set as. \<forall>b\<in>set bs. before a b" and d: "distinct (map en_id (as @ n # bs))"
    and "next_glued as n bs = (den, ys)"
  shows "nodes_ok ys \<and> graph ys = graph (as @ n # bs) \<and>
    en_id ` set ys = en_id ` set (as @ n # bs) - set_option den \<and> (den \<noteq> None \<longrightarrow> den \<noteq> Some (en_id n) \<and>
    set_option den \<subseteq> en_id ` set bs)"
proof -
  have na: "nodes_ok as" "ext_ok (ei n)" "\<forall>a\<in>set as. before a n"
    using assms(1) nodes_ok_simps [of as n "[]"] by simp_all
  show ?thesis
  proof (cases "bs \<noteq> [] \<and> is_extent_mergeable (ei n) (ei (hd bs))")
    case False
    have all: "\<forall>b\<in>set bs. before n b"
    proof (cases bs)
      case (Cons q cs)
      have ok: "ext_ok (ei q)" "\<forall>b\<in>set cs. before q b"
        using assms(2) Cons by (auto simp: nodes_ok_def)
      have nq: "ex_end (ei n) \<le> unat (fofs (ei q))" "\<not> is_extent_mergeable (ei n) (ei q)"
        using assms(3) False Cons by simp_all
      have "before n b" if "b \<in> set cs" for b
      proof -
        have "ex_end (ei q) \<le> unat (fofs (ei b))" using ok(2) that by (simp add: before_def)
        then have "ex_end (ei n) < unat (fofs (ei b))" using len_pos [OF ok(1)] nq(1) by linarith
        then show ?thesis using not_mergeable_apart [OF na(2)] by (simp add: before_def)
      qed
      then show ?thesis using Cons nq by (simp add: before_def)
    qed simp
    have ys: "ys = as @ n # bs" "den = None" using False assms(6) by (auto simp: next_glued_def)
    have "nodes_ok ys" unfolding ys(1) nodes_ok_simps using assms(2,4) na all d by blast
    then show ?thesis by (simp add: ys)
  next
    case True
    then obtain q cs where q: "bs = q # cs" by (cases bs) auto
    let ?n = "n\<lparr>ei := glued (ei n) (ei q)\<rparr>"
    have ok: "ext_ok (ei n)" "ext_ok (ei q)" "is_extent_mergeable (ei n) (ei q)"
      using na(2) assms(2) True q by (simp_all add: nodes_ok_def)
    note g = glued_facts [OF ok]
    have ys: "ys = as @ ?n # cs" "den = Some (en_id q)"
      using True assms(6) q by (simp_all add: next_glued_def)
    have csok: "nodes_ok cs" "\<forall>b\<in>set cs. before q b"
      using assms(2) q nodes_ok_simps [of "[]" q cs] by simp_all
    have "\<forall>a\<in>set as. before a ?n"
      using na(3) g(5) by (simp add: before_def) (simp add: glued_def)
    moreover have "\<forall>b\<in>set cs. before ?n b"
      using csok(2) g(2,4) by (simp add: before_def)
    moreover have "\<forall>a\<in>set as. \<forall>b\<in>set cs. before a b" using assms(4) q by simp
    moreover have "distinct (map en_id (as @ ?n # cs))" using d q by auto
    ultimately have "nodes_ok ys"
      unfolding ys(1) nodes_ok_simps using csok(1) na(1) g(1) by simp
    moreover have "graph ys = graph (as @ n # bs)"
      unfolding graph_def ys(1) q using g(3) by auto
    moreover have "en_id ` set ys = en_id ` set (as @ n # bs) - {en_id q}"
      using d unfolding ys(1) q by (auto simp: image_iff)
    moreover have "en_id q \<noteq> en_id n" using d q by auto
    ultimately show ?thesis using ys(2) q by simp
  qed
qed

section \<open>The tree and its nodes in order\<close>

lemma inorder_upd_node:
  assumes "inorder t = as @ n # bs" and "distinct (map en_id (inorder t))"
  shows "inorder (upd_node (en_id n) f t) = as @ n\<lparr>ei := f (ei n)\<rparr> # bs"
proof -
  have "map (\<lambda>m. if en_id m = en_id n then m\<lparr>ei := f (ei m)\<rparr> else m) xs = xs"
    if "en_id n \<notin> en_id ` set xs" for xs :: "extent_node list"
    using that by (intro map_idI) (metis image_eqI)
  moreover have "en_id n \<notin> en_id ` set as" "en_id n \<notin> en_id ` set bs" using assms by auto
  ultimately show ?thesis by (simp add: upd_node_def inorder_map assms(1))
qed

lemma find_node_Some:
  assumes "distinct (map en_id (inorder t))"
  shows "find_node i t = Some n \<longleftrightarrow> n \<in> set (inorder t) \<and> en_id n = i"
proof -
  have "find (\<lambda>m. en_id m = i) xs = Some n \<longleftrightarrow> n \<in> set xs \<and> en_id n = i" if "distinct (map en_id xs)" for xs
    using that by (induction xs) (auto simp: image_iff)
  then show ?thesis using assms by (simp add: find_node_def)
qed

lemma rb_prev_split:
  "distinct (map en_id (as @ n # bs)) \<Longrightarrow>
   rb_prev (en_id n) (as @ n # bs) = (if as = [] then None else Some (last as))"
proof (induction as)
  case Nil
  then show ?case
  proof (induction bs arbitrary: n)
    case (Cons b bs)
    have "rb_prev i (m # bs) = None" if "i \<notin> en_id ` set bs" for i m
      using that by (induction bs arbitrary: m) auto
    then show ?case using Cons.prems by auto
  qed simp
next
  case (Cons a as)
  then show ?case by (cases as) auto
qed

lemma rb_next_split:
  "distinct (map en_id (as @ n # bs)) \<Longrightarrow>
   rb_next (en_id n) (as @ n # bs) = (if bs = [] then None else Some (hd bs))"
proof (induction as)
  case Nil
  then show ?case by (cases bs) auto
next
  case (Cons a as)
  then show ?case by (cases as) auto
qed

lemma before_trans:
  assumes "before a b" and "before b c" and "ext_ok (ei a)" and "ext_ok (ei b)"
  shows "before a c"
proof -
  have "ex_end (ei a) < unat (fofs (ei c))"
    using assms(1,2) len_pos [OF assms(4)] by (auto simp: before_def)
  then show ?thesis using not_mergeable_apart [OF assms(3)] by (simp add: before_def)
qed

lemma tree_search_spec:
  assumes "nodes_ok (inorder t)"
  shows "tree_search fo t = Some n \<longleftrightarrow>
    n \<in> set (inorder t) \<and> unat (fofs (ei n)) \<le> unat fo \<and> unat fo < ex_end (ei n)"
  using assms
proof (induction t)
  case (Node l en r)
  have ok: "nodes_ok (inorder l)" "nodes_ok (inorder r)" "ext_ok (ei en)"
    and b: "\<forall>a\<in>set (inorder l). before a en" "\<forall>a\<in>set (inorder r). before en a"
    using Node.prems by (simp_all add: nodes_ok_simps)
  have l: "ex_end (ei a) \<le> unat (fofs (ei en))" if "a \<in> set_tree l" for a
    using b(1) that by (simp add: before_def)
  have r: "ex_end (ei en) \<le> unat (fofs (ei a))" if "a \<in> set_tree r" for a
    using b(2) that by (simp add: before_def)
  note c = covers_iff [OF ok(3)] len_pos [OF ok(3)]
  consider "fo < fofs (ei en)" | "\<not> fo < fofs (ei en)" "fo < fofs (ei en) + len (ei en)"
    | "\<not> fo < fofs (ei en)" "\<not> fo < fofs (ei en) + len (ei en)" by blast
  then show ?case
  proof cases
    case 1
    then have lt: "unat fo < unat (fofs (ei m))" if "m = en \<or> m \<in> set_tree r" for m
      using that r [of m] c(2) by (auto simp: word_less_nat_alt)
    have e: "tree_search fo \<langle>l, en, r\<rangle> = tree_search fo l" using 1 by simp
    show ?thesis unfolding e Node.IH(1) [OF ok(1)] using lt [of n] by auto
  next
    case 2
    have e: "tree_search fo \<langle>l, en, r\<rangle> = Some en" using 2 by auto
    have eq: "m = en" if "m \<in> set (inorder \<langle>l, en, r\<rangle>)" "unat (fofs (ei m)) \<le> unat fo" "unat fo < ex_end (ei m)" for m
      using that l [of m] r [of m] 2 c(1) by (auto simp: word_less_nat_alt)
    have "unat (fofs (ei en)) \<le> unat fo \<and> unat fo < ex_end (ei en)" "en \<in> set (inorder \<langle>l, en, r\<rangle>)"
      using 2 c(1) by (simp_all add: word_less_nat_alt)
    then show ?thesis unfolding e option.inject using eq [of n] by blast
  next
    case 3
    then have le: "ex_end (ei m) \<le> unat fo" if "m = en \<or> m \<in> set_tree l" for m
      using that l [of m] c(1) [of fo] c(2) by (auto simp: not_less)
    have e: "tree_search fo \<langle>l, en, r\<rangle> = tree_search fo r" using 3 by auto
    show ?thesis unfolding e Node.IH(2) [OF ok(2)] using le [of n] by auto
  qed
qed simp


lemma link_node_inorder:
  assumes "sorted_wrt (\<lambda>a b. fofs (ei a) < fofs (ei b)) (inorder t)"
  shows "inorder (link_node n t) = filter (\<lambda>m. fofs (ei m) \<le> fofs (ei n)) (inorder t) @ n #
    filter (\<lambda>m. fofs (ei n) < fofs (ei m)) (inorder t)"
  using assms
proof (induction t)
  case (Node l en r)
  have s: "\<forall>a\<in>set_tree l. fofs (ei a) < fofs (ei en)" "\<forall>a\<in>set_tree r. fofs (ei en) < fofs (ei a)"
    using Node.prems by (simp_all add: sorted_wrt_append)
  have none: "filter P xs = []" if "\<forall>x\<in>set xs. \<not> P x" for P and xs :: "extent_node list"
    using that by (simp add: filter_empty_conv)
  have all: "filter P xs = xs" if "\<forall>x\<in>set xs. P x" for P and xs :: "extent_node list"
    using that by simp
  show ?case
  proof (cases "fofs (ei n) < fofs (ei en)")
    case True
    have "fofs (ei n) < fofs (ei a)" if "a \<in> set_tree r" for a using s(2) True that by (meson less_trans)
    then have "filter (\<lambda>m. fofs (ei m) \<le> fofs (ei n)) (inorder r) = []"
        "filter (\<lambda>m. fofs (ei n) < fofs (ei m)) (inorder r) = inorder r"
      by (auto intro!: none all simp: not_le)
    then show ?thesis using True Node by (simp add: sorted_wrt_append not_le)
  next
    case False
    have "fofs (ei a) < fofs (ei n)" if "a \<in> set_tree l" for a
      using s(1) False that by (meson less_le_trans not_le)
    then have "filter (\<lambda>m. fofs (ei m) \<le> fofs (ei n)) (inorder l) = inorder l"
        "filter (\<lambda>m. fofs (ei n) < fofs (ei m)) (inorder l) = []"
      by (auto intro!: none all simp: not_less less_imp_le)
    then show ?thesis using False Node by (simp add: sorted_wrt_append not_le not_less)
  qed
qed simp

text \<open>An extent that overlaps no cached one.\<close>

definition fits :: "extent_info \<Rightarrow> extent_node list \<Rightarrow> bool" where
  "fits x xs \<longleftrightarrow> (\<forall>n\<in>set xs. ex_end x \<le> unat (fofs (ei n)) \<or> ex_end (ei n) \<le> unat (fofs x))"

lemma find_ins_pos_spec:
  assumes "nodes_ok (inorder t)" and "ext_ok x" and "fits x (inorder t)"
  shows "case find_ins_pos x t of
      Overlap \<Rightarrow> False
    | Front_of i \<Rightarrow> \<exists>n\<in>set (inorder t). en_id n = i \<and> is_extent_mergeable x (ei n)
    | Back_of i \<Rightarrow> \<exists>n\<in>set (inorder t). en_id n = i \<and> is_extent_mergeable (ei n) x
    | At_leaf \<Rightarrow> \<forall>n\<in>set (inorder t). \<not> is_extent_mergeable x (ei n) \<and> \<not> is_extent_mergeable (ei n) x"
  using assms(1,3)
proof (induction t)
  case (Node l en r)
  have ok: "nodes_ok (inorder l)" "nodes_ok (inorder r)" "ext_ok (ei en)"
    and b: "\<forall>a\<in>set (inorder l). before a en" "\<forall>a\<in>set (inorder r). before en a"
    using Node.prems by (simp_all add: nodes_ok_simps)
  have okl: "ext_ok (ei a)" if "a \<in> set_tree l \<or> a \<in> set_tree r" for a
    using ok that by (auto simp: nodes_ok_def)
  have f: "fits x (inorder l)" "fits x (inorder r)"
    "ex_end x \<le> unat (fofs (ei en)) \<or> ex_end (ei en) \<le> unat (fofs x)"
    using Node.prems(2) by (auto simp: fits_def)
  note c = covers_iff [OF ok(3)] len_pos [OF ok(3)] len_pos [OF assms(2)]
  note m = mergeable_iff [OF assms(2)] mergeable_iff [OF ok(3)]
  consider "fofs x < fofs (ei en)" "ex_end x \<le> unat (fofs (ei en))"
    | "\<not> fofs x < fofs (ei en)" "ex_end (ei en) \<le> unat (fofs x)"
    using f(3) c(2,3) by (auto simp: word_less_nat_alt)
  then show ?case
  proof cases
    case 1
    have r: "\<not> is_extent_mergeable x (ei a) \<and> \<not> is_extent_mergeable (ei a) x" if "a \<in> set_tree r" for a
      using b(2) that 1 c(2,3) m len_pos [OF okl] mergeable_iff [OF okl, of a x]
      by (fastforce simp: before_def)
    have e: "\<not> is_extent_mergeable (ei en) x" using 1 c m by auto
    show ?thesis
    proof (cases "is_extent_mergeable x (ei en)")
      case True
      then show ?thesis using 1 by (simp add: is_front_mergeable_def)
    next
      case False
      then show ?thesis
        using Node.IH(1) [OF ok(1) f(1)] 1 r e
        by (auto simp: is_front_mergeable_def split: ins_pos.splits)
    qed
  next
    case 2
    have l: "\<not> is_extent_mergeable x (ei a) \<and> \<not> is_extent_mergeable (ei a) x" if "a \<in> set_tree l" for a
      using b(1) that 2 c(2,3) m len_pos [OF okl] mergeable_iff [OF okl, of a x]
      by (fastforce simp: before_def)
    have e: "\<not> is_extent_mergeable x (ei en)" using 2 c m by auto
    have nl: "\<not> fofs x < fofs (ei en) + len (ei en)" using c(1) 2 by simp
    show ?thesis
    proof (cases "is_extent_mergeable (ei en) x")
      case True
      then have "find_ins_pos x \<langle>l, en, r\<rangle> = Back_of (en_id en)"
        using 2 nl by (auto simp: is_back_mergeable_def)
      then show ?thesis using True by simp
    next
      case False
      then show ?thesis
        using Node.IH(2) [OF ok(2) f(2)] 2 nl l e
        by (auto simp: is_back_mergeable_def not_less split: ins_pos.splits)
    qed
  qed
qed simp

section \<open>Operations of one tree\<close>

abbreviation (input) nodes :: "extent_tree \<Rightarrow> extent_node list" where
  "nodes et \<equiv> inorder (et_root et)"

definition ids :: "extent_tree \<Rightarrow> nat set" where
  "ids et = en_id ` set (nodes et)"

definition rb_ok :: "rb_lib \<Rightarrow> bool" where
  "rb_ok rb \<longleftrightarrow> (\<forall>t. inorder (rb_insert_color rb t) = inorder t) \<and>
     (\<forall>i t. inorder (rb_erase rb i t) = filter (\<lambda>n. en_id n \<noteq> i) (inorder t))"

definition tree_ok :: "extent_tree \<Rightarrow> bool" where
  "tree_ok et \<longleftrightarrow> nodes_ok (nodes et) \<and> et_count et = of_nat (length (nodes et)) \<and>
     set_option (cached_en et) \<subseteq> ids et"

text \<open>The state apart from the nodes' counter and names.\<close>

definition same_sb :: "ext_sb \<Rightarrow> ext_sb \<Rightarrow> bool" where
  "same_sb s s' \<longleftrightarrow> extent_tree_root s' = extent_tree_root s \<and> extent_list s' = extent_list s \<and>
     total_ext_tree s' = total_ext_tree s \<and> en_next s \<le> en_next s'"

lemma same_sb_refl [simp]: "same_sb s s" by (simp add: same_sb_def)

lemma same_sb_trans: "same_sb a b \<Longrightarrow> same_sb b c \<Longrightarrow> same_sb a c"
  by (auto simp: same_sb_def)

lemma card_ids: "nodes_ok (nodes et) \<Longrightarrow> card (ids et) = length (nodes et)"
  unfolding ids_def nodes_ok_def by (metis distinct_card length_map set_map)

text \<open>What an operation on a tree does to its nodes and to the node counter.\<close>

definition tree_step :: "(nat \<times> nat) set \<Rightarrow> nat set \<Rightarrow> extent_tree \<Rightarrow> ext_sb \<Rightarrow> extent_tree \<Rightarrow> ext_sb \<Rightarrow> bool" where
  "tree_step gr I et s et' s' \<longleftrightarrow> tree_ok et' \<and> graph (nodes et') = gr \<and> ids et' = I \<and>
     total_ext_node s' - total_ext_node s = int (card (ids et')) - int (card (ids et)) \<and>
     same_sb s s' \<and> et_refcount et' = et_refcount et"

lemma distinct_card_ids: "distinct (map en_id (nodes et)) \<Longrightarrow> card (ids et) = length (nodes et)"
  unfolding ids_def by (metis distinct_card length_map set_map)

definition books_ok :: "extent_tree \<Rightarrow> bool" where
  "books_ok et \<longleftrightarrow> distinct (map en_id (nodes et)) \<and> et_count et = of_nat (length (nodes et)) \<and>
     set_option (cached_en et) \<subseteq> ids et"

lemma tree_ok_books: "tree_ok et \<longleftrightarrow> nodes_ok (nodes et) \<and> books_ok et"
  by (auto simp: tree_ok_def books_ok_def nodes_ok_def)

lemma detach_raw:
  assumes "rb_ok rb" and "books_ok et" and "i \<in> ids et" and "detach_extent_node rb i et s = (et', s')"
  shows "nodes et' = filter (\<lambda>n. en_id n \<noteq> i) (nodes et)" and "books_ok et'" and "ids et' = ids et - {i}"
    and "total_ext_node s' - total_ext_node s = int (card (ids et')) - int (card (ids et))"
    and "same_sb s s'" and "en_next s' = en_next s" and "et_refcount et' = et_refcount et"
proof -
  have e: "et' = et\<lparr>et_root := rb_erase rb i (et_root et), et_count := et_count et - 1,
         cached_en := (if cached_en et = Some i then None else cached_en et)\<rparr>"
      "s' = s\<lparr>total_ext_node := total_ext_node s - 1\<rparr>"
    using assms(4) by (simp_all add: detach_extent_node_def)
  show n: "nodes et' = filter (\<lambda>n. en_id n \<noteq> i) (nodes et)" and "en_next s' = en_next s"
    and "et_refcount et' = et_refcount et" and "same_sb s s'"
    using assms(1) by (simp_all add: e rb_ok_def same_sb_def)
  show I: "ids et' = ids et - {i}" by (auto simp: ids_def n)
  have d: "distinct (map en_id (nodes et))" "distinct (map en_id (nodes et'))"
    using assms(2) n by (simp_all add: books_ok_def distinct_map_filter)
  have fin: "finite (ids et)" by (simp add: ids_def)
  have c: "Suc (card (ids et')) = card (ids et)" using card_Suc_Diff1 [OF fin assms(3)] I by simp
  then show "total_ext_node s' - total_ext_node s = int (card (ids et')) - int (card (ids et))"
    by (simp add: e(2))
  have "et_count et = of_nat (Suc (length (nodes et')))"
    using assms(2) c distinct_card_ids [OF d(1)] distinct_card_ids [OF d(2)] by (simp only: books_ok_def)
  moreover have "et_count et' = et_count et - 1" by (simp add: e(1))
  ultimately have "et_count et' = of_nat (length (nodes et'))" by simp
  then show "books_ok et'"
    using assms(2) I d(2) by (auto simp: e(1) books_ok_def)
qed

lemma detach_spec:
  assumes "rb_ok rb" and "tree_ok et" and "i \<in> ids et" and "detach_extent_node rb i et s = (et', s')"
  shows "tree_step (graph (filter (\<lambda>n. en_id n \<noteq> i) (nodes et))) (ids et - {i}) et s et' s'"
    and "nodes et' = filter (\<lambda>n. en_id n \<noteq> i) (nodes et)" and "en_next s' = en_next s"
  using assms(2) detach_raw [OF assms(1) _ assms(3,4)] nodes_ok_filter
  by (auto simp: tree_ok_books tree_step_def)

lemma attach_spec:
  assumes "rb_ok rb" and "tree_ok et" and "ext_ok x" and "fits x (nodes et)"
    and "\<forall>n\<in>set (nodes et). \<not> is_extent_mergeable x (ei n) \<and> \<not> is_extent_mergeable (ei n) x"
    and "\<forall>i\<in>ids et. i < en_next s" and "attach_extent_node rb ok x et s = (en, et', s')"
  shows "en_next s' = en_next s + 1 \<and> (if ok (en_next s)
     then en = Some (en_next s) \<and> tree_step (graph (nodes et) \<union> ext_graph x) (insert (en_next s) (ids et)) et s et' s'
     else en = None \<and> tree_step (graph (nodes et)) (ids et) et s et' s')"
proof (cases "ok (en_next s)")
  case False
  then show ?thesis
    using assms(2,7) by (auto simp: attach_extent_node_def Let_def tree_step_def same_sb_def)
next
  case True
  let ?n = "\<lparr>en_id = en_next s, ei = x\<rparr>"
  define as where "as = filter (\<lambda>m. fofs (ei m) \<le> fofs x) (nodes et)"
  define bs where "bs = filter (\<lambda>m. fofs x < fofs (ei m)) (nodes et)"
  have ok: "nodes_ok (nodes et)" using assms(2) by (simp add: tree_ok_def)
  have eok: "ext_ok (ei m)" if "m \<in> set (nodes et)" for m using ok that by (simp add: nodes_ok_def)
  have "sorted_wrt (\<lambda>a b. fofs (ei a) < fofs (ei b)) (nodes et)"
    using ok before_fofs unfolding nodes_ok_def by (metis (mono_tags, lifting) sorted_wrt_mono_rel)
  from link_node_inorder [OF this, of ?n]
  have lk: "inorder (link_node ?n (et_root et)) = as @ ?n # bs" by (simp add: as_def bs_def)
  have e: "en = Some (en_next s)" "et' = et\<lparr>et_root := rb_insert_color rb (link_node ?n (et_root et)),
      et_count := et_count et + 1\<rparr>" "s' = s\<lparr>en_next := en_next s + 1, total_ext_node := total_ext_node s + 1\<rparr>"
    using assms(7) True by (auto simp: attach_extent_node_def Let_def)
  have n: "nodes et' = as @ ?n # bs" using assms(1) lk by (simp add: e(2) rb_ok_def)
  have un: "set as \<union> set bs = set (nodes et)" by (auto simp: as_def bs_def not_le)
  have a: "before m ?n" if "m \<in> set as" for m
  proof -
    have m: "m \<in> set (nodes et)" "unat (fofs (ei m)) \<le> unat (fofs x)"
      using that by (simp_all add: as_def word_le_nat_alt)
    then have "ex_end (ei m) \<le> unat (fofs x)"
      using assms(4) len_pos [OF assms(3)] unfolding fits_def by (meson le_trans not_less)
    then show ?thesis using m(1) assms(5) by (simp add: before_def)
  qed
  have b: "before ?n m" if "m \<in> set bs" for m
  proof -
    have m: "m \<in> set (nodes et)" "unat (fofs x) < unat (fofs (ei m))"
      using that by (simp_all add: bs_def word_less_nat_alt)
    then have "ex_end x \<le> unat (fofs (ei m))"
      using assms(4) len_pos [OF eok [OF m(1)]] unfolding fits_def by (meson le_less_trans less_trans not_less_iff_gr_or_eq not_le)
    then show ?thesis using m(1) assms(5) by (simp add: before_def)
  qed
  have ab: "before m m'" if "m \<in> set as" "m' \<in> set bs" for m m'
    using before_trans [OF a [OF that(1)] b [OF that(2)]] assms(3) eok that(1) un by auto
  have dn: "distinct (map en_id (nodes et))" using ok by (simp add: nodes_ok_def)
  then have inj: "inj_on en_id (set (nodes et))" by (simp add: distinct_map)
  have "set as \<inter> set bs = {}" by (auto simp: as_def bs_def)
  then have "en_id ` set as \<inter> en_id ` set bs = {}"
    using inj un by (metis Un_upper1 Un_upper2 image_empty inj_on_image_Int)
  moreover have "en_next s \<notin> en_id ` set (nodes et)" using assms(6) unfolding ids_def by blast
  then have "en_next s \<notin> en_id ` set as \<union> en_id ` set bs" unfolding un [symmetric] by auto
  moreover have "distinct (map en_id as)" "distinct (map en_id bs)"
    using dn by (simp_all add: as_def bs_def distinct_map_filter)
  ultimately have d: "distinct (map en_id (as @ ?n # bs))" by auto
  have nok: "nodes_ok (nodes et')"
    unfolding n nodes_ok_simps using a b ab d assms(3) nodes_ok_filter [OF ok]
    by (simp add: as_def bs_def)
  have I: "ids et' = insert (en_next s) (ids et)"
    unfolding ids_def n using un by auto
  have "graph (nodes et') = graph (nodes et) \<union> ext_graph x"
    unfolding graph_def n using un [symmetric] by auto
  moreover have "length (nodes et') = Suc (length (nodes et))"
  proof -
    have "en_next s \<notin> ids et" "finite (ids et)" using assms(6) by (blast, simp add: ids_def)
    then show ?thesis using card_ids [OF ok] card_ids [OF nok] I by simp
  qed
  moreover have "set_option (cached_en et') \<subseteq> ids et'"
    using assms(2) I by (auto simp: e(2) tree_ok_def)
  ultimately have "tree_step (graph (nodes et) \<union> ext_graph x) (insert (en_next s) (ids et)) et s et' s'"
    using nok I card_ids [OF ok] card_ids [OF nok] assms(2)
    by (simp add: tree_step_def tree_ok_def) (simp add: e same_sb_def)
  then show ?thesis using True e by simp
qed



text \<open>A merge into an existing node, and then with its other neighbour.\<close>

lemma upd_books:
  assumes "books_ok et" and "nodes et = as @ n # bs"
    and "et1 = et\<lparr>et_root := upd_node (en_id n) f (et_root et)\<rparr>"
  shows "nodes et1 = as @ n\<lparr>ei := f (ei n)\<rparr> # bs" and "books_ok et1" and "ids et1 = ids et"
proof -
  show n: "nodes et1 = as @ n\<lparr>ei := f (ei n)\<rparr> # bs"
    using inorder_upd_node [OF assms(2)] assms(1,3) by (simp add: books_ok_def)
  show I: "ids et1 = ids et" by (simp only: ids_def n assms(2)) simp
  have "length (nodes et1) = length (nodes et)" "map en_id (nodes et1) = map en_id (nodes et)"
    by (simp_all only: n assms(2)) simp_all
  moreover have "et_count et1 = et_count et" "cached_en et1 = cached_en et" by (simp_all add: assms(3))
  ultimately show "books_ok et1" using assms(1) I by (simp only: books_ok_def)
qed

lemma try_back_merge_spec:
  assumes rb: "rb_ok rb" and bk: "books_ok et" and sp: "nodes et = as @ n # bs"
    and ok: "nodes_ok as" "nodes_ok (n # bs)" "\<forall>a\<in>set as. ex_end (ei a) \<le> unat (fofs (ei n))"
      "\<forall>a\<in>set as. \<forall>b\<in>set bs. before a b"
    and m: "try_back_merge rb (en_id n) et s = (d, et', s')"
  shows "tree_step (graph (nodes et)) (ids et - set_option d) et s et' s' \<and>
    en_id n \<notin> set_option d \<and> set_option d \<subseteq> ids et \<and> en_next s' = en_next s"
proof -
  have dis: "distinct (map en_id (as @ n # bs))" using bk sp by (simp add: books_ok_def)
  obtain den ys where pg: "prev_glued as n bs = (den, ys)" by fastforce
  note r = prev_glued_ok [OF ok dis pg]
  have fn: "find_node (en_id n) (et_root et) = Some n"
    using find_node_Some [of "et_root et" "en_id n" n] dis sp by simp
  note pr = rb_prev_split [OF dis]
  show ?thesis
  proof (cases "as \<noteq> [] \<and> is_extent_mergeable (ei (last as)) (ei n)")
    case False
    then have "d = None" "et' = et" "s' = s" "den = None" "ys = nodes et"
      using m pg by (auto simp: try_back_merge_def pr fn is_back_mergeable_def prev_glued_def sp split: if_splits)
    then show ?thesis using r bk by (simp add: tree_step_def tree_ok_books)
  next
    case True
    then obtain as' p where p: "as = as' @ [p]" by (metis append_butlast_last_id)
    then have lp: "last as = p" by simp
    define et1 where "et1 = et\<lparr>et_root := upd_node (en_id n) (\<lambda>x. x\<lparr>fofs := fofs (ei p), blk := blk (ei p),
                                    len := len x + len (ei p)\<rparr>) (et_root et)\<rparr>"
    note ub = upd_books [OF bk sp et1_def]
    have e: "d = Some (en_id p)" "detach_extent_node rb (en_id p) et1 s = (et', s')"
      using m True by (auto simp: try_back_merge_def sp pr fn is_back_mergeable_def lp et1_def [symmetric]
          split: prod.splits)
    have pin: "en_id p \<in> ids et1" unfolding ub(3) by (simp add: ids_def sp p)
    note dr = detach_raw [OF rb ub(2) pin e(2)]
    have "filter (\<lambda>m. en_id m \<noteq> en_id p) xs = xs"
        if "en_id p \<notin> en_id ` set xs" for xs :: "extent_node list"
      using that by (intro filter_True) (metis image_eqI)
    then have "nodes et' = as' @ n\<lparr>ei := glued (ei p) (ei n)\<rparr> # bs"
      using dis unfolding dr(1) ub(1) p by (simp add: glued_def add.commute)
    then have ys: "ys = nodes et'" "den = d" using pg True p e(1) by (simp_all add: prev_glued_def)
    have gi: "graph (as @ n # bs) = graph (nodes et)" by (simp only: sp)
    have "nodes_ok (nodes et')" "graph (nodes et') = graph (nodes et)" "en_id p \<noteq> en_id n"
      using r gi by (simp_all add: ys e(1))
    moreover have "et_refcount et1 = et_refcount et" by (simp add: et1_def)
    ultimately show ?thesis
      using dr(2-7) pin unfolding ub(3) e(1) by (simp add: tree_step_def tree_ok_books)
  qed
qed


lemma try_front_merge_spec:
  assumes rb: "rb_ok rb" and bk: "books_ok et" and sp: "nodes et = as @ n # bs"
    and ok: "nodes_ok (as @ [n])" "nodes_ok bs" "\<forall>b\<in>set bs. ex_end (ei n) \<le> unat (fofs (ei b))"
      "\<forall>a\<in>set as. \<forall>b\<in>set bs. before a b"
    and m: "try_front_merge rb (en_id n) et s = (d, et', s')"
  shows "tree_step (graph (nodes et)) (ids et - set_option d) et s et' s' \<and>
    en_id n \<notin> set_option d \<and> set_option d \<subseteq> ids et \<and> en_next s' = en_next s"
proof -
  have dis: "distinct (map en_id (as @ n # bs))" using bk sp by (simp add: books_ok_def)
  obtain den ys where pg: "next_glued as n bs = (den, ys)" by fastforce
  note r = next_glued_ok [OF ok dis pg]
  have fn: "find_node (en_id n) (et_root et) = Some n"
    using find_node_Some [of "et_root et" "en_id n" n] dis sp by simp
  note pr = rb_next_split [OF dis]
  show ?thesis
  proof (cases "bs \<noteq> [] \<and> is_extent_mergeable (ei n) (ei (hd bs))")
    case False
    then have "d = None" "et' = et" "s' = s" "den = None" "ys = nodes et"
      using m pg by (auto simp: try_front_merge_def pr fn is_front_mergeable_def next_glued_def sp split: if_splits)
    then show ?thesis using r bk by (simp add: tree_step_def tree_ok_books)
  next
    case True
    then obtain q cs where q: "bs = q # cs" by (cases bs) auto
    then have hq: "hd bs = q" by simp
    define et1 where "et1 = et\<lparr>et_root := upd_node (en_id n) (\<lambda>x. x\<lparr>len := len x + len (ei q)\<rparr>) (et_root et)\<rparr>"
    note ub = upd_books [OF bk sp et1_def]
    have e: "d = Some (en_id q)" "detach_extent_node rb (en_id q) et1 s = (et', s')"
      using m True by (auto simp: try_front_merge_def sp pr fn is_front_mergeable_def hq et1_def [symmetric]
          split: prod.splits)
    have qin: "en_id q \<in> ids et1" unfolding ub(3) by (simp add: ids_def sp q)
    note dr = detach_raw [OF rb ub(2) qin e(2)]
    have "filter (\<lambda>m. en_id m \<noteq> en_id q) xs = xs"
        if "en_id q \<notin> en_id ` set xs" for xs :: "extent_node list"
      using that by (intro filter_True) (metis image_eqI)
    then have "nodes et' = as @ n\<lparr>ei := glued (ei n) (ei q)\<rparr> # cs"
      using dis unfolding dr(1) ub(1) q by (simp add: glued_def)
    then have ys: "ys = nodes et'" "den = d" using pg True q e(1) by (simp_all add: next_glued_def)
    have gi: "graph (as @ n # bs) = graph (nodes et)" by (simp only: sp)
    have "nodes_ok (nodes et')" "graph (nodes et') = graph (nodes et)" "en_id q \<noteq> en_id n"
      using r gi by (simp_all add: ys e(1))
    moreover have "et_refcount et1 = et_refcount et" by (simp add: et1_def)
    ultimately show ?thesis
      using dr(2-7) qin unfolding ub(3) e(1) by (simp add: tree_step_def tree_ok_books)
  qed
qed

lemma nodes_ok_Nil: "nodes_ok []" by (simp add: nodes_ok_def)

lemma graph_split: "graph (as @ n # bs) = graph (as @ bs) \<union> ext_graph (ei n)"
  by (auto simp: graph_def)

lemma merge_front_spec:
  assumes "rb_ok rb" and "tree_ok et" and "ext_ok x" and "fits x (nodes et)"
    and "n \<in> set (nodes et)" and "is_extent_mergeable x (ei n)"
    and et1: "et1 = et\<lparr>et_root := upd_node (en_id n) (\<lambda>e. e\<lparr>fofs := fofs x, blk := blk x, len := len e + len x\<rparr>)
      (et_root et)\<rparr>"
    and m: "try_back_merge rb (en_id n) et1 s = (d, et', s')"
  shows "tree_step (graph (nodes et) \<union> ext_graph x) (ids et - set_option d) et s et' s' \<and>
    en_id n \<notin> set_option d \<and> set_option d \<subseteq> ids et \<and> en_next s' = en_next s"
proof -
  have ok: "nodes_ok (nodes et)" "books_ok et" using assms(2) by (simp_all add: tree_ok_books)
  obtain as bs where sp: "nodes et = as @ n # bs" using assms(5) by (meson split_list)
  have nok: "ext_ok (ei n)" using ok assms(5) by (simp add: nodes_ok_def)
  let ?n = "n\<lparr>ei := glued x (ei n)\<rparr>"
  note ub = upd_books [OF ok(2) sp et1]
  have n1: "nodes et1 = as @ ?n # bs" using ub(1) by (simp add: glued_def add.commute)
  note g = glued_facts [OF assms(3) nok assms(6)]
  note o = ok(1) [unfolded sp nodes_ok_simps]
  have "ex_end (ei a) \<le> unat (fofs (ei ?n))" if a: "a \<in> set as" for a
  proof -
    have "ex_end (ei a) \<le> unat (fofs (ei n))" using o a by (simp add: before_def)
    moreover have "ext_ok (ei a)" using o a by (simp add: nodes_ok_def)
    moreover have "ex_end x = unat (fofs (ei n))" using assms(6) mergeable_iff [OF assms(3)] by simp
    moreover have "ex_end x \<le> unat (fofs (ei a)) \<or> ex_end (ei a) \<le> unat (fofs x)"
      using assms(4) a by (simp add: fits_def sp)
    ultimately show ?thesis using len_pos [of "ei a"] by (auto simp: glued_def)
  qed
  moreover have "distinct (map en_id (as @ ?n # bs))" using o by simp
  then have "nodes_ok (?n # bs)"
    using nodes_ok_simps [of "[]" ?n bs] o g by (auto simp: before_def nodes_ok_Nil)
  ultimately have r: "tree_step (graph (nodes et1)) (ids et1 - set_option d) et1 s et' s' \<and>
      en_id ?n \<notin> set_option d \<and> set_option d \<subseteq> ids et1 \<and> en_next s' = en_next s"
    using o m by (intro try_back_merge_spec [OF assms(1) ub(2) n1]) simp_all
  have "graph (nodes et1) = graph (nodes et) \<union> ext_graph x"
    unfolding n1 sp graph_split using g(3) by auto
  then show ?thesis using r ub(3) by (simp add: tree_step_def et1)
qed

lemma merge_back_spec:
  assumes "rb_ok rb" and "tree_ok et" and "ext_ok x" and "fits x (nodes et)"
    and "n \<in> set (nodes et)" and "is_extent_mergeable (ei n) x"
    and et1: "et1 = et\<lparr>et_root := upd_node (en_id n) (\<lambda>e. e\<lparr>len := len e + len x\<rparr>) (et_root et)\<rparr>"
    and m: "try_front_merge rb (en_id n) et1 s = (d, et', s')"
  shows "tree_step (graph (nodes et) \<union> ext_graph x) (ids et - set_option d) et s et' s' \<and>
    en_id n \<notin> set_option d \<and> set_option d \<subseteq> ids et \<and> en_next s' = en_next s"
proof -
  have ok: "nodes_ok (nodes et)" "books_ok et" using assms(2) by (simp_all add: tree_ok_books)
  obtain as bs where sp: "nodes et = as @ n # bs" using assms(5) by (meson split_list)
  have nok: "ext_ok (ei n)" using ok assms(5) by (simp add: nodes_ok_def)
  let ?n = "n\<lparr>ei := glued (ei n) x\<rparr>"
  note ub = upd_books [OF ok(2) sp et1]
  have n1: "nodes et1 = as @ ?n # bs" using ub(1) by (simp add: glued_def)
  note g = glued_facts [OF nok assms(3,6)]
  note o = ok(1) [unfolded sp nodes_ok_simps]
  have "ex_end (ei ?n) \<le> unat (fofs (ei b))" if b: "b \<in> set bs" for b
  proof -
    have "ex_end (ei n) \<le> unat (fofs (ei b))" using o b by (simp add: before_def)
    moreover have "ext_ok (ei b)" using o b by (simp add: nodes_ok_def)
    moreover have "ex_end (ei n) = unat (fofs x)" using assms(6) mergeable_iff [OF nok] by simp
    moreover have "ex_end x \<le> unat (fofs (ei b)) \<or> ex_end (ei b) \<le> unat (fofs x)"
      using assms(4) b by (simp add: fits_def sp)
    ultimately show ?thesis using len_pos [of "ei b"] g(2) by auto
  qed
  moreover have d1: "distinct (map en_id (as @ [?n]))" using o by simp
  moreover have "\<forall>a\<in>set as. before a ?n" using o g(5) by (simp add: before_def) (simp add: glued_def)
  then have "nodes_ok (as @ [?n])"
    using nodes_ok_simps [of as ?n "[]"] o g(1) d1 by (simp add: nodes_ok_def)
  ultimately have r: "tree_step (graph (nodes et1)) (ids et1 - set_option d) et1 s et' s' \<and>
      en_id ?n \<notin> set_option d \<and> set_option d \<subseteq> ids et1 \<and> en_next s' = en_next s"
    using o m by (intro try_front_merge_spec [OF assms(1) ub(2) n1]) simp_all
  have "graph (nodes et1) = graph (nodes et) \<union> ext_graph x"
    unfolding n1 sp graph_split using g(3) by auto
  then show ?thesis using r ub(3) by (simp add: tree_step_def et1)
qed

section \<open>Conditions on the cached pairs\<close>

text \<open>\<open>x\<close> overlaps no cached run; \<open>x\<close> continues no cached run on either side.\<close>

definition free_of :: "extent_info \<Rightarrow> (nat \<times> nat) set \<Rightarrow> bool" where
  "free_of x G \<longleftrightarrow> (\<forall>(f, b)\<in>G. f < unat (fofs x) \<or> ex_end x \<le> f)"

definition lonely :: "extent_info \<Rightarrow> (nat \<times> nat) set \<Rightarrow> bool" where
  "lonely x G \<longleftrightarrow> (ex_end x, unat (blk x) + unat (len x)) \<notin> G \<and>
     (\<forall>f b. Suc f = unat (fofs x) \<longrightarrow> Suc b = unat (blk x) \<longrightarrow> (f, b) \<notin> G)"

lemma in_graph:
  assumes "n \<in> set xs" and "unat (fofs (ei n)) \<le> f" and "f < ex_end (ei n)"
  shows "(f, unat (blk (ei n)) + (f - unat (fofs (ei n)))) \<in> graph xs"
  using assms by (auto simp: graph_def ext_graph_def)

lemma fits_graph:
  assumes "nodes_ok xs" and "ext_ok x" and "free_of x (graph xs)"
  shows "fits x xs"
  unfolding fits_def
proof
  fix n assume n: "n \<in> set xs"
  then have ok: "unat (fofs (ei n)) < ex_end (ei n)" using assms(1) len_pos by (simp add: nodes_ok_def)
  note l = len_pos [OF assms(2)]
  show "ex_end x \<le> unat (fofs (ei n)) \<or> ex_end (ei n) \<le> unat (fofs x)"
  proof (rule ccontr)
    assume "\<not> ?thesis"
    then have h: "unat (fofs (ei n)) < ex_end x" "unat (fofs x) < ex_end (ei n)" by simp_all
    define f where "f = max (unat (fofs (ei n))) (unat (fofs x))"
    have "(f, unat (blk (ei n)) + (f - unat (fofs (ei n)))) \<in> graph xs"
      using h ok by (intro in_graph [OF n]) (auto simp: f_def)
    then have "f < unat (fofs x) \<or> ex_end x \<le> f" using assms(3) by (auto simp: free_of_def)
    then show False using h l by (auto simp: f_def max_def split: if_splits)
  qed
qed

lemma lonely_not_mergeable:
  assumes "nodes_ok xs" and "ext_ok x" and "lonely x (graph xs)" and "n \<in> set xs"
  shows "\<not> is_extent_mergeable x (ei n)" and "\<not> is_extent_mergeable (ei n) x"
proof -
  have ok: "ext_ok (ei n)" using assms(1,4) by (simp add: nodes_ok_def)
  note l = len_pos [OF ok]
  show "\<not> is_extent_mergeable x (ei n)"
  proof
    assume "is_extent_mergeable x (ei n)"
    then have m: "ex_end x = unat (fofs (ei n))" "unat (blk x) + unat (len x) = unat (blk (ei n))"
      using mergeable_iff [OF assms(2)] by simp_all
    then have "(ex_end x, unat (blk x) + unat (len x)) \<in> graph xs"
      using in_graph [OF assms(4), of "ex_end x"] l by simp
    then show False using assms(3) by (simp add: lonely_def)
  qed
  show "\<not> is_extent_mergeable (ei n) x"
  proof
    assume "is_extent_mergeable (ei n) x"
    then have m: "ex_end (ei n) = unat (fofs x)" "unat (blk (ei n)) + unat (len (ei n)) = unat (blk x)"
      using mergeable_iff [OF ok] by simp_all
    obtain k where k: "unat (len (ei n)) = Suc k" using l by (cases "unat (len (ei n))") (simp_all add: ex_end_def)
    have "(unat (fofs (ei n)) + k, unat (blk (ei n)) + k) \<in> graph xs"
      using in_graph [OF assms(4), of "unat (fofs (ei n)) + k"] k by (simp add: ex_end_def)
    then show False
      using assms(3) m k unfolding lonely_def by (simp add: ex_end_def)
  qed
qed

lemma before_cases:
  assumes "nodes_ok xs" and "n \<in> set xs" and "m \<in> set xs" and "n \<noteq> m"
  shows "before n m \<or> before m n"
proof -
  obtain i j where ij: "i < length xs" "j < length xs" "xs ! i = n" "xs ! j = m"
    using assms(2,3) by (metis in_set_conv_nth)
  then have "i < j \<or> j < i" using assms(4) by (metis nat_neq_iff)
  then show ?thesis
    using assms(1) ij sorted_wrt_nth_less unfolding nodes_ok_def by metis
qed

text \<open>A cached run is alone where it stands: without it nothing overlaps or continues it.\<close>

lemma cached_run_alone:
  assumes "nodes_ok xs" and "n \<in> set xs"
  shows "free_of (ei n) (graph (filter (\<lambda>m. en_id m \<noteq> en_id n) xs))"
    and "lonely (ei n) (graph (filter (\<lambda>m. en_id m \<noteq> en_id n) xs))"
proof -
  have ok: "ext_ok (ei m)" if "m \<in> set xs" for m using assms(1) that by (simp add: nodes_ok_def)
  have b: "before n m \<or> before m n" if "m \<in> set (filter (\<lambda>m. en_id m \<noteq> en_id n) xs)" for m
    using before_cases [OF assms, of m] that by auto
  note l = len_pos [OF ok]
  show "free_of (ei n) (graph (filter (\<lambda>m. en_id m \<noteq> en_id n) xs))"
    using b by (fastforce simp: free_of_def graph_def ext_graph_def before_def)
  have "\<not> (f = ex_end (ei n) \<and> c = unat (blk (ei n)) + unat (len (ei n)) \<or>
      Suc f = unat (fofs (ei n)) \<and> Suc c = unat (blk (ei n)))"
    if m: "m \<in> set (filter (\<lambda>m. en_id m \<noteq> en_id n) xs)" and fc: "(f, c) \<in> ext_graph (ei m)" for m f c
  proof -
    have "m \<in> set xs" using m by simp
    note lm = l [OF this] mergeable_iff [OF ok [OF this]] mergeable_iff [OF ok [OF assms(2)]] l [OF assms(2)]
    have fc': "unat (fofs (ei m)) \<le> f" "f < ex_end (ei m)" "c = unat (blk (ei m)) + (f - unat (fofs (ei m)))"
      using fc by (simp_all add: ext_graph_def)
    from b [OF m] show ?thesis
    proof
      assume bf: "before n m"
      show ?thesis using bf fc' lm by (auto simp: before_def)
    next
      assume bf: "before m n"
      show ?thesis using bf fc' lm by (auto simp: before_def ex_end_def)
    qed
  qed
  then show "lonely (ei n) (graph (filter (\<lambda>m. en_id m \<noteq> en_id n) xs))"
    by (auto simp: lonely_def graph_def)
qed

section \<open>Insertion and lookup\<close>

definition inserted :: "extent_info \<Rightarrow> extent_tree \<Rightarrow> ext_sb \<Rightarrow> nat option \<Rightarrow> nat option \<Rightarrow> extent_tree \<Rightarrow> ext_sb \<Rightarrow> bool" where
  "inserted x et s en d et' s' \<longleftrightarrow>
     (case en of
        None \<Rightarrow> d = None \<and> tree_step (graph (nodes et)) (ids et) et s et' s'
      | Some i \<Rightarrow> tree_step (graph (nodes et) \<union> ext_graph x) (insert i (ids et) - set_option d) et s et' s' \<and>
          i < en_next s' \<and> (i \<in> ids et \<or> i = en_next s) \<and> i \<notin> set_option d \<and> set_option d \<subseteq> ids et)"

lemma insert_spec:
  assumes "rb_ok rb" and "tree_ok et" and "ext_ok x" and "free_of x (graph (nodes et))"
    and "\<forall>i\<in>ids et. i < en_next s" and "den \<or> lonely x (graph (nodes et))"
  shows "\<exists>en d et' s'. insert_extent_tree rb ok x den et s = Some (en, d, et', s') \<and>
    inserted x et s en d et' s' \<and> ((\<forall>i. ok i) \<longrightarrow> en \<noteq> None) \<and>
    (\<not> den \<longrightarrow> d = None \<and> set_option en \<subseteq> {en_next s})"
proof -
  have nok: "nodes_ok (nodes et)" using assms(2) by (simp add: tree_ok_def)
  have fits: "fits x (nodes et)" by (rule fits_graph [OF nok assms(3,4)])
  note pos = find_ins_pos_spec [OF nok assms(3) fits]
  note lon = lonely_not_mergeable [OF nok assms(3)]
  show ?thesis
  proof (cases "find_ins_pos x (et_root et)")
    case At_leaf
    obtain en et' s' where a: "attach_extent_node rb ok x et s = (en, et', s')" by (metis prod_cases3)
    have "\<forall>n\<in>set (nodes et). \<not> is_extent_mergeable x (ei n) \<and> \<not> is_extent_mergeable (ei n) x"
      using pos At_leaf by simp
    note as = attach_spec [OF assms(1-3) fits this assms(5) a]
    have "inserted x et s en None et' s'"
      using as by (auto simp: inserted_def split: if_splits)
    then show ?thesis using as a by (simp add: insert_extent_tree_def At_leaf split: if_splits)
  next
    case (Front_of i)
    then obtain n where n: "n \<in> set (nodes et)" "en_id n = i" "is_extent_mergeable x (ei n)" using pos by auto
    then have den: den using assms(6) lon by blast
    define et1 where "et1 = et\<lparr>et_root := upd_node (en_id n) (\<lambda>e. e\<lparr>fofs := fofs x, blk := blk x,
      len := len e + len x\<rparr>) (et_root et)\<rparr>"
    obtain d et' s' where m: "try_back_merge rb (en_id n) et1 s = (d, et', s')" by (metis prod_cases3)
    note r = merge_front_spec [OF assms(1-3) fits n(1,3) et1_def m]
    have i: "i \<in> ids et" using n by (auto simp: ids_def)
    then have "insert i (ids et) = ids et" by blast
    then have "inserted x et s (Some i) d et' s'" using r i assms(5) n(2) by (simp add: inserted_def)
    then show ?thesis
      using den m n(2) by (simp add: insert_extent_tree_def Front_of et1_def)
  next
    case (Back_of i)
    then obtain n where n: "n \<in> set (nodes et)" "en_id n = i" "is_extent_mergeable (ei n) x" using pos by auto
    then have den: den using assms(6) lon by blast
    define et1 where "et1 = et\<lparr>et_root := upd_node (en_id n) (\<lambda>e. e\<lparr>len := len e + len x\<rparr>) (et_root et)\<rparr>"
    obtain d et' s' where m: "try_front_merge rb (en_id n) et1 s = (d, et', s')" by (metis prod_cases3)
    note r = merge_back_spec [OF assms(1-3) fits n(1,3) et1_def m]
    have i: "i \<in> ids et" using n by (auto simp: ids_def)
    then have "insert i (ids et) = ids et" by blast
    then have "inserted x et s (Some i) d et' s'" using r i assms(5) n(2) by (simp add: inserted_def)
    then show ?thesis
      using den m n(2) by (simp add: insert_extent_tree_def Back_of et1_def)
  next
    case Overlap
    then show ?thesis using pos by simp
  qed
qed

lemma covering_unique:
  assumes "nodes_ok xs" and "n \<in> set xs" and "m \<in> set xs"
    and "unat (fofs (ei n)) \<le> f" "f < ex_end (ei n)" "unat (fofs (ei m)) \<le> f" "f < ex_end (ei m)"
  shows "n = m"
  using before_cases [OF assms(1-3)] assms(4-7) by (auto simp: before_def)

lemma lookup_spec:
  assumes "tree_ok et" and "lookup_extent_tree fo et = (r, et')"
  shows "(\<exists>c. et' = et\<lparr>cached_en := c\<rparr>) \<and> tree_ok et'"
    and "r = Some n \<longleftrightarrow> n \<in> set (nodes et) \<and> unat (fofs (ei n)) \<le> unat fo \<and> unat fo < ex_end (ei n)"
proof -
  have ok: "nodes_ok (nodes et)" using assms(1) by (simp add: tree_ok_def)
  have d: "distinct (map en_id (nodes et))" using ok by (simp add: nodes_ok_def)
  note ts = tree_search_spec [OF ok, of fo]
  define res where "res = (case tree_search fo (et_root et) of
      Some en \<Rightarrow> (Some en, et\<lparr>cached_en := Some (en_id en)\<rparr>) | None \<Rightarrow> (None, et))"
  have res: "(\<exists>c. snd res = et\<lparr>cached_en := c\<rparr>) \<and> tree_ok (snd res) \<and> fst res = tree_search fo (et_root et)"
  proof (cases "tree_search fo (et_root et)")
    case None
    then show ?thesis using assms(1) by (simp add: res_def exI [of _ "cached_en et"])
  next
    case (Some n)
    then have "en_id n \<in> ids et" using ts [THEN iffD1, OF Some] by (simp add: ids_def)
    then have "tree_ok (et\<lparr>cached_en := Some (en_id n)\<rparr>)" using assms(1) by (simp add: tree_ok_def ids_def)
    then show ?thesis using Some by (auto simp: res_def)
  qed
  have "(r, et') = res \<or> (\<exists>en. (r, et') = (Some en, et) \<and> en \<in> set (nodes et) \<and>
      fofs (ei en) \<le> fo \<and> fofs (ei en) + len (ei en) > fo)"
    using assms(2) find_node_Some [OF d]
    unfolding lookup_extent_tree_def res_def [symmetric]
    by (auto split: option.splits if_splits bind_splits)
  then consider "(r, et') = res" | en where "r = Some en" "et' = et" "en \<in> set (nodes et)"
      "fofs (ei en) \<le> fo" "fofs (ei en) + len (ei en) > fo" by blast
  then have "((\<exists>c. et' = et\<lparr>cached_en := c\<rparr>) \<and> tree_ok et') \<and>
    (\<forall>n. r = Some n \<longleftrightarrow> n \<in> set (nodes et) \<and> unat (fofs (ei n)) \<le> unat fo \<and> unat fo < ex_end (ei n))"
  proof cases
    case 1
    then have "r = fst res" "et' = snd res" by (metis fst_conv, metis snd_conv)
    then show ?thesis using res ts by simp
  next
    case (2 en)
    have c: "unat (fofs (ei en)) \<le> unat fo" "unat fo < ex_end (ei en)"
      using 2 covers_iff [of "ei en" fo] ok by (auto simp: nodes_ok_def word_le_nat_alt)
    have "\<exists>c. et' = et\<lparr>cached_en := c\<rparr>" unfolding 2(2) by (rule exI [of _ "cached_en et"]) simp
    moreover have "tree_ok et'" using 2(2) assms(1) by simp
    moreover have "n = en" if "n \<in> set (nodes et)" "unat (fofs (ei n)) \<le> unat fo" "unat fo < ex_end (ei n)" for n
      by (rule covering_unique [OF ok that(1) 2(3) that(2,3) c])
    ultimately show ?thesis unfolding 2(1) option.inject using 2(3) c by blast
  qed
  then show "(\<exists>c. et' = et\<lparr>cached_en := c\<rparr>) \<and> tree_ok et'"
    and "r = Some n \<longleftrightarrow> n \<in> set (nodes et) \<and> unat (fofs (ei n)) \<le> unat fo \<and> unat fo < ex_end (ei n)"
    by blast+
qed

section \<open>The update\<close>

lemma tree_step_trans:
  "tree_step G I et s et1 s1 \<Longrightarrow> tree_step G2 I2 et1 s1 et2 s2 \<Longrightarrow> tree_step G2 I2 et s et2 s2"
  using same_sb_trans by (auto simp: tree_step_def)

lemma insert_alone:
  assumes "rb_ok rb" and "tree_ok et" and "ext_ok x" and "free_of x (graph (nodes et))"
    and "lonely x (graph (nodes et))" and nx: "\<forall>i\<in>ids et. i < en_next s"
  shows "\<exists>en d et' s' G. insert_extent_tree rb ok x False et s = Some (en, d, et', s') \<and>
    tree_step (graph (nodes et) \<union> G) (ids et \<union> set_option en) et s et' s' \<and> G \<subseteq> ext_graph x \<and>
    ((\<forall>i. ok i) \<longrightarrow> G = ext_graph x) \<and>
    (\<forall>i\<in>set_option en. en_next s \<le> i) \<and> (\<forall>i\<in>ids et'. i < en_next s')"
proof -
  obtain en d et' s' where r: "insert_extent_tree rb ok x False et s = Some (en, d, et', s')"
      and i: "inserted x et s en d et' s'" "(\<forall>i. ok i) \<longrightarrow> en \<noteq> None" "set_option en \<subseteq> {en_next s}" "d = None"
    using insert_spec [OF assms(1-4) nx, of False ok] assms(5) by blast
  have m: "en_next s \<le> en_next s'"
    using i(1) by (auto simp: inserted_def tree_step_def same_sb_def split: option.splits)
  show ?thesis
  proof (cases en)
    case None
    then have "tree_step (graph (nodes et) \<union> {}) (ids et \<union> set_option en) et s et' s'"
      using i(1) by (simp add: inserted_def)
    moreover from this have "\<forall>i\<in>ids et'. i < en_next s'" using nx m None by (auto simp: tree_step_def)
    moreover have "\<not> (\<forall>i. ok i)" using i(2) None by blast
    ultimately show ?thesis using r i(4) None
      by (intro exI [of _ en] exI [of _ d] exI [of _ et'] exI [of _ s'] exI [of _ "{}"]) auto
  next
    case (Some k)
    then have st: "tree_step (graph (nodes et) \<union> ext_graph x) (ids et \<union> set_option en) et s et' s'" "k < en_next s'"
      using i(1,4) by (simp_all add: inserted_def)
    then have "\<forall>i\<in>ids et'. i < en_next s'" using nx m Some by (auto simp: tree_step_def)
    then show ?thesis using r i(3) Some st
      by (intro exI [of _ en] exI [of _ d] exI [of _ et'] exI [of _ s'] exI [of _ "ext_graph x"]) simp
  qed
qed

text \<open>
  The parts of a split run. The right part is entered one block too low: the code gives it the
  block of \<open>fo\<close>, not of \<open>fo + 1\<close>.
\<close>

definition left_part :: "u32 \<Rightarrow> extent_info \<Rightarrow> extent_info" where
  "left_part fo dei = set_extent_info (fofs dei) (blk dei) (fo - fofs dei)"

definition right_part :: "u32 \<Rightarrow> extent_info \<Rightarrow> extent_info" where
  "right_part fo dei = set_extent_info (fo + 1) (fo - fofs dei + blk dei) (fofs dei + len dei - 1 - fo)"

definition left_of :: "nat \<Rightarrow> (nat \<times> nat) set \<Rightarrow> (nat \<times> nat) set" where
  "left_of f G = {p \<in> G. fst p < f}"

definition right_shifted :: "nat \<Rightarrow> (nat \<times> nat) set \<Rightarrow> (nat \<times> nat) set" where
  "right_shifted f G = {(f', b). f < f' \<and> (f', Suc b) \<in> G}"

lemma parts_facts:
  assumes "ext_ok dei" and fo: "unat (fofs dei) \<le> unat fo" "unat fo < ex_end dei"
  shows "unat (fo - fofs dei) = unat fo - unat (fofs dei)"
    and "unat (fofs dei + len dei - 1 - fo) = ex_end dei - 1 - unat fo"
    and "fofs dei < fo \<Longrightarrow> ext_ok (left_part fo dei)" and "ex_end (left_part fo dei) = unat fo"
    and "ext_graph (left_part fo dei) = left_of (unat fo) (ext_graph dei)"
    and "unat fo + 1 < ex_end dei \<Longrightarrow> ext_ok (right_part fo dei)" 
    and "unat fo + 1 < ex_end dei \<Longrightarrow> ex_end (right_part fo dei) = ex_end dei"
    and "unat fo + 1 < ex_end dei \<Longrightarrow> unat (fofs (right_part fo dei)) = unat fo + 1"
    and "unat fo + 1 < ex_end dei \<Longrightarrow> ext_graph (right_part fo dei) = right_shifted (unat fo) (ext_graph dei)"
proof -
  have ok: "ex_end dei < 2 ^ 32" "unat (blk dei) + unat (len dei) < 2 ^ 32" "0 < unat (len dei)"
    using assms(1) by (simp_all add: ext_ok_def word_less_nat_alt)
  show l: "unat (fo - fofs dei) = unat fo - unat (fofs dei)"
    using fo(1) by (simp add: unat_sub word_le_nat_alt)
  have "unat (fofs dei + len dei) = ex_end dei"
    using ok unat_small_add [of "fofs dei" "len dei"] by (simp add: ex_end_def)
  moreover have "0 < ex_end dei" using fo(2) by simp
  ultimately have e1: "unat (fofs dei + len dei - 1) = ex_end dei - 1"
    by (metis One_nat_def Suc_leI unat_1 unat_sub word_le_nat_alt)
  then show e: "unat (fofs dei + len dei - 1 - fo) = ex_end dei - 1 - unat fo"
    using fo(2) by (simp add: unat_sub word_le_nat_alt)
  have L: "ex_end (left_part fo dei) = unat fo" 
    using fo(1) by (simp add: left_part_def set_extent_info_def ex_end_def l)
  then show "ex_end (left_part fo dei) = unat fo" .
  show "ext_ok (left_part fo dei)" if "fofs dei < fo"
    using that ok fo L l by (simp add: ext_ok_def)
      (simp add: left_part_def set_extent_info_def word_less_nat_alt l ex_end_def)
  show "ext_graph (left_part fo dei) = left_of (unat fo) (ext_graph dei)"
    unfolding ext_graph_def L left_of_def using fo(2) by (auto simp: left_part_def set_extent_info_def)
  assume r: "unat fo + 1 < ex_end dei"
  have f1: "unat (fo + 1) = unat fo + 1" using r ok(1) unat_small_add [of fo 1] by simp
  then show "unat (fofs (right_part fo dei)) = unat fo + 1" by (simp add: right_part_def set_extent_info_def)
  have b1: "unat (fo - fofs dei + blk dei) = unat fo - unat (fofs dei) + unat (blk dei)"
    using unat_small_add [of "fo - fofs dei" "blk dei"] ok(2) fo(2) l by (simp add: ex_end_def)
  show R: "ex_end (right_part fo dei) = ex_end dei"
    using r e by (simp add: right_part_def set_extent_info_def ex_end_def f1)
  show "ext_ok (right_part fo dei)"
    using r ok fo(1) by (simp add: ext_ok_def R) (simp add: right_part_def set_extent_info_def word_less_nat_alt e b1 ex_end_def)
  show "ext_graph (right_part fo dei) = right_shifted (unat fo) (ext_graph dei)"
    unfolding ext_graph_def R right_shifted_def using fo
    by (auto simp: right_part_def set_extent_info_def f1 b1)
qed


lemma insert_parts_spec:
  assumes rb: "rb_ok rb" and ok: "tree_ok et" and dei: "ext_ok dei"
    and fr: "free_of dei (graph (nodes et))" and lo: "lonely dei (graph (nodes et))"
    and nx: "\<forall>i\<in>ids et. i < en_next s"
    and fo: "unat (fofs dei) \<le> unat fo" "unat fo < ex_end dei"
    and right: "ex_end dei - 1 - unat fo < 64 \<or> (\<forall>b. (ex_end dei, b) \<notin> graph (nodes et))"
  shows "\<exists>en1 en2 et' s' G. insert_parts rb ao fo dei et s = Some (en1, en2, et', s') \<and>
    tree_step (graph (nodes et) \<union> G) (ids et \<union> set_option en1 \<union> set_option en2) et s et' s' \<and>
    G \<subseteq> left_of (unat fo) (ext_graph dei) \<union>
      (if ex_end dei - 1 - unat fo < 64 then {} else right_shifted (unat fo) (ext_graph dei)) \<and>
    ((\<forall>i. ao i) \<and> \<not> ex_end dei - 1 - unat fo < 64 \<longrightarrow> right_shifted (unat fo) (ext_graph dei) \<subseteq> G) \<and>
    (\<forall>i\<in>set_option en1 \<union> set_option en2. en_next s \<le> i) \<and> (\<forall>i\<in>ids et'. i < en_next s')"
proof -
  let ?rs = "right_shifted (unat fo) (ext_graph dei)"
  note pf = parts_facts [OF dei fo]
  have g64: "fo - fofs dei \<ge> 64 \<longleftrightarrow> unat fo - unat (fofs dei) \<ge> 64"
    "fofs dei + len dei - 1 - fo \<ge> 64 \<longleftrightarrow> ex_end dei - 1 - unat fo \<ge> 64"
    by (simp_all add: word_le_nat_alt pf(1,2))
  show ?thesis
  proof (cases "len dei > 1")
    case False
    then have "ex_end dei = unat (fofs dei) + 1"
      using dei by (simp add: ext_ok_def ex_end_def word_less_nat_alt)
    then have "ex_end dei - 1 - unat fo < 64" using fo(1) by simp
    then show ?thesis
      using False ok nx by (intro exI [of _ None] exI [of _ et] exI [of _ s] exI [of _ "{}"])
        (simp add: insert_parts_def tree_step_def)
  next
    case True
    define L where "L = (if fo - fofs dei \<ge> 64
      then insert_extent_tree rb ao (set_extent_info (fofs dei) (blk dei) (fo - fofs dei)) False et s
      else Some (None, None, et, s))"
    have "\<exists>en1 d et1 s1 G1. L = Some (en1, d, et1, s1) \<and>
        tree_step (graph (nodes et) \<union> G1) (ids et \<union> set_option en1) et s et1 s1 \<and>
        G1 \<subseteq> left_of (unat fo) (ext_graph dei) \<and> (\<forall>i\<in>set_option en1. en_next s \<le> i) \<and>
        (\<forall>i\<in>ids et1. i < en_next s1)"
    proof (cases "fo - fofs dei \<ge> 64")
      case False
      then show ?thesis
        using ok nx by (intro exI [of _ None] exI [of _ et] exI [of _ s] exI [of _ "{}"]) (simp add: L_def tree_step_def)
    next
      case c: True
      then have "fofs dei < fo" using g64(1) by (simp add: word_less_nat_alt)
      note p = pf(3) [OF this]
      have "free_of (left_part fo dei) (graph (nodes et))"
        using fr pf(4) fo by (fastforce simp: free_of_def left_part_def set_extent_info_def)
      moreover have "lonely (left_part fo dei) (graph (nodes et))"
        using fr lo pf(4) fo unfolding lonely_def free_of_def
        by (fastforce simp: left_part_def set_extent_info_def)
      ultimately show ?thesis
        using insert_alone [OF rb ok p _ _ nx, of ao] c pf(5) by (simp add: L_def left_part_def) blast
    qed
    then obtain en1 d1 et1 s1 G1 where L: "L = Some (en1, d1, et1, s1)"
      and st1: "tree_step (graph (nodes et) \<union> G1) (ids et \<union> set_option en1) et s et1 s1"
      and G1: "G1 \<subseteq> left_of (unat fo) (ext_graph dei)" and n1: "\<forall>i\<in>set_option en1. en_next s \<le> i"
      and nx1: "\<forall>i\<in>ids et1. i < en_next s1" by blast
    have t1: "tree_ok et1" "graph (nodes et1) = graph (nodes et) \<union> G1" "ids et1 = ids et \<union> set_option en1"
      "en_next s \<le> en_next s1" using st1 by (simp_all add: tree_step_def same_sb_def)
    define R where "R = (if fofs dei + len dei - 1 - fo \<ge> 64
      then insert_extent_tree rb ao (right_part fo dei) False et1 s1 else Some (None, None, et1, s1))"
    have ip: "insert_parts rb ao fo dei et s =
        (case R of None \<Rightarrow> None | Some (en2, _, et, s) \<Rightarrow> Some (en1, en2, et, s))"
      using True unfolding insert_parts_def L_def [symmetric] R_def Let_def right_part_def L by simp
    show ?thesis
    proof (cases "fofs dei + len dei - 1 - fo \<ge> 64")
      case False
      then have r: "R = Some (None, None, et1, s1)" "ex_end dei - 1 - unat fo < 64"
        using g64(2) by (simp_all add: R_def)
      then show ?thesis
        using st1 G1 n1 nx1 unfolding ip
        by (intro exI [of _ en1] exI [of _ None] exI [of _ et1] exI [of _ s1] exI [of _ G1]) simp
    next
      case c: True
      then have big: "\<not> ex_end dei - 1 - unat fo < 64" and u: "unat fo + 1 < ex_end dei" using g64(2) by simp_all
      note q = pf(6-9) [OF u]
      have nr: "(f, b) \<notin> graph (nodes et1)" if "unat fo \<le> f" "f \<le> ex_end dei" for f b
        using that G1 fr fo right big unfolding t1(2) free_of_def left_of_def
        by (cases "f = ex_end dei") fastforce+
      have "free_of (right_part fo dei) (graph (nodes et1))"
        unfolding free_of_def q(2,3) using nr by (metis (mono_tags, lifting) Suc_eq_plus1 case_prodI2 le_SucI
          not_less_eq_eq not_le less_imp_le)
      moreover have "lonely (right_part fo dei) (graph (nodes et1))"
        unfolding lonely_def q(2,3) using nr u by simp
      ultimately obtain en2 d2 et2 s2 G2 where
          R: "insert_extent_tree rb ao (right_part fo dei) False et1 s1 = Some (en2, d2, et2, s2)"
        and st2: "tree_step (graph (nodes et1) \<union> G2) (ids et1 \<union> set_option en2) et1 s1 et2 s2"
        and G2: "G2 \<subseteq> ?rs" "(\<forall>i. ao i) \<longrightarrow> G2 = ?rs" and n2: "\<forall>i\<in>set_option en2. en_next s1 \<le> i"
        and nx2: "\<forall>i\<in>ids et2. i < en_next s2"
        using insert_alone [OF rb t1(1) q(1) _ _ nx1, of ao] unfolding q(4) by blast
      have "tree_step (graph (nodes et) \<union> (G1 \<union> G2)) (ids et \<union> set_option en1 \<union> set_option en2) et s et2 s2"
        using tree_step_trans [OF st1 st2] unfolding t1(2,3) by (simp add: Un_assoc)
      then show ?thesis
        using G1 G2 n1 n2 nx2 t1(4) big c R unfolding ip R_def
        by (intro exI [of _ en1] exI [of _ en2] exI [of _ et2] exI [of _ s2] exI [of _ "G1 \<union> G2"]) auto
    qed
  qed
qed

section \<open>The cache as a whole\<close>

definition live :: "ext_sb \<Rightarrow> nat set" where
  "live s = (\<Union>(i, et)\<in>set (extent_tree_root s). ids et)"

definition cache_ok :: "ext_sb \<Rightarrow> bool" where
  "cache_ok s \<longleftrightarrow> distinct (map fst (extent_tree_root s)) \<and>
     (\<forall>(i, et)\<in>set (extent_tree_root s). tree_ok et \<and> (\<forall>k\<in>ids et. k < en_next s)) \<and>
     set (extent_list s) \<subseteq> live s \<and> total_ext_tree s = int (length (extent_tree_root s))"

definition cached :: "ext_sb \<Rightarrow> nat \<Rightarrow> (nat \<times> nat) set" where
  "cached s ino = (case find_extent_tree ino s of None \<Rightarrow> {} | Some et \<Rightarrow> graph (nodes et))"

definition tree_of :: "ext_sb \<Rightarrow> nat \<Rightarrow> extent_tree" where
  "tree_of s ino = (case find_extent_tree ino s of Some et \<Rightarrow> et
     | None \<Rightarrow> \<lparr>et_root = Leaf, cached_en = None, et_refcount = 0, et_count = 0\<rparr>)"

lemma cached_tree_of: "cached s ino = graph (nodes (tree_of s ino))"
  by (simp add: cached_def tree_of_def graph_def split: option.splits)

lemma tree_of_ok:
  assumes "cache_ok s"
  shows "tree_ok (tree_of s ino)" and "\<forall>k\<in>ids (tree_of s ino). k < en_next s" and "ids (tree_of s ino) \<subseteq> live s"
proof -
  have "find_extent_tree ino s = Some et \<Longrightarrow> (ino, et) \<in> set (extent_tree_root s)" for et
    by (simp add: find_extent_tree_def map_of_SomeD)
  then have "tree_ok (tree_of s ino) \<and> (\<forall>k\<in>ids (tree_of s ino). k < en_next s) \<and> ids (tree_of s ino) \<subseteq> live s"
    using assms by (fastforce simp: tree_of_def cache_ok_def live_def tree_ok_def ids_def nodes_ok_def
        split: option.splits)
  then show "tree_ok (tree_of s ino)" and "\<forall>k\<in>ids (tree_of s ino). k < en_next s"
    and "ids (tree_of s ino) \<subseteq> live s" by blast+
qed

text \<open>Putting back the tree of one inode.\<close>

lemma put_tree:
  "find_extent_tree j (put_extent_tree ino et s) = (if j = ino then Some et else find_extent_tree j s)"
  "cached (put_extent_tree ino et s) j = (if j = ino then graph (nodes et) else cached s j)"
  "tree_of (put_extent_tree ino et s) j = (if j = ino then et else tree_of s j)"
  by (simp_all add: find_extent_tree_def put_extent_tree_def cached_def tree_of_def update_conv')

lemma put_tree_ok:
  assumes "distinct (map fst (extent_tree_root s))"
    and "\<forall>(i, et)\<in>set (extent_tree_root s). i \<noteq> ino \<longrightarrow> tree_ok et \<and> (\<forall>k\<in>ids et. k < en_next s)"
    and "tree_ok et" and "\<forall>k\<in>ids et. k < en_next s"
    and "\<forall>k\<in>set (extent_list s). k \<in> ids et \<or> (\<exists>(i, et)\<in>set (extent_tree_root s). i \<noteq> ino \<and> k \<in> ids et)"
    and "total_ext_tree s = int (length (AList.update ino et (extent_tree_root s)))"
  shows "cache_ok (put_extent_tree ino et s)"
proof -
  let ?r = "extent_tree_root s" and ?r' = "AList.update ino et (extent_tree_root s)"
  have d: "distinct (map fst ?r')" using assms(1) by (rule distinct_update)
  have mem: "(i, t) \<in> set ?r' \<longleftrightarrow> (i = ino \<and> t = et \<or> i \<noteq> ino \<and> (i, t) \<in> set ?r)" for i t
    using map_of_eq_Some_iff [OF d, of i t] map_of_eq_Some_iff [OF assms(1), of i t]
    by (auto simp: update_conv' split: if_splits)
  have "set (extent_list s) \<subseteq> live (put_extent_tree ino et s)"
    using assms(5) mem by (force simp: live_def put_extent_tree_def)
  moreover have "tree_ok t \<and> (\<forall>k\<in>ids t. k < en_next s)" if "(i, t) \<in> set ?r'" for i t
    using that mem [of i t] assms(2-4) by auto
  then have "\<forall>(i, t)\<in>set ?r'. tree_ok t \<and> (\<forall>k\<in>ids t. k < en_next s)" by blast
  ultimately show ?thesis
    using d assms(6) by (simp add: cache_ok_def put_extent_tree_def)
qed

lemma grab_spec:
  assumes "cache_ok s" and "grab_extent_tree ino s = (et, s')"
  shows "et = tree_of s ino" and "find_extent_tree ino s' = Some et" and "cache_ok s'"
    and "j \<noteq> ino \<Longrightarrow> cached s' j = cached s j" and "cached s' ino = cached s ino"
    and "en_next s' = en_next s" and "extent_list s' = extent_list s"
proof -
  note t = tree_of_ok [OF assms(1), of ino]
  have "et = tree_of s ino \<and> find_extent_tree ino s' = Some et \<and> cache_ok s' \<and>
      (j \<noteq> ino \<longrightarrow> cached s' j = cached s j) \<and> cached s' ino = cached s ino \<and> en_next s' = en_next s \<and>
      extent_list s' = extent_list s" for j
  proof (cases "find_extent_tree ino s")
    case (Some x)
    then show ?thesis using assms by (simp add: grab_extent_tree_def tree_of_def)
  next
    case None
    then have nin: "ino \<notin> fst ` set (extent_tree_root s)" by (simp add: find_extent_tree_def map_of_eq_None_iff)
    let ?s = "s\<lparr>total_ext_tree := total_ext_tree s + 1\<rparr>"
    have e: "et = tree_of s ino" "s' = put_extent_tree ino et ?s"
      using assms(2) None by (auto simp: grab_extent_tree_def tree_of_def Let_def)
    have "cache_ok s'"
      unfolding e(2)
    proof (rule put_tree_ok)
      show "\<forall>k\<in>set (extent_list ?s). k \<in> ids et \<or> (\<exists>(i, et)\<in>set (extent_tree_root ?s). i \<noteq> ino \<and> k \<in> ids et)"
      proof
        fix k assume "k \<in> set (extent_list ?s)"
        then obtain i t where it: "(i, t) \<in> set (extent_tree_root s)" "k \<in> ids t"
          using assms(1) by (auto simp: cache_ok_def live_def)
        then have "i \<noteq> ino" using nin by force
        with it show "k \<in> ids et \<or> (\<exists>(i, et)\<in>set (extent_tree_root ?s). i \<noteq> ino \<and> k \<in> ids et)" by auto
      qed
      show "total_ext_tree ?s = int (length (AList.update ino et (extent_tree_root ?s)))"
        using assms(1) nin by (simp add: cache_ok_def length_update)
    qed (use assms(1) t e(1) in \<open>auto simp: cache_ok_def\<close>)
    moreover have "cached (put_extent_tree ino et ?s) j = (if j = ino then cached s ino else cached s j)" for j
      by (simp add: put_tree e(1) cached_tree_of) (simp add: tree_of_def find_extent_tree_def)
    moreover have "find_extent_tree ino s' = Some et" by (simp add: e(2) put_tree)
    ultimately show ?thesis using e by (simp add: put_extent_tree_def)
  qed
  then show "et = tree_of s ino" and "find_extent_tree ino s' = Some et" and "cache_ok s'"
    and "j \<noteq> ino \<Longrightarrow> cached s' j = cached s j" and "cached s' ino = cached s ino"
    and "en_next s' = en_next s" and "extent_list s' = extent_list s" by blast+
qed


section \<open>The update keeps the cache in step\<close>

text \<open>The pairs a tree holds after the update of \<open>fo\<close>, with what is left of the run it was in.\<close>

definition kept_of_split :: "nat \<Rightarrow> extent_info \<Rightarrow> (nat \<times> nat) set" where
  "kept_of_split f dei = left_of f (ext_graph dei) \<union>
     (if ex_end dei - 1 - f < 64 then {} else right_shifted f (ext_graph dei))"

lemma graph_remove:
  assumes "distinct (map en_id xs)" and "n \<in> set xs"
  shows "graph xs = graph (filter (\<lambda>m. en_id m \<noteq> en_id n) xs) \<union> ext_graph (ei n)"
proof -
  have "m = n" if "m \<in> set xs" "en_id m = en_id n" for m
    using assms that by (meson distinct_map inj_onD)
  then have "set xs = insert n (set (filter (\<lambda>m. en_id m \<noteq> en_id n) xs))" using assms(2) by auto
  then have "graph xs = (\<Union>m\<in>insert n (set (filter (\<lambda>m. en_id m \<noteq> en_id n) xs)). ext_graph (ei m))"
    by (simp only: graph_def)
  then show ?thesis by (simp only: graph_def UN_insert Un_commute)
qed

text \<open>Steps 1 and 2: afterwards nothing overlaps \<open>fo\<close>.\<close>

lemma split_spec:
  assumes rb: "rb_ok rb" and ok: "tree_ok et" and nx: "\<forall>i\<in>ids et. i < en_next s"
    and right: "\<forall>n\<in>set (nodes et). unat (fofs (ei n)) \<le> unat fo \<and> unat fo < ex_end (ei n) \<longrightarrow>
      ex_end (ei n) - 1 - unat fo < 64 \<or> (\<forall>b. (ex_end (ei n), b) \<notin> graph (nodes et))"
    and lk: "lookup_extent_tree fo et = (en, et0)"
  shows "\<exists>en1 en2 et' s' H. (case en of
       None \<Rightarrow> Some (None, None, et0, s)
     | Some n \<Rightarrow> let (et, s) = detach_extent_node rb (en_id n) et0 s in insert_parts rb ao fo (ei n) et s)
       = Some (en1, en2, et', s') \<and>
    tree_step H ((ids et - set_option (map_option en_id en)) \<union> set_option en1 \<union> set_option en2) et s et' s' \<and>
    (\<forall>i\<in>set_option en1 \<union> set_option en2. en_next s \<le> i) \<and> (\<forall>i\<in>ids et'. i < en_next s') \<and>
    (\<forall>f b. (f, b) \<in> H \<longrightarrow> f \<noteq> unat fo) \<and>
    (case en of None \<Rightarrow> H = graph (nodes et)
     | Some n \<Rightarrow> n \<in> set (nodes et) \<and> unat (fofs (ei n)) \<le> unat fo \<and> unat fo < ex_end (ei n) \<and>
        (\<exists>G. G \<subseteq> kept_of_split (unat fo) (ei n) \<and>
           ((\<forall>i. ao i) \<and> \<not> ex_end (ei n) - 1 - unat fo < 64 \<longrightarrow> right_shifted (unat fo) (ext_graph (ei n)) \<subseteq> G) \<and>
           H = graph (filter (\<lambda>m. en_id m \<noteq> en_id n) (nodes et)) \<union> G))"
proof -
  note lks = lookup_spec [OF ok lk]
  obtain c where et0: "et0 = et\<lparr>cached_en := c\<rparr>" and ok0: "tree_ok et0" using lks(1) by blast
  have same: "nodes et0 = nodes et" "ids et0 = ids et" "et_refcount et0 = et_refcount et"
    by (simp_all add: et0 ids_def)
  have nok: "nodes_ok (nodes et)" using ok by (simp add: tree_ok_def)
  show ?thesis
  proof (cases en)
    case None
    have "(f, b) \<in> graph (nodes et) \<longrightarrow> f \<noteq> unat fo" for f b
      using lks(2) None by (fastforce simp: graph_def ext_graph_def)
    then show ?thesis
      using None ok0 nx same
      by (intro exI [of _ None] exI [of _ et0] exI [of _ s] exI [of _ "graph (nodes et)"])
        (simp add: tree_step_def)
  next
    case (Some n)
    then have n: "n \<in> set (nodes et)" "unat (fofs (ei n)) \<le> unat fo" "unat fo < ex_end (ei n)"
      using lks(2) by simp_all
    obtain et1 s1 where dt: "detach_extent_node rb (en_id n) et0 s = (et1, s1)" by fastforce
    have nin: "en_id n \<in> ids et0" using n(1) same(2) by (simp add: ids_def)
    note ds = detach_spec [OF rb ok0 nin dt, unfolded same]
    have t1: "tree_ok et1" "ids et1 = ids et - {en_id n}" using ds(1) by (simp_all add: tree_step_def)
    have eok: "ext_ok (ei n)" using nok n(1) by (simp add: nodes_ok_def)
    note al = cached_run_alone [OF nok n(1), folded ds(2)]
    have gr: "graph (nodes et) = graph (nodes et1) \<union> ext_graph (ei n)"
      using graph_remove [OF _ n(1)] nok ds(2) by (simp add: nodes_ok_def)
    have rt: "ex_end (ei n) - 1 - unat fo < 64 \<or> (\<forall>b. (ex_end (ei n), b) \<notin> graph (nodes et1))"
      using right n gr by blast
    have nx1: "\<forall>i\<in>ids et1. i < en_next s1" using nx t1(2) ds(3) by simp
    obtain en1 en2 et2 s2 G where ip: "insert_parts rb ao fo (ei n) et1 s1 = Some (en1, en2, et2, s2)"
      and st: "tree_step (graph (nodes et1) \<union> G) (ids et1 \<union> set_option en1 \<union> set_option en2) et1 s1 et2 s2"
      and G: "G \<subseteq> kept_of_split (unat fo) (ei n)"
        "(\<forall>i. ao i) \<and> \<not> ex_end (ei n) - 1 - unat fo < 64 \<longrightarrow> right_shifted (unat fo) (ext_graph (ei n)) \<subseteq> G"
      and i: "\<forall>i\<in>set_option en1 \<union> set_option en2. en_next s1 \<le> i" "\<forall>i\<in>ids et2. i < en_next s2"
      using insert_parts_spec [OF rb t1(1) eok al nx1 n(2,3) rt, of ao] unfolding kept_of_split_def by blast
    have st0: "tree_step (graph (nodes et1)) (ids et - {en_id n}) et s et1 s1"
      using ds(1) same(2,3) unfolding ds(2) [symmetric] by (simp add: tree_step_def)
    have "(f, b) \<in> graph (nodes et1) \<union> G \<longrightarrow> f \<noteq> unat fo" for f b
      using al(1) n G(1) by (force simp: free_of_def kept_of_split_def left_of_def right_shifted_def split: if_splits)
    then have nf: "\<forall>f b. (f, b) \<in> graph (nodes et1) \<union> G \<longrightarrow> f \<noteq> unat fo" by blast
    have e: "(let (et, s) = detach_extent_node rb (en_id n) et0 s in insert_parts rb ao fo (ei n) et s) =
        Some (en1, en2, et2, s2)" by (simp add: dt ip)
    note st2 = tree_step_trans [OF st0 st, unfolded t1(2)]
    show ?thesis
      unfolding Some option.case option.map option.set e
      using st2 i(1) [unfolded ds(3)] i(2) nf n G unfolding ds(2) by blast
  qed
qed


lemma insert_block_spec:
  assumes rb: "rb_ok rb" and ok: "tree_ok et" and nx: "\<forall>i\<in>ids et. i < en_next s"
    and fo: "unat fo + 1 < 2 ^ 32" and bl: "unat blkaddr + 1 < 2 ^ 32"
    and free: "\<forall>f b. (f, b) \<in> graph (nodes et) \<longrightarrow> f \<noteq> unat fo"
  shows "\<exists>en3 den et' s' G. (if blkaddr \<noteq> 0 then insert_extent_tree rb ao (set_extent_info fo blkaddr 1) True et s
      else Some (None, None, et, s)) = Some (en3, den, et', s') \<and>
    tree_step (graph (nodes et) \<union> G) (ids et \<union> set_option en3 - set_option den) et s et' s' \<and>
    (G = {} \<or> blkaddr \<noteq> 0 \<and> G = {(unat fo, unat blkaddr)}) \<and> ((\<forall>i. ao i) \<and> blkaddr \<noteq> 0 \<longrightarrow> G \<noteq> {}) \<and>
    (\<forall>i\<in>ids et'. i < en_next s') \<and> (\<forall>i\<in>set_option en3. i \<in> ids et') \<and> set_option den \<subseteq> ids et"
proof (cases "blkaddr = 0")
  case True
  then show ?thesis
    using ok nx by (intro exI [of _ None] exI [of _ et] exI [of _ s] exI [of _ "{}"]) (simp add: tree_step_def)
next
  case False
  let ?x = "set_extent_info fo blkaddr 1"
  have e: "ex_end ?x = unat fo + 1" by (simp add: ex_end_def set_extent_info_def)
  have x: "ext_ok ?x" using fo bl by (simp add: ext_ok_def e) (simp add: set_extent_info_def)
  have g: "ext_graph ?x = {(unat fo, unat blkaddr)}"
    unfolding ext_graph_def e by (auto simp: set_extent_info_def)
  have "free_of ?x (graph (nodes et))"
    using free unfolding free_of_def e by (fastforce simp: set_extent_info_def)
  then obtain en d et' s' where r: "insert_extent_tree rb ao ?x True et s = Some (en, d, et', s')"
      and i: "inserted ?x et s en d et' s'" "(\<forall>i. ao i) \<longrightarrow> en \<noteq> None"
    using insert_spec [OF rb ok x _ nx, of True ao] by blast
  have m: "en_next s \<le> en_next s'"
    using i(1) by (auto simp: inserted_def tree_step_def same_sb_def split: option.splits)
  show ?thesis
  proof (cases en)
    case None
    then have st: "d = None" "tree_step (graph (nodes et)) (ids et) et s et' s'"
      using i(1) by (simp_all add: inserted_def)
    then have "ids et' = ids et" by (simp add: tree_step_def)
    then show ?thesis
      using False r i(2) st None nx m
      by (intro exI [of _ en] exI [of _ d] exI [of _ et'] exI [of _ s'] exI [of _ "{}"]) auto
  next
    case (Some k)
    then have st: "tree_step (graph (nodes et) \<union> ext_graph ?x) (insert k (ids et) - set_option d) et s et' s'"
        "k < en_next s'" "k \<notin> set_option d" "set_option d \<subseteq> ids et"
      using i(1) by (simp_all add: inserted_def)
    then have "ids et' = insert k (ids et) - set_option d" by (simp add: tree_step_def)
    then show ?thesis
      using False r st Some nx m g
      by (intro exI [of _ en] exI [of _ d] exI [of _ et'] exI [of _ s'] exI [of _ "ext_graph ?x"]) auto
  qed
qed

text \<open>What the whole update leaves in the tree of the inode.\<close>

definition long_right :: "ext_sb \<Rightarrow> nat \<Rightarrow> u32 \<Rightarrow> extent_info \<Rightarrow> bool" where
  "long_right s ino fo e \<longleftrightarrow> e \<in> ei ` set (nodes (tree_of s ino)) \<and>
     unat (fofs e) \<le> unat fo \<and> unat fo < ex_end e \<and> 64 \<le> ex_end e - 1 - unat fo"

lemma step4:
  assumes "s' = (let s = (case en of Some n \<Rightarrow> list_del (en_id n) s | None \<Rightarrow> s);
       s = (case en1 of Some i \<Rightarrow> list_add_tail i s | None \<Rightarrow> s);
       s = (case en2 of Some i \<Rightarrow> list_add_tail i s | None \<Rightarrow> s);
       s = (case en3 of Some i \<Rightarrow> list_add_tail i (list_del i s) | None \<Rightarrow> s)
     in case den of Some i \<Rightarrow> list_del i s | None \<Rightarrow> s)"
  shows "set (extent_list s') = (set (extent_list s) - set_option (map_option en_id en) \<union> set_option en1 \<union>
      set_option en2 \<union> set_option en3) - set_option den"
    and "extent_tree_root s' = extent_tree_root s" and "total_ext_tree s' = total_ext_tree s"
    and "en_next s' = en_next s"
  unfolding assms Let_def list_del_def list_add_tail_def by (auto split: option.splits)

lemma update_spec:
  assumes rb: "rb_ok rb" and ok: "cache_ok s"
    and fo: "unat fo + 1 < 2 ^ 32" and bl: "unat blkaddr + 1 < 2 ^ 32"
    and right: "\<forall>e b. long_right s ino fo e \<longrightarrow> (ex_end e, b) \<notin> cached s ino"
  shows "\<exists>s' H G. f2fs_update_extent_tree rb ao ino fo blkaddr s = Some s' \<and> cache_ok s' \<and>
    (\<forall>j. j \<noteq> ino \<longrightarrow> cached s' j = cached s j) \<and> cached s' ino = H \<union> G \<and>
    (\<forall>f b. (f, b) \<in> H \<longrightarrow> f \<noteq> unat fo \<and> ((f, b) \<in> cached s ino \<or>
       (\<exists>e. long_right s ino fo e \<and> unat fo < f \<and> (f, Suc b) \<in> ext_graph e))) \<and>
    (\<forall>e f b. (\<forall>i. ao i) \<and> long_right s ino fo e \<and> unat fo < f \<and> (f, Suc b) \<in> ext_graph e \<longrightarrow> (f, b) \<in> H) \<and>
    (G = {} \<or> blkaddr \<noteq> 0 \<and> G = {(unat fo, unat blkaddr)}) \<and> ((\<forall>i. ao i) \<and> blkaddr \<noteq> 0 \<longrightarrow> G \<noteq> {})"
proof -
  obtain et s1 where g: "grab_extent_tree ino s = (et, s1)" by fastforce
  note gs = grab_spec [OF ok g]
  have c1: "cached s1 j = cached s j" for j using gs(4,5) by (cases "j = ino") simp_all
  have et: "tree_ok et" "\<forall>i\<in>ids et. i < en_next s1" using tree_of_ok [OF ok] gs(1,6) by simp_all
  have cg: "cached s ino = graph (nodes et)" by (simp add: cached_tree_of gs(1))
  have lr: "long_right s ino fo (ei n)"
    if "n \<in> set (nodes et)" "unat (fofs (ei n)) \<le> unat fo" "unat fo < ex_end (ei n)" "\<not> ex_end (ei n) - 1 - unat fo < 64" for n
    using that gs(1) by (auto simp: long_right_def)
  obtain en et0 where lk: "lookup_extent_tree fo et = (en, et0)" by fastforce
  have rt: "\<forall>n\<in>set (nodes et). unat (fofs (ei n)) \<le> unat fo \<and> unat fo < ex_end (ei n) \<longrightarrow>
      ex_end (ei n) - 1 - unat fo < 64 \<or> (\<forall>b. (ex_end (ei n), b) \<notin> graph (nodes et))"
    using right lr cg by blast
  from split_spec [OF rb et rt lk, of ao] obtain en1 en2 et2 s2 H where
    sp: "(case en of None \<Rightarrow> Some (None, None, et0, s1)
     | Some n \<Rightarrow> let (et, s) = detach_extent_node rb (en_id n) et0 s1 in insert_parts rb ao fo (ei n) et s)
       = Some (en1, en2, et2, s2)"
    and st1: "tree_step H ((ids et - set_option (map_option en_id en)) \<union> set_option en1 \<union> set_option en2) et s1 et2 s2"
    and n2: "\<forall>i\<in>ids et2. i < en_next s2"
    and H: "\<forall>f b. (f, b) \<in> H \<longrightarrow> f \<noteq> unat fo"
      "case en of None \<Rightarrow> H = graph (nodes et)
     | Some n \<Rightarrow> n \<in> set (nodes et) \<and> unat (fofs (ei n)) \<le> unat fo \<and> unat fo < ex_end (ei n) \<and>
        (\<exists>G. G \<subseteq> kept_of_split (unat fo) (ei n) \<and>
           ((\<forall>i. ao i) \<and> \<not> ex_end (ei n) - 1 - unat fo < 64 \<longrightarrow> right_shifted (unat fo) (ext_graph (ei n)) \<subseteq> G) \<and>
           H = graph (filter (\<lambda>m. en_id m \<noteq> en_id n) (nodes et)) \<union> G)"
    by blast
  have t2: "tree_ok et2" "graph (nodes et2) = H" "same_sb s1 s2"
    "ids et2 = (ids et - set_option (map_option en_id en)) \<union> set_option en1 \<union> set_option en2"
    using st1 by (simp_all add: tree_step_def)
  have H1': "\<forall>f b. (f, b) \<in> graph (nodes et2) \<longrightarrow> f \<noteq> unat fo" using H(1) t2(2) by simp
  from insert_block_spec [OF rb t2(1) n2 fo bl H1', of ao] obtain en3 den et3 s3 G where
    ib: "(if blkaddr \<noteq> 0 then insert_extent_tree rb ao (set_extent_info fo blkaddr 1) True et2 s2
      else Some (None, None, et2, s2)) = Some (en3, den, et3, s3)"
    and st3: "tree_step (H \<union> G) (ids et2 \<union> set_option en3 - set_option den) et2 s2 et3 s3"
    and G: "G = {} \<or> blkaddr \<noteq> 0 \<and> G = {(unat fo, unat blkaddr)}" "(\<forall>i. ao i) \<and> blkaddr \<noteq> 0 \<longrightarrow> G \<noteq> {}"
    and n3: "\<forall>i\<in>ids et3. i < en_next s3"
    unfolding t2(2) by blast
  have t3: "tree_ok et3" "graph (nodes et3) = H \<union> G" "same_sb s2 s3"
    "ids et3 = ids et2 \<union> set_option en3 - set_option den" using st3 by (simp_all add: tree_step_def)
  define s4 where "s4 = (let s = (case en of Some n \<Rightarrow> list_del (en_id n) s3 | None \<Rightarrow> s3);
       s = (case en1 of Some i \<Rightarrow> list_add_tail i s | None \<Rightarrow> s);
       s = (case en2 of Some i \<Rightarrow> list_add_tail i s | None \<Rightarrow> s);
       s = (case en3 of Some i \<Rightarrow> list_add_tail i (list_del i s) | None \<Rightarrow> s)
     in case den of Some i \<Rightarrow> list_del i s | None \<Rightarrow> s)"
  note l4 = step4 [OF s4_def]
  have sb: "extent_tree_root s4 = extent_tree_root s1" "extent_list s3 = extent_list s1"
    "total_ext_tree s4 = total_ext_tree s1" "en_next s1 \<le> en_next s4" "en_next s4 = en_next s3"
    using t2(3) t3(3) l4 by (simp_all add: same_sb_def)
  have upd: "f2fs_update_extent_tree rb ao ino fo blkaddr s = Some (put_extent_tree ino et3 s4)"
    unfolding f2fs_update_extent_tree_def g lk Let_def prod.case sp [unfolded Let_def] option.case ib s4_def by simp
  have ok1: "distinct (map fst (extent_tree_root s1))"
    "\<forall>(i, et)\<in>set (extent_tree_root s1). tree_ok et \<and> (\<forall>k\<in>ids et. k < en_next s1)"
    "set (extent_list s1) \<subseteq> live s1" "total_ext_tree s1 = int (length (extent_tree_root s1))"
    using gs(3) by (simp_all add: cache_ok_def)
  have only: "t = et" if "(ino, t) \<in> set (extent_tree_root s1)" for t
    using gs(2) ok1(1) that by (simp add: find_extent_tree_def)
  have "cache_ok (put_extent_tree ino et3 s4)"
  proof (rule put_tree_ok)
    show "\<forall>(i, et)\<in>set (extent_tree_root s4). i \<noteq> ino \<longrightarrow> tree_ok et \<and> (\<forall>k\<in>ids et. k < en_next s4)"
    proof -
      have "tree_ok t \<and> (\<forall>k\<in>ids t. k < en_next s4)" if "(i, t) \<in> set (extent_tree_root s1)" for i t
        using bspec [OF ok1(2) that] sb(4) by auto
      then show ?thesis unfolding sb(1) by blast
    qed
    show "\<forall>k\<in>set (extent_list s4). k \<in> ids et3 \<or> (\<exists>(i, et)\<in>set (extent_tree_root s4). i \<noteq> ino \<and> k \<in> ids et)"
    proof
      fix k assume k: "k \<in> set (extent_list s4)"
      show "k \<in> ids et3 \<or> (\<exists>(i, et)\<in>set (extent_tree_root s4). i \<noteq> ino \<and> k \<in> ids et)"
      proof (cases "k \<in> set (extent_list s1) \<and> k \<notin> set_option (map_option en_id en)")
        case True
        then obtain i t where it: "(i, t) \<in> set (extent_tree_root s1)" "k \<in> ids t"
          using ok1(3) by (auto simp: live_def)
        show ?thesis
        proof (cases "i = ino")
          case True
          then have "k \<in> ids et" using it only by blast
          then show ?thesis using k l4(1) \<open>k \<in> set (extent_list s1) \<and> _\<close> t2(4) t3(4) by auto
        qed (use it sb(1) in auto)
      next
        case False
        then show ?thesis using k l4(1) sb(2) t2(4) t3(4) by auto
      qed
    qed
    have "ino \<in> fst ` set (extent_tree_root s1)"
      using map_of_SomeD [of "extent_tree_root s1" ino et] gs(2) by (force simp: find_extent_tree_def)
    then show "total_ext_tree s4 = int (length (AList.update ino et3 (extent_tree_root s4)))"
      using sb(1,3) ok1(4) by (simp add: length_update)
  qed (use ok1(1) sb t3(1) n3 in simp_all)
  note F1 = this
  have "cached s4 j = cached s j" for j
    using c1 [of j] sb(1) by (simp add: cached_def find_extent_tree_def)
  then have F2: "\<forall>j. j \<noteq> ino \<longrightarrow> cached (put_extent_tree ino et3 s4) j = cached s j"
    "cached (put_extent_tree ino et3 s4) ino = H \<union> G" by (simp_all add: put_tree t3(2))
  have "(f, b) \<in> cached s ino \<or> (\<exists>e. long_right s ino fo e \<and> unat fo < f \<and> (f, Suc b) \<in> ext_graph e)"
    if fb: "(f, b) \<in> H" for f b
  proof (cases en)
    case None
    then show ?thesis using H(2) fb cg by simp
  next
    case (Some n)
    then obtain G' where n: "n \<in> set (nodes et)" "unat (fofs (ei n)) \<le> unat fo" "unat fo < ex_end (ei n)"
      and G': "G' \<subseteq> kept_of_split (unat fo) (ei n)"
        "H = graph (filter (\<lambda>m. en_id m \<noteq> en_id n) (nodes et)) \<union> G'" using H(2) by auto
    have sub: "graph (filter (\<lambda>m. en_id m \<noteq> en_id n) (nodes et)) \<subseteq> cached s ino" "ext_graph (ei n) \<subseteq> cached s ino"
      using n(1) cg by (auto simp: graph_def)
    show ?thesis
      using fb G' sub lr [OF n]
      by (auto simp: kept_of_split_def left_of_def right_shifted_def split: if_splits)
  qed
  then have F3: "\<forall>f b. (f, b) \<in> H \<longrightarrow> f \<noteq> unat fo \<and> ((f, b) \<in> cached s ino \<or>
       (\<exists>e. long_right s ino fo e \<and> unat fo < f \<and> (f, Suc b) \<in> ext_graph e))" using H(1) by blast
  have "(f, b) \<in> H"
    if h: "(\<forall>i. ao i) \<and> long_right s ino fo e \<and> unat fo < f \<and> (f, Suc b) \<in> ext_graph e" for e f b
  proof -
    obtain m where m: "m \<in> set (nodes et)" "e = ei m" "unat (fofs (ei m)) \<le> unat fo" "unat fo < ex_end (ei m)"
        "64 \<le> ex_end (ei m) - 1 - unat fo"
      using h gs(1) by (auto simp: long_right_def)
    have nok: "nodes_ok (nodes et)" using et(1) by (simp add: tree_ok_def)
    have "en = Some m" using lookup_spec(2) [OF et(1) lk, of m] m by simp
    then show ?thesis using H(2) h m by (auto simp: right_shifted_def)
  qed
  then have F4: "\<forall>e f b. (\<forall>i. ao i) \<and> long_right s ino fo e \<and> unat fo < f \<and> (f, Suc b) \<in> ext_graph e \<longrightarrow> (f, b) \<in> H"
    by blast
  show ?thesis
    by (rule exI [of _ "put_extent_tree ino et3 s4"], rule exI [of _ H], rule exI [of _ G])
      (intro conjI upd F1 F2 F3 F4 G)
qed


section \<open>A library and a state for the examples\<close>

definition plain_rb :: rb_lib where
  "plain_rb = \<lparr>rb_insert_color = (\<lambda>t. t),
     rb_erase = (\<lambda>i t. foldr (\<lambda>n r. Node Leaf n r) (filter (\<lambda>n. en_id n \<noteq> i) (inorder t)) Leaf)\<rparr>"

lemma plain_rb_ok: "rb_ok plain_rb"
proof -
  have "inorder (foldr (\<lambda>n r. Node Leaf n r) xs Leaf) = xs" for xs :: "extent_node list"
    by (induction xs) simp_all
  then show ?thesis by (simp add: rb_ok_def plain_rb_def)
qed

definition one_run :: ext_sb where
  "one_run = \<lparr>extent_tree_root = [(5, \<lparr>et_root = Node Leaf \<lparr>en_id = 0, ei = \<lparr>fofs = 0, blk = 1000, len = 100\<rparr>\<rparr> Leaf,
       cached_en = None, et_refcount = 0, et_count = 1\<rparr>)],
     extent_list = [0], total_ext_tree = 1, total_ext_node = 1, en_next = 1\<rparr>"

lemma one_run_ok: "cache_ok one_run"
  by (simp add: cache_ok_def one_run_def tree_ok_def nodes_ok_def ext_ok_def ex_end_def ids_def live_def)

lemma one_run_cached: "cached one_run 5 = {(f, b). f < 100 \<and> b = 1000 + f}"
  by (auto simp: cached_def one_run_def find_extent_tree_def graph_def ext_graph_def ex_end_def)

lemma one_run_long: "long_right one_run 5 fo e \<longleftrightarrow>
    e = \<lparr>fofs = 0, blk = 1000, len = 100\<rparr> \<and> unat fo \<le> 35"
  by (auto simp: long_right_def one_run_def tree_of_def find_extent_tree_def ex_end_def)

section \<open>Properties\<close>

text \<open>
  C7: An update that does not split a cached run so that 64 or more blocks are left to the right of
  the updated one (no \<open>long_right\<close> run) keeps the extent cache in step with the file: if every cached
  pair agrees with the mapping \<open>m\<close> of the file, then after \<open>f2fs_update_extent_tree\<close> for block \<open>fo\<close> every
  cached pair agrees with \<open>m\<close> changed at \<open>fo\<close>, the update returns (no endless descent, no null pointer),
  the invariant of the cache holds, the caches of other inodes are as before, and a new address that is not
  null is cached if memory does not run out. The block number and the address have a successor in 32 bits,
  and the rebalancing of the tree keeps its order (\<open>rb_ok\<close>). What a split
  that leaves a long right part does is the next property.
\<close>
theorem extent_tree_update_coherent:
  assumes "rb_ok rb" and "cache_ok s" and "unat fo + 1 < 2 ^ 32" and "unat blkaddr + 1 < 2 ^ 32"
    and "\<forall>e. \<not> long_right s ino fo e" and "\<forall>f b. (f, b) \<in> cached s ino \<longrightarrow> m f = b"
  shows "\<exists>s'. f2fs_update_extent_tree rb ao ino fo blkaddr s = Some s' \<and> cache_ok s' \<and>
    (\<forall>f b. (f, b) \<in> cached s' ino \<longrightarrow> (m(unat fo := unat blkaddr)) f = b \<and> (f = unat fo \<longrightarrow> blkaddr \<noteq> 0)) \<and>
    (\<forall>j. j \<noteq> ino \<longrightarrow> cached s' j = cached s j) \<and>
    ((\<forall>i. ao i) \<and> blkaddr \<noteq> 0 \<longrightarrow> (unat fo, unat blkaddr) \<in> cached s' ino)"
proof -
  have "\<forall>e b. long_right s ino fo e \<longrightarrow> (ex_end e, b) \<notin> cached s ino" using assms(5) by blast
  from update_spec [OF assms(1-4) this, of ao] obtain s' H G where
    u: "f2fs_update_extent_tree rb ao ino fo blkaddr s = Some s'" "cache_ok s'"
      "\<forall>j. j \<noteq> ino \<longrightarrow> cached s' j = cached s j" "cached s' ino = H \<union> G"
    and H: "\<forall>f b. (f, b) \<in> H \<longrightarrow> f \<noteq> unat fo \<and> ((f, b) \<in> cached s ino \<or>
       (\<exists>e. long_right s ino fo e \<and> unat fo < f \<and> (f, Suc b) \<in> ext_graph e))"
    and G: "G = {} \<or> blkaddr \<noteq> 0 \<and> G = {(unat fo, unat blkaddr)}" "(\<forall>i. ao i) \<and> blkaddr \<noteq> 0 \<longrightarrow> G \<noteq> {}"
    by (elim exE conjE)
  have new: "(f, b) \<in> cached s' ino \<longrightarrow> (m(unat fo := unat blkaddr)) f = b \<and> (f = unat fo \<longrightarrow> blkaddr \<noteq> 0)" for f b
  proof (cases "(f, b) \<in> H")
    case True
    then show ?thesis using H assms(5,6) by simp
  next
    case False
    then show ?thesis using u(4) G(1) by auto
  qed
  have "(\<forall>i. ao i) \<and> blkaddr \<noteq> 0 \<longrightarrow> (unat fo, unat blkaddr) \<in> cached s' ino"
    using u(4) G by blast
  then show ?thesis using u(1-3) new by blast
qed

theorem extent_tree_update_coherent_witness:
  "\<exists>s'. f2fs_update_extent_tree plain_rb (\<lambda>_. True) 5 50 7000 one_run = Some s' \<and> (50, 7000) \<in> cached s' 5"
proof -
  have h: "unat (50 :: u32) + 1 < 2 ^ 32" "unat (7000 :: u32) + 1 < 2 ^ 32" "\<forall>e. \<not> long_right one_run 5 50 e"
    "\<forall>f b. (f, b) \<in> cached one_run 5 \<longrightarrow> 1000 + f = b"
    by (simp_all add: one_run_long one_run_cached)
  obtain s' where "f2fs_update_extent_tree plain_rb (\<lambda>_. True) 5 50 7000 one_run = Some s'"
    "(\<forall>i. (\<lambda>_. True) (i :: nat)) \<and> (7000 :: u32) \<noteq> 0 \<longrightarrow> (unat (50 :: u32), unat (7000 :: u32)) \<in> cached s' 5"
    using extent_tree_update_coherent [OF plain_rb_ok one_run_ok h, of "\<lambda>_. True"] by blast
  then show ?thesis by (intro exI [of _ s']) simp
qed

text \<open>A lookup of a cached block finds the one extent that covers it.\<close>

lemma lookup_found:
  assumes "cache_ok s" and "(unat pg, b) \<in> cached s ino"
  shows "\<exists>e s'. f2fs_lookup_extent_tree ino pg s = (Some e, s') \<and> fofs e \<le> pg \<and> unat pg < ex_end e \<and>
    unat (blk e + pg - fofs e) = b"
proof -
  obtain et where et: "find_extent_tree ino s = Some et" "(unat pg, b) \<in> graph (nodes et)"
    using assms(2) by (auto simp: cached_def split: option.splits)
  have tr: "tree_ok et" using tree_of_ok(1) [OF assms(1), of ino] et(1) by (simp add: tree_of_def)
  obtain q et' where lk: "lookup_extent_tree pg et = (q, et')" by fastforce
  obtain n where n: "n \<in> set (nodes et)" "(unat pg, b) \<in> ext_graph (ei n)" using et(2) by (auto simp: graph_def)
  then have c: "unat (fofs (ei n)) \<le> unat pg" "unat pg < ex_end (ei n)"
    "b = unat (blk (ei n)) + (unat pg - unat (fofs (ei n)))" by (auto simp: ext_graph_def)
  have q: "q = Some n" using lookup_spec(2) [OF tr lk] n(1) c by simp
  have ok: "unat (blk (ei n)) + unat (len (ei n)) < 2 ^ 32"
    using tr n(1) by (auto simp: tree_ok_def nodes_ok_def ext_ok_def)
  have le: "fofs (ei n) \<le> pg" using c(1) by (simp add: word_le_nat_alt)
  have "unat (blk (ei n) + (pg - fofs (ei n))) = b"
    using ok c(2,3) unat_sub [OF le] by (subst unat_small_add) (simp_all add: ex_end_def)
  then show ?thesis using et(1) lk q le c(2)
    by (auto simp: f2fs_lookup_extent_tree_def Let_def add_diff_eq)
qed

text \<open>
  C8: With enough memory for the new nodes, an update of block \<open>fo\<close> that splits a cached run \<open>e\<close> and
  leaves 64 or more blocks to its right (a \<open>long_right\<close> run), where no cached extent starts right at the
  end of that run, shifts the right part of the run by one block: a file block \<open>f\<close> of that part for
  which a lookup before the update gave the address \<open>b + 1\<close> (the address \<open>blk + f - fofs\<close> that the readers
  compute from the extent they get) is found after it too, but with the address \<open>b\<close>, the block of its
  left neighbour in the file, although the update was only about \<open>fo\<close>. (Block number, address and tree are
  as in the property before.)
\<close>
theorem extent_split_shifts_right_part:
  assumes "rb_ok rb" and "cache_ok s" and "unat fo + 1 < 2 ^ 32" and "unat blkaddr + 1 < 2 ^ 32"
    and "\<forall>e b. long_right s ino fo e \<longrightarrow> (ex_end e, b) \<notin> cached s ino"
    and "\<forall>i. ao i" and "long_right s ino fo e" and "fo < f" and "(unat f, Suc b) \<in> ext_graph e"
  shows "\<exists>s' old new t t'. f2fs_update_extent_tree rb ao ino fo blkaddr s = Some s' \<and>
    (unat f, Suc b) \<in> cached s ino \<and> (unat f, b) \<in> cached s' ino \<and>
    f2fs_lookup_extent_tree ino f s = (Some old, t) \<and> unat (blk old + f - fofs old) = Suc b \<and>
    f2fs_lookup_extent_tree ino f s' = (Some new, t') \<and> unat (blk new + f - fofs new) = b"
proof -
  have c: "(unat f, Suc b) \<in> cached s ino"
    using assms(7,9) by (auto simp: long_right_def cached_tree_of graph_def)
  have "\<exists>s'. f2fs_update_extent_tree rb ao ino fo blkaddr s = Some s' \<and> cache_ok s' \<and> (unat f, b) \<in> cached s' ino"
    using update_spec [OF assms(1-5), of ao] assms(6-9) by (auto simp: word_less_nat_alt)
  then obtain s' where s': "f2fs_update_extent_tree rb ao ino fo blkaddr s = Some s'" "cache_ok s'"
    "(unat f, b) \<in> cached s' ino" by blast
  show ?thesis using c s'(1,3) lookup_found [OF assms(2) c] lookup_found [OF s'(2,3)] by blast
qed

theorem extent_split_shifts_right_part_witness:
  "\<exists>s' old new t t'. f2fs_update_extent_tree plain_rb (\<lambda>_. True) 5 10 7000 one_run = Some s' \<and>
     (unat (11 :: u32), Suc 1010) \<in> cached one_run 5 \<and> (unat (11 :: u32), 1010) \<in> cached s' 5 \<and>
     f2fs_lookup_extent_tree 5 11 one_run = (Some old, t) \<and> unat (blk old + 11 - fofs old) = Suc 1010 \<and>
     f2fs_lookup_extent_tree 5 11 s' = (Some new, t') \<and> unat (blk new + 11 - fofs new) = 1010"
proof -
  have e: "long_right one_run 5 10 \<lparr>fofs = 0, blk = 1000, len = 100\<rparr>" by (simp add: one_run_long)
  have n: "\<forall>e b. long_right one_run 5 10 e \<longrightarrow> (ex_end e, b) \<notin> cached one_run 5"
    by (simp add: one_run_long one_run_cached ex_end_def)
  have f: "(10 :: u32) < 11" "(unat (11 :: u32), Suc 1010) \<in> ext_graph \<lparr>fofs = 0, blk = 1000, len = 100\<rparr>"
    by (simp_all add: ext_graph_def ex_end_def)
  show ?thesis
    by (rule extent_split_shifts_right_part [OF plain_rb_ok one_run_ok _ _ n _ e f]) simp_all
qed

text \<open>
  C9: A lookup in the extent tree is exact: it finds an extent precisely when the block is cached,
  the extent it returns covers the block and all its pairs are cached, and neither the cached pairs
  of any inode nor the invariant change (only the order of use and \<open>cached_en\<close> do).
\<close>
theorem extent_lookup_exact:
  assumes "cache_ok s" and "f2fs_lookup_extent_tree ino pgofs s = (r, s')"
  shows "(case r of None \<Rightarrow> \<forall>b. (unat pgofs, b) \<notin> cached s ino
      | Some e \<Rightarrow> unat (fofs e) \<le> unat pgofs \<and> unat pgofs < ex_end e \<and> ext_graph e \<subseteq> cached s ino) \<and>
    cache_ok s' \<and> (\<forall>j. cached s' j = cached s j)"
proof (cases "find_extent_tree ino s")
  case None
  then show ?thesis using assms by (auto simp: f2fs_lookup_extent_tree_def cached_def)
next
  case (Some et)
  have tr: "tree_of s ino = et" using Some by (simp add: tree_of_def)
  note t = tree_of_ok [OF assms(1), of ino, unfolded tr]
  obtain q et' where lk: "lookup_extent_tree pgofs et = (q, et')" by fastforce
  note l = lookup_spec [OF t(1) lk]
  have same: "nodes et' = nodes et" "ids et' = ids et" using l(1) by (auto simp: ids_def)
  define l' where "l' = (case q of Some n \<Rightarrow> (if en_id n \<in> set (extent_list s)
    then filter (\<lambda>x. x \<noteq> en_id n) (extent_list s) @ [en_id n] else extent_list s) | None \<Rightarrow> extent_list s)"
  have e: "r = map_option ei q" "s' = put_extent_tree ino et' (s\<lparr>extent_list := l'\<rparr>)"
    using assms(2) Some lk
    by (auto simp: f2fs_lookup_extent_tree_def l'_def list_add_tail_def list_del_def put_extent_tree_def Let_def
        split: option.splits if_splits)
  have sl: "set l' = set (extent_list s)" by (auto simp: l'_def split: option.splits)
  have c: "cached (s\<lparr>extent_list := l'\<rparr>) j = cached s j" for j by (simp add: cached_def find_extent_tree_def)
  have cj: "cached s' j = cached s j" for j
    by (simp add: e(2) put_tree c same(1)) (simp add: cached_def Some)
  have ok1: "distinct (map fst (extent_tree_root s))"
    "\<forall>(i, et)\<in>set (extent_tree_root s). tree_ok et \<and> (\<forall>k\<in>ids et. k < en_next s)"
    "set (extent_list s) \<subseteq> live s" "total_ext_tree s = int (length (extent_tree_root s))"
    using assms(1) by (simp_all add: cache_ok_def)
  have mem: "(ino, et) \<in> set (extent_tree_root s)" using Some by (simp add: find_extent_tree_def map_of_SomeD)
  have "cache_ok s'"
    unfolding e(2)
  proof (rule put_tree_ok)
    show "\<forall>k\<in>set (extent_list (s\<lparr>extent_list := l'\<rparr>)). k \<in> ids et' \<or>
        (\<exists>(i, et)\<in>set (extent_tree_root (s\<lparr>extent_list := l'\<rparr>)). i \<noteq> ino \<and> k \<in> ids et)"
    proof
      fix k assume "k \<in> set (extent_list (s\<lparr>extent_list := l'\<rparr>))"
      then obtain i u where it: "(i, u) \<in> set (extent_tree_root s)" "k \<in> ids u"
        using ok1(3) sl by (auto simp: live_def)
      show "k \<in> ids et' \<or> (\<exists>(i, et)\<in>set (extent_tree_root (s\<lparr>extent_list := l'\<rparr>)). i \<noteq> ino \<and> k \<in> ids et)"
      proof (cases "i = ino")
        case True
        then have "u = et" using it(1) mem ok1(1) by (metis eq_key_imp_eq_value)
        then show ?thesis using it(2) same(2) by simp
      qed (use it in auto)
    qed
    have "ino \<in> fst ` set (extent_tree_root s)" using mem by force
    then show "total_ext_tree (s\<lparr>extent_list := l'\<rparr>) =
        int (length (AList.update ino et' (extent_tree_root (s\<lparr>extent_list := l'\<rparr>))))"
      using ok1(4) by (simp add: length_update)
  qed (use ok1(1,2) l(1) t(2) same(2) in auto)
  moreover have "\<forall>b. (unat pgofs, b) \<notin> cached s ino" if "q = None"
    using l(2) that by (auto simp: cached_def Some graph_def ext_graph_def)
  moreover have "unat (fofs (ei n)) \<le> unat pgofs \<and> unat pgofs < ex_end (ei n) \<and> ext_graph (ei n) \<subseteq> cached s ino"
    if "q = Some n" for n
    using l(2) [of n] that by (auto simp: cached_def Some graph_def)
  ultimately show ?thesis using cj e(1) by (auto split: option.splits)
qed

theorem extent_lookup_exact_witness:
  "\<exists>e s'. f2fs_lookup_extent_tree 5 42 one_run = (Some e, s') \<and> ext_graph e \<subseteq> cached one_run 5"
proof -
  obtain r s' where r: "f2fs_lookup_extent_tree 5 42 one_run = (r, s')" by fastforce
  have "(unat (42 :: u32), 1042) \<in> cached one_run 5" by (simp add: one_run_cached)
  with extent_lookup_exact [OF one_run_ok r] r show ?thesis by (auto split: option.splits)
qed

section \<open>The single extent\<close>

definition inode_graph :: "f2fs_inode_info \<Rightarrow> (nat \<times> nat) set" where
  "inode_graph fi = (if len (i_ext fi) = 0 then {} else ext_graph (i_ext fi))"

definition inode_ext_ok :: "f2fs_inode_info \<Rightarrow> bool" where
  "inode_ext_ok fi \<longleftrightarrow> len (i_ext fi) = 0 \<or> ext_ok (i_ext fi)"

lemma i_ext_set_flag [simp]: "i_ext (set_inode_flag fi f) = i_ext fi"
  by (simp add: set_inode_flag_def)

lemma ext_graph_eq:
  "ext_graph e = {(f, b). unat (fofs e) \<le> f \<and> f < unat (fofs e) + unat (len e) \<and> b + unat (fofs e) = unat (blk e) + f}"
  by (auto simp: ext_graph_def ex_end_def)

lemma u64_of_u32: "unat (ucast (x :: u32) :: u64) = unat x"
proof -
  have "unat x < 2 ^ 32" using unsigned_less [of x, where ?'a = nat] by simp
  then have "unat x < 2 ^ 64" by simp
  then show ?thesis by (simp add: unsigned_ucast_eq take_bit_nat_eq_self)
qed

lemma u32_of_u64: "unat (x :: u64) < 2 ^ 32 \<Longrightarrow> unat (ucast x :: u32) = unat x"
  by (simp add: unsigned_ucast_eq take_bit_nat_eq_self)

text \<open>The cases of the update, on numbers.\<close>

lemma fresh_extent:
  assumes "unat (fo :: u64) + 1 < 2 ^ 32" and "unat blkaddr + 1 < 2 ^ 32"
  shows "ext_ok (e\<lparr>fofs := ucast fo, blk := blkaddr, len := 1\<rparr>)"
    and "ext_graph (e\<lparr>fofs := ucast fo, blk := blkaddr, len := 1\<rparr>) = {(unat fo, unat blkaddr)}"
  using assms u32_of_u64 [of fo] by (auto simp: ext_ok_def ex_end_def ext_graph_def)

lemma grown_extent:
  assumes "ext_ok e" and "unat (fo :: u64) + 1 < 2 ^ 32" and "unat blkaddr + 1 < 2 ^ 32"
  shows "\<lbrakk>unat fo + 1 = unat (fofs e); unat blkaddr + 1 = unat (blk e)\<rbrakk> \<Longrightarrow>
      ext_ok (e\<lparr>fofs := fofs e - 1, blk := blk e - 1, len := len e + 1\<rparr>) \<and>
      ext_graph (e\<lparr>fofs := fofs e - 1, blk := blk e - 1, len := len e + 1\<rparr>) = insert (unat fo, unat blkaddr) (ext_graph e)"
    and "\<lbrakk>unat fo = ex_end e; unat blkaddr = unat (blk e) + unat (len e)\<rbrakk> \<Longrightarrow>
      ext_ok (e\<lparr>len := len e + 1\<rparr>) \<and>
      ext_graph (e\<lparr>len := len e + 1\<rparr>) = insert (unat fo, unat blkaddr) (ext_graph e)"
proof -
  have ok: "0 < unat (len e)" "ex_end e < 2 ^ 32" "unat (blk e) + unat (len e) < 2 ^ 32"
    using assms(1) by (simp_all add: ext_ok_def word_less_nat_alt)
  show "ext_ok (e\<lparr>fofs := fofs e - 1, blk := blk e - 1, len := len e + 1\<rparr>) \<and>
      ext_graph (e\<lparr>fofs := fofs e - 1, blk := blk e - 1, len := len e + 1\<rparr>) = insert (unat fo, unat blkaddr) (ext_graph e)"
    if h: "unat fo + 1 = unat (fofs e)" "unat blkaddr + 1 = unat (blk e)"
  proof -
    have f: "unat (fofs e - 1) = unat fo" "unat (blk e - 1) = unat blkaddr"
      using h by (simp_all add: unat_sub word_le_nat_alt)
    have l: "unat (len e + 1) = unat (len e) + 1"
      using ok h unat_small_add [of "len e" 1] by (simp add: ex_end_def)
    show ?thesis
      using ok h by (auto simp: ext_ok_def ext_graph_eq word_less_nat_alt f l ex_end_def)
  qed
  show "ext_ok (e\<lparr>len := len e + 1\<rparr>) \<and>
      ext_graph (e\<lparr>len := len e + 1\<rparr>) = insert (unat fo, unat blkaddr) (ext_graph e)"
    if h: "unat fo = ex_end e" "unat blkaddr = unat (blk e) + unat (len e)"
  proof -
    have l: "unat (len e + 1) = unat (len e) + 1"
      using ok h assms(2) unat_small_add [of "len e" 1] by (simp add: ex_end_def)
    show ?thesis
      using ok h assms(2,3) by (auto simp: ext_ok_def ext_graph_eq word_less_nat_alt l ex_end_def)
  qed
qed

lemma cut_extent:
  assumes "ext_ok e" and fo: "unat (fofs e) \<le> unat (fo :: u64)" "unat fo < ex_end e"
  shows "fo \<noteq> ucast (fofs e) \<Longrightarrow> ext_ok (e\<lparr>len := ucast (fo - ucast (fofs e))\<rparr>)"
    and "ext_graph (e\<lparr>len := ucast (fo - ucast (fofs e))\<rparr>) \<subseteq> {p \<in> ext_graph e. fst p \<noteq> unat fo}"
    and "unat fo + 1 < ex_end e \<Longrightarrow>
      ext_ok (e\<lparr>fofs := ucast (fo + 1), blk := ucast (ucast (blk e) + fo - ucast (fofs e) + 1),
        len := len e - ucast (fo - ucast (fofs e) + 1)\<rparr>)"
    and "unat fo + 1 < ex_end e \<Longrightarrow>
      ext_graph (e\<lparr>fofs := ucast (fo + 1), blk := ucast (ucast (blk e) + fo - ucast (fofs e) + 1),
        len := len e - ucast (fo - ucast (fofs e) + 1)\<rparr>) \<subseteq> {p \<in> ext_graph e. fst p \<noteq> unat fo}"
proof -
  have ok: "0 < unat (len e)" "ex_end e < 2 ^ 32" "unat (blk e) + unat (len e) < 2 ^ 32"
    using assms(1) by (simp_all add: ext_ok_def word_less_nat_alt)
  have d: "unat (fo - ucast (fofs e)) = unat fo - unat (fofs e)"
    using fo(1) by (simp add: unat_sub word_le_nat_alt u64_of_u32)
  have l: "unat (ucast (fo - ucast (fofs e)) :: u32) = unat fo - unat (fofs e)"
    using fo ok d by (subst u32_of_u64) simp_all
  have ne: "unat fo \<noteq> unat (fofs e)" if "fo \<noteq> ucast (fofs e)"
    using that u64_of_u32 [of "fofs e"] by (metis word_unat_eq_iff)
  show "ext_ok (e\<lparr>len := ucast (fo - ucast (fofs e))\<rparr>)" if "fo \<noteq> ucast (fofs e)"
    using ok fo ne [OF that] by (simp add: ext_ok_def word_less_nat_alt l ex_end_def)
  show "ext_graph (e\<lparr>len := ucast (fo - ucast (fofs e))\<rparr>) \<subseteq> {p \<in> ext_graph e. fst p \<noteq> unat fo}"
    using fo by (auto simp: ext_graph_eq l ex_end_def)
  assume r: "unat fo + 1 < ex_end e"
  have f1: "unat (fo + 1) = unat fo + 1" using unat_small_add [of fo 1] r ok by simp
  then have f2: "unat (ucast (fo + 1) :: u32) = unat fo + 1" using r ok by (subst u32_of_u64) simp_all
  have s1: "unat (ucast (blk e) + fo) = unat (blk e) + unat fo"
    using unat_small_add [of "ucast (blk e) :: u64" fo] r ok by (simp add: u64_of_u32)
  then have s2: "unat (ucast (blk e) + fo - ucast (fofs e)) = unat (blk e) + unat fo - unat (fofs e)"
    using fo(1) by (subst unat_sub) (simp_all add: word_le_nat_alt u64_of_u32)
  then have s3: "unat (ucast (blk e) + fo - ucast (fofs e) + 1) = unat (blk e) + unat fo - unat (fofs e) + 1"
    using unat_small_add [of "ucast (blk e) + fo - ucast (fofs e)" 1] r ok fo(1) by (simp add: ex_end_def)
  then have b: "unat (ucast (ucast (blk e) + fo - ucast (fofs e) + 1) :: u32) = unat (blk e) + (unat fo - unat (fofs e)) + 1"
    using r ok fo(1) by (subst u32_of_u64) (simp_all add: ex_end_def)
  have d1: "unat (fo - ucast (fofs e) + 1) = unat fo - unat (fofs e) + 1"
    using unat_small_add [of "fo - ucast (fofs e)" 1] d r ok by simp
  then have d2: "unat (ucast (fo - ucast (fofs e) + 1) :: u32) = unat fo - unat (fofs e) + 1"
    using r ok fo(1) by (subst u32_of_u64) simp_all
  then have n: "unat (len e - ucast (fo - ucast (fofs e) + 1)) = unat (len e) - (unat fo - unat (fofs e) + 1)"
    using r fo(1) by (subst unat_sub) (simp_all add: word_le_nat_alt ex_end_def)
  show "ext_ok (e\<lparr>fofs := ucast (fo + 1), blk := ucast (ucast (blk e) + fo - ucast (fofs e) + 1),
        len := len e - ucast (fo - ucast (fofs e) + 1)\<rparr>)"
    using r ok fo(1) by (simp add: ext_ok_def word_less_nat_alt ex_end_def f2 b n)
  show "ext_graph (e\<lparr>fofs := ucast (fo + 1), blk := ucast (ucast (blk e) + fo - ucast (fofs e) + 1),
        len := len e - ucast (fo - ucast (fofs e) + 1)\<rparr>) \<subseteq> {p \<in> ext_graph e. fst p \<noteq> unat fo}"
    using r fo(1) by (auto simp: ext_graph_eq f2 b n ex_end_def)
qed


lemma update_info_spec:
  assumes ok: "inode_ext_ok fi" and fo: "unat fo + 1 < 2 ^ 32" and bl: "unat blkaddr + 1 < 2 ^ 32"
    and null: "null_addr L = 0" and nb: "blk (i_ext fi) \<noteq> 1"
    and r: "update_extent_info L fi fo blkaddr = (upd, fi')"
  shows "inode_ext_ok fi' \<and> inode_graph fi' \<subseteq> {p \<in> inode_graph fi. fst p \<noteq> unat fo} \<union>
    (if blkaddr = 0 then {} else {(unat fo, unat blkaddr)})"
proof -
  define e where "e = i_ext fi"
  note fresh = fresh_extent [OF fo bl]
  show ?thesis
  proof (cases "len e = 0 \<or> len e = 1 \<and> fo = ucast (fofs e)")
    case True
    define e0 where "e0 = (if len e = 1 \<and> fo = ucast (fofs e) then e\<lparr>len := 0\<rparr> else e)"
    have z: "len e0 = 0" using True by (auto simp: e0_def)
    have i: "i_ext fi' = (if blkaddr \<noteq> 0 then e0\<lparr>fofs := ucast fo, blk := blkaddr, len := 1\<rparr> else e0)"
      using r null z unfolding update_extent_info_def Let_def e_def [symmetric] e0_def [symmetric] by auto
    show ?thesis
    proof (cases "blkaddr = 0")
      case True
      then show ?thesis using i z by (simp add: inode_ext_ok_def inode_graph_def)
    next
      case False
      then show ?thesis using i fresh [of e0] by (simp add: inode_ext_ok_def inode_graph_def)
    qed
  next
    case False
    then have l0: "len e \<noteq> 0" by simp
    have eok: "ext_ok e" using ok l0 by (simp add: inode_ext_ok_def e_def)
    note p = len_pos [OF eok]
    have ok': "0 < unat (len e)" "ex_end e < 2 ^ 32" "unat (blk e) + unat (len e) < 2 ^ 32"
      using eok by (simp_all add: ext_ok_def word_less_nat_alt)
    have gr: "inode_graph fi = ext_graph e" using l0 by (simp add: inode_graph_def e_def)
    have en: "unat (fofs e + len e - 1) = ex_end e - 1"
    proof -
      have "unat (fofs e + len e) = ex_end e" using ok' unat_small_add [of "fofs e" "len e"] by (simp add: ex_end_def)
      then show ?thesis using p by (subst unat_sub) (simp_all add: word_le_nat_alt)
    qed
    have be: "unat (blk e + len e - 1) = unat (blk e) + unat (len e) - 1"
    proof -
      have "unat (blk e + len e) = unat (blk e) + unat (len e)" using ok' unat_small_add [of "blk e" "len e"] by simp
      then show ?thesis using ok' by (subst unat_sub) (simp_all add: word_le_nat_alt)
    qed
    define F where "F \<longleftrightarrow> fo = ucast (fofs e) - 1 \<and> blkaddr = blk e - 1"
    define B where "B \<longleftrightarrow> fo = ucast (fofs e + len e - 1) + 1 \<and> blkaddr = blk e + len e - 1 + 1"
    define S where "S \<longleftrightarrow> len e > 1 \<and> fo \<ge> ucast (fofs e) \<and> fo \<le> ucast (fofs e + len e - 1)"
    define keep where "keep = (if S then if ucast (fofs e + len e - 1) - fo < ucast (drop_bit 1 (len e))
        then e\<lparr>len := ucast (fo - ucast (fofs e))\<rparr>
        else e\<lparr>fofs := ucast (fo + 1), blk := ucast (ucast (blk e) + fo - ucast (fofs e) + 1),
          len := len e - ucast (fo - ucast (fofs e) + 1)\<rparr> else e)"
    have ie: "i_ext (fi\<lparr>i_ext := x\<rparr>) = x" for x by simp
    have nd: "(len e = 1 \<and> fo = ucast (fofs e)) = False" using False by blast
    have "i_ext (snd (update_extent_info L fi fo blkaddr)) = (if F then e\<lparr>fofs := fofs e - 1, blk := blk e - 1, len := len e + 1\<rparr>
        else if B then e\<lparr>len := len e + 1\<rparr> else if len keep < 64 then keep\<lparr>len := 0\<rparr> else keep)"
      unfolding update_extent_info_def Let_def e_def [symmetric] nd if_False F_def [symmetric] B_def [symmetric]
        S_def [symmetric] keep_def
      by (cases F; cases B; cases S;
          cases "ucast (fofs e + len e - 1) - fo < (ucast (drop_bit 1 (len e)) :: u64)";
          simp only: l0 if_True if_False simp_thms prod.case if_distrib [of snd] if_distrib [of i_ext]
            i_ext_set_flag snd_conv ie)
    then have res: "i_ext fi' = (if F then e\<lparr>fofs := fofs e - 1, blk := blk e - 1, len := len e + 1\<rparr>
        else if B then e\<lparr>len := len e + 1\<rparr> else if len keep < 64 then keep\<lparr>len := 0\<rparr> else keep)"
      using r by simp
    consider "F" | "\<not> F" "B" | "\<not> F" "\<not> B" by blast
    then show ?thesis
    proof cases
      case 1
      have f: "unat fo + 1 = unat (fofs e)"
      proof (cases "fofs e = 0")
        case True
        then have "fo = - 1" using 1 by (simp add: F_def)
        then have "unat fo = 2 ^ 64 - 1" by (simp add: unat_eq_nat_uint unsigned_minus_1_eq_mask mask_eq_exp_minus_1)
        then show ?thesis using fo by simp
      next
        case False
        then have "unat (ucast (fofs e) - 1 :: u64) = unat (fofs e) - 1"
          by (subst unat_sub) (simp_all add: word_le_nat_alt u64_of_u32 Suc_leI unat_gt_0)
        then show ?thesis using 1 False by (simp add: F_def unat_gt_0 Suc_leI)
      qed
      have b: "unat blkaddr + 1 = unat (blk e)"
      proof (cases "blk e = 0")
        case True
        then have "blkaddr = - 1" using 1 by (simp add: F_def)
        then have "unat blkaddr = 2 ^ 32 - 1" by (simp add: unat_eq_nat_uint unsigned_minus_1_eq_mask mask_eq_exp_minus_1)
        then show ?thesis using bl by simp
      next
        case False
        then have "unat (blk e - 1) = unat (blk e) - 1"
          by (subst unat_sub) (simp_all add: word_le_nat_alt Suc_leI unat_gt_0)
        then show ?thesis using 1 False by (simp add: F_def unat_gt_0 Suc_leI)
      qed
      have "unat (blk e) \<noteq> 1" using nb unsigned_1 by (metis e_def unsigned_word_eqI)
      then have nz: "blkaddr \<noteq> 0" using b by auto
      have "unat fo \<notin> fst ` ext_graph e" using f by (auto simp: ext_graph_def)
      then have "ext_graph e \<subseteq> {p \<in> ext_graph e. fst p \<noteq> unat fo}" by (force simp: image_iff)
      then show ?thesis
        using grown_extent(1) [OF eok fo bl f b] res 1 nz gr by (auto simp: inode_ext_ok_def inode_graph_def)
    next
      case 2
      have f: "unat fo = ex_end e"
        using 2 en p unat_small_add [of "ucast (fofs e + len e - 1) :: u64" 1] ok'
        by (simp add: B_def u64_of_u32)
      have b: "unat blkaddr = unat (blk e) + unat (len e)"
        using 2 ok' unat_small_add [of "blk e" "len e"] by (simp add: B_def)
      have nz: "blkaddr \<noteq> 0" using b ok' by auto
      have "ext_graph e \<subseteq> {p \<in> ext_graph e. fst p \<noteq> unat fo}" using f by (auto simp: ext_graph_def)
      then show ?thesis
        using grown_extent(2) [OF eok fo bl f b] res 2 nz gr by (auto simp: inode_ext_ok_def inode_graph_def)
    next
      case 3
      then have res': "i_ext fi' = (if len keep < 64 then keep\<lparr>len := 0\<rparr> else keep)" using res by simp
      have "len keep \<ge> 64 \<Longrightarrow> ext_ok keep \<and> ext_graph keep \<subseteq> {p \<in> ext_graph e. fst p \<noteq> unat fo}"
      proof -
        assume k: "len keep \<ge> 64"
        show "ext_ok keep \<and> ext_graph keep \<subseteq> {p \<in> ext_graph e. fst p \<noteq> unat fo}"
        proof (cases S)
          case False
          have "\<not> (unat (fofs e) \<le> unat fo \<and> unat fo < ex_end e)"
          proof
            assume h: "unat (fofs e) \<le> unat fo \<and> unat fo < ex_end e"
            then have "fo \<ge> ucast (fofs e)" "fo \<le> ucast (fofs e + len e - 1)"
              using en h by (auto simp: word_le_nat_alt u64_of_u32)
            then have "\<not> len e > 1" using False by (simp add: S_def)
            then have "unat (len e) = 1" using ok' by (simp add: word_less_nat_alt)
            then have "fo = ucast (fofs e)" and "len e = 1"
              using h u64_of_u32 [of "fofs e"] by (simp_all add: ex_end_def word_unat_eq_iff)
            then show False using \<open>\<not> (len e = 0 \<or> len e = 1 \<and> fo = ucast (fofs e))\<close> by simp
          qed
          then show ?thesis using eok False by (auto simp: keep_def ext_graph_def)
        next
          case True
          then have h: "unat (fofs e) \<le> unat fo" "unat fo < ex_end e"
            using en p by (auto simp: S_def word_le_nat_alt u64_of_u32)
          note cut = cut_extent [OF eok h]
          show ?thesis
          proof (cases "ucast (fofs e + len e - 1) - fo < (ucast (drop_bit 1 (len e)) :: u64)")
            case c: True
            then have kp: "keep = e\<lparr>len := ucast (fo - ucast (fofs e))\<rparr>" using True by (simp add: keep_def)
            then have "fo \<noteq> ucast (fofs e)" using k by auto
            then show ?thesis using cut(1,2) kp by simp
          next
            case c: False
            then have kp: "keep = e\<lparr>fofs := ucast (fo + 1), blk := ucast (ucast (blk e) + fo - ucast (fofs e) + 1),
                len := len e - ucast (fo - ucast (fofs e) + 1)\<rparr>" using True by (simp add: keep_def)
            have "unat fo + 1 < ex_end e"
            proof (rule ccontr)
              assume "\<not> ?thesis"
              then have x: "unat fo + 1 = ex_end e" using h by simp
              have "unat (ucast (fofs e + len e - 1) - fo) = 0"
                using x en by (subst unat_sub) (simp_all add: word_le_nat_alt u64_of_u32)
              moreover have "unat (drop_bit 1 (len e)) = unat (len e) div 2"
                by (simp add: drop_bit_eq_div unat_div)
              moreover have "0 < unat (len e) div 2" using True by (simp add: S_def word_less_nat_alt)
              ultimately show False using c by (simp add: word_less_nat_alt u64_of_u32)
            qed
            then show ?thesis using cut(3,4) kp by simp
          qed
        qed
      qed
      then show ?thesis
        using res' gr by (auto simp: inode_ext_ok_def inode_graph_def not_less)
    qed
  qed
qed


text \<open>
  With the extent tree switched off, the single extent of an inode stays coherent: after an
  update it is again a run of blocks, and every pair it answers is a pair it answered before for
  another offset, or the new pair. (The block addresses must stay away from the end of the range,
  the null address is 0 and no extent starts at block 1, which is the superblock's.)
\<close>
theorem single_extent_update_coherent:
  assumes "inode_ext_ok fi" and "unat fo + 1 < 2 ^ 32" and "unat blkaddr + 1 < 2 ^ 32"
    and "null_addr L = 0" and "blk (i_ext fi) \<noteq> 1"
    and "\<forall>(f, b)\<in>inode_graph fi. m f = Some b"
  shows "inode_ext_ok (snd (update_extent_info L fi fo blkaddr)) \<and>
    (\<forall>(f, b)\<in>inode_graph (snd (update_extent_info L fi fo blkaddr)).
       (m(unat fo := if blkaddr = 0 then None else Some (unat blkaddr))) f = Some b)"
  using update_info_spec [OF assms(1-5) prod.collapse [symmetric]] assms(6)
  by (fastforce split: if_splits)

definition single_ext :: f2fs_inode_info where
  "single_ext = \<lparr>i_mode_dir = False, i_mode_reg = True, i_blocks = 201, i_advise = 0, i_dir_level = 0,
     i_current_depth = 1, i_acl_mode = 0, i_flags = 0, dirty_pages = 0, i_xattr_nid = 0,
     i_ext = \<lparr>fofs = 100, blk = 5000, len = 200\<rparr>\<rparr>"

theorem single_extent_update_coherent_witness:
  "inode_graph (snd (update_extent_info small_layout single_ext 130 9000)) \<subseteq>
     {(f, b). b = (if f = 130 then 9000 else f + 4900)}"
proof -
  let ?m = "\<lambda>f. Some (f + 4900 :: nat)"
  have g: "inode_graph single_ext = {(f, b). 100 \<le> f \<and> f < 300 \<and> b + 100 = 5000 + f}"
    by (simp add: inode_graph_def single_ext_def ext_graph_eq)
  have "inode_ext_ok single_ext"
    by (simp add: inode_ext_ok_def ext_ok_def single_ext_def ex_end_def)
  moreover have "blk (i_ext single_ext) \<noteq> 1" by (simp add: single_ext_def)
  moreover have "\<forall>(f, b)\<in>inode_graph single_ext. ?m f = Some b" by (auto simp: g)
  moreover have "null_addr small_layout = 0" by (simp add: small_layout_def)
  ultimately show ?thesis
    using single_extent_update_coherent [of single_ext 130 9000 small_layout ?m] by (auto split: if_splits)
qed

end
