(* ===== verification/Meta_Journal.thy ===== *)
theory Meta_Journal
  imports Sb_State
begin

text \<open>
  What the two tables of the file system (node addresses and segment information) share. Every
  block of a table has two copies on the device, and a bitmap says which one is current; an update
  copies the current block to the other copy and flips the bit, so the copy of the last checkpoint
  stays as it was. Small updates go to a journal in a summary block instead, whose entries override
  those of the block.
\<close>

section \<open>The journal in a summary block\<close>

datatype journal_type = NAT_JOURNAL | SIT_JOURNAL

definition nats_in_cursum :: "summary_block \<Rightarrow> nat" where
  "nats_in_cursum sm = jn (nat_j sm)"

definition sits_in_cursum :: "summary_block \<Rightarrow> nat" where
  "sits_in_cursum sm = jn (sit_j sm)"

definition nat_in_journal :: "summary_block \<Rightarrow> nat \<Rightarrow> raw_nat_entry" where
  "nat_in_journal sm i = jent (nat_j sm) i"

definition nid_in_journal :: "summary_block \<Rightarrow> nat \<Rightarrow> u32" where
  "nid_in_journal sm i = jkey (nat_j sm) i"

definition sit_in_journal :: "summary_block \<Rightarrow> nat \<Rightarrow> f2fs_sit_entry" where
  "sit_in_journal sm i = jent (sit_j sm) i"

definition segno_in_journal :: "summary_block \<Rightarrow> nat \<Rightarrow> u32" where
  "segno_in_journal sm i = jkey (sit_j sm) i"

definition MAX_NAT_JENTRIES :: "layout \<Rightarrow> summary_block \<Rightarrow> nat" where
  "MAX_NAT_JENTRIES L sm = nat_journal_entries L - nats_in_cursum sm"

definition MAX_SIT_JENTRIES :: "layout \<Rightarrow> summary_block \<Rightarrow> nat" where
  "MAX_SIT_JENTRIES L sm = sit_journal_entries L - sits_in_cursum sm"

text \<open>The count before the update and the summary block; the counts never go below zero.\<close>

definition update_nats_in_cursum :: "int \<Rightarrow> summary_block \<Rightarrow> nat \<times> summary_block" where
  "update_nats_in_cursum i rs =
     (let before = nats_in_cursum rs
      in (before, rs\<lparr>nat_j := (nat_j rs)\<lparr>jn := nat (int before + i)\<rparr>\<rparr>))"

definition update_sits_in_cursum :: "int \<Rightarrow> summary_block \<Rightarrow> nat \<times> summary_block" where
  "update_sits_in_cursum i rs =
     (let before = sits_in_cursum rs
      in (before, rs\<lparr>sit_j := (sit_j rs)\<lparr>jn := nat (int before + i)\<rparr>\<rparr>))"

definition has_cursum_space :: "layout \<Rightarrow> summary_block \<Rightarrow> nat \<Rightarrow> journal_type \<Rightarrow> bool" where
  "has_cursum_space L sm sz ty =
     (if ty = NAT_JOURNAL then sz \<le> MAX_NAT_JENTRIES L sm else sz \<le> MAX_SIT_JENTRIES L sm)"

text \<open>The loops over the slots, \<open>n\<close> slots from slot \<open>i\<close> on.\<close>

fun journal_slot :: "'e journal \<Rightarrow> u32 \<Rightarrow> nat \<Rightarrow> nat \<Rightarrow> nat option" where
  "journal_slot j val i 0 = None"
| "journal_slot j val i (Suc n) = (if jkey j i = val then Some i else journal_slot j val (Suc i) n)"

text \<open>None is the result -1.\<close>

definition lookup_journal_in_cursum ::
  "layout \<Rightarrow> summary_block \<Rightarrow> journal_type \<Rightarrow> u32 \<Rightarrow> bool \<Rightarrow> nat option \<times> summary_block" where
  "lookup_journal_in_cursum L sm ty val alloc =
     (if ty = NAT_JOURNAL
      then (case journal_slot (nat_j sm) val 0 (nats_in_cursum sm) of
              Some i \<Rightarrow> (Some i, sm)
            | None \<Rightarrow>
                if alloc \<and> nats_in_cursum sm < nat_journal_entries L
                then let (i, sm) = update_nats_in_cursum 1 sm in (Some i, sm)
                else (None, sm))
      else (case journal_slot (sit_j sm) val 0 (sits_in_cursum sm) of
              Some i \<Rightarrow> (Some i, sm)
            | None \<Rightarrow>
                if alloc \<and> sits_in_cursum sm < sit_journal_entries L
                then let (i, sm) = update_sits_in_cursum 1 sm in (Some i, sm)
                else (None, sm)))"

section \<open>What a journal holds\<close>

definition jlook :: "'e journal \<Rightarrow> u32 \<Rightarrow> 'e option" where
  "jlook j k = map_option (jent j) (journal_slot j k 0 (jn j))"

definition jkeys :: "'e journal \<Rightarrow> u32 set" where
  "jkeys j = jkey j ` {..<jn j}"

definition jok :: "'e journal \<Rightarrow> bool" where
  "jok j \<longleftrightarrow> inj_on (jkey j) {..<jn j}"

text \<open>The entry of a table: the journal's, or the one of the current block.\<close>

definition over :: "'e journal \<Rightarrow> (u32 \<Rightarrow> 'e) \<Rightarrow> u32 \<Rightarrow> 'e" where
  "over j tab k = (case jlook j k of Some e \<Rightarrow> e | None \<Rightarrow> tab k)"

text \<open>Writing an entry under a key: into its slot, or a new one.\<close>

definition jput :: "u32 \<Rightarrow> 'e \<Rightarrow> 'e journal \<Rightarrow> 'e journal" where
  "jput k e j =
     (case journal_slot j k 0 (jn j) of
        Some i \<Rightarrow> j\<lparr>jkey := (jkey j)(i := k), jent := (jent j)(i := e)\<rparr>
      | None \<Rightarrow> j\<lparr>jn := Suc (jn j), jkey := (jkey j)(jn j := k), jent := (jent j)(jn j := e)\<rparr>)"

lemma journal_slot_None: "journal_slot j k i n = None \<longleftrightarrow> k \<notin> jkey j ` {i..<i + n}"
proof (induction n arbitrary: i)
  case (Suc n)
  have "{i..<i + Suc n} = insert i {Suc i..<Suc i + n}" by auto
  then show ?case using Suc [of "Suc i"] by auto
qed simp

lemma journal_slot_Some:
  "journal_slot j k i n = Some m \<longleftrightarrow> i \<le> m \<and> m < i + n \<and> jkey j m = k \<and> k \<notin> jkey j ` {i..<m}"
proof (induction n arbitrary: i)
  case (Suc n)
  show ?case
  proof (cases "jkey j i = k")
    case True
    have "k \<notin> jkey j ` {i..<m} \<Longrightarrow> i \<le> m \<Longrightarrow> m = i"
      using True by (cases "i < m") (auto simp: image_iff)
    then show ?thesis using True by auto
  next
    case False
    have "{i..<m} = (if i < m then insert i {Suc i..<m} else {})" by auto
    then have "k \<notin> jkey j ` {i..<m} \<longleftrightarrow> k \<notin> jkey j ` {Suc i..<m}" using False by simp
    moreover have "jkey j m = k \<Longrightarrow> i \<le> m \<longleftrightarrow> Suc i \<le> m" using False by (cases "i = m") auto
    ultimately show ?thesis using Suc [of "Suc i"] False by auto
  qed
qed simp

lemma jlook_None: "jlook j k = None \<longleftrightarrow> k \<notin> jkeys j"
  by (simp add: jlook_def jkeys_def journal_slot_None atLeast0LessThan)

lemma slot_of_key: "k \<notin> jkeys j \<Longrightarrow> journal_slot j k 0 (jn j) = None"
  by (simp add: journal_slot_None jkeys_def atLeast0LessThan)

lemma slot_cases:
  obtains "k \<notin> jkeys j" | i where "journal_slot j k 0 (jn j) = Some i" "i < jn j" "jkey j i = k" "k \<in> jkeys j"
proof (cases "journal_slot j k 0 (jn j)")
  case None
  then show ?thesis using that(1) by (simp add: journal_slot_None jkeys_def atLeast0LessThan)
next
  case (Some i)
  then have "i < jn j" "jkey j i = k" by (simp_all add: journal_slot_Some)
  then show ?thesis using that(2) Some by (auto simp: jkeys_def)
qed

lemma jput_new:
  "k \<notin> jkeys j \<Longrightarrow> jput k e j = j\<lparr>jn := Suc (jn j), jkey := (jkey j)(jn j := k), jent := (jent j)(jn j := e)\<rparr>"
  by (simp add: jput_def slot_of_key)

lemma jput_old:
  assumes "journal_slot j k 0 (jn j) = Some i"
  shows "jput k e j = j\<lparr>jent := (jent j)(i := e)\<rparr>"
proof -
  have "(jkey j)(i := k) = jkey j" using assms by (auto simp: journal_slot_Some)
  then show ?thesis by (simp add: jput_def assms)
qed

lemma jlook_slot:
  assumes "jok j" and "i < jn j"
  shows "jlook j (jkey j i) = Some (jent j i)"
proof -
  have "jkey j m \<noteq> jkey j i" if "m < i" for m
    using assms that inj_onD [of "jkey j" "{..<jn j}" m i] by (auto simp: jok_def)
  then have "journal_slot j (jkey j i) 0 (jn j) = Some i"
    using assms(2) by (fastforce simp: journal_slot_Some)
  then show ?thesis by (simp add: jlook_def)
qed

lemma jlook_Some: "jok j \<Longrightarrow> jlook j k = Some e \<longleftrightarrow> (\<exists>i<jn j. jkey j i = k \<and> jent j i = e)"
  using jlook_slot [of j] by (auto simp: jlook_def journal_slot_Some)

lemma jput_keys: "jkeys (jput k e j) = insert k (jkeys j)"
proof (cases k j rule: slot_cases)
  case 1
  then show ?thesis by (auto simp: jput_new jkeys_def lessThan_Suc)
next
  case (2 i)
  then show ?thesis by (auto simp: jput_old jkeys_def)
qed

lemma jput_jok: "jok j \<Longrightarrow> jok (jput k e j)"
proof (cases k j rule: slot_cases)
  case 1
  assume "jok j"
  moreover have "inj_on ((jkey j)(jn j := k)) {..<jn j} = inj_on (jkey j) {..<jn j}"
    by (rule inj_on_cong) simp
  moreover have "((jkey j)(jn j := k)) ` {..<jn j} = jkeys j" by (simp add: jkeys_def)
  ultimately show ?thesis
    using 1 by (simp add: jput_new jok_def lessThan_Suc)
next
  case (2 i)
  assume "jok j"
  then show ?thesis using 2 by (simp add: jput_old jok_def)
qed

lemma jput_look:
  assumes "jok j"
  shows "jlook (jput k e j) k' = (if k' = k then Some e else jlook j k')"
proof -
  note ok = jput_jok [OF assms, of k e]
  show ?thesis
  proof (cases "k' \<in> jkeys (jput k e j)")
    case False
    then have "jlook (jput k e j) k' = None" "jlook j k' = None" "k' \<noteq> k"
      by (simp_all add: jlook_None jput_keys)
    then show ?thesis by simp
  next
    case True
    then obtain i where i: "i < jn (jput k e j)" "jkey (jput k e j) i = k'" by (auto simp: jkeys_def)
    note l = jlook_slot [OF ok i(1), unfolded i(2)]
    show ?thesis
    proof (cases k j rule: slot_cases)
      case 1
      then show ?thesis
        using i l jlook_slot [OF assms, of i] by (auto simp: jput_new jkeys_def less_Suc_eq split: if_splits)
    next
      case (2 m)
      have "i = m" if "jkey j i = jkey j m"
        using that assms i 2 inj_onD [of "jkey j" "{..<jn j}" i m] by (auto simp: jok_def jput_old)
      then show ?thesis
        using i l jlook_slot [OF assms, of i] 2 by (auto simp: jput_old split: if_splits)
    qed
  qed
qed

lemma over_jput: "jok j \<Longrightarrow> over (jput k e j) tab = (over j tab)(k := e)"
  by (auto simp: over_def jput_look)

lemma over_tab: "k \<notin> jkeys j \<Longrightarrow> over j (tab(k := e)) = (over j tab)(k := e)"
  using jlook_None [of j k] by (auto simp: over_def split: option.splits)

lemma over_empty [simp]: "jn j = 0 \<Longrightarrow> over j tab = tab"
  by (simp add: over_def jlook_def fun_eq_iff)

lemma jput_jn: "jn (jput k e j) = (if k \<in> jkeys j then jn j else Suc (jn j))"
  by (cases k j rule: slot_cases) (simp_all add: jput_new jput_old)

lemma jput_0: "jn (jput k e j) \<noteq> 0"
  by (cases k j rule: slot_cases) (auto simp: jput_new jput_old)

text \<open>The lookup followed by the writes of key and entry, as the flush routines do it.\<close>

lemma nat_lookup_alloc:
  assumes "lookup_journal_in_cursum L sm NAT_JOURNAL k True = (Some i, sm')"
  shows "sm'\<lparr>nat_j := (nat_j sm')\<lparr>jkey := (jkey (nat_j sm'))(i := k), jent := (jent (nat_j sm'))(i := e)\<rparr>\<rparr> =
    sm\<lparr>nat_j := jput k e (nat_j sm)\<rparr>"
  using assms
  by (auto simp: lookup_journal_in_cursum_def jput_def update_nats_in_cursum_def nats_in_cursum_def Let_def
      nat_add_distrib split: option.splits if_splits)

lemma sit_lookup_alloc:
  assumes "lookup_journal_in_cursum L sm SIT_JOURNAL k True = (Some i, sm')"
  shows "sm'\<lparr>sit_j := (sit_j sm')\<lparr>jkey := (jkey (sit_j sm'))(i := k), jent := (jent (sit_j sm'))(i := e)\<rparr>\<rparr> =
    sm\<lparr>sit_j := jput k e (sit_j sm)\<rparr>"
  using assms
  by (auto simp: lookup_journal_in_cursum_def jput_def update_sits_in_cursum_def sits_in_cursum_def Let_def
      nat_add_distrib split: option.splits if_splits)

lemma nat_lookup_None:
  "fst (lookup_journal_in_cursum L sm NAT_JOURNAL k True) = None \<longleftrightarrow>
     k \<notin> jkeys (nat_j sm) \<and> nat_journal_entries L \<le> jn (nat_j sm)"
  by (cases k "nat_j sm" rule: slot_cases)
    (simp_all add: lookup_journal_in_cursum_def nats_in_cursum_def update_nats_in_cursum_def Let_def slot_of_key Let_def)

lemma sit_lookup_None:
  "fst (lookup_journal_in_cursum L sm SIT_JOURNAL k True) = None \<longleftrightarrow>
     k \<notin> jkeys (sit_j sm) \<and> sit_journal_entries L \<le> jn (sit_j sm)"
  by (cases k "sit_j sm" rule: slot_cases)
    (simp_all add: lookup_journal_in_cursum_def sits_in_cursum_def update_sits_in_cursum_def Let_def slot_of_key Let_def)

lemma nat_lookup_noalloc:
  "lookup_journal_in_cursum L sm NAT_JOURNAL k False = (journal_slot (nat_j sm) k 0 (jn (nat_j sm)), sm)"
  by (simp add: lookup_journal_in_cursum_def nats_in_cursum_def split: option.splits)

lemma sit_lookup_noalloc:
  "lookup_journal_in_cursum L sm SIT_JOURNAL k False = (journal_slot (sit_j sm) k 0 (jn (sit_j sm)), sm)"
  by (simp add: lookup_journal_in_cursum_def sits_in_cursum_def split: option.splits)

section \<open>Two copies of every block\<close>

text \<open>
  \<open>cur b s\<close> and \<open>nxt b s\<close> are the addresses of the current and the other copy of block \<open>b\<close>,
  \<open>flip\<close> switches a block over.
\<close>

locale shadow_pages =
  fixes inv :: "'s \<Rightarrow> bool"
    and ok :: "'s \<Rightarrow> nat \<Rightarrow> bool"
    and cur :: "nat \<Rightarrow> 's \<Rightarrow> nat"
    and nxt :: "nat \<Rightarrow> 's \<Rightarrow> nat"
    and flip :: "nat \<Rightarrow> 's \<Rightarrow> 's"
  assumes flip_inv: "inv s \<Longrightarrow> ok s b \<Longrightarrow> inv (flip b s)"
    and flip_ok: "inv s \<Longrightarrow> ok s b \<Longrightarrow> ok (flip b s) b' = ok s b'"
    and cur_flip: "inv s \<Longrightarrow> ok s b \<Longrightarrow> ok s b' \<Longrightarrow> cur b' (flip b s) = (if b' = b then nxt b s else cur b' s)"
    and nxt_apart: "inv s \<Longrightarrow> ok s b \<Longrightarrow> ok s b' \<Longrightarrow> nxt b s \<noteq> cur b' s"
    and cur_apart: "inv s \<Longrightarrow> ok s b \<Longrightarrow> ok s b' \<Longrightarrow> b \<noteq> b' \<Longrightarrow> cur b s \<noteq> cur b' s"
begin

text \<open>Copying a block over and switching to the copy changes no block's current contents.\<close>

lemma copy_flip:
  assumes "inv s" "ok s b" "ok s b'"
  shows "(pages(nxt b s := pages (cur b s))) (cur b' (flip b s)) = pages (cur b' s)"
proof (cases "b' = b")
  case False
  then show ?thesis using assms cur_flip nxt_apart [of s b b'] by simp
qed (use assms cur_flip in simp)

text \<open>It writes none of the blocks that were current before.\<close>

lemma copy_keeps:
  assumes "inv s" "ok s b" "ok s b'"
  shows "(pages(nxt b s := p)) (cur b' s) = pages (cur b' s)"
  using assms nxt_apart [of s b b'] by simp

text \<open>After the switch, writing the current copy changes that block only.\<close>

lemma write_cur:
  assumes "inv s" "ok s b" "ok s b'"
  shows "(pages(cur b s := p)) (cur b' s) = (if b' = b then p else pages (cur b' s))"
  using assms cur_apart [of s b' b] by auto

end

end
