(* ===== verification/Node_Table.thy ===== *)
theory Node_Table
  imports Meta_Journal
begin

text \<open>
  The node address table (NAT, node.c and node.h): from node ids to the block address, the owner
  and the version of a node. Entries are cached in memory, dirty ones grouped by NAT block; on the
  device they are in the journal of the hot data log or in one of the two copies of a NAT block.

  The radix trees are association lists, the lists of entries are lists of node ids; an allocation
  succeeds (the code retries). Addresses of NAT blocks are natural numbers, the counters integers.
\<close>

section \<open>Entries\<close>

record node_info =
  ni_nid :: u32
  ni_ino :: u32
  ni_blk_addr :: u32
  ni_version :: u8
  ni_flag :: u8

datatype nat_flag = IS_CHECKPOINTED | HAS_FSYNCED_INODE | HAS_LAST_FSYNC | IS_DIRTY

fun nat_flag_no :: "nat_flag \<Rightarrow> nat" where
  "nat_flag_no IS_CHECKPOINTED = 0"
| "nat_flag_no HAS_FSYNCED_INODE = 1"
| "nat_flag_no HAS_LAST_FSYNC = 2"
| "nat_flag_no IS_DIRTY = 3"

definition copy_node_info :: "node_info \<Rightarrow> node_info \<Rightarrow> node_info" where
  "copy_node_info src dst = dst\<lparr>ni_nid := ni_nid src, ni_ino := ni_ino src,
     ni_blk_addr := ni_blk_addr src, ni_version := ni_version src\<rparr>"

definition set_nat_flag :: "nat_flag \<Rightarrow> bool \<Rightarrow> node_info \<Rightarrow> node_info" where
  "set_nat_flag ty v ne =
     (let mask = push_bit (nat_flag_no ty) 1
      in ne\<lparr>ni_flag := (if v then ni_flag ne OR mask else ni_flag ne AND NOT mask)\<rparr>)"

definition get_nat_flag :: "nat_flag \<Rightarrow> node_info \<Rightarrow> bool" where
  "get_nat_flag ty ne \<longleftrightarrow> ni_flag ne AND push_bit (nat_flag_no ty) 1 \<noteq> 0"

definition nat_reset_flag :: "node_info \<Rightarrow> node_info" where
  "nat_reset_flag ne =
     set_nat_flag HAS_LAST_FSYNC True
       (set_nat_flag HAS_FSYNCED_INODE False (set_nat_flag IS_CHECKPOINTED True ne))"

definition node_info_from_raw_nat :: "raw_nat_entry \<Rightarrow> node_info \<Rightarrow> node_info" where
  "node_info_from_raw_nat raw_ne ni = ni\<lparr>ni_ino := r_ino raw_ne, ni_blk_addr := r_block_addr raw_ne,
     ni_version := r_version raw_ne\<rparr>"

definition raw_nat_from_node_info :: "node_info \<Rightarrow> raw_nat_entry" where
  "raw_nat_from_node_info ni =
     \<lparr>r_version = ni_version ni, r_ino = ni_ino ni, r_block_addr = ni_blk_addr ni\<rparr>"

definition inc_node_version :: "u8 \<Rightarrow> u8" where
  "inc_node_version version = version + 1"

record nat_entry_set =
  entry_list :: "u32 list"
  entry_cnt :: int

datatype nid_state = NID_NEW | NID_ALLOC

record f2fs_nm_info =
  nat_blkaddr :: nat
  max_nid :: u32
  available_nids :: u32
  next_scan_nid :: u32
  ram_thresh :: nat
  nat_root :: "(u32 \<times> node_info) list"
  nat_set_root :: "(nat \<times> nat_entry_set) list"
  nat_entries :: "u32 list"
  nat_cnt :: int
  dirty_nat_cnt :: int
  free_nid_list :: "(u32 \<times> nid_state) list"
  fcnt :: int
  nat_bitmap :: bytemap
  hot_sum :: summary_block                   \<comment> \<open>summary block of CURSEG_HOT_DATA\<close>
  nat_pages :: "nat \<Rightarrow> nat \<Rightarrow> raw_nat_entry"  \<comment> \<open>NAT blocks in the meta mapping, by address\<close>
  nm_bug :: bool                             \<comment> \<open>a \<open>f2fs_bug_on\<close> has fired\<close>

definition nm_bug_on :: "bool \<Rightarrow> f2fs_nm_info \<Rightarrow> f2fs_nm_info" where
  "nm_bug_on c s = s\<lparr>nm_bug := nm_bug s \<or> c\<rparr>"

section \<open>Addresses of NAT blocks\<close>

definition NAT_BLOCK_OFFSET :: "layout \<Rightarrow> u32 \<Rightarrow> nat" where
  "NAT_BLOCK_OFFSET L start_nid = unat start_nid div nat_entry_per_block L"

definition START_NID :: "layout \<Rightarrow> u32 \<Rightarrow> nat" where
  "START_NID L nid = (unat nid div nat_entry_per_block L) * nat_entry_per_block L"

definition current_nat_addr :: "layout \<Rightarrow> geom \<Rightarrow> u32 \<Rightarrow> f2fs_nm_info \<Rightarrow> nat" where
  "current_nat_addr L g start s =
     (let block_off = NAT_BLOCK_OFFSET L start;
          seg_off = drop_bit (log_blocks_per_seg g) block_off;
          block_addr = nat_blkaddr s + push_bit 1 (push_bit (log_blocks_per_seg g) seg_off)
            + (block_off AND (push_bit (log_blocks_per_seg g) 1 - 1))
      in if f2fs_test_bit block_off (nat_bitmap s) \<noteq> 0 then block_addr + blocks_per_seg g
         else block_addr)"

definition next_nat_addr :: "geom \<Rightarrow> nat \<Rightarrow> f2fs_nm_info \<Rightarrow> nat" where
  "next_nat_addr g block_addr s =
     (let block_addr = block_addr - nat_blkaddr s;
          block_addr = (if drop_bit (log_blocks_per_seg g) block_addr mod 2 \<noteq> 0
            then block_addr - blocks_per_seg g else block_addr + blocks_per_seg g)
      in block_addr + nat_blkaddr s)"

definition set_to_next_nat :: "layout \<Rightarrow> u32 \<Rightarrow> f2fs_nm_info \<Rightarrow> f2fs_nm_info" where
  "set_to_next_nat L start_nid s =
     s\<lparr>nat_bitmap := f2fs_change_bit (NAT_BLOCK_OFFSET L start_nid) (nat_bitmap s)\<rparr>"

definition get_current_nat_page :: "layout \<Rightarrow> geom \<Rightarrow> u32 \<Rightarrow> f2fs_nm_info \<Rightarrow> nat \<Rightarrow> raw_nat_entry" where
  "get_current_nat_page L g nid s = nat_pages s (current_nat_addr L g nid s)"

text \<open>The address of the page returned and the state.\<close>

definition get_next_nat_page :: "layout \<Rightarrow> geom \<Rightarrow> u32 \<Rightarrow> f2fs_nm_info \<Rightarrow> nat \<times> f2fs_nm_info" where
  "get_next_nat_page L g nid s =
     (let src_off = current_nat_addr L g nid s;
          dst_off = next_nat_addr g src_off s;
          s = s\<lparr>nat_pages := (nat_pages s)(dst_off := nat_pages s src_off)\<rparr>
      in (dst_off, set_to_next_nat L nid s))"

section \<open>The cache\<close>

definition lookup_nat_cache :: "u32 \<Rightarrow> f2fs_nm_info \<Rightarrow> node_info option" where
  "lookup_nat_cache n s = map_of (nat_root s) n"

text \<open>Changing the entry of a node id in place.\<close>

definition upd_nat :: "u32 \<Rightarrow> (node_info \<Rightarrow> node_info) \<Rightarrow> f2fs_nm_info \<Rightarrow> f2fs_nm_info" where
  "upd_nat n f s = s\<lparr>nat_root := AList.map_entry n f (nat_root s)\<rparr>"

definition del_from_nat_cache :: "u32 \<Rightarrow> f2fs_nm_info \<Rightarrow> f2fs_nm_info" where
  "del_from_nat_cache n s = s\<lparr>nat_entries := removeAll n (nat_entries s),
     nat_root := AList.delete n (nat_root s), nat_cnt := nat_cnt s - 1\<rparr>"

definition set_nat_cache_dirty :: "layout \<Rightarrow> u32 \<Rightarrow> f2fs_nm_info \<Rightarrow> f2fs_nm_info" where
  "set_nat_cache_dirty L n s =
     (case lookup_nat_cache n s of None \<Rightarrow> s
      | Some ne \<Rightarrow>
          if get_nat_flag IS_DIRTY ne then s
          else let set_no = NAT_BLOCK_OFFSET L n;
                   head = (case map_of (nat_set_root s) set_no of Some h \<Rightarrow> h
                           | None \<Rightarrow> \<lparr>entry_list = [], entry_cnt = 0\<rparr>);
                   head = head\<lparr>entry_list := entry_list head @ [n], entry_cnt := entry_cnt head + 1\<rparr>;
                   s = s\<lparr>nat_set_root := AList.update set_no head (nat_set_root s),
                     nat_entries := removeAll n (nat_entries s), dirty_nat_cnt := dirty_nat_cnt s + 1\<rparr>
               in upd_nat n (set_nat_flag IS_DIRTY True) s)"

definition clear_nat_cache_dirty :: "layout \<Rightarrow> u32 \<Rightarrow> f2fs_nm_info \<Rightarrow> f2fs_nm_info" where
  "clear_nat_cache_dirty L n s =
     (let set_no = NAT_BLOCK_OFFSET L n
      in case map_of (nat_set_root s) set_no of None \<Rightarrow> s
         | Some head \<Rightarrow>
             let head = head\<lparr>entry_list := removeAll n (entry_list head), entry_cnt := entry_cnt head - 1\<rparr>;
                 s = s\<lparr>nat_set_root := AList.update set_no head (nat_set_root s),
                   nat_entries := nat_entries s @ [n], dirty_nat_cnt := dirty_nat_cnt s - 1\<rparr>
             in upd_nat n (set_nat_flag IS_DIRTY False) s)"

definition is_checkpointed_node :: "u32 \<Rightarrow> f2fs_nm_info \<Rightarrow> bool" where
  "is_checkpointed_node nid s =
     (case lookup_nat_cache nid s of None \<Rightarrow> True | Some e \<Rightarrow> get_nat_flag IS_CHECKPOINTED e)"

definition has_fsynced_inode :: "u32 \<Rightarrow> f2fs_nm_info \<Rightarrow> bool" where
  "has_fsynced_inode ino s =
     (case lookup_nat_cache ino s of None \<Rightarrow> False | Some e \<Rightarrow> get_nat_flag HAS_FSYNCED_INODE e)"

definition need_inode_block_update :: "u32 \<Rightarrow> f2fs_nm_info \<Rightarrow> bool" where
  "need_inode_block_update ino s =
     (case lookup_nat_cache ino s of None \<Rightarrow> True
      | Some e \<Rightarrow> \<not> (get_nat_flag HAS_LAST_FSYNC e \<and>
          (get_nat_flag IS_CHECKPOINTED e \<or> get_nat_flag HAS_FSYNCED_INODE e)))"

definition grab_nat_entry :: "u32 \<Rightarrow> f2fs_nm_info \<Rightarrow> f2fs_nm_info" where
  "grab_nat_entry nid s =
     (let new = nat_reset_flag \<lparr>ni_nid = nid, ni_ino = 0, ni_blk_addr = 0, ni_version = 0, ni_flag = 0\<rparr>
      in s\<lparr>nat_root := AList.update nid new (nat_root s), nat_entries := nat_entries s @ [nid],
           nat_cnt := nat_cnt s + 1\<rparr>)"

definition cache_nat_entry :: "u32 \<Rightarrow> raw_nat_entry \<Rightarrow> f2fs_nm_info \<Rightarrow> f2fs_nm_info" where
  "cache_nat_entry nid ne s =
     (case lookup_nat_cache nid s of
        None \<Rightarrow> upd_nat nid (node_info_from_raw_nat ne) (grab_nat_entry nid s)
      | Some _ \<Rightarrow> s)"

definition set_node_addr :: "layout \<Rightarrow> node_info \<Rightarrow> u32 \<Rightarrow> bool \<Rightarrow> f2fs_nm_info \<Rightarrow> f2fs_nm_info" where
  "set_node_addr L ni new_blkaddr fsync_done s =
     (let n = ni_nid ni;
          s = (case lookup_nat_cache n s of
                 None \<Rightarrow> nm_bug_on (ni_blk_addr ni = new_addr L) (upd_nat n (copy_node_info ni) (grab_nat_entry n s))
               | Some _ \<Rightarrow> if new_blkaddr = new_addr L
                   then nm_bug_on (ni_blk_addr ni \<noteq> null_addr L) (upd_nat n (copy_node_info ni) s) else s);
          old = ni_blk_addr (the (lookup_nat_cache n s));
          s = nm_bug_on (old \<noteq> ni_blk_addr ni) s;
          s = nm_bug_on (old = null_addr L \<and> new_blkaddr = null_addr L) s;
          s = nm_bug_on (old = new_addr L \<and> new_blkaddr = new_addr L) s;
          s = nm_bug_on (old \<noteq> new_addr L \<and> old \<noteq> null_addr L \<and> new_blkaddr = new_addr L) s;
          s = (if old \<noteq> new_addr L \<and> new_blkaddr = null_addr L
               then upd_nat n (\<lambda>e. e\<lparr>ni_version := inc_node_version (ni_version e)\<rparr>) s else s);
          s = upd_nat n (\<lambda>e. e\<lparr>ni_blk_addr := new_blkaddr\<rparr>) s;
          s = (if new_blkaddr = new_addr L \<or> new_blkaddr = null_addr L
               then upd_nat n (set_nat_flag IS_CHECKPOINTED False) s else s);
          s = set_nat_cache_dirty L n s
      in case lookup_nat_cache (ni_ino ni) s of None \<Rightarrow> s
         | Some _ \<Rightarrow>
             let s = (if fsync_done \<and> ni_nid ni = ni_ino ni
                      then upd_nat (ni_ino ni) (set_nat_flag HAS_FSYNCED_INODE True) s else s)
             in upd_nat (ni_ino ni) (set_nat_flag HAS_LAST_FSYNC fsync_done) s)"

text \<open>What is left of the request, and the state.\<close>

fun free_nats_loop :: "nat \<Rightarrow> f2fs_nm_info \<Rightarrow> nat \<times> f2fs_nm_info" where
  "free_nats_loop 0 s = (0, s)"
| "free_nats_loop (Suc nr_shrink) s =
     (case nat_entries s of [] \<Rightarrow> (Suc nr_shrink, s)
      | n # _ \<Rightarrow> free_nats_loop nr_shrink (del_from_nat_cache n s))"

definition try_to_free_nats :: "(f2fs_nm_info \<Rightarrow> bool) \<Rightarrow> nat \<Rightarrow> f2fs_nm_info \<Rightarrow> nat \<times> f2fs_nm_info" where
  "try_to_free_nats avail nr_shrink s =
     (if avail s then (0, s) else free_nats_loop nr_shrink s)"

text \<open>The node information is filled in the caller's structure \<open>ni\<close>, whose flags stay.\<close>

definition get_node_info :: "layout \<Rightarrow> geom \<Rightarrow> u32 \<Rightarrow> node_info \<Rightarrow> f2fs_nm_info \<Rightarrow> node_info \<times> f2fs_nm_info" where
  "get_node_info L g nid ni s =
     (let ni = ni\<lparr>ni_nid := nid\<rparr>
      in case lookup_nat_cache nid s of
           Some e \<Rightarrow> (ni\<lparr>ni_ino := ni_ino e, ni_blk_addr := ni_blk_addr e, ni_version := ni_version e\<rparr>, s)
         | None \<Rightarrow>
             let ne = (case fst (lookup_journal_in_cursum L (hot_sum s) NAT_JOURNAL nid False) of
                         Some i \<Rightarrow> nat_in_journal (hot_sum s) i
                       | None \<Rightarrow> get_current_nat_page L g (of_nat (START_NID L nid)) s (unat nid - START_NID L nid))
             in (node_info_from_raw_nat ne ni, cache_nat_entry nid ne s))"

section \<open>Flags and addresses\<close>

lemma nat_flag_no_less: "nat_flag_no f < 8" by (cases f) simp_all

lemma nat_flag_no_inj: "nat_flag_no f = nat_flag_no f' \<longleftrightarrow> f = f'" by (cases f; cases f') simp_all

lemma bit_flag_mask: "bit (push_bit (nat_flag_no f) (1 :: u8)) m \<longleftrightarrow> m = nat_flag_no f"
  using nat_flag_no_less [of f] by (auto simp: bit_exp_iff)

lemma get_nat_flag_bit: "get_nat_flag f e \<longleftrightarrow> bit (ni_flag e) (nat_flag_no f)"
  by (auto simp: get_nat_flag_def word_eq_0_bits bit_and_iff bit_flag_mask simp del: push_bit_of_1)

lemma get_set_nat_flag [simp]:
  "get_nat_flag f (set_nat_flag f' v e) = (if f = f' then v else get_nat_flag f e)"
  using nat_flag_no_less [of f]
  by (auto simp: get_nat_flag_bit set_nat_flag_def Let_def bit_or_iff bit_and_iff bit_not_iff bit_flag_mask
      nat_flag_no_inj simp del: push_bit_of_1)

lemma set_nat_flag_fields [simp]:
  "ni_nid (set_nat_flag f v e) = ni_nid e" "ni_ino (set_nat_flag f v e) = ni_ino e"
  "ni_blk_addr (set_nat_flag f v e) = ni_blk_addr e" "ni_version (set_nat_flag f v e) = ni_version e"
  by (simp_all add: set_nat_flag_def Let_def)

lemma get_nat_flag_cong: "ni_flag e = ni_flag e' \<Longrightarrow> get_nat_flag f e = get_nat_flag f e'"
  by (simp add: get_nat_flag_def)

lemma nat_reset_flag_simps [simp]:
  "ni_nid (nat_reset_flag e) = ni_nid e" "ni_ino (nat_reset_flag e) = ni_ino e"
  "ni_blk_addr (nat_reset_flag e) = ni_blk_addr e" "ni_version (nat_reset_flag e) = ni_version e"
  "get_nat_flag f (nat_reset_flag e) =
     (if f = IS_CHECKPOINTED \<or> f = HAS_LAST_FSYNC then True
      else if f = HAS_FSYNCED_INODE then False else get_nat_flag f e)"
  by (cases f; simp add: nat_reset_flag_def)+

lemma raw_of_from_raw [simp]: "raw_nat_from_node_info (node_info_from_raw_nat r e) = r"
  by (simp add: raw_nat_from_node_info_def node_info_from_raw_nat_def)

text \<open>The two copies of block \<open>b\<close>.\<close>

definition nat_copy :: "geom \<Rightarrow> bool \<Rightarrow> nat \<Rightarrow> f2fs_nm_info \<Rightarrow> nat" where
  "nat_copy g c b s = nat_blkaddr s + b div blocks_per_seg g * (2 * blocks_per_seg g)
     + b mod blocks_per_seg g + (if c then blocks_per_seg g else 0)"

definition nat_cur :: "geom \<Rightarrow> nat \<Rightarrow> f2fs_nm_info \<Rightarrow> nat" where
  "nat_cur g b s = nat_copy g (byte_bit (nat_bitmap s) b) b s"

definition nat_nxt :: "geom \<Rightarrow> nat \<Rightarrow> f2fs_nm_info \<Rightarrow> nat" where
  "nat_nxt g b s = nat_copy g (\<not> byte_bit (nat_bitmap s) b) b s"

definition nat_flip :: "nat \<Rightarrow> f2fs_nm_info \<Rightarrow> f2fs_nm_info" where
  "nat_flip b s = s\<lparr>nat_bitmap := f2fs_change_bit b (nat_bitmap s)\<rparr>"

definition seg_size_ok :: "geom \<Rightarrow> bool" where
  "seg_size_ok g \<longleftrightarrow> blocks_per_seg g = 2 ^ log_blocks_per_seg g"

lemma current_nat_addr_eq:
  "seg_size_ok g \<Longrightarrow> current_nat_addr L g n s = nat_cur g (NAT_BLOCK_OFFSET L n) s"
proof -
  assume B: "seg_size_ok g"
  have "push_bit 1 (push_bit (log_blocks_per_seg g) (drop_bit (log_blocks_per_seg g) b)) =
      b div blocks_per_seg g * (2 * blocks_per_seg g)" for b
    using B by (simp add: push_bit_eq_mult drop_bit_eq_div seg_size_ok_def)
  moreover have "b AND (push_bit (log_blocks_per_seg g) 1 - 1) = b mod blocks_per_seg g" for b :: nat
  proof -
    have "push_bit (log_blocks_per_seg g) 1 - 1 = (mask (log_blocks_per_seg g) :: nat)"
      by (simp add: mask_eq_exp_minus_1)
    then show ?thesis
      using B by (simp add: seg_size_ok_def take_bit_eq_mask [symmetric] take_bit_eq_mod)
  qed
  ultimately show ?thesis
    by (simp add: current_nat_addr_def Let_def nat_cur_def nat_copy_def byte_bit_def)
qed

lemma nat_copy_div:
  assumes "seg_size_ok g"
  shows "(nat_copy g c b s - nat_blkaddr s) div blocks_per_seg g = 2 * (b div blocks_per_seg g) + of_bool c"
    and "(nat_copy g c b s - nat_blkaddr s) mod blocks_per_seg g = b mod blocks_per_seg g"
proof -
  define B where "B = blocks_per_seg g"
  have B: "0 < B" using assms by (simp add: B_def seg_size_ok_def)
  have e: "nat_copy g c b s - nat_blkaddr s = b mod B + (2 * (b div B) + of_bool c) * B"
    by (simp add: nat_copy_def B_def algebra_simps)
  show "(nat_copy g c b s - nat_blkaddr s) div blocks_per_seg g = 2 * (b div blocks_per_seg g) + of_bool c"
    unfolding e B_def [symmetric] using B by simp
  show "(nat_copy g c b s - nat_blkaddr s) mod blocks_per_seg g = b mod blocks_per_seg g"
    unfolding e B_def [symmetric] by simp
qed

lemma nat_copy_inj:
  assumes "seg_size_ok g" and "nat_copy g c b s = nat_copy g c' b' s"
  shows "b = b' \<and> c = c'"
proof -
  note d = nat_copy_div [OF assms(1)]
  have "2 * (b div blocks_per_seg g) + of_bool c = 2 * (b' div blocks_per_seg g) + of_bool c'"
    and m: "b mod blocks_per_seg g = b' mod blocks_per_seg g"
    using d [of c b s] d [of c' b' s] assms(2) by simp_all
  then have "b div blocks_per_seg g = b' div blocks_per_seg g \<and> c = c'"
    by (cases c; cases c') (auto dest: arg_cong [of _ _ even])
  then show ?thesis using m by (metis div_mult_mod_eq)
qed

lemma next_nat_addr_eq:
  assumes "seg_size_ok g"
  shows "next_nat_addr g (nat_cur g b s) s = nat_nxt g b s"
proof -
  have "drop_bit (log_blocks_per_seg g) (nat_copy g c b s - nat_blkaddr s) mod 2 = of_bool c" for c
    using nat_copy_div(1) [OF assms, of c b s] assms
    by (simp add: drop_bit_eq_div seg_size_ok_def)
  then show ?thesis
    by (simp add: next_nat_addr_def nat_cur_def nat_nxt_def Let_def) (simp add: nat_copy_def)
qed

lemma byte_bit_change_bit:
  "b < 8 * length m \<Longrightarrow> byte_bit (f2fs_change_bit b m) b' = (if b' = b then \<not> byte_bit m b else byte_bit m b')"
  by (simp add: byte_bit_change)

interpretation nat_shadow: shadow_pages "\<lambda>s. seg_size_ok g" "\<lambda>s b. b < 8 * length (nat_bitmap s)"
  "nat_cur g" "nat_nxt g" nat_flip
  for g
proof unfold_locales
  fix s :: f2fs_nm_info and b b'
  assume "seg_size_ok g" "b < 8 * length (nat_bitmap s)" "b' < 8 * length (nat_bitmap s)"
  then show "nat_cur g b' (nat_flip b s) = (if b' = b then nat_nxt g b s else nat_cur g b' s)"
    by (simp add: nat_cur_def nat_nxt_def nat_flip_def byte_bit_change_bit) (simp add: nat_copy_def)
  show "nat_nxt g b s \<noteq> nat_cur g b' s"
    unfolding nat_cur_def nat_nxt_def using nat_copy_inj [OF \<open>seg_size_ok g\<close>] by blast
  show "nat_cur g b s \<noteq> nat_cur g b' s" if "b \<noteq> b'"
    using nat_copy_inj [OF \<open>seg_size_ok g\<close>] that by (auto simp: nat_cur_def)
qed (simp_all add: nat_flip_def)

section \<open>What the table means\<close>

definition nid_ok :: "layout \<Rightarrow> f2fs_nm_info \<Rightarrow> u32 \<Rightarrow> bool" where
  "nid_ok L s n \<longleftrightarrow> NAT_BLOCK_OFFSET L n < 8 * length (nat_bitmap s)"

text \<open>The entry on the device: in the current NAT block, and with the journal over it.\<close>

definition block_nat :: "layout \<Rightarrow> geom \<Rightarrow> f2fs_nm_info \<Rightarrow> u32 \<Rightarrow> raw_nat_entry" where
  "block_nat L g s n = nat_pages s (current_nat_addr L g n s) (unat n mod nat_entry_per_block L)"

definition disk_nat :: "layout \<Rightarrow> geom \<Rightarrow> f2fs_nm_info \<Rightarrow> u32 \<Rightarrow> raw_nat_entry" where
  "disk_nat L g s = over (nat_j (hot_sum s)) (block_nat L g s)"

text \<open>The entry as the file system sees it.\<close>

definition nat_of :: "layout \<Rightarrow> geom \<Rightarrow> f2fs_nm_info \<Rightarrow> u32 \<Rightarrow> raw_nat_entry" where
  "nat_of L g s n = (case lookup_nat_cache n s of Some e \<Rightarrow> raw_nat_from_node_info e | None \<Rightarrow> disk_nat L g s n)"

definition nat_dirty :: "f2fs_nm_info \<Rightarrow> u32 \<Rightarrow> bool" where
  "nat_dirty s n \<longleftrightarrow> (\<exists>e. lookup_nat_cache n s = Some e \<and> get_nat_flag IS_DIRTY e)"

text \<open>The lists and counters of the cache.\<close>

definition set_ok :: "layout \<Rightarrow> f2fs_nm_info \<Rightarrow> nat \<Rightarrow> nat_entry_set \<Rightarrow> bool" where
  "set_ok L s k h \<longleftrightarrow> distinct (entry_list h) \<and> entry_cnt h = int (length (entry_list h)) \<and>
     (\<forall>n. n \<in> set (entry_list h) \<longleftrightarrow> NAT_BLOCK_OFFSET L n = k \<and> nat_dirty s n)"

definition nat_cache_ok :: "layout \<Rightarrow> f2fs_nm_info \<Rightarrow> bool" where
  "nat_cache_ok L s \<longleftrightarrow>
     distinct (map fst (nat_root s)) \<and> (\<forall>n e. lookup_nat_cache n s = Some e \<longrightarrow> ni_nid e = n) \<and>
     distinct (map fst (nat_set_root s)) \<and>
     (\<forall>k h. map_of (nat_set_root s) k = Some h \<longrightarrow> set_ok L s k h) \<and>
     (\<forall>n. nat_dirty s n \<longrightarrow> map_of (nat_set_root s) (NAT_BLOCK_OFFSET L n) \<noteq> None) \<and>
     distinct (nat_entries s) \<and>
     set (nat_entries s) = {n. lookup_nat_cache n s \<noteq> None \<and> \<not> nat_dirty s n} \<and>
     nat_cnt s = int (length (nat_root s)) \<and> dirty_nat_cnt s = int (card {n. nat_dirty s n})"

text \<open>With the device: clean entries agree with it.\<close>

definition nat_ok :: "layout \<Rightarrow> geom \<Rightarrow> f2fs_nm_info \<Rightarrow> bool" where
  "nat_ok L g s \<longleftrightarrow> nat_cache_ok L s \<and> seg_size_ok g \<and> 0 < nat_entry_per_block L \<and>
     jok (nat_j (hot_sum s)) \<and> jn (nat_j (hot_sum s)) \<le> nat_journal_entries L \<and>
     (\<forall>n\<in>jkeys (nat_j (hot_sum s)). nid_ok L s n) \<and>
     (\<forall>n e. lookup_nat_cache n s = Some e \<longrightarrow> nid_ok L s n \<and>
        (get_nat_flag IS_DIRTY e \<or> raw_nat_from_node_info e = disk_nat L g s n))"

lemma lookup_upd [simp]:
  "lookup_nat_cache m (upd_nat n f s) = (if m = n then map_option f (lookup_nat_cache n s) else lookup_nat_cache m s)"
  by (simp add: lookup_nat_cache_def upd_nat_def map_of_map_entry split: option.split)

lemma lookup_grab [simp]:
  "lookup_nat_cache m (grab_nat_entry n s) = (if m = n
     then Some (nat_reset_flag \<lparr>ni_nid = n, ni_ino = 0, ni_blk_addr = 0, ni_version = 0, ni_flag = 0\<rparr>)
     else lookup_nat_cache m s)"
  by (simp add: lookup_nat_cache_def grab_nat_entry_def Let_def update_conv')

lemma lookup_del [simp]:
  "lookup_nat_cache m (del_from_nat_cache n s) = (if m = n then None else lookup_nat_cache m s)"
  by (simp add: lookup_nat_cache_def del_from_nat_cache_def delete_conv' restrict_map_def)

text \<open>What the device holds depends on these fields only.\<close>

lemma disk_nat_cong:
  assumes "nat_pages s' = nat_pages s" "nat_bitmap s' = nat_bitmap s" "nat_blkaddr s' = nat_blkaddr s"
    "nat_j (hot_sum s') = nat_j (hot_sum s)"
  shows "disk_nat L g s' = disk_nat L g s" and "nid_ok L s' n = nid_ok L s n"
  proof -
  have "block_nat L g s' = block_nat L g s"
    using assms by (simp add: block_nat_def current_nat_addr_def fun_eq_iff)
  then show "disk_nat L g s' = disk_nat L g s" using assms by (simp add: disk_nat_def)
  show "nid_ok L s' n = nid_ok L s n" using assms by (simp add: nid_ok_def)
qed

lemma nat_dirty_upd:
  "(\<And>e. get_nat_flag IS_DIRTY (f e) = get_nat_flag IS_DIRTY e) \<Longrightarrow> nat_dirty (upd_nat n f s) = nat_dirty s"
  by (auto simp: nat_dirty_def fun_eq_iff)

lemma upd_cache_ok:
  assumes "nat_cache_ok L s" and "\<And>e. ni_nid e = n \<Longrightarrow> ni_nid (f e) = n"
    and "\<And>e. get_nat_flag IS_DIRTY (f e) = get_nat_flag IS_DIRTY e"
  shows "nat_cache_ok L (upd_nat n f s)"
proof -
  note d = nat_dirty_upd [of f n s, OF assms(3)]
  have f: "nat_set_root (upd_nat n f s) = nat_set_root s" "nat_entries (upd_nat n f s) = nat_entries s"
    "nat_cnt (upd_nat n f s) = nat_cnt s" "dirty_nat_cnt (upd_nat n f s) = dirty_nat_cnt s"
    by (simp_all add: upd_nat_def)
  have r: "map fst (nat_root (upd_nat n f s)) = map fst (nat_root s)"
    "length (nat_root (upd_nat n f s)) = length (nat_root s)"
    by (simp_all add: upd_nat_def)
  show ?thesis
    using assms(1,2) unfolding nat_cache_ok_def f r d set_ok_def by (auto split: if_splits)
qed


lemma lookup_in_keys: "n \<in> fst ` set (nat_root s) \<longleftrightarrow> lookup_nat_cache n s \<noteq> None"
  by (auto simp: lookup_nat_cache_def map_of_eq_None_iff)

lemma grab_cache_ok:
  assumes "nat_cache_ok L s" and "lookup_nat_cache n s = None"
  shows "nat_cache_ok L (grab_nat_entry n s)" and "nat_dirty (grab_nat_entry n s) = nat_dirty s"
proof -
  have new: "\<not> get_nat_flag IS_DIRTY \<lparr>ni_nid = n, ni_ino = 0, ni_blk_addr = 0, ni_version = 0, ni_flag = 0\<rparr>"
    by (simp add: get_nat_flag_def)
  show d: "nat_dirty (grab_nat_entry n s) = nat_dirty s"
    using assms(2) new by (auto simp: nat_dirty_def fun_eq_iff)
  have f: "nat_set_root (grab_nat_entry n s) = nat_set_root s"
    "nat_entries (grab_nat_entry n s) = nat_entries s @ [n]"
    "nat_cnt (grab_nat_entry n s) = nat_cnt s + 1" "dirty_nat_cnt (grab_nat_entry n s) = dirty_nat_cnt s"
    "length (nat_root (grab_nat_entry n s)) = Suc (length (nat_root s))"
    using assms(2) lookup_in_keys [of n s] by (simp_all add: grab_nat_entry_def Let_def length_update)
  have "distinct (map fst (nat_root (grab_nat_entry n s)))"
    using assms(1) by (simp add: grab_nat_entry_def Let_def distinct_update nat_cache_ok_def)
  moreover have "\<not> nat_dirty s n" using assms(2) by (simp add: nat_dirty_def)
  ultimately show "nat_cache_ok L (grab_nat_entry n s)"
    using assms unfolding nat_cache_ok_def f d set_ok_def by (auto split: if_splits)
qed

lemma set_flag_same: "get_nat_flag f e \<Longrightarrow> set_nat_flag f True e = e"
proof -
  assume "get_nat_flag f e"
  then have "ni_flag e OR push_bit (nat_flag_no f) 1 = ni_flag e"
    by (auto simp: word_eq_bits bit_or_iff get_nat_flag_bit bit_flag_mask simp del: push_bit_of_1)
  then show ?thesis by (simp add: set_nat_flag_def)
qed

lemma lookup_set_dirty [simp]:
  "lookup_nat_cache m (set_nat_cache_dirty L n s) =
     (if m = n then map_option (set_nat_flag IS_DIRTY True) (lookup_nat_cache n s) else lookup_nat_cache m s)"
  by (auto simp: set_nat_cache_dirty_def Let_def upd_nat_def lookup_nat_cache_def map_of_map_entry set_flag_same
      split: option.splits)

lemma nat_dirty_set_dirty:
  "lookup_nat_cache n s \<noteq> None \<Longrightarrow> nat_dirty (set_nat_cache_dirty L n s) m \<longleftrightarrow> m = n \<or> nat_dirty s m"
  by (auto simp: nat_dirty_def)

lemma set_dirty_ok:
  assumes ok: "nat_cache_ok L s" and l: "lookup_nat_cache n s \<noteq> None"
  shows "nat_cache_ok L (set_nat_cache_dirty L n s)"
proof (cases "nat_dirty s n")
  case True
  then show ?thesis using ok by (auto simp: set_nat_cache_dirty_def nat_dirty_def)
next
  case False
  let ?k = "NAT_BLOCK_OFFSET L n"
  let ?s = "set_nat_cache_dirty L n s"
  obtain ne where ne: "lookup_nat_cache n s = Some ne" "\<not> get_nat_flag IS_DIRTY ne"
    using l False by (auto simp: nat_dirty_def)
  define h where "h = (case map_of (nat_set_root s) ?k of Some h \<Rightarrow> h | None \<Rightarrow> \<lparr>entry_list = [], entry_cnt = 0\<rparr>)"
  define h' where "h' = h\<lparr>entry_list := entry_list h @ [n], entry_cnt := entry_cnt h + 1\<rparr>"
  have f: "nat_set_root ?s = AList.update ?k h' (nat_set_root s)"
    "nat_entries ?s = removeAll n (nat_entries s)" "nat_cnt ?s = nat_cnt s"
    "dirty_nat_cnt ?s = dirty_nat_cnt s + 1" "map fst (nat_root ?s) = map fst (nat_root s)"
    "length (nat_root ?s) = length (nat_root s)"
    using ne by (simp_all add: set_nat_cache_dirty_def Let_def upd_nat_def h_def h'_def)
  note d = nat_dirty_set_dirty [OF l, of L]
  have hs: "distinct (entry_list h) \<and> entry_cnt h = int (length (entry_list h)) \<and>
      (\<forall>m. m \<in> set (entry_list h) \<longleftrightarrow> NAT_BLOCK_OFFSET L m = ?k \<and> nat_dirty s m)"
  proof (cases "map_of (nat_set_root s) ?k")
    case None
    then have "\<not> nat_dirty s m" if "NAT_BLOCK_OFFSET L m = ?k" for m
      using ok that by (force simp: nat_cache_ok_def)
    then show ?thesis using None by (auto simp: h_def)
  next
    case (Some h0)
    then have "set_ok L s ?k h0" using ok by (simp add: nat_cache_ok_def)
    then show ?thesis using Some by (simp add: h_def set_ok_def)
  qed
  have s1: "set_ok L ?s ?k h'"
    using hs False unfolding set_ok_def d h'_def by auto
  have s2: "set_ok L ?s k h0" if "map_of (nat_set_root s) k = Some h0" "k \<noteq> ?k" for k h0
  proof -
    have "set_ok L s k h0" using ok that by (simp add: nat_cache_ok_def)
    then show ?thesis using that(2) unfolding set_ok_def d by blast
  qed
  have sets: "\<forall>k h0. map_of (nat_set_root ?s) k = Some h0 \<longrightarrow> set_ok L ?s k h0"
    using s1 s2 by (simp add: f(1) update_conv')
  have "{m. nat_dirty ?s m} = insert n {m. nat_dirty s m}" by (auto simp: d)
  then have c: "card {m. nat_dirty ?s m} = Suc (card {m. nat_dirty s m})" using False by simp
  have e: "set (nat_entries ?s) = {m. lookup_nat_cache m ?s \<noteq> None \<and> \<not> nat_dirty ?s m}"
    using ok unfolding f d by (auto simp: nat_cache_ok_def split: if_splits)
  have n: "\<forall>m e. lookup_nat_cache m ?s = Some e \<longrightarrow> ni_nid e = m"
    using ok by (auto simp: nat_cache_ok_def)
  have x: "\<forall>m. nat_dirty ?s m \<longrightarrow> map_of (nat_set_root ?s) (NAT_BLOCK_OFFSET L m) \<noteq> None"
    using ok unfolding d f by (auto simp: nat_cache_ok_def update_conv')
  have o: "distinct (map fst (nat_root s))" "distinct (map fst (nat_set_root s))" "distinct (nat_entries s)"
    "nat_cnt s = int (length (nat_root s))" "dirty_nat_cnt s = int (card {m. nat_dirty s m})"
    using ok by (simp_all add: nat_cache_ok_def)
  have "distinct (map fst (nat_root ?s))" "distinct (map fst (nat_set_root ?s))" "distinct (nat_entries ?s)"
    "nat_cnt ?s = int (length (nat_root ?s))" "dirty_nat_cnt ?s = int (card {m. nat_dirty ?s m})"
    unfolding f c using o by (simp_all add: distinct_update distinct_removeAll)
  with sets e n x show ?thesis unfolding nat_cache_ok_def by blast
qed

lemma set_dirty_disk:
  "disk_nat L g (set_nat_cache_dirty L n s) = disk_nat L g s" "nid_ok L (set_nat_cache_dirty L n s) m = nid_ok L s m"
  by (rule disk_nat_cong; simp add: set_nat_cache_dirty_def Let_def upd_nat_def split: option.split)+

lemma upd_disk [simp]: "disk_nat L g (upd_nat n f s) = disk_nat L g s" "nid_ok L (upd_nat n f s) m = nid_ok L s m"
  by (rule disk_nat_cong, simp_all add: upd_nat_def)+

lemma grab_disk [simp]: "disk_nat L g (grab_nat_entry n s) = disk_nat L g s" "nid_ok L (grab_nat_entry n s) m = nid_ok L s m"
  by (rule disk_nat_cong, simp_all add: grab_nat_entry_def Let_def)+

lemma del_disk [simp]: "disk_nat L g (del_from_nat_cache n s) = disk_nat L g s" "nid_ok L (del_from_nat_cache n s) m = nid_ok L s m"
  by (rule disk_nat_cong, simp_all add: del_from_nat_cache_def)+

section \<open>Changing the address of a node\<close>

lemma bug_cong [simp]:
  "lookup_nat_cache m (nm_bug_on c s) = lookup_nat_cache m s" "disk_nat L g (nm_bug_on c s) = disk_nat L g s"
  "nid_ok L (nm_bug_on c s) m = nid_ok L s m" "nat_cache_ok L (nm_bug_on c s) = nat_cache_ok L s"
  "hot_sum (nm_bug_on c s) = hot_sum s" "nm_bug (nm_bug_on c s) \<longleftrightarrow> nm_bug s \<or> c"
proof -
  have l: "lookup_nat_cache m (nm_bug_on c s) = lookup_nat_cache m s" for m
    by (simp add: nm_bug_on_def lookup_nat_cache_def)
  have d: "nat_dirty (nm_bug_on c s) = nat_dirty s" by (simp add: nat_dirty_def l fun_eq_iff)
  show "lookup_nat_cache m (nm_bug_on c s) = lookup_nat_cache m s" by (rule l)
  show "disk_nat L g (nm_bug_on c s) = disk_nat L g s" "nid_ok L (nm_bug_on c s) m = nid_ok L s m"
    by (rule disk_nat_cong; simp add: nm_bug_on_def)+
  show "nat_cache_ok L (nm_bug_on c s) = nat_cache_ok L s"
    unfolding nat_cache_ok_def set_ok_def l d by (simp add: nm_bug_on_def)
qed (simp_all add: nm_bug_on_def)

lemma frame_hot [simp]:
  "hot_sum (upd_nat n f s) = hot_sum s" "hot_sum (grab_nat_entry n s) = hot_sum s"
  "hot_sum (set_nat_cache_dirty L n s) = hot_sum s" "hot_sum (del_from_nat_cache n s) = hot_sum s"
  "nm_bug (upd_nat n f s) = nm_bug s" "nm_bug (grab_nat_entry n s) = nm_bug s"
  "nm_bug (set_nat_cache_dirty L n s) = nm_bug s"
  by (simp_all add: upd_nat_def grab_nat_entry_def set_nat_cache_dirty_def del_from_nat_cache_def Let_def
      split: option.split)

lemma copy_node_info_simps [simp]:
  "ni_nid (copy_node_info ni e) = ni_nid ni" "ni_ino (copy_node_info ni e) = ni_ino ni"
  "ni_blk_addr (copy_node_info ni e) = ni_blk_addr ni" "ni_version (copy_node_info ni e) = ni_version ni"
  "get_nat_flag f (copy_node_info ni e) = get_nat_flag f e"
  by (simp_all add: copy_node_info_def get_nat_flag_def)

lemma upd_ok_simple:
  "nat_cache_ok L s \<Longrightarrow> nat_cache_ok L (upd_nat n (\<lambda>e. e\<lparr>ni_version := g e\<rparr>) s)"
  "nat_cache_ok L s \<Longrightarrow> nat_cache_ok L (upd_nat n (\<lambda>e. e\<lparr>ni_blk_addr := b\<rparr>) s)"
  "nat_cache_ok L s \<Longrightarrow> f \<noteq> IS_DIRTY \<Longrightarrow> nat_cache_ok L (upd_nat n (set_nat_flag f v) s)"
  "nat_cache_ok L s \<Longrightarrow> ni_nid ni = n \<Longrightarrow> nat_cache_ok L (upd_nat n (copy_node_info ni) s)"
  "nat_cache_ok L s \<Longrightarrow> nat_cache_ok L (upd_nat n (node_info_from_raw_nat r) s)"
proof -
  have flag: "get_nat_flag IS_DIRTY (e\<lparr>ni_version := x\<rparr>) = get_nat_flag IS_DIRTY e"
    "get_nat_flag IS_DIRTY (e\<lparr>ni_blk_addr := b\<rparr>) = get_nat_flag IS_DIRTY e"
    "get_nat_flag IS_DIRTY (node_info_from_raw_nat r e) = get_nat_flag IS_DIRTY e"
    "ni_nid (node_info_from_raw_nat r e) = ni_nid e" for e x
    by (simp_all add: get_nat_flag_def node_info_from_raw_nat_def)
  note u = upd_cache_ok [of L s n]
  show "nat_cache_ok L s \<Longrightarrow> nat_cache_ok L (upd_nat n (\<lambda>e. e\<lparr>ni_version := g e\<rparr>) s)"
    "nat_cache_ok L s \<Longrightarrow> nat_cache_ok L (upd_nat n (\<lambda>e. e\<lparr>ni_blk_addr := b\<rparr>) s)"
    "nat_cache_ok L s \<Longrightarrow> f \<noteq> IS_DIRTY \<Longrightarrow> nat_cache_ok L (upd_nat n (set_nat_flag f v) s)"
    "nat_cache_ok L s \<Longrightarrow> ni_nid ni = n \<Longrightarrow> nat_cache_ok L (upd_nat n (copy_node_info ni) s)"
    "nat_cache_ok L s \<Longrightarrow> nat_cache_ok L (upd_nat n (node_info_from_raw_nat r) s)"
    by (rule u; simp add: flag)+
qed

text \<open>The transitions of the address of a node that the sanity checks allow.\<close>

definition addr_step :: "layout \<Rightarrow> u32 \<Rightarrow> u32 \<Rightarrow> bool" where
  "addr_step L old new \<longleftrightarrow>
     (if new = new_addr L then old = null_addr L else old \<noteq> null_addr L \<or> new \<noteq> null_addr L)"

definition next_entry :: "layout \<Rightarrow> raw_nat_entry \<Rightarrow> u32 \<Rightarrow> raw_nat_entry" where
  "next_entry L r new = r\<lparr>r_block_addr := new,
     r_version := (if r_block_addr r \<noteq> new_addr L \<and> new = null_addr L then r_version r + 1 else r_version r)\<rparr>"

lemma set_node_addr_spec:
  assumes ok: "nat_ok L g s" and nid: "nid_ok L s (ni_nid ni)"
    and same: "ni_blk_addr ni = r_block_addr (nat_of L g s (ni_nid ni))" "ni_version ni = r_version (nat_of L g s (ni_nid ni))"
    and ino: "ni_ino ni = r_ino (nat_of L g s (ni_nid ni)) \<or> new = new_addr L"
    and r: "s' = set_node_addr L ni new fs s"
  shows "nat_ok L g s'"
    and "nat_of L g s' = (nat_of L g s)(ni_nid ni := next_entry L ((nat_of L g s (ni_nid ni))\<lparr>r_ino := ni_ino ni\<rparr>) new)"
    and "disk_nat L g s' = disk_nat L g s"
    and "ni_blk_addr ni \<noteq> new_addr L \<or> lookup_nat_cache (ni_nid ni) s \<noteq> None \<Longrightarrow> null_addr L \<noteq> new_addr L \<Longrightarrow>
      nm_bug s' \<longleftrightarrow> nm_bug s \<or> \<not> addr_step L (ni_blk_addr ni) new"
proof -
  let ?n = "ni_nid ni"
  have cok: "nat_cache_ok L s" using ok by (simp add: nat_ok_def)
  define s1 where "s1 = (case lookup_nat_cache ?n s of
       None \<Rightarrow> nm_bug_on (ni_blk_addr ni = new_addr L) (upd_nat ?n (copy_node_info ni) (grab_nat_entry ?n s))
     | Some _ \<Rightarrow> if new = new_addr L
         then nm_bug_on (ni_blk_addr ni \<noteq> null_addr L) (upd_nat ?n (copy_node_info ni) s) else s)"
  have s1: "nat_cache_ok L s1" "disk_nat L g s1 = disk_nat L g s" "nid_ok L s1 m = nid_ok L s m" "hot_sum s1 = hot_sum s"
    "m \<noteq> ?n \<Longrightarrow> lookup_nat_cache m s1 = lookup_nat_cache m s" for m
    using cok grab_cache_ok(1) [OF cok]
    by (auto simp: s1_def upd_ok_simple split: option.splits)
  obtain e1 where e1: "lookup_nat_cache ?n s1 = Some e1" "ni_blk_addr e1 = ni_blk_addr ni" "ni_version e1 = ni_version ni"
    "ni_ino e1 = ni_ino ni"
  proof (cases "lookup_nat_cache ?n s")
    case None
    then show ?thesis using that by (simp add: s1_def)
  next
    case (Some e)
    then have "raw_nat_from_node_info e = nat_of L g s ?n" by (simp add: nat_of_def)
    then have "ni_blk_addr e = ni_blk_addr ni" "ni_version e = ni_version ni" "ni_ino e = r_ino (nat_of L g s ?n)"
      using same by (metis raw_nat_entry.select_convs raw_nat_from_node_info_def)+
    then show ?thesis
      using that Some ino by (cases "new = new_addr L") (auto simp: s1_def)
  qed
  define s2 where "s2 = nm_bug_on (ni_blk_addr ni \<noteq> new_addr L \<and> ni_blk_addr ni \<noteq> null_addr L \<and> new = new_addr L)
     (nm_bug_on (ni_blk_addr ni = new_addr L \<and> new = new_addr L)
       (nm_bug_on (ni_blk_addr ni = null_addr L \<and> new = null_addr L)
         (nm_bug_on (ni_blk_addr ni \<noteq> ni_blk_addr ni) s1)))"
  have s2: "nat_cache_ok L s2" "disk_nat L g s2 = disk_nat L g s" "nid_ok L s2 m = nid_ok L s m" "hot_sum s2 = hot_sum s"
    "lookup_nat_cache m s2 = lookup_nat_cache m s1" for m
    using s1 by (simp_all add: s2_def)
  define s3 where "s3 = (if ni_blk_addr ni \<noteq> new_addr L \<and> new = null_addr L
      then upd_nat ?n (\<lambda>e. e\<lparr>ni_version := inc_node_version (ni_version e)\<rparr>) s2 else s2)"
  define s4 where "s4 = upd_nat ?n (\<lambda>e. e\<lparr>ni_blk_addr := new\<rparr>) s3"
  define s5 where "s5 = (if new = new_addr L \<or> new = null_addr L then upd_nat ?n (set_nat_flag IS_CHECKPOINTED False) s4 else s4)"
  have s5: "nat_cache_ok L s5" "disk_nat L g s5 = disk_nat L g s" "nid_ok L s5 m = nid_ok L s m" "hot_sum s5 = hot_sum s"
    "m \<noteq> ?n \<Longrightarrow> lookup_nat_cache m s5 = lookup_nat_cache m s" for m
    using s2 s1(5) by (simp_all add: s3_def s4_def s5_def upd_ok_simple)
  define e3 where "e3 = (if ni_blk_addr ni \<noteq> new_addr L \<and> new = null_addr L
      then e1\<lparr>ni_version := inc_node_version (ni_version e1)\<rparr> else e1)"
  define e5 where "e5 = (if new = new_addr L \<or> new = null_addr L
      then set_nat_flag IS_CHECKPOINTED False (e3\<lparr>ni_blk_addr := new\<rparr>) else e3\<lparr>ni_blk_addr := new\<rparr>)"
  have "lookup_nat_cache ?n s4 = Some (e3\<lparr>ni_blk_addr := new\<rparr>)"
    using e1(1) by (simp add: s4_def s3_def e3_def s2(5))
  then have l5: "lookup_nat_cache ?n s5 = Some e5" by (simp add: s5_def e5_def)
  have "ni_version e5 = r_version (next_entry L ((nat_of L g s ?n)\<lparr>r_ino := ni_ino ni\<rparr>) new)"
    "ni_ino e5 = ni_ino ni" "ni_blk_addr e5 = new"
    using e1 same by (auto simp: e5_def e3_def next_entry_def inc_node_version_def)
  then have "raw_nat_from_node_info e5 = next_entry L ((nat_of L g s ?n)\<lparr>r_ino := ni_ino ni\<rparr>) new"
    by (simp add: raw_nat_from_node_info_def next_entry_def)
  note e5 = l5 this
  define s6 where "s6 = set_nat_cache_dirty L ?n s5"
  have s6: "nat_cache_ok L s6" "disk_nat L g s6 = disk_nat L g s" "nid_ok L s6 m = nid_ok L s m" "hot_sum s6 = hot_sum s"
    "lookup_nat_cache m s6 = (if m = ?n then Some (set_nat_flag IS_DIRTY True e5) else lookup_nat_cache m s)" for m
    using s5 e5 set_dirty_ok [OF s5(1), of ?n] by (simp_all add: s6_def set_dirty_disk)
  have old: "ni_blk_addr (the (lookup_nat_cache ?n s1)) = ni_blk_addr ni" using e1 by simp
  have s': "s' = (case lookup_nat_cache (ni_ino ni) s6 of None \<Rightarrow> s6
      | Some _ \<Rightarrow> upd_nat (ni_ino ni) (set_nat_flag HAS_LAST_FSYNC fs)
          (if fs \<and> ni_nid ni = ni_ino ni then upd_nat (ni_ino ni) (set_nat_flag HAS_FSYNCED_INODE True) s6 else s6))"
    unfolding r set_node_addr_def Let_def s1_def [symmetric] old s2_def [symmetric] s3_def [symmetric]
      s4_def [symmetric] s5_def [symmetric] s6_def [symmetric] by (rule refl)
  have raw: "raw_nat_from_node_info (set_nat_flag f v e) = raw_nat_from_node_info e" for f v e
    by (simp add: raw_nat_from_node_info_def)
  have f: "nat_cache_ok L s'" "disk_nat L g s' = disk_nat L g s" "nid_ok L s' m = nid_ok L s m" "hot_sum s' = hot_sum s"
    "map_option (\<lambda>e. (raw_nat_from_node_info e, get_nat_flag IS_DIRTY e)) (lookup_nat_cache m s') =
     map_option (\<lambda>e. (raw_nat_from_node_info e, get_nat_flag IS_DIRTY e)) (lookup_nat_cache m s6)" for m
    using s6 by (auto simp: s' upd_ok_simple raw option.map_comp comp_def split: option.splits)
  show "disk_nat L g s' = disk_nat L g s" by (rule f)
  let ?v = "next_entry L ((nat_of L g s ?n)\<lparr>r_ino := ni_ino ni\<rparr>) new"
  have look: "map_option (\<lambda>e. (raw_nat_from_node_info e, get_nat_flag IS_DIRTY e)) (lookup_nat_cache m s') =
    (if m = ?n then Some (?v, True)
     else map_option (\<lambda>e. (raw_nat_from_node_info e, get_nat_flag IS_DIRTY e)) (lookup_nat_cache m s))" for m
    by (simp add: f(5) s6(5) e5(2) raw)
  have nat_of_look: "nat_of L g t m = (case map_option (\<lambda>e. (raw_nat_from_node_info e, get_nat_flag IS_DIRTY e)) (lookup_nat_cache m t)
      of None \<Rightarrow> disk_nat L g t m | Some (r, _) \<Rightarrow> r)" for t m
    by (simp add: nat_of_def split: option.split)
  show "nat_of L g s' = (nat_of L g s)(?n := ?v)"
    by (auto simp: fun_eq_iff nat_of_look look f(2) split: option.split)
  have "nid_ok L s m \<and> (get_nat_flag IS_DIRTY e \<or> raw_nat_from_node_info e = disk_nat L g s m)"
    if "lookup_nat_cache m s' = Some e" for m e
    using look [of m] that ok nid
    by (cases "lookup_nat_cache m s") (auto simp: nat_ok_def split: if_splits)
  then show "nat_ok L g s'"
    using ok f by (simp add: nat_ok_def)
  assume c: "ni_blk_addr ni \<noteq> new_addr L \<or> lookup_nat_cache ?n s \<noteq> None" "null_addr L \<noteq> new_addr L"
  have "nm_bug s' = nm_bug s2"
    by (simp add: s' s6_def s5_def s4_def s3_def split: option.split)
  also have "\<dots> \<longleftrightarrow> nm_bug s \<or> \<not> addr_step L (ni_blk_addr ni) new"
    using c by (auto simp: s2_def s1_def addr_step_def split: option.splits)
  finally show "nm_bug s' \<longleftrightarrow> nm_bug s \<or> \<not> addr_step L (ni_blk_addr ni) new" .
qed


section \<open>Reading and caching\<close>

lemma journal_entry:
  assumes "seg_size_ok g" "0 < nat_entry_per_block L"
  shows "(case fst (lookup_journal_in_cursum L (hot_sum s) NAT_JOURNAL n False) of
      Some i \<Rightarrow> nat_in_journal (hot_sum s) i
    | None \<Rightarrow> get_current_nat_page L g (of_nat (START_NID L n)) s (unat n - START_NID L n)) = disk_nat L g s n"
proof -
  have "START_NID L n \<le> unat n" by (simp add: START_NID_def)
  then have "unat (of_nat (START_NID L n) :: u32) = START_NID L n"
    using unsigned_less [of n, where ?'a = nat] by (intro unat_of_nat_small) simp
  then have "NAT_BLOCK_OFFSET L (of_nat (START_NID L n)) = NAT_BLOCK_OFFSET L n"
    using assms(2) by (simp add: NAT_BLOCK_OFFSET_def START_NID_def)
  moreover have "unat n - START_NID L n = unat n mod nat_entry_per_block L"
    by (simp add: START_NID_def minus_div_mult_eq_mod)
  ultimately show ?thesis
    using assms(1) by (simp add: nat_lookup_noalloc disk_nat_def over_def jlook_def block_nat_def
        get_current_nat_page_def nat_in_journal_def current_nat_addr_eq split: option.split)
qed

lemma cache_disk_ok:
  assumes "nat_ok L g s" "nid_ok L s n" "r = disk_nat L g s n"
  shows "nat_ok L g (cache_nat_entry n r s)" and "nat_of L g (cache_nat_entry n r s) = nat_of L g s"
    and "disk_nat L g (cache_nat_entry n r s) = disk_nat L g s"
    and "nid_ok L (cache_nat_entry n r s) m = nid_ok L s m"
proof -
  have c: "nat_cache_ok L s" using assms(1) by (simp add: nat_ok_def)
  show d: "disk_nat L g (cache_nat_entry n r s) = disk_nat L g s"
    and o: "nid_ok L (cache_nat_entry n r s) m = nid_ok L s m" for m
    by (simp_all add: cache_nat_entry_def split: option.split)
  have h: "hot_sum (cache_nat_entry n r s) = hot_sum s" by (simp add: cache_nat_entry_def split: option.split)
  show "nat_of L g (cache_nat_entry n r s) = nat_of L g s"
    using assms(3) by (auto simp: fun_eq_iff nat_of_def d cache_nat_entry_def split: option.splits)
  have "nat_cache_ok L (cache_nat_entry n r s)"
    using c grab_cache_ok(1) [OF c, of n] by (auto simp: cache_nat_entry_def upd_ok_simple split: option.split)
  then show "nat_ok L g (cache_nat_entry n r s)"
    using assms unfolding nat_ok_def h d o
    by (auto simp: cache_nat_entry_def split: option.splits if_splits)
qed

lemma get_node_info_spec:
  assumes "nat_ok L g s" and "nid_ok L s nid" and "get_node_info L g nid ni s = (ni', s')"
  shows "ni_nid ni' = nid \<and> raw_nat_from_node_info ni' = nat_of L g s nid \<and>
    nat_ok L g s' \<and> nat_of L g s' = nat_of L g s \<and> disk_nat L g s' = disk_nat L g s"
proof (cases "lookup_nat_cache nid s")
  case None
  have g: "seg_size_ok g" "0 < nat_entry_per_block L" using assms(1) by (simp_all add: nat_ok_def)
  have "ni' = node_info_from_raw_nat (disk_nat L g s nid) (ni\<lparr>ni_nid := nid\<rparr>)" "s' = cache_nat_entry nid (disk_nat L g s nid) s"
    using assms(3) None unfolding get_node_info_def Let_def journal_entry [OF g] by simp_all
  then show ?thesis
    using cache_disk_ok [OF assms(1,2) refl] None by (simp add: nat_of_def node_info_from_raw_nat_def [of _ "ni\<lparr>ni_nid := nid\<rparr>"])
      (simp add: raw_nat_from_node_info_def)
next
  case (Some e)
  then show ?thesis using assms by (auto simp: get_node_info_def nat_of_def raw_nat_from_node_info_def)
qed

text \<open>
  C13: For a node id of the volume, \<open>get_node_info\<close> answers the entry of the table, whatever mix of cache, journal and
  NAT block it is found in, and reading (which caches the entry) changes neither the table nor the device's
  view of it nor the invariant.
\<close>
theorem get_node_info_correct:
  assumes "nat_ok L g s" and "nid_ok L s nid" and "get_node_info L g nid ni s = (ni', s')"
  shows "ni_nid ni' = nid \<and> raw_nat_from_node_info ni' = nat_of L g s nid \<and>
    nat_ok L g s' \<and> nat_of L g s' = nat_of L g s \<and> disk_nat L g s' = disk_nat L g s"
  using assms by (rule get_node_info_spec)

section \<open>Shrinking the cache\<close>

lemma del_clean_ok:
  assumes ok: "nat_ok L g s" and n: "n \<in> set (nat_entries s)"
  shows "nat_ok L g (del_from_nat_cache n s)" and "nat_of L g (del_from_nat_cache n s) = nat_of L g s"
proof -
  have c: "nat_cache_ok L s" using ok by (simp add: nat_ok_def)
  then obtain e where e: "lookup_nat_cache n s = Some e" "\<not> get_nat_flag IS_DIRTY e"
    using n by (auto simp: nat_cache_ok_def nat_dirty_def)
  then have r: "raw_nat_from_node_info e = disk_nat L g s n" using ok by (auto simp: nat_ok_def)
  have d: "nat_dirty (del_from_nat_cache n s) = nat_dirty s"
    using e by (auto simp: nat_dirty_def fun_eq_iff)
  show "nat_of L g (del_from_nat_cache n s) = nat_of L g s"
    using e r by (auto simp: fun_eq_iff nat_of_def split: option.split)
  have f: "nat_set_root (del_from_nat_cache n s) = nat_set_root s"
    "nat_entries (del_from_nat_cache n s) = removeAll n (nat_entries s)"
    "nat_cnt (del_from_nat_cache n s) = nat_cnt s - 1" "dirty_nat_cnt (del_from_nat_cache n s) = dirty_nat_cnt s"
    by (simp_all add: del_from_nat_cache_def)
  have k: "n \<in> fst ` set (nat_root s)" using e lookup_in_keys [of n s] by simp
  then have "0 < length (nat_root s)" by (cases "nat_root s") auto
  then have l: "int (length (nat_root (del_from_nat_cache n s))) = int (length (nat_root s)) - 1"
    using c k by (simp add: del_from_nat_cache_def length_delete nat_cache_ok_def del: length_greater_0_conv)
  have i: "distinct (map fst (nat_root (del_from_nat_cache n s)))"
    using c by (simp add: del_from_nat_cache_def distinct_delete nat_cache_ok_def)
  have "nat_cache_ok L (del_from_nat_cache n s)"
    using c i unfolding nat_cache_ok_def f d set_ok_def l by (auto simp: distinct_removeAll split: if_splits)
  then show "nat_ok L g (del_from_nat_cache n s)"
    using ok by (auto simp: nat_ok_def split: if_splits)
qed

lemma free_nats_ok:
  "nat_ok L g s \<Longrightarrow> free_nats_loop k s = (r, s') \<Longrightarrow>
     nat_ok L g s' \<and> nat_of L g s' = nat_of L g s \<and> disk_nat L g s' = disk_nat L g s \<and> (r = 0 \<or> nat_entries s' = [])"
proof (induction k arbitrary: s)
  case (Suc k)
  show ?case
  proof (cases "nat_entries s")
    case Nil
    then show ?thesis using Suc.prems by simp
  next
    case (Cons n ns)
    then show ?thesis
      using Suc.prems Suc.IH [of "del_from_nat_cache n s"] del_clean_ok [OF Suc.prems(1), of n] by simp
  qed
qed simp


text \<open>
  Shrinking the cache never loses an address: \<open>try_to_free_nats\<close> drops clean entries only, so
  the table, the device's view and the invariant stay, and it stops early only when no clean entry
  is left.
\<close>
theorem try_to_free_nats_keeps_table:
  assumes "nat_ok L g s" and "try_to_free_nats avail nr_shrink s = (left, s')"
  shows "nat_ok L g s' \<and> nat_of L g s' = nat_of L g s \<and> disk_nat L g s' = disk_nat L g s \<and>
    (left = 0 \<or> nat_entries s' = [])"
  using assms free_nats_ok [OF assms(1)] by (auto simp: try_to_free_nats_def split: if_splits)

text \<open>
  C14: \<open>set_node_addr\<close>, called with what \<open>get_node_info\<close> returned, where only a new node (\<open>NEW_ADDR\<close>) gets another
  owner and an entry that is \<open>NEW_ADDR\<close> is in the cache, changes the entry of that node only: its
  address becomes the new one, its version is incremented exactly when an allocated node is removed, its
  owner is the caller's. Nothing changes on the device, and a sanity check fires exactly for a step that is
  not allowed: \<open>NEW_ADDR\<close> over anything but the null address, or the null address over the null address.
\<close>
theorem set_node_addr_updates_entry:
  assumes "nat_ok L g s" and "nid_ok L s (ni_nid ni)"
    and "raw_nat_from_node_info (ni\<lparr>ni_ino := r_ino (nat_of L g s (ni_nid ni))\<rparr>) = nat_of L g s (ni_nid ni)"
    and "ni_ino ni = r_ino (nat_of L g s (ni_nid ni)) \<or> new = new_addr L"
    and "ni_blk_addr ni \<noteq> new_addr L \<or> lookup_nat_cache (ni_nid ni) s \<noteq> None" and "null_addr L \<noteq> new_addr L"
  shows "let s' = set_node_addr L ni new fsync_done s; old = nat_of L g s (ni_nid ni)
    in nat_ok L g s' \<and> disk_nat L g s' = disk_nat L g s \<and>
       nat_of L g s' = (nat_of L g s)(ni_nid ni := \<lparr>r_version =
           (if r_block_addr old \<noteq> new_addr L \<and> new = null_addr L then r_version old + 1 else r_version old),
         r_ino = ni_ino ni, r_block_addr = new\<rparr>) \<and>
       nm_bug s' = (nm_bug s \<or> \<not> addr_step L (r_block_addr old) new)"
proof -
  define old where "old = nat_of L g s (ni_nid ni)"
  have e: "ni_blk_addr ni = r_block_addr old" "ni_version ni = r_version old"
    using arg_cong [OF assms(3), of r_block_addr] arg_cong [OF assms(3), of r_version]
    by (simp_all add: raw_nat_from_node_info_def old_def)
  note sp = set_node_addr_spec [OF assms(1,2) e [unfolded old_def] assms(4) refl, folded old_def, of fsync_done]
  have n: "next_entry L (old\<lparr>r_ino := ni_ino ni\<rparr>) new = \<lparr>r_version =
           (if r_block_addr old \<noteq> new_addr L \<and> new = null_addr L then r_version old + 1 else r_version old),
         r_ino = ni_ino ni, r_block_addr = new\<rparr>"
    by (simp add: next_entry_def)
  show ?thesis
    unfolding Let_def old_def [symmetric] n [symmetric]
    using sp(1-3) sp(4) [OF assms(5,6)] by (simp add: e)
qed


section \<open>An example\<close>

text \<open>Node 5 is in the journal, every other node id is free in the NAT blocks.\<close>

definition sample_nm :: f2fs_nm_info where
  "sample_nm = \<lparr>nat_blkaddr = 100, max_nid = 64, available_nids = 61, next_scan_nid = 0, ram_thresh = 10,
     nat_root = [], nat_set_root = [], nat_entries = [], nat_cnt = 0, dirty_nat_cnt = 0,
     free_nid_list = [], fcnt = 0, nat_bitmap = [0, 0],
     hot_sum = \<lparr>sum_entries = [],
       nat_j = \<lparr>jn = 1, jkey = (\<lambda>_. 5), jent = (\<lambda>_. \<lparr>r_version = 1, r_ino = 5, r_block_addr = 900\<rparr>)\<rparr>,
       sit_j = \<lparr>jn = 0, jkey = (\<lambda>_. 0), jent = (\<lambda>_. \<lparr>r_vblocks = 0, r_valid_map = [], r_mtime = 0\<rparr>)\<rparr>,
       sum_type = 1\<rparr>,
     nat_pages = (\<lambda>_ _. \<lparr>r_version = 0, r_ino = 0, r_block_addr = 0\<rparr>), nm_bug = False\<rparr>"

lemma sample_nm_ok: "nat_ok small_layout small_geom sample_nm"
  by (simp add: nat_ok_def nat_cache_ok_def sample_nm_def lookup_nat_cache_def nat_dirty_def jok_def jkeys_def
      nid_ok_def NAT_BLOCK_OFFSET_def small_layout_def seg_size_ok_def small_geom_def lessThan_Suc)

lemma sample_nid_ok: "unat n < 64 \<Longrightarrow> nid_ok small_layout sample_nm n"
  by (simp add: nid_ok_def NAT_BLOCK_OFFSET_def small_layout_def sample_nm_def)

lemma sample_nat_of: "nat_of small_layout small_geom sample_nm n =
  (if n = 5 then \<lparr>r_version = 1, r_ino = 5, r_block_addr = 900\<rparr>
   else \<lparr>r_version = 0, r_ino = 0, r_block_addr = 0\<rparr>)"
  by (simp add: nat_of_def sample_nm_def lookup_nat_cache_def disk_nat_def over_def jlook_def block_nat_def)

definition blank_ni :: "u32 \<Rightarrow> u32 \<Rightarrow> node_info" where
  "blank_ni n ino = \<lparr>ni_nid = n, ni_ino = ino, ni_blk_addr = 0, ni_version = 0, ni_flag = 0\<rparr>"

theorem get_node_info_correct_witness:
  "ni_blk_addr (fst (get_node_info small_layout small_geom 5 (blank_ni 0 0) sample_nm)) = 900"
proof -
  obtain ni s' where r: "get_node_info small_layout small_geom 5 (blank_ni 0 0) sample_nm = (ni, s')" by fastforce
  have "raw_nat_from_node_info ni = nat_of small_layout small_geom sample_nm 5"
    using get_node_info_correct [OF sample_nm_ok sample_nid_ok r] by simp
  then show ?thesis by (simp add: r sample_nat_of raw_nat_from_node_info_def)
qed

text \<open>The same state with node 5 cached.\<close>

definition cached_nm :: f2fs_nm_info where
  "cached_nm = snd (get_node_info small_layout small_geom 5 (blank_ni 0 0) sample_nm)"

lemma cached_nm: "cached_nm = cache_nat_entry 5 \<lparr>r_version = 1, r_ino = 5, r_block_addr = 900\<rparr> sample_nm"
  by (simp add: cached_nm_def get_node_info_def Let_def sample_nm_def lookup_nat_cache_def nat_lookup_noalloc
      nat_in_journal_def)

lemma cached_nm_ok: "nat_ok small_layout small_geom cached_nm" "nat_of small_layout small_geom cached_nm = nat_of small_layout small_geom sample_nm"
proof -
  have "\<lparr>r_version = 1, r_ino = 5, r_block_addr = 900\<rparr> = disk_nat small_layout small_geom sample_nm 5"
    by (simp add: disk_nat_def over_def jlook_def sample_nm_def)
  note c = cache_disk_ok [OF sample_nm_ok sample_nid_ok this]
  show "nat_ok small_layout small_geom cached_nm" "nat_of small_layout small_geom cached_nm = nat_of small_layout small_geom sample_nm"
    using c by (simp_all add: cached_nm)
qed

theorem try_to_free_nats_keeps_table_witness:
  "nat_entries (snd (try_to_free_nats (\<lambda>_. False) 8 cached_nm)) = [] \<and>
   nat_of small_layout small_geom (snd (try_to_free_nats (\<lambda>_. False) 8 cached_nm)) 5 =
     \<lparr>r_version = 1, r_ino = 5, r_block_addr = 900\<rparr>"
proof -
  obtain k s' where r: "try_to_free_nats (\<lambda>_. False) 8 cached_nm = (k, s')" by fastforce
  have "k = 7"
    using r by (simp add: try_to_free_nats_def numeral_eq_Suc cached_nm cache_nat_entry_def sample_nm_def lookup_nat_cache_def
        upd_nat_def grab_nat_entry_def Let_def del_from_nat_cache_def)
  then show ?thesis
    using try_to_free_nats_keeps_table [OF cached_nm_ok(1) r] r by (simp add: cached_nm_ok(2) sample_nat_of)
qed

theorem set_node_addr_updates_entry_witness:
  "nat_of small_layout small_geom (set_node_addr small_layout (blank_ni 9 9) 0xFFFFFFFF False sample_nm) 9 =
     \<lparr>r_version = 0, r_ino = 9, r_block_addr = 0xFFFFFFFF\<rparr>"
proof -
  have "nid_ok small_layout sample_nm (ni_nid (blank_ni 9 9))" by (rule sample_nid_ok) (simp add: blank_ni_def)
  then show ?thesis
    using set_node_addr_updates_entry [OF sample_nm_ok, of "blank_ni 9 9" "0xFFFFFFFF" False]
    by (simp add: sample_nat_of raw_nat_from_node_info_def small_layout_def [THEN arg_cong, of new_addr]
        small_layout_def [THEN arg_cong, of null_addr] blank_ni_def Let_def)
qed

end
