(* ===== verification/Free_Nid.thy ===== *)
theory Free_Nid
  imports Node_Table
begin

text \<open>
  The free node ids of node.c: a list of ids found free in the node address table, those handed
  out (\<open>NID_ALLOC\<close>) kept in it until their inode or node is in place. The list and the radix tree
  over it are one association list. The readahead of NAT blocks has no effect on the state, the
  build lock is free when an id is asked for, and memory for a list element is always found;
  the memory footprint check is the parameter \<open>av\<close> of the operations.
\<close>

section \<open>Memory footprint\<close>

datatype mem_type = FREE_NIDS | NAT_ENTRIES | DIRTY_DENTS | INO_ENTRIES | EXTENT_CACHE | BASE_CHECK

text \<open>The memory of the machine, the sizes of the structures and the counters of other components.\<close>

record mem_info =
  totalram :: nat
  totalhigh :: nat
  page_shift :: nat
  sz_free_nid :: nat
  sz_nat_entry :: nat
  sz_ino_entry :: nat
  sz_extent_tree :: nat
  sz_extent_node :: nat
  dirty_exceeded :: bool
  dirty_dents :: nat            \<comment> \<open>get_pages(sbi, F2FS_DIRTY_DENTS)\<close>
  ino_num :: "nat \<Rightarrow> nat"       \<comment> \<open>sbi->im[i].ino_num\<close>
  ext_trees :: nat              \<comment> \<open>total_ext_tree\<close>
  ext_nodes :: nat              \<comment> \<open>total_ext_node\<close>

definition available_free_memory :: "mem_info \<Rightarrow> mem_type \<Rightarrow> f2fs_nm_info \<Rightarrow> bool" where
  "available_free_memory M ty s =
     (let avail_ram = totalram M - totalhigh M;
          share = avail_ram * ram_thresh s div 100
      in case ty of
           FREE_NIDS \<Rightarrow> drop_bit (page_shift M) (nat (fcnt s) * sz_free_nid M) < drop_bit 2 share
         | NAT_ENTRIES \<Rightarrow> drop_bit (page_shift M) (nat (nat_cnt s) * sz_nat_entry M) < drop_bit 2 share
         | DIRTY_DENTS \<Rightarrow> \<not> dirty_exceeded M \<and> dirty_dents M < drop_bit 1 share
         | INO_ENTRIES \<Rightarrow>
             (\<Sum>i\<leftarrow>[0..<3]. drop_bit (page_shift M) (ino_num M i * sz_ino_entry M)) < drop_bit 1 share
         | EXTENT_CACHE \<Rightarrow>
             drop_bit (page_shift M) (ext_trees M * sz_extent_tree M + ext_nodes M * sz_extent_node M)
               < drop_bit 1 share
         | BASE_CHECK \<Rightarrow> False)"

section \<open>The list\<close>

definition lookup_free_nid_list :: "u32 \<Rightarrow> f2fs_nm_info \<Rightarrow> nid_state option" where
  "lookup_free_nid_list n s = map_of (free_nid_list s) n"

definition del_from_free_nid_list :: "u32 \<Rightarrow> f2fs_nm_info \<Rightarrow> f2fs_nm_info" where
  "del_from_free_nid_list n s = s\<lparr>free_nid_list := AList.delete n (free_nid_list s)\<rparr>"

text \<open>The head of the list, if the counter says there is one.\<close>

definition next_free_nid :: "f2fs_nm_info \<Rightarrow> u32 \<Rightarrow> u32" where
  "next_free_nid s nid = (if fcnt s \<le> 0 then nid else fst (hd (free_nid_list s)))"

definition add_free_nid ::
  "layout \<Rightarrow> (f2fs_nm_info \<Rightarrow> bool) \<Rightarrow> u32 \<Rightarrow> bool \<Rightarrow> f2fs_nm_info \<Rightarrow> int \<times> f2fs_nm_info" where
  "add_free_nid L av nid build s =
     (if \<not> av s then (-1, s)
      else if nid = 0 then (0, s)
      else if build \<and> (case lookup_nat_cache nid s of None \<Rightarrow> False
           | Some ne \<Rightarrow> \<not> get_nat_flag IS_CHECKPOINTED ne \<or> ni_blk_addr ne \<noteq> null_addr L) then (0, s)
      else if lookup_free_nid_list nid s \<noteq> None then (0, s)
      else (1, s\<lparr>free_nid_list := free_nid_list s @ [(nid, NID_NEW)], fcnt := fcnt s + 1\<rparr>))"

definition remove_free_nid :: "u32 \<Rightarrow> f2fs_nm_info \<Rightarrow> f2fs_nm_info" where
  "remove_free_nid nid s =
     (if lookup_free_nid_list nid s = Some NID_NEW
      then (del_from_free_nid_list nid s)\<lparr>fcnt := fcnt s - 1\<rparr> else s)"

text \<open>The loop over the entries of a NAT block, \<open>n\<close> of them from entry \<open>i\<close> on.\<close>

fun scan_nat_loop ::
  "layout \<Rightarrow> (f2fs_nm_info \<Rightarrow> bool) \<Rightarrow> (nat \<Rightarrow> raw_nat_entry) \<Rightarrow> nat \<Rightarrow> nat \<Rightarrow> u32 \<Rightarrow> f2fs_nm_info \<Rightarrow> f2fs_nm_info" where
  "scan_nat_loop L av nat_blk 0 i start_nid s = s"
| "scan_nat_loop L av nat_blk (Suc n) i start_nid s =
     (if start_nid \<ge> max_nid s then s
      else let blk_addr = r_block_addr (nat_blk i);
               s = nm_bug_on (blk_addr = new_addr L) s
           in if blk_addr = null_addr L
              then let (r, s) = add_free_nid L av start_nid True s
                   in if r < 0 then s else scan_nat_loop L av nat_blk n (Suc i) (start_nid + 1) s
              else scan_nat_loop L av nat_blk n (Suc i) (start_nid + 1) s)"

definition scan_nat_page ::
  "layout \<Rightarrow> (f2fs_nm_info \<Rightarrow> bool) \<Rightarrow> (nat \<Rightarrow> raw_nat_entry) \<Rightarrow> u32 \<Rightarrow> f2fs_nm_info \<Rightarrow> f2fs_nm_info" where
  "scan_nat_page L av nat_blk start_nid s =
     (let i = unat start_nid mod nat_entry_per_block L
      in scan_nat_loop L av nat_blk (nat_entry_per_block L - i) i start_nid s)"

abbreviation (input) FREE_NID_PAGES :: nat where "FREE_NID_PAGES \<equiv> 4"

fun scan_pages ::
  "layout \<Rightarrow> geom \<Rightarrow> (f2fs_nm_info \<Rightarrow> bool) \<Rightarrow> nat \<Rightarrow> u32 \<Rightarrow> f2fs_nm_info \<Rightarrow> u32 \<times> f2fs_nm_info" where
  "scan_pages L g av 0 nid s = (nid, s)"
| "scan_pages L g av (Suc n) nid s =
     (let s = scan_nat_page L av (get_current_nat_page L g nid s) nid s;
          nid = nid + of_nat (nat_entry_per_block L - unat nid mod nat_entry_per_block L);
          nid = (if nid \<ge> max_nid s then 0 else nid)
      in scan_pages L g av n nid s)"

definition scan_journal_entry :: "layout \<Rightarrow> (f2fs_nm_info \<Rightarrow> bool) \<Rightarrow> nat \<Rightarrow> f2fs_nm_info \<Rightarrow> f2fs_nm_info" where
  "scan_journal_entry L av i s =
     (let addr = r_block_addr (nat_in_journal (hot_sum s) i);
          nid = nid_in_journal (hot_sum s) i
      in if addr = null_addr L then snd (add_free_nid L av nid True s) else remove_free_nid nid s)"

definition build_free_nids :: "layout \<Rightarrow> geom \<Rightarrow> (f2fs_nm_info \<Rightarrow> bool) \<Rightarrow> f2fs_nm_info \<Rightarrow> f2fs_nm_info" where
  "build_free_nids L g av s =
     (if fcnt s > int (nat_entry_per_block L) then s
      else let (nid, s) = scan_pages L g av (FREE_NID_PAGES + 1) (next_scan_nid s) s;
               s = s\<lparr>next_scan_nid := nid\<rparr>
           in fold (scan_journal_entry L av) [0..<nats_in_cursum (hot_sum s)] s)"

section \<open>Allocation\<close>

text \<open>The first new element of the list is handed out; there is one, as the counter is not zero.\<close>

definition take_free_nid :: "f2fs_nm_info \<Rightarrow> u32 option \<times> f2fs_nm_info" where
  "take_free_nid s =
     (case find (\<lambda>(n, st). st = NID_NEW) (free_nid_list s) of
        None \<Rightarrow> (None, nm_bug_on True s)
      | Some (n, _) \<Rightarrow> (Some n, s\<lparr>free_nid_list := AList.map_entry n (\<lambda>_. NID_ALLOC) (free_nid_list s),
                                 fcnt := fcnt s - 1\<rparr>))"

text \<open>
  The outer None is a call that does not return, the inner one the result \<open>false\<close>. The count of
  valid nodes is the superblock's.
\<close>

partial_function (option) alloc_nid ::
  "layout \<Rightarrow> geom \<Rightarrow> (f2fs_nm_info \<Rightarrow> bool) \<Rightarrow> u32 \<Rightarrow> f2fs_nm_info \<Rightarrow> (u32 option \<times> f2fs_nm_info) option" where
  "alloc_nid L g av valid_nodes s =
     (if valid_nodes + 1 > available_nids s then Some (None, s)
      else if fcnt s \<noteq> 0 then Some (take_free_nid s)
      else alloc_nid L g av valid_nodes (build_free_nids L g av s))"

definition alloc_nid_done :: "u32 \<Rightarrow> f2fs_nm_info \<Rightarrow> f2fs_nm_info" where
  "alloc_nid_done nid s =
     del_from_free_nid_list nid (nm_bug_on (lookup_free_nid_list nid s \<noteq> Some NID_ALLOC) s)"

definition alloc_nid_failed :: "(f2fs_nm_info \<Rightarrow> bool) \<Rightarrow> u32 \<Rightarrow> f2fs_nm_info \<Rightarrow> f2fs_nm_info" where
  "alloc_nid_failed av nid s =
     (if nid = 0 then s
      else let s = nm_bug_on (lookup_free_nid_list nid s \<noteq> Some NID_ALLOC) s
           in if \<not> av s then del_from_free_nid_list nid s
              else s\<lparr>free_nid_list := AList.map_entry nid (\<lambda>_. NID_NEW) (free_nid_list s), fcnt := fcnt s + 1\<rparr>)"

section \<open>Start and end\<close>

text \<open>
  The fields of the raw superblock and the checkpoint that \<open>init_node_manager\<close> reads are arguments;
  the version bitmap is a copy of the checkpoint's.
\<close>

definition init_node_manager ::
  "layout \<Rightarrow> u32 \<Rightarrow> u32 \<Rightarrow> nat \<Rightarrow> u32 \<Rightarrow> bytemap option \<Rightarrow> f2fs_nm_info \<Rightarrow> f2fs_nm_info option" where
  "init_node_manager L nat_blkaddr0 segment_count_nat log_bps next_free_nid0 version_bitmap s =
     (let nat_segs = drop_bit 1 segment_count_nat;
          nat_blocks = push_bit log_bps nat_segs;
          max = of_nat (nat_entry_per_block L) * nat_blocks;
          s = s\<lparr>nat_blkaddr := unat nat_blkaddr0, max_nid := max,
            available_nids := max - reserved_node_num L, fcnt := 0, nat_cnt := 0, ram_thresh := 10,
            free_nid_list := [], nat_root := [], nat_set_root := [], nat_entries := [],
            dirty_nat_cnt := 0, next_scan_nid := next_free_nid0\<rparr>
      in case version_bitmap of None \<Rightarrow> None | Some m \<Rightarrow> Some (s\<lparr>nat_bitmap := m\<rparr>))"

definition build_node_manager ::
  "layout \<Rightarrow> geom \<Rightarrow> (f2fs_nm_info \<Rightarrow> bool) \<Rightarrow> u32 \<Rightarrow> u32 \<Rightarrow> nat \<Rightarrow> u32 \<Rightarrow> bytemap option \<Rightarrow> f2fs_nm_info \<Rightarrow>
   f2fs_nm_info option" where
  "build_node_manager L g av nat_blkaddr0 segment_count_nat log_bps next_free_nid0 version_bitmap s =
     map_option (build_free_nids L g av)
       (init_node_manager L nat_blkaddr0 segment_count_nat log_bps next_free_nid0 version_bitmap s)"

definition destroy_node_manager :: "f2fs_nm_info \<Rightarrow> f2fs_nm_info" where
  "destroy_node_manager s =
     (let s = fold (\<lambda>(n, st) s. (del_from_free_nid_list n (nm_bug_on (st = NID_ALLOC) s))\<lparr>fcnt := fcnt s - 1\<rparr>)
            (free_nid_list s) s;
          s = nm_bug_on (fcnt s \<noteq> 0) s;
          s = fold del_from_nat_cache (sort (map fst (nat_root s))) s;
          s = nm_bug_on (nat_cnt s \<noteq> 0) s
      in fold (\<lambda>k s. (nm_bug_on (case map_of (nat_set_root s) k of None \<Rightarrow> False | Some h \<Rightarrow> entry_list h \<noteq> []) s)
             \<lparr>nat_set_root := AList.delete k (nat_set_root s)\<rparr>)
           (sort (map fst (nat_set_root s))) s)"

section \<open>The list of free ids\<close>

definition free_nids_ok :: "f2fs_nm_info \<Rightarrow> bool" where
  "free_nids_ok s \<longleftrightarrow> distinct (map fst (free_nid_list s)) \<and> 0 \<notin> fst ` set (free_nid_list s) \<and>
     fcnt s = int (length (filter (\<lambda>(n, st). st = NID_NEW) (free_nid_list s)))"

text \<open>New ids are free, both in the table and in what the last checkpoint and the journal hold.\<close>

definition free_safe :: "layout \<Rightarrow> geom \<Rightarrow> f2fs_nm_info \<Rightarrow> bool" where
  "free_safe L g s \<longleftrightarrow> (\<forall>n<max_nid s. nid_ok L s n) \<and>
     (\<forall>n. lookup_free_nid_list n s = Some NID_NEW \<longrightarrow> nid_ok L s n \<and>
     r_block_addr (nat_of L g s n) = null_addr L \<and> r_block_addr (disk_nat L g s n) = null_addr L)"

text \<open>What the operations of this theory leave alone.\<close>

definition same_nat :: "f2fs_nm_info \<Rightarrow> f2fs_nm_info \<Rightarrow> bool" where
  "same_nat s s' \<longleftrightarrow> s'\<lparr>free_nid_list := [], fcnt := 0, next_scan_nid := 0, nm_bug := False\<rparr> =
     s\<lparr>free_nid_list := [], fcnt := 0, next_scan_nid := 0, nm_bug := False\<rparr>"

lemma same_nat_refl [simp]: "same_nat s s"
  by (simp add: same_nat_def)

lemma same_nat_trans: "same_nat s s' \<Longrightarrow> same_nat s' s'' \<Longrightarrow> same_nat s s''"
  by (simp add: same_nat_def)

lemma same_nat_upd [simp]:
  "same_nat s (s\<lparr>free_nid_list := l, fcnt := c\<rparr>)" "same_nat s (s\<lparr>free_nid_list := l\<rparr>)"
  "same_nat s (s\<lparr>next_scan_nid := n\<rparr>)" "same_nat s (nm_bug_on b s)"
  by (simp_all add: same_nat_def nm_bug_on_def)

lemma same_nat_facts:
  assumes "same_nat s s'"
  shows "lookup_nat_cache n s' = lookup_nat_cache n s" "disk_nat L g s' = disk_nat L g s"
    "block_nat L g s' = block_nat L g s" "nat_of L g s' = nat_of L g s" "nat_ok L g s' = nat_ok L g s"
    "hot_sum s' = hot_sum s" "max_nid s' = max_nid s" "available_nids s' = available_nids s"
    "get_current_nat_page L g n s' = get_current_nat_page L g n s" "nid_ok L s' n = nid_ok L s n"
proof -
  note e = assms [unfolded same_nat_def]
  have f: "nat_root s' = nat_root s" "nat_set_root s' = nat_set_root s" "nat_entries s' = nat_entries s"
    "nat_cnt s' = nat_cnt s" "dirty_nat_cnt s' = dirty_nat_cnt s" "nat_bitmap s' = nat_bitmap s"
    "hot_sum s' = hot_sum s" "nat_pages s' = nat_pages s" "nat_blkaddr s' = nat_blkaddr s"
    "max_nid s' = max_nid s" "available_nids s' = available_nids s"
    using arg_cong [OF e, of nat_root] arg_cong [OF e, of nat_set_root] arg_cong [OF e, of nat_entries]
      arg_cong [OF e, of nat_cnt] arg_cong [OF e, of dirty_nat_cnt] arg_cong [OF e, of nat_bitmap]
      arg_cong [OF e, of hot_sum] arg_cong [OF e, of nat_pages] arg_cong [OF e, of nat_blkaddr]
      arg_cong [OF e, of max_nid] arg_cong [OF e, of available_nids] by simp_all
  show l: "lookup_nat_cache n s' = lookup_nat_cache n s" for n by (simp add: f lookup_nat_cache_def)
  show d: "disk_nat L g s' = disk_nat L g s" by (rule disk_nat_cong(1)) (simp_all add: f)
  have o: "nid_ok L s' n = nid_ok L s n" for n by (rule disk_nat_cong(2)) (simp_all add: f)
  show b: "block_nat L g s' = block_nat L g s"
    by (simp add: f block_nat_def current_nat_addr_def fun_eq_iff)
  show "nat_of L g s' = nat_of L g s" by (simp add: nat_of_def fun_eq_iff l d split: option.split)
  have dd: "nat_dirty s' = nat_dirty s" by (simp add: nat_dirty_def l fun_eq_iff)
  have "nat_cache_ok L s' = nat_cache_ok L s"
    unfolding nat_cache_ok_def set_ok_def l dd f ..
  then show "nat_ok L g s' = nat_ok L g s" unfolding nat_ok_def l d o f by simp
  show "hot_sum s' = hot_sum s" "max_nid s' = max_nid s" "available_nids s' = available_nids s"
    "get_current_nat_page L g n s' = get_current_nat_page L g n s"
    by (simp_all add: f get_current_nat_page_def current_nat_addr_def)
  show "nid_ok L s' n = nid_ok L s n" by (rule o)
qed

text \<open>The check of \<open>add_free_nid\<close> while the list is built.\<close>

definition not_in_use :: "layout \<Rightarrow> f2fs_nm_info \<Rightarrow> u32 \<Rightarrow> bool" where
  "not_in_use L s n \<longleftrightarrow> n \<noteq> 0 \<and> (\<forall>ne. lookup_nat_cache n s = Some ne \<longrightarrow>
     get_nat_flag IS_CHECKPOINTED ne \<and> ni_blk_addr ne = null_addr L)"

lemma not_in_use_same: "same_nat s s' \<Longrightarrow> not_in_use L s' n = not_in_use L s n"
  by (simp add: not_in_use_def same_nat_facts(1))

lemma add_free_nid_spec:
  assumes "add_free_nid L av n build s = (r, s')"
  shows "same_nat s s'"
    and "lookup_free_nid_list m s' = (if r = 1 \<and> m = n then Some NID_NEW else lookup_free_nid_list m s)"
    and "free_nids_ok s \<Longrightarrow> free_nids_ok s'" and "build \<Longrightarrow> r = 1 \<Longrightarrow> not_in_use L s n"
    and "r < 0 \<longleftrightarrow> \<not> av s"
    and "r = 1 \<longleftrightarrow> av s \<and> n \<noteq> 0 \<and> (build \<longrightarrow> not_in_use L s n) \<and> lookup_free_nid_list n s = None"
proof -
  show "same_nat s s'" using assms by (auto simp: add_free_nid_def split: if_splits)
  show "lookup_free_nid_list m s' = (if r = 1 \<and> m = n then Some NID_NEW else lookup_free_nid_list m s)"
    using assms by (auto simp: add_free_nid_def lookup_free_nid_list_def map_add_def split: if_splits option.splits)
  show "free_nids_ok s \<Longrightarrow> free_nids_ok s'"
    using assms map_of_eq_None_iff [of "free_nid_list s" n]
    by (auto simp: add_free_nid_def lookup_free_nid_list_def free_nids_ok_def split: if_splits)
  show "build \<Longrightarrow> r = 1 \<Longrightarrow> not_in_use L s n" "r < 0 \<longleftrightarrow> \<not> av s"
    "r = 1 \<longleftrightarrow> av s \<and> n \<noteq> 0 \<and> (build \<longrightarrow> not_in_use L s n) \<and> lookup_free_nid_list n s = None"
    using assms by (auto simp: add_free_nid_def not_in_use_def split: if_splits option.splits)
qed

lemma new_count_delete:
  "distinct (map fst xs) \<Longrightarrow> int (length (filter (\<lambda>(n, st). st = NID_NEW) (AList.delete n xs))) =
     int (length (filter (\<lambda>(n, st). st = NID_NEW) xs)) - (if map_of xs n = Some NID_NEW then 1 else 0)"
proof (induction xs)
  case (Cons p xs)
  obtain k st where p: "p = (k, st)" by fastforce
  show ?case
  proof (cases "k = n")
    case True
    then have "n \<notin> fst ` set xs" using Cons.prems p by simp
    then show ?thesis using p True by simp
  next
    case False
    then have "AList.delete n (p # xs) = p # AList.delete n xs" "map_of (p # xs) n = map_of xs n" by (simp_all add: p)
    then show ?thesis
      using Cons False by (cases "map_of xs n = Some NID_NEW") (simp_all add: p del: map_of_eq_Some_iff)
  qed
qed simp

lemma new_count_map_entry:
  "distinct (map fst xs) \<Longrightarrow> int (length (filter (\<lambda>(n, st). st = NID_NEW) (AList.map_entry n (\<lambda>_. st') xs))) =
     int (length (filter (\<lambda>(n, st). st = NID_NEW) xs)) +
     (case map_of xs n of None \<Rightarrow> 0 | Some st \<Rightarrow> (if st' = NID_NEW then 1 else 0) - (if st = NID_NEW then 1 else 0))"
proof (induction xs)
  case (Cons p xs)
  obtain k st where p: "p = (k, st)" by fastforce
  show ?case
  proof (cases "k = n")
    case False
    then show ?thesis using Cons p by (simp split: option.splits)
  qed (simp add: p)
qed simp

lemma remove_free_nid_spec:
  assumes "free_nids_ok s"
  shows "same_nat s (remove_free_nid n s)" and "free_nids_ok (remove_free_nid n s)"
    and "lookup_free_nid_list m (remove_free_nid n s) =
      (if m = n \<and> lookup_free_nid_list n s = Some NID_NEW then None else lookup_free_nid_list m s)"
proof -
  show "same_nat s (remove_free_nid n s)"
    by (simp add: remove_free_nid_def del_from_free_nid_list_def)
  have "0 \<notin> fst ` set (AList.delete n (free_nid_list s))"
    using assms dom_delete_subset [of n "free_nid_list s"] unfolding free_nids_ok_def by blast
  then show "free_nids_ok (remove_free_nid n s)"
    using assms by (simp add: remove_free_nid_def del_from_free_nid_list_def free_nids_ok_def lookup_free_nid_list_def
        new_count_delete distinct_delete del: map_of_eq_Some_iff)
  show "lookup_free_nid_list m (remove_free_nid n s) =
      (if m = n \<and> lookup_free_nid_list n s = Some NID_NEW then None else lookup_free_nid_list m s)"
    by (simp add: remove_free_nid_def del_from_free_nid_list_def lookup_free_nid_list_def delete_conv')
qed

section \<open>Building the list\<close>

text \<open>The ids of a scanned block that may be added: null address in the block and not in use.\<close>

definition scanned :: "layout \<Rightarrow> geom \<Rightarrow> f2fs_nm_info \<Rightarrow> f2fs_nm_info \<Rightarrow> bool" where
  "scanned L g s s' \<longleftrightarrow> same_nat s s' \<and> (free_nids_ok s \<longrightarrow> free_nids_ok s') \<and>
     (\<forall>n. lookup_free_nid_list n s \<noteq> None \<longrightarrow> lookup_free_nid_list n s' = lookup_free_nid_list n s) \<and>
     (\<forall>n. lookup_free_nid_list n s = None \<and> lookup_free_nid_list n s' \<noteq> None \<longrightarrow>
        lookup_free_nid_list n s' = Some NID_NEW \<and> not_in_use L s n \<and> n < max_nid s \<and> r_block_addr (block_nat L g s n) = null_addr L)"

lemma scanned_refl [simp]: "scanned L g s s"
  by (auto simp: scanned_def)

lemma scanned_trans:
  assumes "scanned L g s s'" "scanned L g s' s''"
  shows "scanned L g s s''"
proof -
  have f: "same_nat s s'" using assms(1) by (simp add: scanned_def)
  have "lookup_free_nid_list n s'' = Some NID_NEW \<and> not_in_use L s n \<and> n < max_nid s \<and>
      r_block_addr (block_nat L g s n) = null_addr L"
    if "lookup_free_nid_list n s = None" "lookup_free_nid_list n s'' \<noteq> None" for n
    using assms that not_in_use_same [OF f] same_nat_facts(3,7) [OF f]
    by (cases "lookup_free_nid_list n s'") (auto simp: scanned_def)
  moreover have "lookup_free_nid_list n s'' = lookup_free_nid_list n s" if "lookup_free_nid_list n s \<noteq> None" for n
    using assms that by (simp add: scanned_def)
  ultimately show ?thesis
    using assms same_nat_trans by (auto simp: scanned_def)
qed

lemma bug_free [simp]:
  "lookup_free_nid_list n (nm_bug_on c s) = lookup_free_nid_list n s" "free_nids_ok (nm_bug_on c s) = free_nids_ok s"
  "max_nid (nm_bug_on c s) = max_nid s"
  by (simp_all add: nm_bug_on_def lookup_free_nid_list_def free_nids_ok_def)

lemma scanned_bug [simp]: "scanned L g s (nm_bug_on c s)"
  by (auto simp: scanned_def)

lemma scan_loop_scanned:
  assumes "nat_blk = nat_pages s0 (current_nat_addr L g nid0 s0)" and "scanned L g s0 s"
    and "i + k = nat_entry_per_block L" "unat nid mod nat_entry_per_block L = i \<or> k = 0"
    and "NAT_BLOCK_OFFSET L nid = NAT_BLOCK_OFFSET L nid0 \<or> k = 0" "seg_size_ok g" "0 < nat_entry_per_block L"
  shows "scanned L g s0 (scan_nat_loop L av nat_blk k i nid s)"
  using assms(2-5)
proof (induction k arbitrary: i nid s)
  case (Suc k)
  have same: "same_nat s0 s" using Suc.prems(1) by (simp add: scanned_def)
  show ?case
  proof (cases "nid \<ge> max_nid s")
    case True
    then show ?thesis using Suc.prems by simp
  next
    case False
    let ?s = "nm_bug_on (r_block_addr (nat_blk i) = new_addr L) s"
    have s1: "scanned L g s0 ?s" using Suc.prems(1) scanned_bug scanned_trans by blast
    have "nid < max_nid s" using False by simp
    then have "unat nid < unat (max_nid s)" by (simp add: word_less_nat_alt)
    then have "unat nid + 1 < 2 ^ 32" using unsigned_less [of "max_nid s", where ?'a = nat] by simp
    then have u: "unat (nid + 1) = unat nid + 1" by (subst unat_plus_small) simp_all
    have im: "unat nid mod nat_entry_per_block L = i" "i < nat_entry_per_block L" using Suc.prems(2,3) by auto
    have n1: "Suc i + k = nat_entry_per_block L" using Suc.prems(2) by simp
    have n2: "unat (nid + 1) mod nat_entry_per_block L = Suc i \<or> k = 0"
    proof (cases "k = 0")
      case False
      then have "Suc i < nat_entry_per_block L" using n1 by simp
      then show ?thesis using im(1) by (simp add: u mod_Suc)
    qed simp
    have n3: "NAT_BLOCK_OFFSET L (nid + 1) = NAT_BLOCK_OFFSET L nid0 \<or> k = 0"
    proof (cases "k = 0")
      case False
      then have "Suc i \<noteq> nat_entry_per_block L" using n1 by simp
      then have "Suc (unat nid) div nat_entry_per_block L = unat nid div nat_entry_per_block L"
        using im(1) by (simp add: div_Suc mod_Suc)
      then show ?thesis using Suc.prems(4) by (simp add: NAT_BLOCK_OFFSET_def u)
    qed simp
    obtain r s2 where a: "add_free_nid L av nid True ?s = (r, s2)" by fastforce
    note sp = add_free_nid_spec [OF a]
    have s2: "scanned L g s0 s2" if z: "r_block_addr (nat_blk i) = null_addr L"
    proof -
      have "block_nat L g s0 nid = nat_blk i"
        using Suc.prems(4) im assms(1,6) by (simp add: block_nat_def current_nat_addr_eq)
      then have "scanned L g ?s s2"
        using sp z False same_nat_facts(3) [OF same] same_nat_facts(3) [of s ?s] not_in_use_same [of s ?s L nid]
        by (auto simp: scanned_def split: if_splits)
      then show ?thesis using s1 scanned_trans by blast
    qed
    show ?thesis
    proof (cases "r_block_addr (nat_blk i) = null_addr L")
      case True
      then show ?thesis
        using False a s2 Suc.IH [OF s2 n1 n2 n3] by (simp add: Let_def)
    next
      case z: False
      then show ?thesis using False Suc.IH [OF s1 n1 n2 n3] by (simp add: Let_def)
    qed
  qed
qed simp


lemma scan_page_scanned:
  assumes "scanned L g s0 s" "seg_size_ok g" "0 < nat_entry_per_block L"
  shows "scanned L g s0 (scan_nat_page L av (get_current_nat_page L g nid s) nid s)"
proof -
  have f: "same_nat s0 s" using assms(1) by (simp add: scanned_def)
  have m: "unat nid mod nat_entry_per_block L \<le> nat_entry_per_block L"
    using assms(3) by (simp add: mod_le_divisor)
  have p: "get_current_nat_page L g nid s = nat_pages s0 (current_nat_addr L g nid s0)"
    using same_nat_facts(9) [OF f] by (simp add: get_current_nat_page_def)
  show ?thesis
    unfolding scan_nat_page_def Let_def
    by (rule scan_loop_scanned [OF p assms(1) _ _ _ assms(2,3)]) (use m in simp_all)
qed

lemma scan_pages_scanned:
  "scanned L g s0 s \<Longrightarrow> seg_size_ok g \<Longrightarrow> 0 < nat_entry_per_block L \<Longrightarrow>
     scanned L g s0 (snd (scan_pages L g av n nid s))"
proof (induction n arbitrary: nid s)
  case (Suc n)
  then show ?case using scan_page_scanned [OF Suc.prems] by (simp add: Let_def)
qed simp

text \<open>The journal overrides the blocks.\<close>

lemma scan_journal_spec:
  assumes "free_nids_ok s" "jok (nat_j (hot_sum s))" "k \<le> jn (nat_j (hot_sum s))"
    and "t0 = fold (scan_journal_entry L av) [0..<k] s"
  shows "same_nat s t0 \<and> free_nids_ok t0 \<and>
    (\<forall>i<k. r_block_addr (jent (nat_j (hot_sum s)) i) \<noteq> null_addr L \<longrightarrow>
       lookup_free_nid_list (jkey (nat_j (hot_sum s)) i) t0 \<noteq> Some NID_NEW) \<and>
    (\<forall>n. lookup_free_nid_list n t0 = Some NID_NEW \<longrightarrow> lookup_free_nid_list n s = Some NID_NEW \<or>
       not_in_use L s n \<and> (\<exists>i<k. jkey (nat_j (hot_sum s)) i = n \<and>
         r_block_addr (jent (nat_j (hot_sum s)) i) = null_addr L)) \<and>
    (\<forall>n. lookup_free_nid_list n s = Some NID_ALLOC \<longrightarrow> lookup_free_nid_list n t0 = Some NID_ALLOC)"
  using assms(3,4)
proof (induction k arbitrary: t0)
  case 0
  then show ?case using assms(1) by auto
next
  case (Suc k)
  define t where "t = fold (scan_journal_entry L av) [0..<k] s"
  define j where "j = nat_j (hot_sum s)"
  have IH: "same_nat s t" "free_nids_ok t"
    "\<And>i. i < k \<Longrightarrow> r_block_addr (jent j i) \<noteq> null_addr L \<Longrightarrow> lookup_free_nid_list (jkey j i) t \<noteq> Some NID_NEW"
    "\<And>n. lookup_free_nid_list n t = Some NID_NEW \<Longrightarrow> lookup_free_nid_list n s = Some NID_NEW \<or>
       not_in_use L s n \<and> (\<exists>i<k. jkey j i = n \<and> r_block_addr (jent j i) = null_addr L)"
    "\<And>n. lookup_free_nid_list n s = Some NID_ALLOC \<Longrightarrow> lookup_free_nid_list n t = Some NID_ALLOC"
    using Suc.IH [of t] Suc.prems(1) by (simp_all add: t_def j_def)
  have h: "hot_sum t = hot_sum s" by (rule same_nat_facts(6) [OF IH(1)])
  have st: "t0 = scan_journal_entry L av k t"
    using Suc.prems(2) by (simp add: t_def)
  have inj: "jkey j i \<noteq> jkey j k" if "i < k" for i
    using assms(2) Suc.prems that inj_onD [of "jkey j" "{..<jn j}" i k] by (auto simp: jok_def j_def)
  show ?case
  proof (cases "r_block_addr (jent j k) = null_addr L")
    case True
    obtain r t' where a: "add_free_nid L av (jkey j k) True t = (r, t')" by fastforce
    note sp = add_free_nid_spec [OF a]
    have e: "scan_journal_entry L av k t = t'"
      using True a by (simp add: scan_journal_entry_def Let_def h nat_in_journal_def nid_in_journal_def j_def)
    have "same_nat s t'" using IH(1) sp(1) same_nat_trans by blast
    moreover have "free_nids_ok t'" using sp(3) IH(2) by simp
    moreover have "lookup_free_nid_list (jkey j i) t' \<noteq> Some NID_NEW"
      if "i < Suc k" "r_block_addr (jent j i) \<noteq> null_addr L" for i
      using that True inj IH(3) sp(2) [of "jkey j i"] by (cases "i = k") auto
    moreover have "lookup_free_nid_list n s = Some NID_NEW \<or>
       not_in_use L s n \<and> (\<exists>i<Suc k. jkey j i = n \<and> r_block_addr (jent j i) = null_addr L)"
      if "lookup_free_nid_list n t' = Some NID_NEW" for n
    proof (cases "r = 1 \<and> n = jkey j k")
      case t: True
      then have "not_in_use L s n" using sp(4) not_in_use_same [OF IH(1)] by simp
      then show ?thesis using t True by auto
    next
      case False
      then have "lookup_free_nid_list n t = Some NID_NEW" using that sp(2) [of n] by (auto split: if_splits)
      from IH(4) [OF this] show ?thesis using less_SucI by blast
    qed
    moreover have "lookup_free_nid_list n t' = Some NID_ALLOC" if "lookup_free_nid_list n s = Some NID_ALLOC" for n
      using IH(5) [OF that] sp(2) [of n] sp(6) by auto
    ultimately show ?thesis unfolding st e j_def [symmetric] by blast
  next
    case False
    then have e: "scan_journal_entry L av k t = remove_free_nid (jkey j k) t"
      by (simp add: scan_journal_entry_def Let_def h nat_in_journal_def nid_in_journal_def j_def)
    note sp = remove_free_nid_spec [OF IH(2)]
    have "same_nat s (remove_free_nid (jkey j k) t)" using IH(1) sp(1) same_nat_trans by blast
    moreover have "free_nids_ok (remove_free_nid (jkey j k) t)" by (rule sp(2))
    moreover have "lookup_free_nid_list (jkey j i) (remove_free_nid (jkey j k) t) \<noteq> Some NID_NEW"
      if "i < Suc k" "r_block_addr (jent j i) \<noteq> null_addr L" for i
      using that IH(3) by (cases "i = k") (auto simp: sp(3))
    moreover have "lookup_free_nid_list n s = Some NID_NEW \<or>
       not_in_use L s n \<and> (\<exists>i<Suc k. jkey j i = n \<and> r_block_addr (jent j i) = null_addr L)"
      if "lookup_free_nid_list n (remove_free_nid (jkey j k) t) = Some NID_NEW" for n
    proof -
      have "lookup_free_nid_list n t = Some NID_NEW" using that by (auto simp: sp(3) split: if_splits)
      from IH(4) [OF this] show ?thesis using less_SucI by blast
    qed
    moreover have "lookup_free_nid_list n (remove_free_nid (jkey j k) t) = Some NID_ALLOC"
      if "lookup_free_nid_list n s = Some NID_ALLOC" for n
      using IH(5) [OF that] by (auto simp: sp(3))
    ultimately show ?thesis unfolding st e j_def [symmetric] by blast
  qed
qed


lemma build_free_nids_spec:
  assumes "nat_ok L g s" "free_nids_ok s" "free_safe L g s"
    and t_def: "t = build_free_nids L g av s"
  shows "same_nat s t" and "free_nids_ok t" and "free_safe L g t"
    and "lookup_free_nid_list n s = Some NID_ALLOC \<Longrightarrow> lookup_free_nid_list n t = Some NID_ALLOC"
proof -
  have ok: "seg_size_ok g" "0 < nat_entry_per_block L" "jok (nat_j (hot_sum s))"
    using assms(1) by (simp_all add: nat_ok_def)
  have "same_nat s t \<and> free_nids_ok t \<and> free_safe L g t \<and>
      (\<forall>n. lookup_free_nid_list n s = Some NID_ALLOC \<longrightarrow> lookup_free_nid_list n t = Some NID_ALLOC)"
  proof (cases "fcnt s > int (nat_entry_per_block L)")
    case True
    then show ?thesis using assms by (simp add: build_free_nids_def)
  next
    case False
    define u where "u = snd (scan_pages L g av (FREE_NID_PAGES + 1) (next_scan_nid s) s)"
    define v where "v = u\<lparr>next_scan_nid := fst (scan_pages L g av (FREE_NID_PAGES + 1) (next_scan_nid s) s)\<rparr>"
    have sc: "scanned L g s u"
      unfolding u_def by (rule scan_pages_scanned [OF scanned_refl ok(1,2)])
    have uv: "same_nat u v" "free_nids_ok v = free_nids_ok u" "lookup_free_nid_list n v = lookup_free_nid_list n u" for n
      by (simp_all add: v_def free_nids_ok_def lookup_free_nid_list_def)
    have sv: "same_nat s v" "free_nids_ok v" using sc uv(1) same_nat_trans assms(2) uv(2) by (auto simp: scanned_def)
    note hv = same_nat_facts(6) [OF sv(1)]
    define j where "j = nat_j (hot_sum s)"
    have t: "t = fold (scan_journal_entry L av) [0..<jn (nat_j (hot_sum v))] v"
      using False by (simp add: t_def build_free_nids_def u_def v_def nats_in_cursum_def case_prod_beta)
    note sp = scan_journal_spec [OF sv(2) _ order.refl t, unfolded hv, OF ok(3), folded j_def]
    have st: "same_nat s t" using sv(1) sp same_nat_trans by blast
    have safe: "nid_ok L s n \<and> r_block_addr (nat_of L g s n) = null_addr L \<and> r_block_addr (disk_nat L g s n) = null_addr L"
      if n: "lookup_free_nid_list n t = Some NID_NEW" for n
    proof -
      have jn: "r_block_addr (jent j i) = null_addr L" if "i < jn j" "jkey j i = n" for i
        using sp n that by blast
      have new: "lookup_free_nid_list n s = Some NID_NEW \<or> not_in_use L s n \<and>
          ((\<exists>i<jn j. jkey j i = n) \<or> n < max_nid s \<and> r_block_addr (block_nat L g s n) = null_addr L)"
      proof (cases "lookup_free_nid_list n v = Some NID_NEW")
        case True
        then show ?thesis using sc uv(3) [of n] by (cases "lookup_free_nid_list n s") (auto simp: scanned_def)
      next
        case False
        then have "not_in_use L v n \<and> (\<exists>i<jn j. jkey j i = n)" using sp n by blast
        then show ?thesis using not_in_use_same [OF sv(1)] by simp
      qed
      show ?thesis
      proof (cases "lookup_free_nid_list n s = Some NID_NEW")
        case True
        then show ?thesis using assms(3) by (simp add: free_safe_def)
      next
        case False
        then have nu: "not_in_use L s n" using new by simp
        have "nid_ok L s n"
          using new False assms(1,3) by (auto simp: free_safe_def nat_ok_def jkeys_def j_def)
        have d: "r_block_addr (disk_nat L g s n) = null_addr L"
        proof (cases "n \<in> jkeys j")
          case True
          then obtain i where i: "i < jn j" "jkey j i = n" by (auto simp: jkeys_def)
          then have "jlook j n = Some (jent j i)" using jlook_slot [OF ok(3) [folded j_def], of i] by simp
          then show ?thesis using jn [OF i] by (simp add: disk_nat_def over_def j_def)
        next
          case nj: False
          then have "r_block_addr (block_nat L g s n) = null_addr L" using new False by (auto simp: jkeys_def)
          then show ?thesis using nj jlook_None [of j n] by (simp add: disk_nat_def over_def j_def)
        qed
        with \<open>nid_ok L s n\<close> show ?thesis
          using nu by (auto simp: nat_of_def not_in_use_def raw_nat_from_node_info_def split: option.split)
      qed
    qed
    have "free_safe L g t"
      unfolding free_safe_def same_nat_facts(2,4,7,10) [OF st] using safe assms(3) by (simp add: free_safe_def)
    moreover have "lookup_free_nid_list n t = Some NID_ALLOC" if "lookup_free_nid_list n s = Some NID_ALLOC" for n
      using sp that sc uv(3) [of n] by (auto simp: scanned_def)
    ultimately show ?thesis using st sp by blast
  qed
  then show "same_nat s t" "free_nids_ok t" "free_safe L g t"
    "lookup_free_nid_list n s = Some NID_ALLOC \<Longrightarrow> lookup_free_nid_list n t = Some NID_ALLOC" by simp_all
qed

lemma take_free_nid_spec:
  assumes "free_nids_ok s" "take_free_nid s = (r, t)"
  shows "same_nat s t" and "free_nids_ok t"
    and "fcnt s \<noteq> 0 \<Longrightarrow> \<exists>n. r = Some n \<and> n \<noteq> 0 \<and> lookup_free_nid_list n s = Some NID_NEW \<and> nm_bug t = nm_bug s \<and>
      fcnt t = fcnt s - 1 \<and>
      lookup_free_nid_list m t = (if m = n then Some NID_ALLOC else lookup_free_nid_list m s)"
proof -
  show "same_nat s t"
    using assms(2) by (auto simp: take_free_nid_def split: option.splits)
  have d: "distinct (map fst (free_nid_list s))" using assms(1) by (simp add: free_nids_ok_def)
  show "free_nids_ok t"
  proof (cases "find (\<lambda>(n, st). st = NID_NEW) (free_nid_list s)")
    case None
    then show ?thesis using assms by (simp add: take_free_nid_def) (metis bug_free(2))
  next
    case (Some p)
    obtain n st where p: "p = (n, st)" by fastforce
    from Some have "p \<in> set (free_nid_list s)" "st = NID_NEW" by (auto simp: find_Some_iff p) (metis nth_mem)
    then have m: "map_of (free_nid_list s) n = Some NID_NEW" using d p by simp
    have t: "t = s\<lparr>free_nid_list := AList.map_entry n (\<lambda>_. NID_ALLOC) (free_nid_list s), fcnt := fcnt s - 1\<rparr>"
      using assms(2) Some by (simp add: take_free_nid_def p)
    show ?thesis
      using assms(1) m by (simp add: t free_nids_ok_def new_count_map_entry [OF d] AList.dom_map_entry)
  qed
  show "\<exists>n. r = Some n \<and> n \<noteq> 0 \<and> lookup_free_nid_list n s = Some NID_NEW \<and> nm_bug t = nm_bug s \<and>
      fcnt t = fcnt s - 1 \<and>
      lookup_free_nid_list m t = (if m = n then Some NID_ALLOC else lookup_free_nid_list m s)" if "fcnt s \<noteq> 0"
  proof -
    have "filter (\<lambda>(n, st). st = NID_NEW) (free_nid_list s) \<noteq> []" using assms(1) that by (auto simp: free_nids_ok_def)
    then obtain p where p: "find (\<lambda>(n, st). st = NID_NEW) (free_nid_list s) = Some p"
      by (cases "find (\<lambda>(n, st). st = NID_NEW) (free_nid_list s)") (auto simp: find_None_iff filter_empty_conv)
    obtain n st where n: "p = (n, st)" by fastforce
    from p have "p \<in> set (free_nid_list s)" "st = NID_NEW" by (auto simp: find_Some_iff n) (metis nth_mem)
    then have m: "map_of (free_nid_list s) n = Some NID_NEW" "n \<noteq> 0"
      using d n assms(1) by (auto simp: free_nids_ok_def image_iff)
    show ?thesis
      using assms(2) p m by (intro exI [of _ n])
        (auto simp: take_free_nid_def n lookup_free_nid_list_def map_of_map_entry)
  qed
qed


section \<open>What an allocation promises\<close>

lemma alloc_nid_correct:
  assumes "alloc_nid L g av vn s = Some (r, t)" "nat_ok L g s" "free_nids_ok s" "free_safe L g s"
  shows "same_nat s t \<and> free_nids_ok t \<and> free_safe L g t \<and>
    (case r of None \<Rightarrow> available_nids s < vn + 1 | Some n \<Rightarrow> vn + 1 \<le> available_nids s \<and> n \<noteq> 0 \<and>
       r_block_addr (nat_of L g s n) = null_addr L \<and> r_block_addr (disk_nat L g s n) = null_addr L \<and>
       lookup_free_nid_list n s \<noteq> Some NID_ALLOC \<and> lookup_free_nid_list n t = Some NID_ALLOC \<and> nid_ok L s n)"
proof -
  have "nat_ok L g s \<longrightarrow> free_nids_ok s \<longrightarrow> free_safe L g s \<longrightarrow>
    (case y of (r, t) \<Rightarrow> same_nat s t \<and> free_nids_ok t \<and> free_safe L g t \<and>
    (case r of None \<Rightarrow> available_nids s < vn + 1 | Some n \<Rightarrow> vn + 1 \<le> available_nids s \<and> n \<noteq> 0 \<and>
       r_block_addr (nat_of L g s n) = null_addr L \<and> r_block_addr (disk_nat L g s n) = null_addr L \<and>
       lookup_free_nid_list n s \<noteq> Some NID_ALLOC \<and> lookup_free_nid_list n t = Some NID_ALLOC \<and> nid_ok L s n))"
    if "alloc_nid L g av vn s = Some y" for y s
  proof (rule alloc_nid.raw_induct [OF _ that, of "\<lambda>L g av vn s y. nat_ok L g s \<longrightarrow> free_nids_ok s \<longrightarrow> free_safe L g s \<longrightarrow>
    (case y of (r, t) \<Rightarrow> same_nat s t \<and> free_nids_ok t \<and> free_safe L g t \<and>
    (case r of None \<Rightarrow> available_nids s < vn + 1 | Some n \<Rightarrow> vn + 1 \<le> available_nids s \<and> n \<noteq> 0 \<and>
       r_block_addr (nat_of L g s n) = null_addr L \<and> r_block_addr (disk_nat L g s n) = null_addr L \<and>
       lookup_free_nid_list n s \<noteq> Some NID_ALLOC \<and> lookup_free_nid_list n t = Some NID_ALLOC \<and> nid_ok L s n))"], intro impI)
    fix f :: "layout \<Rightarrow> geom \<Rightarrow> (f2fs_nm_info \<Rightarrow> bool) \<Rightarrow> u32 \<Rightarrow> f2fs_nm_info \<Rightarrow> (u32 option \<times> f2fs_nm_info) option"
      and L g av vn s y
    assume IH: "\<And>L g av vn s y. f L g av vn s = Some y \<Longrightarrow> nat_ok L g s \<longrightarrow> free_nids_ok s \<longrightarrow> free_safe L g s \<longrightarrow>
    (case y of (r, t) \<Rightarrow> same_nat s t \<and> free_nids_ok t \<and> free_safe L g t \<and>
    (case r of None \<Rightarrow> available_nids s < vn + 1 | Some n \<Rightarrow> vn + 1 \<le> available_nids s \<and> n \<noteq> 0 \<and>
       r_block_addr (nat_of L g s n) = null_addr L \<and> r_block_addr (disk_nat L g s n) = null_addr L \<and>
       lookup_free_nid_list n s \<noteq> Some NID_ALLOC \<and> lookup_free_nid_list n t = Some NID_ALLOC \<and> nid_ok L s n))"
      and eq: "(if vn + 1 > available_nids s then Some (None, s)
        else if fcnt s \<noteq> 0 then Some (take_free_nid s) else f L g av vn (build_free_nids L g av s)) = Some y"
      and ok: "nat_ok L g s" "free_nids_ok s" "free_safe L g s"
    obtain r t where y: "y = (r, t)" by fastforce
    consider "vn + 1 > available_nids s" | "vn + 1 \<le> available_nids s" "fcnt s \<noteq> 0"
      | "vn + 1 \<le> available_nids s" "fcnt s = 0" by force
    then show "case y of (r, t) \<Rightarrow> same_nat s t \<and> free_nids_ok t \<and> free_safe L g t \<and>
    (case r of None \<Rightarrow> available_nids s < vn + 1 | Some n \<Rightarrow> vn + 1 \<le> available_nids s \<and> n \<noteq> 0 \<and>
       r_block_addr (nat_of L g s n) = null_addr L \<and> r_block_addr (disk_nat L g s n) = null_addr L \<and>
       lookup_free_nid_list n s \<noteq> Some NID_ALLOC \<and> lookup_free_nid_list n t = Some NID_ALLOC \<and> nid_ok L s n)"
    proof cases
      case 1
      then show ?thesis using eq ok y by auto
    next
      case 2
      then have tk: "take_free_nid s = (r, t)" using eq y by (auto simp: not_less split: if_splits)
      note sp = take_free_nid_spec [OF ok(2) tk]
      obtain n where n: "r = Some n" "n \<noteq> 0" "lookup_free_nid_list n s = Some NID_NEW"
        "\<And>m. lookup_free_nid_list m t = (if m = n then Some NID_ALLOC else lookup_free_nid_list m s)"
        using sp(3) [OF 2(2)] by (metis option.inject)
      have "free_safe L g t"
        using ok(3) unfolding free_safe_def same_nat_facts(2,4,7,10) [OF sp(1)] by (simp add: n(4))
      then show ?thesis using n sp(1,2) 2(1) ok(3) y by (simp add: free_safe_def)
    next
      case 3
      then have r: "f L g av vn (build_free_nids L g av s) = Some y" using eq by (auto simp: not_less split: if_splits)
      note b = build_free_nids_spec [OF ok refl, where av = av]
      note F = same_nat_facts [OF b(1)]
      show ?thesis
        using IH [OF r] ok b same_nat_trans [OF b(1)] unfolding F y by (auto split: option.splits)
    qed
  qed
  from this [OF assms(1)] show ?thesis using assms(2-4) by simp
qed

section \<open>When an allocation returns\<close>

lemma add_free_keeps: "lookup_free_nid_list m s = Some st \<Longrightarrow> lookup_free_nid_list m (snd (add_free_nid L av n b s)) = Some st"
  by (auto simp: add_free_nid_def lookup_free_nid_list_def map_add_def split: option.splits)

lemma scan_loop_keeps: "lookup_free_nid_list m s = Some st \<Longrightarrow>
    lookup_free_nid_list m (scan_nat_loop L av nat_blk k i nid s) = Some st"
proof (induction k arbitrary: i nid s)
  case (Suc k)
  then show ?case
    using add_free_keeps [of m "nm_bug_on (r_block_addr (nat_blk i) = new_addr L) s" st L av nid True]
    by (auto simp: Let_def split: prod.split)
qed simp

lemma scan_pages_keeps: "lookup_free_nid_list m s = Some st \<Longrightarrow>
    lookup_free_nid_list m (snd (scan_pages L g av k nid s)) = Some st"
  by (induction k arbitrary: nid s) (simp_all add: Let_def scan_nat_page_def scan_loop_keeps)

lemma scan_loop_adds:
  assumes "\<forall>s. av s"
  shows "unat nid \<le> unat m \<Longrightarrow> unat m < unat nid + k \<Longrightarrow> m < max_nid s \<Longrightarrow> m \<noteq> 0 \<Longrightarrow>
    r_block_addr (nat_blk (i + (unat m - unat nid))) = null_addr L \<Longrightarrow> not_in_use L s m \<Longrightarrow>
    lookup_free_nid_list m s \<noteq> Some NID_ALLOC \<Longrightarrow>
    lookup_free_nid_list m (scan_nat_loop L av nat_blk k i nid s) = Some NID_NEW"
proof (induction k arbitrary: i nid s)
  case (Suc k)
  have lt: "\<not> nid \<ge> max_nid s" using Suc.prems(1,3) by (simp add: word_le_nat_alt word_less_nat_alt)
  let ?s = "nm_bug_on (r_block_addr (nat_blk i) = new_addr L) s"
  obtain r t where a: "add_free_nid L av nid True ?s = (r, t)" by fastforce
  note sp = add_free_nid_spec [OF a]
  have r: "\<not> r < 0" using sp(5) assms by simp
  have same: "same_nat s t" using sp(1) same_nat_trans same_nat_upd(4) by blast
  show ?case
  proof (cases "m = nid")
    case True
    then have z: "r_block_addr (nat_blk i) = null_addr L" using Suc.prems(5) by simp
    have "not_in_use L ?s nid" using Suc.prems(6) True not_in_use_same [of s ?s] by simp
    then have "lookup_free_nid_list nid t = Some NID_NEW"
      using sp(2) [of nid] sp(6) True Suc.prems(4,7) assms by (cases "lookup_free_nid_list nid s"; cases "r = 1")
        (auto, metis nid_state.exhaust)
    then show ?thesis using True lt a r z scan_loop_keeps by (simp add: Let_def)
  next
    case False
    then have n: "unat nid < unat m" using Suc.prems(1) by (metis le_neq_implies_less word_unat_eq_iff)
    then have u: "unat (nid + 1) = unat nid + 1"
      using unsigned_less [of m, where ?'a = nat] by (subst unat_plus_small) simp_all
    have p: "unat (nid + 1) \<le> unat m" "unat m < unat (nid + 1) + k" "m < max_nid ?s" "m < max_nid t"
      "r_block_addr (nat_blk (Suc i + (unat m - unat (nid + 1)))) = null_addr L"
      "not_in_use L ?s m" "not_in_use L t m"
      using Suc.prems n u same_nat_facts(7) [OF same] not_in_use_same [of s ?s] not_in_use_same [OF same]
      by (simp_all add: Suc_diff_Suc)
    have "lookup_free_nid_list m t \<noteq> Some NID_ALLOC" using sp(2) [of m] False Suc.prems(7) by simp
    note IH1 = Suc.IH [OF p(1,2,4) Suc.prems(4) p(5,7) this]
    note IH2 = Suc.IH [OF p(1,2,3) Suc.prems(4) p(5,6)]
    have "scan_nat_loop L av nat_blk (Suc k) i nid s = (if r_block_addr (nat_blk i) = null_addr L
        then scan_nat_loop L av nat_blk k (Suc i) (nid + 1) t else scan_nat_loop L av nat_blk k (Suc i) (nid + 1) ?s)"
      unfolding scan_nat_loop.simps Let_def a using lt r by simp
    then show ?thesis using IH1 IH2 Suc.prems(7) by simp
  qed
qed simp

lemma scan_journal_keeps:
  "m \<notin> jkeys (nat_j (hot_sum s)) \<Longrightarrow> k \<le> jn (nat_j (hot_sum s)) \<Longrightarrow> free_nids_ok s \<Longrightarrow> jok (nat_j (hot_sum s)) \<Longrightarrow>
   lookup_free_nid_list m s = Some st \<Longrightarrow>
   lookup_free_nid_list m (fold (scan_journal_entry L av) [0..<k] s) = Some st"
proof (induction k)
  case (Suc k)
  let ?t = "fold (scan_journal_entry L av) [0..<k] s"
  have sp: "same_nat s ?t" "free_nids_ok ?t" using scan_journal_spec [OF Suc.prems(3,4) _ refl, of k L av] Suc.prems(2) by auto
  define t where "t = ?t"
  have k: "jkey (nat_j (hot_sum t)) k \<noteq> m" using Suc.prems(1,2) same_nat_facts(6) [OF sp(1)] by (auto simp: jkeys_def t_def)
  have l: "lookup_free_nid_list m t = Some st" using Suc by (simp add: t_def)
  have "lookup_free_nid_list m (scan_journal_entry L av k t) = Some st"
    using k l remove_free_nid_spec(3) [OF sp(2), folded t_def]
    by (auto simp: scan_journal_entry_def Let_def nid_in_journal_def nat_in_journal_def intro: add_free_keeps)
  then show ?case by (simp add: t_def)
qed simp

lemma alloc_nid_some:
  assumes "nat_ok L g s" "free_nids_ok s" "free_safe L g s" and av: "\<forall>s. av s"
    and m: "next_scan_nid s \<le> m" "NAT_BLOCK_OFFSET L m = NAT_BLOCK_OFFSET L (next_scan_nid s)" "m < max_nid s"
    and free: "r_block_addr (block_nat L g s m) = null_addr L" "not_in_use L s m"
      "m \<notin> jkeys (nat_j (hot_sum s))" "lookup_free_nid_list m s \<noteq> Some NID_ALLOC"
  shows "\<exists>r t. alloc_nid L g av vn s = Some (r, t)"
proof (cases "vn + 1 > available_nids s \<or> fcnt s \<noteq> 0")
  case True
  then show ?thesis by (subst alloc_nid.simps) (cases "take_free_nid s"; auto)
next
  case False
  let ?n = "next_scan_nid s"
  have e: "0 < nat_entry_per_block L" "seg_size_ok g" "jok (nat_j (hot_sum s))" using assms(1) by (simp_all add: nat_ok_def)
  define c where "c = nat_entry_per_block L"
  have c: "0 < c" using e by (simp add: c_def)
  have d: "unat m div c = unat ?n div c" using m(2) by (simp add: NAT_BLOCK_OFFSET_def c_def)
  have le: "unat ?n \<le> unat m" using m(1) by (simp add: word_le_nat_alt)
  define q x y where "q = unat m div c * c" and "x = unat m mod c" and "y = unat ?n mod c"
  have "unat m = q + x" "unat ?n = q + y" "x < c" "y < c"
    using c d div_mult_mod_eq [of "unat m" c] div_mult_mod_eq [of "unat ?n" c] by (simp_all add: q_def x_def y_def)
  then have "unat m < unat ?n + (c - y)" "y + (unat m - unat ?n) = x" using le by simp_all
  note lm = this [unfolded x_def y_def]
  have "m \<noteq> 0" using free(2) by (simp add: not_in_use_def)
  moreover have "r_block_addr (get_current_nat_page L g ?n s (unat ?n mod c + (unat m - unat ?n))) = null_addr L"
    using free(1) m(2) lm(2) e(2) by (simp add: get_current_nat_page_def block_nat_def c_def current_nat_addr_eq)
  ultimately have "lookup_free_nid_list m (scan_nat_page L av (get_current_nat_page L g ?n s) ?n s) = Some NID_NEW"
    unfolding scan_nat_page_def Let_def c_def [symmetric]
    using scan_loop_adds [OF av le lm(1) m(3)] free(2,4) by blast
  note first = scan_pages_keeps [OF this]
  have five: "FREE_NID_PAGES + 1 = Suc 4" by simp
  have u: "lookup_free_nid_list m (snd (scan_pages L g av (FREE_NID_PAGES + 1) ?n s)) = Some NID_NEW"
    unfolding five scan_pages.simps(2) Let_def by (rule first)
  define w where "w = scan_pages L g av (FREE_NID_PAGES + 1) ?n s"
  define v where "v = (snd w)\<lparr>next_scan_nid := fst w\<rparr>"
  have sc: "scanned L g s (snd w)" unfolding w_def by (rule scan_pages_scanned [OF scanned_refl e(2,1)])
  have "same_nat (snd w) v" by (simp add: v_def)
  then have sv: "same_nat s v" using sc same_nat_trans by (auto simp: scanned_def)
  have fv: "free_nids_ok v" using sc assms(2) by (simp add: v_def free_nids_ok_def scanned_def)
  have lv: "lookup_free_nid_list m v = Some NID_NEW" using u by (simp add: v_def w_def lookup_free_nid_list_def)
  note h = same_nat_facts(6) [OF sv]
  have b: "build_free_nids L g av s = fold (scan_journal_entry L av) [0..<jn (nat_j (hot_sum s))] v"
    using False unfolding build_free_nids_def case_prod_beta Let_def w_def [symmetric] v_def [symmetric]
    by (simp add: nats_in_cursum_def h)
  have "lookup_free_nid_list m (build_free_nids L g av s) = Some NID_NEW"
    unfolding b by (rule scan_journal_keeps) (use h fv lv e free(3) in simp_all)
  then have "filter (\<lambda>(n, st). st = NID_NEW) (free_nid_list (build_free_nids L g av s)) \<noteq> []"
    by (auto simp: lookup_free_nid_list_def filter_empty_conv dest!: map_of_SomeD)
  then have f: "fcnt (build_free_nids L g av s) \<noteq> 0"
    using build_free_nids_spec(2) [OF assms(1-3) refl, where av = av] by (auto simp: free_nids_ok_def)
  have "alloc_nid L g av vn s = alloc_nid L g av vn (build_free_nids L g av s)"
    using False by (subst alloc_nid.simps) simp
  also have "\<exists>r t. alloc_nid L g av vn (build_free_nids L g av s) = Some (r, t)"
    using f by (subst alloc_nid.simps) (cases "take_free_nid (build_free_nids L g av s)"; auto)
  finally show ?thesis .
qed


text \<open>
  C16: While the footprint check passes, \<open>alloc_nid\<close> returns as soon as one free node id is left in
  the NAT block it scans next: an id at or after \<open>next_scan_nid\<close> with the null address in the
  block, not in the cache as used, not in the journal and not handed out already.
\<close>
theorem alloc_nid_returns:
  assumes "nat_ok L g s" "free_nids_ok s" "free_safe L g s" and "\<forall>s. av s"
    and "next_scan_nid s \<le> m" "NAT_BLOCK_OFFSET L m = NAT_BLOCK_OFFSET L (next_scan_nid s)" "m < max_nid s"
    and "r_block_addr (block_nat L g s m) = null_addr L" "not_in_use L s m"
      "m \<notin> jkeys (nat_j (hot_sum s))" "lookup_free_nid_list m s \<noteq> Some NID_ALLOC"
  shows "\<exists>r t. alloc_nid L g av vn s = Some (r, t)"
  using assms by (rule alloc_nid_some)

text \<open>
  C15: A node id handed out by \<open>alloc_nid\<close> is free: not zero, its address is the null address both
  for the file system and for what a crash would leave, and it is not pending from an earlier call;
  from now on it is marked as handed out. The list stays consistent and the table unchanged, and the
  answer is \<open>false\<close> exactly when the node ids are used up.
\<close>
theorem alloc_nid_safe:
  assumes "alloc_nid L g av vn s = Some (r, t)" "nat_ok L g s" "free_nids_ok s" "free_safe L g s"
  shows "nat_ok L g t \<and> free_nids_ok t \<and> free_safe L g t \<and> nat_of L g t = nat_of L g s \<and>
    (case r of None \<Rightarrow> available_nids s < vn + 1
     | Some n \<Rightarrow> vn + 1 \<le> available_nids s \<and> n \<noteq> 0 \<and>
         r_block_addr (nat_of L g s n) = null_addr L \<and> r_block_addr (disk_nat L g s n) = null_addr L \<and>
         lookup_free_nid_list n s \<noteq> Some NID_ALLOC \<and> lookup_free_nid_list n t = Some NID_ALLOC)"
  using alloc_nid_correct [OF assms] assms(2) same_nat_facts(4,5) [of s t] by (auto split: option.splits)

lemma add_free_blocked: "\<not> av s \<Longrightarrow> add_free_nid L av n b s = (-1, s)"
  by (simp add: add_free_nid_def)

definition blocked :: "(f2fs_nm_info \<Rightarrow> bool) \<Rightarrow> nat \<Rightarrow> f2fs_nm_info \<Rightarrow> bool" where
  "blocked av T s \<longleftrightarrow> free_nid_list s = [] \<and> fcnt s = 0 \<and> ram_thresh s = T \<and> (\<forall>s'. ram_thresh s' = T \<longrightarrow> \<not> av s')"

lemma blocked_upd [simp]: "blocked av T (nm_bug_on c s) = blocked av T s" "blocked av T (s\<lparr>next_scan_nid := n\<rparr>) = blocked av T s"
  by (simp_all add: blocked_def nm_bug_on_def)

lemma add_blocked: "blocked av T s \<Longrightarrow> add_free_nid L av n b s = (-1, s)"
  by (simp add: blocked_def add_free_blocked)

lemma scan_blocked:
  "blocked av T s \<Longrightarrow> blocked av T (scan_nat_loop L av nat_blk k i nid s) \<and>
    available_nids (scan_nat_loop L av nat_blk k i nid s) = available_nids s"
proof (induction k arbitrary: i nid s)
  case (Suc k)
  have "available_nids (nm_bug_on c s) = available_nids s" for c by (simp add: nm_bug_on_def)
  then show ?case using Suc by (simp add: Let_def add_blocked [of av T])
qed simp

lemma scan_pages_blocked:
  "blocked av T s \<Longrightarrow> blocked av T (snd (scan_pages L g av k nid s)) \<and>
    available_nids (snd (scan_pages L g av k nid s)) = available_nids s"
  by (induction k arbitrary: nid s) (simp_all add: Let_def scan_nat_page_def scan_blocked)

lemma scan_journal_blocked:
  "blocked av T s \<Longrightarrow> fold (scan_journal_entry L av) is s = s"
proof (induction "is")
  case (Cons i "is")
  then have "scan_journal_entry L av i s = s"
    by (simp add: scan_journal_entry_def Let_def add_blocked [of av T]) (simp add: remove_free_nid_def blocked_def lookup_free_nid_list_def)
  then show ?case using Cons by simp
qed simp

lemma build_blocked:
  assumes "blocked av T s"
  shows "blocked av T (build_free_nids L g av s) \<and> available_nids (build_free_nids L g av s) = available_nids s"
proof -
  define w where "w = scan_pages L g av (FREE_NID_PAGES + 1) (next_scan_nid s) s"
  define v where "v = (snd w)\<lparr>next_scan_nid := fst w\<rparr>"
  have "blocked av T v" "available_nids v = available_nids s"
    using scan_pages_blocked [OF assms, of L g "FREE_NID_PAGES + 1" "next_scan_nid s"]
    unfolding v_def w_def [symmetric] by simp_all
  then show ?thesis
    using assms scan_journal_blocked [of av T v L]
    unfolding build_free_nids_def case_prod_beta Let_def w_def [symmetric] v_def [symmetric] by simp
qed

text \<open>
  With the list empty and the footprint check failing at the current threshold, \<open>alloc_nid\<close> does
  not return as long as the count of valid nodes leaves ids to allocate: every round finds nothing
  to add. The check for free ids fails even for the empty list when \<open>ram_thresh\<close>, which can be
  written through sysfs, is 0.
\<close>
theorem alloc_nid_spins:
  assumes "\<forall>s'. ram_thresh s' = ram_thresh s \<longrightarrow> \<not> av s'" and "free_nid_list s = []" and "fcnt s = 0"
    and "vn + 1 \<le> available_nids s"
  shows "alloc_nid L g av vn s = None"
proof -
  have "\<not> (blocked av T s \<and> vn + 1 \<le> available_nids s)"
    if "alloc_nid L g av vn s = Some y" for T s y
  proof (rule alloc_nid.raw_induct [OF _ that, of "\<lambda>L g av vn s y. \<not> (blocked av T s \<and> vn + 1 \<le> available_nids s)"], intro notI)
    fix f :: "layout \<Rightarrow> geom \<Rightarrow> (f2fs_nm_info \<Rightarrow> bool) \<Rightarrow> u32 \<Rightarrow> f2fs_nm_info \<Rightarrow> (u32 option \<times> f2fs_nm_info) option"
      and L g av vn s y
    assume IH: "\<And>L g av vn s y. f L g av vn s = Some y \<Longrightarrow> \<not> (blocked av T s \<and> vn + 1 \<le> available_nids s)"
      and eq: "(if vn + 1 > available_nids s then Some (None, s)
        else if fcnt s \<noteq> 0 then Some (take_free_nid s) else f L g av vn (build_free_nids L g av s)) = Some y"
      and h: "blocked av T s \<and> vn + 1 \<le> available_nids s"
    then have "f L g av vn (build_free_nids L g av s) = Some y" by (auto simp: not_less blocked_def split: if_splits)
    then show False using IH h build_blocked [of av T s L g] by fastforce
  qed
  moreover have "blocked av (ram_thresh s) s" using assms by (simp add: blocked_def)
  ultimately show ?thesis using assms(4) by (cases "alloc_nid L g av vn s") auto
qed

text \<open>
  An id handed out is given back or consumed: after \<open>alloc_nid\<close>, \<open>alloc_nid_failed\<close> (with the
  footprint check passing) makes it a new id again and restores the counter, and \<open>alloc_nid_done\<close>
  removes it; other ids are not touched, the list stays consistent and no check fires.
\<close>
theorem alloc_nid_lifecycle:
  assumes "free_nids_ok s" "lookup_free_nid_list n s = Some NID_ALLOC" "n \<noteq> 0"
  shows "free_nids_ok (alloc_nid_done n s) \<and> lookup_free_nid_list m (alloc_nid_done n s) =
        (if m = n then None else lookup_free_nid_list m s) \<and> fcnt (alloc_nid_done n s) = fcnt s \<and>
      free_nids_ok (alloc_nid_failed av n s) \<and> lookup_free_nid_list m (alloc_nid_failed av n s) =
        (if m = n then if av s then Some NID_NEW else None else lookup_free_nid_list m s) \<and>
      fcnt (alloc_nid_failed av n s) = (if av s then fcnt s + 1 else fcnt s) \<and>
      nm_bug (alloc_nid_done n s) = nm_bug s \<and> nm_bug (alloc_nid_failed av n s) = nm_bug s"
proof -
  have d: "distinct (map fst (free_nid_list s))" "0 \<notin> fst ` set (free_nid_list s)"
    using assms(1) by (simp_all add: free_nids_ok_def)
  have b: "nm_bug_on False s = s" by (simp add: nm_bug_on_def)
  have m: "map_of (free_nid_list s) n = Some NID_ALLOC" using assms(2) by (simp add: lookup_free_nid_list_def)
  have "0 \<notin> fst ` set (AList.delete n (free_nid_list s))"
    using d(2) dom_delete_subset [of n "free_nid_list s"] by blast
  then have del: "free_nids_ok (del_from_free_nid_list n s)" "lookup_free_nid_list m (del_from_free_nid_list n s) =
      (if m = n then None else lookup_free_nid_list m s)" "fcnt (del_from_free_nid_list n s) = fcnt s"
    "nm_bug (del_from_free_nid_list n s) = nm_bug s"
    using assms(1) m d by (simp_all add: free_nids_ok_def del_from_free_nid_list_def distinct_delete new_count_delete
        lookup_free_nid_list_def delete_conv' del: map_of_eq_Some_iff)
  let ?t = "s\<lparr>free_nid_list := AList.map_entry n (\<lambda>_. NID_NEW) (free_nid_list s), fcnt := fcnt s + 1\<rparr>"
  have bk: "free_nids_ok ?t" "lookup_free_nid_list m ?t = (if m = n then Some NID_NEW else lookup_free_nid_list m s)"
    using assms(1) m by (simp_all add: free_nids_ok_def new_count_map_entry [OF d(1)] AList.dom_map_entry
        lookup_free_nid_list_def map_of_map_entry del: map_of_eq_Some_iff)
  show ?thesis
    using del bk assms(2,3) by (simp add: alloc_nid_done_def alloc_nid_failed_def b)
qed

section \<open>An example\<close>

lemma sample_nids_ok: "free_nids_ok sample_nm" "free_safe small_layout small_geom sample_nm"
proof -
  show "free_nids_ok sample_nm" by (simp add: free_nids_ok_def sample_nm_def)
  show "free_safe small_layout small_geom sample_nm"
    using sample_nid_ok by (simp add: free_safe_def word_less_nat_alt) (simp add: sample_nm_def lookup_free_nid_list_def)
qed

lemma sample_one: "next_scan_nid sample_nm \<le> 1" "NAT_BLOCK_OFFSET small_layout 1 = NAT_BLOCK_OFFSET small_layout (next_scan_nid sample_nm)"
  "1 < max_nid sample_nm" "r_block_addr (block_nat small_layout small_geom sample_nm 1) = null_addr small_layout"
  "not_in_use small_layout sample_nm 1" "1 \<notin> jkeys (nat_j (hot_sum sample_nm))"
  "lookup_free_nid_list 1 sample_nm \<noteq> Some NID_ALLOC"
  by (auto simp: sample_nm_def NAT_BLOCK_OFFSET_def small_layout_def not_in_use_def lookup_nat_cache_def
    lookup_free_nid_list_def block_nat_def jkeys_def)

lemma always: "\<forall>s. (\<lambda>_. True) s" by simp

theorem alloc_nid_returns_witness:
  "\<exists>r t. alloc_nid small_layout small_geom (\<lambda>_. True) 10 sample_nm = Some (r, t)"
  by (rule alloc_nid_returns [OF sample_nm_ok sample_nids_ok always sample_one])

theorem alloc_nid_safe_witness:
  "\<exists>n t. alloc_nid small_layout small_geom (\<lambda>_. True) 10 sample_nm = Some (Some n, t) \<and>
     n \<noteq> 0 \<and> r_block_addr (nat_of small_layout small_geom sample_nm n) = 0"
proof -
  have "\<exists>r t. alloc_nid small_layout small_geom (\<lambda>_. True) 10 sample_nm = Some (r, t)"
    by (rule alloc_nid_some [OF sample_nm_ok sample_nids_ok always sample_one])
  then obtain r t where r: "alloc_nid small_layout small_geom (\<lambda>_. True) 10 sample_nm = Some (r, t)" by blast
  note safe = alloc_nid_safe [OF r sample_nm_ok sample_nids_ok]
  have "available_nids sample_nm = 61" by (simp add: sample_nm_def)
  then obtain n where "r = Some n" using safe by (cases r) auto
  then show ?thesis using safe r by (auto simp: small_layout_def)
qed

theorem alloc_nid_spins_witness:
  "alloc_nid small_layout small_geom
     (available_free_memory \<lparr>totalram = 1000000, totalhigh = 0, page_shift = 12, sz_free_nid = 24, sz_nat_entry = 40,
        sz_ino_entry = 24, sz_extent_tree = 80, sz_extent_node = 60, dirty_exceeded = False, dirty_dents = 0,
        ino_num = (\<lambda>_. 0), ext_trees = 0, ext_nodes = 0\<rparr> FREE_NIDS) 10 (sample_nm\<lparr>ram_thresh := 0\<rparr>) = None"
  by (rule alloc_nid_spins) (simp_all add: available_free_memory_def sample_nm_def)

theorem alloc_nid_lifecycle_witness:
  "free_nids_ok (alloc_nid_failed (\<lambda>_. True) 7 (sample_nm\<lparr>free_nid_list := [(7, NID_ALLOC)]\<rparr>)) \<and>
   fcnt (alloc_nid_failed (\<lambda>_. True) 7 (sample_nm\<lparr>free_nid_list := [(7, NID_ALLOC)]\<rparr>)) = 1"
proof -
  let ?s = "sample_nm\<lparr>free_nid_list := [(7, NID_ALLOC)]\<rparr>"
  have s: "free_nids_ok ?s" "lookup_free_nid_list 7 ?s = Some NID_ALLOC" "(7 :: u32) \<noteq> 0"
    by (simp_all add: free_nids_ok_def lookup_free_nid_list_def sample_nm_def)
  show ?thesis using alloc_nid_lifecycle [OF s, of 7 "\<lambda>_. True"] by (simp add: sample_nm_def)
qed

end
