(* ===== verification/Nat_Flush.thy ===== *)
theory Nat_Flush
  imports Free_Nid
begin

text \<open>
  Writing the dirty entries of the node address table back at a checkpoint (\<open>flush_nat_entries\<close>,
  node.c): to the journal while it has room, else to the other copy of their NAT blocks.
\<close>

section \<open>The operations\<close>

definition remove_nat_of_journal :: "layout \<Rightarrow> nat \<Rightarrow> f2fs_nm_info \<Rightarrow> f2fs_nm_info" where
  "remove_nat_of_journal L i s =
     (let nid = nid_in_journal (hot_sum s) i;
          raw_ne = nat_in_journal (hot_sum s) i;
          s = (case lookup_nat_cache nid s of
                 None \<Rightarrow> upd_nat nid (node_info_from_raw_nat raw_ne) (grab_nat_entry nid s)
               | Some _ \<Rightarrow> s)
      in set_nat_cache_dirty L nid s)"

definition remove_nats_in_journal :: "layout \<Rightarrow> f2fs_nm_info \<Rightarrow> f2fs_nm_info" where
  "remove_nats_in_journal L s =
     (let n = nats_in_cursum (hot_sum s);
          s = fold (remove_nat_of_journal L) [0..<n] s
      in s\<lparr>hot_sum := snd (update_nats_in_cursum (- int n) (hot_sum s))\<rparr>)"

text \<open>
  The list of sets to flush, by number: a set is put before the first one that has at least as
  many entries, a set that does not fit into the journal at the end.
\<close>

fun insert_before :: "(nat \<Rightarrow> int) \<Rightarrow> nat \<Rightarrow> nat list \<Rightarrow> nat list" where
  "insert_before cnt nes [] = [nes]"
| "insert_before cnt nes (cur # rest) =
     (if cnt cur \<ge> cnt nes then nes # cur # rest else cur # insert_before cnt nes rest)"

definition adjust_nat_entry_set :: "(nat \<Rightarrow> int) \<Rightarrow> int \<Rightarrow> nat \<Rightarrow> nat list \<Rightarrow> nat list" where
  "adjust_nat_entry_set cnt mx nes head =
     (if cnt nes \<ge> mx then head @ [nes] else insert_before cnt nes head)"

definition set_cnt :: "f2fs_nm_info \<Rightarrow> nat \<Rightarrow> int" where
  "set_cnt s k = (case map_of (nat_set_root s) k of None \<Rightarrow> 0 | Some h \<Rightarrow> entry_cnt h)"

text \<open>
  One entry of a set: where it goes is None for the journal and the address of the NAT block
  otherwise.
\<close>

definition flush_nat_entry ::
  "layout \<Rightarrow> (f2fs_nm_info \<Rightarrow> bool) \<Rightarrow> nat option \<Rightarrow> nat \<Rightarrow> u32 \<Rightarrow> f2fs_nm_info \<Rightarrow> f2fs_nm_info" where
  "flush_nat_entry L av page start_nid nid s =
     (case lookup_nat_cache nid s of None \<Rightarrow> s
      | Some ne \<Rightarrow>
          if ni_blk_addr ne = new_addr L then s
          else let raw_ne = raw_nat_from_node_info ne;
                   s = (case page of
                          None \<Rightarrow>
                            (let (offset, sm) = lookup_journal_in_cursum L (hot_sum s) NAT_JOURNAL nid True
                             in case offset of None \<Rightarrow> nm_bug_on True s
                                | Some i \<Rightarrow> s\<lparr>hot_sum := sm\<lparr>nat_j := (nat_j sm)
                                    \<lparr>jkey := (jkey (nat_j sm))(i := nid), jent := (jent (nat_j sm))(i := raw_ne)\<rparr>\<rparr>\<rparr>)
                        | Some a \<Rightarrow>
                            s\<lparr>nat_pages := (nat_pages s)(a := (nat_pages s a)(unat nid - start_nid := raw_ne))\<rparr>);
                   s = clear_nat_cache_dirty L nid (upd_nat nid nat_reset_flag s)
               in if ni_blk_addr ne = null_addr L then snd (add_free_nid L av nid False s) else s)"

definition flush_nat_entry_set ::
  "layout \<Rightarrow> geom \<Rightarrow> (f2fs_nm_info \<Rightarrow> bool) \<Rightarrow> nat \<Rightarrow> f2fs_nm_info \<Rightarrow> f2fs_nm_info" where
  "flush_nat_entry_set L g av set_no s =
     (let start_nid = set_no * nat_entry_per_block L;
          to_journal = has_cursum_space L (hot_sum s) (nat (set_cnt s set_no)) NAT_JOURNAL;
          (page, s) = (if to_journal then (None, s)
                       else let (a, s) = get_next_nat_page L g (of_nat start_nid) s in (Some a, s));
          s = fold (flush_nat_entry L av page start_nid)
                (case map_of (nat_set_root s) set_no of None \<Rightarrow> [] | Some h \<Rightarrow> entry_list h) s;
          s = nm_bug_on (set_cnt s set_no \<noteq> 0) s
      in s\<lparr>nat_set_root := AList.delete set_no (nat_set_root s)\<rparr>)"

definition flush_nat_entries ::
  "layout \<Rightarrow> geom \<Rightarrow> (f2fs_nm_info \<Rightarrow> bool) \<Rightarrow> f2fs_nm_info \<Rightarrow> f2fs_nm_info" where
  "flush_nat_entries L g av s =
     (if dirty_nat_cnt s = 0 then s
      else let s = (if \<not> has_cursum_space L (hot_sum s) (nat (dirty_nat_cnt s)) NAT_JOURNAL
                    then remove_nats_in_journal L s else s);
               sets = fold (adjust_nat_entry_set (set_cnt s) (int (MAX_NAT_JENTRIES L (hot_sum s))))
                        (sort (map fst (nat_set_root s))) [];
               s = fold (flush_nat_entry_set L g av) sets s
           in nm_bug_on (dirty_nat_cnt s \<noteq> 0) s)"

section \<open>Cleaning an entry\<close>

lemma clear_flag_same: "\<not> get_nat_flag f e \<Longrightarrow> set_nat_flag f False e = e"
proof -
  assume "\<not> get_nat_flag f e"
  then have "ni_flag e AND NOT (push_bit (nat_flag_no f) 1) = ni_flag e"
    by (auto simp: word_eq_bits bit_and_iff bit_not_iff get_nat_flag_bit bit_flag_mask simp del: push_bit_of_1
        dest: bit_imp_le_length)
  then show ?thesis by (simp add: set_nat_flag_def)
qed

lemma set_of_dirty:
  assumes "nat_cache_ok L s" "nat_dirty s n"
  obtains h where "map_of (nat_set_root s) (NAT_BLOCK_OFFSET L n) = Some h" "set_ok L s (NAT_BLOCK_OFFSET L n) h"
    "n \<in> set (entry_list h)"
proof -
  obtain h where h: "map_of (nat_set_root s) (NAT_BLOCK_OFFSET L n) = Some h"
    using assms by (auto simp: nat_cache_ok_def)
  moreover have "set_ok L s (NAT_BLOCK_OFFSET L n) h" using assms(1) h by (simp add: nat_cache_ok_def)
  ultimately show ?thesis using that assms(2) by (simp add: set_ok_def)
qed

lemma clear_dirty_spec:
  assumes ok: "nat_cache_ok L s" and d: "nat_dirty s n"
  defines "t \<equiv> clear_nat_cache_dirty L n s"
  shows "nat_cache_ok L t"
    and "lookup_nat_cache m t = (if m = n then map_option (set_nat_flag IS_DIRTY False) (lookup_nat_cache n s) else lookup_nat_cache m s)"
    and "nat_dirty t m \<longleftrightarrow> nat_dirty s m \<and> m \<noteq> n"
    and "map fst (nat_set_root t) = map fst (nat_set_root s)"
proof -
  let ?k = "NAT_BLOCK_OFFSET L n"
  obtain h where h: "map_of (nat_set_root s) ?k = Some h" "set_ok L s ?k h" "n \<in> set (entry_list h)"
    using set_of_dirty [OF ok d] by blast
  define h' where "h' = h\<lparr>entry_list := removeAll n (entry_list h), entry_cnt := entry_cnt h - 1\<rparr>"
  have f: "nat_set_root t = AList.update ?k h' (nat_set_root s)" "nat_entries t = nat_entries s @ [n]"
    "nat_cnt t = nat_cnt s" "dirty_nat_cnt t = dirty_nat_cnt s - 1" "map fst (nat_root t) = map fst (nat_root s)"
    "length (nat_root t) = length (nat_root s)"
    using h(1) by (simp_all add: t_def clear_nat_cache_dirty_def Let_def upd_nat_def h'_def)
  show l: "lookup_nat_cache m t = (if m = n then map_option (set_nat_flag IS_DIRTY False) (lookup_nat_cache n s) else lookup_nat_cache m s)" for m
    using h(1) by (simp add: t_def clear_nat_cache_dirty_def Let_def upd_nat_def lookup_nat_cache_def map_of_map_entry split: option.split)
  show dd: "nat_dirty t m \<longleftrightarrow> nat_dirty s m \<and> m \<noteq> n" for m
    by (auto simp: nat_dirty_def l)
  have "?k \<in> fst ` set (nat_set_root s)" using h(1) by (rule map_of_in_keys)
  then show keys: "map fst (nat_set_root t) = map fst (nat_set_root s)"
    by (simp add: f update_keys)
  have hl: "distinct (entry_list h)" "entry_cnt h = int (length (entry_list h))"
    "m \<in> set (entry_list h) \<longleftrightarrow> NAT_BLOCK_OFFSET L m = ?k \<and> nat_dirty s m" for m
    using h(2) by (simp_all add: set_ok_def)
  have "0 < length (entry_list h)" using h(3) by (cases "entry_list h") auto
  then have "int (length (removeAll n (entry_list h))) = int (length (entry_list h)) - 1"
    using hl(1) h(3) by (simp add: distinct_remove1_removeAll [symmetric] length_remove1 del: length_greater_0_conv)
  then have s1: "set_ok L t ?k h'"
    using hl unfolding set_ok_def dd h'_def by (auto simp: distinct_removeAll)
  have s2: "set_ok L t k h0" if "map_of (nat_set_root s) k = Some h0" "k \<noteq> ?k" for k h0
  proof -
    have "set_ok L s k h0" using ok that by (simp add: nat_cache_ok_def)
    then show ?thesis using that(2) unfolding set_ok_def dd by auto
  qed
  have sets: "\<forall>k h0. map_of (nat_set_root t) k = Some h0 \<longrightarrow> set_ok L t k h0"
    using s1 s2 by (simp add: f(1) update_conv')
  have "{m. nat_dirty t m} = {m. nat_dirty s m} - {n}" by (auto simp: dd)
  then have c: "int (card {m. nat_dirty t m}) = int (card {m. nat_dirty s m}) - 1"
    using d card.remove [of "{m. nat_dirty s m}" n] by simp
  have e: "set (nat_entries t) = {m. lookup_nat_cache m t \<noteq> None \<and> \<not> nat_dirty t m}"
    using ok d unfolding f dd l by (auto simp: nat_cache_ok_def nat_dirty_def)
  have n: "\<forall>m e. lookup_nat_cache m t = Some e \<longrightarrow> ni_nid e = m"
    using ok by (auto simp: nat_cache_ok_def l)
  have x: "\<forall>m. nat_dirty t m \<longrightarrow> map_of (nat_set_root t) (NAT_BLOCK_OFFSET L m) \<noteq> None"
    using ok unfolding dd f by (auto simp: nat_cache_ok_def update_conv')
  have nin: "n \<notin> set (nat_entries s)" using ok d by (auto simp: nat_cache_ok_def)
  have o: "distinct (map fst (nat_root s))" "distinct (map fst (nat_set_root s))" "distinct (nat_entries s)"
    "nat_cnt s = int (length (nat_root s))" "dirty_nat_cnt s = int (card {m. nat_dirty s m})"
    using ok by (simp_all add: nat_cache_ok_def)
  have "distinct (map fst (nat_root t))" "distinct (map fst (nat_set_root t))" "distinct (nat_entries t)"
    "nat_cnt t = int (length (nat_root t))" "dirty_nat_cnt t = int (card {m. nat_dirty t m})"
    unfolding c using o nin by (simp_all add: f distinct_update)
  with sets e n x show "nat_cache_ok L t" unfolding nat_cache_ok_def by blast
qed

lemma clear_disk [simp]:
  "disk_nat L g (clear_nat_cache_dirty L n s) = disk_nat L g s" "nid_ok L (clear_nat_cache_dirty L n s) m = nid_ok L s m"
  by (rule disk_nat_cong; simp add: clear_nat_cache_dirty_def Let_def upd_nat_def split: option.split)+


section \<open>One entry\<close>

text \<open>The write of an entry: into the journal or into the current copy of its block.\<close>

definition nat_written :: "nat option \<Rightarrow> u32 \<Rightarrow> raw_nat_entry \<Rightarrow> nat \<Rightarrow> f2fs_nm_info \<Rightarrow> f2fs_nm_info" where
  "nat_written page n raw i s = (case page of
      None \<Rightarrow> s\<lparr>hot_sum := (hot_sum s)\<lparr>nat_j := jput n raw (nat_j (hot_sum s))\<rparr>\<rparr>
    | Some a \<Rightarrow> s\<lparr>nat_pages := (nat_pages s)(a := (nat_pages s a)(i := raw))\<rparr>)"

definition can_write :: "layout \<Rightarrow> geom \<Rightarrow> nat option \<Rightarrow> u32 \<Rightarrow> f2fs_nm_info \<Rightarrow> bool" where
  "can_write L g page n s \<longleftrightarrow> (case page of
      None \<Rightarrow> n \<in> jkeys (nat_j (hot_sum s)) \<or> jn (nat_j (hot_sum s)) < nat_journal_entries L
    | Some a \<Rightarrow> a = nat_cur g (NAT_BLOCK_OFFSET L n) s \<and> n \<notin> jkeys (nat_j (hot_sum s)))"

lemma written_disk:
  assumes "can_write L g page n s" "seg_size_ok g" "jok (nat_j (hot_sum s))" "nid_ok L s n"
    "i = unat n mod nat_entry_per_block L"
  shows "nid_ok L s m \<Longrightarrow> disk_nat L g (nat_written page n raw i s) m = (if m = n then raw else disk_nat L g s m)"
proof -
  assume m: "nid_ok L s m"
  show ?thesis
  proof (cases page)
    case None
    then have "block_nat L g (nat_written page n raw i s) = block_nat L g s"
      by (simp add: nat_written_def block_nat_def current_nat_addr_def fun_eq_iff)
    then show ?thesis using None assms(3) by (simp add: disk_nat_def nat_written_def over_jput)
  next
    case (Some a)
    have a: "a = nat_cur g (NAT_BLOCK_OFFSET L n) s" "n \<notin> jkeys (nat_j (hot_sum s))"
      using assms(1) Some by (simp_all add: can_write_def)
    have cur: "nat_cur g b (nat_written page n raw i s) = nat_cur g b s" for b
      using Some by (simp add: nat_written_def nat_cur_def nat_copy_def)
    have pg: "nat_pages (nat_written page n raw i s) = (nat_pages s)(a := (nat_pages s a)(i := raw))"
      using Some by (simp add: nat_written_def)
    have "block_nat L g (nat_written page n raw i s) m = (if m = n then raw else block_nat L g s m)"
    proof (cases "NAT_BLOCK_OFFSET L m = NAT_BLOCK_OFFSET L n")
      case True
      have "unat m mod nat_entry_per_block L = unat n mod nat_entry_per_block L \<longleftrightarrow> m = n"
        using True by (metis NAT_BLOCK_OFFSET_def div_mult_mod_eq word_unat_eq_iff)
      then show ?thesis
        using True a(1) Some assms(2,5) unfolding block_nat_def current_nat_addr_eq [OF assms(2)] cur pg by simp
    next
      case False
      then have "nat_cur g (NAT_BLOCK_OFFSET L m) s \<noteq> a"
        using nat_shadow.cur_apart [OF assms(2)] m assms(4) a(1) by (auto simp: nid_ok_def)
      then show ?thesis
        using False unfolding block_nat_def current_nat_addr_eq [OF assms(2)] cur pg by auto
    qed
    then show ?thesis using Some a(2) jlook_None [of "nat_j (hot_sum s)" n]
      by (auto simp: disk_nat_def over_def nat_written_def split: option.split)
  qed
qed

text \<open>
  While the journal is emptied the device may still hold an old address for a free id, so during a
  flush new ids are free in the table only.
\<close>

definition free_now :: "layout \<Rightarrow> geom \<Rightarrow> f2fs_nm_info \<Rightarrow> bool" where
  "free_now L g s \<longleftrightarrow> (\<forall>n<max_nid s. nid_ok L s n) \<and>
     (\<forall>n. lookup_free_nid_list n s = Some NID_NEW \<longrightarrow> nid_ok L s n \<and> r_block_addr (nat_of L g s n) = null_addr L)"

text \<open>What one entry changes: \<open>s\<close> before, \<open>t\<close> after.\<close>

definition entry_flushed :: "layout \<Rightarrow> geom \<Rightarrow> nat option \<Rightarrow> u32 \<Rightarrow> f2fs_nm_info \<Rightarrow> f2fs_nm_info \<Rightarrow> bool" where
  "entry_flushed L g page n s t \<longleftrightarrow> nat_ok L g t \<and> free_nids_ok t \<and> free_now L g t \<and>
     (\<forall>m. nid_ok L s m \<longrightarrow> nat_of L g t m = nat_of L g s m) \<and> (\<forall>m. nat_dirty t m \<longleftrightarrow> nat_dirty s m \<and> m \<noteq> n) \<and>
     nm_bug t = nm_bug s \<and> nat_bitmap t = nat_bitmap s \<and> nat_blkaddr t = nat_blkaddr s \<and>
     (\<forall>b. page \<noteq> Some b \<longrightarrow> nat_pages t b = nat_pages s b) \<and>
     map fst (nat_set_root t) = map fst (nat_set_root s) \<and>
     jkeys (nat_j (hot_sum t)) = (if page = None then insert n (jkeys (nat_j (hot_sum s))) else jkeys (nat_j (hot_sum s))) \<and>
     jn (nat_j (hot_sum t)) \<le> jn (nat_j (hot_sum s)) + (if page = None then 1 else 0)"


lemma upd_reset_ok:
  assumes "nat_cache_ok L s"
  shows "nat_cache_ok L (upd_nat n nat_reset_flag s)" and "nat_dirty (upd_nat n nat_reset_flag s) = nat_dirty s"
  using assms upd_cache_ok [of L s n nat_reset_flag] nat_dirty_upd [of nat_reset_flag n s] by simp_all

lemma written_frame:
  "lookup_nat_cache m (nat_written page n raw i s) = lookup_nat_cache m s"
  "nat_cache_ok L (nat_written page n raw i s) = nat_cache_ok L s"
  "nat_dirty (nat_written page n raw i s) = nat_dirty s"
  "nid_ok L (nat_written page n raw i s) m = nid_ok L s m"
  "nm_bug (nat_written page n raw i s) = nm_bug s" "nat_bitmap (nat_written page n raw i s) = nat_bitmap s"
  "nat_blkaddr (nat_written page n raw i s) = nat_blkaddr s" "nat_set_root (nat_written page n raw i s) = nat_set_root s"
  "max_nid (nat_written page n raw i s) = max_nid s"
  "free_nid_list (nat_written page n raw i s) = free_nid_list s" "fcnt (nat_written page n raw i s) = fcnt s"
proof -
  have l: "lookup_nat_cache m (nat_written page n raw i s) = lookup_nat_cache m s" for m
    by (simp add: nat_written_def lookup_nat_cache_def split: option.split)
  have d: "nat_dirty (nat_written page n raw i s) = nat_dirty s" by (simp add: nat_dirty_def l fun_eq_iff)
  show "nat_cache_ok L (nat_written page n raw i s) = nat_cache_ok L s"
    unfolding nat_cache_ok_def set_ok_def l d by (simp add: nat_written_def split: option.split)
  show "lookup_nat_cache m (nat_written page n raw i s) = lookup_nat_cache m s"
    "nat_dirty (nat_written page n raw i s) = nat_dirty s" by (rule l, rule d)
qed (simp_all add: nat_written_def nid_ok_def split: option.split)

lemma clear_frame:
  "nm_bug (clear_nat_cache_dirty L n s) = nm_bug s" "nat_bitmap (clear_nat_cache_dirty L n s) = nat_bitmap s"
  "nat_blkaddr (clear_nat_cache_dirty L n s) = nat_blkaddr s" "hot_sum (clear_nat_cache_dirty L n s) = hot_sum s"
  "nat_pages (clear_nat_cache_dirty L n s) = nat_pages s" "max_nid (clear_nat_cache_dirty L n s) = max_nid s"
  "free_nid_list (clear_nat_cache_dirty L n s) = free_nid_list s" "fcnt (clear_nat_cache_dirty L n s) = fcnt s"
  by (simp_all add: clear_nat_cache_dirty_def Let_def upd_nat_def split: option.split)

lemma upd_frame:
  "nm_bug (upd_nat n f s) = nm_bug s" "nat_bitmap (upd_nat n f s) = nat_bitmap s"
  "nat_blkaddr (upd_nat n f s) = nat_blkaddr s" "nat_pages (upd_nat n f s) = nat_pages s"
  "free_nid_list (upd_nat n f s) = free_nid_list s" "fcnt (upd_nat n f s) = fcnt s" "nat_set_root (upd_nat n f s) = nat_set_root s"
  "max_nid (upd_nat n f s) = max_nid s"
  by (simp_all add: upd_nat_def)

lemma written_flushed:
  assumes ok: "nat_ok L g s" and d: "nat_dirty s n" and w: "can_write L g page n s"
    and e: "lookup_nat_cache n s = Some ne" and raw: "raw = raw_nat_from_node_info ne" and fr: "free_nids_ok s" "free_now L g s"
    and i: "i = unat n mod nat_entry_per_block L"
    and t: "t = clear_nat_cache_dirty L n (upd_nat n nat_reset_flag (nat_written page n raw i s))"
  shows "entry_flushed L g page n s t" and "disk_nat L g t n = raw" and "nat_of L g t n = raw"
proof -
  define w where "w = nat_written page n raw i s"
  define u where "u = upd_nat n nat_reset_flag w"
  have c: "nat_cache_ok L s" and g: "seg_size_ok g" and j: "jok (nat_j (hot_sum s))" and epb: "0 < nat_entry_per_block L"
    and nid: "nid_ok L s n"
    using ok e by (simp_all add: nat_ok_def)
  have uc: "nat_cache_ok L u" "nat_dirty u = nat_dirty s"
    using upd_reset_ok [of L w n] c by (simp_all add: u_def w_def written_frame)
  note cl = clear_dirty_spec [OF uc(1), of n, unfolded uc(2), OF d]
  have tt: "t = clear_nat_cache_dirty L n u" by (simp add: t u_def w_def)
  have lt: "lookup_nat_cache m t = (if m = n then Some (set_nat_flag IS_DIRTY False (nat_reset_flag ne)) else lookup_nat_cache m s)" for m
    using e by (simp add: tt cl(2)) (simp add: u_def w_def written_frame)
  have dt: "disk_nat L g t m = (if m = n then raw else disk_nat L g s m)" if "nid_ok L s m" for m
    using written_disk [OF w g j nid i that] by (simp add: tt u_def w_def)
  have nt: "nid_ok L t m = nid_ok L s m" for m by (simp add: tt u_def w_def written_frame)
  have rn: "raw_nat_from_node_info (set_nat_flag IS_DIRTY False (nat_reset_flag ne)) = raw"
    by (simp add: raw raw_nat_from_node_info_def)
  show "disk_nat L g t n = raw" using dt [OF nid] by simp
  show "nat_of L g t n = raw" by (simp add: nat_of_def lt rn)
  have no: "nat_of L g t m = nat_of L g s m" if "nid_ok L s m" for m
    using dt [OF that] e by (auto simp: nat_of_def lt rn raw split: option.split)
  have hs: "hot_sum t = hot_sum w" by (simp add: tt u_def clear_frame)
  have jt: "jok (nat_j (hot_sum w)) \<and> jn (nat_j (hot_sum w)) \<le> nat_journal_entries L \<and>
      jkeys (nat_j (hot_sum w)) = (if page = None then insert n (jkeys (nat_j (hot_sum s))) else jkeys (nat_j (hot_sum s))) \<and>
      jn (nat_j (hot_sum w)) \<le> jn (nat_j (hot_sum s)) + (if page = None then 1 else 0)"
    using ok w j by (cases page) (auto simp: w_def nat_written_def nat_ok_def can_write_def jput_keys jput_jok jput_jn)
  have nok: "nat_ok L g t"
    unfolding nat_ok_def hs nt
  proof (intro conjI allI ballI impI)
    show "nat_cache_ok L t" unfolding tt by (rule cl(1))
    show "jok (nat_j (hot_sum w))" "jn (nat_j (hot_sum w)) \<le> nat_journal_entries L" using jt by simp_all
    show "nid_ok L s m" if "m \<in> jkeys (nat_j (hot_sum w))" for m
      using that jt nid ok by (auto simp: nat_ok_def split: if_splits)
    fix m ee assume l: "lookup_nat_cache m t = Some ee"
    show nm: "nid_ok L s m" using l nid ok by (auto simp: lt nat_ok_def split: if_splits)
    show "get_nat_flag IS_DIRTY ee \<or> raw_nat_from_node_info ee = disk_nat L g t m"
      using l ok dt [OF nm] rn by (auto simp: lt nat_ok_def split: if_splits)
  qed (use g epb in simp_all)
  have ft: "free_nid_list t = free_nid_list s" "fcnt t = fcnt s"
    by (simp_all add: tt u_def w_def clear_frame upd_frame written_frame)
  then have lf: "lookup_free_nid_list m t = lookup_free_nid_list m s" for m by (simp add: lookup_free_nid_list_def)
  have mt: "max_nid t = max_nid s"
    by (simp add: tt u_def w_def clear_frame upd_frame written_frame)
  have nn: "raw = nat_of L g s n" using e raw by (simp add: nat_of_def)
  have "free_now L g t"
    unfolding free_now_def lf mt nt
  proof (intro conjI allI impI)
    show "nid_ok L s m" if "m < max_nid s" for m using fr(2) that by (simp add: free_now_def)
    fix m assume "lookup_free_nid_list m s = Some NID_NEW"
    then have m: "nid_ok L s m" "r_block_addr (nat_of L g s m) = null_addr L"
      using fr(2) by (auto simp: free_now_def)
    show "nid_ok L s m" by (rule m)
    show "r_block_addr (nat_of L g t m) = null_addr L" using no [OF m(1)] m(2) by simp
  qed
  moreover have "free_nids_ok t" using fr(1) by (simp add: free_nids_ok_def ft)
  moreover have "nat_pages t b = nat_pages s b" if "page \<noteq> Some b" for b
    using that by (cases page) (simp_all add: tt u_def w_def clear_frame upd_frame nat_written_def)
  ultimately show "entry_flushed L g page n s t"
    using nok no jt cl(3,4) by (simp add: entry_flushed_def hs tt clear_frame u_def upd_frame w_def written_frame)
qed

lemma flush_nat_entry_spec:
  assumes ok: "nat_ok L g s" and d: "nat_dirty s n" and w: "can_write L g page n s"
    and fr: "free_nids_ok s" "free_now L g s" and na: "r_block_addr (nat_of L g s n) \<noteq> new_addr L"
    and i: "page \<noteq> None \<Longrightarrow> start = START_NID L n"
  shows "entry_flushed L g page n s (flush_nat_entry L av page start n s)"
proof -
  obtain ne where e: "lookup_nat_cache n s = Some ne" using d by (auto simp: nat_dirty_def)
  define raw where "raw = raw_nat_from_node_info ne"
  have nn: "nat_of L g s n = raw" using e by (simp add: nat_of_def raw_def)
  then have blk: "ni_blk_addr ne = r_block_addr raw" by (simp add: raw_def raw_nat_from_node_info_def)
  define ix where "ix = unat n mod nat_entry_per_block L"
  have six: "page \<noteq> None \<Longrightarrow> unat n - start = ix"
    using i by (simp add: START_NID_def ix_def minus_div_mult_eq_mod)
  define u where "u = clear_nat_cache_dirty L n (upd_nat n nat_reset_flag (nat_written page n raw ix s))"
  note wf = written_flushed [OF ok d w e raw_def fr ix_def u_def]
  have "(case page of
          None \<Rightarrow>
            (let (offset, sm) = lookup_journal_in_cursum L (hot_sum s) NAT_JOURNAL n True
             in case offset of None \<Rightarrow> nm_bug_on True s
                | Some i \<Rightarrow> s\<lparr>hot_sum := sm\<lparr>nat_j := (nat_j sm)
                    \<lparr>jkey := (jkey (nat_j sm))(i := n), jent := (jent (nat_j sm))(i := raw)\<rparr>\<rparr>\<rparr>)
        | Some a \<Rightarrow> s\<lparr>nat_pages := (nat_pages s)(a := (nat_pages s a)(unat n - start := raw))\<rparr>) = nat_written page n raw ix s"
  proof (cases page)
    case None
    obtain off sm where l: "lookup_journal_in_cursum L (hot_sum s) NAT_JOURNAL n True = (off, sm)" by fastforce
    have "off \<noteq> None"
      using nat_lookup_None [of L "hot_sum s" n] w None l by (auto simp: can_write_def)
    then obtain j where j: "off = Some j" by blast
    show ?thesis
      using None l j nat_lookup_alloc [OF l [unfolded j], of raw] by (simp add: nat_written_def)
  next
    case (Some a)
    then show ?thesis using six by (simp add: nat_written_def)
  qed
  then have f: "flush_nat_entry L av page start n s =
      (if r_block_addr raw = null_addr L then snd (add_free_nid L av n False u) else u)"
    using e na nn by (simp add: flush_nat_entry_def Let_def raw_def [symmetric] blk u_def)
  show ?thesis
  proof (cases "r_block_addr raw = null_addr L")
    case False
    then show ?thesis using f wf(1) by simp
  next
    case True
    obtain r t where a: "add_free_nid L av n False u = (r, t)" by fastforce
    note sp = add_free_nid_spec [OF a]
    note F = same_nat_facts [OF sp(1)]
    have x: "nm_bug t = nm_bug u" "nat_bitmap t = nat_bitmap u" "nat_blkaddr t = nat_blkaddr u"
      "nat_pages t = nat_pages u" "nat_set_root t = nat_set_root u" "nat_dirty t = nat_dirty u"
      using a by (auto simp: add_free_nid_def nat_dirty_def lookup_nat_cache_def split: if_splits)
    have "nid_ok L s n" using ok e by (simp add: nat_ok_def)
    then have "nid_ok L u n" by (simp add: u_def written_frame)
    then have "free_now L g t"
      using wf True sp(2) unfolding free_now_def F(2,4,7,10) by (auto simp: entry_flushed_def free_now_def)
    then show ?thesis
      using wf(1) sp(3) f True a unfolding entry_flushed_def by (simp add: F x)
  qed
qed

section \<open>One set\<close>

lemma entries_flushed:
  assumes "distinct ns" "\<forall>n\<in>set ns. nat_dirty s n \<and> r_block_addr (nat_of L g s n) \<noteq> new_addr L"
    and "nat_ok L g s" "free_nids_ok s" "free_now L g s"
    and "case page of None \<Rightarrow> int (length ns) \<le> int (nat_journal_entries L) - int (jn (nat_j (hot_sum s)))
      | Some a \<Rightarrow> \<forall>n\<in>set ns. a = nat_cur g (NAT_BLOCK_OFFSET L n) s \<and> n \<notin> jkeys (nat_j (hot_sum s)) \<and> start = START_NID L n"
    and "t = fold (flush_nat_entry L av page start) ns s"
  shows "nat_ok L g t \<and> free_nids_ok t \<and> free_now L g t \<and>
     (\<forall>m. nid_ok L s m \<longrightarrow> nat_of L g t m = nat_of L g s m) \<and> (\<forall>m. nat_dirty t m \<longleftrightarrow> nat_dirty s m \<and> m \<notin> set ns) \<and>
     nm_bug t = nm_bug s \<and> nat_bitmap t = nat_bitmap s \<and> nat_blkaddr t = nat_blkaddr s \<and>
     (\<forall>b. page \<noteq> Some b \<longrightarrow> nat_pages t b = nat_pages s b) \<and>
     map fst (nat_set_root t) = map fst (nat_set_root s) \<and>
     jkeys (nat_j (hot_sum t)) \<subseteq> jkeys (nat_j (hot_sum s)) \<union> set ns \<and>
     jn (nat_j (hot_sum t)) \<le> jn (nat_j (hot_sum s)) + (if page = None then length ns else 0)"
  using assms
proof (induction ns arbitrary: s)
  case (Cons n ns)
  define u where "u = flush_nat_entry L av page start n s"
  have d: "nat_dirty s n" and na: "r_block_addr (nat_of L g s n) \<noteq> new_addr L" using Cons.prems(2) by simp_all
  have w: "can_write L g page n s" using Cons.prems(6) by (auto simp: can_write_def split: option.splits)
  have st: "page \<noteq> None \<Longrightarrow> start = START_NID L n" using Cons.prems(6) by (auto split: option.splits)
  have fl: "entry_flushed L g page n s u"
    unfolding u_def by (rule flush_nat_entry_spec [OF Cons.prems(3) d w Cons.prems(4,5) na st])
  have cu: "nat_cur g b u = nat_cur g b s" for b
    using fl by (simp add: entry_flushed_def nat_cur_def nat_copy_def)
  have nu: "nid_ok L u m = nid_ok L s m" for m using fl by (simp add: entry_flushed_def nid_ok_def)
  have dn: "nid_ok L s m" if "nat_dirty s m" for m
    using that Cons.prems(3) by (auto simp: nat_dirty_def nat_ok_def)
  have 1: "distinct ns" "n \<notin> set ns" using Cons.prems(1) by simp_all
  have 2: "\<forall>m\<in>set ns. nat_dirty u m \<and> r_block_addr (nat_of L g u m) \<noteq> new_addr L"
    using fl Cons.prems(2) dn 1(2) by (auto simp: entry_flushed_def)
  have 3: "nat_ok L g u" "free_nids_ok u" "free_now L g u" using fl by (simp_all add: entry_flushed_def)
  have 4: "case page of None \<Rightarrow> int (length ns) \<le> int (nat_journal_entries L) - int (jn (nat_j (hot_sum u)))
      | Some a \<Rightarrow> \<forall>n\<in>set ns. a = nat_cur g (NAT_BLOCK_OFFSET L n) u \<and> n \<notin> jkeys (nat_j (hot_sum u)) \<and> start = START_NID L n"
    using fl Cons.prems(6) by (cases page) (auto simp: entry_flushed_def cu)
  have t: "t = fold (flush_nat_entry L av page start) ns u" using Cons.prems(7) by (simp add: u_def)
  note IH = Cons.IH [OF 1(1) 2 3 4 t, unfolded nu]
  show ?case
    using IH fl by (auto simp: entry_flushed_def split: if_splits)
qed simp


text \<open>Switching to the other copy of a block.\<close>

lemma next_page_spec:
  assumes ok: "nat_ok L g s" and k: "k < 8 * length (nat_bitmap s)" "k * nat_entry_per_block L < 2 ^ 32"
    and v: "v = (of_nat (k * nat_entry_per_block L) :: u32)" and r: "get_next_nat_page L g v s = (a, t)"
  shows "a = nat_nxt g k s" and "t = s\<lparr>nat_pages := (nat_pages s)(nat_nxt g k s := nat_pages s (nat_cur g k s)),
      nat_bitmap := f2fs_change_bit k (nat_bitmap s)\<rparr>"
    and "nat_cur g k t = a" and "nid_ok L s m \<Longrightarrow> disk_nat L g t m = disk_nat L g s m" and "nat_ok L g t"
    and "nid_ok L s m \<Longrightarrow> nat_of L g t m = nat_of L g s m" and "nat_dirty t = nat_dirty s"
proof -
  have g: "seg_size_ok g" "0 < nat_entry_per_block L" "nat_cache_ok L s" using ok by (simp_all add: nat_ok_def)
  have "unat v = k * nat_entry_per_block L"
    unfolding v using k(2) by (intro unat_of_nat_small) simp
  then have o: "NAT_BLOCK_OFFSET L v = k"
    using g(2) by (simp add: NAT_BLOCK_OFFSET_def)
  have c: "current_nat_addr L g v s = nat_cur g k s"
    by (simp add: current_nat_addr_eq [OF g(1)] o)
  show a: "a = nat_nxt g k s"
    using r by (simp add: get_next_nat_page_def c next_nat_addr_eq [OF g(1)] Let_def)
  show t: "t = s\<lparr>nat_pages := (nat_pages s)(nat_nxt g k s := nat_pages s (nat_cur g k s)),
      nat_bitmap := f2fs_change_bit k (nat_bitmap s)\<rparr>"
    using r by (auto simp: get_next_nat_page_def c next_nat_addr_eq [OF g(1)] Let_def set_to_next_nat_def o)
  have cu: "nat_cur g b t = nat_cur g b (nat_flip k s)" for b
    by (simp add: t nat_cur_def nat_copy_def nat_flip_def)
  show "nat_cur g k t = a"
    using nat_shadow.cur_flip [OF g(1) k(1) k(1)] by (simp add: cu a)
  have bl: "block_nat L g t m = block_nat L g s m" if "nid_ok L s m" for m
    using nat_shadow.copy_flip [OF g(1) k(1), of "NAT_BLOCK_OFFSET L m" "nat_pages s"] that
    unfolding block_nat_def current_nat_addr_eq [OF g(1)] cu by (simp add: t nid_ok_def)
  have nid: "nid_ok L t m = nid_ok L s m" for m by (simp add: nid_ok_def t)
  have ht: "hot_sum t = hot_sum s" by (simp add: t)
  have lk: "lookup_nat_cache m t = lookup_nat_cache m s" for m by (simp add: lookup_nat_cache_def t)
  show d: "nat_dirty t = nat_dirty s" by (simp add: nat_dirty_def lk fun_eq_iff)
  show dk: "disk_nat L g t m = disk_nat L g s m" if "nid_ok L s m" for m
    using bl [OF that] ht by (simp add: disk_nat_def over_def split: option.split)
  show "nat_of L g t m = nat_of L g s m" if "nid_ok L s m" for m
    using dk [OF that] by (simp add: nat_of_def lk split: option.split)
  have "nat_cache_ok L t = nat_cache_ok L s"
    unfolding nat_cache_ok_def set_ok_def lk d by (simp add: t)
  then show "nat_ok L g t"
    using ok dk unfolding nat_ok_def lk nid by (auto simp: t)
qed

lemma drop_set_ok:
  assumes "nat_ok L g s" "\<forall>n. nat_dirty s n \<longrightarrow> NAT_BLOCK_OFFSET L n \<noteq> k"
  defines "t \<equiv> s\<lparr>nat_set_root := AList.delete k (nat_set_root s)\<rparr>"
  shows "nat_ok L g t" and "disk_nat L g t = disk_nat L g s" and "nat_of L g t = nat_of L g s" and "nat_dirty t = nat_dirty s"
    and "nid_ok L t m = nid_ok L s m"
proof -
  have lk: "lookup_nat_cache m t = lookup_nat_cache m s" for m by (simp add: lookup_nat_cache_def t_def)
  show d: "nat_dirty t = nat_dirty s" by (simp add: nat_dirty_def lk fun_eq_iff)
  show dk: "disk_nat L g t = disk_nat L g s" and nid: "nid_ok L t m = nid_ok L s m" for m
    by (rule disk_nat_cong; simp add: t_def)+
  show "nat_of L g t = nat_of L g s" by (simp add: nat_of_def lk dk fun_eq_iff split: option.split)
  have "nat_cache_ok L s" using assms(1) by (simp add: nat_ok_def)
  then have "nat_cache_ok L t"
    using assms(2) unfolding nat_cache_ok_def set_ok_def lk d
    by (auto simp: t_def delete_conv' distinct_delete split: if_splits)
  then show "nat_ok L g t" using assms(1) unfolding nat_ok_def lk dk nid by (simp add: t_def)
qed

definition jfit :: "layout \<Rightarrow> f2fs_nm_info \<Rightarrow> bool" where
  "jfit L s \<longleftrightarrow> int (card {n. nat_dirty s n}) \<le> int (nat_journal_entries L) - int (jn (nat_j (hot_sum s))) \<or>
     (\<forall>n. nat_dirty s n \<longrightarrow> n \<notin> jkeys (nat_j (hot_sum s)))"

text \<open>After the sets \<open>D\<close>: \<open>s0\<close> is the state before the first.\<close>

definition flushing :: "layout \<Rightarrow> geom \<Rightarrow> f2fs_nm_info \<Rightarrow> nat set \<Rightarrow> f2fs_nm_info \<Rightarrow> bool" where
  "flushing L g s0 D s \<longleftrightarrow> nat_ok L g s \<and> free_nids_ok s \<and> free_now L g s \<and> jfit L s \<and>
     (\<forall>m. nid_ok L s0 m \<longrightarrow> nat_of L g s m = nat_of L g s0 m) \<and>
     (\<forall>m. nat_dirty s m \<longleftrightarrow> nat_dirty s0 m \<and> NAT_BLOCK_OFFSET L m \<notin> D) \<and>
     nm_bug s = nm_bug s0 \<and> length (nat_bitmap s) = length (nat_bitmap s0) \<and> nat_blkaddr s = nat_blkaddr s0 \<and>
     (\<forall>b. b \<notin> D \<longrightarrow> byte_bit (nat_bitmap s) b = byte_bit (nat_bitmap s0) b) \<and>
     (\<forall>b<8 * length (nat_bitmap s0). nat_pages s (nat_cur g b s0) = nat_pages s0 (nat_cur g b s0)) \<and>
     set (map fst (nat_set_root s)) = set (map fst (nat_set_root s0)) - D"


lemma nat_map_of: "k \<in> fst ` set xs \<longleftrightarrow> map_of xs k \<noteq> None"
  by (auto simp: map_of_eq_None_iff)

lemma set_flushed:
  assumes fl: "flushing L g s0 D s" and k: "k \<notin> D" "k \<in> set (map fst (nat_set_root s))"
    and na: "\<forall>m. nid_ok L s0 m \<longrightarrow> r_block_addr (nat_of L g s0 m) \<noteq> new_addr L"
  shows "flushing L g s0 (insert k D) (flush_nat_entry_set L g av k s)"
proof -
  have ok: "nat_ok L g s" "free_nids_ok s" "free_now L g s" "jfit L s" using fl by (simp_all add: flushing_def)
  have c: "nat_cache_ok L s" "seg_size_ok g" "0 < nat_entry_per_block L" using ok(1) by (simp_all add: nat_ok_def)
  obtain h where h: "map_of (nat_set_root s) k = Some h" using k(2) nat_map_of [of k "nat_set_root s"] by auto
  define ns where "ns = entry_list h"
  have so: "set_ok L s k h" using c(1) h by (simp add: nat_cache_ok_def)
  have ns: "distinct ns" "\<And>n. n \<in> set ns \<longleftrightarrow> NAT_BLOCK_OFFSET L n = k \<and> nat_dirty s n" "set_cnt s k = int (length ns)"
    using so h by (simp_all add: set_ok_def ns_def set_cnt_def)
  have n0: "nid_ok L s m = nid_ok L s0 m" for m using fl by (simp add: flushing_def nid_ok_def)
  have dn: "nid_ok L s m" if "nat_dirty s m" for m using that ok(1) by (auto simp: nat_dirty_def nat_ok_def)
  have nb: "\<forall>n\<in>set ns. nat_dirty s n \<and> r_block_addr (nat_of L g s n) \<noteq> new_addr L"
    using ns(2) dn n0 na fl by (auto simp: flushing_def)
  define toj where "toj = has_cursum_space L (hot_sum s) (nat (set_cnt s k)) NAT_JOURNAL"
  have sub: "set ns \<subseteq> {n. nat_dirty s n}" using ns(2) by auto
  then have le: "length ns \<le> card {n. nat_dirty s n}"
    using card_mono [OF _ sub] distinct_card [OF ns(1)] by simp
  have jle: "jn (nat_j (hot_sum s)) \<le> nat_journal_entries L" using ok(1) by (simp add: nat_ok_def)
  have toj: "toj \<longleftrightarrow> int (length ns) \<le> int (nat_journal_entries L) - int (jn (nat_j (hot_sum s)))"
    using jle by (auto simp: toj_def has_cursum_space_def MAX_NAT_JENTRIES_def nats_in_cursum_def ns(3))
  define v where "v = (of_nat (k * nat_entry_per_block L) :: u32)"
  define page where "page = (if toj then None else Some (fst (get_next_nat_page L g v s)))"
  define s1 where "s1 = (if toj then s else snd (get_next_nat_page L g v s))"
  have kk: "k < 8 * length (nat_bitmap s) \<and> k * nat_entry_per_block L < 2 ^ 32 \<and> (\<forall>n\<in>set ns. n \<notin> jkeys (nat_j (hot_sum s)))" if "\<not> toj"
  proof -
    have "ns \<noteq> []" using that toj jle by auto
    then obtain n where n: "n \<in> set ns" by (cases ns) auto
    then have kn: "NAT_BLOCK_OFFSET L n = k" "nat_dirty s n" using ns(2) by auto
    then have "k < 8 * length (nat_bitmap s)" using dn by (auto simp: nid_ok_def)
    moreover have "k * nat_entry_per_block L \<le> unat n" using kn(1) by (auto simp: NAT_BLOCK_OFFSET_def)
    then have "k * nat_entry_per_block L < 2 ^ 32" using unsigned_less [of n, where ?'a = nat] by simp
    moreover have "\<not> int (card {n. nat_dirty s n}) \<le> int (nat_journal_entries L) - int (jn (nat_j (hot_sum s)))"
      using that toj le by linarith
    then have "\<forall>n. nat_dirty s n \<longrightarrow> n \<notin> jkeys (nat_j (hot_sum s))" using ok(4) by (simp add: jfit_def)
    ultimately show ?thesis using ns(2) by blast
  qed
  have s1: "nat_ok L g s1 \<and> free_nids_ok s1 \<and> free_now L g s1 \<and> nat_dirty s1 = nat_dirty s \<and> (\<forall>m. nid_ok L s1 m = nid_ok L s m) \<and>
     (\<forall>m. nid_ok L s m \<longrightarrow> nat_of L g s1 m = nat_of L g s m) \<and> nm_bug s1 = nm_bug s \<and>
     length (nat_bitmap s1) = length (nat_bitmap s) \<and> nat_blkaddr s1 = nat_blkaddr s \<and> hot_sum s1 = hot_sum s \<and>
     nat_set_root s1 = nat_set_root s \<and> (\<forall>b. b \<noteq> k \<longrightarrow> byte_bit (nat_bitmap s1) b = byte_bit (nat_bitmap s) b) \<and>
     (\<forall>b. page \<noteq> Some b \<longrightarrow> nat_pages s1 b = nat_pages s b) \<and>
     (\<forall>a. page = Some a \<longrightarrow> nat_cur g k s1 = a \<and> a = nat_nxt g k s)"
  proof (cases toj)
    case True
    then show ?thesis using ok by (simp add: s1_def page_def)
  next
    case False
    note kf = kk [OF False]
    note np = next_page_spec [OF ok(1) conjunct1 [OF kf] conjunct1 [OF conjunct2 [OF kf]] v_def prod.collapse [symmetric]]
    have e: "s1 = snd (get_next_nat_page L g v s)"
      "page = Some (fst (get_next_nat_page L g v s))"
      using False by (simp_all add: s1_def page_def)
    note np = np [folded e(1)]
    have bits: "byte_bit (nat_bitmap s1) b = byte_bit (nat_bitmap s) b" if "b \<noteq> k" for b
      using that kf by (simp add: np(2) byte_bit_change_bit)
    have lf: "lookup_free_nid_list m s1 = lookup_free_nid_list m s" "max_nid s1 = max_nid s" for m
      by (simp_all add: np(2) lookup_free_nid_list_def)
    have nid: "nid_ok L s1 m = nid_ok L s m" for m by (simp add: np(2) nid_ok_def)
    have "free_now L g s1" using ok(3) np(4,6) unfolding free_now_def lf nid by auto
    moreover have "free_nids_ok s1" using ok(2) by (simp add: np(2) free_nids_ok_def)
    moreover have "nm_bug s1 = nm_bug s" "length (nat_bitmap s1) = length (nat_bitmap s)" "nat_blkaddr s1 = nat_blkaddr s"
      "hot_sum s1 = hot_sum s" "nat_set_root s1 = nat_set_root s" "b \<noteq> nat_nxt g k s \<Longrightarrow> nat_pages s1 b = nat_pages s b" for b
      by (simp_all add: np(2))
    ultimately show ?thesis
      using np(1,3,5,6,7) bits nid e(2) by auto
  qed
  have st: "page \<noteq> None \<Longrightarrow> k * nat_entry_per_block L = START_NID L n" if "n \<in> set ns" for n
    using ns(2) that by (auto simp: START_NID_def NAT_BLOCK_OFFSET_def)
  define s2 where "s2 = fold (flush_nat_entry L av page (k * nat_entry_per_block L)) ns s1"
  have pre: "case page of None \<Rightarrow> int (length ns) \<le> int (nat_journal_entries L) - int (jn (nat_j (hot_sum s1)))
      | Some a \<Rightarrow> \<forall>n\<in>set ns. a = nat_cur g (NAT_BLOCK_OFFSET L n) s1 \<and> n \<notin> jkeys (nat_j (hot_sum s1)) \<and>
          k * nat_entry_per_block L = START_NID L n"
  proof (cases toj)
    case True
    then show ?thesis using toj s1 by (simp add: page_def)
  next
    case False
    then obtain a where a: "page = Some a" by (simp add: page_def)
    then show ?thesis using s1 st ns(2) kk [OF False] by auto
  qed
  have nb1: "\<forall>n\<in>set ns. nat_dirty s1 n \<and> r_block_addr (nat_of L g s1 n) \<noteq> new_addr L"
    using nb s1 dn by auto
  note ef = entries_flushed [OF ns(1) nb1 _ _ _ pre s2_def]
  have e2: "nat_ok L g s2" "free_nids_ok s2" "free_now L g s2" "nid_ok L s1 m \<Longrightarrow> nat_of L g s2 m = nat_of L g s1 m"
    "nat_dirty s2 m \<longleftrightarrow> nat_dirty s1 m \<and> m \<notin> set ns" "nm_bug s2 = nm_bug s1" "nat_bitmap s2 = nat_bitmap s1"
    "nat_blkaddr s2 = nat_blkaddr s1" "page \<noteq> Some b \<Longrightarrow> nat_pages s2 b = nat_pages s1 b"
    "map fst (nat_set_root s2) = map fst (nat_set_root s1)"
    "jkeys (nat_j (hot_sum s2)) \<subseteq> jkeys (nat_j (hot_sum s1)) \<union> set ns"
    "jn (nat_j (hot_sum s2)) \<le> jn (nat_j (hot_sum s1)) + (if page = None then length ns else 0)" for m b
    using ef s1 by blast+
  have d2: "nat_dirty s2 m \<longleftrightarrow> nat_dirty s m \<and> NAT_BLOCK_OFFSET L m \<noteq> k" for m
    using e2(5) s1 ns(2) by auto
  have cnt: "set_cnt s2 k = 0"
  proof (cases "map_of (nat_set_root s2) k")
    case (Some h2)
    then have "set_ok L s2 k h2" using e2(1) by (simp add: nat_ok_def nat_cache_ok_def)
    then have "entry_cnt h2 = int (length (entry_list h2))" "n \<notin> set (entry_list h2)" for n
      using d2 unfolding set_ok_def by auto
    then have "entry_cnt h2 = 0" by (cases "entry_list h2") auto
    then show ?thesis using Some by (simp add: set_cnt_def)
  qed (simp add: set_cnt_def)
  define s3 where "s3 = s2\<lparr>nat_set_root := AList.delete k (nat_set_root s2)\<rparr>"
  have f: "flush_nat_entry_set L g av k s = s3"
  proof -
    have b: "nm_bug_on False s2 = s2" by (simp add: nm_bug_on_def)
    have "flush_nat_entry_set L g av k s = (let s2' = nm_bug_on (set_cnt s2 k \<noteq> 0) s2 in s2'\<lparr>nat_set_root := AList.delete k (nat_set_root s2')\<rparr>)"
    proof (cases toj)
      case True
      then have "page = None" "s1 = s" by (simp_all add: page_def s1_def)
      then show ?thesis
        unfolding flush_nat_entry_set_def Let_def v_def [symmetric] toj_def [symmetric] s2_def
        using True h by (simp add: ns_def)
    next
      case False
      then have p: "page = Some (fst (get_next_nat_page L g v s))" "s1 = snd (get_next_nat_page L g v s)"
        by (simp_all add: page_def s1_def)
      have h1: "map_of (nat_set_root s1) k = Some h" using s1 h by simp
      show ?thesis
        unfolding flush_nat_entry_set_def Let_def v_def [symmetric] toj_def [symmetric] s2_def
        using False h1 by (simp add: ns_def p case_prod_beta)
    qed
    then show ?thesis by (simp add: cnt b s3_def)
  qed
  have nd: "\<forall>n. nat_dirty s2 n \<longrightarrow> NAT_BLOCK_OFFSET L n \<noteq> k" using d2 by blast
  note ds = drop_set_ok [OF e2(1) nd, folded s3_def]
  have s3: "nm_bug s3 = nm_bug s2" "nat_bitmap s3 = nat_bitmap s2" "nat_blkaddr s3 = nat_blkaddr s2"
    "nat_pages s3 = nat_pages s2" "hot_sum s3 = hot_sum s2" "free_nid_list s3 = free_nid_list s2" "fcnt s3 = fcnt s2"
    "max_nid s3 = max_nid s2"
    by (simp_all add: s3_def)
  have n3: "nid_ok L s3 m = nid_ok L s0 m" for m using s1 e2(7) n0 by (simp add: nid_ok_def s3)
  have len3: "length (nat_bitmap s3) = length (nat_bitmap s0)" "nat_blkaddr s3 = nat_blkaddr s0" "nm_bug s3 = nm_bug s0"
    using s1 e2 fl by (simp_all add: s3 flushing_def)
  have dirty3: "nat_dirty s3 m \<longleftrightarrow> nat_dirty s0 m \<and> NAT_BLOCK_OFFSET L m \<notin> insert k D" for m
    using d2 fl by (auto simp: ds(4) flushing_def)
  have free3: "free_nids_ok s3" using e2(2) by (simp add: free_nids_ok_def s3)
  have safe3: "free_now L g s3"
    using e2(3) unfolding free_now_def ds(2,3,5) by (simp add: lookup_free_nid_list_def s3)
  have map3: "nat_of L g s3 m = nat_of L g s0 m" if "nid_ok L s0 m" for m
    using that e2(4) s1 fl n0 by (simp add: ds(3) flushing_def)
  have bits3: "byte_bit (nat_bitmap s3) b = byte_bit (nat_bitmap s0) b" if "b \<notin> insert k D" for b
    using that s1 e2(7) fl by (simp add: s3 flushing_def)
  have keys3: "set (map fst (nat_set_root s3)) = set (map fst (nat_set_root s0)) - insert k D"
  proof -
    have "map fst (nat_set_root s3) = removeAll k (map fst (nat_set_root s2))" by (simp add: s3_def delete_keys)
    then have "set (map fst (nat_set_root s3)) = set (map fst (nat_set_root s2)) - {k}" by (simp only: set_removeAll)
    also have "\<dots> = set (map fst (nat_set_root s)) - {k}" using e2(10) s1 by simp
    also have "\<dots> = set (map fst (nat_set_root s0)) - insert k D" using fl by (auto simp: flushing_def)
    finally show ?thesis .
  qed
  have pages3: "nat_pages s3 (nat_cur g b s0) = nat_pages s0 (nat_cur g b s0)" if b: "b < 8 * length (nat_bitmap s0)" for b
  proof -
    have "page \<noteq> Some (nat_cur g b s0)"
    proof
      assume p: "page = Some (nat_cur g b s0)"
      then have "\<not> toj" by (auto simp: page_def)
      then have "k < 8 * length (nat_bitmap s0)" using kk fl by (simp add: flushing_def)
      moreover have "nat_cur g b s0 = nat_nxt g k s" using p s1 by blast
      moreover have "nat_nxt g k s = nat_nxt g k s0"
        using fl k(1) by (simp add: flushing_def nat_nxt_def nat_copy_def)
      ultimately show False using nat_shadow.nxt_apart [OF c(2), of k s0 b] b by simp
    qed
    then have "nat_pages s2 (nat_cur g b s0) = nat_pages s (nat_cur g b s0)" using e2(9) s1 by simp
    then show ?thesis using fl b by (simp add: s3 flushing_def)
  qed
  have "jfit L s3"
  proof (cases "\<forall>n. nat_dirty s n \<longrightarrow> n \<notin> jkeys (nat_j (hot_sum s))")
    case True
    then have "\<forall>n. nat_dirty s3 n \<longrightarrow> n \<notin> jkeys (nat_j (hot_sum s3))"
      using e2(11) s1 d2 ns(2) by (auto simp: ds(4) s3)
    then show ?thesis by (simp add: jfit_def)
  next
    case False
    then have a: "int (card {n. nat_dirty s n}) \<le> int (nat_journal_entries L) - int (jn (nat_j (hot_sum s)))"
      using ok(4) by (auto simp: jfit_def)
    have "{n. nat_dirty s3 n} = {n. nat_dirty s n} - set ns" using d2 ns(2) by (auto simp: ds(4))
    then have "card {n. nat_dirty s3 n} = card {n. nat_dirty s n} - length ns"
      using sub distinct_card [OF ns(1)] by (simp add: card_Diff_subset)
    moreover have "int (jn (nat_j (hot_sum s3))) \<le> int (jn (nat_j (hot_sum s))) + int (length ns)"
      using e2(12) s1 by (simp add: s3 split: if_splits)
    ultimately show ?thesis using a le by (simp add: jfit_def)
  qed
  then show ?thesis
    unfolding f flushing_def
    using ds(1) free3 safe3 map3 dirty3 len3 bits3 pages3 keys3 by blast
qed


section \<open>All sets\<close>

lemma insert_before_set: "set (insert_before cnt k xs) = insert k (set xs)"
  and insert_before_distinct: "k \<notin> set xs \<Longrightarrow> distinct xs \<Longrightarrow> distinct (insert_before cnt k xs)"
proof -
  show s: "set (insert_before cnt k xs) = insert k (set xs)" for xs by (induction xs) auto
  show "k \<notin> set xs \<Longrightarrow> distinct xs \<Longrightarrow> distinct (insert_before cnt k xs)" by (induction xs) (auto simp: s)
qed

lemma adjust_sets:
  "distinct ks \<Longrightarrow> distinct xs \<Longrightarrow> set ks \<inter> set xs = {} \<Longrightarrow>
     distinct (fold (adjust_nat_entry_set cnt mx) ks xs) \<and>
     set (fold (adjust_nat_entry_set cnt mx) ks xs) = set ks \<union> set xs"
proof (induction ks arbitrary: xs)
  case (Cons k ks)
  have "distinct (adjust_nat_entry_set cnt mx k xs)" "set (adjust_nat_entry_set cnt mx k xs) = insert k (set xs)"
    using Cons.prems by (auto simp: adjust_nat_entry_set_def insert_before_set insert_before_distinct)
  then show ?case using Cons.IH [of "adjust_nat_entry_set cnt mx k xs"] Cons.prems by auto
qed simp

lemma sets_flushed:
  assumes "flushing L g s0 D s" "distinct ks" "set ks \<inter> D = {}" "set ks \<subseteq> set (map fst (nat_set_root s0))"
    and "\<forall>m. nid_ok L s0 m \<longrightarrow> r_block_addr (nat_of L g s0 m) \<noteq> new_addr L"
  shows "flushing L g s0 (D \<union> set ks) (fold (flush_nat_entry_set L g av) ks s)"
  using assms
proof (induction ks arbitrary: D s)
  case (Cons k ks)
  have k: "k \<notin> D" "k \<in> set (map fst (nat_set_root s))" using Cons.prems by (auto simp: flushing_def)
  note st = set_flushed [OF Cons.prems(1) k Cons.prems(5), of av]
  have "flushing L g s0 (insert k D \<union> set ks) (fold (flush_nat_entry_set L g av) ks (flush_nat_entry_set L g av k s))"
    by (rule Cons.IH [OF st]) (use Cons.prems in auto)
  then show ?case by simp
qed simp

section \<open>Emptying the journal\<close>

lemma remove_nat_spec:
  assumes ok: "nat_ok L g s" and i: "i < jn (nat_j (hot_sum s))"
  defines "n \<equiv> jkey (nat_j (hot_sum s)) i" and "t \<equiv> remove_nat_of_journal L i s"
  shows "nat_ok L g t" and "nat_of L g t = nat_of L g s" and "disk_nat L g t = disk_nat L g s"
    and "nat_dirty t m \<longleftrightarrow> nat_dirty s m \<or> m = n"
    and "hot_sum t = hot_sum s" "nm_bug t = nm_bug s" "nat_bitmap t = nat_bitmap s" "nat_blkaddr t = nat_blkaddr s"
    "nat_pages t = nat_pages s" "free_nid_list t = free_nid_list s" "fcnt t = fcnt s" "max_nid t = max_nid s"
    "nid_ok L t m = nid_ok L s m"
proof -
  define u where "u = cache_nat_entry n (jent (nat_j (hot_sum s)) i) s"
  have j: "jok (nat_j (hot_sum s))" and nid: "nid_ok L s n"
    using ok i by (auto simp: nat_ok_def n_def jkeys_def)
  have "jent (nat_j (hot_sum s)) i = disk_nat L g s n"
    using jlook_slot [OF j i] by (simp add: disk_nat_def over_def n_def)
  note cd = cache_disk_ok [OF ok nid this, folded u_def]
  have t: "t = set_nat_cache_dirty L n u"
    by (simp add: t_def u_def remove_nat_of_journal_def Let_def n_def nid_in_journal_def nat_in_journal_def cache_nat_entry_def
        split: option.split)
  have uf: "hot_sum u = hot_sum s" "nm_bug u = nm_bug s" "nat_bitmap u = nat_bitmap s" "nat_blkaddr u = nat_blkaddr s"
    "nat_pages u = nat_pages s" "free_nid_list u = free_nid_list s" "fcnt u = fcnt s" "max_nid u = max_nid s"
    by (simp_all add: u_def cache_nat_entry_def upd_nat_def grab_nat_entry_def Let_def split: option.split)
  show "hot_sum t = hot_sum s" "nm_bug t = nm_bug s" "nat_bitmap t = nat_bitmap s" "nat_blkaddr t = nat_blkaddr s"
    "nat_pages t = nat_pages s" "free_nid_list t = free_nid_list s" "fcnt t = fcnt s" "max_nid t = max_nid s"
    using uf by (simp_all add: t set_nat_cache_dirty_def Let_def upd_nat_def split: option.split)
  have lu: "lookup_nat_cache n u \<noteq> None" by (simp add: u_def cache_nat_entry_def split: option.split)
  have ud: "nat_dirty u = nat_dirty s"
  proof (cases "lookup_nat_cache n s")
    case None
    have "nat_dirty (grab_nat_entry n s) = nat_dirty s" using grab_cache_ok(2) [OF _ None, of L] ok by (simp add: nat_ok_def)
    then show ?thesis
      using None nat_dirty_upd [of "node_info_from_raw_nat (jent (nat_j (hot_sum s)) i)" n "grab_nat_entry n s"]
      by (simp add: u_def cache_nat_entry_def get_nat_flag_def node_info_from_raw_nat_def)
  qed (simp add: u_def cache_nat_entry_def)
  show "nat_dirty t m \<longleftrightarrow> nat_dirty s m \<or> m = n"
    using nat_dirty_set_dirty [OF lu, of L m] ud by (auto simp: t)
  show dt: "disk_nat L g t = disk_nat L g s" by (simp add: t set_dirty_disk cd)
  show nt: "nid_ok L t m = nid_ok L s m" for m by (simp add: t set_dirty_disk cd)
  have rw: "raw_nat_from_node_info (set_nat_flag f v e) = raw_nat_from_node_info e" for f v e
    by (simp add: raw_nat_from_node_info_def)
  have "nat_of L g t = nat_of L g u"
    using dt cd(3) rw by (auto simp: fun_eq_iff nat_of_def t set_dirty_disk split: option.splits)
  then show "nat_of L g t = nat_of L g s" using cd(2) by simp
  have "nat_cache_ok L t" unfolding t using set_dirty_ok [OF _ lu] cd(1) by (simp add: nat_ok_def)
  then show "nat_ok L g t"
    using cd(1) nid unfolding nat_ok_def t by (auto simp: set_dirty_disk cd(4) rw split: if_splits)
qed


lemma remove_loop_spec:
  assumes "nat_ok L g s" "k \<le> jn (nat_j (hot_sum s))" "t = fold (remove_nat_of_journal L) [0..<k] s"
  shows "nat_ok L g t \<and> nat_of L g t = nat_of L g s \<and>
    (\<forall>m. nat_dirty t m \<longleftrightarrow> nat_dirty s m \<or> m \<in> jkey (nat_j (hot_sum s)) ` {..<k}) \<and>
    hot_sum t = hot_sum s \<and> nm_bug t = nm_bug s \<and> nat_bitmap t = nat_bitmap s \<and> nat_blkaddr t = nat_blkaddr s \<and>
    nat_pages t = nat_pages s \<and> free_nid_list t = free_nid_list s \<and> fcnt t = fcnt s \<and> max_nid t = max_nid s"
  using assms(2,3)
proof (induction k arbitrary: t)
  case 0
  then show ?case using assms(1) by simp
next
  case (Suc k)
  define u where "u = fold (remove_nat_of_journal L) [0..<k] s"
  note IH = Suc.IH [OF _ u_def]
  have t: "t = remove_nat_of_journal L k u" using Suc.prems(2) by (simp add: u_def)
  have k: "k < jn (nat_j (hot_sum u))" using IH Suc.prems(1) by simp
  have u: "nat_ok L g u" using IH Suc.prems(1) by simp
  note r = remove_nat_spec [OF u k, folded t]
  show ?case using r IH Suc.prems(1) by (auto simp: lessThan_Suc)
qed

lemma clean_entry:
  "nat_ok L g s \<Longrightarrow> lookup_nat_cache n s = Some e \<Longrightarrow> \<not> get_nat_flag IS_DIRTY e \<Longrightarrow>
     raw_nat_from_node_info e = disk_nat L g s n"
  unfolding nat_ok_def by blast

lemma remove_nats_spec:
  assumes ok: "nat_ok L g s" and t: "t = remove_nats_in_journal L s"
  shows "nat_ok L g t" and "nat_of L g t = nat_of L g s" and "jn (nat_j (hot_sum t)) = 0"
    and "nm_bug t = nm_bug s" "nat_bitmap t = nat_bitmap s" "nat_blkaddr t = nat_blkaddr s"
      "nat_pages t = nat_pages s" "free_nid_list t = free_nid_list s" "fcnt t = fcnt s" "max_nid t = max_nid s"
proof -
  define u where "u = fold (remove_nat_of_journal L) [0..<jn (nat_j (hot_sum s))] s"
  note r = remove_loop_spec [OF ok order.refl u_def]
  have tu: "t = u\<lparr>hot_sum := (hot_sum u)\<lparr>nat_j := (nat_j (hot_sum u))\<lparr>jn := 0\<rparr>\<rparr>\<rparr>"
    using r by (simp add: t remove_nats_in_journal_def Let_def nats_in_cursum_def u_def [symmetric] update_nats_in_cursum_def)
  have uok: "nat_ok L g u" "nat_of L g u = nat_of L g s" using r by simp_all
  have dj: "nat_dirty u m" if "m \<in> jkeys (nat_j (hot_sum u))" for m using r that by (auto simp: jkeys_def)
  have lk: "lookup_nat_cache m t = lookup_nat_cache m u" for m by (simp add: tu lookup_nat_cache_def)
  have dt: "nat_dirty t = nat_dirty u" by (simp add: nat_dirty_def lk fun_eq_iff)
  have nid: "nid_ok L t m = nid_ok L u m" for m by (simp add: tu nid_ok_def)
  have bn: "block_nat L g t = block_nat L g u" by (simp add: tu block_nat_def current_nat_addr_def fun_eq_iff)
  have dk: "disk_nat L g t m = disk_nat L g u m" if "\<not> nat_dirty u m" for m
    using that dj jlook_None [of "nat_j (hot_sum u)" m] by (auto simp: disk_nat_def bn) (simp add: over_def tu jlook_def)
  have "nat_of L g t m = nat_of L g u m" for m
    using dk [of m] by (auto simp: nat_of_def lk nat_dirty_def split: option.split)
  then show "nat_of L g t = nat_of L g s" using uok(2) by (simp add: fun_eq_iff)
  have "nat_cache_ok L t = nat_cache_ok L u"
    unfolding nat_cache_ok_def set_ok_def lk dt by (simp add: tu)
  moreover have "jkeys (nat_j (hot_sum t)) = {}" "jok (nat_j (hot_sum t))" by (simp_all add: tu jkeys_def jok_def)
  moreover show "jn (nat_j (hot_sum t)) = 0" by (simp add: tu)
  moreover have "get_nat_flag IS_DIRTY e \<or> raw_nat_from_node_info e = disk_nat L g t m" if "lookup_nat_cache m u = Some e" for m e
    using clean_entry [OF uok(1) that] that dk [of m] by (cases "get_nat_flag IS_DIRTY e") (simp_all add: nat_dirty_def)
  ultimately show "nat_ok L g t"
    using uok(1) unfolding nat_ok_def lk nid by auto
  show "nm_bug t = nm_bug s" "nat_bitmap t = nat_bitmap s" "nat_blkaddr t = nat_blkaddr s"
      "nat_pages t = nat_pages s" "free_nid_list t = free_nid_list s" "fcnt t = fcnt s" "max_nid t = max_nid s"
    using r by (simp_all add: tu)
qed

lemma flush_spec:
  assumes ok: "nat_ok L g s" "free_nids_ok s" "free_safe L g s"
    and na: "\<forall>n. nid_ok L s n \<longrightarrow> r_block_addr (nat_of L g s n) \<noteq> new_addr L"
    and t: "t = flush_nat_entries L g av s"
  shows "nat_ok L g t \<and> free_nids_ok t \<and> free_safe L g t \<and> (\<forall>n. \<not> nat_dirty t n) \<and> dirty_nat_cnt t = 0 \<and>
    (\<forall>n. nid_ok L s n \<longrightarrow> nat_of L g t n = nat_of L g s n \<and> disk_nat L g t n = nat_of L g s n) \<and>
    nm_bug t = nm_bug s \<and>
    (\<forall>n. nid_ok L s n \<longrightarrow> nat_pages t (current_nat_addr L g n s) = nat_pages s (current_nat_addr L g n s))"
proof -
  have clean: "disk_nat L g u n = nat_of L g u n" if "nat_ok L g u" "\<not> nat_dirty u n" for u n
    using that(2) clean_entry [OF that(1)] by (auto simp: nat_of_def nat_dirty_def split: option.split)
  have cnt: "dirty_nat_cnt u = 0 \<longleftrightarrow> (\<forall>n. \<not> nat_dirty u n)" if "nat_ok L g u" for u
    using that by (auto simp: nat_ok_def nat_cache_ok_def)
  show ?thesis
  proof (cases "dirty_nat_cnt s = 0")
    case True
    then show ?thesis using ok cnt [OF ok(1)] clean [OF ok(1)] by (simp add: t flush_nat_entries_def)
  next
    case False
    define s0 where "s0 = (if \<not> has_cursum_space L (hot_sum s) (nat (dirty_nat_cnt s)) NAT_JOURNAL
      then remove_nats_in_journal L s else s)"
    have s0: "nat_ok L g s0" "nat_of L g s0 = nat_of L g s" "nm_bug s0 = nm_bug s" "nat_bitmap s0 = nat_bitmap s"
      "nat_blkaddr s0 = nat_blkaddr s" "nat_pages s0 = nat_pages s" "free_nid_list s0 = free_nid_list s" "fcnt s0 = fcnt s"
      "max_nid s0 = max_nid s"
      using ok(1) remove_nats_spec [OF ok(1) refl] by (simp_all add: s0_def)
    have nid: "nid_ok L s0 n = nid_ok L s n" for n by (simp add: nid_ok_def s0)
    have "jfit L s0"
    proof (cases "has_cursum_space L (hot_sum s) (nat (dirty_nat_cnt s)) NAT_JOURNAL")
      case True
      have "dirty_nat_cnt s = int (card {n. nat_dirty s n})" "jn (nat_j (hot_sum s)) \<le> nat_journal_entries L"
        using ok(1) by (simp_all add: nat_ok_def nat_cache_ok_def)
      moreover from this have "card {n. nat_dirty s n} \<le> nat_journal_entries L - jn (nat_j (hot_sum s))"
        using True by (simp add: has_cursum_space_def MAX_NAT_JENTRIES_def nats_in_cursum_def)
      ultimately have "int (card {n. nat_dirty s n}) \<le> int (nat_journal_entries L) - int (jn (nat_j (hot_sum s)))"
        by linarith
      then show ?thesis using True by (simp add: s0_def jfit_def)
    next
      case False
      then have "jn (nat_j (hot_sum s0)) = 0" using remove_nats_spec(3) [OF ok(1) refl] by (simp add: s0_def)
      then show ?thesis by (simp add: jfit_def jkeys_def)
    qed
    moreover have "free_now L g s0"
      using ok(3) unfolding free_now_def nid by (simp add: s0 lookup_free_nid_list_def free_safe_def)
    moreover have "free_nids_ok s0" using ok(2) by (simp add: free_nids_ok_def s0)
    ultimately have st: "flushing L g s0 {} s0" using s0(1) by (simp add: flushing_def)
    define ks where "ks = fold (adjust_nat_entry_set (set_cnt s0) (int (MAX_NAT_JENTRIES L (hot_sum s0))))
        (sort (map fst (nat_set_root s0))) []"
    have dk: "distinct (map fst (nat_set_root s0))" using s0(1) by (simp add: nat_ok_def nat_cache_ok_def)
    have ks: "distinct ks" "set ks = set (map fst (nat_set_root s0))"
      using adjust_sets [of "sort (map fst (nat_set_root s0))" "[]"] dk by (simp_all add: ks_def)
    define u where "u = fold (flush_nat_entry_set L g av) ks s0"
    have fu: "flushing L g s0 (set ks) u"
      using sets_flushed [OF st ks(1), of av] ks(2) na nid by (simp add: u_def s0(2))
    have nd: "\<not> nat_dirty u n" for n
    proof
      assume d: "nat_dirty u n"
      then have "nat_dirty s0 n" "NAT_BLOCK_OFFSET L n \<notin> set ks" using fu by (auto simp: flushing_def)
      moreover have "nat_cache_ok L s0" using s0(1) by (simp add: nat_ok_def)
      ultimately obtain h where "map_of (nat_set_root s0) (NAT_BLOCK_OFFSET L n) = Some h" "NAT_BLOCK_OFFSET L n \<notin> set ks"
        using set_of_dirty by metis
      then show False using map_of_SomeD [of "nat_set_root s0"] ks(2) by force
    qed
    have uok: "nat_ok L g u" using fu by (simp add: flushing_def)
    have z: "dirty_nat_cnt u = 0" using cnt [OF uok] nd by simp
    have "t = nm_bug_on (dirty_nat_cnt u \<noteq> 0) u"
      unfolding t flush_nat_entries_def Let_def if_not_P [OF False] u_def ks_def s0_def by (rule refl)
    then have tu: "t = u" using z by (simp add: nm_bug_on_def)
    have nu: "nid_ok L u n = nid_ok L s n" for n using fu by (simp add: flushing_def nid_ok_def s0)
    have same: "nat_of L g u n = nat_of L g s n" "disk_nat L g u n = nat_of L g s n" if "nid_ok L s n" for n
      using fu that nid clean [OF uok nd] by (simp_all add: flushing_def s0(2))
    have fr: "free_nids_ok u" "free_now L g u" using fu by (simp_all add: flushing_def)
    have "free_safe L g u"
      using fr(2) same clean [OF uok nd] by (simp add: free_safe_def free_now_def)
    moreover have "nat_pages u (current_nat_addr L g n s) = nat_pages s (current_nat_addr L g n s)" if "nid_ok L s n" for n
    proof -
      have g: "seg_size_ok g" using ok(1) by (simp add: nat_ok_def)
      have "current_nat_addr L g n s = nat_cur g (NAT_BLOCK_OFFSET L n) s0"
        by (simp add: current_nat_addr_eq [OF g] nat_cur_def nat_copy_def s0)
      then show ?thesis using fu that by (simp add: flushing_def nid_ok_def s0)
    qed
    moreover have "nm_bug u = nm_bug s" using fu by (simp add: flushing_def s0)
    ultimately show ?thesis using uok fr(1) nd z same by (simp add: tu)
  qed
qed

text \<open>
  C10: A checkpoint commits the node address table. After \<open>flush_nat_entries\<close>, on a table and a list of free ids in
  order and with every node written (so that no entry is \<open>NEW_ADDR\<close>), nothing is dirty, the journal and the
  now current NAT blocks together hold exactly the table the file system sees, which is the table before the
  flush, and no check has fired. The NAT blocks that were current before are not written, so until the
  checkpoint pack is complete a crash finds the old table.
\<close>
theorem flush_nat_entries_commits:
  assumes "nat_ok L g s" "free_nids_ok s" "free_safe L g s"
    and "\<forall>n. nid_ok L s n \<longrightarrow> r_block_addr (nat_of L g s n) \<noteq> new_addr L"
  shows "let t = flush_nat_entries L g av s in
    nat_ok L g t \<and> free_nids_ok t \<and> free_safe L g t \<and> (\<forall>n. \<not> nat_dirty t n) \<and> dirty_nat_cnt t = 0 \<and>
    (\<forall>n. nid_ok L s n \<longrightarrow> nat_of L g t n = nat_of L g s n \<and> disk_nat L g t n = nat_of L g s n) \<and>
    nm_bug t = nm_bug s \<and>
    (\<forall>n. nid_ok L s n \<longrightarrow> nat_pages t (current_nat_addr L g n s) = nat_pages s (current_nat_addr L g n s))"
  unfolding Let_def by (rule flush_spec [OF assms refl])


text \<open>A state with a new node 9, first reserved and then placed at block 700, and its flush.\<close>

lemma upd_nat_frame [simp]:
  "free_nid_list (upd_nat n f s) = free_nid_list s" "fcnt (upd_nat n f s) = fcnt s" "max_nid (upd_nat n f s) = max_nid s"
  "nat_bitmap (upd_nat n f s) = nat_bitmap s"
  by (simp_all add: upd_nat_def)

lemma nm_bug_on_frame [simp]:
  "free_nid_list (nm_bug_on b s) = free_nid_list s" "fcnt (nm_bug_on b s) = fcnt s" "max_nid (nm_bug_on b s) = max_nid s"
  "nat_bitmap (nm_bug_on b s) = nat_bitmap s"
  by (simp_all add: nm_bug_on_def)

lemma grab_frame [simp]:
  "free_nid_list (grab_nat_entry n s) = free_nid_list s" "fcnt (grab_nat_entry n s) = fcnt s"
  "max_nid (grab_nat_entry n s) = max_nid s" "nat_bitmap (grab_nat_entry n s) = nat_bitmap s"
  by (simp_all add: grab_nat_entry_def)

lemma set_dirty_frame [simp]:
  "free_nid_list (set_nat_cache_dirty L n s) = free_nid_list s" "fcnt (set_nat_cache_dirty L n s) = fcnt s"
  "max_nid (set_nat_cache_dirty L n s) = max_nid s" "nat_bitmap (set_nat_cache_dirty L n s) = nat_bitmap s"
  by (simp_all add: set_nat_cache_dirty_def Let_def split: option.split)

lemma case_same: "(case x of None \<Rightarrow> c | Some _ \<Rightarrow> c) = c" by (cases x) simp_all

lemma set_node_addr_frame:
  "free_nid_list (set_node_addr L ni new fs s) = free_nid_list s" "fcnt (set_node_addr L ni new fs s) = fcnt s"
  "max_nid (set_node_addr L ni new fs s) = max_nid s" "nat_bitmap (set_node_addr L ni new fs s) = nat_bitmap s"
  by (simp_all add: set_node_addr_def Let_def option.case_distrib [of free_nid_list] option.case_distrib [of fcnt]
      option.case_distrib [of max_nid] option.case_distrib [of nat_bitmap] if_distrib [of free_nid_list] if_distrib [of fcnt]
      if_distrib [of max_nid] if_distrib [of nat_bitmap] case_same cong del: option.case_cong_weak if_weak_cong)

definition reserved_nm :: f2fs_nm_info where
  "reserved_nm = set_node_addr small_layout (blank_ni 9 9) 0xFFFFFFFF False sample_nm"

definition dirty_nm :: f2fs_nm_info where
  "dirty_nm = set_node_addr small_layout ((blank_ni 9 9)\<lparr>ni_blk_addr := 0xFFFFFFFF\<rparr>) 700 False reserved_nm"

lemma small_addrs: "new_addr small_layout = 0xFFFFFFFF" "null_addr small_layout = 0"
  by (simp_all add: small_layout_def)

lemma dirty_nm_ok: "nat_ok small_layout small_geom dirty_nm" "free_nids_ok dirty_nm" "free_safe small_layout small_geom dirty_nm"
  "max_nid dirty_nm = 64" "nat_bitmap dirty_nm = nat_bitmap sample_nm"
  "nat_of small_layout small_geom dirty_nm = (nat_of small_layout small_geom sample_nm)
     (9 := \<lparr>r_version = 0, r_ino = 9, r_block_addr = 700\<rparr>)"
proof -
  have n9: "nid_ok small_layout sample_nm 9" by (rule sample_nid_ok) simp
  have m: "max_nid reserved_nm = 64" "max_nid dirty_nm = 64"
    by (simp_all add: reserved_nm_def dirty_nm_def set_node_addr_frame sample_nm_def)
  have r: "nat_ok small_layout small_geom reserved_nm"
    "nat_of small_layout small_geom reserved_nm = (nat_of small_layout small_geom sample_nm)
     (9 := \<lparr>r_version = 0, r_ino = 9, r_block_addr = 0xFFFFFFFF\<rparr>)"
    using set_node_addr_spec(1,2) [OF sample_nm_ok, of "blank_ni 9 9" "0xFFFFFFFF" reserved_nm False] n9
    by (simp_all add: reserved_nm_def blank_ni_def sample_nat_of next_entry_def small_addrs)
  have b: "nat_bitmap reserved_nm = nat_bitmap sample_nm" "nat_bitmap dirty_nm = nat_bitmap sample_nm"
    by (simp_all add: reserved_nm_def dirty_nm_def set_node_addr_frame)
  have n9': "nid_ok small_layout reserved_nm 9" using n9 b by (simp add: nid_ok_def)
  show ok: "nat_ok small_layout small_geom dirty_nm"
    "nat_of small_layout small_geom dirty_nm = (nat_of small_layout small_geom sample_nm)
     (9 := \<lparr>r_version = 0, r_ino = 9, r_block_addr = 700\<rparr>)"
    using set_node_addr_spec(1,2) [OF r(1), of "(blank_ni 9 9)\<lparr>ni_blk_addr := 0xFFFFFFFF\<rparr>" 700 dirty_nm False] n9'
    by (simp_all add: dirty_nm_def blank_ni_def r(2) next_entry_def small_addrs)
  show "max_nid dirty_nm = 64" "nat_bitmap dirty_nm = nat_bitmap sample_nm" by (rule m(2), rule b(2))
  have f: "free_nid_list dirty_nm = []" "fcnt dirty_nm = 0"
    by (simp_all add: reserved_nm_def dirty_nm_def set_node_addr_frame sample_nm_def)
  show "free_nids_ok dirty_nm" by (simp add: free_nids_ok_def f)
  have "nid_ok small_layout dirty_nm n" if "n < 64" for n
    using sample_nid_ok [of n] that b by (simp add: nid_ok_def word_less_nat_alt)
  then show "free_safe small_layout small_geom dirty_nm"
    by (simp add: free_safe_def m f lookup_free_nid_list_def)
qed

theorem flush_nat_entries_commits_witness:
  "disk_nat small_layout small_geom (flush_nat_entries small_layout small_geom (\<lambda>_. True) dirty_nm) 9 =
     \<lparr>r_version = 0, r_ino = 9, r_block_addr = 700\<rparr>"
proof -
  have na: "\<forall>n. nid_ok small_layout dirty_nm n \<longrightarrow> r_block_addr (nat_of small_layout small_geom dirty_nm n) \<noteq> new_addr small_layout"
    by (simp add: dirty_nm_ok(6) sample_nat_of small_addrs)
  have n9: "nid_ok small_layout dirty_nm 9" using sample_nid_ok [of 9] by (simp add: nid_ok_def dirty_nm_ok(5))
  show ?thesis
    using flush_nat_entries_commits [OF dirty_nm_ok(1-3) na, of "\<lambda>_. True"] n9
    by (simp add: Let_def dirty_nm_ok(6))
qed

end
