(* ===== verification/Discard.thy ===== *)
theory Discard
  imports Curseg
begin

text \<open>
  Discard candidates (\<open>segment.c\<close>): at a checkpoint, and for \<open>FITRIM\<close>, runs of blocks of a
  segment that hold no valid data are put on the discard list, which
  \<open>Dirty_Seglist.clear_prefree_segments\<close> sends to the device after the checkpoint.
\<close>

section \<open>Operations\<close>

record cp_control =
  cpc_reason :: cp_reason
  trim_start :: nat
  trim_end :: nat
  trim_minlen :: nat
  trimmed :: nat

text \<open>The run is merged with the last entry when it starts where that one ends.\<close>

definition add_discard_entry :: "geom \<Rightarrow> nat \<Rightarrow> nat \<Rightarrow> cp_control \<Rightarrow> sb_info \<Rightarrow> cp_control \<times> sb_info" where
  "add_discard_entry g start fin cpc s =
     (let head = discard_list s;
          a = START_BLOCK g (trim_start cpc) + of_nat start;
          n = of_nat (fin - start);
          head' = (if head \<noteq> [] \<and> a = d_blkaddr (last head) + d_len (last head)
                   then butlast head @ [(last head)\<lparr>d_len := d_len (last head) + n\<rparr>]
                   else head @ [\<lparr>d_blkaddr = a, d_len = n\<rparr>])
      in (cpc\<lparr>trimmed := trimmed cpc + (fin - start)\<rparr>,
          s\<lparr>discard_list := head', nr_discards := nr_discards s + int (fin - start)\<rparr>))"

text \<open>
  The map of the blocks to discard: for \<open>FITRIM\<close> all that the last checkpoint does not use,
  otherwise those that it uses and that are not valid any more.
\<close>

definition discard_map :: "bool \<Rightarrow> seg_entry \<Rightarrow> u64 list" where
  "discard_map force se =
     (if force then map NOT (longs_of_bytes (ckpt_valid_map se))
      else map2 (\<lambda>c k. (c XOR k) AND k) (longs_of_bytes (cur_valid_map se)) (longs_of_bytes (ckpt_valid_map se)))"

text \<open>
  The loop over the runs; \<open>e\<close> is \<open>end + 1\<close>. Every pass raises \<open>e\<close>, so that \<open>blocks_per_seg + 1\<close>
  passes are enough (\<open>discard_loop_fuel\<close>).
\<close>

fun discard_loop :: "geom \<Rightarrow> bool \<Rightarrow> u64 list \<Rightarrow> nat \<Rightarrow> nat \<Rightarrow> cp_control \<Rightarrow> sb_info \<Rightarrow> cp_control \<times> sb_info" where
  "discard_loop g force dmap 0 e cpc s = (cpc, s)"
| "discard_loop g force dmap (Suc n) e cpc s =
     (if \<not> (force \<or> nr_discards s \<le> max_discards g) then (cpc, s)
      else let start = find_rev_next_bit dmap (blocks_per_seg g) e
           in if start \<ge> blocks_per_seg g then (cpc, s)
              else let fin = find_rev_next_zero_bit dmap (blocks_per_seg g) (start + 1)
                   in if force \<and> fin - start < trim_minlen cpc then discard_loop g force dmap n (fin + 1) cpc s
                      else let (cpc, s) = add_discard_entry g start fin cpc s
                           in discard_loop g force dmap n (fin + 1) cpc s)"

definition add_discard_addrs :: "geom \<Rightarrow> cp_control \<Rightarrow> sb_info \<Rightarrow> cp_control \<times> sb_info" where
  "add_discard_addrs g cpc s =
     (let se = sentries (sit_i s) (trim_start cpc);
          force = (cpc_reason cpc = CP_DISCARD)
      in if \<not> force \<and> (\<not> test_opt (mount_opt s) MOUNT_DISCARD \<or> nr_discards s \<ge> max_discards g) then (cpc, s)
         else if force \<and> valid_blocks se = 0
         then if dirty_segmap (dirty_i s) PRE (trim_start cpc)
              then (cpc\<lparr>trimmed := trimmed cpc + blocks_per_seg g\<rparr>, s)
              else add_discard_entry g 0 (blocks_per_seg g) cpc s
         else if valid_blocks se = 0 \<or> unat (valid_blocks se) = blocks_per_seg g then (cpc, s)
         else discard_loop g force (discard_map force se) (Suc (blocks_per_seg g)) 0 cpc s)"

section \<open>The blocks on the list\<close>

definition discard_blocks :: "sb_info \<Rightarrow> nat set" where
  "discard_blocks s = (\<Union>d\<in>set (discard_list s). {unat (d_blkaddr d)..<unat (d_blkaddr d) + unat (d_len d)})"

definition discards_ok :: "geom \<Rightarrow> sb_info \<Rightarrow> bool" where
  "discards_ok g s \<longleftrightarrow>
     (\<forall>d\<in>set (discard_list s). unat (d_blkaddr d) + unat (d_len d) \<le> unat (seg0_blkaddr g) + seg_count g * blocks_per_seg g) \<and>
     nr_discards s = int (\<Sum>d\<leftarrow>discard_list s. unat (d_len d))"

text \<open>What the operations leave alone.\<close>

definition but_discards :: "sb_info \<Rightarrow> sb_info \<Rightarrow> bool" where
  "but_discards s t \<longleftrightarrow> t\<lparr>discard_list := [], nr_discards := 0\<rparr> = s\<lparr>discard_list := [], nr_discards := 0\<rparr>"

lemma but_discards_refl [simp]: "but_discards s s" by (simp add: but_discards_def)

lemma but_discards_trans: "but_discards s t \<Longrightarrow> but_discards t u \<Longrightarrow> but_discards s u"
  by (simp add: but_discards_def)

lemma but_discardsD:
  assumes "but_discards s t"
  shows "sit_i t = sit_i s" "cursegs t = cursegs s" "sit_pages t = sit_pages s" "dirty_i t = dirty_i s"
    "free_i t = free_i s" "s_flag t = s_flag s" "mount_opt t = mount_opt s"
proof -
  have e: "t\<lparr>discard_list := [], nr_discards := 0\<rparr> = s\<lparr>discard_list := [], nr_discards := 0\<rparr>"
    using assms by (simp add: but_discards_def)
  show "sit_i t = sit_i s" "cursegs t = cursegs s" "sit_pages t = sit_pages s" "dirty_i t = dirty_i s"
    "free_i t = free_i s" "s_flag t = s_flag s" "mount_opt t = mount_opt s"
    using arg_cong [OF e, of sit_i] arg_cong [OF e, of cursegs] arg_cong [OF e, of sit_pages]
      arg_cong [OF e, of dirty_i] arg_cong [OF e, of free_i] arg_cong [OF e, of s_flag] arg_cong [OF e, of mount_opt]
    by simp_all
qed

lemma blk_nat_add: "blk_nat g x (a + b) = blk_nat g x a + b"
  by (simp add: blk_nat_def)

lemma add_entry_spec:
  assumes g: "geom_ok L g" and x: "trim_start cpc < main_segments g" and r: "start < fin" "fin \<le> blocks_per_seg g"
    and ok: "discards_ok g s" and t: "(cpc', t) = add_discard_entry g start fin cpc s"
  shows "discards_ok g t" "but_discards s t"
    "discard_blocks t = discard_blocks s \<union> {blk_nat g (trim_start cpc) start..<blk_nat g (trim_start cpc) fin}"
    "trim_start cpc' = trim_start cpc" "cpc_reason cpc' = cpc_reason cpc" "trim_minlen cpc' = trim_minlen cpc"
    "trim_end cpc' = trim_end cpc"
proof -
  let ?x = "trim_start cpc" and ?E = "unat (seg0_blkaddr g) + seg_count g * blocks_per_seg g"
  define a where "a = START_BLOCK g ?x + of_nat start"
  define n :: u32 where "n = of_nat (fin - start)"
  have E: "?E < 2 ^ 32" by (rule geom_okD(9) [OF g])
  have a: "unat a = blk_nat g ?x start"
    using unat_START_BLOCK [OF g x, of start] r by (simp add: a_def)
  have n: "unat n = fin - start"
    using geom_blocks [OF g] r unat_of_nat_small [of "fin - start", where 'a = 32] by (simp add: n_def)
  have fin: "blk_nat g ?x fin = unat a + unat n"
    using blk_nat_add [of g ?x start "fin - start"] r by (simp add: a n)
  have "blk_nat g ?x fin = Suc (blk_nat g ?x (fin - 1))" using blk_nat_add [of g ?x "fin - 1" 1] r by simp
  moreover have "fin - 1 < blocks_per_seg g" using r by simp
  ultimately have top: "unat a + unat n \<le> ?E"
    using blk_nat_bound [OF g x, of "fin - 1"] fin by simp
  have tt: "cpc' = cpc\<lparr>trimmed := trimmed cpc + (fin - start)\<rparr>"
    "t = s\<lparr>discard_list := (if discard_list s \<noteq> [] \<and> a = d_blkaddr (last (discard_list s)) + d_len (last (discard_list s))
        then butlast (discard_list s) @ [(last (discard_list s))\<lparr>d_len := d_len (last (discard_list s)) + n\<rparr>]
        else discard_list s @ [\<lparr>d_blkaddr = a, d_len = n\<rparr>]), nr_discards := nr_discards s + int (fin - start)\<rparr>"
    using t unfolding add_discard_entry_def Let_def a_def n_def by simp_all
  show "trim_start cpc' = trim_start cpc" "cpc_reason cpc' = cpc_reason cpc" "trim_minlen cpc' = trim_minlen cpc"
    "trim_end cpc' = trim_end cpc"
    by (simp_all add: tt(1))
  show "but_discards s t" by (simp add: but_discards_def tt(2))
  have "discards_ok g t \<and> discard_blocks t = discard_blocks s \<union> {unat a..<unat a + unat n}"
  proof (cases "discard_list s \<noteq> [] \<and> a = d_blkaddr (last (discard_list s)) + d_len (last (discard_list s))")
    case False
    then have "discard_list t = discard_list s @ [\<lparr>d_blkaddr = a, d_len = n\<rparr>]" by (simp only: tt(2) if_False) simp
    then show ?thesis
      using ok top n by (auto simp: discards_ok_def discard_blocks_def tt(2))
  next
    case True
    define ds where "ds = butlast (discard_list s)"
    define d where "d = last (discard_list s)"
    have s: "discard_list s = ds @ [d]" using True by (simp add: ds_def d_def)
    have ae: "a = d_blkaddr d + d_len d" using True by (simp add: d_def)
    have b: "unat (d_blkaddr d) + unat (d_len d) \<le> ?E" using ok s by (simp add: discards_ok_def)
    then have ua: "unat a = unat (d_blkaddr d) + unat (d_len d)"
      unfolding ae using E by (intro unat_plus_small) simp
    have ul: "unat (d_len d + n) = unat (d_len d) + unat n"
      using top ua E by (intro unat_plus_small) simp
    have l: "discard_list t = ds @ [d\<lparr>d_len := d_len d + n\<rparr>]" using True by (simp add: tt(2) ds_def d_def)
    have "{unat (d_blkaddr d)..<unat (d_blkaddr d) + (unat (d_len d) + unat n)} =
        {unat (d_blkaddr d)..<unat (d_blkaddr d) + unat (d_len d)} \<union> {unat a..<unat a + unat n}"
      using ua by auto
    then have "discard_blocks t = discard_blocks s \<union> {unat a..<unat a + unat n}"
      by (auto simp: discard_blocks_def l s ul)
    moreover have "nr_discards t = nr_discards s + int (unat n)" by (simp add: tt(2) n)
    ultimately show ?thesis
      using ok top ua by (auto simp: discards_ok_def l s ul)
  qed
  then show "discards_ok g t"
    "discard_blocks t = discard_blocks s \<union> {blk_nat g (trim_start cpc) start..<blk_nat g (trim_start cpc) fin}"
    by (simp_all add: a fin)
qed

section \<open>The loop\<close>

lemma run_bits:
  assumes v: "longs_valid dmap sz" and s: "start = find_rev_next_bit dmap sz e" "start < sz"
    and f: "fin = find_rev_next_zero_bit dmap sz (Suc start)"
  shows "e \<le> start" "start < fin" "fin \<le> sz" "start \<le> i \<Longrightarrow> i < fin \<Longrightarrow> long_bit dmap i"
proof -
  have "is_first (\<lambda>i. long_bit dmap i \<and> (e mod 64 = 0 \<or> i div 8 = e div 8 \<or> i div 64 \<noteq> e div 64)) e sz start"
    using find_rev_next_bit_first [of sz dmap e] v by (simp add: longs_valid_def s(1))
  then have h: "e \<le> start" "long_bit dmap start" using s(2) by (simp_all add: is_first_def)
  show "e \<le> start" by (rule h(1))
  show fin: "fin \<le> sz" unfolding f by (rule rev0.search_le [OF v])
  show "start < fin"
  proof (cases "fin < sz")
    case True
    then show ?thesis using rev0.search_hit [OF v, of "Suc start"] f by simp
  qed (use s(2) in simp)
  show "long_bit dmap i" if "start \<le> i" "i < fin"
    using h(2) rev0.search_least [OF v, of "Suc start" i] that f by (cases "i = start") auto
qed

lemma discard_loop_fuel:
  assumes "longs_valid dmap (blocks_per_seg g)" "Suc (blocks_per_seg g) - e \<le> n" "n \<le> m"
  shows "discard_loop g force dmap m e cpc s = discard_loop g force dmap n e cpc s"
  using assms(2,3)
proof (induction n arbitrary: m e cpc s)
  case 0
  then have e: "blocks_per_seg g < e" by simp
  have "blocks_per_seg g \<le> find_rev_next_bit dmap (blocks_per_seg g) e"
    using e by (simp add: find_rev_next_bit_def)
  then show ?case by (cases m) simp_all
next
  case (Suc n)
  then obtain k where m: "m = Suc k" "n \<le> k" by (cases m) auto
  define start where "start = find_rev_next_bit dmap (blocks_per_seg g) e"
  define fin where "fin = find_rev_next_zero_bit dmap (blocks_per_seg g) (Suc start)"
  have "discard_loop g force dmap k (fin + 1) c u = discard_loop g force dmap n (fin + 1) c u"
    if "start < blocks_per_seg g" for c u
    using run_bits(1,2) [OF assms(1) start_def that fin_def] Suc.prems m by (intro Suc.IH) simp_all
  then show ?case
    by (cases force; cases "add_discard_entry g start fin cpc s")
      (simp_all add: m start_def [symmetric] fin_def [symmetric] Let_def)
qed

lemma discard_loop_spec:
  assumes g: "geom_ok L g" and v: "longs_valid dmap (blocks_per_seg g)"
    and "trim_start cpc < main_segments g" "discards_ok g s"
    and "(cpc', t) = discard_loop g force dmap n e cpc s"
  shows "discards_ok g t \<and> but_discards s t \<and> trim_start cpc' = trim_start cpc \<and> cpc_reason cpc' = cpc_reason cpc \<and>
    trim_end cpc' = trim_end cpc \<and>
    discard_blocks s \<subseteq> discard_blocks t \<and> discard_blocks t \<subseteq> discard_blocks s \<union>
      blk_nat g (trim_start cpc) ` {off. off < blocks_per_seg g \<and> long_bit dmap off}"
  using assms(3-5)
proof (induction n arbitrary: e cpc s)
  case 0
  then show ?case by simp
next
  case (Suc n)
  define start where "start = find_rev_next_bit dmap (blocks_per_seg g) e"
  define fin where "fin = find_rev_next_zero_bit dmap (blocks_per_seg g) (Suc start)"
  note loop = Suc.prems(3)
  consider (stop) "cpc' = cpc" "t = s"
    | (skip) "start < blocks_per_seg g" "(cpc', t) = discard_loop g force dmap n (fin + 1) cpc s"
    | (add) c u where "start < blocks_per_seg g" "(c, u) = add_discard_entry g start fin cpc s"
        "(cpc', t) = discard_loop g force dmap n (fin + 1) c u"
    using loop by (auto simp: start_def [symmetric] fin_def [symmetric] Let_def split: if_splits prod.splits)
  then show ?case
  proof cases
    case stop
    then show ?thesis using Suc.prems by simp
  next
    case skip
    show ?thesis by (rule Suc.IH [OF Suc.prems(1,2) skip(2)])
  next
    case (add c u)
    note r = run_bits [OF v start_def add(1) fin_def]
    note sp = add_entry_spec [OF g Suc.prems(1) r(2,3) Suc.prems(2) add(2)]
    have "{blk_nat g (trim_start cpc) start..<blk_nat g (trim_start cpc) fin} \<subseteq>
        blk_nat g (trim_start cpc) ` {off. off < blocks_per_seg g \<and> long_bit dmap off}"
    proof
      fix b assume "b \<in> {blk_nat g (trim_start cpc) start..<blk_nat g (trim_start cpc) fin}"
      then have b: "blk_nat g (trim_start cpc) start \<le> b" "b < blk_nat g (trim_start cpc) fin" by simp_all
      define i where "i = start + (b - blk_nat g (trim_start cpc) start)"
      have "b = blk_nat g (trim_start cpc) i" unfolding i_def blk_nat_add using b(1) by simp
      moreover have "i < fin" using b blk_nat_add [of g "trim_start cpc" start "fin - start"] r(2) by (simp add: i_def)
      moreover have "start \<le> i" by (simp add: i_def)
      ultimately show "b \<in> blk_nat g (trim_start cpc) ` {off. off < blocks_per_seg g \<and> long_bit dmap off}"
        using r(3) r(4) [of i] by auto
    qed
    moreover have "discards_ok g t \<and> but_discards u t \<and> trim_start cpc' = trim_start c \<and> cpc_reason cpc' = cpc_reason c \<and>
      trim_end cpc' = trim_end c \<and>
      discard_blocks u \<subseteq> discard_blocks t \<and> discard_blocks t \<subseteq> discard_blocks u \<union>
        blk_nat g (trim_start c) ` {off. off < blocks_per_seg g \<and> long_bit dmap off}"
      by (rule Suc.IH [OF _ sp(1) add(3)]) (simp add: sp Suc.prems(1))
    ultimately show ?thesis using sp but_discards_trans by auto
  qed
qed

lemma discard_map_bit:
  assumes "layout_ok L" and "geom_ok L g" and "seg_ok L g se" and "k < blocks_per_seg g"
  shows "long_bit (discard_map force se) k \<longleftrightarrow>
      (if force then \<not> byte_bit (ckpt_valid_map se) k else byte_bit (ckpt_valid_map se) k \<and> \<not> byte_bit (cur_valid_map se) k)"
    and "longs_valid (discard_map force se) (blocks_per_seg g)"
proof -
  have l: "length (cur_valid_map se) = sit_vblock_map_size L" "length (ckpt_valid_map se) = sit_vblock_map_size L"
    using assms(3) by (simp_all add: seg_ok_def)
  note b = map_longs [OF assms(1,2) l(1)] map_longs [OF assms(1,2) l(2)]
  have k: "k < 64 * (length (ckpt_valid_map se) div 8)" "k < 64 * (length (cur_valid_map se) div 8)"
    "k div 64 < length (ckpt_valid_map se) div 8" "k div 64 < length (cur_valid_map se) div 8"
    using assms(4) b by (simp_all add: less_mult_imp_div_less mult.commute)
  have "rev_pos (k mod 64) < 64" using rev_pos_less [of 64 "k mod 64"] by simp
  then show "long_bit (discard_map force se) k \<longleftrightarrow>
      (if force then \<not> byte_bit (ckpt_valid_map se) k else byte_bit (ckpt_valid_map se) k \<and> \<not> byte_bit (cur_valid_map se) k)"
    using k long_bit_of_bytes [OF k(1)] long_bit_of_bytes [OF k(2)]
    by (auto simp: discard_map_def long_bit_def bit_not_iff bit_and_iff bit_xor_iff)
  show "longs_valid (discard_map force se) (blocks_per_seg g)"
    using l b geom_okD(7) [OF assms(2)] by (simp add: longs_valid_def discard_map_def)
qed

lemma blk_nat_image: "{blk_nat g x 0..<blk_nat g x n} = blk_nat g x ` {..<n}"
proof -
  have "blk_nat g x = (\<lambda>i. i + blk_nat g x 0)" by (simp add: blk_nat_def fun_eq_iff)
  then show ?thesis using image_add_atLeastLessThan' [of "blk_nat g x 0" 0 n] blk_nat_add [of g x 0 n]
    by (metis add.commute add_0 atLeast0LessThan)
qed

lemma add_discards_spec:
  assumes ok: "layout_ok L" "geom_ok L g" "trim_start cpc < main_segments g" "discards_ok g s"
    and se: "seg_ok L g (sentries (sit_i s) (trim_start cpc))"
    and fo: "cpc_reason cpc = CP_DISCARD \<Longrightarrow>
      ckpt_valid_map (sentries (sit_i s) (trim_start cpc)) = cur_valid_map (sentries (sit_i s) (trim_start cpc))"
    and t: "add_discard_addrs g cpc s = (cpc', t)"
  shows "discards_ok g t \<and> but_discards s t \<and> discard_blocks s \<subseteq> discard_blocks t \<and>
      discard_blocks t \<subseteq> discard_blocks s \<union> blk_nat g (trim_start cpc) `
        {off. off < blocks_per_seg g \<and> \<not> byte_bit (cur_valid_map (sentries (sit_i s) (trim_start cpc))) off \<and>
          (cpc_reason cpc = CP_DISCARD \<or> byte_bit (ckpt_valid_map (sentries (sit_i s) (trim_start cpc))) off)} \<and>
      trim_start cpc' = trim_start cpc \<and> cpc_reason cpc' = cpc_reason cpc \<and> trim_end cpc' = trim_end cpc"
proof -
  define e where "e = sentries (sit_i s) (trim_start cpc)"
  define force where "force = (cpc_reason cpc = CP_DISCARD)"
  note b = discard_map_bit [OF ok(1,2) se]
  consider (keep) "t = s" "trim_start cpc' = trim_start cpc" "cpc_reason cpc' = cpc_reason cpc" "trim_end cpc' = trim_end cpc"
    | (all) "force" "valid_blocks e = 0" "(cpc', t) = add_discard_entry g 0 (blocks_per_seg g) cpc s"
    | (loop) "(cpc', t) = discard_loop g force (discard_map force e) (Suc (blocks_per_seg g)) 0 cpc s"
    using t unfolding add_discard_addrs_def Let_def e_def [symmetric] force_def [symmetric]
    by (auto split: if_splits)
  then show ?thesis
  proof cases
    case keep
    then show ?thesis using ok(4) by simp
  next
    case all
    have B: "0 < blocks_per_seg g" using geom_blocks [OF ok(2)] by simp
    have "nvalid g e = 0"
      using all(2) seg_valid_nat [OF ok(2) se] by (simp add: e_def)
    then have "\<not> byte_bit (cur_valid_map e) off" if "off < blocks_per_seg g" for off
      using count_bits_pos [of off "blocks_per_seg g" "byte_bit (cur_valid_map e)"] that by (auto simp: nvalid_def)
    then have "blk_nat g (trim_start cpc) ` {..<blocks_per_seg g} = blk_nat g (trim_start cpc) `
        {off. off < blocks_per_seg g \<and> \<not> byte_bit (cur_valid_map e) off}"
      by (intro arg_cong [of _ _ "image (blk_nat g (trim_start cpc))"]) auto
    then show ?thesis
      using add_entry_spec [OF ok(2,3) B le_refl ok(4) all(3)] all(1) blk_nat_image [of g "trim_start cpc"]
      by (simp add: e_def force_def)
  next
    case loop
    have v: "longs_valid (discard_map force e) (blocks_per_seg g)"
      using b(2) [of 0] geom_blocks [OF ok(2)] by (simp add: e_def)
    have "{off. off < blocks_per_seg g \<and> long_bit (discard_map force e) off} \<subseteq>
        {off. off < blocks_per_seg g \<and> \<not> byte_bit (cur_valid_map e) off \<and> (force \<or> byte_bit (ckpt_valid_map e) off)}"
      using b(1) fo by (auto simp: e_def force_def split: if_splits)
    then have "blk_nat g (trim_start cpc) ` {off. off < blocks_per_seg g \<and> long_bit (discard_map force e) off} \<subseteq>
        blk_nat g (trim_start cpc) `
        {off. off < blocks_per_seg g \<and> \<not> byte_bit (cur_valid_map e) off \<and> (force \<or> byte_bit (ckpt_valid_map e) off)}"
      by (rule image_mono)
    then show ?thesis
      using discard_loop_spec [OF ok(2) v ok(3,4) loop] unfolding e_def force_def by blast
  qed
qed

text \<open>
  C12: A run put on the discard list holds no valid block. At a checkpoint the blocks added are
  blocks of the segment that the last checkpoint used and that are not valid any more; for
  \<open>FITRIM\<close>, called when the segment's entry has just been written, they are blocks that are not
  valid. The list stays within the volume and its count exact, and nothing else changes.
\<close>
theorem discards_hold_no_valid_block:
  assumes "layout_ok L" "geom_ok L g" "trim_start cpc < main_segments g" "discards_ok g s"
    and "seg_ok L g (sentries (sit_i s) (trim_start cpc))"
    and "cpc_reason cpc = CP_DISCARD \<Longrightarrow>
      ckpt_valid_map (sentries (sit_i s) (trim_start cpc)) = cur_valid_map (sentries (sit_i s) (trim_start cpc))"
  shows "let se = sentries (sit_i s) (trim_start cpc); (cpc', t) = add_discard_addrs g cpc s
    in discards_ok g t \<and> but_discards s t \<and> discard_blocks s \<subseteq> discard_blocks t \<and>
      discard_blocks t \<subseteq> discard_blocks s \<union> blk_nat g (trim_start cpc) `
        {off. off < blocks_per_seg g \<and> \<not> byte_bit (cur_valid_map se) off \<and>
          (cpc_reason cpc = CP_DISCARD \<or> byte_bit (ckpt_valid_map se) off)}"
  unfolding Let_def
  by (rule case_prodI2) (use add_discards_spec [OF assms] in blast)

text \<open>\<open>FITRIM\<close> of segment 3 of the sample volume, in which nothing is valid.\<close>

definition trim_cpc :: cp_control where
  "trim_cpc = \<lparr>cpc_reason = CP_DISCARD, trim_start = 3, trim_end = 3, trim_minlen = 1, trimmed = 0\<rparr>"

theorem discards_hold_no_valid_block_witness:
  "discard_blocks (snd (add_discard_addrs small_geom trim_cpc sample_sb)) \<subseteq> blk_nat small_geom 3 ` {..<64} \<and>
   trimmed (fst (add_discard_addrs small_geom trim_cpc sample_sb)) = 64"
proof -
  obtain c t where r: "add_discard_addrs small_geom trim_cpc sample_sb = (c, t)" by fastforce
  have x: "trim_start trim_cpc < main_segments small_geom" by (simp add: trim_cpc_def small_geom_def)
  then have "seg_ok small_layout small_geom (sentries (sit_i sample_sb) (trim_start trim_cpc))"
    using sample_store_ok(1) by (simp add: sit_ok_def)
  moreover have "discards_ok small_geom sample_sb" by (simp add: discards_ok_def sample_sb_def)
  moreover have "ckpt_valid_map (sentries (sit_i sample_sb) (trim_start trim_cpc)) =
      cur_valid_map (sentries (sit_i sample_sb) (trim_start trim_cpc))"
    by (simp add: sample_sb_def sample_seg_def)
  ultimately have "discard_blocks t \<subseteq> discard_blocks sample_sb \<union> blk_nat small_geom (trim_start trim_cpc) `
      {off. off < blocks_per_seg small_geom}"
    using discards_hold_no_valid_block [OF small_layout_ok small_geom_ok x, of sample_sb] r by (auto simp: Let_def)
  then have "discard_blocks t \<subseteq> blk_nat small_geom 3 ` {..<64}"
    by (simp add: discard_blocks_def sample_sb_def trim_cpc_def small_geom_def lessThan_def)
  moreover have "trimmed c = 64"
    using r by (auto simp: add_discard_addrs_def add_discard_entry_def trim_cpc_def sample_sb_def sample_seg_def
        small_geom_def Let_def)
  ultimately show ?thesis by (simp add: r)
qed

end
