(* ===== verification/Sit_Flush.thy ===== *)
theory Sit_Flush
  imports Discard Meta_Journal
begin

text \<open>
  The segment information table on the device (\<open>segment.c\<close>, \<open>segment.h\<close>): two copies of every
  SIT block, of which the SIT bitmap of the checkpoint says the current one, with the SIT journal
  of the cold data log over it. \<open>flush_sit_entries\<close> writes the dirty entries at a checkpoint, and
  the prefree segments become free. The list of sets is empty between two flushes, so it is local.
\<close>

section \<open>SIT blocks\<close>

definition SIT_BLOCK_OFFSET :: "layout \<Rightarrow> nat \<Rightarrow> nat" where
  "SIT_BLOCK_OFFSET L segno = segno div sit_entry_per_block L"

definition START_SEGNO :: "layout \<Rightarrow> nat \<Rightarrow> nat" where
  "START_SEGNO L segno = SIT_BLOCK_OFFSET L segno * sit_entry_per_block L"

definition SIT_ENTRY_OFFSET :: "layout \<Rightarrow> nat \<Rightarrow> nat" where
  "SIT_ENTRY_OFFSET L segno = segno mod sit_entry_per_block L"

definition check_seg_range :: "geom \<Rightarrow> nat \<Rightarrow> sb_info \<Rightarrow> sb_info" where
  "check_seg_range g segno s = (if segno > seg_count g - 1 then set_sbi_flag SBI_NEED_FSCK s else s)"

definition current_sit_addr :: "layout \<Rightarrow> geom \<Rightarrow> nat \<Rightarrow> sb_info \<Rightarrow> nat" where
  "current_sit_addr L g start s =
     (let offset = SIT_BLOCK_OFFSET L start;
          blk_addr = sit_base_addr g + of_nat offset
      in unat (if f2fs_test_bit offset (sit_bitmap (sit_i s)) \<noteq> 0 then blk_addr + sit_blocks g else blk_addr))"

definition next_sit_addr :: "geom \<Rightarrow> nat \<Rightarrow> nat" where
  "next_sit_addr g block_addr =
     (let block_addr = block_addr - unat (sit_base_addr g);
          block_addr = (if block_addr < unat (sit_blocks g) then block_addr + unat (sit_blocks g)
                        else block_addr - unat (sit_blocks g))
      in block_addr + unat (sit_base_addr g))"

definition set_to_next_sit :: "layout \<Rightarrow> nat \<Rightarrow> sit_info \<Rightarrow> sit_info" where
  "set_to_next_sit L start si = si\<lparr>sit_bitmap := f2fs_change_bit (SIT_BLOCK_OFFSET L start) (sit_bitmap si)\<rparr>"

definition get_current_sit_page :: "layout \<Rightarrow> geom \<Rightarrow> nat \<Rightarrow> sb_info \<Rightarrow> (nat \<Rightarrow> f2fs_sit_entry) \<times> sb_info" where
  "get_current_sit_page L g segno s =
     (sit_pages s (current_sit_addr L g segno s), check_seg_range g segno s)"

definition get_next_sit_page :: "layout \<Rightarrow> geom \<Rightarrow> nat \<Rightarrow> sb_info \<Rightarrow> nat \<times> sb_info" where
  "get_next_sit_page L g start s =
     (let src_off = current_sit_addr L g start s;
          s = check_seg_range g start s;
          dst_off = next_sit_addr g src_off;
          s = s\<lparr>sit_pages := (sit_pages s)(dst_off := sit_pages s src_off)\<rparr>
      in (dst_off, s\<lparr>sit_i := set_to_next_sit L start (sit_i s)\<rparr>))"

section \<open>Sets of dirty entries\<close>

record sit_entry_set =
  ses_start :: nat             \<comment> \<open>start_segno\<close>
  ses_cnt :: int               \<comment> \<open>entry_cnt\<close>

text \<open>Where \<open>adjust_sit_entry_set\<close> moves a set: before the first one after it that is not smaller.\<close>

fun adjust_sit_entry_set :: "sit_entry_set \<Rightarrow> sit_entry_set list \<Rightarrow> sit_entry_set list" where
  "adjust_sit_entry_set ses [] = [ses]"
| "adjust_sit_entry_set ses (nx # rest) =
     (if ses_cnt ses \<le> ses_cnt nx then ses # nx # rest else nx # adjust_sit_entry_set ses rest)"

fun bump_sit_entry_set :: "nat \<Rightarrow> sit_entry_set list \<Rightarrow> sit_entry_set list option" where
  "bump_sit_entry_set sno [] = None"
| "bump_sit_entry_set sno (ses # rest) =
     (if ses_start ses = sno
      then Some (adjust_sit_entry_set (ses\<lparr>ses_cnt := ses_cnt ses + 1\<rparr>) rest)
      else map_option ((#) ses) (bump_sit_entry_set sno rest))"

definition add_sit_entry :: "layout \<Rightarrow> nat \<Rightarrow> sit_entry_set list \<Rightarrow> sit_entry_set list" where
  "add_sit_entry L segno head =
     (case bump_sit_entry_set (START_SEGNO L segno) head of
        Some head' \<Rightarrow> head'
      | None \<Rightarrow> \<lparr>ses_start = START_SEGNO L segno, ses_cnt = 1\<rparr> # head)"

definition add_sits_in_set :: "layout \<Rightarrow> geom \<Rightarrow> sb_info \<Rightarrow> sit_entry_set list \<Rightarrow> sit_entry_set list" where
  "add_sits_in_set L g s head =
     fold (add_sit_entry L) (for_each_set_bit (dirty_sentries_bitmap (sit_i s)) (main_segments g) 0) head"

definition cold_sum :: "sb_info \<Rightarrow> summary_block" where
  "cold_sum s = sum_blk (cursegs s CURSEG_COLD_DATA)"

definition put_cold_sum :: "summary_block \<Rightarrow> sb_info \<Rightarrow> sb_info" where
  "put_cold_sum sm s =
     s\<lparr>cursegs := (cursegs s)(CURSEG_COLD_DATA := (cursegs s CURSEG_COLD_DATA)\<lparr>sum_blk := sm\<rparr>)\<rparr>"

definition remove_sit_of_journal ::
  "layout \<Rightarrow> nat \<Rightarrow> sb_info \<times> sit_entry_set list \<Rightarrow> sb_info \<times> sit_entry_set list" where
  "remove_sit_of_journal L i = (\<lambda>(s, head).
     let segno = unat (segno_in_journal (cold_sum s) i);
         (dirtied, si) = mark_sit_entry_dirty segno (sit_i s)
     in (s\<lparr>sit_i := si\<rparr>, if \<not> dirtied then add_sit_entry L segno head else head))"

definition remove_sits_in_journal ::
  "layout \<Rightarrow> sb_info \<Rightarrow> sit_entry_set list \<Rightarrow> sb_info \<times> sit_entry_set list" where
  "remove_sits_in_journal L s head =
     (let n = sits_in_cursum (cold_sum s);
          (s, head) = fold (remove_sit_of_journal L) (rev [0..<n]) (s, head)
      in (put_cold_sum (snd (update_sits_in_cursum (- int n) (cold_sum s))) s, head))"

section \<open>The flush\<close>

text \<open>
  One entry; where it goes is None for the journal and the address of the SIT block otherwise.
\<close>

definition write_sit_entry :: "layout \<Rightarrow> nat option \<Rightarrow> nat \<Rightarrow> sb_info \<Rightarrow> sb_info" where
  "write_sit_entry L page segno s =
     (let (se, raw) = seg_info_to_raw_sit L (sentries (sit_i s) segno);
          s = (case page of
                 None \<Rightarrow>
                   (let (offset, sm) = lookup_journal_in_cursum L (cold_sum s) SIT_JOURNAL (of_nat segno) True
                    in case offset of None \<Rightarrow> f2fs_bug_on True s
                       | Some i \<Rightarrow> put_cold_sum (sm\<lparr>sit_j := (sit_j sm)
                           \<lparr>jkey := (jkey (sit_j sm))(i := of_nat segno), jent := (jent (sit_j sm))(i := raw)\<rparr>\<rparr>) s)
               | Some a \<Rightarrow>
                   s\<lparr>sit_pages := (sit_pages s)(a := (sit_pages s a)(SIT_ENTRY_OFFSET L segno := raw))\<rparr>);
          si = put_seg_entry segno se (sit_i s);
          si = si\<lparr>dirty_sentries_bitmap := (dirty_sentries_bitmap si)(segno := False),
                  dirty_sentries := dirty_sentries si - 1\<rparr>
      in s\<lparr>sit_i := si\<rparr>)"

definition flush_sit_entry ::
  "layout \<Rightarrow> geom \<Rightarrow> nat option \<Rightarrow> nat \<Rightarrow> cp_control \<times> sb_info \<Rightarrow> cp_control \<times> sb_info" where
  "flush_sit_entry L g page segno = (\<lambda>(cpc, s).
     let (cpc, s) = (if cpc_reason cpc \<noteq> CP_DISCARD
                     then add_discard_addrs g (cpc\<lparr>trim_start := segno\<rparr>) s else (cpc, s))
     in (cpc, write_sit_entry L page segno s))"

definition flush_sit_entry_set ::
  "layout \<Rightarrow> geom \<Rightarrow> sit_entry_set \<Rightarrow> bool \<times> cp_control \<times> sb_info \<Rightarrow> bool \<times> cp_control \<times> sb_info" where
  "flush_sit_entry_set L g ses = (\<lambda>(to_journal, cpc, s).
     let start = ses_start ses;
         fin = min (start + sit_entry_per_block L) (main_segments g);
         to_journal = (to_journal \<and> has_cursum_space L (cold_sum s) (nat (ses_cnt ses)) SIT_JOURNAL);
         (page, s) = (if to_journal then (None, s)
                      else let (a, s) = get_next_sit_page L g start s in (Some a, s));
         segs = for_each_set_bit (dirty_sentries_bitmap (sit_i s)) fin start;
         (cpc, s) = fold (flush_sit_entry L g page) segs (cpc, s)
     in (to_journal, cpc, f2fs_bug_on (ses_cnt ses - int (length segs) \<noteq> 0) s))"

definition flush_sit_entries :: "layout \<Rightarrow> geom \<Rightarrow> cp_control \<Rightarrow> sb_info \<Rightarrow> cp_control \<times> sb_info" where
  "flush_sit_entries L g cpc s =
     (let (cpc, s) =
            (if dirty_sentries (sit_i s) = 0 then (cpc, s)
             else let head = add_sits_in_set L g s [];
                      (s, head) = (if \<not> has_cursum_space L (cold_sum s) (unat (dirty_sentries (sit_i s))) SIT_JOURNAL
                                   then remove_sits_in_journal L s head else (s, head));
                      (_, cpc, s) = fold (flush_sit_entry_set L g) head (True, cpc, s)
                  in (cpc, f2fs_bug_on (dirty_sentries (sit_i s) \<noteq> 0) s));
          (cpc, s) =
            (if cpc_reason cpc = CP_DISCARD
             then let (c, s) = fold (\<lambda>x (c, s). add_discard_addrs g (c\<lparr>trim_start := x\<rparr>) s)
                                 [trim_start cpc..<Suc (trim_end cpc)] (cpc, s)
                  in (c\<lparr>trim_start := max (trim_start cpc) (Suc (trim_end cpc))\<rparr>, s)
             else (cpc, s))
      in (cpc, set_prefree_as_free_segments g s))"

section \<open>The two copies\<close>

definition sit_geom_ok :: "geom \<Rightarrow> bool" where
  "sit_geom_ok g \<longleftrightarrow> unat (sit_base_addr g) + 2 * unat (sit_blocks g) < 2 ^ 32"

definition sit_copy :: "geom \<Rightarrow> bool \<Rightarrow> nat \<Rightarrow> nat" where
  "sit_copy g c b = unat (sit_base_addr g) + b + (if c then unat (sit_blocks g) else 0)"

definition sit_cur :: "geom \<Rightarrow> nat \<Rightarrow> sb_info \<Rightarrow> nat" where
  "sit_cur g b s = sit_copy g (byte_bit (sit_bitmap (sit_i s)) b) b"

definition sit_nxt :: "geom \<Rightarrow> nat \<Rightarrow> sb_info \<Rightarrow> nat" where
  "sit_nxt g b s = sit_copy g (\<not> byte_bit (sit_bitmap (sit_i s)) b) b"

definition sit_flip :: "nat \<Rightarrow> sb_info \<Rightarrow> sb_info" where
  "sit_flip b s = s\<lparr>sit_i := (sit_i s)\<lparr>sit_bitmap := f2fs_change_bit b (sit_bitmap (sit_i s))\<rparr>\<rparr>"

definition sit_blk_ok :: "geom \<Rightarrow> sb_info \<Rightarrow> nat \<Rightarrow> bool" where
  "sit_blk_ok g s b \<longleftrightarrow> b < 8 * length (sit_bitmap (sit_i s)) \<and> b < unat (sit_blocks g)"

lemma sit_copy_inj:
  "b < unat (sit_blocks g) \<Longrightarrow> b' < unat (sit_blocks g) \<Longrightarrow> sit_copy g c b = sit_copy g c' b' \<Longrightarrow> b = b' \<and> c = c'"
  by (auto simp: sit_copy_def split: if_splits)

interpretation sit_shadow: shadow_pages "\<lambda>s. sit_geom_ok g" "sit_blk_ok g" "sit_cur g" "sit_nxt g" sit_flip
  for g
proof unfold_locales
  fix s :: sb_info and b b'
  assume ok: "sit_blk_ok g s b" "sit_blk_ok g s b'"
  then show "sit_cur g b' (sit_flip b s) = (if b' = b then sit_nxt g b s else sit_cur g b' s)"
    by (simp add: sit_cur_def sit_nxt_def sit_flip_def byte_bit_change sit_blk_ok_def)
  show "sit_nxt g b s \<noteq> sit_cur g b' s"
    unfolding sit_cur_def sit_nxt_def using sit_copy_inj [of b g b'] ok by (auto simp: sit_blk_ok_def)
  show "sit_cur g b s \<noteq> sit_cur g b' s" if "b \<noteq> b'"
    using sit_copy_inj [of b g b'] that ok by (auto simp: sit_cur_def sit_blk_ok_def)
qed (simp_all add: sit_flip_def sit_blk_ok_def)

lemma current_sit_addr_eq:
  assumes "sit_geom_ok g" "SIT_BLOCK_OFFSET L x < unat (sit_blocks g)"
  shows "current_sit_addr L g x s = sit_cur g (SIT_BLOCK_OFFSET L x) s"
proof -
  let ?b = "SIT_BLOCK_OFFSET L x"
  have b: "unat (sit_base_addr g) + ?b + unat (sit_blocks g) < 2 ^ 32" using assms by (simp add: sit_geom_ok_def)
  have u: "unat (of_nat ?b :: u32) = ?b" using b by (intro unat_of_nat_small) simp
  have s: "unat (sit_base_addr g + of_nat ?b) = unat (sit_base_addr g) + ?b"
    using unat_plus_small [of "sit_base_addr g" "of_nat ?b"] u b by simp
  then have "unat (sit_base_addr g + of_nat ?b + sit_blocks g) = unat (sit_base_addr g) + ?b + unat (sit_blocks g)"
    using unat_plus_small [of "sit_base_addr g + of_nat ?b" "sit_blocks g"] b by simp
  then show ?thesis using s by (simp add: current_sit_addr_def Let_def sit_cur_def sit_copy_def byte_bit_def)
qed

lemma next_sit_addr_eq:
  "b < unat (sit_blocks g) \<Longrightarrow> next_sit_addr g (sit_cur g b s) = sit_nxt g b s"
  by (simp add: next_sit_addr_def Let_def sit_cur_def sit_nxt_def sit_copy_def)

section \<open>The sets\<close>

definition sets_for :: "layout \<Rightarrow> nat set \<Rightarrow> sit_entry_set list \<Rightarrow> bool" where
  "sets_for L X head \<longleftrightarrow> distinct (map ses_start head) \<and> ses_start ` set head = START_SEGNO L ` X \<and>
     (\<forall>ses\<in>set head. ses_cnt ses = int (card {x \<in> X. START_SEGNO L x = ses_start ses}))"

lemma adjust_set: "set (adjust_sit_entry_set ses xs) = insert ses (set xs)"
  by (induction ses xs rule: adjust_sit_entry_set.induct) auto

lemma adjust_distinct:
  "distinct (map ses_start (adjust_sit_entry_set ses xs)) \<longleftrightarrow> ses_start ses \<notin> ses_start ` set xs \<and> distinct (map ses_start xs)"
  by (induction ses xs rule: adjust_sit_entry_set.induct) (auto simp: adjust_set)

lemma bump_None: "bump_sit_entry_set k head = None \<longleftrightarrow> k \<notin> ses_start ` set head"
  by (induction k head rule: bump_sit_entry_set.induct) auto

lemma bump_Some:
  assumes "bump_sit_entry_set k head = Some head'" "distinct (map ses_start head)"
  shows "distinct (map ses_start head') \<and> (\<exists>ses. ses \<in> set head \<and> ses_start ses = k \<and>
    set head' = insert (ses\<lparr>ses_cnt := ses_cnt ses + 1\<rparr>) (set head - {ses}))"
  using assms
proof (induction k head arbitrary: head' rule: bump_sit_entry_set.induct)
  case (2 k ses rest)
  show ?case
  proof (cases "ses_start ses = k")
    case True
    then have h: "head' = adjust_sit_entry_set (ses\<lparr>ses_cnt := ses_cnt ses + 1\<rparr>) rest" using 2(2) by simp
    have n: "ses_start ses \<notin> ses_start ` set rest" "ses \<notin> set rest" using 2(3) by auto
    then have "insert ses (set rest) - {ses} = set rest" by auto
    then show ?thesis using True n 2(3) by (auto simp: h adjust_set adjust_distinct)
  next
    case False
    then obtain r where r: "bump_sit_entry_set k rest = Some r" "head' = ses # r" using 2(2) by auto
    obtain e where e: "distinct (map ses_start r)" "e \<in> set rest" "ses_start e = k"
      "set r = insert (e\<lparr>ses_cnt := ses_cnt e + 1\<rparr>) (set rest - {e})"
      using 2(1) [OF False r(1)] 2(3) by auto
    have "ses_start ses \<notin> ses_start ` set r" using 2(3) False e by auto
    moreover have "e \<noteq> ses" using False e by auto
    then have "set head' = insert (e\<lparr>ses_cnt := ses_cnt e + 1\<rparr>) (set (ses # rest) - {e})" using e r by auto
    ultimately show ?thesis using e r by auto
  qed
qed simp

lemma add_sit_entry_sets:
  assumes "sets_for L X head" "x \<notin> X" "finite X"
  shows "sets_for L (insert x X) (add_sit_entry L x head)"
proof -
  let ?k = "START_SEGNO L x"
  have c: "card {y \<in> insert x X. START_SEGNO L y = k} = card {y \<in> X. START_SEGNO L y = k} + (if k = ?k then 1 else 0)" for k
  proof (cases "k = ?k")
    case True
    then have "{y \<in> insert x X. START_SEGNO L y = k} = insert x {y \<in> X. START_SEGNO L y = k}" by auto
    then show ?thesis using True assms(2,3) by simp
  next
    case False
    then have "{y \<in> insert x X. START_SEGNO L y = k} = {y \<in> X. START_SEGNO L y = k}" by auto
    then show ?thesis using False by simp
  qed
  show ?thesis
  proof (cases "bump_sit_entry_set ?k head")
    case None
    then have n: "?k \<notin> START_SEGNO L ` X" using assms(1) by (simp add: bump_None sets_for_def)
    then have z: "{y \<in> X. START_SEGNO L y = ?k} = {}" by (auto simp: image_iff)
    have z0: "card {y \<in> X. START_SEGNO L y = ?k} = 0" by (simp only: z card.empty)
    have "ses_start ses \<noteq> ?k" if "ses \<in> set head" for ses
      using that n assms(1) unfolding sets_for_def by (metis imageI)
    moreover have "add_sit_entry L x head = \<lparr>ses_start = ?k, ses_cnt = 1\<rparr> # head" by (simp add: add_sit_entry_def None)
    moreover have "card {xa. (xa = x \<or> xa \<in> X) \<and> START_SEGNO L xa = k} = card {y \<in> X. START_SEGNO L y = k} + (if k = ?k then 1 else 0)" for k
      using c [of k] by simp
    ultimately show ?thesis
      using assms(1) n z0 by (auto simp: sets_for_def)
  next
    case (Some head')
    have d: "distinct (map ses_start head)" using assms(1) by (simp add: sets_for_def)
    obtain ses where s: "distinct (map ses_start head')" "ses \<in> set head" "ses_start ses = ?k"
      "set head' = insert (ses\<lparr>ses_cnt := ses_cnt ses + 1\<rparr>) (set head - {ses})"
      using bump_Some [OF Some d] by blast
    have st: "ses_start ` set head' = ses_start ` set head" using s by force
    have "?k \<in> START_SEGNO L ` X" using s(2,3) assms(1) unfolding sets_for_def by (metis imageI)
    then have im: "START_SEGNO L ` insert x X = START_SEGNO L ` X" by auto
    have "ses_cnt e = int (card {y \<in> insert x X. START_SEGNO L y = ses_start e})" if "e \<in> set head'" for e
    proof (cases "e = ses\<lparr>ses_cnt := ses_cnt ses + 1\<rparr>")
      case True
      then show ?thesis using assms(1) s(2,3) c [of ?k] by (simp add: sets_for_def)
    next
      case False
      then have e: "e \<in> set head" "e \<noteq> ses" using that s(4) by auto
      then have "ses_start e \<noteq> ses_start ses" using d s(2) by (auto simp: distinct_map dest: inj_onD)
      then show ?thesis using assms(1) e s(3) c [of "ses_start e"] by (simp add: sets_for_def)
    qed
    then show ?thesis using Some s(1) st im assms(1) by (simp add: add_sit_entry_def sets_for_def)
  qed
qed

lemma add_sits_sets:
  assumes "sets_for L X head" "finite X" "distinct xs" "set xs \<inter> X = {}"
  shows "sets_for L (set xs \<union> X) (fold (add_sit_entry L) xs head)"
  using assms
proof (induction xs arbitrary: X head)
  case (Cons x xs)
  have "sets_for L (set xs \<union> insert x X) (fold (add_sit_entry L) xs (add_sit_entry L x head))"
    by (rule Cons.IH [OF add_sit_entry_sets]) (use Cons.prems in auto)
  then show ?case by simp
qed simp

section \<open>One entry\<close>

text \<open>The raw entry of a segment, its entry in memory after the write, and the table on the device.\<close>

definition raw_of :: "layout \<Rightarrow> sb_info \<Rightarrow> nat \<Rightarrow> f2fs_sit_entry" where
  "raw_of L s x = snd (seg_info_to_raw_sit L (sentries (sit_i s) x))"

definition saved :: "layout \<Rightarrow> sb_info \<Rightarrow> nat \<Rightarrow> seg_entry" where
  "saved L s x = fst (seg_info_to_raw_sit L (sentries (sit_i s) x))"

definition cold_j :: "sb_info \<Rightarrow> f2fs_sit_entry journal" where
  "cold_j s = sit_j (cold_sum s)"

definition block_sit :: "layout \<Rightarrow> geom \<Rightarrow> sb_info \<Rightarrow> u32 \<Rightarrow> f2fs_sit_entry" where
  "block_sit L g s k = sit_pages s (current_sit_addr L g (unat k) s) (SIT_ENTRY_OFFSET L (unat k))"

definition disk_sit :: "layout \<Rightarrow> geom \<Rightarrow> sb_info \<Rightarrow> nat \<Rightarrow> f2fs_sit_entry" where
  "disk_sit L g s x = over (cold_j s) (block_sit L g s) (of_nat x)"

definition sit_dev_ok :: "layout \<Rightarrow> geom \<Rightarrow> sb_info \<Rightarrow> bool" where
  "sit_dev_ok L g s \<longleftrightarrow> 0 < sit_entry_per_block L \<and> main_segments g < 2 ^ 32 \<and> sit_geom_ok g \<and>
     (\<forall>x<main_segments g. sit_blk_ok g s (SIT_BLOCK_OFFSET L x)) \<and>
     jok (cold_j s) \<and> jn (cold_j s) \<le> sit_journal_entries L \<and> (\<forall>k\<in>jkeys (cold_j s). unat k < main_segments g)"

text \<open>The entry without the discards.\<close>

definition sit_written :: "layout \<Rightarrow> nat option \<Rightarrow> nat \<Rightarrow> sb_info \<Rightarrow> sb_info" where
  "sit_written L page x s =
     (let u = (case page of
                 None \<Rightarrow> put_cold_sum ((cold_sum s)\<lparr>sit_j := jput (of_nat x) (raw_of L s x) (cold_j s)\<rparr>) s
               | Some a \<Rightarrow> s\<lparr>sit_pages := (sit_pages s)(a := (sit_pages s a)(SIT_ENTRY_OFFSET L x := raw_of L s x))\<rparr>)
      in u\<lparr>sit_i := (sit_i s)\<lparr>sentries := (sentries (sit_i s))(x := saved L s x),
             dirty_sentries_bitmap := (dirty_sentries_bitmap (sit_i s))(x := False),
             dirty_sentries := dirty_sentries (sit_i s) - 1\<rparr>\<rparr>)"

lemma cold_put [simp]: "cold_sum (put_cold_sum sm s) = sm" "sit_i (put_cold_sum sm s) = sit_i s"
  "sit_pages (put_cold_sum sm s) = sit_pages s" "s_flag (put_cold_sum sm s) = s_flag s" "dirty_i (put_cold_sum sm s) = dirty_i s"
  "free_i (put_cold_sum sm s) = free_i s" "discard_list (put_cold_sum sm s) = discard_list s"
  "nr_discards (put_cold_sum sm s) = nr_discards s" "mount_opt (put_cold_sum sm s) = mount_opt s"
  by (simp_all add: cold_sum_def put_cold_sum_def)

lemma written_simps [simp]:
  "cold_j (sit_written L page x s) = (if page = None then jput (of_nat x) (raw_of L s x) (cold_j s) else cold_j s)"
  "sentries (sit_i (sit_written L page x s)) = (sentries (sit_i s))(x := saved L s x)"
  "dirty_sentries_bitmap (sit_i (sit_written L page x s)) = (dirty_sentries_bitmap (sit_i s))(x := False)"
  "dirty_sentries (sit_i (sit_written L page x s)) = dirty_sentries (sit_i s) - 1"
  "sit_bitmap (sit_i (sit_written L page x s)) = sit_bitmap (sit_i s)"
  "s_flag (sit_written L page x s) = s_flag s" "dirty_i (sit_written L page x s) = dirty_i s"
  "free_i (sit_written L page x s) = free_i s" "discard_list (sit_written L page x s) = discard_list s"
  "nr_discards (sit_written L page x s) = nr_discards s" "mount_opt (sit_written L page x s) = mount_opt s"
  "page \<noteq> Some b \<Longrightarrow> sit_pages (sit_written L page x s) b = sit_pages s b"
  by (cases page; simp add: sit_written_def Let_def cold_j_def; simp add: cold_sum_def put_cold_sum_def)+

lemma written_page:
  "sit_pages (sit_written L (Some a) x s) a = (sit_pages s a)(SIT_ENTRY_OFFSET L x := raw_of L s x)"
  by (simp add: sit_written_def)

lemma saved_fields: "cur_valid_map (saved L s x) = cur_valid_map (sentries (sit_i s) x)"
  "ckpt_valid_map (saved L s x) = cur_valid_map (sentries (sit_i s) x)"
  by (simp_all add: saved_def seg_info_to_raw_sit_def Let_def)

lemma saved_same: "sentries (sit_i t) y = saved L s y \<Longrightarrow> raw_of L t y = raw_of L s y \<and> saved L t y = saved L s y"
  by (simp add: raw_of_def saved_def seg_info_to_raw_sit_def Let_def)

lemma sit_addr_cong:
  "sit_bitmap (sit_i t) = sit_bitmap (sit_i s) \<Longrightarrow> current_sit_addr L g x t = current_sit_addr L g x s"
  by (simp add: current_sit_addr_def)

lemma dev_okD:
  assumes "sit_dev_ok L g s" "x < main_segments g"
  shows "unat (of_nat x :: u32) = x" "sit_blk_ok g s (SIT_BLOCK_OFFSET L x)"
    "current_sit_addr L g x s = sit_cur g (SIT_BLOCK_OFFSET L x) s"
  using assms current_sit_addr_eq [of g L x s]
  by (simp_all add: sit_dev_ok_def unat_of_nat_small sit_blk_ok_def)

lemma same_slot:
  "SIT_BLOCK_OFFSET L x = SIT_BLOCK_OFFSET L y \<Longrightarrow> SIT_ENTRY_OFFSET L x = SIT_ENTRY_OFFSET L y \<Longrightarrow> x = y"
  unfolding SIT_BLOCK_OFFSET_def SIT_ENTRY_OFFSET_def by (metis div_mult_mod_eq)

lemma sit_written_disk:
  assumes ok: "sit_dev_ok L g s" and x: "x < main_segments g" and y: "y < main_segments g"
    and p: "page = None \<or> page = Some (current_sit_addr L g x s) \<and> of_nat x \<notin> jkeys (cold_j s)"
  shows "disk_sit L g (sit_written L page x s) y = (if y = x then raw_of L s x else disk_sit L g s y)"
proof -
  let ?t = "sit_written L page x s"
  have inj: "(of_nat y :: u32) = of_nat x \<longleftrightarrow> y = x"
    using dev_okD(1) [OF ok x] dev_okD(1) [OF ok y] by metis
  have addr: "current_sit_addr L g z (sit_written L p x s) = current_sit_addr L g z s" for z p
    by (rule sit_addr_cong) simp
  show ?thesis
  proof (cases page)
    case None
    then have "block_sit L g ?t = block_sit L g s" by (simp add: block_sit_def addr fun_eq_iff)
    then show ?thesis
      using None ok inj by (simp add: disk_sit_def over_jput sit_dev_ok_def)
  next
    case (Some a)
    then have a: "a = current_sit_addr L g x s" "of_nat x \<notin> jkeys (cold_j s)" using p by simp_all
    have "block_sit L g ?t (of_nat y) = (if y = x then raw_of L s x else block_sit L g s (of_nat y))"
    proof (cases "SIT_BLOCK_OFFSET L y = SIT_BLOCK_OFFSET L x")
      case True
      then have "current_sit_addr L g y s = a" using a dev_okD(3) [OF ok x] dev_okD(3) [OF ok y] by simp
      then show ?thesis
        using same_slot [OF True] by (auto simp: block_sit_def addr dev_okD(1) [OF ok y] Some written_page)
    next
      case False
      then have "current_sit_addr L g y s \<noteq> a"
        using sit_shadow.cur_apart [of g s "SIT_BLOCK_OFFSET L y" "SIT_BLOCK_OFFSET L x"] ok
          dev_okD(2,3) [OF ok x] dev_okD(2,3) [OF ok y] by (simp add: a(1) sit_dev_ok_def)
      then show ?thesis using False by (auto simp: block_sit_def addr dev_okD(1) [OF ok y] Some)
    qed
    then show ?thesis
      using Some a(2) inj jlook_None [of "cold_j s" "of_nat x"]
      by (auto simp: disk_sit_def over_def split: option.split)
  qed
qed

lemma written_dev_ok:
  assumes "sit_dev_ok L g s" "x < main_segments g"
    and "page = None \<Longrightarrow> of_nat x \<in> jkeys (cold_j s) \<or> jn (cold_j s) < sit_journal_entries L"
  shows "sit_dev_ok L g (sit_written L page x s)"
  using assms dev_okD(1) [OF assms(1,2)]
  by (auto simp: sit_dev_ok_def sit_blk_ok_def jput_jok jput_jn jput_keys)

text \<open>Blocks without valid data, which the discards may name.\<close>

definition stale_blocks :: "geom \<Rightarrow> sb_info \<Rightarrow> nat set" where
  "stale_blocks g s = {blk_nat g x off | x off. x < main_segments g \<and> off < blocks_per_seg g \<and>
     \<not> byte_bit (cur_valid_map (sentries (sit_i s) x)) off}"

definition segs_ok :: "layout \<Rightarrow> geom \<Rightarrow> sb_info \<Rightarrow> bool" where
  "segs_ok L g s \<longleftrightarrow> layout_ok L \<and> geom_ok L g \<and> discards_ok g s \<and> (\<forall>x<main_segments g. seg_ok L g (sentries (sit_i s) x))"

text \<open>The entry as the code writes it is \<open>sit_written\<close>.\<close>

lemma write_sit_entry_eq:
  assumes "page = None \<Longrightarrow> of_nat x \<in> jkeys (cold_j u) \<or> jn (cold_j u) < sit_journal_entries L"
  shows "write_sit_entry L page x u = sit_written L page x u"
proof (cases page)
  case (Some a)
  then show ?thesis
    by (simp add: write_sit_entry_def Let_def case_prod_beta sit_written_def raw_of_def saved_def put_seg_entry_def)
next
  case None
  obtain o' sm where l: "lookup_journal_in_cursum L (cold_sum u) SIT_JOURNAL (of_nat x) True = (o', sm)" by fastforce
  then have "o' \<noteq> None"
    using sit_lookup_None [of L "cold_sum u" "of_nat x"] assms None by (auto simp: cold_j_def)
  then obtain i where i: "o' = Some i" by blast
  have "sm\<lparr>sit_j := (sit_j sm)\<lparr>jkey := (jkey (sit_j sm))(i := of_nat x), jent := (jent (sit_j sm))(i := raw_of L u x)\<rparr>\<rparr> =
      (cold_sum u)\<lparr>sit_j := jput (of_nat x) (raw_of L u x) (cold_j u)\<rparr>"
    using sit_lookup_alloc [OF l [unfolded i]] by (simp add: cold_j_def)
  then show ?thesis
    by (simp add: write_sit_entry_def Let_def case_prod_beta sit_written_def saved_def put_seg_entry_def None
        l i raw_of_def [symmetric])
qed

lemma but_discards_raw: "but_discards s u \<Longrightarrow> raw_of L u x = raw_of L s x"
  by (simp add: raw_of_def but_discardsD)

lemma but_discards_disk:
  assumes "but_discards s u"
  shows "disk_sit L g u = disk_sit L g s" "sit_dev_ok L g u = sit_dev_ok L g s" "cold_j u = cold_j s"
    "current_sit_addr L g x u = current_sit_addr L g x s" "raw_of L u = raw_of L s" "saved L u = saved L s"
    "stale_blocks g u = stale_blocks g s"
proof -
  note d = but_discardsD [OF assms]
  show c: "cold_j u = cold_j s" by (simp add: cold_j_def cold_sum_def d)
  have a: "current_sit_addr L g x u = current_sit_addr L g x s" for x by (simp add: current_sit_addr_def d)
  then show "current_sit_addr L g x u = current_sit_addr L g x s" by simp
  show "disk_sit L g u = disk_sit L g s"
    by (simp add: disk_sit_def block_sit_def [abs_def] a c d fun_eq_iff)
  show "sit_dev_ok L g u = sit_dev_ok L g s" by (simp add: sit_dev_ok_def sit_blk_ok_def c d)
  show "raw_of L u = raw_of L s" "saved L u = saved L s" "stale_blocks g u = stale_blocks g s"
    by (simp_all add: raw_of_def saved_def stale_blocks_def d fun_eq_iff)
qed

lemma discards_step:
  assumes "segs_ok L g s" "x < main_segments g" "(c, u) = add_discard_addrs g (cpc\<lparr>trim_start := x\<rparr>) s"
    and "cpc_reason cpc = CP_DISCARD \<Longrightarrow> ckpt_valid_map (sentries (sit_i s) x) = cur_valid_map (sentries (sit_i s) x)"
  shows "segs_ok L g u" "but_discards s u" "discard_blocks u \<subseteq> discard_blocks s \<union> stale_blocks g s"
    "cpc_reason c = cpc_reason cpc" "trim_end c = trim_end cpc"
proof -
  have ok: "layout_ok L" "geom_ok L g" "discards_ok g s" "seg_ok L g (sentries (sit_i s) x)"
    using assms(1,2) by (simp_all add: segs_ok_def)
  have sp: "discards_ok g u \<and> but_discards s u \<and> discard_blocks s \<subseteq> discard_blocks u \<and>
      discard_blocks u \<subseteq> discard_blocks s \<union> blk_nat g x `
        {off. off < blocks_per_seg g \<and> \<not> byte_bit (cur_valid_map (sentries (sit_i s) x)) off \<and>
          (cpc_reason cpc = CP_DISCARD \<or> byte_bit (ckpt_valid_map (sentries (sit_i s) x)) off)} \<and>
      trim_start c = x \<and> cpc_reason c = cpc_reason cpc \<and> trim_end c = trim_end cpc"
    using add_discards_spec [of L g "cpc\<lparr>trim_start := x\<rparr>" s c u] ok assms(2-4) by simp
  then show "segs_ok L g u" "but_discards s u" "cpc_reason c = cpc_reason cpc" "trim_end c = trim_end cpc"
    using assms(1) but_discardsD(1) [of s u] by (simp_all add: segs_ok_def)
  show "discard_blocks u \<subseteq> discard_blocks s \<union> stale_blocks g s"
    using sp assms(2) unfolding stale_blocks_def by blast
qed

lemma flush_entry_eq:
  assumes "segs_ok L g s" "x < main_segments g" "(c, t) = flush_sit_entry L g page x (cpc, s)"
    and "page = None \<Longrightarrow> of_nat x \<in> jkeys (cold_j s) \<or> jn (cold_j s) < sit_journal_entries L"
  obtains u where "t = sit_written L page x u" "segs_ok L g u" "but_discards s u"
    "discard_blocks u \<subseteq> discard_blocks s \<union> stale_blocks g s" "cpc_reason c = cpc_reason cpc" "trim_end c = trim_end cpc"
    "cpc_reason cpc = CP_DISCARD \<Longrightarrow> c = cpc"
proof -
  define du where "du = (if cpc_reason cpc \<noteq> CP_DISCARD then add_discard_addrs g (cpc\<lparr>trim_start := x\<rparr>) s else (cpc, s))"
  define u where "u = snd du"
  have u: "segs_ok L g u" "but_discards s u" "discard_blocks u \<subseteq> discard_blocks s \<union> stale_blocks g s"
    "cpc_reason (fst du) = cpc_reason cpc" "trim_end (fst du) = trim_end cpc" "cpc_reason cpc = CP_DISCARD \<Longrightarrow> fst du = cpc"
    using discards_step [OF assms(1,2), of "fst du" u cpc] assms(1)
    by (cases "cpc_reason cpc = CP_DISCARD"; simp add: du_def u_def)+
  have j: "cold_j u = cold_j s" by (rule but_discards_disk(3) [OF u(2)])
  have "t = write_sit_entry L page x u" "c = fst du"
    using assms(3) unfolding flush_sit_entry_def du_def [symmetric] u_def by (simp_all add: du_def Let_def case_prod_beta split: if_splits)
  then have "c = fst du \<and> t = sit_written L page x u"
    using write_sit_entry_eq [of page x u L] assms(4) j by simp
  then show ?thesis using that u by simp
qed

text \<open>The entries \<open>xs\<close> of one set: \<open>s0\<close> is the state before the first, \<open>s\<close> the one after them.\<close>

definition entries_done :: "layout \<Rightarrow> geom \<Rightarrow> nat option \<Rightarrow> sb_info \<Rightarrow> nat list \<Rightarrow> sb_info \<Rightarrow> bool" where
  "entries_done L g page s0 xs s \<longleftrightarrow> sit_dev_ok L g s \<and> segs_ok L g s \<and>
     (\<forall>y<main_segments g. disk_sit L g s y = (if y \<in> set xs then raw_of L s0 y else disk_sit L g s0 y)) \<and>
     sentries (sit_i s) = (\<lambda>y. if y \<in> set xs then saved L s0 y else sentries (sit_i s0) y) \<and>
     dirty_sentries_bitmap (sit_i s) = (\<lambda>y. dirty_sentries_bitmap (sit_i s0) y \<and> y \<notin> set xs) \<and>
     dirty_sentries (sit_i s) = dirty_sentries (sit_i s0) - of_nat (length xs) \<and>
     sit_bitmap (sit_i s) = sit_bitmap (sit_i s0) \<and> s_flag s = s_flag s0 \<and> dirty_i s = dirty_i s0 \<and> free_i s = free_i s0 \<and>
     (\<forall>b. page \<noteq> Some b \<longrightarrow> sit_pages s b = sit_pages s0 b) \<and>
     jkeys (cold_j s) \<subseteq> jkeys (cold_j s0) \<union> of_nat ` set xs \<and>
     (if page = None then jn (cold_j s) \<le> jn (cold_j s0) + length xs else cold_j s = cold_j s0) \<and>
     discard_blocks s \<subseteq> discard_blocks s0 \<union> stale_blocks g s0"

lemma entries_done_Nil: "sit_dev_ok L g s \<Longrightarrow> segs_ok L g s \<Longrightarrow> entries_done L g page s [] s"
  by (simp add: entries_done_def)

lemma entries_done_snoc:
  assumes ed: "entries_done L g page s0 xs s" and x: "x < main_segments g" "x \<notin> set xs"
    and p: "page = None \<or> page = Some (current_sit_addr L g x s0) \<and> of_nat x \<notin> jkeys (cold_j s0)"
    and room: "page = None \<Longrightarrow> jn (cold_j s0) + length xs < sit_journal_entries L"
    and r: "(c, t) = flush_sit_entry L g page x (cpc, s)"
  shows "entries_done L g page s0 (xs @ [x]) t \<and> cpc_reason c = cpc_reason cpc \<and> trim_end c = trim_end cpc \<and>
    (cpc_reason cpc = CP_DISCARD \<longrightarrow> c = cpc)"
proof -
  have ok: "sit_dev_ok L g s" "segs_ok L g s" using ed by (simp_all add: entries_done_def)
  have rm: "of_nat x \<in> jkeys (cold_j s) \<or> jn (cold_j s) < sit_journal_entries L" if "page = None"
    using ed room that by (auto simp: entries_done_def)
  obtain u where u: "t = sit_written L page x u" "segs_ok L g u" "but_discards s u"
    "discard_blocks u \<subseteq> discard_blocks s \<union> stale_blocks g s" "cpc_reason c = cpc_reason cpc" "trim_end c = trim_end cpc"
    "cpc_reason cpc = CP_DISCARD \<Longrightarrow> c = cpc"
    by (rule flush_entry_eq [OF ok(2) x(1) r rm]) blast+
  note b = but_discards_disk [OF u(3)]
  have uok: "sit_dev_ok L g u" using ok(1) by (simp add: b)
  have us: "sentries (sit_i s) x = sentries (sit_i s0) x" using ed x(2) by (simp add: entries_done_def)
  then have rw: "raw_of L s x = raw_of L s0 x" "saved L s x = saved L s0 x" by (simp_all add: raw_of_def saved_def)
  have pu: "page = None \<or> page = Some (current_sit_addr L g x u) \<and> of_nat x \<notin> jkeys (cold_j u)"
    using p ed by (auto simp: entries_done_def b sit_addr_cong [of s s0])
  have dk: "disk_sit L g t y = (if y \<in> set (xs @ [x]) then raw_of L s0 y else disk_sit L g s0 y)" if "y < main_segments g" for y
    using sit_written_disk [OF uok x(1) that pu] ed that by (auto simp: u(1) rw b entries_done_def)
  have "sit_dev_ok L g t"
    using written_dev_ok [OF uok x(1), of page] rm by (simp add: u(1) b)
  moreover have "segs_ok L g t"
    using u(2) to_raw_seg_ok(1) [of L g "sentries (sit_i u) x"] x(1)
    by (auto simp: u(1) segs_ok_def discards_ok_def saved_def)
  moreover have "discard_blocks t \<subseteq> discard_blocks s0 \<union> stale_blocks g s0"
  proof -
    have "cur_valid_map (sentries (sit_i s) y) = cur_valid_map (sentries (sit_i s0) y)" for y
      using ed by (simp add: entries_done_def saved_fields)
    then have "stale_blocks g s = stale_blocks g s0" by (simp add: stale_blocks_def)
    moreover have "discard_blocks t = discard_blocks u" by (simp add: u(1) discard_blocks_def)
    moreover have "discard_blocks s \<subseteq> discard_blocks s0 \<union> stale_blocks g s0" using ed by (simp add: entries_done_def)
    ultimately show ?thesis using u(4) by auto
  qed
  moreover have "sit_pages t b = sit_pages s0 b" if "page \<noteq> Some b" for b
    using ed that by (simp add: u(1) entries_done_def but_discardsD(3) [OF u(3)])
  moreover have "jkeys (cold_j t) \<subseteq> jkeys (cold_j s0) \<union> of_nat ` set (xs @ [x])"
    using ed by (auto simp: u(1) b entries_done_def jput_keys)
  moreover have "if page = None then jn (cold_j t) \<le> jn (cold_j s0) + length (xs @ [x]) else cold_j t = cold_j s0"
    using ed by (auto simp: u(1) b entries_done_def jput_jn split: if_splits)
  ultimately show ?thesis
    using ed dk u(5-7) rw
    by (auto simp: entries_done_def fun_eq_iff u(1) b(5,6) but_discardsD [OF u(3)])
qed

lemma entries_loop:
  assumes "entries_done L g page s0 xs s" "distinct (xs @ ys)"
    and "\<forall>x\<in>set ys. x < main_segments g \<and> (page = None \<or> page = Some (current_sit_addr L g x s0) \<and> of_nat x \<notin> jkeys (cold_j s0))"
    and "page = None \<Longrightarrow> jn (cold_j s0) + length (xs @ ys) \<le> sit_journal_entries L"
    and "(c, t) = fold (flush_sit_entry L g page) ys (cpc, s)"
  shows "entries_done L g page s0 (xs @ ys) t \<and> cpc_reason c = cpc_reason cpc \<and> trim_end c = trim_end cpc \<and>
    (cpc_reason cpc = CP_DISCARD \<longrightarrow> c = cpc)"
  using assms
proof (induction ys arbitrary: xs s cpc)
  case (Cons y ys)
  obtain c1 u where r: "flush_sit_entry L g page y (cpc, s) = (c1, u)" by fastforce
  have st: "entries_done L g page s0 (xs @ [y]) u \<and> cpc_reason c1 = cpc_reason cpc \<and> trim_end c1 = trim_end cpc \<and>
    (cpc_reason cpc = CP_DISCARD \<longrightarrow> c1 = cpc)"
    by (rule entries_done_snoc [OF Cons.prems(1) _ _ _ _ r [symmetric]]) (use Cons.prems in auto)
  have "entries_done L g page s0 ((xs @ [y]) @ ys) t \<and> cpc_reason c = cpc_reason c1 \<and> trim_end c = trim_end c1 \<and>
    (cpc_reason c1 = CP_DISCARD \<longrightarrow> c = c1)"
    by (rule Cons.IH) (use Cons.prems r st in auto)
  then show ?case using st by auto
qed simp

section \<open>The next block\<close>

lemma div_eq_interval: "0 < d \<Longrightarrow> n div d = q \<longleftrightarrow> d * q \<le> n \<and> n < d * q + d" for n d q :: nat
proof
  assume d: "0 < d" "n div d = q"
  have "d * q + n mod d = n" using mult_div_mod_eq [of d n] by (simp only: d(2))
  then show "d * q \<le> n \<and> n < d * q + d" using mod_less_divisor [OF d(1), of n] by linarith
qed (auto intro: div_nat_eqI)

lemma START_SEGNO_iff:
  "0 < sit_entry_per_block L \<Longrightarrow> START_SEGNO L y = START_SEGNO L x \<longleftrightarrow>
     START_SEGNO L x \<le> y \<and> y < START_SEGNO L x + sit_entry_per_block L"
  using div_eq_interval [of "sit_entry_per_block L" y "x div sit_entry_per_block L"]
  by (simp add: START_SEGNO_def SIT_BLOCK_OFFSET_def mult.commute)

lemma block_of_start: "0 < sit_entry_per_block L \<Longrightarrow> SIT_BLOCK_OFFSET L (START_SEGNO L x) = SIT_BLOCK_OFFSET L x"
  by (simp add: START_SEGNO_def SIT_BLOCK_OFFSET_def)

lemma next_sit_page_spec:
  assumes ok: "sit_dev_ok L g s" and g: "geom_ok L g" and x: "x < main_segments g"
    and r: "(a, t) = get_next_sit_page L g (START_SEGNO L x) s"
  shows "a = sit_nxt g (SIT_BLOCK_OFFSET L x) s"
    and "t = s\<lparr>sit_pages := (sit_pages s)(a := sit_pages s (sit_cur g (SIT_BLOCK_OFFSET L x) s)),
          sit_i := (sit_i s)\<lparr>sit_bitmap := f2fs_change_bit (SIT_BLOCK_OFFSET L x) (sit_bitmap (sit_i s))\<rparr>\<rparr>"
    and "sit_dev_ok L g t" and "y < main_segments g \<Longrightarrow> disk_sit L g t y = disk_sit L g s y"
    and "y < main_segments g \<Longrightarrow> SIT_BLOCK_OFFSET L y = SIT_BLOCK_OFFSET L x \<Longrightarrow> current_sit_addr L g y t = a"
proof -
  let ?b = "SIT_BLOCK_OFFSET L x"
  have p: "0 < sit_entry_per_block L" and sg: "sit_geom_ok g" using ok by (simp_all add: sit_dev_ok_def)
  have bk: "sit_blk_ok g s ?b" by (rule dev_okD(2) [OF ok x])
  have "START_SEGNO L x \<le> x" using p by (simp add: START_SEGNO_def SIT_BLOCK_OFFSET_def)
  then have cr: "check_seg_range g (START_SEGNO L x) s = s"
    using x geom_okD(8) [OF g] by (simp add: check_seg_range_def)
  have cur: "current_sit_addr L g (START_SEGNO L x) s = sit_cur g ?b s"
    using current_sit_addr_eq [OF sg, of L "START_SEGNO L x" s] bk by (simp add: block_of_start [OF p] sit_blk_ok_def)
  show a: "a = sit_nxt g ?b s"
    using r next_sit_addr_eq [of ?b g s] bk by (simp add: get_next_sit_page_def Let_def cur cr sit_blk_ok_def)
  show t: "t = s\<lparr>sit_pages := (sit_pages s)(a := sit_pages s (sit_cur g ?b s)),
          sit_i := (sit_i s)\<lparr>sit_bitmap := f2fs_change_bit ?b (sit_bitmap (sit_i s))\<rparr>\<rparr>"
    using r by (simp add: get_next_sit_page_def Let_def cur cr set_to_next_sit_def block_of_start [OF p])
  have cj: "cold_j t = cold_j s" by (simp add: t cold_j_def cold_sum_def)
  have fl: "sit_cur g b t = sit_cur g b (sit_flip ?b s)" for b by (simp add: t sit_cur_def sit_flip_def)
  show tok: "sit_dev_ok L g t" using ok by (simp add: sit_dev_ok_def cj) (simp add: t sit_blk_ok_def)
  show "current_sit_addr L g y t = a" if "y < main_segments g" "SIT_BLOCK_OFFSET L y = ?b"
    using dev_okD(3) [OF tok that(1)] sit_shadow.cur_flip [OF sg bk bk] that(2) by (simp add: fl a)
  have "sit_pages t (sit_cur g b t) = sit_pages s (sit_cur g b s)" if "sit_blk_ok g s b" for b
    using sit_shadow.copy_flip [OF sg bk that, of "sit_pages s"] by (simp add: fl a [symmetric]) (simp add: t)
  then show "disk_sit L g t y = disk_sit L g s y" if y: "y < main_segments g"
    using dev_okD [OF tok y] dev_okD [OF ok y]
    by (simp add: disk_sit_def over_def cj block_sit_def split: option.split)
qed

section \<open>All sets\<close>

text \<open>The dirty segments of the sets that start at \<open>D\<close>.\<close>

definition of_sets :: "layout \<Rightarrow> geom \<Rightarrow> sb_info \<Rightarrow> nat set \<Rightarrow> nat set" where
  "of_sets L g s D = {y. y < main_segments g \<and> dirty_sentries_bitmap (sit_i s) y \<and> START_SEGNO L y \<in> D}"

text \<open>Either everything still fits into the journal, or it holds no entry that is still dirty.\<close>

definition sit_fit :: "layout \<Rightarrow> geom \<Rightarrow> bool \<Rightarrow> sb_info \<Rightarrow> bool" where
  "sit_fit L g tj s \<longleftrightarrow>
     tj \<and> count_bits (dirty_sentries_bitmap (sit_i s)) (main_segments g) + jn (cold_j s) \<le> sit_journal_entries L \<or>
     (\<forall>y<main_segments g. dirty_sentries_bitmap (sit_i s) y \<longrightarrow> of_nat y \<notin> jkeys (cold_j s))"

definition sits_flushing :: "layout \<Rightarrow> geom \<Rightarrow> sb_info \<Rightarrow> nat set \<Rightarrow> bool \<Rightarrow> sb_info \<Rightarrow> bool" where
  "sits_flushing L g s0 D tj s \<longleftrightarrow> sit_dev_ok L g s \<and> segs_ok L g s \<and> sit_fit L g tj s \<and>
     (\<forall>y<main_segments g. disk_sit L g s y = (if y \<in> of_sets L g s0 D then raw_of L s0 y else disk_sit L g s0 y)) \<and>
     sentries (sit_i s) = (\<lambda>y. if y \<in> of_sets L g s0 D then saved L s0 y else sentries (sit_i s0) y) \<and>
     dirty_sentries_bitmap (sit_i s) = (\<lambda>y. dirty_sentries_bitmap (sit_i s0) y \<and> y \<notin> of_sets L g s0 D) \<and>
     dirty_sentries (sit_i s) = dirty_sentries (sit_i s0) - of_nat (card (of_sets L g s0 D)) \<and>
     length (sit_bitmap (sit_i s)) = length (sit_bitmap (sit_i s0)) \<and>
     (\<forall>y. START_SEGNO L y \<notin> D \<longrightarrow> byte_bit (sit_bitmap (sit_i s)) (SIT_BLOCK_OFFSET L y) =
        byte_bit (sit_bitmap (sit_i s0)) (SIT_BLOCK_OFFSET L y)) \<and>
     (\<forall>y<main_segments g. sit_pages s (current_sit_addr L g y s0) = sit_pages s0 (current_sit_addr L g y s0)) \<and>
     s_flag s = s_flag s0 \<and> dirty_i s = dirty_i s0 \<and> free_i s = free_i s0 \<and>
     discard_blocks s \<subseteq> discard_blocks s0 \<union> stale_blocks g s0"

lemma of_sets_insert: "of_sets L g s (insert k D) = of_sets L g s D \<union> of_sets L g s {k}"
  by (auto simp: of_sets_def)

lemma finite_of_sets [simp]: "finite (of_sets L g s D)" by (simp add: of_sets_def)

lemma of_sets_disjoint: "k \<notin> D \<Longrightarrow> of_sets L g s D \<inter> of_sets L g s {k} = {}"
  by (auto simp: of_sets_def)

text \<open>The page an entry set goes to: \<open>t\<close> is the state after \<open>get_next_sit_page\<close>.\<close>

definition set_page :: "layout \<Rightarrow> geom \<Rightarrow> nat \<Rightarrow> bool \<Rightarrow> sb_info \<Rightarrow> nat option \<times> sb_info" where
  "set_page L g k toj s =
     (if toj then (None, s) else let (a, t) = get_next_sit_page L g k s in (Some a, t))"

definition page_set :: "layout \<Rightarrow> geom \<Rightarrow> nat \<Rightarrow> bool \<Rightarrow> nat option \<Rightarrow> sb_info \<Rightarrow> sb_info \<Rightarrow> bool" where
  "page_set L g x toj page s u \<longleftrightarrow> sit_dev_ok L g u \<and> segs_ok L g u \<and> (\<forall>y<main_segments g. disk_sit L g u y = disk_sit L g s y) \<and>
    sentries (sit_i u) = sentries (sit_i s) \<and> dirty_sentries_bitmap (sit_i u) = dirty_sentries_bitmap (sit_i s) \<and>
    dirty_sentries (sit_i u) = dirty_sentries (sit_i s) \<and> length (sit_bitmap (sit_i u)) = length (sit_bitmap (sit_i s)) \<and>
    (\<forall>b. b \<noteq> SIT_BLOCK_OFFSET L x \<longrightarrow> byte_bit (sit_bitmap (sit_i u)) b = byte_bit (sit_bitmap (sit_i s)) b) \<and>
    s_flag u = s_flag s \<and> dirty_i u = dirty_i s \<and> free_i u = free_i s \<and> discard_list u = discard_list s \<and> cold_j u = cold_j s \<and>
    (page = None \<longleftrightarrow> toj) \<and>
    (\<forall>b. b \<noteq> sit_nxt g (SIT_BLOCK_OFFSET L x) s \<longrightarrow> page \<noteq> Some b \<and> sit_pages u b = sit_pages s b) \<and>
    (\<forall>y<main_segments g. SIT_BLOCK_OFFSET L y = SIT_BLOCK_OFFSET L x \<longrightarrow> page = None \<or> page = Some (current_sit_addr L g y u))"

lemma page_setD:
  assumes "page_set L g x toj page s u"
  shows "sit_dev_ok L g u" "segs_ok L g u" "y < main_segments g \<Longrightarrow> disk_sit L g u y = disk_sit L g s y"
    "sentries (sit_i u) = sentries (sit_i s)" "dirty_sentries_bitmap (sit_i u) = dirty_sentries_bitmap (sit_i s)"
    "dirty_sentries (sit_i u) = dirty_sentries (sit_i s)" "length (sit_bitmap (sit_i u)) = length (sit_bitmap (sit_i s))"
    "b \<noteq> SIT_BLOCK_OFFSET L x \<Longrightarrow> byte_bit (sit_bitmap (sit_i u)) b = byte_bit (sit_bitmap (sit_i s)) b"
    "s_flag u = s_flag s" "dirty_i u = dirty_i s" "free_i u = free_i s" "discard_list u = discard_list s" "cold_j u = cold_j s"
    "page = None \<longleftrightarrow> toj" "b \<noteq> sit_nxt g (SIT_BLOCK_OFFSET L x) s \<Longrightarrow> page \<noteq> Some b"
    "b \<noteq> sit_nxt g (SIT_BLOCK_OFFSET L x) s \<Longrightarrow> sit_pages u b = sit_pages s b"
    "y < main_segments g \<Longrightarrow> SIT_BLOCK_OFFSET L y = SIT_BLOCK_OFFSET L x \<Longrightarrow> page = None \<or> page = Some (current_sit_addr L g y u)"
  using assms unfolding page_set_def by blast+

lemma set_page_spec:
  assumes ok: "sit_dev_ok L g s" "segs_ok L g s" and x: "x < main_segments g"
    and r: "(page, t) = set_page L g (START_SEGNO L x) toj s"
  shows "page_set L g x toj page s t"
proof (cases toj)
  case True
  then show ?thesis using ok r by (simp add: set_page_def page_set_def)
next
  case False
  then obtain a where a: "page = Some a" "(a, t) = get_next_sit_page L g (START_SEGNO L x) s"
    using r by (auto simp: set_page_def split: prod.splits)
  have g: "geom_ok L g" using ok(2) by (simp add: segs_ok_def)
  note np = next_sit_page_spec [OF ok(1) g x a(2)]
  have bk: "sit_blk_ok g s (SIT_BLOCK_OFFSET L x)" by (rule dev_okD(2) [OF ok(1) x])
  have "segs_ok L g t" using ok(2) by (simp add: segs_ok_def discards_ok_def np(2))
  moreover have "cold_j t = cold_j s" by (simp add: np(2) cold_j_def cold_sum_def)
  ultimately show ?thesis
    using False a(1) np(3-5) bk
    by (auto simp: page_set_def np(2) np(1) byte_bit_change sit_blk_ok_def)
qed

lemma set_segs:
  assumes "0 < sit_entry_per_block L" "k = START_SEGNO L x"
  shows "set (for_each_set_bit P (min (k + sit_entry_per_block L) n) k) = {y. y < n \<and> P y \<and> START_SEGNO L y = k}"
    and "distinct (for_each_set_bit P (min (k + sit_entry_per_block L) n) k)"
  using START_SEGNO_iff [OF assms(1), of _ x] assms(2) by (auto simp: for_each_set_bit_eq)

lemma flush_set_unfold:
  "flush_sit_entry_set L g ses (tj, cpc, s) =
     (let toj = (tj \<and> has_cursum_space L (cold_sum s) (nat (ses_cnt ses)) SIT_JOURNAL);
          (page, u) = set_page L g (ses_start ses) toj s;
          segs = for_each_set_bit (dirty_sentries_bitmap (sit_i u))
            (min (ses_start ses + sit_entry_per_block L) (main_segments g)) (ses_start ses);
          (c, t) = fold (flush_sit_entry L g page) segs (cpc, u)
      in (toj, c, f2fs_bug_on (ses_cnt ses - int (length segs) \<noteq> 0) t))"
  by (simp add: flush_sit_entry_set_def set_page_def Let_def case_prod_beta)

lemma sit_room:
  "jn (cold_j s) \<le> sit_journal_entries L \<Longrightarrow> has_cursum_space L (cold_sum s) n SIT_JOURNAL \<longleftrightarrow>
     jn (cold_j s) + n \<le> sit_journal_entries L"
  by (auto simp: has_cursum_space_def MAX_SIT_JENTRIES_def sits_in_cursum_def cold_j_def)

lemma no_bug [simp]: "f2fs_bug_on False s = s" by (simp add: f2fs_bug_on_def)

lemma flush_set_fit:
  assumes fl: "sits_flushing L g s0 D tj s" and k: "k \<notin> D"
    and sp: "page_set L g x toj page s u"
    and ed: "entries_done L g page u segs t" and segs: "set segs = of_sets L g s0 {k}" "distinct segs"
    and fits: "toj \<Longrightarrow> jn (cold_j s) + length segs \<le> sit_journal_entries L"
    and kept: "\<not> toj \<Longrightarrow> \<forall>y<main_segments g. dirty_sentries_bitmap (sit_i s) y \<longrightarrow> of_nat y \<notin> jkeys (cold_j s)"
    and tj: "toj \<Longrightarrow> tj"
  shows "sit_fit L g toj t"
proof -
  let ?n = "main_segments g" and ?K = "of_sets L g s0 {k}"
  have apart: "of_sets L g s0 D \<inter> ?K = {}" by (rule of_sets_disjoint [OF k])
  have dt: "dirty_sentries_bitmap (sit_i t) y \<longleftrightarrow> dirty_sentries_bitmap (sit_i s) y \<and> y \<notin> ?K" for y
    using ed page_setD(5) [OF sp] segs(1) by (simp add: entries_done_def)
  have tok: "sit_dev_ok L g t" using ed by (simp add: entries_done_def)
  show ?thesis
  proof (cases "\<forall>y<?n. dirty_sentries_bitmap (sit_i s) y \<longrightarrow> of_nat y \<notin> jkeys (cold_j s)")
    case True
    have kt: "jkeys (cold_j t) \<subseteq> jkeys (cold_j s) \<union> of_nat ` ?K"
      using ed page_setD(13) [OF sp] segs(1) by (simp add: entries_done_def)
    have "of_nat y \<notin> jkeys (cold_j t)" if y: "y < ?n" "dirty_sentries_bitmap (sit_i t) y" for y
    proof
      have y2: "of_nat y \<notin> jkeys (cold_j s)" using True y(1) iffD1 [OF dt y(2)] by blast
      assume "of_nat y \<in> jkeys (cold_j t)"
      then have "(of_nat y :: u32) \<in> of_nat ` ?K"
        using kt y2 by blast
      then obtain z where z: "z \<in> ?K" "(of_nat y :: u32) = of_nat z" by auto
      have "z < main_segments g" using z(1) by (simp add: of_sets_def)
      then have "y = z" using dev_okD(1) [OF tok y(1)] dev_okD(1) [OF tok, of z] z(2) by metis
      then show False using z(1) y(2) dt by simp
    qed
    then show ?thesis by (simp add: sit_fit_def)
  next
    case False
    then have toj: "toj" using kept by blast
    have "tj" "count_bits (dirty_sentries_bitmap (sit_i s)) ?n + jn (cold_j s) \<le> sit_journal_entries L"
      using fl False by (auto simp: sits_flushing_def sit_fit_def)
    moreover have "count_bits (dirty_sentries_bitmap (sit_i s)) ?n = count_bits (dirty_sentries_bitmap (sit_i t)) ?n + length segs"
    proof -
      have "{y. y < ?n \<and> dirty_sentries_bitmap (sit_i s) y} = {y. y < ?n \<and> dirty_sentries_bitmap (sit_i t) y} \<union> ?K"
        using dt fl apart by (auto simp: sits_flushing_def of_sets_def)
      moreover have "{y. y < ?n \<and> dirty_sentries_bitmap (sit_i t) y} \<inter> ?K = {}" using dt by auto
      ultimately show ?thesis
        using distinct_card [OF segs(2)] segs(1) by (simp add: count_bits_def card_Un_disjoint)
    qed
    moreover have "jn (cold_j t) \<le> jn (cold_j s) + length segs"
      using ed page_setD(13,14) [OF sp] toj by (simp add: entries_done_def)
    ultimately show ?thesis using toj by (simp add: sit_fit_def)
  qed
qed

text \<open>The state after the entries of a set, from the three parts of the step.\<close>

lemma flush_set_facts:
  assumes fl: "sits_flushing L g s0 D tj s" and k: "k \<notin> D" "k = START_SEGNO L x" "x \<in> of_sets L g s0 {k}"
    and sp: "page_set L g x toj page s u"
    and ed: "entries_done L g page u segs t" and segs: "set segs = of_sets L g s0 {k}" "distinct segs"
    and fits: "toj \<Longrightarrow> jn (cold_j s) + length segs \<le> sit_journal_entries L"
    and kept: "\<not> toj \<Longrightarrow> \<forall>y<main_segments g. dirty_sentries_bitmap (sit_i s) y \<longrightarrow> of_nat y \<notin> jkeys (cold_j s)"
    and tj: "toj \<Longrightarrow> tj" and sok: "sit_dev_ok L g s0"
  shows "sits_flushing L g s0 (insert k D) toj t"
proof -
  let ?K = "of_sets L g s0 {k}" and ?D = "of_sets L g s0 D"
  have main: "y < main_segments g" if "y \<in> ?K" for y using that by (simp add: of_sets_def)
  have apart: "?D \<inter> ?K = {}" by (rule of_sets_disjoint [OF k(1)])
  have un: "of_sets L g s0 (insert k D) = ?D \<union> ?K" by (rule of_sets_insert)
  have same: "sentries (sit_i u) = (\<lambda>y. if y \<in> ?D then saved L s0 y else sentries (sit_i s0) y)"
    using fl page_setD(4) [OF sp] by (simp add: sits_flushing_def)
  then have raw: "raw_of L u y = raw_of L s0 y" "saved L u y = saved L s0 y" if "y \<in> ?K" for y
    using that apart by (auto simp: raw_of_def saved_def)
  have dt: "dirty_sentries_bitmap (sit_i t) = (\<lambda>y. dirty_sentries_bitmap (sit_i s) y \<and> y \<notin> ?K)"
    using ed page_setD(5) [OF sp] segs(1) by (simp add: entries_done_def)
  have ds: "dirty_sentries_bitmap (sit_i s) = (\<lambda>y. dirty_sentries_bitmap (sit_i s0) y \<and> y \<notin> ?D)"
    using fl by (simp add: sits_flushing_def)
  have "sit_dev_ok L g t \<and> segs_ok L g t" using ed by (simp add: entries_done_def)
  moreover have "sit_fit L g toj t" by (rule flush_set_fit [OF fl k(1) sp ed segs fits kept tj])
  moreover have "\<forall>y<main_segments g. disk_sit L g t y = (if y \<in> ?D \<union> ?K then raw_of L s0 y else disk_sit L g s0 y)"
    using ed page_setD(3) [OF sp] fl segs(1) raw(1) unfolding entries_done_def sits_flushing_def by simp
  moreover have "sentries (sit_i t) = (\<lambda>y. if y \<in> ?D \<union> ?K then saved L s0 y else sentries (sit_i s0) y)"
    using ed segs(1) raw(2) unfolding entries_done_def same by auto
  moreover have "dirty_sentries_bitmap (sit_i t) = (\<lambda>y. dirty_sentries_bitmap (sit_i s0) y \<and> y \<notin> ?D \<union> ?K)"
    unfolding dt ds by auto
  moreover have "dirty_sentries (sit_i t) = dirty_sentries (sit_i s0) - of_nat (card (?D \<union> ?K))"
    using ed page_setD(6) [OF sp] fl segs distinct_card [OF segs(2)] card_Un_disjoint [OF _ _ apart]
    by (simp add: entries_done_def sits_flushing_def)
  moreover have "length (sit_bitmap (sit_i t)) = length (sit_bitmap (sit_i s0))"
    using ed page_setD(7) [OF sp] fl by (simp add: entries_done_def sits_flushing_def)
  moreover have "byte_bit (sit_bitmap (sit_i t)) (SIT_BLOCK_OFFSET L y) = byte_bit (sit_bitmap (sit_i s0)) (SIT_BLOCK_OFFSET L y)"
    if "START_SEGNO L y \<notin> insert k D" for y
  proof -
    have "SIT_BLOCK_OFFSET L y \<noteq> SIT_BLOCK_OFFSET L x" using that k(2) by (auto simp: START_SEGNO_def)
    then show ?thesis using that ed page_setD(8) [OF sp] fl by (simp add: entries_done_def sits_flushing_def)
  qed
  moreover have "sit_pages t (current_sit_addr L g y s0) = sit_pages s0 (current_sit_addr L g y s0)" if y: "y < main_segments g" for y
  proof -
    have x: "x < main_segments g" using k(3) by (simp add: of_sets_def)
    have "byte_bit (sit_bitmap (sit_i s)) (SIT_BLOCK_OFFSET L x) = byte_bit (sit_bitmap (sit_i s0)) (SIT_BLOCK_OFFSET L x)"
      using fl k(1,2) by (simp add: sits_flushing_def)
    then have "sit_nxt g (SIT_BLOCK_OFFSET L x) s = sit_nxt g (SIT_BLOCK_OFFSET L x) s0" by (simp add: sit_nxt_def)
    moreover have "sit_nxt g (SIT_BLOCK_OFFSET L x) s0 \<noteq> sit_cur g (SIT_BLOCK_OFFSET L y) s0"
      using sit_shadow.nxt_apart [of g s0] dev_okD(2) [OF sok x] dev_okD(2) [OF sok y] sok by (simp add: sit_dev_ok_def)
    ultimately have "current_sit_addr L g y s0 \<noteq> sit_nxt g (SIT_BLOCK_OFFSET L x) s" using dev_okD(3) [OF sok y] by simp
    then show ?thesis using y ed page_setD(15,16) [OF sp] fl by (simp add: entries_done_def sits_flushing_def)
  qed
  moreover have "discard_blocks t \<subseteq> discard_blocks s0 \<union> stale_blocks g s0"
  proof -
    have "stale_blocks g u = stale_blocks g s0" by (simp add: stale_blocks_def same saved_fields if_distrib [of cur_valid_map])
    moreover have "discard_blocks u = discard_blocks s" using page_setD(12) [OF sp] by (simp add: discard_blocks_def)
    moreover have "discard_blocks t \<subseteq> discard_blocks u \<union> stale_blocks g u" using ed by (simp add: entries_done_def)
    moreover have "discard_blocks s \<subseteq> discard_blocks s0 \<union> stale_blocks g s0" using fl by (simp add: sits_flushing_def)
    ultimately show ?thesis by auto
  qed
  moreover have "s_flag t = s_flag s0 \<and> dirty_i t = dirty_i s0 \<and> free_i t = free_i s0"
    using ed page_setD(9-11) [OF sp] fl by (simp add: entries_done_def sits_flushing_def)
  ultimately show ?thesis unfolding sits_flushing_def un by blast
qed

lemma flush_set_step:
  assumes fl: "sits_flushing L g s0 D tj s" and sok: "sit_dev_ok L g s0"
    and k: "k \<notin> D" "ses_start ses = k" "k = START_SEGNO L x" "x \<in> of_sets L g s0 {k}"
    and cnt: "ses_cnt ses = int (card (of_sets L g s0 {k}))"
    and r: "(tj', c, t) = flush_sit_entry_set L g ses (tj, cpc, s)"
  shows "sits_flushing L g s0 (insert k D) tj' t \<and> cpc_reason c = cpc_reason cpc \<and> trim_end c = trim_end cpc \<and>
    (cpc_reason cpc = CP_DISCARD \<longrightarrow> c = cpc)"
proof -
  let ?K = "of_sets L g s0 {k}" and ?D = "of_sets L g s0 D"
  have ok: "sit_dev_ok L g s" "segs_ok L g s" "sit_fit L g tj s" using fl by (simp_all add: sits_flushing_def)
  have p: "0 < sit_entry_per_block L" and je: "jn (cold_j s) \<le> sit_journal_entries L" using ok(1) by (simp_all add: sit_dev_ok_def)
  have x: "x < main_segments g" using k(4) by (simp add: of_sets_def)
  have ds: "dirty_sentries_bitmap (sit_i s) y \<longleftrightarrow> dirty_sentries_bitmap (sit_i s0) y \<and> y \<notin> ?D" for y
    using fl by (simp add: sits_flushing_def)
  have apart: "?D \<inter> ?K = {}" by (rule of_sets_disjoint [OF k(1)])
  define toj where "toj = (tj \<and> has_cursum_space L (cold_sum s) (nat (ses_cnt ses)) SIT_JOURNAL)"
  obtain page u where pu: "(page, u) = set_page L g k toj s" by (metis prod.collapse)
  note sp = set_page_spec [OF ok(1,2) x pu [unfolded k(3)]]
  define segs where "segs = for_each_set_bit (dirty_sentries_bitmap (sit_i u)) (min (k + sit_entry_per_block L) (main_segments g)) k"
  have segs: "set segs = ?K" "distinct segs" "length segs = card ?K"
  proof -
    have e: "set segs = {y. y < main_segments g \<and> dirty_sentries_bitmap (sit_i u) y \<and> START_SEGNO L y = k}"
      and d: "distinct segs"
      unfolding segs_def by (rule set_segs [OF p k(3)])+
    then show "set segs = ?K" using page_setD(5) [OF sp] ds apart by (auto simp: of_sets_def)
    then show "length segs = card ?K" using distinct_card [OF d] by simp
    show "distinct segs" by (rule d)
  qed
  obtain c' t' where ct: "(c', t') = fold (flush_sit_entry L g page) segs (cpc, u)" by (metis prod.collapse)
  have "flush_sit_entry_set L g ses (tj, cpc, s) = (toj, c', f2fs_bug_on (ses_cnt ses - int (length segs) \<noteq> 0) t')"
    unfolding flush_set_unfold k(2) toj_def [symmetric] Let_def pu [symmetric] prod.case segs_def [symmetric] ct [symmetric]
    by (rule refl)
  then have res: "tj' = toj" "c = c'" "t = t'" using r cnt segs(3) by simp_all
  have fits: "toj \<Longrightarrow> jn (cold_j s) + length segs \<le> sit_journal_entries L"
    using sit_room [OF je, of "nat (ses_cnt ses)"] by (simp add: toj_def cnt segs(3))
  have kept: "\<forall>y<main_segments g. dirty_sentries_bitmap (sit_i s) y \<longrightarrow> of_nat y \<notin> jkeys (cold_j s)" if "\<not> toj"
  proof -
    have "?K \<subseteq> {y. y < main_segments g \<and> dirty_sentries_bitmap (sit_i s) y}" using ds apart by (auto simp: of_sets_def)
    then have "card ?K \<le> count_bits (dirty_sentries_bitmap (sit_i s)) (main_segments g)"
      unfolding count_bits_def by (intro card_mono) auto
    then show ?thesis
      using that ok(3) sit_room [OF je, of "nat (ses_cnt ses)"] by (auto simp: sit_fit_def toj_def cnt)
  qed
  have uok: "sit_dev_ok L g u" "segs_ok L g u" "cold_j u = cold_j s" using page_setD [OF sp] by simp_all
  have "entries_done L g page u ([] @ segs) t' \<and> cpc_reason c' = cpc_reason cpc \<and> trim_end c' = trim_end cpc \<and>
    (cpc_reason cpc = CP_DISCARD \<longrightarrow> c' = cpc)"
  proof (rule entries_loop [OF entries_done_Nil [OF uok(1,2)] _ _ _ ct])
    show "\<forall>y\<in>set segs. y < main_segments g \<and> (page = None \<or> page = Some (current_sit_addr L g y u) \<and> of_nat y \<notin> jkeys (cold_j u))"
    proof
      fix y assume "y \<in> set segs"
      then have yK: "y \<in> ?K" using segs(1) by simp
      then have "y \<notin> ?D" using apart by blast
      then have y: "y < main_segments g" "dirty_sentries_bitmap (sit_i s) y" "START_SEGNO L y = START_SEGNO L x"
        using yK ds [of y] unfolding k(3) by (simp_all add: of_sets_def)
      then have "SIT_BLOCK_OFFSET L y = SIT_BLOCK_OFFSET L x" using p by (simp add: START_SEGNO_def)
      then show "y < main_segments g \<and> (page = None \<or> page = Some (current_sit_addr L g y u) \<and> of_nat y \<notin> jkeys (cold_j u))"
        using y page_setD(14) [OF sp] page_setD(17) [OF sp y(1)] kept uok(3) by auto
    qed
  next
    show "distinct ([] @ segs)" using segs(2) by simp
    show "jn (cold_j u) + length ([] @ segs) \<le> sit_journal_entries L" if "page = None"
      using fits that page_setD(14) [OF sp] uok(3) by simp
  qed
  then have ed: "entries_done L g page u segs t'" and cc: "cpc_reason c' = cpc_reason cpc \<and> trim_end c' = trim_end cpc \<and>
    (cpc_reason cpc = CP_DISCARD \<longrightarrow> c' = cpc)" by simp_all
  have "sits_flushing L g s0 (insert k D) toj t'"
    by (rule flush_set_facts [OF fl k(1,3,4) sp ed segs(1,2) fits kept _ sok]) (simp_all add: toj_def)
  then show ?thesis using cc by (simp add: res)
qed

lemma sets_loop:
  assumes "sits_flushing L g s0 D tj s" "sit_dev_ok L g s0" "distinct (map ses_start sl)"
    and "\<forall>ses\<in>set sl. ses_start ses \<notin> D \<and> ses_cnt ses = int (card (of_sets L g s0 {ses_start ses})) \<and>
      (\<exists>x. ses_start ses = START_SEGNO L x \<and> x \<in> of_sets L g s0 {ses_start ses})"
    and "(tj', c, t) = fold (flush_sit_entry_set L g) sl (tj, cpc, s)"
  shows "sits_flushing L g s0 (ses_start ` set sl \<union> D) tj' t \<and> cpc_reason c = cpc_reason cpc \<and> trim_end c = trim_end cpc \<and>
    (cpc_reason cpc = CP_DISCARD \<longrightarrow> c = cpc)"
  using assms
proof (induction sl arbitrary: D tj cpc s)
  case (Cons ses sl)
  obtain tj1 c1 u where r: "(tj1, c1, u) = flush_sit_entry_set L g ses (tj, cpc, s)" by (metis prod_cases3)
  obtain x where x: "ses_start ses \<notin> D" "ses_start ses = START_SEGNO L x" "x \<in> of_sets L g s0 {ses_start ses}"
    "ses_cnt ses = int (card (of_sets L g s0 {ses_start ses}))"
    using Cons.prems(4) by auto
  note st = flush_set_step [OF Cons.prems(1,2) x(1) refl x(2-4) r]
  have "sits_flushing L g s0 (ses_start ` set sl \<union> insert (ses_start ses) D) tj' t \<and> cpc_reason c = cpc_reason c1 \<and>
    trim_end c = trim_end c1 \<and> (cpc_reason c1 = CP_DISCARD \<longrightarrow> c = c1)"
  proof (rule Cons.IH [OF conjunct1 [OF st] Cons.prems(2)])
    show "(tj', c, t) = fold (flush_sit_entry_set L g) sl (tj1, c1, u)" using Cons.prems(5) by (simp add: r [symmetric])
    have "ses_start e \<noteq> ses_start ses" if "e \<in> set sl" for e
      using Cons.prems(3) imageI [OF that, of ses_start] by auto
    then show "\<forall>e\<in>set sl. ses_start e \<notin> insert (ses_start ses) D \<and> ses_cnt e = int (card (of_sets L g s0 {ses_start e})) \<and>
      (\<exists>x. ses_start e = START_SEGNO L x \<and> x \<in> of_sets L g s0 {ses_start e})"
      using Cons.prems(4) by simp
  qed (use Cons.prems(3) in simp)
  then show ?case using st by auto
qed simp

section \<open>Emptying the journal\<close>

definition dirty_set :: "geom \<Rightarrow> sb_info \<Rightarrow> nat set" where
  "dirty_set g s = {y. y < main_segments g \<and> dirty_sentries_bitmap (sit_i s) y}"

definition marked :: "layout \<Rightarrow> geom \<Rightarrow> sb_info \<Rightarrow> sb_info \<Rightarrow> sit_entry_set list \<Rightarrow> bool" where
  "marked L g s0 s head \<longleftrightarrow> s = s0\<lparr>sit_i := (sit_i s0)
       \<lparr>dirty_sentries_bitmap := dirty_sentries_bitmap (sit_i s), dirty_sentries := dirty_sentries (sit_i s)\<rparr>\<rparr> \<and>
     (\<forall>y. dirty_sentries_bitmap (sit_i s0) y \<longrightarrow> dirty_sentries_bitmap (sit_i s) y) \<and>
     dirty_sentries (sit_i s) = of_nat (card (dirty_set g s)) \<and> sets_for L (dirty_set g s) head"

lemma marked_frame:
  assumes "marked L g s0 s head"
  shows "cursegs s = cursegs s0" "sit_pages s = sit_pages s0" "sit_bitmap (sit_i s) = sit_bitmap (sit_i s0)"
    "sentries (sit_i s) = sentries (sit_i s0)" "s_flag s = s_flag s0" "dirty_i s = dirty_i s0" "free_i s = free_i s0"
    "discard_list s = discard_list s0" "nr_discards s = nr_discards s0"
proof -
  have e: "s = s0\<lparr>sit_i := (sit_i s0)
       \<lparr>dirty_sentries_bitmap := dirty_sentries_bitmap (sit_i s), dirty_sentries := dirty_sentries (sit_i s)\<rparr>\<rparr>"
    using assms unfolding marked_def by blast
  show "cursegs s = cursegs s0" "sit_pages s = sit_pages s0" "sit_bitmap (sit_i s) = sit_bitmap (sit_i s0)"
    "sentries (sit_i s) = sentries (sit_i s0)" "s_flag s = s_flag s0" "dirty_i s = dirty_i s0" "free_i s = free_i s0"
    "discard_list s = discard_list s0" "nr_discards s = nr_discards s0"
    by (subst e; simp)+
qed

lemma remove_sit_step:
  assumes m: "marked L g s0 s head" and i: "unat (jkey (cold_j s0) i) < main_segments g"
    and r: "(t, head') = remove_sit_of_journal L i (s, head)"
  shows "marked L g s0 t head'" "dirty_sentries_bitmap (sit_i t) (unat (jkey (cold_j s0) i))"
    "dirty_sentries_bitmap (sit_i s) y \<Longrightarrow> dirty_sentries_bitmap (sit_i t) y"
proof -
  define x where "x = unat (jkey (cold_j s0) i)"
  have k: "unat (segno_in_journal (cold_sum s) i) = x"
    by (simp add: segno_in_journal_def cold_sum_def marked_frame(1) [OF m] x_def cold_j_def)
  have e: "s = s0\<lparr>sit_i := (sit_i s0)
       \<lparr>dirty_sentries_bitmap := dirty_sentries_bitmap (sit_i s), dirty_sentries := dirty_sentries (sit_i s)\<rparr>\<rparr>"
    using m unfolding marked_def by blast
  have tt: "t = s\<lparr>sit_i := snd (mark_sit_entry_dirty x (sit_i s))\<rparr>"
    "head' = (if dirty_sentries_bitmap (sit_i s) x then head else add_sit_entry L x head)"
    using r by (simp_all add: remove_sit_of_journal_def k Let_def mark_sit_entry_dirty_def split: if_splits)
  have sx: "sit_i s = (sit_i s0)\<lparr>dirty_sentries_bitmap := dirty_sentries_bitmap (sit_i s), dirty_sentries := dirty_sentries (sit_i s)\<rparr>"
    by (subst e) simp
  show "dirty_sentries_bitmap (sit_i t) (unat (jkey (cold_j s0) i))" by (simp add: tt(1) x_def mark_sit_entry_dirty_def)
  show "dirty_sentries_bitmap (sit_i s) y \<Longrightarrow> dirty_sentries_bitmap (sit_i t) y" by (simp add: tt(1) mark_sit_entry_dirty_def)
  show "marked L g s0 t head'"
  proof (cases "dirty_sentries_bitmap (sit_i s) x")
    case True
    then show ?thesis using m by (simp add: tt mark_sit_entry_dirty_def)
  next
    case False
    have ds: "dirty_set g t = insert x (dirty_set g s)"
      using i by (auto simp: dirty_set_def tt mark_sit_entry_dirty_def False x_def)
    have "finite (dirty_set g s)" "x \<notin> dirty_set g s" using False by (simp_all add: dirty_set_def)
    then have "sets_for L (dirty_set g t) head'" "card (dirty_set g t) = Suc (card (dirty_set g s))"
      using add_sit_entry_sets [of L "dirty_set g s" head x] m by (simp_all add: ds tt(2) False marked_def)
    moreover have "sit_i t = (sit_i s0)\<lparr>dirty_sentries_bitmap := dirty_sentries_bitmap (sit_i t), dirty_sentries := dirty_sentries (sit_i t)\<rparr>"
      using arg_cong [OF sx, of "\<lambda>si. si\<lparr>dirty_sentries_bitmap := (dirty_sentries_bitmap (sit_i s))(x := True),
        dirty_sentries := dirty_sentries (sit_i s) + 1\<rparr>"]
      by (simp add: tt(1) mark_sit_entry_dirty_def False)
    moreover have "t = s0\<lparr>sit_i := sit_i t\<rparr>"
    proof -
      define q where "q = snd (mark_sit_entry_dirty x (sit_i s))"
      have "s\<lparr>sit_i := q\<rparr> = s0\<lparr>sit_i := q\<rparr>" using arg_cong [OF e, of "\<lambda>u. u\<lparr>sit_i := q\<rparr>"] by simp
      then show ?thesis unfolding tt(1) q_def [symmetric] by simp
    qed
    ultimately show ?thesis
      using m by (simp add: marked_def tt(1) mark_sit_entry_dirty_def False)
  qed
qed

lemma remove_sit_loop:
  assumes "marked L g s0 s head" "\<forall>i\<in>set is'. unat (jkey (cold_j s0) i) < main_segments g"
    and "(t, head') = fold (remove_sit_of_journal L) is' (s, head)"
  shows "marked L g s0 t head' \<and> (\<forall>i\<in>set is'. dirty_sentries_bitmap (sit_i t) (unat (jkey (cold_j s0) i))) \<and>
    (\<forall>y. dirty_sentries_bitmap (sit_i s) y \<longrightarrow> dirty_sentries_bitmap (sit_i t) y)"
  using assms
proof (induction is' arbitrary: s head)
  case (Cons i is')
  obtain u h where r: "(u, h) = remove_sit_of_journal L i (s, head)" by (metis prod.collapse)
  have i: "unat (jkey (cold_j s0) i) < main_segments g" using Cons.prems(2) by simp
  note st = remove_sit_step [OF Cons.prems(1) i r]
  have "marked L g s0 t head' \<and> (\<forall>i\<in>set is'. dirty_sentries_bitmap (sit_i t) (unat (jkey (cold_j s0) i))) \<and>
    (\<forall>y. dirty_sentries_bitmap (sit_i u) y \<longrightarrow> dirty_sentries_bitmap (sit_i t) y)"
    by (rule Cons.IH [OF st(1)]) (use Cons.prems r in auto)
  then show ?case using st by auto
qed simp

lemma remove_sits_spec:
  assumes ok: "sit_dev_ok L g s" "segs_ok L g s" and m: "marked L g s s head"
    and r: "(t, head') = remove_sits_in_journal L s head"
  shows "sit_dev_ok L g t" "segs_ok L g t" "jn (cold_j t) = 0"
    "sets_for L (dirty_set g t) head'" "dirty_sentries (sit_i t) = of_nat (card (dirty_set g t))"
    "dirty_sentries_bitmap (sit_i s) y \<Longrightarrow> dirty_sentries_bitmap (sit_i t) y"
    "y < main_segments g \<Longrightarrow> \<not> dirty_sentries_bitmap (sit_i t) y \<Longrightarrow> disk_sit L g t y = disk_sit L g s y"
    "sentries (sit_i t) = sentries (sit_i s)" "sit_bitmap (sit_i t) = sit_bitmap (sit_i s)" "sit_pages t = sit_pages s"
    "s_flag t = s_flag s" "dirty_i t = dirty_i s" "free_i t = free_i s" "discard_list t = discard_list s"
proof -
  let ?n = "sits_in_cursum (cold_sum s)"
  obtain u where u: "(u, head') = fold (remove_sit_of_journal L) (rev [0..<?n]) (s, head)"
    and t: "t = put_cold_sum (snd (update_sits_in_cursum (- int ?n) (cold_sum u))) u"
    using r by (auto simp: remove_sits_in_journal_def Let_def split: prod.splits)
  have n: "?n = jn (cold_j s)" by (simp add: sits_in_cursum_def cold_j_def)
  have key: "unat (jkey (cold_j s) i) < main_segments g" if "i < ?n" for i
    using ok(1) that by (simp add: sit_dev_ok_def jkeys_def n)
  have lp: "marked L g s u head' \<and> (\<forall>i\<in>set (rev [0..<?n]). dirty_sentries_bitmap (sit_i u) (unat (jkey (cold_j s) i))) \<and>
    (\<forall>y. dirty_sentries_bitmap (sit_i s) y \<longrightarrow> dirty_sentries_bitmap (sit_i u) y)"
    by (rule remove_sit_loop [OF m _ u]) (use key in simp)
  have mu: "marked L g s u head'" using lp by simp
  note f = marked_frame [OF mu]
  have si: "sit_i t = sit_i u" by (simp add: t)
  have cu: "cold_sum u = cold_sum s" by (simp add: cold_sum_def f)
  have z: "jn (cold_j t) = 0" by (simp add: t cold_j_def update_sits_in_cursum_def Let_def cu sits_in_cursum_def)
  then show "jn (cold_j t) = 0" .
  show fr: "sentries (sit_i t) = sentries (sit_i s)" "sit_bitmap (sit_i t) = sit_bitmap (sit_i s)" "sit_pages t = sit_pages s"
    "s_flag t = s_flag s" "dirty_i t = dirty_i s" "free_i t = free_i s" "discard_list t = discard_list s"
    by (simp_all add: t f)
  have "nr_discards t = nr_discards s" by (simp add: t f)
  then show "segs_ok L g t" using ok(2) by (simp add: segs_ok_def discards_ok_def fr)
  have keys: "jkeys (cold_j t) = {}" "jok (cold_j t)" using z by (simp_all add: jkeys_def jok_def)
  then show "sit_dev_ok L g t"
    using ok(1) z by (simp add: sit_dev_ok_def sit_blk_ok_def fr)
  show "sets_for L (dirty_set g t) head'" "dirty_sentries (sit_i t) = of_nat (card (dirty_set g t))"
    using mu by (simp_all add: marked_def dirty_set_def si)
  show "dirty_sentries_bitmap (sit_i s) y \<Longrightarrow> dirty_sentries_bitmap (sit_i t) y" using lp by (simp add: si)
  show "disk_sit L g t y = disk_sit L g s y" if y: "y < main_segments g" "\<not> dirty_sentries_bitmap (sit_i t) y"
  proof -
    have "of_nat y \<notin> jkeys (cold_j s)"
    proof
      assume "of_nat y \<in> jkeys (cold_j s)"
      then obtain i where "i < ?n" "jkey (cold_j s) i = of_nat y" by (auto simp: jkeys_def n)
      then have "dirty_sentries_bitmap (sit_i u) y" using lp dev_okD(1) [OF ok(1) y(1)] by force
      then show False using y(2) by (simp add: si)
    qed
    then have "disk_sit L g s y = block_sit L g s (of_nat y)"
      using jlook_None [of "cold_j s" "of_nat y"] by (simp add: disk_sit_def over_def)
    moreover have "block_sit L g t = block_sit L g s"
      by (simp add: block_sit_def [abs_def] fr sit_addr_cong [OF fr(2)])
    ultimately show ?thesis using over_empty [OF z] by (simp add: disk_sit_def)
  qed
qed

section \<open>The whole flush\<close>

lemma trim_loop:
  assumes "segs_ok L g s" "cpc_reason cpc = CP_DISCARD"
    and "\<forall>x\<in>set xs. x < main_segments g \<and> ckpt_valid_map (sentries (sit_i s) x) = cur_valid_map (sentries (sit_i s) x)"
    and "(c, t) = fold (\<lambda>x (c, s). add_discard_addrs g (c\<lparr>trim_start := x\<rparr>) s) xs (cpc, s)"
  shows "segs_ok L g t \<and> but_discards s t \<and> discard_blocks t \<subseteq> discard_blocks s \<union> stale_blocks g s"
  using assms
proof (induction xs arbitrary: cpc s)
  case (Cons x xs)
  obtain d u where r: "(d, u) = add_discard_addrs g (cpc\<lparr>trim_start := x\<rparr>) s" by (metis prod.collapse)
  have x: "x < main_segments g" "ckpt_valid_map (sentries (sit_i s) x) = cur_valid_map (sentries (sit_i s) x)"
    using Cons.prems(3) by simp_all
  note st = discards_step [OF Cons.prems(1) x(1) r x(2)]
  have "segs_ok L g t \<and> but_discards u t \<and> discard_blocks t \<subseteq> discard_blocks u \<union> stale_blocks g u"
  proof (rule Cons.IH [OF st(1)])
    show "cpc_reason d = CP_DISCARD" using st(4) Cons.prems(2) by simp
    show "(c, t) = fold (\<lambda>x (c, s). add_discard_addrs g (c\<lparr>trim_start := x\<rparr>) s) xs (d, u)"
      using Cons.prems(4) by (simp add: r [symmetric])
  qed (use Cons.prems(3) but_discardsD(1) [OF st(2)] in simp)
  then show ?case
    using st(2,3) but_discards_trans [OF st(2)] but_discards_disk(7) [OF st(2)] by auto
qed simp

text \<open>
  The state between two checkpoints: the counter counts the dirty segments, and the entries of the
  others are on the device as they are in memory.
\<close>

definition sit_flush_ok :: "layout \<Rightarrow> geom \<Rightarrow> sb_info \<Rightarrow> bool" where
  "sit_flush_ok L g s \<longleftrightarrow> sit_dev_ok L g s \<and> segs_ok L g s \<and> dirty_sentries (sit_i s) = of_nat (card (dirty_set g s)) \<and>
     (\<forall>y<main_segments g. y \<notin> dirty_set g s \<longrightarrow> disk_sit L g s y = raw_of L s y \<and> sentries (sit_i s) y = saved L s y)"

definition sit_flushed :: "layout \<Rightarrow> geom \<Rightarrow> sb_info \<Rightarrow> sb_info \<Rightarrow> bool" where
  "sit_flushed L g s t \<longleftrightarrow> sit_dev_ok L g t \<and> segs_ok L g t \<and> dirty_set g t = {} \<and> dirty_sentries (sit_i t) = 0 \<and>
     (\<forall>y<main_segments g. disk_sit L g t y = raw_of L s y \<and> sentries (sit_i t) y = saved L s y \<and>
        sit_pages t (current_sit_addr L g y s) = sit_pages s (current_sit_addr L g y s)) \<and>
     s_flag t = s_flag s \<and> dirty_i t = dirty_i s \<and> free_i t = free_i s \<and>
     discard_blocks t \<subseteq> discard_blocks s \<union> stale_blocks g s"

lemma card_dirty: "card (dirty_set g s) \<le> main_segments g"
proof -
  have "card (dirty_set g s) \<le> card {..<main_segments g}" by (intro card_mono) (auto simp: dirty_set_def)
  then show ?thesis by simp
qed

lemma finite_dirty [simp]: "finite (dirty_set g s)" by (simp add: dirty_set_def)

lemma stale_cong:
  assumes "\<And>y. y < main_segments g \<Longrightarrow> cur_valid_map (sentries (sit_i t) y) = cur_valid_map (sentries (sit_i s) y)"
  shows "stale_blocks g t = stale_blocks g s"
  unfolding stale_blocks_def by (intro Collect_cong) (metis assms)

text \<open>The sets built before the loop, with or without the journal's entries.\<close>

definition sets_ready :: "layout \<Rightarrow> geom \<Rightarrow> sb_info \<Rightarrow> sb_info \<Rightarrow> sit_entry_set list \<Rightarrow> bool" where
  "sets_ready L g s u head \<longleftrightarrow> sit_dev_ok L g u \<and> segs_ok L g u \<and> sit_fit L g True u \<and> sets_for L (dirty_set g u) head \<and>
     dirty_sentries (sit_i u) = of_nat (card (dirty_set g u)) \<and> dirty_set g s \<subseteq> dirty_set g u \<and>
     (\<forall>y<main_segments g. y \<notin> dirty_set g u \<longrightarrow> disk_sit L g u y = disk_sit L g s y) \<and>
     sentries (sit_i u) = sentries (sit_i s) \<and> sit_bitmap (sit_i u) = sit_bitmap (sit_i s) \<and> sit_pages u = sit_pages s \<and>
     s_flag u = s_flag s \<and> dirty_i u = dirty_i s \<and> free_i u = free_i s \<and> discard_list u = discard_list s"

lemma sets_ready_ok:
  assumes ok: "sit_flush_ok L g s"
    and r: "(u, head) = (if \<not> has_cursum_space L (cold_sum s) (unat (dirty_sentries (sit_i s))) SIT_JOURNAL
      then remove_sits_in_journal L s (add_sits_in_set L g s []) else (s, add_sits_in_set L g s []))"
  shows "sets_ready L g s u head"
proof -
  have dev: "sit_dev_ok L g s" "segs_ok L g s" "dirty_sentries (sit_i s) = of_nat (card (dirty_set g s))"
    using ok by (simp_all add: sit_flush_ok_def)
  have m: "main_segments g < 2 ^ 32" "jn (cold_j s) \<le> sit_journal_entries L" using dev(1) by (simp_all add: sit_dev_ok_def)
  define xs where "xs = for_each_set_bit (dirty_sentries_bitmap (sit_i s)) (main_segments g) 0"
  have xs: "set xs = dirty_set g s" "distinct xs" by (auto simp: xs_def dirty_set_def for_each_set_bit_eq)
  have h: "sets_for L (dirty_set g s) (add_sits_in_set L g s [])"
    using add_sits_sets [of L "{}" "[]" xs] xs by (simp add: add_sits_in_set_def xs_def sets_for_def)
  show ?thesis
  proof (cases "has_cursum_space L (cold_sum s) (unat (dirty_sentries (sit_i s))) SIT_JOURNAL")
    case True
    have "unat (of_nat (card (dirty_set g s)) :: u32) = card (dirty_set g s)"
      using card_dirty [of g s] m(1) by (intro unat_of_nat_small) simp
    then have "card (dirty_set g s) + jn (cold_j s) \<le> sit_journal_entries L"
      using True sit_room [OF m(2), of "card (dirty_set g s)"] by (simp add: dev(3))
    then have "sit_fit L g True s" by (simp add: sit_fit_def count_bits_def dirty_set_def)
    then show ?thesis using True r dev h by (simp add: sets_ready_def)
  next
    case False
    have mk: "marked L g s s (add_sits_in_set L g s [])" using dev(3) h by (simp add: marked_def)
    have rr: "(u, head) = remove_sits_in_journal L s (add_sits_in_set L g s [])" using r False by simp
    note f = remove_sits_spec [OF dev(1,2) mk rr]
    have "sit_fit L g True u" using f(3) by (simp add: sit_fit_def jkeys_def)
    moreover have "dirty_set g s \<subseteq> dirty_set g u" using f(6) by (auto simp: dirty_set_def)
    moreover have "\<forall>y<main_segments g. y \<notin> dirty_set g u \<longrightarrow> disk_sit L g u y = disk_sit L g s y"
      using f(7) by (simp add: dirty_set_def)
    ultimately show ?thesis using f by (simp add: sets_ready_def)
  qed
qed

lemma flush_dirty_spec:
  assumes ok: "sit_flush_ok L g s" and rd: "sets_ready L g s u head"
    and r: "(tj, c, t) = fold (flush_sit_entry_set L g) head (True, cpc, u)"
  shows "sit_flushed L g s t" "cpc_reason c = cpc_reason cpc" "trim_end c = trim_end cpc"
proof -
  have fin: "finite (dirty_set g u)" by simp
  have uok: "sit_dev_ok L g u" "segs_ok L g u" "sit_fit L g True u" "sets_for L (dirty_set g u) head"
    using rd by (simp_all add: sets_ready_def)
  have none: "of_sets L g u {} = {}" by (simp add: of_sets_def)
  have start: "sits_flushing L g u {} True u" using uok by (simp add: sits_flushing_def none)
  have of1: "of_sets L g u {k} = {x \<in> dirty_set g u. START_SEGNO L x = k}" for k
    by (auto simp: of_sets_def dirty_set_def)
  have "ses_start ses \<notin> {} \<and> ses_cnt ses = int (card (of_sets L g u {ses_start ses})) \<and>
      (\<exists>x. ses_start ses = START_SEGNO L x \<and> x \<in> of_sets L g u {ses_start ses})" if "ses \<in> set head" for ses
  proof -
    have "ses_start ses \<in> START_SEGNO L ` dirty_set g u" using uok(4) that unfolding sets_for_def by blast
    then obtain x where "x \<in> dirty_set g u" "ses_start ses = START_SEGNO L x" by blast
    then show ?thesis using uok(4) that of1 [of "ses_start ses"] by (auto simp: sets_for_def)
  qed
  moreover have "distinct (map ses_start head)" using uok(4) by (simp add: sets_for_def)
  ultimately have fl: "sits_flushing L g u (ses_start ` set head \<union> {}) tj t \<and> cpc_reason c = cpc_reason cpc \<and>
      trim_end c = trim_end cpc \<and> (cpc_reason cpc = CP_DISCARD \<longrightarrow> c = cpc)"
    by (intro sets_loop [OF start uok(1) _ _ r]) blast+
  then show "cpc_reason c = cpc_reason cpc" "trim_end c = trim_end cpc" by simp_all
  have "of_sets L g u (ses_start ` set head \<union> {}) = dirty_set g u"
    using uok(4) by (auto simp: sets_for_def of_sets_def dirty_set_def)
  note fl' = conjunct1 [OF fl, unfolded sits_flushing_def this]
  have su: "raw_of L u = raw_of L s" "saved L u = saved L s" "stale_blocks g u = stale_blocks g s"
      "discard_blocks u = discard_blocks s" "current_sit_addr L g y u = current_sit_addr L g y s" for y
    using rd by (simp_all add: sets_ready_def raw_of_def [abs_def] saved_def [abs_def] stale_blocks_def discard_blocks_def
        current_sit_addr_def)
  have clean: "disk_sit L g u y = raw_of L s y \<and> sentries (sit_i s) y = saved L s y"
    if "y < main_segments g" "y \<notin> dirty_set g u" for y
    using rd ok that unfolding sets_ready_def sit_flush_ok_def by (metis subsetD)
  have f: "sit_dev_ok L g t" "segs_ok L g t" "s_flag t = s_flag u" "dirty_i t = dirty_i u" "free_i t = free_i u"
    "discard_blocks t \<subseteq> discard_blocks u \<union> stale_blocks g u"
    "sentries (sit_i t) = (\<lambda>y. if y \<in> dirty_set g u then saved L u y else sentries (sit_i u) y)"
    "dirty_sentries_bitmap (sit_i t) = (\<lambda>y. dirty_sentries_bitmap (sit_i u) y \<and> y \<notin> dirty_set g u)"
    "dirty_sentries (sit_i t) = dirty_sentries (sit_i u) - of_nat (card (dirty_set g u))"
    and fy: "\<And>y. y < main_segments g \<Longrightarrow> disk_sit L g t y = (if y \<in> dirty_set g u then raw_of L u y else disk_sit L g u y)"
    "\<And>y. y < main_segments g \<Longrightarrow> sit_pages t (current_sit_addr L g y u) = sit_pages u (current_sit_addr L g y u)"
    using fl' by blast+
  have e: "dirty_sentries (sit_i u) = of_nat (card (dirty_set g u))" "sentries (sit_i u) = sentries (sit_i s)"
    "sit_pages u = sit_pages s" "s_flag u = s_flag s" "dirty_i u = dirty_i s" "free_i u = free_i s"
    using rd by (simp_all add: sets_ready_def)
  have "disk_sit L g t y = raw_of L s y \<and> sentries (sit_i t) y = saved L s y \<and>
      sit_pages t (current_sit_addr L g y s) = sit_pages s (current_sit_addr L g y s)" if y: "y < main_segments g" for y
    using fy [OF y] clean [OF y] by (simp add: f(7) su e(2,3))
  moreover have "dirty_set g t = {}" by (auto simp: dirty_set_def f(8))
  moreover have "dirty_sentries (sit_i t) = 0" by (simp add: f(9) e(1))
  ultimately show "sit_flushed L g s t"
    using f(1-6) by (simp add: sit_flushed_def su e(4-6))
qed

lemma flush_sit_entries_spec:
  assumes ok: "sit_flush_ok L g s" and tr: "cpc_reason cpc = CP_DISCARD \<Longrightarrow> trim_end cpc < main_segments g"
    and r: "(c, t) = flush_sit_entries L g cpc s"
  obtains u where "t = set_prefree_as_free_segments g u" "sit_flushed L g s u"
proof -
  have none: "sit_flushed L g s s" if "dirty_sentries (sit_i s) = 0"
  proof -
    have "main_segments g < 2 ^ 32" using ok by (simp add: sit_flush_ok_def sit_dev_ok_def)
    then have "unat (of_nat (card (dirty_set g s)) :: u32) = card (dirty_set g s)"
      using card_dirty [of g s] by (intro unat_of_nat_small) simp
    then have "dirty_set g s = {}" using ok that by (simp add: sit_flush_ok_def)
    then show ?thesis using ok that by (simp add: sit_flush_ok_def sit_flushed_def)
  qed
  define r1 where "r1 = (if dirty_sentries (sit_i s) = 0 then (cpc, s)
             else let head = add_sits_in_set L g s [];
                      (s, head) = (if \<not> has_cursum_space L (cold_sum s) (unat (dirty_sentries (sit_i s))) SIT_JOURNAL
                                   then remove_sits_in_journal L s head else (s, head));
                      (_, cpc, s) = fold (flush_sit_entry_set L g) head (True, cpc, s)
                  in (cpc, f2fs_bug_on (dirty_sentries (sit_i s) \<noteq> 0) s))"
  obtain c1 u where u: "r1 = (c1, u)" by fastforce
  have fu: "sit_flushed L g s u \<and> cpc_reason c1 = cpc_reason cpc \<and> trim_end c1 = trim_end cpc"
  proof (cases "dirty_sentries (sit_i s) = 0")
    case True
    then show ?thesis using u none by (simp add: r1_def)
  next
    case False
    obtain w head where w: "(w, head) = (if \<not> has_cursum_space L (cold_sum s) (unat (dirty_sentries (sit_i s))) SIT_JOURNAL
      then remove_sits_in_journal L s (add_sits_in_set L g s []) else (s, add_sits_in_set L g s []))"
      by (metis prod.collapse)
    obtain tj c2 t2 where f: "(tj, c2, t2) = fold (flush_sit_entry_set L g) head (True, cpc, w)" by (metis prod_cases3)
    note sp = flush_dirty_spec [OF ok sets_ready_ok [OF ok w] f]
    have "dirty_sentries (sit_i t2) = 0" using sp(1) by (simp add: sit_flushed_def)
    then have "r1 = (c2, t2)" using False by (simp add: r1_def w [symmetric] f [symmetric])
    then show ?thesis using sp u by simp
  qed
  then have uok: "segs_ok L g u" "\<And>y. y < main_segments g \<Longrightarrow> sentries (sit_i u) y = saved L s y"
    by (simp_all add: sit_flushed_def)
  obtain c3 v where v: "(c3, v) = fold (\<lambda>x (c, s). add_discard_addrs g (c\<lparr>trim_start := x\<rparr>) s)
      [trim_start c1..<Suc (trim_end c1)] (c1, u)" by (metis prod.collapse)
  have "sit_flushed L g s v" if "cpc_reason c1 = CP_DISCARD"
  proof -
    have "segs_ok L g v \<and> but_discards u v \<and> discard_blocks v \<subseteq> discard_blocks u \<union> stale_blocks g u"
      by (rule trim_loop [OF uok(1) that _ v]) (use tr fu that in \<open>auto simp: uok(2) saved_fields\<close>)
    moreover have "stale_blocks g u = stale_blocks g s" by (rule stale_cong) (simp add: uok(2) saved_fields)
    ultimately show ?thesis
      using fu but_discards_disk [of u v] but_discardsD [of u v] unfolding sit_flushed_def dirty_set_def by auto
  qed
  moreover have "t = set_prefree_as_free_segments g (if cpc_reason c1 = CP_DISCARD then v else u)"
    using r unfolding flush_sit_entries_def r1_def [symmetric] u
    by (auto simp: v [symmetric] Let_def simp del: upt_Suc)
  ultimately show ?thesis using that fu by (cases "cpc_reason c1 = CP_DISCARD") simp_all
qed

text \<open>
  C11: A checkpoint's \<open>flush_sit_entries\<close> makes the segment information table on the device (blocks
  and journal) equal to the one in memory. No entry is dirty afterwards and the counter is zero, no
  invariant check fires, the block of every segment that was current before is not written, so the
  table of the last checkpoint survives a crash, a discard is only queued for blocks that hold no
  valid data, and the state is again one from which the next flush can start.
\<close>
theorem sit_flush_commits:
  assumes "sit_flush_ok L g s" "cpc_reason cpc = CP_DISCARD \<Longrightarrow> trim_end cpc < main_segments g"
  shows "let t = snd (flush_sit_entries L g cpc s)
    in sit_flush_ok L g t \<and> dirty_set g t = {} \<and> dirty_sentries (sit_i t) = 0 \<and> s_flag t = s_flag s \<and>
      (\<forall>y<main_segments g. disk_sit L g t y = raw_of L s y \<and> sentries (sit_i t) y = saved L s y \<and>
        sit_pages t (current_sit_addr L g y s) = sit_pages s (current_sit_addr L g y s)) \<and>
      discard_blocks t \<subseteq> discard_blocks s \<union> stale_blocks g s \<and>
      free_i t = free_i (set_prefree_as_free_segments g s)"
proof -
  obtain c t where r: "(c, t) = flush_sit_entries L g cpc s" by (metis prod.collapse)
  obtain u where t: "t = set_prefree_as_free_segments g u" and u: "sit_flushed L g s u"
    by (rule flush_sit_entries_spec [OF assms r])
  have e: "sit_i t = sit_i u" "cursegs t = cursegs u" "sit_pages t = sit_pages u" "s_flag t = s_flag u"
    "discard_list t = discard_list u" "nr_discards t = nr_discards u"
    by (simp_all add: t set_prefree_as_free_segments_def)
  have d: "disk_sit L g t y = disk_sit L g u y" "sit_dev_ok L g t = sit_dev_ok L g u" "dirty_set g t = dirty_set g u"
    "segs_ok L g t = segs_ok L g u" "discard_blocks t = discard_blocks u" "raw_of L t y = raw_of L u y"
    "saved L t y = saved L u y" for y
    by (simp_all add: disk_sit_def block_sit_def [abs_def] cold_j_def cold_sum_def current_sit_addr_def sit_dev_ok_def
        sit_blk_ok_def dirty_set_def segs_ok_def discards_ok_def discard_blocks_def raw_of_def saved_def e)
  have "raw_of L u y = raw_of L s y" "saved L u y = saved L s y" if "y < main_segments g" for y
    using saved_same [of u y L s] u that by (simp_all add: sit_flushed_def)
  then have "sit_flush_ok L g t" using u by (simp add: sit_flush_ok_def sit_flushed_def d e)
  moreover have "free_i t = free_i (set_prefree_as_free_segments g s)"
    using u by (simp add: t set_prefree_as_free_segments_def sit_flushed_def)
  ultimately show ?thesis
    using u by (simp add: r [symmetric] d e sit_flushed_def)
qed

text \<open>The sample volume with segment 1 dirty; its entry fits into the journal.\<close>

definition sit_sample :: sb_info where
  "sit_sample = sample_sb\<lparr>sit_i := (sit_i sample_sb)
       \<lparr>sentries := (sentries (sit_i sample_sb))(1 := (sample_seg 1)\<lparr>se_mtime := 9\<rparr>),
        dirty_sentries_bitmap := (\<lambda>y. y = 1), dirty_sentries := 1\<rparr>,
     sit_pages := (\<lambda>a k. snd (seg_info_to_raw_sit small_layout
       (sample_seg (if a = 80 then k else if k < 2 then k + 4 else 0))))\<rparr>"

lemma sit_sample_ok: "sit_flush_ok small_layout small_geom sit_sample"
proof -
  have seg: "seg_ok small_layout small_geom (sentries (sit_i sample_sb) y)" if "y < 8" for y
    using sample_store_ok(1) that by (simp add: sit_ok_def small_geom_def)
  have "seg_ok small_layout small_geom (sentries (sit_i sit_sample) y)" if y: "y < 8" for y
    using seg [of y] seg [of 1] y by (simp add: sit_sample_def) (simp add: sample_sb_def seg_ok_def nvalid_def)
  then have segs: "segs_ok small_layout small_geom sit_sample"
    using small_layout_ok small_geom_ok
    by (simp add: segs_ok_def discards_ok_def) (simp add: sit_sample_def sample_sb_def small_geom_def)
  have j: "jn (cold_j sit_sample) = 0" by (simp add: cold_j_def cold_sum_def sit_sample_def sample_sb_def sample_sum_def)
  have dev: "sit_dev_ok small_layout small_geom sit_sample"
    using j by (auto simp: sit_dev_ok_def jok_def jkeys_def sit_geom_ok_def sit_blk_ok_def SIT_BLOCK_OFFSET_def
        small_geom_def small_layout_def sit_sample_def sample_sb_def)
  have ds: "dirty_set small_geom sit_sample = {1}" by (auto simp: dirty_set_def sit_sample_def small_geom_def)
  have "disk_sit small_layout small_geom sit_sample y = raw_of small_layout sit_sample y \<and>
      sentries (sit_i sit_sample) y = saved small_layout sit_sample y" if y: "y < 8" "y \<noteq> 1" for y
  proof -
    have u: "unat (of_nat y :: u32) = y" using y by (simp add: unat_of_nat_small)
    have "current_sit_addr small_layout small_geom y sit_sample = (if y < 4 then 80 else 81)"
    proof -
      have "SIT_BLOCK_OFFSET small_layout y = (if y < 4 then 0 else 1)"
        using y by (auto simp: SIT_BLOCK_OFFSET_def small_layout_def)
      moreover have "sit_cur small_geom b sit_sample = 80 + b" if "b < 8" for b
        using that by (simp add: byte_bit_def f2fs_test_bit_def sit_cur_def sit_copy_def sit_sample_def sample_sb_def small_geom_def)
      ultimately show ?thesis using dev_okD(3) [OF dev, of y] y by (simp add: small_geom_def)
    qed
    moreover have "SIT_ENTRY_OFFSET small_layout y = (if y < 4 then y else y - 4)"
      using y by (auto simp: SIT_ENTRY_OFFSET_def small_layout_def mod_if)
    ultimately have "disk_sit small_layout small_geom sit_sample y = raw_of small_layout sit_sample y"
      using j y by (auto simp: disk_sit_def block_sit_def u raw_of_def sit_sample_def sample_sb_def)
    moreover have "sentries (sit_i sit_sample) y = saved small_layout sit_sample y"
      using y by (simp add: saved_def seg_info_to_raw_sit_def sit_sample_def sample_sb_def sample_seg_def)
    ultimately show ?thesis ..
  qed
  then have "\<forall>y<main_segments small_geom. y \<notin> dirty_set small_geom sit_sample \<longrightarrow>
      disk_sit small_layout small_geom sit_sample y = raw_of small_layout sit_sample y \<and>
      sentries (sit_i sit_sample) y = saved small_layout sit_sample y"
    by (simp add: ds) (simp add: small_geom_def)
  moreover have "dirty_sentries (sit_i sit_sample) = 1" by (simp add: sit_sample_def)
  ultimately show ?thesis using dev segs by (simp add: sit_flush_ok_def ds)
qed

theorem sit_flush_commits_witness:
  "r_mtime (disk_sit small_layout small_geom (snd (flush_sit_entries small_layout small_geom
     (trim_cpc\<lparr>cpc_reason := CP_SYNC\<rparr>) sit_sample)) 1) = 9 \<and>
   dirty_sentries (sit_i (snd (flush_sit_entries small_layout small_geom (trim_cpc\<lparr>cpc_reason := CP_SYNC\<rparr>) sit_sample))) = 0"
proof -
  have "raw_of small_layout sit_sample 1 = snd (seg_info_to_raw_sit small_layout ((sample_seg 1)\<lparr>se_mtime := 9\<rparr>))"
    by (simp add: raw_of_def sit_sample_def)
  then have "r_mtime (raw_of small_layout sit_sample 1) = 9" by (simp add: seg_info_to_raw_sit_def)
  moreover have "1 < main_segments small_geom" by (simp add: small_geom_def)
  ultimately show ?thesis
    using sit_flush_commits [OF sit_sample_ok, of "trim_cpc\<lparr>cpc_reason := CP_SYNC\<rparr>"] by (simp add: Let_def)
qed

end
