(* ===== verification/Gc_Policy.thy ===== *)
theory Gc_Policy
  imports Curseg
begin

text \<open>
  When the file system cleans (\<open>gc.h\<close>, \<open>gc.c\<close>, \<open>segment.h\<close>): the amounts of free and of
  invalid space that start the background collector, the time its thread sleeps between two
  rounds, and when data is written in place instead of to a log.
\<close>

section \<open>Amounts of space\<close>

definition written_block_count :: "sb_info \<Rightarrow> u32" where
  "written_block_count s = written_valid_blocks (sit_i s)"

definition free_user_blocks :: "geom \<Rightarrow> sb_info \<Rightarrow> u32" where
  "free_user_blocks g s =
     (if free_segments (free_i s) < ovp_segments g then 0
      else push_bit (log_blocks_per_seg g) (free_segments (free_i s) - ovp_segments g))"

text \<open>
  The products are computed in \<open>block_t\<close>, 32 bits wide; the conversion to \<open>long\<close> comes after the
  multiplication.
\<close>

abbreviation (input) LIMIT_INVALID_BLOCK :: u32 where "LIMIT_INVALID_BLOCK \<equiv> 40"
abbreviation (input) LIMIT_FREE_BLOCK :: u32 where "LIMIT_FREE_BLOCK \<equiv> 40"

definition limit_invalid_user_blocks :: "geom \<Rightarrow> u32" where
  "limit_invalid_user_blocks g = of_nat (unat (user_block_count g * LIMIT_INVALID_BLOCK) div 100)"

definition limit_free_user_blocks :: "geom \<Rightarrow> sb_info \<Rightarrow> u32" where
  "limit_free_user_blocks g s =
     (let reclaimable_user_blocks = user_block_count g - written_block_count s
      in of_nat (unat (reclaimable_user_blocks * LIMIT_FREE_BLOCK) div 100))"

definition has_enough_invalid_blocks :: "geom \<Rightarrow> sb_info \<Rightarrow> bool" where
  "has_enough_invalid_blocks g s =
     (let invalid_user_blocks = user_block_count g - written_block_count s
      in invalid_user_blocks > limit_invalid_user_blocks g \<and>
         free_user_blocks g s < limit_free_user_blocks g s)"

section \<open>The sleep time of the thread\<close>

text \<open>The time is a \<open>long\<close>, wide enough for the sums of two 32-bit values.\<close>

definition increase_sleep_time :: "f2fs_gc_kthread \<Rightarrow> int \<Rightarrow> int" where
  "increase_sleep_time gc_th wait =
     (if wait = uint (no_gc_sleep_time gc_th) then wait
      else let wait = wait + uint (min_sleep_time gc_th)
           in if wait > uint (max_sleep_time gc_th) then uint (max_sleep_time gc_th) else wait)"

definition decrease_sleep_time :: "f2fs_gc_kthread \<Rightarrow> int \<Rightarrow> int" where
  "decrease_sleep_time gc_th wait =
     (let wait = (if wait = uint (no_gc_sleep_time gc_th) then uint (max_sleep_time gc_th) else wait);
          wait = wait - uint (min_sleep_time gc_th)
      in if wait \<le> uint (min_sleep_time gc_th) then uint (min_sleep_time gc_th) else wait)"

text \<open>
  What the thread finds in one round: whether it is being frozen for a suspend, whether writes to
  the file system are frozen, whether the collector runs already, whether the device is idle,
  whether the thresholds of \<open>has_enough_invalid_blocks\<close> are passed, and the result of \<open>f2fs_gc\<close>.
\<close>

record gc_round =
  freezing :: bool             \<comment> \<open>try_to_freeze()\<close>
  sb_frozen :: bool            \<comment> \<open>s_writers.frozen >= SB_FREEZE_WRITE\<close>
  gc_running :: bool           \<comment> \<open>mutex_trylock fails\<close>
  bdev_idle :: bool            \<comment> \<open>is_idle(sbi)\<close>
  enough_invalid :: bool
  gc_ret :: int                \<comment> \<open>f2fs_gc(sbi)\<close>

definition gc_thread_round :: "f2fs_gc_kthread \<Rightarrow> gc_round \<Rightarrow> int \<Rightarrow> int" where
  "gc_thread_round gc_th r wait =
     (if freezing r then wait
      else if sb_frozen r then increase_sleep_time gc_th wait
      else if gc_running r then wait
      else if \<not> bdev_idle r then increase_sleep_time gc_th wait
      else let wait = (if enough_invalid r then decrease_sleep_time gc_th wait
                       else increase_sleep_time gc_th wait)
           in if gc_ret r \<noteq> 0 then uint (no_gc_sleep_time gc_th) else wait)"

text \<open>The times the thread sleeps, from its start on.\<close>

inductive gc_thread_wait :: "f2fs_gc_kthread \<Rightarrow> int \<Rightarrow> bool" for gc_th where
  start: "gc_thread_wait gc_th (uint (min_sleep_time gc_th))"
| round: "gc_thread_wait gc_th wait \<Longrightarrow> gc_thread_wait gc_th (gc_thread_round gc_th r wait)"

definition start_gc_thread :: f2fs_gc_kthread where
  "start_gc_thread = \<lparr>min_sleep_time = 30000, max_sleep_time = 60000, no_gc_sleep_time = 300000, gc_idle = 0\<rparr>"

section \<open>Writing in place\<close>

definition utilization :: "geom \<Rightarrow> sb_info \<Rightarrow> nat" where
  "utilization g s = (unat (total_valid_block_count s) * 100) div unat (user_block_count g)"

definition excess_prefree_segs :: "geom \<Rightarrow> sb_info \<Rightarrow> bool" where
  "excess_prefree_segs g s \<longleftrightarrow> nat (nr_dirty (dirty_i s) PRE) > unat (rec_prefree_segments g)"

datatype ipu = F2FS_IPU_FORCE | F2FS_IPU_SSR | F2FS_IPU_UTIL | F2FS_IPU_SSR_UTIL | F2FS_IPU_FSYNC

fun ipu_no :: "ipu \<Rightarrow> nat" where
  "ipu_no F2FS_IPU_FORCE = 0"
| "ipu_no F2FS_IPU_SSR = 1"
| "ipu_no F2FS_IPU_UTIL = 2"
| "ipu_no F2FS_IPU_SSR_UTIL = 3"
| "ipu_no F2FS_IPU_FSYNC = 4"

definition ipu_set :: "geom \<Rightarrow> ipu \<Rightarrow> bool" where
  "ipu_set g p \<longleftrightarrow> ipu_policy g AND push_bit (ipu_no p) 1 \<noteq> 0"

definition need_inplace_update :: "geom \<Rightarrow> sb_info \<Rightarrow> f2fs_inode_info \<Rightarrow> bool" where
  "need_inplace_update g s fi =
     (if i_mode_dir fi \<or> is_inode_flag_set fi FI_ATOMIC_FILE then False
      else if ipu_set g F2FS_IPU_FORCE then True
      else if ipu_set g F2FS_IPU_SSR \<and> need_SSR g s then True
      else if ipu_set g F2FS_IPU_UTIL \<and> utilization g s > unat (min_ipu_util g) then True
      else if ipu_set g F2FS_IPU_SSR_UTIL \<and> need_SSR g s \<and> utilization g s > unat (min_ipu_util g) then True
      else if ipu_set g F2FS_IPU_FSYNC \<and> is_inode_flag_set fi FI_NEED_IPU then True
      else False)"

section \<open>Limits\<close>

lemma limit_value: "unat (of_nat (unat (u * 40 :: u32) div 100) :: u32) = (unat u * 40 mod 2 ^ 32) div 100"
proof -
  have "unat (u * 40) < 2 ^ 32" using unsigned_less [of "u * 40", where ?'a = nat] by simp
  then have "unat (u * 40) div 100 < 2 ^ 32" by simp
  then have "unat (of_nat (unat (u * 40 :: u32) div 100) :: u32) = unat (u * 40) div 100"
    by (simp add: unat_of_nat_small)
  then show ?thesis by (simp add: unat_word_ariths)
qed

lemma limit_exact: "(x mod 2 ^ 32) div 100 = x div 100 \<longleftrightarrow> x < 2 ^ 32" for x :: nat
proof
  assume e: "x mod 2 ^ 32 div 100 = x div 100"
  show "x < 2 ^ 32"
  proof (rule ccontr)
    assume "\<not> x < 2 ^ 32"
    then obtain k where k: "x = 2 ^ 32 + k" by (metis le_Suc_ex not_less)
    then have "x mod 2 ^ 32 \<le> k" by (simp add: mod_less_eq_dividend)
    then have "x mod 2 ^ 32 + 100 \<le> x" using k by simp
    then have "(x mod 2 ^ 32 + 100) div 100 \<le> x div 100" by (rule div_le_mono)
    then show False using e by simp
  qed
qed simp

lemma limit_small: "(x mod 2 ^ 32) div 100 \<le> 42949672" for x :: nat
proof -
  have "x mod 2 ^ 32 \<le> 2 ^ 32 - 1" by simp
  then have "x mod 2 ^ 32 div 100 \<le> (2 ^ 32 - 1) div 100" by (rule div_le_mono)
  then show ?thesis by simp
qed

text \<open>
  The two limits of the background collector are 40 percent of the user blocks and of the
  reclaimable blocks exactly as long as the 32-bit product does not wrap, that is below
  107374183 blocks (410 GB): above, the limit is smaller than 40 percent, and never more than
  42949672 blocks however large the volume is.
\<close>
theorem gc_limits_wrap:
  "(unat (limit_invalid_user_blocks g) = unat (user_block_count g) * 40 div 100
     \<longleftrightarrow> user_block_count g < 107374183) \<and>
   (unat (limit_free_user_blocks g s) = unat (user_block_count g - written_block_count s) * 40 div 100
     \<longleftrightarrow> user_block_count g - written_block_count s < 107374183) \<and>
   unat (limit_invalid_user_blocks g) \<le> 42949672 \<and> unat (limit_free_user_blocks g s) \<le> 42949672"
proof -
  have l: "unat u * 40 < 2 ^ 32 \<longleftrightarrow> u < 107374183" for u :: u32
    by (simp add: word_less_nat_alt) arith
  show ?thesis
    unfolding limit_invalid_user_blocks_def limit_free_user_blocks_def Let_def limit_value limit_exact l
    using limit_small by blast
qed

text \<open>What the collector waits for, on volumes where nothing wraps.\<close>

lemma has_enough_iff:
  assumes "user_block_count g < 107374183" "written_block_count s \<le> user_block_count g"
  shows "has_enough_invalid_blocks g s \<longleftrightarrow>
    (let u = unat (user_block_count g); inv = u - unat (written_block_count s)
     in 100 * inv > 40 * u \<and> 100 * (unat (free_user_blocks g s) + 1) \<le> 40 * inv)"
proof -
  let ?i = "user_block_count g - written_block_count s"
  have i: "unat ?i = unat (user_block_count g) - unat (written_block_count s)" using assms(2) by (simp add: unat_sub word_le_nat_alt)
  then have "?i < 107374183" using assms(1) by (simp add: word_less_nat_alt)
  then have "unat (limit_invalid_user_blocks g) = unat (user_block_count g) * 40 div 100"
    "unat (limit_free_user_blocks g s) = unat ?i * 40 div 100"
    using assms(1) unfolding limit_invalid_user_blocks_def limit_free_user_blocks_def Let_def limit_value
    by (simp_all add: word_less_nat_alt)
  then have "(?i > limit_invalid_user_blocks g) = (unat ?i > unat (user_block_count g) * 40 div 100)"
    "(free_user_blocks g s < limit_free_user_blocks g s) = (unat (free_user_blocks g s) < unat ?i * 40 div 100)"
    by (simp_all add: word_less_nat_alt)
  then show ?thesis
    unfolding has_enough_invalid_blocks_def Let_def i by simp arith
qed

section \<open>The thread\<close>

lemma increase_bounds:
  assumes "min_sleep_time gc_th \<le> max_sleep_time gc_th"
    and "wait = uint (no_gc_sleep_time gc_th) \<or> uint (min_sleep_time gc_th) \<le> wait \<and> wait \<le> uint (max_sleep_time gc_th)"
  shows "let w = increase_sleep_time gc_th wait
    in w = uint (no_gc_sleep_time gc_th) \<or> uint (min_sleep_time gc_th) \<le> w \<and> w \<le> uint (max_sleep_time gc_th)"
proof -
  define m where "m = uint (min_sleep_time gc_th)"
  then have "0 \<le> m" by simp
  then show ?thesis
    using assms unfolding increase_sleep_time_def Let_def word_le_def m_def [symmetric] by (simp split: if_splits) arith
qed

lemma decrease_bounds:
  assumes "min_sleep_time gc_th \<le> max_sleep_time gc_th"
    and "wait = uint (no_gc_sleep_time gc_th) \<or> uint (min_sleep_time gc_th) \<le> wait \<and> wait \<le> uint (max_sleep_time gc_th)"
  shows "let w = decrease_sleep_time gc_th wait
    in uint (min_sleep_time gc_th) \<le> w \<and> w \<le> uint (max_sleep_time gc_th)"
proof -
  define m where "m = uint (min_sleep_time gc_th)"
  then have "0 \<le> m" by simp
  then show ?thesis
    using assms unfolding decrease_sleep_time_def Let_def word_le_def m_def [symmetric] by (simp split: if_splits) arith
qed

text \<open>
  Whatever the thread finds in its rounds, its sleep time is either the one used when no
  victim was found or between the minimum and the maximum; with the values of \<open>start_gc_thread\<close> it
  is 30 to 60 seconds or 5 minutes.
\<close>
theorem gc_sleep_time_bounded:
  assumes "gc_thread_wait gc_th wait" "min_sleep_time gc_th \<le> max_sleep_time gc_th"
  shows "wait = uint (no_gc_sleep_time gc_th) \<or>
    uint (min_sleep_time gc_th) \<le> wait \<and> wait \<le> uint (max_sleep_time gc_th)"
  using assms(1)
proof induction
  case start
  then show ?case using assms(2) by (simp add: word_le_def)
next
  case (round wait r)
  show ?case
    using increase_bounds [OF assms(2) round.IH] decrease_bounds [OF assms(2) round.IH] round.IH
    by (auto simp: gc_thread_round_def Let_def)
qed

theorem gc_sleep_time_bounded_witness:
  "gc_thread_round start_gc_thread \<lparr>freezing = False, sb_frozen = False, gc_running = False, bdev_idle = True,
     enough_invalid = False, gc_ret = 0\<rparr> 30000 \<le> 300000"
proof -
  let ?r = "\<lparr>freezing = False, sb_frozen = False, gc_running = False, bdev_idle = True,
     enough_invalid = False, gc_ret = 0\<rparr>"
  have "gc_thread_wait start_gc_thread 30000"
    using gc_thread_wait.start [of start_gc_thread] by (simp add: start_gc_thread_def)
  then have "gc_thread_wait start_gc_thread (gc_thread_round start_gc_thread ?r 30000)" by (rule gc_thread_wait.round)
  then show ?thesis
    using gc_sleep_time_bounded [of start_gc_thread "gc_thread_round start_gc_thread ?r 30000"]
    by (auto simp: start_gc_thread_def)
qed

end
