(* ===== verification/Bytes.thy ===== *)
theory Bytes
  imports F2FS_Prelude
begin

text \<open>
  Bytes of blocks and buffers: reading and writing a piece at an offset, and little-endian words.
  \<open>fixed_format\<close> is the interface of an encoding of fixed width: what is written is read back, alone,
  in a buffer, or in an array.
\<close>

section \<open>Pieces of a buffer\<close>

type_synonym pages = "nat \<Rightarrow> u8 list"

definition put_at :: "nat \<Rightarrow> u8 list \<Rightarrow> u8 list \<Rightarrow> u8 list" where
  "put_at off bs p = take off p @ bs @ drop (off + length bs) p"

definition get_at :: "nat \<Rightarrow> nat \<Rightarrow> u8 list \<Rightarrow> u8 list" where
  "get_at off n p = take n (drop off p)"

lemma length_put_at [simp]: "off + length bs \<le> length p \<Longrightarrow> length (put_at off bs p) = length p"
  by (simp add: put_at_def)

lemma get_put_same: "off + length bs \<le> length p \<Longrightarrow> n = length bs \<Longrightarrow> get_at off n (put_at off bs p) = bs"
  by (simp add: get_at_def put_at_def)

lemma get_put_below: "k + n \<le> off \<Longrightarrow> off \<le> length p \<Longrightarrow> get_at k n (put_at off bs p) = get_at k n p"
  by (simp add: get_at_def put_at_def drop_take min_absorb1 min_absorb2)

lemma put_at_parts: "length a = off \<Longrightarrow> length b = length bs \<Longrightarrow> put_at off bs (a @ b @ c) = a @ bs @ c"
  by (simp add: put_at_def)

lemma get_at_parts: "length a = off \<Longrightarrow> length b = n \<Longrightarrow> get_at off n (a @ b @ c) = b"
  by (simp add: get_at_def)

section \<open>Little-endian words\<close>

definition le32_of :: "u8 list \<Rightarrow> u32" where
  "le32_of bs = foldr (\<lambda>b acc. ucast b OR push_bit 8 acc) bs 0"

definition le32_bytes :: "u32 \<Rightarrow> u8 list" where
  "le32_bytes w = map (\<lambda>i. ucast (drop_bit (8 * i) w)) [0, 1, 2, 3]"

definition le16_of :: "u8 list \<Rightarrow> u16" where
  "le16_of bs = foldr (\<lambda>b acc. ucast b OR push_bit 8 acc) bs 0"

definition le16_bytes :: "u16 \<Rightarrow> u8 list" where
  "le16_bytes w = map (\<lambda>i. ucast (drop_bit (8 * i) w)) [0, 1]"

lemma le32_len [simp]: "length (le32_bytes w) = 4" by (simp add: le32_bytes_def)

lemma le16_len [simp]: "length (le16_bytes w) = 2" by (simp add: le16_bytes_def)

lemma le32_roundtrip: "le32_of (le32_bytes w) = w"
proof (rule word_eq_bits [THEN iffD2], rule allI)
  fix n
  have "bit (le32_of (le32_bytes w)) n \<longleftrightarrow> n < 32 \<and> bit w n"
    by (cases "n < 8"; cases "n < 16"; cases "n < 24")
      (auto simp: le32_of_def le32_bytes_def bit_or_iff bit_ucast_iff bit_push_bit_iff bit_drop_bit_eq)
  then show "bit (le32_of (le32_bytes w)) n = bit w n" using bit_imp_le_length [of w n] by auto
qed

lemma le16_roundtrip: "le16_of (le16_bytes w) = w"
proof (rule word_eq_bits [THEN iffD2], rule allI)
  fix n
  have "bit (le16_of (le16_bytes w)) n \<longleftrightarrow> n < 16 \<and> bit w n"
    by (cases "n < 8") (auto simp: le16_of_def le16_bytes_def bit_or_iff bit_ucast_iff bit_push_bit_iff bit_drop_bit_eq)
  then show "bit (le16_of (le16_bytes w)) n = bit w n" using bit_imp_le_length [of w n] by auto
qed

section \<open>Encodings of fixed width\<close>

locale fixed_format =
  fixes enc :: "'a \<Rightarrow> u8 list" and dec :: "u8 list \<Rightarrow> 'a" and w :: nat
  assumes enc_len: "length (enc x) = w" and dec_enc: "dec (enc x) = x"
begin

lemma enc_inj: "enc x = enc y \<longleftrightarrow> x = y"
  by (metis dec_enc)

lemma concat_len: "length (concat (map enc xs)) = length xs * w"
  by (induction xs) (simp_all add: enc_len)

lemma array_get:
  assumes "i < length xs" "length pre = off"
  shows "get_at (off + i * w) w (pre @ concat (map enc xs) @ r) = enc (xs ! i)"
proof -
  have "map enc xs = map enc (take i xs @ xs ! i # drop (Suc i) xs)" by (rule arg_cong [OF id_take_nth_drop [OF assms(1)]])
  then have "concat (map enc xs) = concat (map enc (take i xs)) @ enc (xs ! i) @ concat (map enc (drop (Suc i) xs))" by simp
  moreover have "length (concat (map enc (take i xs))) = i * w" using assms(1) by (simp only: concat_len) simp
  ultimately show ?thesis
    using get_at_parts [of "pre @ concat (map enc (take i xs))" "off + i * w" "enc (xs ! i)" w] assms(2) enc_len by simp
qed

lemma array_dec: "i < length xs \<Longrightarrow> length pre = off \<Longrightarrow> dec (get_at (off + i * w) w (pre @ concat (map enc xs) @ r)) = xs ! i"
  by (simp add: array_get dec_enc)

end

interpretation le32: fixed_format le32_bytes le32_of 4
  by unfold_locales (simp_all add: le32_roundtrip)

interpretation le16: fixed_format le16_bytes le16_of 2
  by unfold_locales (simp_all add: le16_roundtrip)

end
