(* ===== verification/Summary_Pack.thy ===== *)
theory Summary_Pack
  imports Curseg Bytes
begin

text \<open>
  The summary blocks of the open logs in a checkpoint pack (\<open>segment.c\<close>): the data logs compacted
  into one or two blocks when their entries fit, or as one block each, and the node logs at unmount.
  The blocks of the pack are lists of bytes by address; the formats of the structures in them are
  declared in the kernel header, so their encoding is the parameter \<open>sum_codec\<close>.
\<close>

section \<open>Formats\<close>

record sum_codec =
  wr_natj :: "raw_nat_entry journal \<Rightarrow> u8 list"
  rd_natj :: "u8 list \<Rightarrow> raw_nat_entry journal"
  wr_sitj :: "f2fs_sit_entry journal \<Rightarrow> u8 list"
  rd_sitj :: "u8 list \<Rightarrow> f2fs_sit_entry journal"
  wr_entry :: "f2fs_summary \<Rightarrow> u8 list"
  rd_entry :: "u8 list \<Rightarrow> f2fs_summary"
  wr_sum :: "summary_block \<Rightarrow> u8 list"
  rd_sum :: "u8 list \<Rightarrow> summary_block"

section \<open>Number of blocks\<close>

definition sum_entries_needed :: "geom \<Rightarrow> bool \<Rightarrow> sb_info \<Rightarrow> nat \<Rightarrow> nat" where
  "sum_entries_needed g for_ra s i =
     (if ck_alloc_type (ckpt s) i = SSR then blocks_per_seg g
      else if for_ra then cur_data_blkoff (ckpt s) i
      else next_blkoff (cursegs s i))"

definition npages_for_summary_flush :: "layout \<Rightarrow> geom \<Rightarrow> bool \<Rightarrow> sb_info \<Rightarrow> nat" where
  "npages_for_summary_flush L g for_ra s =
     (let valid_sum_count = sum_list (map (sum_entries_needed g for_ra s) [CURSEG_HOT_DATA..<Suc CURSEG_COLD_DATA]);
          sum_in_page = (page_size L - 2 * sum_journal_size L - sum_footer_size L) div summary_size L
      in if valid_sum_count \<le> sum_in_page then 1
         else if valid_sum_count - sum_in_page \<le> (page_size L - sum_footer_size L) div summary_size L then 2
         else 3)"

section \<open>Writing\<close>

text \<open>The page being filled (None once it is full), the bytes written to it, the next block.\<close>

record sum_writer =
  w_page :: "nat option"
  w_size :: nat
  w_blk :: nat
  w_pages :: pages

definition write_summary :: "layout \<Rightarrow> sum_codec \<Rightarrow> f2fs_summary \<Rightarrow> sum_writer \<Rightarrow> sum_writer" where
  "write_summary L C e w =
     (let w = (case w_page w of Some _ \<Rightarrow> w
               | None \<Rightarrow> w\<lparr>w_page := Some (w_blk w), w_blk := Suc (w_blk w), w_size := 0\<rparr>)
      in case w_page w of None \<Rightarrow> w
         | Some a \<Rightarrow>
             let w = w\<lparr>w_pages := (w_pages w)(a := put_at (w_size w) (wr_entry C e) (w_pages w a)),
                       w_size := w_size w + summary_size L\<rparr>
             in if w_size w + summary_size L \<le> page_size L - sum_footer_size L then w else w\<lparr>w_page := None\<rparr>)"

definition write_type_summaries :: "layout \<Rightarrow> geom \<Rightarrow> sum_codec \<Rightarrow> sb_info \<Rightarrow> nat \<Rightarrow> sum_writer \<Rightarrow> sum_writer" where
  "write_type_summaries L g C s i w =
     (let blkoff = (if ck_alloc_type (ckpt s) i = SSR then blocks_per_seg g else next_blkoff (cursegs s i))
      in fold (\<lambda>j. write_summary L C (sum_entries (sum_blk (cursegs s i)) ! j)) [0..<blkoff] w)"

definition write_compacted_summaries :: "layout \<Rightarrow> geom \<Rightarrow> sum_codec \<Rightarrow> nat \<Rightarrow> sb_info \<Rightarrow> pages \<Rightarrow> pages" where
  "write_compacted_summaries L g C blkaddr s pages =
     (let p = put_at 0 (wr_natj C (nat_j (sum_blk (cursegs s CURSEG_HOT_DATA)))) (pages blkaddr);
          p = put_at (sum_journal_size L) (wr_sitj C (sit_j (sum_blk (cursegs s CURSEG_COLD_DATA)))) p;
          w = \<lparr>w_page = Some blkaddr, w_size = 2 * sum_journal_size L, w_blk = Suc blkaddr, w_pages = pages(blkaddr := p)\<rparr>
      in w_pages (fold (write_type_summaries L g C s) [CURSEG_HOT_DATA..<Suc CURSEG_COLD_DATA] w))"

definition write_normal_summaries :: "sum_codec \<Rightarrow> nat \<Rightarrow> nat \<Rightarrow> sb_info \<Rightarrow> pages \<Rightarrow> pages" where
  "write_normal_summaries C blkaddr ty s pages =
     fold (\<lambda>i pages. pages(blkaddr + (i - ty) := wr_sum C (sum_blk (cursegs s i)))) [ty..<ty + 3] pages"

definition write_data_summaries :: "layout \<Rightarrow> geom \<Rightarrow> sum_codec \<Rightarrow> nat \<Rightarrow> sb_info \<Rightarrow> pages \<Rightarrow> pages" where
  "write_data_summaries L g C start_blk s pages =
     (if is_set_ckpt_flags (ckpt s) (cp_compact_sum_flag L) then write_compacted_summaries L g C start_blk s pages
      else write_normal_summaries C start_blk CURSEG_HOT_DATA s pages)"

definition write_node_summaries :: "sum_codec \<Rightarrow> nat \<Rightarrow> sb_info \<Rightarrow> pages \<Rightarrow> pages" where
  "write_node_summaries C start_blk s pages = write_normal_summaries C start_blk CURSEG_HOT_NODE s pages"

section \<open>Reading\<close>

record sum_reader =
  r_page :: nat
  r_off :: nat
  r_blk :: nat

definition next_summary :: "layout \<Rightarrow> sum_reader \<Rightarrow> sum_reader" where
  "next_summary L r =
     (let r = r\<lparr>r_off := r_off r + summary_size L\<rparr>
      in if r_off r + summary_size L \<le> page_size L - sum_footer_size L then r
         else \<lparr>r_page = r_blk r, r_off = 0, r_blk = Suc (r_blk r)\<rparr>)"

text \<open>\<open>n\<close> entries from the position on, and the position after them.\<close>

fun read_summaries :: "layout \<Rightarrow> sum_codec \<Rightarrow> pages \<Rightarrow> nat \<Rightarrow> sum_reader \<Rightarrow> f2fs_summary list \<times> sum_reader" where
  "read_summaries L C pages 0 r = ([], r)"
| "read_summaries L C pages (Suc n) r =
     (let e = rd_entry C (get_at (r_off r) (summary_size L) (pages (r_page r)));
          (es, r) = read_summaries L C pages n (next_summary L r)
      in (e # es, r))"

definition exist_node_summaries :: "layout \<Rightarrow> f2fs_checkpoint \<Rightarrow> bool" where
  "exist_node_summaries L cp \<longleftrightarrow>
     is_set_ckpt_flags cp (cp_umount_flag L) \<or> is_set_ckpt_flags cp (cp_fastboot_flag L)"

text \<open>What a log is set to: the place in the checkpoint, the summary block left to the caller.\<close>

definition set_curseg_place :: "geom \<Rightarrow> nat \<times> nat \<Rightarrow> nat \<Rightarrow> nat \<Rightarrow> nat \<Rightarrow> sb_info \<Rightarrow> sb_info" where
  "set_curseg_place g stypes ty segno blk_off s =
     (let s = put_curseg ty ((cursegs s ty)\<lparr>next_segno := segno\<rparr>) s;
          s = reset_curseg g stypes ty False s
      in put_curseg ty ((cursegs s ty)\<lparr>alloc_type := ck_alloc_type (ckpt s) ty, next_blkoff := blk_off\<rparr>) s)"

definition read_type_summaries ::
  "layout \<Rightarrow> geom \<Rightarrow> sum_codec \<Rightarrow> nat \<times> nat \<Rightarrow> pages \<Rightarrow> nat \<Rightarrow> sum_reader \<times> sb_info \<Rightarrow> sum_reader \<times> sb_info" where
  "read_type_summaries L g C stypes pages i = (\<lambda>(r, s).
     let s = set_curseg_place g stypes i (cur_data_segno (ckpt s) i) (cur_data_blkoff (ckpt s) i) s;
         c = cursegs s i;
         blk_off = (if alloc_type c = SSR then blocks_per_seg g else cur_data_blkoff (ckpt s) i);
         (es, r) = read_summaries L C pages blk_off r;
         b = (sum_blk c)\<lparr>sum_entries := es @ drop blk_off (sum_entries (sum_blk c))\<rparr>
     in (r, put_curseg i (c\<lparr>sum_blk := b\<rparr>) s))"

definition read_compacted_summaries :: "layout \<Rightarrow> geom \<Rightarrow> sum_codec \<Rightarrow> nat \<times> nat \<Rightarrow> pages \<Rightarrow> sb_info \<Rightarrow> sb_info" where
  "read_compacted_summaries L g C stypes pages s =
     (let start = unat (start_sum_block g (ckpt s));
          p = pages start;
          c = cursegs s CURSEG_HOT_DATA;
          s = put_curseg CURSEG_HOT_DATA (c\<lparr>sum_blk := (sum_blk c)\<lparr>nat_j := rd_natj C (get_at 0 (sum_journal_size L) p)\<rparr>\<rparr>) s;
          c = cursegs s CURSEG_COLD_DATA;
          s = put_curseg CURSEG_COLD_DATA (c\<lparr>sum_blk := (sum_blk c)
                \<lparr>sit_j := rd_sitj C (get_at (sum_journal_size L) (sum_journal_size L) p)\<rparr>\<rparr>) s;
          r = \<lparr>r_page = start, r_off = 2 * sum_journal_size L, r_blk = Suc start\<rparr>
      in snd (fold (read_type_summaries L g C stypes pages) [CURSEG_HOT_DATA..<Suc CURSEG_COLD_DATA] (r, s)))"

text \<open>\<open>node_nid\<close> is the node id in the footer of the node block at an address.\<close>

definition restore_node_summary :: "geom \<Rightarrow> (u32 \<Rightarrow> u32) \<Rightarrow> nat \<Rightarrow> summary_block \<Rightarrow> summary_block" where
  "restore_node_summary g node_nid segno b =
     b\<lparr>sum_entries := map (\<lambda>i. \<lparr>s_nid = node_nid (START_BLOCK g segno + of_nat i), s_ofs_in_node = 0, s_version = 0\<rparr>)
         [0..<blocks_per_seg g] @ drop (blocks_per_seg g) (sum_entries b)\<rparr>"

definition clear_node_versions :: "geom \<Rightarrow> summary_block \<Rightarrow> summary_block" where
  "clear_node_versions g b =
     b\<lparr>sum_entries := map (\<lambda>e. e\<lparr>s_version := 0, s_ofs_in_node := 0\<rparr>) (take (blocks_per_seg g) (sum_entries b)) @
         drop (blocks_per_seg g) (sum_entries b)\<rparr>"

text \<open>The place of a log in the checkpoint, and its summary block as it is read.\<close>

definition log_place :: "f2fs_checkpoint \<Rightarrow> nat \<Rightarrow> nat \<times> nat" where
  "log_place cp ty =
     (if ty \<le> CURSEG_COLD_DATA then (cur_data_segno cp ty, cur_data_blkoff cp ty)
      else (cur_node_segno cp (ty - CURSEG_HOT_NODE), cur_node_blkoff cp (ty - CURSEG_HOT_NODE)))"

definition log_block ::
  "layout \<Rightarrow> geom \<Rightarrow> sum_codec \<Rightarrow> (u32 \<Rightarrow> u32) \<Rightarrow> pages \<Rightarrow> nat \<Rightarrow> sb_info \<Rightarrow> summary_block" where
  "log_block L g C node_nid pages ty s =
     (let cp = ckpt s; segno = fst (log_place cp ty)
      in if ty \<le> CURSEG_COLD_DATA
         then rd_sum C (pages (unat (sum_blk_addr g cp (if exist_node_summaries L cp then NR_CURSEG_TYPE else 3) ty)))
         else if exist_node_summaries L cp
         then clear_node_versions g (rd_sum C (pages (unat (sum_blk_addr g cp 3 (ty - CURSEG_HOT_NODE)))))
         else restore_node_summary g node_nid segno (get_sum_page g segno s))"

definition read_normal_summaries ::
  "layout \<Rightarrow> geom \<Rightarrow> sum_codec \<Rightarrow> nat \<times> nat \<Rightarrow> (u32 \<Rightarrow> u32) \<Rightarrow> pages \<Rightarrow> nat \<Rightarrow> sb_info \<Rightarrow> sb_info" where
  "read_normal_summaries L g C stypes node_nid pages ty s =
     (let (segno, blk_off) = log_place (ckpt s) ty;
          b = log_block L g C node_nid pages ty s;
          s = put_curseg ty ((cursegs s ty)\<lparr>sum_blk := b\<rparr>) s
      in set_curseg_place g stypes ty segno blk_off s)"

definition restore_curseg_summaries ::
  "layout \<Rightarrow> geom \<Rightarrow> sum_codec \<Rightarrow> nat \<times> nat \<Rightarrow> (u32 \<Rightarrow> u32) \<Rightarrow> pages \<Rightarrow> sb_info \<Rightarrow> sb_info" where
  "restore_curseg_summaries L g C stypes node_nid pages s =
     (let compact = is_set_ckpt_flags (ckpt s) (cp_compact_sum_flag L);
          s = (if compact then read_compacted_summaries L g C stypes pages s else s)
      in fold (read_normal_summaries L g C stypes node_nid pages)
           [if compact then CURSEG_HOT_NODE else CURSEG_HOT_DATA..<Suc CURSEG_COLD_NODE] s)"

section \<open>Positions\<close>

definition sum_room :: "layout \<Rightarrow> nat" where
  "sum_room L = page_size L - sum_footer_size L"

definition compact_ok :: "layout \<Rightarrow> bool" where
  "compact_ok L \<longleftrightarrow> 0 < summary_size L \<and> 2 * sum_journal_size L + summary_size L \<le> sum_room L"

definition pos_ok :: "layout \<Rightarrow> sum_reader \<Rightarrow> bool" where
  "pos_ok L r \<longleftrightarrow> r_blk r = Suc (r_page r) \<and> r_off r + summary_size L \<le> sum_room L"

definition pages_ok :: "layout \<Rightarrow> pages \<Rightarrow> bool" where
  "pages_ok L P \<longleftrightarrow> (\<forall>a. length (P a) = page_size L)"

text \<open>Where the writer writes next; it takes a new page only then.\<close>

definition w_pos :: "sum_writer \<Rightarrow> sum_reader" where
  "w_pos w = (case w_page w of
       Some a \<Rightarrow> \<lparr>r_page = a, r_off = w_size w, r_blk = w_blk w\<rparr>
     | None \<Rightarrow> \<lparr>r_page = w_blk w, r_off = 0, r_blk = Suc (w_blk w)\<rparr>)"

definition put_entry :: "sum_codec \<Rightarrow> f2fs_summary \<Rightarrow> sum_reader \<Rightarrow> pages \<Rightarrow> pages" where
  "put_entry C e r P = P(r_page r := put_at (r_off r) (wr_entry C e) (P (r_page r)))"

fun put_entries :: "layout \<Rightarrow> sum_codec \<Rightarrow> f2fs_summary list \<Rightarrow> sum_reader \<Rightarrow> pages \<Rightarrow> pages" where
  "put_entries L C [] r P = P"
| "put_entries L C (e # es) r P = put_entries L C es (next_summary L r) (put_entry C e r P)"

lemma write_summary_pos:
  "w_pos (write_summary L C e w) = next_summary L (w_pos w)"
  "w_pages (write_summary L C e w) = put_entry C e (w_pos w) (w_pages w)"
  by (cases "w_page w"; simp add: write_summary_def w_pos_def next_summary_def put_entry_def Let_def)+

lemma write_summaries_pos:
  "w_pos (fold (write_summary L C) es w) = (next_summary L ^^ length es) (w_pos w) \<and>
   w_pages (fold (write_summary L C) es w) = put_entries L C es (w_pos w) (w_pages w)"
proof (induction es arbitrary: w)
  case (Cons e es)
  then show ?case by (simp add: write_summary_pos funpow_swap1)
qed simp

lemma next_pos_ok:
  assumes "compact_ok L" "pos_ok L r"
  shows "pos_ok L (next_summary L r)" "r_page r \<le> r_page (next_summary L r)"
    "r_page (next_summary L r) = r_page r \<Longrightarrow> r_off (next_summary L r) = r_off r + summary_size L"
  using assms by (auto simp: pos_ok_def next_summary_def compact_ok_def sum_room_def Let_def split: if_splits)

lemma funpow_pos_ok: "compact_ok L \<Longrightarrow> pos_ok L r \<Longrightarrow> pos_ok L ((next_summary L ^^ n) r)"
  by (induction n) (simp_all add: next_pos_ok)

definition entries_enc :: "layout \<Rightarrow> sum_codec \<Rightarrow> f2fs_summary list \<Rightarrow> bool" where
  "entries_enc L C es \<longleftrightarrow> (\<forall>e\<in>set es. length (wr_entry C e) = summary_size L \<and> rd_entry C (wr_entry C e) = e)"

lemma put_entry_ok:
  assumes "pos_ok L r" "length (wr_entry C e) = summary_size L" "pages_ok L P"
  shows "pages_ok L (put_entry C e r P)"
    "get_at (r_off r) (summary_size L) (put_entry C e r P (r_page r)) = wr_entry C e"
    "a \<noteq> r_page r \<Longrightarrow> put_entry C e r P a = P a"
    "k + n \<le> r_off r \<Longrightarrow> get_at k n (put_entry C e r P (r_page r)) = get_at k n (P (r_page r))"
proof -
  have b: "r_off r + length (wr_entry C e) \<le> length (P (r_page r))" "r_off r \<le> length (P (r_page r))"
    using assms diff_le_self [of "page_size L" "sum_footer_size L"]
    unfolding pos_ok_def sum_room_def pages_ok_def by (metis add_leD1 le_trans)+
  show "pages_ok L (put_entry C e r P)" using assms(3) b by (simp add: pages_ok_def put_entry_def)
  show "get_at (r_off r) (summary_size L) (put_entry C e r P (r_page r)) = wr_entry C e"
    using get_put_same [OF b(1), of "summary_size L"] assms(2) by (simp add: put_entry_def)
  show "a \<noteq> r_page r \<Longrightarrow> put_entry C e r P a = P a" by (simp add: put_entry_def)
  show "k + n \<le> r_off r \<Longrightarrow> get_at k n (put_entry C e r P (r_page r)) = get_at k n (P (r_page r))"
    using b(2) by (simp add: put_entry_def get_put_below)
qed

text \<open>What lies before the position is not touched.\<close>

lemma put_entries_frame:
  assumes "compact_ok L" "pos_ok L r" "entries_enc L C es" "pages_ok L P"
  shows "pages_ok L (put_entries L C es r P) \<and>
    (\<forall>a k n. a < r_page r \<or> a = r_page r \<and> k + n \<le> r_off r \<longrightarrow>
       get_at k n (put_entries L C es r P a) = get_at k n (P a))"
  using assms(2-4)
proof (induction es arbitrary: r P)
  case (Cons e es)
  let ?r = "next_summary L r" and ?P = "put_entry C e r P"
  have len: "length (wr_entry C e) = summary_size L" using Cons.prems by (simp add: entries_enc_def)
  note pe = put_entry_ok [OF Cons.prems(1) len Cons.prems(3)]
  note np = next_pos_ok [OF assms(1) Cons.prems(1)]
  have ih: "pages_ok L (put_entries L C es ?r ?P) \<and> (\<forall>a k n. a < r_page ?r \<or> a = r_page ?r \<and> k + n \<le> r_off ?r \<longrightarrow>
       get_at k n (put_entries L C es ?r ?P a) = get_at k n (?P a))"
    by (rule Cons.IH [OF np(1) _ pe(1)]) (use Cons.prems in \<open>simp add: entries_enc_def\<close>)
  have "get_at k n (put_entries L C es ?r ?P a) = get_at k n (P a)" if "a < r_page r \<or> a = r_page r \<and> k + n \<le> r_off r" for a k n
  proof -
    have "a < r_page ?r \<or> a = r_page ?r \<and> k + n \<le> r_off ?r"
      using that np(2,3) by (cases "r_page ?r = r_page r") auto
    then have "get_at k n (put_entries L C es ?r ?P a) = get_at k n (?P a)" using ih by blast
    also have "\<dots> = get_at k n (P a)" using that pe(3) [of a] pe(4) [of k n] by (cases "a = r_page r") auto
    finally show ?thesis .
  qed
  then show ?case using ih by simp
qed simp

lemma read_put_entries:
  assumes "compact_ok L" "pos_ok L r" "entries_enc L C es" "pages_ok L P"
  shows "read_summaries L C (put_entries L C es r P) (length es) r = (es, (next_summary L ^^ length es) r)"
  using assms(2-4)
proof (induction es arbitrary: r P)
  case (Cons e es)
  let ?r = "next_summary L r" and ?P = "put_entry C e r P"
  have e: "length (wr_entry C e) = summary_size L" "rd_entry C (wr_entry C e) = e" "entries_enc L C es"
    using Cons.prems by (simp_all add: entries_enc_def)
  note pe = put_entry_ok [OF Cons.prems(1) e(1) Cons.prems(3)]
  note np = next_pos_ok [OF assms(1) Cons.prems(1)]
  have "r_page r < r_page ?r \<or> r_page r = r_page ?r \<and> r_off r + summary_size L \<le> r_off ?r"
    using np(2,3) by (cases "r_page ?r = r_page r") auto
  then have "get_at (r_off r) (summary_size L) (put_entries L C es ?r ?P (r_page r)) = wr_entry C e"
    using put_entries_frame [OF assms(1) np(1) e(3) pe(1)] pe(2) by metis
  then show ?case
    using Cons.IH [OF np(1) e(3) pe(1)] e(2) by (simp add: Let_def funpow_swap1)
qed simp

lemma read_summaries_add:
  "read_summaries L C P (m + n) r =
     (let (es, r) = read_summaries L C P m r; (fs, r) = read_summaries L C P n r in (es @ fs, r))"
  by (induction m arbitrary: r) (simp_all add: Let_def case_prod_beta)

text \<open>The blocks used: \<open>sum_room\<close> bytes of each, less what comes before the position in the first.\<close>

lemma put_entries_blocks:
  assumes "compact_ok L" "pos_ok L r" "length es \<le> (sum_room L - r_off r) div summary_size L + k * (sum_room L div summary_size L)"
    and "q < r_page r \<or> r_page r + k < q"
  shows "put_entries L C es r P q = P q"
  using assms(2-4)
proof (induction es arbitrary: r P k)
  case (Cons e es)
  let ?z = "summary_size L" and ?r = "next_summary L r"
  have z: "0 < ?z" using assms(1) by (simp add: compact_ok_def)
  have q: "put_entry C e r P q = P q" using Cons.prems(3) by (auto simp: put_entry_def)
  note np = next_pos_ok [OF assms(1) Cons.prems(1)]
  have room: "r_off r + ?z \<le> sum_room L" using Cons.prems(1) by (simp add: pos_ok_def)
  show ?case
  proof (cases "r_off r + ?z + ?z \<le> sum_room L")
    case True
    then have r: "r_page ?r = r_page r" "r_off ?r = r_off r + ?z"
      by (simp_all add: next_summary_def sum_room_def Let_def)
    have "(sum_room L - r_off r) div ?z = Suc ((sum_room L - (r_off r + ?z)) div ?z)"
      using z room le_div_geq [of ?z "sum_room L - r_off r"] by simp
    then have "length es \<le> (sum_room L - r_off ?r) div ?z + k * (sum_room L div ?z)"
      using Cons.prems(2) by (simp add: r)
    then show ?thesis using Cons.IH [OF np(1)] Cons.prems(3) q by (simp add: r)
  next
    case False
    then have r: "r_page ?r = Suc (r_page r)" "r_off ?r = 0"
      using Cons.prems(1) by (simp_all add: next_summary_def sum_room_def Let_def pos_ok_def)
    have "(sum_room L - r_off r) div ?z = 1"
      using False room z by (intro div_nat_eqI) simp_all
    then have l: "length es \<le> k * (sum_room L div ?z)" using Cons.prems(2) by simp
    show ?thesis
    proof (cases k)
      case 0
      then show ?thesis using l q by simp
    next
      case (Suc k')
      then have "length es \<le> (sum_room L - r_off ?r) div ?z + k' * (sum_room L div ?z)" using l by (simp add: r)
      moreover have "q < r_page ?r \<or> r_page ?r + k' < q" using Cons.prems(3) Suc by (auto simp: r)
      ultimately show ?thesis using Cons.IH [OF np(1)] q by simp
    qed
  qed
qed simp

text \<open>Reading needs only those blocks.\<close>

lemma read_summaries_cong:
  assumes "compact_ok L" "pos_ok L r" "n \<le> (sum_room L - r_off r) div summary_size L + k * (sum_room L div summary_size L)"
    and "\<forall>q. r_page r \<le> q \<and> q \<le> r_page r + k \<longrightarrow> Q q = P q"
  shows "read_summaries L C Q n r = read_summaries L C P n r"
  using assms(2-4)
proof (induction n arbitrary: r k)
  case (Suc n)
  let ?z = "summary_size L" and ?r = "next_summary L r"
  have z: "0 < ?z" using assms(1) by (simp add: compact_ok_def)
  have q: "Q (r_page r) = P (r_page r)" using Suc.prems(3) by simp
  note np = next_pos_ok [OF assms(1) Suc.prems(1)]
  have room: "r_off r + ?z \<le> sum_room L" using Suc.prems(1) by (simp add: pos_ok_def)
  have "read_summaries L C Q n ?r = read_summaries L C P n ?r"
  proof (cases "r_off r + ?z + ?z \<le> sum_room L")
    case True
    then have r: "r_page ?r = r_page r" "r_off ?r = r_off r + ?z"
      by (simp_all add: next_summary_def sum_room_def Let_def)
    have "(sum_room L - r_off r) div ?z = Suc ((sum_room L - (r_off r + ?z)) div ?z)"
      using z room le_div_geq [of ?z "sum_room L - r_off r"] by simp
    then have "n \<le> (sum_room L - r_off ?r) div ?z + k * (sum_room L div ?z)"
      using Suc.prems(2) by (simp add: r)
    then show ?thesis using Suc.IH [OF np(1), of k] Suc.prems(3) by (simp add: r)
  next
    case False
    then have r: "r_page ?r = Suc (r_page r)" "r_off ?r = 0"
      using Suc.prems(1) by (simp_all add: next_summary_def sum_room_def Let_def pos_ok_def)
    have "(sum_room L - r_off r) div ?z = 1"
      using False room z by (intro div_nat_eqI) simp_all
    then have l: "n \<le> k * (sum_room L div ?z)" using Suc.prems(2) by simp
    show ?thesis
    proof (cases k)
      case 0
      then show ?thesis using l by simp
    next
      case (Suc k')
      then have "n \<le> (sum_room L - r_off ?r) div ?z + k' * (sum_room L div ?z)" using l by (simp add: r)
      moreover have "\<forall>q. r_page ?r \<le> q \<and> q \<le> r_page ?r + k' \<longrightarrow> Q q = P q" using Suc.prems(3) Suc by (auto simp: r)
      ultimately show ?thesis using Suc.IH [OF np(1)] by simp
    qed
  qed
  then show ?case by (simp add: q)
qed simp

section \<open>The data logs in compacted form\<close>

definition log_entries :: "geom \<Rightarrow> sb_info \<Rightarrow> nat \<Rightarrow> f2fs_summary list" where
  "log_entries g s i = take (sum_entries_needed g False s i) (sum_entries (sum_blk (cursegs s i)))"

definition compact_entries :: "geom \<Rightarrow> sb_info \<Rightarrow> f2fs_summary list" where
  "compact_entries g s = log_entries g s 0 @ log_entries g s 1 @ log_entries g s 2"

text \<open>The logs are as the checkpoint says, and the summary blocks have an entry for every block.\<close>

definition logs_in_ckpt :: "geom \<Rightarrow> sb_info \<Rightarrow> bool" where
  "logs_in_ckpt g s \<longleftrightarrow> (\<forall>i<6. ck_alloc_type (ckpt s) i = alloc_type (cursegs s i) \<and> next_blkoff (cursegs s i) \<le> blocks_per_seg g \<and>
       length (sum_entries (sum_blk (cursegs s i))) = blocks_per_seg g) \<and>
     (\<forall>i<3. cur_data_segno (ckpt s) i = cs_segno (cursegs s i) \<and> cur_data_blkoff (ckpt s) i = next_blkoff (cursegs s i) \<and>
       cur_node_segno (ckpt s) i = cs_segno (cursegs s (i + 3)) \<and> cur_node_blkoff (ckpt s) i = next_blkoff (cursegs s (i + 3)))"

lemma map_nth_take: "n \<le> length xs \<Longrightarrow> map ((!) xs) [0..<n] = take n xs"
  by (rule nth_equalityI) simp_all

lemma write_type_eq:
  assumes "logs_in_ckpt g s" "i < 3"
  shows "write_type_summaries L g C s i w = fold (write_summary L C) (log_entries g s i) w"
proof -
  define n where "n = (if ck_alloc_type (ckpt s) i = SSR then blocks_per_seg g else next_blkoff (cursegs s i))"
  have n: "n \<le> length (sum_entries (sum_blk (cursegs s i)))" using assms by (simp add: n_def logs_in_ckpt_def)
  have le: "log_entries g s i = map ((!) (sum_entries (sum_blk (cursegs s i)))) [0..<n]"
    using map_nth_take [OF n] by (simp add: log_entries_def sum_entries_needed_def n_def)
  show ?thesis
    unfolding write_type_summaries_def Let_def n_def [symmetric] le fold_map comp_def by simp
qed

definition first_pos :: "layout \<Rightarrow> nat \<Rightarrow> sum_reader" where
  "first_pos L a = \<lparr>r_page = a, r_off = 2 * sum_journal_size L, r_blk = Suc a\<rparr>"

definition journal_page :: "layout \<Rightarrow> sum_codec \<Rightarrow> sb_info \<Rightarrow> u8 list \<Rightarrow> u8 list" where
  "journal_page L C s p = put_at (sum_journal_size L) (wr_sitj C (sit_j (sum_blk (cursegs s 2))))
     (put_at 0 (wr_natj C (nat_j (sum_blk (cursegs s 0)))) p)"

lemma upt_3: "[0..<Suc 2] = [0, 1, 2 :: nat]" by (simp add: upt_rec)

lemma write_compacted_eq:
  assumes "logs_in_ckpt g s"
  shows "write_compacted_summaries L g C a s P =
    put_entries L C (compact_entries g s) (first_pos L a) (P(a := journal_page L C s (P a)))"
proof -
  define w where "w = \<lparr>w_page = Some a, w_size = 2 * sum_journal_size L, w_blk = Suc a, w_pages = P(a := journal_page L C s (P a))\<rparr>"
  have "write_compacted_summaries L g C a s P = w_pages (fold (write_type_summaries L g C s) [0, 1, 2] w)"
    unfolding write_compacted_summaries_def Let_def w_def journal_page_def upt_3 by simp
  also have "fold (write_type_summaries L g C s) [0, 1, 2] w = fold (write_summary L C) (compact_entries g s) w"
    using write_type_eq [OF assms] by (simp add: compact_entries_def)
  also have "w_pages \<dots> = put_entries L C (compact_entries g s) (w_pos w) (w_pages w)"
    by (simp add: write_summaries_pos)
  finally show ?thesis by (simp add: w_def w_pos_def first_pos_def)
qed

text \<open>The log as it is put back: \<open>b\<close> is its summary block.\<close>

definition placed :: "geom \<Rightarrow> nat \<times> nat \<Rightarrow> nat \<Rightarrow> nat \<Rightarrow> nat \<Rightarrow> nat \<Rightarrow> summary_block \<Rightarrow> curseg_info" where
  "placed g stypes ty segno off at b =
     \<lparr>sum_blk = b\<lparr>sum_type := (if ty \<ge> CURSEG_HOT_NODE then snd stypes else fst stypes)\<rparr>,
      alloc_type = at, cs_segno = segno, next_blkoff = off, cs_zone = GET_ZONENO_FROM_SEGNO g segno, next_segno = NULL_SEGNO\<rparr>"

lemma set_place:
  "cursegs (set_curseg_place g stypes ty segno off s) =
     (cursegs s)(ty := placed g stypes ty segno off (ck_alloc_type (ckpt s) ty) (sum_blk (cursegs s ty)))"
  "ckpt (set_curseg_place g stypes ty segno off s) = ckpt s"
  "sum_pages (set_curseg_place g stypes ty segno off s) = sum_pages s"
  by (auto simp: set_curseg_place_def reset_curseg_def put_curseg_def placed_def Let_def fun_eq_iff)

lemma sum_upd_swap: "b\<lparr>sum_type := t, sum_entries := es\<rparr> = b\<lparr>sum_entries := es, sum_type := t\<rparr>"
  by (cases b) simp

lemma read_type_spec:
  assumes "read_summaries L C P n r = (es, r')"
    and "n = (if ck_alloc_type (ckpt s) i = SSR then blocks_per_seg g else cur_data_blkoff (ckpt s) i)"
  obtains u where "read_type_summaries L g C stypes P i (r, s) = (r', u)" "ckpt u = ckpt s" "sum_pages u = sum_pages s"
    "cursegs u = (cursegs s)(i := placed g stypes i (cur_data_segno (ckpt s) i) (cur_data_blkoff (ckpt s) i) (ck_alloc_type (ckpt s) i)
       ((sum_blk (cursegs s i))\<lparr>sum_entries := es @ drop n (sum_entries (sum_blk (cursegs s i)))\<rparr>))"
proof -
  define v where "v = set_curseg_place g stypes i (cur_data_segno (ckpt s) i) (cur_data_blkoff (ckpt s) i) s"
  note sp = set_place [of g stypes i "cur_data_segno (ckpt s) i" "cur_data_blkoff (ckpt s) i" s, folded v_def]
  have at: "alloc_type (cursegs v i) = ck_alloc_type (ckpt s) i" by (simp add: sp placed_def)
  define u where "u = put_curseg i ((cursegs v i)\<lparr>sum_blk := (sum_blk (cursegs v i))
       \<lparr>sum_entries := es @ drop n (sum_entries (sum_blk (cursegs v i)))\<rparr>\<rparr>) v"
  have "read_type_summaries L g C stypes P i (r, s) = (r', u)"
    unfolding read_type_summaries_def prod.case Let_def v_def [symmetric] at sp(2) assms(2) [symmetric] assms(1) u_def by simp
  moreover have "ckpt u = ckpt s" "sum_pages u = sum_pages s" by (simp_all add: u_def put_curseg_def sp)
  moreover have "cursegs u = (cursegs s)(i := placed g stypes i (cur_data_segno (ckpt s) i) (cur_data_blkoff (ckpt s) i) (ck_alloc_type (ckpt s) i)
       ((sum_blk (cursegs s i))\<lparr>sum_entries := es @ drop n (sum_entries (sum_blk (cursegs s i)))\<rparr>))"
    by (simp add: u_def put_curseg_def sp placed_def sum_upd_swap)
  ultimately show ?thesis by (rule that)
qed

text \<open>A data log as it was written: its place and the entries that matter.\<close>

definition same_log :: "geom \<Rightarrow> sb_info \<Rightarrow> sb_info \<Rightarrow> nat \<Rightarrow> bool" where
  "same_log g s t i \<longleftrightarrow> cs_segno (cursegs t i) = cs_segno (cursegs s i) \<and> alloc_type (cursegs t i) = alloc_type (cursegs s i) \<and>
     next_blkoff (cursegs t i) = next_blkoff (cursegs s i) \<and>
     take (sum_entries_needed g False s i) (sum_entries (sum_blk (cursegs t i))) = log_entries g s i"

lemma needed_eq:
  assumes "logs_in_ckpt g s" "i < 3"
  shows "sum_entries_needed g False s i = (if ck_alloc_type (ckpt s) i = SSR then blocks_per_seg g else cur_data_blkoff (ckpt s) i)"
    "length (log_entries g s i) = sum_entries_needed g False s i"
  using assms by (auto simp: sum_entries_needed_def logs_in_ckpt_def log_entries_def)

lemma placed_same_log:
  assumes "logs_in_ckpt g s" "i < 3" "ckpt t = ckpt s"
    and "cursegs t i = placed g stypes i (cur_data_segno (ckpt t) i) (cur_data_blkoff (ckpt t) i) (ck_alloc_type (ckpt t) i)
       (b\<lparr>sum_entries := log_entries g s i @ xs\<rparr>)"
  shows "same_log g s t i"
  using assms needed_eq [OF assms(1,2)] by (simp add: same_log_def placed_def logs_in_ckpt_def)

definition codec_ok :: "layout \<Rightarrow> geom \<Rightarrow> sum_codec \<Rightarrow> sb_info \<Rightarrow> bool" where
  "codec_ok L g C s \<longleftrightarrow> entries_enc L C (compact_entries g s) \<and>
     (let nj = nat_j (sum_blk (cursegs s 0)); sj = sit_j (sum_blk (cursegs s 2))
      in length (wr_natj C nj) = sum_journal_size L \<and> rd_natj C (wr_natj C nj) = nj \<and>
         length (wr_sitj C sj) = sum_journal_size L \<and> rd_sitj C (wr_sitj C sj) = sj) \<and>
     (\<forall>i<6. rd_sum C (wr_sum C (sum_blk (cursegs s i))) = sum_blk (cursegs s i))"

lemma journal_page_ok:
  assumes "codec_ok L g C s" "compact_ok L" "length p = page_size L"
  shows "length (journal_page L C s p) = page_size L"
    "rd_natj C (get_at 0 (sum_journal_size L) (journal_page L C s p)) = nat_j (sum_blk (cursegs s 0))"
    "rd_sitj C (get_at (sum_journal_size L) (sum_journal_size L) (journal_page L C s p)) = sit_j (sum_blk (cursegs s 2))"
proof -
  let ?J = "sum_journal_size L"
  have j: "?J + ?J \<le> page_size L" using assms(2) by (auto simp: compact_ok_def sum_room_def)
  have c: "length (wr_natj C (nat_j (sum_blk (cursegs s 0)))) = ?J" "length (wr_sitj C (sit_j (sum_blk (cursegs s 2)))) = ?J"
    "rd_natj C (wr_natj C (nat_j (sum_blk (cursegs s 0)))) = nat_j (sum_blk (cursegs s 0))"
    "rd_sitj C (wr_sitj C (sit_j (sum_blk (cursegs s 2)))) = sit_j (sum_blk (cursegs s 2))"
    using assms(1) by (simp_all add: codec_ok_def Let_def)
  define q where "q = put_at 0 (wr_natj C (nat_j (sum_blk (cursegs s 0)))) p"
  have q: "length q = page_size L" "get_at 0 ?J q = wr_natj C (nat_j (sum_blk (cursegs s 0)))"
    using j c assms(3) by (simp_all add: q_def get_put_same)
  show "length (journal_page L C s p) = page_size L" unfolding journal_page_def q_def [symmetric] using j c q by simp
  show "rd_natj C (get_at 0 ?J (journal_page L C s p)) = nat_j (sum_blk (cursegs s 0))"
    unfolding journal_page_def q_def [symmetric] using j c q get_put_below [of 0 ?J ?J q] by simp
  show "rd_sitj C (get_at ?J ?J (journal_page L C s p)) = sit_j (sum_blk (cursegs s 2))"
    unfolding journal_page_def q_def [symmetric] using j c q by (simp add: get_put_same)
qed

text \<open>The number of blocks computed beforehand is the number used.\<close>

lemma npages_room:
  assumes "logs_in_ckpt g s" "npages_for_summary_flush L g False s = Suc k" "k < 2"
  shows "length (compact_entries g s) \<le> (sum_room L - 2 * sum_journal_size L) div summary_size L + k * (sum_room L div summary_size L)"
proof -
  have "length (compact_entries g s) = sum_list (map (sum_entries_needed g False s) [0..<Suc 2])"
    using needed_eq(2) [OF assms(1)] unfolding upt_3 by (simp add: compact_entries_def)
  moreover have e: "page_size L - 2 * sum_journal_size L - sum_footer_size L = sum_room L - 2 * sum_journal_size L"
    "page_size L - sum_footer_size L = sum_room L"
    by (simp_all add: sum_room_def)
  moreover define v A B where "v = sum_list (map (sum_entries_needed g False s) [0..<Suc 2])"
    and "A = (sum_room L - 2 * sum_journal_size L) div summary_size L" and "B = sum_room L div summary_size L"
  ultimately have v: "length (compact_entries g s) = v" by (simp only:)
  have "npages_for_summary_flush L g False s = (if v \<le> A then 1 else if v - A \<le> B then 2 else 3)"
    unfolding npages_for_summary_flush_def Let_def e v_def A_def B_def by (rule refl)
  then have "length (compact_entries g s) \<le> A + k * B" unfolding v assms(2) using assms(3) by (simp split: if_splits)
  then show ?thesis unfolding A_def B_def .
qed

lemma compacted_roundtrip:
  assumes s: "logs_in_ckpt g s" "codec_ok L g C s" "compact_ok L" "pages_ok L P"
    and n: "npages_for_summary_flush L g False s = Suc k" "k < 2" and a: "a = unat (start_sum_block g (ckpt s))"
    and t: "ckpt t = ckpt s"
    and Q: "\<forall>q. a \<le> q \<and> q \<le> a + k \<longrightarrow> Q q = write_compacted_summaries L g C a s P q"
    and u: "u = read_compacted_summaries L g C stypes Q t"
  shows "i < 3 \<Longrightarrow> same_log g s u i" "ckpt u = ckpt s" "sum_pages u = sum_pages t"
    "nat_j (sum_blk (cursegs u 0)) = nat_j (sum_blk (cursegs s 0))" "sit_j (sum_blk (cursegs u 2)) = sit_j (sum_blk (cursegs s 2))"
    "j \<ge> 3 \<Longrightarrow> cursegs u j = cursegs t j"
proof -
  let ?n = "sum_entries_needed g False s" and ?e = "log_entries g s" and ?J = "sum_journal_size L"
  define P' where "P' = P(a := journal_page L C s (P a))"
  define W where "W = put_entries L C (compact_entries g s) (first_pos L a) P'"
  have W: "write_compacted_summaries L g C a s P = W" by (simp add: write_compacted_eq [OF s(1)] W_def P'_def)
  have pa: "length (P a) = page_size L" using s(4) by (simp add: pages_ok_def)
  note jp = journal_page_ok [OF s(2,3) pa]
  have P': "pages_ok L P'" using s(4) jp(1) by (simp add: P'_def pages_ok_def)
  have fp: "pos_ok L (first_pos L a)" "r_page (first_pos L a) = a" "r_off (first_pos L a) = 2 * ?J"
    using s(3) by (simp_all add: pos_ok_def first_pos_def compact_ok_def)
  have enc: "entries_enc L C (compact_entries g s)" using s(2) by (simp add: codec_ok_def)
  have room: "length (compact_entries g s) \<le> (sum_room L - r_off (first_pos L a)) div summary_size L + k * (sum_room L div summary_size L)"
    using npages_room [OF s(1) n] by (simp add: fp)
  have "read_summaries L C Q (length (compact_entries g s)) (first_pos L a) =
      read_summaries L C W (length (compact_entries g s)) (first_pos L a)"
    by (rule read_summaries_cong [OF s(3) fp(1) room]) (use Q fp W in simp)
  then have "fst (read_summaries L C Q (length (compact_entries g s)) (first_pos L a)) = compact_entries g s"
    using read_put_entries [OF s(3) fp(1) enc P'] by (simp add: W_def)
  moreover obtain e0 r0 e1 r1 e2 r2 where r: "read_summaries L C Q (?n 0) (first_pos L a) = (e0, r0)"
    "read_summaries L C Q (?n 1) r0 = (e1, r1)" "read_summaries L C Q (?n 2) r1 = (e2, r2)" by (meson surj_pair)
  moreover have "length (compact_entries g s) = ?n 0 + (?n 1 + ?n 2)"
    using needed_eq(2) [OF s(1)] by (simp add: compact_entries_def)
  moreover have "length (fst (read_summaries L C Q m p)) = m" for m p
    by (induction m arbitrary: p) (simp_all add: Let_def case_prod_beta)
  then have "length e0 = ?n 0" "length e1 = ?n 1" by (metis fst_conv r(1), metis fst_conv r(2))
  ultimately have es: "e0 = ?e 0" "e1 = ?e 1" "e2 = ?e 2"
    using needed_eq(2) [OF s(1), of 0] needed_eq(2) [OF s(1), of 1] by (simp_all add: read_summaries_add compact_entries_def)
  have QW: "Q a = W a" using Q by (simp add: W)
  have fr: "get_at x m (W a) = get_at x m (journal_page L C s (P a))" if "x + m \<le> 2 * ?J" for x m
    using put_entries_frame [OF s(3) fp(1) enc P'] that by (simp add: W_def fp) (simp add: P'_def)
  define c0 where "c0 = (cursegs t 0)\<lparr>sum_blk := (sum_blk (cursegs t 0))\<lparr>nat_j := nat_j (sum_blk (cursegs s 0))\<rparr>\<rparr>"
  define c2 where "c2 = (cursegs t 2)\<lparr>sum_blk := (sum_blk (cursegs t 2))\<lparr>sit_j := sit_j (sum_blk (cursegs s 2))\<rparr>\<rparr>"
  define t2 where "t2 = put_curseg 2 c2 (put_curseg 0 c0 t)"
  have at: "unat (start_sum_block g (ckpt t)) = a" using a t by simp
  have ue: "u = snd (fold (read_type_summaries L g C stypes Q) [0, 1, 2] (first_pos L a, t2))"
    unfolding u read_compacted_summaries_def Let_def at upt_3 QW fr [of 0 ?J, simplified] fr [of ?J ?J, simplified] jp(2,3)
    by (simp add: t2_def c0_def c2_def first_pos_def put_curseg_def)
  have ck2: "ckpt t2 = ckpt s" "sum_pages t2 = sum_pages t" "cursegs t2 = (cursegs t)(0 := c0, 2 := c2)"
    using t by (simp_all add: t2_def put_curseg_def)
  obtain u0 where u0: "read_type_summaries L g C stypes Q 0 (first_pos L a, t2) = (r0, u0)" "ckpt u0 = ckpt t2" "sum_pages u0 = sum_pages t2"
    "cursegs u0 = (cursegs t2)(0 := placed g stypes 0 (cur_data_segno (ckpt t2) 0) (cur_data_blkoff (ckpt t2) 0) (ck_alloc_type (ckpt t2) 0)
       ((sum_blk (cursegs t2 0))\<lparr>sum_entries := e0 @ drop (?n 0) (sum_entries (sum_blk (cursegs t2 0)))\<rparr>))"
    by (rule read_type_spec [OF r(1), of t2 0 g stypes]) (use needed_eq(1) [OF s(1)] ck2 in auto)
  obtain u1 where u1: "read_type_summaries L g C stypes Q 1 (r0, u0) = (r1, u1)" "ckpt u1 = ckpt u0" "sum_pages u1 = sum_pages u0"
    "cursegs u1 = (cursegs u0)(1 := placed g stypes 1 (cur_data_segno (ckpt u0) 1) (cur_data_blkoff (ckpt u0) 1) (ck_alloc_type (ckpt u0) 1)
       ((sum_blk (cursegs u0 1))\<lparr>sum_entries := e1 @ drop (?n 1) (sum_entries (sum_blk (cursegs u0 1)))\<rparr>))"
    by (rule read_type_spec [OF r(2), of u0 1 g stypes]) (use needed_eq(1) [OF s(1)] ck2 u0(2) in auto)
  obtain u2 where u2: "read_type_summaries L g C stypes Q 2 (r1, u1) = (r2, u2)" "ckpt u2 = ckpt u1" "sum_pages u2 = sum_pages u1"
    "cursegs u2 = (cursegs u1)(2 := placed g stypes 2 (cur_data_segno (ckpt u1) 2) (cur_data_blkoff (ckpt u1) 2) (ck_alloc_type (ckpt u1) 2)
       ((sum_blk (cursegs u1 2))\<lparr>sum_entries := e2 @ drop (?n 2) (sum_entries (sum_blk (cursegs u1 2)))\<rparr>))"
    by (rule read_type_spec [OF r(3), of u1 2 g stypes]) (use needed_eq(1) [OF s(1)] ck2 u0(2) u1(2) in auto)
  have uu: "u = u2" by (simp add: ue u0(1) u1(1) [simplified] u2(1))
  show ck: "ckpt u = ckpt s" "sum_pages u = sum_pages t" by (simp_all add: uu u2 u1 u0 ck2)
  have cu: "ckpt u0 = ckpt u" "ckpt u1 = ckpt u" "ckpt t2 = ckpt u" by (simp_all add: uu u2 u1 u0)
  show "same_log g s u i" if "i < 3"
  proof -
    consider "i = 0" | "i = 1" | "i = 2" using \<open>i < 3\<close> by linarith
    then show ?thesis
      by cases (rule placed_same_log [OF s(1) that ck(1)], simp add: uu u2(4) u1(4) u0(4) es cu [unfolded uu])+
  qed
  show "nat_j (sum_blk (cursegs u 0)) = nat_j (sum_blk (cursegs s 0))" "sit_j (sum_blk (cursegs u 2)) = sit_j (sum_blk (cursegs s 2))"
    by (simp_all add: uu u2(4) u1(4) u0(4) placed_def ck2(3) c0_def c2_def)
  show "j \<ge> 3 \<Longrightarrow> cursegs u j = cursegs t j" by (simp add: uu u2(4) u1(4) u0(4) ck2(3))
qed

section \<open>All logs\<close>

lemma read_normal_spec:
  "cursegs (read_normal_summaries L g C stypes nn P ty s) = (cursegs s)(ty := placed g stypes ty (fst (log_place (ckpt s) ty))
     (snd (log_place (ckpt s) ty)) (ck_alloc_type (ckpt s) ty) (log_block L g C nn P ty s))"
  "ckpt (read_normal_summaries L g C stypes nn P ty s) = ckpt s"
  "sum_pages (read_normal_summaries L g C stypes nn P ty s) = sum_pages s"
  by (simp_all add: read_normal_summaries_def Let_def case_prod_beta set_place put_curseg_def)

lemma log_block_cong: "ckpt t = ckpt s \<Longrightarrow> sum_pages t = sum_pages s \<Longrightarrow> log_block L g C nn P ty t = log_block L g C nn P ty s"
  by (simp add: log_block_def get_sum_page_def Let_def)

lemma read_normal_all:
  assumes "distinct tys"
  shows "ckpt (fold (read_normal_summaries L g C stypes nn P) tys s) = ckpt s \<and>
    sum_pages (fold (read_normal_summaries L g C stypes nn P) tys s) = sum_pages s \<and>
    (\<forall>ty. cursegs (fold (read_normal_summaries L g C stypes nn P) tys s) ty =
      (if ty \<in> set tys then placed g stypes ty (fst (log_place (ckpt s) ty)) (snd (log_place (ckpt s) ty)) (ck_alloc_type (ckpt s) ty)
         (log_block L g C nn P ty s) else cursegs s ty))"
  using assms
proof (induction tys arbitrary: s)
  case (Cons ty tys)
  let ?u = "read_normal_summaries L g C stypes nn P ty s"
  note sp = read_normal_spec [of L g C stypes nn P ty s]
  have "log_block L g C nn P x ?u = log_block L g C nn P x s" for x by (rule log_block_cong) (simp_all add: sp)
  then show ?case using Cons.IH [of ?u] Cons.prems by (auto simp: sp)
qed simp

text \<open>Where the blocks of the pack are.\<close>

definition sum_addrs_ok :: "layout \<Rightarrow> geom \<Rightarrow> sb_info \<Rightarrow> nat \<Rightarrow> bool" where
  "sum_addrs_ok L g s n \<longleftrightarrow> (let a = unat (start_sum_block g (ckpt s)); e = exist_node_summaries L (ckpt s) in
     (\<forall>i<3. n = 3 \<longrightarrow> unat (sum_blk_addr g (ckpt s) (if e then 6 else 3) i) = a + i) \<and>
     (e \<longrightarrow> (\<forall>i<3. unat (sum_blk_addr g (ckpt s) 3 i) = a + n + i)))"

text \<open>The pack holds the summaries: \<open>n\<close> blocks of the data logs and, at unmount, three of the node logs.\<close>

definition pack_sums :: "layout \<Rightarrow> geom \<Rightarrow> sum_codec \<Rightarrow> sb_info \<Rightarrow> nat \<Rightarrow> pages \<Rightarrow> pages \<Rightarrow> bool" where
  "pack_sums L g C s n P Q \<longleftrightarrow> (let a = unat (start_sum_block g (ckpt s)) in
     (\<forall>q. a \<le> q \<and> q < a + n \<longrightarrow> Q q = write_data_summaries L g C a s P q) \<and>
     (exist_node_summaries L (ckpt s) \<longrightarrow> (\<forall>i<3. Q (a + n + i) = wr_sum C (sum_blk (cursegs s (i + 3))))))"

text \<open>
  A node log is restored at its place. Its node ids are those that were saved, when the pack has the
  summaries of the node logs, and otherwise those in the footers of the blocks of its segment; the
  versions in its entries start from zero.
\<close>

definition same_node_log :: "layout \<Rightarrow> geom \<Rightarrow> (u32 \<Rightarrow> u32) \<Rightarrow> sb_info \<Rightarrow> sb_info \<Rightarrow> nat \<Rightarrow> bool" where
  "same_node_log L g nn s t i \<longleftrightarrow> cs_segno (cursegs t i) = cs_segno (cursegs s i) \<and> alloc_type (cursegs t i) = alloc_type (cursegs s i) \<and>
     next_blkoff (cursegs t i) = next_blkoff (cursegs s i) \<and>
     (if exist_node_summaries L (ckpt s)
      then map s_nid (sum_entries (sum_blk (cursegs t i))) = map s_nid (sum_entries (sum_blk (cursegs s i)))
      else take (blocks_per_seg g) (map s_nid (sum_entries (sum_blk (cursegs t i)))) =
        map (\<lambda>j. nn (START_BLOCK g (cs_segno (cursegs s i)) + of_nat j)) [0..<blocks_per_seg g])"

lemma clear_nids: "map s_nid (sum_entries (clear_node_versions g b)) = map s_nid (sum_entries b)"
proof -
  have "map s_nid (sum_entries (clear_node_versions g b)) =
      map s_nid (take (blocks_per_seg g) (sum_entries b)) @ map s_nid (drop (blocks_per_seg g) (sum_entries b))"
    by (simp add: clear_node_versions_def comp_def)
  then show ?thesis by (simp add: map_append [symmetric] del: map_append)
qed

lemma footer_nids:
  "take (blocks_per_seg g) (map s_nid (sum_entries (restore_node_summary g nn segno b))) =
    map (\<lambda>j. nn (START_BLOCK g segno + of_nat j)) [0..<blocks_per_seg g]"
  by (simp add: restore_node_summary_def comp_def)

definition logs_restored :: "layout \<Rightarrow> geom \<Rightarrow> (u32 \<Rightarrow> u32) \<Rightarrow> sb_info \<Rightarrow> sb_info \<Rightarrow> bool" where
  "logs_restored L g nn s u \<longleftrightarrow> (\<forall>i<3. same_log g s u i) \<and>
     nat_j (sum_blk (cursegs u 0)) = nat_j (sum_blk (cursegs s 0)) \<and> sit_j (sum_blk (cursegs u 2)) = sit_j (sum_blk (cursegs s 2)) \<and>
     (\<forall>i. 3 \<le> i \<and> i < 6 \<longrightarrow> same_node_log L g nn s u i)"

lemma logs_restored_spec:
  assumes s: "logs_in_ckpt g s" "codec_ok L g C s" "compact_ok L" "pages_ok L P"
    and n: "n = npages_for_summary_flush L g False s" "is_set_ckpt_flags (ckpt s) (cp_compact_sum_flag L) \<longleftrightarrow> n < 3"
    and ad: "sum_addrs_ok L g s n" and Q: "pack_sums L g C s n P Q" and t: "ckpt t = ckpt s"
  shows "logs_restored L g nn s (restore_curseg_summaries L g C stypes nn Q t)"
proof -
  define a where "a = unat (start_sum_block g (ckpt s))"
  define u where "u = restore_curseg_summaries L g C stypes nn Q t"
  have rs: "rd_sum C (wr_sum C (sum_blk (cursegs s i))) = sum_blk (cursegs s i)" if "i < 6" for i
    using s(2) that by (simp add: codec_ok_def)
  have node: "\<forall>i. 3 \<le> i \<and> i < 6 \<longrightarrow> same_node_log L g nn s u i"
    if w: "ckpt w = ckpt s" and uw: "u = fold (read_normal_summaries L g C stypes nn Q) tys w" "distinct tys" "{3, 4, 5} \<subseteq> set tys" for w tys
  proof (intro impI allI)
    fix i assume i: "3 \<le> i \<and> i < (6 :: nat)"
    then obtain j where j: "i = j + 3" "j < 3" by (metis add.commute le_Suc_ex less_diff_conv2 numeral_Bit0 add_less_cancel_left)
    have ty: "i \<in> set tys" using i uw(3) by (auto simp: numeral_eq_Suc le_Suc_eq less_Suc_eq)
    note all = read_normal_all [OF uw(2), of L g C stypes nn Q w]
    show "same_node_log L g nn s u i"
    proof (cases "exist_node_summaries L (ckpt s)")
      case True
      then have "log_block L g C nn Q i w = clear_node_versions g (sum_blk (cursegs s i))"
        using j Q ad rs [of i] i by (simp add: log_block_def w Let_def sum_addrs_ok_def pack_sums_def)
      then show ?thesis using all ty s(1) j w i True
        by (simp add: uw(1) same_node_log_def placed_def log_place_def logs_in_ckpt_def clear_nids)
    next
      case False
      then have "log_block L g C nn Q i w =
          restore_node_summary g nn (cs_segno (cursegs s i)) (get_sum_page g (cs_segno (cursegs s i)) w)"
        using j i s(1) by (simp add: log_block_def w Let_def log_place_def logs_in_ckpt_def)
      then show ?thesis using all ty s(1) j w i False footer_nids [of g nn "cs_segno (cursegs s i)"]
        by (simp add: uw(1) same_node_log_def placed_def log_place_def logs_in_ckpt_def)
    qed
  qed
  show ?thesis
  proof (cases "n < 3")
    case True
    have f: "is_set_ckpt_flags (ckpt t) (cp_compact_sum_flag L)" "is_set_ckpt_flags (ckpt s) (cp_compact_sum_flag L)"
      using True n(2) t by simp_all
    have "n \<noteq> 0" by (simp add: n(1) npages_for_summary_flush_def Let_def)
    then obtain k where k: "n = Suc k" "k < 2" using True by (cases n) auto
    define w where "w = read_compacted_summaries L g C stypes Q t"
    have QQ: "\<forall>q. a \<le> q \<and> q \<le> a + k \<longrightarrow> Q q = write_compacted_summaries L g C a s P q"
      using Q f(2) k by (auto simp: pack_sums_def write_data_summaries_def Let_def a_def)
    note cr = compacted_roundtrip [OF s n(1) [symmetric, unfolded k(1)] k(2) a_def t QQ w_def]
    have uw: "u = fold (read_normal_summaries L g C stypes nn Q) [3..<Suc 5] w"
      unfolding u_def restore_curseg_summaries_def Let_def w_def using f(1) by simp
    have c: "cursegs u i = cursegs w i" if "i < 3" for i
      using read_normal_all [of "[3..<Suc 5]" L g C stypes nn Q w] that by (simp add: uw del: upt_Suc)
    have "\<forall>i. 3 \<le> i \<and> i < 6 \<longrightarrow> same_node_log L g nn s u i"
      by (rule node [OF cr(2) uw]) auto
    then show ?thesis using cr(1,4,5) c unfolding u_def [symmetric] by (simp add: logs_restored_def same_log_def)
  next
    case False
    then have f: "\<not> is_set_ckpt_flags (ckpt t) (cp_compact_sum_flag L)" "\<not> is_set_ckpt_flags (ckpt s) (cp_compact_sum_flag L)"
      using n(2) t by simp_all
    have n3: "n = 3" using False n(1) by (auto simp: npages_for_summary_flush_def Let_def split: if_splits)
    have uw: "u = fold (read_normal_summaries L g C stypes nn Q) [0..<Suc 5] t"
      unfolding u_def restore_curseg_summaries_def Let_def using f(1) by simp
    have blk: "sum_blk (cursegs u i) = (sum_blk (cursegs s i))\<lparr>sum_type := fst stypes\<rparr> \<and> same_log g s u i" if i: "i < 3" for i
    proof -
      have "Q (a + i) = write_normal_summaries C a 0 s P (a + i)"
        using Q f(2) i by (simp add: pack_sums_def write_data_summaries_def Let_def a_def n3)
      also have "\<dots> = wr_sum C (sum_blk (cursegs s i))"
        using i by (auto simp: write_normal_summaries_def upt_rec numeral_eq_Suc less_Suc_eq)
      finally have "log_block L g C nn Q i t = sum_blk (cursegs s i)"
        using ad rs [of i] i by (simp add: log_block_def t Let_def sum_addrs_ok_def n3 a_def)
      then have "cursegs u i = placed g stypes i (cur_data_segno (ckpt s) i) (cur_data_blkoff (ckpt s) i) (ck_alloc_type (ckpt s) i)
          (sum_blk (cursegs s i))"
        using read_normal_all [of "[0..<Suc 5]" L g C stypes nn Q t] i t by (simp add: uw log_place_def del: upt_Suc)
      then show ?thesis using i s(1) by (simp add: placed_def same_log_def logs_in_ckpt_def log_entries_def)
    qed
    have "\<forall>i. 3 \<le> i \<and> i < 6 \<longrightarrow> same_node_log L g nn s u i"
      by (rule node [OF t uw]) auto
    then show ?thesis using blk unfolding u_def [symmetric] by (simp add: logs_restored_def)
  qed
qed

end
