(* ===== verification/Ino_Entry.thy ===== *)
theory Ino_Entry
  imports Sb_State
begin

text \<open>
  The lists of inode numbers the checkpoint needs (\<open>checkpoint.c\<close>): orphans, and inodes with data
  appended or updated since the last checkpoint. A number is in the radix tree and on the list;
  slots for orphans are reserved before the inode is unlinked, so their counter is ahead of the list.
\<close>

section \<open>Operations\<close>

datatype ino_type = ORPHAN_INO | APPEND_INO | UPDATE_INO

datatype errno = ENOSPC | EINVAL | EIO | ENOMEM | EEXIST | ENOENT | ENODATA | ERANGE | EOPNOTSUPP | ENAMETOOLONG
  | EACCES | EPERM | ENOTEMPTY | EAGAIN | EMLINK | ENXIO

record inode_management =
  ino_root :: "u32 \<rightharpoonup> u32"        \<comment> \<open>radix tree: number to the entry, which holds the number\<close>
  ino_list :: "u32 list"
  im_ino_num :: u64              \<comment> \<open>ino_num\<close>

type_synonym ino_mgmt = "ino_type \<Rightarrow> inode_management"

definition add_ino_entry :: "u32 \<Rightarrow> ino_type \<Rightarrow> ino_mgmt \<Rightarrow> ino_mgmt" where
  "add_ino_entry ino ty m =
     (let im = m ty
      in case ino_root im ino of
           Some _ \<Rightarrow> m
         | None \<Rightarrow>
             let im = im\<lparr>ino_root := (ino_root im)(ino \<mapsto> ino), ino_list := ino_list im @ [ino]\<rparr>;
                 im = (if ty \<noteq> ORPHAN_INO then im\<lparr>im_ino_num := im_ino_num im + 1\<rparr> else im)
             in m(ty := im))"

definition remove_ino_entry :: "u32 \<Rightarrow> ino_type \<Rightarrow> ino_mgmt \<Rightarrow> ino_mgmt" where
  "remove_ino_entry ino ty m =
     (let im = m ty
      in case ino_root im ino of
           Some e \<Rightarrow> m(ty := im\<lparr>ino_list := remove1 e (ino_list im), ino_root := (ino_root im)(ino := None),
                               im_ino_num := im_ino_num im - 1\<rparr>)
         | None \<Rightarrow> m)"

definition add_dirty_inode :: "u32 \<Rightarrow> ino_type \<Rightarrow> ino_mgmt \<Rightarrow> ino_mgmt" where
  "add_dirty_inode ino ty m = add_ino_entry ino ty m"

definition remove_dirty_inode :: "u32 \<Rightarrow> ino_type \<Rightarrow> ino_mgmt \<Rightarrow> ino_mgmt" where
  "remove_dirty_inode ino ty m = remove_ino_entry ino ty m"

definition exist_written_data :: "u32 \<Rightarrow> ino_type \<Rightarrow> ino_mgmt \<Rightarrow> bool" where
  "exist_written_data ino mode m = (case ino_root (m mode) ino of Some _ \<Rightarrow> True | None \<Rightarrow> False)"

definition release_ino_list :: "inode_management \<Rightarrow> inode_management" where
  "release_ino_list im =
     fold (\<lambda>e im. im\<lparr>ino_list := tl (ino_list im), ino_root := (ino_root im)(e := None), im_ino_num := im_ino_num im - 1\<rparr>)
       (ino_list im) im"

definition release_dirty_inode :: "ino_mgmt \<Rightarrow> ino_mgmt" where
  "release_dirty_inode m = fold (\<lambda>i m. m(i := release_ino_list (m i))) [APPEND_INO, UPDATE_INO] m"

definition acquire_orphan_inode :: "u32 \<Rightarrow> ino_mgmt \<Rightarrow> (errno + unit) \<times> ino_mgmt" where
  "acquire_orphan_inode max_orphans m =
     (let im = m ORPHAN_INO
      in if im_ino_num im \<ge> ucast max_orphans then (Inl ENOSPC, m)
         else (Inr (), m(ORPHAN_INO := im\<lparr>im_ino_num := im_ino_num im + 1\<rparr>)))"

definition release_orphan_inode :: "ino_mgmt \<Rightarrow> sb_info \<Rightarrow> ino_mgmt \<times> sb_info" where
  "release_orphan_inode m s =
     (let im = m ORPHAN_INO
      in (m(ORPHAN_INO := im\<lparr>im_ino_num := im_ino_num im - 1\<rparr>), f2fs_bug_on (im_ino_num im = 0) s))"

definition add_orphan_inode :: "u32 \<Rightarrow> ino_mgmt \<Rightarrow> ino_mgmt" where
  "add_orphan_inode ino m = add_ino_entry ino ORPHAN_INO m"

definition remove_orphan_inode :: "u32 \<Rightarrow> ino_mgmt \<Rightarrow> ino_mgmt" where
  "remove_orphan_inode ino m = remove_ino_entry ino ORPHAN_INO m"

text \<open>The tables at mount, and the number of orphans a checkpoint pack can hold.\<close>

definition init_ino_entry_info :: "layout \<Rightarrow> geom \<Rightarrow> ino_mgmt \<times> u32" where
  "init_ino_entry_info L g =
     (\<lambda>_. \<lparr>ino_root = Map.empty, ino_list = [], im_ino_num = 0\<rparr>,
      (of_nat (blocks_per_seg g) - of_nat (f2fs_cp_packs L) - of_nat NR_CURSEG_TYPE - cp_payload g) * of_nat (orphans_per_block L))"

section \<open>The orphan slots\<close>

text \<open>
  How the callers use the slots (\<open>namei.c\<close>, \<open>inode.c\<close>): a slot is reserved, then used for an inode
  that is not on the list yet, or given back; removing takes an inode off the list. \<open>p\<close> counts the
  slots reserved and not used yet.
\<close>

inductive orphan_step :: "u32 \<Rightarrow> ino_mgmt \<times> nat \<Rightarrow> ino_mgmt \<times> nat \<Rightarrow> bool" for max_orphans where
  acquire: "acquire_orphan_inode max_orphans m = (Inr (), m') \<Longrightarrow> orphan_step max_orphans (m, p) (m', Suc p)"
| acquire_full: "acquire_orphan_inode max_orphans m = (Inl e, m') \<Longrightarrow> orphan_step max_orphans (m, p) (m', p)"
| release: "release_orphan_inode m s = (m', s') \<Longrightarrow> orphan_step max_orphans (m, Suc p) (m', p)"
| add: "ino_root (m ORPHAN_INO) ino = None \<Longrightarrow> m' = add_orphan_inode ino m \<Longrightarrow> orphan_step max_orphans (m, Suc p) (m', p)"
| remove: "m' = remove_orphan_inode ino m \<Longrightarrow> orphan_step max_orphans (m, p) (m', p)"
| dirty: "ty \<noteq> ORPHAN_INO \<Longrightarrow> m' = add_dirty_inode ino ty m \<Longrightarrow> orphan_step max_orphans (m, p) (m', p)"
| clean: "ty \<noteq> ORPHAN_INO \<Longrightarrow> m' = remove_dirty_inode ino ty m \<Longrightarrow> orphan_step max_orphans (m, p) (m', p)"
| release_dirty: "m' = release_dirty_inode m \<Longrightarrow> orphan_step max_orphans (m, p) (m', p)"

text \<open>The tree and the list hold the same numbers, each once, and the counter counts them.\<close>

definition ino_list_ok :: "nat \<Rightarrow> inode_management \<Rightarrow> bool" where
  "ino_list_ok p im \<longleftrightarrow> distinct (ino_list im) \<and> (\<forall>i. ino_root im i = (if i \<in> set (ino_list im) then Some i else None)) \<and>
     im_ino_num im = of_nat (length (ino_list im) + p)"

definition orphans_ok :: "u32 \<Rightarrow> ino_mgmt \<times> nat \<Rightarrow> bool" where
  "orphans_ok max_orphans x \<longleftrightarrow> (case x of (m, p) \<Rightarrow>
     ino_list_ok p (m ORPHAN_INO) \<and> ino_list_ok 0 (m APPEND_INO) \<and> ino_list_ok 0 (m UPDATE_INO) \<and>
     length (ino_list (m ORPHAN_INO)) + p \<le> unat max_orphans)"

lemma ino_list_D: "ino_list_ok p im \<Longrightarrow> ino_root im i = None \<longleftrightarrow> i \<notin> set (ino_list im)"
  "ino_list_ok p im \<Longrightarrow> ino_root im i = Some e \<longleftrightarrow> e = i \<and> i \<in> set (ino_list im)"
  by (auto simp: ino_list_ok_def)

lemma add_ok: "ty \<noteq> ORPHAN_INO \<Longrightarrow> ino_list_ok p (m ty) \<Longrightarrow> ino_list_ok p (add_ino_entry ino ty m ty)"
  by (auto simp: add_ino_entry_def Let_def ino_list_ok_def split: option.split)

lemma add_frame: "t \<noteq> ty \<Longrightarrow> add_ino_entry ino ty m t = m t" "t \<noteq> ty \<Longrightarrow> remove_ino_entry ino ty m t = m t"
  by (auto simp: add_ino_entry_def remove_ino_entry_def Let_def split: option.split)

lemma remove_ok: "ino_list_ok p (m ty) \<Longrightarrow> ino_list_ok p (remove_ino_entry ino ty m ty) \<and>
    length (ino_list (remove_ino_entry ino ty m ty)) \<le> length (ino_list (m ty))"
proof (cases "ino_root (m ty) ino")
  case None
  then show "ino_list_ok p (m ty) \<Longrightarrow> ?thesis" by (simp add: remove_ino_entry_def)
next
  case (Some e)
  assume ok: "ino_list_ok p (m ty)"
  then have e: "e = ino" "ino \<in> set (ino_list (m ty))" using Some ino_list_D(2) [OF ok] by blast+
  define xs where "xs = ino_list (m ty)"
  define ys where "ys = remove1 ino xs"
  have ys: "set ys = set xs - {ino}" "distinct ys" using ok by (simp_all add: ys_def xs_def ino_list_ok_def)
  have n: "length xs = Suc (length ys)"
    using e(2) length_pos_if_in_set [OF e(2)] by (simp add: ys_def xs_def length_remove1)
  have r: "remove_ino_entry ino ty m ty = (m ty)\<lparr>ino_list := ys, ino_root := (ino_root (m ty))(ino := None),
      im_ino_num := im_ino_num (m ty) - 1\<rparr>"
    by (simp add: remove_ino_entry_def Let_def Some e(1) ys_def xs_def)
  have "im_ino_num (m ty) - 1 = of_nat (length ys + p)" using ok n by (simp add: ino_list_ok_def xs_def)
  moreover have "((ino_root (m ty))(ino := None)) i = (if i \<in> set ys then Some i else None)" for i
    using ok by (simp add: ys(1) xs_def ino_list_ok_def)
  ultimately show ?thesis using ys(2) n unfolding r by (simp add: ino_list_ok_def xs_def)
qed

lemma release_list_ok: "ino_list_ok p im \<Longrightarrow> ino_list_ok p (release_ino_list im) \<and> ino_list (release_ino_list im) = []"
proof -
  have "distinct xs \<Longrightarrow> ino_list im = xs \<Longrightarrow> \<forall>i. ino_root im i = (if i \<in> set xs then Some i else None) \<Longrightarrow>
      im_ino_num im = of_nat (length xs + p) \<Longrightarrow>
      ino_list_ok p (fold (\<lambda>e im. im\<lparr>ino_list := tl (ino_list im), ino_root := (ino_root im)(e := None), im_ino_num := im_ino_num im - 1\<rparr>) xs im) \<and>
      ino_list (fold (\<lambda>e im. im\<lparr>ino_list := tl (ino_list im), ino_root := (ino_root im)(e := None), im_ino_num := im_ino_num im - 1\<rparr>) xs im) = []" for xs
  proof (induction xs arbitrary: im)
    case Nil
    then show ?case by (simp add: ino_list_ok_def)
  next
    case (Cons x xs)
    show ?case unfolding fold_simps(2) by (rule Cons.IH) (use Cons.prems in auto)
  qed
  then show "ino_list_ok p im \<Longrightarrow> ?thesis" by (simp add: ino_list_ok_def release_ino_list_def)
qed

lemma orphan_step_ok:
  assumes "orphan_step max_orphans x y" "orphans_ok max_orphans x"
  shows "orphans_ok max_orphans y"
  using assms
proof cases
  case (acquire m m' p)
  let ?n = "length (ino_list (m ORPHAN_INO)) + p"
  have lim: "unat (of_nat ?n :: u64) = ?n" "unat (ucast max_orphans :: u64) = unat max_orphans"
  proof -
    have "?n < 2 ^ 32" using assms(2) acquire unsigned_less [of max_orphans, where ?'a = nat] by (simp add: orphans_ok_def)
    then show "unat (of_nat ?n :: u64) = ?n" by (intro unat_of_nat_small) simp
    have "unat max_orphans < 2 ^ 64" using unsigned_less [of max_orphans, where ?'a = nat] by simp
    then show "unat (ucast max_orphans :: u64) = unat max_orphans" by (simp add: unsigned_ucast_eq take_bit_nat_eq_self)
  qed
  have "\<not> im_ino_num (m ORPHAN_INO) \<ge> ucast max_orphans" and m': "m' = m(ORPHAN_INO := (m ORPHAN_INO)\<lparr>im_ino_num := im_ino_num (m ORPHAN_INO) + 1\<rparr>)"
    using acquire(3) by (auto simp: acquire_orphan_inode_def Let_def split: if_splits)
  then have "?n < unat max_orphans"
    using assms(2) acquire(1) lim by (simp add: orphans_ok_def ino_list_ok_def word_le_nat_alt)
  then show ?thesis using assms(2) acquire(1,2) by (simp add: m' orphans_ok_def ino_list_ok_def)
next
  case (acquire_full m e m' p)
  then show ?thesis using assms(2) by (auto simp: acquire_orphan_inode_def Let_def split: if_splits)
next
  case (release m s m' s' p)
  then show ?thesis using assms(2) by (auto simp: release_orphan_inode_def Let_def orphans_ok_def ino_list_ok_def)
next
  case (add m ino m' p)
  then show ?thesis
    using assms(2) by (auto simp: add_orphan_inode_def add_ino_entry_def Let_def orphans_ok_def ino_list_ok_def)
next
  case (remove m' ino m p)
  then show ?thesis
    using assms(2) remove_ok [of p m ORPHAN_INO ino] by (auto simp: remove_orphan_inode_def orphans_ok_def add_frame)
next
  case (dirty ty m' ino m p)
  then show ?thesis
    using assms(2) add_ok [of ty 0 m ino] by (cases ty) (auto simp: add_dirty_inode_def orphans_ok_def add_frame)
next
  case (clean ty m' ino m p)
  then show ?thesis
    using assms(2) remove_ok [of 0 m ty ino] by (cases ty) (auto simp: remove_dirty_inode_def orphans_ok_def add_frame)
next
  case (release_dirty m' m p)
  then show ?thesis
    using assms(2) release_list_ok by (auto simp: release_dirty_inode_def orphans_ok_def)
qed

text \<open>
  C19: However the slots are used by callers that add an orphan only with a slot they reserved and give back only such
  slots (the steps \<open>orphan_step\<close>), from the empty state on the counter of orphans is the number of orphans
  on the list plus the slots reserved, and never exceeds the limit of the checkpoint pack; tree and lists
  agree, and the lists of appended and updated inodes are counted exactly.
\<close>
theorem orphan_slots_counted:
  assumes "(orphan_step max_orphans)\<^sup>*\<^sup>* (fst (init_ino_entry_info L g), 0) (m, p)"
  shows "orphans_ok max_orphans (m, p)"
  using assms
proof (induction rule: rtranclp_induct2)
  case refl
  then show ?case by (simp add: init_ino_entry_info_def orphans_ok_def ino_list_ok_def)
next
  case (step a b c d)
  then show ?case using orphan_step_ok by blast
qed

theorem orphan_slots_counted_witness:
  "orphans_ok 4 (add_orphan_inode 7 (snd (acquire_orphan_inode 4 (fst (init_ino_entry_info small_layout small_geom)))), 0)"
proof -
  let ?m0 = "fst (init_ino_entry_info small_layout small_geom)"
  let ?m1 = "snd (acquire_orphan_inode 4 ?m0)"
  have "acquire_orphan_inode 4 ?m0 = (Inr (), ?m1)" by (simp add: init_ino_entry_info_def acquire_orphan_inode_def)
  then have "orphan_step 4 (?m0, 0) (?m1, Suc 0)" by (rule orphan_step.acquire)
  moreover have "orphan_step 4 (?m1, Suc 0) (add_orphan_inode 7 ?m1, 0)"
    by (rule orphan_step.add [OF _ refl]) (simp add: init_ino_entry_info_def acquire_orphan_inode_def)
  ultimately have "(orphan_step 4)\<^sup>*\<^sup>* (?m0, 0) (add_orphan_inode 7 ?m1, 0)" by simp
  then show ?thesis by (rule orphan_slots_counted)
qed

end
