(* ===== verification/Checkpoint.thy ===== *)
theory Checkpoint
  imports Bytes Summary_Pack Ino_Entry Sit_Flush Nat_Flush
begin

text \<open>
  Checkpoints (\<open>checkpoint.c\<close>). There are two checkpoint packs, written in turn; a pack starts and
  ends with a copy of the checkpoint block, with a checksum and the version, and the mount takes the
  newer valid pack. Blocks are lists of bytes by address; the formats of the structures in them and
  the number of orphan blocks (kernel header) are the parameter \<open>cp_codec\<close>.
\<close>

section \<open>Checksums\<close>

definition CRCPOLY_LE :: u32 where
  "CRCPOLY_LE = 0xEDB88320"

fun crc_bits :: "u32 \<Rightarrow> nat \<Rightarrow> u32 \<Rightarrow> u32" where
  "crc_bits poly 0 crc = crc"
| "crc_bits poly (Suc n) crc = crc_bits poly n (drop_bit 1 crc XOR (if crc AND 1 \<noteq> 0 then poly else 0))"

definition crc_byte :: "u32 \<Rightarrow> u8 \<Rightarrow> u32 \<Rightarrow> u32" where
  "crc_byte poly b crc = crc_bits poly 8 (crc XOR ucast b)"

definition f2fs_crc32 :: "layout \<Rightarrow> u8 list \<Rightarrow> nat \<Rightarrow> u32" where
  "f2fs_crc32 L buf sz = fold (crc_byte CRCPOLY_LE) (take sz buf) (super_magic L)"

definition f2fs_crc_valid :: "layout \<Rightarrow> u32 \<Rightarrow> u8 list \<Rightarrow> nat \<Rightarrow> bool" where
  "f2fs_crc_valid L blk_crc buf buf_size \<longleftrightarrow> f2fs_crc32 L buf buf_size = blk_crc"

section \<open>Formats\<close>

record f2fs_orphan_block =
  ob_ino :: "nat \<Rightarrow> u32"
  ob_blk_addr :: u16
  ob_blk_count :: u16
  ob_entry_count :: u32

text \<open>
  \<open>wr_ckpt cp i\<close> is block \<open>i\<close> of the buffer \<open>sbi->ckpt\<close>, \<open>rd_ckpt\<close> reads the fields of a buffer of
  the given blocks, \<open>get_orphan_blocks\<close> is \<open>GET_ORPHAN_BLOCKS\<close>.
\<close>

record cp_codec = sum_codec +
  wr_ckpt :: "f2fs_checkpoint \<Rightarrow> nat \<Rightarrow> u8 list"
  rd_ckpt :: "u8 list list \<Rightarrow> f2fs_checkpoint"
  wr_orphan :: "f2fs_orphan_block \<Rightarrow> u8 list"
  rd_orphan :: "u8 list \<Rightarrow> f2fs_orphan_block"
  get_orphan_blocks :: "nat \<Rightarrow> nat"

definition cp_sums :: "cp_codec \<Rightarrow> sum_codec" where
  "cp_sums C = sum_codec.truncate C"

section \<open>Reading the packs\<close>

definition ver_after :: "u64 \<Rightarrow> u64 \<Rightarrow> bool" where
  "ver_after a b \<longleftrightarrow> sint (a - b) > 0"

text \<open>A checkpoint block with a valid checksum, and its version.\<close>

definition cp_block_version :: "layout \<Rightarrow> cp_codec \<Rightarrow> u8 list \<Rightarrow> u64 option" where
  "cp_block_version L C page =
     (let cp_block = rd_ckpt C [page];
          crc_offset = unat (checksum_offset cp_block)
      in if crc_offset \<ge> page_size L then None
         else if \<not> f2fs_crc_valid L (le32_of (get_at crc_offset 4 page)) page crc_offset then None
         else Some (checkpoint_ver cp_block))"

definition validate_checkpoint :: "layout \<Rightarrow> cp_codec \<Rightarrow> pages \<Rightarrow> u32 \<Rightarrow> u64 option" where
  "validate_checkpoint L C P cp_addr =
     (let cp_page_1 = P (unat cp_addr)
      in case cp_block_version L C cp_page_1 of
           None \<Rightarrow> None
         | Some pre_version \<Rightarrow>
             let cp_addr = cp_addr + cp_pack_total_block_count (rd_ckpt C [cp_page_1]) - 1;
                 cp_page_2 = P (unat cp_addr)
             in case cp_block_version L C cp_page_2 of
                  None \<Rightarrow> None
                | Some cur_version \<Rightarrow> if cur_version = pre_version then Some cur_version else None)"

definition cp_pack2 :: "geom \<Rightarrow> u32" where
  "cp_pack2 g = cp_blkaddr g + push_bit (log_blocks_per_seg g) 1"

definition choose_pack :: "layout \<Rightarrow> geom \<Rightarrow> cp_codec \<Rightarrow> pages \<Rightarrow> u32 option" where
  "choose_pack L g C P =
     (case (validate_checkpoint L C P (cp_blkaddr g), validate_checkpoint L C P (cp_pack2 g)) of
        (Some cp1_version, Some cp2_version) \<Rightarrow>
          Some (if ver_after cp2_version cp1_version then cp_pack2 g else cp_blkaddr g)
      | (Some _, None) \<Rightarrow> Some (cp_blkaddr g)
      | (None, Some _) \<Rightarrow> Some (cp_pack2 g)
      | (None, None) \<Rightarrow> None)"

definition get_valid_checkpoint :: "layout \<Rightarrow> geom \<Rightarrow> cp_codec \<Rightarrow> bool \<Rightarrow> pages \<Rightarrow> sb_info \<Rightarrow> errno + sb_info" where
  "get_valid_checkpoint L g C nomem P s =
     (let cp_blks = 1 + unat (cp_payload g)
      in if nomem then Inl ENOMEM
         else case choose_pack L g C P of
                None \<Rightarrow> Inl EINVAL
              | Some cp_blk_no \<Rightarrow> Inr (s\<lparr>ckpt := rd_ckpt C (map (\<lambda>i. P (unat cp_blk_no + i)) [0..<cp_blks])\<rparr>))"

section \<open>Orphans\<close>

text \<open>
  The block being filled, its address and its number of entries; the next address and block
  number; whether a block was missing.
\<close>

record orphan_writer =
  o_cur :: "(nat \<times> f2fs_orphan_block \<times> nat) option"
  o_blk :: nat
  o_index :: nat
  o_missing :: bool
  o_pages :: pages

definition finish_orphan_block :: "cp_codec \<Rightarrow> nat \<Rightarrow> orphan_writer \<Rightarrow> orphan_writer" where
  "finish_orphan_block C orphan_blocks w =
     (case o_cur w of None \<Rightarrow> w
      | Some (a, ob, nentries) \<Rightarrow>
          let ob = ob\<lparr>ob_blk_addr := of_nat (o_index w), ob_blk_count := of_nat orphan_blocks, ob_entry_count := of_nat nentries\<rparr>
          in w\<lparr>o_pages := (o_pages w)(a := wr_orphan C ob), o_index := Suc (o_index w), o_cur := None\<rparr>)"

definition write_orphan :: "layout \<Rightarrow> cp_codec \<Rightarrow> nat \<Rightarrow> nat \<Rightarrow> u32 \<Rightarrow> orphan_writer \<Rightarrow> orphan_writer" where
  "write_orphan L C end_blk orphan_blocks ino w =
     (let w = (case o_cur w of
                 Some _ \<Rightarrow> w
               | None \<Rightarrow> w\<lparr>o_cur := Some (o_blk w, \<lparr>ob_ino = (\<lambda>_. 0), ob_blk_addr = 0, ob_blk_count = 0, ob_entry_count = 0\<rparr>, 0),
                           o_blk := Suc (o_blk w), o_missing := (o_missing w \<or> end_blk \<le> o_blk w)\<rparr>)
      in case o_cur w of None \<Rightarrow> w
         | Some (a, ob, nentries) \<Rightarrow>
             let w = w\<lparr>o_cur := Some (a, ob\<lparr>ob_ino := (ob_ino ob)(nentries := ino)\<rparr>, Suc nentries)\<rparr>
             in if Suc nentries = orphans_per_block L then finish_orphan_block C orphan_blocks w else w)"

definition write_orphan_inodes ::
  "layout \<Rightarrow> cp_codec \<Rightarrow> nat \<Rightarrow> ino_mgmt \<Rightarrow> sb_info \<times> pages \<Rightarrow> sb_info \<times> pages" where
  "write_orphan_inodes L C start_blk m = (\<lambda>(s, P).
     let im = m ORPHAN_INO;
         orphan_blocks = get_orphan_blocks C (unat (im_ino_num im));
         w = \<lparr>o_cur = None, o_blk = start_blk, o_index = 1, o_missing = False, o_pages = P\<rparr>;
         w = fold (write_orphan L C (start_blk + orphan_blocks) orphan_blocks) (ino_list im) w;
         w = finish_orphan_block C orphan_blocks w
     in (f2fs_bug_on (o_missing w) s, o_pages w))"

text \<open>The inodes recovered, in order: each is read, its link count cleared, and dropped.\<close>

definition recover_orphan_inodes :: "layout \<Rightarrow> geom \<Rightarrow> cp_codec \<Rightarrow> pages \<Rightarrow> sb_info \<Rightarrow> u32 list \<times> sb_info" where
  "recover_orphan_inodes L g C P s =
     (if \<not> is_set_ckpt_flags (ckpt s) (cp_orphan_present_flag L) then ([], s)
      else let s = set_sbi_flag SBI_POR_DOING s;
               start_blk = start_cp_addr g (ckpt s) + 1 + cp_payload g;
               orphan_blocks = cp_pack_start_sum (ckpt s) - 1 - cp_payload g;
               inos = concat (map (\<lambda>i. let orphan_blk = rd_orphan C (P (unat start_blk + i))
                                       in map (ob_ino orphan_blk) [0..<unat (ob_entry_count orphan_blk)])
                        [0..<unat orphan_blocks]);
               s = s\<lparr>ckpt := clear_ckpt_flags (cp_orphan_present_flag L) (ckpt s)\<rparr>
           in (inos, clear_sbi_flag SBI_POR_DOING s))"

section \<open>Writing a pack\<close>

record cp_world =
  w_sb :: sb_info
  w_nm :: f2fs_nm_info
  w_im :: ino_mgmt
  w_meta :: pages               \<comment> \<open>blocks of the checkpoint area in the meta mapping\<close>

text \<open>What the device answers: to the discard, and in the three waits for writes.\<close>

record cp_io =
  discard_fails :: bool
  io_err_flush :: bool
  io_err_first :: bool
  io_err_pack :: bool

definition f2fs_stop_checkpoint :: "layout \<Rightarrow> sb_info \<Rightarrow> sb_info" where
  "f2fs_stop_checkpoint L s = s\<lparr>ckpt := set_ckpt_flags (cp_error_flag L) (ckpt s)\<rparr>"

definition f2fs_cp_error :: "layout \<Rightarrow> sb_info \<Rightarrow> bool" where
  "f2fs_cp_error L s \<longleftrightarrow> is_set_ckpt_flags (ckpt s) (cp_error_flag L)"

definition io_wait :: "layout \<Rightarrow> bool \<Rightarrow> sb_info \<Rightarrow> sb_info" where
  "io_wait L err s = (if err then f2fs_stop_checkpoint L s else s)"

definition discard_next_dnode :: "bool \<Rightarrow> sb_info \<Rightarrow> sb_info" where
  "discard_next_dnode fails s = (if fails then inc_page_count F2FS_DIRTY_META s else s)"

text \<open>The fields of the checkpoint that describe the state.\<close>

definition fill_checkpoint :: "sb_info \<Rightarrow> u32 \<Rightarrow> f2fs_checkpoint \<Rightarrow> f2fs_checkpoint" where
  "fill_checkpoint s last_nid cp =
     cp\<lparr>ck_elapsed_time := get_mtime s, ck_valid_block_count := ucast (total_valid_block_count s),
        ck_free_segment_count := free_segments (free_i s),
        cur_node_segno := (\<lambda>i. if i < 3 then cs_segno (cursegs s (i + CURSEG_HOT_NODE)) else cur_node_segno cp i),
        cur_node_blkoff := (\<lambda>i. if i < 3 then next_blkoff (cursegs s (i + CURSEG_HOT_NODE)) else cur_node_blkoff cp i),
        cur_data_segno := (\<lambda>i. if i < 3 then cs_segno (cursegs s (i + CURSEG_HOT_DATA)) else cur_data_segno cp i),
        cur_data_blkoff := (\<lambda>i. if i < 3 then next_blkoff (cursegs s (i + CURSEG_HOT_DATA)) else cur_data_blkoff cp i),
        ck_alloc_type := (\<lambda>i. if i < 6 then alloc_type (cursegs s i) else ck_alloc_type cp i),
        ck_valid_node_count := total_valid_node_count s, ck_valid_inode_count := total_valid_inode_count s,
        ck_next_free_nid := last_nid\<rparr>"

definition flag_if :: "bool \<Rightarrow> u32 \<Rightarrow> f2fs_checkpoint \<Rightarrow> f2fs_checkpoint" where
  "flag_if b f cp = (if b then set_ckpt_flags f cp else clear_ckpt_flags f cp)"

definition cp_set_flags :: "layout \<Rightarrow> cp_reason \<Rightarrow> bool \<Rightarrow> bool \<Rightarrow> sb_info \<Rightarrow> f2fs_checkpoint \<Rightarrow> f2fs_checkpoint" where
  "cp_set_flags L reason compact orphans s cp =
     (let cp = flag_if compact (cp_compact_sum_flag L) cp;
          cp = flag_if (reason = CP_UMOUNT) (cp_umount_flag L) cp;
          cp = flag_if (reason = CP_FASTBOOT) (cp_fastboot_flag L) cp;
          cp = flag_if orphans (cp_orphan_present_flag L) cp
      in if is_sbi_flag_set s SBI_NEED_FSCK then set_ckpt_flags (cp_fsck_flag L) cp else cp)"

text \<open>The first block of the buffer with its checksum.\<close>

definition cp_block :: "layout \<Rightarrow> cp_codec \<Rightarrow> f2fs_checkpoint \<Rightarrow> u8 list" where
  "cp_block L C cp =
     (let buf = wr_ckpt C cp 0; off = unat (checksum_offset cp)
      in put_at off (le32_bytes (f2fs_crc32 L buf off)) buf)"

definition cp_counts :: "layout \<Rightarrow> geom \<Rightarrow> cp_reason \<Rightarrow> nat \<Rightarrow> nat \<Rightarrow> f2fs_checkpoint \<Rightarrow> f2fs_checkpoint" where
  "cp_counts L g reason data_sum_blocks orphan_blocks cp =
     cp\<lparr>cp_pack_start_sum := of_nat (1 + unat (cp_payload g) + orphan_blocks),
        cp_pack_total_block_count := of_nat (f2fs_cp_packs L + unat (cp_payload g) + data_sum_blocks + orphan_blocks +
          (if remain_node_summaries reason then 3 else 0))\<rparr>"

definition write_pack ::
  "layout \<Rightarrow> geom \<Rightarrow> cp_codec \<Rightarrow> cp_reason \<Rightarrow> nat \<Rightarrow> nat \<Rightarrow> ino_mgmt \<Rightarrow> sb_info \<times> pages \<Rightarrow> sb_info \<times> pages" where
  "write_pack L g C reason data_sum_blocks orphan_blocks m = (\<lambda>(s, P).
     let cp = ckpt s;
         start_blk = unat (start_cp_addr g cp);
         P = P(start_blk := cp_block L C cp);
         P = fold (\<lambda>i P. P(start_blk + i := wr_ckpt C cp i)) [1..<1 + unat (cp_payload g)] P;
         start_blk = start_blk + 1 + unat (cp_payload g);
         (s, P, start_blk) = (if im_ino_num (m ORPHAN_INO) \<noteq> 0
              then let (s, P) = write_orphan_inodes L C start_blk m (s, P) in (s, P, start_blk + orphan_blocks)
              else (s, P, start_blk));
         P = write_data_summaries L g (cp_sums C) start_blk s P;
         start_blk = start_blk + data_sum_blocks;
         (P, start_blk) = (if remain_node_summaries reason
              then (write_node_summaries (cp_sums C) start_blk s P, start_blk + 3) else (P, start_blk))
     in (s, P(start_blk := cp_block L C cp)))"

definition do_checkpoint :: "layout \<Rightarrow> geom \<Rightarrow> cp_codec \<Rightarrow> cp_io \<Rightarrow> cp_reason \<Rightarrow> cp_world \<Rightarrow> cp_world" where
  "do_checkpoint L g C io reason w =
     (let s = discard_next_dnode (discard_fails io) (w_sb w);
          dirty = (get_pages s F2FS_DIRTY_META \<noteq> 0);
          s = (if dirty then io_wait L (io_err_flush io) (s\<lparr>nr_pages := (nr_pages s)(count_no F2FS_DIRTY_META := 0)\<rparr>) else s)
      in if dirty \<and> f2fs_cp_error L s then w\<lparr>w_sb := s\<rparr>
         else let last_nid = next_free_nid (w_nm w) (next_scan_nid (w_nm w));
                  orphan_num = unat (im_ino_num (w_im w ORPHAN_INO));
                  s = s\<lparr>ckpt := fill_checkpoint s last_nid (ckpt s)\<rparr>;
                  data_sum_blocks = npages_for_summary_flush L g False s;
                  orphan_blocks = get_orphan_blocks C orphan_num;
                  cp = cp_counts L g reason data_sum_blocks orphan_blocks (ckpt s);
                  cp = cp_set_flags L reason (data_sum_blocks < 3) (orphan_num \<noteq> 0) s cp;
                  cp = cp\<lparr>ck_sit_bitmap := sit_bitmap (sit_i s), ck_nat_bitmap := nat_bitmap (w_nm w)\<rparr>;
                  (s, P) = write_pack L g C reason data_sum_blocks orphan_blocks (w_im w) (s\<lparr>ckpt := cp\<rparr>, w_meta w);
                  s = io_wait L (io_err_first io) s;
                  w = w\<lparr>w_sb := s, w_meta := P\<rparr>
              in if f2fs_cp_error L s then w
                 else let s = s\<lparr>last_valid_block_count := total_valid_block_count s, alloc_valid_block_count := 0\<rparr>;
                          s = io_wait L (io_err_pack io) s;
                          w = w\<lparr>w_im := release_dirty_inode (w_im w)\<rparr>
                      in if f2fs_cp_error L s then w\<lparr>w_sb := s\<rparr>
                         else w\<lparr>w_sb := clear_sbi_flag SBI_IS_DIRTY (fst (clear_prefree_segments g s))\<rparr>)"

section \<open>The whole checkpoint\<close>

text \<open>
  The loops of \<open>block_operations\<close>: as long as there are dirty pages of a kind they are written out
  (\<open>sync\<close>), which may fail or never end.
\<close>

partial_function (option) flush_pages ::
  "layout \<Rightarrow> count_type \<Rightarrow> (cp_world \<Rightarrow> cp_world) \<Rightarrow> cp_world \<Rightarrow> (bool \<times> cp_world) option" where
  "flush_pages L ty sync w =
     (if get_pages (w_sb w) ty = 0 then Some (False, w)
      else let w = sync w
           in if f2fs_cp_error L (w_sb w) then Some (True, w) else flush_pages L ty sync w)"

definition block_operations ::
  "layout \<Rightarrow> (cp_world \<Rightarrow> cp_world) \<Rightarrow> (cp_world \<Rightarrow> cp_world) \<Rightarrow> cp_world \<Rightarrow> (bool \<times> cp_world) option" where
  "block_operations L sync_dirty_dir_inodes sync_node_pages w =
     (case flush_pages L F2FS_DIRTY_DENTS sync_dirty_dir_inodes w of
        None \<Rightarrow> None
      | Some (True, w) \<Rightarrow> Some (True, w)
      | Some (False, w) \<Rightarrow> flush_pages L F2FS_DIRTY_NODES sync_node_pages w)"

text \<open>The summary block of the hot data log is shared with the node manager, which journals there.\<close>

definition flush_nats_of :: "layout \<Rightarrow> geom \<Rightarrow> (f2fs_nm_info \<Rightarrow> bool) \<Rightarrow> cp_world \<Rightarrow> cp_world" where
  "flush_nats_of L g av w =
     (let s = w_sb w;
          nm = flush_nat_entries L g av ((w_nm w)\<lparr>hot_sum := sum_blk (cursegs s CURSEG_HOT_DATA)\<rparr>)
      in w\<lparr>w_nm := nm, w_sb := put_curseg CURSEG_HOT_DATA ((cursegs s CURSEG_HOT_DATA)\<lparr>sum_blk := hot_sum nm\<rparr>) s\<rparr>)"

definition write_checkpoint ::
  "layout \<Rightarrow> geom \<Rightarrow> cp_codec \<Rightarrow> (f2fs_nm_info \<Rightarrow> bool) \<Rightarrow> cp_io \<Rightarrow> (cp_world \<Rightarrow> cp_world) \<Rightarrow> (cp_world \<Rightarrow> cp_world) \<Rightarrow>
     bool \<Rightarrow> cp_control \<Rightarrow> cp_world \<Rightarrow> cp_world option" where
  "write_checkpoint L g C av io sync_dirs sync_nodes readonly cpc w =
     (if \<not> is_sbi_flag_set (w_sb w) SBI_IS_DIRTY \<and> (cpc_reason cpc = CP_FASTBOOT \<or> cpc_reason cpc = CP_SYNC) then Some w
      else if f2fs_cp_error L (w_sb w) then Some w
      else if readonly then Some w
      else case block_operations L sync_dirs sync_nodes w of
             None \<Rightarrow> None
           | Some (True, w) \<Rightarrow> Some w
           | Some (False, w) \<Rightarrow>
               let s = w_sb w;
                   w = w\<lparr>w_sb := s\<lparr>ckpt := (ckpt s)\<lparr>checkpoint_ver := checkpoint_ver (ckpt s) + 1\<rparr>\<rparr>\<rparr>;
                   w = flush_nats_of L g av w;
                   (cpc, s) = flush_sit_entries L g cpc (w_sb w)
               in Some (do_checkpoint L g C io (cpc_reason cpc) (w\<lparr>w_sb := s\<rparr>)))"

section \<open>Checksums detect a changed byte\<close>

lemma crc_step_inj:
  assumes "bit poly 31"
    and "drop_bit 1 a XOR (if a AND 1 \<noteq> 0 then poly else 0) = drop_bit 1 b XOR (if b AND 1 \<noteq> 0 then poly else (0 :: u32))"
  shows "a = b"
proof -
  have low: "c AND 1 \<noteq> 0 \<longleftrightarrow> bit c 0" for c :: u32 by (simp add: and_one_eq bit_0 odd_iff_mod_2_eq_one)
  have e: "bit a (Suc n) \<noteq> (bit a 0 \<and> bit poly n) \<longleftrightarrow> bit b (Suc n) \<noteq> (bit b 0 \<and> bit poly n)" for n
    using arg_cong [OF assms(2), of "\<lambda>w. bit w n"]     by (cases "bit a 0"; cases "bit b 0") (auto simp: low bit_xor_iff bit_drop_bit_eq)
  have top: "\<not> bit (c :: u32) (Suc 31)" for c by (rule impossible_bit) simp
  have z: "bit a 0 = bit b 0" using e [of 31] assms(1) top by blast
  show ?thesis
  proof (rule word_eq_bits [THEN iffD2], rule allI)
    fix n show "bit a n = bit b n" using z e [of "n - 1"] by (cases n) auto
  qed
qed

lemma crc_bits_inj:
  assumes "bit poly 31"
  shows "crc_bits poly n a = crc_bits poly n b \<Longrightarrow> a = b"
proof (induction n arbitrary: a b)
  case (Suc n)
  show ?case by (rule crc_step_inj [OF assms Suc.IH]) (use Suc.prems in simp)
qed simp

lemma xor_cancel_right: "a XOR c = b XOR c \<Longrightarrow> a = b" for a b c :: "'a::len word"
  unfolding word_eq_bits bit_xor_iff by blast

lemma crc_byte_inj:
  assumes "bit poly 31"
  shows "crc_byte poly x a = crc_byte poly x b \<Longrightarrow> a = b" "crc_byte poly x a = crc_byte poly y a \<Longrightarrow> x = y"
proof -
  show "a = b" if "crc_byte poly x a = crc_byte poly x b"
    by (rule xor_cancel_right [OF crc_bits_inj [OF assms that [unfolded crc_byte_def]]])
  assume "crc_byte poly x a = crc_byte poly y a"
  then have "a XOR ucast x = a XOR ucast y" unfolding crc_byte_def by (rule crc_bits_inj [OF assms])
  then have "ucast x XOR a = ucast y XOR a" by (simp only: xor.commute)
  then have "ucast x = (ucast y :: u32)" by (rule xor_cancel_right)
  then have e: "bit (ucast x :: u32) n = bit (ucast y :: u32) n" for n by simp
  have "bit x n = bit y n" for n
    using e [of n] bit_imp_le_length [of x n] bit_imp_le_length [of y n] by (auto simp: bit_ucast_iff)
  then show "x = y" by (simp add: word_eq_bits)
qed

lemma crc_fold_inj:
  assumes "bit poly 31"
  shows "fold (crc_byte poly) xs a = fold (crc_byte poly) xs b \<Longrightarrow> a = b"
proof (induction xs arbitrary: a b)
  case (Cons x xs)
  show ?case by (rule crc_byte_inj(1) [OF assms, of x], rule Cons.IH) (use Cons.prems in simp)
qed simp

lemma crc_changed_byte:
  assumes "i < sz" "sz \<le> length buf" "b \<noteq> buf ! i" "f2fs_crc_valid L crc buf sz"
  shows "\<not> f2fs_crc_valid L crc (buf[i := b]) sz"
proof
  assume v: "f2fs_crc_valid L crc (buf[i := b]) sz"
  have p: "bit CRCPOLY_LE 31" by (simp add: CRCPOLY_LE_def)
  let ?f = "crc_byte CRCPOLY_LE"
  have i: "i < length (take sz buf)" using assms(1,2) by simp
  obtain xs ys where t: "take sz buf = xs @ buf ! i # ys" "take sz (buf[i := b]) = xs @ b # ys"
    using id_take_nth_drop [OF i] upd_conv_take_nth_drop [OF i, of b] assms(1) by (simp add: take_update_swap)
  define m where "m = fold ?f xs (super_magic L)"
  have "f2fs_crc32 L buf sz = fold ?f ys (?f (buf ! i) m)" "f2fs_crc32 L (buf[i := b]) sz = fold ?f ys (?f b m)"
    by (simp_all only: f2fs_crc32_def t m_def fold_append fold_simps comp_def)
  then have "?f (buf ! i) m = ?f b m"
    using crc_fold_inj [OF p, of ys] v assms(4) by (simp add: f2fs_crc_valid_def)
  then have "buf ! i = b" by (rule crc_byte_inj(2) [OF p])
  then show False using assms(3) by simp
qed

lemma le32_of_inj:
  assumes "length bs = 4" "length cs = 4" "le32_of bs = le32_of cs"
  shows "bs = cs"
proof -
  have inv: "le32_bytes (le32_of xs) = xs" if l: "length xs = 4" for xs
  proof -
    obtain a b c d where x: "xs = [a, b, c, d]"
      using l by (auto simp: numeral_eq_Suc length_Suc_conv)
    have n: "bit (y :: u8) n \<Longrightarrow> n < 8" for y n using bit_imp_le_length [of y n] by simp
    have "bit (ucast (drop_bit (8 * i) (le32_of xs)) :: u8) n = bit (xs ! i) n" if "i < 4" for i n
    proof -
      consider "i = 0" | "i = 1" | "i = 2" | "i = 3" using \<open>i < 4\<close> by linarith
      then show ?thesis
        by cases (auto simp: le32_of_def x bit_or_iff bit_ucast_iff bit_push_bit_iff bit_drop_bit_eq dest: n)
    qed
    then have "ucast (drop_bit (8 * i) (le32_of xs)) = xs ! i" if "i < 4" for i using that by (simp add: word_eq_bits)
    from this [of 0] this [of 1] this [of 2] this [of 3] show ?thesis by (simp add: le32_bytes_def x)
  qed
  show ?thesis using inv [OF assms(1)] inv [OF assms(2)] assms(3) by metis
qed

text \<open>
  C20: A valid checkpoint block in which one byte has changed, any byte under the checksum or of the checksum
  itself but those that say where the checksum is, is no longer accepted, and neither is a pack that has
  it as its first or its last block: if the checksum of the block lies inside it, and the change of byte
  \<open>i\<close> leaves the field \<open>checksum_offset\<close> as it was, then no version is read from the block. (A change of
  \<open>checksum_offset\<close> makes the code compare other bytes, over another range; nothing is stated for that.)
\<close>
theorem checkpoint_detects_changed_byte:
  assumes "cp_block_version L C page = Some v" "length page = page_size L"
    and "unat (checksum_offset (rd_ckpt C [page])) + 4 \<le> page_size L"
    and "i < unat (checksum_offset (rd_ckpt C [page])) + 4" "b \<noteq> page ! i"
    and "checksum_offset (rd_ckpt C [page[i := b]]) = checksum_offset (rd_ckpt C [page])"
  shows "cp_block_version L C (page[i := b]) = None \<and>
    (\<forall>P cp_addr. P (unat cp_addr) = page[i := b] \<or>
        P (unat (cp_addr + cp_pack_total_block_count (rd_ckpt C [P (unat cp_addr)]) - 1)) = page[i := b] \<longrightarrow>
      validate_checkpoint L C P cp_addr = None)"
proof -
  define off where "off = unat (checksum_offset (rd_ckpt C [page]))"
  have v: "off < page_size L" "f2fs_crc_valid L (le32_of (get_at off 4 page)) page off"
    using assms(1) by (simp_all add: cp_block_version_def Let_def off_def split: if_splits)
  have o: "off + 4 \<le> length page" "i < off + 4" using assms(2-4) by (simp_all add: off_def)
  have "\<not> f2fs_crc_valid L (le32_of (get_at off 4 (page[i := b]))) (page[i := b]) off"
  proof (cases "i < off")
    case True
    then have "get_at off 4 (page[i := b]) = get_at off 4 page" by (simp add: get_at_def drop_update_cancel)
    then show ?thesis using crc_changed_byte [OF True _ assms(5) v(2)] o by simp
  next
    case False
    have e: "get_at off 4 (page[i := b]) = (get_at off 4 page)[i - off := b]"
      using False by (simp add: get_at_def drop_update_swap take_update_swap)
    have l: "length (get_at off 4 page) = 4" "get_at off 4 page ! (i - off) = page ! i" using o False by (simp_all add: get_at_def)
    have "(get_at off 4 page)[i - off := b] \<noteq> get_at off 4 page"
    proof
      assume "(get_at off 4 page)[i - off := b] = get_at off 4 page"
      then have "(get_at off 4 page)[i - off := b] ! (i - off) = get_at off 4 page ! (i - off)" by simp
      then show False using l o False assms(5) by simp
    qed
    then have "le32_of (get_at off 4 (page[i := b])) \<noteq> le32_of (get_at off 4 page)"
      unfolding e using le32_of_inj l(1) by (metis length_list_update)
    moreover have "take off (page[i := b]) = take off page" using False by simp
    ultimately show ?thesis using v(2) by (simp add: f2fs_crc_valid_def f2fs_crc32_def)
  qed
  then have n: "cp_block_version L C (page[i := b]) = None"
    using assms(6) by (simp add: cp_block_version_def Let_def off_def)
  then show ?thesis by (auto simp: validate_checkpoint_def Let_def split: option.split)
qed

section \<open>Orphan blocks read back\<close>

definition orphan_fmt_ok :: "layout \<Rightarrow> cp_codec \<Rightarrow> bool" where
  "orphan_fmt_ok L C \<longleftrightarrow> 0 < orphans_per_block L \<and> orphans_per_block L < 2 ^ 32 \<and>
     (\<forall>n. get_orphan_blocks C n = (n + orphans_per_block L - 1) div orphans_per_block L) \<and>
     (\<forall>ob. length (wr_orphan C ob) = page_size L \<and> ob_entry_count (rd_orphan C (wr_orphan C ob)) = ob_entry_count ob \<and>
        (\<forall>j<orphans_per_block L. ob_ino (rd_orphan C (wr_orphan C ob)) j = ob_ino ob j))"

text \<open>The numbers in an orphan block.\<close>

definition block_inos :: "cp_codec \<Rightarrow> u8 list \<Rightarrow> u32 list" where
  "block_inos C page = (let ob = rd_orphan C page in map (ob_ino ob) [0..<unat (ob_entry_count ob)])"

lemma block_inos_wr:
  assumes "orphan_fmt_ok L C" "unat (ob_entry_count ob) = n" "n \<le> orphans_per_block L"
  shows "block_inos C (wr_orphan C ob) = map (ob_ino ob) [0..<n]"
  using assms by (simp add: block_inos_def orphan_fmt_ok_def Let_def)

text \<open>The writer after the numbers \<open>xs\<close>: full blocks from \<open>start\<close> on and the one being filled.\<close>

definition orphans_put :: "layout \<Rightarrow> cp_codec \<Rightarrow> nat \<Rightarrow> nat \<Rightarrow> pages \<Rightarrow> u32 list \<Rightarrow> orphan_writer \<Rightarrow> bool" where
  "orphans_put L C start end_blk P xs w \<longleftrightarrow> (let q = length xs div orphans_per_block L; r = length xs mod orphans_per_block L in
     o_blk w = start + q + (if r = 0 then 0 else 1) \<and>
     (if r = 0 then o_cur w = None else \<exists>ob. o_cur w = Some (start + q, ob, r) \<and>
        map (ob_ino ob) [0..<r] = map ((!) xs) [q * orphans_per_block L..<q * orphans_per_block L + r]) \<and>
     (\<forall>i<q. block_inos C (o_pages w (start + i)) = map ((!) xs) [i * orphans_per_block L..<i * orphans_per_block L + orphans_per_block L]) \<and>
     (\<forall>a. a < start \<or> start + q \<le> a \<longrightarrow> o_pages w a = P a) \<and> (pages_ok L P \<longrightarrow> pages_ok L (o_pages w)) \<and>
     (o_missing w \<longrightarrow> end_blk < o_blk w))"

lemma map_nth_app: "b \<le> length xs \<Longrightarrow> map ((!) (xs @ ys)) [a..<b] = map ((!) xs) [a..<b]"
  by (simp add: nth_append)

lemma write_orphan_put:
  assumes f: "orphan_fmt_ok L C" and w: "orphans_put L C start end_blk P xs w"
  shows "orphans_put L C start end_blk P (xs @ [x]) (write_orphan L C end_blk nb x w)"
proof -
  define o' where "o' = orphans_per_block L"
  define q where "q = length xs div o'"
  define r where "r = length xs mod o'"
  have o: "0 < o'" "o' < 2 ^ 32" using f by (simp_all add: orphan_fmt_ok_def o'_def)
  have r: "r < o'" using o by (simp add: r_def)
  have len: "length xs = q * o' + r" by (simp add: q_def r_def)
  define w1 where "w1 = (case o_cur w of Some _ \<Rightarrow> w
     | None \<Rightarrow> w\<lparr>o_cur := Some (o_blk w, \<lparr>ob_ino = (\<lambda>_. 0), ob_blk_addr = 0, ob_blk_count = 0, ob_entry_count = 0\<rparr>, 0),
                 o_blk := Suc (o_blk w), o_missing := (o_missing w \<or> end_blk \<le> o_blk w)\<rparr>)"
  obtain ob where w1: "o_cur w1 = Some (start + q, ob, r)" "map (ob_ino ob) [0..<r] = map ((!) xs) [q * o'..<q * o' + r]"
    "o_blk w1 = Suc (start + q)" "o_missing w1 \<longrightarrow> end_blk < o_blk w1" "o_pages w1 = o_pages w"
    using w unfolding orphans_put_def Let_def o'_def [symmetric] q_def [symmetric] r_def [symmetric] w1_def
    by (cases "r = 0") (auto split: option.split)
  define ob2 where "ob2 = ob\<lparr>ob_ino := (ob_ino ob)(r := x)\<rparr>"
  define w2 where "w2 = w1\<lparr>o_cur := Some (start + q, ob2, Suc r)\<rparr>"
  have e: "write_orphan L C end_blk nb x w = (if Suc r = o' then finish_orphan_block C nb w2 else w2)"
    unfolding write_orphan_def w1_def [symmetric] Let_def w1(1) option.case prod.case w2_def ob2_def o'_def by simp
  have inos: "map (ob_ino ob2) [0..<Suc r] = map ((!) (xs @ [x])) [q * o'..<q * o' + Suc r]"
  proof -
    have "map (ob_ino ob2) [0..<r] = map (ob_ino ob) [0..<r]" by (simp add: ob2_def)
    also have "\<dots> = map ((!) (xs @ [x])) [q * o'..<q * o' + r]"
      unfolding w1(2) using map_nth_app [of "q * o' + r" xs "[x]" "q * o'"] by (simp add: len)
    finally show ?thesis using nth_append_length [of xs x "[]"] by (simp add: ob2_def len)
  qed
  have old: "block_inos C (o_pages w (start + i)) = map ((!) (xs @ [x])) [i * o'..<i * o' + o']" if "i < q" for i
  proof -
    have "Suc i * o' \<le> q * o'" using that by (intro mult_le_mono1) simp
    then have "i * o' + o' \<le> length xs" by (simp add: len)
    then show ?thesis
      using w that map_nth_app [of "i * o' + o'" xs "[x]" "i * o'"]
      by (simp add: orphans_put_def Let_def o'_def [symmetric] q_def [symmetric])
  qed
  have frame: "\<forall>a. a < start \<or> start + q \<le> a \<longrightarrow> o_pages w a = P a" "pages_ok L P \<longrightarrow> pages_ok L (o_pages w)"
    using w unfolding orphans_put_def Let_def o'_def [symmetric] q_def [symmetric] by blast+
  show ?thesis
  proof (cases "Suc r = o'")
    case False
    then have dm: "length (xs @ [x]) div o' = q" "length (xs @ [x]) mod o' = Suc r"
      by (simp_all add: q_def r_def div_Suc mod_Suc)
    show ?thesis
      unfolding orphans_put_def Let_def o'_def [symmetric] dm e
      using False inos old frame w1(3-5) by (auto simp: w2_def)
  next
    case True
    then have dm: "length (xs @ [x]) div o' = Suc q" "length (xs @ [x]) mod o' = 0"
      by (simp_all add: q_def r_def div_Suc mod_Suc)
    define ob3 where "ob3 = ob2\<lparr>ob_blk_addr := of_nat (o_index w2), ob_blk_count := of_nat nb, ob_entry_count := of_nat (Suc r)\<rparr>"
    have fin: "finish_orphan_block C nb w2 = w2\<lparr>o_pages := (o_pages w2)(start + q := wr_orphan C ob3), o_index := Suc (o_index w2), o_cur := None\<rparr>"
      unfolding finish_orphan_block_def by (simp add: w2_def ob3_def Let_def)
    have "unat (of_nat (Suc r) :: u32) = Suc r" by (rule unat_of_nat_small) (use True o(2) in simp)
    then have "block_inos C (wr_orphan C ob3) = map (ob_ino ob3) [0..<Suc r]"
      by (intro block_inos_wr [OF f]) (use True in \<open>simp_all add: ob3_def o'_def del: of_nat_Suc\<close>)
    also have "\<dots> = map (ob_ino ob2) [0..<Suc r]" by (simp add: ob3_def)
    finally have new: "block_inos C (wr_orphan C ob3) = map ((!) (xs @ [x])) [q * o'..<q * o' + o']"
      unfolding inos using True by simp
    have "pages_ok L P \<longrightarrow> pages_ok L ((o_pages w)(start + q := wr_orphan C ob3))"
      using frame(2) f by (simp add: pages_ok_def orphan_fmt_ok_def)
    then show ?thesis
      unfolding orphans_put_def Let_def o'_def [symmetric] dm e if_P [OF True] fin
    proof (intro conjI)
      show "\<forall>i<Suc q. block_inos C (o_pages (w2\<lparr>o_pages := (o_pages w2)(start + q := wr_orphan C ob3), o_index := Suc (o_index w2),
          o_cur := None\<rparr>) (start + i)) = map ((!) (xs @ [x])) [i * o'..<i * o' + o']"
        using new old w1(5) by (auto simp: w2_def less_Suc_eq)
    qed (use frame(1) w1(3-5) in \<open>simp_all add: w2_def\<close>)
  qed
qed

lemma concat_blocks:
  "concat (map (\<lambda>i. map f [i * b..<i * b + b]) [0..<q]) = map f [0..<q * b]"
proof (induction q)
  case (Suc q)
  have "[0..<Suc q * b] = [0..<q * b] @ [q * b..<q * b + b]" using upt_add_eq_append [of 0 "q * b" b] by (simp add: add.commute)
  then show ?case using Suc by simp
qed simp

lemma write_orphans_spec:
  assumes f: "orphan_fmt_ok L C" and m: "im_ino_num (m ORPHAN_INO) = of_nat (length xs)" "ino_list (m ORPHAN_INO) = xs" "length xs < 2 ^ 32"
    and r: "(t, Q) = write_orphan_inodes L C start m (s, P)"
  shows "t = s" "concat (map (\<lambda>i. block_inos C (Q (start + i))) [0..<get_orphan_blocks C (length xs)]) = xs"
    "a < start \<or> start + get_orphan_blocks C (length xs) \<le> a \<Longrightarrow> Q a = P a" "pages_ok L P \<Longrightarrow> pages_ok L Q"
proof -
  define o' where "o' = orphans_per_block L"
  define nb where "nb = get_orphan_blocks C (length xs)"
  define q where "q = length xs div o'"
  define r' where "r' = length xs mod o'"
  have o: "0 < o'" "o' < 2 ^ 32" using f by (simp_all add: orphan_fmt_ok_def o'_def)
  have r': "r' < o'" using o by (simp add: r'_def)
  have len: "length xs = q * o' + r'" by (simp add: q_def r'_def)
  have nb: "nb = q + (if r' = 0 then 0 else 1)"
  proof -
    have "nb = (length xs + o' - 1) div o'" using f by (simp add: nb_def orphan_fmt_ok_def o'_def)
    also have "\<dots> = q + (if r' = 0 then 0 else 1)"
      using r' o(1) by (intro div_nat_eqI) (auto simp: len algebra_simps)
    finally show ?thesis .
  qed
  define w0 where "w0 = \<lparr>o_cur = None, o_blk = start, o_index = 1, o_missing = False, o_pages = P\<rparr>"
  define w where "w = fold (write_orphan L C (start + nb) nb) xs w0"
  have "orphans_put L C start (start + nb) P [] w0" by (simp add: orphans_put_def w0_def)
  then have "orphans_put L C start (start + nb) P ([] @ ys) (fold (write_orphan L C (start + nb) nb) ys w0)" for ys
    by (induction ys rule: rev_induct) (use write_orphan_put [OF f] in \<open>auto\<close>)
  then have pw: "orphans_put L C start (start + nb) P xs w" by (simp add: w_def)
  have "unat (im_ino_num (m ORPHAN_INO)) = length xs" unfolding m(1) by (rule unat_of_nat_small) (use m(3) in simp)
  then have tQ: "t = f2fs_bug_on (o_missing (finish_orphan_block C nb w)) s" "Q = o_pages (finish_orphan_block C nb w)"
    using r unfolding write_orphan_inodes_def by (simp_all add: Let_def m(2) nb_def [symmetric] w0_def w_def)
  note pw' = pw [unfolded orphans_put_def Let_def o'_def [symmetric] q_def [symmetric] r'_def [symmetric]]
  have W1: "o_missing w \<longrightarrow> start + nb < o_blk w" using pw' by (elim conjE)
  have W2: "\<forall>i<q. block_inos C (o_pages w (start + i)) = map ((!) xs) [i * o'..<i * o' + o']" using pw' by (elim conjE)
  have W3: "\<forall>a. a < start \<or> start + q \<le> a \<longrightarrow> o_pages w a = P a" using pw' by (elim conjE)
  have W4: "pages_ok L P \<longrightarrow> pages_ok L (o_pages w)" using pw' by (elim conjE)
  have W5: "if r' = 0 then o_cur w = None else \<exists>ob. o_cur w = Some (start + q, ob, r') \<and>
      map (ob_ino ob) [0..<r'] = map ((!) xs) [q * o'..<q * o' + r']" using pw' by (elim conjE)
  have W0: "o_blk w = start + nb" unfolding nb using conjunct1 [OF pw'] by simp
  have "o_missing (finish_orphan_block C nb w) = o_missing w"
    by (simp add: finish_orphan_block_def Let_def split: option.split)
  then show "t = s" using W1 W0 by (simp add: tQ f2fs_bug_on_def)
  have full: "concat (map (\<lambda>i. block_inos C (R (start + i))) [0..<q]) = map ((!) xs) [0..<q * o']"
    if "\<forall>i<q. R (start + i) = o_pages w (start + i)" for R
  proof -
    have "map (\<lambda>i. block_inos C (R (start + i))) [0..<q] = map (\<lambda>i. map ((!) xs) [i * o'..<i * o' + o']) [0..<q]"
      by (rule map_cong [OF refl]) (use W2 that in simp)
    then show ?thesis by (simp only: concat_blocks)
  qed
  have "concat (map (\<lambda>i. block_inos C (Q (start + i))) [0..<nb]) = xs \<and> (\<forall>a. a < start \<or> start + nb \<le> a \<longrightarrow> Q a = P a) \<and>
    (pages_ok L P \<longrightarrow> pages_ok L Q)"
  proof (cases "r' = 0")
    case True
    then have "Q = o_pages w" using W5 by (simp add: tQ(2) finish_orphan_block_def)
    then show ?thesis using full [of Q] W3 W4 True len map_nth [of xs] by (simp add: nb)
  next
    case False
    then obtain ob where ob: "o_cur w = Some (start + q, ob, r')" "map (ob_ino ob) [0..<r'] = map ((!) xs) [q * o'..<q * o' + r']"
      using W5 by auto
    define ob3 where "ob3 = ob\<lparr>ob_blk_addr := of_nat (o_index w), ob_blk_count := of_nat nb, ob_entry_count := of_nat r'\<rparr>"
    have Q: "Q = (o_pages w)(start + q := wr_orphan C ob3)"
      unfolding tQ(2) finish_orphan_block_def by (simp add: ob(1) ob3_def Let_def)
    have "unat (of_nat r' :: u32) = r'" by (rule unat_of_nat_small) (use r' o(2) in simp)
    then have "block_inos C (wr_orphan C ob3) = map (ob_ino ob3) [0..<r']"
      by (intro block_inos_wr [OF f]) (use r' in \<open>simp_all add: ob3_def o'_def\<close>)
    then have b: "block_inos C (Q (start + q)) = map ((!) xs) [q * o'..<length xs]" using ob(2) by (simp add: Q ob3_def len)
    have "concat (map (\<lambda>i. block_inos C (Q (start + i))) [0..<nb]) = map ((!) xs) [0..<q * o'] @ map ((!) xs) [q * o'..<length xs]"
      using full [of Q] b False by (simp add: nb Q)
    also have "\<dots> = map ((!) xs) [0..<length xs]"
      using upt_add_eq_append [of 0 "q * o'" r'] by (simp add: len map_append [symmetric] del: map_append)
    also have "\<dots> = xs" by (rule map_nth)
    finally show ?thesis using W3 W4 False f by (simp add: nb Q pages_ok_def orphan_fmt_ok_def)
  qed
  then show "concat (map (\<lambda>i. block_inos C (Q (start + i))) [0..<get_orphan_blocks C (length xs)]) = xs"
    "a < start \<or> start + get_orphan_blocks C (length xs) \<le> a \<Longrightarrow> Q a = P a" "pages_ok L P \<Longrightarrow> pages_ok L Q"
    unfolding nb_def by blast+
qed

section \<open>What a pack holds\<close>

lemma normal_at:
  "write_normal_summaries C a ty s P q = (if a \<le> q \<and> q < a + 3 then wr_sum C (sum_blk (cursegs s (q - a + ty))) else P q)"
proof -
  have "[ty..<ty + 3] = [ty, ty + 1, ty + 2]" by (simp add: numeral_eq_Suc upt_rec)
  then have e: "write_normal_summaries C a ty s P = P(a := wr_sum C (sum_blk (cursegs s ty)),
      a + 1 := wr_sum C (sum_blk (cursegs s (ty + 1))), a + 2 := wr_sum C (sum_blk (cursegs s (ty + 2))))"
    by (simp add: write_normal_summaries_def)
  consider "q = a" | "q = a + 1" | "q = a + 2" | "q < a" | "a + 3 \<le> q" by linarith
  then show ?thesis by cases (simp_all add: e add.commute)
qed

lemma write_data_frame:
  assumes "logs_in_ckpt g s" "compact_ok L" "n = npages_for_summary_flush L g False s"
    and "is_set_ckpt_flags (ckpt s) (cp_compact_sum_flag L) \<longleftrightarrow> n < 3" "q < a \<or> a + n \<le> q"
  shows "write_data_summaries L g C a s P q = P q"
proof (cases "n < 3")
  case False
  moreover have "n \<le> 3" by (simp add: assms(3) npages_for_summary_flush_def Let_def)
  ultimately show ?thesis using assms(4,5) by (auto simp: write_data_summaries_def normal_at)
next
  case True
  moreover have "n \<noteq> 0" by (simp add: assms(3) npages_for_summary_flush_def Let_def)
  ultimately obtain k where k: "n = Suc k" "k < 2" by (cases n) auto
  have fp: "pos_ok L (first_pos L a)" "r_page (first_pos L a) = a" "r_off (first_pos L a) = 2 * sum_journal_size L"
    using assms(2) by (simp_all add: pos_ok_def first_pos_def compact_ok_def)
  have "q < r_page (first_pos L a) \<or> r_page (first_pos L a) + k < q" using assms(5) k by (auto simp: fp)
  moreover have "length (compact_entries g s) \<le> (sum_room L - r_off (first_pos L a)) div summary_size L + k * (sum_room L div summary_size L)"
    using npages_room [OF assms(1) _ k(2)] assms(3) k(1) by (simp add: fp)
  ultimately have "put_entries L C (compact_entries g s) (first_pos L a) (P(a := journal_page L C s (P a))) q = (P(a := journal_page L C s (P a))) q"
    by (intro put_entries_blocks [OF assms(2) fp(1)])
  then show ?thesis
    using assms(4,5) True k(1) by (auto simp: write_data_summaries_def write_compacted_eq [OF assms(1)])
qed

lemma fold_payload:
  "fold (\<lambda>i P. P(b + i := f i)) [1..<1 + n] P = (\<lambda>a. if b + 1 \<le> a \<and> a < b + 1 + n then f (a - b) else P a)"
proof (induction n)
  case (Suc n)
  have "[1..<1 + Suc n] = [1..<1 + n] @ [1 + n]" by simp
  then show ?case by (simp only: fold_append comp_def fold_simps id_apply Suc) (auto simp: fun_eq_iff)
qed (auto simp: fun_eq_iff)

text \<open>The state a pack is written from: \<open>s\<close> already has the new checkpoint.\<close>

definition pack_ready :: "layout \<Rightarrow> geom \<Rightarrow> cp_codec \<Rightarrow> cp_reason \<Rightarrow> ino_mgmt \<Rightarrow> sb_info \<Rightarrow> bool" where
  "pack_ready L g C reason m s \<longleftrightarrow> (let cp = ckpt s; xs = ino_list (m ORPHAN_INO); n = npages_for_summary_flush L g False s in
     f2fs_cp_packs L = 2 \<and> compact_ok L \<and> orphan_fmt_ok L C \<and> logs_in_ckpt g s \<and> codec_ok L g (cp_sums C) s \<and>
     im_ino_num (m ORPHAN_INO) = of_nat (length xs) \<and> length xs < 2 ^ 32 \<and>
     length (cp_block L C cp) = page_size L \<and> (\<forall>i. length (wr_ckpt C cp i) = page_size L) \<and>
     (is_set_ckpt_flags cp (cp_compact_sum_flag L) \<longleftrightarrow> n < 3) \<and>
     (exist_node_summaries L cp \<longleftrightarrow> remain_node_summaries reason) \<and>
     unat (start_sum_block g cp) = unat (start_cp_addr g cp) + 1 + unat (cp_payload g) + get_orphan_blocks C (length xs))"

definition pack_len :: "geom \<Rightarrow> cp_codec \<Rightarrow> cp_reason \<Rightarrow> nat \<Rightarrow> ino_mgmt \<Rightarrow> nat" where
  "pack_len g C reason d m = 2 + unat (cp_payload g) + get_orphan_blocks C (length (ino_list (m ORPHAN_INO))) + d +
     (if remain_node_summaries reason then 3 else 0)"

lemma write_pack_spec:
  assumes rd: "pack_ready L g C reason m s" and P: "pages_ok L P"
    and d: "d = npages_for_summary_flush L g False s" and ob: "ob = get_orphan_blocks C (length (ino_list (m ORPHAN_INO)))"
    and r: "(t, Q) = write_pack L g C reason d ob m (s, P)"
  defines "a \<equiv> unat (start_cp_addr g (ckpt s))" and "pl \<equiv> unat (cp_payload g)" and "plen \<equiv> pack_len g C reason d m"
  shows "t = s" "Q a = cp_block L C (ckpt s)" "Q (a + plen - 1) = cp_block L C (ckpt s)"
    "0 < i \<Longrightarrow> i \<le> pl \<Longrightarrow> Q (a + i) = wr_ckpt C (ckpt s) i"
    "concat (map (\<lambda>i. block_inos C (Q (a + 1 + pl + i))) [0..<ob]) = ino_list (m ORPHAN_INO)"
    "\<exists>P2. pages_ok L P2 \<and> pack_sums L g (cp_sums C) s d P2 Q"
    "q < a \<or> a + plen \<le> q \<Longrightarrow> Q q = P q"
proof -
  define cp where "cp = ckpt s"
  define xs where "xs = ino_list (m ORPHAN_INO)"
  note rd' = rd [unfolded pack_ready_def Let_def, folded cp_def xs_def d]
  have k: "compact_ok L" "orphan_fmt_ok L C" "logs_in_ckpt g s" "im_ino_num (m ORPHAN_INO) = of_nat (length xs)" "length xs < 2 ^ 32"
    "length (cp_block L C cp) = page_size L" "\<forall>i. length (wr_ckpt C cp i) = page_size L"
    "is_set_ckpt_flags cp (cp_compact_sum_flag L) \<longleftrightarrow> d < 3" "exist_node_summaries L cp \<longleftrightarrow> remain_node_summaries reason"
    "unat (start_sum_block g cp) = a + 1 + pl + ob"
    using rd' by (simp_all add: a_def pl_def ob cp_def xs_def)
  have ob': "ob = get_orphan_blocks C (length xs)" by (simp add: ob xs_def)
  have n0: "im_ino_num (m ORPHAN_INO) \<noteq> 0 \<longleftrightarrow> xs \<noteq> []"
  proof -
    have "unat (of_nat (length xs) :: u64) = length xs" by (rule unat_of_nat_small) (use k(5) in simp)
    then show ?thesis using k(4) by auto
  qed
  define P1 where "P1 = fold (\<lambda>i P. P(a + i := wr_ckpt C cp i)) [1..<1 + pl] (P(a := cp_block L C cp))"
  have P1: "P1 = (\<lambda>x. if a + 1 \<le> x \<and> x < a + 1 + pl then wr_ckpt C cp (x - a) else (P(a := cp_block L C cp)) x)"
    unfolding P1_def by (rule fold_payload)
  have P1ok: "pages_ok L P1" using P k(6,7) by (simp add: P1 pages_ok_def)
  define r2 where "r2 = (if im_ino_num (m ORPHAN_INO) \<noteq> 0
              then let (s, P) = write_orphan_inodes L C (a + 1 + pl) m (s, P1) in (s, P, a + 1 + pl + ob)
              else (s, P1, a + 1 + pl))"
  have "\<exists>P2. r2 = (s, P2, a + 1 + pl + ob) \<and> pages_ok L P2 \<and> (\<forall>x. x < a + 1 + pl \<or> a + 1 + pl + ob \<le> x \<longrightarrow> P2 x = P1 x) \<and>
      concat (map (\<lambda>i. block_inos C (P2 (a + 1 + pl + i))) [0..<ob]) = xs"
  proof (cases "xs = []")
    case True
    then have "ob = 0" using k(2) by (simp add: ob' orphan_fmt_ok_def)
    then show ?thesis using True n0 P1ok by (simp add: r2_def)
  next
    case False
    obtain t2 P2 where o2: "(t2, P2) = write_orphan_inodes L C (a + 1 + pl) m (s, P1)" by (metis prod.collapse)
    note sp = write_orphans_spec [OF k(2,4) xs_def [symmetric] k(5) o2, folded ob']
    have "r2 = (s, P2, a + 1 + pl + ob)"
      unfolding r2_def o2 [symmetric] Let_def prod.case using False n0 sp(1) by simp
    then show ?thesis using sp P1ok by blast
  qed
  then obtain P2 where P2: "r2 = (s, P2, a + 1 + pl + ob)" "pages_ok L P2" "\<forall>x. x < a + 1 + pl \<or> a + 1 + pl + ob \<le> x \<longrightarrow> P2 x = P1 x"
      "concat (map (\<lambda>i. block_inos C (P2 (a + 1 + pl + i))) [0..<ob]) = xs" by blast
  define P3 where "P3 = write_data_summaries L g (cp_sums C) (a + 1 + pl + ob) s P2"
  have P3: "P3 x = P2 x" if "x < a + 1 + pl + ob \<or> a + 1 + pl + ob + d \<le> x" for x
    unfolding P3_def by (rule write_data_frame [OF k(3,1) d]) (use k(8) that in \<open>simp_all add: cp_def\<close>)
  define e where "e = (if remain_node_summaries reason then 3 else 0 :: nat)"
  define P4 where "P4 = (if remain_node_summaries reason then write_node_summaries (cp_sums C) (a + 1 + pl + ob + d) s P3 else P3)"
  have P4: "P4 x = (if a + 1 + pl + ob + d \<le> x \<and> x < a + 1 + pl + ob + d + e
      then wr_sum (cp_sums C) (sum_blk (cursegs s (x - (a + 1 + pl + ob + d) + 3))) else P3 x)" for x
    by (cases "remain_node_summaries reason") (auto simp: P4_def e_def write_node_summaries_def normal_at)
  have plen: "a + plen - 1 = a + 1 + pl + ob + d + e" by (simp add: plen_def pack_len_def pl_def ob e_def)
  have "write_pack L g C reason d ob m (s, P) = (s, P4(a + 1 + pl + ob + d + e := cp_block L C cp))"
    unfolding write_pack_def prod.case Let_def cp_def [symmetric] a_def [unfolded cp_def [symmetric], symmetric] pl_def [symmetric]
      P1_def [symmetric] r2_def [unfolded Let_def, symmetric] P2(1) P3_def [symmetric]
    by (simp add: P4_def e_def)
  then have tQ: "t = s" "Q = P4(a + 1 + pl + ob + d + e := cp_block L C cp)" using r by simp_all
  then show "t = s" by simp
  have low: "Q x = P2 x" if "x < a + 1 + pl + ob" for x using that by (simp add: tQ(2) P4 P3)
  show "Q a = cp_block L C (ckpt s)" using low [of a] P2(3) by (simp add: P1 cp_def)
  show "Q (a + plen - 1) = cp_block L C (ckpt s)" unfolding plen by (simp add: tQ(2) cp_def)
  show "0 < i \<Longrightarrow> i \<le> pl \<Longrightarrow> Q (a + i) = wr_ckpt C (ckpt s) i" using low [of "a + i"] P2(3) by (simp add: P1 cp_def)
  have "map (\<lambda>i. block_inos C (Q (a + 1 + pl + i))) [0..<ob] = map (\<lambda>i. block_inos C (P2 (a + 1 + pl + i))) [0..<ob]"
    using low by (intro map_cong) auto
  then show "concat (map (\<lambda>i. block_inos C (Q (a + 1 + pl + i))) [0..<ob]) = ino_list (m ORPHAN_INO)"
    using P2(4) by (simp only: xs_def)
  have "pack_sums L g (cp_sums C) s d P2 Q"
  proof -
    have "Q x = P3 x" if "x < a + 1 + pl + ob + d" for x using that by (simp add: tQ(2) P4)
    moreover have "Q (a + 1 + pl + ob + d + i) = wr_sum (cp_sums C) (sum_blk (cursegs s (i + 3)))" if "i < 3" "remain_node_summaries reason" for i
      using that by (simp add: tQ(2) P4 e_def)
    ultimately show ?thesis using k(9,10) by (simp add: pack_sums_def Let_def cp_def [symmetric] P3_def)
  qed
  then show "\<exists>P2. pages_ok L P2 \<and> pack_sums L g (cp_sums C) s d P2 Q" using P2(2) by blast
  show "Q q = P q" if "q < a \<or> a + plen \<le> q"
  proof -
    have n: "a + plen = Suc (a + 1 + pl + ob + d + e)" using plen by (simp add: plen_def pack_len_def)
    then have "Q q = P3 q" using that by (auto simp: tQ(2) P4)
    also have "\<dots> = P2 q" using that n by (intro P3) auto
    also have "\<dots> = P1 q" using that n P2(3) by auto
    finally show ?thesis using that n by (auto simp: P1)
  qed
qed

section \<open>The new checkpoint\<close>

lemma is_set_set: "is_set_ckpt_flags (set_ckpt_flags f cp) f' \<longleftrightarrow> is_set_ckpt_flags cp f' \<or> f AND f' \<noteq> 0"
  by (auto simp: is_set_ckpt_flags_def set_ckpt_flags_def word_eq_0_bits bit_and_iff bit_or_iff)

lemma is_set_clear: "f AND f' = 0 \<Longrightarrow> is_set_ckpt_flags (clear_ckpt_flags f cp) f' \<longleftrightarrow> is_set_ckpt_flags cp f'"
  "\<not> is_set_ckpt_flags (clear_ckpt_flags f cp) f"
  by (auto simp: is_set_ckpt_flags_def clear_ckpt_flags_def word_eq_0_bits bit_and_iff bit_not_iff)
    (use bit_imp_le_length [of "ckpt_flags cp"] in \<open>auto\<close>)

lemma cp_flags_apart:
  assumes "cp_flags_ok L" "i < 6" "j < 6"
  shows "cp_flags L ! i AND cp_flags L ! j \<noteq> 0 \<longleftrightarrow> i = j"
  using assms by (simp add: cp_flags_ok_def)

lemma flag_if_at:
  assumes "cp_flags_ok L" "i < 6" "j < 6"
  shows "is_set_ckpt_flags (flag_if b (cp_flags L ! i) cp) (cp_flags L ! j) \<longleftrightarrow>
    (if i = j then b else is_set_ckpt_flags cp (cp_flags L ! j))"
  using cp_flags_apart [OF assms] is_set_set [of "cp_flags L ! i" cp "cp_flags L ! j"]
    is_set_clear(1) [of "cp_flags L ! i" "cp_flags L ! j" cp] is_set_clear(2) [of "cp_flags L ! i" cp]
  by (auto simp: flag_if_def)

lemma cp_flags_nth: "cp_umount_flag L = cp_flags L ! 0" "cp_orphan_present_flag L = cp_flags L ! 1" "cp_compact_sum_flag L = cp_flags L ! 2"
  "cp_error_flag L = cp_flags L ! 3" "cp_fsck_flag L = cp_flags L ! 4" "cp_fastboot_flag L = cp_flags L ! 5"
  by (simp_all add: cp_flags_def)

lemma cp_set_flags_at:
  assumes "cp_flags_ok L"
  shows "is_set_ckpt_flags (cp_set_flags L reason compact orphans s cp) (cp_compact_sum_flag L) \<longleftrightarrow> compact"
    "is_set_ckpt_flags (cp_set_flags L reason compact orphans s cp) (cp_umount_flag L) \<longleftrightarrow> reason = CP_UMOUNT"
    "is_set_ckpt_flags (cp_set_flags L reason compact orphans s cp) (cp_fastboot_flag L) \<longleftrightarrow> reason = CP_FASTBOOT"
    "is_set_ckpt_flags (cp_set_flags L reason compact orphans s cp) (cp_orphan_present_flag L) \<longleftrightarrow> orphans"
    "is_set_ckpt_flags (cp_set_flags L reason compact orphans s cp) (cp_error_flag L) \<longleftrightarrow> is_set_ckpt_flags cp (cp_error_flag L)"
  using cp_flags_apart [OF assms, of 4] unfolding cp_set_flags_def Let_def cp_flags_nth
  by (simp_all add: is_set_set flag_if_at [OF assms])

lemma flags_frame [simp]:
  "checkpoint_ver (flag_if b f cp) = checkpoint_ver cp" "cp_pack_start_sum (flag_if b f cp) = cp_pack_start_sum cp"
  "cp_pack_total_block_count (flag_if b f cp) = cp_pack_total_block_count cp" "ck_alloc_type (flag_if b f cp) = ck_alloc_type cp"
  "cur_data_segno (flag_if b f cp) = cur_data_segno cp" "cur_data_blkoff (flag_if b f cp) = cur_data_blkoff cp"
  "cur_node_segno (flag_if b f cp) = cur_node_segno cp" "cur_node_blkoff (flag_if b f cp) = cur_node_blkoff cp"
  "ck_valid_block_count (flag_if b f cp) = ck_valid_block_count cp" "ck_valid_node_count (flag_if b f cp) = ck_valid_node_count cp"
  "ck_valid_inode_count (flag_if b f cp) = ck_valid_inode_count cp" "checksum_offset (flag_if b f cp) = checksum_offset cp"
  by (simp_all add: flag_if_def set_ckpt_flags_def clear_ckpt_flags_def)

lemma set_flags_frame [simp]:
  fixes L reason c b s cp
  defines "cp' \<equiv> cp_set_flags L reason c b s cp"
  shows "checkpoint_ver cp' = checkpoint_ver cp" "cp_pack_start_sum cp' = cp_pack_start_sum cp"
  "cp_pack_total_block_count cp' = cp_pack_total_block_count cp" "ck_alloc_type cp' = ck_alloc_type cp"
  "cur_data_segno cp' = cur_data_segno cp" "cur_data_blkoff cp' = cur_data_blkoff cp"
  "cur_node_segno cp' = cur_node_segno cp" "cur_node_blkoff cp' = cur_node_blkoff cp"
  "ck_valid_block_count cp' = ck_valid_block_count cp" "ck_valid_node_count cp' = ck_valid_node_count cp"
  "ck_valid_inode_count cp' = ck_valid_inode_count cp" "checksum_offset cp' = checksum_offset cp"
  unfolding cp'_def by (simp_all add: cp_set_flags_def set_ckpt_flags_def Let_def)

text \<open>The state \<open>do_checkpoint\<close> writes the pack from, when the first wait has no error.\<close>

definition synced :: "cp_io \<Rightarrow> sb_info \<Rightarrow> sb_info" where
  "synced io s = (let s = discard_next_dnode (discard_fails io) s
     in if get_pages s F2FS_DIRTY_META \<noteq> 0 then s\<lparr>nr_pages := (nr_pages s)(count_no F2FS_DIRTY_META := 0)\<rparr> else s)"

definition new_ckpt :: "layout \<Rightarrow> geom \<Rightarrow> cp_codec \<Rightarrow> cp_io \<Rightarrow> cp_reason \<Rightarrow> cp_world \<Rightarrow> f2fs_checkpoint" where
  "new_ckpt L g C io reason w =
     (let s = synced io (w_sb w);
          orphan_num = unat (im_ino_num (w_im w ORPHAN_INO));
          s = s\<lparr>ckpt := fill_checkpoint s (next_free_nid (w_nm w) (next_scan_nid (w_nm w))) (ckpt s)\<rparr>;
          d = npages_for_summary_flush L g False s;
          cp = cp_set_flags L reason (d < 3) (orphan_num \<noteq> 0) s (cp_counts L g reason d (get_orphan_blocks C orphan_num) (ckpt s))
      in cp\<lparr>ck_sit_bitmap := sit_bitmap (sit_i s), ck_nat_bitmap := nat_bitmap (w_nm w)\<rparr>)"

definition pack_state :: "layout \<Rightarrow> geom \<Rightarrow> cp_codec \<Rightarrow> cp_io \<Rightarrow> cp_reason \<Rightarrow> cp_world \<Rightarrow> sb_info" where
  "pack_state L g C io reason w = (synced io (w_sb w))\<lparr>ckpt := new_ckpt L g C io reason w\<rparr>"

lemma synced_frame [simp]:
  "ckpt (synced io s) = ckpt s" "cursegs (synced io s) = cursegs s" "sit_i (synced io s) = sit_i s" "free_i (synced io s) = free_i s"
  "total_valid_block_count (synced io s) = total_valid_block_count s" "total_valid_node_count (synced io s) = total_valid_node_count s"
  "total_valid_inode_count (synced io s) = total_valid_inode_count s" "now (synced io s) = now s" "sit_pages (synced io s) = sit_pages s"
  by (simp_all add: synced_def discard_next_dnode_def inc_page_count_def set_sbi_flag_def Let_def)

lemma new_ckpt_fields:
  fixes L g C io reason w
  defines "cp \<equiv> new_ckpt L g C io reason w" and "s \<equiv> pack_state L g C io reason w"
  shows "ckpt s = cp" "cursegs s = cursegs (w_sb w)" "checkpoint_ver cp = checkpoint_ver (ckpt (w_sb w))"
    "checksum_offset cp = checksum_offset (ckpt (w_sb w))"
    "i < 6 \<Longrightarrow> ck_alloc_type cp i = alloc_type (cursegs (w_sb w) i)"
    "i < 3 \<Longrightarrow> cur_data_segno cp i = cs_segno (cursegs (w_sb w) i) \<and> cur_data_blkoff cp i = next_blkoff (cursegs (w_sb w) i) \<and>
       cur_node_segno cp i = cs_segno (cursegs (w_sb w) (i + 3)) \<and> cur_node_blkoff cp i = next_blkoff (cursegs (w_sb w) (i + 3))"
    "ck_valid_block_count cp = ucast (total_valid_block_count (w_sb w))" "ck_valid_node_count cp = total_valid_node_count (w_sb w)"
    "ck_valid_inode_count cp = total_valid_inode_count (w_sb w)" "ck_sit_bitmap cp = sit_bitmap (sit_i (w_sb w))"
    "ck_nat_bitmap cp = nat_bitmap (w_nm w)" "sit_i s = sit_i (w_sb w)"
  unfolding cp_def s_def by (simp_all add: pack_state_def new_ckpt_def Let_def cp_counts_def fill_checkpoint_def)

lemma npages_cong:
  assumes "\<And>i. i < 3 \<Longrightarrow> sum_entries_needed g False t i = sum_entries_needed g False s i"
  shows "npages_for_summary_flush L g False t = npages_for_summary_flush L g False s"
proof -
  have "map (sum_entries_needed g False t) [0..<Suc 2] = map (sum_entries_needed g False s) [0..<Suc 2]"
    by (rule map_cong [OF refl]) (use assms in simp)
  then show ?thesis unfolding npages_for_summary_flush_def by (simp only:)
qed

lemma new_ckpt_counts:
  fixes L g C io reason w
  defines "cp \<equiv> new_ckpt L g C io reason w" and "d \<equiv> npages_for_summary_flush L g False (pack_state L g C io reason w)"
    and "ob \<equiv> get_orphan_blocks C (unat (im_ino_num (w_im w ORPHAN_INO)))"
  shows "cp_pack_start_sum cp = of_nat (1 + unat (cp_payload g) + ob)"
    "cp_pack_total_block_count cp = of_nat (f2fs_cp_packs L + unat (cp_payload g) + d + ob + (if remain_node_summaries reason then 3 else 0))"
    "cp_flags_ok L \<Longrightarrow> is_set_ckpt_flags cp (cp_compact_sum_flag L) \<longleftrightarrow> d < 3"
    "cp_flags_ok L \<Longrightarrow> exist_node_summaries L cp \<longleftrightarrow> remain_node_summaries reason"
    "cp_flags_ok L \<Longrightarrow> is_set_ckpt_flags cp (cp_orphan_present_flag L) \<longleftrightarrow> im_ino_num (w_im w ORPHAN_INO) \<noteq> 0"
    "cp_flags_ok L \<Longrightarrow> is_set_ckpt_flags cp (cp_error_flag L) \<longleftrightarrow> is_set_ckpt_flags (ckpt (w_sb w)) (cp_error_flag L)"
proof -
  define s1 where "s1 = (synced io (w_sb w))\<lparr>ckpt := fill_checkpoint (synced io (w_sb w)) (next_free_nid (w_nm w) (next_scan_nid (w_nm w))) (ckpt (w_sb w))\<rparr>"
  have d: "npages_for_summary_flush L g False s1 = d"
    unfolding d_def
    by (rule npages_cong) (simp add: sum_entries_needed_def pack_state_def s1_def new_ckpt_def Let_def cp_counts_def fill_checkpoint_def)
  have e: "cp = (cp_set_flags L reason (d < 3) (unat (im_ino_num (w_im w ORPHAN_INO)) \<noteq> 0) s1 (cp_counts L g reason d ob (ckpt s1)))
      \<lparr>ck_sit_bitmap := sit_bitmap (sit_i s1), ck_nat_bitmap := nat_bitmap (w_nm w)\<rparr>"
    unfolding cp_def new_ckpt_def Let_def synced_frame(1) s1_def [symmetric] d ob_def by (rule refl)
  have f: "is_set_ckpt_flags (c\<lparr>ck_sit_bitmap := x, ck_nat_bitmap := y\<rparr>) = is_set_ckpt_flags c"
    "is_set_ckpt_flags (cp_counts L g reason d ob c) = is_set_ckpt_flags c"
    "is_set_ckpt_flags (fill_checkpoint s nid c) = is_set_ckpt_flags c" for c x y s nid
    by (simp_all add: is_set_ckpt_flags_def [abs_def] cp_counts_def fill_checkpoint_def)
  show "cp_pack_start_sum cp = of_nat (1 + unat (cp_payload g) + ob)"
    "cp_pack_total_block_count cp = of_nat (f2fs_cp_packs L + unat (cp_payload g) + d + ob + (if remain_node_summaries reason then 3 else 0))"
    unfolding e by (simp_all add: cp_counts_def)
  assume ok: "cp_flags_ok L"
  show "is_set_ckpt_flags cp (cp_compact_sum_flag L) \<longleftrightarrow> d < 3" unfolding e f by (rule cp_set_flags_at [OF ok])
  show "exist_node_summaries L cp \<longleftrightarrow> remain_node_summaries reason"
    unfolding exist_node_summaries_def e f cp_set_flags_at [OF ok] remain_node_summaries_def by (rule refl)
  show "is_set_ckpt_flags cp (cp_orphan_present_flag L) \<longleftrightarrow> im_ino_num (w_im w ORPHAN_INO) \<noteq> 0"
    unfolding e f cp_set_flags_at [OF ok] by (simp add: unat_eq_zero)
  show "is_set_ckpt_flags cp (cp_error_flag L) \<longleftrightarrow> is_set_ckpt_flags (ckpt (w_sb w)) (cp_error_flag L)"
    unfolding e f cp_set_flags_at(5) [OF ok] by (simp add: s1_def f)
qed

text \<open>
  A mounted volume: the checkpoint area has room for both packs, the orphans are within the limit
  with no slot reserved (checkpoints run with all operations blocked), and no write has failed.
\<close>

definition cp_area_ok :: "layout \<Rightarrow> geom \<Rightarrow> bool" where
  "cp_area_ok L g \<longleftrightarrow> f2fs_cp_packs L = 2 \<and> compact_ok L \<and> cp_flags_ok L \<and> blocks_per_seg g = 2 ^ log_blocks_per_seg g \<and>
     unat (cp_blkaddr g) + 2 * blocks_per_seg g < 2 ^ 32 \<and> 8 + unat (cp_payload g) < blocks_per_seg g \<and>
     blocks_per_seg g * orphans_per_block L < 2 ^ 32"

definition cp_ready :: "layout \<Rightarrow> geom \<Rightarrow> cp_codec \<Rightarrow> cp_world \<Rightarrow> bool" where
  "cp_ready L g C w \<longleftrightarrow> cp_area_ok L g \<and> orphan_fmt_ok L C \<and> pages_ok L (w_meta w) \<and>
     orphans_ok (snd (init_ino_entry_info L g)) (w_im w, 0) \<and> \<not> f2fs_cp_error L (w_sb w) \<and>
     (\<forall>i<6. next_blkoff (cursegs (w_sb w) i) \<le> blocks_per_seg g \<and> length (sum_entries (sum_blk (cursegs (w_sb w) i))) = blocks_per_seg g)"

lemma cp_areaD:
  assumes "cp_area_ok L g"
  shows "f2fs_cp_packs L = 2" "compact_ok L" "cp_flags_ok L" "blocks_per_seg g = 2 ^ log_blocks_per_seg g"
    "unat (cp_blkaddr g) + 2 * blocks_per_seg g < 2 ^ 32" "8 + unat (cp_payload g) < blocks_per_seg g"
    "blocks_per_seg g * orphans_per_block L < 2 ^ 32"
  using assms unfolding cp_area_ok_def by blast+

lemma cp_readyD:
  assumes "cp_ready L g C w"
  shows "cp_area_ok L g" "orphan_fmt_ok L C" "pages_ok L (w_meta w)" "orphans_ok (snd (init_ino_entry_info L g)) (w_im w, 0)"
    "\<not> f2fs_cp_error L (w_sb w)"
    "i < 6 \<Longrightarrow> next_blkoff (cursegs (w_sb w) i) \<le> blocks_per_seg g \<and> length (sum_entries (sum_blk (cursegs (w_sb w) i))) = blocks_per_seg g"
  using assms unfolding cp_ready_def by blast+

text \<open>The formats keep what is written: the summaries of the logs and the checkpoint \<open>cp\<close>.\<close>

definition logs_enc :: "layout \<Rightarrow> sum_codec \<Rightarrow> sb_info \<Rightarrow> bool" where
  "logs_enc L C s \<longleftrightarrow> (\<forall>i<3. entries_enc L C (sum_entries (sum_blk (cursegs s i)))) \<and>
     (let nj = nat_j (sum_blk (cursegs s 0)); sj = sit_j (sum_blk (cursegs s 2))
      in length (wr_natj C nj) = sum_journal_size L \<and> rd_natj C (wr_natj C nj) = nj \<and>
         length (wr_sitj C sj) = sum_journal_size L \<and> rd_sitj C (wr_sitj C sj) = sj) \<and>
     (\<forall>i<6. rd_sum C (wr_sum C (sum_blk (cursegs s i))) = sum_blk (cursegs s i))"

definition ckpt_enc :: "layout \<Rightarrow> geom \<Rightarrow> cp_codec \<Rightarrow> f2fs_checkpoint \<Rightarrow> bool" where
  "ckpt_enc L g C cp \<longleftrightarrow> (\<forall>i. length (wr_ckpt C cp i) = page_size L) \<and> unat (checksum_offset cp) + 4 \<le> page_size L \<and>
     (let hd' = rd_ckpt C [cp_block L C cp]
      in checkpoint_ver hd' = checkpoint_ver cp \<and> checksum_offset hd' = checksum_offset cp \<and>
         cp_pack_total_block_count hd' = cp_pack_total_block_count cp) \<and>
     rd_ckpt C (cp_block L C cp # map (wr_ckpt C cp) [1..<1 + unat (cp_payload g)]) = cp"

lemma max_orphans_eq:
  assumes "cp_area_ok L g"
  shows "unat (snd (init_ino_entry_info L g)) = (blocks_per_seg g - 8 - unat (cp_payload g)) * orphans_per_block L"
proof -
  let ?b = "blocks_per_seg g" and ?p = "unat (cp_payload g)" and ?o = "orphans_per_block L"
  have a: "f2fs_cp_packs L = 2" "8 + ?p < ?b" "?b * ?o < 2 ^ 32" "unat (cp_blkaddr g) + 2 * ?b < 2 ^ 32"
    by (rule cp_areaD [OF assms])+
  have "of_nat ?b - of_nat 2 - of_nat 6 - cp_payload g = (of_nat (?b - 8 - ?p) :: u32)"
  proof -
    have "?b = (?b - 8 - ?p) + 8 + ?p" using a(2) by simp
    then have "of_nat ?b = (of_nat ((?b - 8 - ?p) + 8 + ?p) :: u32)" by (rule arg_cong)
    also have "\<dots> = of_nat (?b - 8 - ?p) + 8 + cp_payload g" by simp
    finally show ?thesis by simp
  qed
  then have e: "snd (init_ino_entry_info L g) = (of_nat ((?b - 8 - ?p) * ?o) :: u32)" using a(1) by (simp add: init_ino_entry_info_def)
  have "(?b - 8 - ?p) * ?o \<le> ?b * ?o" by (intro mult_le_mono1) simp
  then have "(?b - 8 - ?p) * ?o < 2 ^ LENGTH(32)" by (rule le_less_trans) (use a(3) in simp)
  then show ?thesis unfolding e by (rule unat_of_nat_small)
qed

lemma orphans_in_area:
  assumes "cp_ready L g C w"
  defines "n \<equiv> length (ino_list (w_im w ORPHAN_INO))"
  shows "im_ino_num (w_im w ORPHAN_INO) = of_nat n" "unat (im_ino_num (w_im w ORPHAN_INO)) = n" "n < 2 ^ 32"
    "get_orphan_blocks C n + 8 + unat (cp_payload g) \<le> blocks_per_seg g"
proof -
  have ok: "cp_area_ok L g" "orphan_fmt_ok L C" and n: "im_ino_num (w_im w ORPHAN_INO) = of_nat n" "n \<le> unat (snd (init_ino_entry_info L g))"
    using cp_readyD(1,2,4) [OF assms(1)] by (simp_all add: orphans_ok_def ino_list_ok_def n_def)
  show "im_ino_num (w_im w ORPHAN_INO) = of_nat n" by (rule n(1))
  show n32: "n < 2 ^ 32" using n(2) unsigned_less [of "snd (init_ino_entry_info L g)", where ?'a = nat] by simp
  show "unat (im_ino_num (w_im w ORPHAN_INO)) = n" unfolding n(1) by (rule unat_of_nat_small) (use n32 in simp)
  let ?o = "orphans_per_block L" and ?k = "blocks_per_seg g - 8 - unat (cp_payload g)"
  have o: "0 < ?o" and gb: "get_orphan_blocks C n = (n + ?o - 1) div ?o" using ok(2) by (simp_all add: orphan_fmt_ok_def)
  have "n + ?o - 1 < (?k + 1) * ?o" using n(2) o by (simp add: max_orphans_eq [OF ok(1)])
  then have "(n + ?o - 1) div ?o < ?k + 1" by (rule less_mult_imp_div_less)
  then show "get_orphan_blocks C n + 8 + unat (cp_payload g) \<le> blocks_per_seg g"
    unfolding gb using cp_areaD(6) [OF ok(1)] by simp
qed

lemma pack_fits:
  assumes "cp_ready L g C w"
  shows "pack_len g C reason (npages_for_summary_flush L g False s) (w_im w) \<le> blocks_per_seg g"
proof -
  have "npages_for_summary_flush L g False s \<le> 3" by (simp add: npages_for_summary_flush_def Let_def)
  then show ?thesis using orphans_in_area(4) [OF assms] by (simp add: pack_len_def)
qed

lemma cp_addr:
  assumes "cp_area_ok L g"
  shows "unat (start_cp_addr g cp) = unat (cp_blkaddr g) + (if checkpoint_ver cp AND 1 = 0 then blocks_per_seg g else 0)"
    "cp_pack2 g = cp_blkaddr g + of_nat (blocks_per_seg g)" "unat (cp_pack2 g) = unat (cp_blkaddr g) + blocks_per_seg g"
    "start_cp_addr g cp = (if checkpoint_ver cp AND 1 = 0 then cp_pack2 g else cp_blkaddr g)"
proof -
  have a: "unat (cp_blkaddr g) + 2 * blocks_per_seg g < 2 ^ 32" "blocks_per_seg g = 2 ^ log_blocks_per_seg g"
    by (rule cp_areaD [OF assms])+
  have u: "unat (of_nat (blocks_per_seg g) :: u32) = blocks_per_seg g" using a(1) by (intro unat_of_nat_small) simp
  show p2: "cp_pack2 g = cp_blkaddr g + of_nat (blocks_per_seg g)"
    by (simp add: cp_pack2_def a(2) push_bit_eq_mult)
  show u2: "unat (cp_pack2 g) = unat (cp_blkaddr g) + blocks_per_seg g"
    unfolding p2 using unat_plus_small [of "cp_blkaddr g" "of_nat (blocks_per_seg g)"] u a(1) by simp
  show "start_cp_addr g cp = (if checkpoint_ver cp AND 1 = 0 then cp_pack2 g else cp_blkaddr g)" by (simp add: start_cp_addr_def p2)
  then show "unat (start_cp_addr g cp) = unat (cp_blkaddr g) + (if checkpoint_ver cp AND 1 = 0 then blocks_per_seg g else 0)" by (simp add: u2)
qed

lemma start_room:
  assumes "cp_area_ok L g" "n \<le> blocks_per_seg g"
  shows "unat (start_cp_addr g cp + of_nat n) = unat (start_cp_addr g cp) + n" "unat (start_cp_addr g cp) + n < 2 ^ 32"
proof -
  have a: "unat (cp_blkaddr g) + 2 * blocks_per_seg g < 2 ^ 32" by (rule cp_areaD [OF assms(1)])
  show b: "unat (start_cp_addr g cp) + n < 2 ^ 32" unfolding cp_addr(1) [OF assms(1)] using a assms(2) by simp
  have "unat (of_nat n :: u32) = n" using a assms(2) by (intro unat_of_nat_small) simp
  then show "unat (start_cp_addr g cp + of_nat n) = unat (start_cp_addr g cp) + n"
    using unat_plus_small [of "start_cp_addr g cp" "of_nat n"] b by simp
qed

lemma pack_state_ready:
  assumes rd: "cp_ready L g C w" and enc: "logs_enc L (cp_sums C) (w_sb w)" "ckpt_enc L g C (new_ckpt L g C io reason w)"
  shows "pack_ready L g C reason (w_im w) (pack_state L g C io reason w)"
proof -
  let ?s = "pack_state L g C io reason w" and ?cp = "new_ckpt L g C io reason w"
  have ar: "cp_area_ok L g" "orphan_fmt_ok L C" "compact_ok L" "f2fs_cp_packs L = 2" "cp_flags_ok L"
    by (rule cp_readyD [OF rd] cp_areaD [OF cp_readyD(1) [OF rd]])+
  note f = new_ckpt_fields [where L = L and g = g and C = C and io = io and reason = reason and w = w]
  note o = orphans_in_area [OF rd]
  have lg: "logs_in_ckpt g ?s" using cp_readyD(6) [OF rd] by (simp add: logs_in_ckpt_def f)
  have "entries_enc L (cp_sums C) (log_entries g ?s i)" if "i < 3" for i
  proof -
    have "set (log_entries g ?s i) \<subseteq> set (sum_entries (sum_blk (cursegs (w_sb w) i)))"
      unfolding log_entries_def f(2) by (rule set_take_subset)
    moreover have "entries_enc L (cp_sums C) (sum_entries (sum_blk (cursegs (w_sb w) i)))" using enc(1) that by (simp add: logs_enc_def)
    ultimately show ?thesis unfolding entries_enc_def by blast
  qed
  from this [of 0] this [of 1] this [of 2] have "entries_enc L (cp_sums C) (compact_entries g ?s)"
    by (auto simp: compact_entries_def entries_enc_def)
  then have cd: "codec_ok L g (cp_sums C) ?s" using enc(1) by (simp add: codec_ok_def logs_enc_def f)
  have bl: "length (cp_block L C ?cp) = page_size L" using enc(2) by (simp add: cp_block_def ckpt_enc_def Let_def)
  have "1 + unat (cp_payload g) + get_orphan_blocks C (length (ino_list (w_im w ORPHAN_INO))) \<le> blocks_per_seg g"
    using o(4) by simp
  note sr = start_room(1) [OF ar(1) this, of ?cp]
  have "unat (start_sum_block g ?cp) = unat (start_cp_addr g ?cp) + 1 + unat (cp_payload g) +
      get_orphan_blocks C (length (ino_list (w_im w ORPHAN_INO)))"
    unfolding start_sum_block_def new_ckpt_counts(1) o(2) sr by simp
  then show ?thesis
    unfolding pack_ready_def Let_def f(1)
    using ar lg cd o(1,3) bl enc(2) new_ckpt_counts(3) [OF ar(5), where C = C and io = io and reason = reason and w = w and g = g]
      new_ckpt_counts(4) [OF ar(5), where C = C and io = io and reason = reason and w = w and g = g]
    by (simp add: ckpt_enc_def)
qed

section \<open>After the checkpoint\<close>

lemma clear_prefree_frame:
  "ckpt (fst (clear_prefree_segments g s)) = ckpt s" "cursegs (fst (clear_prefree_segments g s)) = cursegs s"
  "sit_i (fst (clear_prefree_segments g s)) = sit_i s" "sit_pages (fst (clear_prefree_segments g s)) = sit_pages s"
  "free_i (fst (clear_prefree_segments g s)) = free_i s"
proof -
  have f: "ckpt (fst (fold (\<lambda>entry (s, out). (s\<lparr>discard_list := tl (discard_list s), nr_discards := nr_discards s - sint (d_len entry)\<rparr>,
            out @ [(d_blkaddr entry, d_len entry)])) xs (s, out))) = ckpt s \<and>
     cursegs (fst (fold (\<lambda>entry (s, out). (s\<lparr>discard_list := tl (discard_list s), nr_discards := nr_discards s - sint (d_len entry)\<rparr>,
            out @ [(d_blkaddr entry, d_len entry)])) xs (s, out))) = cursegs s \<and>
     sit_i (fst (fold (\<lambda>entry (s, out). (s\<lparr>discard_list := tl (discard_list s), nr_discards := nr_discards s - sint (d_len entry)\<rparr>,
            out @ [(d_blkaddr entry, d_len entry)])) xs (s, out))) = sit_i s \<and>
     sit_pages (fst (fold (\<lambda>entry (s, out). (s\<lparr>discard_list := tl (discard_list s), nr_discards := nr_discards s - sint (d_len entry)\<rparr>,
            out @ [(d_blkaddr entry, d_len entry)])) xs (s, out))) = sit_pages s \<and>
     free_i (fst (fold (\<lambda>entry (s, out). (s\<lparr>discard_list := tl (discard_list s), nr_discards := nr_discards s - sint (d_len entry)\<rparr>,
            out @ [(d_blkaddr entry, d_len entry)])) xs (s, out))) = free_i s" for xs s out
    by (induction xs arbitrary: s out) simp_all
  show "ckpt (fst (clear_prefree_segments g s)) = ckpt s" "cursegs (fst (clear_prefree_segments g s)) = cursegs s"
    "sit_i (fst (clear_prefree_segments g s)) = sit_i s" "sit_pages (fst (clear_prefree_segments g s)) = sit_pages s"
    "free_i (fst (clear_prefree_segments g s)) = free_i s"
    unfolding clear_prefree_segments_def Let_def case_prod_beta by (simp_all add: f [unfolded case_prod_beta])
qed

definition io_fine :: "cp_io \<Rightarrow> bool" where
  "io_fine io \<longleftrightarrow> \<not> io_err_flush io \<and> \<not> io_err_first io \<and> \<not> io_err_pack io"

lemma do_checkpoint_ok:
  assumes rd: "cp_ready L g C w" and enc: "logs_enc L (cp_sums C) (w_sb w)" "ckpt_enc L g C (new_ckpt L g C io reason w)" and io: "io_fine io"
  defines "s \<equiv> pack_state L g C io reason w" and "w' \<equiv> do_checkpoint L g C io reason w"
  shows "(s, w_meta w') = write_pack L g C reason (npages_for_summary_flush L g False s)
      (get_orphan_blocks C (length (ino_list (w_im w ORPHAN_INO)))) (w_im w) (s, w_meta w)"
    "ckpt (w_sb w') = new_ckpt L g C io reason w" "cursegs (w_sb w') = cursegs (w_sb w)" "sit_i (w_sb w') = sit_i (w_sb w)"
    "sit_pages (w_sb w') = sit_pages (w_sb w)" "w_nm w' = w_nm w" "w_im w' = release_dirty_inode (w_im w)"
proof -
  let ?d = "npages_for_summary_flush L g False s" and ?ob = "get_orphan_blocks C (length (ino_list (w_im w ORPHAN_INO)))"
  define s1 where "s1 = discard_next_dnode (discard_fails io) (w_sb w)"
  define s2 where "s2 = (if get_pages s1 F2FS_DIRTY_META \<noteq> 0
      then io_wait L (io_err_flush io) (s1\<lparr>nr_pages := (nr_pages s1)(count_no F2FS_DIRTY_META := 0)\<rparr>) else s1)"
  have s2: "s2 = synced io (w_sb w)" using io by (simp add: s2_def s1_def synced_def Let_def io_wait_def io_fine_def)
  have err: "\<not> f2fs_cp_error L s2" using cp_readyD(5) [OF rd] by (simp add: s2 f2fs_cp_error_def)
  have n: "unat (im_ino_num (w_im w ORPHAN_INO)) = length (ino_list (w_im w ORPHAN_INO))" by (rule orphans_in_area(2) [OF rd])
  define s3 where "s3 = s2\<lparr>ckpt := fill_checkpoint s2 (next_free_nid (w_nm w) (next_scan_nid (w_nm w))) (ckpt s2)\<rparr>"
  define d3 where "d3 = npages_for_summary_flush L g False s3"
  define cp where "cp = (cp_set_flags L reason (d3 < 3) (unat (im_ino_num (w_im w ORPHAN_INO)) \<noteq> 0) s3
      (cp_counts L g reason d3 (get_orphan_blocks C (unat (im_ino_num (w_im w ORPHAN_INO)))) (ckpt s3)))
      \<lparr>ck_sit_bitmap := sit_bitmap (sit_i s3), ck_nat_bitmap := nat_bitmap (w_nm w)\<rparr>"
  have cp: "cp = new_ckpt L g C io reason w"
    unfolding cp_def new_ckpt_def Let_def d3_def s3_def s2 by (rule refl)
  have ss: "s3\<lparr>ckpt := cp\<rparr> = s" by (simp add: s3_def s_def pack_state_def cp s2)
  have d: "d3 = ?d"
    unfolding d3_def
    by (rule npages_cong) (simp add: ss [symmetric] sum_entries_needed_def, simp add: cp_def cp_counts_def)
  obtain t Q where r: "(t, Q) = write_pack L g C reason ?d ?ob (w_im w) (s, w_meta w)" by (metis prod.collapse)
  note wp = write_pack_spec [OF pack_state_ready [OF rd enc] cp_readyD(3) [OF rd] refl refl r [unfolded s_def], folded s_def]
  have ts: "t = s" by (rule wp(1))
  have e2: "\<not> f2fs_cp_error L s"
    using new_ckpt_counts(6) [OF cp_areaD(3) [OF cp_readyD(1) [OF rd]], where C = C and io = io and reason = reason and w = w and g = g]
      cp_readyD(5) [OF rd] by (simp add: f2fs_cp_error_def s_def pack_state_def)
  define u where "u = s\<lparr>last_valid_block_count := total_valid_block_count s, alloc_valid_block_count := 0\<rparr>"
  have e3: "\<not> f2fs_cp_error L u" using e2 by (simp add: u_def f2fs_cp_error_def)
  have w': "w' = w\<lparr>w_sb := clear_sbi_flag SBI_IS_DIRTY (fst (clear_prefree_segments g u)), w_meta := Q, w_im := release_dirty_inode (w_im w)\<rparr>"
  proof -
    have "do_checkpoint L g C io reason w =
      (let (t, P) = write_pack L g C reason d3 (get_orphan_blocks C (unat (im_ino_num (w_im w ORPHAN_INO)))) (w_im w) (s3\<lparr>ckpt := cp\<rparr>, w_meta w);
           t = io_wait L (io_err_first io) t; w = w\<lparr>w_sb := t, w_meta := P\<rparr>
       in if f2fs_cp_error L t then w
          else let t = t\<lparr>last_valid_block_count := total_valid_block_count t, alloc_valid_block_count := 0\<rparr>;
                   t = io_wait L (io_err_pack io) t;
                   w = w\<lparr>w_im := release_dirty_inode (w_im w)\<rparr>
               in if f2fs_cp_error L t then w\<lparr>w_sb := t\<rparr>
                  else w\<lparr>w_sb := clear_sbi_flag SBI_IS_DIRTY (fst (clear_prefree_segments g t))\<rparr>)"
      unfolding do_checkpoint_def Let_def s1_def [symmetric] s2_def [symmetric] using err
      by (simp add: s3_def [symmetric] d3_def [symmetric] cp_def)
    then show ?thesis
      using io e2 e3 unfolding w'_def ss n d r [symmetric] by (simp add: io_wait_def io_fine_def ts u_def [symmetric])
  qed
  show "(s, w_meta w') = write_pack L g C reason ?d ?ob (w_im w) (s, w_meta w)" using r ts by (simp add: w')
  show "ckpt (w_sb w') = new_ckpt L g C io reason w" "cursegs (w_sb w') = cursegs (w_sb w)" "sit_i (w_sb w') = sit_i (w_sb w)"
    "sit_pages (w_sb w') = sit_pages (w_sb w)" "w_nm w' = w_nm w" "w_im w' = release_dirty_inode (w_im w)"
    by (simp_all add: w' clear_sbi_flag_def clear_prefree_frame u_def s_def pack_state_def)
qed

end
