(* ===== verification/Cp_Recovery.thy ===== *)
theory Cp_Recovery
  imports Checkpoint
begin

text \<open>
  What a mount finds after a checkpoint (\<open>checkpoint.c\<close>, \<open>segment.c\<close>): which of the two packs it takes if
  the machine stops while the new one is written; and when it was written, the state that was saved.
\<close>

section \<open>Crashes\<close>

lemma new_block_version:
  assumes "ckpt_enc L g C cp"
  shows "cp_block_version L C (cp_block L C cp) = Some (checkpoint_ver cp)"
proof -
  define off where "off = unat (checksum_offset cp)"
  define buf where "buf = wr_ckpt C cp 0"
  define crc where "crc = f2fs_crc32 L buf off"
  have e: "length buf = page_size L" "off + 4 \<le> page_size L"
    "checkpoint_ver (rd_ckpt C [cp_block L C cp]) = checkpoint_ver cp" "checksum_offset (rd_ckpt C [cp_block L C cp]) = checksum_offset cp"
    using assms by (simp_all add: ckpt_enc_def Let_def off_def buf_def)
  have b: "cp_block L C cp = put_at off (le32_bytes crc) buf" by (simp add: cp_block_def Let_def off_def buf_def crc_def)
  have l: "length (le32_bytes crc) = 4" by simp
  have "get_at off 4 (cp_block L C cp) = le32_bytes crc" unfolding b by (rule get_put_same) (use e l in simp_all)
  moreover have "take off (cp_block L C cp) = take off buf" unfolding b using e by (simp add: put_at_def)
  ultimately show ?thesis
    using e(2) unfolding cp_block_version_def Let_def e(3,4) off_def [symmetric]
    by (simp add: le32_roundtrip f2fs_crc_valid_def f2fs_crc32_def crc_def)
qed

text \<open>The device after a crash in which the blocks \<open>W\<close> of the pack were written.\<close>

definition torn :: "nat set \<Rightarrow> pages \<Rightarrow> pages \<Rightarrow> pages" where
  "torn W new old = (\<lambda>a. if a \<in> W then new a else old a)"

text \<open>The pack of the last checkpoint, version \<open>v\<close>, and what is left in the area of the new one.\<close>

definition last_pack_ok :: "layout \<Rightarrow> geom \<Rightarrow> cp_codec \<Rightarrow> u64 \<Rightarrow> u32 \<Rightarrow> pages \<Rightarrow> bool" where
  "last_pack_ok L g C v addr P \<longleftrightarrow> validate_checkpoint L C P addr = Some v \<and>
     (let n = unat (cp_pack_total_block_count (rd_ckpt C [P (unat addr)])) in 1 \<le> n \<and> n \<le> blocks_per_seg g)"

definition stale_area :: "layout \<Rightarrow> cp_codec \<Rightarrow> u64 \<Rightarrow> nat \<Rightarrow> nat \<Rightarrow> pages \<Rightarrow> bool" where
  "stale_area L C v a n P \<longleftrightarrow> (\<forall>x. cp_block_version L C (P a) = Some x \<longrightarrow> ver_after v x) \<and>
     cp_block_version L C (P (a + n - 1)) \<noteq> Some (v + 1)"

definition other_pack :: "geom \<Rightarrow> f2fs_checkpoint \<Rightarrow> u32" where
  "other_pack g cp = (if checkpoint_ver cp AND 1 = 0 then cp_blkaddr g else cp_pack2 g)"

lemma ver_after_asym: "ver_after a b \<Longrightarrow> \<not> ver_after b a"
proof -
  assume "ver_after a b"
  then have p: "0 < sint (a - b)" by (simp add: ver_after_def)
  have "b - a = - (a - b)" by simp
  then have "sint (b - a) = signed_take_bit 63 (- sint (a - b))" by (simp only: sint_word_ariths) simp
  also have "\<dots> = - sint (a - b)"
  proof (rule signed_take_bit_int_eq_self)
    show "- (2 ^ 63) \<le> - sint (a - b)" using sint_lt [of "a - b"] by simp
    show "- sint (a - b) < 2 ^ 63" using p by simp
  qed
  finally show "\<not> ver_after b a" using p by (simp add: ver_after_def)
qed

lemma ver_after_succ: "ver_after (v + 1) v" by (simp add: ver_after_def)

lemma u32_last:
  fixes a t :: u32
  assumes "unat a + n < 2 ^ 32" "1 \<le> n" "unat t = n"
  shows "unat (a + t - 1) = unat a + n - 1"
proof -
  have s: "unat (a + t) = unat a + n" using assms unat_plus_small [of a t] by simp
  then have "1 \<le> a + t" using assms(2) by (simp add: word_le_nat_alt)
  then show ?thesis using s by (simp add: unat_sub)
qed

lemma torn_choice:
  assumes area: "cp_area_ok L g" and cp: "ckpt_enc L g C cp" "checkpoint_ver cp = v + 1" "unat (cp_pack_total_block_count cp) = n"
    and n: "2 \<le> n" "n \<le> blocks_per_seg g"
  defines "a \<equiv> unat (start_cp_addr g cp)" and "ot \<equiv> other_pack g cp"
  assumes old: "last_pack_ok L g C v ot P" "a \<in> W \<and> a + n - 1 \<in> W \<or> stale_area L C v a n P"
    and new: "Q a = cp_block L C cp" "Q (a + n - 1) = cp_block L C cp" and W: "W \<subseteq> {a..<a + n}"
  shows "choose_pack L g C (torn W Q P) = Some (if a \<in> W \<and> a + n - 1 \<in> W then start_cp_addr g cp else ot)"
    "unat ot \<le> q \<Longrightarrow> q < unat ot + blocks_per_seg g \<Longrightarrow> torn W Q P q = P q"
proof -
  let ?D = "torn W Q P" and ?b = "blocks_per_seg g"
  have sp: "unat (cp_blkaddr g) + 2 * ?b < 2 ^ 32" by (rule cp_areaD [OF area])
  note ad = cp_addr [OF area]
  have ot: "{unat ot..<unat ot + ?b} \<inter> {a..<a + n} = {}"
    using n(2) by (auto simp: ot_def other_pack_def a_def ad(1,3))
  show same: "?D q = P q" if "unat ot \<le> q" "q < unat ot + ?b" for q
    using that ot W by (auto simp: torn_def)
  have vo: "validate_checkpoint L C ?D ot = Some v"
  proof -
    let ?t = "cp_pack_total_block_count (rd_ckpt C [P (unat ot)])"
    have o: "validate_checkpoint L C P ot = Some v" "1 \<le> unat ?t" "unat ?t \<le> ?b"
      using old(1) by (simp_all add: last_pack_ok_def Let_def)
    have "unat ot + unat ?t < 2 ^ 32" using o(3) sp by (auto simp: ot_def other_pack_def ad(3))
    then have "unat (ot + ?t - 1) = unat ot + unat ?t - 1" using o(2) by (intro u32_last) simp_all
    then have D2: "?D (unat (ot + ?t - 1)) = P (unat (ot + ?t - 1))" using same o(2,3) by simp
    have D1: "?D (unat ot) = P (unat ot)" using same o(2,3) by simp
    show ?thesis using o(1) unfolding validate_checkpoint_def Let_def D1 D2 .
  qed
  have hd': "cp_pack_total_block_count (rd_ckpt C [cp_block L C cp]) = cp_pack_total_block_count cp"
    using cp(1) by (simp add: ckpt_enc_def Let_def)
  note bv = new_block_version [OF cp(1)]
  define vn where "vn = validate_checkpoint L C ?D (start_cp_addr g cp)"
  have vn: "if a \<in> W \<and> a + n - 1 \<in> W then vn = Some (v + 1) else vn = None \<or> (\<exists>x. vn = Some x \<and> ver_after v x)"
  proof (cases "a \<in> W")
    case True
    then have d1: "?D a = cp_block L C cp" using new(1) by (simp add: torn_def)
    have "unat (start_cp_addr g cp + cp_pack_total_block_count cp - 1) = a + n - 1"
      unfolding a_def using n sp cp(3) by (intro u32_last) (auto simp: ad(1))
    then have "vn = (case cp_block_version L C (?D (a + n - 1)) of None \<Rightarrow> None
        | Some x \<Rightarrow> if x = v + 1 then Some x else None)"
      unfolding vn_def validate_checkpoint_def Let_def a_def [symmetric] d1 hd' bv option.case cp(2) by simp
    then show ?thesis using new(2) old(2) True bv cp(2) by (auto simp: torn_def stale_area_def split: option.split)
  next
    case False
    then have d1: "?D a = P a" by (simp add: torn_def)
    have "vn = Some x \<Longrightarrow> cp_block_version L C (P a) = Some x" for x
      unfolding vn_def validate_checkpoint_def Let_def a_def [symmetric] d1
      by (auto split: option.splits if_splits)
    then show ?thesis using False old(2) by (cases vn) (auto simp: stale_area_def)
  qed
  have ch: "choose_pack L g C ?D = Some (if (\<exists>x. vn = Some x \<and> ver_after x v) then start_cp_addr g cp else ot)"
    if "\<forall>x. vn = Some x \<longrightarrow> ver_after x v \<or> ver_after v x"
    using vo that ver_after_asym
    by (cases "checkpoint_ver cp AND 1 = 0"; cases vn) (auto simp: choose_pack_def vn_def ot_def other_pack_def ad(4))
  show "choose_pack L g C ?D = Some (if a \<in> W \<and> a + n - 1 \<in> W then start_cp_addr g cp else ot)"
  proof (cases "a \<in> W \<and> a + n - 1 \<in> W")
    case True
    then have "vn = Some (v + 1)" using vn by simp
    then show ?thesis using ch ver_after_succ [of v] True by simp
  next
    case False
    then have "\<forall>x. vn = Some x \<longrightarrow> ver_after v x" using vn by (simp only: if_False) auto
    then have "\<not> (\<exists>x. vn = Some x \<and> ver_after x v)" "\<forall>x. vn = Some x \<longrightarrow> ver_after x v \<or> ver_after v x"
      using ver_after_asym by blast+
    then show ?thesis using ch False by (simp only: if_False)
  qed
qed

section \<open>What the mount finds\<close>

lemma read_blocks:
  assumes "cp_area_ok L g" "ckpt_enc L g C cp" "D a = cp_block L C cp" "\<And>i. 0 < i \<Longrightarrow> i \<le> unat (cp_payload g) \<Longrightarrow> D (a + i) = wr_ckpt C cp i"
  shows "rd_ckpt C (map (\<lambda>i. D (a + i)) [0..<1 + unat (cp_payload g)]) = cp"
proof -
  have "map (\<lambda>i. D (a + i)) [0..<1 + unat (cp_payload g)] = D a # map (\<lambda>i. D (a + i)) [1..<1 + unat (cp_payload g)]"
    by (simp add: upt_conv_Cons del: upt_Suc)
  also have "\<dots> = cp_block L C cp # map (wr_ckpt C cp) [1..<1 + unat (cp_payload g)]"
    using assms(3,4) by (intro arg_cong2 [where f = Cons] map_cong) auto
  finally show ?thesis using assms(2) by (simp add: ckpt_enc_def)
qed

text \<open>The pack written: its length as the checkpoint states it, and its blocks.\<close>

lemma new_pack:
  assumes rd: "cp_ready L g C w" and enc: "logs_enc L (cp_sums C) (w_sb w)" "ckpt_enc L g C (new_ckpt L g C io reason w)" and io: "io_fine io"
  defines "cp \<equiv> new_ckpt L g C io reason w" and "w' \<equiv> do_checkpoint L g C io reason w"
  defines "a \<equiv> unat (start_cp_addr g cp)" and "n \<equiv> unat (cp_pack_total_block_count cp)" and "s \<equiv> pack_state L g C io reason w"
    and "d \<equiv> npages_for_summary_flush L g False (pack_state L g C io reason w)"
  shows "n = pack_len g C reason d (w_im w)" "2 + unat (cp_payload g) \<le> n" "n \<le> blocks_per_seg g"
    "w_meta w' a = cp_block L C cp" "w_meta w' (a + n - 1) = cp_block L C cp"
    "0 < i \<Longrightarrow> i \<le> unat (cp_payload g) \<Longrightarrow> w_meta w' (a + i) = wr_ckpt C cp i"
    "concat (map (\<lambda>i. block_inos C (w_meta w' (a + 1 + unat (cp_payload g) + i))) [0..<get_orphan_blocks C (length (ino_list (w_im w ORPHAN_INO)))])
       = ino_list (w_im w ORPHAN_INO)"
    "\<exists>P2. pages_ok L P2 \<and> pack_sums L g (cp_sums C) s d P2 (w_meta w')"
    "q < a \<or> a + n \<le> q \<Longrightarrow> w_meta w' q = w_meta w q"
proof -
  note o = orphans_in_area [OF rd]
  have ar: "cp_area_ok L g" "f2fs_cp_packs L = 2" "unat (cp_blkaddr g) + 2 * blocks_per_seg g < 2 ^ 32"
    by (rule cp_readyD(1) [OF rd] cp_areaD [OF cp_readyD(1) [OF rd]])+
  have pl: "pack_len g C reason d (w_im w) \<le> blocks_per_seg g" unfolding d_def by (rule pack_fits [OF rd])
  show n: "n = pack_len g C reason d (w_im w)"
  proof -
    have "n = unat (of_nat (pack_len g C reason d (w_im w)) :: u32)"
      unfolding n_def cp_def new_ckpt_counts(2) ar(2) pack_len_def o(2) d_def by (simp only: ac_simps)
    also have "\<dots> = pack_len g C reason d (w_im w)" by (rule unat_of_nat_small) (use pl ar(3) in simp)
    finally show ?thesis .
  qed
  show "2 + unat (cp_payload g) \<le> n" unfolding n pack_len_def by simp
  show "n \<le> blocks_per_seg g" unfolding n by (rule pl)
  have ck: "ckpt s = cp" unfolding s_def cp_def by (rule new_ckpt_fields(1))
  note wp = write_pack_spec [OF pack_state_ready [OF rd enc] cp_readyD(3) [OF rd] refl refl
      do_checkpoint_ok(1) [OF rd enc io, unfolded o(2)], folded s_def d_def w'_def, unfolded ck, folded n a_def]
  show "w_meta w' a = cp_block L C cp" "w_meta w' (a + n - 1) = cp_block L C cp"
    "0 < i \<Longrightarrow> i \<le> unat (cp_payload g) \<Longrightarrow> w_meta w' (a + i) = wr_ckpt C cp i"
    "concat (map (\<lambda>i. block_inos C (w_meta w' (a + 1 + unat (cp_payload g) + i))) [0..<get_orphan_blocks C (length (ino_list (w_im w ORPHAN_INO)))])
       = ino_list (w_im w ORPHAN_INO)"
    "\<exists>P2. pages_ok L P2 \<and> pack_sums L g (cp_sums C) s d P2 (w_meta w')"
    "q < a \<or> a + n \<le> q \<Longrightarrow> w_meta w' q = w_meta w q"
    by (rule wp; assumption?)+
qed

lemma torn_leftover:
  assumes area: "cp_area_ok L g" and cp: "ckpt_enc L g C cp" "checkpoint_ver cp = v + 1" "unat (cp_pack_total_block_count cp) = n"
    and n: "2 \<le> n" "n \<le> blocks_per_seg g"
  defines "a \<equiv> unat (start_cp_addr g cp)" and "ot \<equiv> other_pack g cp"
  assumes old: "last_pack_ok L g C v ot P" and new: "Q a = cp_block L C cp" "Q (a + n - 1) = cp_block L C cp"
    and W: "W \<subseteq> {a..<a + n}" "a \<in> W" "cp_block_version L C (P (a + n - 1)) = Some (v + 1)"
  shows "choose_pack L g C (torn W Q P) = Some (start_cp_addr g cp)"
proof -
  let ?l = "validate_checkpoint L C"
  define W' where "W' = insert (a + n - 1) W"
  have ad: "unat (cp_blkaddr g) + 2 * blocks_per_seg g < 2 ^ 32" by (rule cp_areaD [OF area])
  have W': "W' \<subseteq> {a..<a + n}" "a \<in> W'" "a + n - 1 \<in> W'" using W(1,2) n(1) by (auto simp: W'_def)
  have hd': "cp_pack_total_block_count (rd_ckpt C [cp_block L C cp]) = cp_pack_total_block_count cp"
    using cp(1) by (simp add: ckpt_enc_def Let_def)
  note bv = new_block_version [OF cp(1)]
  have last: "unat (start_cp_addr g cp + cp_pack_total_block_count cp - 1) = a + n - 1"
    unfolding a_def using n ad cp(3) by (intro u32_last) (auto simp: cp_addr(1) [OF area])
  have val: "?l D (start_cp_addr g cp) = Some (v + 1)"
    if "D a = cp_block L C cp" "cp_block_version L C (D (a + n - 1)) = Some (v + 1)" for D
    using that bv unfolding validate_checkpoint_def Let_def a_def [symmetric] that(1) hd' last by (simp add: cp(2))
  have t: "torn W' Q P a = cp_block L C cp" "torn W Q P a = cp_block L C cp" using new(1) W(2) W'(2) by (simp_all add: torn_def)
  have "cp_block_version L C (torn W' Q P (a + n - 1)) = Some (v + 1)" using new(2) W'(3) bv cp(2) by (simp add: torn_def)
  moreover have "cp_block_version L C (torn W Q P (a + n - 1)) = Some (v + 1)" using new(2) W(3) bv cp(2) by (simp add: torn_def)
  ultimately have same1: "?l (torn W Q P) (start_cp_addr g cp) = ?l (torn W' Q P) (start_cp_addr g cp)" using val t by simp
  have same2: "?l (torn W Q P) ot = ?l (torn W' Q P) ot"
  proof -
    let ?t = "cp_pack_total_block_count (rd_ckpt C [P (unat ot)])"
    have o: "1 \<le> unat ?t" "unat ?t \<le> blocks_per_seg g" using old by (simp_all add: last_pack_ok_def Let_def)
    have eq: "torn U Q P q = P q" if "U \<subseteq> {a..<a + n}" "unat ot \<le> q" "q < unat ot + blocks_per_seg g" for U q
    proof -
      have "q \<notin> {a..<a + n}" using that(2,3) n(2) by (auto simp: ot_def other_pack_def a_def cp_addr(1,3) [OF area] split: if_splits)
      then show ?thesis using that(1) by (auto simp: torn_def)
    qed
    have "unat ot + unat ?t < 2 ^ 32" using o(2) ad by (auto simp: ot_def other_pack_def cp_addr(3) [OF area])
    then have "unat (ot + ?t - 1) = unat ot + unat ?t - 1" using o(1) by (intro u32_last) simp_all
    then have D2: "torn U Q P (unat (ot + ?t - 1)) = P (unat (ot + ?t - 1))" "torn U Q P (unat ot) = P (unat ot)" if "U \<subseteq> {a..<a + n}" for U
      using eq [OF that] o by simp_all
    show ?thesis unfolding validate_checkpoint_def Let_def D2 [OF W(1)] D2 [OF W'(1)] ..
  qed
  have "choose_pack L g C (torn W' Q P) = Some (start_cp_addr g cp)"
    using torn_choice(1) [OF area cp n, folded a_def ot_def, OF old _ new W'(1)] W'(2,3) by simp
  moreover have "choose_pack L g C (torn W Q P) = choose_pack L g C (torn W' Q P)"
  proof -
    have "?l (torn W Q P) (cp_blkaddr g) = ?l (torn W' Q P) (cp_blkaddr g)" "?l (torn W Q P) (cp_pack2 g) = ?l (torn W' Q P) (cp_pack2 g)"
      using same1 same2 by (auto simp: ot_def other_pack_def cp_addr(4) [OF area] split: if_splits)
    then show ?thesis by (simp only: choose_pack_def)
  qed
  ultimately show ?thesis by simp
qed

lemma crash_outcome:
  fixes L g C io reason w
  defines "cp \<equiv> new_ckpt L g C io reason w" and "P \<equiv> w_meta w" and "Q \<equiv> w_meta (do_checkpoint L g C io reason w)"
  defines "a \<equiv> unat (start_cp_addr g cp)" and "n \<equiv> unat (cp_pack_total_block_count cp)" and "b \<equiv> unat (other_pack g cp)"
  assumes rd: "cp_ready L g C w" and enc: "logs_enc L (cp_sums C) (w_sb w)" "ckpt_enc L g C cp" and io: "io_fine io"
    and v: "checkpoint_ver cp = v + 1" and old: "last_pack_ok L g C v (other_pack g cp) P"
    and W: "W \<subseteq> {a..<a + n}"
  shows "stale_area L C v a n P \<Longrightarrow> a \<notin> W \<or> a + n - 1 \<notin> W \<Longrightarrow> get_valid_checkpoint L g C False (torn W Q P) t =
       Inr (t\<lparr>ckpt := rd_ckpt C (map (\<lambda>i. P (b + i)) [0..<1 + unat (cp_payload g)])\<rparr>)"
    "a \<in> W \<Longrightarrow> a + n - 1 \<in> W \<or> cp_block_version L C (P (a + n - 1)) = Some (v + 1) \<Longrightarrow>
       choose_pack L g C (torn W Q P) = Some (start_cp_addr g cp)"
    "{a..a + unat (cp_payload g)} \<subseteq> W \<Longrightarrow> a + n - 1 \<in> W \<Longrightarrow>
       get_valid_checkpoint L g C False (torn W Q P) t = Inr (t\<lparr>ckpt := cp\<rparr>)"
proof -
  note np = new_pack [OF rd enc [unfolded cp_def] io, folded cp_def, folded a_def n_def Q_def]
  have ar: "cp_area_ok L g" "8 + unat (cp_payload g) < blocks_per_seg g" by (rule cp_readyD(1) [OF rd] cp_areaD [OF cp_readyD(1) [OF rd]])+
  have n2: "2 \<le> n" using np(2) by simp
  have tc: "choose_pack L g C (torn W Q P) = Some (if a \<in> W \<and> a + n - 1 \<in> W then start_cp_addr g cp else other_pack g cp)"
    "b \<le> q \<Longrightarrow> q < b + blocks_per_seg g \<Longrightarrow> torn W Q P q = P q"
    if "a \<in> W \<and> a + n - 1 \<in> W \<or> stale_area L C v a n P" for q
    using torn_choice [OF ar(1) enc(2) v n_def [THEN meta_eq_to_obj_eq, symmetric] n2 np(3), folded a_def, OF old that np(4,5) W, folded b_def]
    by auto
  show "get_valid_checkpoint L g C False (torn W Q P) t =
       Inr (t\<lparr>ckpt := rd_ckpt C (map (\<lambda>i. P (b + i)) [0..<1 + unat (cp_payload g)])\<rparr>)"
    if st: "stale_area L C v a n P" and w: "a \<notin> W \<or> a + n - 1 \<notin> W"
  proof -
    have c: "choose_pack L g C (torn W Q P) = Some (other_pack g cp)" using tc(1) st w by auto
    have m: "map (\<lambda>i. torn W Q P (b + i)) [0..<1 + unat (cp_payload g)] = map (\<lambda>i. P (b + i)) [0..<1 + unat (cp_payload g)]"
      using ar(2) st by (intro map_cong refl tc(2)) auto
    show ?thesis by (simp only: get_valid_checkpoint_def Let_def c option.case if_False b_def [symmetric] m)
  qed
  show ch: "choose_pack L g C (torn W Q P) = Some (start_cp_addr g cp)"
    if w: "a \<in> W" "a + n - 1 \<in> W \<or> cp_block_version L C (P (a + n - 1)) = Some (v + 1)"
  proof (cases "a + n - 1 \<in> W")
    case False
    show ?thesis
      by (rule torn_leftover [OF ar(1) enc(2) v n_def [THEN meta_eq_to_obj_eq, symmetric] n2 np(3), folded a_def, OF old np(4,5) W w(1)])
        (use w(2) False in simp)
  qed (use tc(1) w in simp)
  show "get_valid_checkpoint L g C False (torn W Q P) t = Inr (t\<lparr>ckpt := cp\<rparr>)"
    if w: "{a..a + unat (cp_payload g)} \<subseteq> W" "a + n - 1 \<in> W"
  proof -
    have i: "a + i \<in> W" if "i \<le> unat (cp_payload g)" for i using that w(1) by auto
    have "rd_ckpt C (map (\<lambda>i. torn W Q P (a + i)) [0..<1 + unat (cp_payload g)]) = cp"
      by (rule read_blocks [OF ar(1) enc(2)]) (use i [of 0] i np(4,6) in \<open>simp_all add: torn_def\<close>)
    then show ?thesis using ch i [of 0] w(2) by (simp add: get_valid_checkpoint_def a_def [symmetric] del: upt_Suc)
  qed
qed

text \<open>
  C17: With formats that read back what they write and a device that reports no error, if the machine stops while the pack of a new checkpoint is sent, so that only a set \<open>W\<close> of its blocks
  reached the device, then the last checkpoint, of version \<open>v\<close>, survives where the first or the last block
  of the new pack is missing and nothing that was left in the area passes for one of them (\<open>stale_area\<close>:
  a first block left there is of a version before \<open>v\<close> or not valid, a last block left there is not of
  version \<open>v + 1\<close>): the mount then reads the last checkpoint from its own, untouched blocks. When
  the first and the last block arrived the mount chooses the new pack, whether or not the blocks
  between them arrived; it reads the new checkpoint when its payload blocks are there. And when the first
  block arrived and the last one did not, but a block of version \<open>v + 1\<close> was left in its place, as an earlier
  checkpoint that was cut short after the same version \<open>v\<close> can leave one, the torn pack is chosen as well.
\<close>
theorem checkpoint_crash_choice:
  fixes L g C io reason w
  defines "cp \<equiv> new_ckpt L g C io reason w" and "P \<equiv> w_meta w" and "Q \<equiv> w_meta (do_checkpoint L g C io reason w)"
  defines "a \<equiv> unat (start_cp_addr g cp)" and "n \<equiv> unat (cp_pack_total_block_count cp)" and "b \<equiv> unat (other_pack g cp)"
  assumes rd: "cp_ready L g C w" and enc: "logs_enc L (cp_sums C) (w_sb w)" "ckpt_enc L g C cp" and io: "io_fine io"
    and v: "checkpoint_ver cp = v + 1" and old: "last_pack_ok L g C v (other_pack g cp) P"
    and W: "W \<subseteq> {a..<a + n}"
  shows "(stale_area L C v a n P \<and> (a \<notin> W \<or> a + n - 1 \<notin> W) \<longrightarrow> get_valid_checkpoint L g C False (torn W Q P) t =
       Inr (t\<lparr>ckpt := rd_ckpt C (map (\<lambda>i. P (b + i)) [0..<1 + unat (cp_payload g)])\<rparr>)) \<and>
    (a \<in> W \<and> (a + n - 1 \<in> W \<or> cp_block_version L C (P (a + n - 1)) = Some (v + 1)) \<longrightarrow>
       choose_pack L g C (torn W Q P) = Some (start_cp_addr g cp)) \<and>
    ({a..a + unat (cp_payload g)} \<subseteq> W \<and> a + n - 1 \<in> W \<longrightarrow>
       get_valid_checkpoint L g C False (torn W Q P) t = Inr (t\<lparr>ckpt := cp\<rparr>))"
proof -
  note co = crash_outcome [OF rd enc [unfolded cp_def] io v [unfolded cp_def] old [unfolded P_def cp_def]
    W [unfolded a_def n_def cp_def]]
  show ?thesis unfolding P_def Q_def a_def n_def b_def cp_def using co by blast
qed




section \<open>A concrete volume\<close>

lemma new_ckpt_cong: "get_orphan_blocks C = get_orphan_blocks C' \<Longrightarrow> new_ckpt L g C io reason (w\<lparr>w_meta := P\<rparr>) = new_ckpt L g C' io reason w"
  by (simp add: new_ckpt_def Let_def)

text \<open>
  A volume of \<open>small_geom\<close> with one orphan, in its third checkpoint. The formats keep the orphans and
  the version; the logs are empty.
\<close>

definition demo_layout :: layout where
  "demo_layout = small_layout\<lparr>page_size := 128\<rparr>"

definition demo_formats :: "f2fs_checkpoint \<Rightarrow> cp_codec" where
  "demo_formats cp0 = \<lparr>wr_natj = (\<lambda>_. replicate 32 0), rd_natj = (\<lambda>_. nat_j sample_sum),
     wr_sitj = (\<lambda>_. replicate 32 0), rd_sitj = (\<lambda>_. sit_j sample_sum),
     wr_entry = (\<lambda>_. replicate 7 0), rd_entry = (\<lambda>_. \<lparr>s_nid = 0, s_ofs_in_node = 0, s_version = 0\<rparr>),
     wr_sum = (\<lambda>_. replicate 128 0), rd_sum = (\<lambda>_. sample_sum),
     wr_ckpt = (\<lambda>cp i. ucast (checkpoint_ver cp) # replicate 127 0),
     rd_ckpt = (\<lambda>bs. cp0\<lparr>checkpoint_ver := ucast (hd (hd bs))\<rparr>),
     wr_orphan = (\<lambda>ob. concat (map (\<lambda>j. le32_bytes (ob_ino ob j)) [0, 1, 2, 3]) @ le32_bytes (ob_entry_count ob) @ replicate 108 0),
     rd_orphan = (\<lambda>bs. \<lparr>ob_ino = (\<lambda>j. le32_of (get_at (4 * j) 4 bs)), ob_blk_addr = 0, ob_blk_count = 0,
        ob_entry_count = le32_of (get_at 16 4 bs)\<rparr>),
     get_orphan_blocks = (\<lambda>n. (n + 3) div 4)\<rparr>"

definition demo_io :: cp_io where
  "demo_io = \<lparr>discard_fails = False, io_err_flush = False, io_err_first = False, io_err_pack = False\<rparr>"

definition demo_start :: cp_world where
  "demo_start = \<lparr>w_sb = sample_sb, w_nm = sample_nm,
     w_im = (fst (init_ino_entry_info demo_layout small_geom))(ORPHAN_INO := \<lparr>ino_root = [7 \<mapsto> 7], ino_list = [7], im_ino_num = 1\<rparr>),
     w_meta = (\<lambda>_. replicate 128 0)\<rparr>"

definition demo_new :: f2fs_checkpoint where
  "demo_new = new_ckpt demo_layout small_geom (demo_formats sample_ckpt) demo_io CP_UMOUNT demo_start"

definition demo_codec :: cp_codec where
  "demo_codec = demo_formats demo_new"

definition demo_old :: f2fs_checkpoint where
  "demo_old = demo_new\<lparr>checkpoint_ver := 2\<rparr>"

definition demo_world :: cp_world where
  "demo_world = demo_start\<lparr>w_meta := (\<lambda>a. if a = 65 \<or> a = 64 + unat (cp_pack_total_block_count demo_new)
     then cp_block demo_layout demo_codec demo_old else replicate 128 0)\<rparr>"

lemma demo_new_eq: "new_ckpt demo_layout small_geom demo_codec demo_io CP_UMOUNT demo_world = demo_new"
  unfolding demo_world_def demo_new_def by (rule new_ckpt_cong) (simp add: demo_codec_def demo_formats_def)

lemma demo_new_fields: "checkpoint_ver demo_new = 3" "checksum_offset demo_new = 60"
  unfolding demo_new_def new_ckpt_fields by (simp_all add: demo_start_def sample_sb_def sample_ckpt_def)

lemma put_at_hd: "0 < k \<Longrightarrow> put_at k bs (x # xs) = x # tl (put_at k bs (x # xs))"
  by (cases k) (simp_all add: put_at_def)

lemma demo_enc:
  assumes "cp = demo_new\<lparr>checkpoint_ver := v\<rparr>" "v = 2 \<or> v = 3"
  shows "ckpt_enc demo_layout small_geom demo_codec cp"
proof -
  have "hd (cp_block demo_layout demo_codec cp) = (ucast v :: u8)"
    using demo_new_fields by (simp add: cp_block_def Let_def demo_codec_def demo_formats_def assms(1) put_at_def)
  then show ?thesis
    using assms(2) demo_new_fields
    by (auto simp: ckpt_enc_def Let_def demo_codec_def demo_formats_def assms(1) demo_layout_def small_geom_def)
qed

lemma demo_enc': "ckpt_enc demo_layout small_geom demo_codec demo_new" "ckpt_enc demo_layout small_geom demo_codec demo_old"
proof -
  have "demo_new = demo_new\<lparr>checkpoint_ver := 3\<rparr>" using demo_new_fields(1) by simp
  then show "ckpt_enc demo_layout small_geom demo_codec demo_new" using demo_enc by blast
  show "ckpt_enc demo_layout small_geom demo_codec demo_old" using demo_enc [of _ 2] by (simp add: demo_old_def)
qed

definition demo_block :: "u8 list" where
  "demo_block = cp_block demo_layout demo_codec demo_new"

lemma demo_area: "cp_area_ok demo_layout small_geom"
proof -
  have six: "(\<forall>i<6. P i) \<longleftrightarrow> P 0 \<and> P 1 \<and> P 2 \<and> P 3 \<and> P 4 \<and> P (5 :: nat)" for P
  proof -
    have "i < 6 \<longleftrightarrow> i = 0 \<or> i = 1 \<or> i = 2 \<or> i = 3 \<or> i = 4 \<or> i = (5 :: nat)" for i by auto
    then show ?thesis by auto
  qed
  have "cp_flags_ok demo_layout" by (simp add: cp_flags_ok_def six cp_flags_def demo_layout_def small_layout_def)
  then show ?thesis by (simp add: cp_area_ok_def compact_ok_def sum_room_def demo_layout_def small_layout_def small_geom_def)
qed

lemma demo_orphans: "orphan_fmt_ok demo_layout demo_codec"
proof -
  have j: "j < 4 \<Longrightarrow> ob_ino (rd_orphan demo_codec (wr_orphan demo_codec ob)) j = ob_ino ob j" for j ob
  proof -
    assume "j < 4"
    then consider "j = 0" | "j = 1" | "j = 2" | "j = 3" by linarith
    then show ?thesis by cases (simp_all add: demo_codec_def demo_formats_def get_at_def le32_roundtrip)
  qed
  have "length (wr_orphan demo_codec ob) = 128" "ob_entry_count (rd_orphan demo_codec (wr_orphan demo_codec ob)) = ob_entry_count ob" for ob
    by (simp_all add: demo_codec_def demo_formats_def get_at_def le32_roundtrip)
  moreover have "get_orphan_blocks demo_codec n = (n + 3) div 4" for n by (simp add: demo_codec_def demo_formats_def)
  ultimately show ?thesis using j by (simp add: orphan_fmt_ok_def demo_layout_def small_layout_def add.commute)
qed

lemma demo_io_fine: "io_fine demo_io" by (simp add: io_fine_def demo_io_def)

lemma demo_logs: "logs_enc demo_layout (cp_sums demo_codec) (w_sb demo_world)"
  by (simp add: logs_enc_def entries_enc_def cp_sums_def sum_codec.truncate_def demo_codec_def demo_formats_def demo_world_def demo_start_def
      sample_sb_def demo_layout_def small_layout_def) (simp add: sample_sum_def)

lemma demo_ready: "cp_ready demo_layout small_geom demo_codec demo_world"
proof -
  have "length (cp_block demo_layout demo_codec demo_old) = 128"
    using demo_enc'(2) by (auto simp: cp_block_def ckpt_enc_def Let_def demo_layout_def put_at_def)
  then have "pages_ok demo_layout (w_meta demo_world)" by (simp add: pages_ok_def demo_world_def demo_start_def demo_layout_def)
  moreover have "orphans_ok (snd (init_ino_entry_info demo_layout small_geom)) (w_im demo_world, 0)"
    by (simp add: orphans_ok_def ino_list_ok_def init_ino_entry_info_def demo_world_def demo_start_def demo_layout_def small_layout_def small_geom_def)
  moreover have "\<not> f2fs_cp_error demo_layout (w_sb demo_world)"
    by (simp add: f2fs_cp_error_def is_set_ckpt_flags_def demo_world_def demo_start_def sample_sb_def sample_ckpt_def)
  ultimately show ?thesis
    using demo_area demo_orphans by (simp add: cp_ready_def demo_world_def demo_start_def sample_sb_def sample_sum_def small_geom_def)
qed

lemma demo_last: "last_pack_ok demo_layout small_geom demo_codec 2 (other_pack small_geom demo_new) (w_meta demo_world)"
    "stale_area demo_layout demo_codec 2 (unat (start_cp_addr small_geom demo_new)) (unat (cp_pack_total_block_count demo_new)) (w_meta demo_world)"
proof -
  define n where "n = unat (cp_pack_total_block_count demo_new)"
  have n: "2 \<le> n" "n \<le> 64"
    using new_pack(2,3) [OF demo_ready demo_logs, where io = demo_io and reason = CP_UMOUNT, unfolded demo_new_eq, OF demo_enc'(1) demo_io_fine, folded n_def]
    by (simp_all add: small_geom_def)
  have ad: "other_pack small_geom demo_new = 65" "start_cp_addr small_geom demo_new = 1"
    by (simp_all add: other_pack_def start_cp_addr_def cp_pack2_def demo_new_fields small_geom_def)
  have m: "w_meta demo_world 65 = cp_block demo_layout demo_codec demo_old" "w_meta demo_world (64 + n) = cp_block demo_layout demo_codec demo_old"
    "w_meta demo_world 1 = replicate 128 0" "w_meta demo_world n = replicate 128 0"
    using n by (simp_all add: demo_world_def n_def demo_start_def)
  have bv: "cp_block_version demo_layout demo_codec (cp_block demo_layout demo_codec demo_old) = Some 2"
    using new_block_version [OF demo_enc'(2)] by (simp add: demo_old_def)
  have t: "cp_pack_total_block_count (rd_ckpt demo_codec bs) = of_nat n" for bs
    by (simp add: demo_codec_def demo_formats_def n_def)
  have tn: "unat (of_nat n :: u32) = n" using n by (intro unat_of_nat_small) simp
  have "unat (65 + of_nat n - 1 :: u32) = 64 + n"
    using u32_last [of 65 n "of_nat n"] n tn by simp
  then show "last_pack_ok demo_layout small_geom demo_codec 2 (other_pack small_geom demo_new) (w_meta demo_world)"
    using n tn m bv by (simp add: last_pack_ok_def validate_checkpoint_def Let_def ad t) (simp add: small_geom_def)
  have z: "cp_block_version demo_layout demo_codec (replicate 128 0) = Some x \<Longrightarrow> x = 0" for x
    by (auto simp: cp_block_version_def Let_def demo_codec_def demo_formats_def split: if_splits)
  have "ver_after 2 0" by (simp add: ver_after_def)
  then show "stale_area demo_layout demo_codec 2 (unat (start_cp_addr small_geom demo_new)) (unat (cp_pack_total_block_count demo_new)) (w_meta demo_world)"
    using n m z unfolding stale_area_def ad n_def [symmetric] by (auto dest: z)
qed

text \<open>The block of the new checkpoint, with a byte under its checksum changed, and with a byte of the checksum changed.\<close>

theorem checkpoint_detects_changed_byte_witness:
  "cp_block_version demo_layout demo_codec demo_block = Some 3 \<and>
   cp_block_version demo_layout demo_codec (demo_block[1 := demo_block ! 1 + 1]) = None \<and>
   cp_block_version demo_layout demo_codec (demo_block[62 := demo_block ! 62 + 1]) = None"
proof -
  have v: "cp_block_version demo_layout demo_codec demo_block = Some 3"
    using new_block_version [OF demo_enc'(1)] by (simp add: demo_block_def demo_new_fields)
  have l: "length demo_block = page_size demo_layout"
    using demo_enc'(1) by (auto simp: demo_block_def cp_block_def ckpt_enc_def Let_def demo_layout_def put_at_def)
  have o: "checksum_offset (rd_ckpt demo_codec bs) = 60" for bs by (simp add: demo_codec_def demo_formats_def demo_new_fields)
  note d = checkpoint_detects_changed_byte [OF v l, unfolded o]
  show ?thesis using v d [of 1 "demo_block ! 1 + 1"] d [of 62 "demo_block ! 62 + 1"] by (simp add: demo_layout_def)
qed

theorem checkpoint_crash_choice_witness:
  "get_valid_checkpoint demo_layout small_geom demo_codec False
     (torn {1} (w_meta (do_checkpoint demo_layout small_geom demo_codec demo_io CP_UMOUNT demo_world)) (w_meta demo_world)) sample_sb =
   Inr (sample_sb\<lparr>ckpt := demo_old\<rparr>)"
proof -
  have n: "1 < unat (cp_pack_total_block_count demo_new)"
    using new_pack(2) [OF demo_ready demo_logs, where io = demo_io and reason = CP_UMOUNT, unfolded demo_new_eq, OF demo_enc'(1) demo_io_fine] by simp
  have ad: "unat (start_cp_addr small_geom demo_new) = 1" "unat (other_pack small_geom demo_new) = 65" "cp_payload small_geom = 0"
    by (simp_all add: other_pack_def start_cp_addr_def cp_pack2_def demo_new_fields small_geom_def)
  have "rd_ckpt demo_codec [w_meta demo_world 65] = demo_old"
    using demo_enc'(2) by (simp add: ckpt_enc_def demo_world_def ad)
  then show ?thesis
    using checkpoint_crash_choice [OF demo_ready demo_logs, where io = demo_io and reason = CP_UMOUNT and v = 2 and W = "{1}" and t = sample_sb,
      unfolded demo_new_eq ad, OF demo_enc'(1) demo_io_fine _ demo_last(1)] demo_last(2) [unfolded ad] n
    by (auto simp: demo_new_fields)
qed


end
