(* ===== verification/Xattr.thy ===== *)
theory Xattr
  imports Bytes Inode_State Ino_Entry
begin

text \<open>
  Extended attributes (\<open>xattr.c\<close>, \<open>xattr.h\<close>). The attributes of an inode are a header and a list of
  entries in one buffer, whose first bytes are the inline area of the inode and the rest a node block
  of its own; entries are aligned to four bytes and a zero word ends the list. Reads outside of the
  buffer, which C leaves undefined, give \<open>None\<close>.
\<close>

section \<open>The buffer\<close>

definition F2FS_XATTR_MAGIC :: u32 where
  "F2FS_XATTR_MAGIC = 0xF2F52011"

definition xattr_align :: "nat \<Rightarrow> nat" where
  "xattr_align n = (n + 3) div 4 * 4"

abbreviation (input) xattr_hdr_size :: nat where
  "xattr_hdr_size \<equiv> 24"

abbreviation (input) xattr_entry_hdr :: nat where
  "xattr_entry_hdr \<equiv> 4"

text \<open>The fields of the entry at offset \<open>o\<close>.\<close>

definition e_name_index :: "u8 list \<Rightarrow> nat \<Rightarrow> nat" where
  "e_name_index buf p = unat (buf ! p)"

definition e_name_len :: "u8 list \<Rightarrow> nat \<Rightarrow> nat" where
  "e_name_len buf p = unat (buf ! (p + 1))"

definition e_value_size :: "u8 list \<Rightarrow> nat \<Rightarrow> nat" where
  "e_value_size buf p = unat (le16_of (get_at (p + 2) 2 buf))"

definition e_name :: "u8 list \<Rightarrow> nat \<Rightarrow> nat \<Rightarrow> u8 list" where
  "e_name buf p n = get_at (p + xattr_entry_hdr) n buf"

definition entry_size :: "u8 list \<Rightarrow> nat \<Rightarrow> nat" where
  "entry_size buf p = xattr_align (xattr_entry_hdr + e_name_len buf p + e_value_size buf p)"

definition is_last_entry :: "u8 list \<Rightarrow> nat \<Rightarrow> bool" where
  "is_last_entry buf p \<longleftrightarrow> le32_of (get_at p 4 buf) = 0"

lemma entry_size_pos: "4 \<le> entry_size buf p"
  by (simp add: entry_size_def xattr_align_def)

text \<open>\<open>__find_xattr\<close>: the first entry from \<open>o\<close> on with the index and name, or the end of the list.\<close>

function find_xattr :: "u8 list \<Rightarrow> nat \<Rightarrow> u8 list \<Rightarrow> nat \<Rightarrow> nat option" where
  "find_xattr buf index name p =
     (if length buf < p + 4 then None
      else if is_last_entry buf p then Some p
      else if e_name_index buf p \<noteq> index \<or> e_name_len buf p \<noteq> length name
        then find_xattr buf index name (p + entry_size buf p)
      else if length buf < p + 4 + length name then None
      else if e_name buf p (length name) = name then Some p
      else find_xattr buf index name (p + entry_size buf p))"
  by pat_completeness auto
termination
  by (relation "measure (\<lambda>(buf, _, _, p). length buf - p)")
    (use entry_size_pos in \<open>auto intro!: diff_less_mono2 simp: less_le_trans [of 0 4]\<close>)

text \<open>The end of the list from \<open>o\<close> on.\<close>

function last_xattr :: "u8 list \<Rightarrow> nat \<Rightarrow> nat option" where
  "last_xattr buf p =
     (if length buf < p + 4 then None
      else if is_last_entry buf p then Some p
      else last_xattr buf (p + entry_size buf p))"
  by pat_completeness auto
termination
  by (relation "measure (\<lambda>(buf, p). length buf - p)")
    (use entry_size_pos in \<open>auto intro!: diff_less_mono2 simp: less_le_trans [of 0 4]\<close>)

declare find_xattr.simps [simp del] last_xattr.simps [simp del]

section \<open>The inode\<close>

text \<open>
  The inode, its mode and version of the attributes, its inline area, the attribute nodes by node id
  (whole pages), and what became of the ids allocated: \<open>True\<close> for \<open>alloc_nid_done\<close>.
\<close>

record xattr_inode =
  xi_fi :: f2fs_inode_info
  xi_mode :: u16
  xattr_ver :: u64
  xi_inline :: "u8 list"
  xi_nodes :: "u32 \<rightharpoonup> u8 list"
  xi_nids :: "(u32 \<times> bool) list"

text \<open>
  What the calls out of this file answer: no memory for the buffer, errors of reading the inode page,
  the attribute node and of \<open>new_node_page\<close>, the node id found by \<open>alloc_nid\<close>.
\<close>

record xattr_env =
  xe_nomem :: bool
  xe_inode_err :: "errno option"
  xe_node_err :: "errno option"
  xe_new_err :: "errno option"
  xe_nid :: "u32 option"
  xe_cp_ver :: u64

definition read_all_xattrs :: "layout \<Rightarrow> xattr_env \<Rightarrow> bool \<Rightarrow> xattr_inode \<Rightarrow> u8 list option" where
  "read_all_xattrs L E ipage x =
     (let inline_size = inline_xattr_size L (xi_fi x);
          nid = i_xattr_nid (xi_fi x);
          inline = (if inline_size \<noteq> 0 then take inline_size (xi_inline x) else []);
          rest = (case xi_nodes x nid of Some p \<Rightarrow> if nid \<noteq> 0 then take (page_size L) p else replicate (page_size L) 0
                    | None \<Rightarrow> replicate (page_size L) 0);
          buf = inline @ rest
      in if xe_nomem E then None
         else if inline_size \<noteq> 0 \<and> \<not> ipage \<and> xe_inode_err E \<noteq> None then None
         else if nid \<noteq> 0 \<and> (xe_node_err E \<noteq> None \<or> xi_nodes x nid = None) then None
         else if le32_of (get_at 0 4 buf) \<noteq> F2FS_XATTR_MAGIC
           then Some (put_at 0 (le32_bytes F2FS_XATTR_MAGIC @ le32_bytes 1) buf)
         else Some buf)"

definition alloc_failed :: "u32 \<Rightarrow> xattr_inode \<Rightarrow> xattr_inode" where
  "alloc_failed nid x = (if nid = 0 then x else x\<lparr>xi_nids := xi_nids x @ [(nid, False)]\<rparr>)"

text \<open>\<open>truncate_xattr_node\<close> of \<open>node.c\<close>.\<close>

definition truncate_xattr_node :: "xattr_env \<Rightarrow> xattr_inode \<Rightarrow> errno option \<times> xattr_inode" where
  "truncate_xattr_node E x =
     (let nid = i_xattr_nid (xi_fi x)
      in if nid = 0 then (None, x)
         else case xe_node_err E of Some e \<Rightarrow> (Some e, x)
         | None \<Rightarrow> (None, x\<lparr>xi_fi := (xi_fi x)\<lparr>i_xattr_nid := 0\<rparr>, xattr_ver := xe_cp_ver E,
                           xi_nodes := (xi_nodes x)(nid := None)\<rparr>))"

text \<open>The node block is written, but for its footer.\<close>

definition put_xattr_node :: "layout \<Rightarrow> u8 list \<Rightarrow> u8 list \<Rightarrow> u8 list" where
  "put_xattr_node L body page = put_at 0 (take (page_size L - node_footer_size L) body) page"

definition write_all_xattrs ::
  "layout \<Rightarrow> xattr_env \<Rightarrow> bool \<Rightarrow> nat \<Rightarrow> u8 list \<Rightarrow> xattr_inode \<Rightarrow> errno option \<times> xattr_inode" where
  "write_all_xattrs L E ipage hsize buf x =
     (let inline_size = inline_xattr_size L (xi_fi x);
          nid = i_xattr_nid (xi_fi x);
          need = (hsize > inline_size \<and> nid = 0)
      in if need \<and> xe_nid E = None then (Some ENOSPC, x)
         else let new_nid = (if need then the (xe_nid E) else 0)
         in if inline_size \<noteq> 0 \<and> \<not> ipage \<and> xe_inode_err E \<noteq> None then (xe_inode_err E, alloc_failed new_nid x)
         else let x = (if inline_size \<noteq> 0 then x\<lparr>xi_inline := put_at 0 (take inline_size buf) (xi_inline x)\<rparr> else x)
         in if inline_size \<noteq> 0 \<and> hsize \<le> inline_size
           then let (err, x) = truncate_xattr_node E x in (err, alloc_failed new_nid x)
         else let body = drop inline_size buf
         in if nid \<noteq> 0
           then case xe_node_err E of Some e \<Rightarrow> (Some e, alloc_failed new_nid x)
             | None \<Rightarrow> (None, x\<lparr>xi_nodes := (xi_nodes x)(nid \<mapsto> put_xattr_node L body (the (xi_nodes x nid))), xattr_ver := xe_cp_ver E\<rparr>)
         else case xe_new_err E of Some e \<Rightarrow> (Some e, alloc_failed new_nid x)
             | None \<Rightarrow> (None, x\<lparr>xi_fi := (xi_fi x)\<lparr>i_xattr_nid := new_nid\<rparr>, xi_nids := xi_nids x @ [(new_nid, True)],
                  xi_nodes := (xi_nodes x)(new_nid \<mapsto> put_xattr_node L body (replicate (page_size L) 0)), xattr_ver := xe_cp_ver E\<rparr>))"


section \<open>Get and set\<close>

text \<open>\<open>name\<close> is \<open>None\<close> for a null pointer; the buffer's size is \<open>None\<close> when there is no buffer.\<close>

definition f2fs_getxattr ::
  "layout \<Rightarrow> xattr_env \<Rightarrow> nat \<Rightarrow> u8 list option \<Rightarrow> nat option \<Rightarrow> bool \<Rightarrow> xattr_inode \<Rightarrow> (errno + u8 list) option" where
  "f2fs_getxattr L E index name buffer_size ipage x =
     (case name of None \<Rightarrow> Some (Inl EINVAL)
      | Some name \<Rightarrow>
          if length name > name_len L then Some (Inl ERANGE)
          else case read_all_xattrs L E ipage x of None \<Rightarrow> Some (Inl ENOMEM)
          | Some buf \<Rightarrow>
              (case find_xattr buf index name xattr_hdr_size of None \<Rightarrow> None
               | Some p \<Rightarrow>
                   if is_last_entry buf p then Some (Inl ENODATA)
                   else let size = e_value_size buf p
                        in if (case buffer_size of None \<Rightarrow> False | Some b \<Rightarrow> b < size) then Some (Inl ERANGE)
                           else Some (Inr (get_at (p + xattr_entry_hdr + e_name_len buf p) size buf))))"

definition min_offset :: "layout \<Rightarrow> f2fs_inode_info \<Rightarrow> nat" where
  "min_offset L fi = xattr_align (inline_xattr_size L fi + page_size L - node_footer_size L - 4)"

definition max_value_len :: "layout \<Rightarrow> f2fs_inode_info \<Rightarrow> nat" where
  "max_value_len L fi = min_offset L fi - xattr_hdr_size - xattr_entry_hdr"

text \<open>The old entry is taken out of the buffer, and a new one put at the end of the list.\<close>

definition remove_entry :: "nat \<Rightarrow> nat \<Rightarrow> u8 list \<Rightarrow> u8 list \<times> nat" where
  "remove_entry here lst buf =
     (let nxt = here + entry_size buf here;
          oldsize = entry_size buf here;
          buf = put_at here (get_at nxt (lst - nxt) buf) buf;
          lst = lst - oldsize
      in (put_at lst (replicate oldsize 0) buf, lst))"

definition write_entry :: "nat \<Rightarrow> u8 list \<Rightarrow> u8 list \<Rightarrow> nat \<Rightarrow> u8 list \<Rightarrow> u8 list" where
  "write_entry index name v lst buf =
     (let newsize = xattr_align (xattr_entry_hdr + length name + length v);
          buf = put_at lst (replicate newsize 0) buf;
          buf = put_at lst [of_nat index, of_nat (length name)] buf;
          buf = put_at (lst + xattr_entry_hdr) name buf;
          buf = put_at (lst + xattr_entry_hdr + length name) v buf
      in put_at (lst + 2) (le16_bytes (of_nat (length v))) buf)"

text \<open>The buffer to write back, and the end of its list.\<close>

definition new_buf :: "nat \<Rightarrow> u8 list \<Rightarrow> u8 list option \<Rightarrow> nat \<Rightarrow> nat \<Rightarrow> u8 list \<Rightarrow> u8 list \<times> nat" where
  "new_buf index name v here lst buf =
     (let (buf, lst) = (if \<not> is_last_entry buf here then remove_entry here lst buf else (buf, lst))
      in case v of None \<Rightarrow> (buf, lst)
         | Some u \<Rightarrow> (write_entry index name u lst buf, lst + xattr_align (xattr_entry_hdr + length name + length u)))"

datatype xattr_flags = XATTR_ANY | XATTR_CREATE | XATTR_REPLACE

definition take_acl_mode :: "xattr_inode \<Rightarrow> xattr_inode" where
  "take_acl_mode x =
     (if is_inode_flag_set (xi_fi x) FI_ACL_MODE
      then x\<lparr>xi_mode := i_acl_mode (xi_fi x), xi_fi := clear_inode_flag (xi_fi x) FI_ACL_MODE\<rparr> else x)"

text \<open>\<open>__f2fs_setxattr\<close>; no value means removal. The result is the error, if any, and the inode.\<close>

definition f2fs_setxattr ::
  "layout \<Rightarrow> xattr_env \<Rightarrow> nat \<Rightarrow> u8 list option \<Rightarrow> u8 list option \<Rightarrow> bool \<Rightarrow> xattr_flags \<Rightarrow> xattr_inode \<Rightarrow>
     (errno option \<times> xattr_inode) option" where
  "f2fs_setxattr L E index name v ipage flags x =
     (case name of None \<Rightarrow> Some (Some EINVAL, x)
      | Some name \<Rightarrow>
          let size = (case v of None \<Rightarrow> 0 | Some v \<Rightarrow> length v)
          in if length name > name_len L \<or> size > max_value_len L (xi_fi x) then Some (Some ERANGE, x)
          else case read_all_xattrs L E ipage x of None \<Rightarrow> Some (Some ENOMEM, x)
          | Some buf \<Rightarrow>
          (case find_xattr buf index name xattr_hdr_size of None \<Rightarrow> None
           | Some here \<Rightarrow>
             let found = \<not> is_last_entry buf here
             in if flags = XATTR_REPLACE \<and> \<not> found then Some (Some ENODATA, x)
             else if flags = XATTR_CREATE \<and> found then Some (Some EEXIST, x)
             else case last_xattr buf here of None \<Rightarrow> None
             | Some lst \<Rightarrow>
               let newsize = xattr_align (xattr_entry_hdr + length name + size);
                   free = int (min_offset L (xi_fi x)) - int lst + (if found then int (entry_size buf here) else 0)
               in if v \<noteq> None \<and> free < int newsize then Some (Some ENOSPC, x)
               else let (buf, new_hsize) = new_buf index name v here lst buf;
                        (err, x) = write_all_xattrs L E ipage new_hsize buf x
                    in if err \<noteq> None then Some (err, x)
                       else Some (None, take_acl_mode x)))"

section \<open>Listing\<close>

text \<open>
  What the listing depends on: the mount option for user attributes, the capability of the caller,
  the prefixes of the kernel header and the list functions of the POSIX ACL handlers, which give the
  size and the bytes of a name.
\<close>

record xattr_listing =
  user_xattrs :: bool
  sys_admin :: bool
  xattr_prefix :: "nat \<Rightarrow> u8 list"
  acl_list :: "nat \<Rightarrow> u64 \<times> u8 list"

definition F2FS_XATTR_INDEX_USER :: nat where "F2FS_XATTR_INDEX_USER = 1"
definition F2FS_XATTR_INDEX_TRUSTED :: nat where "F2FS_XATTR_INDEX_TRUSTED = 4"
definition F2FS_XATTR_INDEX_SECURITY :: nat where "F2FS_XATTR_INDEX_SECURITY = 6"
definition F2FS_XATTR_INDEX_ADVISE :: nat where "F2FS_XATTR_INDEX_ADVISE = 7"

text \<open>The negative error numbers as \<open>size_t\<close>.\<close>

fun errno_no :: "errno \<Rightarrow> nat" where
  "errno_no EPERM = 1"
| "errno_no ENOENT = 2"
| "errno_no EIO = 5"
| "errno_no ENOMEM = 12"
| "errno_no EACCES = 13"
| "errno_no EEXIST = 17"
| "errno_no EINVAL = 22"
| "errno_no ENOSPC = 28"
| "errno_no ERANGE = 34"
| "errno_no ENAMETOOLONG = 36"
| "errno_no ENODATA = 61"
| "errno_no EOPNOTSUPP = 95"

definition f2fs_xattr_generic_list :: "xattr_listing \<Rightarrow> nat \<Rightarrow> u8 list \<Rightarrow> u64 \<times> u8 list" where
  "f2fs_xattr_generic_list LE ty name =
     (let out = xattr_prefix LE ty @ name @ [0]
      in if ty = F2FS_XATTR_INDEX_USER \<and> \<not> user_xattrs LE then (- of_nat (errno_no EOPNOTSUPP), [])
         else if ty = F2FS_XATTR_INDEX_TRUSTED \<and> \<not> sys_admin LE then (- of_nat (errno_no EPERM), [])
         else if ty \<noteq> F2FS_XATTR_INDEX_USER \<and> ty \<noteq> F2FS_XATTR_INDEX_TRUSTED \<and> ty \<noteq> F2FS_XATTR_INDEX_SECURITY
           then (- of_nat (errno_no EINVAL), [])
         else (of_nat (length out), out))"

definition f2fs_xattr_advise_list :: "xattr_listing \<Rightarrow> nat \<Rightarrow> u64 \<times> u8 list" where
  "f2fs_xattr_advise_list LE ty =
     (if ty \<noteq> F2FS_XATTR_INDEX_ADVISE then (0, [])
      else (of_nat (length (xattr_prefix LE ty) + 1), xattr_prefix LE ty @ [0]))"

text \<open>The handler of an index lists a name; \<open>None\<close> when there is no handler.\<close>

definition f2fs_xattr_handler_list :: "xattr_listing \<Rightarrow> nat \<Rightarrow> u8 list \<Rightarrow> (u64 \<times> u8 list) option" where
  "f2fs_xattr_handler_list LE index name =
     (if index \<in> {1, 4, 6} then Some (f2fs_xattr_generic_list LE index name)
      else if index \<in> {2, 3} then Some (acl_list LE index)
      else if index = 7 then Some (f2fs_xattr_advise_list LE index)
      else None)"

text \<open>
  One entry: the room left in the buffer and what is written to it. A name that does not fit is
  not copied, but counts.
\<close>

definition list_entry :: "xattr_listing \<Rightarrow> bool \<Rightarrow> nat \<Rightarrow> u8 list \<Rightarrow> u64 \<times> u8 list \<Rightarrow> errno + u64 \<times> u8 list" where
  "list_entry LE buffer index name = (\<lambda>(rest, out).
     case f2fs_xattr_handler_list LE index name of None \<Rightarrow> Inr (rest, out)
     | Some (sz, bytes) \<Rightarrow>
         if buffer \<and> sz > rest then Inl ERANGE
         else Inr (rest - sz, if buffer then out @ bytes else out))"

function list_xattrs :: "xattr_listing \<Rightarrow> bool \<Rightarrow> u8 list \<Rightarrow> nat \<Rightarrow> u64 \<times> u8 list \<Rightarrow> (errno + u64 \<times> u8 list) option" where
  "list_xattrs LE buffer buf p acc =
     (if length buf < p + 4 then None
      else if is_last_entry buf p then Some (Inr acc)
      else if length buf < p + 4 + e_name_len buf p then None
      else case list_entry LE buffer (e_name_index buf p) (e_name buf p (e_name_len buf p)) acc of
             Inl e \<Rightarrow> Some (Inl e)
           | Inr acc \<Rightarrow> list_xattrs LE buffer buf (p + entry_size buf p) acc)"
  by pat_completeness auto
termination
  by (relation "measure (\<lambda>(_, _, buf, p, _). length buf - p)")
    (use entry_size_pos in \<open>auto intro!: diff_less_mono2 simp: less_le_trans [of 0 4]\<close>)

declare list_xattrs.simps [simp del]

definition f2fs_listxattr ::
  "layout \<Rightarrow> xattr_env \<Rightarrow> xattr_listing \<Rightarrow> bool \<Rightarrow> u64 \<Rightarrow> xattr_inode \<Rightarrow> (errno + u64 \<times> u8 list) option" where
  "f2fs_listxattr L E LE buffer buffer_size x =
     (case read_all_xattrs L E False x of None \<Rightarrow> Some (Inl ENOMEM)
      | Some buf \<Rightarrow> (case list_xattrs LE buffer buf xattr_hdr_size (buffer_size, []) of
            None \<Rightarrow> None
          | Some (Inl e) \<Rightarrow> Some (Inl e)
          | Some (Inr (rest, out)) \<Rightarrow> Some (Inr (buffer_size - rest, out))))"

section \<open>Handlers\<close>

text \<open>The guards of getting and setting an attribute of a type by name.\<close>

definition xattr_generic_guard :: "xattr_listing \<Rightarrow> nat \<Rightarrow> u8 list \<Rightarrow> errno option" where
  "xattr_generic_guard LE ty name =
     (if ty = F2FS_XATTR_INDEX_USER \<and> \<not> user_xattrs LE then Some EOPNOTSUPP
      else if ty = F2FS_XATTR_INDEX_TRUSTED \<and> \<not> sys_admin LE then Some EPERM
      else if ty \<noteq> F2FS_XATTR_INDEX_USER \<and> ty \<noteq> F2FS_XATTR_INDEX_TRUSTED \<and> ty \<noteq> F2FS_XATTR_INDEX_SECURITY then Some EINVAL
      else if name = [] then Some EINVAL
      else None)"

definition f2fs_xattr_generic_get ::
  "layout \<Rightarrow> xattr_env \<Rightarrow> xattr_listing \<Rightarrow> u8 list \<Rightarrow> nat option \<Rightarrow> nat \<Rightarrow> xattr_inode \<Rightarrow> (errno + u8 list) option" where
  "f2fs_xattr_generic_get L E LE name buffer_size ty x =
     (case xattr_generic_guard LE ty name of Some e \<Rightarrow> Some (Inl e)
      | None \<Rightarrow> f2fs_getxattr L E ty (Some name) buffer_size False x)"

definition f2fs_xattr_generic_set ::
  "layout \<Rightarrow> xattr_env \<Rightarrow> xattr_listing \<Rightarrow> u8 list \<Rightarrow> u8 list option \<Rightarrow> xattr_flags \<Rightarrow> nat \<Rightarrow> xattr_inode \<Rightarrow>
     (errno option \<times> xattr_inode) option" where
  "f2fs_xattr_generic_set L E LE name v flags ty x =
     (case xattr_generic_guard LE ty name of Some e \<Rightarrow> Some (Some e, x)
      | None \<Rightarrow> f2fs_setxattr L E ty (Some name) v False flags x)"

definition f2fs_xattr_advise_get :: "u8 list \<Rightarrow> xattr_inode \<Rightarrow> errno + u8 list" where
  "f2fs_xattr_advise_get name x = (if name \<noteq> [] then Inl EINVAL else Inr [i_advise (xi_fi x)])"

text \<open>The first byte of the value is read whatever its length; a value without bytes has none to read.\<close>

definition f2fs_xattr_advise_set :: "bool \<Rightarrow> u8 list \<Rightarrow> u8 list option \<Rightarrow> xattr_inode \<Rightarrow> (errno option \<times> xattr_inode) option" where
  "f2fs_xattr_advise_set owner name v x =
     (if name \<noteq> [] then Some (Some EINVAL, x)
      else if \<not> owner then Some (Some EPERM, x)
      else case v of None \<Rightarrow> Some (Some EINVAL, x)
      | Some [] \<Rightarrow> None
      | Some (b # _) \<Rightarrow> Some (None, x\<lparr>xi_fi := (xi_fi x)\<lparr>i_advise := i_advise (xi_fi x) OR b\<rparr>\<rparr>))"

text \<open>The security attributes of a new inode: \<open>f2fs_initxattrs\<close> stops at the first error.\<close>

fun f2fs_initxattrs :: "layout \<Rightarrow> xattr_env \<Rightarrow> (u8 list \<times> u8 list) list \<Rightarrow> xattr_inode \<Rightarrow> (errno option \<times> xattr_inode) option" where
  "f2fs_initxattrs L E [] x = Some (None, x)"
| "f2fs_initxattrs L E ((name, v) # as) x =
     (case f2fs_setxattr L E F2FS_XATTR_INDEX_SECURITY (Some name) (Some v) True XATTR_ANY x of
        None \<Rightarrow> None
      | Some (Some e, x) \<Rightarrow> Some (Some e, x)
      | Some (None, x) \<Rightarrow> f2fs_initxattrs L E as x)"

section \<open>Lists of entries\<close>

lemma le32_of_Cons: "le32_of (b # bs) = 0 \<longleftrightarrow> b = 0 \<and> push_bit 8 (le32_of bs) = 0"
proof -
  have "unat (ucast b :: u32) = unat b" using unsigned_less [of b, where ?'a = nat] by (simp add: unsigned_ucast_eq take_bit_nat_eq_self)
  then have "(ucast b :: u32) = 0 \<longleftrightarrow> b = 0" by (metis unsigned_0 unsigned_eq_0_iff)
  then show ?thesis by (simp add: le32_of_def or_eq_0_iff)
qed

text \<open>An attribute: index, name and value; its bytes, and a buffer of a list of attributes.\<close>

type_synonym xattr = "nat \<times> u8 list \<times> u8 list"

definition enc_xattr :: "xattr \<Rightarrow> u8 list" where
  "enc_xattr = (\<lambda>(i, nm, v). [of_nat i, of_nat (length nm)] @ le16_bytes (of_nat (length v)) @ nm @ v @
     replicate (xattr_align (4 + length nm + length v) - (4 + length nm + length v)) 0)"

definition xattr_ok :: "xattr \<Rightarrow> bool" where
  "xattr_ok = (\<lambda>(i, nm, v). 0 < i \<and> i < 256 \<and> length nm < 256 \<and> length v < 2 ^ 16)"

abbreviation xattr_key :: "xattr \<Rightarrow> nat \<times> u8 list" where
  "xattr_key e \<equiv> (fst e, fst (snd e))"

definition enc_xattrs :: "xattr list \<Rightarrow> u8 list" where
  "enc_xattrs es = concat (map enc_xattr es)"

lemma xattr_align_ge: "n \<le> xattr_align n" "4 dvd xattr_align n" "xattr_align n < n + 4"
proof -
  have "(n + 3) div 4 * 4 + (n + 3) mod 4 = n + 3" by (rule div_mult_mod_eq)
  moreover have "(n + 3) mod 4 < 4" by simp
  ultimately show "n \<le> xattr_align n" "xattr_align n < n + 4" unfolding xattr_align_def by linarith+
  show "4 dvd xattr_align n" by (simp add: xattr_align_def)
qed

lemma enc_xattr_len: "length (enc_xattr (i, nm, v)) = xattr_align (4 + length nm + length v)"
  using xattr_align_ge(1) [of "4 + length nm + length v"] by (simp add: enc_xattr_def)

text \<open>The fields of an entry in the buffer.\<close>

lemma entry_at:
  assumes "xattr_ok (i, nm, v)" "length pre = p" "buf = pre @ enc_xattr (i, nm, v) @ r"
  shows "p + 4 + length nm + length v \<le> length buf" "\<not> is_last_entry buf p" "e_name_index buf p = i" "e_name_len buf p = length nm"
    "e_value_size buf p = length v" "e_name buf p (length nm) = nm" "get_at (p + 4 + length nm) (length v) buf = v"
    "entry_size buf p = length (enc_xattr (i, nm, v))"
proof -
  have ok: "0 < i" "i < 256" "length nm < 256" "length v < 2 ^ 16" using assms(1) by (simp_all add: xattr_ok_def)
  define z where "z = replicate (xattr_align (4 + length nm + length v) - (4 + length nm + length v)) (0 :: u8)"
  have b: "buf = pre @ of_nat i # of_nat (length nm) # le16_bytes (of_nat (length v)) @ nm @ v @ z @ r"
    unfolding assms(3) enc_xattr_def z_def by simp
  have le: "le16_bytes w = [le16_bytes w ! 0, le16_bytes w ! 1]" for w by (simp add: le16_bytes_def)
  show "p + 4 + length nm + length v \<le> length buf" using assms(2) by (simp add: b)
  show i: "e_name_index buf p = i" using assms(2) ok(2) by (simp add: e_name_index_def b nth_append unat_of_nat)
  show n: "e_name_len buf p = length nm" using assms(2) ok(3) by (simp add: e_name_len_def b nth_append unat_of_nat)
  have "get_at (p + 2) 2 buf = le16_bytes (of_nat (length v))"
    unfolding b using get_at_parts [of "pre @ [of_nat i, of_nat (length nm)]" "p + 2" "le16_bytes (of_nat (length v))" 2 "nm @ v @ z @ r"] assms(2) by simp
  then show v: "e_value_size buf p = length v" using ok(4) by (simp add: e_value_size_def le16_roundtrip unat_of_nat)
  show "e_name buf p (length nm) = nm"
    unfolding b e_name_def
    using get_at_parts [of "pre @ of_nat i # of_nat (length nm) # le16_bytes (of_nat (length v))" "p + 4" nm "length nm" "v @ z @ r"] assms(2) by simp
  show "get_at (p + 4 + length nm) (length v) buf = v"
    unfolding b using get_at_parts [of "pre @ of_nat i # of_nat (length nm) # le16_bytes (of_nat (length v)) @ nm" "p + 4 + length nm" v "length v" "z @ r"] assms(2) by simp
  show "entry_size buf p = length (enc_xattr (i, nm, v))" by (simp add: entry_size_def n v enc_xattr_len)
  have "get_at p 4 buf = of_nat i # of_nat (length nm) # le16_bytes (of_nat (length v))"
    unfolding b using get_at_parts [of pre p "of_nat i # of_nat (length nm) # le16_bytes (of_nat (length v))" 4 "nm @ v @ z @ r"] assms(2) by simp
  moreover have "(of_nat i :: u8) \<noteq> 0"
  proof
    assume "(of_nat i :: u8) = 0"
    then have "unat (of_nat i :: u8) = 0" by simp
    then show False using ok(1,2) by (simp add: unat_of_nat)
  qed
  ultimately show "\<not> is_last_entry buf p" by (simp add: is_last_entry_def le32_of_Cons)
qed

lemma last_at:
  assumes "length pre = p" "buf = pre @ replicate k 0 @ r" "4 \<le> k"
  shows "is_last_entry buf p" "p + 4 \<le> length buf"
proof -
  have "get_at p 4 buf = replicate 4 0" using assms by (simp add: get_at_def)
  then show "is_last_entry buf p" by (simp add: is_last_entry_def le32_of_def eval_nat_numeral)
  show "p + 4 \<le> length buf" using assms by simp
qed

text \<open>\<open>xs\<close> is the part of the list before the entry found.\<close>

definition before :: "nat \<times> u8 list \<Rightarrow> xattr list \<Rightarrow> xattr list" where
  "before k es = takeWhile (\<lambda>e. xattr_key e \<noteq> k) es"

lemma find_xattr_list:
  assumes "\<forall>e\<in>set es. xattr_ok e" "length pre = p" "buf = pre @ enc_xattrs es @ replicate k 0 @ post" "4 \<le> k"
  shows "find_xattr buf i nm p = Some (p + length (enc_xattrs (before (i, nm) es))) \<and>
    last_xattr buf p = Some (p + length (enc_xattrs es))"
  using assms
proof (induction es arbitrary: pre p)
  case Nil
  have n: "is_last_entry buf p" "p + 4 \<le> length buf"
    by (rule last_at [of pre]; use Nil.prems in \<open>simp add: enc_xattrs_def\<close>)+
  then show ?case by (simp add: find_xattr.simps [of _ _ _ p] last_xattr.simps [of _ p] before_def enc_xattrs_def)
next
  case (Cons e es)
  obtain j m v where e: "e = (j, m, v)" by (cases e)
  have b: "buf = pre @ enc_xattr (j, m, v) @ enc_xattrs es @ replicate k 0 @ post" using Cons.prems(3) by (simp add: enc_xattrs_def e)
  have ok: "xattr_ok (j, m, v)" "\<forall>e\<in>set es. xattr_ok e" using Cons.prems(1) by (simp_all add: e)
  note en = entry_at [OF ok(1) Cons.prems(2) b]
  have IH: "find_xattr buf i nm (p + length (enc_xattr (j, m, v))) = Some (p + length (enc_xattr (j, m, v)) + length (enc_xattrs (before (i, nm) es)))"
    "last_xattr buf (p + length (enc_xattr (j, m, v))) = Some (p + length (enc_xattr (j, m, v)) + length (enc_xattrs es))"
    using Cons.IH [OF ok(2), of "pre @ enc_xattr (j, m, v)" "p + length (enc_xattr (j, m, v))"] Cons.prems b by simp_all
  have "find_xattr buf i nm p = Some (p + length (enc_xattrs (before (i, nm) (e # es))))"
  proof (cases "(j, m) = (i, nm)")
    case True
    then show ?thesis using en by (simp add: find_xattr.simps [of _ _ _ p] before_def enc_xattrs_def e)
  next
    case False
    then have "find_xattr buf i nm p = find_xattr buf i nm (p + entry_size buf p)"
      using en by (auto simp: find_xattr.simps [of _ _ _ p])
    then show ?thesis using False IH(1) en(8) by (simp add: before_def enc_xattrs_def e)
  qed
  moreover have "last_xattr buf p = last_xattr buf (p + entry_size buf p)" using en by (simp add: last_xattr.simps [of _ p])
  ultimately show ?case using IH(2) en(8) by (simp add: enc_xattrs_def e)
qed

text \<open>With distinct keys the list is a map; looking a key up, and the entry at the place found.\<close>

definition xattr_map :: "xattr list \<Rightarrow> nat \<times> u8 list \<rightharpoonup> u8 list" where
  "xattr_map es = map_of (map (\<lambda>(i, nm, v). ((i, nm), v)) es)"

lemma xattr_map_simps [simp]:
  "xattr_map [] = Map.empty" "xattr_map ((i, nm, v) # es) = (xattr_map es)((i, nm) \<mapsto> v)"
  by (simp_all add: xattr_map_def)

definition others :: "nat \<times> u8 list \<Rightarrow> xattr list \<Rightarrow> xattr list" where
  "others k es = filter (\<lambda>e. xattr_key e \<noteq> k) es"

lemma xattr_map_none: "xattr_map es k = None \<longleftrightarrow> (\<forall>e\<in>set es. xattr_key e \<noteq> k)"
proof (induction es)
  case (Cons e es)
  then show ?case by (cases e) auto
qed simp

lemma before_none: "xattr_map es k = None \<Longrightarrow> before k es = es \<and> others k es = es"
  by (auto simp: xattr_map_none before_def others_def takeWhile_eq_all_conv filter_id_conv)

lemma before_some:
  "distinct (map xattr_key es) \<Longrightarrow> xattr_map es k = Some v \<Longrightarrow>
     \<exists>ys. es = before k es @ (fst k, snd k, v) # ys \<and> others k es = before k es @ ys"
proof (induction es)
  case (Cons e es)
  obtain i nm u where e: "e = (i, nm, u)" by (cases e)
  show ?case
  proof (cases "(i, nm) = k")
    case True
    then have "others k es = es" using Cons.prems(1) by (auto simp: e others_def filter_id_conv)
    then show ?thesis using True Cons.prems(2) by (auto simp: e before_def others_def)
  next
    case False
    then show ?thesis using Cons by (auto simp: e before_def others_def)
  qed
qed simp

lemma xattr_map_filter: "xattr_map (others k es) = (xattr_map es)(k := None)"
  unfolding others_def by (induction es) auto

lemma xattr_map_snoc: "xattr_map es (i, nm) = None \<Longrightarrow> xattr_map (es @ [(i, nm, v)]) = (xattr_map es)((i, nm) \<mapsto> v)"
  by (induction es) (auto simp: fun_eq_iff split: if_splits)


section \<open>Changing the buffer\<close>

lemma enc_xattrs_app: "enc_xattrs (xs @ ys) = enc_xattrs xs @ enc_xattrs ys"
  by (simp add: enc_xattrs_def)

lemma split_len: "length xs = m + n \<Longrightarrow> \<exists>T D. xs = T @ D \<and> length T = m \<and> length D = n"
  by (rule exI [of _ "take m xs"], rule exI [of _ "drop m xs"]) simp

lemma remove_entry_list:
  assumes "xattr_ok e" "buf = pre @ enc_xattrs xs @ enc_xattr e @ enc_xattrs ys @ replicate k 0 @ post"
    and "here = length pre + length (enc_xattrs xs)" "lst = here + length (enc_xattr e) + length (enc_xattrs ys)"
  shows "remove_entry here lst buf =
    (pre @ enc_xattrs (xs @ ys) @ replicate (length (enc_xattr e) + k) 0 @ post, length pre + length (enc_xattrs (xs @ ys)))"
proof -
  let ?p = "pre @ enc_xattrs xs" and ?e = "enc_xattr e" and ?y = "enc_xattrs ys" and ?n = "length (enc_xattr e)"
  obtain i nm v where e: "e = (i, nm, v)" by (cases e)
  have h: "length ?p = here" using assms(3) by simp
  have sz: "entry_size buf here = ?n"
    unfolding e by (rule entry_at(8) [of i nm v ?p _ _ "?y @ replicate k 0 @ post"]) (use assms(1,2) h in \<open>simp_all add: e\<close>)
  have g: "get_at (here + ?n) (lst - (here + ?n)) buf = ?y"
    using get_at_parts [of "?p @ ?e" "here + ?n" ?y "length ?y" "replicate k 0 @ post"] h assms(4) by (simp add: assms(2))
  obtain T D where td: "?e @ ?y = T @ D" "length T = length ?y" "length D = ?n"
    using split_len [of "?e @ ?y" "length ?y" ?n] by auto
  have b: "buf = ?p @ T @ D @ replicate k 0 @ post" using td(1) by (simp add: assms(2))
  have p1: "put_at here ?y buf = ?p @ ?y @ D @ replicate k 0 @ post"
    unfolding b by (rule put_at_parts [OF h td(2)])
  have p2: "put_at (lst - ?n) (replicate ?n 0) (?p @ ?y @ D @ replicate k 0 @ post) =
      ?p @ ?y @ replicate ?n 0 @ replicate k 0 @ post"
    using put_at_parts [of "?p @ ?y" "lst - ?n" D "replicate ?n 0" "replicate k 0 @ post"] h td(3) assms(4) by simp
  show ?thesis
    unfolding remove_entry_def Let_def sz g p1 p2 using assms(3,4)
    by (simp add: enc_xattrs_app replicate_add del: replicate_add [symmetric])
qed

lemma write_entry_list:
  assumes "buf = pre @ replicate k 0 @ post" "length pre = lst" "xattr_align (4 + length nm + length v) \<le> k"
  shows "write_entry i nm v lst buf =
    pre @ enc_xattr (i, nm, v) @ replicate (k - xattr_align (4 + length nm + length v)) 0 @ post"
proof -
  define n where "n = xattr_align (4 + length nm + length v)"
  define z where "z = replicate (n - (4 + length nm + length v)) (0 :: u8) @ replicate (k - n) 0 @ post"
  have n: "4 + length nm + length v \<le> n" "n \<le> k" using assms(3) xattr_align_ge(1) [of "4 + length nm + length v"] by (simp_all add: n_def)
  have k: "replicate k (0 :: u8) = replicate n 0 @ replicate (k - n) 0" using n(2) by (simp add: replicate_add [symmetric])
  have "replicate n (0 :: u8) = replicate 2 0 @ replicate 2 0 @ replicate (length nm) 0 @ replicate (length v) 0 @ replicate (n - (4 + length nm + length v)) 0"
    unfolding replicate_add [symmetric] by (rule arg_cong [where f = "\<lambda>n. replicate n 0"]) (use n(1) in simp)
  then have b: "buf = pre @ replicate 2 0 @ replicate 2 0 @ replicate (length nm) 0 @ replicate (length v) 0 @ z"
    unfolding assms(1) k by (simp add: z_def)
  have s0: "put_at lst (replicate n 0) buf = buf"
    using put_at_parts [of pre lst "replicate n 0" "replicate n 0" "replicate (k - n) 0 @ post"] assms(2) by (simp add: assms(1) k)
  have s1: "put_at lst [of_nat i, of_nat (length nm)] buf =
      pre @ [of_nat i, of_nat (length nm)] @ replicate 2 0 @ replicate (length nm) 0 @ replicate (length v) 0 @ z"
    unfolding b by (rule put_at_parts) (simp_all add: assms(2))
  have s2: "put_at (lst + 4) nm (pre @ [of_nat i, of_nat (length nm)] @ replicate 2 0 @ replicate (length nm) 0 @ replicate (length v) 0 @ z) =
      pre @ [of_nat i, of_nat (length nm)] @ replicate 2 0 @ nm @ replicate (length v) 0 @ z"
    using put_at_parts [of "pre @ [of_nat i, of_nat (length nm)] @ replicate 2 0" "lst + 4" "replicate (length nm) 0" nm "replicate (length v) 0 @ z"]
    by (simp add: assms(2))
  have s3: "put_at (lst + 4 + length nm) v (pre @ [of_nat i, of_nat (length nm)] @ replicate 2 0 @ nm @ replicate (length v) 0 @ z) =
      pre @ [of_nat i, of_nat (length nm)] @ replicate 2 0 @ nm @ v @ z"
    using put_at_parts [of "pre @ [of_nat i, of_nat (length nm)] @ replicate 2 0 @ nm" "lst + 4 + length nm" "replicate (length v) 0" v z]
    by (simp add: assms(2))
  have s4: "put_at (lst + 2) (le16_bytes (of_nat (length v))) (pre @ [of_nat i, of_nat (length nm)] @ replicate 2 0 @ nm @ v @ z) =
      pre @ [of_nat i, of_nat (length nm)] @ le16_bytes (of_nat (length v)) @ nm @ v @ z"
    using put_at_parts [of "pre @ [of_nat i, of_nat (length nm)]" "lst + 2" "replicate 2 0" "le16_bytes (of_nat (length v))" "nm @ v @ z"]
    by (simp add: assms(2))
  show ?thesis
    unfolding write_entry_def Let_def n_def [symmetric] s0 s1 s2 s3 s4
    by (simp add: enc_xattr_def z_def n_def)
qed


section \<open>The attributes of an inode\<close>

definition xattr_layout_ok :: "layout \<Rightarrow> bool" where
  "xattr_layout_ok L \<longleftrightarrow> 4 dvd page_size L \<and> 4 dvd node_footer_size L \<and> node_footer_size L + 28 \<le> page_size L \<and>
     name_len L < 256 \<and> 4 * inline_xattr_addrs L + page_size L < 2 ^ 16"

text \<open>The bytes of the inline area and of the attribute node before its footer, and the number of them.\<close>

definition xattr_room :: "layout \<Rightarrow> f2fs_inode_info \<Rightarrow> nat" where
  "xattr_room L fi = inline_xattr_size L fi + (page_size L - node_footer_size L)"

definition xattr_area :: "layout \<Rightarrow> xattr_inode \<Rightarrow> u8 list" where
  "xattr_area L x = xi_inline x @ take (page_size L - node_footer_size L)
     (if i_xattr_nid (xi_fi x) = 0 then replicate (page_size L) 0 else the (xi_nodes x (i_xattr_nid (xi_fi x))))"

definition xattrs_stored :: "layout \<Rightarrow> xattr_inode \<Rightarrow> xattr list \<Rightarrow> bool" where
  "xattrs_stored L x es \<longleftrightarrow> length (xi_inline x) = inline_xattr_size L (xi_fi x) \<and>
     (i_xattr_nid (xi_fi x) \<noteq> 0 \<longrightarrow> (\<exists>p. xi_nodes x (i_xattr_nid (xi_fi x)) = Some p \<and> length p = page_size L)) \<and>
     (\<forall>e\<in>set es. xattr_ok e) \<and> distinct (map xattr_key es) \<and>
     (\<exists>hd' k. xattr_area L x = hd' @ enc_xattrs es @ replicate k 0 \<and> length hd' = 24 \<and> 4 \<le> k \<and>
        (le32_of (take 4 hd') = F2FS_XATTR_MAGIC \<or> es = []))"

lemma xattr_area_len:
  assumes "xattrs_stored L x es"
  shows "length (xattr_area L x) = xattr_room L (xi_fi x)"
  using assms by (auto simp: xattrs_stored_def xattr_area_def xattr_room_def)

lemma min_offset_eq:
  assumes "xattr_layout_ok L"
  shows "min_offset L fi + 4 = xattr_room L fi" "28 \<le> xattr_room L fi" "max_value_len L fi < 2 ^ 16"
proof -
  have k: "4 dvd page_size L" "4 dvd node_footer_size L" "node_footer_size L + 28 \<le> page_size L" "4 * inline_xattr_addrs L + page_size L < 2 ^ 16"
    using assms by (simp_all add: xattr_layout_ok_def)
  have d: "4 dvd inline_xattr_size L fi" "inline_xattr_size L fi \<le> 4 * inline_xattr_addrs L" by (simp_all add: inline_xattr_size_def)
  have e: "inline_xattr_size L fi + page_size L - node_footer_size L - 4 = xattr_room L fi - 4"
    using k(3) by (simp add: xattr_room_def)
  have dr: "4 dvd xattr_room L fi" unfolding xattr_room_def using k(1,2) d(1) by (intro dvd_add dvd_diff_nat)
  show r: "28 \<le> xattr_room L fi" using k(3) by (simp add: xattr_room_def)
  obtain q where q: "xattr_room L fi = 4 * q" using dr by (auto elim: dvdE)
  then have "xattr_room L fi - 4 + 3 = 3 + 4 * (q - 1)" using r by (cases q) simp_all
  then have "(xattr_room L fi - 4 + 3) div 4 = q - 1" by simp
  then show m: "min_offset L fi + 4 = xattr_room L fi"
    unfolding min_offset_def xattr_align_def e using q r by (cases q) simp_all
  have "xattr_room L fi < 2 ^ 16" using k d(2) by (simp add: xattr_room_def)
  then show "max_value_len L fi < 2 ^ 16" using m by (simp add: max_value_len_def)
qed

text \<open>The buffer read: the header is filled in, the footer of the node follows.\<close>

lemma read_all_stored:
  assumes "xattrs_stored L x es" "xattr_layout_ok L" "read_all_xattrs L E ipage x = Some buf"
  shows "\<exists>hd' k post. buf = hd' @ enc_xattrs es @ replicate k 0 @ post \<and> length hd' = 24 \<and> 4 \<le> k \<and> le32_of (take 4 hd') = F2FS_XATTR_MAGIC \<and>
    length (hd' @ enc_xattrs es @ replicate k 0) = xattr_room L (xi_fi x)"
proof -
  let ?fi = "xi_fi x" and ?nid = "i_xattr_nid (xi_fi x)" and ?b = "page_size L - node_footer_size L"
  define page where "page = (if ?nid = 0 then replicate (page_size L) 0 else the (xi_nodes x ?nid))"
  have st: "length (xi_inline x) = inline_xattr_size L ?fi" "length page = page_size L"
      "?nid \<noteq> 0 \<longrightarrow> xi_nodes x ?nid = Some page"
    using assms(1) by (auto simp: xattrs_stored_def page_def)
  obtain h k where h: "xattr_area L x = h @ enc_xattrs es @ replicate k 0" "length h = 24" "4 \<le> k"
      "le32_of (take 4 h) = F2FS_XATTR_MAGIC \<or> es = []"
    using assms(1) by (auto simp: xattrs_stored_def)
  define raw where "raw = xi_inline x @ page"
  have raw: "raw = h @ enc_xattrs es @ replicate k 0 @ drop ?b page"
  proof -
    have "raw = (xi_inline x @ take ?b page) @ drop ?b page" by (simp add: raw_def)
    also have "xi_inline x @ take ?b page = h @ enc_xattrs es @ replicate k 0" using h(1) by (simp add: xattr_area_def page_def)
    finally show ?thesis by simp
  qed
  have z: "?nid = 0 \<Longrightarrow> page = replicate (page_size L) 0" by (simp add: page_def)
  have rd: "(if inline_xattr_size L ?fi \<noteq> 0 then take (inline_xattr_size L ?fi) (xi_inline x) else []) @
      (case xi_nodes x ?nid of Some p \<Rightarrow> if ?nid \<noteq> 0 then take (page_size L) p else replicate (page_size L) 0
         | None \<Rightarrow> replicate (page_size L) 0) = raw"
    using st z by (cases "?nid = 0") (auto simp: raw_def split: option.split)
  have if_chain: "(if a then None else if b then None else if c then None else if d then Some u else Some v) = Some w \<Longrightarrow>
      w = (if d then u else v)" for a b c d and u v w :: "u8 list"
    by (auto split: if_splits)
  have b: "buf = (if le32_of (get_at 0 4 raw) \<noteq> F2FS_XATTR_MAGIC then put_at 0 (le32_bytes F2FS_XATTR_MAGIC @ le32_bytes 1) raw else raw)"
    by (rule if_chain [OF assms(3) [unfolded read_all_xattrs_def Let_def rd]])
  have g: "get_at 0 4 raw = take 4 h" using h(2) by (simp add: get_at_def raw)
  have ln: "length (h @ enc_xattrs es @ replicate k 0) = xattr_room L ?fi" using xattr_area_len [OF assms(1)] by (simp add: h(1))
  show ?thesis
  proof (cases "le32_of (take 4 h) = F2FS_XATTR_MAGIC")
    case True
    then show ?thesis using b g h ln by (intro exI [of _ h] exI [of _ k] exI [of _ "drop ?b page"]) (simp add: raw)
  next
    case False
    define h' where "h' = le32_bytes F2FS_XATTR_MAGIC @ le32_bytes 1 @ drop 8 h"
    have "buf = h' @ enc_xattrs es @ replicate k 0 @ drop ?b page"
      using b g False h(2) by (simp add: raw put_at_def h'_def)
    moreover have "length h' = 24" "le32_of (take 4 h') = F2FS_XATTR_MAGIC" using h(2) by (simp_all add: h'_def le32_roundtrip)
    ultimately show ?thesis using h ln by (intro exI [of _ h'] exI [of _ k] exI [of _ "drop ?b page"]) simp
  qed
qed

text \<open>A buffer written back without an error is what the inode then stores.\<close>

lemma write_all_stored:
  assumes "xattrs_stored L x es0" "xattr_layout_ok L"
    and buf: "buf = hd' @ enc_xattrs es @ replicate k 0 @ post" "length hd' = 24" "4 \<le> k" "le32_of (take 4 hd') = F2FS_XATTR_MAGIC"
      "length (hd' @ enc_xattrs es @ replicate k 0) = xattr_room L (xi_fi x)" "hsize = 24 + length (enc_xattrs es)"
    and es: "\<forall>e\<in>set es. xattr_ok e" "distinct (map xattr_key es)" and nid: "xe_nid E \<noteq> Some 0"
    and r: "write_all_xattrs L E ipage hsize buf x = (None, x')"
  shows "xattrs_stored L x' es" "xi_mode x' = xi_mode x" "i_flags (xi_fi x') = i_flags (xi_fi x)"
proof -
  let ?n = "inline_xattr_size L (xi_fi x)" and ?nid = "i_xattr_nid (xi_fi x)" and ?b = "page_size L - node_footer_size L"
  define A where "A = hd' @ enc_xattrs es @ replicate k 0"
  define body where "body = take ?b (drop ?n buf)"
  have st: "length (xi_inline x) = ?n" "?nid \<noteq> 0 \<longrightarrow> (\<exists>p. xi_nodes x ?nid = Some p \<and> length p = page_size L)"
    using assms(1) by (simp_all add: xattrs_stored_def)
  have lA: "length A = ?n + ?b" using buf(5) by (simp add: A_def xattr_room_def)
  have bA: "buf = A @ post" by (simp add: buf(1) A_def)
  have lb: "length body = ?b" and split: "take ?n buf @ body = A" and tl: "length (take ?n buf) = ?n"
    using lA by (simp_all add: body_def bA take_add [symmetric])
  define inl where "inl = (if ?n \<noteq> 0 then put_at 0 (take ?n buf) (xi_inline x) else xi_inline x)"
  have inl_take: "inl = take ?n buf" using st(1) tl by (auto simp: inl_def put_at_def)
  have node_page: "length p = page_size L \<Longrightarrow> take ?b (put_xattr_node L (drop ?n buf) p) = body \<and> length (put_xattr_node L (drop ?n buf) p) = page_size L" for p
    using lb by (simp add: put_xattr_node_def put_at_def body_def [symmetric])
  define x1 where "x1 = x\<lparr>xi_inline := inl\<rparr>"
  have x1: "(if ?n \<noteq> 0 then x\<lparr>xi_inline := put_at 0 (take ?n buf) (xi_inline x)\<rparr> else x) = x1" by (simp add: x1_def inl_def)
  have stored: "xattrs_stored L y es" if "xi_inline y = inl" "inline_xattr_size L (xi_fi y) = ?n" "xattr_area L y = hd' @ enc_xattrs es @ replicate j 0" "4 \<le> j"
      "i_xattr_nid (xi_fi y) \<noteq> 0 \<longrightarrow> (\<exists>p. xi_nodes y (i_xattr_nid (xi_fi y)) = Some p \<and> length p = page_size L)" for y j
    using that es buf(2,4) tl by (auto simp: xattrs_stored_def inl_take)
  consider (inl) "?n \<noteq> 0" "hsize \<le> ?n" "truncate_xattr_node E x1 = (None, x')"
    | (node) "?nid \<noteq> 0" "x' = x1\<lparr>xi_nodes := (xi_nodes x1)(?nid \<mapsto> put_xattr_node L (drop ?n buf) (the (xi_nodes x1 ?nid))), xattr_ver := xe_cp_ver E\<rparr>"
    | (new) q where "?nid = 0" "xe_nid E = Some q" "x' = x1\<lparr>xi_fi := (xi_fi x1)\<lparr>i_xattr_nid := q\<rparr>, xi_nids := xi_nids x1 @ [(q, True)],
        xi_nodes := (xi_nodes x1)(q \<mapsto> put_xattr_node L (drop ?n buf) (replicate (page_size L) 0)), xattr_ver := xe_cp_ver E\<rparr>"
  proof -
    have "0 < hsize" by (simp add: buf(6))
    then show ?thesis
      using r that unfolding write_all_xattrs_def Let_def x1
      by (auto simp: alloc_failed_def split: if_splits option.splits prod.splits)
  qed
  then have "xattrs_stored L x' es \<and> xi_mode x' = xi_mode x \<and> i_flags (xi_fi x') = i_flags (xi_fi x)"
  proof cases
    case inl
    define j where "j = ?n - hsize + ?b"
    have y: "xi_inline x' = inl" "i_xattr_nid (xi_fi x') = 0" "i_flags (xi_fi x') = i_flags (xi_fi x)" "xi_mode x' = xi_mode x"
      using inl(3) by (auto simp: truncate_xattr_node_def x1_def Let_def split: if_splits option.splits)
    have fl: "inline_xattr_size L (xi_fi x') = ?n" using y(3) by (simp add: inline_xattr_size_def is_inode_flag_set_def)
    have "xattr_area L x' = take ?n buf @ replicate ?b 0" by (simp add: xattr_area_def y inl_take)
    also have "take ?n buf = hd' @ enc_xattrs es @ replicate (?n - hsize) 0"
    proof -
      have "min (?n - hsize) k = ?n - hsize" using inl(2) lA buf(2,6) by (simp add: A_def)
      then show ?thesis using inl(2) buf(2,6) lA by (simp add: buf(1) A_def)
    qed
    finally have "xattr_area L x' = hd' @ enc_xattrs es @ replicate j 0" by (simp add: j_def replicate_add)
    moreover have "node_footer_size L + 28 \<le> page_size L" using assms(2) by (simp add: xattr_layout_ok_def)
    then have "4 \<le> j" unfolding j_def by arith
    ultimately show ?thesis using stored [OF y(1) fl, of j] y by simp
  next
    case node
    obtain p where p: "xi_nodes x ?nid = Some p" "length p = page_size L" using st(2) node(1) by blast
    have y: "xi_inline x' = inl" "xi_fi x' = xi_fi x" "xi_mode x' = xi_mode x"
      "xi_nodes x' ?nid = Some (put_xattr_node L (drop ?n buf) p)"
      using p(1) by (simp_all add: node(2) x1_def)
    have "xattr_area L x' = hd' @ enc_xattrs es @ replicate k 0"
      using split node(1) node_page [OF p(2)] by (simp add: xattr_area_def y inl_take A_def)
    then show ?thesis using stored [OF y(1) _ _ buf(3)] y node_page [OF p(2)] by simp
  next
    case new
    have q: "q \<noteq> 0" using nid new(2) by auto
    have y: "xi_inline x' = inl" "i_xattr_nid (xi_fi x') = q" "i_flags (xi_fi x') = i_flags (xi_fi x)" "xi_mode x' = xi_mode x"
      "xi_nodes x' q = Some (put_xattr_node L (drop ?n buf) (replicate (page_size L) 0))"
      by (simp_all add: new(3) x1_def)
    have fl: "inline_xattr_size L (xi_fi x') = ?n" using y(3) by (simp add: inline_xattr_size_def is_inode_flag_set_def)
    note np = node_page [of "replicate (page_size L) 0", simplified]
    have "xattr_area L x' = hd' @ enc_xattrs es @ replicate k 0"
      using split q np by (simp add: xattr_area_def y inl_take A_def)
    then show ?thesis using stored [OF y(1) fl _ buf(3)] y np by simp
  qed
  then show "xattrs_stored L x' es" "xi_mode x' = xi_mode x" "i_flags (xi_fi x') = i_flags (xi_fi x)" by blast+
qed


section \<open>Lookup and update\<close>

text \<open>The entry a search finds in a buffer that stores \<open>es\<close>.\<close>

lemma find_stored:
  assumes "\<forall>e\<in>set es. xattr_ok e" "distinct (map xattr_key es)" "buf = hd' @ enc_xattrs es @ replicate k 0 @ post" "length hd' = 24" "4 \<le> k"
  shows "\<exists>p. find_xattr buf i nm 24 = Some p \<and> p = 24 + length (enc_xattrs (before (i, nm) es)) \<and>
      last_xattr buf p = Some (24 + length (enc_xattrs es)) \<and>
      (case xattr_map es (i, nm) of None \<Rightarrow> is_last_entry buf p
       | Some v \<Rightarrow> \<not> is_last_entry buf p \<and> e_name_len buf p = length nm \<and> e_value_size buf p = length v \<and>
           get_at (p + 4 + length nm) (length v) buf = v \<and> entry_size buf p = length (enc_xattr (i, nm, v)))"
proof -
  define p where "p = 24 + length (enc_xattrs (before (i, nm) es))"
  note fl = find_xattr_list [OF assms(1,4,3,5), of i nm]
  have f: "find_xattr buf i nm 24 = Some p" using fl by (simp add: p_def)
  show ?thesis
  proof (cases "xattr_map es (i, nm)")
    case None
    then have "before (i, nm) es = es" using before_none by blast
    then have p: "p = length (hd' @ enc_xattrs es)" using assms(4) by (simp add: p_def)
    have l: "is_last_entry buf p" "p + 4 \<le> length buf"
      by (rule last_at [of "hd' @ enc_xattrs es" p _ k post]; use p assms(3,5) in simp)+
    then have "last_xattr buf p = Some p" by (simp add: last_xattr.simps [of _ p])
    then show ?thesis using f l p None assms(4) by (simp add: p_def)
  next
    case (Some v)
    obtain ys where ys: "es = before (i, nm) es @ (i, nm, v) # ys" using before_some [OF assms(2) Some] by auto
    define xs where "xs = before (i, nm) es"
    have es: "es = xs @ (i, nm, v) # ys" using ys by (simp add: xs_def)
    have b: "buf = (hd' @ enc_xattrs xs) @ enc_xattr (i, nm, v) @ enc_xattrs ys @ replicate k 0 @ post"
      by (simp add: assms(3) es enc_xattrs_def)
    have pl: "length (hd' @ enc_xattrs xs) = p" using assms(4) by (simp add: p_def xs_def)
    have ok: "xattr_ok (i, nm, v)" "\<forall>e\<in>set ((i, nm, v) # ys). xattr_ok e" using assms(1) by (simp_all add: es)
    note en = entry_at [OF ok(1) pl b]
    have b2: "buf = (hd' @ enc_xattrs xs) @ enc_xattrs ((i, nm, v) # ys) @ replicate k 0 @ post" by (simp add: b enc_xattrs_def)
    have "last_xattr buf p = Some (p + length (enc_xattrs ((i, nm, v) # ys)))" using find_xattr_list [OF ok(2) pl b2 assms(5)] by blast
    moreover have "p + length (enc_xattrs ((i, nm, v) # ys)) = 24 + length (enc_xattrs es)"
      using pl assms(4) by (simp add: es enc_xattrs_def)
    ultimately show ?thesis using f en Some by (simp add: p_def)
  qed
qed

lemma get_spec:
  assumes st: "xattrs_stored L x es" "xattr_layout_ok L" and n: "length nm \<le> name_len L"
    and rd: "read_all_xattrs L E ipage x = Some buf"
  shows "f2fs_getxattr L E i (Some nm) bs ipage x = Some (case xattr_map es (i, nm) of None \<Rightarrow> Inl ENODATA
    | Some v \<Rightarrow> if (case bs of None \<Rightarrow> False | Some b \<Rightarrow> b < length v) then Inl ERANGE else Inr v)"
proof -
  obtain hd' k post where b: "buf = hd' @ enc_xattrs es @ replicate k 0 @ post" "length hd' = 24" "4 \<le> k"
    using read_all_stored [OF st rd] by blast
  have ok: "\<forall>e\<in>set es. xattr_ok e" "distinct (map xattr_key es)" using st(1) by (simp_all add: xattrs_stored_def)
  obtain p where "find_xattr buf i nm 24 = Some p"
      "case xattr_map es (i, nm) of None \<Rightarrow> is_last_entry buf p
       | Some v \<Rightarrow> \<not> is_last_entry buf p \<and> e_name_len buf p = length nm \<and> e_value_size buf p = length v \<and>
           get_at (p + 4 + length nm) (length v) buf = v"
    using find_stored [OF ok b, of i nm] by (auto split: option.splits)
  then show ?thesis using n rd by (auto simp: f2fs_getxattr_def split: option.splits)
qed


text \<open>The list after a set: the new value, if any, comes last.\<close>

definition set_list :: "nat \<Rightarrow> u8 list \<Rightarrow> u8 list option \<Rightarrow> xattr list \<Rightarrow> xattr list" where
  "set_list i nm v es = others (i, nm) es @ (case v of None \<Rightarrow> [] | Some v \<Rightarrow> [(i, nm, v)])"

lemma set_list_map: "xattr_map (set_list i nm v es) = (xattr_map es)((i, nm) := v)"
  using xattr_map_snoc [of "others (i, nm) es" i nm]
  by (auto simp: set_list_def xattr_map_filter split: option.split)

lemma set_list_ok:
  assumes "\<forall>e\<in>set es. xattr_ok e" "distinct (map xattr_key es)" "\<And>u. v = Some u \<Longrightarrow> xattr_ok (i, nm, u)"
  shows "\<forall>e\<in>set (set_list i nm v es). xattr_ok e" "distinct (map xattr_key (set_list i nm v es))"
  using assms by (auto simp: set_list_def others_def distinct_map inj_on_def split: option.splits)

text \<open>Removing the old entry from the buffer, if there is one.\<close>

lemma removed_buf:
  assumes ok: "\<forall>e\<in>set es. xattr_ok e" "distinct (map xattr_key es)"
    and b: "buf = hd' @ enc_xattrs es @ replicate k 0 @ post" "length hd' = 24" "4 \<le> k"
    and p: "p = 24 + length (enc_xattrs (before (i, nm) es))" "xattr_map es (i, nm) = Some u"
  defines "old \<equiv> length (enc_xattr (i, nm, u))" and "rest \<equiv> others (i, nm) es"
  shows "remove_entry p (24 + length (enc_xattrs es)) buf = (hd' @ enc_xattrs rest @ replicate (old + k) 0 @ post, 24 + length (enc_xattrs rest))"
    "length (enc_xattrs es) = length (enc_xattrs rest) + old"
proof -
  obtain ys where ys: "es = before (i, nm) es @ (i, nm, u) # ys" "rest = before (i, nm) es @ ys"
    using before_some [OF ok(2) p(2)] by (auto simp: rest_def)
  define xs where "xs = before (i, nm) es"
  have es: "es = xs @ (i, nm, u) # ys" "rest = xs @ ys" using ys by (simp_all add: xs_def)
  have bb: "buf = hd' @ enc_xattrs xs @ enc_xattr (i, nm, u) @ enc_xattrs ys @ replicate k 0 @ post"
    by (simp add: b(1) es(1) enc_xattrs_def)
  show ln: "length (enc_xattrs es) = length (enc_xattrs rest) + old" by (simp add: es enc_xattrs_def old_def)
  have "xattr_ok (i, nm, u)" using ok(1) by (simp add: es)
  then show "remove_entry p (24 + length (enc_xattrs es)) buf = (hd' @ enc_xattrs rest @ replicate (old + k) 0 @ post, 24 + length (enc_xattrs rest))"
    using remove_entry_list [OF _ bb, of p "24 + length (enc_xattrs es)"] b(2) p(1)
    by (simp add: es(2) old_def xs_def [symmetric]) (simp add: es(1) enc_xattrs_def)
qed

lemma new_buf_spec:
  assumes ok: "\<forall>e\<in>set es. xattr_ok e" "distinct (map xattr_key es)"
    and b: "buf = hd' @ enc_xattrs es @ replicate k 0 @ post" "length hd' = 24" "4 \<le> k"
    and p: "p = 24 + length (enc_xattrs (before (i, nm) es))"
      "case xattr_map es (i, nm) of None \<Rightarrow> is_last_entry buf p | Some u \<Rightarrow> \<not> is_last_entry buf p \<and> entry_size buf p = length (enc_xattr (i, nm, u))"
    and es': "es' = set_list i nm v es" and lst: "lst = 24 + length (enc_xattrs es)"
    and room: "24 + length (enc_xattrs es') + 4 \<le> 24 + length (enc_xattrs es) + k"
  shows "new_buf i nm v p lst buf = (hd' @ enc_xattrs es' @ replicate (length (enc_xattrs es) + k - length (enc_xattrs es')) 0 @ post,
      24 + length (enc_xattrs es'))"
proof -
  define rest where "rest = others (i, nm) es"
  define k1 where "k1 = length (enc_xattrs es) + k - length (enc_xattrs rest)"
  have r: "(if \<not> is_last_entry buf p then remove_entry p lst buf else (buf, lst)) =
      (hd' @ enc_xattrs rest @ replicate k1 0 @ post, 24 + length (enc_xattrs rest))"
  proof (cases "xattr_map es (i, nm)")
    case None
    then have "rest = es" using before_none by (simp add: rest_def)
    then show ?thesis using None p(2) by (simp add: b(1) lst k1_def)
  next
    case (Some u)
    note rm = removed_buf [OF ok b p(1) Some, folded rest_def]
    show ?thesis using Some p(2) rm by (simp add: lst k1_def)
  qed
  show ?thesis
  proof (cases v)
    case None
    then show ?thesis using es' unfolding new_buf_def r by (simp add: set_list_def rest_def [symmetric] k1_def)
  next
    case (Some u)
    have e': "enc_xattrs es' = enc_xattrs rest @ enc_xattr (i, nm, u)"
      using Some by (simp add: es' set_list_def rest_def [symmetric] enc_xattrs_app) (simp add: enc_xattrs_def)
    define n where "n = xattr_align (4 + length nm + length u)"
    have n: "length (enc_xattr (i, nm, u)) = n" by (simp add: enc_xattr_len n_def)
    have "n \<le> k1" using room by (simp add: e' n k1_def)
    then have "write_entry i nm u (24 + length (enc_xattrs rest)) (hd' @ enc_xattrs rest @ replicate k1 0 @ post) =
        (hd' @ enc_xattrs rest) @ enc_xattr (i, nm, u) @ replicate (k1 - n) 0 @ post"
      unfolding n_def by (intro write_entry_list) (simp_all add: b(2))
    then show ?thesis
      unfolding new_buf_def r using Some by (simp add: e' n n_def [symmetric] k1_def)
  qed
qed

lemma set_spec:
  assumes st: "xattrs_stored L x es" "xattr_layout_ok L" and n: "length nm \<le> name_len L"
    and rd: "read_all_xattrs L E ipage x = Some buf" and es': "es' = set_list i nm v es"
  shows "\<exists>hd' k post. length hd' = 24 \<and> le32_of (take 4 hd') = F2FS_XATTR_MAGIC \<and>
    length hd' + length (enc_xattrs es) + k = xattr_room L (xi_fi x) \<and>
    (v = None \<or> \<not> min_offset L (xi_fi x) < 24 + length (enc_xattrs es') \<longrightarrow> length (enc_xattrs es') + 4 \<le> length (enc_xattrs es) + k) \<and>
    f2fs_setxattr L E i (Some nm) v ipage flags x =
    (if (case v of None \<Rightarrow> False | Some u \<Rightarrow> max_value_len L (xi_fi x) < length u) then Some (Some ERANGE, x)
     else if flags = XATTR_REPLACE \<and> xattr_map es (i, nm) = None then Some (Some ENODATA, x)
     else if flags = XATTR_CREATE \<and> xattr_map es (i, nm) \<noteq> None then Some (Some EEXIST, x)
     else if v \<noteq> None \<and> min_offset L (xi_fi x) < 24 + length (enc_xattrs es') then Some (Some ENOSPC, x)
     else Some (let (err, x') = write_all_xattrs L E ipage (24 + length (enc_xattrs es'))
            (hd' @ enc_xattrs es' @ replicate (length (enc_xattrs es) + k - length (enc_xattrs es')) 0 @ post) x
        in if err \<noteq> None then (err, x') else (None, take_acl_mode x')))"
proof -
  obtain hd' k post where b: "buf = hd' @ enc_xattrs es @ replicate k 0 @ post" "length hd' = 24" "4 \<le> k"
      "le32_of (take 4 hd') = F2FS_XATTR_MAGIC" "length (hd' @ enc_xattrs es @ replicate k 0) = xattr_room L (xi_fi x)"
    using read_all_stored [OF st rd] by blast
  have ok: "\<forall>e\<in>set es. xattr_ok e" "distinct (map xattr_key es)" using st(1) by (simp_all add: xattrs_stored_def)
  obtain p where p: "find_xattr buf i nm 24 = Some p" "p = 24 + length (enc_xattrs (before (i, nm) es))"
      "last_xattr buf p = Some (24 + length (enc_xattrs es))"
      "case xattr_map es (i, nm) of None \<Rightarrow> is_last_entry buf p
       | Some v \<Rightarrow> \<not> is_last_entry buf p \<and> e_name_len buf p = length nm \<and> e_value_size buf p = length v \<and>
           get_at (p + 4 + length nm) (length v) buf = v \<and> entry_size buf p = length (enc_xattr (i, nm, v))"
    using find_stored [OF ok b(1-3), of i nm] by blast
  have room: "min_offset L (xi_fi x) + 4 = 24 + length (enc_xattrs es) + k"
    using min_offset_eq(1) [OF st(2)] b(2,5) by simp
  define fr where "fr = int (min_offset L (xi_fi x)) - int (24 + length (enc_xattrs es)) + (if xattr_map es (i, nm) \<noteq> None then int (entry_size buf p) else 0)"
  have found: "\<not> is_last_entry buf p \<longleftrightarrow> xattr_map es (i, nm) \<noteq> None" using p(4) by (auto split: option.splits)
  have nf: "is_last_entry buf p \<longleftrightarrow> xattr_map es (i, nm) = None" using found by blast
  have space: "fr < int (xattr_align (4 + length nm + length u)) \<longleftrightarrow> min_offset L (xi_fi x) < 24 + length (enc_xattrs es')" if "v = Some u" for u
  proof (cases "xattr_map es (i, nm)")
    case None
    then have "set_list i nm v es = es @ [(i, nm, u)]" using before_none that by (simp add: set_list_def)
    then have "length (enc_xattrs es') = length (enc_xattrs es) + xattr_align (4 + length nm + length u)"
      by (simp add: es' enc_xattrs_app enc_xattr_len) (simp add: enc_xattrs_def enc_xattr_len)
    then show ?thesis using None p(4) by (simp add: fr_def) linarith
  next
    case (Some w)
    have "length (enc_xattrs es') + length (enc_xattr (i, nm, w)) = length (enc_xattrs es) + xattr_align (4 + length nm + length u)"
      using removed_buf(2) [OF ok b(1-3) p(2) Some] that
      by (simp add: es' set_list_def enc_xattrs_app) (simp add: enc_xattrs_def enc_xattr_len)
    then show ?thesis using Some p(4) by (simp add: fr_def) linarith
  qed
  have fits: "length (enc_xattrs es') + 4 \<le> length (enc_xattrs es) + k"
    if "v = None \<or> \<not> min_offset L (xi_fi x) < 24 + length (enc_xattrs es')"
  proof -
    have "v = None \<Longrightarrow> length (enc_xattrs es') \<le> length (enc_xattrs es)"
      using removed_buf(2) [OF ok b(1-3) p(2)] before_none [of es "(i, nm)"]
      by (cases "xattr_map es (i, nm)") (auto simp: es' set_list_def)
    then show ?thesis using that room b(3) by auto
  qed
  have nb: "new_buf i nm v p (24 + length (enc_xattrs es)) buf =
      (hd' @ enc_xattrs es' @ replicate (length (enc_xattrs es) + k - length (enc_xattrs es')) 0 @ post, 24 + length (enc_xattrs es'))"
    if "v = None \<or> \<not> min_offset L (xi_fi x) < 24 + length (enc_xattrs es')"
  proof (rule new_buf_spec [OF ok b(1-3) p(2) _ es' refl])
    show "case xattr_map es (i, nm) of None \<Rightarrow> is_last_entry buf p | Some u \<Rightarrow> \<not> is_last_entry buf p \<and> entry_size buf p = length (enc_xattr (i, nm, u))"
      using p(4) by (auto split: option.splits)
    show "24 + length (enc_xattrs es') + 4 \<le> 24 + length (enc_xattrs es) + k" using fits that by simp
  qed
  show ?thesis
  proof (intro exI conjI)
    show "length hd' = 24" "le32_of (take 4 hd') = F2FS_XATTR_MAGIC" by (rule b)+
    show "length hd' + length (enc_xattrs es) + k = xattr_room L (xi_fi x)" using b(5) by simp
    show "v = None \<or> \<not> min_offset L (xi_fi x) < 24 + length (enc_xattrs es') \<longrightarrow> length (enc_xattrs es') + 4 \<le> length (enc_xattrs es) + k"
      using fits by blast
    have sz: "(length nm > name_len L \<or> (case v of None \<Rightarrow> 0 | Some v \<Rightarrow> length v) > max_value_len L (xi_fi x)) =
        (case v of None \<Rightarrow> False | Some u \<Rightarrow> max_value_len L (xi_fi x) < length u)" using n by (simp split: option.split)
    show "f2fs_setxattr L E i (Some nm) v ipage flags x =
      (if (case v of None \<Rightarrow> False | Some u \<Rightarrow> max_value_len L (xi_fi x) < length u) then Some (Some ERANGE, x)
       else if flags = XATTR_REPLACE \<and> xattr_map es (i, nm) = None then Some (Some ENODATA, x)
       else if flags = XATTR_CREATE \<and> xattr_map es (i, nm) \<noteq> None then Some (Some EEXIST, x)
       else if v \<noteq> None \<and> min_offset L (xi_fi x) < 24 + length (enc_xattrs es') then Some (Some ENOSPC, x)
       else Some (let (err, x') = write_all_xattrs L E ipage (24 + length (enc_xattrs es'))
              (hd' @ enc_xattrs es' @ replicate (length (enc_xattrs es) + k - length (enc_xattrs es')) 0 @ post) x
          in if err \<noteq> None then (err, x') else (None, take_acl_mode x')))"
    proof (cases "v \<noteq> None \<and> min_offset L (xi_fi x) < 24 + length (enc_xattrs es')")
      case True
      then obtain u where u: "v = Some u" by blast
      then have "v \<noteq> None \<and> fr < int (xattr_align (4 + length nm + (case v of None \<Rightarrow> 0 | Some v \<Rightarrow> length v)))"
        using True space by auto
      note e = f2fs_setxattr_def option.case Let_def sz rd p(1,3) not_not nf fr_def [symmetric] if_P [OF this] if_P [OF True]
      show ?thesis unfolding e by (rule refl)
    next
      case False
      then have nsp: "\<not> (v \<noteq> None \<and> fr < int (xattr_align (4 + length nm + (case v of None \<Rightarrow> 0 | Some v \<Rightarrow> length v))))"
        using space by (cases v) auto
      have "new_buf i nm v p (24 + length (enc_xattrs es)) buf =
        (hd' @ enc_xattrs es' @ replicate (length (enc_xattrs es) + k - length (enc_xattrs es')) 0 @ post, 24 + length (enc_xattrs es'))"
        using False by (intro nb) blast
      note e = f2fs_setxattr_def option.case Let_def sz rd p(1,3) this prod.case not_not nf fr_def [symmetric] if_not_P [OF nsp] if_not_P [OF False]
      show ?thesis unfolding e by (auto split: prod.split)
    qed
  qed
qed


text \<open>
  What the attributes of an inode are, as a map; \<open>write_all_xattrs\<close> fails only by errors of its calls.
\<close>

definition xattrs :: "layout \<Rightarrow> xattr_inode \<Rightarrow> (nat \<times> u8 list \<rightharpoonup> u8 list) \<Rightarrow> bool" where
  "xattrs L x m \<longleftrightarrow> (\<exists>es. xattrs_stored L x es \<and> xattr_map es = m)"

lemma take_acl_mode_stored: "xattrs_stored L x es \<Longrightarrow> xattrs_stored L (take_acl_mode x) es"
proof -
  assume st: "xattrs_stored L x es"
  have f: "inline_xattr_size L (clear_inode_flag fi FI_ACL_MODE) = inline_xattr_size L fi"
    "i_xattr_nid (clear_inode_flag fi FI_ACL_MODE) = i_xattr_nid fi" for fi
    by (simp_all add: inline_xattr_size_def is_inode_flag_set_def clear_inode_flag_def bit_unset_bit_iff)
  have "xattr_area L (take_acl_mode x) = xattr_area L x" "i_xattr_nid (xi_fi (take_acl_mode x)) = i_xattr_nid (xi_fi x)"
    "inline_xattr_size L (xi_fi (take_acl_mode x)) = inline_xattr_size L (xi_fi x)" "xi_nodes (take_acl_mode x) = xi_nodes x"
    "xi_inline (take_acl_mode x) = xi_inline x"
    by (simp_all add: take_acl_mode_def xattr_area_def f)
  then show ?thesis using st unfolding xattrs_stored_def by simp
qed

lemma set_ok_stored:
  assumes lay: "xattr_layout_ok L" and st: "xattrs_stored L x es" and n: "0 < i" "i < 256"
    and nid: "xe_nid E \<noteq> Some 0" and r: "f2fs_setxattr L E i (Some nm) v ipage flags x = Some (None, x')"
  shows "xattrs_stored L x' (set_list i nm v es)"
proof -
  let ?es = "set_list i nm v es"
  have ln: "length nm \<le> name_len L" using r by (auto simp: f2fs_setxattr_def Let_def split: if_splits)
  obtain buf where rd: "read_all_xattrs L E ipage x = Some buf"
    using r ln by (cases "read_all_xattrs L E ipage x") (auto simp: f2fs_setxattr_def Let_def split: if_splits)
  obtain hd' k post where sp: "length hd' = 24" "le32_of (take 4 hd') = F2FS_XATTR_MAGIC"
      "length hd' + length (enc_xattrs es) + k = xattr_room L (xi_fi x)"
      "v = None \<or> \<not> min_offset L (xi_fi x) < 24 + length (enc_xattrs ?es) \<longrightarrow> length (enc_xattrs ?es) + 4 \<le> length (enc_xattrs es) + k"
    and set: "f2fs_setxattr L E i (Some nm) v ipage flags x =
    (if (case v of None \<Rightarrow> False | Some u \<Rightarrow> max_value_len L (xi_fi x) < length u) then Some (Some ERANGE, x)
     else if flags = XATTR_REPLACE \<and> xattr_map es (i, nm) = None then Some (Some ENODATA, x)
     else if flags = XATTR_CREATE \<and> xattr_map es (i, nm) \<noteq> None then Some (Some EEXIST, x)
     else if v \<noteq> None \<and> min_offset L (xi_fi x) < 24 + length (enc_xattrs ?es) then Some (Some ENOSPC, x)
     else Some (let (err, x') = write_all_xattrs L E ipage (24 + length (enc_xattrs ?es))
            (hd' @ enc_xattrs ?es @ replicate (length (enc_xattrs es) + k - length (enc_xattrs ?es)) 0 @ post) x
        in if err \<noteq> None then (err, x') else (None, take_acl_mode x')))"
    using set_spec [OF st lay ln rd refl, where v = v and flags = flags and i = i] by blast
  define j where "j = length (enc_xattrs es) + k - length (enc_xattrs ?es)"
  define buf' where "buf' = hd' @ enc_xattrs ?es @ replicate j 0 @ post"
  have "\<exists>y. write_all_xattrs L E ipage (24 + length (enc_xattrs ?es)) buf' x = (None, y) \<and> x' = take_acl_mode y \<and>
      (v = None \<or> \<not> min_offset L (xi_fi x) < 24 + length (enc_xattrs ?es)) \<and> \<not> (case v of None \<Rightarrow> False | Some u \<Rightarrow> max_value_len L (xi_fi x) < length u)"
    using r unfolding set j_def [symmetric] buf'_def [symmetric] by (auto split: if_split_asm prod.splits)
  then obtain y where y: "write_all_xattrs L E ipage (24 + length (enc_xattrs ?es)) buf' x = (None, y)" "x' = take_acl_mode y"
      "v = None \<or> \<not> min_offset L (xi_fi x) < 24 + length (enc_xattrs ?es)" "\<not> (case v of None \<Rightarrow> False | Some u \<Rightarrow> max_value_len L (xi_fi x) < length u)" by blast
  have ok: "\<forall>e\<in>set es. xattr_ok e" "distinct (map xattr_key es)" using st by (simp_all add: xattrs_stored_def)
  have "xattr_ok (i, nm, u)" if "v = Some u" for u
    using n ln lay min_offset_eq(3) [OF lay, of "xi_fi x"] y(4) that by (auto simp: xattr_ok_def xattr_layout_ok_def)
  note es = set_list_ok [OF ok this]
  have fit: "length (enc_xattrs ?es) + 4 \<le> length (enc_xattrs es) + k" using sp(4) y(3) by blast
  have "xattrs_stored L y ?es"
    by (rule write_all_stored(1) [OF st lay buf'_def sp(1) _ sp(2) _ refl es nid y(1)]) (use fit sp(3) in \<open>simp_all add: j_def sp(1)\<close>)
  then show ?thesis unfolding y(2) by (rule take_acl_mode_stored)
qed


lemma no_space_or_write: "(if c then Some a else Some b) = Some (if c then a else b)" by simp

lemma set_without_write:
  fixes v :: "u8 list option"
  assumes lay: "xattr_layout_ok L" and m: "xattrs L x m" and n: "length nm \<le> name_len L"
    and rd: "read_all_xattrs L E ipage x \<noteq> None"
  defines "fits \<equiv> (case v of None \<Rightarrow> True | Some u \<Rightarrow> length u \<le> max_value_len L (xi_fi x))"
  shows "\<exists>err x'. f2fs_setxattr L E i (Some nm) v ipage flags x = Some (err, x') \<and>
     (\<not> fits \<longrightarrow> err = Some ERANGE \<and> x' = x) \<and>
     (fits \<and> flags = XATTR_CREATE \<and> m (i, nm) \<noteq> None \<longrightarrow> err = Some EEXIST \<and> x' = x) \<and>
     (fits \<and> flags = XATTR_REPLACE \<and> m (i, nm) = None \<longrightarrow> err = Some ENODATA \<and> x' = x)"
proof -
  obtain es where es: "xattrs_stored L x es" "xattr_map es = m" using m by (auto simp: xattrs_def)
  obtain buf where rd': "read_all_xattrs L E ipage x = Some buf" using rd by auto
  obtain X where X: "f2fs_setxattr L E i (Some nm) v ipage flags x =
    (if (case v of None \<Rightarrow> False | Some u \<Rightarrow> max_value_len L (xi_fi x) < length u) then Some (Some ERANGE, x)
     else if flags = XATTR_REPLACE \<and> xattr_map es (i, nm) = None then Some (Some ENODATA, x)
     else if flags = XATTR_CREATE \<and> xattr_map es (i, nm) \<noteq> None then Some (Some EEXIST, x) else Some X)"
    using set_spec [OF es(1) lay n rd' refl, where i = i and v = v and flags = flags] that by (elim exE conjE) (simp only: no_space_or_write)
  have f: "(case v of None \<Rightarrow> False | Some u \<Rightarrow> max_value_len L (xi_fi x) < length u) \<longleftrightarrow> \<not> fits"
    by (auto simp: fits_def split: option.split)
  show ?thesis unfolding X f es(2) by (cases X) auto
qed

text \<open>
  C32: Setting an attribute updates exactly that attribute: after a set that succeeded, for a name index from 1 to 255
  and with a node id other than 0 for a new attribute node, the attributes of the inode, inline or in their own
  node, are the old map with the name set to the value (or removed), and when they can be read a get of any
  name of legal length returns what that map holds (or \<open>ERANGE\<close> if the buffer is too short for it).
\<close>
theorem xattr_set_updates_map:
  assumes "xattr_layout_ok L" "xattrs L x m" "0 < i" "i < 256" "xe_nid E \<noteq> Some 0"
    and "f2fs_setxattr L E i (Some nm) v ipage flags x = Some (None, x')"
    and "length nm' \<le> name_len L" "read_all_xattrs L E' ipage' x' \<noteq> None"
  shows "xattrs L x' (m((i, nm) := v)) \<and>
    f2fs_getxattr L E' j (Some nm') bs ipage' x' =
      Some (case (m((i, nm) := v)) (j, nm') of None \<Rightarrow> Inl ENODATA
        | Some u \<Rightarrow> if (case bs of None \<Rightarrow> False | Some b \<Rightarrow> b < length u) then Inl ERANGE else Inr u)"
proof -
  obtain es where es: "xattrs_stored L x es" "xattr_map es = m" using assms(2) by (auto simp: xattrs_def)
  have st: "xattrs_stored L x' (set_list i nm v es)" by (rule set_ok_stored [OF assms(1) es(1) assms(3-6)])
  have m: "xattr_map (set_list i nm v es) = m((i, nm) := v)" by (simp add: set_list_map es(2))
  obtain buf where rd: "read_all_xattrs L E' ipage' x' = Some buf" using assms(8) by auto
  show ?thesis using st get_spec [OF st assms(1,7) rd, of j bs, unfolded m] m by (auto simp: xattrs_def)
qed

text \<open>
  A set that is refused changes nothing, and every set ends with an answer: a value that is too
  long gives \<open>ERANGE\<close>, creating a name that exists \<open>EEXIST\<close>, replacing one that does not \<open>ENODATA\<close>,
  and no access leaves the buffer.
\<close>
theorem xattr_set_refused:
  assumes "xattr_layout_ok L" "xattrs L x m" "length nm \<le> name_len L" "read_all_xattrs L E ipage x \<noteq> None"
  shows "\<exists>err x'. f2fs_setxattr L E i (Some nm) v ipage flags x = Some (err, x') \<and>
     (let fits = (case v of None \<Rightarrow> True | Some u \<Rightarrow> length u \<le> max_value_len L (xi_fi x))
      in (\<not> fits \<longrightarrow> err = Some ERANGE \<and> x' = x) \<and>
         (fits \<and> flags = XATTR_CREATE \<and> m (i, nm) \<noteq> None \<longrightarrow> err = Some EEXIST \<and> x' = x) \<and>
         (fits \<and> flags = XATTR_REPLACE \<and> m (i, nm) = None \<longrightarrow> err = Some ENODATA \<and> x' = x))"
  unfolding Let_def by (rule set_without_write [OF assms])


section \<open>Listing all names\<close>

fun list_all_entries :: "xattr_listing \<Rightarrow> bool \<Rightarrow> xattr list \<Rightarrow> u64 \<times> u8 list \<Rightarrow> errno + u64 \<times> u8 list" where
  "list_all_entries LE b [] acc = Inr acc"
| "list_all_entries LE b (e # es) acc =
     (case list_entry LE b (fst e) (fst (snd e)) acc of Inl err \<Rightarrow> Inl err | Inr acc \<Rightarrow> list_all_entries LE b es acc)"

lemma list_xattrs_list:
  assumes "\<forall>e\<in>set es. xattr_ok e" "length pre = p" "buf = pre @ enc_xattrs es @ replicate k 0 @ post" "4 \<le> k"
  shows "list_xattrs LE b buf p acc = Some (list_all_entries LE b es acc)"
  using assms
proof (induction es arbitrary: pre p acc)
  case Nil
  have n: "is_last_entry buf p" "p + 4 \<le> length buf"
    by (rule last_at [of pre]; use Nil.prems in \<open>simp add: enc_xattrs_def\<close>)+
  then show ?case by (simp add: list_xattrs.simps [of _ _ _ p])
next
  case (Cons e es)
  obtain j m v where e: "e = (j, m, v)" by (cases e)
  have bb: "buf = pre @ enc_xattr (j, m, v) @ enc_xattrs es @ replicate k 0 @ post" using Cons.prems(3) by (simp add: enc_xattrs_def e)
  have ok: "xattr_ok (j, m, v)" "\<forall>e\<in>set es. xattr_ok e" using Cons.prems(1) by (simp_all add: e)
  note en = entry_at [OF ok(1) Cons.prems(2) bb]
  have IH: "list_xattrs LE b buf (p + length (enc_xattr (j, m, v))) acc = Some (list_all_entries LE b es acc)" for acc
    using Cons.IH [OF ok(2), of "pre @ enc_xattr (j, m, v)" "p + length (enc_xattr (j, m, v))"] Cons.prems bb by simp
  have s: "list_xattrs LE b buf p acc = (case list_entry LE b j m acc of Inl e \<Rightarrow> Some (Inl e)
      | Inr acc \<Rightarrow> list_xattrs LE b buf (p + entry_size buf p) acc)"
    using en by (simp add: list_xattrs.simps [of _ _ _ p])
  show ?case unfolding s en(8) IH by (simp add: e split: sum.split)
qed

lemma rest_decreases:
  "list_entry LE True i nm (rest, out) = Inr (rest', out') \<Longrightarrow> rest' \<le> rest"
proof -
  assume a: "list_entry LE True i nm (rest, out) = Inr (rest', out')"
  have "rest - sz \<le> rest" if "sz \<le> rest" for sz :: u64
    using that unat_sub [OF that] by (simp add: word_le_nat_alt)
  then show ?thesis using a by (auto simp: list_entry_def not_less split: option.splits if_splits)
qed

text \<open>
  One trusted attribute hides all the others from a caller without the privilege: the handler
  answers \<open>-EPERM\<close>, which is taken for a size, so listing into a buffer fails with \<open>ERANGE\<close>
  however large the buffer is.
\<close>
theorem xattr_list_fails_on_trusted:
  assumes "xattr_layout_ok L" "xattrs L x m" "m (F2FS_XATTR_INDEX_TRUSTED, nm) \<noteq> None" "\<not> sys_admin LE"
    and "buffer_size < 2 ^ 63" "read_all_xattrs L E False x \<noteq> None"
  shows "f2fs_listxattr L E LE True buffer_size x = Some (Inl ERANGE)"
proof -
  obtain es where es: "xattrs_stored L x es" "xattr_map es = m" using assms(2) by (auto simp: xattrs_def)
  obtain buf where rd: "read_all_xattrs L E False x = Some buf" using assms(6) by auto
  obtain hd' k post where b: "buf = hd' @ enc_xattrs es @ replicate k 0 @ post" "length hd' = 24" "4 \<le> k"
    using read_all_stored [OF es(1) assms(1) rd] by blast
  have ok: "\<forall>e\<in>set es. xattr_ok e" using es(1) by (simp add: xattrs_stored_def)
  have "\<exists>e\<in>set es. fst e = F2FS_XATTR_INDEX_TRUSTED" using assms(3) unfolding es(2) [symmetric] xattr_map_none by auto
  then have "rest < 2 ^ 63 \<Longrightarrow> list_all_entries LE True es (rest, out) = Inl ERANGE" for rest out
  proof (induction es arbitrary: rest out)
    case (Cons e es)
    show ?case
    proof (cases "fst e = F2FS_XATTR_INDEX_TRUSTED")
      case True
      have "rest < - 1"
        by (rule less_trans [OF Cons.prems(1)]) (simp add: word_less_nat_alt unsigned_minus_1_eq_mask mask_eq_exp_minus_1)
      then have "list_entry LE True (fst e) (fst (snd e)) (rest, out) = Inl ERANGE"
        using True assms(4) by (simp add: list_entry_def f2fs_xattr_handler_list_def f2fs_xattr_generic_list_def
            F2FS_XATTR_INDEX_TRUSTED_def F2FS_XATTR_INDEX_USER_def Let_def)
      then show ?thesis by simp
    next
      case False
      show ?thesis
      proof (cases "list_entry LE True (fst e) (fst (snd e)) (rest, out)")
        case (Inl err)
        then have "err = ERANGE" by (auto simp: list_entry_def split: option.splits if_splits)
        then show ?thesis using Inl by simp
      next
        case (Inr acc)
        obtain r o' where a: "acc = (r, o')" by (cases acc)
        have "r < 2 ^ 63" using rest_decreases [OF Inr [unfolded a]] Cons.prems(1) by simp
        then show ?thesis using Cons.IH [of r o'] Cons.prems(2) False Inr by (simp add: a)
      qed
    qed
  qed simp
  then have "list_all_entries LE True es (buffer_size, []) = Inl ERANGE" using assms(5) by blast
  then show ?thesis using rd list_xattrs_list [OF ok b(2,1,3), of LE True "(buffer_size, [])"] by (simp add: f2fs_listxattr_def)
qed


section \<open>A concrete inode\<close>

definition xa_layout :: layout where
  "xa_layout = small_layout\<lparr>inline_xattr_addrs := 12\<rparr>"

text \<open>Two attributes, \<open>user.a\<close> and \<open>trusted.b\<close>, in the inline area, which they fill.\<close>

definition xa_inode :: xattr_inode where
  "xa_inode = \<lparr>xi_fi = \<lparr>i_mode_dir = False, i_mode_reg = True, i_blocks = 1, i_advise = 0, i_dir_level = 0, i_current_depth = 0,
       i_acl_mode = 0, i_flags = 512, dirty_pages = 0, i_xattr_nid = 0, i_ext = \<lparr>fofs = 0, blk = 0, len = 0\<rparr>\<rparr>,
     xi_mode = 0, xattr_ver = 0,
     xi_inline = le32_bytes F2FS_XATTR_MAGIC @ le32_bytes 1 @ replicate 16 0 @ enc_xattr (1, [97], [1, 2, 3, 4]) @ enc_xattr (4, [98], [5, 6, 7, 8]),
     xi_nodes = Map.empty, xi_nids = []\<rparr>"

definition xa_env :: xattr_env where
  "xa_env = \<lparr>xe_nomem = False, xe_inode_err = None, xe_node_err = None, xe_new_err = None, xe_nid = Some 9, xe_cp_ver = 3\<rparr>"

lemma xa_layout_ok: "xattr_layout_ok xa_layout"
  by (simp add: xattr_layout_ok_def xa_layout_def small_layout_def)

lemma xa_inode_xattrs: "xattrs xa_layout xa_inode [(1, [97]) \<mapsto> [1, 2, 3, 4], (4, [98]) \<mapsto> [5, 6, 7, 8]]"
proof -
  let ?es = "[(1, [97], [1, 2, 3, 4]), (4, [98], [5, 6, 7, 8])] :: xattr list"
  have "xattrs_stored xa_layout xa_inode ?es"
    unfolding xattrs_stored_def
  proof (intro conjI)
    have sz: "inline_xattr_size xa_layout (xi_fi xa_inode) = 48"
      by (simp add: inline_xattr_size_def xa_inode_def is_inode_flag_set_def xa_layout_def)
    show "length (xi_inline xa_inode) = inline_xattr_size xa_layout (xi_fi xa_inode)"
      unfolding sz by (simp add: xa_inode_def enc_xattr_len xattr_align_def)
    show "\<exists>hd' k. xattr_area xa_layout xa_inode = hd' @ enc_xattrs ?es @ replicate k 0 \<and> length hd' = 24 \<and> 4 \<le> k \<and>
        (le32_of (take 4 hd') = F2FS_XATTR_MAGIC \<or> ?es = [])"
      by (rule exI [of _ "le32_bytes F2FS_XATTR_MAGIC @ le32_bytes 1 @ replicate 16 0"], rule exI [of _ 40])
        (simp add: xattr_area_def xa_inode_def enc_xattrs_def xa_layout_def small_layout_def le32_roundtrip)
  qed (simp_all add: xa_inode_def xattr_ok_def)
  moreover have "xattr_map ?es = [(1, [97]) \<mapsto> [1, 2, 3, 4], (4, [98]) \<mapsto> [5, 6, 7, 8]]" by (auto simp: fun_eq_iff)
  ultimately show ?thesis unfolding xattrs_def by blast
qed

lemma xa_read: "read_all_xattrs xa_layout xa_env False xa_inode \<noteq> None"
  by (simp add: read_all_xattrs_def xa_env_def xa_inode_def Let_def)

theorem xattr_list_fails_on_trusted_witness:
  "f2fs_listxattr xa_layout xa_env \<lparr>user_xattrs = True, sys_admin = False, xattr_prefix = (\<lambda>_. [46]), acl_list = (\<lambda>_. (0, []))\<rparr> True 4096 xa_inode
     = Some (Inl ERANGE)"
  by (rule xattr_list_fails_on_trusted [OF xa_layout_ok xa_inode_xattrs _ _ _ xa_read, where nm = "[98]"])
    (simp_all add: F2FS_XATTR_INDEX_TRUSTED_def word_less_nat_alt)

theorem xattr_set_refused_witness:
  "\<exists>x'. f2fs_setxattr xa_layout xa_env 1 (Some [97]) (Some [9]) False XATTR_CREATE xa_inode = Some (Some EEXIST, x') \<and> x' = xa_inode"
  using xattr_set_refused [OF xa_layout_ok xa_inode_xattrs _ xa_read, of "[97]" 1 "Some [9]" XATTR_CREATE]
  by (auto simp: Let_def max_value_len_def min_offset_def xattr_align_def xa_layout_def small_layout_def)


theorem xattr_set_updates_map_witness:
  "\<exists>x'. f2fs_setxattr xa_layout xa_env 1 (Some [97]) (Some [9]) False XATTR_ANY xa_inode = Some (None, x') \<and>
     f2fs_getxattr xa_layout xa_env 4 (Some [98]) None False x' = Some (Inr [5, 6, 7, 8])"
proof -
  define r where "r = f2fs_setxattr xa_layout xa_env 1 (Some [97]) (Some [9]) False XATTR_ANY xa_inode"
  have "map_option fst r = Some None \<and> map_option (\<lambda>y. read_all_xattrs xa_layout xa_env False (snd y) \<noteq> None) r = Some True"
    unfolding r_def by code_simp
  then obtain x' where r: "r = Some (None, x')" "read_all_xattrs xa_layout xa_env False x' \<noteq> None" by (cases r) auto
  have "f2fs_getxattr xa_layout xa_env 4 (Some [98]) None False x' = Some (Inr [5, 6, 7, 8])"
    using xattr_set_updates_map [OF xa_layout_ok xa_inode_xattrs _ _ _ r(1) [unfolded r_def] _ r(2), of "[98]" 4 None]
    by (simp add: xa_env_def xa_layout_def small_layout_def)
  then show ?thesis using r(1) by (auto simp: r_def)
qed

text \<open>
  A set that fails is not undone: when the attributes no longer fit in the inline area and the new
  node cannot be made, the inline area has already been overwritten. Here replacing an attribute
  fails with \<open>ENOSPC\<close>, and its value is afterwards neither the old nor the new one.
\<close>
theorem xattr_failed_set_damages:
  "\<exists>x' u. xattrs xa_layout xa_inode [(1, [97]) \<mapsto> [1, 2, 3, 4], (4, [98]) \<mapsto> [5, 6, 7, 8]] \<and>
     f2fs_setxattr xa_layout (xa_env\<lparr>xe_new_err := Some ENOSPC\<rparr>) 1 (Some [97]) (Some [1, 1, 1, 1, 1, 1, 1, 1, 1, 1, 1]) False XATTR_ANY xa_inode
       = Some (Some ENOSPC, x') \<and>
     f2fs_getxattr xa_layout xa_env 1 (Some [97]) None False x' = Some (Inr u) \<and> u = [1, 1, 1, 1, 1, 1, 1, 0, 0, 0, 0]"
proof -
  define r where "r = f2fs_setxattr xa_layout (xa_env\<lparr>xe_new_err := Some ENOSPC\<rparr>) 1 (Some [97]) (Some [1, 1, 1, 1, 1, 1, 1, 1, 1, 1, 1]) False XATTR_ANY xa_inode"
  have "map_option fst r = Some (Some ENOSPC) \<and>
      map_option (\<lambda>y. f2fs_getxattr xa_layout xa_env 1 (Some [97]) None False (snd y)) r = Some (Some (Inr [1, 1, 1, 1, 1, 1, 1, 0, 0, 0, 0]))"
    unfolding r_def by code_simp
  then obtain x' where "r = Some (Some ENOSPC, x')" "f2fs_getxattr xa_layout xa_env 1 (Some [97]) None False x' = Some (Inr [1, 1, 1, 1, 1, 1, 1, 0, 0, 0, 0])"
    by (cases r) auto
  then show ?thesis using xa_inode_xattrs unfolding r_def by blast
qed

end
