(* ===== verification/Acl.thy ===== *)
theory Acl
  imports Xattr
begin

text \<open>
  POSIX ACLs (\<open>acl.c\<close>, \<open>acl.h\<close>): their format on disk, an attribute whose entries are short or carry an
  id, getting and setting them through the extended attributes, and the ACLs a new inode inherits.
  The numbers of the tags and \<open>posix_acl_equiv_mode\<close> are the kernel's, so they are parameters.
\<close>

section \<open>ACLs in memory and on disk\<close>

record acl_tags =
  ACL_USER_OBJ :: u16
  ACL_USER :: u16
  ACL_GROUP_OBJ :: u16
  ACL_GROUP :: u16
  ACL_MASK :: u16
  ACL_OTHER :: u16

definition acl_tags_ok :: "acl_tags \<Rightarrow> bool" where
  "acl_tags_ok T \<longleftrightarrow> distinct [ACL_USER_OBJ T, ACL_USER T, ACL_GROUP_OBJ T, ACL_GROUP T, ACL_MASK T, ACL_OTHER T]"

text \<open>An entry: the id of a named user or group, which the other entries do not have.\<close>

record posix_acl_entry =
  a_tag :: u16          \<comment> \<open>e_tag\<close>
  a_perm :: u16         \<comment> \<open>e_perm\<close>
  a_id :: "u32 option"  \<comment> \<open>e_uid or e_gid\<close>

type_synonym posix_acl = "posix_acl_entry list"

definition F2FS_ACL_VERSION :: u32 where
  "F2FS_ACL_VERSION = 1"

definition short_tag :: "acl_tags \<Rightarrow> u16 \<Rightarrow> bool" where
  "short_tag T t \<longleftrightarrow> t \<in> {ACL_USER_OBJ T, ACL_GROUP_OBJ T, ACL_MASK T, ACL_OTHER T}"

definition long_tag :: "acl_tags \<Rightarrow> u16 \<Rightarrow> bool" where
  "long_tag T t \<longleftrightarrow> t \<in> {ACL_USER T, ACL_GROUP T}"

definition f2fs_acl_size :: "nat \<Rightarrow> nat" where
  "f2fs_acl_size count = (if count \<le> 4 then 4 + count * 4 else 4 + 4 * 4 + (count - 4) * 8)"

definition f2fs_acl_count :: "u64 \<Rightarrow> int" where
  "f2fs_acl_count sz =
     (let sz = sz - 4;
          s = sint (sz - 16)
      in if s < 0 then if sz mod 4 \<noteq> 0 then -1 else int (unat (sz div 4))
         else if s mod 8 \<noteq> 0 then -1 else s div 8 + 4)"

text \<open>
  Reading \<open>n\<close> entries from the offset \<open>p\<close>: the entries and the offset behind them, an error, or
  \<open>None\<close> for a read behind the end of the value.
\<close>

fun acl_entries_from :: "acl_tags \<Rightarrow> u8 list \<Rightarrow> nat \<Rightarrow> nat \<Rightarrow> (errno + posix_acl \<times> nat) option" where
  "acl_entries_from T v 0 p = Some (Inr ([], p))"
| "acl_entries_from T v (Suc n) p =
     (if p > length v then Some (Inl EINVAL)
      else if p + 4 > length v then None
      else let tag = le16_of (get_at p 2 v);
               perm = le16_of (get_at (p + 2) 2 v);
               cont = (\<lambda>id p. case acl_entries_from T v n p of
                   Some (Inr (es, q)) \<Rightarrow> Some (Inr (\<lparr>a_tag = tag, a_perm = perm, a_id = id\<rparr> # es, q))
                 | r \<Rightarrow> r)
           in if short_tag T tag then cont None (p + 4)
              else if long_tag T tag then if p + 8 > length v then None else cont (Some (le32_of (get_at (p + 4) 4 v))) (p + 8)
              else Some (Inl EINVAL))"

definition f2fs_acl_from_disk :: "acl_tags \<Rightarrow> bool \<Rightarrow> u8 list \<Rightarrow> (errno + posix_acl option) option" where
  "f2fs_acl_from_disk T nomem v =
     (if length v < 4 then None
      else if le32_of (get_at 0 4 v) \<noteq> F2FS_ACL_VERSION then Some (Inl EINVAL)
      else let count = f2fs_acl_count (of_nat (length v))
           in if count < 0 then Some (Inl EINVAL)
              else if count = 0 then Some (Inr None)
              else if nomem then Some (Inl ENOMEM)
              else case acl_entries_from T v (nat count) 4 of
                     None \<Rightarrow> None
                   | Some (Inl e) \<Rightarrow> Some (Inl e)
                   | Some (Inr (es, p)) \<Rightarrow> if p \<noteq> length v then Some (Inl EINVAL) else Some (Inr (Some es)))"

definition acl_entry_to :: "acl_tags \<Rightarrow> posix_acl_entry \<Rightarrow> u8 list option" where
  "acl_entry_to T e =
     (if long_tag T (a_tag e) then Some (le16_bytes (a_tag e) @ le16_bytes (a_perm e) @ le32_bytes (case a_id e of Some i \<Rightarrow> i | None \<Rightarrow> 0))
      else if short_tag T (a_tag e) then Some (le16_bytes (a_tag e) @ le16_bytes (a_perm e))
      else None)"

fun acl_entries_to :: "acl_tags \<Rightarrow> posix_acl \<Rightarrow> u8 list option" where
  "acl_entries_to T [] = Some []"
| "acl_entries_to T (e # es) =
     (case acl_entry_to T e of None \<Rightarrow> None
      | Some b \<Rightarrow> (case acl_entries_to T es of None \<Rightarrow> None | Some bs \<Rightarrow> Some (b @ bs)))"

text \<open>The bytes of the value; \<open>fresh\<close> is what the allocated memory held.\<close>

definition f2fs_acl_to_disk :: "acl_tags \<Rightarrow> bool \<Rightarrow> (nat \<Rightarrow> u8) \<Rightarrow> posix_acl \<Rightarrow> errno + u8 list" where
  "f2fs_acl_to_disk T nomem fresh acl =
     (if nomem then Inl ENOMEM
      else case acl_entries_to T acl of None \<Rightarrow> Inl EINVAL
      | Some bs \<Rightarrow> let b = le32_bytes F2FS_ACL_VERSION @ bs; sz = f2fs_acl_size (length acl)
                  in Inr (take sz b @ map fresh [length b..<sz]))"

section \<open>ACLs of an inode\<close>

datatype acl_type = ACL_TYPE_ACCESS | ACL_TYPE_DEFAULT

definition acl_name_index :: "acl_type \<Rightarrow> nat" where
  "acl_name_index ty = (if ty = ACL_TYPE_ACCESS then 2 else 3)"

text \<open>The inode and its cached ACLs: \<open>None\<close> when nothing is cached.\<close>

record acl_inode =
  ai_x :: xattr_inode
  ai_cache :: "acl_type \<Rightarrow> posix_acl option option"

text \<open>
  What the calls answer: those of the attributes, memory for the ACL, what it held, and
  \<open>posix_acl_equiv_mode\<close>, which gives whether the ACL says more than a mode and the mode, or an error.
\<close>

record acl_env =
  ae_x :: xattr_env
  ae_nomem :: bool
  ae_fresh :: "nat \<Rightarrow> u8"
  ae_equiv :: "posix_acl \<Rightarrow> u16 \<Rightarrow> errno + bool \<times> u16"

definition set_cached_acl :: "acl_type \<Rightarrow> posix_acl option \<Rightarrow> acl_inode \<Rightarrow> acl_inode" where
  "set_cached_acl ty acl a = a\<lparr>ai_cache := (ai_cache a)(ty := Some acl)\<rparr>"

definition f2fs_get_acl :: "layout \<Rightarrow> acl_tags \<Rightarrow> acl_env \<Rightarrow> bool \<Rightarrow> acl_type \<Rightarrow> acl_inode \<Rightarrow> ((errno + posix_acl option) \<times> acl_inode) option" where
  "f2fs_get_acl L T E dpage ty a =
     (let index = acl_name_index ty;
          finish = (\<lambda>acl. case acl of Inl e \<Rightarrow> Some (Inl e, a) | Inr p \<Rightarrow> Some (Inr p, set_cached_acl ty p a))
      in case f2fs_getxattr L (ae_x E) index (Some []) None dpage (ai_x a) of
           None \<Rightarrow> None
         | Some (Inl e) \<Rightarrow> if e = ENODATA then finish (Inr None) else finish (Inl e)
         | Some (Inr []) \<Rightarrow> finish (Inr None)
         | Some (Inr v) \<Rightarrow>
             if ae_nomem E then Some (Inl ENOMEM, a)
             else (case f2fs_acl_from_disk T False v of None \<Rightarrow> None | Some r \<Rightarrow> finish r))"

definition f2fs_set_acl ::
  "layout \<Rightarrow> acl_tags \<Rightarrow> acl_env \<Rightarrow> bool \<Rightarrow> acl_type \<Rightarrow> posix_acl option \<Rightarrow> acl_inode \<Rightarrow> (errno option \<times> acl_inode) option" where
  "f2fs_set_acl L T E ipage ty acl a =
     (let store = (\<lambda>acl a.
            let value = (case acl of None \<Rightarrow> Inr None
                  | Some p \<Rightarrow> (case f2fs_acl_to_disk T (ae_nomem E) (ae_fresh E) p of Inl e \<Rightarrow> Inl e | Inr v \<Rightarrow> Inr (Some v)));
                clear = (\<lambda>x. x\<lparr>xi_fi := clear_inode_flag (xi_fi x) FI_ACL_MODE\<rparr>)
            in case value of Inl e \<Rightarrow> Some (Some e, a\<lparr>ai_x := clear (ai_x a)\<rparr>)
               | Inr v \<Rightarrow>
                   (case f2fs_setxattr L (ae_x E) (acl_name_index ty) (Some []) v ipage XATTR_ANY (ai_x a) of
                      None \<Rightarrow> None
                    | Some (err, x) \<Rightarrow>
                        let a = a\<lparr>ai_x := x\<rparr>;
                            a = (if err = None then set_cached_acl ty acl a else a)
                        in Some (err, a\<lparr>ai_x := clear (ai_x a)\<rparr>)))
      in case ty of
           ACL_TYPE_ACCESS \<Rightarrow>
             (case acl of None \<Rightarrow> store None a
              | Some p \<Rightarrow>
                  (case ae_equiv E p (xi_mode (ai_x a)) of
                     Inl e \<Rightarrow> Some (Some e, a)
                   | Inr (ext, mode) \<Rightarrow>
                       let x = (ai_x a)\<lparr>xi_mode := mode, xi_fi := set_acl_inode (xi_fi (ai_x a)) mode\<rparr>
                       in store (if ext then acl else None) (a\<lparr>ai_x := x\<rparr>)))
         | ACL_TYPE_DEFAULT \<Rightarrow>
             if \<not> i_mode_dir (xi_fi (ai_x a)) then Some (if acl \<noteq> None then Some EACCES else None, a)
             else store acl a)"

section \<open>The ACLs of a new inode\<close>

definition S_IRWXU :: u16 where "S_IRWXU = 0x1C0"
definition S_IRWXG :: u16 where "S_IRWXG = 0x38"
definition S_IRWXO :: u16 where "S_IRWXO = 7"
definition S_IRWXUGO :: u16 where "S_IRWXUGO = S_IRWXU OR S_IRWXG OR S_IRWXO"

text \<open>One entry: its new permissions, the mode, and whether the ACL says more than the mode.\<close>

definition masq_entry :: "acl_tags \<Rightarrow> posix_acl_entry \<Rightarrow> u16 \<Rightarrow> (posix_acl_entry \<times> u16 \<times> bool) option" where
  "masq_entry T pa mode =
     (if a_tag pa = ACL_USER_OBJ T
      then let pa = pa\<lparr>a_perm := a_perm pa AND (drop_bit 6 mode OR NOT S_IRWXO)\<rparr>
           in Some (pa, mode AND (push_bit 6 (a_perm pa) OR NOT S_IRWXU), False)
      else if a_tag pa = ACL_USER T \<or> a_tag pa = ACL_GROUP T then Some (pa, mode, True)
      else if a_tag pa = ACL_GROUP_OBJ T then Some (pa, mode, False)
      else if a_tag pa = ACL_OTHER T
      then let pa = pa\<lparr>a_perm := a_perm pa AND (mode OR NOT S_IRWXO)\<rparr>
           in Some (pa, mode AND (a_perm pa OR NOT S_IRWXO), False)
      else if a_tag pa = ACL_MASK T then Some (pa, mode, True)
      else None)"

fun masq_entries :: "acl_tags \<Rightarrow> posix_acl \<Rightarrow> u16 \<Rightarrow> (posix_acl \<times> u16 \<times> bool) option" where
  "masq_entries T [] mode = Some ([], mode, False)"
| "masq_entries T (pa # acl) mode =
     (case masq_entry T pa mode of None \<Rightarrow> None
      | Some (pa, mode, b) \<Rightarrow>
          (case masq_entries T acl mode of None \<Rightarrow> None
           | Some (acl, mode, c) \<Rightarrow> Some (pa # acl, mode, b \<or> c)))"

text \<open>The position of the last entry with the tag.\<close>

definition last_with_tag :: "u16 \<Rightarrow> posix_acl \<Rightarrow> nat option" where
  "last_with_tag t acl = fold (\<lambda>i r. if a_tag (acl ! i) = t then Some i else r) [0..<length acl] None"

definition f2fs_acl_create_masq :: "acl_tags \<Rightarrow> posix_acl \<Rightarrow> u16 \<Rightarrow> errno + (posix_acl \<times> u16 \<times> bool)" where
  "f2fs_acl_create_masq T acl mode0 =
     (case masq_entries T acl mode0 of None \<Rightarrow> Inl EIO
      | Some (acl, mode, not_equiv) \<Rightarrow>
          (case (case last_with_tag (ACL_MASK T) acl of Some i \<Rightarrow> Some i | None \<Rightarrow> last_with_tag (ACL_GROUP_OBJ T) acl) of
             None \<Rightarrow> Inl EIO
           | Some i \<Rightarrow>
               let perm = a_perm (acl ! i) AND (drop_bit 3 mode OR NOT S_IRWXO);
                   acl = acl[i := (acl ! i)\<lparr>a_perm := perm\<rparr>];
                   mode = mode AND (push_bit 3 perm OR NOT S_IRWXG)
               in Inr (acl, (mode0 AND NOT S_IRWXUGO) OR mode, not_equiv)))"

record acl_create_env =
  ce_symlink :: bool            \<comment> \<open>\<open>S_ISLNK(*mode)\<close>\<close>
  ce_isdir :: bool              \<comment> \<open>\<open>S_ISDIR(*mode)\<close>\<close>
  ce_posixacl :: bool           \<comment> \<open>\<open>IS_POSIXACL(dir)\<close>\<close>
  ce_umask :: u16
  ce_nomem :: bool              \<comment> \<open>of the copy\<close>

text \<open>The mode, the default ACL and the access ACL of the new inode, and the directory (its cache).\<close>

definition f2fs_acl_create ::
  "layout \<Rightarrow> acl_tags \<Rightarrow> acl_env \<Rightarrow> acl_create_env \<Rightarrow> bool \<Rightarrow> acl_inode \<Rightarrow> u16 \<Rightarrow>
     ((errno + u16 \<times> posix_acl option \<times> posix_acl option) \<times> acl_inode) option" where
  "f2fs_acl_create L T E CE dpage dir mode =
     (if ce_symlink CE \<or> \<not> ce_posixacl CE then Some (Inr (mode, None, None), dir)
      else case f2fs_get_acl L T E dpage ACL_TYPE_DEFAULT dir of
             None \<Rightarrow> None
           | Some (Inl e, dir) \<Rightarrow> Some (if e = EOPNOTSUPP then Inr (mode AND NOT (ce_umask CE), None, None) else Inl e, dir)
           | Some (Inr None, dir) \<Rightarrow> Some (Inr (mode AND NOT (ce_umask CE), None, None), dir)
           | Some (Inr (Some p), dir) \<Rightarrow>
               if ce_nomem CE then Some (Inl ENOMEM, dir)
               else (case f2fs_acl_create_masq T p mode of
                       Inl _ \<Rightarrow> Some (Inl ENOMEM, dir)
                     | Inr (acl, mode, not_equiv) \<Rightarrow>
                         Some (Inr (mode, if ce_isdir CE then Some p else None, if not_equiv then Some acl else None), dir)))"

definition f2fs_init_acl ::
  "layout \<Rightarrow> acl_tags \<Rightarrow> acl_env \<Rightarrow> acl_create_env \<Rightarrow> bool \<Rightarrow> bool \<Rightarrow> acl_inode \<times> acl_inode \<Rightarrow>
     (errno option \<times> acl_inode \<times> acl_inode) option" where
  "f2fs_init_acl L T E CE ipage dpage = (\<lambda>(a, dir).
     case f2fs_acl_create L T E CE dpage dir (xi_mode (ai_x a)) of
       None \<Rightarrow> None
     | Some (Inl e, dir) \<Rightarrow> Some (Some e, a, dir)
     | Some (Inr (mode, default_acl, acl), dir) \<Rightarrow>
         let a = a\<lparr>ai_x := (ai_x a)\<lparr>xi_mode := mode\<rparr>\<rparr>
         in case (case default_acl of None \<Rightarrow> Some (None, a) | Some p \<Rightarrow> f2fs_set_acl L T E ipage ACL_TYPE_DEFAULT (Some p) a) of
              None \<Rightarrow> None
            | Some (err, a) \<Rightarrow>
                (case acl of None \<Rightarrow> Some (err, a, dir)
                 | Some p \<Rightarrow>
                     if err \<noteq> None then Some (err, a, dir)
                     else case f2fs_set_acl L T E ipage ACL_TYPE_ACCESS (Some p) a of
                            None \<Rightarrow> None
                          | Some (err, a) \<Rightarrow> Some (err, a, dir)))"

section \<open>Round trip\<close>

text \<open>
  What \<open>posix_acl_valid\<close> of the kernel ensures: known tags, ids where they belong, and if a user or
  group is named, then one entry of each of the four other kinds.
\<close>

definition acl_ok :: "acl_tags \<Rightarrow> posix_acl \<Rightarrow> bool" where
  "acl_ok T acl \<longleftrightarrow> acl \<noteq> [] \<and> length acl < 2 ^ 16 \<and>
     (\<forall>e\<in>set acl. (short_tag T (a_tag e) \<and> a_id e = None) \<or> (long_tag T (a_tag e) \<and> a_id e \<noteq> None)) \<and>
     (let short = length (filter (\<lambda>e. short_tag T (a_tag e)) acl)
      in short \<le> 4 \<and> ((\<exists>e\<in>set acl. long_tag T (a_tag e)) \<longrightarrow> short = 4))"

lemma tags_apart: "acl_tags_ok T \<Longrightarrow> short_tag T t \<Longrightarrow> \<not> long_tag T t"
  by (auto simp: acl_tags_ok_def short_tag_def long_tag_def)

lemma acl_entries_roundtrip:
  assumes T: "acl_tags_ok T"
  shows "(\<forall>e\<in>set acl. (short_tag T (a_tag e) \<and> a_id e = None) \<or> (long_tag T (a_tag e) \<and> a_id e \<noteq> None)) \<Longrightarrow>
    \<exists>bs. acl_entries_to T acl = Some bs \<and>
      length bs = 4 * length (filter (\<lambda>e. short_tag T (a_tag e)) acl) + 8 * length (filter (\<lambda>e. long_tag T (a_tag e)) acl) \<and>
      (\<forall>pre post. acl_entries_from T (pre @ bs @ post) (length acl) (length pre) = Some (Inr (acl, length pre + length bs)))"
proof (induction acl)
  case (Cons e acl)
  obtain bs where bs: "acl_entries_to T acl = Some bs"
      "length bs = 4 * length (filter (\<lambda>e. short_tag T (a_tag e)) acl) + 8 * length (filter (\<lambda>e. long_tag T (a_tag e)) acl)"
      "\<And>pre post. acl_entries_from T (pre @ bs @ post) (length acl) (length pre) = Some (Inr (acl, length pre + length bs))"
    using Cons by auto
  define b where "b = le16_bytes (a_tag e) @ le16_bytes (a_perm e) @ (if long_tag T (a_tag e) then le32_bytes (the (a_id e)) else [])"
  have e: "acl_entry_to T e = Some b" "length b = (if long_tag T (a_tag e) then 8 else 4)"
    using Cons.prems tags_apart [OF T] by (auto simp: acl_entry_to_def b_def split: option.split)
  have "acl_entries_from T (pre @ (b @ bs) @ post) (length (e # acl)) (length pre) = Some (Inr (e # acl, length pre + length (b @ bs)))" for pre post
  proof -
    let ?v = "pre @ (b @ bs) @ post" and ?r = "(if long_tag T (a_tag e) then le32_bytes (the (a_id e)) else []) @ bs @ post"
    have v: "?v = pre @ le16_bytes (a_tag e) @ le16_bytes (a_perm e) @ ?r" by (simp add: b_def)
    define V where "V = pre @ (b @ bs) @ post"
    have g: "get_at (length pre) 2 V = le16_bytes (a_tag e)" "get_at (length pre + 2) 2 V = le16_bytes (a_perm e)"
      unfolding V_def v
      using get_at_parts [of pre "length pre" "le16_bytes (a_tag e)" 2 "le16_bytes (a_perm e) @ ?r"]
        get_at_parts [of "pre @ le16_bytes (a_tag e)" "length pre + 2" "le16_bytes (a_perm e)" 2 ?r] by simp_all
    have i: "long_tag T (a_tag e) \<Longrightarrow> get_at (length pre + 4) 4 V = le32_bytes (the (a_id e))"
      using get_at_parts [of "pre @ le16_bytes (a_tag e) @ le16_bytes (a_perm e)" "length pre + 4" "le32_bytes (the (a_id e))" 4 "bs @ post"]
      by (simp add: V_def b_def)
    have rec: "acl_entries_from T V (length acl) (length pre + length b) = Some (Inr (acl, length pre + length b + length bs))"
      using bs(3) [of "pre @ b" post] by (simp add: V_def)
    have lV: "length pre + length b \<le> length V" by (simp add: V_def)
    show ?thesis
    proof (cases "long_tag T (a_tag e)")
      case True
      then have ids: "\<not> short_tag T (a_tag e)" "a_id e = Some (the (a_id e))" using Cons.prems tags_apart [OF T, of "a_tag e"] by auto
      have eq: "e = \<lparr>a_tag = a_tag e, a_perm = a_perm e, a_id = Some (the (a_id e))\<rparr>" using ids(2) by simp
      show ?thesis
        using True ids(1) rec g i lV e(2) unfolding V_def [symmetric]
        by (simp add: le16_roundtrip le32_roundtrip Let_def) (subst (3) eq, simp)
    next
      case False
      then have ids: "short_tag T (a_tag e)" "a_id e = None" using Cons.prems by auto
      have eq: "e = \<lparr>a_tag = a_tag e, a_perm = a_perm e, a_id = None\<rparr>" using ids(2) by simp
      show ?thesis
        using False ids(1) rec g lV e(2) unfolding V_def [symmetric]
        by (simp add: le16_roundtrip Let_def) (subst (3) eq, simp)
    qed
  qed
  then show ?case
    using e bs(1,2) Cons.prems tags_apart [OF T, of "a_tag e"] by (intro exI [of _ "b @ bs"]) auto
qed simp


lemma acl_count_size:
  assumes "n < 2 ^ 16"
  shows "f2fs_acl_count (of_nat (f2fs_acl_size n)) = int n"
proof (cases "n \<le> 4")
  case True
  have "unat (of_nat n * 4 :: u64) = n * 4"
    using unat_of_nat_small [of "n * 4", where 'a = 64] True by simp
  moreover have "n = 0 \<or> n = 1 \<or> n = 2 \<or> n = 3 \<or> n = 4" using True by linarith
  ultimately show ?thesis by (auto simp: f2fs_acl_count_def f2fs_acl_size_def Let_def)
next
  case False
  define k where "k = (n - 4) * 8"
  have k: "k < 2 ^ 63" "k mod 8 = 0" "k div 8 = n - 4" using assms by (simp_all add: k_def)
  have sz: "of_nat (f2fs_acl_size n) - 4 - 16 = (of_nat k :: u64)" using False by (simp add: f2fs_acl_size_def k_def)
  have "sint (of_nat k :: u64) = int k" using k(1) by (simp add: signed_of_nat signed_take_bit_int_eq_self)
  then have s: "sint (of_nat (f2fs_acl_size n) - 4 - 16 :: u64) = int k" using sz by simp
  have "int k mod 8 = 0" "int k div 8 = int (n - 4)" using k(2,3) zmod_int [of k 8] zdiv_int [of k 8] by simp_all
  then show ?thesis using False by (simp only: f2fs_acl_count_def Let_def s) simp
qed

lemma acl_lengths:
  assumes T: "acl_tags_ok T" and ok: "acl_ok T acl"
  shows "4 + 4 * length (filter (\<lambda>e. short_tag T (a_tag e)) acl) + 8 * length (filter (\<lambda>e. long_tag T (a_tag e)) acl) = f2fs_acl_size (length acl)"
proof -
  let ?s = "length (filter (\<lambda>e. short_tag T (a_tag e)) acl)" and ?l = "length (filter (\<lambda>e. long_tag T (a_tag e)) acl)"
  have k: "\<forall>e\<in>set acl. short_tag T (a_tag e) \<or> long_tag T (a_tag e)" "?s \<le> 4" "(\<exists>e\<in>set acl. long_tag T (a_tag e)) \<longrightarrow> ?s = 4"
    using ok by (auto simp: acl_ok_def Let_def)
  have "filter (\<lambda>e. \<not> short_tag T (a_tag e)) acl = filter (\<lambda>e. long_tag T (a_tag e)) acl"
    using k(1) tags_apart [OF T] by (intro filter_cong) auto
  then have n: "length acl = ?s + ?l" using sum_length_filter_compl [of "\<lambda>e. short_tag T (a_tag e)" acl] by simp
  show ?thesis
  proof (cases "?l = 0")
    case True
    then show ?thesis using n k(2) by (simp add: f2fs_acl_size_def)
  next
    case False
    then have "?s = 4" using k(3) by (auto simp: filter_empty_conv)
    then show ?thesis using n False by (simp add: f2fs_acl_size_def)
  qed
qed

lemma acl_disk_roundtrip_lemma:
  assumes T: "acl_tags_ok T" and ok: "acl_ok T acl"
  shows "\<exists>v. f2fs_acl_to_disk T False fresh acl = Inr v \<and> length v = f2fs_acl_size (length acl) \<and>
    f2fs_acl_from_disk T False v = Some (Inr (Some acl))"
proof -
  have k: "\<forall>e\<in>set acl. (short_tag T (a_tag e) \<and> a_id e = None) \<or> (long_tag T (a_tag e) \<and> a_id e \<noteq> None)" "acl \<noteq> []" "length acl < 2 ^ 16"
    using ok by (simp_all add: acl_ok_def)
  obtain bs where bs: "acl_entries_to T acl = Some bs"
      "length bs = 4 * length (filter (\<lambda>e. short_tag T (a_tag e)) acl) + 8 * length (filter (\<lambda>e. long_tag T (a_tag e)) acl)"
      "\<And>pre post. acl_entries_from T (pre @ bs @ post) (length acl) (length pre) = Some (Inr (acl, length pre + length bs))"
    using acl_entries_roundtrip [OF T k(1)] by auto
  define v where "v = le32_bytes F2FS_ACL_VERSION @ bs"
  have ln: "length v = f2fs_acl_size (length acl)" using acl_lengths [OF T ok] bs(2) by (simp add: v_def)
  have "f2fs_acl_to_disk T False fresh acl = Inr v" using bs(1) ln by (simp add: f2fs_acl_to_disk_def v_def Let_def)
  moreover have "acl_entries_from T v (length acl) 4 = Some (Inr (acl, length v))"
    using bs(3) [of "le32_bytes F2FS_ACL_VERSION" "[]"] by (simp add: v_def)
  then have "f2fs_acl_from_disk T False v = Some (Inr (Some acl))"
    using acl_count_size [OF k(3)] k(2) ln unfolding f2fs_acl_from_disk_def Let_def
    by (simp add: v_def get_at_def le32_roundtrip)
  ultimately show ?thesis using ln by blast
qed

text \<open>
  An entry that starts exactly at the end of the value passes the check of its address, and is
  read from behind the value: a damaged ACL of four entries in the short size whose first two are
  named users makes the read leave the buffer.
\<close>
theorem acl_from_disk_leaves_buffer:
  assumes "acl_tags_ok T"
  shows "f2fs_acl_from_disk T False (le32_bytes F2FS_ACL_VERSION @
      concat (replicate 2 (le16_bytes (ACL_USER T) @ le16_bytes 7 @ le32_bytes 0))) = None"
proof -
  let ?e = "le16_bytes (ACL_USER T) @ le16_bytes 7 @ le32_bytes 0"
  define v where "v = le32_bytes F2FS_ACL_VERSION @ ?e @ ?e"
  have ln: "length v = 20" by (simp add: v_def)
  have g: "get_at 4 2 v = le16_bytes (ACL_USER T)" "get_at 12 2 v = le16_bytes (ACL_USER T)"
    by (simp_all add: v_def get_at_def)
  have t: "\<not> short_tag T (ACL_USER T)" "long_tag T (ACL_USER T)" using assms by (auto simp: acl_tags_ok_def short_tag_def long_tag_def)
  have "f2fs_acl_count (of_nat (f2fs_acl_size 4)) = int 4" by (rule acl_count_size) simp
  then have c: "f2fs_acl_count (of_nat (length v)) = 4" by (simp add: ln f2fs_acl_size_def)
  have "acl_entries_from T v (Suc (Suc (Suc (Suc 0)))) 4 = None"
    using g t ln by (simp add: Let_def le16_roundtrip)
  then have "f2fs_acl_from_disk T False v = None"
    unfolding f2fs_acl_from_disk_def Let_def c by (simp add: ln numeral_eq_Suc) (simp add: v_def get_at_def le32_roundtrip)
  then show ?thesis by (simp add: v_def numeral_eq_Suc)
qed


section \<open>Inherited permissions\<close>

definition sub_bits :: "u16 \<Rightarrow> u16 \<Rightarrow> bool" where
  "sub_bits a b \<longleftrightarrow> (\<forall>n. bit a n \<longrightarrow> bit b n)"

text \<open>What an entry becomes: it loses bits, and grants owner and others only what the mode \<open>m\<close> grants.\<close>

definition restricted :: "acl_tags \<Rightarrow> u16 \<Rightarrow> posix_acl_entry \<Rightarrow> posix_acl_entry \<Rightarrow> bool" where
  "restricted T m e e' \<longleftrightarrow> a_tag e' = a_tag e \<and> a_id e' = a_id e \<and> sub_bits (a_perm e') (a_perm e) \<and>
     (a_tag e = ACL_USER_OBJ T \<longrightarrow> (\<forall>n<3. bit (a_perm e') n \<longrightarrow> bit m (n + 6))) \<and>
     (a_tag e = ACL_OTHER T \<longrightarrow> (\<forall>n<3. bit (a_perm e') n \<longrightarrow> bit m n))"

lemma bit7: "bit (7 :: u16) n \<longleftrightarrow> n < 3"
proof -
  have "(7 :: u16) = mask 3" by (simp add: mask_eq_exp_minus_1)
  show ?thesis unfolding \<open>7 = mask 3\<close> bit_mask_iff by auto
qed

lemma bit_not_irwxo: "bit (NOT S_IRWXO) n \<longleftrightarrow> 3 \<le> n \<and> n < 16"
  unfolding S_IRWXO_def bit_not_iff bit7 by auto

text \<open>The mode \<open>m\<close> grants owner and others only what the entry grants.\<close>

definition mode_within :: "acl_tags \<Rightarrow> u16 \<Rightarrow> posix_acl_entry \<Rightarrow> bool" where
  "mode_within T m e \<longleftrightarrow> (a_tag e = ACL_USER_OBJ T \<longrightarrow> (\<forall>n<3. bit m (n + 6) \<longrightarrow> bit (a_perm e) n)) \<and>
     (a_tag e = ACL_OTHER T \<longrightarrow> (\<forall>n<3. bit m n \<longrightarrow> bit (a_perm e) n))"

text \<open>
  The group class of an ACL is its mask, or the entry of the owning group if it has none; of several such
  entries the last one.
\<close>

definition group_class :: "acl_tags \<Rightarrow> posix_acl \<Rightarrow> nat \<Rightarrow> bool" where
  "group_class T acl i \<longleftrightarrow> i < length acl \<and>
     a_tag (acl ! i) = (if ACL_MASK T \<in> a_tag ` set acl then ACL_MASK T else ACL_GROUP_OBJ T) \<and>
     (\<forall>j<length acl. i < j \<longrightarrow> a_tag (acl ! j) \<noteq> a_tag (acl ! i))"

lemma bit_irwxu: "bit S_IRWXU n \<longleftrightarrow> 6 \<le> n \<and> n < 9"
proof -
  have "S_IRWXU = push_bit 6 7" by (simp add: S_IRWXU_def push_bit_eq_mult)
  show ?thesis unfolding \<open>S_IRWXU = push_bit 6 7\<close> bit_push_bit_iff bit7 by auto
qed

lemma bit_irwxg: "bit S_IRWXG n \<longleftrightarrow> 3 \<le> n \<and> n < 6"
proof -
  have "S_IRWXG = push_bit 3 7" by (simp add: S_IRWXG_def push_bit_eq_mult)
  show ?thesis unfolding \<open>S_IRWXG = push_bit 3 7\<close> bit_push_bit_iff bit7 by auto
qed

lemma bit_irwxo: "bit S_IRWXO n \<longleftrightarrow> n < 3"
  unfolding S_IRWXO_def by (rule bit7)

lemmas irwx_bits = bit_irwxu bit_irwxg bit_irwxo bit_and_iff bit_or_iff bit_not_iff bit_push_bit_iff bit_drop_bit_eq

lemma masq_entry_restricts:
  assumes "acl_tags_ok T" "masq_entry T e m = Some (e', m', b)"
  shows "sub_bits m' m" "restricted T m e e'" "mode_within T m' e'" "3 \<le> n \<Longrightarrow> n < 6 \<Longrightarrow> bit m' n = bit m n"
proof -
  show "sub_bits m' m" "restricted T m e e'"
    using assms
    by (auto simp: masq_entry_def Let_def sub_bits_def restricted_def acl_tags_ok_def bit_and_iff bit_or_iff bit_not_irwxo
        bit_drop_bit_eq add.commute split: if_splits)
  show "mode_within T m' e'" using assms
    by (auto simp: masq_entry_def Let_def mode_within_def acl_tags_ok_def irwx_bits split: if_splits)
  show "3 \<le> n \<Longrightarrow> n < 6 \<Longrightarrow> bit m' n = bit m n" using assms
    by (auto simp: masq_entry_def Let_def irwx_bits split: if_splits)
qed

lemma restricted_mono: "restricted T m e e' \<Longrightarrow> sub_bits m m0 \<Longrightarrow> restricted T m0 e e'"
  by (auto simp: restricted_def sub_bits_def)

lemma mode_within_mono: "mode_within T m e \<Longrightarrow> sub_bits m0 m \<Longrightarrow> mode_within T m0 e"
  by (auto simp: mode_within_def sub_bits_def)

lemma masq_entries_restrict:
  assumes "acl_tags_ok T"
  shows "masq_entries T acl m = Some (acl', m', b) \<Longrightarrow>
    sub_bits m' m \<and> list_all2 (restricted T m) acl acl' \<and> list_all (mode_within T m') acl' \<and> (\<forall>n. 3 \<le> n \<and> n < 6 \<longrightarrow> bit m' n = bit m n)"
proof (induction acl arbitrary: m acl' m' b)
  case (Cons e acl)
  obtain e1 m1 c where e1: "masq_entry T e m = Some (e1, m1, c)" using Cons.prems by (auto split: option.splits)
  then obtain acl1 m2 d where r: "masq_entries T acl m1 = Some (acl1, m2, d)" "acl' = e1 # acl1" "m' = m2"
    using Cons.prems by (auto split: option.splits)
  note q = masq_entry_restricts [OF assms e1] and ih = Cons.IH [OF r(1)]
  have "sub_bits m2 m" "list_all2 (restricted T m) acl acl1"
    using ih q(1) restricted_mono [OF _ q(1)] by (auto simp: sub_bits_def elim: list_all2_mono)
  moreover have "mode_within T m2 e1" using mode_within_mono [OF q(3)] ih by blast
  ultimately show ?case using q(2,4) ih by (simp add: r)
qed (simp add: sub_bits_def)

lemma last_with_tagD:
  "last_with_tag t acl = Some i \<Longrightarrow> i < length acl \<and> a_tag (acl ! i) = t \<and> (\<forall>j<length acl. i < j \<longrightarrow> a_tag (acl ! j) \<noteq> t)"
  "last_with_tag t acl = None \<Longrightarrow> t \<notin> a_tag ` set acl"
proof -
  define h where "h n = fold (\<lambda>i r. if a_tag (acl ! i) = t then Some i else r) [0..<n] None" for n
  have h0: "h 0 = None" and hS: "h (Suc n) = (if a_tag (acl ! n) = t then Some n else h n)" for n by (simp_all add: h_def)
  have h: "case h n of Some i \<Rightarrow> i < n \<and> a_tag (acl ! i) = t \<and> (\<forall>j<n. i < j \<longrightarrow> a_tag (acl ! j) \<noteq> t)
      | None \<Rightarrow> \<forall>j<n. a_tag (acl ! j) \<noteq> t" for n
  proof (induction n)
    case (Suc n)
    then show ?case
      by (cases "a_tag (acl ! n) = t"; cases "h n") (auto simp: hS less_Suc_eq)
  qed (simp add: h0)
  have e: "last_with_tag t acl = h (length acl)" by (simp add: last_with_tag_def h_def)
  show "last_with_tag t acl = Some i \<Longrightarrow> i < length acl \<and> a_tag (acl ! i) = t \<and> (\<forall>j<length acl. i < j \<longrightarrow> a_tag (acl ! j) \<noteq> t)"
    using h [of "length acl"] by (simp add: e)
  show "last_with_tag t acl = None \<Longrightarrow> t \<notin> a_tag ` set acl"
    using h [of "length acl"] by (auto simp: e in_set_conv_nth)
qed

lemma masq_restricts:
  assumes T: "acl_tags_ok T" and r: "f2fs_acl_create_masq T acl mode = Inr (acl', mode', b)"
  shows "sub_bits mode' mode" "list_all2 (restricted T mode) acl acl'" "list_all (mode_within T mode') acl'"
    "\<exists>i. group_class T acl i \<and> (\<forall>n<3. bit (a_perm (acl' ! i)) n \<longrightarrow> bit mode (n + 3)) \<and>
       (\<forall>n<3. bit mode' (n + 3) \<longleftrightarrow> bit (a_perm (acl' ! i)) n)"
proof -
  obtain acl1 m1 c where e: "masq_entries T acl mode = Some (acl1, m1, c)" using r by (auto simp: f2fs_acl_create_masq_def split: option.splits)
  obtain i where i: "(case last_with_tag (ACL_MASK T) acl1 of Some i \<Rightarrow> Some i | None \<Rightarrow> last_with_tag (ACL_GROUP_OBJ T) acl1) = Some i"
    using r e by (auto simp: f2fs_acl_create_masq_def split: option.splits)
  have gc1: "group_class T acl1 i"
  proof (cases "last_with_tag (ACL_MASK T) acl1")
    case None
    then show ?thesis using i last_with_tagD(2) [OF None] last_with_tagD(1) [of "ACL_GROUP_OBJ T" acl1 i]
      by (auto simp: group_class_def)
  next
    case (Some k)
    then have "k = i" "ACL_MASK T \<in> a_tag ` set acl1"
      using i last_with_tagD(1) [OF Some] by (auto simp: image_iff) (metis nth_mem)
    then show ?thesis using last_with_tagD(1) [OF Some] by (auto simp: group_class_def)
  qed
  then have il: "i < length acl1" "a_tag (acl1 ! i) = ACL_MASK T \<or> a_tag (acl1 ! i) = ACL_GROUP_OBJ T"
    by (auto simp: group_class_def split: if_splits)
  define perm where "perm = a_perm (acl1 ! i) AND (drop_bit 3 m1 OR NOT S_IRWXO)"
  have a: "acl' = acl1[i := (acl1 ! i)\<lparr>a_perm := perm\<rparr>]"
    "mode' = (mode AND NOT S_IRWXUGO) OR (m1 AND (push_bit 3 perm OR NOT S_IRWXG))"
    using r unfolding f2fs_acl_create_masq_def e option.case prod.case i Let_def perm_def [symmetric] by auto
  note q = masq_entries_restrict [OF T e]
  have m1: "bit m1 n \<Longrightarrow> bit mode n" for n using q by (simp add: sub_bits_def)
  show "sub_bits mode' mode" using m1 by (auto simp: a(2) sub_bits_def bit_or_iff bit_and_iff)
  have nt: "a_tag (acl1 ! i) \<noteq> ACL_USER_OBJ T" "a_tag (acl1 ! i) \<noteq> ACL_OTHER T" using il(2) T by (auto simp: acl_tags_ok_def)
  have "restricted T mode (acl ! i) ((acl1 ! i)\<lparr>a_perm := perm\<rparr>)"
    using list_all2_nthD2 [OF conjunct1 [OF conjunct2 [OF q]] il(1)] nt by (auto simp: restricted_def perm_def sub_bits_def bit_and_iff)
  then show "list_all2 (restricted T mode) acl acl'"
    using q il(1) unfolding a(1) by (auto simp: list_all2_conv_all_nth nth_list_update)
  have lowbits: "bit mode' n \<Longrightarrow> bit m1 n" if "n < 3 \<or> 6 \<le> n \<and> n < 9" for n
    using that by (auto simp: a(2) S_IRWXUGO_def irwx_bits)
  have "list_all (mode_within T mode') acl1"
    using q lowbits by (auto simp: list_all_iff mode_within_def)
  moreover have "mode_within T mode' ((acl1 ! i)\<lparr>a_perm := perm\<rparr>)" using nt by (simp add: mode_within_def)
  ultimately show "list_all (mode_within T mode') acl'"
    using il(1) set_update_subset_insert [of acl1 i "(acl1 ! i)\<lparr>a_perm := perm\<rparr>"] unfolding a(1) list_all_iff by blast
  have p: "\<forall>n<3. bit perm n \<longrightarrow> bit m1 (n + 3)"
    by (auto simp: perm_def bit_and_iff bit_or_iff bit_drop_bit_eq bit_not_irwxo add.commute)
  have tags: "length acl = length acl1" "\<forall>j<length acl1. a_tag (acl ! j) = a_tag (acl1 ! j)"
    using q by (auto simp: list_all2_conv_all_nth restricted_def)
  then have "map a_tag acl = map a_tag acl1" by (simp add: list_eq_iff_nth_eq)
  then have "a_tag ` set acl = a_tag ` set acl1" by (metis set_map)
  then have "group_class T acl i"
    using gc1 tags il(1) unfolding group_class_def by (intro conjI) (simp, metis, metis)
  moreover have "bit mode' (n + 3) \<longleftrightarrow> bit perm n" if "n < 3" for n
    using p that by (auto simp: a(2) S_IRWXUGO_def irwx_bits bit_imp_le_length)
  ultimately show "\<exists>i. group_class T acl i \<and> (\<forall>n<3. bit (a_perm (acl' ! i)) n \<longrightarrow> bit mode (n + 3)) \<and>
       (\<forall>n<3. bit mode' (n + 3) \<longleftrightarrow> bit (a_perm (acl' ! i)) n)"
    using il(1) p m1 by (intro exI [of _ i]) (simp add: a(1))
qed

text \<open>
  C34: When \<open>f2fs_acl_create_masq\<close> succeeds on an ACL and a requested mode, no more is granted than was asked
  for and inherited: the mode it gives has no bit the requested mode lacks; every entry keeps its tag and
  id and has at most the permissions it was inherited with; the entries of owner and others grant at
  most what the requested mode grants, and the mode it gives grants owner and others at most what their
  entries grant; and the group class, which is the mask if the ACL has one and the entry of the
  owning group otherwise, grants at most the group bits of the requested mode, and is what the group bits
  of the mode are set to.
\<close>
theorem acl_create_restricts:
  assumes "acl_tags_ok T" "f2fs_acl_create_masq T acl mode = Inr (acl', mode', b)"
  shows "sub_bits mode' mode \<and> list_all2 (restricted T mode) acl acl' \<and> list_all (mode_within T mode') acl' \<and>
    (\<exists>i. group_class T acl i \<and> (\<forall>n<3. bit (a_perm (acl' ! i)) n \<longrightarrow> bit mode (n + 3)) \<and>
       (\<forall>n<3. bit mode' (n + 3) \<longleftrightarrow> bit (a_perm (acl' ! i)) n))"
  using masq_restricts [OF assms] by blast


section \<open>Setting and getting an ACL\<close>

lemma stored_cong:
  assumes "xattrs_stored L x es" "xi_inline x' = xi_inline x" "xi_nodes x' = xi_nodes x"
    and "i_xattr_nid (xi_fi x') = i_xattr_nid (xi_fi x)" "inline_xattr_size L (xi_fi x') = inline_xattr_size L (xi_fi x)"
  shows "xattrs_stored L x' es"
proof -
  have "xattr_area L x' = xattr_area L x" using assms by (simp add: xattr_area_def)
  then show ?thesis using assms unfolding xattrs_stored_def by simp
qed

lemma acl_flag_frame:
  "i_xattr_nid (set_acl_inode fi mode) = i_xattr_nid fi" "inline_xattr_size L (set_acl_inode fi mode) = inline_xattr_size L fi"
  "i_xattr_nid (clear_inode_flag fi FI_ACL_MODE) = i_xattr_nid fi" "inline_xattr_size L (clear_inode_flag fi FI_ACL_MODE) = inline_xattr_size L fi"
  by (simp_all add: set_acl_inode_def set_inode_flag_def clear_inode_flag_def inline_xattr_size_def is_inode_flag_set_def
      bit_set_bit_iff bit_unset_bit_iff)

lemma set_acl_stores:
  assumes T: "acl_tags_ok T" and lay: "xattr_layout_ok L" and st: "xattrs L (ai_x a) m" and ok: "acl_ok T p" and nid: "xe_nid (ae_x E) \<noteq> Some 0"
    and ext: "ty = ACL_TYPE_ACCESS \<Longrightarrow> \<exists>mode. ae_equiv E p (xi_mode (ai_x a)) = Inr (True, mode)"
    and r: "f2fs_set_acl L T E ipage ty (Some p) a = Some (None, a')"
  shows "\<exists>v. v \<noteq> [] \<and> f2fs_acl_from_disk T False v = Some (Inr (Some p)) \<and> xattrs L (ai_x a') (m((acl_name_index ty, []) \<mapsto> v))"
proof -
  have nm: "\<not> ae_nomem E"
    using r ext by (cases ty) (auto simp: f2fs_set_acl_def f2fs_acl_to_disk_def Let_def split: if_splits sum.splits)
  obtain v where v: "f2fs_acl_to_disk T False (ae_fresh E) p = Inr v" "length v = f2fs_acl_size (length p)" "f2fs_acl_from_disk T False v = Some (Inr (Some p))"
    using acl_disk_roundtrip_lemma [OF T ok] by blast
  have ne: "v \<noteq> []" using v(2) by (auto simp: f2fs_acl_size_def split: if_splits)
  obtain x0 where x0: "xattrs L x0 m" "\<exists>x. f2fs_setxattr L (ae_x E) (acl_name_index ty) (Some []) (Some v) ipage XATTR_ANY x0 = Some (None, x) \<and>
      ai_x a' = x\<lparr>xi_fi := clear_inode_flag (xi_fi x) FI_ACL_MODE\<rparr>"
  proof (cases ty)
    case ACL_TYPE_ACCESS
    then obtain mode where e: "ae_equiv E p (xi_mode (ai_x a)) = Inr (True, mode)" using ext by blast
    let ?x = "(ai_x a)\<lparr>xi_mode := mode, xi_fi := set_acl_inode (xi_fi (ai_x a)) mode\<rparr>"
    have "xattrs L ?x m" using st stored_cong [of L "ai_x a" _ ?x] by (auto simp: xattrs_def acl_flag_frame)
    then show ?thesis
      using r e v(1) nm that [of ?x] by (auto simp: f2fs_set_acl_def ACL_TYPE_ACCESS Let_def set_cached_acl_def split: option.splits)
  next
    case ACL_TYPE_DEFAULT
    then show ?thesis
      using r v(1) nm st that [of "ai_x a"] by (auto simp: f2fs_set_acl_def Let_def set_cached_acl_def split: option.splits if_splits)
  qed
  then obtain x where x: "f2fs_setxattr L (ae_x E) (acl_name_index ty) (Some []) (Some v) ipage XATTR_ANY x0 = Some (None, x)"
      "ai_x a' = x\<lparr>xi_fi := clear_inode_flag (xi_fi x) FI_ACL_MODE\<rparr>" by blast
  obtain es where es: "xattrs_stored L x0 es" "xattr_map es = m" using x0(1) by (auto simp: xattrs_def)
  have "0 < acl_name_index ty" "acl_name_index ty < 256" by (simp_all add: acl_name_index_def)
  then have "xattrs_stored L x (set_list (acl_name_index ty) [] (Some v) es)" by (rule set_ok_stored [OF lay es(1) _ _ nid x(1)])
  then have "xattrs_stored L (ai_x a') (set_list (acl_name_index ty) [] (Some v) es)"
    unfolding x(2) by (rule stored_cong) (simp_all add: acl_flag_frame)
  then have "xattrs L (ai_x a') (m((acl_name_index ty, []) \<mapsto> v))" by (auto simp: xattrs_def set_list_map es(2))
  then show ?thesis using v(3) ne by blast
qed

text \<open>
  C33: An ACL that was set is the ACL one gets: after a set that succeeded, of a valid ACL (\<open>acl_ok\<close>) that, as
  access ACL, says more than a mode can (as \<open>posix_acl_equiv_mode\<close> reports), through its format on disk and the
  attributes of the inode, getting it returns exactly its entries, when the attributes can be read and memory
  does not run out.
\<close>
theorem acl_set_get:
  assumes "acl_tags_ok T" "xattr_layout_ok L" "xattrs L (ai_x a) m" "acl_ok T p" "xe_nid (ae_x E) \<noteq> Some 0"
    and "ty = ACL_TYPE_ACCESS \<Longrightarrow> \<exists>mode. ae_equiv E p (xi_mode (ai_x a)) = Inr (True, mode)"
    and "f2fs_set_acl L T E ipage ty (Some p) a = Some (None, a')"
    and "read_all_xattrs L (ae_x E') dpage (ai_x a') \<noteq> None" "\<not> ae_nomem E'"
  shows "f2fs_get_acl L T E' dpage ty a' = Some (Inr (Some p), set_cached_acl ty (Some p) a')"
proof -
  obtain v where v: "v \<noteq> []" "f2fs_acl_from_disk T False v = Some (Inr (Some p))" "xattrs L (ai_x a') (m((acl_name_index ty, []) \<mapsto> v))"
    using set_acl_stores [OF assms(1-7)] by blast
  obtain es where es: "xattrs_stored L (ai_x a') es" "xattr_map es = m((acl_name_index ty, []) \<mapsto> v)" using v(3) by (auto simp: xattrs_def)
  obtain buf where rd: "read_all_xattrs L (ae_x E') dpage (ai_x a') = Some buf" using assms(8) by auto
  have "f2fs_getxattr L (ae_x E') (acl_name_index ty) (Some []) None dpage (ai_x a') = Some (Inr v)"
    using get_spec [OF es(1) assms(2) _ rd, of "[]" "acl_name_index ty" None] by (simp add: es(2))
  then show ?thesis using v(1,2) assms(9) unfolding f2fs_get_acl_def Let_def by (cases v) simp_all
qed


section \<open>A concrete ACL\<close>

definition demo_tags :: acl_tags where
  "demo_tags = \<lparr>ACL_USER_OBJ = 1, ACL_USER = 2, ACL_GROUP_OBJ = 4, ACL_GROUP = 8, ACL_MASK = 16, ACL_OTHER = 32\<rparr>"

definition demo_acl :: posix_acl where
  "demo_acl = [\<lparr>a_tag = 1, a_perm = 7, a_id = None\<rparr>, \<lparr>a_tag = 2, a_perm = 6, a_id = Some 1000\<rparr>,
     \<lparr>a_tag = 4, a_perm = 5, a_id = None\<rparr>, \<lparr>a_tag = 16, a_perm = 7, a_id = None\<rparr>, \<lparr>a_tag = 32, a_perm = 5, a_id = None\<rparr>]"

lemma demo_tags_ok: "acl_tags_ok demo_tags" by (simp add: acl_tags_ok_def demo_tags_def)

lemma demo_acl_ok: "acl_ok demo_tags demo_acl"
  by (simp add: acl_ok_def demo_acl_def short_tag_def long_tag_def demo_tags_def)

definition demo_acl_env :: acl_env where
  "demo_acl_env = \<lparr>ae_x = xa_env, ae_nomem = False, ae_fresh = (\<lambda>_. 0), 
     ae_equiv = (\<lambda>p m. Inr (list_ex (\<lambda>e. a_tag e \<in> {2, 8, 16}) p, m))\<rparr>"

definition demo_acl_inode :: acl_inode where
  "demo_acl_inode = \<lparr>ai_x = xa_inode, ai_cache = (\<lambda>_. None)\<rparr>"

theorem acl_set_get_witness:
  "\<exists>a'. f2fs_set_acl xa_layout demo_tags demo_acl_env False ACL_TYPE_ACCESS (Some demo_acl) demo_acl_inode = Some (None, a') \<and>
     map_option fst (f2fs_get_acl xa_layout demo_tags demo_acl_env False ACL_TYPE_ACCESS a') = Some (Inr (Some demo_acl))"
proof -
  define r where "r = f2fs_set_acl xa_layout demo_tags demo_acl_env False ACL_TYPE_ACCESS (Some demo_acl) demo_acl_inode"
  have "map_option fst r = Some None \<and> map_option (\<lambda>y. read_all_xattrs xa_layout xa_env False (ai_x (snd y)) \<noteq> None) r = Some True"
    unfolding r_def by code_simp
  then obtain a' where a: "r = Some (None, a')" "read_all_xattrs xa_layout xa_env False (ai_x a') \<noteq> None" by (cases r) auto
  have x: "xattrs xa_layout (ai_x demo_acl_inode) [(1, [97]) \<mapsto> [1, 2, 3, 4], (4, [98]) \<mapsto> [5, 6, 7, 8]]"
    using xa_inode_xattrs by (simp add: demo_acl_inode_def)
  have "f2fs_get_acl xa_layout demo_tags demo_acl_env False ACL_TYPE_ACCESS a' = Some (Inr (Some demo_acl), set_cached_acl ACL_TYPE_ACCESS (Some demo_acl) a')"
    by (rule acl_set_get [OF demo_tags_ok xa_layout_ok x demo_acl_ok _ _ a(1) [unfolded r_def]])
      (use a(2) in \<open>simp_all add: demo_acl_env_def xa_env_def demo_acl_def\<close>)
  then show ?thesis using a(1) by (auto simp: r_def)
qed

theorem acl_from_disk_leaves_buffer_witness:
  "f2fs_acl_from_disk demo_tags False (le32_bytes F2FS_ACL_VERSION @
     concat (replicate 2 (le16_bytes (ACL_USER demo_tags) @ le16_bytes 7 @ le32_bytes 0))) = None"
  by (rule acl_from_disk_leaves_buffer [OF demo_tags_ok])

text \<open>With mode \<open>0640\<close> it is the mask, not the entry of the owning group, that loses the right to write.\<close>

theorem acl_create_restricts_witness:
  "\<exists>acl' mode' b. f2fs_acl_create_masq demo_tags demo_acl 0x1A0 = Inr (acl', mode', b) \<and> sub_bits mode' 0x1A0 \<and>
    list_all2 (restricted demo_tags 0x1A0) demo_acl acl' \<and> group_class demo_tags demo_acl 3 \<and>
    \<not> bit (a_perm (acl' ! 3)) 1 \<and> \<not> bit mode' 4 \<and> a_perm (acl' ! 2) = 5"
proof -
  have "(case f2fs_acl_create_masq demo_tags demo_acl 0x1A0 of Inr (acl', _) \<Rightarrow> a_perm (acl' ! 2) = 5 | _ \<Rightarrow> False) = True" by code_simp
  then obtain acl' mode' b where r: "f2fs_acl_create_masq demo_tags demo_acl 0x1A0 = Inr (acl', mode', b)" "a_perm (acl' ! 2) = 5"
    by (auto split: sum.splits)
  have gc: "group_class demo_tags demo_acl i \<longleftrightarrow> i = 3" for i
    by (auto simp: group_class_def demo_acl_def demo_tags_def less_Suc_eq)
  have b: "\<not> bit (0x1A0 :: u16) 4" by simp
  note c = acl_create_restricts [OF demo_tags_ok r(1), unfolded gc]
  then have "\<not> bit (a_perm (acl' ! 3)) 1" using b by (auto dest!: spec [of _ 1])
  moreover have "\<not> bit mode' 4" using c b by (auto simp: sub_bits_def)
  ultimately show ?thesis using c r gc [of 3] by blast
qed

end
