(* ===== verification/Dentry_Block.thy ===== *)
theory Dentry_Block
  imports Dentry_Hash Inode_State
begin

text \<open>
  A block of directory entries (\<open>struct f2fs_dentry_ptr\<close>, \<open>dir.c\<close>): a bitmap of slots, an entry and a
  name area per slot. An entry occupies the slots its name needs, its data are in the first one and
  its name runs over the name areas of all of them. The operations serve the blocks of a directory
  and the entries inside an inode, which differ in the number of slots only.
\<close>

section \<open>State and operations\<close>

record dir_entry =
  hash_code :: u32
  de_name_len :: u16          \<comment> \<open>name_len\<close>
  de_ino :: u32               \<comment> \<open>ino\<close>
  file_type :: u8

text \<open>\<open>filename\<close> is the array of name areas as bytes: slot \<open>i\<close> begins at byte \<open>i * F2FS_SLOT_LEN\<close>.\<close>

record dentry_block =
  dentry_bitmap :: bitmap
  dentry :: "nat \<Rightarrow> dir_entry"
  filename :: "nat \<Rightarrow> u8"

definition zero_dentry_block :: dentry_block where
  "zero_dentry_block = \<lparr>dentry_bitmap = (\<lambda>_. False),
     dentry = (\<lambda>_. \<lparr>hash_code = 0, de_name_len = 0, de_ino = 0, file_type = 0\<rparr>), filename = (\<lambda>_. 0)\<rparr>"

text \<open>The number of slots, \<open>d->max\<close>.\<close>

definition make_dentry_ptr :: "layout \<Rightarrow> bool \<Rightarrow> nat" where
  "make_dentry_ptr L inl = (if \<not> inl then nr_dentry_in_block L else nr_inline_dentry L)"

text \<open>The hash of a name; the buffer of a name has a zero byte behind it.\<close>

definition name_hash :: "layout \<Rightarrow> u8 list \<Rightarrow> u32" where
  "name_hash L n = f2fs_dentry_hash L (n @ [0]) (length n)"

definition early_match_name :: "nat \<Rightarrow> u32 \<Rightarrow> dir_entry \<Rightarrow> bool" where
  "early_match_name namelen namehash de =
     (if unat (de_name_len de) \<noteq> namelen then False
      else if hash_code de \<noteq> namehash then False
      else True)"

definition filename_at :: "layout \<Rightarrow> dentry_block \<Rightarrow> nat \<Rightarrow> nat \<Rightarrow> u8 list" where
  "filename_at L b pos n = map (\<lambda>k. filename b (pos * slot_len L + k)) [0..<n]"

text \<open>
  The search of a block: the position found, the longest run of free slots passed, and \<open>d->max\<close>.
  \<open>d->max\<close> is a signed number that is compared with an unsigned one, so \<open>-1\<close> is above every
  position. A search that does not end is \<open>None\<close>.
\<close>

definition below_max :: "nat \<Rightarrow> int \<Rightarrow> bool" where
  "below_max bit_pos mx \<longleftrightarrow> mx < 0 \<or> int bit_pos < mx"

partial_function (option) find_target_loop ::
    "layout \<Rightarrow> u8 list \<Rightarrow> u32 \<Rightarrow> dentry_block \<Rightarrow> int \<Rightarrow> nat \<Rightarrow> nat \<Rightarrow> nat \<Rightarrow> (nat option \<times> nat \<times> int) option" where
  "find_target_loop L name namehash b mx max_slots max_len bit_pos =
     (if below_max bit_pos mx then
        if \<not> dentry_bitmap b bit_pos then find_target_loop L name namehash b mx max_slots (max_len + 1) (bit_pos + 1)
        else if early_match_name (length name) namehash (dentry b bit_pos) \<and> filename_at L b bit_pos (length name) = name
        then Some (Some bit_pos, if max_len > max_slots then max_len else max_slots, mx)
        else find_target_loop L name namehash b (if de_name_len (dentry b bit_pos) = 0 then -1 else mx)
               (if max_len > max_slots then max_len else max_slots) 0
               (bit_pos + dentry_slots L (unat (de_name_len (dentry b bit_pos))))
      else Some (None, if max_len > max_slots then max_len else max_slots, mx))"

definition find_target_dentry :: "layout \<Rightarrow> u8 list \<Rightarrow> nat \<Rightarrow> dentry_block \<Rightarrow> (nat option \<times> nat \<times> int) option" where
  "find_target_dentry L name mx b = find_target_loop L name (name_hash L name) b (int mx) 0 0 0"

text \<open>A free run of slots; \<open>max_slots\<close> when there is none.\<close>

function room_from :: "bitmap \<Rightarrow> nat \<Rightarrow> nat \<Rightarrow> nat \<Rightarrow> nat" where
  "room_from bitmap slots max_slots bit_start =
     (let zero_start = find_next_zero_bit bitmap max_slots bit_start
      in if zero_start \<ge> max_slots then max_slots
         else let zero_end = find_next_bit bitmap max_slots zero_start
              in if zero_end - zero_start \<ge> slots then zero_start
                 else if zero_end + 1 \<ge> max_slots then max_slots
                 else room_from bitmap slots max_slots (zero_end + 1))"
  by pat_completeness auto
termination
proof (relation "measure (\<lambda>(b, slots, mx, start). mx - start)")
  fix b :: bitmap and slots mx start zs ze
  assume z: "zs = find_next_zero_bit b mx start" "\<not> mx \<le> zs" "ze = find_next_bit b mx zs" "\<not> mx \<le> ze + 1"
  then have "start \<le> zs" using find_next_bit_hit [of "\<lambda>i. \<not> b i" mx start] by (simp add: find_next_zero_bit_def)
  moreover have "zs \<le> ze" using z find_next_bit_hit [of b mx zs] by auto
  ultimately show "((b, slots, mx, ze + 1), b, slots, mx, start) \<in> measure (\<lambda>(b, slots, mx, start). mx - start)"
    using z by simp
qed simp

declare room_from.simps [simp del]

definition room_for_filename :: "bitmap \<Rightarrow> nat \<Rightarrow> nat \<Rightarrow> nat" where
  "room_for_filename bitmap slots max_slots = room_from bitmap slots max_slots 0"

text \<open>
  The type stored for a mode: the table is indexed by the file type bits, entries that are not
  initialised are zero. (Files with all four type bits, behind the end of the table, do not exist.)
\<close>

definition f2fs_type_by_mode :: "layout \<Rightarrow> u16 \<Rightarrow> u8" where
  "f2fs_type_by_mode L t =
     (if t = 8 then ft_code L F2FS_FT_REG_FILE else if t = 4 then ft_code L F2FS_FT_DIR
      else if t = 2 then ft_code L F2FS_FT_CHRDEV else if t = 6 then ft_code L F2FS_FT_BLKDEV
      else if t = 1 then ft_code L F2FS_FT_FIFO else if t = 12 then ft_code L F2FS_FT_SOCK
      else if t = 10 then ft_code L F2FS_FT_SYMLINK else 0)"

definition set_de_type :: "layout \<Rightarrow> u16 \<Rightarrow> dir_entry \<Rightarrow> dir_entry" where
  "set_de_type L mode de = de\<lparr>file_type := f2fs_type_by_mode L (drop_bit 12 (mode AND 0xF000))\<rparr>"

definition put_filename :: "layout \<Rightarrow> nat \<Rightarrow> u8 list \<Rightarrow> (nat \<Rightarrow> u8) \<Rightarrow> nat \<Rightarrow> u8" where
  "put_filename L pos n f =
     (\<lambda>i. if pos * slot_len L \<le> i \<and> i < pos * slot_len L + length n then n ! (i - pos * slot_len L) else f i)"

definition set_slots :: "bool \<Rightarrow> nat \<Rightarrow> nat \<Rightarrow> bitmap \<Rightarrow> bitmap" where
  "set_slots v pos slots b = fold (\<lambda>i b. b(pos + i := v)) [0..<slots] b"

definition f2fs_update_dentry :: "layout \<Rightarrow> u32 \<Rightarrow> u16 \<Rightarrow> dentry_block \<Rightarrow> u8 list \<Rightarrow> u32 \<Rightarrow> nat \<Rightarrow> dentry_block" where
  "f2fs_update_dentry L ino mode b name nhash bit_pos =
     (let slots = dentry_slots L (length name);
          de = dentry b bit_pos;
          de = de\<lparr>hash_code := nhash\<rparr>;
          de = de\<lparr>de_name_len := of_nat (length name)\<rparr>;
          b = b\<lparr>filename := put_filename L bit_pos name (filename b)\<rparr>;
          de = de\<lparr>de_ino := ino\<rparr>;
          de = set_de_type L mode de;
          b = b\<lparr>dentry := (dentry b)(bit_pos := de)\<rparr>
      in b\<lparr>dentry_bitmap := set_slots True bit_pos slots (dentry_bitmap b)\<rparr>)"

text \<open>The entries of the new directory \<open>ino\<close> with the parent \<open>pino\<close>; 46 is the dot.\<close>

definition do_make_empty_dir :: "layout \<Rightarrow> u32 \<Rightarrow> u16 \<Rightarrow> u32 \<Rightarrow> u16 \<Rightarrow> dentry_block \<Rightarrow> dentry_block" where
  "do_make_empty_dir L ino mode pino pmode b =
     (let de = (dentry b 0)\<lparr>de_name_len := 1, hash_code := 0, de_ino := ino\<rparr>;
          b = b\<lparr>filename := put_filename L 0 [46] (filename b)\<rparr>;
          b = b\<lparr>dentry := (dentry b)(0 := set_de_type L mode de)\<rparr>;
          de = (dentry b 1)\<lparr>hash_code := 0, de_name_len := 2, de_ino := pino\<rparr>;
          b = b\<lparr>filename := put_filename L 1 [46, 46] (filename b)\<rparr>;
          b = b\<lparr>dentry := (dentry b)(1 := set_de_type L pmode de)\<rparr>
      in b\<lparr>dentry_bitmap := (dentry_bitmap b)(0 := True, 1 := True)\<rparr>)"

text \<open>Removing the entry at \<open>bit_pos\<close> clears its slots.\<close>

definition clear_dentry :: "layout \<Rightarrow> nat \<Rightarrow> dentry_block \<Rightarrow> dentry_block" where
  "clear_dentry L bit_pos b =
     b\<lparr>dentry_bitmap := set_slots False bit_pos (dentry_slots L (unat (de_name_len (dentry b bit_pos)))) (dentry_bitmap b)\<rparr>"

section \<open>Listing a block\<close>

datatype d_type = DT_UNKNOWN | DT_REG | DT_DIR | DT_CHR | DT_BLK | DT_FIFO | DT_SOCK | DT_LNK

fun dt_of_ft :: "f2fs_ft \<Rightarrow> d_type" where
  "dt_of_ft F2FS_FT_UNKNOWN = DT_UNKNOWN"
| "dt_of_ft F2FS_FT_REG_FILE = DT_REG"
| "dt_of_ft F2FS_FT_DIR = DT_DIR"
| "dt_of_ft F2FS_FT_CHRDEV = DT_CHR"
| "dt_of_ft F2FS_FT_BLKDEV = DT_BLK"
| "dt_of_ft F2FS_FT_FIFO = DT_FIFO"
| "dt_of_ft F2FS_FT_SOCK = DT_SOCK"
| "dt_of_ft F2FS_FT_SYMLINK = DT_LNK"

definition f2fs_filetype_table :: "layout \<Rightarrow> u8 \<Rightarrow> d_type" where
  "f2fs_filetype_table L c =
     (case find (\<lambda>t. ft_code L t = c) [F2FS_FT_UNKNOWN, F2FS_FT_REG_FILE, F2FS_FT_DIR, F2FS_FT_CHRDEV, F2FS_FT_BLKDEV,
             F2FS_FT_FIFO, F2FS_FT_SOCK, F2FS_FT_SYMLINK] of
        Some t \<Rightarrow> dt_of_ft t | None \<Rightarrow> DT_UNKNOWN)"

record dirent =
  d_name :: "u8 list"
  d_ino :: u32
  d_kind :: d_type

text \<open>
  The reader of a directory (\<open>struct dir_context\<close>): the position and what was emitted. Whether the
  reader has room for one more entry is the parameter \<open>emit\<close> (\<open>dir_emit\<close>, which is given by the kernel).
\<close>

record dir_context =
  ctx_pos :: nat
  ctx_out :: "dirent list"

definition dirent_at :: "layout \<Rightarrow> dentry_block \<Rightarrow> nat \<Rightarrow> dirent" where
  "dirent_at L b p =
     (let de = dentry b p
      in \<lparr>d_name = filename_at L b p (unat (de_name_len de)), d_ino = de_ino de,
          d_kind = (if file_type de < ft_max L then f2fs_filetype_table L (file_type de) else DT_UNKNOWN)\<rparr>)"

partial_function (option) fill_dentries_loop ::
    "layout \<Rightarrow> (dirent list \<Rightarrow> dirent \<Rightarrow> bool) \<Rightarrow> nat \<Rightarrow> dentry_block \<Rightarrow> nat \<Rightarrow> nat \<Rightarrow> dir_context \<Rightarrow> (bool \<times> dir_context) option" where
  "fill_dentries_loop L emit mx b start_pos bit_pos ctx =
     (if bit_pos < mx then
        if find_next_bit (dentry_bitmap b) mx bit_pos \<ge> mx then Some (False, ctx)
        else if \<not> emit (ctx_out ctx) (dirent_at L b (find_next_bit (dentry_bitmap b) mx bit_pos)) then Some (True, ctx)
        else fill_dentries_loop L emit mx b start_pos
               (find_next_bit (dentry_bitmap b) mx bit_pos
                  + dentry_slots L (unat (de_name_len (dentry b (find_next_bit (dentry_bitmap b) mx bit_pos)))))
               \<lparr>ctx_pos = start_pos + (find_next_bit (dentry_bitmap b) mx bit_pos
                  + dentry_slots L (unat (de_name_len (dentry b (find_next_bit (dentry_bitmap b) mx bit_pos))))),
                ctx_out = ctx_out ctx @ [dirent_at L b (find_next_bit (dentry_bitmap b) mx bit_pos)]\<rparr>
      else Some (False, ctx))"

definition f2fs_fill_dentries :: "layout \<Rightarrow> (dirent list \<Rightarrow> dirent \<Rightarrow> bool) \<Rightarrow> nat \<Rightarrow> dentry_block \<Rightarrow> nat \<Rightarrow> dir_context \<Rightarrow> (bool \<times> dir_context) option" where
  "f2fs_fill_dentries L emit mx b start_pos ctx = fill_dentries_loop L emit mx b start_pos (ctx_pos ctx mod mx) ctx"

section \<open>Well-formed blocks\<close>

text \<open>What the code relies on in the header: an entry has as many slots as its name needs.\<close>

definition slots_ok :: "layout \<Rightarrow> bool" where
  "slots_ok L \<longleftrightarrow> 0 < slot_len L \<and> name_len L < 2 ^ 16 \<and> dentry_slots L 0 = 0 \<and>
     (\<forall>n. n \<le> dentry_slots L n * slot_len L)"

definition ent_slots :: "layout \<Rightarrow> dentry_block \<Rightarrow> nat \<Rightarrow> nat" where
  "ent_slots L b p = dentry_slots L (unat (de_name_len (dentry b p)))"

definition ent_name :: "layout \<Rightarrow> dentry_block \<Rightarrow> nat \<Rightarrow> u8 list" where
  "ent_name L b p = filename_at L b p (unat (de_name_len (dentry b p)))"

text \<open>The first slots of the entries from \<open>pos\<close> on, as the code walks over them.\<close>

function dent_starts :: "layout \<Rightarrow> dentry_block \<Rightarrow> nat \<Rightarrow> nat \<Rightarrow> nat list" where
  "dent_starts L b mx pos =
     (if pos < mx then if dentry_bitmap b pos then pos # dent_starts L b mx (pos + max 1 (ent_slots L b pos))
                       else dent_starts L b mx (pos + 1)
      else [])"
  by pat_completeness auto
termination
  by (relation "measure (\<lambda>(L, b, mx, pos). mx - pos)") auto

declare dent_starts.simps [simp del]

text \<open>The entries beginning in \<open>S\<close> lie in the block, do not overlap, and their slots are the bits set.\<close>

definition tiles :: "layout \<Rightarrow> nat \<Rightarrow> dentry_block \<Rightarrow> nat set \<Rightarrow> bool" where
  "tiles L mx b S \<longleftrightarrow>
     (\<forall>p\<in>S. 0 < ent_slots L b p \<and> p + ent_slots L b p \<le> mx) \<and>
     (\<forall>p\<in>S. \<forall>q\<in>S. p < q \<longrightarrow> p + ent_slots L b p \<le> q) \<and>
     (\<forall>i<mx. dentry_bitmap b i \<longleftrightarrow> (\<exists>p\<in>S. p \<le> i \<and> i < p + ent_slots L b p))"

definition aligned :: "layout \<Rightarrow> dentry_block \<Rightarrow> nat set \<Rightarrow> nat \<Rightarrow> bool" where
  "aligned L b S pos \<longleftrightarrow> (\<forall>p\<in>S. p < pos \<longrightarrow> p + ent_slots L b p \<le> pos)"

lemma tiles_D:
  assumes "tiles L mx b S"
  shows "p \<in> S \<Longrightarrow> 0 < ent_slots L b p" "p \<in> S \<Longrightarrow> p + ent_slots L b p \<le> mx"
    "p \<in> S \<Longrightarrow> q \<in> S \<Longrightarrow> p < q \<Longrightarrow> p + ent_slots L b p \<le> q"
    "i < mx \<Longrightarrow> dentry_bitmap b i \<longleftrightarrow> (\<exists>p\<in>S. p \<le> i \<and> i < p + ent_slots L b p)"
  using assms by (auto simp: tiles_def)

lemma tiles_lt: "tiles L mx b S \<Longrightarrow> p \<in> S \<Longrightarrow> p < mx"
  using tiles_D(1,2) [of L mx b S p] by fastforce

lemma aligned_0 [simp]: "aligned L b S 0"
  by (simp add: aligned_def)

lemma aligned_slot:
  assumes "tiles L mx b S" "aligned L b S pos" "pos < mx"
  shows "dentry_bitmap b pos \<longleftrightarrow> pos \<in> S"
proof -
  have "dentry_bitmap b pos \<longleftrightarrow> (\<exists>p\<in>S. p \<le> pos \<and> pos < p + ent_slots L b p)" by (rule tiles_D(4) [OF assms(1,3)])
  also have "\<dots> \<longleftrightarrow> pos \<in> S"
  proof
    assume "\<exists>p\<in>S. p \<le> pos \<and> pos < p + ent_slots L b p"
    then obtain p where "p \<in> S" "p \<le> pos" "pos < p + ent_slots L b p" by blast
    then show "pos \<in> S" using assms(2) by (cases "p = pos") (auto simp: aligned_def)
  next
    assume "pos \<in> S"
    then show "\<exists>p\<in>S. p \<le> pos \<and> pos < p + ent_slots L b p" using tiles_D(1) [OF assms(1), of pos] by auto
  qed
  finally show ?thesis .
qed

lemma aligned_free: "aligned L b S pos \<Longrightarrow> pos \<notin> S \<Longrightarrow> aligned L b S (pos + 1)"
  by (force simp: aligned_def less_Suc_eq)

lemma aligned_entry:
  assumes "tiles L mx b S" "aligned L b S pos" "pos \<in> S"
  shows "aligned L b S (pos + ent_slots L b pos)"
  unfolding aligned_def
proof (intro ballI impI)
  fix p
  assume p: "p \<in> S" "p < pos + ent_slots L b pos"
  then have "\<not> pos < p" using tiles_D(3) [OF assms(1,3) p(1)] by auto
  then show "p + ent_slots L b p \<le> pos + ent_slots L b pos"
    using p(1) assms(2) by (cases "p = pos") (auto simp: aligned_def)
qed

lemma tiles_gap: "tiles L mx b S \<Longrightarrow> pos \<in> S \<Longrightarrow> pos < i \<Longrightarrow> i < pos + ent_slots L b pos \<Longrightarrow> i \<notin> S"
  using tiles_D(3) [of L mx b S pos i] by auto

lemma dent_starts_tiles:
  "tiles L mx b S \<Longrightarrow> aligned L b S pos \<Longrightarrow> dent_starts L b mx pos = filter (\<lambda>p. p \<in> S) [pos..<mx]"
proof (induction L b mx pos rule: dent_starts.induct)
  case (1 L b mx pos)
  show ?case
  proof (cases "pos < mx")
    case lt: True
    note bit = aligned_slot [OF 1(3,4) lt]
    show ?thesis
    proof (cases "pos \<in> S")
      case True
      let ?q = "pos + ent_slots L b pos"
      have k: "0 < ent_slots L b pos" "?q \<le> mx" using tiles_D(1,2) [OF 1(3) True] by auto
      then have mx1: "max 1 (ent_slots L b pos) = ent_slots L b pos" by simp
      have "[pos..<mx] = pos # [pos + 1..<?q] @ [?q..<mx]"
        using k lt upt_add_eq_append [of "pos + 1" ?q "mx - ?q"] by (simp add: upt_conv_Cons)
      moreover have "filter (\<lambda>p. p \<in> S) [pos + 1..<?q] = []"
        using tiles_gap [OF 1(3) True] by (auto simp: filter_empty_conv)
      moreover have "dent_starts L b mx ?q = filter (\<lambda>p. p \<in> S) [?q..<mx]"
        using 1(1) [OF lt] bit True 1(3) aligned_entry [OF 1(3,4) True] mx1 by simp
      ultimately show ?thesis using lt bit True mx1 by (simp add: dent_starts.simps [of L b mx pos])
    next
      case False
      have "dent_starts L b mx (pos + 1) = filter (\<lambda>p. p \<in> S) [pos + 1..<mx]"
        using 1(2) [OF lt] bit False 1(3) aligned_free [OF 1(4) False] by simp
      then show ?thesis using lt bit False by (simp add: dent_starts.simps [of L b mx pos] upt_conv_Cons)
    qed
  next
    case False
    then show ?thesis by (simp add: dent_starts.simps [of L b mx pos])
  qed
qed

lemma dent_starts_set: "tiles L mx b S \<Longrightarrow> set (dent_starts L b mx 0) = S"
  using dent_starts_tiles [of L mx b S 0] tiles_lt [of L mx b S] by auto

text \<open>An entry of the bitmap walk as a search for the next bit.\<close>

lemma dent_starts_next:
  "dent_starts L b mx pos =
     (let p = find_next_bit (dentry_bitmap b) mx pos
      in if pos < mx \<and> p < mx then p # dent_starts L b mx (p + max 1 (ent_slots L b p)) else [])"
proof (induction L b mx pos rule: dent_starts.induct)
  case (1 L b mx pos)
  show ?case
  proof (cases "pos < mx \<and> \<not> dentry_bitmap b pos")
    case True
    have "find_next_bit (dentry_bitmap b) mx pos = find_next_bit (dentry_bitmap b) mx (pos + 1)"
      using True by (simp add: find_next_bit.simps [of _ mx pos])
    moreover have "find_next_bit (dentry_bitmap b) mx (pos + 1) < mx \<Longrightarrow> pos + 1 < mx"
      using find_next_bit_hit [of "dentry_bitmap b" mx "pos + 1"] by simp
    ultimately show ?thesis using 1(2) True by (auto simp: dent_starts.simps [of L b mx pos] Let_def)
  next
    case False
    then show ?thesis by (auto simp: dent_starts.simps [of L b mx pos] find_next_bit.simps [of _ mx pos] Let_def)
  qed
qed

section \<open>Searching a block\<close>

definition ent_match :: "layout \<Rightarrow> u8 list \<Rightarrow> u32 \<Rightarrow> dentry_block \<Rightarrow> nat \<Rightarrow> bool" where
  "ent_match L n h b p \<longleftrightarrow> early_match_name (length n) h (dentry b p) \<and> filename_at L b p (length n) = n"

lemma ent_match_name: "ent_match L n h b p \<longleftrightarrow> ent_name L b p = n \<and> hash_code (dentry b p) = h"
  by (auto simp: ent_match_def early_match_name_def ent_name_def filename_at_def)

lemma name_len_0: "slots_ok L \<Longrightarrow> de_name_len (dentry b p) = 0 \<Longrightarrow> ent_slots L b p = 0"
  by (simp add: slots_ok_def ent_slots_def)

lemma find_target_loop_eq:
  "slots_ok L \<Longrightarrow> \<forall>p\<in>set (dent_starts L b mx pos). 0 < ent_slots L b p \<Longrightarrow>
    \<exists>ms. find_target_loop L n h b (int mx) m0 l0 pos = Some (find (ent_match L n h b) (dent_starts L b mx pos), ms, int mx)"
proof (induction L b mx pos arbitrary: m0 l0 rule: dent_starts.induct)
  case (1 L b mx pos)
  note st = dent_starts.simps [of L b mx pos]
  note lp = find_target_loop.simps [of L n h b "int mx" m0 l0 pos, folded ent_match_def ent_slots_def]
  show ?case
  proof (cases "pos < mx")
    case lt: True
    show ?thesis
    proof (cases "dentry_bitmap b pos")
      case bit: True
      then have k: "0 < ent_slots L b pos" using 1(4) lt st by simp
      then have nz: "de_name_len (dentry b pos) \<noteq> 0" and mx1: "max 1 (ent_slots L b pos) = ent_slots L b pos"
        using name_len_0 [OF 1(3), of b pos] by auto
      let ?m = "if l0 > m0 then l0 else m0"
      have "\<exists>ms. find_target_loop L n h b (int mx) ?m 0 (pos + ent_slots L b pos) =
          Some (find (ent_match L n h b) (dent_starts L b mx (pos + ent_slots L b pos)), ms, int mx)"
        using 1(1) [OF lt bit, of ?m 0] 1(3) 1(4) lt bit st mx1 by simp
      then show ?thesis
        using lt bit nz mx1 st lp by (auto simp: below_max_def)
    next
      case False
      then show ?thesis using 1(2) [OF lt False, of m0 "l0 + 1"] 1(3) 1(4) lt st lp by (simp add: below_max_def)
    qed
  next
    case False
    then show ?thesis using st lp by (simp add: below_max_def)
  qed
qed


section \<open>Free runs\<close>

definition free_run :: "bitmap \<Rightarrow> nat \<Rightarrow> nat \<Rightarrow> nat \<Rightarrow> bool" where
  "free_run b mx k p \<longleftrightarrow> p + k \<le> mx \<and> (\<forall>i<k. \<not> b (p + i))"

lemma room_from_spec:
  "0 < k \<Longrightarrow>
   (room_from b k mx start < mx \<longrightarrow> start \<le> room_from b k mx start \<and> free_run b mx k (room_from b k mx start)) \<and>
   (\<forall>p. start \<le> p \<and> p < room_from b k mx start \<longrightarrow> \<not> free_run b mx k p) \<and> room_from b k mx start \<le> mx"
proof (induction b k mx start rule: room_from.induct)
  case (1 b k mx start)
  let ?zs = "find_next_zero_bit b mx start" and ?ze = "find_next_bit b mx (find_next_zero_bit b mx start)"
  note eq = room_from.simps [of b k mx start]
  have pre: "\<not> free_run b mx k p" if "start \<le> p" "p < ?zs" for p
    using that fnzb.search_least [of start p b mx] 1(2) by (auto simp: free_run_def intro!: exI [of _ 0])
  show ?case
  proof (cases "?zs \<ge> mx")
    case True
    then show ?thesis using eq pre find_next_bit_le by (auto simp: free_run_def Let_def find_next_zero_bit_def)
  next
    case False
    then have zs: "start \<le> ?zs" "\<not> b ?zs" using fnzb.search_hit [of b mx start] by auto
    have free: "\<not> b i" if "?zs \<le> i" "i < ?ze" for i using that find_next_bit_least by blast
    have ze: "?zs \<le> ?ze" "?ze \<le> mx" "?ze < mx \<Longrightarrow> b ?ze"
      using find_next_bit_hit [of b mx ?zs] find_next_bit_le [of b mx ?zs] False by (cases "?ze < mx"; simp)+
    show ?thesis
    proof (cases "?ze - ?zs \<ge> k")
      case True
      then have "free_run b mx k ?zs" using ze free by (auto simp: free_run_def)
      then show ?thesis using True False eq pre zs ze by (auto simp: Let_def)
    next
      case short: False
      have mid: "\<not> free_run b mx k p" if "start \<le> p" "p \<le> ?ze" for p
      proof (cases "p < ?zs")
        case True
        then show ?thesis using pre that by blast
      next
        case False
        show ?thesis
        proof
          assume r: "free_run b mx k p"
          have "?ze < p + k" using short False by simp
          then have "?ze < mx" "?ze = p + (?ze - p)" "?ze - p < k" using r that by (auto simp: free_run_def)
          then show False using r ze(3) unfolding free_run_def by metis
        qed
      qed
      show ?thesis
      proof (cases "?ze + 1 \<ge> mx")
        case True
        have "\<not> free_run b mx k p" if "start \<le> p" for p
        proof (cases "p \<le> ?ze")
          case False
          then show ?thesis using True 1(2) by (auto simp: free_run_def)
        qed (use mid that in blast)
        then show ?thesis using True short False eq by (simp add: Let_def)
      next
        case go: False
        then have r: "room_from b k mx start = room_from b k mx (?ze + 1)" using short False eq by (simp add: Let_def)
        let ?r = "room_from b k mx (?ze + 1)"
        have ih: "?r < mx \<Longrightarrow> ?ze + 1 \<le> ?r \<and> free_run b mx k ?r"
            "\<And>p. ?ze + 1 \<le> p \<Longrightarrow> p < ?r \<Longrightarrow> \<not> free_run b mx k p" "?r \<le> mx"
          using 1(1) [OF refl False refl short go 1(2)] by blast+
        have "\<not> free_run b mx k p" if "start \<le> p" "p < ?r" for p
          using that mid ih(2) by (cases "p \<le> ?ze") auto
        moreover have "start \<le> ?ze + 1" using zs(1) ze(1) by simp
        ultimately show ?thesis using ih(1,3) unfolding r by auto
      qed
    qed
  qed
qed

lemma room_for_filename_spec:
  assumes "0 < k"
  shows "room_for_filename b k mx < mx \<Longrightarrow> free_run b mx k (room_for_filename b k mx)"
    "p < room_for_filename b k mx \<Longrightarrow> \<not> free_run b mx k p"
    "room_for_filename b k mx < mx \<longleftrightarrow> (\<exists>p. free_run b mx k p)"
proof -
  note sp = room_from_spec [OF assms, of b mx 0]
  show a: "room_for_filename b k mx < mx \<Longrightarrow> free_run b mx k (room_for_filename b k mx)"
    and b: "\<And>p. p < room_for_filename b k mx \<Longrightarrow> \<not> free_run b mx k p"
    using sp by (auto simp: room_for_filename_def)
  show "room_for_filename b k mx < mx \<longleftrightarrow> (\<exists>p. free_run b mx k p)"
  proof
    assume "\<exists>p. free_run b mx k p"
    then obtain p where p: "free_run b mx k p" by blast
    then have "room_for_filename b k mx \<le> p" using b by (meson not_le)
    then show "room_for_filename b k mx < mx" using p assms by (simp add: free_run_def)
  qed (use a in blast)
qed

section \<open>Changing a block\<close>

lemma set_slots_eq: "set_slots v p k b = (\<lambda>i. if p \<le> i \<and> i < p + k then v else b i)"
  by (induction k) (auto simp: set_slots_def fun_eq_iff)

lemma update_dentry_simps:
  "dentry (f2fs_update_dentry L ino mode b n h p) q =
     (if q = p then \<lparr>hash_code = h, de_name_len = of_nat (length n), de_ino = ino,
        file_type = f2fs_type_by_mode L (drop_bit 12 (mode AND 0xF000)), \<dots> = dir_entry.more (dentry b p)\<rparr> else dentry b q)"
  "dentry_bitmap (f2fs_update_dentry L ino mode b n h p) i \<longleftrightarrow>
     p \<le> i \<and> i < p + dentry_slots L (length n) \<or> dentry_bitmap b i"
  "filename (f2fs_update_dentry L ino mode b n h p) = put_filename L p n (filename b)"
  by (auto simp: f2fs_update_dentry_def Let_def set_de_type_def set_slots_eq)

lemma clear_dentry_simps:
  "dentry (clear_dentry L p b) = dentry b"
  "filename (clear_dentry L p b) = filename b"
  "dentry_bitmap (clear_dentry L p b) i \<longleftrightarrow> dentry_bitmap b i \<and> \<not> (p \<le> i \<and> i < p + ent_slots L b p)"
  by (auto simp: clear_dentry_def set_slots_eq ent_slots_def)

lemma clear_dentry_ent [simp]:
  "ent_slots L (clear_dentry L p b) q = ent_slots L b q" "ent_name L (clear_dentry L p b) q = ent_name L b q"
  by (simp_all add: ent_slots_def ent_name_def filename_at_def clear_dentry_simps)

lemma clear_dentry_tiles:
  assumes "tiles L mx b S" "p \<in> S"
  shows "tiles L mx (clear_dentry L p b) (S - {p})"
  unfolding tiles_def
proof (intro conjI ballI allI impI)
  fix i
  assume i: "i < mx"
  have "dentry_bitmap b i \<and> \<not> (p \<le> i \<and> i < p + ent_slots L b p) \<longleftrightarrow> (\<exists>q\<in>S - {p}. q \<le> i \<and> i < q + ent_slots L b q)"
    (is "?l \<longleftrightarrow> ?r")
  proof
    assume ?l
    then show ?r using tiles_D(4) [OF assms(1) i] by auto
  next
    assume ?r
    then obtain q where q: "q \<in> S" "q \<noteq> p" "q \<le> i" "i < q + ent_slots L b q" by blast
    then have "\<not> (p \<le> i \<and> i < p + ent_slots L b p)"
      using tiles_D(3) [OF assms(1) q(1) assms(2)] tiles_D(3) [OF assms(1,2) q(1)] by (cases "p < q") auto
    then show ?l using tiles_D(4) [OF assms(1) i] q by auto
  qed
  then show "dentry_bitmap (clear_dentry L p b) i \<longleftrightarrow>
      (\<exists>q\<in>S - {p}. q \<le> i \<and> i < q + ent_slots L (clear_dentry L p b) q)"
    by (simp add: clear_dentry_simps)
qed (use assms tiles_D [OF assms(1)] in auto)

text \<open>Adding an entry where a run of slots is free keeps the other entries and their names.\<close>

lemma free_run_disjoint:
  assumes "tiles L mx b S" "free_run (dentry_bitmap b) mx k p" "0 < k" "q \<in> S"
  shows "q + ent_slots L b q \<le> p \<or> p + k \<le> q"
proof (rule ccontr)
  assume a: "\<not> ?thesis"
  let ?i = "max p q"
  have "p \<le> ?i" "?i < p + k" "q \<le> ?i" "?i < q + ent_slots L b q" using a assms(3) tiles_D(1) [OF assms(1,4)] by auto
  moreover from this have "\<not> dentry_bitmap b ?i" "?i < mx"
    using assms(2) unfolding free_run_def by (metis add_diff_inverse_nat less_diff_conv2 nat_add_left_cancel_less not_le, simp)
  ultimately show False using tiles_D(4) [OF assms(1), of ?i] assms(4) by blast
qed


lemma put_filename_outside:
  assumes "\<And>k. k < m \<Longrightarrow> q * slot_len L + k < p * slot_len L \<or> p * slot_len L + length n \<le> q * slot_len L + k"
  shows "map (\<lambda>k. put_filename L p n f (q * slot_len L + k)) [0..<m] = map (\<lambda>k. f (q * slot_len L + k)) [0..<m]"
  by (rule map_cong) (use assms in \<open>fastforce simp: put_filename_def\<close>)+

lemma put_filename_inside: "map (\<lambda>k. put_filename L p n f (p * slot_len L + k)) [0..<length n] = n"
  by (rule nth_equalityI) (simp_all add: put_filename_def)

lemma update_dentry_frame:
  assumes "slots_ok L" "tiles L mx b S" "free_run (dentry_bitmap b) mx (dentry_slots L (length n)) p"
    and "0 < dentry_slots L (length n)" "q \<in> S"
  shows "q \<noteq> p" "ent_slots L (f2fs_update_dentry L ino mode b n h p) q = ent_slots L b q"
    "ent_name L (f2fs_update_dentry L ino mode b n h p) q = ent_name L b q"
    "dentry (f2fs_update_dentry L ino mode b n h p) q = dentry b q"
proof -
  let ?k = "dentry_slots L (length n)"
  note dj = free_run_disjoint [OF assms(2,3,4,5)]
  show ne: "q \<noteq> p" using dj assms(4) tiles_D(1) [OF assms(2,5)] by auto
  show "ent_slots L (f2fs_update_dentry L ino mode b n h p) q = ent_slots L b q"
    "dentry (f2fs_update_dentry L ino mode b n h p) q = dentry b q"
    using ne by (simp_all add: ent_slots_def update_dentry_simps)
  let ?m = "unat (de_name_len (dentry b q))"
  have m: "?m \<le> ent_slots L b q * slot_len L" "length n \<le> ?k * slot_len L"
    using assms(1) by (simp_all add: slots_ok_def ent_slots_def)
  have "q * slot_len L + k < p * slot_len L \<or> p * slot_len L + length n \<le> q * slot_len L + k" if "k < ?m" for k
    using dj
  proof
    assume "q + ent_slots L b q \<le> p"
    then have "(q + ent_slots L b q) * slot_len L \<le> p * slot_len L" by simp
    then show ?thesis using m(1) that unfolding add_mult_distrib by linarith
  next
    assume "p + ?k \<le> q"
    then have "(p + ?k) * slot_len L \<le> q * slot_len L" by simp
    then show ?thesis using m(2) unfolding add_mult_distrib by linarith
  qed
  then show "ent_name L (f2fs_update_dentry L ino mode b n h p) q = ent_name L b q"
    using put_filename_outside [of ?m q L p n "filename b"] ne
    by (simp add: ent_name_def filename_at_def update_dentry_simps)
qed

lemma update_dentry_new:
  assumes "length n < 2 ^ 16"
  shows "ent_slots L (f2fs_update_dentry L ino mode b n h p) p = dentry_slots L (length n)"
    "ent_name L (f2fs_update_dentry L ino mode b n h p) p = n"
    "de_ino (dentry (f2fs_update_dentry L ino mode b n h p) p) = ino"
    "hash_code (dentry (f2fs_update_dentry L ino mode b n h p) p) = h"
proof -
  have "unat (of_nat (length n) :: u16) = length n" using assms by (intro unat_of_nat_small) simp
  then show "ent_slots L (f2fs_update_dentry L ino mode b n h p) p = dentry_slots L (length n)"
    "ent_name L (f2fs_update_dentry L ino mode b n h p) p = n"
    "de_ino (dentry (f2fs_update_dentry L ino mode b n h p) p) = ino"
    "hash_code (dentry (f2fs_update_dentry L ino mode b n h p) p) = h"
    by (simp_all add: ent_slots_def ent_name_def filename_at_def update_dentry_simps put_filename_inside)
qed

lemma update_dentry_tiles:
  assumes "slots_ok L" "tiles L mx b S" "free_run (dentry_bitmap b) mx (dentry_slots L (length n)) p"
    and "0 < dentry_slots L (length n)" "length n < 2 ^ 16"
  shows "tiles L mx (f2fs_update_dentry L ino mode b n h p) (insert p S)"
proof -
  let ?b = "f2fs_update_dentry L ino mode b n h p" and ?k = "dentry_slots L (length n)"
  note fr = update_dentry_frame(2) [OF assms(1-4), where ino = ino and mode = mode and h = h]
  note new = update_dentry_new(1) [OF assms(5), of L ino mode b h p]
  note dj = free_run_disjoint [OF assms(2-4)]
  show ?thesis
    unfolding tiles_def
  proof (intro conjI ballI allI impI)
    fix q
    assume "q \<in> insert p S"
    then show "0 < ent_slots L ?b q" "q + ent_slots L ?b q \<le> mx"
      using fr [of q] new assms(3,4) tiles_D(1,2) [OF assms(2), of q] by (auto simp: free_run_def)
  next
    fix q r
    assume "q \<in> insert p S" "r \<in> insert p S" "q < r"
    then show "q + ent_slots L ?b q \<le> r"
      using fr [of q] new dj [of q] dj [of r] tiles_D(3) [OF assms(2), of q r] tiles_D(1) [OF assms(2), of r] by auto
  next
    fix i
    assume "i < mx"
    then show "dentry_bitmap ?b i \<longleftrightarrow> (\<exists>q\<in>insert p S. q \<le> i \<and> i < q + ent_slots L ?b q)"
      using new fr tiles_D(4) [OF assms(2), of i] by (simp add: update_dentry_simps)
  qed
qed

text \<open>A new block is empty; the first block of a directory holds the two dots.\<close>

lemma zero_tiles: "tiles L mx zero_dentry_block {}"
  by (simp add: tiles_def zero_dentry_block_def)


section \<open>The entries of a block\<close>

definition blk_ok :: "layout \<Rightarrow> nat \<Rightarrow> dentry_block \<Rightarrow> bool" where
  "blk_ok L mx b \<longleftrightarrow> tiles L mx b (set (dent_starts L b mx 0)) \<and>
     (\<forall>p\<in>set (dent_starts L b mx 0). hash_code (dentry b p) = name_hash L (ent_name L b p))"

definition block_ents :: "layout \<Rightarrow> nat \<Rightarrow> dentry_block \<Rightarrow> (u8 list \<times> u32) list" where
  "block_ents L mx b = map (\<lambda>p. (ent_name L b p, de_ino (dentry b p))) (dent_starts L b mx 0)"

lemma blk_okI:
  assumes "tiles L mx b S" "\<And>p. p \<in> S \<Longrightarrow> hash_code (dentry b p) = name_hash L (ent_name L b p)"
  shows "blk_ok L mx b"
  using assms dent_starts_set [OF assms(1)] by (simp add: blk_ok_def)

lemma find_cong_set: "(\<And>x. x \<in> set xs \<Longrightarrow> P x = Q x) \<Longrightarrow> find P xs = find Q xs"
  by (induction xs) auto

lemma find_target_dentry_ok:
  assumes "slots_ok L" "blk_ok L mx b"
  shows "\<exists>ms. find_target_dentry L n mx b = Some (find (\<lambda>p. ent_name L b p = n) (dent_starts L b mx 0), ms, int mx)"
proof -
  have t: "tiles L mx b (set (dent_starts L b mx 0))" using assms(2) by (simp add: blk_ok_def)
  have "find (ent_match L n (name_hash L n) b) (dent_starts L b mx 0) = find (\<lambda>p. ent_name L b p = n) (dent_starts L b mx 0)"
    by (rule find_cong_set) (use assms(2) in \<open>auto simp: ent_match_name blk_ok_def\<close>)
  then show ?thesis
    using find_target_loop_eq [OF assms(1), of b mx 0 n "name_hash L n" 0 0] tiles_D(1) [OF t]
    by (simp add: find_target_dentry_def)
qed

text \<open>The longest free run a failed search reports agrees with the search for a free run.\<close>

lemma find_target_room:
  "slots_ok L \<Longrightarrow> tiles L mx b S \<Longrightarrow> aligned L b S pos \<Longrightarrow> pos \<le> mx \<Longrightarrow> l0 \<le> pos \<Longrightarrow>
   (\<And>i. pos - l0 \<le> i \<Longrightarrow> i < pos \<Longrightarrow> \<not> dentry_bitmap b i) \<Longrightarrow>
   find_target_loop L n h b (int mx) m0 l0 pos = Some (None, ms, z) \<Longrightarrow> 0 < k \<Longrightarrow>
   k \<le> ms \<longleftrightarrow> k \<le> m0 \<or> (\<exists>p\<ge>pos - l0. free_run (dentry_bitmap b) mx k p)"
proof (induction L b mx pos arbitrary: m0 l0 rule: dent_starts.induct)
  case (1 L b mx pos)
  note lp = find_target_loop.simps [of L n h b "int mx" m0 l0 pos, folded ent_match_def ent_slots_def]
  let ?m = "if l0 > m0 then l0 else m0"
  show ?case
  proof (cases "pos < mx")
    case lt: True
    note bit = aligned_slot [OF 1(4,5) lt]
    show ?thesis
    proof (cases "dentry_bitmap b pos")
      case True
      then have S: "pos \<in> S" using bit by simp
      have k: "0 < ent_slots L b pos" "pos + ent_slots L b pos \<le> mx" using tiles_D(1,2) [OF 1(4) S] by auto
      then have nz: "de_name_len (dentry b pos) \<noteq> 0" and mx1: "max 1 (ent_slots L b pos) = ent_slots L b pos"
        using name_len_0 [OF 1(3), of b pos] by auto
      have nm: "\<not> ent_match L n h b pos" using 1(9) lp lt True by (auto simp: below_max_def)
      have eq: "find_target_loop L n h b (int mx) ?m 0 (pos + ent_slots L b pos) = Some (None, ms, z)"
        using 1(9) lp lt True nz nm by (simp add: below_max_def)
      have "k \<le> ms \<longleftrightarrow> k \<le> ?m \<or> (\<exists>p\<ge>pos + ent_slots L b pos. free_run (dentry_bitmap b) mx k p)"
        using 1(1) [OF lt True 1(3,4), of 0 ?m, unfolded mx1, OF aligned_entry [OF 1(4,5) S] k(2) _ _ eq 1(10)] by simp
      moreover have "(\<exists>p\<ge>pos - l0. free_run (dentry_bitmap b) mx k p) \<longleftrightarrow>
          k \<le> l0 \<or> (\<exists>p\<ge>pos + ent_slots L b pos. free_run (dentry_bitmap b) mx k p)" (is "?l \<longleftrightarrow> ?r")
      proof
        assume ?l
        then obtain p where p: "pos - l0 \<le> p" "free_run (dentry_bitmap b) mx k p" by blast
        have clear: "\<not> dentry_bitmap b i" if "p \<le> i" "i < p + k" for i
          using p(2) that unfolding free_run_def by (metis add_diff_inverse_nat less_diff_conv2 not_le nat_add_left_cancel_less)
        have "k \<le> l0" if "p < pos"
          using clear [of pos] that True p(1) 1(7) by (cases "pos < p + k") auto
        moreover have "pos + ent_slots L b pos \<le> p" if "pos \<le> p"
        proof (rule ccontr)
          assume "\<not> ?thesis"
          then have "p < pos + ent_slots L b pos" "p < mx" using k(2) by simp_all
          then have "dentry_bitmap b p" using tiles_D(4) [OF 1(4), of p] S that by blast
          then show False using clear [of p] 1(10) by simp
        qed
        ultimately show ?r using p(2) by (meson not_le)
      next
        assume ?r
        then show ?l
        proof
          assume "k \<le> l0"
          then have "free_run (dentry_bitmap b) mx k (pos - l0)" using 1(7,8) lt by (auto simp: free_run_def)
          then show ?l by blast
        qed (use le_trans [of "pos - l0" "pos + ent_slots L b pos"] in \<open>meson diff_le_self le_add1 le_trans\<close>)
      qed
      ultimately show ?thesis by (auto split: if_splits)
    next
      case False
      then have "pos \<notin> S" using bit by simp
      have eq: "find_target_loop L n h b (int mx) m0 (l0 + 1) (pos + 1) = Some (None, ms, z)"
        using 1(9) lp lt False by (simp add: below_max_def)
      have "\<not> dentry_bitmap b i" if "pos + 1 - (l0 + 1) \<le> i" "i < pos + 1" for i
        using that 1(8) False by (cases "i = pos") auto
      then show ?thesis
        using 1(2) [OF lt False 1(3,4) aligned_free [OF 1(5) \<open>pos \<notin> S\<close>] _ _ _ eq 1(10)] lt 1(7) by simp
    qed
  next
    case False
    then have "pos = mx" "ms = ?m" using 1(6,9) lp by (auto simp: below_max_def)
    moreover have "(\<exists>p\<ge>mx - l0. free_run (dentry_bitmap b) mx k p) \<longleftrightarrow> k \<le> l0"
    proof
      assume "k \<le> l0"
      then have "free_run (dentry_bitmap b) mx k (mx - l0)" using 1(7,8) \<open>pos = mx\<close> by (auto simp: free_run_def)
      then show "\<exists>p\<ge>mx - l0. free_run (dentry_bitmap b) mx k p" by blast
    qed (auto simp: free_run_def)
    ultimately show ?thesis by auto
  qed
qed


lemma find_target_max_slots:
  assumes "slots_ok L" "blk_ok L mx b" "find_target_dentry L n mx b = Some (None, ms, z)" "0 < k"
  shows "k \<le> ms \<longleftrightarrow> room_for_filename (dentry_bitmap b) k mx < mx"
proof -
  have t: "tiles L mx b (set (dent_starts L b mx 0))" using assms(2) by (simp add: blk_ok_def)
  show ?thesis
    using find_target_room [OF assms(1) t aligned_0 _ _ _ assms(3) [unfolded find_target_dentry_def] assms(4)]
      room_for_filename_spec(3) [OF assms(4), of "dentry_bitmap b" mx] assms(4) by simp
qed

lemma clear_dentry_ok:
  assumes "blk_ok L mx b" "p \<in> set (dent_starts L b mx 0)"
  shows "blk_ok L mx (clear_dentry L p b)"
    "set (dent_starts L (clear_dentry L p b) mx 0) = set (dent_starts L b mx 0) - {p}"
proof -
  have t: "tiles L mx (clear_dentry L p b) (set (dent_starts L b mx 0) - {p})"
    using assms by (intro clear_dentry_tiles) (simp_all add: blk_ok_def)
  show "set (dent_starts L (clear_dentry L p b) mx 0) = set (dent_starts L b mx 0) - {p}" by (rule dent_starts_set [OF t])
  show "blk_ok L mx (clear_dentry L p b)"
    by (rule blk_okI [OF t]) (use assms(1) in \<open>simp add: blk_ok_def clear_dentry_simps\<close>)
qed

lemma update_dentry_ok:
  assumes "slots_ok L" "blk_ok L mx b" "free_run (dentry_bitmap b) mx (dentry_slots L (length n)) p"
    and "n \<noteq> []" "length n < 2 ^ 16"
  shows "blk_ok L mx (f2fs_update_dentry L ino mode b n (name_hash L n) p)"
    "set (dent_starts L (f2fs_update_dentry L ino mode b n (name_hash L n) p) mx 0) = insert p (set (dent_starts L b mx 0))"
    "q \<in> set (dent_starts L b mx 0) \<Longrightarrow> q \<noteq> p \<and>
      ent_name L (f2fs_update_dentry L ino mode b n (name_hash L n) p) q = ent_name L b q \<and>
      dentry (f2fs_update_dentry L ino mode b n (name_hash L n) p) q = dentry b q"
proof -
  let ?b = "f2fs_update_dentry L ino mode b n (name_hash L n) p"
  have k: "0 < dentry_slots L (length n)"
    using assms(1,4) by (metis slots_ok_def gr0I le_zero_eq length_0_conv mult_zero_left)
  have t: "tiles L mx b (set (dent_starts L b mx 0))" using assms(2) by (simp add: blk_ok_def)
  note fr = update_dentry_frame(3,4) [OF assms(1) t assms(3) k, where ino = ino and mode = mode and h = "name_hash L n"]
  have t': "tiles L mx ?b (insert p (set (dent_starts L b mx 0)))"
    by (rule update_dentry_tiles [OF assms(1) t assms(3) k assms(5)])
  show s: "set (dent_starts L ?b mx 0) = insert p (set (dent_starts L b mx 0))" by (rule dent_starts_set [OF t'])
  show q: "q \<in> set (dent_starts L b mx 0) \<Longrightarrow> q \<noteq> p \<and> ent_name L ?b q = ent_name L b q \<and> dentry ?b q = dentry b q" for q
    using fr update_dentry_frame(1) [OF assms(1) t assms(3) k] by blast
  show "blk_ok L mx ?b"
  proof (rule blk_okI [OF t'])
    fix q
    assume "q \<in> insert p (set (dent_starts L b mx 0))"
    then show "hash_code (dentry ?b q) = name_hash L (ent_name L ?b q)"
      using q [of q] assms(2) update_dentry_new(2,4) [OF assms(5)] by (cases "q = p") (auto simp: blk_ok_def)
  qed
qed

text \<open>
  Listing a block from \<open>pos\<close>: the reader takes the entries one after the other until it refuses one,
  and the position it keeps is behind the last one it took.
\<close>

lemma fill_dentries_loop_spec:
  "slots_ok L \<Longrightarrow> \<forall>p\<in>set (dent_starts L b mx pos). 0 < ent_slots L b p \<Longrightarrow>
   \<exists>k \<le> length (dent_starts L b mx pos).
     let es = dent_starts L b mx pos; out = ctx_out ctx @ map (dirent_at L b) (take k es);
         nxt = (if k = 0 then ctx_pos ctx else start + (es ! (k - 1) + ent_slots L b (es ! (k - 1))))
     in fill_dentries_loop L emit mx b start pos ctx = Some (k < length es, \<lparr>ctx_pos = nxt, ctx_out = out\<rparr>) \<and>
        (k < length es \<longrightarrow> \<not> emit out (dirent_at L b (es ! k))) \<and>
        (\<forall>i<k. emit (ctx_out ctx @ map (dirent_at L b) (take i es)) (dirent_at L b (es ! i))) \<and>
        (0 < k \<longrightarrow> dent_starts L b mx (es ! (k - 1) + ent_slots L b (es ! (k - 1))) = drop k es)"
proof (induction "mx - pos" arbitrary: pos ctx rule: less_induct)
  case less
  let ?p = "find_next_bit (dentry_bitmap b) mx pos"
  let ?es = "dent_starts L b mx pos"
  note lp = fill_dentries_loop.simps [of L emit mx b start pos ctx, folded ent_slots_def]
  note st = dent_starts_next [of L b mx pos, unfolded Let_def]
  show ?case
  proof (cases "pos < mx \<and> ?p < mx")
    case False
    then show ?thesis using lp st by (intro exI [of _ 0]) auto
  next
    case True
    let ?q = "?p + ent_slots L b ?p"
    have k: "0 < ent_slots L b ?p" using less(3) st True by simp
    then have es: "?es = ?p # dent_starts L b mx ?q" using st True by (simp add: max_def)
    show ?thesis
    proof (cases "emit (ctx_out ctx) (dirent_at L b ?p)")
      case False
      then show ?thesis using lp st True es by (intro exI [of _ 0]) auto
    next
      case em: True
      let ?c = "\<lparr>ctx_pos = start + ?q, ctx_out = ctx_out ctx @ [dirent_at L b ?p]\<rparr>"
      have "mx - ?q < mx - pos" using True k find_next_bit_hit [of "dentry_bitmap b" mx pos] by auto
      from less(1) [OF this less(2), of ?c] less(3) es obtain j where
        j: "j \<le> length (dent_starts L b mx ?q)" and
        h: "let es = dent_starts L b mx ?q; out = ctx_out ?c @ map (dirent_at L b) (take j es);
              nxt = (if j = 0 then ctx_pos ?c else start + (es ! (j - 1) + ent_slots L b (es ! (j - 1))))
          in fill_dentries_loop L emit mx b start ?q ?c = Some (j < length es, \<lparr>ctx_pos = nxt, ctx_out = out\<rparr>) \<and>
             (j < length es \<longrightarrow> \<not> emit out (dirent_at L b (es ! j))) \<and>
             (\<forall>i<j. emit (ctx_out ?c @ map (dirent_at L b) (take i es)) (dirent_at L b (es ! i))) \<and>
             (0 < j \<longrightarrow> dent_starts L b mx (es ! (j - 1) + ent_slots L b (es ! (j - 1))) = drop j es)" by auto
      have acc: "emit (ctx_out ctx @ map (dirent_at L b) (take i ?es)) (dirent_at L b (?es ! i))" if "i < Suc j" for i
        using h that em unfolding es Let_def by (cases i) auto
      have rest: "dent_starts L b mx (?es ! j + ent_slots L b (?es ! j)) = drop (Suc j) ?es"
        using h unfolding es Let_def by (cases j) auto
      have "fill_dentries_loop L emit mx b start pos ctx = fill_dentries_loop L emit mx b start ?q ?c"
        using lp True em by simp
      then show ?thesis
        using j h acc rest unfolding Let_def es by (intro exI [of _ "Suc j"]) (auto split: if_splits)
    qed
  qed
qed

section \<open>An entry without a name\<close>

lemma find_target_stuck:
  assumes "slots_ok L" "dentry_bitmap b p" "de_name_len (dentry b p) = 0" "n \<noteq> []" "below_max p mx"
  shows "find_target_loop L n h b mx m0 l0 p = None"
proof -
  have "\<not> (L' = L \<and> b' = b \<and> pos = p \<and> n' = n \<and> below_max p mx)"
    if "find_target_loop L' n' h' b' mx m0 l0 pos = Some y" for L' n' h' b' mx m0 l0 pos y
  proof (rule find_target_loop.raw_induct [OF _ that, of "\<lambda>L' n' h' b' mx m0 l0 pos y. \<not> (L' = L \<and> b' = b \<and> pos = p \<and> n' = n \<and> below_max p mx)"], intro notI)
    fix f :: "layout \<Rightarrow> u8 list \<Rightarrow> u32 \<Rightarrow> dentry_block \<Rightarrow> int \<Rightarrow> nat \<Rightarrow> nat \<Rightarrow> nat \<Rightarrow> (nat option \<times> nat \<times> int) option"
      and L' n' h' b' mx m0 l0 pos y
    assume IH: "\<And>L' n' h' b' mx m0 l0 pos y. f L' n' h' b' mx m0 l0 pos = Some y \<Longrightarrow>
        \<not> (L' = L \<and> b' = b \<and> pos = p \<and> n' = n \<and> below_max p mx)"
      and eq: "(if below_max pos mx then
        if \<not> dentry_bitmap b' pos then f L' n' h' b' mx m0 (l0 + 1) (pos + 1)
        else if early_match_name (length n') h' (dentry b' pos) \<and> filename_at L' b' pos (length n') = n'
        then Some (Some pos, if l0 > m0 then l0 else m0, mx)
        else f L' n' h' b' (if de_name_len (dentry b' pos) = 0 then -1 else mx)
               (if l0 > m0 then l0 else m0) 0
               (pos + dentry_slots L' (unat (de_name_len (dentry b' pos))))
      else Some (None, if l0 > m0 then l0 else m0, mx)) = Some y"
      and h: "L' = L \<and> b' = b \<and> pos = p \<and> n' = n \<and> below_max p mx"
    then have "f L n h' b (-1) (if l0 > m0 then l0 else m0) 0 p = Some y"
      using assms(1-4) by (auto simp: early_match_name_def slots_ok_def split: if_splits)
    from IH [OF this] show False by (simp add: below_max_def)
  qed
  then show ?thesis using assms(5) by (cases "find_target_loop L n h b mx m0 l0 p") auto
qed

lemma find_target_stuck_walk:
  "slots_ok L \<Longrightarrow> dent_starts L b mx pos = xs @ p # ys \<Longrightarrow> \<forall>q\<in>set xs. 0 < ent_slots L b q \<and> \<not> ent_match L n h b q \<Longrightarrow>
   dentry_bitmap b p \<Longrightarrow> de_name_len (dentry b p) = 0 \<Longrightarrow> n \<noteq> [] \<Longrightarrow>
   find_target_loop L n h b (int mx) m0 l0 pos = None"
proof (induction L b mx pos arbitrary: m0 l0 xs rule: dent_starts.induct)
  case (1 L b mx pos)
  note st = dent_starts.simps [of L b mx pos]
  note lp = find_target_loop.simps [of L n h b "int mx" m0 l0 pos, folded ent_match_def ent_slots_def]
  have lt: "pos < mx" using 1(4) st by (auto split: if_splits)
  show ?case
  proof (cases "dentry_bitmap b pos")
    case True
    show ?thesis
    proof (cases xs)
      case Nil
      then have "pos = p" using 1(4) st lt True by simp
      then show ?thesis using find_target_stuck [OF 1(3,6,7,8)] lt by (simp add: below_max_def)
    next
      case (Cons q xs')
      then have q: "q = pos" using 1(4) st lt True by simp
      then have k: "0 < ent_slots L b pos" "\<not> ent_match L n h b pos" using 1(5) Cons by auto
      then have "de_name_len (dentry b pos) \<noteq> 0" "max 1 (ent_slots L b pos) = ent_slots L b pos"
        using name_len_0 [OF 1(3), of b pos] by auto
      then show ?thesis
        using lp lt True k(2) 1(1) [OF lt True 1(3), of xs'] 1(4-8) Cons st by (auto simp: below_max_def)
    qed
  next
    case False
    then show ?thesis using 1(2) [OF lt False 1(3) _ 1(5-8)] 1(4) st lt lp by (simp add: below_max_def)
  qed
qed

text \<open>
  A damaged entry whose name length is zero does not stop the search, as the assignment of \<open>-1\<close> to
  \<open>d->max\<close> means to: compared with the unsigned position it is the largest number, the walk does not
  advance over an entry without slots, and every search that passes the entry never ends. The check
  \<open>d.max < 0\<close> behind the search is not reached.
\<close>
theorem find_target_spins:
  assumes "slots_ok L" "dent_starts L b mx 0 = xs @ p # ys" "de_name_len (dentry b p) = 0" "n \<noteq> []"
    and "\<forall>q\<in>set xs. 0 < ent_slots L b q \<and> \<not> ent_match L n (name_hash L n) b q"
  shows "find_target_dentry L n mx b = None"
proof -
  have set_bits: "\<forall>q\<in>set (dent_starts L b mx pos). dentry_bitmap b q" for pos
  proof (induction L b mx pos rule: dent_starts.induct)
    case (1 L b mx pos)
    note st = dent_starts.simps [of L b mx pos]
    consider "\<not> pos < mx" | "pos < mx" "dentry_bitmap b pos" | "pos < mx" "\<not> dentry_bitmap b pos" by blast
    then show ?case
    proof cases
      case 1
      then show ?thesis by (simp add: st)
    next
      case 2
      then have "dent_starts L b mx pos = pos # dent_starts L b mx (pos + max 1 (ent_slots L b pos))" by (simp add: st)
      then show ?thesis using "1.IH"(1) [OF 2] 2(2) by simp
    next
      case 3
      then have "dent_starts L b mx pos = dent_starts L b mx (pos + 1)" by (simp add: st)
      then show ?thesis using "1.IH"(2) [OF 3] by simp
    qed
  qed
  have "dentry_bitmap b p" using set_bits [of 0] unfolding assms(2) by simp
  then show ?thesis
    using find_target_stuck_walk [OF assms(1,2,5) _ assms(3,4)] by (simp add: find_target_dentry_def)
qed

theorem find_target_spins_witness:
  "find_target_dentry small_layout [97] 16 (zero_dentry_block\<lparr>dentry_bitmap := (\<lambda>i. i = 3)\<rparr>) = None"
proof (rule find_target_spins [where xs = "[]" and p = 3 and ys = "dent_starts small_layout (zero_dentry_block\<lparr>dentry_bitmap := (\<lambda>i. i = 3)\<rparr>) 16 4"])
  show "slots_ok small_layout" by (auto simp: slots_ok_def small_layout_def)
  show "dent_starts small_layout (zero_dentry_block\<lparr>dentry_bitmap := (\<lambda>i. i = 3)\<rparr>) 16 0 =
      [] @ 3 # dent_starts small_layout (zero_dentry_block\<lparr>dentry_bitmap := (\<lambda>i. i = 3)\<rparr>) 16 4" by code_simp
qed (simp_all add: zero_dentry_block_def)

section \<open>A new directory\<close>

lemma starts_two:
  assumes "dentry_bitmap b = (\<lambda>i. i = 0 \<or> i = 1)" "ent_slots L b 0 = 1" "ent_slots L b 1 = 1" "2 \<le> mx"
  shows "tiles L mx b {0, 1}"
  using assms by (auto simp: tiles_def less_Suc_eq)

text \<open>A new directory holds itself under one dot and its parent under two.\<close>

lemma make_empty_dir_ents:
  assumes "slots_ok L" "dentry_slots L 1 = 1" "dentry_slots L 2 = 1" "1 < slot_len L" "2 \<le> mx" "dentry_bitmap b = (\<lambda>_. False)"
  shows "blk_ok L mx (do_make_empty_dir L ino mode pino pmode b)"
    "block_ents L mx (do_make_empty_dir L ino mode pino pmode b) = [([46], ino), ([46, 46], pino)]"
proof -
  let ?b = "do_make_empty_dir L ino mode pino pmode b"
  have bm: "dentry_bitmap ?b = (\<lambda>i. i = 0 \<or> i = 1)" using assms(6) by (auto simp: do_make_empty_dir_def Let_def fun_eq_iff)
  have s: "ent_slots L ?b 0 = 1" "ent_slots L ?b 1 = 1"
    using assms(2,3) by (simp_all add: ent_slots_def do_make_empty_dir_def Let_def set_de_type_def)
  note t = starts_two [OF bm s assms(5)]
  have f: "filename ?b = put_filename L 1 [46, 46] (put_filename L 0 [46] (filename b))"
    and l: "de_name_len (dentry ?b 0) = 1" "de_name_len (dentry ?b 1) = 2"
    by (simp_all add: do_make_empty_dir_def Let_def set_de_type_def)
  have "unat (de_name_len (dentry ?b 1)) = length [46, 46 :: u8]" using l(2) by simp
  then have n: "ent_name L ?b 1 = [46, 46]" unfolding ent_name_def filename_at_def f by (simp only: put_filename_inside)
  have n0: "ent_name L ?b 0 = [46]"
    using assms(4) by (simp add: ent_name_def filename_at_def f l put_filename_def)
  note n = n0 n
  have h: "hash_code (dentry ?b 0) = 0" "hash_code (dentry ?b 1) = 0"
    by (simp_all add: do_make_empty_dir_def Let_def set_de_type_def)
  have nh: "name_hash L [46] = 0" "name_hash L [46, 46] = 0"
    by (simp_all add: name_hash_def f2fs_dentry_hash_def is_dot_name_def)
  have i: "de_ino (dentry ?b 0) = ino" "de_ino (dentry ?b 1) = pino"
    by (simp_all add: do_make_empty_dir_def Let_def set_de_type_def)
  show "blk_ok L mx ?b" by (rule blk_okI [OF t]) (use n h nh in auto)
  have "[0..<mx] = 0 # 1 # [2..<mx]" using assms(5) by (simp add: upt_conv_Cons numeral_2_eq_2)
  then have "dent_starts L ?b mx 0 = [0, 1]" using dent_starts_tiles [OF t aligned_0] by (auto simp: filter_empty_conv)
  then show "block_ents L mx ?b = [([46], ino), ([46, 46], pino)]" using n i by (simp add: block_ents_def)
qed

end
