(* ===== verification/Directory.thy ===== *)
theory Directory
  imports Dentry_Block Ino_Entry Block_Count
begin

text \<open>
  Directories (\<open>dir.c\<close>, the directory part of \<open>inline.c\<close>). A directory is a hash table in levels: level
  \<open>l\<close> has \<open>dir_buckets\<close> buckets of \<open>bucket_blocks\<close> blocks, a name can be in the bucket of its hash on
  any level, and the table grows by a level when the buckets of a name are full. A small directory
  keeps its entries inside the inode instead. Times, the dirty state of pages and the copy of the
  inode in its node page are not modelled.
\<close>

section \<open>State\<close>

text \<open>
  An inode (\<open>struct inode\<close> with \<open>f2fs_inode_info\<close>), with its directory blocks: \<open>d_blocks\<close> maps the
  index of a block that exists to its contents, \<open>inline_dents\<close> are the entries inside the inode and
  \<open>raw_name\<close> the name kept in the inode for recovery (\<open>i_name\<close>, \<open>i_namelen\<close>).
\<close>

record vnode =
  i_ino :: u32
  i_mode :: u16
  i_size :: nat
  i_nlink :: u32
  fi :: f2fs_inode_info
  chash :: u32
  clevel :: u32
  i_pino :: u32
  d_blocks :: "nat \<rightharpoonup> dentry_block"
  inline_dents :: dentry_block
  raw_name :: "u8 list"

text \<open>
  What can fail underneath, given by the environment: reading a block that exists (\<open>find_data_page\<close>,
  \<open>get_lock_data_page\<close>), reserving or reading a block to be written, getting the inode's node page,
  and the steps of \<open>init_inode_metadata\<close>.
\<close>

record dir_env =
  find_err :: "nat \<Rightarrow> errno option"
  lock_err :: "nat \<Rightarrow> errno option"
  new_err :: "nat \<Rightarrow> errno option"
  node_err :: "errno option"         \<comment> \<open>get_node_page of the directory\<close>
  convert_err :: "errno option"      \<comment> \<open>the page or the block of f2fs_convert_inline_dir\<close>
  inode_page_err :: "errno option"   \<comment> \<open>new_inode_page or get_node_page of the file\<close>
  first_block_err :: "errno option"  \<comment> \<open>get_new_data_page in make_empty_dir\<close>
  acl_err :: "errno option"
  security_err :: "errno option"

definition no_err :: dir_env where
  "no_err = \<lparr>find_err = (\<lambda>_. None), lock_err = (\<lambda>_. None), new_err = (\<lambda>_. None), node_err = None, convert_err = None,
     inode_page_err = None, first_block_err = None, acl_err = None, security_err = None\<rparr>"

definition is_dir :: "vnode \<Rightarrow> bool" where
  "is_dir v \<longleftrightarrow> i_mode v AND 0xF000 = 0x4000"

definition set_flag :: "fi_flag \<Rightarrow> vnode \<Rightarrow> vnode" where
  "set_flag f v = v\<lparr>fi := set_inode_flag (fi v) f\<rparr>"

definition clear_flag :: "fi_flag \<Rightarrow> vnode \<Rightarrow> vnode" where
  "clear_flag f v = v\<lparr>fi := clear_inode_flag (fi v) f\<rparr>"

definition has_flag :: "vnode \<Rightarrow> fi_flag \<Rightarrow> bool" where
  "has_flag v f = is_inode_flag_set (fi v) f"

definition f2fs_has_inline_dentry :: "vnode \<Rightarrow> bool" where
  "f2fs_has_inline_dentry v = has_flag v FI_INLINE_DENTRY"

definition file_lost_pino :: "vnode \<Rightarrow> vnode" where
  "file_lost_pino v = v\<lparr>fi := (fi v)\<lparr>i_advise := i_advise (fi v) OR 2\<rparr>\<rparr>"

definition inc_nlink :: "vnode \<Rightarrow> vnode" where
  "inc_nlink v = v\<lparr>i_nlink := i_nlink v + 1\<rparr>"

definition drop_nlink :: "vnode \<Rightarrow> vnode" where
  "drop_nlink v = v\<lparr>i_nlink := i_nlink v - 1\<rparr>"

section \<open>Blocks of a directory\<close>

definition dir_blocks :: "layout \<Rightarrow> vnode \<Rightarrow> nat" where
  "dir_blocks L d = (i_size d + page_size L - 1) div page_size L"

definition dir_buckets :: "layout \<Rightarrow> nat \<Rightarrow> nat \<Rightarrow> u32" where
  "dir_buckets L level dir_level =
     (if level + dir_level < max_dir_hash_depth L div 2 then push_bit (level + dir_level) 1
      else of_nat (max_dir_buckets L))"

definition bucket_blocks :: "layout \<Rightarrow> nat \<Rightarrow> u32" where
  "bucket_blocks L level = (if level < max_dir_hash_depth L div 2 then 2 else 4)"

text \<open>The products are taken in 32 bits, the sum in 64.\<close>

definition dir_block_index :: "layout \<Rightarrow> nat \<Rightarrow> nat \<Rightarrow> u32 \<Rightarrow> nat" where
  "dir_block_index L level dir_level idx =
     fold (\<lambda>i bidx. bidx + unat (dir_buckets L i dir_level * bucket_blocks L i)) [0..<level] 0
       + unat (idx * bucket_blocks L level)"

text \<open>The indices of the blocks of the bucket of a hash.\<close>

definition bucket :: "layout \<Rightarrow> nat \<Rightarrow> nat \<Rightarrow> u32 \<Rightarrow> nat list" where
  "bucket L level dir_level h =
     (let nbucket = dir_buckets L level dir_level;
          nblock = unat (bucket_blocks L level);
          bidx = dir_block_index L level dir_level (h mod nbucket)
      in [bidx..<bidx + nblock])"

definition find_data_page :: "dir_env \<Rightarrow> nat \<Rightarrow> vnode \<Rightarrow> errno + dentry_block" where
  "find_data_page env index d =
     (case d_blocks d index of
        None \<Rightarrow> Inl ENOENT
      | Some b \<Rightarrow> (case find_err env index of Some e \<Rightarrow> Inl e | None \<Rightarrow> Inr b))"

definition get_lock_data_page :: "dir_env \<Rightarrow> nat \<Rightarrow> vnode \<Rightarrow> errno + dentry_block" where
  "get_lock_data_page env index d =
     (case d_blocks d index of
        None \<Rightarrow> Inl ENOENT
      | Some b \<Rightarrow> (case lock_err env index of Some e \<Rightarrow> Inl e | None \<Rightarrow> Inr b))"

text \<open>A block that does not exist is reserved and zero; the size of the directory follows.\<close>

definition get_new_data_page :: "layout \<Rightarrow> errno option \<Rightarrow> nat \<Rightarrow> bool \<Rightarrow> vnode \<Rightarrow> (errno + dentry_block) \<times> vnode" where
  "get_new_data_page L err index new_i_size d =
     (case err of
        Some e \<Rightarrow> (Inl e, d)
      | None \<Rightarrow>
          let b = (case d_blocks d index of Some b \<Rightarrow> b | None \<Rightarrow> zero_dentry_block);
              d = d\<lparr>d_blocks := (d_blocks d)(index \<mapsto> b)\<rparr>;
              d = (if new_i_size \<and> i_size d < (index + 1) * page_size L
                   then set_flag FI_UPDATE_DIR (d\<lparr>i_size := (index + 1) * page_size L\<rparr>) else d)
          in (Inr b, d))"

section \<open>Finding an entry\<close>

text \<open>Where an entry is: the page, a block or (\<open>None\<close>) the inode page, and the slot.\<close>

type_synonym dloc = "nat option \<times> nat"

definition find_in_inline_dir :: "layout \<Rightarrow> dir_env \<Rightarrow> vnode \<Rightarrow> u8 list \<Rightarrow> dloc option option" where
  "find_in_inline_dir L env d name =
     (case node_err env of
        Some _ \<Rightarrow> Some None
      | None \<Rightarrow> (case find_target_dentry L name (make_dentry_ptr L True) (inline_dents d) of
            None \<Rightarrow> None
          | Some (r, _) \<Rightarrow> Some (map_option (\<lambda>p. (None, p)) r)))"

text \<open>The loop over the blocks of a bucket: the entry, and whether there was room for the name.\<close>

fun find_in_bucket :: "layout \<Rightarrow> dir_env \<Rightarrow> vnode \<Rightarrow> u8 list \<Rightarrow> bool \<Rightarrow> nat list \<Rightarrow> (dloc option \<times> bool) option" where
  "find_in_bucket L env d name room [] = Some (None, room)"
| "find_in_bucket L env d name room (bidx # rest) =
     (case find_data_page env bidx d of
        Inl _ \<Rightarrow> find_in_bucket L env d name True rest
      | Inr b \<Rightarrow> (case find_target_dentry L name (make_dentry_ptr L False) b of
            None \<Rightarrow> None
          | Some (Some p, _) \<Rightarrow> Some (Some (Some bidx, p), room)
          | Some (None, max_slots, _) \<Rightarrow>
              find_in_bucket L env d name (room \<or> max_slots \<ge> dentry_slots L (length name)) rest))"

definition find_in_level :: "layout \<Rightarrow> dir_env \<Rightarrow> nat \<Rightarrow> u8 list \<Rightarrow> u32 \<Rightarrow> vnode \<Rightarrow> (dloc option \<times> vnode) option" where
  "find_in_level L env level name namehash d =
     (case find_in_bucket L env d name False (bucket L level (i_dir_level (fi d)) namehash) of
        None \<Rightarrow> None
      | Some (de, room) \<Rightarrow>
          Some (de, if de = None \<and> room \<and> chash d \<noteq> namehash then d\<lparr>chash := namehash, clevel := of_nat level\<rparr> else d))"

fun find_levels :: "layout \<Rightarrow> dir_env \<Rightarrow> u8 list \<Rightarrow> u32 \<Rightarrow> nat list \<Rightarrow> vnode \<Rightarrow> (dloc option \<times> vnode) option" where
  "find_levels L env name namehash [] d = Some (None, d)"
| "find_levels L env name namehash (level # rest) d =
     (case find_in_level L env level name namehash d of
        None \<Rightarrow> None
      | Some (Some de, d) \<Rightarrow> Some (Some de, d)
      | Some (None, d) \<Rightarrow> find_levels L env name namehash rest d)"

definition f2fs_find_entry :: "layout \<Rightarrow> dir_env \<Rightarrow> vnode \<Rightarrow> u8 list \<Rightarrow> (dloc option \<times> vnode) option" where
  "f2fs_find_entry L env d child =
     (if f2fs_has_inline_dentry d then map_option (\<lambda>r. (r, d)) (find_in_inline_dir L env d child)
      else if dir_blocks L d = 0 then Some (None, d)
      else let namehash = name_hash L child;
               max_depth = i_current_depth (fi d)
           in case find_levels L env child namehash [0..<max_depth] d of
                None \<Rightarrow> None
              | Some (de, d) \<Rightarrow>
                  Some (de, if de = None \<and> chash d \<noteq> namehash
                            then d\<lparr>chash := namehash, clevel := of_nat max_depth - 1\<rparr> else d))"

definition page_of :: "vnode \<Rightarrow> nat option \<Rightarrow> dentry_block option" where
  "page_of d pg = (case pg of None \<Rightarrow> Some (inline_dents d) | Some k \<Rightarrow> d_blocks d k)"

definition set_page :: "nat option \<Rightarrow> dentry_block \<Rightarrow> vnode \<Rightarrow> vnode" where
  "set_page pg b d = (case pg of None \<Rightarrow> d\<lparr>inline_dents := b\<rparr> | Some k \<Rightarrow> d\<lparr>d_blocks := (d_blocks d)(k \<mapsto> b)\<rparr>)"

definition entry_at :: "vnode \<Rightarrow> dloc \<Rightarrow> dir_entry option" where
  "entry_at d loc = map_option (\<lambda>b. dentry b (snd loc)) (page_of d (fst loc))"

definition f2fs_inode_by_name :: "layout \<Rightarrow> dir_env \<Rightarrow> vnode \<Rightarrow> u8 list \<Rightarrow> (u32 \<times> vnode) option" where
  "f2fs_inode_by_name L env d name =
     (case f2fs_find_entry L env d name of
        None \<Rightarrow> None
      | Some (Some loc, d) \<Rightarrow> Some (case entry_at d loc of Some de \<Rightarrow> de_ino de | None \<Rightarrow> 0, d)
      | Some (None, d) \<Rightarrow> Some (0, d))"

definition f2fs_parent_inline_dir :: "dir_env \<Rightarrow> dloc option" where
  "f2fs_parent_inline_dir env = (case node_err env of Some _ \<Rightarrow> None | None \<Rightarrow> Some (None, 1))"

definition f2fs_parent_dir :: "dir_env \<Rightarrow> vnode \<Rightarrow> dloc option" where
  "f2fs_parent_dir env d =
     (if f2fs_has_inline_dentry d then f2fs_parent_inline_dir env
      else case get_lock_data_page env 0 d of Inl _ \<Rightarrow> None | Inr _ \<Rightarrow> Some (Some 0, 1))"

definition f2fs_set_link :: "layout \<Rightarrow> dloc \<Rightarrow> vnode \<Rightarrow> vnode \<Rightarrow> vnode" where
  "f2fs_set_link L loc inode d =
     (case page_of d (fst loc) of
        None \<Rightarrow> d
      | Some b \<Rightarrow> set_page (fst loc) (b\<lparr>dentry := (dentry b)(snd loc :=
            set_de_type L (i_mode inode) ((dentry b (snd loc))\<lparr>de_ino := i_ino inode\<rparr>))\<rparr>) d)"

section \<open>Links of inodes\<close>

definition make_empty_inline_dir :: "layout \<Rightarrow> vnode \<Rightarrow> vnode \<Rightarrow> vnode" where
  "make_empty_inline_dir L v parent =
     (let v = v\<lparr>inline_dents := do_make_empty_dir L (i_ino v) (i_mode v) (i_ino parent) (i_mode parent) (inline_dents v)\<rparr>
      in if i_size v < max_inline_data L then set_flag FI_UPDATE_DIR (v\<lparr>i_size := max_inline_data L\<rparr>) else v)"

definition make_empty_dir :: "layout \<Rightarrow> dir_env \<Rightarrow> vnode \<Rightarrow> vnode \<Rightarrow> (errno + unit) \<times> vnode" where
  "make_empty_dir L env v parent =
     (if f2fs_has_inline_dentry v then (Inr (), make_empty_inline_dir L v parent)
      else case get_new_data_page L (first_block_err env) 0 True v of
             (Inl e, v) \<Rightarrow> (Inl e, v)
           | (Inr b, v) \<Rightarrow>
               (Inr (), set_page (Some 0) (do_make_empty_dir L (i_ino v) (i_mode v) (i_ino parent) (i_mode parent) b) v))"

text \<open>After a failure the blocks of the new inode are freed.\<close>

definition drop_new_inode :: "vnode \<Rightarrow> vnode" where
  "drop_new_inode v = v\<lparr>d_blocks := Map.empty\<rparr>"

text \<open>The tail of \<open>init_inode_metadata\<close>: the name in the inode, and a further link.\<close>

definition link_metadata :: "u8 list option \<Rightarrow> vnode \<times> ino_mgmt \<Rightarrow> vnode \<times> ino_mgmt" where
  "link_metadata name vm =
     (case vm of (v, m) \<Rightarrow>
        let v = (case name of Some n \<Rightarrow> v\<lparr>raw_name := n\<rparr> | None \<Rightarrow> v)
        in if has_flag v FI_INC_LINK
           then let v = file_lost_pino v;
                    m = (if i_nlink v = 0 then remove_orphan_inode (i_ino v) m else m)
                in (inc_nlink v, m)
           else (v, m))"

definition init_inode_metadata ::
    "layout \<Rightarrow> dir_env \<Rightarrow> vnode \<Rightarrow> vnode \<Rightarrow> u8 list option \<Rightarrow> ino_mgmt \<Rightarrow> (errno + unit) \<times> vnode \<times> ino_mgmt" where
  "init_inode_metadata L env v dir name m =
     (case inode_page_err env of
        Some e \<Rightarrow> (Inl e, v, m)
      | None \<Rightarrow>
          if has_flag v FI_NEW_INODE then
            case (if is_dir v then make_empty_dir L env v dir else (Inr (), v)) of
              (Inl e, v) \<Rightarrow> (Inl e, drop_new_inode v, m)
            | (Inr _, v) \<Rightarrow>
                (case acl_err env of
                   Some e \<Rightarrow> (Inl e, drop_new_inode v, m)
                 | None \<Rightarrow> (case security_err env of
                       Some e \<Rightarrow> (Inl e, drop_new_inode v, m)
                     | None \<Rightarrow> (Inr (), link_metadata name (v, m))))
          else (Inr (), link_metadata name (v, m)))"

definition update_parent_metadata :: "vnode \<Rightarrow> vnode option \<Rightarrow> nat \<Rightarrow> vnode \<times> vnode option" where
  "update_parent_metadata dir inode current_depth =
     (let (dir, inode) = (case inode of
            Some v \<Rightarrow> if has_flag v FI_NEW_INODE
              then (if is_dir v then set_flag FI_UPDATE_DIR (inc_nlink dir) else dir, Some (clear_flag FI_NEW_INODE v))
              else (dir, Some v)
          | None \<Rightarrow> (dir, None));
          dir = (if i_current_depth (fi dir) \<noteq> current_depth
                 then set_flag FI_UPDATE_DIR (dir\<lparr>fi := (fi dir)\<lparr>i_current_depth := current_depth\<rparr>\<rparr>) else dir);
          inode = (case inode of
            Some v \<Rightarrow> Some (if has_flag v FI_INC_LINK then clear_flag FI_INC_LINK v else v)
          | None \<Rightarrow> None)
      in (dir, inode))"

definition f2fs_drop_nlink :: "vnode \<Rightarrow> vnode \<Rightarrow> ino_mgmt \<Rightarrow> sb_info \<Rightarrow> vnode \<times> vnode \<times> ino_mgmt \<times> sb_info" where
  "f2fs_drop_nlink dir v m s =
     (let dir = (if is_dir v then drop_nlink dir else dir);
          v = drop_nlink v;
          v = (if is_dir v then (drop_nlink v)\<lparr>i_size := 0\<rparr> else v)
      in if i_nlink v = 0 then (dir, v, add_orphan_inode (i_ino v) m, s)
         else let (m, s) = release_orphan_inode m s in (dir, v, m, s))"

section \<open>Adding an entry\<close>

text \<open>
  What follows once a place for the entry is found, in a block or in the inode: the metadata of the
  file, the entry, and the metadata of the directory. The flag that the directory is to be written
  is cleared at the end in either case.
\<close>

definition add_entry ::
    "layout \<Rightarrow> dir_env \<Rightarrow> u8 list \<Rightarrow> dloc \<Rightarrow> nat \<Rightarrow> u32 \<Rightarrow> u16 \<Rightarrow> vnode \<Rightarrow> vnode option \<Rightarrow> ino_mgmt \<Rightarrow>
      (errno + unit) \<times> vnode \<times> vnode option \<times> ino_mgmt" where
  "add_entry L env name loc current_depth ino mode dir inode m =
     (let (r, inode, m) = (case inode of
            Some v \<Rightarrow> (case init_inode_metadata L env v dir (Some name) m of (r, v, m) \<Rightarrow> (r, Some v, m))
          | None \<Rightarrow> (Inr (), None, m))
      in case r of
           Inl e \<Rightarrow> (Inl e, clear_flag FI_UPDATE_DIR dir, inode, m)
         | Inr _ \<Rightarrow>
             (case page_of dir (fst loc) of
                None \<Rightarrow> (Inr (), dir, inode, m)
              | Some b \<Rightarrow>
                  let dir = set_page (fst loc) (f2fs_update_dentry L ino mode b name (name_hash L name) (snd loc)) dir;
                      inode = map_option (\<lambda>v. v\<lparr>i_pino := i_ino dir\<rparr>) inode;
                      (dir, inode) = update_parent_metadata dir inode current_depth
                  in (Inr (), clear_flag FI_UPDATE_DIR dir, inode, m)))"

text \<open>The entries inside the inode move to the first block.\<close>

definition convert_dentries :: "layout \<Rightarrow> dentry_block \<Rightarrow> dentry_block" where
  "convert_dentries L b =
     \<lparr>dentry_bitmap = (\<lambda>i. i < 8 * inline_dentry_bitmap_size L \<and> dentry_bitmap b i),
      dentry = (\<lambda>i. if i < nr_inline_dentry L then dentry b i else dentry zero_dentry_block i),
      filename = (\<lambda>i. if i < nr_inline_dentry L * slot_len L then filename b i else 0)\<rparr>"

definition f2fs_convert_inline_dir :: "layout \<Rightarrow> dir_env \<Rightarrow> vnode \<Rightarrow> (errno + unit) \<times> vnode" where
  "f2fs_convert_inline_dir L env dir =
     (case convert_err env of
        Some e \<Rightarrow> (Inl e, dir)
      | None \<Rightarrow>
          let dir = set_page (Some 0) (convert_dentries L (inline_dents dir)) dir;
              dir = dir\<lparr>inline_dents := zero_dentry_block\<rparr>;
              dir = clear_flag FI_INLINE_DENTRY dir;
              dir = (if i_size dir < page_size L then set_flag FI_UPDATE_DIR (dir\<lparr>i_size := page_size L\<rparr>) else dir)
          in (Inr (), dir))"

definition f2fs_add_inline_entry ::
    "layout \<Rightarrow> dir_env \<Rightarrow> vnode \<Rightarrow> u8 list \<Rightarrow> vnode option \<Rightarrow> u32 \<Rightarrow> u16 \<Rightarrow> ino_mgmt \<Rightarrow>
      (errno + unit) \<times> vnode \<times> vnode option \<times> ino_mgmt" where
  "f2fs_add_inline_entry L env dir name inode ino mode m =
     (case node_err env of
        Some e \<Rightarrow> (Inl e, dir, inode, m)
      | None \<Rightarrow>
          let slots = dentry_slots L (length name);
              bit_pos = room_for_filename (dentry_bitmap (inline_dents dir)) slots (nr_inline_dentry L)
          in if bit_pos \<ge> nr_inline_dentry L then
               (case f2fs_convert_inline_dir L env dir of
                  (Inl e, dir) \<Rightarrow> (Inl e, dir, inode, m)
                | (Inr _, dir) \<Rightarrow> (Inl EAGAIN, dir, inode, m))
             else add_entry L env name (None, bit_pos) 0 ino mode dir inode m)"

text \<open>The blocks of a bucket, each made to exist, until one has room.\<close>

fun add_scan :: "layout \<Rightarrow> dir_env \<Rightarrow> nat \<Rightarrow> nat list \<Rightarrow> vnode \<Rightarrow> (errno + dloc option) \<times> vnode" where
  "add_scan L env slots [] d = (Inr None, d)"
| "add_scan L env slots (block # rest) d =
     (case get_new_data_page L (new_err env block) block True d of
        (Inl e, d) \<Rightarrow> (Inl e, d)
      | (Inr b, d) \<Rightarrow>
          let bit_pos = room_for_filename (dentry_bitmap b) slots (nr_dentry_in_block L)
          in if bit_pos < nr_dentry_in_block L then (Inr (Some (Some block, bit_pos)), d)
             else add_scan L env slots rest d)"

text \<open>The loop over the levels; the result carries the depth of the table.\<close>

partial_function (option) add_levels ::
    "layout \<Rightarrow> dir_env \<Rightarrow> nat \<Rightarrow> u32 \<Rightarrow> nat \<Rightarrow> nat \<Rightarrow> vnode \<Rightarrow> ((errno + dloc \<times> nat) \<times> vnode) option" where
  "add_levels L env slots h level current_depth d =
     (if current_depth = max_dir_hash_depth L then Some (Inl ENOSPC, d)
      else (case add_scan L env slots (bucket L level (i_dir_level (fi d)) h) d of
              (Inl e, d) \<Rightarrow> Some (Inl e, d)
            | (Inr (Some loc), d) \<Rightarrow> Some (Inr (loc, if level = current_depth then current_depth + 1 else current_depth), d)
            | (Inr None, d) \<Rightarrow>
                add_levels L env slots h (level + 1) (if level = current_depth then current_depth + 1 else current_depth) d))"

definition add_regular ::
    "layout \<Rightarrow> dir_env \<Rightarrow> vnode \<Rightarrow> u8 list \<Rightarrow> vnode option \<Rightarrow> u32 \<Rightarrow> u16 \<Rightarrow> ino_mgmt \<Rightarrow>
      ((errno + unit) \<times> vnode \<times> vnode option \<times> ino_mgmt) option" where
  "add_regular L env dir name inode ino mode m =
     (let dentry_hash = name_hash L name;
          current_depth = i_current_depth (fi dir);
          (level, dir) = (if chash dir = dentry_hash then (unat (clevel dir), dir\<lparr>chash := 0\<rparr>) else (0, dir))
      in case add_levels L env (dentry_slots L (length name)) dentry_hash level current_depth dir of
           None \<Rightarrow> None
         | Some (Inl e, dir) \<Rightarrow> Some (Inl e, dir, inode, m)
         | Some (Inr (loc, current_depth), dir) \<Rightarrow> Some (add_entry L env name loc current_depth ino mode dir inode m))"

text \<open>\<open>__f2fs_add_link\<close>\<close>

definition f2fs_add_link ::
    "layout \<Rightarrow> dir_env \<Rightarrow> vnode \<Rightarrow> u8 list \<Rightarrow> vnode option \<Rightarrow> u32 \<Rightarrow> u16 \<Rightarrow> ino_mgmt \<Rightarrow>
      ((errno + unit) \<times> vnode \<times> vnode option \<times> ino_mgmt) option" where
  "f2fs_add_link L env dir name inode ino mode m =
     (if f2fs_has_inline_dentry dir then
        (case f2fs_add_inline_entry L env dir name inode ino mode m of
           (err, dir, inode, m) \<Rightarrow>
             if err \<noteq> Inl EAGAIN then Some (err, dir, inode, m)
             else add_regular L env dir name inode ino mode m)
      else add_regular L env dir name inode ino mode m)"

definition f2fs_do_tmpfile :: "layout \<Rightarrow> dir_env \<Rightarrow> vnode \<Rightarrow> vnode \<Rightarrow> ino_mgmt \<Rightarrow> (errno + unit) \<times> vnode \<times> ino_mgmt" where
  "f2fs_do_tmpfile L env v dir m =
     (case init_inode_metadata L env v dir None m of
        (Inl e, v, m) \<Rightarrow> (Inl e, v, m)
      | (Inr _, v, m) \<Rightarrow> (Inr (), clear_flag FI_NEW_INODE v, m))"

section \<open>Removing an entry, empty directories\<close>

text \<open>
  A block without entries is freed. The entry is the one found in the page; the page of an entry
  inside the inode is the inode's.
\<close>

definition f2fs_delete_inline_entry ::
    "layout \<Rightarrow> nat \<Rightarrow> vnode \<Rightarrow> vnode option \<Rightarrow> ino_mgmt \<Rightarrow> sb_info \<Rightarrow> vnode \<times> vnode option \<times> ino_mgmt \<times> sb_info" where
  "f2fs_delete_inline_entry L bit_pos dir inode m s =
     (let dir = dir\<lparr>inline_dents := clear_dentry L bit_pos (inline_dents dir)\<rparr>
      in case inode of
           Some v \<Rightarrow> (case f2fs_drop_nlink dir v m s of (dir, v, m, s) \<Rightarrow> (dir, Some v, m, s))
         | None \<Rightarrow> (dir, None, m, s))"

definition f2fs_delete_entry ::
    "layout \<Rightarrow> nat \<Rightarrow> nat \<Rightarrow> vnode \<Rightarrow> vnode option \<Rightarrow> ino_mgmt \<Rightarrow> sb_info \<Rightarrow> vnode \<times> vnode option \<times> ino_mgmt \<times> sb_info" where
  "f2fs_delete_entry L index slot dir inode m s =
     (if f2fs_has_inline_dentry dir then f2fs_delete_inline_entry L slot dir inode m s
      else case d_blocks dir index of
        None \<Rightarrow> (dir, inode, m, s)
      | Some b \<Rightarrow>
          let b = clear_dentry L slot b;
              bit_pos = find_next_bit (dentry_bitmap b) (nr_dentry_in_block L) 0;
              dir = set_page (Some index) b dir;
              (dir, inode, m, s) = (case inode of
                 Some v \<Rightarrow> (case f2fs_drop_nlink dir v m s of (dir, v, m, s) \<Rightarrow> (dir, Some v, m, s))
               | None \<Rightarrow> (dir, None, m, s));
              (dir, s) = (if bit_pos = nr_dentry_in_block L
                 then (case inode_dec_dirty_pages (s, fi dir) of
                         (s, f) \<Rightarrow> (dir\<lparr>d_blocks := (d_blocks dir)(index := None), fi := f\<rparr>, s))
                 else (dir, s))
          in (dir, inode, m, s))"

fun empty_blocks :: "layout \<Rightarrow> dir_env \<Rightarrow> vnode \<Rightarrow> nat list \<Rightarrow> bool" where
  "empty_blocks L env dir [] = True"
| "empty_blocks L env dir (bidx # rest) =
     (case get_lock_data_page env bidx dir of
        Inl e \<Rightarrow> if e = ENOENT then empty_blocks L env dir rest else False
      | Inr b \<Rightarrow>
          let bit_pos = (if bidx = 0 then 2 else 0);
              bit_pos = find_next_bit (dentry_bitmap b) (nr_dentry_in_block L) bit_pos
          in if bit_pos < nr_dentry_in_block L then False else empty_blocks L env dir rest)"

definition f2fs_empty_inline_dir :: "layout \<Rightarrow> dir_env \<Rightarrow> vnode \<Rightarrow> bool" where
  "f2fs_empty_inline_dir L env dir =
     (case node_err env of
        Some _ \<Rightarrow> False
      | None \<Rightarrow> \<not> find_next_bit (dentry_bitmap (inline_dents dir)) (nr_inline_dentry L) 2 < nr_inline_dentry L)"

definition f2fs_empty_dir :: "layout \<Rightarrow> dir_env \<Rightarrow> vnode \<Rightarrow> bool" where
  "f2fs_empty_dir L env dir =
     (if f2fs_has_inline_dentry dir then f2fs_empty_inline_dir L env dir
      else empty_blocks L env dir [0..<dir_blocks L dir])"

section \<open>Listing a directory\<close>

fun readdir_blocks ::
    "layout \<Rightarrow> dir_env \<Rightarrow> (dirent list \<Rightarrow> dirent \<Rightarrow> bool) \<Rightarrow> vnode \<Rightarrow> nat list \<Rightarrow> dir_context \<Rightarrow> dir_context option" where
  "readdir_blocks L env emit d [] ctx = Some ctx"
| "readdir_blocks L env emit d (n # rest) ctx =
     (case get_lock_data_page env n d of
        Inl _ \<Rightarrow> readdir_blocks L env emit d rest ctx
      | Inr b \<Rightarrow> (case f2fs_fill_dentries L emit (make_dentry_ptr L False) b (n * nr_dentry_in_block L) ctx of
            None \<Rightarrow> None
          | Some (True, ctx) \<Rightarrow> Some ctx
          | Some (False, ctx) \<Rightarrow>
              readdir_blocks L env emit d rest (ctx\<lparr>ctx_pos := (n + 1) * nr_dentry_in_block L\<rparr>)))"

definition f2fs_read_inline_dir ::
    "layout \<Rightarrow> dir_env \<Rightarrow> (dirent list \<Rightarrow> dirent \<Rightarrow> bool) \<Rightarrow> vnode \<Rightarrow> dir_context \<Rightarrow> ((errno + unit) \<times> dir_context) option" where
  "f2fs_read_inline_dir L env emit d ctx =
     (if ctx_pos ctx = nr_inline_dentry L then Some (Inr (), ctx)
      else case node_err env of
        Some e \<Rightarrow> Some (Inl e, ctx)
      | None \<Rightarrow> (case f2fs_fill_dentries L emit (make_dentry_ptr L True) (inline_dents d) 0 ctx of
            None \<Rightarrow> None
          | Some (True, ctx) \<Rightarrow> Some (Inr (), ctx)
          | Some (False, ctx) \<Rightarrow> Some (Inr (), ctx\<lparr>ctx_pos := nr_inline_dentry L\<rparr>)))"

definition f2fs_readdir ::
    "layout \<Rightarrow> dir_env \<Rightarrow> (dirent list \<Rightarrow> dirent \<Rightarrow> bool) \<Rightarrow> vnode \<Rightarrow> dir_context \<Rightarrow> ((errno + unit) \<times> dir_context) option" where
  "f2fs_readdir L env emit d ctx =
     (if f2fs_has_inline_dentry d then f2fs_read_inline_dir L env emit d ctx
      else map_option (\<lambda>ctx. (Inr (), ctx))
             (readdir_blocks L env emit d [ctx_pos ctx div nr_dentry_in_block L..<dir_blocks L d] ctx))"

end
