(* ===== verification/Directory_Map.thy ===== *)
theory Directory_Map
  imports Directory
begin

text \<open>
  A directory as a map from names to inode numbers: the invariant of a directory, and that finding,
  adding, removing and listing entries are the operations of the map.
\<close>

section \<open>The map\<close>

definition dir_mx :: "layout \<Rightarrow> vnode \<Rightarrow> nat" where
  "dir_mx L d = make_dentry_ptr L (f2fs_has_inline_dentry d)"

text \<open>The pages that hold entries: the inode page of an inline directory, or the blocks.\<close>

definition dir_page :: "vnode \<Rightarrow> nat option \<Rightarrow> dentry_block option" where
  "dir_page d pg =
     (if f2fs_has_inline_dentry d then (case pg of None \<Rightarrow> Some (inline_dents d) | Some _ \<Rightarrow> None)
      else (case pg of None \<Rightarrow> None | Some k \<Rightarrow> d_blocks d k))"

definition dir_pages :: "layout \<Rightarrow> vnode \<Rightarrow> nat option list" where
  "dir_pages L d = (if f2fs_has_inline_dentry d then [None] else map Some [0..<dir_blocks L d])"

definition dir_ents :: "layout \<Rightarrow> vnode \<Rightarrow> (u8 list \<times> u32) list" where
  "dir_ents L d = concat (map (\<lambda>pg. case dir_page d pg of None \<Rightarrow> [] | Some b \<Rightarrow> block_ents L (dir_mx L d) b) (dir_pages L d))"

definition dir_map :: "layout \<Rightarrow> vnode \<Rightarrow> u8 list \<rightharpoonup> u32" where
  "dir_map L d = map_of (dir_ents L d)"

text \<open>An entry: the page, the slot, and what the page says.\<close>

definition dir_slot :: "layout \<Rightarrow> vnode \<Rightarrow> dloc \<Rightarrow> dentry_block \<Rightarrow> bool" where
  "dir_slot L d loc b \<longleftrightarrow> dir_page d (fst loc) = Some b \<and> snd loc \<in> set (dent_starts L b (dir_mx L d) 0)"

text \<open>
  The invariant: every page is well formed, every block is inside the directory, no name occurs twice,
  and every entry is in a block of the bucket of its name on a level below the depth.
\<close>

definition dir_core :: "layout \<Rightarrow> vnode \<Rightarrow> bool" where
  "dir_core L d \<longleftrightarrow>
     (\<forall>pg b. dir_page d pg = Some b \<longrightarrow> pg \<in> set (dir_pages L d) \<and> blk_ok L (dir_mx L d) b) \<and>
     (\<forall>x b y c. dir_slot L d x b \<longrightarrow> dir_slot L d y c \<longrightarrow> ent_name L b (snd x) = ent_name L c (snd y) \<longrightarrow> x = y)"

definition placed :: "layout \<Rightarrow> vnode \<Rightarrow> nat \<Rightarrow> bool" where
  "placed L d depth \<longleftrightarrow>
     (\<forall>k p b. dir_slot L d (Some k, p) b \<longrightarrow>
        (\<exists>level<depth. k \<in> set (bucket L level (i_dir_level (fi d)) (name_hash L (ent_name L b p)))))"

definition depth_ok :: "layout \<Rightarrow> vnode \<Rightarrow> bool" where
  "depth_ok L d \<longleftrightarrow> i_current_depth (fi d) \<le> max_dir_hash_depth L \<and>
     (if f2fs_has_inline_dentry d
      then unat (clevel d) = 0 \<and> d_blocks d = Map.empty \<and> (\<forall>i\<ge>nr_inline_dentry L. \<not> dentry_bitmap (inline_dents d) i)
      else unat (clevel d) < i_current_depth (fi d))"

definition dir_ok :: "layout \<Rightarrow> vnode \<Rightarrow> bool" where
  "dir_ok L d \<longleftrightarrow> dir_core L d \<and> placed L d (i_current_depth (fi d)) \<and> depth_ok L d"

definition dir_layout_ok :: "layout \<Rightarrow> bool" where
  "dir_layout_ok L \<longleftrightarrow> slots_ok L \<and> 0 < page_size L \<and> 1 < max_dir_hash_depth L \<and> max_dir_hash_depth L < 2 ^ 32 \<and>
     0 < nr_dentry_in_block L \<and> nr_inline_dentry L \<le> nr_dentry_in_block L \<and> nr_inline_dentry L \<le> 8 * inline_dentry_bitmap_size L"

lemma dir_core_D:
  assumes "dir_core L d"
  shows "dir_page d pg = Some b \<Longrightarrow> pg \<in> set (dir_pages L d)" "dir_page d pg = Some b \<Longrightarrow> blk_ok L (dir_mx L d) b"
    "dir_slot L d x b \<Longrightarrow> dir_slot L d y c \<Longrightarrow> ent_name L b (snd x) = ent_name L c (snd y) \<Longrightarrow> x = y"
  using assms unfolding dir_core_def by blast+

lemma in_dir_ents:
  assumes "dir_core L d"
  shows "(n, i) \<in> set (dir_ents L d) \<longleftrightarrow>
    (\<exists>loc b. dir_slot L d loc b \<and> ent_name L b (snd loc) = n \<and> de_ino (dentry b (snd loc)) = i)" (is "?l \<longleftrightarrow> ?r")
proof
  assume ?l
  then obtain pg where pg: "(n, i) \<in> set (case dir_page d pg of None \<Rightarrow> [] | Some b \<Rightarrow> block_ents L (dir_mx L d) b)"
    by (auto simp: dir_ents_def)
  then obtain b where b: "dir_page d pg = Some b" by (cases "dir_page d pg") auto
  with pg obtain p where "p \<in> set (dent_starts L b (dir_mx L d) 0)" "n = ent_name L b p" "i = de_ino (dentry b p)"
    by (auto simp: block_ents_def)
  then show ?r using b by (intro exI [of _ "(pg, p)"] exI [of _ b]) (simp add: dir_slot_def)
next
  assume ?r
  then obtain pg p b where h: "dir_page d pg = Some b" "p \<in> set (dent_starts L b (dir_mx L d) 0)"
      "ent_name L b p = n" "de_ino (dentry b p) = i"
    by (auto simp: dir_slot_def)
  then show ?l
    using dir_core_D(1) [OF assms h(1)] by (auto simp: dir_ents_def block_ents_def intro!: bexI [of _ pg])
qed

lemma map_of_functional:
  "(\<And>i j. (n, i) \<in> set xs \<Longrightarrow> (n, j) \<in> set xs \<Longrightarrow> i = j) \<Longrightarrow> map_of xs n = Some i \<longleftrightarrow> (n, i) \<in> set xs"
  by (metis map_of_SomeD weak_map_of_SomeI)

lemma dir_map_iff:
  assumes "dir_core L d"
  shows "dir_map L d n = Some i \<longleftrightarrow>
    (\<exists>loc b. dir_slot L d loc b \<and> ent_name L b (snd loc) = n \<and> de_ino (dentry b (snd loc)) = i)"
proof -
  have "i = j" if a: "(n, i) \<in> set (dir_ents L d)" "(n, j) \<in> set (dir_ents L d)" for i j
  proof -
    obtain x b where x: "dir_slot L d x b" "ent_name L b (snd x) = n" "de_ino (dentry b (snd x)) = i"
      using a(1) unfolding in_dir_ents [OF assms] by blast
    obtain y c where y: "dir_slot L d y c" "ent_name L c (snd y) = n" "de_ino (dentry c (snd y)) = j"
      using a(2) unfolding in_dir_ents [OF assms] by blast
    have "x = y" using dir_core_D(3) [OF assms x(1) y(1)] x(2) y(2) by simp
    then show ?thesis using x y by (simp add: dir_slot_def)
  qed
  then have "map_of (dir_ents L d) n = Some i \<longleftrightarrow> (n, i) \<in> set (dir_ents L d)" by (rule map_of_functional)
  then show ?thesis unfolding dir_map_def in_dir_ents [OF assms] .
qed

lemma dir_map_none:
  assumes "dir_core L d"
  shows "dir_map L d n = None \<longleftrightarrow> (\<forall>loc b. dir_slot L d loc b \<longrightarrow> ent_name L b (snd loc) \<noteq> n)"
proof -
  have "dir_map L d n = None \<longleftrightarrow> (\<forall>i. dir_map L d n \<noteq> Some i)" by (cases "dir_map L d n") auto
  then show ?thesis unfolding dir_map_iff [OF assms] by blast
qed

lemma option_eq_iff: "(\<And>i. x = Some i \<longleftrightarrow> y = Some i) \<Longrightarrow> x = y"
  by (cases x; cases y) auto

text \<open>Two directories with the same entries are the same map.\<close>

lemma dir_map_cong:
  assumes "dir_core L d" "dir_core L e"
    and "\<And>n i. (\<exists>loc b. dir_slot L d loc b \<and> ent_name L b (snd loc) = n \<and> de_ino (dentry b (snd loc)) = i) \<longleftrightarrow>
      (\<exists>loc b. dir_slot L e loc b \<and> ent_name L b (snd loc) = n \<and> de_ino (dentry b (snd loc)) = i)"
  shows "dir_map L d = dir_map L e"
proof
  fix n
  have "dir_map L d n = Some i \<longleftrightarrow> dir_map L e n = Some i" for i
    unfolding dir_map_iff [OF assms(1)] dir_map_iff [OF assms(2)] by (rule assms(3))
  then show "dir_map L d n = dir_map L e n" by (rule option_eq_iff)
qed

section \<open>Finding\<close>

text \<open>The map depends on the pages only.\<close>

definition same_pages :: "vnode \<Rightarrow> vnode \<Rightarrow> bool" where
  "same_pages d e \<longleftrightarrow> f2fs_has_inline_dentry e = f2fs_has_inline_dentry d \<and> inline_dents e = inline_dents d \<and>
     d_blocks e = d_blocks d \<and> i_size e = i_size d \<and> i_dir_level (fi e) = i_dir_level (fi d)"

lemma same_pages_view:
  assumes "same_pages d e"
  shows "f2fs_has_inline_dentry e = f2fs_has_inline_dentry d" "dir_page e = dir_page d" "dir_slot L e = dir_slot L d"
    "dir_pages L e = dir_pages L d" "dir_mx L e = dir_mx L d" "dir_core L e = dir_core L d" "placed L e = placed L d"
    "dir_map L e = dir_map L d" "i_dir_level (fi e) = i_dir_level (fi d)" "dir_blocks L e = dir_blocks L d"
proof -
  have s: "f2fs_has_inline_dentry e = f2fs_has_inline_dentry d" "inline_dents e = inline_dents d" "d_blocks e = d_blocks d"
      "i_size e = i_size d" "i_dir_level (fi e) = i_dir_level (fi d)"
    using assms by (simp_all add: same_pages_def)
  show "f2fs_has_inline_dentry e = f2fs_has_inline_dentry d" "i_dir_level (fi e) = i_dir_level (fi d)" by (fact s)+
  show a: "dir_page e = dir_page d" by (rule ext) (unfold dir_page_def s, rule refl)
  show b: "dir_blocks L e = dir_blocks L d" by (simp add: dir_blocks_def s)
  show c: "dir_pages L e = dir_pages L d" by (simp add: dir_pages_def s b)
  show m: "dir_mx L e = dir_mx L d" by (simp add: dir_mx_def s)
  show sl: "dir_slot L e = dir_slot L d" by (simp add: dir_slot_def a m fun_eq_iff)
  show "dir_core L e = dir_core L d" "placed L e = placed L d"
    by (simp_all add: dir_core_def placed_def a b c m sl s fun_eq_iff)
  show "dir_map L e = dir_map L d" unfolding dir_map_def dir_ents_def a c m by (rule refl)
qed

lemma flag_dir_level [simp]:
  "i_dir_level (set_inode_flag f a) = i_dir_level f" "i_dir_level (clear_inode_flag f a) = i_dir_level f"
  "i_current_depth (set_inode_flag f a) = i_current_depth f" "i_current_depth (clear_inode_flag f a) = i_current_depth f"
  by (simp_all add: set_inode_flag_def clear_inode_flag_def)

lemma same_pages_updates [simp]:
  "same_pages d d"
  "same_pages d (e\<lparr>chash := c\<rparr>) = same_pages d e" "same_pages d (e\<lparr>clevel := l\<rparr>) = same_pages d e"
  "same_pages d (e\<lparr>i_nlink := l\<rparr>) = same_pages d e"
  "f \<noteq> FI_INLINE_DENTRY \<Longrightarrow> same_pages d (clear_flag f e) = same_pages d e"
  "f \<noteq> FI_INLINE_DENTRY \<Longrightarrow> same_pages d (set_flag f e) = same_pages d e"
  "same_pages d (e\<lparr>fi := (fi e)\<lparr>i_current_depth := k\<rparr>\<rparr>) = same_pages d e"
  "same_pages d (e\<lparr>fi := (fi e)\<lparr>dirty_pages := w\<rparr>\<rparr>) = same_pages d e"
  by (auto simp: same_pages_def f2fs_has_inline_dentry_def has_flag_def clear_flag_def set_flag_def flag_dir_level)
     (auto simp: is_inode_flag_set_def)

lemma same_pages_trans: "same_pages d e \<Longrightarrow> same_pages e f \<Longrightarrow> same_pages d f"
  by (simp add: same_pages_def)

lemma find_in_bucket_spec:
  assumes "slots_ok L" "\<not> f2fs_has_inline_dentry d" "dir_core L d" "\<And>k. find_err env k = None"
  shows "\<exists>r room'. find_in_bucket L env d n room ks = Some (r, room') \<and>
    (case r of Some loc \<Rightarrow> \<exists>b. dir_slot L d loc b \<and> ent_name L b (snd loc) = n
     | None \<Rightarrow> \<forall>k\<in>set ks. \<forall>p b. dir_slot L d (Some k, p) b \<longrightarrow> ent_name L b p \<noteq> n)"
proof (induction ks arbitrary: room)
  case (Cons k ks)
  have mx: "make_dentry_ptr L False = dir_mx L d" using assms(2) by (simp add: dir_mx_def)
  show ?case
  proof (cases "d_blocks d k")
    case None
    then have "find_data_page env k d = Inl ENOENT" by (simp add: find_data_page_def)
    moreover have "\<not> dir_slot L d (Some k, p) b" for p b using None assms(2) by (simp add: dir_slot_def dir_page_def)
    ultimately show ?thesis using Cons.IH [of True] by (auto split: option.splits)
  next
    case (Some b)
    then have pg: "dir_page d (Some k) = Some b" using assms(2) by (simp add: dir_page_def)
    let ?r = "find (\<lambda>p. ent_name L b p = n) (dent_starts L b (dir_mx L d) 0)"
    have fd: "find_data_page env k d = Inr b" using Some assms(4) by (simp add: find_data_page_def)
    obtain ms where t: "find_target_dentry L n (dir_mx L d) b = Some (?r, ms, int (dir_mx L d))"
      using find_target_dentry_ok [OF assms(1) dir_core_D(2) [OF assms(3) pg]] by blast
    show ?thesis
    proof (cases ?r)
      case None
      then have no: "\<forall>p\<in>set (dent_starts L b (dir_mx L d) 0). ent_name L b p \<noteq> n" by (simp add: find_None_iff)
      then have "ent_name L c p \<noteq> n" if "dir_slot L d (Some k, p) c" for p c
        using that pg by (auto simp: dir_slot_def)
      then show ?thesis
        using Cons.IH [of "room \<or> ms \<ge> dentry_slots L (length n)"] fd t None mx by (auto split: option.splits)
    next
      case (Some p)
      then have "p \<in> set (dent_starts L b (dir_mx L d) 0)" "ent_name L b p = n"
        by (auto simp: find_Some_iff)
      then have "dir_slot L d (Some k, p) b" using pg by (simp add: dir_slot_def)
      then show ?thesis using fd t Some \<open>ent_name L b p = n\<close> mx by auto
    qed
  qed
qed simp

text \<open>Searching leaves hints; the pages and the fields of the inode stay.\<close>

definition hinted :: "vnode \<Rightarrow> vnode \<Rightarrow> u32 set \<Rightarrow> bool" where
  "hinted d e C \<longleftrightarrow> same_pages d e \<and> fi e = fi d \<and> clevel e \<in> insert (clevel d) C"

lemma hinted_view:
  assumes "hinted d e C"
  shows "same_pages d e" "fi e = fi d" "clevel e \<in> insert (clevel d) C"
  using assms by (simp_all add: hinted_def)

lemma hinted_trans: "hinted d e C \<Longrightarrow> hinted e f D \<Longrightarrow> hinted d f (C \<union> D)"
  by (auto simp: hinted_def elim: same_pages_trans)

lemma hinted_mono: "hinted d e C \<Longrightarrow> C \<subseteq> D \<Longrightarrow> hinted d e D"
  by (auto simp: hinted_def)

text \<open>What a search reports: the place of the entry, or that none has the name.\<close>

definition found :: "layout \<Rightarrow> vnode \<Rightarrow> u8 list \<Rightarrow> (dloc \<Rightarrow> bool) \<Rightarrow> dloc option \<Rightarrow> bool" where
  "found L d n W r \<longleftrightarrow> (case r of Some loc \<Rightarrow> \<exists>b. dir_slot L d loc b \<and> ent_name L b (snd loc) = n
     | None \<Rightarrow> \<forall>loc b. W loc \<longrightarrow> dir_slot L d loc b \<longrightarrow> ent_name L b (snd loc) \<noteq> n)"

lemma find_in_level_spec:
  assumes "slots_ok L" "\<not> f2fs_has_inline_dentry d" "dir_core L d" "\<And>k. find_err env k = None"
  shows "\<exists>r e. find_in_level L env level n h d = Some (r, e) \<and> hinted d e {of_nat level} \<and>
    found L d n (\<lambda>loc. \<exists>k\<in>set (bucket L level (i_dir_level (fi d)) h). fst loc = Some k) r"
proof -
  obtain r room where r: "find_in_bucket L env d n False (bucket L level (i_dir_level (fi d)) h) = Some (r, room)"
    and f: "case r of Some loc \<Rightarrow> \<exists>b. dir_slot L d loc b \<and> ent_name L b (snd loc) = n
     | None \<Rightarrow> \<forall>k\<in>set (bucket L level (i_dir_level (fi d)) h). \<forall>p b. dir_slot L d (Some k, p) b \<longrightarrow> ent_name L b p \<noteq> n"
    using find_in_bucket_spec [OF assms, where n = n and room = False] by blast
  have "found L d n (\<lambda>loc. \<exists>k\<in>set (bucket L level (i_dir_level (fi d)) h). fst loc = Some k) r"
    using f by (cases r) (auto simp: found_def)
  then show ?thesis using r by (simp add: find_in_level_def hinted_def)
qed

lemma find_levels_spec:
  assumes "slots_ok L"
  shows "\<not> f2fs_has_inline_dentry d \<Longrightarrow> dir_core L d \<Longrightarrow> (\<And>k. find_err env k = None) \<Longrightarrow>
    \<exists>r e. find_levels L env n h lvs d = Some (r, e) \<and> hinted d e (of_nat ` set lvs) \<and>
    found L d n (\<lambda>loc. \<exists>lv\<in>set lvs. \<exists>k\<in>set (bucket L lv (i_dir_level (fi d)) h). fst loc = Some k) r"
proof (induction lvs arbitrary: d)
  case Nil
  then show ?case by (simp add: hinted_def found_def)
next
  case (Cons lv lvs)
  obtain r e where r: "find_in_level L env lv n h d = Some (r, e)" and he: "hinted d e {of_nat lv}"
    and f: "found L d n (\<lambda>loc. \<exists>k\<in>set (bucket L lv (i_dir_level (fi d)) h). fst loc = Some k) r"
    using find_in_level_spec [OF assms Cons.prems, where n = n and h = h and level = lv] by blast
  note v = same_pages_view [OF hinted_view(1) [OF he]] hinted_view(2) [OF he]
  show ?case
  proof (cases r)
    case None
    obtain r' e' where r': "find_levels L env n h lvs e = Some (r', e')" and he': "hinted e e' (of_nat ` set lvs)"
      and f': "found L d n (\<lambda>loc. \<exists>lv\<in>set lvs. \<exists>k\<in>set (bucket L lv (i_dir_level (fi d)) h). fst loc = Some k) r'"
      using Cons.IH [of e] Cons.prems unfolding v found_def by blast
    have "hinted d e' (of_nat ` set (lv # lvs))" by (rule hinted_mono [OF hinted_trans [OF he he']]) auto
    moreover have "found L d n (\<lambda>loc. \<exists>lv\<in>set (lv # lvs). \<exists>k\<in>set (bucket L lv (i_dir_level (fi d)) h). fst loc = Some k) r'"
      using f f' None by (cases r') (auto simp: found_def)
    ultimately show ?thesis using r r' None by simp
  next
    case (Some loc)
    then show ?thesis using r f hinted_mono [OF he, of "of_nat ` set (lv # lvs)"] by (simp add: found_def)
  qed
qed

lemma find_inline_spec:
  assumes "slots_ok L" "f2fs_has_inline_dentry d" "dir_core L d" "node_err env = None"
  shows "\<exists>r. find_in_inline_dir L env d n = Some r \<and> found L d n (\<lambda>_. True) r"
proof -
  have pg: "dir_page d pg = Some b \<longleftrightarrow> pg = None \<and> b = inline_dents d" for pg b
    using assms(2) by (auto simp: dir_page_def split: option.splits)
  have mx: "make_dentry_ptr L True = dir_mx L d" using assms(2) by (simp add: dir_mx_def)
  let ?r = "find (\<lambda>p. ent_name L (inline_dents d) p = n) (dent_starts L (inline_dents d) (dir_mx L d) 0)"
  obtain ms where t: "find_target_dentry L n (dir_mx L d) (inline_dents d) = Some (?r, ms, int (dir_mx L d))"
    using find_target_dentry_ok [OF assms(1) dir_core_D(2) [OF assms(3)]] pg by blast
  have "found L d n (\<lambda>_. True) (map_option (\<lambda>p. (None, p)) ?r)"
  proof (cases ?r)
    case None
    then have "\<forall>p\<in>set (dent_starts L (inline_dents d) (dir_mx L d) 0). ent_name L (inline_dents d) p \<noteq> n" by (simp add: find_None_iff)
    then show ?thesis unfolding None by (simp add: found_def dir_slot_def pg)
  next
    case (Some p)
    then have "p \<in> set (dent_starts L (inline_dents d) (dir_mx L d) 0)" "ent_name L (inline_dents d) p = n"
      by (auto simp: find_Some_iff)
    then show ?thesis unfolding Some by (simp add: found_def dir_slot_def pg)
  qed
  then show ?thesis using t assms(4) mx by (simp add: find_in_inline_dir_def)
qed

lemma find_entry_spec:
  assumes "dir_layout_ok L" "dir_ok L d" "\<And>k. find_err env k = None" "node_err env = None"
  shows "\<exists>r e. f2fs_find_entry L env d n = Some (r, e) \<and> dir_ok L e \<and> same_pages d e \<and> fi e = fi d \<and> found L d n (\<lambda>_. True) r"
proof -
  have sl: "slots_ok L" and core: "dir_core L d" using assms(1,2) by (simp_all add: dir_layout_ok_def dir_ok_def)
  show ?thesis
  proof (cases "f2fs_has_inline_dentry d")
    case True
    then show ?thesis
      using find_inline_spec [OF sl True core assms(4), of n] assms(2) by (auto simp: f2fs_find_entry_def)
  next
    case nin: False
    show ?thesis
    proof (cases "dir_blocks L d = 0")
      case True
      have "\<not> dir_slot L d loc b" for loc b
        using dir_core_D(1) [OF core, of "fst loc" b] True nin by (auto simp: dir_slot_def dir_pages_def)
      then show ?thesis using True nin assms(2) by (simp add: f2fs_find_entry_def found_def)
    next
      case False
      let ?D = "i_current_depth (fi d)" and ?h = "name_hash L n"
      obtain r e where r: "find_levels L env n ?h [0..<?D] d = Some (r, e)" and he: "hinted d e (of_nat ` set [0..<?D])"
        and f: "found L d n (\<lambda>loc. \<exists>lv\<in>set [0..<?D]. \<exists>k\<in>set (bucket L lv (i_dir_level (fi d)) ?h). fst loc = Some k) r"
        using find_levels_spec [OF sl nin core assms(3), where n = n and h = ?h and lvs = "[0..<?D]"] by blast
      define e' where "e' = (if r = None \<and> chash e \<noteq> ?h then e\<lparr>chash := ?h, clevel := of_nat ?D - 1\<rparr> else e)"
      have D: "unat (clevel d) < ?D" "?D < 2 ^ 32" using assms(1,2) nin by (auto simp: dir_ok_def depth_ok_def dir_layout_ok_def)
      then have "(of_nat ?D - 1 :: u32) \<in> of_nat ` {..<?D}" by (intro image_eqI [of _ _ "?D - 1"]) simp_all
      then have "hinted d e' (of_nat ` {..<?D})"
        using he by (simp add: e'_def hinted_def atLeast0LessThan)
      note v = same_pages_view [OF hinted_view(1) [OF this]] hinted_view [OF this]
      have "unat (of_nat lv :: u32) < ?D" if "lv < ?D" for lv using that D by (subst unat_of_nat_small) auto
      then have cl: "unat (clevel e') < ?D" using v D by auto
      have ok: "dir_ok L e'"
        using assms(2) nin cl by (simp add: dir_ok_def depth_ok_def v)
      have "found L d n (\<lambda>_. True) r"
      proof (cases r)
        case None
        have "ent_name L b (snd loc) \<noteq> n" if s: "dir_slot L d loc b" for loc b
        proof
          assume eq: "ent_name L b (snd loc) = n"
          obtain k p where loc: "loc = (Some k, p)" using s nin by (cases loc) (auto simp: dir_slot_def dir_page_def split: option.splits)
          have "placed L d ?D" using assms(2) by (simp add: dir_ok_def)
          moreover have "dir_slot L d (Some k, p) b" "ent_name L b p = n" using s eq by (simp_all add: loc)
          ultimately obtain lv where "lv < ?D" "k \<in> set (bucket L lv (i_dir_level (fi d)) ?h)"
            unfolding placed_def by blast
          then have "\<exists>lv\<in>set [0..<?D]. \<exists>k\<in>set (bucket L lv (i_dir_level (fi d)) ?h). fst loc = Some k" using loc by auto
          then show False using f s eq unfolding None found_def by simp
        qed
        then show ?thesis by (simp add: None found_def)
      qed (use f in \<open>simp add: found_def\<close>)
      moreover have "f2fs_find_entry L env d n = Some (r, e')"
        using False nin r by (simp add: f2fs_find_entry_def Let_def e'_def)
      ultimately show ?thesis using ok v(11,12) by blast
    qed
  qed
qed

text \<open>
  C21: When no block of the directory and not its node fails to be read, looking up a name, in a hashed
  directory or in one inside the inode, ends and returns the inode number the directory maps the name to,
  or 0 if it maps it to none; the directory stays the same map and well formed (only the hint for the next
  insertion changes). On a read error the code answers 0 (\<open>unreadable_block_hides_entry\<close>).
\<close>
theorem dir_lookup_refines:
  assumes "dir_layout_ok L" "dir_ok L d" "\<forall>k. find_err env k = None" "node_err env = None"
  shows "\<exists>e. f2fs_inode_by_name L env d n = Some (case dir_map L d n of Some i \<Rightarrow> i | None \<Rightarrow> 0, e) \<and>
    dir_ok L e \<and> dir_map L e = dir_map L d"
proof -
  have core: "dir_core L d" using assms(2) by (simp add: dir_ok_def)
  obtain r e where r: "f2fs_find_entry L env d n = Some (r, e)" and e: "dir_ok L e" "same_pages d e" and f: "found L d n (\<lambda>_. True) r"
    using find_entry_spec [OF assms(1,2)] assms(3,4) by blast
  note v = same_pages_view [OF e(2)]
  have "f2fs_inode_by_name L env d n = Some (case dir_map L d n of Some i \<Rightarrow> i | None \<Rightarrow> 0, e)"
  proof (cases r)
    case None
    then have "dir_map L d n = None" using f unfolding dir_map_none [OF core] by (simp add: found_def)
    then show ?thesis using r None by (simp add: f2fs_inode_by_name_def)
  next
    case (Some loc)
    then obtain b where b: "dir_slot L d loc b" "ent_name L b (snd loc) = n" using f by (auto simp: found_def)
    then have m: "dir_map L d n = Some (de_ino (dentry b (snd loc)))" unfolding dir_map_iff [OF core] by blast
    have "page_of e (fst loc) = Some b"
      using b(1) e(2) by (auto simp: dir_slot_def dir_page_def page_of_def same_pages_def split: if_splits option.splits)
    then show ?thesis using r Some m by (simp add: f2fs_inode_by_name_def entry_at_def)
  qed
  then show ?thesis using e v by blast
qed

section \<open>Adding\<close>

text \<open>Making blocks exist, while looking for room, adds empty ones.\<close>

definition extends :: "layout \<Rightarrow> vnode \<Rightarrow> vnode \<Rightarrow> bool" where
  "extends L d e \<longleftrightarrow> f2fs_has_inline_dentry e = f2fs_has_inline_dentry d \<and> inline_dents e = inline_dents d \<and>
     i_dir_level (fi e) = i_dir_level (fi d) \<and> i_current_depth (fi e) = i_current_depth (fi d) \<and> clevel e = clevel d \<and>
     i_size d \<le> i_size e \<and> i_ino e = i_ino d \<and>
     (\<forall>k b. d_blocks d k = Some b \<longrightarrow> d_blocks e k = Some b) \<and>
     (\<forall>k b. d_blocks d k = None \<longrightarrow> d_blocks e k = Some b \<longrightarrow> b = zero_dentry_block \<and> k < dir_blocks L e)"

lemma dir_blocks_mono: "i_size d \<le> i_size e \<Longrightarrow> dir_blocks L d \<le> dir_blocks L e"
  by (simp add: dir_blocks_def div_le_mono)

lemma extends_refl: "extends L d d"
  by (simp add: extends_def)

lemma extends_D:
  assumes "extends L d e"
  shows "f2fs_has_inline_dentry e = f2fs_has_inline_dentry d" "inline_dents e = inline_dents d"
    "i_dir_level (fi e) = i_dir_level (fi d)" "i_current_depth (fi e) = i_current_depth (fi d)" "clevel e = clevel d"
    "i_size d \<le> i_size e" "i_ino e = i_ino d" "d_blocks d k = Some b \<Longrightarrow> d_blocks e k = Some b"
    "d_blocks d k = None \<Longrightarrow> d_blocks e k = Some b \<Longrightarrow> b = zero_dentry_block \<and> k < dir_blocks L e"
  using assms unfolding extends_def by blast+

lemma extends_trans:
  assumes "extends L d e" "extends L e f"
  shows "extends L d f"
proof -
  note a = extends_D [OF assms(1)] and b = extends_D [OF assms(2)]
  have "b' = zero_dentry_block \<and> k < dir_blocks L f" if "d_blocks d k = None" "d_blocks f k = Some b'" for k b'
  proof (cases "d_blocks e k")
    case None
    then show ?thesis using b(9) that by blast
  next
    case (Some c)
    then show ?thesis using a(9) [OF that(1) Some] b(8) [OF Some] that(2) dir_blocks_mono [OF b(6), of L] by simp
  qed
  then show ?thesis using a b unfolding extends_def by (metis order_trans)
qed

lemma dir_blocks_ge: "0 < page_size L \<Longrightarrow> (k + 1) * page_size L \<le> i_size e \<Longrightarrow> k < dir_blocks L e"
  using div_le_mono [of "(k + 1) * page_size L" "i_size e + page_size L - 1" "page_size L"]
  by (simp add: dir_blocks_def Suc_le_eq del: mult_Suc)

lemma get_new_data_page_ok:
  assumes "0 < page_size L" "get_new_data_page L err k True d = (r, e)"
  shows "extends L d e \<and> (\<forall>b. r = Inr b \<longrightarrow> d_blocks e k = Some b)"
proof (cases err)
  case None
  define b where "b = (case d_blocks d k of Some b \<Rightarrow> b | None \<Rightarrow> zero_dentry_block)"
  have e: "e = (if i_size d < (k + 1) * page_size L
      then set_flag FI_UPDATE_DIR (d\<lparr>d_blocks := (d_blocks d)(k \<mapsto> b), i_size := (k + 1) * page_size L\<rparr>)
      else d\<lparr>d_blocks := (d_blocks d)(k \<mapsto> b)\<rparr>)" and r: "r = Inr b"
    using assms(2) None by (auto simp: get_new_data_page_def b_def Let_def split: if_splits)
  have "(k + 1) * page_size L \<le> i_size e" by (simp add: e set_flag_def)
  then have k: "k < dir_blocks L e" by (rule dir_blocks_ge [OF assms(1)])
  have bl: "d_blocks e = (d_blocks d)(k \<mapsto> b)" by (simp add: e set_flag_def)
  have "d_blocks e j = Some c" if "d_blocks d j = Some c" for j c using that by (auto simp: bl b_def)
  moreover have "c = zero_dentry_block \<and> j < dir_blocks L e" if "d_blocks d j = None" "d_blocks e j = Some c" for j c
    using that k by (auto simp: bl b_def split: if_splits)
  ultimately show ?thesis
    using r bl by (auto simp: extends_def e set_flag_def f2fs_has_inline_dentry_def has_flag_def)
qed (use assms in \<open>auto simp: get_new_data_page_def extends_refl\<close>)

lemma zero_starts [simp]: "dent_starts L zero_dentry_block mx 0 = []"
  using dent_starts_set [OF zero_tiles, of L mx] by simp

lemma zero_blk_ok: "blk_ok L mx zero_dentry_block"
  by (rule blk_okI [OF zero_tiles]) simp

lemma extends_page:
  assumes "extends L d e" "dir_page e pg = Some b"
  shows "dir_page d pg = Some b \<or> b = zero_dentry_block \<and> pg \<in> set (dir_pages L e)"
proof (cases "f2fs_has_inline_dentry d")
  case True
  then show ?thesis using assms(2) by (cases pg) (simp_all add: dir_page_def extends_D(1,2) [OF assms(1)])
next
  case False
  then obtain k where pg: "pg = Some k" "d_blocks e k = Some b"
    using assms(2) by (auto simp: dir_page_def extends_D(1) [OF assms(1)] split: option.splits)
  show ?thesis
  proof (cases "d_blocks d k")
    case None
    then show ?thesis using extends_D(1,9) [OF assms(1)] pg False by (auto simp: dir_pages_def)
  next
    case (Some c)
    then show ?thesis using extends_D(8) [OF assms(1) Some] pg False by (simp add: dir_page_def)
  qed
qed

lemma extends_view:
  assumes "extends L d e" "dir_core L d"
  shows "dir_mx L e = dir_mx L d" "dir_slot L e loc b \<longleftrightarrow> dir_slot L d loc b" "dir_core L e" "dir_map L e = dir_map L d"
    "placed L e n = placed L d n"
proof -
  show m: "dir_mx L e = dir_mx L d" by (simp add: dir_mx_def extends_D(1) [OF assms(1)])
  have sub: "dir_page d pg = Some b \<Longrightarrow> dir_page e pg = Some b" for pg b
    using extends_D(8) [OF assms(1)] by (auto simp: dir_page_def extends_D(1,2) [OF assms(1)] split: if_splits option.splits)
  show sl: "dir_slot L e loc b \<longleftrightarrow> dir_slot L d loc b" for loc b
    using sub extends_page [OF assms(1), of "fst loc" b] by (auto simp: dir_slot_def m)
  have "set (dir_pages L d) \<subseteq> set (dir_pages L e)"
    using dir_blocks_mono [OF extends_D(6) [OF assms(1)], of L] by (auto simp: dir_pages_def extends_D(1) [OF assms(1)])
  then have pages: "pg \<in> set (dir_pages L e) \<and> blk_ok L (dir_mx L e) b" if "dir_page e pg = Some b" for pg b
    using extends_page [OF assms(1) that] dir_core_D(1,2) [OF assms(2)] zero_blk_ok m by auto
  show core: "dir_core L e" using pages assms(2) unfolding dir_core_def sl by blast
  show "dir_map L e = dir_map L d" by (rule dir_map_cong [OF core assms(2)]) (simp add: sl)
  show "placed L e n = placed L d n" by (simp add: placed_def sl extends_D(3) [OF assms(1)])
qed

lemma add_scan_spec:
  assumes "0 < page_size L"
  shows "add_scan L env slots ks d = (r, e) \<Longrightarrow> extends L d e \<and>
    (\<forall>loc. r = Inr (Some loc) \<longrightarrow> (\<exists>k\<in>set ks. \<exists>b. fst loc = Some k \<and> d_blocks e k = Some b \<and>
       snd loc = room_for_filename (dentry_bitmap b) slots (nr_dentry_in_block L) \<and> snd loc < nr_dentry_in_block L))"
proof (induction ks arbitrary: d)
  case (Cons k ks)
  obtain r1 d1 where g: "get_new_data_page L (new_err env k) k True d = (r1, d1)" by fastforce
  note g1 = get_new_data_page_ok [OF assms g]
  show ?case
  proof (cases r1)
    case (Inl a)
    then show ?thesis using Cons.prems g g1 by auto
  next
    case (Inr b)
    let ?p = "room_for_filename (dentry_bitmap b) slots (nr_dentry_in_block L)"
    show ?thesis
    proof (cases "?p < nr_dentry_in_block L")
      case True
      then show ?thesis using Cons.prems g g1 Inr by auto
    next
      case False
      then have "add_scan L env slots ks d1 = (r, e)" using Cons.prems g Inr by simp
      from Cons.IH [OF this] g1 extends_trans [of L d d1 e] show ?thesis by auto
    qed
  qed
qed (auto simp: extends_refl)

text \<open>A place of the size \<open>slots\<close> for the hash \<open>h\<close>, on a level below \<open>depth\<close>.\<close>

definition place :: "layout \<Rightarrow> vnode \<Rightarrow> nat \<Rightarrow> u32 \<Rightarrow> nat \<Rightarrow> dloc \<Rightarrow> bool" where
  "place L e slots h depth loc \<longleftrightarrow>
     (\<exists>lv<depth. \<exists>k\<in>set (bucket L lv (i_dir_level (fi e)) h). \<exists>b. fst loc = Some k \<and> d_blocks e k = Some b \<and>
        snd loc = room_for_filename (dentry_bitmap b) slots (nr_dentry_in_block L) \<and> snd loc < nr_dentry_in_block L)"

lemma add_levels_spec:
  assumes "0 < page_size L"
  shows "level \<le> depth \<Longrightarrow> depth \<le> max_dir_hash_depth L \<Longrightarrow>
    \<exists>r e. add_levels L env slots h level depth d = Some (r, e) \<and> extends L d e \<and>
    (\<forall>loc depth'. r = Inr (loc, depth') \<longrightarrow> depth \<le> depth' \<and> depth' \<le> max_dir_hash_depth L \<and>
      place L e slots h depth' loc)"
proof (induction "max_dir_hash_depth L - level" arbitrary: level depth d rule: less_induct)
  case less
  note eq = add_levels.simps [of L env slots h level depth d]
  show ?case
  proof (cases "depth = max_dir_hash_depth L")
    case True
    then show ?thesis using eq by (simp add: extends_refl)
  next
    case False
    define depth1 where "depth1 = (if level = depth then depth + 1 else depth)"
    have d1: "level < depth1" "depth \<le> depth1" "depth1 \<le> max_dir_hash_depth L"
      using less(2,3) False by (auto simp: depth1_def)
    obtain r1 e1 where s: "add_scan L env slots (bucket L level (i_dir_level (fi d)) h) d = (r1, e1)" by fastforce
    note s1 = add_scan_spec [OF assms s]
    consider (err) x where "r1 = Inl x" | (hit) loc where "r1 = Inr (Some loc)" | (go) "r1 = Inr None"
      by (cases r1; cases "projr r1") auto
    then show ?thesis
    proof cases
      case err
      then show ?thesis using eq False s s1 by simp
    next
      case hit
      then have "add_levels L env slots h level depth d = Some (Inr (loc, depth1), e1)"
        using eq False s by (simp add: depth1_def)
      moreover have "place L e1 slots h depth1 loc"
        using s1 hit d1(1) extends_D(3) [of L d e1] by (auto simp: place_def)
      ultimately show ?thesis using s1 d1 by auto
    next
      case go
      have "max_dir_hash_depth L - (level + 1) < max_dir_hash_depth L - level" using d1 by simp
      from less(1) [OF this, of depth1 e1] d1 obtain r e where
        r: "add_levels L env slots h (level + 1) depth1 e1 = Some (r, e)" "extends L e1 e" and
        f: "\<forall>loc depth'. r = Inr (loc, depth') \<longrightarrow> depth1 \<le> depth' \<and> depth' \<le> max_dir_hash_depth L \<and>
          place L e slots h depth' loc"
        by auto
      have "add_levels L env slots h level depth d = Some (r, e)" using eq False s go r(1) by (simp add: depth1_def)
      moreover have "extends L d e" using s1 r(2) extends_trans by blast
      moreover have "depth \<le> depth'" if "r = Inr (loc, depth')" for loc depth' using f that d1(2) le_trans by blast
      ultimately show ?thesis using f by blast
    qed
  qed
qed

section \<open>Changing one page\<close>

text \<open>An entry of the directory: its place, name and inode number.\<close>

definition dir_ent :: "layout \<Rightarrow> vnode \<Rightarrow> dloc \<Rightarrow> u8 list \<Rightarrow> u32 \<Rightarrow> bool" where
  "dir_ent L d loc n i \<longleftrightarrow> (\<exists>b. dir_slot L d loc b \<and> ent_name L b (snd loc) = n \<and> de_ino (dentry b (snd loc)) = i)"

lemma dir_core_ent:
  "dir_core L d \<longleftrightarrow> (\<forall>pg b. dir_page d pg = Some b \<longrightarrow> pg \<in> set (dir_pages L d) \<and> blk_ok L (dir_mx L d) b) \<and>
     (\<forall>x y n i j. dir_ent L d x n i \<longrightarrow> dir_ent L d y n j \<longrightarrow> x = y)"
  unfolding dir_core_def dir_ent_def by blast

lemma dir_map_ent: "dir_core L d \<Longrightarrow> dir_map L d n = Some i \<longleftrightarrow> (\<exists>loc. dir_ent L d loc n i)"
  unfolding dir_map_iff dir_ent_def by blast

lemma dir_map_no_ent: "dir_core L d \<Longrightarrow> dir_map L d n = None \<longleftrightarrow> (\<forall>loc i. \<not> dir_ent L d loc n i)"
  unfolding dir_map_none dir_ent_def by blast

lemma dir_map_insert:
  assumes "dir_core L d" "dir_core L e" "dir_map L d n = None"
    and "\<And>loc n' i'. dir_ent L e loc n' i' \<longleftrightarrow> (if loc = l then n' = n \<and> i' = i else dir_ent L d loc n' i')"
    and "\<And>n' i'. \<not> dir_ent L d l n' i'"
  shows "dir_map L e = (dir_map L d)(n \<mapsto> i)"
proof
  fix n'
  have "dir_map L e n' = Some i' \<longleftrightarrow> ((dir_map L d)(n \<mapsto> i)) n' = Some i'" for i'
  proof (cases "n' = n")
    case True
    have "(\<exists>loc. dir_ent L e loc n i') \<longleftrightarrow> i' = i"
      using assms(3,4) unfolding dir_map_no_ent [OF assms(1)] by metis
    then show ?thesis using True dir_map_ent [OF assms(2)] by auto
  next
    case False
    have "(\<exists>loc. dir_ent L e loc n' i') \<longleftrightarrow> (\<exists>loc. dir_ent L d loc n' i')" using assms(4,5) False by metis
    then show ?thesis using False dir_map_ent [OF assms(1)] dir_map_ent [OF assms(2)] by simp
  qed
  then show "dir_map L e n' = ((dir_map L d)(n \<mapsto> i)) n'" by (rule option_eq_iff)
qed

lemma dir_map_remove:
  assumes "dir_core L d" "dir_core L e" "dir_ent L d l n i"
    and "\<And>loc n' i'. dir_ent L e loc n' i' \<longleftrightarrow> loc \<noteq> l \<and> dir_ent L d loc n' i'"
  shows "dir_map L e = (dir_map L d)(n := None)"
proof
  fix n'
  have "dir_map L e n' = Some i' \<longleftrightarrow> ((dir_map L d)(n := None)) n' = Some i'" for i'
  proof (cases "n' = n")
    case True
    have "\<not> dir_ent L e loc n i'" for loc using assms(1,3,4) unfolding dir_core_ent by blast
    then show ?thesis using True dir_map_ent [OF assms(2)] by simp
  next
    case False
    have "loc \<noteq> l" if "dir_ent L d loc n' i'" for loc using that assms(3) False by (auto simp: dir_ent_def dir_slot_def)
    then have "(\<exists>loc. dir_ent L e loc n' i') \<longleftrightarrow> (\<exists>loc. dir_ent L d loc n' i')" using assms(4) by blast
    then show ?thesis using False dir_map_ent [OF assms(1)] dir_map_ent [OF assms(2)] by simp
  qed
  then show "dir_map L e n' = ((dir_map L d)(n := None)) n'" by (rule option_eq_iff)
qed

lemma set_page_view:
  assumes "dir_page d pg = Some b"
  shows "dir_page (set_page pg c d) = (dir_page d)(pg \<mapsto> c)" "dir_pages L (set_page pg c d) = dir_pages L d"
    "dir_mx L (set_page pg c d) = dir_mx L d" "fi (set_page pg c d) = fi d"
    "f2fs_has_inline_dentry (set_page pg c d) = f2fs_has_inline_dentry d" "clevel (set_page pg c d) = clevel d"
    "chash (set_page pg c d) = chash d" "i_ino (set_page pg c d) = i_ino d"
proof -
  have f: "fi (set_page pg c d) = fi d" "i_size (set_page pg c d) = i_size d" "clevel (set_page pg c d) = clevel d"
      "chash (set_page pg c d) = chash d" "i_ino (set_page pg c d) = i_ino d"
    by (simp_all add: set_page_def split: option.split)
  show "fi (set_page pg c d) = fi d" "clevel (set_page pg c d) = clevel d"
    "chash (set_page pg c d) = chash d" "i_ino (set_page pg c d) = i_ino d" by (fact f)+
  show i: "f2fs_has_inline_dentry (set_page pg c d) = f2fs_has_inline_dentry d"
    by (simp add: f2fs_has_inline_dentry_def has_flag_def f)
  show "dir_mx L (set_page pg c d) = dir_mx L d" by (simp add: dir_mx_def i)
  show "dir_pages L (set_page pg c d) = dir_pages L d" by (simp add: dir_pages_def dir_blocks_def i f)
  show "dir_page (set_page pg c d) = (dir_page d)(pg \<mapsto> c)"
    using assms by (auto simp: fun_eq_iff dir_page_def i) (auto simp: set_page_def split: option.splits if_splits)
qed

lemma update_page_ents:
  assumes "slots_ok L" "dir_core L d" "dir_page d pg = Some b"
    and "free_run (dentry_bitmap b) (dir_mx L d) (dentry_slots L (length n)) p" "n \<noteq> []" "length n < 2 ^ 16"
    and "e = set_page pg (f2fs_update_dentry L ino mode b n (name_hash L n) p) d"
  shows "dir_ent L e loc n' i' \<longleftrightarrow> (if loc = (pg, p) then n' = n \<and> i' = ino else dir_ent L d loc n' i')"
    "\<not> dir_ent L d (pg, p) n' i'"
    "dir_page e pg' = Some c \<Longrightarrow> pg' \<in> set (dir_pages L e) \<and> blk_ok L (dir_mx L e) c"
proof -
  let ?b = "f2fs_update_dentry L ino mode b n (name_hash L n) p"
  note v = set_page_view [OF assms(3), where c = ?b, folded assms(7)]
  have ok: "blk_ok L (dir_mx L d) b" by (rule dir_core_D(2) [OF assms(2,3)])
  note u = update_dentry_ok [OF assms(1) ok assms(4,5,6), where ino = ino and mode = mode]
  note new = update_dentry_new(2,3) [OF assms(6), of L ino mode b "name_hash L n" p]
  show no: "\<not> dir_ent L d (pg, p) n' i'" for n' i' using u(3) assms(3) by (auto simp: dir_ent_def dir_slot_def)
  show "dir_page e pg' = Some c \<Longrightarrow> pg' \<in> set (dir_pages L e) \<and> blk_ok L (dir_mx L e) c"
    using dir_core_D(1,2) [OF assms(2)] assms(3) u(1) by (auto simp: v split: if_splits)
  show "dir_ent L e loc n' i' \<longleftrightarrow> (if loc = (pg, p) then n' = n \<and> i' = ino else dir_ent L d loc n' i')"
  proof (cases loc)
    case (Pair pg' p')
    show ?thesis
    proof (cases "pg' = pg")
      case True
      have "dir_ent L e (pg, p') n' i' \<longleftrightarrow> p' \<in> insert p (set (dent_starts L b (dir_mx L d) 0)) \<and>
          ent_name L ?b p' = n' \<and> de_ino (dentry ?b p') = i'"
        by (auto simp: dir_ent_def dir_slot_def v u(2))
      moreover have "dir_ent L d (pg, p') n' i' \<longleftrightarrow> p' \<in> set (dent_starts L b (dir_mx L d) 0) \<and>
          ent_name L b p' = n' \<and> de_ino (dentry b p') = i'"
        using assms(3) by (auto simp: dir_ent_def dir_slot_def)
      ultimately show ?thesis using u(3) [of p'] new True Pair by auto
    next
      case False
      then show ?thesis using Pair by (simp add: dir_ent_def dir_slot_def v)
    qed
  qed
qed

lemma clear_page_ents:
  assumes "dir_core L d" "dir_page d pg = Some b" "p \<in> set (dent_starts L b (dir_mx L d) 0)"
    and "e = set_page pg (clear_dentry L p b) d"
  shows "dir_ent L e loc n' i' \<longleftrightarrow> loc \<noteq> (pg, p) \<and> dir_ent L d loc n' i'"
    "dir_page e pg' = Some c \<Longrightarrow> pg' \<in> set (dir_pages L e) \<and> blk_ok L (dir_mx L e) c"
proof -
  note v = set_page_view [OF assms(2), where c = "clear_dentry L p b", folded assms(4)]
  note u = clear_dentry_ok [OF dir_core_D(2) [OF assms(1,2)] assms(3)]
  show "dir_page e pg' = Some c \<Longrightarrow> pg' \<in> set (dir_pages L e) \<and> blk_ok L (dir_mx L e) c"
    using dir_core_D(1,2) [OF assms(1)] assms(2) u(1) by (auto simp: v split: if_splits)
  show "dir_ent L e loc n' i' \<longleftrightarrow> loc \<noteq> (pg, p) \<and> dir_ent L d loc n' i'"
    using assms(2) by (cases loc) (auto simp: dir_ent_def dir_slot_def v u(2) clear_dentry_simps)
qed

lemma placed_ent:
  "placed L d depth \<longleftrightarrow> (\<forall>k p n i. dir_ent L d (Some k, p) n i \<longrightarrow>
     (\<exists>level<depth. k \<in> set (bucket L level (i_dir_level (fi d)) (name_hash L n))))"
  unfolding placed_def dir_ent_def snd_conv by blast

lemma flag_other_fields [simp]:
  "is_inode_flag_set (f\<lparr>i_current_depth := k\<rparr>) g = is_inode_flag_set f g"
  by (simp add: is_inode_flag_set_def)

lemma update_parent_metadata_dir:
  "update_parent_metadata d v depth = (e, v') \<Longrightarrow>
   same_pages d e \<and> i_current_depth (fi e) = depth \<and> clevel e = clevel d \<and> chash e = chash d \<and> i_ino e = i_ino d"
  by (auto simp: update_parent_metadata_def Let_def set_flag_def inc_nlink_def clear_flag_def same_pages_def
      f2fs_has_inline_dentry_def has_flag_def split: option.splits if_splits)

text \<open>The result of adding the name: the map with it, or an error and the map as it was.\<close>

lemma add_entry_error:
  "add_entry L env n loc depth ino mode d v m = (Inl x, e, v', m') \<Longrightarrow>
   same_pages d e \<and> fi e = fi (clear_flag FI_UPDATE_DIR d) \<and> clevel e = clevel d"
  by (auto simp: add_entry_def Let_def clear_flag_def same_pages_def f2fs_has_inline_dentry_def has_flag_def
      split: option.splits prod.splits sum.splits if_splits)

lemma add_entry_ok:
  assumes "add_entry L env n loc depth ino mode d v m = (Inr u, e, v', m')" "dir_page d (fst loc) = Some b"
  shows "\<exists>c. c = set_page (fst loc) (f2fs_update_dentry L ino mode b n (name_hash L n) (snd loc)) d \<and>
    same_pages c e \<and> i_current_depth (fi e) = depth \<and> clevel e = clevel d"
proof -
  let ?c = "set_page (fst loc) (f2fs_update_dentry L ino mode b n (name_hash L n) (snd loc)) d"
  have pg: "page_of d (fst loc) = Some b"
    using assms(2) by (auto simp: dir_page_def page_of_def split: if_splits option.splits)
  obtain v1 f where up: "update_parent_metadata ?c v1 depth = (f, v')" and e: "e = clear_flag FI_UPDATE_DIR f"
    using assms(1) pg by (auto simp: add_entry_def Let_def split: option.splits prod.splits sum.splits)
  note f = update_parent_metadata_dir [OF up]
  have "clevel ?c = clevel d" by (rule set_page_view(6) [OF assms(2)])
  moreover have "i_current_depth (fi e) = depth" "clevel e = clevel f" using f by (simp_all add: e clear_flag_def)
  ultimately show ?thesis using f by (simp add: e)
qed

lemma put_entry_spec_error:
  assumes "dir_core L d" "add_entry L env n loc depth ino mode d v m = (Inl x, e, v', m')"
  shows "dir_core L e" "dir_map L e = dir_map L d" "f2fs_has_inline_dentry e = f2fs_has_inline_dentry d"
    "clevel e = clevel d" "i_current_depth (fi e) = i_current_depth (fi d)" "placed L e D = placed L d D"
    "dir_ent L e loc' n' i' = dir_ent L d loc' n' i'"
proof -
  have s: "same_pages d e" "fi e = fi (clear_flag FI_UPDATE_DIR d)" "clevel e = clevel d"
    using add_entry_error [OF assms(2)] by blast+
  note v = same_pages_view [OF s(1)]
  show "dir_ent L e loc' n' i' = dir_ent L d loc' n' i'" by (simp add: dir_ent_def v)
  show "dir_core L e" "dir_map L e = dir_map L d" "f2fs_has_inline_dentry e = f2fs_has_inline_dentry d"
    "clevel e = clevel d" "placed L e D = placed L d D"
    using v s(3) assms(1) by simp_all
  show "i_current_depth (fi e) = i_current_depth (fi d)" using s(2) by (simp add: clear_flag_def)
qed

lemma put_entry_spec:
  assumes "slots_ok L" "dir_core L d" "dir_page d (fst loc) = Some b" "dir_map L d n = None"
    and "free_run (dentry_bitmap b) (dir_mx L d) (dentry_slots L (length n)) (snd loc)" "n \<noteq> []" "length n < 2 ^ 16"
    and "add_entry L env n loc depth ino mode d v m = (Inr u, e, v', m')"
  shows "dir_core L e" "dir_map L e = (dir_map L d)(n \<mapsto> ino)"
    "f2fs_has_inline_dentry e = f2fs_has_inline_dentry d" "clevel e = clevel d" "i_current_depth (fi e) = depth"
    "placed L d D \<Longrightarrow> D \<le> D' \<Longrightarrow>
       (\<And>k. fst loc = Some k \<Longrightarrow> \<exists>lv<D'. k \<in> set (bucket L lv (i_dir_level (fi d)) (name_hash L n))) \<Longrightarrow> placed L e D'"
    "dir_ent L d loc' n' i' \<Longrightarrow> dir_ent L e loc' n' i'"
proof -
  obtain pg p where loc: "loc = (pg, p)" by (cases loc)
  obtain c where c: "c = set_page pg (f2fs_update_dentry L ino mode b n (name_hash L n) p) d"
    and s: "same_pages c e" "i_current_depth (fi e) = depth" "clevel e = clevel d"
    using add_entry_ok [OF assms(8,3)] by (auto simp: loc)
  note pgb = assms(3) [unfolded loc fst_conv] and run = assms(5) [unfolded loc snd_conv]
  note u = update_page_ents [OF assms(1,2) pgb run assms(6,7) c]
  note v = same_pages_view [OF s(1)] and w = set_page_view [OF pgb, folded c]
  have "x = y" if a: "dir_ent L c x n' i" "dir_ent L c y n' j" for x y n' i j
  proof -
    have no: "\<not> dir_ent L d z n i'" for z i' using assms(4) dir_map_no_ent [OF assms(2)] by blast
    have "dir_ent L d x n' i \<Longrightarrow> dir_ent L d y n' j \<Longrightarrow> x = y" using assms(2) unfolding dir_core_ent by blast
    then show ?thesis using a no unfolding u(1) by (auto split: if_splits)
  qed
  then have core: "dir_core L c" unfolding dir_core_ent using u(3) by blast
  then show "dir_core L e" by (simp add: v)
  have "dir_ent L d loc' n' i' \<Longrightarrow> dir_ent L c loc' n' i'" unfolding u(1) using u(2) by auto
  then show "dir_ent L d loc' n' i' \<Longrightarrow> dir_ent L e loc' n' i'" by (simp add: dir_ent_def v)
  show "dir_map L e = (dir_map L d)(n \<mapsto> ino)"
    unfolding v by (rule dir_map_insert [OF assms(2) core assms(4) u(1) u(2)])
  have i: "f2fs_has_inline_dentry c = f2fs_has_inline_dentry d" "fi c = fi d"
    unfolding c by (rule set_page_view(5) [OF pgb], rule set_page_view(4) [OF pgb])
  show "f2fs_has_inline_dentry e = f2fs_has_inline_dentry d" by (simp add: v i)
  show "clevel e = clevel d" "i_current_depth (fi e) = depth" by (fact s)+
  assume pl: "placed L d D" "D \<le> D'"
    and new: "\<And>k. fst loc = Some k \<Longrightarrow> \<exists>lv<D'. k \<in> set (bucket L lv (i_dir_level (fi d)) (name_hash L n))"
  have "placed L c D'"
    unfolding placed_ent
  proof (intro allI impI)
    fix k q n' i'
    assume e: "dir_ent L c (Some k, q) n' i'"
    show "\<exists>lv<D'. k \<in> set (bucket L lv (i_dir_level (fi c)) (name_hash L n'))"
    proof (cases "(Some k, q) = (pg, p)")
      case True
      then show ?thesis using e new [of k] by (simp add: u(1) i loc)
    next
      case False
      then have "dir_ent L d (Some k, q) n' i'" using e unfolding u(1) by simp
      then show ?thesis using pl i unfolding placed_ent by (metis less_le_trans)
    qed
  qed
  then show "placed L e D'" by (simp add: v)
qed

lemma name_slots_pos: "slots_ok L \<Longrightarrow> n \<noteq> [] \<Longrightarrow> 0 < dentry_slots L (length n)"
  by (metis slots_ok_def gr0I le_zero_eq length_0_conv mult_zero_left)

text \<open>Adding to a hashed directory of a depth that may still be zero.\<close>

lemma add_regular_spec:
  assumes "dir_layout_ok L" "\<not> f2fs_has_inline_dentry d" "dir_core L d" "placed L d (max 1 (i_current_depth (fi d)))"
    and "i_current_depth (fi d) \<le> max_dir_hash_depth L" "unat (clevel d) \<le> i_current_depth (fi d)"
    and "dir_map L d n = None" "n \<noteq> []" "length n < 2 ^ 16"
  shows "\<exists>r e v' m'. add_regular L env d n v ino mode m = Some (r, e, v', m') \<and> dir_core L e \<and>
    \<not> f2fs_has_inline_dentry e \<and> dir_map L e = (if r = Inr () then (dir_map L d)(n \<mapsto> ino) else dir_map L d) \<and>
    clevel e = clevel d \<and> i_current_depth (fi d) \<le> i_current_depth (fi e) \<and> i_current_depth (fi e) \<le> max_dir_hash_depth L \<and>
    placed L e (max 1 (i_current_depth (fi e))) \<and> (r = Inr () \<longrightarrow> 0 < i_current_depth (fi e)) \<and>
    (\<forall>loc n' i'. dir_ent L d loc n' i' \<longrightarrow> dir_ent L e loc n' i')"
proof -
  have sl: "slots_ok L" and ps: "0 < page_size L" using assms(1) by (simp_all add: dir_layout_ok_def)
  let ?h = "name_hash L n" and ?D = "i_current_depth (fi d)" and ?k = "dentry_slots L (length n)"
  note kpos = name_slots_pos [OF sl assms(8)]
  define d0 where "d0 = (if chash d = ?h then d\<lparr>chash := 0\<rparr> else d)"
  define level where "level = (if chash d = ?h then unat (clevel d) else 0)"
  have s0: "same_pages d d0" "fi d0 = fi d" "clevel d0 = clevel d" by (simp_all add: d0_def)
  note v0 = same_pages_view [OF s0(1)]
  have "level \<le> ?D" using assms(6) by (simp add: level_def)
  then obtain r1 e1 where r1: "add_levels L env ?k ?h level ?D d0 = Some (r1, e1)" and x: "extends L d0 e1"
    and pl: "\<And>loc depth'. r1 = Inr (loc, depth') \<Longrightarrow> ?D \<le> depth' \<and> depth' \<le> max_dir_hash_depth L \<and> place L e1 ?k ?h depth' loc"
    using add_levels_spec [OF ps _ assms(5), of level env ?k ?h d0] by blast
  have eq: "add_regular L env d n v ino mode m = (case r1 of Inl y \<Rightarrow> Some (Inl y, e1, v, m)
      | Inr (loc, depth') \<Rightarrow> Some (add_entry L env n loc depth' ino mode e1 v m))"
    using r1 by (cases "chash d = ?h") (auto simp: add_regular_def Let_def d0_def level_def split: sum.split)
  have core0: "dir_core L d0" using assms(3) v0 by simp
  note w = extends_view [OF x core0] and xd = extends_D [OF x]
  have map1: "dir_map L e1 = dir_map L d" and core1: "dir_core L e1" and nin: "\<not> f2fs_has_inline_dentry e1"
    and ent1: "dir_ent L e1 loc n' i' = dir_ent L d loc n' i'"
    and lev1: "i_dir_level (fi e1) = i_dir_level (fi d)" and dep1: "i_current_depth (fi e1) = ?D" and cl1: "clevel e1 = clevel d"
    and pl1: "placed L e1 (max 1 ?D)"
    for loc n' i'
    using w xd v0 s0 assms(2,4) by (simp_all add: dir_ent_def)
  show ?thesis
  proof (cases r1)
    case (Inl y)
    then show ?thesis using eq core1 nin map1 cl1 dep1 pl1 assms(5) ent1 by simp
  next
    case (Inr q)
    obtain loc depth' where q: "q = (loc, depth')" by (cases q)
    have dl: "?D \<le> depth'" "depth' \<le> max_dir_hash_depth L" "place L e1 ?k ?h depth' loc"
      using pl [of loc depth'] Inr q by blast+
    then obtain lv k b where k: "lv < depth'" "k \<in> set (bucket L lv (i_dir_level (fi e1)) ?h)" "fst loc = Some k" "d_blocks e1 k = Some b"
      "snd loc = room_for_filename (dentry_bitmap b) ?k (nr_dentry_in_block L)" "snd loc < nr_dentry_in_block L"
      unfolding place_def by blast
    have pg: "dir_page e1 (fst loc) = Some b" using k nin by (simp add: dir_page_def)
    have mx: "dir_mx L e1 = nr_dentry_in_block L" using nin by (simp add: dir_mx_def make_dentry_ptr_def)
    have run: "free_run (dentry_bitmap b) (dir_mx L e1) ?k (snd loc)"
      using room_for_filename_spec(1) [OF kpos, of "dentry_bitmap b" "nr_dentry_in_block L"] k by (simp add: mx)
    obtain r e v' m' where ae: "add_entry L env n loc depth' ino mode e1 v m = (r, e, v', m')" by (metis prod_cases4)
    have res: "add_regular L env d n v ino mode m = Some (r, e, v', m')" using eq Inr q ae by simp
    show ?thesis
    proof (cases r)
      case (Inl y)
      note f = put_entry_spec_error [OF core1 ae [unfolded Inl]]
      show ?thesis using res Inl f nin map1 cl1 dep1 pl1 assms(5) ent1 by simp
    next
      case (Inr u)
      note f = put_entry_spec [OF sl core1 pg _ run assms(8,9) ae [unfolded Inr]]
      have fresh: "dir_map L e1 n = None" using map1 assms(7) by simp
      have "placed L e depth'"
        using f(6) [OF fresh, of "max 1 ?D" depth'] pl1 dl(1) k by auto
      moreover have "dir_ent L e loc' n' i'" if "dir_ent L d loc' n' i'" for loc' n' i'
        using f(7) [OF fresh] that ent1 by simp
      ultimately show ?thesis using res Inr f(1-5) [OF fresh] nin map1 cl1 dl k(1) by (simp add: max_def)
    qed
  qed
qed

text \<open>The entries move from the inode to the first block; without a directory level it is in every bucket of level 0.\<close>

lemma bucket_0:
  assumes "1 < max_dir_hash_depth L"
  shows "bucket L 0 0 h = [0, 1]"
proof -
  have d: "0 < max_dir_hash_depth L div 2" using assms by (simp add: div_greater_zero_iff)
  have b: "unat (bucket_blocks L 0) = 2" "dir_buckets L 0 0 = 1" using d by (simp_all add: bucket_blocks_def dir_buckets_def)
  have "dir_block_index L 0 0 (h mod dir_buckets L 0 0) = 0" by (simp add: b dir_block_index_def)
  then have "bucket L 0 0 h = [0..<2]" by (simp only: bucket_def Let_def b(1) add_0)
  also have "[0..<2] = [0, 1 :: nat]" by (simp add: upt_rec)
  finally show ?thesis .
qed

lemma convert_block:
  assumes "dir_layout_ok L" "blk_ok L (nr_inline_dentry L) b" "\<forall>i\<ge>nr_inline_dentry L. \<not> dentry_bitmap b i"
  shows "blk_ok L (nr_dentry_in_block L) (convert_dentries L b)"
    "set (dent_starts L (convert_dentries L b) (nr_dentry_in_block L) 0) = set (dent_starts L b (nr_inline_dentry L) 0)"
    "p \<in> set (dent_starts L b (nr_inline_dentry L) 0) \<Longrightarrow>
      ent_name L (convert_dentries L b) p = ent_name L b p \<and> dentry (convert_dentries L b) p = dentry b p"
proof -
  let ?c = "convert_dentries L b" and ?S = "set (dent_starts L b (nr_inline_dentry L) 0)" and ?n = "nr_inline_dentry L"
  have t: "tiles L ?n b ?S" using assms(2) by (simp add: blk_ok_def)
  have le: "?n \<le> nr_dentry_in_block L" "?n \<le> 8 * inline_dentry_bitmap_size L" and sl: "slots_ok L"
    using assms(1) by (simp_all add: dir_layout_ok_def)
  have bm: "dentry_bitmap ?c i \<longleftrightarrow> dentry_bitmap b i" for i
    using assms(3) le(2) by (auto simp: convert_dentries_def) (meson le_trans not_le)
  have de: "dentry ?c p = dentry b p" if "p \<in> ?S" for p using tiles_lt [OF t that] by (simp add: convert_dentries_def)
  have es: "ent_slots L ?c p = ent_slots L b p" if "p \<in> ?S" for p using de [OF that] by (simp add: ent_slots_def)
  have nm: "ent_name L ?c p = ent_name L b p" if p: "p \<in> ?S" for p
  proof -
    have "unat (de_name_len (dentry b p)) \<le> ent_slots L b p * slot_len L"
      using sl by (simp add: slots_ok_def ent_slots_def)
    moreover have "(p + ent_slots L b p) * slot_len L \<le> ?n * slot_len L" by (rule mult_le_mono1) (rule tiles_D(2) [OF t p])
    ultimately have "p * slot_len L + unat (de_name_len (dentry b p)) \<le> ?n * slot_len L" by (simp add: add_mult_distrib)
    then have "map (\<lambda>k. filename ?c (p * slot_len L + k)) [0..<unat (de_name_len (dentry b p))] =
        map (\<lambda>k. filename b (p * slot_len L + k)) [0..<unat (de_name_len (dentry b p))]"
      by (intro map_cong) (simp_all add: convert_dentries_def)
    then show ?thesis by (simp add: ent_name_def de [OF p] filename_at_def)
  qed
  have t': "tiles L (nr_dentry_in_block L) ?c ?S"
    unfolding tiles_def
  proof (intro conjI ballI allI impI)
    fix i
    show "dentry_bitmap ?c i \<longleftrightarrow> (\<exists>p\<in>?S. p \<le> i \<and> i < p + ent_slots L ?c p)"
    proof (cases "i < ?n")
      case True
      then show ?thesis using tiles_D(4) [OF t True] es by (auto simp: bm)
    next
      case False
      then show ?thesis using assms(3) es tiles_D(2) [OF t] by (fastforce simp: bm)
    qed
  qed (use es le(1) tiles_D [OF t] in \<open>auto intro: le_trans\<close>)
  show "set (dent_starts L ?c (nr_dentry_in_block L) 0) = ?S" by (rule dent_starts_set [OF t'])
  show "blk_ok L (nr_dentry_in_block L) ?c" by (rule blk_okI [OF t']) (use assms(2) nm de in \<open>simp add: blk_ok_def\<close>)
  show "p \<in> ?S \<Longrightarrow> ent_name L ?c p = ent_name L b p \<and> dentry ?c p = dentry b p" using nm de by blast
qed

lemma convert_spec:
  assumes "dir_layout_ok L" "f2fs_has_inline_dentry d" "dir_ok L d" "f2fs_convert_inline_dir L env d = (Inr u, e)"
  shows "dir_core L e" "\<not> f2fs_has_inline_dentry e" "dir_map L e = dir_map L d" "fi e = clear_inode_flag (fi d) FI_INLINE_DENTRY \<or>
      fi e = set_inode_flag (clear_inode_flag (fi d) FI_INLINE_DENTRY) FI_UPDATE_DIR"
    "clevel e = clevel d" "chash e = chash d" "d_blocks e = [0 \<mapsto> convert_dentries L (inline_dents d)]"
    "i_dir_level (fi d) = 0 \<Longrightarrow> placed L e (Suc D)"
proof -
  let ?b = "inline_dents d" and ?c = "convert_dentries L (inline_dents d)"
  have core: "dir_core L d" and di: "unat (clevel d) = 0" "d_blocks d = Map.empty"
    "\<forall>i\<ge>nr_inline_dentry L. \<not> dentry_bitmap ?b i"
    using assms(2,3) by (simp_all add: dir_ok_def depth_ok_def)
  have e: "e = (let d1 = clear_flag FI_INLINE_DENTRY (d\<lparr>d_blocks := (d_blocks d)(0 \<mapsto> ?c), inline_dents := zero_dentry_block\<rparr>)
      in if i_size d < page_size L then set_flag FI_UPDATE_DIR (d1\<lparr>i_size := page_size L\<rparr>) else d1)"
    using assms(4) by (auto simp: f2fs_convert_inline_dir_def Let_def set_page_def clear_flag_def split: option.splits)
  show nin: "\<not> f2fs_has_inline_dentry e"
    by (simp add: e Let_def f2fs_has_inline_dentry_def has_flag_def set_flag_def clear_flag_def)
  show bl: "d_blocks e = [0 \<mapsto> ?c]" by (simp add: e di Let_def set_flag_def clear_flag_def)
  show "clevel e = clevel d" "chash e = chash d" by (simp_all add: e Let_def set_flag_def clear_flag_def)
  show fi: "fi e = clear_inode_flag (fi d) FI_INLINE_DENTRY \<or> fi e = set_inode_flag (clear_inode_flag (fi d) FI_INLINE_DENTRY) FI_UPDATE_DIR"
    by (simp add: e Let_def set_flag_def clear_flag_def)
  have "(0 + 1) * page_size L \<le> i_size e" by (simp add: e Let_def set_flag_def clear_flag_def)
  then have "0 < dir_blocks L e" using assms(1) by (intro dir_blocks_ge) (simp_all add: dir_layout_ok_def)
  then have pages: "Some 0 \<in> set (dir_pages L e)" using nin by (simp add: dir_pages_def)
  have mx: "dir_mx L e = nr_dentry_in_block L" "dir_mx L d = nr_inline_dentry L"
    using nin assms(2) by (simp_all add: dir_mx_def make_dentry_ptr_def)
  have pge: "dir_page e pg = Some b \<longleftrightarrow> pg = Some 0 \<and> b = ?c" for pg b
    using nin bl by (auto simp: dir_page_def split: option.splits if_splits)
  have pgd: "dir_page d pg = Some b \<longleftrightarrow> pg = None \<and> b = ?b" for pg b
    using assms(2) by (auto simp: dir_page_def split: option.splits)
  note cb = convert_block [OF assms(1) dir_core_D(2) [OF core, of None ?b, unfolded pgd mx] di(3), simplified]
  have ent: "dir_ent L e loc n i \<longleftrightarrow> fst loc = Some 0 \<and> dir_ent L d (None, snd loc) n i" for loc n i
    using cb(3) [of "snd loc"] by (auto simp: dir_ent_def dir_slot_def pge pgd mx cb(2))
  have "x = y" if h: "dir_ent L e x n i" "dir_ent L e y n j" for x y n i j
    using core h unfolding ent dir_core_ent by (metis prod.collapse prod.inject)
  then show core': "dir_core L e" unfolding dir_core_ent using pge pages cb(1) by (auto simp: mx)
  have loc: "fst loc = None" if "dir_ent L d loc n i" for loc n i using that by (auto simp: dir_ent_def dir_slot_def pgd)
  show "dir_map L e = dir_map L d"
  proof (rule dir_map_cong [OF core' core], fold dir_ent_def)
    show "(\<exists>loc. dir_ent L e loc n i) \<longleftrightarrow> (\<exists>loc. dir_ent L d loc n i)" for n i
      using loc unfolding ent by (metis fst_conv snd_conv prod.collapse)
  qed
  assume "i_dir_level (fi d) = 0"
  then have lev: "i_dir_level (fi e) = 0" using fi by auto
  have "0 \<in> set (bucket L 0 0 h)" for h using bucket_0 [of L h] assms(1) by (simp add: dir_layout_ok_def)
  then show "placed L e (Suc D)" unfolding placed_ent ent by (auto simp: lev)
qed

lemma add_inline_spec:
  assumes "dir_layout_ok L" "f2fs_has_inline_dentry d" "dir_ok L d" "dir_map L d n = None" "n \<noteq> []" "length n < 2 ^ 16"
    and "room_for_filename (dentry_bitmap (inline_dents d)) (dentry_slots L (length n)) (nr_inline_dentry L) < nr_inline_dentry L"
    and "add_entry L env n (None, room_for_filename (dentry_bitmap (inline_dents d)) (dentry_slots L (length n)) (nr_inline_dentry L))
      0 ino mode d v m = (r, e, v', m')"
  shows "dir_ok L e \<and> dir_map L e = (if r = Inr () then (dir_map L d)(n \<mapsto> ino) else dir_map L d)"
proof -
  have sl: "slots_ok L" and core: "dir_core L d" and dk: "unat (clevel d) = 0" "d_blocks d = Map.empty"
      "\<forall>i\<ge>nr_inline_dentry L. \<not> dentry_bitmap (inline_dents d) i"
      "i_current_depth (fi d) \<le> max_dir_hash_depth L" "placed L d (i_current_depth (fi d))"
    using assms(1-3) by (simp_all add: dir_layout_ok_def dir_ok_def depth_ok_def)
  let ?k = "dentry_slots L (length n)" and ?b = "inline_dents d"
  let ?p = "room_for_filename (dentry_bitmap ?b) ?k (nr_inline_dentry L)"
  have mx: "dir_mx L d = nr_inline_dentry L" using assms(2) by (simp add: dir_mx_def make_dentry_ptr_def)
  have pg: "dir_page d (fst (None :: nat option, ?p)) = Some ?b" using assms(2) by (simp add: dir_page_def)
  have run: "free_run (dentry_bitmap ?b) (dir_mx L d) ?k (snd (None :: nat option, ?p))"
    using room_for_filename_spec(1) [OF name_slots_pos [OF sl assms(5)] assms(7)] by (simp add: mx)
  have noblk: "placed L f D" if "f2fs_has_inline_dentry f" for f D
    using that by (auto simp: placed_def dir_slot_def dir_page_def)
  show ?thesis
  proof (cases r)
    case (Inl y)
    note f = put_entry_spec_error [OF core assms(8) [unfolded Inl]]
    have "same_pages d e" using add_entry_error [OF assms(8) [unfolded Inl]] by blast
    then have "d_blocks e = d_blocks d" "inline_dents e = ?b" by (simp_all add: same_pages_def)
    then have "depth_ok L e" using f dk assms(2) by (simp add: depth_ok_def)
    then show ?thesis using f Inl noblk assms(2) by (simp add: dir_ok_def)
  next
    case (Inr u)
    note f = put_entry_spec [OF sl core pg assms(4) run assms(5,6) assms(8) [unfolded Inr]]
    obtain c where c: "c = set_page None (f2fs_update_dentry L ino mode ?b n (name_hash L n) ?p) d" and s: "same_pages c e"
      using add_entry_ok [OF assms(8) [unfolded Inr] pg] by auto
    have "d_blocks e = Map.empty" "inline_dents e = f2fs_update_dentry L ino mode ?b n (name_hash L n) ?p"
      using s dk(2) by (simp_all add: c same_pages_def set_page_def)
    moreover have "\<not> dentry_bitmap (f2fs_update_dentry L ino mode ?b n (name_hash L n) ?p) i" if "nr_inline_dentry L \<le> i" for i
      using that dk(3) run by (auto simp: update_dentry_simps free_run_def mx)
    ultimately have "depth_ok L e" using f dk assms(2) by (simp add: depth_ok_def)
    then show ?thesis using f Inr noblk assms(2) by (simp add: dir_ok_def)
  qed
qed

text \<open>
  The kernel functions below do not fail with \<open>EAGAIN\<close>, which \<open>f2fs_add_inline_entry\<close> uses for a directory
  it has converted.
\<close>

definition env_ok :: "dir_env \<Rightarrow> bool" where
  "env_ok env \<longleftrightarrow> Some EAGAIN \<notin> {node_err env, convert_err env, inode_page_err env, first_block_err env, acl_err env, security_err env}"

lemma init_inode_metadata_again: "env_ok env \<Longrightarrow> init_inode_metadata L env v d n m = (Inl x, w) \<Longrightarrow> x \<noteq> EAGAIN"
  by (auto simp: init_inode_metadata_def env_ok_def make_empty_dir_def get_new_data_page_def Let_def
      split: option.splits if_splits prod.splits sum.splits)

lemma add_entry_again: "env_ok env \<Longrightarrow> add_entry L env n loc depth ino mode d v m = (r, w) \<Longrightarrow> r \<noteq> Inl EAGAIN"
  by (auto simp: add_entry_def Let_def dest: init_inode_metadata_again split: option.splits prod.splits sum.splits)

lemma add_link_spec:
  assumes "dir_layout_ok L" "dir_ok L d" "dir_map L d n = None" "n \<noteq> []" "length n < 2 ^ 16" "env_ok env"
    and "f2fs_has_inline_dentry d \<longrightarrow> i_dir_level (fi d) = 0"
  shows "\<exists>r e v' m'. f2fs_add_link L env d n v ino mode m = Some (r, e, v', m') \<and>
    dir_map L e = (if r = Inr () then (dir_map L d)(n \<mapsto> ino) else dir_map L d) \<and>
    (r = Inr () \<or> \<not> f2fs_has_inline_dentry d \<longrightarrow> dir_ok L e)"
proof -
  have core: "dir_core L d" and pl: "placed L d (i_current_depth (fi d))" and dk: "depth_ok L d"
    using assms(2) by (simp_all add: dir_ok_def)
  have reg: "\<exists>r e v' m'. add_regular L env f n w ino mode m = Some (r, e, v', m') \<and>
      dir_map L e = (if r = Inr () then (dir_map L f)(n \<mapsto> ino) else dir_map L f) \<and>
      (r = Inr () \<or> 0 < i_current_depth (fi f) \<longrightarrow> dir_ok L e)"
    if f: "\<not> f2fs_has_inline_dentry f" "dir_core L f" "placed L f (max 1 (i_current_depth (fi f)))"
      "i_current_depth (fi f) \<le> max_dir_hash_depth L" "unat (clevel f) \<le> i_current_depth (fi f)" "dir_map L f n = None"
      "unat (clevel f) < max 1 (i_current_depth (fi f))" for f w
  proof -
    obtain r e v' m' where r: "add_regular L env f n w ino mode m = Some (r, e, v', m')"
      and h: "dir_core L e" "\<not> f2fs_has_inline_dentry e" "dir_map L e = (if r = Inr () then (dir_map L f)(n \<mapsto> ino) else dir_map L f)"
        "clevel e = clevel f" "i_current_depth (fi f) \<le> i_current_depth (fi e)" "i_current_depth (fi e) \<le> max_dir_hash_depth L"
        "placed L e (max 1 (i_current_depth (fi e)))" "r = Inr () \<longrightarrow> 0 < i_current_depth (fi e)"
        "\<forall>loc n' i'. dir_ent L f loc n' i' \<longrightarrow> dir_ent L e loc n' i'"
      using add_regular_spec [OF assms(1) f(1-6) assms(4,5), of env w ino mode m] by blast
    have "dir_ok L e" if "0 < i_current_depth (fi e)"
      using that h f(7) by (simp add: dir_ok_def depth_ok_def max_def split: if_splits)
    then show ?thesis using r h(3,5,8) by (metis gr0I le_zero_eq)
  qed
  show ?thesis
  proof (cases "f2fs_has_inline_dentry d")
    case False
    then have c: "unat (clevel d) < i_current_depth (fi d)" "i_current_depth (fi d) \<le> max_dir_hash_depth L"
      using dk by (simp_all add: depth_ok_def)
    then have "max 1 (i_current_depth (fi d)) = i_current_depth (fi d)" by simp
    then show ?thesis using reg [OF False core _ c(2) _ assms(3), of v] c pl False by (auto simp: f2fs_add_link_def)
  next
    case inl: True
    let ?k = "dentry_slots L (length n)"
    let ?p = "room_for_filename (dentry_bitmap (inline_dents d)) ?k (nr_inline_dentry L)"
    show ?thesis
    proof (cases "node_err env")
      case (Some x)
      then have "f2fs_add_link L env d n v ino mode m = Some (Inl x, d, v, m)"
        using assms(6) inl by (auto simp: f2fs_add_link_def f2fs_add_inline_entry_def env_ok_def)
      then show ?thesis using assms(2) by simp
    next
      case None
      show ?thesis
      proof (cases "?p < nr_inline_dentry L")
        case True
        obtain r e v' m' where a: "add_entry L env n (None, ?p) 0 ino mode d v m = (r, e, v', m')" by (metis prod_cases4)
        have "f2fs_add_link L env d n v ino mode m = Some (r, e, v', m')"
          using a add_entry_again [OF assms(6) a] inl None True
          by (simp add: f2fs_add_link_def f2fs_add_inline_entry_def Let_def)
        then show ?thesis using add_inline_spec [OF assms(1) inl assms(2-5) True a] by simp
      next
        case full: False
        obtain r1 e1 where cv: "f2fs_convert_inline_dir L env d = (r1, e1)" by fastforce
        show ?thesis
        proof (cases r1)
          case (Inl x)
          then have x: "x \<noteq> EAGAIN" "e1 = d"
            using cv assms(6) by (auto simp: f2fs_convert_inline_dir_def env_ok_def Let_def split: option.splits)
          then have "f2fs_add_link L env d n v ino mode m = Some (Inl x, d, v, m)"
            using cv Inl inl None full by (simp add: f2fs_add_link_def f2fs_add_inline_entry_def Let_def)
          then show ?thesis using assms(2) by simp
        next
          case (Inr u)
          note s = convert_spec [OF assms(1) inl assms(2) cv [unfolded Inr]]
          have l: "f2fs_add_link L env d n v ino mode m = add_regular L env e1 n v ino mode m"
            using cv Inr inl None full by (simp add: f2fs_add_link_def f2fs_add_inline_entry_def Let_def)
          have dep: "i_current_depth (fi e1) = i_current_depth (fi d)" using s(4) by auto
          have pl1: "placed L e1 (max 1 (i_current_depth (fi e1)))"
            using s(8) [of "max 1 (i_current_depth (fi e1)) - 1"] assms(7) inl by (simp add: max_def split: if_splits)
          have "unat (clevel e1) = 0" using dk inl s(5) by (simp add: depth_ok_def)
          then have p: "i_current_depth (fi e1) \<le> max_dir_hash_depth L" "unat (clevel e1) \<le> i_current_depth (fi e1)"
            "dir_map L e1 n = None" "unat (clevel e1) < max 1 (i_current_depth (fi e1))"
            using dk dep s(3) assms(3) by (simp_all add: depth_ok_def less_max_iff_disj)
          obtain r e v' m' where "add_regular L env e1 n v ino mode m = Some (r, e, v', m')"
            "dir_map L e = (if r = Inr () then (dir_map L e1)(n \<mapsto> ino) else dir_map L e1)"
            "r = Inr () \<or> 0 < i_current_depth (fi e1) \<longrightarrow> dir_ok L e"
            using reg [OF s(2,1) pl1 p, of v] by (elim exE conjE) (rule that)
          then have "f2fs_add_link L env d n v ino mode m = Some (r, e, v', m') \<and>
              dir_map L e = (if r = Inr () then (dir_map L d)(n \<mapsto> ino) else dir_map L d) \<and>
              (r = Inr () \<or> \<not> f2fs_has_inline_dentry d \<longrightarrow> dir_ok L e)"
            using l inl s(3) by simp
          then show ?thesis by blast
        qed
      qed
    qed
  qed
qed

text \<open>
  C22: Adding a legal name that is not in the directory, for a directory of blocks or one inside the inode
  with directory level 0, returns, and either adds exactly it to the map or fails and leaves the map as it
  was, through the growth of the table and through the conversion of a directory that does not fit into
  its inode any more. The result is well formed when the addition succeeds or the directory was a
  table already. No failure that is reported from below is \<open>EAGAIN\<close> (\<open>env_ok\<close>), which the code uses for itself.
\<close>
theorem dir_add_refines:
  assumes "dir_layout_ok L" "dir_ok L d" "dir_map L d n = None" "n \<noteq> []" "length n < 2 ^ 16" "env_ok env"
    and "f2fs_has_inline_dentry d \<longrightarrow> i_dir_level (fi d) = 0"
  shows "\<exists>r e v' m'. f2fs_add_link L env d n v ino mode m = Some (r, e, v', m') \<and>
    dir_map L e = (if r = Inr () then (dir_map L d)(n \<mapsto> ino) else dir_map L d) \<and>
    (r = Inr () \<or> \<not> f2fs_has_inline_dentry d \<longrightarrow> dir_ok L e)"
  by (rule add_link_spec [OF assms])

end
