(* ===== verification/Directory_Laws.thy ===== *)
theory Directory_Laws
  imports Directory_Map
begin

text \<open>
  Further laws of directories: new ones, removing an entry, emptiness, listing, what goes wrong with
  unreadable blocks and after a conversion, and the witnesses for this theory and \<open>Directory_Map\<close>.
\<close>

section \<open>New directories\<close>

lemma block_ents_inj:
  assumes "distinct (map fst (block_ents L mx b))" "p \<in> set (dent_starts L b mx 0)" "q \<in> set (dent_starts L b mx 0)"
    and "ent_name L b p = ent_name L b q"
  shows "p = q"
proof -
  have "distinct (map (ent_name L b) (dent_starts L b mx 0))" using assms(1) by (simp add: block_ents_def comp_def)
  then show ?thesis using assms(2-4) by (meson distinct_map inj_onD)
qed

lemma single_page_core:
  assumes "\<And>pg c. dir_page d pg = Some c \<longleftrightarrow> pg = q \<and> c = b" "q \<in> set (dir_pages L d)" "blk_ok L (dir_mx L d) b"
    and "distinct (map fst (block_ents L (dir_mx L d) b))"
  shows "dir_core L d" "dir_map L d = map_of (block_ents L (dir_mx L d) b)"
proof -
  show core: "dir_core L d"
    unfolding dir_core_def dir_slot_def using assms block_ents_inj [OF assms(4)] by (auto simp: prod_eq_iff)
  show "dir_map L d = map_of (block_ents L (dir_mx L d) b)"
  proof
    fix n
    have "dir_map L d n = Some i \<longleftrightarrow> map_of (block_ents L (dir_mx L d) b) n = Some i" for i
      using assms(1) unfolding dir_map_iff [OF core] map_of_eq_Some_iff [OF assms(4)]
      by (auto simp: dir_slot_def block_ents_def)
    then show "dir_map L d n = map_of (block_ents L (dir_mx L d) b) n" by (rule option_eq_iff)
  qed
qed

lemma bucket_hash_0: "0 \<in> set (bucket L 0 dl 0)"
proof -
  have "dir_block_index L 0 dl (0 mod dir_buckets L 0 dl) = 0" by (simp add: dir_block_index_def)
  moreover have "0 < unat (bucket_blocks L 0)" by (simp add: bucket_blocks_def)
  ultimately show ?thesis by (simp add: bucket_def Let_def)
qed

definition fresh_dir :: "layout \<Rightarrow> vnode \<Rightarrow> bool" where
  "fresh_dir L v \<longleftrightarrow> d_blocks v = Map.empty \<and> inline_dents v = zero_dentry_block \<and> clevel v = 0 \<and> i_current_depth (fi v) = 1 \<and>
     dentry_slots L 1 = 1 \<and> dentry_slots L 2 = 1 \<and> 1 < slot_len L \<and> 2 \<le> nr_inline_dentry L"

lemma first_block:
  assumes "dir_layout_ok L" "fresh_dir L v" "b = do_make_empty_dir L ino mode pino pmode zero_dentry_block" "2 \<le> mx"
  shows "blk_ok L mx b" "block_ents L mx b = [([46], ino), ([46, 46], pino)]" "2 \<le> i \<Longrightarrow> \<not> dentry_bitmap b i"
    "distinct (map fst (block_ents L mx b))" "map_of (block_ents L mx b) = [[46] \<mapsto> ino, [46, 46] \<mapsto> pino]"
proof -
  have zb: "dentry_bitmap zero_dentry_block = (\<lambda>_. False)" by (simp add: zero_dentry_block_def)
  have h: "slots_ok L" "dentry_slots L 1 = 1" "dentry_slots L 2 = 1" "1 < slot_len L"
    using assms(1,2) by (simp_all add: dir_layout_ok_def fresh_dir_def)
  note m = make_empty_dir_ents [OF h assms(4) zb, of ino mode pino pmode, folded assms(3)]
  show "blk_ok L mx b" "block_ents L mx b = [([46], ino), ([46, 46], pino)]" by (fact m)+
  show "2 \<le> i \<Longrightarrow> \<not> dentry_bitmap b i" by (simp add: assms(3) do_make_empty_dir_def Let_def zb)
  show "distinct (map fst (block_ents L mx b))" by (simp add: m(2))
  show "map_of (block_ents L mx b) = [[46] \<mapsto> ino, [46, 46] \<mapsto> pino]" by (auto simp: m(2) fun_eq_iff)
qed

definition made_dir :: "layout \<Rightarrow> vnode \<Rightarrow> u32 \<Rightarrow> vnode \<Rightarrow> bool" where
  "made_dir L v pino e \<longleftrightarrow> dir_ok L e \<and> dir_map L e = [[46] \<mapsto> i_ino v, [46, 46] \<mapsto> pino] \<and>
     f2fs_has_inline_dentry e = f2fs_has_inline_dentry v \<and> i_dir_level (fi e) = i_dir_level (fi v)"

lemma make_empty_inline_dir_spec:
  assumes "dir_layout_ok L" "fresh_dir L v" "f2fs_has_inline_dentry v"
  shows "made_dir L v (i_ino parent) (make_empty_inline_dir L v parent)"
proof -
  define b where "b = do_make_empty_dir L (i_ino v) (i_mode v) (i_ino parent) (i_mode parent) zero_dentry_block"
  define e where "e = make_empty_inline_dir L v parent"
  have nw: "d_blocks v = Map.empty" "inline_dents v = zero_dentry_block" "clevel v = 0" "i_current_depth (fi v) = 1"
    "2 \<le> nr_inline_dentry L" and md: "1 < max_dir_hash_depth L"
    using assms(1,2) by (simp_all add: fresh_dir_def dir_layout_ok_def)
  note fb = first_block [OF assms(1,2) b_def nw(5)]
  have i: "f2fs_has_inline_dentry e" "inline_dents e = b" "d_blocks e = Map.empty" "clevel e = 0" "i_current_depth (fi e) = 1"
      "i_dir_level (fi e) = i_dir_level (fi v)"
    using assms(3) nw by (simp_all add: e_def make_empty_inline_dir_def Let_def set_flag_def f2fs_has_inline_dentry_def
        has_flag_def b_def)
  have pg: "dir_page e pg = Some c \<longleftrightarrow> pg = None \<and> c = b" for pg c
    using i by (auto simp: dir_page_def split: option.splits)
  have mx: "dir_mx L e = nr_inline_dentry L" using i by (simp add: dir_mx_def make_dentry_ptr_def)
  have q: "None \<in> set (dir_pages L e)" using i by (simp add: dir_pages_def)
  note core = single_page_core [OF pg q, unfolded mx, OF fb(1,4)]
  have "placed L e (i_current_depth (fi e))" by (simp add: placed_def dir_slot_def pg)
  moreover have "depth_ok L e" using i fb(3) nw(5) md by (simp add: depth_ok_def)
  ultimately show ?thesis using core fb(5) i assms(3) by (simp add: made_dir_def dir_ok_def e_def [symmetric])
qed

lemma make_empty_regular_dir_spec:
  assumes "dir_layout_ok L" "fresh_dir L v" "\<not> f2fs_has_inline_dentry v" "make_empty_dir L env v parent = (Inr u, e)"
  shows "made_dir L v (i_ino parent) e"
proof -
  define b where "b = do_make_empty_dir L (i_ino v) (i_mode v) (i_ino parent) (i_mode parent) zero_dentry_block"
  have nw: "d_blocks v = Map.empty" "clevel v = 0" "i_current_depth (fi v) = 1"
    "2 \<le> nr_inline_dentry L" and md: "1 < max_dir_hash_depth L" and le: "nr_inline_dentry L \<le> nr_dentry_in_block L" and ps: "0 < page_size L"
    using assms(1,2) by (simp_all add: fresh_dir_def dir_layout_ok_def)
  have "2 \<le> nr_dentry_in_block L" using nw(4) le by simp
  note fb = first_block [OF assms(1,2) b_def this]
  have e: "e = (if i_size v < page_size L then set_flag FI_UPDATE_DIR (v\<lparr>d_blocks := [0 \<mapsto> b], i_size := page_size L\<rparr>)
      else v\<lparr>d_blocks := [0 \<mapsto> b]\<rparr>)"
    using assms(3,4) nw(1) by (auto simp: make_empty_dir_def get_new_data_page_def Let_def b_def set_page_def set_flag_def
        split: option.splits if_splits)
  have i: "\<not> f2fs_has_inline_dentry e" "d_blocks e = [0 \<mapsto> b]" "clevel e = 0" "i_current_depth (fi e) = 1"
      "i_dir_level (fi e) = i_dir_level (fi v)" "(0 + 1) * page_size L \<le> i_size e"
    using assms(3) nw by (simp_all add: e set_flag_def f2fs_has_inline_dentry_def has_flag_def)
  have pg: "dir_page e pg = Some c \<longleftrightarrow> pg = Some 0 \<and> c = b" for pg c
    using i by (auto simp: dir_page_def split: option.splits if_splits)
  have mx: "dir_mx L e = nr_dentry_in_block L" using i by (simp add: dir_mx_def make_dentry_ptr_def)
  have q: "Some 0 \<in> set (dir_pages L e)" using i dir_blocks_ge [OF ps i(6)] by (simp add: dir_pages_def)
  note core = single_page_core [OF pg q, unfolded mx, OF fb(1,4)]
  have "name_hash L (ent_name L b p) = 0" if "p \<in> set (dent_starts L b (nr_dentry_in_block L) 0)" for p
  proof -
    have "(ent_name L b p, de_ino (dentry b p)) \<in> set (block_ents L (nr_dentry_in_block L) b)" using that by (simp add: block_ents_def)
    then have "ent_name L b p = [46] \<or> ent_name L b p = [46, 46]" unfolding fb(2) by auto
    then show ?thesis by (auto simp: name_hash_def f2fs_dentry_hash_def is_dot_name_def)
  qed
  then have "placed L e 1" using bucket_hash_0 by (auto simp: placed_def dir_slot_def pg mx)
  moreover have "depth_ok L e" using i md by (simp add: depth_ok_def)
  ultimately show ?thesis using core fb(5) i assms(3) by (simp add: made_dir_def dir_ok_def)
qed

lemma make_empty_dir_spec:
  assumes "dir_layout_ok L" "fresh_dir L v" "make_empty_dir L env v parent = (Inr u, e)"
  shows "made_dir L v (i_ino parent) e"
  using make_empty_inline_dir_spec [OF assms(1,2)] make_empty_regular_dir_spec [OF assms(1,2) _ assms(3)] assms(3)
  by (cases "f2fs_has_inline_dentry v") (auto simp: make_empty_dir_def)

section \<open>Removing\<close>

lemma drop_nlink_pages: "f2fs_drop_nlink d v m s = (e, v', m', s') \<Longrightarrow> same_pages d e \<and> fi e = fi d \<and> clevel e = clevel d"
  by (auto simp: f2fs_drop_nlink_def Let_def drop_nlink_def split: if_splits prod.splits)

lemma page_without_entries:
  assumes "dir_core L d" "\<not> f2fs_has_inline_dentry d" "d_blocks d k = Some b" "dent_starts L b (dir_mx L d) 0 = []"
    and "d_blocks e = (d_blocks d)(k := None)" "inline_dents e = inline_dents d" "i_size e = i_size d"
    and "f2fs_has_inline_dentry e = f2fs_has_inline_dentry d" "i_dir_level (fi e) = i_dir_level (fi d)"
  shows "dir_core L e" "dir_map L e = dir_map L d" "placed L d D \<Longrightarrow> placed L e D"
proof -
  have pg: "dir_page e pg = (if pg = Some k then None else dir_page d pg)" for pg
    using assms(2,5,8) by (auto simp: dir_page_def split: option.splits)
  have mx: "dir_mx L e = dir_mx L d" and ps: "dir_pages L e = dir_pages L d"
    using assms(7,8) by (simp_all add: dir_mx_def dir_pages_def dir_blocks_def)
  have sl: "dir_slot L e loc c \<longleftrightarrow> dir_slot L d loc c" for loc c
    using assms(2-4) dir_page_def [of d "Some k"] by (auto simp: dir_slot_def pg mx)
  show core: "dir_core L e" using assms(1) unfolding dir_core_def sl pg mx ps by (metis option.distinct(1))
  show "dir_map L e = dir_map L d" by (rule dir_map_cong [OF core assms(1)]) (simp add: sl)
  show "placed L d D \<Longrightarrow> placed L e D" by (simp add: placed_def sl assms(9))
qed

lemma clear_page_map:
  assumes "dir_core L d" "dir_slot L d (pg, p) b" "c = set_page pg (clear_dentry L p b) d"
  shows "dir_core L c" "dir_map L c = (dir_map L d)(ent_name L b p := None)" "placed L d D \<Longrightarrow> placed L c D"
proof -
  have pgb: "dir_page d pg = Some b" "p \<in> set (dent_starts L b (dir_mx L d) 0)" using assms(2) by (simp_all add: dir_slot_def)
  note u = clear_page_ents [OF assms(1) pgb assms(3)] and w = set_page_view [OF pgb(1), folded assms(3)]
  have "x = y" if "dir_ent L c x n i" "dir_ent L c y n j" for x y n i j
    using assms(1) that unfolding u(1) dir_core_ent by blast
  then show core: "dir_core L c" unfolding dir_core_ent using u(2) by blast
  have "dir_ent L d (pg, p) (ent_name L b p) (de_ino (dentry b p))" using assms(2) by (auto simp: dir_ent_def)
  from dir_map_remove [OF assms(1) core this u(1)]
  show "dir_map L c = (dir_map L d)(ent_name L b p := None)" .
  have f: "fi c = fi d" unfolding assms(3) by (rule set_page_view(4) [OF pgb(1)])
  show "placed L d D \<Longrightarrow> placed L c D" unfolding placed_ent u(1) f by blast
qed

lemma no_bits_no_starts:
  assumes "find_next_bit (dentry_bitmap b) mx 0 = mx"
  shows "dent_starts L b mx 0 = []"
  using dent_starts_next [of L b mx 0] assms by (simp add: Let_def)

lemma delete_entry_spec:
  assumes "dir_layout_ok L" "dir_ok L d" "dir_slot L d (pg, p) b" "\<And>k. pg = Some k \<Longrightarrow> index = k"
    and "f2fs_delete_entry L index p d v m s = (e, v', m', s')"
  shows "dir_ok L e" "dir_map L e = (dir_map L d)(ent_name L b p := None)"
    "f2fs_has_inline_dentry e = f2fs_has_inline_dentry d"
proof -
  have core: "dir_core L d" and pl: "placed L d (i_current_depth (fi d))" and dk: "depth_ok L d"
    using assms(2) by (simp_all add: dir_ok_def)
  define c where "c = set_page pg (clear_dentry L p b) d"
  note cm = clear_page_map [OF core assms(3) c_def]
  have pgb: "dir_page d pg = Some b" using assms(3) by (simp add: dir_slot_def)
  note w = set_page_view [OF pgb, where c = "clear_dentry L p b", folded c_def]
  have plc: "placed L c (i_current_depth (fi c))" using cm(3) [OF pl] w(4) by simp
  obtain c' v1 m1 s1 where dn: "(case v of Some v \<Rightarrow> (case f2fs_drop_nlink c v m s of (dir, v, m, s) \<Rightarrow> (dir, Some v, m, s))
      | None \<Rightarrow> (c, None, m, s)) = (c', v1, m1, s1)" by (metis prod_cases4)
  have sp: "same_pages c c' \<and> fi c' = fi c \<and> clevel c' = clevel c"
    using dn by (auto split: option.splits prod.splits dest: drop_nlink_pages)
  note v = same_pages_view [OF conjunct1 [OF sp]]
  have core': "dir_core L c'" "dir_map L c' = (dir_map L d)(ent_name L b p := None)" "placed L c' (i_current_depth (fi c'))"
    using cm plc sp by (simp_all add: v)
  have "dir_ok L e \<and> dir_map L e = (dir_map L d)(ent_name L b p := None) \<and> f2fs_has_inline_dentry e = f2fs_has_inline_dentry d"
  proof (cases "f2fs_has_inline_dentry d")
    case True
    then have pg: "pg = None" "b = inline_dents d" using pgb by (auto simp: dir_page_def split: option.splits)
    have c: "c = d\<lparr>inline_dents := clear_dentry L p (inline_dents d)\<rparr>" by (simp add: c_def pg set_page_def)
    have e: "e = c'"
      using assms(5) dn True by (auto simp: f2fs_delete_entry_def f2fs_delete_inline_entry_def Let_def c split: option.splits prod.splits)
    have "d_blocks c' = d_blocks d" "inline_dents c' = clear_dentry L p (inline_dents d)"
      using sp by (simp_all add: same_pages_def c)
    then have "depth_ok L c'" using dk True sp by (auto simp: depth_ok_def v w clear_dentry_simps)
    then show ?thesis using core' v w by (simp add: dir_ok_def e)
  next
    case False
    then obtain k where pg: "pg = Some k" "d_blocks d k = Some b" using pgb by (auto simp: dir_page_def split: option.splits)
    have ix: "index = k" by (rule assms(4) [OF pg(1)])
    let ?b = "clear_dentry L p b"
    have cb: "d_blocks c' k = Some ?b" using sp by (simp add: same_pages_def c_def pg set_page_def)
    have nin: "\<not> f2fs_has_inline_dentry c'" using False v w by simp
    have mx: "dir_mx L c' = nr_dentry_in_block L" using nin by (simp add: dir_mx_def make_dentry_ptr_def)
    have dk': "depth_ok L c'" using dk False sp by (auto simp: depth_ok_def v w)
    show ?thesis
    proof (cases "find_next_bit (dentry_bitmap ?b) (nr_dentry_in_block L) 0 = nr_dentry_in_block L")
      case True
      obtain s2 f where di: "inode_dec_dirty_pages (s1, fi c') = (s2, f)" by fastforce
      have f: "i_dir_level f = i_dir_level (fi c')" "i_current_depth f = i_current_depth (fi c')" "i_flags f = i_flags (fi c')"
        using di by (auto simp: inode_dec_dirty_pages_def split: if_splits)
      have e: "e = c'\<lparr>d_blocks := (d_blocks c')(k := None), fi := f\<rparr>"
        using assms(5) dn [unfolded c_def pg(1)] False True di pg ix by (simp add: f2fs_delete_entry_def Let_def)
      have ei: "f2fs_has_inline_dentry e = f2fs_has_inline_dentry c'"
        by (simp add: e f2fs_has_inline_dentry_def has_flag_def is_inode_flag_set_def f)
      have no: "dent_starts L ?b (dir_mx L c') 0 = []" unfolding mx by (rule no_bits_no_starts [OF True])
      have "d_blocks e = (d_blocks c')(k := None)" "inline_dents e = inline_dents c'" "i_size e = i_size c'"
        "i_dir_level (fi e) = i_dir_level (fi c')" by (simp_all add: e f)
      note pw = page_without_entries [OF core'(1) nin cb no this(1-3) ei this(4)]
      have "depth_ok L e" using dk' ei nin f by (simp add: depth_ok_def) (simp add: e f)
      moreover have "i_current_depth (fi e) = i_current_depth (fi c')" by (simp add: e f)
      ultimately show ?thesis using pw core' ei v w by (simp add: dir_ok_def)
    next
      case no: False
      have "e = c'" using assms(5) dn [unfolded c_def pg(1)] False no pg ix by (simp add: f2fs_delete_entry_def Let_def)
      then show ?thesis using core' dk' v w by (simp add: dir_ok_def)
    qed
  qed
  then show "dir_ok L e" "dir_map L e = (dir_map L d)(ent_name L b p := None)"
    "f2fs_has_inline_dentry e = f2fs_has_inline_dentry d" by blast+
qed

section \<open>Empty directories\<close>

text \<open>A directory is reported empty only if no entry is left beside the first two slots.\<close>

lemma next_bit_none: "find_next_bit b mx off < mx \<longleftrightarrow> (\<exists>i\<ge>off. i < mx \<and> b i)"
  using fnb.search_none_iff [of mx b off] by auto

lemma empty_blocks_iff:
  assumes "\<And>k. lock_err env k = None"
  shows "empty_blocks L env d ks \<longleftrightarrow>
    (\<forall>k\<in>set ks. \<forall>b. d_blocks d k = Some b \<longrightarrow> (\<forall>i<nr_dentry_in_block L. (if k = 0 then 2 else 0) \<le> i \<longrightarrow> \<not> dentry_bitmap b i))"
proof (induction ks)
  case (Cons k ks)
  show ?case
  proof (cases "d_blocks d k")
    case None
    then show ?thesis using Cons.IH by (simp add: get_lock_data_page_def)
  next
    case (Some b)
    then show ?thesis
      using Cons.IH assms next_bit_none [of "dentry_bitmap b" "nr_dentry_in_block L" "if k = 0 then 2 else 0"]
      by (auto simp: get_lock_data_page_def Let_def)
  qed
qed simp

lemma starts_bits:
  assumes "tiles L mx b (set (dent_starts L b mx 0))"
  shows "(\<forall>i<mx. off \<le> i \<longrightarrow> \<not> dentry_bitmap b i) \<longleftrightarrow> (\<forall>p\<in>set (dent_starts L b mx 0). p + ent_slots L b p \<le> off)"
proof
  assume h: "\<forall>i<mx. off \<le> i \<longrightarrow> \<not> dentry_bitmap b i"
  show "\<forall>p\<in>set (dent_starts L b mx 0). p + ent_slots L b p \<le> off"
  proof
    fix p
    assume p: "p \<in> set (dent_starts L b mx 0)"
    let ?i = "p + ent_slots L b p - 1"
    have "?i < mx" "p \<le> ?i" "?i < p + ent_slots L b p" using tiles_D(1,2) [OF assms p] by auto
    then have "dentry_bitmap b ?i" using tiles_D(4) [OF assms] p by blast
    then have "\<not> off \<le> ?i" using h \<open>?i < mx\<close> by blast
    then show "p + ent_slots L b p \<le> off" by linarith
  qed
next
  assume h: "\<forall>p\<in>set (dent_starts L b mx 0). p + ent_slots L b p \<le> off"
  show "\<forall>i<mx. off \<le> i \<longrightarrow> \<not> dentry_bitmap b i" using h tiles_D(4) [OF assms] by fastforce
qed

definition dots_ok :: "layout \<Rightarrow> vnode \<Rightarrow> bool" where
  "dots_ok L d \<longleftrightarrow> (\<exists>b. dir_slot L d (hd (dir_pages L d), 0) b \<and> dir_slot L d (hd (dir_pages L d), 1) b \<and>
     ent_name L b 0 = [46] \<and> ent_name L b 1 = [46, 46] \<and> ent_slots L b 0 = 1 \<and> ent_slots L b 1 = 1)"

lemma first_page: "\<not> f2fs_has_inline_dentry d \<Longrightarrow> dir_pages L d \<noteq> [] \<Longrightarrow> hd (dir_pages L d) = Some 0"
  by (auto simp: dir_pages_def hd_map)

lemma empty_dir_slots:
  assumes "dir_ok L d" "dots_ok L d" "\<And>k. lock_err env k = None" "node_err env = None"
  shows "f2fs_empty_dir L env d \<longleftrightarrow>
    (\<forall>pg b p. dir_slot L d (pg, p) b \<longrightarrow> p + ent_slots L b p \<le> (if pg = hd (dir_pages L d) then 2 else 0))"
proof -
  have core: "dir_core L d" using assms(1) by (simp add: dir_ok_def)
  have til: "tiles L (dir_mx L d) b (set (dent_starts L b (dir_mx L d) 0))" if "dir_page d pg = Some b" for pg b
    using dir_core_D(2) [OF core that] by (simp add: blk_ok_def)
  show ?thesis
  proof (cases "f2fs_has_inline_dentry d")
    case True
    have pg: "dir_page d pg = Some b \<longleftrightarrow> pg = None \<and> b = inline_dents d" for pg b
      using True by (auto simp: dir_page_def split: option.splits)
    have mx: "dir_mx L d = nr_inline_dentry L" and ps: "dir_pages L d = [None]"
      using True by (simp_all add: dir_mx_def make_dentry_ptr_def dir_pages_def)
    have "f2fs_empty_dir L env d \<longleftrightarrow> (\<forall>i<dir_mx L d. 2 \<le> i \<longrightarrow> \<not> dentry_bitmap (inline_dents d) i)"
      using True assms(4) next_bit_none [of "dentry_bitmap (inline_dents d)" "dir_mx L d" 2]
      by (auto simp: f2fs_empty_dir_def f2fs_empty_inline_dir_def mx)
    then show ?thesis using starts_bits [OF til, of None "inline_dents d" 2] by (auto simp: dir_slot_def pg ps)
  next
    case False
    have pg: "dir_page d (Some k) = d_blocks d k" "dir_page d None = None" for k using False by (simp_all add: dir_page_def)
    have mx: "dir_mx L d = nr_dentry_in_block L" using False by (simp add: dir_mx_def make_dentry_ptr_def)
    have inb: "k < dir_blocks L d" if "d_blocks d k = Some b" for k b
      using dir_core_D(1) [OF core, of "Some k" b] that False by (auto simp: pg dir_pages_def)
    have "dir_pages L d \<noteq> []" using assms(2) dir_core_D(1) [OF core] by (fastforce simp: dots_ok_def dir_slot_def)
    note hd0 = first_page [OF False this]
    define R where "R k b \<longleftrightarrow> (\<forall>i<dir_mx L d. (if k = 0 then 2 else 0) \<le> i \<longrightarrow> \<not> dentry_bitmap b i)" for k :: nat and b :: dentry_block
    have "f2fs_empty_dir L env d \<longleftrightarrow> (\<forall>k<dir_blocks L d. \<forall>b. d_blocks d k = Some b \<longrightarrow> R k b)"
      using False empty_blocks_iff [OF assms(3), of L d "[0..<dir_blocks L d]", folded mx, folded R_def]
      by (auto simp: f2fs_empty_dir_def)
    also have "\<dots> \<longleftrightarrow> (\<forall>k b. d_blocks d k = Some b \<longrightarrow> R k b)" using inb by blast
    also have "\<dots> \<longleftrightarrow>
        (\<forall>k b. d_blocks d k = Some b \<longrightarrow> (\<forall>i<dir_mx L d. (if k = 0 then 2 else 0) \<le> i \<longrightarrow> \<not> dentry_bitmap b i))"
      by (simp add: R_def)
    also have "\<dots> \<longleftrightarrow> (\<forall>k b. d_blocks d k = Some b \<longrightarrow>
        (\<forall>p\<in>set (dent_starts L b (dir_mx L d) 0). p + ent_slots L b p \<le> (if k = 0 then 2 else 0)))"
      by (intro all_cong1 imp_cong refl starts_bits til) (simp add: pg(1) [symmetric])
    also have "\<dots> \<longleftrightarrow> (\<forall>pg b p. dir_slot L d (pg, p) b \<longrightarrow> p + ent_slots L b p \<le> (if pg = hd (dir_pages L d) then 2 else 0))"
    proof (intro iffI allI impI ballI)
      fix pgn b p
      assume h: "\<forall>k b. d_blocks d k = Some b \<longrightarrow>
          (\<forall>p\<in>set (dent_starts L b (dir_mx L d) 0). p + ent_slots L b p \<le> (if k = 0 then 2 else 0))"
        and "dir_slot L d (pgn, p) b"
      then obtain k where "pgn = Some k" "d_blocks d k = Some b" "p \<in> set (dent_starts L b (dir_mx L d) 0)"
        by (cases pgn) (auto simp: dir_slot_def pg)
      then show "p + ent_slots L b p \<le> (if pgn = hd (dir_pages L d) then 2 else 0)" using h by (simp add: hd0)
    next
      fix k b p
      assume h: "\<forall>pg b p. dir_slot L d (pg, p) b \<longrightarrow> p + ent_slots L b p \<le> (if pg = hd (dir_pages L d) then 2 else 0)"
        and "d_blocks d k = Some b" "p \<in> set (dent_starts L b (dir_mx L d) 0)"
      then have "dir_slot L d (Some k, p) b" by (simp add: dir_slot_def pg)
      then show "p + ent_slots L b p \<le> (if k = 0 then 2 else 0)" using h [rule_format, of "Some k" p b] by (simp add: hd0)
    qed
    finally show ?thesis .
  qed
qed

text \<open>
  C26: When the blocks and the node of the directory can be read and its first block starts with the two
  dots (\<open>dots_ok\<close>), \<open>f2fs_empty_dir\<close>, on which \<open>rmdir\<close> relies, holds exactly when the directory maps no
  name but the two dots. (A block that cannot be read makes the code answer that the directory is not empty.)
\<close>
theorem dir_empty_refines:
  assumes "dir_ok L d" "dots_ok L d" "\<forall>k. lock_err env k = None" "node_err env = None"
  shows "f2fs_empty_dir L env d \<longleftrightarrow> dom (dir_map L d) \<subseteq> {[46], [46, 46]}"
proof -
  have core: "dir_core L d" using assms(1) by (simp add: dir_ok_def)
  let ?h = "hd (dir_pages L d)"
  obtain b0 where b0: "dir_slot L d (?h, 0) b0" "dir_slot L d (?h, 1) b0" "ent_name L b0 0 = [46]" "ent_name L b0 1 = [46, 46]"
    "ent_slots L b0 0 = 1" "ent_slots L b0 1 = 1" using assms(2) by (auto simp: dots_ok_def)
  have one: "p + ent_slots L b p \<le> (if pg = ?h then 2 else 0) \<longleftrightarrow> ent_name L b p \<in> {[46], [46, 46]}"
    if s: "dir_slot L d (pg, p) b" for pg p b
  proof
    assume le: "p + ent_slots L b p \<le> (if pg = ?h then 2 else 0)"
    have "0 < ent_slots L b p"
      using s dir_core_D(2) [OF core] tiles_D(1) by (fastforce simp: dir_slot_def blk_ok_def)
    then have "pg = ?h" "p = 0 \<or> p = 1" using le by (auto split: if_splits)
    moreover have "b = b0" using s b0(1) \<open>pg = ?h\<close> by (simp add: dir_slot_def)
    ultimately show "ent_name L b p \<in> {[46], [46, 46]}" using b0 by auto
  next
    assume "ent_name L b p \<in> {[46], [46, 46]}"
    then have "(pg, p) = (?h, 0) \<or> (pg, p) = (?h, 1)"
      using dir_core_D(3) [OF core s b0(1)] dir_core_D(3) [OF core s b0(2)] b0 by auto
    moreover have "b = b0" if "pg = ?h" using s b0(1) that by (simp add: dir_slot_def)
    ultimately show "p + ent_slots L b p \<le> (if pg = ?h then 2 else 0)" using b0 by auto
  qed
  have "dom (dir_map L d) \<subseteq> {[46], [46, 46]} \<longleftrightarrow> (\<forall>pg p b. dir_slot L d (pg, p) b \<longrightarrow> ent_name L b p \<in> {[46], [46, 46]})"
  proof -
    have iff: "n \<in> dom (dir_map L d) \<longleftrightarrow> (\<exists>pg p b. dir_slot L d (pg, p) b \<and> ent_name L b p = n)" for n
      using dir_map_none [OF core, of n] by (auto simp: domIff)
    show ?thesis unfolding subset_iff iff by blast
  qed
  then show ?thesis
    using empty_dir_slots [OF assms(1,2) _ assms(4)] assms(3) one by (metis (no_types, lifting))
qed

section \<open>Listing\<close>

text \<open>What is still to be listed from a position: the rest of the block, and the blocks behind.\<close>

definition block_dirents :: "layout \<Rightarrow> vnode \<Rightarrow> nat \<Rightarrow> nat \<Rightarrow> dirent list" where
  "block_dirents L d k off =
     (case d_blocks d k of None \<Rightarrow> [] | Some b \<Rightarrow> map (dirent_at L b) (dent_starts L b (nr_dentry_in_block L) off))"

definition rest_from :: "layout \<Rightarrow> vnode \<Rightarrow> nat \<Rightarrow> dirent list" where
  "rest_from L d pos = (let n = pos div nr_dentry_in_block L in
     if n < dir_blocks L d
     then block_dirents L d n (pos mod nr_dentry_in_block L) @ concat (map (\<lambda>k. block_dirents L d k 0) [Suc n..<dir_blocks L d])
     else [])"

text \<open>
  A position the reader may be at: on the boundary of a block, or inside a block that exists, where no
  entry straddles it.
\<close>

definition pos_ok :: "layout \<Rightarrow> vnode \<Rightarrow> nat \<Rightarrow> bool" where
  "pos_ok L d pos \<longleftrightarrow> pos mod nr_dentry_in_block L = 0 \<or>
     (\<exists>b. d_blocks d (pos div nr_dentry_in_block L) = Some b \<and>
        aligned L b (set (dent_starts L b (nr_dentry_in_block L) 0)) (pos mod nr_dentry_in_block L))"

lemma rest_from_block:
  assumes "0 < nr_dentry_in_block L" "n < dir_blocks L d"
  shows "rest_from L d (n * nr_dentry_in_block L) = concat (map (\<lambda>k. block_dirents L d k 0) [n..<dir_blocks L d])"
  using assms by (simp add: rest_from_def Let_def upt_conv_Cons)

lemma starts_aligned:
  assumes "tiles L mx b S" "p \<in> S"
  shows "aligned L b S p" "aligned L b S (p + ent_slots L b p)"
proof -
  show a: "aligned L b S p" using tiles_D(3) [OF assms(1) _ assms(2)] by (simp add: aligned_def)
  show "aligned L b S (p + ent_slots L b p)" by (rule aligned_entry [OF assms(1) a assms(2)])
qed

text \<open>One block: the reader takes a prefix of its entries.\<close>

lemma fill_block:
  assumes "slots_ok L" "tiles L mx b (set (dent_starts L b mx 0))" "aligned L b (set (dent_starts L b mx 0)) off" "off = ctx_pos ctx mod mx"
    and "es = dent_starts L b mx off"
  shows "\<exists>stop c. f2fs_fill_dentries L emit mx b start ctx = Some (stop, c) \<and>
    (if stop then \<exists>off'. ctx_pos c = (if off' = off then ctx_pos ctx else start + off') \<and> off' < mx \<and>
         aligned L b (set (dent_starts L b mx 0)) off' \<and>
         ctx_out c @ map (dirent_at L b) (dent_starts L b mx off') = ctx_out ctx @ map (dirent_at L b) es \<and>
         dent_starts L b mx off' \<noteq> [] \<and> \<not> emit (ctx_out c) (dirent_at L b (hd (dent_starts L b mx off')))
     else ctx_out c = ctx_out ctx @ map (dirent_at L b) es)"
proof -
  let ?S = "set (dent_starts L b mx 0)"
  have es: "es = filter (\<lambda>p. p \<in> ?S) [off..<mx]" unfolding assms(5) by (rule dent_starts_tiles [OF assms(2,3)])
  have "\<forall>p\<in>set (dent_starts L b mx off). 0 < ent_slots L b p" using es assms(5) tiles_D(1) [OF assms(2)] by auto
  from fill_dentries_loop_spec [OF assms(1) this, of ctx start emit, folded assms(5)] obtain k where
    k: "k \<le> length es" and
    h: "fill_dentries_loop L emit mx b start off ctx =
        Some (k < length es, \<lparr>ctx_pos = (if k = 0 then ctx_pos ctx else start + (es ! (k - 1) + ent_slots L b (es ! (k - 1)))),
          ctx_out = ctx_out ctx @ map (dirent_at L b) (take k es)\<rparr>)"
      "k < length es \<Longrightarrow> \<not> emit (ctx_out ctx @ map (dirent_at L b) (take k es)) (dirent_at L b (es ! k))"
      "0 < k \<Longrightarrow> dent_starts L b mx (es ! (k - 1) + ent_slots L b (es ! (k - 1))) = drop k es"
    unfolding Let_def by blast
  have f: "f2fs_fill_dentries L emit mx b start ctx = fill_dentries_loop L emit mx b start off ctx"
    by (simp add: f2fs_fill_dentries_def assms(4))
  show ?thesis
  proof (cases "k < length es")
    case False
    then show ?thesis using f h(1) k by auto
  next
    case True
    define off' where "off' = (if k = 0 then off else es ! (k - 1) + ent_slots L b (es ! (k - 1)))"
    have d: "dent_starts L b mx off' = drop k es" using h(3) assms(5) by (simp add: off'_def)
    then have ne: "dent_starts L b mx off' \<noteq> []" "hd (dent_starts L b mx off') = es ! k" using True by (simp_all add: hd_drop_conv_nth)
    then have lt: "off' < mx" by (metis dent_starts.simps)
    have al: "aligned L b ?S off'"
    proof (cases "k = 0")
      case False
      then have "es ! (k - 1) \<in> set es" using True by simp
      then have "es ! (k - 1) \<in> ?S" unfolding es by simp
      then show ?thesis using starts_aligned(2) [OF assms(2)] False by (simp add: off'_def)
    qed (use assms(3) in \<open>simp add: off'_def\<close>)
    have "off' \<noteq> off" if "0 < k"
    proof -
      have "es ! (k - 1) \<in> set es" using True by simp
      then have "off \<le> es ! (k - 1)" "es ! (k - 1) \<in> ?S" unfolding es by auto
      then show ?thesis using tiles_D(1) [OF assms(2)] that by (fastforce simp: off'_def)
    qed
    then have "(if k = 0 then ctx_pos ctx else start + (es ! (k - 1) + ent_slots L b (es ! (k - 1)))) =
        (if off' = off then ctx_pos ctx else start + off')" by (auto simp: off'_def)
    moreover have "map (dirent_at L b) (take k es) @ map (dirent_at L b) (drop k es) = map (dirent_at L b) es"
      by (metis append_take_drop_id map_append)
    ultimately show ?thesis
      unfolding f h(1) using True h(2) ne al lt d by (intro exI [of _ True] exI conjI) (auto intro!: exI [of _ off'])
  qed
qed

definition behind :: "layout \<Rightarrow> vnode \<Rightarrow> nat \<Rightarrow> dirent list" where
  "behind L d n = concat (map (\<lambda>k. block_dirents L d k 0) [n..<dir_blocks L d])"

lemma behind_step: "n < dir_blocks L d \<Longrightarrow> behind L d n = block_dirents L d n 0 @ behind L d (Suc n)"
  by (simp add: behind_def upt_conv_Cons)

lemma rest_from_boundary:
  assumes "0 < nr_dentry_in_block L"
  shows "rest_from L d (n * nr_dentry_in_block L) = behind L d n"
proof (cases "n < dir_blocks L d")
  case True
  then show ?thesis using rest_from_block [OF assms] by (simp add: behind_def)
next
  case False
  then show ?thesis using assms by (simp add: rest_from_def Let_def behind_def)
qed

text \<open>The reader is in block \<open>n\<close>, or on a boundary with nothing left before block \<open>n\<close>.\<close>

definition reading :: "layout \<Rightarrow> vnode \<Rightarrow> nat \<Rightarrow> nat \<Rightarrow> bool" where
  "reading L d n pos \<longleftrightarrow> pos_ok L d pos \<and>
     (pos div nr_dentry_in_block L = n \<or> pos mod nr_dentry_in_block L = 0 \<and> rest_from L d pos = behind L d n)"

lemma reading_rest:
  assumes "0 < nr_dentry_in_block L" "reading L d n pos" "n < dir_blocks L d"
  shows "rest_from L d pos = block_dirents L d n (pos mod nr_dentry_in_block L) @ behind L d (Suc n)"
  using assms behind_step [OF assms(3)] by (auto simp: reading_def rest_from_def Let_def behind_def)

lemma readdir_blocks_spec:
  assumes "dir_layout_ok L" "dir_core L d" "\<not> f2fs_has_inline_dentry d" "\<And>k. lock_err env k = None"
  shows "reading L d n (ctx_pos ctx) \<Longrightarrow>
    \<exists>c. readdir_blocks L env emit d [n..<dir_blocks L d] ctx = Some c \<and> pos_ok L d (ctx_pos c) \<and>
      ctx_out c @ rest_from L d (ctx_pos c) = ctx_out ctx @ rest_from L d (ctx_pos ctx) \<and>
      (rest_from L d (ctx_pos c) = [] \<or> \<not> emit (ctx_out c) (hd (rest_from L d (ctx_pos c))))"
proof (induction "dir_blocks L d - n" arbitrary: n ctx)
  case 0
  then have "rest_from L d (ctx_pos ctx) = []" by (auto simp: reading_def rest_from_def Let_def behind_def)
  then show ?case using 0 by (simp add: reading_def)
next
  case (Suc x)
  let ?N = "nr_dentry_in_block L"
  have n: "n < dir_blocks L d" and N: "0 < ?N" and sl: "slots_ok L" using Suc.hyps(2) assms(1) by (simp_all add: dir_layout_ok_def)
  have up: "[n..<dir_blocks L d] = n # [Suc n..<dir_blocks L d]" using n by (simp add: upt_conv_Cons)
  note rest = reading_rest [OF N Suc.prems n]
  have x: "x = dir_blocks L d - Suc n" using Suc.hyps(2) by simp
  show ?case
  proof (cases "d_blocks d n")
    case None
    then have mod0: "ctx_pos ctx mod ?N = 0" using Suc.prems by (auto simp: reading_def pos_ok_def)
    have "rest_from L d (ctx_pos ctx) = behind L d (Suc n)" using rest None by (simp add: block_dirents_def)
    then have "reading L d (Suc n) (ctx_pos ctx)" using mod0 Suc.prems by (simp add: reading_def)
    from Suc.hyps(1) [OF x this] None show ?thesis by (simp add: up get_lock_data_page_def)
  next
    case (Some b)
    let ?off = "ctx_pos ctx mod ?N" and ?S = "set (dent_starts L b ?N 0)"
    have mx: "dir_mx L d = ?N" "make_dentry_ptr L False = ?N" using assms(3) by (simp_all add: dir_mx_def make_dentry_ptr_def)
    have pg: "dir_page d (Some n) = Some b" using assms(3) Some by (simp add: dir_page_def)
    have til: "tiles L ?N b ?S" using dir_core_D(2) [OF assms(2) pg] by (simp add: blk_ok_def mx)
    have al: "aligned L b ?S ?off" using Suc.prems Some by (auto simp: reading_def pos_ok_def)
    have gl: "get_lock_data_page env n d = Inr b" using Some assms(4) by (simp add: get_lock_data_page_def)
    obtain stop c where f: "f2fs_fill_dentries L emit ?N b (n * ?N) ctx = Some (stop, c)" and
      h: "if stop then \<exists>off'. ctx_pos c = (if off' = ?off then ctx_pos ctx else n * ?N + off') \<and> off' < ?N \<and> aligned L b ?S off' \<and>
           ctx_out c @ map (dirent_at L b) (dent_starts L b ?N off') = ctx_out ctx @ map (dirent_at L b) (dent_starts L b ?N ?off) \<and>
           dent_starts L b ?N off' \<noteq> [] \<and> \<not> emit (ctx_out c) (dirent_at L b (hd (dent_starts L b ?N off')))
         else ctx_out c = ctx_out ctx @ map (dirent_at L b) (dent_starts L b ?N ?off)"
      using fill_block [OF sl til al refl refl] by blast
    have r: "rest_from L d (ctx_pos ctx) = map (dirent_at L b) (dent_starts L b ?N ?off) @ behind L d (Suc n)"
      using rest Some by (simp add: block_dirents_def)
    show ?thesis
    proof (cases stop)
      case False
      let ?c = "c\<lparr>ctx_pos := (n + 1) * ?N\<rparr>"
      have rb: "rest_from L d (Suc n * ?N) = behind L d (Suc n)" by (rule rest_from_boundary [OF N])
      have "reading L d (Suc n) (ctx_pos ?c)" using rb N by (simp add: reading_def pos_ok_def del: mult_Suc)
      from Suc.hyps(1) [OF x this] obtain c' where
        c': "readdir_blocks L env emit d [Suc n..<dir_blocks L d] ?c = Some c'" "pos_ok L d (ctx_pos c')"
          "ctx_out c' @ rest_from L d (ctx_pos c') = ctx_out c @ behind L d (Suc n)"
          "rest_from L d (ctx_pos c') = [] \<or> \<not> emit (ctx_out c') (hd (rest_from L d (ctx_pos c')))"
        using rb by (auto simp del: mult_Suc)
      then show ?thesis using False h f r gl mx by (simp add: up)
    next
      case True
      obtain off' where o: "ctx_pos c = (if off' = ?off then ctx_pos ctx else n * ?N + off')" "off' < ?N" "aligned L b ?S off'"
           "ctx_out c @ map (dirent_at L b) (dent_starts L b ?N off') = ctx_out ctx @ map (dirent_at L b) (dent_starts L b ?N ?off)"
           "dent_starts L b ?N off' \<noteq> []" "\<not> emit (ctx_out c) (dirent_at L b (hd (dent_starts L b ?N off')))"
        using h True by auto
      have rc: "rest_from L d (ctx_pos c) = map (dirent_at L b) (dent_starts L b ?N off') @ behind L d (Suc n)"
      proof (cases "off' = ?off")
        case True
        then show ?thesis using r o(1) by simp
      next
        case False
        then have "ctx_pos c div ?N = n" "ctx_pos c mod ?N = off'" using o(1,2) by simp_all
        then show ?thesis using n Some by (simp add: rest_from_def Let_def block_dirents_def behind_def)
      qed
      have "pos_ok L d (ctx_pos c)" using o(1,2,3) Some Suc.prems by (auto simp: pos_ok_def reading_def)
      moreover have "ctx_out c @ rest_from L d (ctx_pos c) = ctx_out ctx @ rest_from L d (ctx_pos ctx)"
        unfolding rc r using o(4) by simp
      moreover have "\<not> emit (ctx_out c) (hd (rest_from L d (ctx_pos c)))" using o(5,6) by (simp add: rc hd_map)
      moreover have "readdir_blocks L env emit d [n..<dir_blocks L d] ctx = Some c" using f gl mx True by (simp add: up)
      ultimately show ?thesis by blast
    qed
  qed
qed

lemma rest_from_all:
  assumes "0 < nr_dentry_in_block L" "\<not> f2fs_has_inline_dentry d"
  shows "map (\<lambda>e. (d_name e, d_ino e)) (rest_from L d 0) = dir_ents L d"
proof -
  have mx: "dir_mx L d = nr_dentry_in_block L" using assms(2) by (simp add: dir_mx_def make_dentry_ptr_def)
  have "rest_from L d 0 = behind L d 0" using rest_from_boundary [OF assms(1), of d 0] by simp
  then show ?thesis
    using assms(2) by (simp add: behind_def dir_ents_def dir_pages_def dir_page_def map_concat comp_def mx block_dirents_def
        block_ents_def dirent_at_def Let_def ent_name_def option.case_distrib [of "map _"] cong: option.case_cong)
qed

text \<open>What is left of a directory, inside its inode or in blocks, and the positions a reader may be at.\<close>

definition list_rest :: "layout \<Rightarrow> vnode \<Rightarrow> nat \<Rightarrow> dirent list" where
  "list_rest L d pos =
     (if f2fs_has_inline_dentry d
      then (if pos < nr_inline_dentry L then map (dirent_at L (inline_dents d)) (dent_starts L (inline_dents d) (nr_inline_dentry L) pos) else [])
      else rest_from L d pos)"

definition list_pos :: "layout \<Rightarrow> vnode \<Rightarrow> nat \<Rightarrow> bool" where
  "list_pos L d pos \<longleftrightarrow>
     (if f2fs_has_inline_dentry d
      then pos = nr_inline_dentry L \<or> pos < nr_inline_dentry L \<and>
        aligned L (inline_dents d) (set (dent_starts L (inline_dents d) (nr_inline_dentry L) 0)) pos
      else pos_ok L d pos)"

lemma read_inline_spec:
  assumes "dir_layout_ok L" "dir_core L d" "f2fs_has_inline_dentry d" "node_err env = None" "list_pos L d (ctx_pos ctx)"
  shows "\<exists>c. f2fs_read_inline_dir L env emit d ctx = Some (Inr (), c) \<and> list_pos L d (ctx_pos c) \<and>
    ctx_out c @ list_rest L d (ctx_pos c) = ctx_out ctx @ list_rest L d (ctx_pos ctx) \<and>
    (list_rest L d (ctx_pos c) = [] \<or> \<not> emit (ctx_out c) (hd (list_rest L d (ctx_pos c))))"
proof (cases "ctx_pos ctx = nr_inline_dentry L")
  case True
  then show ?thesis using assms(5) by (simp add: f2fs_read_inline_dir_def list_rest_def assms(3))
next
  case False
  let ?N = "nr_inline_dentry L" and ?b = "inline_dents d"
  have p: "ctx_pos ctx < ?N" "aligned L ?b (set (dent_starts L ?b ?N 0)) (ctx_pos ctx)" using assms(3,5) False by (simp_all add: list_pos_def)
  have mx: "dir_mx L d = ?N" "make_dentry_ptr L True = ?N" using assms(3) by (simp_all add: dir_mx_def make_dentry_ptr_def)
  have "dir_page d None = Some ?b" using assms(3) by (simp add: dir_page_def)
  then have til: "tiles L ?N ?b (set (dent_starts L ?b ?N 0))" using dir_core_D(2) [OF assms(2)] by (simp add: blk_ok_def mx)
  have sl: "slots_ok L" using assms(1) by (simp add: dir_layout_ok_def)
  have off: "ctx_pos ctx = ctx_pos ctx mod ?N" using p by simp
  obtain stop c where f: "f2fs_fill_dentries L emit ?N ?b 0 ctx = Some (stop, c)" and
    h: "if stop then \<exists>off'. ctx_pos c = (if off' = ctx_pos ctx then ctx_pos ctx else 0 + off') \<and> off' < ?N \<and>
         aligned L ?b (set (dent_starts L ?b ?N 0)) off' \<and>
         ctx_out c @ map (dirent_at L ?b) (dent_starts L ?b ?N off') = ctx_out ctx @ map (dirent_at L ?b) (dent_starts L ?b ?N (ctx_pos ctx)) \<and>
         dent_starts L ?b ?N off' \<noteq> [] \<and> \<not> emit (ctx_out c) (dirent_at L ?b (hd (dent_starts L ?b ?N off')))
       else ctx_out c = ctx_out ctx @ map (dirent_at L ?b) (dent_starts L ?b ?N (ctx_pos ctx))"
    using fill_block [OF sl til p(2) off refl, of emit 0] by blast
  show ?thesis
  proof (cases stop)
    case True
    then obtain off' where o: "ctx_pos c = off'" "off' < ?N" "aligned L ?b (set (dent_starts L ?b ?N 0)) off'"
      "ctx_out c @ map (dirent_at L ?b) (dent_starts L ?b ?N off') = ctx_out ctx @ map (dirent_at L ?b) (dent_starts L ?b ?N (ctx_pos ctx))"
      "dent_starts L ?b ?N off' \<noteq> []" "\<not> emit (ctx_out c) (dirent_at L ?b (hd (dent_starts L ?b ?N off')))"
      using h by (auto split: if_splits)
    then have "list_pos L d (ctx_pos c)" "list_rest L d (ctx_pos c) = map (dirent_at L ?b) (dent_starts L ?b ?N off')"
      "list_rest L d (ctx_pos ctx) = map (dirent_at L ?b) (dent_starts L ?b ?N (ctx_pos ctx))"
      using p assms(3) by (simp_all add: list_pos_def list_rest_def)
    then show ?thesis using f True False o(4-6) assms(4) by (simp add: f2fs_read_inline_dir_def mx hd_map)
  next
    case nstop: False
    then show ?thesis using f h False p assms(3,4) by (simp add: f2fs_read_inline_dir_def mx list_pos_def list_rest_def)
  qed
qed

lemma list_rest_all:
  assumes "0 < nr_dentry_in_block L"
  shows "map (\<lambda>e. (d_name e, d_ino e)) (list_rest L d 0) = dir_ents L d"
proof (cases "f2fs_has_inline_dentry d")
  case True
  have "dent_starts L b 0 0 = []" for b by (subst dent_starts.simps) simp
  then show ?thesis
    using True by (simp add: list_rest_def dir_ents_def dir_pages_def dir_page_def comp_def dir_mx_def make_dentry_ptr_def
        block_ents_def dirent_at_def Let_def ent_name_def)
next
  case False
  then show ?thesis using rest_from_all [OF assms] by (simp add: list_rest_def)
qed

text \<open>
  C27: Listing a directory, inside its inode or in blocks, in pieces as large as the reader has room for, when
  its blocks and its node can be read and the reader is at a valid position (\<open>list_pos\<close>: no entry
  straddles it, and no block that it is inside was freed; the position 0 and all those a call
  leaves are valid): a call ends without an error, at a valid position, and it stops only at the end or at an
  entry the reader refuses; what was listed together with what is left is always the same sequence; and from
  position 0 this sequence has every entry of the directory once, in the order of the blocks. So as
  long as the directory does not change, repeated calls list it completely and without repetition.
\<close>
theorem readdir_resumes:
  assumes "dir_layout_ok L" "dir_ok L d" "\<forall>k. lock_err env k = None" "node_err env = None" "list_pos L d (ctx_pos ctx)"
  shows "\<exists>c. f2fs_readdir L env emit d ctx = Some (Inr (), c) \<and> list_pos L d (ctx_pos c) \<and>
    ctx_out c @ list_rest L d (ctx_pos c) = ctx_out ctx @ list_rest L d (ctx_pos ctx) \<and>
    (list_rest L d (ctx_pos c) = [] \<or> \<not> emit (ctx_out c) (hd (list_rest L d (ctx_pos c)))) \<and>
    list_pos L d 0 \<and> map (\<lambda>e. (d_name e, d_ino e)) (list_rest L d 0) = dir_ents L d"
proof -
  have core: "dir_core L d" and N: "0 < nr_dentry_in_block L" using assms(1,2) by (simp_all add: dir_ok_def dir_layout_ok_def)
  have z: "list_pos L d 0"
    by (auto simp: list_pos_def pos_ok_def aligned_def)
  show ?thesis
  proof (cases "f2fs_has_inline_dentry d")
    case True
    then show ?thesis using read_inline_spec [OF assms(1) core True assms(4,5), of emit] list_rest_all [OF N] z
      by (auto simp: f2fs_readdir_def)
  next
    case False
    have "reading L d (ctx_pos ctx div nr_dentry_in_block L) (ctx_pos ctx)" using assms(5) False by (simp add: reading_def list_pos_def)
    from readdir_blocks_spec [OF assms(1) core False _ this, of env emit] assms(3)
    show ?thesis using False list_rest_all [OF N, of d] z by (auto simp: f2fs_readdir_def list_rest_def list_pos_def)
  qed
qed

section \<open>Entries that are not found\<close>

text \<open>A block is blind for a name when it cannot be read or does not hold the name.\<close>

definition blind :: "layout \<Rightarrow> dir_env \<Rightarrow> vnode \<Rightarrow> u8 list \<Rightarrow> nat \<Rightarrow> bool" where
  "blind L env d n k \<longleftrightarrow> (\<forall>b. d_blocks d k = Some b \<longrightarrow> find_err env k = None \<longrightarrow>
     blk_ok L (nr_dentry_in_block L) b \<and> (\<forall>p\<in>set (dent_starts L b (nr_dentry_in_block L) 0). ent_name L b p \<noteq> n))"

lemma find_in_bucket_blind:
  assumes "slots_ok L"
  shows "\<forall>k\<in>set ks. blind L env d n k \<Longrightarrow> \<exists>room'. find_in_bucket L env d n room ks = Some (None, room')"
proof (induction ks arbitrary: room)
  case (Cons k ks)
  show ?case
  proof (cases "find_data_page env k d")
    case (Inl x)
    then show ?thesis using Cons by simp
  next
    case (Inr b)
    then have "d_blocks d k = Some b" "find_err env k = None" by (auto simp: find_data_page_def split: option.splits)
    then have b: "blk_ok L (nr_dentry_in_block L) b" "\<forall>p\<in>set (dent_starts L b (nr_dentry_in_block L) 0). ent_name L b p \<noteq> n"
      using Cons.prems by (auto simp: blind_def)
    have "find (\<lambda>p. ent_name L b p = n) (dent_starts L b (nr_dentry_in_block L) 0) = None"
      using b(2) by (simp add: find_None_iff)
    then obtain ms where "find_target_dentry L n (nr_dentry_in_block L) b = Some (None, ms, int (nr_dentry_in_block L))"
      using find_target_dentry_ok [OF assms b(1), of n] by auto
    then show ?thesis using Inr Cons by (simp add: make_dentry_ptr_def)
  qed
qed simp

lemma find_levels_blind:
  assumes "slots_ok L"
  shows "\<forall>lv\<in>set lvs. \<forall>k\<in>set (bucket L lv (i_dir_level (fi d)) h). blind L env d n k \<Longrightarrow>
    \<exists>e. find_levels L env n h lvs d = Some (None, e) \<and> same_pages d e \<and> fi e = fi d"
proof (induction lvs arbitrary: d)
  case (Cons lv lvs)
  obtain room where r: "find_in_bucket L env d n False (bucket L lv (i_dir_level (fi d)) h) = Some (None, room)"
    using find_in_bucket_blind [OF assms, of "bucket L lv (i_dir_level (fi d)) h" env d n False] Cons.prems by auto
  define d1 where "d1 = (if room \<and> chash d \<noteq> h then d\<lparr>chash := h, clevel := of_nat lv\<rparr> else d)"
  have s: "same_pages d d1" "fi d1 = fi d" "d_blocks d1 = d_blocks d" by (simp_all add: d1_def)
  have "blind L env d1 n = blind L env d n" by (simp add: blind_def s fun_eq_iff)
  then obtain e where "find_levels L env n h lvs d1 = Some (None, e)" "same_pages d1 e" "fi e = fi d1"
    using Cons.IH [of d1] Cons.prems s by auto
  moreover have "find_in_level L env lv n h d = Some (None, d1)" using r by (simp add: find_in_level_def d1_def)
  ultimately show ?case using s same_pages_trans by fastforce
qed simp

lemma find_entry_blind:
  assumes "slots_ok L" "\<not> f2fs_has_inline_dentry d"
    and "\<forall>lv<i_current_depth (fi d). \<forall>k\<in>set (bucket L lv (i_dir_level (fi d)) (name_hash L n)). blind L env d n k"
  shows "\<exists>e. f2fs_find_entry L env d n = Some (None, e) \<and> same_pages d e"
proof -
  have "\<forall>lv\<in>set [0..<i_current_depth (fi d)]. \<forall>k\<in>set (bucket L lv (i_dir_level (fi d)) (name_hash L n)). blind L env d n k"
    using assms(3) by simp
  from find_levels_blind [OF assms(1) this] show ?thesis using assms(2) by (auto simp: f2fs_find_entry_def Let_def)
qed

text \<open>
  A block that cannot be read is skipped by the search as if it did not exist: the lookup of a name in
  it succeeds with the answer that there is no such name, so the name can be created a second time.
\<close>
theorem unreadable_block_hides_entry:
  assumes "dir_layout_ok L" "dir_ok L d" "\<not> f2fs_has_inline_dentry d" "dir_slot L d (Some k, p) b" "ent_name L b p = n"
    and "find_err env k = Some x"
  shows "(\<exists>e. f2fs_find_entry L env d n = Some (None, e)) \<and> dir_map L d n = Some (de_ino (dentry b p))"
proof -
  have sl: "slots_ok L" and core: "dir_core L d" using assms(1,2) by (simp_all add: dir_layout_ok_def dir_ok_def)
  have mx: "dir_mx L d = nr_dentry_in_block L" using assms(3) by (simp add: dir_mx_def make_dentry_ptr_def)
  have "blind L env d n j" for j
    unfolding blind_def
  proof (intro allI impI conjI ballI)
    fix c
    assume c: "d_blocks d j = Some c" "find_err env j = None"
    then have pg: "dir_page d (Some j) = Some c" using assms(3) by (simp add: dir_page_def)
    then show "blk_ok L (nr_dentry_in_block L) c" using dir_core_D(2) [OF core] by (simp add: mx)
    fix q
    assume "q \<in> set (dent_starts L c (nr_dentry_in_block L) 0)"
    then have "dir_slot L d (Some j, q) c" using pg by (simp add: dir_slot_def mx)
    then show "ent_name L c q \<noteq> n" using dir_core_D(3) [OF core assms(4), of "(Some j, q)" c] assms(5,6) c(2) by auto
  qed
  moreover have "dir_map L d n = Some (de_ino (dentry b p))"
    unfolding dir_map_iff [OF core] using assms(4,5) by (intro exI [of _ "(Some k, p)"] exI [of _ b]) simp
  ultimately show ?thesis using find_entry_blind [OF sl assms(3), of n env] by blast
qed

text \<open>
  When the conversion succeeds and the addition after it fails, the directory keeps the depth 0 that an
  addition inside the inode gave it: no level is searched, and every name is reported absent, the two dots
  included, until some later addition succeeds.
\<close>
theorem failed_add_after_conversion_hides_all:
  assumes "dir_layout_ok L" "dir_ok L d" "f2fs_has_inline_dentry d" "i_current_depth (fi d) = 0"
    and "f2fs_convert_inline_dir L env d = (Inr u, e)"
  shows "(\<exists>f. f2fs_find_entry L no_err e n = Some (None, f)) \<and> dir_map L e = dir_map L d"
proof -
  note s = convert_spec [OF assms(1,3,2,5)]
  have "i_current_depth (fi e) = 0" using s(4) assms(4) by auto
  then show ?thesis using find_entry_blind [OF _ s(2), of L n no_err] assms(1) s(3) by (auto simp: dir_layout_ok_def)
qed

text \<open>
  With a directory level, level 0 of the table has several buckets, and the first block, which the
  conversion fills, belongs to the first one only: when the directory has no further level, a name whose
  hash selects another bucket is found by no lookup after the conversion, although its entry is there.
\<close>
theorem inline_convert_hides:
  assumes "dir_layout_ok L" "dir_ok L d" "f2fs_has_inline_dentry d" "f2fs_convert_inline_dir L env d = (Inr u, e)"
    and "dir_map L d n = Some i" "i_current_depth (fi d) \<le> 1"
    and "unat (name_hash L n mod dir_buckets L 0 (i_dir_level (fi d)) * bucket_blocks L 0) \<noteq> 0"
  shows "(\<exists>f. f2fs_find_entry L no_err e n = Some (None, f)) \<and> dir_map L e n = Some i"
proof -
  note s = convert_spec [OF assms(1,3,2,4)]
  have sl: "slots_ok L" using assms(1) by (simp add: dir_layout_ok_def)
  have f: "i_dir_level (fi e) = i_dir_level (fi d)" "i_current_depth (fi e) \<le> 1" using s(4) assms(6) by auto
  have "blind L no_err e n k" if "lv < i_current_depth (fi e)" "k \<in> set (bucket L lv (i_dir_level (fi e)) (name_hash L n))" for lv k
  proof -
    have "lv = 0" using that(1) f(2) by simp
    then have "k \<noteq> 0" using that(2) f assms(7) by (auto simp: bucket_def Let_def dir_block_index_def)
    then show ?thesis by (simp add: blind_def s(7))
  qed
  then show ?thesis using find_entry_blind [OF sl s(2), of n no_err] s(3) assms(5) by auto
qed

text \<open>
  When the block the reader is in has been freed meanwhile, because its last entry was removed, the
  position inside it is applied to the next block: the entries there before that slot are skipped.
\<close>
theorem readdir_skips_after_hole:
  assumes "dir_layout_ok L" "dir_ok L d" "\<not> f2fs_has_inline_dentry d" "\<forall>k. lock_err env k = None"
    and "ctx_pos ctx = n * nr_dentry_in_block L + off" "off < nr_dentry_in_block L" "Suc n < dir_blocks L d" "d_blocks d n = None"
    and "d_blocks d (Suc n) = Some b" "aligned L b (set (dent_starts L b (nr_dentry_in_block L) 0)) off"
  shows "\<exists>c. f2fs_readdir L env (\<lambda>_ _. True) d ctx = Some (Inr (), c) \<and>
    ctx_out c = ctx_out ctx @ map (dirent_at L b) (dent_starts L b (nr_dentry_in_block L) off) @ behind L d (Suc (Suc n))"
proof -
  let ?N = "nr_dentry_in_block L" and ?em = "\<lambda>(_ :: dirent list) (_ :: dirent). True"
  have sl: "slots_ok L" and core: "dir_core L d" and N: "0 < ?N" using assms(1,2) by (simp_all add: dir_ok_def dir_layout_ok_def)
  have mx: "dir_mx L d = ?N" "make_dentry_ptr L False = ?N" using assms(3) by (simp_all add: dir_mx_def make_dentry_ptr_def)
  have pg: "dir_page d (Some (Suc n)) = Some b" using assms(3,9) by (simp add: dir_page_def)
  have til: "tiles L ?N b (set (dent_starts L b ?N 0))" using dir_core_D(2) [OF core pg] by (simp add: blk_ok_def mx)
  have off: "off = ctx_pos ctx mod ?N" and div: "ctx_pos ctx div ?N = n" using assms(5,6) by simp_all
  obtain stop c where f: "f2fs_fill_dentries L ?em ?N b (Suc n * ?N) ctx = Some (stop, c)" and
    "\<not> stop" "ctx_out c = ctx_out ctx @ map (dirent_at L b) (dent_starts L b ?N off)"
    using fill_block [OF sl til assms(10) off refl, of ?em "Suc n * ?N"] by (auto split: if_splits)
  let ?c = "c\<lparr>ctx_pos := (Suc n + 1) * ?N\<rparr>"
  have rb: "rest_from L d (Suc (Suc n) * ?N) = behind L d (Suc (Suc n))" by (rule rest_from_boundary [OF N])
  have "reading L d (Suc (Suc n)) (ctx_pos ?c)" using rb N by (simp add: reading_def pos_ok_def del: mult_Suc)
  from readdir_blocks_spec [OF assms(1) core assms(3) _ this, of env ?em] assms(4) obtain c' where
    c': "readdir_blocks L env ?em d [Suc (Suc n)..<dir_blocks L d] ?c = Some c'"
      "ctx_out c' @ rest_from L d (ctx_pos c') = ctx_out c @ behind L d (Suc (Suc n))" "rest_from L d (ctx_pos c') = []"
    using rb by (auto simp del: mult_Suc)
  have up: "[n..<dir_blocks L d] = n # Suc n # [Suc (Suc n)..<dir_blocks L d]" using assms(7) by (simp add: upt_conv_Cons)
  have "f2fs_readdir L env ?em d ctx = Some (Inr (), c')"
    using f \<open>\<not> stop\<close> c'(1) assms(3,4,8,9) mx
    by (simp add: f2fs_readdir_def div up get_lock_data_page_def del: mult_Suc)
  then show ?thesis using c' \<open>ctx_out c = _\<close> by auto
qed

section \<open>Witnesses\<close>

definition sample_vnode :: vnode where
  "sample_vnode = \<lparr>i_ino = 5, i_mode = 0x41ED, i_size = 0, i_nlink = 1,
     fi = \<lparr>i_mode_dir = True, i_mode_reg = False, i_blocks = 1, i_advise = 0, i_dir_level = 0, i_current_depth = 1, i_acl_mode = 0,
       i_flags = 0, dirty_pages = 0, i_xattr_nid = 0, i_ext = \<lparr>fofs = 0, blk = 0, len = 0\<rparr>\<rparr>,
     chash = 0, clevel = 0, i_pino = 3, d_blocks = Map.empty, inline_dents = zero_dentry_block, raw_name = []\<rparr>"

definition sample_dir :: vnode where
  "sample_dir = snd (make_empty_dir small_layout no_err sample_vnode (sample_vnode\<lparr>i_ino := 3\<rparr>))"

lemma small_dir_layout: "dir_layout_ok small_layout"
  by (auto simp: dir_layout_ok_def slots_ok_def small_layout_def)

lemma sample_new: "fresh_dir small_layout sample_vnode"
  by (simp add: fresh_dir_def sample_vnode_def small_layout_def)

lemma sample_made: "made_dir small_layout sample_vnode 3 sample_dir"
proof -
  have "fst (make_empty_dir small_layout no_err sample_vnode (sample_vnode\<lparr>i_ino := 3\<rparr>)) = Inr ()"
    by (simp add: make_empty_dir_def get_new_data_page_def no_err_def sample_vnode_def f2fs_has_inline_dentry_def has_flag_def
        is_inode_flag_set_def Let_def)
  then have "make_empty_dir small_layout no_err sample_vnode (sample_vnode\<lparr>i_ino := 3\<rparr>) = (Inr (), sample_dir)"
    by (simp add: sample_dir_def prod_eq_iff)
  from make_empty_dir_spec [OF small_dir_layout sample_new this] show ?thesis by simp
qed

lemma sample_dir_facts: "dir_ok small_layout sample_dir" "\<not> f2fs_has_inline_dentry sample_dir"
    "dir_map small_layout sample_dir = [[46] \<mapsto> 5, [46, 46] \<mapsto> 3]"
  using sample_made by (simp_all add: made_dir_def f2fs_has_inline_dentry_def has_flag_def is_inode_flag_set_def sample_vnode_def)

theorem dir_lookup_refines_witness:
  "\<exists>e. f2fs_inode_by_name small_layout no_err sample_dir [46, 46] = Some (3, e) \<and> dir_ok small_layout e"
  using dir_lookup_refines [OF small_dir_layout sample_dir_facts(1), of no_err "[46, 46]"]
  by (auto simp: no_err_def sample_dir_facts(3))

theorem dir_add_refines_witness:
  "\<exists>r e v' m'. f2fs_add_link small_layout no_err sample_dir [97] None 7 0x8000 (\<lambda>_. \<lparr>ino_root = Map.empty, ino_list = [], im_ino_num = 0\<rparr>)
     = Some (r, e, v', m') \<and>
    dir_map small_layout e = (if r = Inr () then [[46] \<mapsto> 5, [46, 46] \<mapsto> 3, [97] \<mapsto> 7] else [[46] \<mapsto> 5, [46, 46] \<mapsto> 3]) \<and> dir_ok small_layout e"
proof -
  have "env_ok no_err" by (simp add: env_ok_def no_err_def)
  from dir_add_refines [OF small_dir_layout sample_dir_facts(1) _ _ _ this, where n = "[97]" and v = None and ino = 7 and
      mode = "0x8000" and m = "\<lambda>_. \<lparr>ino_root = Map.empty, ino_list = [], im_ino_num = 0\<rparr>"] sample_dir_facts
  show ?thesis by auto
qed

lemma sample_dir_block:
  "d_blocks sample_dir = [0 \<mapsto> do_make_empty_dir small_layout 5 0x41ED 3 0x41ED zero_dentry_block]"
  by (simp add: sample_dir_def make_empty_dir_def get_new_data_page_def no_err_def sample_vnode_def f2fs_has_inline_dentry_def
      has_flag_def is_inode_flag_set_def Let_def set_page_def set_flag_def)

lemma sample_dir_dots: "dots_ok small_layout sample_dir"
proof -
  define b where "b = do_make_empty_dir small_layout 5 0x41ED 3 0x41ED zero_dentry_block"
  have pg: "dir_page sample_dir (Some 0) = Some b" using sample_dir_facts(2) by (simp add: dir_page_def sample_dir_block b_def)
  have "dir_core small_layout sample_dir" using sample_dir_facts(1) by (simp add: dir_ok_def)
  from dir_core_D(1) [OF this pg] have "dir_pages small_layout sample_dir \<noteq> []" by auto
  note h = first_page [OF sample_dir_facts(2) this]
  have mx: "dir_mx small_layout sample_dir = 16"
    using sample_dir_facts(2) by (simp add: dir_mx_def make_dentry_ptr_def small_layout_def)
  have "dent_starts small_layout b 16 0 = [0, 1]" "ent_name small_layout b 0 = [46]" "ent_name small_layout b 1 = [46, 46]"
    "ent_slots small_layout b 0 = 1" "ent_slots small_layout b 1 = 1"
    unfolding b_def by code_simp+
  then show ?thesis unfolding dots_ok_def h dir_slot_def by (intro exI [of _ b]) (simp add: pg mx)
qed

theorem dir_empty_refines_witness: "f2fs_empty_dir small_layout no_err sample_dir"
  using dir_empty_refines [OF sample_dir_facts(1) sample_dir_dots, of no_err] by (auto simp: no_err_def sample_dir_facts(3))

theorem unreadable_block_hides_entry_witness:
  "\<exists>e. f2fs_find_entry small_layout (no_err\<lparr>find_err := (\<lambda>_. Some EIO)\<rparr>) sample_dir [46] = Some (None, e)"
proof -
  define b where "b = do_make_empty_dir small_layout 5 0x41ED 3 0x41ED zero_dentry_block"
  have pg: "dir_page sample_dir (Some 0) = Some b" using sample_dir_facts(2) by (simp add: dir_page_def sample_dir_block b_def)
  have mx: "dir_mx small_layout sample_dir = 16"
    using sample_dir_facts(2) by (simp add: dir_mx_def make_dentry_ptr_def small_layout_def)
  have "dent_starts small_layout b 16 0 = [0, 1]" "ent_name small_layout b 0 = [46]" unfolding b_def by code_simp+
  then have "dir_slot small_layout sample_dir (Some 0, 0) b" "ent_name small_layout b 0 = [46]" by (simp_all add: dir_slot_def pg mx)
  from unreadable_block_hides_entry [OF small_dir_layout sample_dir_facts(1,2) this, of "no_err\<lparr>find_err := (\<lambda>_. Some EIO)\<rparr>" EIO]
  show ?thesis by simp
qed

text \<open>An inline directory with the name \<open>a\<close>, and the conversion when the directory level is 1.\<close>

definition sample_inline :: "nat \<Rightarrow> vnode" where
  "sample_inline level =
     (let v = make_empty_inline_dir small_layout (set_flag FI_INLINE_DENTRY (sample_vnode\<lparr>fi := (fi sample_vnode)\<lparr>i_dir_level := level\<rparr>\<rparr>))
         (sample_vnode\<lparr>i_ino := 3\<rparr>)
      in v)"

lemma sample_inline_facts:
  "dir_ok small_layout (sample_inline l)" "f2fs_has_inline_dentry (sample_inline l)"
  "dir_map small_layout (sample_inline l) = [[46] \<mapsto> 5, [46, 46] \<mapsto> 3]" "i_dir_level (fi (sample_inline l)) = l"
proof -
  let ?v = "set_flag FI_INLINE_DENTRY (sample_vnode\<lparr>fi := (fi sample_vnode)\<lparr>i_dir_level := l\<rparr>\<rparr>)"
  have n: "fresh_dir small_layout ?v" using sample_new by (simp add: fresh_dir_def set_flag_def)
  have i: "f2fs_has_inline_dentry ?v" "i_ino ?v = 5" "i_dir_level (fi ?v) = l"
    by (simp_all add: f2fs_has_inline_dentry_def has_flag_def set_flag_def sample_vnode_def)
  from make_empty_inline_dir_spec [OF small_dir_layout n i(1), of "sample_vnode\<lparr>i_ino := 3\<rparr>"]
  show "dir_ok small_layout (sample_inline l)" "f2fs_has_inline_dentry (sample_inline l)"
    "dir_map small_layout (sample_inline l) = [[46] \<mapsto> 5, [46, 46] \<mapsto> 3]" "i_dir_level (fi (sample_inline l)) = l"
    by (simp_all add: sample_inline_def made_dir_def i)
qed

text \<open>A reader with room for one entry, in an inline directory and in one of blocks.\<close>

theorem readdir_resumes_witness:
  "\<exists>c c'. f2fs_readdir small_layout no_err (\<lambda>out _. length out < 1) (sample_inline 0) \<lparr>ctx_pos = 0, ctx_out = []\<rparr> = Some (Inr (), c) \<and>
    ctx_out c @ list_rest small_layout (sample_inline 0) (ctx_pos c) = list_rest small_layout (sample_inline 0) 0 \<and>
    f2fs_readdir small_layout no_err (\<lambda>out _. length out < 1) sample_dir \<lparr>ctx_pos = 0, ctx_out = []\<rparr> = Some (Inr (), c') \<and>
    ctx_out c' @ list_rest small_layout sample_dir (ctx_pos c') = list_rest small_layout sample_dir 0"
proof -
  have e: "\<forall>k. lock_err no_err k = None" "node_err no_err = None" by (simp_all add: no_err_def)
  have z: "list_pos small_layout d (ctx_pos \<lparr>ctx_pos = 0, ctx_out = []\<rparr>)" for d by (auto simp: list_pos_def pos_ok_def aligned_def)
  show ?thesis
    using readdir_resumes [OF small_dir_layout sample_inline_facts(1) [of 0] e z, of "\<lambda>out _. length out < 1"]
      readdir_resumes [OF small_dir_layout sample_dir_facts(1) e z, of "\<lambda>out _. length out < 1"] by auto
qed

lemma hash_a: "name_hash small_layout [97] = 1829676225"
  by code_simp

lemma add_entry_plain: "add_entry L env n loc depth ino mode d None m = (r, w) \<Longrightarrow> r = Inr ()"
  by (auto simp: add_entry_def Let_def split: option.splits prod.splits)

definition no_inodes :: ino_mgmt where
  "no_inodes = (\<lambda>_. \<lparr>ino_root = Map.empty, ino_list = [], im_ino_num = 0\<rparr>)"

definition sample_a :: vnode where
  "sample_a = fst (snd (add_entry small_layout no_err [97] (None, 2) 0 7 0x8000 (sample_inline 1) None no_inodes))"

lemma sample_a_facts:
  "dir_ok small_layout sample_a" "f2fs_has_inline_dentry sample_a" "dir_map small_layout sample_a [97] = Some 7"
  "i_dir_level (fi sample_a) = 1" "i_current_depth (fi sample_a) = 0"
proof -
  obtain r v' m' where ae: "add_entry small_layout no_err [97] (None, 2) 0 7 0x8000 (sample_inline 1) None no_inodes = (r, sample_a, v', m')"
    unfolding sample_a_def by (metis prod.collapse)
  have r: "r = Inr ()" by (rule add_entry_plain [OF ae])
  have room: "room_for_filename (dentry_bitmap (inline_dents (sample_inline 1))) (dentry_slots small_layout (length [97 :: u8])) (nr_inline_dentry small_layout) = 2"
    by code_simp
  have lt: "2 < nr_inline_dentry small_layout" by (simp add: small_layout_def)
  have "dir_ok small_layout sample_a \<and> dir_map small_layout sample_a = (if r = Inr () then (dir_map small_layout (sample_inline 1))([97] \<mapsto> 7) else dir_map small_layout (sample_inline 1))"
    by (rule add_inline_spec [OF small_dir_layout sample_inline_facts(2) [of 1] sample_inline_facts(1), where n = "[97]" and r = r, unfolded room, OF _ _ _ lt ae])
      (simp_all add: sample_inline_facts)
  then show "dir_ok small_layout sample_a" "dir_map small_layout sample_a [97] = Some 7" by (simp_all add: r)
  have pg: "dir_page (sample_inline 1) (fst (None :: nat option, 2 :: nat)) = Some (inline_dents (sample_inline 1))"
    using sample_inline_facts(2) by (simp add: dir_page_def)
  note ok = add_entry_ok [OF ae [unfolded r] pg]
  then show "i_current_depth (fi sample_a) = 0" by blast
  from ok show "f2fs_has_inline_dentry sample_a" "i_dir_level (fi sample_a) = 1"
    using sample_inline_facts by (auto simp: same_pages_def set_page_def f2fs_has_inline_dentry_def has_flag_def)
qed

lemma sample_a_convert: "f2fs_convert_inline_dir small_layout no_err sample_a = (Inr (), snd (f2fs_convert_inline_dir small_layout no_err sample_a))"
  by (simp add: f2fs_convert_inline_dir_def no_err_def Let_def)

theorem failed_add_after_conversion_hides_all_witness:
  "\<exists>f. f2fs_find_entry small_layout no_err (snd (f2fs_convert_inline_dir small_layout no_err sample_a)) [97] = Some (None, f)"
  using failed_add_after_conversion_hides_all [OF small_dir_layout sample_a_facts(1,2,5) sample_a_convert] by blast

theorem inline_convert_hides_witness:
  "(\<exists>f. f2fs_find_entry small_layout no_err (snd (f2fs_convert_inline_dir small_layout no_err sample_a)) [97] = Some (None, f)) \<and>
   dir_map small_layout (snd (f2fs_convert_inline_dir small_layout no_err sample_a)) [97] = Some 7"
proof (rule inline_convert_hides [OF small_dir_layout sample_a_facts(1,2) sample_a_convert sample_a_facts(3)])
  show "i_current_depth (fi sample_a) \<le> 1" by (simp add: sample_a_facts)
  show "unat (name_hash small_layout [97] mod dir_buckets small_layout 0 (i_dir_level (fi sample_a)) * bucket_blocks small_layout 0) \<noteq> 0"
    unfolding sample_a_facts(4) hash_a by code_simp
qed

text \<open>A directory whose first block has been freed, with the name \<open>a\<close> in the second one.\<close>

definition sample_block :: dentry_block where
  "sample_block = f2fs_update_dentry small_layout 7 0x8000 zero_dentry_block [97] 1829676225 0"

definition sample_hole :: vnode where
  "sample_hole = sample_vnode\<lparr>d_blocks := [1 \<mapsto> sample_block], i_size := 128\<rparr>"

lemma sample_block_facts: "blk_ok small_layout 16 sample_block" "dent_starts small_layout sample_block 16 0 = [0]"
    "ent_name small_layout sample_block 0 = [97]" "ent_slots small_layout sample_block 0 = 1" "dent_starts small_layout sample_block 16 3 = []"
proof -
  have z: "blk_ok small_layout 16 zero_dentry_block" by (rule zero_blk_ok)
  have "free_run (dentry_bitmap zero_dentry_block) 16 (dentry_slots small_layout (length [97 :: u8])) 0"
    by (simp add: free_run_def zero_dentry_block_def small_layout_def)
  from update_dentry_ok(1) [OF _ z this, unfolded hash_a] show "blk_ok small_layout 16 sample_block"
    unfolding sample_block_def using small_dir_layout by (simp add: dir_layout_ok_def)
  show "dent_starts small_layout sample_block 16 0 = [0]" "ent_name small_layout sample_block 0 = [97]"
    "ent_slots small_layout sample_block 0 = 1" "dent_starts small_layout sample_block 16 3 = []"
    unfolding sample_block_def by code_simp+
qed

lemma sample_hole_facts:
  "\<not> f2fs_has_inline_dentry sample_hole" "dir_mx small_layout sample_hole = 16" "dir_blocks small_layout sample_hole = 2"
  "dir_page sample_hole pg = Some c \<longleftrightarrow> pg = Some 1 \<and> c = sample_block"
proof -
  show nin: "\<not> f2fs_has_inline_dentry sample_hole"
    by (simp add: sample_hole_def f2fs_has_inline_dentry_def has_flag_def is_inode_flag_set_def sample_vnode_def)
  show "dir_mx small_layout sample_hole = 16" using nin by (simp add: dir_mx_def make_dentry_ptr_def small_layout_def)
  show "dir_blocks small_layout sample_hole = 2" by (simp add: dir_blocks_def sample_hole_def small_layout_def)
  show "dir_page sample_hole pg = Some c \<longleftrightarrow> pg = Some 1 \<and> c = sample_block"
    using nin by (auto simp: dir_page_def sample_hole_def split: option.splits if_splits)
qed

lemma sample_hole_ok: "dir_ok small_layout sample_hole"
proof -
  let ?d = sample_hole
  note f = sample_hole_facts
  have q: "Some 1 \<in> set (dir_pages small_layout ?d)" using f by (simp add: dir_pages_def)
  have di: "distinct (map fst (block_ents small_layout 16 sample_block))" by (simp add: block_ents_def sample_block_facts)
  note core = single_page_core(1) [OF f(4) q, unfolded f(2), OF sample_block_facts(1) di]
  have "1 \<in> set (bucket small_layout 0 (i_dir_level (fi ?d)) h)" for h
    using bucket_0 [of small_layout h] small_dir_layout by (simp add: dir_layout_ok_def sample_hole_def sample_vnode_def)
  moreover have "i_current_depth (fi ?d) = 1" by (simp add: sample_hole_def sample_vnode_def)
  ultimately have "placed small_layout ?d (i_current_depth (fi ?d))" by (auto simp: placed_def dir_slot_def f(4))
  moreover have "depth_ok small_layout ?d"
    using f(1) by (simp add: depth_ok_def) (simp add: sample_hole_def sample_vnode_def small_layout_def)
  ultimately show ?thesis using core by (simp add: dir_ok_def)
qed

lemma sample_hole_map: "dir_map small_layout sample_hole [97] = Some 7"
proof -
  have "dir_core small_layout sample_hole" using sample_hole_ok by (simp add: dir_ok_def)
  moreover have "de_ino (dentry sample_block 0) = 7" unfolding sample_block_def by code_simp
  ultimately show ?thesis
    by (subst dir_map_iff) (auto intro!: exI [of _ 0] simp: dir_slot_def sample_hole_facts sample_block_facts)
qed

theorem readdir_skips_after_hole_witness:
  "\<exists>c. f2fs_readdir small_layout no_err (\<lambda>_ _. True) sample_hole \<lparr>ctx_pos = 3, ctx_out = []\<rparr> = Some (Inr (), c) \<and> ctx_out c = []"
proof -
  let ?d = sample_hole
  note f = sample_hole_facts
  have mx: "nr_dentry_in_block small_layout = 16" by (simp add: small_layout_def)
  have al: "aligned small_layout sample_block (set (dent_starts small_layout sample_block (nr_dentry_in_block small_layout) 0)) 3"
    by (simp add: aligned_def mx sample_block_facts)
  have p: "\<forall>k. lock_err no_err k = None" "ctx_pos \<lparr>ctx_pos = 3, ctx_out = []\<rparr> = 0 * nr_dentry_in_block small_layout + 3"
    "3 < nr_dentry_in_block small_layout" "Suc 0 < dir_blocks small_layout ?d" "d_blocks ?d 0 = None"
    "d_blocks ?d (Suc 0) = Some sample_block"
    by (simp_all add: no_err_def mx f(3)) (simp_all add: sample_hole_def)
  have "behind small_layout ?d (Suc (Suc 0)) = []" by (simp add: behind_def f(3))
  then show ?thesis
    using readdir_skips_after_hole [OF small_dir_layout sample_hole_ok f(1) p al] sample_block_facts(5) by (simp add: mx)
qed

end
