(* ===== verification/Namei.thy ===== *)
theory Namei
  imports Directory_Laws
begin

text \<open>
  Operations on names (\<open>namei.c\<close>): looking up a parent, restoring the dots, linking, unlinking, renaming
  and exchanging names. Inodes are in a store by number, because the two directories of a rename may be
  the same one. Locks, the syncing of directories that ask for it, times and the cleaning before an
  operation are not modelled; making an inode is (\<open>f2fs_new_inode\<close>) an argument.
\<close>

section \<open>State\<close>

record names =
  inodes :: "u32 \<Rightarrow> vnode"
  mgmt :: ino_mgmt
  nsb :: sb_info

definition put_inode :: "u32 \<Rightarrow> vnode \<Rightarrow> names \<Rightarrow> names" where
  "put_inode i v st = st\<lparr>inodes := (inodes st)(i := v)\<rparr>"

definition on_inode :: "u32 \<Rightarrow> (vnode \<Rightarrow> vnode) \<Rightarrow> names \<Rightarrow> names" where
  "on_inode i f st = put_inode i (f (inodes st i)) st"

text \<open>\<open>E i\<close> says what fails for the inode \<open>i\<close>.\<close>

definition find_name :: "layout \<Rightarrow> (u32 \<Rightarrow> dir_env) \<Rightarrow> u32 \<Rightarrow> u8 list \<Rightarrow> names \<Rightarrow> (dloc option \<times> names) option" where
  "find_name L E dir name st =
     (case f2fs_find_entry L (E dir) (inodes st dir) name of
        None \<Rightarrow> None
      | Some (r, d) \<Rightarrow> Some (r, put_inode dir d st))"

definition update_dent_inode :: "(u32 \<Rightarrow> dir_env) \<Rightarrow> u32 \<Rightarrow> u8 list \<Rightarrow> names \<Rightarrow> (errno + unit) \<times> names" where
  "update_dent_inode E i name st =
     (case node_err (E i) of
        Some e \<Rightarrow> (Inl e, st)
      | None \<Rightarrow> (Inr (), on_inode i (\<lambda>v. v\<lparr>raw_name := name\<rparr>) st))"

text \<open>
  Removing an entry found before. An entry found inside the inode of a directory that has been
  converted since is a stale pointer: the area is zero, so the entry has no slots and none is cleared,
  and the inode page, which begins with the mode, does not look like an empty block.
\<close>

definition delete_found ::
    "layout \<Rightarrow> dloc \<Rightarrow> vnode \<Rightarrow> vnode option \<Rightarrow> ino_mgmt \<Rightarrow> sb_info \<Rightarrow> vnode \<times> vnode option \<times> ino_mgmt \<times> sb_info" where
  "delete_found L loc d v m s =
     (case fst loc of
        Some k \<Rightarrow> f2fs_delete_entry L k (snd loc) d v m s
      | None \<Rightarrow>
          if f2fs_has_inline_dentry d then f2fs_delete_entry L 0 (snd loc) d v m s
          else (case v of
                  Some v \<Rightarrow> (case f2fs_drop_nlink d v m s of (d, v, m, s) \<Rightarrow> (d, Some v, m, s))
                | None \<Rightarrow> (d, None, m, s)))"

definition delete_name :: "layout \<Rightarrow> dloc \<Rightarrow> u32 \<Rightarrow> u32 option \<Rightarrow> names \<Rightarrow> names" where
  "delete_name L loc dir i st =
     (case delete_found L loc (inodes st dir) (map_option (inodes st) i) (mgmt st) (nsb st) of
        (d, v, m, s) \<Rightarrow>
          let st = (put_inode dir d st)\<lparr>mgmt := m, nsb := s\<rparr>
          in case (i, v) of (Some i, Some v) \<Rightarrow> put_inode i v st | _ \<Rightarrow> st)"

definition add_name ::
    "layout \<Rightarrow> (u32 \<Rightarrow> dir_env) \<Rightarrow> u32 \<Rightarrow> u8 list \<Rightarrow> u32 \<Rightarrow> names \<Rightarrow> ((errno + unit) \<times> names) option" where
  "add_name L E dir name i st =
     (let v = inodes st i
      in case f2fs_add_link L (E dir) (inodes st dir) name (Some v) (i_ino v) (i_mode v) (mgmt st) of
           None \<Rightarrow> None
         | Some (r, d, v, m) \<Rightarrow>
             let st = (put_inode dir d st)\<lparr>mgmt := m\<rparr>
             in Some (r, case v of Some v \<Rightarrow> put_inode i v st | None \<Rightarrow> st))"

definition set_link :: "layout \<Rightarrow> dloc \<Rightarrow> u32 \<Rightarrow> u32 \<Rightarrow> names \<Rightarrow> names" where
  "set_link L loc i dir st = on_inode dir (f2fs_set_link L loc (inodes st i)) st"

definition acquire_orphan :: "u32 \<Rightarrow> names \<Rightarrow> (errno + unit) \<times> names" where
  "acquire_orphan max_orphans st = (case acquire_orphan_inode max_orphans (mgmt st) of (r, m) \<Rightarrow> (r, st\<lparr>mgmt := m\<rparr>))"

definition release_orphan :: "names \<Rightarrow> names" where
  "release_orphan st = (case release_orphan_inode (mgmt st) (nsb st) of (m, s) \<Rightarrow> st\<lparr>mgmt := m, nsb := s\<rparr>)"

section \<open>Operations\<close>

definition f2fs_get_parent :: "layout \<Rightarrow> (u32 \<Rightarrow> dir_env) \<Rightarrow> u32 \<Rightarrow> names \<Rightarrow> ((errno + u32) \<times> names) option" where
  "f2fs_get_parent L E child st =
     (case f2fs_inode_by_name L (E child) (inodes st child) [46, 46] of
        None \<Rightarrow> None
      | Some (i, d) \<Rightarrow> Some (if i = 0 then Inl ENOENT else Inr i, put_inode child d st))"

text \<open>One of the two dots, added when it is missing; the entry is for no inode in memory.\<close>

definition recover_dot ::
    "layout \<Rightarrow> (u32 \<Rightarrow> dir_env) \<Rightarrow> u32 \<Rightarrow> u8 list \<Rightarrow> u32 \<Rightarrow> names \<Rightarrow> ((errno + unit) \<times> names) option" where
  "recover_dot L E dir name i st =
     (case find_name L E dir name st of
        None \<Rightarrow> None
      | Some (Some _, st) \<Rightarrow> Some (Inr (), st)
      | Some (None, st) \<Rightarrow>
          (case f2fs_add_link L (E dir) (inodes st dir) name None i 0x4000 (mgmt st) of
             None \<Rightarrow> None
           | Some (r, d, _, m) \<Rightarrow> Some (r, (put_inode dir d st)\<lparr>mgmt := m\<rparr>)))"

definition recover_dot_dentries :: "layout \<Rightarrow> (u32 \<Rightarrow> dir_env) \<Rightarrow> u32 \<Rightarrow> u32 \<Rightarrow> names \<Rightarrow> ((errno + unit) \<times> names) option" where
  "recover_dot_dentries L E dir pino st =
     (case recover_dot L E dir [46] (i_ino (inodes st dir)) st of
        None \<Rightarrow> None
      | Some (Inl e, st) \<Rightarrow> Some (Inl e, st)
      | Some (Inr _, st) \<Rightarrow>
          (case recover_dot L E dir [46, 46] pino st of
             None \<Rightarrow> None
           | Some (Inl e, st) \<Rightarrow> Some (Inl e, st)
           | Some (Inr _, st) \<Rightarrow> Some (Inr (), on_inode dir (clear_flag FI_INLINE_DOTS) st)))"

definition f2fs_lookup :: "layout \<Rightarrow> (u32 \<Rightarrow> dir_env) \<Rightarrow> u32 \<Rightarrow> u8 list \<Rightarrow> names \<Rightarrow> ((errno + u32 option) \<times> names) option" where
  "f2fs_lookup L E dir name st =
     (if length name > name_len L then Some (Inl ENAMETOOLONG, st)
      else case find_name L E dir name st of
        None \<Rightarrow> None
      | Some (None, st) \<Rightarrow> Some (Inr None, st)
      | Some (Some loc, st) \<Rightarrow>
          let i = (case entry_at (inodes st dir) loc of Some de \<Rightarrow> de_ino de | None \<Rightarrow> 0)
          in case node_err (E i) of
               Some e \<Rightarrow> Some (Inl e, st)
             | None \<Rightarrow>
                 if has_flag (inodes st i) FI_INLINE_DOTS
                 then (case recover_dot_dentries L E i (i_ino (inodes st dir)) st of
                         None \<Rightarrow> None
                       | Some (Inl e, st) \<Rightarrow> Some (Inl e, st)
                       | Some (Inr _, st) \<Rightarrow> Some (Inr (Some i), st))
                 else Some (Inr (Some i), st))"

definition f2fs_link :: "layout \<Rightarrow> (u32 \<Rightarrow> dir_env) \<Rightarrow> u32 \<Rightarrow> u32 \<Rightarrow> u8 list \<Rightarrow> names \<Rightarrow> ((errno + unit) \<times> names) option" where
  "f2fs_link L E i dir name st =
     (case add_name L E dir name i (on_inode i (set_flag FI_INC_LINK) st) of
        None \<Rightarrow> None
      | Some (Inl e, st) \<Rightarrow> Some (Inl e, on_inode i (clear_flag FI_INC_LINK) st)
      | Some (Inr _, st) \<Rightarrow> Some (Inr (), st))"

definition f2fs_unlink :: "layout \<Rightarrow> (u32 \<Rightarrow> dir_env) \<Rightarrow> u32 \<Rightarrow> u32 \<Rightarrow> u8 list \<Rightarrow> u32 \<Rightarrow> names \<Rightarrow> ((errno + unit) \<times> names) option" where
  "f2fs_unlink L E max_orphans dir name i st =
     (case find_name L E dir name st of
        None \<Rightarrow> None
      | Some (None, st) \<Rightarrow> Some (Inl ENOENT, st)
      | Some (Some loc, st) \<Rightarrow>
          (case acquire_orphan max_orphans st of
             (Inl e, st) \<Rightarrow> Some (Inl e, st)
           | (Inr _, st) \<Rightarrow> Some (Inr (), delete_name L loc dir (Some i) st)))"

definition f2fs_rmdir :: "layout \<Rightarrow> (u32 \<Rightarrow> dir_env) \<Rightarrow> u32 \<Rightarrow> u32 \<Rightarrow> u8 list \<Rightarrow> u32 \<Rightarrow> names \<Rightarrow> ((errno + unit) \<times> names) option" where
  "f2fs_rmdir L E max_orphans dir name i st =
     (if f2fs_empty_dir L (E i) (inodes st i) then f2fs_unlink L E max_orphans dir name i st
      else Some (Inl ENOTEMPTY, st))"

text \<open>
  Renaming. The middle part, over an existing name or to a new one, either leaves with a result or goes
  on (\<open>None\<close>). When the name in the inode cannot be updated the result is \<open>err\<close>, which is 0 there.
\<close>

definition rename_over ::
    "layout \<Rightarrow> (u32 \<Rightarrow> dir_env) \<Rightarrow> u32 \<Rightarrow> bool \<Rightarrow> u32 \<Rightarrow> u8 list \<Rightarrow> u32 \<Rightarrow> u32 \<Rightarrow> names \<Rightarrow> ((errno + unit) option \<times> names) option" where
  "rename_over L E max_orphans is_directory new_dir new_name old_inode new_inode st =
     (if is_directory \<and> \<not> f2fs_empty_dir L (E new_inode) (inodes st new_inode) then Some (Some (Inl ENOTEMPTY), st)
      else case find_name L E new_dir new_name st of
        None \<Rightarrow> None
      | Some (None, st) \<Rightarrow> Some (Some (Inl ENOENT), st)
      | Some (Some new_entry, st) \<Rightarrow>
          (case acquire_orphan max_orphans st of
             (Inl e, st) \<Rightarrow> Some (Some (Inl e), st)
           | (Inr _, st) \<Rightarrow>
               (case update_dent_inode E old_inode new_name st of
                  (Inl _, st) \<Rightarrow> Some (Some (Inr ()), release_orphan st)
                | (Inr _, st) \<Rightarrow>
                    let st = set_link L new_entry old_inode new_dir st;
                        st = (if is_directory then on_inode new_inode drop_nlink st else st);
                        st = on_inode new_inode drop_nlink st;
                        st = (if i_nlink (inodes st new_inode) = 0
                              then st\<lparr>mgmt := add_orphan_inode (i_ino (inodes st new_inode)) (mgmt st)\<rparr>
                              else release_orphan st)
                    in Some (None, st))))"

definition rename_new ::
    "layout \<Rightarrow> (u32 \<Rightarrow> dir_env) \<Rightarrow> bool \<Rightarrow> u32 \<Rightarrow> u8 list \<Rightarrow> u32 \<Rightarrow> names \<Rightarrow> ((errno + unit) option \<times> names) option" where
  "rename_new L E is_directory new_dir new_name old_inode st =
     (case add_name L E new_dir new_name old_inode st of
        None \<Rightarrow> None
      | Some (Inl e, st) \<Rightarrow> Some (Some (Inl e), st)
      | Some (Inr _, st) \<Rightarrow> Some (None, if is_directory then on_inode new_dir inc_nlink st else st))"

definition f2fs_rename ::
    "layout \<Rightarrow> (u32 \<Rightarrow> dir_env) \<Rightarrow> u32 \<Rightarrow> u32 \<Rightarrow> u8 list \<Rightarrow> u32 \<Rightarrow> u8 list \<Rightarrow> u32 \<Rightarrow> u32 option \<Rightarrow> names \<Rightarrow>
      ((errno + unit) \<times> names) option" where
  "f2fs_rename L E max_orphans old_dir old_name new_dir new_name old_inode new_inode st =
     (case find_name L E old_dir old_name st of
        None \<Rightarrow> None
      | Some (None, st) \<Rightarrow> Some (Inl ENOENT, st)
      | Some (Some old_entry, st) \<Rightarrow>
          let old_dir_entry = (if is_dir (inodes st old_inode) then f2fs_parent_dir (E old_inode) (inodes st old_inode) else None);
              is_directory = (old_dir_entry \<noteq> None)
          in if is_dir (inodes st old_inode) \<and> old_dir_entry = None then Some (Inl EIO, st)
             else case (case new_inode of
                          Some i \<Rightarrow> rename_over L E max_orphans is_directory new_dir new_name old_inode i st
                        | None \<Rightarrow> rename_new L E is_directory new_dir new_name old_inode st) of
                    None \<Rightarrow> None
                  | Some (Some r, st) \<Rightarrow> Some (r, st)
                  | Some (None, st) \<Rightarrow>
                      let st = on_inode old_inode file_lost_pino st;
                          st = delete_name L old_entry old_dir None st;
                          st = (case old_dir_entry of
                                  Some loc \<Rightarrow>
                                    let st = (if old_dir \<noteq> new_dir then set_link L loc new_dir old_inode st else st)
                                    in on_inode old_dir drop_nlink st
                                | None \<Rightarrow> st)
                      in Some (Inr (), st))"

text \<open>
  Exchanging two names. \<open>old_nlink\<close> is the change of the link count of the old directory; the limit of
  links is a constant of the header. The parts are the search for the entries of the parents, the test
  of the limit, and the changes.
\<close>

definition cross_parents ::
    "(u32 \<Rightarrow> dir_env) \<Rightarrow> u32 \<Rightarrow> u32 \<Rightarrow> u32 \<Rightarrow> u32 \<Rightarrow> names \<Rightarrow> errno + dloc option \<times> dloc option" where
  "cross_parents E old_dir new_dir old_inode new_inode st =
     (if old_dir = new_dir then Inr (None, None)
      else let od = (if is_dir (inodes st old_inode) then f2fs_parent_dir (E old_inode) (inodes st old_inode) else None)
           in if is_dir (inodes st old_inode) \<and> od = None then Inl EIO
              else let nd = (if is_dir (inodes st new_inode) then f2fs_parent_dir (E new_inode) (inodes st new_inode) else None)
                   in if is_dir (inodes st new_inode) \<and> nd = None then Inl EIO else Inr (od, nd))"

definition cross_nlink :: "dloc option \<Rightarrow> dloc option \<Rightarrow> int \<times> int" where
  "cross_nlink old_dir_entry new_dir_entry =
     (if (old_dir_entry = None) \<noteq> (new_dir_entry = None)
      then let old_nlink = (if old_dir_entry \<noteq> None then -1 else 1) in (old_nlink, - old_nlink)
      else (0, 0))"

definition change_nlink :: "int \<Rightarrow> u32 \<Rightarrow> names \<Rightarrow> names" where
  "change_nlink n dir st =
     (if n \<noteq> 0 then on_inode dir (if n < 0 then drop_nlink else inc_nlink) st else st)"

definition cross_swap ::
    "layout \<Rightarrow> u32 \<Rightarrow> dloc \<Rightarrow> u32 \<Rightarrow> dloc \<Rightarrow> u32 \<Rightarrow> u32 \<Rightarrow> dloc option \<Rightarrow> dloc option \<Rightarrow> int \<times> int \<Rightarrow> names \<Rightarrow> names" where
  "cross_swap L old_dir old_entry new_dir new_entry old_inode new_inode od nd nl st =
     (let st = (case od of Some loc \<Rightarrow> set_link L loc new_dir old_inode st | None \<Rightarrow> st);
          st = (case nd of Some loc \<Rightarrow> set_link L loc old_dir new_inode st | None \<Rightarrow> st);
          st = set_link L old_entry new_inode old_dir st;
          st = on_inode old_inode file_lost_pino st;
          st = change_nlink (fst nl) old_dir st;
          st = set_link L new_entry old_inode new_dir st;
          st = on_inode new_inode file_lost_pino st
      in change_nlink (snd nl) new_dir st)"

definition f2fs_cross_rename ::
    "layout \<Rightarrow> (u32 \<Rightarrow> dir_env) \<Rightarrow> u32 \<Rightarrow> u32 \<Rightarrow> u8 list \<Rightarrow> u32 \<Rightarrow> u8 list \<Rightarrow> u32 \<Rightarrow> u32 \<Rightarrow> names \<Rightarrow>
      ((errno + unit) \<times> names) option" where
  "f2fs_cross_rename L E link_max old_dir old_name new_dir new_name old_inode new_inode st =
     (case find_name L E old_dir old_name st of
        None \<Rightarrow> None
      | Some (None, st) \<Rightarrow> Some (Inl ENOENT, st)
      | Some (Some old_entry, st) \<Rightarrow> (case find_name L E new_dir new_name st of
          None \<Rightarrow> None
        | Some (None, st) \<Rightarrow> Some (Inl ENOENT, st)
        | Some (Some new_entry, st) \<Rightarrow> (case cross_parents E old_dir new_dir old_inode new_inode st of
            Inl e \<Rightarrow> Some (Inl e, st)
          | Inr (od, nd) \<Rightarrow>
              let nl = cross_nlink od nd
              in if 0 < fst nl \<and> i_nlink (inodes st old_inode) \<ge> link_max \<or> 0 < snd nl \<and> i_nlink (inodes st new_inode) \<ge> link_max
                 then Some (Inl EMLINK, st)
                 else (case update_dent_inode E old_inode new_name st of
                   (Inl e, st) \<Rightarrow> Some (Inl e, st)
                 | (Inr _, st) \<Rightarrow> (case update_dent_inode E new_inode old_name st of
                     (Inl e, st) \<Rightarrow> Some (Inl e, snd (update_dent_inode E old_inode old_name st))
                   | (Inr _, st) \<Rightarrow>
                       Some (Inr (), cross_swap L old_dir old_entry new_dir new_entry old_inode new_inode od nd nl st))))))"

text \<open>The flags of \<open>f2fs_rename2\<close> are those of the kernel: without replacing, and exchange.\<close>

definition f2fs_rename2 ::
    "layout \<Rightarrow> (u32 \<Rightarrow> dir_env) \<Rightarrow> u32 \<Rightarrow> u32 \<Rightarrow> u32 \<Rightarrow> u32 \<Rightarrow> u32 \<Rightarrow> u8 list \<Rightarrow> u32 \<Rightarrow> u8 list \<Rightarrow> u32 \<Rightarrow> u32 option \<Rightarrow> u32 \<Rightarrow> names \<Rightarrow>
      ((errno + unit) \<times> names) option" where
  "f2fs_rename2 L E max_orphans link_max noreplace exchange old_dir old_name new_dir new_name old_inode new_inode flags st =
     (if flags AND NOT (noreplace OR exchange) \<noteq> 0 then Some (Inl EINVAL, st)
      else if flags AND exchange \<noteq> 0
      then (case new_inode of
              Some i \<Rightarrow> f2fs_cross_rename L E link_max old_dir old_name new_dir new_name old_inode i st
            | None \<Rightarrow> Some (Inl ENOENT, st))
      else f2fs_rename L E max_orphans old_dir old_name new_dir new_name old_inode new_inode st)"

section \<open>The store\<close>

lemma put_inode_simps [simp]:
  "inodes (put_inode i v st) j = (if j = i then v else inodes st j)"
  "mgmt (put_inode i v st) = mgmt st" "nsb (put_inode i v st) = nsb st"
  "inodes (on_inode i f st) j = (if j = i then f (inodes st i) else inodes st j)"
  "mgmt (on_inode i f st) = mgmt st" "nsb (on_inode i f st) = nsb st"
  by (simp_all add: put_inode_def on_inode_def)

text \<open>Searching a well-formed directory: the entry, and the same directory.\<close>

definition quiet :: "dir_env \<Rightarrow> bool" where
  "quiet env \<longleftrightarrow> (\<forall>k. find_err env k = None) \<and> (\<forall>k. lock_err env k = None) \<and> node_err env = None"

lemma find_name_spec:
  assumes "dir_layout_ok L" "dir_ok L (inodes st dir)" "quiet (E dir)"
  shows "\<exists>r st'. find_name L E dir n st = Some (r, st') \<and> (\<forall>j. j \<noteq> dir \<longrightarrow> inodes st' j = inodes st j) \<and> mgmt st' = mgmt st \<and>
    nsb st' = nsb st \<and> dir_ok L (inodes st' dir) \<and> same_pages (inodes st dir) (inodes st' dir) \<and> fi (inodes st' dir) = fi (inodes st dir) \<and>
    (case r of Some loc \<Rightarrow> \<exists>i. dir_ent L (inodes st' dir) loc n i \<and> dir_map L (inodes st dir) n = Some i
     | None \<Rightarrow> dir_map L (inodes st dir) n = None)"
proof -
  let ?d = "inodes st dir"
  obtain r e where r: "f2fs_find_entry L (E dir) ?d n = Some (r, e)" and e: "dir_ok L e" "same_pages ?d e" "fi e = fi ?d"
    and f: "found L ?d n (\<lambda>_. True) r"
    using find_entry_spec [OF assms(1,2), of "E dir" n] assms(3) by (auto simp: quiet_def)
  have core: "dir_core L ?d" using assms(2) by (simp add: dir_ok_def)
  note v = same_pages_view [OF e(2)]
  have "case r of Some loc \<Rightarrow> \<exists>i. dir_ent L e loc n i \<and> dir_map L ?d n = Some i | None \<Rightarrow> dir_map L ?d n = None"
  proof (cases r)
    case None
    then show ?thesis using f unfolding dir_map_none [OF core] by (simp add: found_def)
  next
    case (Some loc)
    then obtain b where b: "dir_slot L ?d loc b" "ent_name L b (snd loc) = n" using f by (auto simp: found_def)
    then have "dir_ent L ?d loc n (de_ino (dentry b (snd loc)))" by (auto simp: dir_ent_def)
    moreover from this have "dir_map L ?d n = Some (de_ino (dentry b (snd loc)))" unfolding dir_map_ent [OF core] by blast
    ultimately show ?thesis using Some by (auto simp: dir_ent_def v)
  qed
  then show ?thesis using r e by (auto simp: find_name_def split: option.splits)
qed

lemma find_name_hit:
  assumes "dir_layout_ok L" "dir_ok L (inodes st dir)" "quiet (E dir)" "dir_map L (inodes st dir) n \<noteq> None"
  shows "\<exists>loc st' i. find_name L E dir n st = Some (Some loc, st') \<and> (\<forall>j. j \<noteq> dir \<longrightarrow> inodes st' j = inodes st j) \<and>
    mgmt st' = mgmt st \<and> dir_ok L (inodes st' dir) \<and> same_pages (inodes st dir) (inodes st' dir) \<and>
    dir_ent L (inodes st' dir) loc n i \<and> dir_map L (inodes st dir) n = Some i"
  using find_name_spec [where st = st and dir = dir and E = E and n = n, OF assms(1-3)] assms(4)
  by (elim exE conjE) (auto split: option.splits)

lemma delete_name_spec:
  assumes "dir_layout_ok L" "dir_ok L (inodes st dir)" "dir_ent L (inodes st dir) loc n j" "st' = delete_name L loc dir i st"
    and "i \<noteq> Some dir"
  shows "dir_ok L (inodes st' dir)" "dir_map L (inodes st' dir) = (dir_map L (inodes st dir))(n := None)"
    "k \<noteq> dir \<Longrightarrow> Some k \<noteq> i \<Longrightarrow> inodes st' k = inodes st k"
proof -
  let ?d = "inodes st dir"
  obtain pg p b where loc: "loc = (pg, p)" and b: "dir_slot L ?d (pg, p) b" "ent_name L b p = n"
    using assms(3) by (cases loc) (auto simp: dir_ent_def)
  obtain d v m s where dl: "delete_found L loc ?d (map_option (inodes st) i) (mgmt st) (nsb st) = (d, v, m, s)" by (metis prod_cases4)
  have "\<exists>index. f2fs_delete_entry L index p ?d (map_option (inodes st) i) (mgmt st) (nsb st) = (d, v, m, s) \<and> (\<forall>k. pg = Some k \<longrightarrow> index = k)"
  proof (cases pg)
    case None
    then have "f2fs_has_inline_dentry ?d" using b(1) by (auto simp: dir_slot_def dir_page_def split: if_splits)
    then show ?thesis using dl None by (auto simp: delete_found_def loc)
  qed (use dl in \<open>auto simp: delete_found_def loc\<close>)
  then obtain index where ix: "f2fs_delete_entry L index p ?d (map_option (inodes st) i) (mgmt st) (nsb st) = (d, v, m, s)"
    "\<And>k. pg = Some k \<Longrightarrow> index = k" by blast
  note ds = delete_entry_spec [OF assms(1,2) b(1) ix(2,1)]
  have st: "inodes st' k = (if Some k = i \<and> v \<noteq> None then the v else if k = dir then d else inodes st k)" for k
    using dl by (auto simp: assms(4) delete_name_def Let_def split: option.splits)
  show "dir_ok L (inodes st' dir)" "dir_map L (inodes st' dir) = (dir_map L ?d)(n := None)"
    "k \<noteq> dir \<Longrightarrow> Some k \<noteq> i \<Longrightarrow> inodes st' k = inodes st k"
    using ds b(2) assms(5) by (auto simp: st)
qed

text \<open>
  C23: When the directory can be read without errors (\<open>quiet\<close>), unlinking a name of a file that is not the
  directory itself removes exactly it from the map of the directory and nothing else: other inodes but the
  file are not touched; it succeeds exactly when the name is there and a slot for an orphan is left, and
  otherwise the map is unchanged.
\<close>
theorem unlink_refines:
  assumes "dir_layout_ok L" "dir_ok L (inodes st dir)" "quiet (E dir)" "i \<noteq> dir"
  shows "\<exists>r st'. f2fs_unlink L E max_orphans dir n i st = Some (r, st') \<and> dir_ok L (inodes st' dir) \<and>
    dir_map L (inodes st' dir) = (if r = Inr () then (dir_map L (inodes st dir))(n := None) else dir_map L (inodes st dir)) \<and>
    (r = Inr () \<longleftrightarrow> dir_map L (inodes st dir) n \<noteq> None \<and> im_ino_num (mgmt st ORPHAN_INO) < ucast max_orphans) \<and>
    (\<forall>j. j \<noteq> dir \<longrightarrow> j \<noteq> i \<longrightarrow> inodes st' j = inodes st j)"
proof -
  obtain r st1 where f: "find_name L E dir n st = Some (r, st1)" and o: "\<forall>j. j \<noteq> dir \<longrightarrow> inodes st1 j = inodes st j"
    and m: "mgmt st1 = mgmt st" and ok: "dir_ok L (inodes st1 dir)" and sp: "same_pages (inodes st dir) (inodes st1 dir)"
    and c: "case r of Some loc \<Rightarrow> \<exists>i. dir_ent L (inodes st1 dir) loc n i \<and> dir_map L (inodes st dir) n = Some i
     | None \<Rightarrow> dir_map L (inodes st dir) n = None"
    using find_name_spec [where st = st and dir = dir and E = E and n = n, OF assms(1-3)] by blast
  have map: "dir_map L (inodes st1 dir) = dir_map L (inodes st dir)" by (rule same_pages_view(8) [OF sp])
  show ?thesis
  proof (cases r)
    case None
    then show ?thesis using f c ok map o by (auto simp: f2fs_unlink_def)
  next
    case (Some loc)
    then obtain j where j: "dir_ent L (inodes st1 dir) loc n j" "dir_map L (inodes st dir) n = Some j" using c by auto
    obtain r2 st2 where a: "acquire_orphan max_orphans st1 = (r2, st2)" by fastforce
    then have in2: "inodes st2 = inodes st1" and r2: "r2 = Inr () \<longleftrightarrow> im_ino_num (mgmt st ORPHAN_INO) < ucast max_orphans"
      using m by (auto simp: acquire_orphan_def acquire_orphan_inode_def Let_def not_le split: if_splits prod.splits)
    show ?thesis
    proof (cases r2)
      case (Inl e)
      then show ?thesis using f Some a in2 r2 ok map o by (auto simp: f2fs_unlink_def)
    next
      case (Inr u)
      define st3 where "st3 = delete_name L loc dir (Some i) st2"
      have "dir_ok L (inodes st2 dir)" "dir_ent L (inodes st2 dir) loc n j" using ok j in2 by simp_all
      note d = delete_name_spec [OF assms(1) this st3_def] 
      have "f2fs_unlink L E max_orphans dir n i st = Some (Inr (), st3)" using f Some a Inr by (simp add: f2fs_unlink_def st3_def)
      moreover have "inodes st3 k = inodes st k" if "k \<noteq> dir" "k \<noteq> i" for k using d(3) assms(4) that o in2 by simp
      ultimately show ?thesis using d(1,2) assms(4) in2 map j(2) r2 Inr by auto
    qed
  qed
qed


section \<open>Setting an entry to another inode\<close>

text \<open>The entry is the same for the walk over the block, but for its inode and type.\<close>

definition relinked :: "layout \<Rightarrow> nat \<Rightarrow> vnode \<Rightarrow> dentry_block \<Rightarrow> dentry_block" where
  "relinked L p v b = b\<lparr>dentry := (dentry b)(p := set_de_type L (i_mode v) ((dentry b p)\<lparr>de_ino := i_ino v\<rparr>))\<rparr>"

lemma relinked_simps [simp]:
  "dentry_bitmap (relinked L p v b) = dentry_bitmap b"
  "filename (relinked L p v b) = filename b"
  "de_name_len (dentry (relinked L p v b) q) = de_name_len (dentry b q)"
  "hash_code (dentry (relinked L p v b) q) = hash_code (dentry b q)"
  "de_ino (dentry (relinked L p v b) q) = (if q = p then i_ino v else de_ino (dentry b q))"
  by (simp_all add: relinked_def set_de_type_def)

lemma relinked_ents [simp]:
  "ent_slots L (relinked L p v b) = ent_slots L b" "ent_name L (relinked L p v b) = ent_name L b"
  by (simp_all add: fun_eq_iff ent_slots_def ent_name_def filename_at_def)

lemma relinked_starts [simp]: "dent_starts L (relinked L p v b) mx pos = dent_starts L b mx pos"
proof (induction L b mx pos rule: dent_starts.induct)
  case (1 L b mx pos)
  then show ?case
    by (subst dent_starts.simps, subst (2) dent_starts.simps) (simp del: dent_starts.simps)
qed

lemma relinked_ok [simp]: "blk_ok L mx (relinked L p v b) = blk_ok L mx b"
  by (simp add: blk_ok_def tiles_def)

lemma set_link_spec:
  assumes "dir_core L d" "dir_ent L d loc n j" "e = f2fs_set_link L loc v d"
  shows "dir_core L e" "dir_map L e = (dir_map L d)(n \<mapsto> i_ino v)" "fi e = fi d" "clevel e = clevel d"
    "f2fs_has_inline_dentry e = f2fs_has_inline_dentry d" "dir_ok L d \<Longrightarrow> dir_ok L e"
    "dir_ent L d loc' n' k \<Longrightarrow> \<exists>k'. dir_ent L e loc' n' k'"
proof -
  obtain pg p b where loc: "loc = (pg, p)" and b: "dir_page d pg = Some b" "p \<in> set (dent_starts L b (dir_mx L d) 0)"
      "ent_name L b p = n"
    using assms(2) by (cases loc) (auto simp: dir_ent_def dir_slot_def)
  have "page_of d pg = Some b" using b(1) by (auto simp: dir_page_def page_of_def split: if_splits option.splits)
  then have e: "e = set_page pg (relinked L p v b) d" by (simp add: assms(3) loc f2fs_set_link_def relinked_def)
  note w = set_page_view [OF b(1), where c = "relinked L p v b", folded e]
  show fi: "fi e = fi d" "clevel e = clevel d" and inl: "f2fs_has_inline_dentry e = f2fs_has_inline_dentry d" by (fact w)+
  have ents: "dir_ent L e loc' n' i' \<longleftrightarrow> (if loc' = loc then n' = n \<and> i' = i_ino v else dir_ent L d loc' n' i')" for loc' n' i'
    using b by (cases loc') (auto simp: dir_ent_def dir_slot_def w loc)
  show "\<exists>k'. dir_ent L e loc' n' k'" if h: "dir_ent L d loc' n' k" for loc' n' k
  proof (cases "loc' = loc")
    case True
    then have "n' = n" using h assms(2) by (auto simp: dir_ent_def dir_slot_def)
    then show ?thesis using True by (simp add: ents)
  qed (use h in \<open>auto simp: ents\<close>)
  have pgs: "pg' \<in> set (dir_pages L e) \<and> blk_ok L (dir_mx L e) c" if "dir_page e pg' = Some c" for pg' c
    using that dir_core_D(1,2) [OF assms(1)] b(1) by (auto simp: w split: if_splits)
  have same: "x = y" if "dir_ent L d x n' i" "dir_ent L d y n' k" for x y n' i k
    using assms(1) that unfolding dir_core_ent by blast
  have old: "\<exists>k. dir_ent L d x n' k" if "dir_ent L e x n' i" for x n' i using that assms(2) by (auto simp: ents split: if_splits)
  then have "x = y" if "dir_ent L e x n' i" "dir_ent L e y n' k" for x y n' i k using that same by blast
  then show core: "dir_core L e" unfolding dir_core_ent using pgs by blast
  show map: "dir_map L e = (dir_map L d)(n \<mapsto> i_ino v)"
  proof
    fix n'
    have "(\<exists>loc. dir_ent L e loc n' i') \<longleftrightarrow> (if n' = n then i' = i_ino v else (\<exists>loc. dir_ent L d loc n' i'))" for i'
    proof (cases "n' = n")
      case True
      then have "loc' = loc" if "dir_ent L e loc' n' i''" for loc' i'' using old [OF that] same assms(2) by blast
      moreover have "dir_ent L e loc n' i' \<longleftrightarrow> i' = i_ino v" using True by (simp add: ents)
      ultimately have "(\<exists>loc'. dir_ent L e loc' n' i') \<longleftrightarrow> i' = i_ino v" by blast
      then show ?thesis using True by simp
    next
      case False
      then have "dir_ent L e loc' n' i'' \<longleftrightarrow> dir_ent L d loc' n' i''" for loc' i''
      proof (cases "loc' = loc")
        case True
        then have "\<not> dir_ent L d loc' n' i''" using assms(2) False by (auto simp: dir_ent_def dir_slot_def)
        then show ?thesis using True False by (simp add: ents)
      qed (simp add: ents)
      then show ?thesis using False by simp
    qed
    then have "dir_map L e n' = Some i' \<longleftrightarrow> ((dir_map L d)(n \<mapsto> i_ino v)) n' = Some i'" for i'
      unfolding dir_map_ent [OF core] using dir_map_ent [OF assms(1)] by auto
    then show "dir_map L e n' = ((dir_map L d)(n \<mapsto> i_ino v)) n'" by (rule option_eq_iff)
  qed
  have placed: "placed L e k" if "placed L d k" for k
    using that old unfolding placed_ent fi by blast
  have "depth_ok L e" if "depth_ok L d" "dir_ok L d"
  proof (cases "f2fs_has_inline_dentry d")
    case True
    then have "pg = None" "b = inline_dents d" using b(1) by (auto simp: dir_page_def split: option.splits)
    then show ?thesis using that(1) by (simp add: depth_ok_def fi inl) (simp add: e set_page_def)
  next
    case False
    then show ?thesis using that(1) by (simp add: depth_ok_def fi inl)
  qed
  then show "dir_ok L e" if "dir_ok L d"
    using that core placed by (simp add: dir_ok_def fi)
qed


section \<open>Renaming\<close>

lemma add_name_spec:
  assumes "dir_layout_ok L" "dir_ok L (inodes st dir)" "dir_map L (inodes st dir) n = None" "n \<noteq> []" "length n < 2 ^ 16"
    and "env_ok (E dir)" "f2fs_has_inline_dentry (inodes st dir) \<longrightarrow> i_dir_level (fi (inodes st dir)) = 0" "i \<noteq> dir"
  shows "\<exists>r st'. add_name L E dir n i st = Some (r, st') \<and>
    dir_map L (inodes st' dir) = (if r = Inr () then (dir_map L (inodes st dir))(n \<mapsto> i_ino (inodes st i)) else dir_map L (inodes st dir)) \<and>
    (r = Inr () \<longrightarrow> dir_ok L (inodes st' dir)) \<and> (\<forall>j. j \<noteq> dir \<longrightarrow> j \<noteq> i \<longrightarrow> inodes st' j = inodes st j)"
proof -
  obtain r e v' m' where "f2fs_add_link L (E dir) (inodes st dir) n (Some (inodes st i)) (i_ino (inodes st i)) (i_mode (inodes st i)) (mgmt st) =
      Some (r, e, v', m')"
    and "dir_map L e = (if r = Inr () then (dir_map L (inodes st dir))(n \<mapsto> i_ino (inodes st i)) else dir_map L (inodes st dir))"
      "r = Inr () \<or> \<not> f2fs_has_inline_dentry (inodes st dir) \<longrightarrow> dir_ok L e"
    using add_link_spec [OF assms(1-7)] by blast
  then show ?thesis using assms(8) by (cases v') (auto simp: add_name_def Let_def)
qed

lemma acquire_orphan_frame: "acquire_orphan mx st = (r, st') \<Longrightarrow> inodes st' = inodes st"
  by (auto simp: acquire_orphan_def split: prod.splits)

lemma acquire_orphan_room: "acquire_orphan mx st = (r, st') \<Longrightarrow> r = Inr () \<longleftrightarrow> im_ino_num (mgmt st ORPHAN_INO) < ucast mx"
  by (auto simp: acquire_orphan_def acquire_orphan_inode_def Let_def not_le split: if_splits prod.splits)

lemma release_orphan_frame [simp]: "inodes (release_orphan st) = inodes st"
  by (simp add: release_orphan_def split: prod.splits)

text \<open>The step to the new name, over an existing one or not.\<close>

lemma rename_over_spec:
  assumes "dir_layout_ok L" "dir_ok L (inodes st dir)" "quiet (E dir)" "node_err (E old_inode) = None"
    and "old_inode \<noteq> dir" "i \<noteq> dir"
  shows "\<exists>r st'. rename_over L E mx False dir n old_inode i st = Some (r, st') \<and> r \<noteq> Some (Inr ()) \<and>
    dir_map L (inodes st' dir) = (if r = None then (dir_map L (inodes st dir))(n \<mapsto> i_ino (inodes st old_inode)) else dir_map L (inodes st dir)) \<and>
    dir_ok L (inodes st' dir) \<and> (\<forall>j. j \<notin> {dir, old_inode, i} \<longrightarrow> inodes st' j = inodes st j) \<and>
    (r = None \<longleftrightarrow> dir_map L (inodes st dir) n \<noteq> None \<and> im_ino_num (mgmt st ORPHAN_INO) < ucast mx)"
proof -
  obtain r st1 where f: "find_name L E dir n st = Some (r, st1)" and o: "\<forall>j. j \<noteq> dir \<longrightarrow> inodes st1 j = inodes st j"
    and mg: "mgmt st1 = mgmt st" and ok: "dir_ok L (inodes st1 dir)" and sp: "same_pages (inodes st dir) (inodes st1 dir)"
    and c: "case r of Some loc \<Rightarrow> \<exists>i. dir_ent L (inodes st1 dir) loc n i \<and> dir_map L (inodes st dir) n = Some i
     | None \<Rightarrow> dir_map L (inodes st dir) n = None"
    using find_name_spec [where st = st and dir = dir and E = E and n = n, OF assms(1-3)] by blast
  have map: "dir_map L (inodes st1 dir) = dir_map L (inodes st dir)" by (rule same_pages_view(8) [OF sp])
  show ?thesis
  proof (cases r)
    case None
    then show ?thesis using f ok map o c by (auto simp: rename_over_def)
  next
    case (Some loc)
    then obtain j where j: "dir_ent L (inodes st1 dir) loc n j" "dir_map L (inodes st dir) n = Some j" using c by auto
    obtain r2 st2 where a: "acquire_orphan mx st1 = (r2, st2)" by fastforce
    note in2 = acquire_orphan_frame [OF a] and r2 = acquire_orphan_room [OF a, unfolded mg]
    show ?thesis
    proof (cases r2)
      case (Inl e)
      then show ?thesis using f Some a in2 r2 ok map o by (auto simp: rename_over_def)
    next
      case (Inr u)
      have core: "dir_core L (inodes st1 dir)" using ok by (simp add: dir_ok_def)
      note s = set_link_spec [OF core j(1) refl, where v = "(inodes st old_inode)\<lparr>raw_name := n\<rparr>"]
      show ?thesis using f Some a Inr assms(4-6) in2 s(2) s(6) [OF ok] map o r2 j(2)
        by (simp add: rename_over_def update_dent_inode_def set_link_def Let_def)
    qed
  qed
qed


lemma rename_new_spec:
  assumes "dir_layout_ok L" "dir_ok L (inodes st dir)" "dir_map L (inodes st dir) n = None" "n \<noteq> []" "length n < 2 ^ 16"
    and "env_ok (E dir)" "f2fs_has_inline_dentry (inodes st dir) \<longrightarrow> i_dir_level (fi (inodes st dir)) = 0" "old_inode \<noteq> dir"
  shows "\<exists>r st'. rename_new L E False dir n old_inode st = Some (r, st') \<and> r \<noteq> Some (Inr ()) \<and>
    dir_map L (inodes st' dir) = (if r = None then (dir_map L (inodes st dir))(n \<mapsto> i_ino (inodes st old_inode)) else dir_map L (inodes st dir)) \<and>
    (r = None \<longrightarrow> dir_ok L (inodes st' dir)) \<and> (\<forall>j. j \<notin> {dir, old_inode} \<longrightarrow> inodes st' j = inodes st j)"
proof -
  obtain r st' where a: "add_name L E dir n old_inode st = Some (r, st')"
    and h: "dir_map L (inodes st' dir) = (if r = Inr () then (dir_map L (inodes st dir))(n \<mapsto> i_ino (inodes st old_inode)) else dir_map L (inodes st dir))"
      "r = Inr () \<longrightarrow> dir_ok L (inodes st' dir)" "\<forall>j. j \<noteq> dir \<longrightarrow> j \<noteq> old_inode \<longrightarrow> inodes st' j = inodes st j"
    using add_name_spec [where st = st and dir = dir and i = old_inode and E = E and n = n, OF assms] by blast
  show ?thesis
  proof (cases r)
    case (Inl e)
    then show ?thesis using a h by (simp add: rename_new_def)
  qed (use a h in \<open>simp add: rename_new_def\<close>)
qed

lemma rename_middle:
  assumes "dir_layout_ok L" "dir_ok L (inodes st dir)" "quiet (E dir)" "env_ok (E dir)" "node_err (E old_inode) = None"
    and "old_inode \<noteq> dir" "new_inode \<noteq> Some dir" "new_inode = None \<longleftrightarrow> dir_map L (inodes st dir) n = None" "n \<noteq> []" "length n < 2 ^ 16"
    and "f2fs_has_inline_dentry (inodes st dir) \<longrightarrow> i_dir_level (fi (inodes st dir)) = 0"
  shows "\<exists>r st'. (case new_inode of Some i \<Rightarrow> rename_over L E mx False dir n old_inode i st
      | None \<Rightarrow> rename_new L E False dir n old_inode st) = Some (r, st') \<and> r \<noteq> Some (Inr ()) \<and>
    dir_map L (inodes st' dir) = (if r = None then (dir_map L (inodes st dir))(n \<mapsto> i_ino (inodes st old_inode)) else dir_map L (inodes st dir)) \<and>
    (r = None \<longrightarrow> dir_ok L (inodes st' dir)) \<and> (\<forall>j. j \<notin> {dir, old_inode} \<longrightarrow> Some j \<noteq> new_inode \<longrightarrow> inodes st' j = inodes st j) \<and>
    (new_inode \<noteq> None \<longrightarrow> (r = None \<longleftrightarrow> im_ino_num (mgmt st ORPHAN_INO) < ucast mx))"
proof (cases new_inode)
  case None
  have "dir_map L (inodes st dir) n = None" using assms(8) None by simp
  from rename_new_spec [where st = st and E = E and dir = dir and n = n and old_inode = old_inode,
      OF assms(1,2) this assms(9,10,4,11,6)]
  show ?thesis unfolding None option.case by blast
next
  case (Some i)
  have i: "i \<noteq> dir" "dir_map L (inodes st dir) n \<noteq> None" using assms(7,8) Some by auto
  from rename_over_spec [where st = st and E = E and dir = dir and n = n and old_inode = old_inode and i = i and mx = mx,
      OF assms(1,2,3,5,6) i(1)] i(2)
  show ?thesis unfolding Some option.case option.inject by (elim exE conjE) (intro exI conjI, assumption+, simp_all)
qed

text \<open>
  C24: Renaming a file that is not a directory from one directory to another one, when both directories and
  the node of the file can be read without errors and the target directory, if it is inside its inode,
  has directory level 0, the new name is legal, and the replaced inode is given exactly when the new name is there and
  is none of the directories: when the operation succeeds, the old name was there, it is gone from the first
  map, and the second map gives the new name to the file, whether the new name existed or not; when it
  fails, both maps are as they were. Where the new name exists the operation succeeds exactly when the old
  one is there and a slot for an orphan is left. No other inode is touched but the two directories, the
  file and the one that loses its name. Failures reported from below are not
  \<open>EAGAIN\<close>. (When the node of the file cannot be read, the code can
  report a success without having renamed anything: \<open>rename_reports_success\<close>.)
\<close>
theorem rename_refines:
  assumes "dir_layout_ok L" "dir_ok L (inodes st old_dir)" "dir_ok L (inodes st new_dir)" "quiet (E old_dir)" "quiet (E new_dir)"
    and "env_ok (E new_dir)" "node_err (E old_inode) = None" "\<not> is_dir (inodes st old_inode)" "old_dir \<noteq> new_dir"
    and "old_inode \<notin> {old_dir, new_dir}" "new_inode = None \<longleftrightarrow> dir_map L (inodes st new_dir) n' = None"
    and "new_inode \<notin> {Some old_dir, Some new_dir}" "n' \<noteq> []" "length n' < 2 ^ 16"
    and "f2fs_has_inline_dentry (inodes st new_dir) \<longrightarrow> i_dir_level (fi (inodes st new_dir)) = 0"
  shows "\<exists>r st'. f2fs_rename L E max_orphans old_dir n new_dir n' old_inode new_inode st = Some (r, st') \<and>
    (if r = Inr ()
     then dir_map L (inodes st old_dir) n \<noteq> None \<and> dir_map L (inodes st' old_dir) = (dir_map L (inodes st old_dir))(n := None) \<and>
       dir_map L (inodes st' new_dir) = (dir_map L (inodes st new_dir))(n' \<mapsto> i_ino (inodes st old_inode)) \<and>
       dir_ok L (inodes st' old_dir) \<and> dir_ok L (inodes st' new_dir)
     else dir_map L (inodes st' old_dir) = dir_map L (inodes st old_dir) \<and> dir_map L (inodes st' new_dir) = dir_map L (inodes st new_dir)) \<and>
    (new_inode \<noteq> None \<longrightarrow>
      (r = Inr () \<longleftrightarrow> dir_map L (inodes st old_dir) n \<noteq> None \<and> im_ino_num (mgmt st ORPHAN_INO) < ucast max_orphans)) \<and>
    (\<forall>j. j \<notin> {old_dir, new_dir, old_inode} \<longrightarrow> Some j \<noteq> new_inode \<longrightarrow> inodes st' j = inodes st j)"
proof -
  obtain r st1 where f: "find_name L E old_dir n st = Some (r, st1)" and o: "\<forall>j. j \<noteq> old_dir \<longrightarrow> inodes st1 j = inodes st j"
    and mg: "mgmt st1 = mgmt st" and ok: "dir_ok L (inodes st1 old_dir)" and sp: "same_pages (inodes st old_dir) (inodes st1 old_dir)"
    and c: "case r of Some loc \<Rightarrow> \<exists>i. dir_ent L (inodes st1 old_dir) loc n i \<and> dir_map L (inodes st old_dir) n = Some i
     | None \<Rightarrow> dir_map L (inodes st old_dir) n = None"
    using find_name_spec [where st = st and dir = old_dir and E = E and n = n, OF assms(1,2,4)] by blast
  note map = same_pages_view(8) [OF sp, where L = L]
  show ?thesis
  proof (cases r)
    case None
    then show ?thesis using f o map assms(9) c by (simp add: f2fs_rename_def)
  next
    case (Some loc)
    then obtain j where j: "dir_ent L (inodes st1 old_dir) loc n j" "dir_map L (inodes st old_dir) n = Some j" using c by auto
    define mid where "mid = (case new_inode of Some i \<Rightarrow> rename_over L E max_orphans False new_dir n' old_inode i st1
      | None \<Rightarrow> rename_new L E False new_dir n' old_inode st1)"
    have in1: "inodes st1 new_dir = inodes st new_dir" "inodes st1 old_inode = inodes st old_inode" using o assms(9,10) by auto
    have "dir_ok L (inodes st1 new_dir)" "old_inode \<noteq> new_dir" "new_inode \<noteq> Some new_dir" "new_inode = None \<longleftrightarrow> dir_map L (inodes st1 new_dir) n' = None"
      "f2fs_has_inline_dentry (inodes st1 new_dir) \<longrightarrow> i_dir_level (fi (inodes st1 new_dir)) = 0"
      using assms(3,10,11,12,15) in1 by simp_all
    from rename_middle [where st = st1 and E = E and dir = new_dir and n = n' and old_inode = old_inode and mx = max_orphans,
        OF assms(1) this(1) assms(5,6,7) this(2,3,4) assms(13,14) this(5)]
    obtain r2 st2 where m: "mid = Some (r2, st2)" "r2 \<noteq> Some (Inr ())"
      and h: "dir_map L (inodes st2 new_dir) = (if r2 = None then (dir_map L (inodes st new_dir))(n' \<mapsto> i_ino (inodes st old_inode)) else dir_map L (inodes st new_dir))"
        "r2 = None \<longrightarrow> dir_ok L (inodes st2 new_dir)" "\<forall>j. j \<notin> {new_dir, old_inode} \<longrightarrow> Some j \<noteq> new_inode \<longrightarrow> inodes st2 j = inodes st1 j"
        "new_inode \<noteq> None \<longrightarrow> (r2 = None \<longleftrightarrow> im_ino_num (mgmt st ORPHAN_INO) < ucast max_orphans)"
      unfolding in1 mg mid_def [symmetric] by blast
    have old2: "inodes st2 old_dir = inodes st1 old_dir" using h(3) assms(9,10,12) by auto
    have eq: "f2fs_rename L E max_orphans old_dir n new_dir n' old_inode new_inode st =
      (case r2 of Some r \<Rightarrow> Some (r, st2) | None \<Rightarrow> Some (Inr (), delete_name L loc old_dir None (on_inode old_inode file_lost_pino st2)))"
    proof -
      have "\<not> is_dir (inodes st1 old_inode)" using assms(8) in1(2) by simp
      then show ?thesis using f Some m(1) [unfolded mid_def] by (cases new_inode; cases r2) (simp_all add: f2fs_rename_def)
    qed
    show ?thesis
    proof (cases r2)
      case (Some q)
      then show ?thesis using eq m(2) h old2 map o j(2) by auto
    next
      case None
      define st3 where "st3 = delete_name L loc old_dir None (on_inode old_inode file_lost_pino st2)"
      have "dir_ok L (inodes (on_inode old_inode file_lost_pino st2) old_dir)"
        "dir_ent L (inodes (on_inode old_inode file_lost_pino st2) old_dir) loc n j"
        using old2 ok j(1) assms(10) by auto
      note d = delete_name_spec [OF assms(1) this st3_def]
      have "inodes st3 new_dir = inodes st2 new_dir" using d(3) [of new_dir] assms(9,10) by auto
      moreover have "inodes st3 k = inodes st k" if "k \<notin> {old_dir, new_dir, old_inode}" "Some k \<noteq> new_inode" for k
        using d(3) [of k] that h(3) o by simp
      ultimately show ?thesis using eq None d(1,2) h(1,2,4) old2 map j(2) assms(10) by (auto simp: st3_def [symmetric])
    qed
  qed
qed

text \<open>
  When the name in the inode cannot be written, renaming over an existing name reports success and has
  renamed nothing: the reserved slot for an orphan is given back and the result is the 0 of the step before.
\<close>
theorem rename_reports_success:
  assumes "dir_layout_ok L" "dir_ok L (inodes st old_dir)" "dir_ok L (inodes st new_dir)" "quiet (E old_dir)" "quiet (E new_dir)"
    and "node_err (E old_inode) = Some e" "\<not> is_dir (inodes st old_inode)" "old_dir \<noteq> new_dir"
    and "old_inode \<notin> {old_dir, new_dir}" "dir_map L (inodes st old_dir) n \<noteq> None" "dir_map L (inodes st new_dir) n' \<noteq> None"
    and "im_ino_num (mgmt st ORPHAN_INO) < ucast max_orphans"
  shows "\<exists>st'. f2fs_rename L E max_orphans old_dir n new_dir n' old_inode (Some i) st = Some (Inr (), st') \<and>
    dir_map L (inodes st' old_dir) = dir_map L (inodes st old_dir) \<and> dir_map L (inodes st' new_dir) = dir_map L (inodes st new_dir)"
proof -
  obtain loc st1 where f: "find_name L E old_dir n st = Some (Some loc, st1)" and o: "\<forall>j. j \<noteq> old_dir \<longrightarrow> inodes st1 j = inodes st j"
    and m: "mgmt st1 = mgmt st" and sp: "same_pages (inodes st old_dir) (inodes st1 old_dir)"
    using find_name_hit [where st = st and dir = old_dir and E = E and n = n, OF assms(1,2,4,10)] by blast
  have "dir_ok L (inodes st1 new_dir)" "dir_map L (inodes st1 new_dir) n' \<noteq> None" using o assms(3,8,11) by simp_all
  then obtain loc' st2 where f2: "find_name L E new_dir n' st1 = Some (Some loc', st2)" and o2: "\<forall>j. j \<noteq> new_dir \<longrightarrow> inodes st2 j = inodes st1 j"
    and m2: "mgmt st2 = mgmt st" and sp2: "same_pages (inodes st1 new_dir) (inodes st2 new_dir)"
    using find_name_hit [where st = st1 and dir = new_dir and E = E and n = n', OF assms(1) _ assms(5)] m by metis
  obtain st3 where a: "acquire_orphan max_orphans st2 = (Inr (), st3)"
    using m2 assms(12) by (simp add: acquire_orphan_def acquire_orphan_inode_def Let_def not_le)
  note in3 = acquire_orphan_frame [OF a]
  have "f2fs_rename L E max_orphans old_dir n new_dir n' old_inode (Some i) st = Some (Inr (), release_orphan st3)"
    using f f2 a assms(6,7,9) o in3 o2 by (auto simp: f2fs_rename_def rename_over_def update_dent_inode_def)
  then show ?thesis
    using in3 o o2 assms(8) same_pages_view(8) [OF sp, where L = L] same_pages_view(8) [OF sp2, where L = L] by auto
qed


section \<open>Exchanging\<close>

text \<open>Changes of the store that leave the directories of \<open>D\<close> as they are, but for their links.\<close>

definition keeps_dirs :: "u32 set \<Rightarrow> names \<Rightarrow> names \<Rightarrow> bool" where
  "keeps_dirs D st st' \<longleftrightarrow> (\<forall>i. i_ino (inodes st' i) = i_ino (inodes st i)) \<and>
     (\<forall>d\<in>D. same_pages (inodes st d) (inodes st' d) \<and> fi (inodes st' d) = fi (inodes st d) \<and> clevel (inodes st' d) = clevel (inodes st d))"

lemma keeps_dirs_trans: "keeps_dirs D st st' \<Longrightarrow> keeps_dirs D st' st'' \<Longrightarrow> keeps_dirs D st st''"
  by (simp add: keeps_dirs_def same_pages_def)

lemma keeps_dirs_view:
  assumes "keeps_dirs D st st'"
  shows "i_ino (inodes st' i) = i_ino (inodes st i)" "d \<in> D \<Longrightarrow> dir_map L (inodes st' d) = dir_map L (inodes st d)"
    "d \<in> D \<Longrightarrow> dir_ok L (inodes st' d) = dir_ok L (inodes st d)" "d \<in> D \<Longrightarrow> dir_ent L (inodes st' d) = dir_ent L (inodes st d)"
proof -
  show "i_ino (inodes st' i) = i_ino (inodes st i)" using assms by (simp add: keeps_dirs_def)
  assume "d \<in> D"
  then have s: "same_pages (inodes st d) (inodes st' d)" "fi (inodes st' d) = fi (inodes st d)" "clevel (inodes st' d) = clevel (inodes st d)"
    using assms by (simp_all add: keeps_dirs_def)
  note v = same_pages_view [OF s(1)]
  show "dir_map L (inodes st' d) = dir_map L (inodes st d)" by (rule v)
  show "dir_ent L (inodes st' d) = dir_ent L (inodes st d)" by (simp add: fun_eq_iff dir_ent_def v)
  have "inline_dents (inodes st' d) = inline_dents (inodes st d)" "d_blocks (inodes st' d) = d_blocks (inodes st d)"
    using s(1) by (simp_all add: same_pages_def)
  then have "depth_ok L (inodes st' d) = depth_ok L (inodes st d)" unfolding depth_ok_def v s by simp
  then show "dir_ok L (inodes st' d) = dir_ok L (inodes st d)" by (simp add: dir_ok_def v s)
qed

lemma set_link_ino [simp]: "i_ino (f2fs_set_link L loc v d) = i_ino d"
  by (simp add: f2fs_set_link_def set_page_def split: option.split)

lemma keeps_dirs_steps:
  "keeps_dirs D st st" "i \<notin> D \<Longrightarrow> keeps_dirs D st (on_inode i file_lost_pino st)" "keeps_dirs D st (change_nlink k dir st)"
  "i \<notin> D \<Longrightarrow> keeps_dirs D st (set_link L loc j i st)"
  by (auto simp: keeps_dirs_def set_link_def file_lost_pino_def change_nlink_def inc_nlink_def drop_nlink_def)

lemma set_link_name:
  assumes "dir_ok L (inodes st dir)" "dir_ent L (inodes st dir) loc n k" "st' = set_link L loc i dir st"
  shows "dir_map L (inodes st' d) = (if d = dir then (dir_map L (inodes st d))(n \<mapsto> i_ino (inodes st i)) else dir_map L (inodes st d))"
    "dir_ok L (inodes st d) \<Longrightarrow> dir_ok L (inodes st' d)" "i_ino (inodes st' d) = i_ino (inodes st d)"
    "dir_ent L (inodes st d) loc' n' k' \<Longrightarrow> \<exists>k''. dir_ent L (inodes st' d) loc' n' k''"
proof -
  have "dir_core L (inodes st dir)" using assms(1) by (simp add: dir_ok_def)
  note s = set_link_spec [OF this assms(2) refl, where v = "inodes st i"]
  show "dir_map L (inodes st' d) = (if d = dir then (dir_map L (inodes st d))(n \<mapsto> i_ino (inodes st i)) else dir_map L (inodes st d))"
    "dir_ok L (inodes st d) \<Longrightarrow> dir_ok L (inodes st' d)" "i_ino (inodes st' d) = i_ino (inodes st d)"
    "dir_ent L (inodes st d) loc' n' k' \<Longrightarrow> \<exists>k''. dir_ent L (inodes st' d) loc' n' k''"
    using s(2,6) by (auto simp: assms(3) set_link_def dest: s(7))
qed

text \<open>The two maps after an exchange; the two directories may be the same one.\<close>

definition exchanged :: "(u32 \<Rightarrow> u8 list \<rightharpoonup> u32) \<Rightarrow> u32 \<Rightarrow> u8 list \<Rightarrow> u32 \<Rightarrow> u8 list \<Rightarrow> u32 \<Rightarrow> u32 \<Rightarrow> u32 \<Rightarrow> u8 list \<rightharpoonup> u32" where
  "exchanged M old_dir n new_dir n' i i' =
     (let M = M(old_dir := (M old_dir)(n \<mapsto> i')) in M(new_dir := (M new_dir)(n' \<mapsto> i)))"

lemma cross_swap_spec:
  assumes "dir_ok L (inodes st old_dir)" "dir_ok L (inodes st new_dir)"
    and "dir_ent L (inodes st old_dir) old_entry n k" "dir_ent L (inodes st new_dir) new_entry n' k'"
    and "old_inode \<notin> {old_dir, new_dir}" "new_inode \<notin> {old_dir, new_dir}"
    and "st' = cross_swap L old_dir old_entry new_dir new_entry old_inode new_inode od nd nl st" "d \<in> {old_dir, new_dir}"
  shows "dir_map L (inodes st' d) =
      exchanged (\<lambda>d. dir_map L (inodes st d)) old_dir n new_dir n' (i_ino (inodes st old_inode)) (i_ino (inodes st new_inode)) d"
    "dir_ok L (inodes st' d)"
proof -
  let ?D = "{old_dir, new_dir}"
  define st1 where "st1 = (case od of Some loc \<Rightarrow> set_link L loc new_dir old_inode st | None \<Rightarrow> st)"
  define st2 where "st2 = (case nd of Some loc \<Rightarrow> set_link L loc old_dir new_inode st1 | None \<Rightarrow> st1)"
  define st3 where "st3 = set_link L old_entry new_inode old_dir st2"
  define st4 where "st4 = change_nlink (fst nl) old_dir (on_inode old_inode file_lost_pino st3)"
  define st5 where "st5 = set_link L new_entry old_inode new_dir st4"
  have st': "st' = change_nlink (snd nl) new_dir (on_inode new_inode file_lost_pino st5)"
    unfolding assms(7) cross_swap_def Let_def st1_def st2_def st3_def st4_def st5_def by (rule refl)
  note steps = keeps_dirs_steps [where D = ?D]
  have "keeps_dirs ?D st st1" unfolding st1_def using assms(5) steps by (auto split: option.split)
  moreover have "keeps_dirs ?D st1 st2" unfolding st2_def using assms(6) steps by (auto split: option.split)
  ultimately have "keeps_dirs ?D st st2" by (rule keeps_dirs_trans)
  note k2 = keeps_dirs_view [OF this]
  have k4: "keeps_dirs ?D st3 st4" unfolding st4_def by (rule keeps_dirs_trans [OF steps(2) [OF assms(5)] steps(3)])
  have k6: "keeps_dirs ?D st5 st'" unfolding st' by (rule keeps_dirs_trans [OF steps(2) [OF assms(6)] steps(3)])
  note k4 = keeps_dirs_view [OF k4] and k6 = keeps_dirs_view [OF k6]
  have "dir_ok L (inodes st2 old_dir)" "dir_ent L (inodes st2 old_dir) old_entry n k" using k2 assms(1,3) by simp_all
  note l3 = set_link_name [OF this st3_def]
  have "dir_ent L (inodes st2 new_dir) new_entry n' k'" using k2 assms(4) by simp
  from l3(4) [OF this] obtain k'' where k'': "dir_ent L (inodes st4 new_dir) new_entry n' k''" using k4(4) by auto
  have ok4: "dir_ok L (inodes st4 e)" if "e \<in> ?D" for e
    using l3(2) [of e] k2(3) [of e] k4(3) [OF that] assms(1,2) that by auto
  then have "dir_ok L (inodes st4 new_dir)" by simp
  note l5 = set_link_name [OF this k'' st5_def]
  show "dir_ok L (inodes st' d)" using k6(3) l5(2) ok4 assms(8) by blast
  have "dir_map L (inodes st' d) = dir_map L (inodes st5 d)" by (rule k6(2) [OF assms(8)])
  moreover have "dir_map L (inodes st4 d) = dir_map L (inodes st3 d)" by (rule k4(2) [OF assms(8)])
  moreover have "dir_map L (inodes st2 d) = dir_map L (inodes st d)" by (rule k2(2) [OF assms(8)])
  moreover have "i_ino (inodes st4 old_inode) = i_ino (inodes st old_inode)" "i_ino (inodes st2 new_inode) = i_ino (inodes st new_inode)"
    by (simp_all add: k2(1) l3(3) k4(1))
  ultimately show "dir_map L (inodes st' d) =
      exchanged (\<lambda>d. dir_map L (inodes st d)) old_dir n new_dir n' (i_ino (inodes st old_inode)) (i_ino (inodes st new_inode)) d"
    using l5(1) [of d] l3(1) [of d] by (auto simp: exchanged_def Let_def)
qed


lemma update_dent_inode_frame:
  "update_dent_inode E i n st = (r, st') \<Longrightarrow> (\<forall>d. d \<noteq> i \<longrightarrow> inodes st' d = inodes st d) \<and> i_ino (inodes st' j) = i_ino (inodes st j)"
  by (auto simp: update_dent_inode_def split: option.splits)

lemma update_dent_inode_ok: "update_dent_inode E i n st = (r, st') \<Longrightarrow> r = Inr () \<longleftrightarrow> node_err (E i) = None"
  by (auto simp: update_dent_inode_def split: option.splits)

text \<open>
  C25: When both directories can be read without errors, exchanging two names of inodes other than these
  directories returns, gives each name the inode of the other and leaves every other name of the two
  directories alone, also when they are one directory; when the operation fails no name is changed. Two
  files that are not directories are exchanged whenever both names are there and the nodes of both files
  can be read.
\<close>
theorem cross_rename_exchanges:
  assumes "dir_layout_ok L" "dir_ok L (inodes st old_dir)" "dir_ok L (inodes st new_dir)" "quiet (E old_dir)" "quiet (E new_dir)"
    and "old_inode \<notin> {old_dir, new_dir}" "new_inode \<notin> {old_dir, new_dir}" "d \<in> {old_dir, new_dir}"
  shows "\<exists>r st'. f2fs_cross_rename L E link_max old_dir n new_dir n' old_inode new_inode st = Some (r, st') \<and> dir_ok L (inodes st' d) \<and>
    dir_map L (inodes st' d) =
      (if r = Inr () then exchanged (\<lambda>d. dir_map L (inodes st d)) old_dir n new_dir n' (i_ino (inodes st old_inode)) (i_ino (inodes st new_inode)) d
       else dir_map L (inodes st d)) \<and>
    (r = Inr () \<longrightarrow> dir_map L (inodes st old_dir) n \<noteq> None \<and> dir_map L (inodes st new_dir) n' \<noteq> None) \<and>
    (dir_map L (inodes st old_dir) n \<noteq> None \<and> dir_map L (inodes st new_dir) n' \<noteq> None \<and> \<not> is_dir (inodes st old_inode) \<and>
      \<not> is_dir (inodes st new_inode) \<and> node_err (E old_inode) = None \<and> node_err (E new_inode) = None \<longrightarrow> r = Inr ())"
proof -
  let ?D = "{old_dir, new_dir}"
  obtain r st1 where f1: "find_name L E old_dir n st = Some (r, st1)" and o1: "\<forall>j. j \<noteq> old_dir \<longrightarrow> inodes st1 j = inodes st j"
    and ok1: "dir_ok L (inodes st1 old_dir)" and sp1: "same_pages (inodes st old_dir) (inodes st1 old_dir)"
    and c1: "case r of Some loc \<Rightarrow> \<exists>i. dir_ent L (inodes st1 old_dir) loc n i \<and> dir_map L (inodes st old_dir) n = Some i
     | None \<Rightarrow> dir_map L (inodes st old_dir) n = None"
    using find_name_spec [where st = st and dir = old_dir and E = E and n = n, OF assms(1,2,4)] by blast
  have s1: "same_pages (inodes st e) (inodes st1 e)" "e \<in> ?D \<Longrightarrow> dir_ok L (inodes st1 e)" for e using o1 sp1 ok1 assms(3) by (cases "e = old_dir"; auto)+
  obtain r' st2 where f2: "find_name L E new_dir n' st1 = Some (r', st2)" and o2: "\<forall>j. j \<noteq> new_dir \<longrightarrow> inodes st2 j = inodes st1 j"
    and ok2: "dir_ok L (inodes st2 new_dir)" and sp2: "same_pages (inodes st1 new_dir) (inodes st2 new_dir)"
    and c2: "case r' of Some loc \<Rightarrow> \<exists>i. dir_ent L (inodes st2 new_dir) loc n' i \<and> dir_map L (inodes st1 new_dir) n' = Some i
     | None \<Rightarrow> dir_map L (inodes st1 new_dir) n' = None"
    using find_name_spec [where st = st1 and dir = new_dir and E = E and n = n', OF assms(1) s1(2) assms(5)] by blast
  have s2: "same_pages (inodes st1 e) (inodes st2 e)" "e \<in> ?D \<Longrightarrow> dir_ok L (inodes st2 e)" for e using o2 sp2 ok2 s1(2) by (cases "e = new_dir"; auto)+
  have map1: "dir_map L (inodes st1 e) = dir_map L (inodes st e)" for e by (rule same_pages_view(8) [OF s1(1)])
  have map2: "dir_map L (inodes st2 e) = dir_map L (inodes st e)" for e using same_pages_view(8) [OF s2(1)] map1 by simp
  show ?thesis
  proof (cases "r = None \<or> r' = None")
    case True
    then have "dir_map L (inodes st old_dir) n = None \<or> dir_map L (inodes st new_dir) n' = None" using c1 c2 map1 by auto
    then show ?thesis using True f1 f2 s1(2) s2(2) map1 map2 assms(8) by (cases r) (auto simp: f2fs_cross_rename_def)
  next
    case False
    then obtain loc loc' where r: "r = Some loc" "r' = Some loc'" by auto
    obtain k where k: "dir_ent L (inodes st1 old_dir) loc n k" "dir_map L (inodes st old_dir) n = Some k" using c1 r by auto
    obtain k' where k': "dir_ent L (inodes st2 new_dir) loc' n' k'" "dir_map L (inodes st new_dir) n' = Some k'" using c2 r map1 by auto
    have k2: "dir_ent L (inodes st2 old_dir) loc n k" using k(1) by (simp add: dir_ent_def same_pages_view [OF s2(1)])
    have fail: ?thesis if "f2fs_cross_rename L E link_max old_dir n new_dir n' old_inode new_inode st = Some (Inl e, st3)"
      "inodes st3 d = inodes st2 d"
      "is_dir (inodes st old_inode) \<or> is_dir (inodes st new_inode) \<or> node_err (E old_inode) \<noteq> None \<or> node_err (E new_inode) \<noteq> None"
      for e st3
      using that s2(2) [OF assms(8)] map2 by auto
    have is2: "is_dir (inodes st2 old_inode) = is_dir (inodes st old_inode)" "is_dir (inodes st2 new_inode) = is_dir (inodes st new_inode)"
      using o1 o2 assms(6,7) by simp_all
    consider e where "cross_parents E old_dir new_dir old_inode new_inode st2 = Inl e" |
      od nd where "cross_parents E old_dir new_dir old_inode new_inode st2 = Inr (od, nd)"
        "0 < fst (cross_nlink od nd) \<and> i_nlink (inodes st2 old_inode) \<ge> link_max \<or> 0 < snd (cross_nlink od nd) \<and> i_nlink (inodes st2 new_inode) \<ge> link_max" |
      od nd where "cross_parents E old_dir new_dir old_inode new_inode st2 = Inr (od, nd)"
        "\<not> (0 < fst (cross_nlink od nd) \<and> i_nlink (inodes st2 old_inode) \<ge> link_max \<or> 0 < snd (cross_nlink od nd) \<and> i_nlink (inodes st2 new_inode) \<ge> link_max)"
      by (metis old.sum.exhaust surj_pair)
    then show ?thesis
    proof cases
      case 1
      then show ?thesis using f1 f2 r is2 by (intro fail [of e st2]) (auto simp: f2fs_cross_rename_def cross_parents_def split: if_splits)
    next
      case 2
      then show ?thesis using f1 f2 r is2
        by (intro fail [of EMLINK st2]) (auto simp: f2fs_cross_rename_def Let_def cross_nlink_def cross_parents_def split: if_splits)
    next
      case 3
      obtain q st3 where u3: "update_dent_inode E old_inode n' st2 = (q, st3)" by fastforce
      obtain q' st4 where u4: "update_dent_inode E new_inode n st3 = (q', st4)" by fastforce
      obtain q'' st5 where u5: "update_dent_inode E old_inode n st4 = (q'', st5)" by fastforce
      note fr = update_dent_inode_frame [OF u3] update_dent_inode_frame [OF u4] update_dent_inode_frame [OF u5]
      have d4: "inodes st3 e = inodes st2 e" "inodes st4 e = inodes st2 e" "inodes st5 e = inodes st2 e" if "e \<in> ?D" for e
        using fr that assms(6,7) by auto
      consider e where "q = Inl e" | e where "q = Inr ()" "q' = Inl e" | "q = Inr ()" "q' = Inr ()" by (metis old.sum.exhaust old.unit.exhaust)
      then show ?thesis
      proof cases
        case (1 e)
        then show ?thesis using f1 f2 r 3 u3 d4 assms(8) update_dent_inode_ok [OF u3]
          by (intro fail [of e st3]) (auto simp: f2fs_cross_rename_def Let_def)
      next
        case (2 e)
        then show ?thesis using f1 f2 r 3 u3 u4 u5 d4 assms(8) update_dent_inode_ok [OF u4]
          by (intro fail [of e st5]) (auto simp: f2fs_cross_rename_def Let_def)
      next
        case q: 3
        define st6 where "st6 = cross_swap L old_dir loc new_dir loc' old_inode new_inode od nd (cross_nlink od nd) st4"
        have res: "f2fs_cross_rename L E link_max old_dir n new_dir n' old_inode new_inode st = Some (Inr (), st6)"
          using f1 f2 r 3 u3 u4 q by (auto simp: f2fs_cross_rename_def Let_def st6_def)
        have "dir_ok L (inodes st4 old_dir)" "dir_ok L (inodes st4 new_dir)" "dir_ent L (inodes st4 old_dir) loc n k" "dir_ent L (inodes st4 new_dir) loc' n' k'"
          using d4 s2(2) k2 k'(1) by simp_all
        note sw = cross_swap_spec [OF this assms(6,7) st6_def assms(8)]
        have "i_ino (inodes st4 i) = i_ino (inodes st i)" if "i \<notin> ?D" for i using fr o1 o2 that by simp
        then have "exchanged (\<lambda>d. dir_map L (inodes st4 d)) old_dir n new_dir n' (i_ino (inodes st4 old_inode)) (i_ino (inodes st4 new_inode)) d =
          exchanged (\<lambda>d. dir_map L (inodes st d)) old_dir n new_dir n' (i_ino (inodes st old_inode)) (i_ino (inodes st new_inode)) d"
          using assms(6,7,8) d4 map2 by (auto simp: exchanged_def Let_def)
        then show ?thesis using res sw k(2) k'(2) by simp
      qed
    qed
  qed
qed


section \<open>Witnesses\<close>

text \<open>The directory 5 with its dots, the directory 6 with the name \<open>a\<close>, and files.\<close>

definition sample_names :: names where
  "sample_names = \<lparr>inodes = (\<lambda>i. if i = 5 then sample_dir else if i = 6 then sample_hole else sample_vnode\<lparr>i_ino := i, i_mode := 0x81A4\<rparr>),
     mgmt = no_inodes,
     nsb = sample_sb\<rparr>"

lemma sample_names_simps:
  "inodes sample_names 5 = sample_dir" "inodes sample_names 6 = sample_hole" "i_ino (inodes sample_names 7) = 7"
  "i_ino (inodes sample_names 8) = 8" "\<not> is_dir (inodes sample_names 7)" "\<not> is_dir (inodes sample_names 8)"
  "im_ino_num (mgmt sample_names t) = 0"
  by (simp_all add: sample_names_def is_dir_def no_inodes_def)

lemma quiet_no_err: "quiet no_err" "env_ok no_err" "node_err no_err = None"
  by (simp_all add: quiet_def env_ok_def no_err_def)

theorem unlink_refines_witness:
  "\<exists>st'. f2fs_unlink small_layout (\<lambda>_. no_err) 4 6 [97] 7 sample_names = Some (Inr (), st') \<and>
    dir_map small_layout (inodes st' 6) = (dir_map small_layout sample_hole)([97] := None)"
  using unlink_refines [where L = small_layout and st = sample_names and dir = 6 and i = 7 and E = "\<lambda>_. no_err" and max_orphans = 4 and n = "[97]"]
  by (auto simp: small_dir_layout sample_names_simps sample_hole_ok quiet_no_err sample_hole_map)

theorem rename_refines_witness:
  "\<exists>st'. f2fs_rename small_layout (\<lambda>_. no_err) 4 6 [97] 5 [46, 46] 7 (Some 8) sample_names = Some (Inr (), st') \<and>
    dir_map small_layout (inodes st' 5) = [[46] \<mapsto> 5, [46, 46] \<mapsto> 7]"
  using rename_refines [where L = small_layout and st = sample_names and old_dir = 6 and new_dir = 5 and old_inode = 7 and new_inode = "Some 8"
      and E = "\<lambda>_. no_err" and max_orphans = 4 and n = "[97]" and n' = "[46, 46]"]
  by (auto simp: small_dir_layout sample_names_simps sample_hole_ok quiet_no_err sample_hole_map sample_dir_facts split: if_splits)

theorem rename_reports_success_witness:
  "\<exists>st'. f2fs_rename small_layout (\<lambda>i. if i = 7 then no_err\<lparr>node_err := Some EIO\<rparr> else no_err) 4 6 [97] 5 [46, 46] 7 (Some 8) sample_names = Some (Inr (), st') \<and>
    dir_map small_layout (inodes st' 5) = [[46] \<mapsto> 5, [46, 46] \<mapsto> 3]"
  using rename_reports_success [where L = small_layout and st = sample_names and old_dir = 6 and new_dir = 5 and old_inode = 7 and i = 8
      and E = "\<lambda>i. if i = 7 then no_err\<lparr>node_err := Some EIO\<rparr> else no_err" and max_orphans = 4 and n = "[97]" and n' = "[46, 46]" and e = EIO]
  by (auto simp: small_dir_layout sample_names_simps sample_hole_ok quiet_no_err sample_hole_map sample_dir_facts)

theorem cross_rename_exchanges_witness:
  "\<exists>st'. f2fs_cross_rename small_layout (\<lambda>_. no_err) 32000 6 [97] 5 [46, 46] 7 8 sample_names = Some (Inr (), st') \<and>
    dir_map small_layout (inodes st' 5) = [[46] \<mapsto> 5, [46, 46] \<mapsto> 7]"
  using cross_rename_exchanges [where L = small_layout and st = sample_names and old_dir = 6 and new_dir = 5 and old_inode = 7 and new_inode = 8
      and E = "\<lambda>_. no_err" and link_max = 32000 and n = "[97]" and n' = "[46, 46]" and d = 5]
  by (auto simp: small_dir_layout sample_names_simps sample_hole_ok quiet_no_err sample_hole_map sample_dir_facts exchanged_def split: if_splits)

end
