(* ===== verification/File_Tree.thy ===== *)
theory File_Tree
  imports Free_Nid Ino_Entry Block_Count Sit Node_Path
begin

text \<open>
  The node blocks of one file (\<open>node.c\<close>): finding and making the node of a block index
  (\<open>get_dnode_of_data\<close>), and freeing nodes when the file is cut (\<open>truncate_inode_blocks\<close>).

  The pages of nodes that have an address are a map from node ids; a node without an address is not in
  it, so that reading it gives \<open>ENOENT\<close> as \<open>read_node_page\<close> does. What else can fail is given by an
  environment. The calls of \<open>f2fs_update_extent_cache\<close> are recorded in order. A node that is freed is out of
  the map, also when the file's block count is 0 already, where the code checks that the node has no
  address. Locks, read-ahead, \<open>xattr_ver\<close> and the copying of the inode into its page are not modelled.
\<close>

section \<open>State\<close>

record node_page =
  n_ofs :: nat                 \<comment> \<open>ofs_of_node\<close>
  n_addr :: "nat \<Rightarrow> u32"       \<comment> \<open>i_addr, addr\<close>
  n_nid :: "nat \<Rightarrow> u32"        \<comment> \<open>i_nid, nid\<close>

record file_state =
  f_ino :: u32
  f_size :: nat
  f_fi :: f2fs_inode_info
  f_nodes :: "u32 \<rightharpoonup> node_page"
  f_inline :: "nat \<Rightarrow> u8"                \<comment> \<open>inline_data_addr of the inode\<close>
  f_sb :: sb_info
  f_nm :: f2fs_nm_info
  f_mgmt :: ino_mgmt
  f_ext :: "(nat \<times> nat \<times> u32) list"   \<comment> \<open>node offset, offset in the node, address\<close>

text \<open>Reading a node, getting a page for a new one, and the memory for free node ids.\<close>

record file_env =
  read_err :: "u32 \<Rightarrow> errno option"
  no_page :: "u32 \<Rightarrow> bool"
  nid_mem :: "f2fs_nm_info \<Rightarrow> bool"

record dnode_of_data =
  dn_nid :: u32
  dn_ofs_in_node :: nat
  dn_blkaddr :: u32

datatype lookup_mode = ALLOC_NODE | LOOKUP_NODE | LOOKUP_NODE_RA

definition put_node :: "u32 \<Rightarrow> node_page \<Rightarrow> file_state \<Rightarrow> file_state" where
  "put_node nid p st = st\<lparr>f_nodes := (f_nodes st)(nid \<mapsto> p)\<rparr>"

definition get_node_page :: "file_env \<Rightarrow> u32 \<Rightarrow> file_state \<Rightarrow> errno + node_page" where
  "get_node_page E nid st =
     (case read_err E nid of
        Some e \<Rightarrow> Inl e
      | None \<Rightarrow> (case f_nodes st nid of None \<Rightarrow> Inl ENOENT | Some p \<Rightarrow> Inr p))"

text \<open>An offset in the inode counts from \<open>NODE_DIR1_BLOCK\<close>.\<close>

definition nid_slot :: "layout \<Rightarrow> nat \<Rightarrow> bool \<Rightarrow> nat" where
  "nid_slot L off i = (if i then off - node_dir1_block L else off)"

definition get_nid :: "layout \<Rightarrow> node_page \<Rightarrow> nat \<Rightarrow> bool \<Rightarrow> u32" where
  "get_nid L p off i = n_nid p (nid_slot L off i)"

definition set_nid :: "layout \<Rightarrow> u32 \<Rightarrow> nat \<Rightarrow> u32 \<Rightarrow> bool \<Rightarrow> file_state \<Rightarrow> file_state" where
  "set_nid L parent off nid i st =
     (case f_nodes st parent of
        None \<Rightarrow> st
      | Some p \<Rightarrow> put_node parent (p\<lparr>n_nid := (n_nid p)(nid_slot L off i := nid)\<rparr>) st)"

definition f2fs_has_inline_data :: "file_state \<Rightarrow> bool" where
  "f2fs_has_inline_data st \<longleftrightarrow> is_inode_flag_set (f_fi st) FI_INLINE_DATA"

section \<open>New nodes\<close>

definition zero_ni :: node_info where
  "zero_ni = \<lparr>ni_nid = 0, ni_ino = 0, ni_blk_addr = 0, ni_version = 0, ni_flag = 0\<rparr>"

definition new_node_page :: "layout \<Rightarrow> geom \<Rightarrow> file_env \<Rightarrow> u32 \<Rightarrow> nat \<Rightarrow> file_state \<Rightarrow> (errno + unit) \<times> file_state" where
  "new_node_page L g E nid ofs st =
     (if is_inode_flag_set (f_fi st) FI_NO_ALLOC then (Inl EPERM, st)
      else if no_page E nid then (Inl ENOMEM, st)
      else case inc_valid_node_count g (f_sb st, Some (f_fi st)) of
             (True, s, Some fi) \<Rightarrow>
               let (old_ni, nm) = get_node_info L g nid zero_ni (f_nm st);
                   s = f2fs_bug_on (ni_blk_addr old_ni \<noteq> null_addr L) s;
                   nm = set_node_addr L (old_ni\<lparr>ni_ino := f_ino st\<rparr>) (new_addr L) False nm;
                   fi = (if f2fs_has_xattr_block L (of_nat ofs) then fi\<lparr>i_xattr_nid := nid\<rparr> else fi);
                   s = (if ofs = 0 then inc_valid_inode_count g s else s)
               in (Inr (), put_node nid \<lparr>n_ofs = ofs, n_addr = (\<lambda>_. 0), n_nid = (\<lambda>_. 0)\<rparr> (st\<lparr>f_sb := s, f_fi := fi, f_nm := nm\<rparr>))
           | _ \<Rightarrow> (Inl ENOSPC, st))"

definition new_inode_page :: "layout \<Rightarrow> geom \<Rightarrow> file_env \<Rightarrow> file_state \<Rightarrow> (errno + unit) \<times> file_state" where
  "new_inode_page L g E st = new_node_page L g E (f_ino st) 0 st"

section \<open>The node of a block index\<close>

text \<open>
  The step to the child at an offset of the node \<open>parent\<close>: made when it is missing and the mode is to
  allocate. The outer option is an allocation of a node id that does not return.
\<close>

definition alloc_node ::
    "layout \<Rightarrow> geom \<Rightarrow> file_env \<Rightarrow> u32 \<Rightarrow> nat \<Rightarrow> bool \<Rightarrow> nat \<Rightarrow> file_state \<Rightarrow> ((errno + u32) \<times> file_state) option" where
  "alloc_node L g E parent off i noffset st =
     (case alloc_nid L g (nid_mem E) (total_valid_node_count (f_sb st)) (f_nm st) of
        None \<Rightarrow> None
      | Some (None, nm) \<Rightarrow> Some (Inl ENOSPC, st\<lparr>f_nm := nm\<rparr>)
      | Some (Some nid, nm) \<Rightarrow>
          (case new_node_page L g E nid noffset (st\<lparr>f_nm := nm\<rparr>) of
             (Inl e, st) \<Rightarrow> Some (Inl e, st\<lparr>f_nm := alloc_nid_failed (nid_mem E) nid (f_nm st)\<rparr>)
           | (Inr _, st) \<Rightarrow>
               let st = set_nid L parent off nid i st
               in Some (Inr nid, st\<lparr>f_nm := alloc_nid_done nid (f_nm st)\<rparr>)))"

text \<open>The walk along the offsets; the flag says that the node \<open>nid\<close> is the inode.\<close>

fun walk_nodes ::
    "layout \<Rightarrow> geom \<Rightarrow> file_env \<Rightarrow> lookup_mode \<Rightarrow> bool \<Rightarrow> u32 \<Rightarrow> node_page \<Rightarrow> nat list \<Rightarrow> nat list \<Rightarrow> file_state \<Rightarrow>
      ((errno + u32) \<times> file_state) option" where
  "walk_nodes L g E mode i nid p (off # off' # offs) (noffset # noffsets) st =
     (let child = get_nid L p off i
      in if child = 0 \<and> mode = ALLOC_NODE
         then (case alloc_node L g E nid off i noffset st of
                 None \<Rightarrow> None
               | Some (Inl e, st) \<Rightarrow> Some (Inl e, st)
               | Some (Inr child, st) \<Rightarrow>
                   (case f_nodes st child of
                      None \<Rightarrow> Some (Inl ENOENT, st)
                    | Some q \<Rightarrow> walk_nodes L g E mode False child q (off' # offs) noffsets st))
         else if child = 0 \<and> mode = LOOKUP_NODE_RA \<and> offs = [] \<and> \<not> i then Some (Inl ENOENT, st)
         else (case get_node_page E child st of
                 Inl e \<Rightarrow> Some (Inl e, st)
               | Inr q \<Rightarrow> walk_nodes L g E mode False child q (off' # offs) noffsets st))"
| "walk_nodes L g E mode i nid p _ _ st = Some (Inr nid, st)"

text \<open>The outer option is also the \<open>BUG()\<close> of \<open>get_node_path\<close>, for an index behind the largest file.\<close>

definition get_dnode_of_data ::
    "layout \<Rightarrow> geom \<Rightarrow> file_env \<Rightarrow> nat \<Rightarrow> lookup_mode \<Rightarrow> file_state \<Rightarrow> ((errno + dnode_of_data) \<times> file_state) option" where
  "get_dnode_of_data L g E index mode st =
     (case get_node_path L (f_fi st) index of
        None \<Rightarrow> None
      | Some (level, offset, noffset) \<Rightarrow>
          (case get_node_page E (f_ino st) st of
             Inl e \<Rightarrow> Some (Inl e, st)
           | Inr p \<Rightarrow>
               if f2fs_has_inline_data st \<and> index \<noteq> 0 then Some (Inl ENOENT, st)
               else (case walk_nodes L g E mode True (f_ino st) p offset (tl noffset) st of
                       None \<Rightarrow> None
                     | Some (Inl e, st) \<Rightarrow> Some (Inl e, st)
                     | Some (Inr nid, st) \<Rightarrow>
                         Some (Inr \<lparr>dn_nid = nid, dn_ofs_in_node = last offset,
                           dn_blkaddr = (case f_nodes st nid of None \<Rightarrow> null_addr L | Some p \<Rightarrow> n_addr p (last offset))\<rparr>, st))))"

section \<open>Data blocks\<close>

definition set_data_blkaddr :: "u32 \<Rightarrow> nat \<Rightarrow> u32 \<Rightarrow> file_state \<Rightarrow> file_state" where
  "set_data_blkaddr nid ofs addr st =
     (case f_nodes st nid of
        None \<Rightarrow> st
      | Some p \<Rightarrow> put_node nid (p\<lparr>n_addr := (n_addr p)(ofs := addr)\<rparr>) st)"

definition update_extent :: "u32 \<Rightarrow> nat \<Rightarrow> u32 \<Rightarrow> file_state \<Rightarrow> file_state" where
  "update_extent nid ofs addr st =
     (case f_nodes st nid of None \<Rightarrow> st | Some p \<Rightarrow> st\<lparr>f_ext := f_ext st @ [(n_ofs p, ofs, addr)]\<rparr>)"

definition reserve_new_block :: "layout \<Rightarrow> geom \<Rightarrow> dnode_of_data \<Rightarrow> file_state \<Rightarrow> (errno + unit) \<times> file_state" where
  "reserve_new_block L g dn st =
     (if is_inode_flag_set (f_fi st) FI_NO_ALLOC then (Inl EPERM, st)
      else case inc_valid_block_count g 1 (f_sb st, f_fi st) of
             (False, _) \<Rightarrow> (Inl ENOSPC, st)
           | (True, s, fi) \<Rightarrow>
               (Inr (), set_data_blkaddr (dn_nid dn) (dn_ofs_in_node dn) (new_addr L) (st\<lparr>f_sb := s, f_fi := fi\<rparr>)))"

definition f2fs_reserve_block :: "layout \<Rightarrow> geom \<Rightarrow> file_env \<Rightarrow> nat \<Rightarrow> file_state \<Rightarrow> ((errno + unit) \<times> file_state) option" where
  "f2fs_reserve_block L g E index st =
     (case get_dnode_of_data L g E index ALLOC_NODE st of
        None \<Rightarrow> None
      | Some (Inl e, st) \<Rightarrow> Some (Inl e, st)
      | Some (Inr dn, st) \<Rightarrow>
          Some (if dn_blkaddr dn = null_addr L then reserve_new_block L g dn st else (Inr (), st)))"

text \<open>One round of \<open>truncate_data_blocks_range\<close>, and the number of blocks freed so far.\<close>

definition free_data_block :: "layout \<Rightarrow> geom \<Rightarrow> u32 \<Rightarrow> nat \<Rightarrow> nat \<times> file_state \<Rightarrow> nat \<times> file_state" where
  "free_data_block L g nid ofs w =
     (case w of (nr_free, st) \<Rightarrow>
        let blkaddr = (case f_nodes st nid of None \<Rightarrow> null_addr L | Some p \<Rightarrow> n_addr p ofs)
        in if blkaddr = null_addr L then (nr_free, st)
           else let st = update_extent nid ofs (null_addr L) (set_data_blkaddr nid ofs (null_addr L) st);
                    st = st\<lparr>f_sb := invalidate_blocks L g blkaddr (f_sb st)\<rparr>;
                    st = (if ofs = 0 \<and> nid = f_ino st
                          then st\<lparr>f_fi := clear_inode_flag (f_fi st) FI_FIRST_BLOCK_WRITTEN\<rparr> else st)
                in (nr_free + 1, st))"

definition truncate_data_blocks_range :: "layout \<Rightarrow> geom \<Rightarrow> u32 \<Rightarrow> nat \<Rightarrow> nat \<Rightarrow> file_state \<Rightarrow> nat \<times> file_state" where
  "truncate_data_blocks_range L g nid ofs count st =
     (let (nr_free, st) = fold (free_data_block L g nid) [ofs..<ofs + count] (0, st)
      in if nr_free \<noteq> 0
         then (case dec_valid_block_count (of_nat nr_free) (f_sb st, f_fi st) of
                 (s, fi) \<Rightarrow> (nr_free, st\<lparr>f_sb := s, f_fi := fi\<rparr>))
         else (nr_free, st))"

definition truncate_data_blocks :: "layout \<Rightarrow> geom \<Rightarrow> u32 \<Rightarrow> file_state \<Rightarrow> file_state" where
  "truncate_data_blocks L g nid st = snd (truncate_data_blocks_range L g nid 0 (addrs_per_block L) st)"

section \<open>Freeing nodes\<close>

definition truncate_node :: "layout \<Rightarrow> geom \<Rightarrow> u32 \<Rightarrow> file_state \<Rightarrow> file_state" where
  "truncate_node L g nid st =
     (let (ni, nm) = get_node_info L g nid zero_ni (f_nm st);
          st = st\<lparr>f_nm := nm\<rparr>;
          st = (if i_blocks (f_fi st) = 0
                then st\<lparr>f_sb := f2fs_bug_on (ni_blk_addr ni \<noteq> null_addr L) (f_sb st)\<rparr>
                else let s = f2fs_bug_on (ni_blk_addr ni = null_addr L) (f_sb st);
                         s = invalidate_blocks L g (ni_blk_addr ni) s;
                         (s, fi) = dec_valid_node_count (s, f_fi st);
                         st = st\<lparr>f_sb := s, f_fi := fi, f_nm := set_node_addr L ni (null_addr L) False (f_nm st)\<rparr>
                     in if nid = f_ino st
                        then st\<lparr>f_mgmt := remove_orphan_inode nid (f_mgmt st), f_sb := dec_valid_inode_count (f_sb st)\<rparr>
                        else st)
      in st\<lparr>f_sb := set_sbi_flag SBI_IS_DIRTY (f_sb st), f_nodes := (f_nodes st)(nid := None)\<rparr>)"

text \<open>The result of a truncation is an error or a number of node offsets passed over.\<close>

definition truncate_dnode :: "layout \<Rightarrow> geom \<Rightarrow> file_env \<Rightarrow> u32 \<Rightarrow> file_state \<Rightarrow> (errno + nat) \<times> file_state" where
  "truncate_dnode L g E nid st =
     (if nid = 0 then (Inr 1, st)
      else case get_node_page E nid st of
             Inl e \<Rightarrow> (if e = ENOENT then Inr 1 else Inl e, st)
           | Inr _ \<Rightarrow> (Inr 1, truncate_node L g nid (truncate_data_blocks L g nid st)))"

text \<open>The direct nodes below the indirect node \<open>nid\<close>, with the entries cleared.\<close>

fun truncate_children :: "layout \<Rightarrow> geom \<Rightarrow> file_env \<Rightarrow> u32 \<Rightarrow> nat list \<Rightarrow> file_state \<Rightarrow> (errno + unit) \<times> file_state" where
  "truncate_children L g E nid [] st = (Inr (), st)"
| "truncate_children L g E nid (i # is) st =
     (let child_nid = (case f_nodes st nid of None \<Rightarrow> 0 | Some rn \<Rightarrow> n_nid rn i)
      in if child_nid = 0 then truncate_children L g E nid is st
         else case truncate_dnode L g E child_nid st of
                (Inl e, st) \<Rightarrow> (Inl e, st)
              | (Inr _, st) \<Rightarrow> truncate_children L g E nid is (set_nid L nid i 0 False st))"

definition truncate_nodes_2 :: "layout \<Rightarrow> geom \<Rightarrow> file_env \<Rightarrow> u32 \<Rightarrow> nat \<Rightarrow> file_state \<Rightarrow> (errno + nat) \<times> file_state" where
  "truncate_nodes_2 L g E nid ofs st =
     (if nid = 0 then (Inr (nids_per_block L + 1), st)
      else case get_node_page E nid st of
             Inl e \<Rightarrow> (Inl e, st)
           | Inr _ \<Rightarrow>
               (case truncate_children L g E nid [ofs..<nids_per_block L] st of
                  (Inl e, st) \<Rightarrow> (Inl e, st)
                | (Inr _, st) \<Rightarrow>
                    let freed = nids_per_block L - ofs
                    in if ofs = 0 then (Inr (freed + 1), truncate_node L g nid st) else (Inr freed, st)))"

text \<open>The indirect nodes below the double indirect node, with the running node offset.\<close>

fun truncate_subtrees ::
    "layout \<Rightarrow> geom \<Rightarrow> file_env \<Rightarrow> u32 \<Rightarrow> nat list \<Rightarrow> nat \<Rightarrow> file_state \<Rightarrow> (errno + nat) \<times> file_state" where
  "truncate_subtrees L g E nid [] child_nofs st = (Inr child_nofs, st)"
| "truncate_subtrees L g E nid (i # is) child_nofs st =
     (let child_nid = (case f_nodes st nid of None \<Rightarrow> 0 | Some rn \<Rightarrow> n_nid rn i)
      in if child_nid = 0 then truncate_subtrees L g E nid is (child_nofs + nids_per_block L + 1) st
         else case truncate_nodes_2 L g E child_nid 0 st of
                (Inr ret, st) \<Rightarrow>
                  if ret = nids_per_block L + 1
                  then truncate_subtrees L g E nid is (child_nofs + ret) (set_nid L nid i 0 False st)
                  else truncate_subtrees L g E nid is child_nofs st
              | (Inl e, st) \<Rightarrow>
                  if e \<noteq> ENOENT then (Inl e, st) else truncate_subtrees L g E nid is child_nofs st)"

definition truncate_nodes ::
    "layout \<Rightarrow> geom \<Rightarrow> file_env \<Rightarrow> u32 \<Rightarrow> nat \<Rightarrow> nat \<Rightarrow> nat \<Rightarrow> file_state \<Rightarrow> (errno + nat) \<times> file_state" where
  "truncate_nodes L g E nid nofs ofs depth st =
     (if depth < 3 then truncate_nodes_2 L g E nid ofs st
      else if nid = 0 then (Inr (nids_per_block L + 1), st)
      else case get_node_page E nid st of
             Inl e \<Rightarrow> (Inl e, st)
           | Inr _ \<Rightarrow>
               (case truncate_subtrees L g E nid [ofs..<nids_per_block L] (nofs + ofs * (nids_per_block L + 1) + 1) st of
                  (Inl e, st) \<Rightarrow> (Inl e, st)
                | (Inr freed, st) \<Rightarrow>
                    if ofs = 0 then (Inr (freed + 1), truncate_node L g nid st) else (Inr freed, st)))"


text \<open>
  The children of the lowest indirect node on the path, from the offset on. Then the offset above is
  raised and the lower one reset; on an error both stay. The list is the array \<open>nid\<close>.
\<close>

fun path_nids :: "layout \<Rightarrow> file_env \<Rightarrow> u32 \<Rightarrow> nat list \<Rightarrow> file_state \<Rightarrow> errno + u32 list" where
  "path_nids L E nid [] st = Inr [nid]"
| "path_nids L E nid (off # offs) st =
     (case get_node_page E nid st of
        Inl e \<Rightarrow> Inl e
      | Inr p \<Rightarrow> (case path_nids L E (get_nid L p off False) offs st of Inl e \<Rightarrow> Inl e | Inr ns \<Rightarrow> Inr (nid # ns)))"

definition truncate_partial_nodes ::
    "layout \<Rightarrow> geom \<Rightarrow> file_env \<Rightarrow> node_page \<Rightarrow> nat list \<Rightarrow> nat \<Rightarrow> file_state \<Rightarrow> (errno + unit) \<times> nat list \<times> file_state" where
  "truncate_partial_nodes L g E ri offset depth st =
     (let idx = depth - 2;
          nid0 = get_nid L ri (offset ! 0) True
      in if nid0 = 0 then (Inr (), offset, st)
         else case path_nids L E nid0 (take (idx + 1) (tl offset)) st of
                Inl e \<Rightarrow> (Inl e, offset, st)
              | Inr nid \<Rightarrow>
                  (case truncate_children L g E (nid ! idx) [offset ! (idx + 1)..<nids_per_block L] st of
                     (Inl e, st) \<Rightarrow> (Inl e, offset, st)
                   | (Inr _, st) \<Rightarrow>
                       let st = (if offset ! (idx + 1) = 0 then truncate_node L g (nid ! idx) st else st)
                       in (Inr (), offset[idx := offset ! idx + 1, idx + 1 := 0], st)))"

text \<open>
  The nodes the inode points to, from \<open>offset[0]\<close> on; the first one from \<open>offset[1]\<close>. \<open>None\<close> is
  \<open>BUG()\<close>. The number of \<open>ENOENT\<close> is 2.
\<close>

definition truncate_top :: "layout \<Rightarrow> geom \<Rightarrow> file_env \<Rightarrow> nat \<Rightarrow> nat \<Rightarrow> nat \<Rightarrow> file_state \<Rightarrow> ((errno + nat) \<times> file_state) option" where
  "truncate_top L g E offset0 offset1 nofs st =
     (let nid = (case f_nodes st (f_ino st) of None \<Rightarrow> 0 | Some ri \<Rightarrow> get_nid L ri offset0 True)
      in if offset0 = node_dir1_block L \<or> offset0 = node_dir2_block L then Some (truncate_dnode L g E nid st)
         else if offset0 = node_ind1_block L \<or> offset0 = node_ind2_block L then Some (truncate_nodes L g E nid nofs offset1 2 st)
         else if offset0 = node_dind_block L then Some (truncate_nodes L g E nid nofs offset1 3 st)
         else None)"

definition clear_top :: "layout \<Rightarrow> nat \<Rightarrow> file_state \<Rightarrow> file_state" where
  "clear_top L offset0 st =
     (case f_nodes st (f_ino st) of
        None \<Rightarrow> st
      | Some ri \<Rightarrow> if get_nid L ri offset0 True \<noteq> 0 then set_nid L (f_ino st) offset0 0 True st else st)"

function truncate_tops :: "layout \<Rightarrow> geom \<Rightarrow> file_env \<Rightarrow> nat \<Rightarrow> nat \<Rightarrow> nat \<Rightarrow> file_state \<Rightarrow> ((errno + unit) \<times> file_state) option" where
  "truncate_tops L g E offset0 offset1 nofs st =
     (case truncate_top L g E offset0 offset1 nofs st of
        None \<Rightarrow> None
      | Some (r, st) \<Rightarrow>
          if (case r of Inl e \<Rightarrow> e \<noteq> ENOENT | Inr _ \<Rightarrow> False) then Some (map_sum id (\<lambda>_. ()) r, st)
          else let st = (if offset1 = 0 then clear_top L offset0 st else st)
               in if offset0 \<ge> node_dind_block L then Some (map_sum id (\<lambda>_. ()) r, st)
                  else truncate_tops L g E (offset0 + 1) 0 (case r of Inr n \<Rightarrow> nofs + n | Inl _ \<Rightarrow> nofs - 2) st)"
  by pat_completeness auto
termination
  by (relation "measure (\<lambda>(L, g, E, offset0, offset1, nofs, st). node_dind_block L - offset0)") auto

text \<open>
  An index inside the inode is not for this function: \<open>offset[1]\<close> and \<open>noffset[1]\<close> are not set then
  (\<open>None\<close>); \<open>truncate_blocks\<close> passes the first index behind it.
\<close>

definition truncate_inode_blocks :: "layout \<Rightarrow> geom \<Rightarrow> file_env \<Rightarrow> nat \<Rightarrow> file_state \<Rightarrow> ((errno + unit) \<times> file_state) option" where
  "truncate_inode_blocks L g E from st =
     (case get_node_path L (f_fi st) from of
        None \<Rightarrow> None
      | Some (level, offset, noffset) \<Rightarrow>
          (case get_node_page E (f_ino st) st of
             Inl e \<Rightarrow> Some (Inl e, st)
           | Inr ri \<Rightarrow>
               if level = 0 then None
               else let nofs = (if level = 3 then 5 + 2 * nids_per_block L else noffset ! 1);
                        (r, offset', st) = (if level = 1 \<or> offset ! (level - 1) = 0 then (Inr (), offset, st)
                                            else truncate_partial_nodes L g E ri offset level st);
                        nofs = (if level = 2 \<and> offset ! (level - 1) \<noteq> 0 then nofs + 1 + nids_per_block L else nofs)
                    in case r of
                         Inl e \<Rightarrow> if e \<noteq> ENOENT then Some (Inl e, st)
                                  else truncate_tops L g E (offset' ! 0) (offset' ! 1) nofs st
                       | Inr _ \<Rightarrow> truncate_tops L g E (offset' ! 0) (offset' ! 1) nofs st))"

definition free_xattr_node :: "layout \<Rightarrow> geom \<Rightarrow> file_env \<Rightarrow> file_state \<Rightarrow> (errno + unit) \<times> file_state" where
  "free_xattr_node L g E st =
     (let nid = i_xattr_nid (f_fi st)
      in if nid = 0 then (Inr (), st)
         else case get_node_page E nid st of
                Inl e \<Rightarrow> (Inl e, st)
              | Inr _ \<Rightarrow> (Inr (), truncate_node L g nid (st\<lparr>f_fi := (f_fi st)\<lparr>i_xattr_nid := 0\<rparr>\<rparr>)))"

text \<open>The inode itself, when the last link is gone; \<open>link\<close> says that it is a symbolic link.\<close>

definition remove_inode_page :: "layout \<Rightarrow> geom \<Rightarrow> file_env \<Rightarrow> bool \<Rightarrow> file_state \<Rightarrow> file_state option" where
  "remove_inode_page L g E link st =
     (case get_dnode_of_data L g E 0 LOOKUP_NODE st of
        None \<Rightarrow> None
      | Some (Inl _, st) \<Rightarrow> Some st
      | Some (Inr dn, st) \<Rightarrow>
          (case free_xattr_node L g E st of
             (Inl _, st) \<Rightarrow> Some st
           | (Inr _, st) \<Rightarrow>
               let st = (if i_mode_reg (f_fi st) \<or> i_mode_dir (f_fi st) \<or> link
                         then snd (truncate_data_blocks_range L g (dn_nid dn) (dn_ofs_in_node dn) 1 st) else st);
                   st = st\<lparr>f_sb := f2fs_bug_on (i_blocks (f_fi st) \<noteq> 0 \<and> i_blocks (f_fi st) \<noteq> 1) (f_sb st)\<rparr>
               in Some (truncate_node L g (f_ino st) st)))"

end
