(* ===== verification/File_Cut.thy ===== *)
theory File_Cut
  imports File_Tree "HOL-Library.Sublist"
begin

text \<open>
  The tree of nodes below an inode and its invariant, and what the functions that free nodes do to it:
  they remove the nodes at a set of positions, all of them or, after an error, some, and nothing else.
\<close>

section \<open>Positions\<close>

text \<open>
  A node is named by the offsets on the way to it, the first one counted from \<open>NODE_DIR1_BLOCK\<close>: two
  direct nodes, two indirect ones and a double indirect one below the inode.
\<close>

fun nid_at :: "(u32 \<rightharpoonup> node_page) \<Rightarrow> u32 \<Rightarrow> nat list \<Rightarrow> u32" where
  "nid_at N i [] = i"
| "nid_at N i (o' # os) = (case N i of None \<Rightarrow> 0 | Some p \<Rightarrow> if n_nid p o' = 0 then 0 else nid_at N (n_nid p o') os)"

definition node_pos :: "layout \<Rightarrow> nat list \<Rightarrow> bool" where
  "node_pos L q \<longleftrightarrow> q = [] \<or> (\<exists>h<5. q = [h]) \<or> (\<exists>h i. h \<in> {2, 3, 4} \<and> i < nids_per_block L \<and> q = [h, i]) \<or>
     (\<exists>i j. i < nids_per_block L \<and> j < nids_per_block L \<and> q = [4, i, j])"

definition tree_ok :: "layout \<Rightarrow> u32 \<Rightarrow> (u32 \<rightharpoonup> node_page) \<Rightarrow> bool" where
  "tree_ok L ino N \<longleftrightarrow> ino \<noteq> 0 \<and> N 0 = None \<and> N ino \<noteq> None \<and>
     (\<forall>q. node_pos L q \<longrightarrow> nid_at N ino q \<noteq> 0 \<longrightarrow> N (nid_at N ino q) \<noteq> None) \<and>
     (\<forall>q r. node_pos L q \<longrightarrow> node_pos L r \<longrightarrow> nid_at N ino q = nid_at N ino r \<longrightarrow> nid_at N ino q \<noteq> 0 \<longrightarrow> q = r)"

lemma tree_okD:
  assumes "tree_ok L ino N"
  shows "ino \<noteq> 0" "N 0 = None" "\<exists>p. N ino = Some p"
    "node_pos L q \<Longrightarrow> nid_at N ino q \<noteq> 0 \<Longrightarrow> \<exists>p. N (nid_at N ino q) = Some p"
    "node_pos L q \<Longrightarrow> node_pos L r \<Longrightarrow> nid_at N ino q = nid_at N ino r \<Longrightarrow> nid_at N ino q \<noteq> 0 \<Longrightarrow> q = r"
  using assms unfolding tree_ok_def by blast+

lemma node_pos_prefix: "node_pos L (q @ r) \<Longrightarrow> node_pos L q"
  unfolding node_pos_def by (cases q rule: rev_cases; cases r) (auto simp: Cons_eq_append_conv append_eq_Cons_conv)

lemma nid_at_append:
  "i \<noteq> 0 \<Longrightarrow> N 0 = None \<Longrightarrow> nid_at N i (q @ r) = (if nid_at N i q = 0 then 0 else nid_at N (nid_at N i q) r)"
  by (induction q arbitrary: i) (auto split: option.splits)

lemma nid_at_snoc:
  "i \<noteq> 0 \<Longrightarrow> N 0 = None \<Longrightarrow> nid_at N i (q @ [k]) = (case N (nid_at N i q) of None \<Rightarrow> 0 | Some p \<Rightarrow> n_nid p k)"
  by (subst nid_at_append) (auto split: option.splits)

declare nid_at.simps(2) [simp del]

section \<open>Removing nodes\<close>

text \<open>
  \<open>N'\<close> is \<open>N\<close> without the nodes at the positions \<open>X\<close>: they are not reachable any more and their pages
  are gone, and no other page is gone or has other data addresses.
\<close>

definition kills :: "layout \<Rightarrow> u32 \<Rightarrow> (nat list \<Rightarrow> bool) \<Rightarrow> (u32 \<rightharpoonup> node_page) \<Rightarrow> (u32 \<rightharpoonup> node_page) \<Rightarrow> bool" where
  "kills L ino X N N' \<longleftrightarrow>
     (\<forall>q. node_pos L q \<longrightarrow> nid_at N' ino q = (if X q then 0 else nid_at N ino q)) \<and>
     (\<forall>n. N' n = None \<longleftrightarrow> N n = None \<or> (\<exists>q. node_pos L q \<and> X q \<and> nid_at N ino q = n)) \<and>
     (\<forall>n p'. N' n = Some p' \<longrightarrow> (\<exists>p. N n = Some p \<and> n_addr p' = n_addr p \<and> n_ofs p' = n_ofs p))"

lemma killsD:
  assumes "kills L ino X N N'"
  shows "node_pos L q \<Longrightarrow> nid_at N' ino q = (if X q then 0 else nid_at N ino q)"
    "N' n = None \<longleftrightarrow> N n = None \<or> (\<exists>q. node_pos L q \<and> X q \<and> nid_at N ino q = n)"
    "N' n = Some p' \<Longrightarrow> \<exists>p. N n = Some p \<and> n_addr p' = n_addr p \<and> n_ofs p' = n_ofs p"
  using assms [unfolded kills_def] by simp_all

lemma node_pos_Nil [simp]: "node_pos L []" by (simp add: node_pos_def)

lemma kills_tree_ok:
  assumes "kills L ino X N N'" "tree_ok L ino N" "\<not> X []"
  shows "tree_ok L ino N'"
proof -
  note k = killsD [OF assms(1)] and t = tree_okD [OF assms(2)]
  have keep: "N' (nid_at N ino q) \<noteq> None" if q: "node_pos L q" "nid_at N ino q \<noteq> 0" "\<not> X q" for q
  proof
    assume "N' (nid_at N ino q) = None"
    then obtain r where "node_pos L r" "X r" "nid_at N ino r = nid_at N ino q" using k(2) t(4) [OF q(1,2)] by auto
    then show False using t(5) [of r q] q by simp
  qed
  have ino: "N' ino \<noteq> None" using keep [of "[]"] assms(3) t(1) by simp
  have "N' 0 = None" using k(2) t(2) by blast
  moreover have "N' (nid_at N' ino q) \<noteq> None" if "node_pos L q" "nid_at N' ino q \<noteq> 0" for q
    using keep [of q] k(1) [OF that(1)] that by (auto split: if_splits)
  moreover have "q = r" if "node_pos L q" "node_pos L r" "nid_at N' ino q = nid_at N' ino r" "nid_at N' ino q \<noteq> 0" for q r
    using t(5) [OF that(1,2)] k(1) [OF that(1)] k(1) [OF that(2)] that(3,4) by (auto split: if_splits)
  ultimately show ?thesis using t(1) ino unfolding tree_ok_def by blast
qed

lemma kills_refl: "(\<And>q. node_pos L q \<Longrightarrow> X q \<Longrightarrow> nid_at N ino q = 0) \<Longrightarrow> N 0 = None \<Longrightarrow> kills L ino X N N"
  by (auto simp: kills_def)

lemma kills_trans:
  assumes "kills L ino X N N'" "kills L ino Y N' N''" "N 0 = None"
  shows "kills L ino (\<lambda>q. X q \<or> Y q) N N''"
proof -
  note a = assms(1) [unfolded kills_def] and b = assms(2) [unfolded kills_def]
  show ?thesis unfolding kills_def
  proof (intro conjI allI impI)
    fix q assume "node_pos L q"
    then show "nid_at N'' ino q = (if X q \<or> Y q then 0 else nid_at N ino q)" using a b by simp
  next
    fix n
    show "N'' n = None \<longleftrightarrow> N n = None \<or> (\<exists>q. node_pos L q \<and> (X q \<or> Y q) \<and> nid_at N ino q = n)"
      using a b assms(3) by metis
  next
    fix n p' assume "N'' n = Some p'"
    then show "\<exists>p. N n = Some p \<and> n_addr p' = n_addr p \<and> n_ofs p' = n_ofs p" using a b by metis
  qed
qed


text \<open>Freeing the node at a position without children, with the entry in its parent cleared.\<close>

definition prune :: "u32 \<Rightarrow> nat \<Rightarrow> (u32 \<rightharpoonup> node_page) \<Rightarrow> u32 \<rightharpoonup> node_page" where
  "prune par o' N = (case N par of None \<Rightarrow> N | Some p \<Rightarrow> (N(n_nid p o' := None))(par \<mapsto> p\<lparr>n_nid := (n_nid p)(o' := 0)\<rparr>))"

lemma prefix_snoc_cases: "prefix (q @ [k]) (r @ [l]) \<longleftrightarrow> r = q \<and> l = k \<or> prefix (q @ [k]) r"
  by auto

lemma kills_prune:
  assumes "tree_ok L ino N" "node_pos L (q @ [k])" "nid_at N ino (q @ [k]) \<noteq> 0"
    and "\<And>r. node_pos L r \<Longrightarrow> strict_prefix (q @ [k]) r \<Longrightarrow> nid_at N ino r = 0"
  shows "kills L ino (prefix (q @ [k])) N (prune (nid_at N ino q) k N)"
proof -
  define M where "M = prune (nid_at N ino q) k N"
  note t = tree_okD [OF assms(1)]
  have qp: "node_pos L q" using assms(2) by (rule node_pos_prefix)
  have q0: "nid_at N ino q \<noteq> 0" using assms(3) t(1,2) by (auto simp: nid_at_append split: if_splits)
  obtain p where p: "N (nid_at N ino q) = Some p" using t(4) [OF qp q0] by blast
  define c where "c = nid_at N ino (q @ [k])"
  have c: "c = n_nid p k" using p t(1,2) by (simp add: c_def nid_at_snoc)
  have cq: "c \<noteq> nid_at N ino q" using t(5) [OF assms(2) qp] assms(3) by (auto simp: c_def)
  have N': "M n = (if n = nid_at N ino q then Some (p\<lparr>n_nid := (n_nid p)(k := 0)\<rparr>) else if n = c then None else N n)" for n
    using p cq by (simp add: M_def prune_def c)
  have z: "M 0 = None" using t(2) q0 by (simp add: N')
  have at: "nid_at M ino r = (if prefix (q @ [k]) r then 0 else nid_at N ino r)" if "node_pos L r" for r
    using that
  proof (induction r rule: rev_induct)
    case (snoc l r)
    have rp: "node_pos L r" using snoc.prems by (rule node_pos_prefix)
    note IH = snoc.IH [OF rp]
    note ns = nid_at_snoc [where N = M, OF t(1) z, of r l] nid_at_snoc [where N = N, OF t(1,2), of r l]
    show ?case
    proof (cases "prefix (q @ [k]) r")
      case True
      then show ?thesis using IH ns z by simp
    next
      case False
      note eq = IH [unfolded if_not_P [OF False]]
      show ?thesis
      proof (cases "nid_at N ino r = 0")
        case True
        have "nid_at N ino (r @ [l]) = 0" using ns(2) True t(2) by simp
        moreover have "nid_at M ino (r @ [l]) = 0" using ns(1) eq True z by simp
        ultimately show ?thesis by simp
      next
        case nz: False
        have "nid_at N ino r \<noteq> c" using t(5) [OF rp assms(2)] nz False by (auto simp: c_def)
        then show ?thesis
          using ns eq t(5) [OF rp qp] nz False p N' [of "nid_at N ino r"] by (auto simp: prefix_snoc_cases simp del: prefix_snoc)
      qed
    qed
  qed simp
  show ?thesis unfolding kills_def M_def [symmetric]
  proof (intro conjI allI impI)
    fix r assume "node_pos L r"
    then show "nid_at M ino r = (if prefix (q @ [k]) r then 0 else nid_at N ino r)" by (rule at)
  next
    fix n
    have "n = c" if "node_pos L r" "prefix (q @ [k]) r" "nid_at N ino r = n" "n \<noteq> 0" for r
      using assms(4) [OF that(1)] that by (auto simp: c_def strict_prefix_def)
    then have "(\<exists>r. node_pos L r \<and> prefix (q @ [k]) r \<and> nid_at N ino r = n) \<longrightarrow> n = c \<or> N n = None"
      using t(2) by (cases "n = 0") auto
    moreover have "\<exists>r. node_pos L r \<and> prefix (q @ [k]) r \<and> nid_at N ino r = n" if "n = c"
      using assms(2) that by (intro exI [of _ "q @ [k]"]) (simp add: c_def)
    moreover have "M n = None \<longleftrightarrow> n = c \<or> N n = None" using N' [of n] p cq by auto
    ultimately show "M n = None \<longleftrightarrow> N n = None \<or> (\<exists>r. node_pos L r \<and> prefix (q @ [k]) r \<and> nid_at N ino r = n)" by argo
  next
    fix n p' assume "M n = Some p'"
    then show "\<exists>p. N n = Some p \<and> n_addr p' = n_addr p \<and> n_ofs p' = n_ofs p"
      using p N' [of n] by (auto split: if_splits)
  qed
qed


section \<open>The operations on the tree\<close>

text \<open>What every step keeps of the file.\<close>

definition same_file :: "file_state \<Rightarrow> file_state \<Rightarrow> bool" where
  "same_file st st' \<longleftrightarrow> f_ino st' = f_ino st \<and> f_size st' = f_size st \<and> i_xattr_nid (f_fi st') = i_xattr_nid (f_fi st) \<and>
     (\<forall>f. f \<noteq> FI_FIRST_BLOCK_WRITTEN \<longrightarrow> is_inode_flag_set (f_fi st') f = is_inode_flag_set (f_fi st) f)"

lemma same_file_refl [simp]: "same_file st st" by (simp add: same_file_def)

lemma same_file_trans [trans]: "same_file st st' \<Longrightarrow> same_file st' st'' \<Longrightarrow> same_file st st''"
  by (simp add: same_file_def)

lemma same_file_view:
  assumes "same_file st st'"
  shows "f_ino st' = f_ino st" "addrs_per_inode L (f_fi st') = addrs_per_inode L (f_fi st)"
    "get_node_path L (f_fi st') = get_node_path L (f_fi st)" "f2fs_has_inline_data st' = f2fs_has_inline_data st" "f_size st' = f_size st"
proof -
  show a: "addrs_per_inode L (f_fi st') = addrs_per_inode L (f_fi st)"
    using assms by (simp add: same_file_def addrs_per_inode_def)
  show "get_node_path L (f_fi st') = get_node_path L (f_fi st)" by (simp add: fun_eq_iff get_node_path_def a)
  show "f_ino st' = f_ino st" "f2fs_has_inline_data st' = f2fs_has_inline_data st" "f_size st' = f_size st"
    using assms by (simp_all add: same_file_def f2fs_has_inline_data_def)
qed

lemma dec_counts_flags:
  "dec_valid_node_count (s, fi) = (s', fi') \<Longrightarrow> i_flags fi' = i_flags fi \<and> i_xattr_nid fi' = i_xattr_nid fi"
  "dec_valid_block_count n (s, fi) = (s', fi') \<Longrightarrow> i_flags fi' = i_flags fi \<and> i_xattr_nid fi' = i_xattr_nid fi"
  by (auto simp: dec_valid_node_count_def dec_valid_block_count_def Let_def)

lemma truncate_node_nodes:
  "f_nodes (truncate_node L g nid st) = (f_nodes st)(nid := None)" "same_file st (truncate_node L g nid st)"
  by (auto simp: truncate_node_def Let_def same_file_def is_inode_flag_set_def dest: dec_counts_flags split: prod.splits)

definition cut_addrs :: "u32 \<Rightarrow> nat set \<Rightarrow> u32 \<Rightarrow> (u32 \<rightharpoonup> node_page) \<Rightarrow> u32 \<rightharpoonup> node_page" where
  "cut_addrs nid I a N = (case N nid of None \<Rightarrow> N | Some p \<Rightarrow> N(nid \<mapsto> p\<lparr>n_addr := (\<lambda>i. if i \<in> I then a else n_addr p i)\<rparr>))"

lemma cut_addrs_Un: "cut_addrs nid J a (cut_addrs nid I a N) = cut_addrs nid (I \<union> J) a N"
  by (auto simp: cut_addrs_def fun_eq_iff split: option.splits)

lemma cut_addrs_drop: "(cut_addrs nid I a N)(nid := None) = N(nid := None)"
  by (auto simp: cut_addrs_def split: option.splits)

lemma free_data_block_nodes:
  assumes "free_data_block L g nid ofs (n, st) = (n', st')"
  shows "f_nodes st' = cut_addrs nid {ofs} (null_addr L) (f_nodes st)" "same_file st st'"
proof -
  have c: "is_inode_flag_set (clear_inode_flag fi FI_FIRST_BLOCK_WRITTEN) f = is_inode_flag_set fi f" if "f \<noteq> FI_FIRST_BLOCK_WRITTEN" for fi f
    using that fi_no_inj [of f FI_FIRST_BLOCK_WRITTEN] by (auto simp: is_inode_flag_set_def clear_inode_flag_def bit_unset_bit_iff)
  have i: "i_xattr_nid (clear_inode_flag fi f) = i_xattr_nid fi" for fi f by (simp add: clear_inode_flag_def)
  show "f_nodes st' = cut_addrs nid {ofs} (null_addr L) (f_nodes st)"
    using assms by (auto simp: free_data_block_def Let_def cut_addrs_def update_extent_def set_data_blkaddr_def put_node_def fun_eq_iff
        split: option.splits if_splits)
  show "same_file st st'"
    using assms by (auto simp: free_data_block_def Let_def same_file_def update_extent_def set_data_blkaddr_def put_node_def c i
        split: option.splits if_splits)
qed

lemma fold_free_nodes:
  "fold (free_data_block L g nid) is (n, st) = (n', st') \<Longrightarrow>
   f_nodes st' = cut_addrs nid (set is) (null_addr L) (f_nodes st) \<and> same_file st st'"
proof (induction "is" arbitrary: n st)
  case Nil
  then show ?case by (auto simp: cut_addrs_def fun_eq_iff split: option.splits)
next
  case (Cons i "is")
  obtain n1 st1 where s: "free_data_block L g nid i (n, st) = (n1, st1)" by fastforce
  note f = free_data_block_nodes [OF s]
  from Cons.IH [of n1 st1] Cons.prems s have
    "f_nodes st' = cut_addrs nid (set is) (null_addr L) (f_nodes st1)" "same_file st1 st'" by simp_all
  then show ?case using f same_file_trans by (auto simp: cut_addrs_Un insert_commute)
qed

lemma truncate_range_nodes:
  assumes "truncate_data_blocks_range L g nid ofs count st = (n, st')"
  shows "f_nodes st' = cut_addrs nid {ofs..<ofs + count} (null_addr L) (f_nodes st)" "same_file st st'"
proof -
  obtain k st1 where f: "fold (free_data_block L g nid) [ofs..<ofs + count] (0, st) = (k, st1)" by fastforce
  note h = fold_free_nodes [OF f]
  have "f_nodes st' = f_nodes st1 \<and> same_file st1 st'"
    using assms f by (auto simp: truncate_data_blocks_range_def same_file_def is_inode_flag_set_def dest: dec_counts_flags
        split: if_splits prod.splits)
  then show "f_nodes st' = cut_addrs nid {ofs..<ofs + count} (null_addr L) (f_nodes st)" "same_file st st'"
    using h same_file_trans by auto
qed

text \<open>The environment does not say \<open>ENOENT\<close> for a node that is there.\<close>

definition io_ok :: "file_env \<Rightarrow> bool" where
  "io_ok E \<longleftrightarrow> (\<forall>n. read_err E n \<noteq> Some ENOENT)"

lemma truncate_dnode_spec:
  assumes "io_ok E" "nid = 0 \<or> f_nodes st nid \<noteq> None" "truncate_dnode L g E nid st = (r, st')"
  shows "same_file st st'"
    "r = Inr 1 \<and> f_nodes st' = (if nid = 0 then f_nodes st else (f_nodes st)(nid := None)) \<or> (\<exists>e. r = Inl e \<and> e \<noteq> ENOENT \<and> st' = st)"
proof -
  obtain k st1 where t: "truncate_data_blocks_range L g nid 0 (addrs_per_block L) st = (k, st1)" by fastforce
  note h = truncate_range_nodes [OF t] truncate_node_nodes [where L = L and g = g and nid = nid and st = st1]
  show "same_file st st'"
    "r = Inr 1 \<and> f_nodes st' = (if nid = 0 then f_nodes st else (f_nodes st)(nid := None)) \<or> (\<exists>e. r = Inl e \<and> e \<noteq> ENOENT \<and> st' = st)"
    using assms h same_file_trans t
    by (auto simp: truncate_dnode_def get_node_page_def io_ok_def truncate_data_blocks_def cut_addrs_drop split: if_splits option.splits)
qed


lemma set_nid_nodes:
  "f_nodes (set_nid L parent off nid i st) = (case f_nodes st parent of None \<Rightarrow> f_nodes st
     | Some p \<Rightarrow> (f_nodes st)(parent \<mapsto> p\<lparr>n_nid := (n_nid p)(nid_slot L off i := nid)\<rparr>))"
  "same_file st (set_nid L parent off nid i st)"
  by (auto simp: set_nid_def put_node_def same_file_def split: option.split)

text \<open>Freeing a node and clearing its entry is one step of the tree.\<close>

lemma drop_child:
  assumes "tree_ok L ino N" "node_pos L (q @ [k])" "c = nid_at N ino (q @ [k])" "c \<noteq> 0" "f_nodes st = N(c := None)"
    and "nid_slot L off i = k"
  shows "f_nodes (set_nid L (nid_at N ino q) off 0 i st) = prune (nid_at N ino q) k N"
proof -
  note t = tree_okD [OF assms(1)]
  have qp: "node_pos L q" using assms(2) by (rule node_pos_prefix)
  have "nid_at N ino q \<noteq> 0" using assms(3,4) t(1,2) by (auto simp: nid_at_append split: if_splits)
  then obtain p where p: "N (nid_at N ino q) = Some p" using t(4) [OF qp] by blast
  have c: "c = n_nid p k" using p t(1,2) by (simp add: assms(3) nid_at_snoc)
  have "c \<noteq> nid_at N ino q" using t(5) [OF assms(2) qp] assms(3,4) by auto
  then show ?thesis using p assms(5,6) c by (auto simp: set_nid_nodes prune_def)
qed

definition leaf_pos :: "layout \<Rightarrow> nat list \<Rightarrow> bool" where
  "leaf_pos L q \<longleftrightarrow> (\<forall>r. node_pos L r \<longrightarrow> \<not> strict_prefix q r)"

definition below :: "nat list \<Rightarrow> nat set \<Rightarrow> nat list \<Rightarrow> bool" where
  "below q I r \<longleftrightarrow> (\<exists>i\<in>I. prefix (q @ [i]) r)"

lemma below_insert: "(\<lambda>r. prefix (q @ [i]) r \<or> below q I r) = below q (insert i I)"
  by (auto simp: below_def fun_eq_iff)

lemma below_single: "below q {i} = prefix (q @ [i])" by (simp add: below_def fun_eq_iff)

lemma below_prefix: "below q I r \<Longrightarrow> prefix q r" by (auto simp: below_def dest: append_prefixD)

lemma below_Nil [simp]: "\<not> below q I []" by (simp add: below_def)

lemma below_none [simp]: "below q {} = (\<lambda>r. False)" by (simp add: below_def fun_eq_iff)

lemma kills_none: "kills L ino (\<lambda>r. False) N N" by (simp add: kills_def)

lemma nid_at_below:
  assumes "tree_ok L ino N" "prefix q r" "nid_at N ino q = 0"
  shows "nid_at N ino r = 0"
  using assms tree_okD [OF assms(1)] by (auto simp: prefix_def nid_at_append)

lemma truncate_children_spec:
  assumes "io_ok E" "tree_ok L (f_ino st) (f_nodes st)" "nid = nid_at (f_nodes st) (f_ino st) q" "nid \<noteq> 0" "distinct is"
    and "\<And>i. i \<in> set is \<Longrightarrow> node_pos L (q @ [i]) \<and> leaf_pos L (q @ [i])" "truncate_children L g E nid is st = (r, st')"
  shows "same_file st st' \<and> (\<exists>J\<subseteq>set is. kills L (f_ino st) (below q J) (f_nodes st) (f_nodes st') \<and>
    (r = Inr () \<and> J = set is \<or> (\<exists>e. r = Inl e \<and> e \<noteq> ENOENT)))"
  using assms(2-7)
proof (induction "is" arbitrary: st)
  case Nil
  then show ?case by (auto intro: kills_none)
next
  case (Cons i "is")
  let ?ino = "f_ino st" and ?N = "f_nodes st"
  note t = tree_okD [OF Cons.prems(1)]
  have pos: "node_pos L (q @ [i])" "leaf_pos L (q @ [i])" using Cons.prems(5) [of i] by simp_all
  have qp: "node_pos L q" using pos(1) by (rule node_pos_prefix)
  define c where "c = nid_at ?N ?ino (q @ [i])"
  have c: "c = (case f_nodes st nid of None \<Rightarrow> 0 | Some rn \<Rightarrow> n_nid rn i)" unfolding c_def Cons.prems(2) using t(1,2) by (rule nid_at_snoc)
  have rest: "distinct is" "\<And>j. j \<in> set is \<Longrightarrow> node_pos L (q @ [j]) \<and> leaf_pos L (q @ [j])"
    using Cons.prems(4,5) by simp_all
  \<comment> \<open>one step that kills the position, and the rest\<close>
  have step: ?case if k: "kills L ?ino (prefix (q @ [i])) ?N (f_nodes st1)" "same_file st st1" "truncate_children L g E nid is st1 = (r, st')" for st1
  proof -
    have ok1: "tree_ok L (f_ino st1) (f_nodes st1)" using kills_tree_ok [OF k(1) Cons.prems(1)] same_file_view(1) [OF k(2)] by simp
    have "\<not> prefix (q @ [i]) q" by (auto dest: prefix_length_le)
    then have "nid = nid_at (f_nodes st1) (f_ino st1) q" using killsD(1) [OF k(1) qp] same_file_view(1) [OF k(2)] Cons.prems(2) by simp
    from Cons.IH [OF ok1 this Cons.prems(3) rest k(3)] same_file_view(1) [OF k(2)]
    obtain J where J: "same_file st1 st'" "J \<subseteq> set is" "kills L ?ino (below q J) (f_nodes st1) (f_nodes st')"
      "r = Inr () \<and> J = set is \<or> (\<exists>e. r = Inl e \<and> e \<noteq> ENOENT)" by auto
    have "kills L ?ino (below q (insert i J)) ?N (f_nodes st')"
      using kills_trans [OF k(1) J(3) t(2)] by (simp add: below_insert)
    then show ?case using J k(2) same_file_trans by (intro conjI exI [of _ "insert i J"]) auto
  qed
  show ?case
  proof (cases "c = 0")
    case True
    have "kills L ?ino (prefix (q @ [i])) ?N ?N"
      using nid_at_below [OF Cons.prems(1)] True t(2) by (intro kills_refl) (auto simp: c_def)
    then show ?thesis using Cons.prems(6) True c by (intro step [of st]) simp_all
  next
    case False
    then have pg: "c = 0 \<or> f_nodes st c \<noteq> None" using t(4) [OF pos(1)] by (auto simp: c_def)
    obtain r1 st1 where d: "truncate_dnode L g E c st = (r1, st1)" by fastforce
    note s = truncate_dnode_spec [OF assms(1) pg d]
    show ?thesis
    proof (cases r1)
      case (Inl e)
      then have "r = Inl e" "st' = st" "e \<noteq> ENOENT" using Cons.prems(6) False d s(2) by (auto simp: c [symmetric])
      then show ?thesis by (intro conjI exI [of _ "{}"]) (auto intro: kills_none)
    next
      case (Inr n)
      let ?st = "set_nid L nid i 0 False st1"
      have "f_nodes st1 = ?N(c := None)" using s(2) Inr False by auto
      from drop_child [OF Cons.prems(1) pos(1) c_def False this, of i False]
      have n: "f_nodes ?st = prune nid i ?N" by (simp add: Cons.prems(2) nid_slot_def)
      have "kills L ?ino (prefix (q @ [i])) ?N (f_nodes ?st)"
        unfolding n unfolding Cons.prems(2)
        by (rule kills_prune [OF Cons.prems(1) pos(1)]) (use False pos(2) in \<open>auto simp: c_def leaf_pos_def\<close>)
      moreover have "same_file st ?st" using s(1) set_nid_nodes(2) same_file_trans by blast
      moreover have "truncate_children L g E nid is ?st = (r, st')" using Cons.prems(6) False d Inr by (simp add: c [symmetric])
      ultimately show ?thesis by (rule step)
    qed
  qed
qed


text \<open>
  What is left after the children of the node at \<open>q\<close> from \<open>ofs\<close> on are gone: with \<open>ofs = 0\<close> the node
  itself is freed too, but its entry is still in its parent.
\<close>

definition emptied :: "layout \<Rightarrow> nat list \<Rightarrow> nat \<Rightarrow> file_state \<Rightarrow> file_state \<Rightarrow> bool" where
  "emptied L q ofs st st' \<longleftrightarrow>
     (\<exists>N. kills L (f_ino st) (below q {ofs..<nids_per_block L}) (f_nodes st) N \<and>
        f_nodes st' = (if ofs = 0 then N(nid_at (f_nodes st) (f_ino st) q := None) else N))"

definition partly :: "layout \<Rightarrow> nat list \<Rightarrow> nat \<Rightarrow> file_state \<Rightarrow> file_state \<Rightarrow> bool" where
  "partly L q ofs st st' \<longleftrightarrow> (\<exists>J\<subseteq>{ofs..<nids_per_block L}. kills L (f_ino st) (below q J) (f_nodes st) (f_nodes st'))"

lemma partly_refl: "partly L q ofs st st"
  unfolding partly_def by (intro exI [of _ "{}"]) (simp add: kills_none)

lemma emptied_nothing:
  assumes "tree_ok L (f_ino st) (f_nodes st)" "nid_at (f_nodes st) (f_ino st) q = 0"
  shows "emptied L q ofs st st"
proof -
  have "kills L (f_ino st) (below q {ofs..<nids_per_block L}) (f_nodes st) (f_nodes st)"
    using nid_at_below [OF assms(1)] assms(2) tree_okD(2) [OF assms(1)]
    by (intro kills_refl) (auto simp: below_def intro: append_prefixD)
  then show ?thesis using tree_okD(2) [OF assms(1)] assms(2) by (auto simp: emptied_def fun_eq_iff)
qed

lemma kills_at_self:
  "kills L ino (below q I) N N' \<Longrightarrow> node_pos L q \<Longrightarrow> nid_at N' ino q = nid_at N ino q"
  using killsD(1) [of L ino "below q I" N N' q] by (auto simp: below_def dest: prefix_length_le)

lemma truncate_nodes_2_spec:
  assumes "io_ok E" "tree_ok L (f_ino st) (f_nodes st)" "nid = nid_at (f_nodes st) (f_ino st) q" "node_pos L q"
    and "\<And>i. i < nids_per_block L \<Longrightarrow> node_pos L (q @ [i]) \<and> leaf_pos L (q @ [i])" "truncate_nodes_2 L g E nid ofs st = (r, st')"
  shows "same_file st st' \<and> ((\<exists>n. r = Inr n \<and> (ofs = 0 \<longrightarrow> n = nids_per_block L + 1) \<and> emptied L q ofs st st') \<or>
    (\<exists>e. r = Inl e \<and> e \<noteq> ENOENT \<and> partly L q ofs st st'))"
proof (cases "nid = 0")
  case True
  then show ?thesis using assms emptied_nothing [OF assms(2)] by (auto simp: truncate_nodes_2_def)
next
  case False
  have pg: "f_nodes st nid \<noteq> None" using tree_okD(4) [OF assms(2,4)] False assms(3) by auto
  show ?thesis
  proof (cases "read_err E nid")
    case (Some e)
    then show ?thesis using assms(1,6) False
      by (auto simp: truncate_nodes_2_def get_node_page_def io_ok_def partly_refl)
  next
    case None
    obtain r1 st1 where c: "truncate_children L g E nid [ofs..<nids_per_block L] st = (r1, st1)" by fastforce
    have "\<And>i. i \<in> set [ofs..<nids_per_block L] \<Longrightarrow> node_pos L (q @ [i]) \<and> leaf_pos L (q @ [i])" using assms(5) by simp
    from truncate_children_spec [OF assms(1-3) False distinct_upt this c]
    obtain J where J: "same_file st st1" "J \<subseteq> set [ofs..<nids_per_block L]" "kills L (f_ino st) (below q J) (f_nodes st) (f_nodes st1)"
      "r1 = Inr () \<and> J = set [ofs..<nids_per_block L] \<or> (\<exists>e. r1 = Inl e \<and> e \<noteq> ENOENT)" by blast
    have eq: "truncate_nodes_2 L g E nid ofs st = (case (r1, st1) of (Inl e, st) \<Rightarrow> (Inl e, st)
       | (Inr _, st) \<Rightarrow> if ofs = 0 then (Inr (nids_per_block L - ofs + 1), truncate_node L g nid st) else (Inr (nids_per_block L - ofs), st))"
      using False None pg c by (auto simp: truncate_nodes_2_def get_node_page_def Let_def split: sum.split)
    show ?thesis
    proof (cases r1)
      case (Inl e)
      then show ?thesis using eq assms(6) J by (auto simp: partly_def)
    next
      case (Inr u)
      then have J': "kills L (f_ino st) (below q {ofs..<nids_per_block L}) (f_nodes st) (f_nodes st1)" using J by auto
      show ?thesis
      proof (cases "ofs = 0")
        case True
        then have "r = Inr (nids_per_block L + 1)" "st' = truncate_node L g nid st1" using eq assms(6) Inr by simp_all
        moreover have "emptied L q ofs st (truncate_node L g nid st1)"
          unfolding emptied_def using J' True by (intro exI [of _ "f_nodes st1"]) (simp add: truncate_node_nodes(1) assms(3))
        ultimately show ?thesis using same_file_trans [OF J(1) truncate_node_nodes(2)] by blast
      next
        case nz: False
        then have "r = Inr (nids_per_block L - ofs)" "st' = st1" using eq assms(6) Inr by simp_all
        moreover have "emptied L q ofs st st1" unfolding emptied_def using J' nz by (intro exI [of _ "f_nodes st1"]) simp
        ultimately show ?thesis using J(1) nz by blast
      qed
    qed
  qed
qed

text \<open>Clearing the entry of a node that is freed with all below it.\<close>

lemma emptied_clear:
  assumes "tree_ok L (f_ino st) (f_nodes st)" "node_pos L (q @ [k])" "emptied L (q @ [k]) 0 st st1" "same_file st st1"
    and "nid_at (f_nodes st) (f_ino st) (q @ [k]) \<noteq> 0" "nid_slot L off i = k"
    and "\<And>r. node_pos L r \<Longrightarrow> strict_prefix (q @ [k]) r \<Longrightarrow> below (q @ [k]) {0..<nids_per_block L} r"
  shows "kills L (f_ino st) (prefix (q @ [k])) (f_nodes st) (f_nodes (set_nid L (nid_at (f_nodes st) (f_ino st) q) off 0 i st1))"
proof -
  let ?ino = "f_ino st" and ?N = "f_nodes st" and ?q = "q @ [k]"
  obtain N where k: "kills L ?ino (below ?q {0..<nids_per_block L}) ?N N" and n: "f_nodes st1 = N(nid_at ?N ?ino ?q := None)"
    using assms(3) by (auto simp: emptied_def)
  have ok: "tree_ok L ?ino N" using kills_tree_ok [OF k assms(1)] by simp
  have qp: "node_pos L q" using assms(2) by (rule node_pos_prefix)
  have self: "nid_at N ?ino ?q = nid_at ?N ?ino ?q" by (rule kills_at_self [OF k assms(2)])
  have selfq: "nid_at N ?ino q = nid_at ?N ?ino q"
    using killsD(1) [OF k qp] by (auto simp: below_def dest: prefix_length_le)
  have none: "nid_at N ?ino r = 0" if "node_pos L r" "strict_prefix ?q r" for r using killsD(1) [OF k that(1)] assms(7) [OF that] by simp
  have "f_nodes (set_nid L (nid_at N ?ino q) off 0 i st1) = prune (nid_at N ?ino q) k N"
    by (rule drop_child [OF ok assms(2) refl _ _ assms(6)]) (use assms(5) n self in simp_all)
  moreover have "kills L ?ino (prefix ?q) N (prune (nid_at N ?ino q) k N)"
    by (rule kills_prune [OF ok assms(2)]) (use self assms(5) none in auto)
  ultimately have "kills L ?ino (\<lambda>r. below ?q {0..<nids_per_block L} r \<or> prefix ?q r) ?N (f_nodes (set_nid L (nid_at N ?ino q) off 0 i st1))"
    using kills_trans [OF k _ tree_okD(2) [OF assms(1)]] by simp
  moreover have "(\<lambda>r. below ?q {0..<nids_per_block L} r \<or> prefix ?q r) = prefix ?q"
    by (auto simp: below_def fun_eq_iff intro: append_prefixD)
  ultimately show ?thesis by (simp add: selfq)
qed


lemma strict_prefix_below:
  assumes "node_pos L r" "strict_prefix q r" "q \<noteq> []"
  shows "below q {0..<nids_per_block L} r"
proof -
  obtain k s where r: "r = q @ k # s" using assms(2) by (metis append_Nil2 neq_Nil_conv prefix_def strict_prefix_def)
  have "k < nids_per_block L" using assms(1,3) unfolding r node_pos_def
    by (auto simp: append_eq_Cons_conv Cons_eq_append_conv)
  then show ?thesis by (auto simp: below_def r)
qed

text \<open>
  What an aborted cut has removed: some of the positions \<open>X\<close>, and nothing else.
\<close>

definition some_of :: "layout \<Rightarrow> (nat list \<Rightarrow> bool) \<Rightarrow> file_state \<Rightarrow> file_state \<Rightarrow> bool" where
  "some_of L X st st' \<longleftrightarrow> (\<exists>Y. (\<forall>r. Y r \<longrightarrow> X r) \<and> kills L (f_ino st) Y (f_nodes st) (f_nodes st'))"

lemma some_of_refl: "some_of L X st st"
  unfolding some_of_def by (intro exI [of _ "\<lambda>r. False"]) (simp add: kills_none)

lemma some_of_mono: "some_of L X st st' \<Longrightarrow> (\<And>r. X r \<Longrightarrow> Z r) \<Longrightarrow> some_of L Z st st'"
  unfolding some_of_def by blast

lemma kills_some:
  assumes "kills L (f_ino st) X (f_nodes st) (f_nodes st1)" "same_file st st1" "f_nodes st 0 = None" "some_of L Z st1 st'"
  shows "some_of L (\<lambda>r. X r \<or> Z r) st st'"
proof -
  obtain Y where Y: "\<forall>r. Y r \<longrightarrow> Z r" "kills L (f_ino st) Y (f_nodes st1) (f_nodes st')"
    using assms(4) same_file_view(1) [OF assms(2)] by (auto simp: some_of_def)
  have "\<forall>r. X r \<or> Y r \<longrightarrow> X r \<or> Z r" using Y(1) by (intro allI impI) (elim disjE; simp)
  then show ?thesis unfolding some_of_def using kills_trans [OF assms(1) Y(2) assms(3)]
    by (intro exI [of _ "\<lambda>r. X r \<or> Y r"] conjI)
qed

lemma partly_some: "partly L q ofs st st' \<Longrightarrow> some_of L (below q {ofs..<nids_per_block L}) st st'"
proof -
  assume "partly L q ofs st st'"
  then obtain J where "J \<subseteq> {ofs..<nids_per_block L}" "kills L (f_ino st) (below q J) (f_nodes st) (f_nodes st')"
    by (auto simp: partly_def)
  then show ?thesis unfolding some_of_def by (intro exI [of _ "below q J"]) (auto simp: below_def)
qed

lemma below_below: "below (q @ [i]) J r \<Longrightarrow> i \<in> I \<Longrightarrow> below q I r"
  by (auto simp: below_def dest: append_prefixD [of "q @ [i]" "[j]" r for j, unfolded append_assoc append_Cons append_Nil])

lemma truncate_subtrees_spec:
  assumes "io_ok E" "tree_ok L (f_ino st) (f_nodes st)" "nid = nid_at (f_nodes st) (f_ino st) [4]" "nid \<noteq> 0" "distinct is"
    and "set is \<subseteq> {0..<nids_per_block L}" "truncate_subtrees L g E nid is nofs st = (r, st')"
  shows "same_file st st' \<and> ((\<exists>n. r = Inr n \<and> kills L (f_ino st) (below [4] (set is)) (f_nodes st) (f_nodes st')) \<or>
    (\<exists>e. r = Inl e \<and> e \<noteq> ENOENT \<and> some_of L (below [4] (set is)) st st'))"
  using assms(2-7)
proof (induction "is" arbitrary: st nofs)
  case Nil
  then show ?case by (auto intro: kills_none)
next
  case (Cons i "is")
  let ?ino = "f_ino st" and ?N = "f_nodes st"
  note t = tree_okD [OF Cons.prems(1)]
  have i: "i < nids_per_block L" using Cons.prems(5) by simp
  have pos: "node_pos L ([4] @ [i])" "node_pos L [4]" using i by (auto simp: node_pos_def)
  define c where "c = nid_at ?N ?ino ([4] @ [i])"
  have c: "c = (case f_nodes st nid of None \<Rightarrow> 0 | Some rn \<Rightarrow> n_nid rn i)" unfolding c_def Cons.prems(2) using t(1,2) by (rule nid_at_snoc)
  have rest: "distinct is" "set is \<subseteq> {0..<nids_per_block L}" using Cons.prems(4,5) by simp_all
  have step: ?case if k: "kills L ?ino (below [4] {i}) ?N (f_nodes st1)" "same_file st st1" "truncate_subtrees L g E nid is m st1 = (r, st')" for st1 m
  proof -
    have ok1: "tree_ok L (f_ino st1) (f_nodes st1)" using kills_tree_ok [OF k(1) Cons.prems(1)] same_file_view(1) [OF k(2)] by simp
    have "nid = nid_at (f_nodes st1) (f_ino st1) [4]" using kills_at_self [OF k(1) pos(2)] same_file_view(1) [OF k(2)] Cons.prems(2) by simp
    note ih = Cons.IH [OF ok1 this Cons.prems(3) rest k(3)]
    have u: "(\<lambda>r. below [4] {i} r \<or> below [4] (set is) r) = below [4] (set (i # is))" by (simp add: below_def fun_eq_iff)
    have sf: "same_file st st'" using ih same_file_trans [OF k(2)] by blast
    from ih consider n where "r = Inr n" "kills L ?ino (below [4] (set is)) (f_nodes st1) (f_nodes st')"
      | e where "r = Inl e" "e \<noteq> ENOENT" "some_of L (below [4] (set is)) st1 st'"
      using same_file_view(1) [OF k(2)] by auto
    then show ?case
    proof cases
      case 1
      then show ?thesis using sf kills_trans [OF k(1) 1(2) t(2)] unfolding u by simp
    next
      case 2
      then show ?thesis using sf kills_some [OF k(1,2) t(2) 2(3)] unfolding u by simp
    qed
  qed
  show ?case
  proof (cases "c = 0")
    case True
    have "kills L ?ino (below [4] {i}) ?N ?N"
      using nid_at_below [OF Cons.prems(1)] True t(2) by (intro kills_refl) (auto simp: c_def below_def)
    then show ?thesis using Cons.prems(6) True by (intro step [of st]) (simp_all add: c [symmetric])
  next
    case False
    obtain r1 st1 where d: "truncate_nodes_2 L g E c 0 st = (r1, st1)" by fastforce
    have lf: "\<And>j. j < nids_per_block L \<Longrightarrow> node_pos L (([4] @ [i]) @ [j]) \<and> leaf_pos L (([4] @ [i]) @ [j])"
      using i by (auto simp: node_pos_def leaf_pos_def strict_prefix_def prefix_def)
    note s = truncate_nodes_2_spec [OF assms(1) Cons.prems(1) c_def pos(1) lf d]
    show ?thesis
    proof (cases r1)
      case (Inl e)
      then have "r = Inl e" "st' = st1" "e \<noteq> ENOENT" using Cons.prems(6) False d s by (auto simp: c [symmetric])
      moreover have "some_of L (below [4] (set (i # is))) st st1"
        using s Inl by (auto dest!: partly_some elim!: some_of_mono intro: below_below [of "[4]" i, simplified])
      ultimately show ?thesis using s by blast
    next
      case (Inr n)
      let ?st = "set_nid L nid i 0 False st1"
      have n: "n = nids_per_block L + 1" "emptied L ([4] @ [i]) 0 st st1" "same_file st st1" using s Inr by auto
      have "kills L ?ino (prefix ([4] @ [i])) ?N (f_nodes (set_nid L (nid_at ?N ?ino [4]) i 0 False st1))"
        by (rule emptied_clear [OF Cons.prems(1) pos(1) n(2,3)])
          (use False in \<open>auto simp: c_def nid_slot_def intro!: strict_prefix_below\<close>)
      then have "kills L ?ino (below [4] {i}) ?N (f_nodes ?st)" by (simp add: Cons.prems(2) below_single)
      moreover have "same_file st ?st" using n(3) set_nid_nodes(2) same_file_trans by blast
      moreover have "truncate_subtrees L g E nid is (nofs + n) ?st = (r, st')" using Cons.prems(6) False d Inr n(1) by (simp add: c [symmetric])
      ultimately show ?thesis by (rule step)
    qed
  qed
qed


lemma truncate_nodes_3_spec:
  assumes "io_ok E" "tree_ok L (f_ino st) (f_nodes st)" "nid = nid_at (f_nodes st) (f_ino st) [4]" "truncate_nodes L g E nid nofs ofs 3 st = (r, st')"
  shows "same_file st st' \<and> ((\<exists>n. r = Inr n \<and> emptied L [4] ofs st st') \<or>
    (\<exists>e. r = Inl e \<and> e \<noteq> ENOENT \<and> some_of L (below [4] {ofs..<nids_per_block L}) st st'))"
proof (cases "nid = 0")
  case True
  then show ?thesis using assms emptied_nothing [OF assms(2)] by (auto simp: truncate_nodes_def)
next
  case False
  have "node_pos L [4]" by (simp add: node_pos_def)
  then have pg: "f_nodes st nid \<noteq> None" using tree_okD(4) [OF assms(2)] False assms(3) by auto
  show ?thesis
  proof (cases "read_err E nid")
    case (Some e)
    then show ?thesis using assms(1,4) False by (auto simp: truncate_nodes_def get_node_page_def io_ok_def some_of_refl)
  next
    case None
    let ?n = "nofs + ofs * (nids_per_block L + 1) + 1"
    obtain r1 st1 where c: "truncate_subtrees L g E nid [ofs..<nids_per_block L] ?n st = (r1, st1)" by fastforce
    have "set [ofs..<nids_per_block L] \<subseteq> {0..<nids_per_block L}" by auto
    note s = truncate_subtrees_spec [OF assms(1-3) False distinct_upt this c, unfolded set_upt]
    have eq: "truncate_nodes L g E nid nofs ofs 3 st = (case (r1, st1) of (Inl e, st) \<Rightarrow> (Inl e, st)
       | (Inr freed, st) \<Rightarrow> if ofs = 0 then (Inr (freed + 1), truncate_node L g nid st) else (Inr freed, st))"
      using False None pg c by (auto simp: truncate_nodes_def get_node_page_def Let_def split: sum.split)
    show ?thesis
    proof (cases r1)
      case (Inl e)
      then show ?thesis using eq assms(4) s by auto
    next
      case (Inr n)
      then have k: "kills L (f_ino st) (below [4] {ofs..<nids_per_block L}) (f_nodes st) (f_nodes st1)" "same_file st st1" using s by auto
      show ?thesis
      proof (cases "ofs = 0")
        case True
        have "emptied L [4] ofs st (truncate_node L g nid st1)"
          unfolding emptied_def using k(1) True by (intro exI [of _ "f_nodes st1"]) (simp add: truncate_node_nodes(1) assms(3))
        then show ?thesis using eq assms(4) Inr True same_file_trans [OF k(2) truncate_node_nodes(2)] by auto
      next
        case nz: False
        then have "emptied L [4] ofs st st1" unfolding emptied_def using k(1) by (intro exI [of _ "f_nodes st1"]) simp
        then show ?thesis using eq assms(4) Inr nz k(2) by auto
      qed
    qed
  qed
qed

section \<open>From the inode down\<close>

text \<open>The numbers of the five pointers of the inode are consecutive, and an unused block address is 0.\<close>

definition file_layout_ok :: "layout \<Rightarrow> bool" where
  "file_layout_ok L \<longleftrightarrow> layout_ok L \<and> null_addr L = 0 \<and> node_dir2_block L = node_dir1_block L + 1 \<and>
     node_ind1_block L = node_dir1_block L + 2 \<and> node_ind2_block L = node_dir1_block L + 3 \<and> node_dind_block L = node_dir1_block L + 4"

text \<open>The positions at and behind the pointer \<open>h\<close>, in it from the entry \<open>k\<close> on.\<close>

definition top_region :: "layout \<Rightarrow> nat \<Rightarrow> nat \<Rightarrow> nat list \<Rightarrow> bool" where
  "top_region L h k r \<longleftrightarrow> k = 0 \<and> prefix [h] r \<or> below [h] {k..<nids_per_block L} r"

definition rest_region :: "layout \<Rightarrow> nat \<Rightarrow> nat \<Rightarrow> nat list \<Rightarrow> bool" where
  "rest_region L h k r \<longleftrightarrow> top_region L h k r \<or> (\<exists>h'. h < h' \<and> h' < 5 \<and> prefix [h'] r)"

lemma top_region_Nil [simp]: "\<not> top_region L h k []" by (simp add: top_region_def)

lemma clear_top_spec:
  assumes "tree_ok L (f_ino st) (f_nodes st)" "h < 5" "emptied L [h] 0 st st1" "same_file st st1"
  shows "kills L (f_ino st) (top_region L h 0) (f_nodes st) (f_nodes (clear_top L (node_dir1_block L + h) st1))"
    "same_file st (clear_top L (node_dir1_block L + h) st1)"
proof -
  let ?ino = "f_ino st" and ?N = "f_nodes st" and ?off = "node_dir1_block L + h"
  note t = tree_okD [OF assms(1)]
  have slot: "nid_slot L ?off True = h" by (simp add: nid_slot_def)
  have hp: "node_pos L ([] @ [h])" using assms(2) by (auto simp: node_pos_def)
  obtain N where k: "kills L ?ino (below [h] {0..<nids_per_block L}) ?N N" and n: "f_nodes st1 = N(nid_at ?N ?ino [h] := None)"
    using assms(3) by (auto simp: emptied_def)
  have ok: "tree_ok L ?ino N" using kills_tree_ok [OF k assms(1)] by simp
  have self: "nid_at N ?ino [h] = nid_at ?N ?ino [h]" using kills_at_self [OF k] hp by simp
  have ino: "nid_at ?N ?ino [h] \<noteq> ?ino" using t(5) [of "[h]" "[]"] hp t(1) by auto
  obtain ri where ri: "N ?ino = Some ri" using tree_okD(3) [OF ok] by blast
  then have ri1: "f_nodes st1 (f_ino st1) = Some ri" "n_nid ri h = nid_at ?N ?ino [h]"
    using n ino same_file_view(1) [OF assms(4)] self nid_at_snoc [of ?ino N "[]" h] tree_okD(1,2) [OF ok] by auto
  have eq: "clear_top L ?off st1 = (if nid_at ?N ?ino [h] \<noteq> 0 then set_nid L ?ino ?off 0 True st1 else st1)"
    using ri1 same_file_view(1) [OF assms(4)] by (simp add: clear_top_def get_nid_def slot)
  have region: "top_region L h 0 = prefix ([] @ [h])" by (auto simp: top_region_def fun_eq_iff dest: below_prefix)
  show "same_file st (clear_top L ?off st1)" using eq assms(4) set_nid_nodes(2) same_file_trans by auto
  show "kills L ?ino (top_region L h 0) ?N (f_nodes (clear_top L ?off st1))"
  proof (cases "nid_at ?N ?ino [h] = 0")
    case True
    have "f_nodes st1 = N" using n True tree_okD(2) [OF ok] by (auto simp: fun_eq_iff)
    moreover have "kills L ?ino (prefix ([] @ [h])) N N"
      using nid_at_below [OF ok] self True tree_okD(2) [OF ok] by (intro kills_refl) auto
    moreover have "(\<lambda>r. below [h] {0..<nids_per_block L} r \<or> prefix ([] @ [h]) r) = prefix ([] @ [h])"
      by (auto simp: fun_eq_iff dest: below_prefix)
    ultimately have "f_nodes st1 = N" "kills L ?ino (prefix ([] @ [h])) ?N N" using kills_trans [OF k _ t(2)] by metis+
    then show ?thesis using eq True by (simp add: region)
  next
    case False
    have "kills L ?ino (prefix ([] @ [h])) ?N (f_nodes (set_nid L (nid_at ?N ?ino []) ?off 0 True st1))"
      by (rule emptied_clear [OF assms(1) hp _ assms(4) _ slot])
        (use assms(3) False in \<open>auto intro: strict_prefix_below\<close>)
    then show ?thesis using eq False by (simp add: region)
  qed
qed


declare truncate_tops.simps [simp del]

lemma top_region_nz: "k \<noteq> 0 \<Longrightarrow> top_region L h k = below [h] {k..<nids_per_block L}"
  by (simp add: top_region_def fun_eq_iff)

lemma emptied_nz: "emptied L q k st st' \<Longrightarrow> k \<noteq> 0 \<Longrightarrow> kills L (f_ino st) (below q {k..<nids_per_block L}) (f_nodes st) (f_nodes st')"
  by (auto simp: emptied_def)

definition top_done :: "layout \<Rightarrow> nat \<Rightarrow> nat \<Rightarrow> file_state \<Rightarrow> (errno + nat) \<times> file_state \<Rightarrow> bool" where
  "top_done L h k st w \<longleftrightarrow> same_file st (snd w) \<and>
     ((\<exists>n. fst w = Inr n \<and> (k = 0 \<and> emptied L [h] 0 st (snd w) \<or> k \<noteq> 0 \<and> kills L (f_ino st) (top_region L h k) (f_nodes st) (f_nodes (snd w)))) \<or>
      (\<exists>e. fst w = Inl e \<and> e \<noteq> ENOENT \<and> some_of L (top_region L h k) st (snd w)))"

lemma truncate_top_spec:
  assumes "file_layout_ok L" "io_ok E" "tree_ok L (f_ino st) (f_nodes st)" "h < 5"
    and "h < 2 \<Longrightarrow> k \<noteq> 0 \<Longrightarrow> nid_at (f_nodes st) (f_ino st) [h] = 0"
  shows "\<exists>w. truncate_top L g E (node_dir1_block L + h) k nofs st = Some w \<and> top_done L h k st w"
proof -
  let ?off = "node_dir1_block L + h" and ?ino = "f_ino st" and ?N = "f_nodes st"
  define nid where "nid = nid_at ?N ?ino [h]"
  note t = tree_okD [OF assms(3)]
  have hp: "node_pos L [h]" using assms(4) by (simp add: node_pos_def)
  have nid: "nid = (case f_nodes st (f_ino st) of None \<Rightarrow> 0 | Some ri \<Rightarrow> get_nid L ri ?off True)"
    using nid_at_snoc [of ?ino ?N "[]" h] t(1,2) by (simp add: nid_def get_nid_def nid_slot_def split: option.split)
  have pg: "nid = 0 \<or> f_nodes st nid \<noteq> None" using t(4) [OF hp] by (auto simp: nid_def)
  have mono: "some_of L (below [h] {k..<nids_per_block L}) st st' \<Longrightarrow> some_of L (top_region L h k) st st'" for st'
    by (auto elim!: some_of_mono simp: top_region_def)
  have lay: "node_dir2_block L = node_dir1_block L + 1" "node_ind1_block L = node_dir1_block L + 2"
    "node_ind2_block L = node_dir1_block L + 3" "node_dind_block L = node_dir1_block L + 4"
    using assms(1) by (simp_all add: file_layout_ok_def)
  consider "h < 2" | "h = 2 \<or> h = 3" | "h = 4" using assms(4) by linarith
  then show ?thesis
  proof cases
    case 1
    obtain r st1 where d: "truncate_dnode L g E nid st = (r, st1)" by fastforce
    have eq: "truncate_top L g E ?off k nofs st = Some (r, st1)" unfolding truncate_top_def nid [symmetric] Let_def using 1 d lay by auto
    note s = truncate_dnode_spec [OF assms(2) pg d]
    have nb: "kills L ?ino (below [h] I) ?N ?N" for I
      using 1 t(2) by (intro kills_refl) (auto simp: below_def node_pos_def prefix_def)
    from s(2) show ?thesis
    proof (elim disjE exE conjE)
      assume r: "r = Inr 1" "f_nodes st1 = (if nid = 0 then ?N else ?N(nid := None))"
      have "top_done L h k st (r, st1)"
      proof (cases "k = 0")
        case True
        have "emptied L [h] 0 st st1" unfolding emptied_def using nb r(2) t(2)
          by (intro exI [of _ ?N]) (auto simp: nid_def fun_eq_iff)
        then show ?thesis using True r(1) s(1) by (simp add: top_done_def)
      next
        case False
        then have "nid = 0" using assms(5) 1 by (simp add: nid_def)
        then show ?thesis using False r s(1) nb by (simp add: top_done_def top_region_nz)
      qed
      then show ?thesis using eq by blast
    next
      fix e assume "r = Inl e" "e \<noteq> ENOENT" "st1 = st"
      then show ?thesis using eq by (intro exI [of _ "(r, st1)"]) (simp add: top_done_def some_of_refl)
    qed
  next
    case 2
    obtain r st1 where d: "truncate_nodes_2 L g E nid k st = (r, st1)" by fastforce
    have eq: "truncate_top L g E ?off k nofs st = Some (r, st1)"
      unfolding truncate_top_def truncate_nodes_def nid [symmetric] Let_def using 2 d lay by auto
    have "\<And>i. i < nids_per_block L \<Longrightarrow> node_pos L ([h] @ [i]) \<and> leaf_pos L ([h] @ [i])"
      using 2 by (auto simp: node_pos_def leaf_pos_def strict_prefix_def prefix_def)
    note s = truncate_nodes_2_spec [OF assms(2,3) nid_def hp this d]
    have "top_done L h k st (r, st1)"
      using s mono by (cases "k = 0") (auto simp: top_done_def top_region_nz dest!: partly_some dest: emptied_nz)
    then show ?thesis using eq by blast
  next
    case 3
    obtain r st1 where d: "truncate_nodes L g E nid nofs k 3 st = (r, st1)" by fastforce
    have eq: "truncate_top L g E ?off k nofs st = Some (r, st1)" unfolding truncate_top_def nid [symmetric] Let_def using 3 d lay by auto
    note s = truncate_nodes_3_spec [OF assms(2,3) nid_def [unfolded 3] d]
    have "top_done L h k st (r, st1)"
      using s mono 3 by (cases "k = 0") (auto simp: top_done_def top_region_nz dest: emptied_nz)
    then show ?thesis using eq by blast
  qed
qed

text \<open>The loop over the pointers: everything from \<open>h\<close>, \<open>k\<close> on is gone, or an error stopped it on the way.\<close>

definition cut_done :: "layout \<Rightarrow> (nat list \<Rightarrow> bool) \<Rightarrow> file_state \<Rightarrow> (errno + unit) \<times> file_state \<Rightarrow> bool" where
  "cut_done L X st w \<longleftrightarrow> same_file st (snd w) \<and>
     (fst w = Inr () \<and> kills L (f_ino st) X (f_nodes st) (f_nodes (snd w)) \<or>
      (\<exists>e. fst w = Inl e \<and> e \<noteq> ENOENT \<and> some_of L X st (snd w)))"

lemma cut_done_after:
  assumes "kills L (f_ino st) X (f_nodes st) (f_nodes st1)" "same_file st st1" "f_nodes st 0 = None" "cut_done L Z st1 w"
  shows "cut_done L (\<lambda>r. X r \<or> Z r) st w"
proof -
  note i = same_file_view(1) [OF assms(2)]
  have "same_file st (snd w)" using assms(2,4) same_file_trans by (auto simp: cut_done_def)
  moreover have "kills L (f_ino st) Z (f_nodes st1) N \<Longrightarrow> kills L (f_ino st) (\<lambda>r. X r \<or> Z r) (f_nodes st) N" for N
    by (rule kills_trans [OF assms(1) _ assms(3)])
  ultimately show ?thesis using assms(4) kills_some [OF assms(1-3)] i by (auto simp: cut_done_def)
qed

lemma rest_region_step:
  "h < 4 \<Longrightarrow> (\<lambda>r. top_region L h k r \<or> rest_region L (h + 1) 0 r) = rest_region L h k"
proof (rule ext)
  fix r assume "h < 4"
  have "(\<exists>h'. h < h' \<and> h' < 5 \<and> prefix [h'] r) \<longleftrightarrow> prefix [h + 1] r \<or> (\<exists>h'. h + 1 < h' \<and> h' < 5 \<and> prefix [h'] r)"
  proof -
    have s: "h < h' \<longleftrightarrow> h' = h + 1 \<or> h + 1 < h'" for h' by linarith
    have "h + 1 < 5" using \<open>h < 4\<close> by simp
    then show ?thesis unfolding s [of _] by blast
  qed
  moreover have "top_region L (h + 1) 0 r \<longleftrightarrow> prefix [h + 1] r" by (auto simp: top_region_def dest: below_prefix)
  ultimately show "(top_region L h k r \<or> rest_region L (h + 1) 0 r) = rest_region L h k r"
    unfolding rest_region_def by blast
qed

lemma truncate_tops_spec:
  assumes "file_layout_ok L" "io_ok E" "tree_ok L (f_ino st) (f_nodes st)" "h < 5"
    and "h < 2 \<Longrightarrow> k \<noteq> 0 \<Longrightarrow> nid_at (f_nodes st) (f_ino st) [h] = 0"
  shows "\<exists>w. truncate_tops L g E (node_dir1_block L + h) k nofs st = Some w \<and> cut_done L (rest_region L h k) st w"
  using assms(3-5)
proof (induction "4 - h" arbitrary: h k nofs st)
  case 0
  then have h: "h = 4" by simp
  have dind: "node_dind_block L = node_dir1_block L + 4" using assms(1) by (simp add: file_layout_ok_def)
  obtain r st1 where top: "truncate_top L g E (node_dir1_block L + h) k nofs st = Some (r, st1)" "top_done L h k st (r, st1)"
    using truncate_top_spec [OF assms(1,2) 0(2-4), where g = g and k = k and nofs = nofs] by auto
  let ?st = "if k = 0 then clear_top L (node_dir1_block L + h) st1 else st1"
  have reg: "rest_region L h k = top_region L h k" by (auto simp: rest_region_def fun_eq_iff h)
  have eq: "truncate_tops L g E (node_dir1_block L + h) k nofs st =
    Some (if \<exists>e. r = Inl e \<and> e \<noteq> ENOENT then (map_sum id (\<lambda>_. ()) r, st1) else (map_sum id (\<lambda>_. ()) r, ?st))"
    using top(1) dind h by (subst truncate_tops.simps) (auto split: sum.splits)
  show ?case
    using top(2) eq clear_top_spec [OF 0(2,3), of st1] by (auto simp: cut_done_def top_done_def reg)
next
  case (Suc d)
  then have h: "h < 4" and d: "d = 4 - (h + 1)" by linarith+
  have dind: "node_dind_block L = node_dir1_block L + 4" using assms(1) by (simp add: file_layout_ok_def)
  obtain r st1 where top: "truncate_top L g E (node_dir1_block L + h) k nofs st = Some (r, st1)" "top_done L h k st (r, st1)"
    using truncate_top_spec [OF assms(1,2) Suc(3-5), where g = g and k = k and nofs = nofs] by auto
  define st2 where "st2 = (if k = 0 then clear_top L (node_dir1_block L + h) st1 else st1)"
  show ?case
  proof (cases r)
    case (Inl e)
    then have "e \<noteq> ENOENT" "some_of L (top_region L h k) st st1" "same_file st st1" using top(2) by (simp_all add: top_done_def)
    moreover have "truncate_tops L g E (node_dir1_block L + h) k nofs st = Some (Inl e, st1)"
      using top(1) Inl \<open>e \<noteq> ENOENT\<close> by (subst truncate_tops.simps) simp
    ultimately show ?thesis by (auto simp: cut_done_def rest_region_def elim!: some_of_mono)
  next
    case (Inr n)
    have k: "kills L (f_ino st) (top_region L h k) (f_nodes st) (f_nodes st2)" "same_file st st2"
      using top(2) Inr clear_top_spec [OF Suc(3,4), of st1] by (auto simp: top_done_def st2_def)
    have ok: "tree_ok L (f_ino st2) (f_nodes st2)" using kills_tree_ok [OF k(1) Suc(3)] same_file_view(1) [OF k(2)] by simp
    obtain w where w: "truncate_tops L g E (node_dir1_block L + (h + 1)) 0 (nofs + n) st2 = Some w" "cut_done L (rest_region L (h + 1) 0) st2 w"
      using Suc(1) [of "h + 1" st2 0 "nofs + n"] d ok h by auto
    have "truncate_tops L g E (node_dir1_block L + h) k nofs st = Some w"
      using top(1) Inr w(1) h dind by (subst truncate_tops.simps) (auto simp: st2_def [symmetric])
    moreover have "cut_done L (rest_region L h k) st w"
      using cut_done_after [OF k tree_okD(2) [OF Suc(3)] w(2)] by (simp only: rest_region_step [OF h])
    ultimately show ?thesis by blast
  qed
qed


section \<open>Cutting a file\<close>

lemma partial_children:
  assumes "io_ok E" "tree_ok L (f_ino st) (f_nodes st)" "nid = nid_at (f_nodes st) (f_ino st) q" "nid \<noteq> 0"
    and "\<And>i. i < nids_per_block L \<Longrightarrow> node_pos L (q @ [i]) \<and> leaf_pos L (q @ [i])"
    and "truncate_children L g E nid [k..<nids_per_block L] st = (r, st')"
  shows "cut_done L (below q {k..<nids_per_block L}) st (r, st')"
proof -
  have "\<And>i. i \<in> set [k..<nids_per_block L] \<Longrightarrow> node_pos L (q @ [i]) \<and> leaf_pos L (q @ [i])" using assms(5) by simp
  from truncate_children_spec [OF assms(1-4) distinct_upt this assms(6)]
  obtain J where J: "same_file st st'" "J \<subseteq> {k..<nids_per_block L}" "kills L (f_ino st) (below q J) (f_nodes st) (f_nodes st')"
    "r = Inr () \<and> J = {k..<nids_per_block L} \<or> (\<exists>e. r = Inl e \<and> e \<noteq> ENOENT)" by auto
  have "some_of L (below q {k..<nids_per_block L}) st st'" using partly_some J(2,3) unfolding partly_def by blast
  then show ?thesis using J by (auto simp: cut_done_def)
qed

text \<open>
  The outcome of \<open>truncate_partial_nodes\<close>: nothing was there and the offsets stay, or the children
  are gone and the offsets name what follows.
\<close>

definition partial_done :: "layout \<Rightarrow> nat list \<Rightarrow> nat \<Rightarrow> nat list \<Rightarrow> nat list \<Rightarrow> file_state \<Rightarrow> (errno + unit) \<times> nat list \<times> file_state \<Rightarrow> bool" where
  "partial_done L q k offset next_offset st w \<longleftrightarrow>
     (case w of (r, offset', st') \<Rightarrow>
        nid_at (f_nodes st) (f_ino st) q = 0 \<and> st' = st \<and> offset' = offset \<and> (\<forall>e. r = Inl e \<longrightarrow> e = ENOENT) \<or>
        r = Inr () \<and> offset' = next_offset \<and> cut_done L (below q {k..<nids_per_block L}) st (r, st') \<or>
        (\<exists>e. r = Inl e \<and> e \<noteq> ENOENT \<and> cut_done L (below q {k..<nids_per_block L}) st (r, st')))"

lemma cut_done_refl: "e \<noteq> ENOENT \<Longrightarrow> cut_done L X st (Inl e, st)"
  by (simp add: cut_done_def some_of_refl)

lemma truncate_partial_2:
  assumes "io_ok E" "tree_ok L (f_ino st) (f_nodes st)" "f_nodes st (f_ino st) = Some ri" "h \<in> {2, 3}" "k \<noteq> 0"
  shows "partial_done L [h] k [node_dir1_block L + h, k, c] [node_dir1_block L + h + 1, 0, c] st
    (truncate_partial_nodes L g E ri [node_dir1_block L + h, k, c] 2 st)"
proof -
  define nid where "nid = nid_at (f_nodes st) (f_ino st) [h]"
  note t = tree_okD [OF assms(2)]
  have nid: "get_nid L ri (node_dir1_block L + h) True = nid"
    using nid_at_snoc [of "f_ino st" "f_nodes st" "[]" h] t(1,2) assms(3) by (simp add: nid_def get_nid_def nid_slot_def)
  have lf: "\<And>i. i < nids_per_block L \<Longrightarrow> node_pos L ([h] @ [i]) \<and> leaf_pos L ([h] @ [i])"
    using assms(4) by (auto simp: node_pos_def leaf_pos_def strict_prefix_def prefix_def)
  show ?thesis
  proof (cases "nid = 0")
    case True
    then show ?thesis using nid by (simp add: truncate_partial_nodes_def partial_done_def nid_def)
  next
    case False
    have "node_pos L [h]" using assms(4) by (auto simp: node_pos_def)
    then obtain p where p: "f_nodes st nid = Some p" using t(4) [of "[h]"] False by (auto simp: nid_def)
    obtain r st1 where c: "truncate_children L g E nid [k..<nids_per_block L] st = (r, st1)" by fastforce
    note s = partial_children [OF assms(1,2) nid_def False lf c]
    show ?thesis
      using assms(1,5) nid False p c s
      by (cases "read_err E nid"; cases r)
        (auto simp: truncate_partial_nodes_def partial_done_def get_node_page_def io_ok_def some_of_refl cut_done_def)
  qed
qed

lemma truncate_partial_3:
  assumes "io_ok E" "tree_ok L (f_ino st) (f_nodes st)" "f_nodes st (f_ino st) = Some ri" "a < nids_per_block L" "j \<noteq> 0"
  shows "partial_done L [4, a] j [node_dir1_block L + 4, a, j, c] [node_dir1_block L + 4, a + 1, 0, c] st
    (truncate_partial_nodes L g E ri [node_dir1_block L + 4, a, j, c] 3 st)"
proof -
  define nid0 where "nid0 = nid_at (f_nodes st) (f_ino st) [4]"
  define nid where "nid = nid_at (f_nodes st) (f_ino st) [4, a]"
  note t = tree_okD [OF assms(2)]
  have nid0: "get_nid L ri (node_dir1_block L + 4) True = nid0"
    using nid_at_snoc [of "f_ino st" "f_nodes st" "[]" 4] t(1,2) assms(3) by (simp add: nid0_def get_nid_def nid_slot_def)
  have nid1: "nid = (case f_nodes st nid0 of None \<Rightarrow> 0 | Some p \<Rightarrow> n_nid p a)"
    using nid_at_snoc [of "f_ino st" "f_nodes st" "[4]" a] t(1,2) by (simp add: nid_def nid0_def)
  have pos: "node_pos L [4]" "node_pos L [4, a]" using assms(4) by (auto simp: node_pos_def)
  have lf: "\<And>i. i < nids_per_block L \<Longrightarrow> node_pos L ([4, a] @ [i]) \<and> leaf_pos L ([4, a] @ [i])"
    using assms(4) by (auto simp: node_pos_def leaf_pos_def strict_prefix_def prefix_def)
  show ?thesis
  proof (cases "nid0 = 0")
    case True
    then show ?thesis using nid0 nid1 t(2) by (simp add: truncate_partial_nodes_def partial_done_def nid_def)
  next
    case False
    then obtain p0 where p0: "f_nodes st nid0 = Some p0" "n_nid p0 a = nid" using t(4) [OF pos(1)] nid1 by (auto simp: nid0_def)
    show ?thesis
    proof (cases "nid = 0")
      case True
      then show ?thesis using assms(1,5) nid0 False p0 t(2)
        by (cases "read_err E nid0"; cases "read_err E 0")
          (auto simp: truncate_partial_nodes_def partial_done_def get_node_page_def get_nid_def nid_slot_def io_ok_def some_of_refl cut_done_def nid_def [symmetric])
    next
      case nz: False
      then obtain p where p: "f_nodes st nid = Some p" using t(4) [OF pos(2)] by (auto simp: nid_def)
      obtain r st1 where c: "truncate_children L g E nid [j..<nids_per_block L] st = (r, st1)" by fastforce
      note s = partial_children [OF assms(1,2) nid_def nz lf c]
      show ?thesis
        using assms(1,5) nid0 False p0 p c s
        by (cases "read_err E nid0"; cases "read_err E nid"; cases r)
          (auto simp: truncate_partial_nodes_def partial_done_def get_node_page_def get_nid_def nid_slot_def io_ok_def some_of_refl cut_done_def)
    qed
  qed
qed

end
