(* ===== verification/File_Map.thy ===== *)
theory File_Map
  imports File_Cut
begin

text \<open>
  A file as a map from block indices to addresses, and that the operations of \<open>file.c\<close> and
  \<open>node.c\<close> on its blocks are the operations of the map.
\<close>

section \<open>The map\<close>

text \<open>The position of the node with the entry of a block.\<close>

definition dpos :: "layout \<Rightarrow> nat list \<Rightarrow> nat list" where
  "dpos L offset = (case butlast offset of [] \<Rightarrow> [] | h # t \<Rightarrow> (h - node_dir1_block L) # t)"

definition file_map :: "layout \<Rightarrow> file_state \<Rightarrow> nat \<Rightarrow> u32" where
  "file_map L st b =
     (case get_node_path L (f_fi st) b of
        None \<Rightarrow> null_addr L
      | Some (level, offset, noffset) \<Rightarrow>
          (case f_nodes st (nid_at (f_nodes st) (f_ino st) (dpos L offset)) of
             None \<Rightarrow> null_addr L
           | Some p \<Rightarrow> n_addr p (last offset)))"

definition file_ok :: "layout \<Rightarrow> file_state \<Rightarrow> bool" where
  "file_ok L st \<longleftrightarrow> tree_ok L (f_ino st) (f_nodes st)"

text \<open>The number of a data node, in the order of the blocks.\<close>

fun dnode_no :: "layout \<Rightarrow> nat list \<Rightarrow> nat" where
  "dnode_no L [h] = h"
| "dnode_no L [h, i] = (if h = 2 then 2 + i else 2 + nids_per_block L + i)"
| "dnode_no L [h, i, j] = 2 + 2 * nids_per_block L + i * nids_per_block L + j"
| "dnode_no L _ = 0"

lemma path_shape:
  assumes "file_layout_ok L" "get_node_path L fi b = Some (level, offset, noffset)"
  shows "node_pos L (dpos L offset)" "level = length (dpos L offset)" "length offset = level + 1"
    "level \<noteq> 0 \<Longrightarrow> b = addrs_per_inode L fi + dnode_no L (dpos L offset) * addrs_per_block L + last offset \<and> last offset < addrs_per_block L"
    "level = 0 \<Longrightarrow> offset = [b] \<and> b < addrs_per_inode L fi"
proof -
  have l: "layout_ok L" "node_dir2_block L = node_dir1_block L + 1" "node_ind1_block L = node_dir1_block L + 2"
    "node_ind2_block L = node_dir1_block L + 3" "node_dind_block L = node_dir1_block L + 4"
    using assms(1) by (simp_all add: file_layout_ok_def)
  note c = get_node_path_cases [OF assms(2) layout_okD(1,2) [OF l(1)]]
  show "node_pos L (dpos L offset)" "level = length (dpos L offset)" "length offset = level + 1"
    "level = 0 \<Longrightarrow> offset = [b] \<and> b < addrs_per_inode L fi"
    by (cases rule: c; simp add: dpos_def node_pos_def l)+
  show "level \<noteq> 0 \<Longrightarrow> b = addrs_per_inode L fi + dnode_no L (dpos L offset) * addrs_per_block L + last offset \<and> last offset < addrs_per_block L"
    by (cases rule: c) (simp_all add: dpos_def l algebra_simps)
qed


section \<open>Cutting\<close>

text \<open>The positions from the data node \<open>q\<close> on.\<close>

fun cut_region :: "layout \<Rightarrow> nat list \<Rightarrow> nat list \<Rightarrow> bool" where
  "cut_region L [h] = rest_region L h 0"
| "cut_region L [h, k] = rest_region L h k"
| "cut_region L [h, a, j] =
     (if j = 0 then rest_region L h a else (\<lambda>r. below [h, a] {j..<nids_per_block L} r \<or> rest_region L h (a + 1) r))"
| "cut_region L _ = (\<lambda>r. False)"

definition data_pos :: "layout \<Rightarrow> nat list \<Rightarrow> bool" where
  "data_pos L q \<longleftrightarrow> (\<exists>h<2. q = [h]) \<or> (\<exists>h i. (h = 2 \<or> h = 3) \<and> i < nids_per_block L \<and> q = [h, i]) \<or>
     (\<exists>i j. i < nids_per_block L \<and> j < nids_per_block L \<and> q = [4, i, j])"

lemma data_pos_cases:
  assumes "data_pos L q"
  obtains (direct) h where "h < 2" "q = [h]" | (ind1) i where "i < nids_per_block L" "q = [2, i]"
    | (ind2) i where "i < nids_per_block L" "q = [3, i]"
    | (dind) i j where "i < nids_per_block L" "j < nids_per_block L" "q = [4, i, j]"
  using assms unfolding data_pos_def by blast

lemma lex_le: "j < N \<Longrightarrow> l < N \<Longrightarrow> i * N + j \<le> a * N + l \<longleftrightarrow> i < a \<or> i = a \<and> j \<le> l" for N :: nat
proof (cases i a rule: linorder_cases)
  case less
  assume j: "j < N"
  have "Suc i * N \<le> a * N" using less by (intro mult_le_mono1) simp
  then show ?thesis using less j by simp
next
  case greater
  assume l: "l < N"
  have "Suc a * N \<le> i * N" using greater by (intro mult_le_mono1) simp
  then show ?thesis using greater l by simp
qed simp

lemma cut_region_order:
  assumes "data_pos L q" "data_pos L r"
  shows "cut_region L q r \<longleftrightarrow> dnode_no L q \<le> dnode_no L r"
proof -
  note reg = rest_region_def top_region_def below_def
  show ?thesis
  proof (rule data_pos_cases [OF assms(1)])
    fix h assume q: "h < 2" "q = [h]"
    show ?thesis by (rule data_pos_cases [OF assms(2)]; use q in \<open>auto simp: reg\<close>)
  next
    fix i assume q: "i < nids_per_block L" "q = [2, i]"
    show ?thesis by (rule data_pos_cases [OF assms(2)]; use q in \<open>auto simp: reg\<close>)
  next
    fix i assume q: "i < nids_per_block L" "q = [3, i]"
    show ?thesis by (rule data_pos_cases [OF assms(2)]; use q in \<open>auto simp: reg\<close>)
  next
    fix i j assume q: "i < nids_per_block L" "j < nids_per_block L" "q = [4, i, j]"
    show ?thesis
    proof (rule data_pos_cases [OF assms(2)])
      fix a l assume r: "a < nids_per_block L" "l < nids_per_block L" "r = [4, a, l]"
      show ?thesis using q r lex_le [OF q(2) r(2), of i a] by (auto simp: reg)
    next
      fix a assume "a < nids_per_block L" "r = [2, a]"
      then show ?thesis using q by (auto simp: reg)
    next
      fix a assume "a < nids_per_block L" "r = [3, a]"
      then show ?thesis using q by (auto simp: reg)
    qed (use q in \<open>auto simp: reg\<close>)
  qed
qed

lemma dnode_no_inj:
  assumes "data_pos L q" "data_pos L r" "dnode_no L q = dnode_no L r"
  shows "q = r"
proof -
  have eq: "i = a \<and> j = l" if "j < N" "l < N" "i * N + j = a * N + l" for i j a l N :: nat
    using lex_le [OF that(1,2), of i a] lex_le [OF that(2,1), of a i] that(3) by auto
  show ?thesis using assms(1)
  proof (cases rule: data_pos_cases)
    case q: (dind i j)
    show ?thesis by (rule data_pos_cases [OF assms(2)]) (use q assms(3) eq [OF q(2), of _ i] in auto)
  qed (rule data_pos_cases [OF assms(2)]; use assms(3) in auto)+
qed

lemma path_data_pos:
  assumes "file_layout_ok L" "get_node_path L fi b = Some (level, offset, noffset)" "level \<noteq> 0"
  shows "data_pos L (dpos L offset)"
proof -
  have l: "layout_ok L" "node_dir2_block L = node_dir1_block L + 1" "node_ind1_block L = node_dir1_block L + 2"
    "node_ind2_block L = node_dir1_block L + 3" "node_dind_block L = node_dir1_block L + 4"
    using assms(1) by (simp_all add: file_layout_ok_def)
  show ?thesis
    by (cases rule: get_node_path_cases [OF assms(2) layout_okD(1,2) [OF l(1)]]) (use assms(3) in \<open>simp_all add: dpos_def data_pos_def l\<close>)
qed


text \<open>Positions without a node make no difference.\<close>

lemma kills_cong0:
  assumes "kills L ino X N N'" "N 0 = None" "\<And>q. node_pos L q \<Longrightarrow> X q \<noteq> Z q \<Longrightarrow> nid_at N ino q = 0"
  shows "kills L ino Z N N'"
  unfolding kills_def
proof (intro conjI allI impI)
  fix q assume q: "node_pos L q"
  show "nid_at N' ino q = (if Z q then 0 else nid_at N ino q)"
    using killsD(1) [OF assms(1) q] assms(3) [OF q] by (cases "X q"; cases "Z q") simp_all
next
  fix n
  have "(\<exists>q. node_pos L q \<and> X q \<and> nid_at N ino q = n) \<longleftrightarrow> (\<exists>q. node_pos L q \<and> Z q \<and> nid_at N ino q = n)" if "n \<noteq> 0"
    using assms(3) that by blast
  then show "N' n = None \<longleftrightarrow> N n = None \<or> (\<exists>q. node_pos L q \<and> Z q \<and> nid_at N ino q = n)"
    using killsD(2) [OF assms(1), of n] assms(2) by (cases "n = 0") auto
next
  fix n p' assume "N' n = Some p'"
  then show "\<exists>p. N n = Some p \<and> n_addr p' = n_addr p \<and> n_ofs p' = n_ofs p" by (rule killsD(3) [OF assms(1)])
qed

lemma cut_done_cong0:
  assumes "cut_done L X st w" "f_nodes st 0 = None" "\<And>q. node_pos L q \<Longrightarrow> X q \<noteq> Z q \<Longrightarrow> nid_at (f_nodes st) (f_ino st) q = 0"
  shows "cut_done L Z st w"
proof -
  have "some_of L Z st (snd w)" if some: "some_of L X st (snd w)"
  proof -
    obtain Y where Y: "\<forall>r. Y r \<longrightarrow> X r" "kills L (f_ino st) Y (f_nodes st) (f_nodes (snd w))" using some by (auto simp: some_of_def)
    have "kills L (f_ino st) (\<lambda>r. Y r \<and> Z r) (f_nodes st) (f_nodes (snd w))"
      by (rule kills_cong0 [OF Y(2) assms(2)]) (use Y(1) assms(3) in auto)
    then show ?thesis unfolding some_of_def by (intro exI [of _ "\<lambda>r. Y r \<and> Z r"]) simp
  qed
  moreover have "kills L (f_ino st) X (f_nodes st) N \<Longrightarrow> kills L (f_ino st) Z (f_nodes st) N" for N
    by (rule kills_cong0 [OF _ assms(2,3)])
  ultimately show ?thesis using assms(1) by (auto simp: cut_done_def)
qed

lemma truncate_tail:
  assumes "file_layout_ok L" "io_ok E" "tree_ok L (f_ino st) (f_nodes st)"
    and "partial_done L q k offset' next_offset st (r, offs, st1)"
    and "nid_at (f_nodes st) (f_ino st) q = 0 \<Longrightarrow> \<exists>w. truncate_tops L g E (offset' ! 0) (offset' ! 1) nofs st = Some w \<and> cut_done L X0 st w"
    and "\<And>st1. tree_ok L (f_ino st1) (f_nodes st1) \<Longrightarrow>
      \<exists>w. truncate_tops L g E (next_offset ! 0) (next_offset ! 1) nofs st1 = Some w \<and> cut_done L Z st1 w"
    and "X = (\<lambda>r. below q {k..<nids_per_block L} r \<or> Z r)"
  shows "\<exists>w X'. (case r of Inl e \<Rightarrow> if e \<noteq> ENOENT then Some (Inl e, st1) else truncate_tops L g E (offs ! 0) (offs ! 1) nofs st1
      | Inr _ \<Rightarrow> truncate_tops L g E (offs ! 0) (offs ! 1) nofs st1) = Some w \<and> cut_done L X' st w \<and>
      (X' = X \<or> nid_at (f_nodes st) (f_ino st) q = 0 \<and> X' = X0)"
proof -
  note t = tree_okD [OF assms(3)]
  from assms(4) consider (none) "nid_at (f_nodes st) (f_ino st) q = 0" "st1 = st" "offs = offset'" "\<forall>e. r = Inl e \<longrightarrow> e = ENOENT"
    | (gone) "r = Inr ()" "offs = next_offset" "cut_done L (below q {k..<nids_per_block L}) st (r, st1)"
    | (err) e where "r = Inl e" "e \<noteq> ENOENT" "cut_done L (below q {k..<nids_per_block L}) st (r, st1)"
    by (auto simp: partial_done_def)
  then show ?thesis
  proof cases
    case none
    then show ?thesis using assms(5) by (auto split: sum.split)
  next
    case gone
    then have k: "kills L (f_ino st) (below q {k..<nids_per_block L}) (f_nodes st) (f_nodes st1)" "same_file st st1"
      by (auto simp: cut_done_def)
    have "tree_ok L (f_ino st1) (f_nodes st1)" using kills_tree_ok [OF k(1) assms(3)] same_file_view(1) [OF k(2)] by simp
    then obtain w where "truncate_tops L g E (next_offset ! 0) (next_offset ! 1) nofs st1 = Some w" "cut_done L Z st1 w"
      using assms(6) by blast
    then have "cut_done L X st w" using cut_done_after [OF k t(2)] assms(7) by simp
    then show ?thesis using gone \<open>truncate_tops L g E (next_offset ! 0) (next_offset ! 1) nofs st1 = Some w\<close>
      by (intro exI [of _ w] exI [of _ X]) simp
  next
    case err
    then have "cut_done L X st (r, st1)" unfolding assms(7) cut_done_def by (auto elim!: some_of_mono)
    then show ?thesis using err by (intro exI [of _ "(r, st1)"] exI [of _ X]) simp
  qed
qed

lemma truncate_inode_blocks_partial:
  assumes "get_node_path L (f_fi st) from = Some (level, offset, noffset)" "get_node_page E (f_ino st) st = Inr ri" "1 < level"
    and "offset ! (level - 1) \<noteq> 0" "truncate_partial_nodes L g E ri offset level st = (r, offs, st')"
  shows "\<exists>nofs. truncate_inode_blocks L g E from st =
    (case r of Inl e \<Rightarrow> if e \<noteq> ENOENT then Some (Inl e, st') else truncate_tops L g E (offs ! 0) (offs ! 1) nofs st'
     | Inr _ \<Rightarrow> truncate_tops L g E (offs ! 0) (offs ! 1) nofs st')"
  using assms by (intro exI) (auto simp: truncate_inode_blocks_def Let_def intro: refl)

lemma truncate_inode_blocks_spec:
  assumes "file_layout_ok L" "io_ok E" "file_ok L st" "get_node_path L (f_fi st) from = Some (level, offset, noffset)" "level \<noteq> 0"
    and "level = 1 \<Longrightarrow> offset ! 1 \<noteq> 0 \<Longrightarrow> nid_at (f_nodes st) (f_ino st) (dpos L offset) = 0"
  shows "\<exists>w X. truncate_inode_blocks L g E from st = Some w \<and> cut_done L X st w \<and> \<not> X [] \<and>
    (\<forall>q. data_pos L q \<longrightarrow> nid_at (f_nodes st) (f_ino st) q \<noteq> 0 \<longrightarrow> X q = cut_region L (dpos L offset) q)"
proof -
  have l: "layout_ok L" "node_dir2_block L = node_dir1_block L + 1" "node_ind1_block L = node_dir1_block L + 2"
    "node_ind2_block L = node_dir1_block L + 3" "node_dind_block L = node_dir1_block L + 4"
    using assms(1) by (simp_all add: file_layout_ok_def)
  have ok: "tree_ok L (f_ino st) (f_nodes st)" using assms(3) by (simp add: file_ok_def)
  note t = tree_okD [OF ok]
  obtain ri where ri: "f_nodes st (f_ino st) = Some ri" using t(3) by blast
  show ?thesis
  proof (cases "read_err E (f_ino st)")
    case (Some e)
    then have "truncate_inode_blocks L g E from st = Some (Inl e, st)" "e \<noteq> ENOENT"
      using assms(2,4) by (auto simp: truncate_inode_blocks_def get_node_page_def io_ok_def)
    moreover have "cut_done L (\<lambda>q. q \<noteq> [] \<and> cut_region L (dpos L offset) q) st (Inl e, st)" using calculation(2) by (rule cut_done_refl)
    ultimately show ?thesis
      by (intro exI [of _ "(Inl e, st)"] exI [of _ "\<lambda>q. q \<noteq> [] \<and> cut_region L (dpos L offset) q"]) (auto simp: data_pos_def)
  next
    case None
    then have pg: "get_node_page E (f_ino st) st = Inr ri" using ri by (simp add: get_node_page_def)
    have tops: "h < 5 \<Longrightarrow> (h < 2 \<Longrightarrow> k \<noteq> 0 \<Longrightarrow> nid_at (f_nodes st1) (f_ino st1) [h] = 0) \<Longrightarrow> tree_ok L (f_ino st1) (f_nodes st1) \<Longrightarrow>
       \<exists>w. truncate_tops L g E (node_dir1_block L + h) k nofs st1 = Some w \<and> cut_done L (rest_region L h k) st1 w" for h k nofs st1
      by (rule truncate_tops_spec [OF assms(1,2)])
    have one: ?thesis if p: "level = 1" "offset = [node_dir1_block L + h, c]" "h < 2" for h c
    proof -
      have d: "dpos L offset = [h]" using p by (simp add: dpos_def)
      obtain w where w: "truncate_tops L g E (node_dir1_block L + h) c (noffset ! 1) st = Some w" "cut_done L (rest_region L h c) st w"
        using tops [of h c st "noffset ! 1"] p assms(6) d ok by auto
      have "cut_done L (rest_region L h 0) st w"
      proof (rule cut_done_cong0 [OF w(2) t(2)])
        fix r assume "node_pos L r" "rest_region L h c r \<noteq> rest_region L h 0 r"
        then have "c \<noteq> 0" "prefix [h] r" by (cases "c = 0"; auto simp: rest_region_def top_region_def dest: below_prefix)+
        then show "nid_at (f_nodes st) (f_ino st) r = 0" using nid_at_below [OF ok] assms(6) p d by simp
      qed
      moreover have "truncate_inode_blocks L g E from st = Some w" using w(1) assms(4) pg p d by (simp add: truncate_inode_blocks_def)
      ultimately show ?thesis using d by (intro exI [of _ w] exI [of _ "rest_region L h 0"]) (simp add: rest_region_def)
    qed
    have two: ?thesis if p: "level = 2" "offset = [node_dir1_block L + h, k, c]" "h = 2 \<or> h = 3" for h k c
    proof -
      have d: "dpos L offset = [h, k]" using p by (simp add: dpos_def)
      have "\<exists>w. truncate_inode_blocks L g E from st = Some w \<and> cut_done L (rest_region L h k) st w"
      proof (cases "k = 0")
        case True
        then show ?thesis using tops [of h 0 st] p assms(4) pg ok by (auto simp: truncate_inode_blocks_def)
      next
        case False
        obtain r offs st1 where tp: "truncate_partial_nodes L g E ri offset 2 st = (r, offs, st1)" by (metis prod_cases3)
        have pd: "partial_done L [h] k offset [node_dir1_block L + h + 1, 0, c] st (r, offs, st1)"
          using truncate_partial_2 [where h = h and g = g and c = c, OF assms(2) ok ri _ False] p tp by auto
        have reg: "rest_region L h k = (\<lambda>r. below [h] {k..<nids_per_block L} r \<or> rest_region L (h + 1) 0 r)"
          using rest_region_step [of h L k] p(3) False by (auto simp: top_region_nz)
        have tail: "\<exists>w X'. (case r of Inl e \<Rightarrow> if e \<noteq> ENOENT then Some (Inl e, st1) else truncate_tops L g E (offs ! 0) (offs ! 1) nofs st1
          | Inr _ \<Rightarrow> truncate_tops L g E (offs ! 0) (offs ! 1) nofs st1) = Some w \<and> cut_done L X' st w \<and>
          (X' = rest_region L h k \<or> nid_at (f_nodes st) (f_ino st) [h] = 0 \<and> X' = rest_region L h k)" for nofs
          by (rule truncate_tail [OF assms(1,2) ok pd _ _ reg])
            (use tops [of h k st] tops [of "h + 1" 0] p ok in \<open>auto simp: add.assoc\<close>)
        obtain nofs where "truncate_inode_blocks L g E from st =
          (case r of Inl e \<Rightarrow> if e \<noteq> ENOENT then Some (Inl e, st1) else truncate_tops L g E (offs ! 0) (offs ! 1) nofs st1
           | Inr _ \<Rightarrow> truncate_tops L g E (offs ! 0) (offs ! 1) nofs st1)"
          using truncate_inode_blocks_partial [OF assms(4) pg, where g = g and r = r and offs = offs and st' = st1] p False tp by auto
        then show ?thesis using tail [of nofs] by auto
      qed
      then obtain w where "truncate_inode_blocks L g E from st = Some w" "cut_done L (rest_region L h k) st w" by blast
      then show ?thesis using d by (intro exI [of _ w] exI [of _ "rest_region L h k"]) (simp add: rest_region_def)
    qed
    have three: ?thesis if p: "level = 3" "offset = [node_dir1_block L + 4, a, j, c]" "a < nids_per_block L" for a j c
    proof -
      have d: "dpos L offset = [4, a, j]" using p by (simp add: dpos_def)
      show ?thesis
      proof (cases "j = 0")
        case True
        obtain w where "truncate_inode_blocks L g E from st = Some w" "cut_done L (rest_region L 4 a) st w"
          using tops [of 4 a st "5 + 2 * nids_per_block L"] p True assms(4) pg ok by (auto simp: truncate_inode_blocks_def)
        then show ?thesis using d True by (intro exI [of _ w] exI [of _ "rest_region L 4 a"]) (simp add: rest_region_def)
      next
        case False
        obtain r offs st1 where tp: "truncate_partial_nodes L g E ri offset 3 st = (r, offs, st1)" by (metis prod_cases3)
        have pd: "partial_done L [4, a] j offset [node_dir1_block L + 4, a + 1, 0, c] st (r, offs, st1)"
          using truncate_partial_3 [where g = g and c = c, OF assms(2) ok ri p(3) False] p tp by auto
        define X where "X = (\<lambda>r. below [4, a] {j..<nids_per_block L} r \<or> rest_region L 4 (a + 1) r)"
        have tail: "\<exists>w X'. (case r of Inl e \<Rightarrow> if e \<noteq> ENOENT then Some (Inl e, st1) else truncate_tops L g E (offs ! 0) (offs ! 1) nofs st1
          | Inr _ \<Rightarrow> truncate_tops L g E (offs ! 0) (offs ! 1) nofs st1) = Some w \<and> cut_done L X' st w \<and>
          (X' = X \<or> nid_at (f_nodes st) (f_ino st) [4, a] = 0 \<and> X' = rest_region L 4 a)" for nofs
          by (rule truncate_tail [OF assms(1,2) ok pd _ _ X_def])
            (use tops [of 4 a st] tops [of 4 "a + 1"] p ok in \<open>auto simp: add.assoc\<close>)
        obtain nofs where eq: "truncate_inode_blocks L g E from st =
          (case r of Inl e \<Rightarrow> if e \<noteq> ENOENT then Some (Inl e, st1) else truncate_tops L g E (offs ! 0) (offs ! 1) nofs st1
           | Inr _ \<Rightarrow> truncate_tops L g E (offs ! 0) (offs ! 1) nofs st1)"
          using truncate_inode_blocks_partial [OF assms(4) pg, where g = g and r = r and offs = offs and st' = st1] p False tp by auto
        obtain w X' where w: "truncate_inode_blocks L g E from st = Some w" "cut_done L X' st w"
          and X': "X' = X \<or> nid_at (f_nodes st) (f_ino st) [4, a] = 0 \<and> X' = rest_region L 4 a"
          using tail [of nofs, folded eq] by blast
        have "X' r = X r" if r: "data_pos L r" "nid_at (f_nodes st) (f_ino st) r \<noteq> 0" for r
        proof (cases "X' = X")
          case False
          then have z: "nid_at (f_nodes st) (f_ino st) [4, a] = 0" "X' = rest_region L 4 a" using X' by auto
          then have "\<not> prefix [4, a] r" using nid_at_below [OF ok] r(2) by blast
          then show ?thesis using r(1) z(2) by (auto simp: data_pos_def X_def rest_region_def top_region_def below_def)
        qed simp
        moreover have "X = cut_region L (dpos L offset)" using d False by (simp add: X_def)
        moreover have "\<not> X' []" using X' by (auto simp: X_def rest_region_def)
        ultimately show ?thesis using w by blast
      qed
    qed
    show ?thesis
      by (cases rule: get_node_path_cases [OF assms(4) layout_okD(1,2) [OF l(1)]])
        (use assms(5) one [of 0] one [of 1] two [of 2] two [of 3] three in \<open>auto simp: l\<close>)
  qed
qed


section \<open>Looking up a block\<close>

lemma walk_step:
  assumes "offs \<noteq> []" "mode \<noteq> ALLOC_NODE"
  shows "walk_nodes L g E mode i nid p (off # offs) (n # ns) st =
    (if get_nid L p off i = 0 \<and> mode = LOOKUP_NODE_RA \<and> tl offs = [] \<and> \<not> i then Some (Inl ENOENT, st)
     else (case get_node_page E (get_nid L p off i) st of
             Inl e \<Rightarrow> Some (Inl e, st)
           | Inr q \<Rightarrow> walk_nodes L g E mode False (get_nid L p off i) q offs ns st))"
  using assms by (cases offs) (auto simp: Let_def)

text \<open>The walk ends at the node at the position, when it and all the nodes on the way are there.\<close>

definition walk_found :: "(u32 \<rightharpoonup> node_page) \<Rightarrow> u32 \<Rightarrow> nat list \<Rightarrow> errno + u32 \<Rightarrow> bool" where
  "walk_found N nid q r \<longleftrightarrow>
     (case r of Inr n \<Rightarrow> n = nid_at N nid q \<and> n \<noteq> 0 | Inl e \<Rightarrow> e = ENOENT \<longrightarrow> nid_at N nid q = 0)"

definition nodes_there :: "(u32 \<rightharpoonup> node_page) \<Rightarrow> u32 \<Rightarrow> nat list \<Rightarrow> bool" where
  "nodes_there N nid q \<longleftrightarrow> (\<forall>r. prefix r q \<longrightarrow> nid_at N nid r \<noteq> 0 \<longrightarrow> N (nid_at N nid r) \<noteq> None)"

lemma nodes_there_step:
  assumes "nodes_there N nid (k # q)" "N nid = Some p" "n_nid p k \<noteq> 0"
  shows "N (n_nid p k) \<noteq> None" "nodes_there N (n_nid p k) q"
proof -
  have "N (nid_at N nid (k # r)) \<noteq> None" if "prefix r q" "nid_at N nid (k # r) \<noteq> 0" for r
    using assms(1) that by (auto simp: nodes_there_def)
  then have h: "N (nid_at N (n_nid p k) r) \<noteq> None" if "prefix r q" "nid_at N (n_nid p k) r \<noteq> 0" for r
    using that assms(2,3) by (simp add: nid_at.simps(2))
  show "nodes_there N (n_nid p k) q" using h by (simp add: nodes_there_def)
  show "N (n_nid p k) \<noteq> None" using h [of "[]"] assms(3) by simp
qed

lemma walk_child:
  assumes "io_ok E" "f_nodes st 0 = None" "f_nodes st nid = Some p" "mode \<noteq> ALLOC_NODE" "offs \<noteq> []"
    and "k = nid_slot L off i" "nodes_there (f_nodes st) nid (k # q)"
    and "\<And>c p'. f_nodes st c = Some p' \<Longrightarrow> c \<noteq> 0 \<Longrightarrow> nodes_there (f_nodes st) c q \<Longrightarrow>
      \<exists>r. walk_nodes L g E mode False c p' offs ns st = Some (r, st) \<and> walk_found (f_nodes st) c q r"
  shows "\<exists>r. walk_nodes L g E mode i nid p (off # offs) (n # ns) st = Some (r, st) \<and> walk_found (f_nodes st) nid (k # q) r"
proof (cases "n_nid p k = 0")
  case True
  then have z: "nid_at (f_nodes st) nid (k # q) = 0" using assms(3) by (simp add: nid_at.simps(2))
  obtain e where "get_node_page E 0 st = Inl e" using assms(2) by (cases "read_err E 0") (simp_all add: get_node_page_def)
  moreover have "get_nid L p off i = 0" using True assms(6) by (simp add: get_nid_def)
  ultimately show ?thesis using z by (auto simp: walk_step [OF assms(5,4)] walk_found_def)
next
  case False
  note t = nodes_there_step [OF assms(7,3) False]
  obtain p' where p': "f_nodes st (n_nid p k) = Some p'" using t(1) by blast
  have g: "get_nid L p off i = n_nid p k" using assms(6) by (simp add: get_nid_def)
  have n: "nid_at (f_nodes st) nid (k # q) = nid_at (f_nodes st) (n_nid p k) q" using assms(3) False by (simp add: nid_at.simps(2))
  show ?thesis
  proof (cases "read_err E (n_nid p k)")
    case None
    then show ?thesis using assms(8) [OF p' False t(2)] p' g n False
      by (auto simp: walk_step [OF assms(5,4)] get_node_page_def walk_found_def split: sum.splits)
  next
    case (Some e)
    then show ?thesis using assms(1) g False by (auto simp: walk_step [OF assms(5,4)] get_node_page_def walk_found_def io_ok_def)
  qed
qed

lemma walk_down:
  assumes "io_ok E" "f_nodes st 0 = None" "mode \<noteq> ALLOC_NODE"
    and "f_nodes st nid = Some p" "nid \<noteq> 0" "nodes_there (f_nodes st) nid q" "length ns = length q"
  shows "\<exists>r. walk_nodes L g E mode False nid p (q @ [c]) ns st = Some (r, st) \<and> walk_found (f_nodes st) nid q r"
  using assms(4-7)
proof (induction q arbitrary: nid p ns)
  case Nil
  then show ?case by (auto simp: walk_found_def)
next
  case (Cons k q)
  obtain n ns' where ns: "ns = n # ns'" using Cons.prems(4) by (cases ns) auto
  show ?case unfolding ns append_Cons
    by (rule walk_child [OF assms(1,2) Cons.prems(1) assms(3) _ _ Cons.prems(3)])
      (use Cons.IH [of _ _ ns'] Cons.prems(4) ns in \<open>auto simp: nid_slot_def\<close>)
qed

lemma get_dnode_lookup:
  assumes "file_layout_ok L" "io_ok E" "file_ok L st" "\<not> f2fs_has_inline_data st" "mode \<noteq> ALLOC_NODE"
    and "get_node_path L (f_fi st) b = Some (level, offset, noffset)"
  defines "nid \<equiv> nid_at (f_nodes st) (f_ino st) (dpos L offset)"
  shows "\<exists>r. get_dnode_of_data L g E b mode st = Some (r, st) \<and>
    (case r of
       Inr dn \<Rightarrow> dn_nid dn = nid \<and> nid \<noteq> 0 \<and> dn_ofs_in_node dn = last offset \<and> dn_blkaddr dn = file_map L st b
     | Inl e \<Rightarrow> e = ENOENT \<longrightarrow> nid = 0)"
proof -
  have l: "layout_ok L" using assms(1) by (simp add: file_layout_ok_def)
  have ok: "tree_ok L (f_ino st) (f_nodes st)" using assms(3) by (simp add: file_ok_def)
  note t = tree_okD [OF ok]
  note shape = path_shape [OF assms(1,6)]
  have len: "length noffset = level + 1"
    using get_node_path_leaf [OF assms(6) layout_okD(1,2) [OF l]] by simp
  obtain p where p: "f_nodes st (f_ino st) = Some p" using t(3) by blast
  have there: "nodes_there (f_nodes st) (f_ino st) (dpos L offset)"
    unfolding nodes_there_def prefix_def using t(4) node_pos_prefix shape(1) by (metis option.distinct(1))
  show ?thesis
  proof (cases "read_err E (f_ino st)")
    case (Some e)
    then have "get_dnode_of_data L g E b mode st = Some (Inl e, st)" using assms(6) by (simp add: get_dnode_of_data_def get_node_page_def)
    moreover have "e \<noteq> ENOENT" using assms(2) Some by (auto simp: io_ok_def)
    ultimately show ?thesis by simp
  next
    case None
    have "\<exists>r. walk_nodes L g E mode True (f_ino st) p offset (tl noffset) st = Some (r, st) \<and>
      walk_found (f_nodes st) (f_ino st) (dpos L offset) r"
    proof (cases "butlast offset")
      case Nil
      then have d: "dpos L offset = []" by (simp add: dpos_def)
      have "level = 0" unfolding shape(2) d by simp
      then have "offset = [b]" by (rule conjunct1 [OF shape(5)])
      then show ?thesis using t(1) d by (simp add: walk_found_def)
    next
      case (Cons h q)
      have off: "offset = h # q @ [last offset]" using Cons shape(3)
        by (metis append_Cons append_butlast_last_id list.size(3) add_is_0 zero_neq_one)
      have d: "dpos L offset = nid_slot L h True # q" using Cons by (simp add: dpos_def nid_slot_def)
      obtain m n ns where ns: "noffset = m # n # ns" "length ns = length q"
        using len shape(2) d by (cases noffset; cases "tl noffset") auto
      have tl: "tl noffset = n # ns" using ns by simp
      show ?thesis unfolding tl d by (subst off) (rule walk_child [OF assms(2) t(2) p assms(5) _ refl there [unfolded d]];
        use walk_down [OF assms(2) t(2) assms(5)] ns in auto)
    qed
    then obtain r where "walk_nodes L g E mode True (f_ino st) p offset (tl noffset) st = Some (r, st)"
      "walk_found (f_nodes st) (f_ino st) (dpos L offset) r" by blast
    moreover have "get_node_page E (f_ino st) st = Inr p" using None p by (simp add: get_node_page_def)
    ultimately show ?thesis using assms(4,6)
      by (cases r) (simp_all add: get_dnode_of_data_def walk_found_def file_map_def nid_def)
  qed
qed


section \<open>What a cut does to the map\<close>

lemma file_map_same:
  assumes "same_file st st'" "get_node_path L (f_fi st) b = Some (level, offset, noffset)"
    "nid_at (f_nodes st') (f_ino st) (dpos L offset) = nid_at (f_nodes st) (f_ino st) (dpos L offset)"
    "map_option n_addr (f_nodes st' (nid_at (f_nodes st) (f_ino st) (dpos L offset))) =
     map_option n_addr (f_nodes st (nid_at (f_nodes st) (f_ino st) (dpos L offset)))"
  shows "file_map L st' b = file_map L st b"
proof -
  note v = same_file_view [OF assms(1)]
  show ?thesis using assms(2-4)
    by (cases "f_nodes st' (nid_at (f_nodes st) (f_ino st) (dpos L offset))";
        cases "f_nodes st (nid_at (f_nodes st) (f_ino st) (dpos L offset))") (simp_all add: file_map_def v)
qed

lemma kills_file_map:
  assumes "file_layout_ok L" "file_ok L st" "same_file st st'" "kills L (f_ino st) X (f_nodes st) (f_nodes st')"
    and "get_node_path L (f_fi st) b = Some (level, offset, noffset)"
  shows "file_map L st' b = (if X (dpos L offset) then null_addr L else file_map L st b)"
proof -
  have ok: "tree_ok L (f_ino st) (f_nodes st)" using assms(2) by (simp add: file_ok_def)
  note t = tree_okD [OF ok] and k = killsD [OF assms(4)] and v = same_file_view [OF assms(3)]
  note pos = path_shape(1) [OF assms(1,5)]
  define n where "n = nid_at (f_nodes st) (f_ino st) (dpos L offset)"
  show ?thesis
  proof (cases "X (dpos L offset)")
    case True
    have "f_nodes st' 0 = None" using k(2) [of 0] t(2) by simp
    then show ?thesis using True k(1) [OF pos] assms(5) by (simp add: file_map_def v)
  next
    case False
    then have same: "nid_at (f_nodes st') (f_ino st) (dpos L offset) = n" using k(1) [OF pos] by (simp add: n_def)
    have "map_option n_addr (f_nodes st' n) = map_option n_addr (f_nodes st n)"
    proof (cases "f_nodes st' n")
      case None
      have "\<not> (\<exists>q. node_pos L q \<and> X q \<and> nid_at (f_nodes st) (f_ino st) q = n)" if "n \<noteq> 0"
        using t(5) [OF pos] False that unfolding n_def by metis
      then have "f_nodes st n = None" using None k(2) [of n] t(2) by (cases "n = 0") auto
      then show ?thesis using None by simp
    next
      case (Some p')
      then show ?thesis using k(3) [OF Some] by auto
    qed
    then show ?thesis using file_map_same [OF assms(3,5)] same False by (simp add: n_def)
  qed
qed

text \<open>A cut in two: the blocks of nodes outside stay, and without an error the ones inside go.\<close>

lemma cut_done_map:
  assumes "file_layout_ok L" "file_ok L st" "cut_done L X st (r, st')" "\<not> X []"
  shows "file_ok L st'" "same_file st st'"
    "get_node_path L (f_fi st) b = Some (level, offset, noffset) \<Longrightarrow>
       \<not> X (dpos L offset) \<or> nid_at (f_nodes st) (f_ino st) (dpos L offset) = 0 \<Longrightarrow> file_map L st' b = file_map L st b"
    "get_node_path L (f_fi st) b = Some (level, offset, noffset) \<Longrightarrow> X (dpos L offset) \<Longrightarrow> r = Inr () \<Longrightarrow> file_map L st' b = null_addr L"
    "file_map L st' b = file_map L st b \<or> file_map L st' b = null_addr L"
proof -
  have ok: "tree_ok L (f_ino st) (f_nodes st)" using assms(2) by (simp add: file_ok_def)
  show sf: "same_file st st'" using assms(3) by (simp add: cut_done_def)
  note v = same_file_view [OF sf]
  obtain Y where Y: "\<And>q. Y q \<Longrightarrow> X q" "kills L (f_ino st) Y (f_nodes st) (f_nodes st')" "r = Inr () \<longrightarrow> Y = X"
    using assms(3) by (auto simp: cut_done_def some_of_def)
  note k = kills_file_map [OF assms(1,2) sf Y(2)]
  show "file_ok L st'" using kills_tree_ok [OF Y(2) ok] Y(1) assms(4) by (auto simp: file_ok_def v)
  show "file_map L st' b = file_map L st b" if path: "get_node_path L (f_fi st) b = Some (level, offset, noffset)"
    and "\<not> X (dpos L offset) \<or> nid_at (f_nodes st) (f_ino st) (dpos L offset) = 0"
  proof -
    have "file_map L st b = null_addr L" if "nid_at (f_nodes st) (f_ino st) (dpos L offset) = 0"
      using that path tree_okD(2) [OF ok] by (simp add: file_map_def)
    then show ?thesis using that Y(1) k [OF path] by (cases "Y (dpos L offset)") auto
  qed
  show "file_map L st' b = null_addr L" if "get_node_path L (f_fi st) b = Some (level, offset, noffset)" "X (dpos L offset)" "r = Inr ()"
    using k [OF that(1)] that Y(3) by simp
  show "file_map L st' b = file_map L st b \<or> file_map L st' b = null_addr L"
  proof (cases "get_node_path L (f_fi st) b")
    case None
    then show ?thesis by (simp add: file_map_def v)
  next
    case (Some w)
    then show ?thesis using k by (cases w) simp
  qed
qed

text \<open>
  \<open>truncate_inode_blocks\<close> from the first block of a data node, or from any block of a missing one.
\<close>

lemma truncate_inode_blocks_map:
  assumes "file_layout_ok L" "io_ok E" "file_ok L st" "get_node_path L (f_fi st) from = Some (level, offset, noffset)" "level \<noteq> 0"
    and "last offset = 0 \<or> nid_at (f_nodes st) (f_ino st) (dpos L offset) = 0"
  shows "\<exists>r st'. truncate_inode_blocks L g E from st = Some (r, st') \<and> file_ok L st' \<and> same_file st st' \<and>
    (\<forall>b<from. file_map L st' b = file_map L st b) \<and>
    (\<forall>b. file_map L st' b = file_map L st b \<or> file_map L st' b = null_addr L) \<and> (r = Inr () \<longrightarrow> (\<forall>b\<ge>from. file_map L st' b = null_addr L))"
proof -
  define A where "A = addrs_per_block L"
  define I where "I = addrs_per_inode L (f_fi st)"
  define n where "n = nid_at (f_nodes st) (f_ino st)"
  note sh = path_shape [OF assms(1,4)] and dp = path_data_pos [OF assms(1,4,5)]
  have "level = 1 \<Longrightarrow> offset ! 1 \<noteq> 0 \<Longrightarrow> nid_at (f_nodes st) (f_ino st) (dpos L offset) = 0"
    using assms(6) sh(3) last_conv_nth [of offset] by fastforce
  then obtain r st' X where w: "truncate_inode_blocks L g E from st = Some (r, st')" "cut_done L X st (r, st')" "\<not> X []"
      and X: "\<And>q. data_pos L q \<Longrightarrow> n q \<noteq> 0 \<Longrightarrow> X q = cut_region L (dpos L offset) q"
    using truncate_inode_blocks_spec [OF assms(1-5), of g] unfolding n_def by (metis prod.collapse)
  note m = cut_done_map [OF assms(1,3) w(2,3)] and v = same_file_view [OF m(2)]
  have order: "X (dpos L off) \<longleftrightarrow> from \<le> b" if path: "get_node_path L (f_fi st) b = Some (lev, off, noff)" and there: "n (dpos L off) \<noteq> 0" for b lev off noff
  proof (cases "lev = 0")
    case True
    note s = path_shape [OF assms(1) path]
    have d: "dpos L off = []" using s(2) True by simp
    have "b < I" using s(5) [OF True] by (simp add: I_def)
    moreover have "I \<le> from" using sh(4) [OF assms(5)] by (simp add: I_def)
    ultimately show ?thesis using w(3) d by simp
  next
    case False
    note s = path_shape [OF assms(1) path]
    have X': "X (dpos L off) \<longleftrightarrow> dnode_no L (dpos L offset) \<le> dnode_no L (dpos L off)"
      using X [OF path_data_pos [OF assms(1) path False] there] cut_region_order [OF dp path_data_pos [OF assms(1) path False]] by simp
    have b: "b = I + dnode_no L (dpos L off) * A + last off" "last off < A" using s(4) [OF False] by (simp_all add: A_def I_def)
    have f: "from = I + dnode_no L (dpos L offset) * A + last offset" "last offset < A" using sh(4) [OF assms(5)] by (simp_all add: A_def I_def)
    have "dnode_no L (dpos L offset) < dnode_no L (dpos L off) \<or> dnode_no L (dpos L offset) = dnode_no L (dpos L off) \<and> last offset \<le> last off
        \<longleftrightarrow> from \<le> b"
      using lex_le [OF f(2) b(2), of "dnode_no L (dpos L offset)" "dnode_no L (dpos L off)"] b(1) f(1) by simp
    moreover have "last offset \<le> last off \<or> dnode_no L (dpos L offset) \<noteq> dnode_no L (dpos L off)"
    proof (cases "last offset = 0")
      case False
      then have "n (dpos L offset) = 0" using assms(6) by (simp add: n_def)
      then have "dpos L off \<noteq> dpos L offset" using there by auto
      moreover have "dpos L off = dpos L offset" if "dnode_no L (dpos L off) = dnode_no L (dpos L offset)"
        by (rule dnode_no_inj [OF path_data_pos [OF assms(1) path \<open>lev \<noteq> 0\<close>] dp that])
      ultimately show ?thesis by auto
    qed simp
    ultimately show ?thesis using X' by linarith
  qed
  have none: "file_map L st b = null_addr L" if "get_node_path L (f_fi st) b = Some (lev, off, noff)" "n (dpos L off) = 0" for b lev off noff
    using that assms(3) by (auto simp: file_map_def n_def file_ok_def dest: tree_okD(2))
  have "file_map L st' b = file_map L st b" if b: "b < from" for b
  proof (cases "get_node_path L (f_fi st) b")
    case (Some w)
    then obtain lev off noff where p: "get_node_path L (f_fi st) b = Some (lev, off, noff)" by (cases w) auto
    show ?thesis using m(3) [OF p] order [OF p] b by (auto simp: n_def)
  qed (simp add: file_map_def v)
  moreover have "file_map L st' b = null_addr L" if "r = Inr ()" "from \<le> b" for b
  proof (cases "get_node_path L (f_fi st) b")
    case (Some w)
    then obtain lev off noff where p: "get_node_path L (f_fi st) b = Some (lev, off, noff)" by (cases w) auto
    show ?thesis using m(3,4) [OF p] order [OF p] none [OF p] that by (cases "n (dpos L off) = 0") (auto simp: n_def)
  qed (simp add: file_map_def v)
  ultimately show ?thesis using w(1) m(1,2,5) by blast
qed

end
