(* ===== verification/File_Ops.thy ===== *)
theory File_Ops
  imports File_Map
begin

text \<open>
  The operations of \<open>file.c\<close> on the blocks of a file: cutting it (\<open>truncate_blocks\<close>), freeing a range of
  blocks (\<open>truncate_hole\<close>) and searching for data or a hole (\<open>f2fs_seek_block\<close>); what each of them does to the
  map of the file. The bytes of data pages (\<open>truncate_partial_data_page\<close>, which never fails) are not modelled.
\<close>

section \<open>Operations\<close>

definition truncate_inline_inode :: "layout \<Rightarrow> nat \<Rightarrow> file_state \<Rightarrow> bool \<times> file_state" where
  "truncate_inline_inode L from st =
     (if from \<ge> max_inline_data L then (False, st)
      else (True, st\<lparr>f_inline := (\<lambda>i. if from \<le> i \<and> i < max_inline_data L then 0 else f_inline st i)\<rparr>))"

definition addrs_per_page :: "layout \<Rightarrow> file_state \<Rightarrow> u32 \<Rightarrow> nat" where
  "addrs_per_page L st nid = (if nid = f_ino st then addrs_per_inode L (f_fi st) else addrs_per_block L)"

text \<open>A new size in bytes; the block size is the page size. \<open>None\<close> is a \<open>BUG()\<close> below.\<close>

definition truncate_blocks :: "layout \<Rightarrow> geom \<Rightarrow> file_env \<Rightarrow> nat \<Rightarrow> file_state \<Rightarrow> ((errno + unit) \<times> file_state) option" where
  "truncate_blocks L g E from st =
     (let free_from = (from + page_size L - 1) div page_size L
      in case get_node_page E (f_ino st) st of
           Inl e \<Rightarrow> Some (Inl e, st)
         | Inr _ \<Rightarrow>
             if f2fs_has_inline_data st then Some (Inr (), snd (truncate_inline_inode L from st))
             else (case get_dnode_of_data L g E free_from LOOKUP_NODE st of
                     None \<Rightarrow> None
                   | Some (Inl e, st) \<Rightarrow> if e = ENOENT then truncate_inode_blocks L g E free_from st else Some (Inl e, st)
                   | Some (Inr dn, st) \<Rightarrow>
                       let addrs = addrs_per_page L st (dn_nid dn);
                           count = addrs - dn_ofs_in_node dn;
                           st = st\<lparr>f_sb := f2fs_bug_on (addrs < dn_ofs_in_node dn) (f_sb st)\<rparr>
                       in if dn_ofs_in_node dn \<noteq> 0 \<or> dn_nid dn = f_ino st
                          then truncate_inode_blocks L g E (free_from + count)
                                 (snd (truncate_data_blocks_range L g (dn_nid dn) (dn_ofs_in_node dn) count st))
                          else truncate_inode_blocks L g E free_from st))"

fun truncate_hole :: "layout \<Rightarrow> geom \<Rightarrow> file_env \<Rightarrow> nat list \<Rightarrow> file_state \<Rightarrow> ((errno + unit) \<times> file_state) option" where
  "truncate_hole L g E [] st = Some (Inr (), st)"
| "truncate_hole L g E (index # is) st =
     (case get_dnode_of_data L g E index LOOKUP_NODE st of
        None \<Rightarrow> None
      | Some (Inl e, st) \<Rightarrow> if e = ENOENT then truncate_hole L g E is st else Some (Inl e, st)
      | Some (Inr dn, st) \<Rightarrow>
          truncate_hole L g E is
            (if dn_blkaddr dn \<noteq> null_addr L then snd (truncate_data_blocks_range L g (dn_nid dn) (dn_ofs_in_node dn) 1 st) else st))"

section \<open>Freeing data blocks\<close>

lemma nid_at_cut_addrs [simp]: "nid_at (cut_addrs n I a N) i q = nid_at N i q"
  by (induction q arbitrary: i) (auto simp: nid_at.simps(2) cut_addrs_def split: option.split)

lemma cut_addrs_None [simp]: "cut_addrs n I a N i = None \<longleftrightarrow> N i = None"
  by (auto simp: cut_addrs_def split: option.split)

lemma cut_addrs_tree_ok: "tree_ok L ino (cut_addrs n I a N) = tree_ok L ino N"
  by (simp add: tree_ok_def)

lemma cut_addrs_at: "N n = Some p \<Longrightarrow> cut_addrs n I a N n = Some (p\<lparr>n_addr := (\<lambda>i. if i \<in> I then a else n_addr p i)\<rparr>)"
  by (simp add: cut_addrs_def)

lemma set_addrs_map:
  assumes "file_layout_ok L" "file_ok L st" "get_node_path L (f_fi st) c = Some (level, offset, noffset)"
    and "nid = nid_at (f_nodes st) (f_ino st) (dpos L offset)" "nid \<noteq> 0"
    and "f_nodes st' = cut_addrs nid I a (f_nodes st)" "f_ino st' = f_ino st" "get_node_path L (f_fi st') = get_node_path L (f_fi st)"
  shows "file_ok L st'"
    "get_node_path L (f_fi st) b = Some (level', offset', noffset') \<Longrightarrow>
       file_map L st' b = (if dpos L offset' = dpos L offset \<and> last offset' \<in> I then a else file_map L st b)"
proof -
  have ok: "tree_ok L (f_ino st) (f_nodes st)" using assms(2) by (simp add: file_ok_def)
  note t = tree_okD [OF ok]
  show "file_ok L st'" using ok by (simp add: file_ok_def assms(6,7) cut_addrs_tree_ok)
  show "file_map L st' b = (if dpos L offset' = dpos L offset \<and> last offset' \<in> I then a else file_map L st b)"
    if p: "get_node_path L (f_fi st) b = Some (level', offset', noffset')"
  proof (cases "nid_at (f_nodes st) (f_ino st) (dpos L offset') = nid")
    case True
    then have d: "dpos L offset' = dpos L offset"
      using t(5) [OF path_shape(1) [OF assms(1) p] path_shape(1) [OF assms(1,3)]] assms(4,5) by simp
    obtain pg where "f_nodes st nid = Some pg" using t(4) [OF path_shape(1) [OF assms(1,3)]] assms(4,5) by auto
    then show ?thesis using p d assms(4) by (simp add: file_map_def assms(6-8) cut_addrs_at)
  next
    case False
    then have "dpos L offset' \<noteq> dpos L offset" using assms(4) by auto
    moreover have "cut_addrs nid I a (f_nodes st) m = f_nodes st m" if "m \<noteq> nid" for m
      using that by (simp add: cut_addrs_def split: option.split)
    ultimately show ?thesis using p False by (simp add: file_map_def assms(6-8))
  qed
qed

lemma truncate_range_map:
  assumes "file_layout_ok L" "file_ok L st" "get_node_path L (f_fi st) c = Some (level, offset, noffset)"
    and "nid = nid_at (f_nodes st) (f_ino st) (dpos L offset)" "nid \<noteq> 0"
    and "truncate_data_blocks_range L g nid ofs count st = (n, st')"
  shows "file_ok L st'" "same_file st st'"
    "get_node_path L (f_fi st) b = Some (level', offset', noffset') \<Longrightarrow>
       file_map L st' b = (if dpos L offset' = dpos L offset \<and> ofs \<le> last offset' \<and> last offset' < ofs + count
                           then null_addr L else file_map L st b)"
proof -
  note r = truncate_range_nodes [OF assms(6)]
  note m = set_addrs_map [OF assms(1-5) r(1) same_file_view(1,3) [OF r(2)]]
  show "file_ok L st'" "same_file st st'" by (rule m(1), rule r(2))
  show "file_map L st' b = (if dpos L offset' = dpos L offset \<and> ofs \<le> last offset' \<and> last offset' < ofs + count
                           then null_addr L else file_map L st b)"
    if "get_node_path L (f_fi st) b = Some (level', offset', noffset')"
    using m(2) [OF that] by simp
qed

lemma lex_same: "l < A \<Longrightarrow> m = n \<longleftrightarrow> n * A \<le> m * A + l \<and> m * A + l < n * A + A" for A :: nat
proof (cases m n rule: linorder_cases)
  case less
  assume "l < A"
  have "Suc m * A \<le> n * A" using less by (intro mult_le_mono1) simp
  then show ?thesis using less \<open>l < A\<close> by simp
next
  case greater
  have "Suc n * A \<le> m * A" using greater by (intro mult_le_mono1) simp
  then show ?thesis using greater by simp
qed simp

text \<open>The blocks with their entry in the same node.\<close>

lemma same_node_iff:
  assumes "file_layout_ok L" "get_node_path L fi c = Some (level, offset, noffset)" "get_node_path L fi b = Some (level', offset', noffset')"
  shows "dpos L offset' = dpos L offset \<longleftrightarrow>
    c \<le> b + last offset \<and> b + last offset < c + (if level = 0 then addrs_per_inode L fi else addrs_per_block L)"
    "dpos L offset' = dpos L offset \<Longrightarrow> b + last offset = c + last offset'"
proof -
  define A where "A = addrs_per_block L"
  define I where "I = addrs_per_inode L fi"
  note s = path_shape [OF assms(1,2)] and s' = path_shape [OF assms(1,3)]
  have same_level: "dpos L offset' = dpos L offset \<Longrightarrow> level' = level" using s(2) s'(2) by simp
  show "dpos L offset' = dpos L offset \<longleftrightarrow>
    c \<le> b + last offset \<and> b + last offset < c + (if level = 0 then addrs_per_inode L fi else addrs_per_block L)"
  proof (cases "level = 0")
    case True
    have z: "dpos L offset = []" using s(2) True by simp
    have l: "last offset = c" using s(5) [OF True] by simp
    have "level' = 0 \<Longrightarrow> b < I" "level' \<noteq> 0 \<Longrightarrow> I \<le> b" using s'(5) conjunct1 [OF s'(4)] by (simp_all add: I_def)
    then have "dpos L offset' = [] \<longleftrightarrow> b < I" using s'(2) by (cases "level' = 0") auto
    then show ?thesis using True z l by (simp add: I_def)
  next
    case False
    then have c: "c = I + dnode_no L (dpos L offset) * A + last offset" "last offset < A" using s(4) by (simp_all add: A_def I_def)
    show ?thesis
    proof (cases "level' = 0")
      case True
      then have "b < I" using s'(5) by (simp add: I_def)
      then show ?thesis using True False same_level c by auto
    next
      case nz: False
      then have b: "b = I + dnode_no L (dpos L offset') * A + last offset'" "last offset' < A" using s'(4) by (simp_all add: A_def I_def)
      have "dpos L offset' = dpos L offset \<longleftrightarrow> dnode_no L (dpos L offset') = dnode_no L (dpos L offset)"
        using dnode_no_inj [OF path_data_pos [OF assms(1,3) nz] path_data_pos [OF assms(1,2) False]] by auto
      also have "\<dots> \<longleftrightarrow> c \<le> b + last offset \<and> b + last offset < c + A"
        unfolding lex_same [OF b(2)] unfolding b(1) c(1) by auto
      finally show ?thesis using False by (simp add: A_def)
    qed
  qed
  show "b + last offset = c + last offset'" if "dpos L offset' = dpos L offset"
  proof (cases "level = 0")
    case True
    then show ?thesis using conjunct1 [OF s(5) [OF True]] conjunct1 [OF s'(5)] same_level [OF that] by simp
  next
    case False
    then have "c = I + dnode_no L (dpos L offset) * A + last offset" "b = I + dnode_no L (dpos L offset') * A + last offset'"
      using s(4) s'(4) same_level [OF that] by (simp_all add: A_def I_def)
    then show ?thesis using that by simp
  qed
qed


lemma free_node_range:
  assumes "file_layout_ok L" "file_ok L st" "get_node_path L (f_fi st) c = Some (level, offset, noffset)"
    and "nid = nid_at (f_nodes st) (f_ino st) (dpos L offset)" "nid \<noteq> 0"
    and "last offset + count \<le> (if level = 0 then addrs_per_inode L (f_fi st) else addrs_per_block L)"
    and "truncate_data_blocks_range L g nid (last offset) count st = (n, st')"
  shows "file_ok L st'" "same_file st st'"
    "file_map L st' b = (if c \<le> b \<and> b < c + count then null_addr L else file_map L st b)"
proof -
  note r = truncate_range_map [OF assms(1-5,7)] and v = same_file_view [OF r(2)]
  show "file_ok L st'" "same_file st st'" by (rule r)+
  show "file_map L st' b = (if c \<le> b \<and> b < c + count then null_addr L else file_map L st b)"
  proof (cases "get_node_path L (f_fi st) b")
    case None
    then show ?thesis by (simp add: file_map_def v)
  next
    case (Some w)
    then obtain level' offset' noffset' where p: "get_node_path L (f_fi st) b = Some (level', offset', noffset')" by (cases w) auto
    note i = same_node_iff [OF assms(1,3) p]
    have "dpos L offset' = dpos L offset \<and> last offset \<le> last offset' \<and> last offset' < last offset + count \<longleftrightarrow> c \<le> b \<and> b < c + count"
    proof (cases "dpos L offset' = dpos L offset")
      case True
      then show ?thesis using i(2) [OF True] by auto
    next
      case False
      then have "\<not> (c \<le> b + last offset \<and> b + last offset < c + (if level = 0 then addrs_per_inode L (f_fi st) else addrs_per_block L))"
        using i(1) by blast
      then show ?thesis using False assms(6) by linarith
    qed
    then show ?thesis using r(3) [OF p] by simp
  qed
qed

lemma inode_level:
  assumes "file_layout_ok L" "file_ok L st" "get_node_path L (f_fi st) c = Some (level, offset, noffset)"
  shows "nid_at (f_nodes st) (f_ino st) (dpos L offset) = f_ino st \<longleftrightarrow> level = 0"
proof -
  have ok: "tree_ok L (f_ino st) (f_nodes st)" using assms(2) by (simp add: file_ok_def)
  have "nid_at (f_nodes st) (f_ino st) (dpos L offset) = f_ino st \<longleftrightarrow> dpos L offset = []"
    using tree_okD(5) [OF ok path_shape(1) [OF assms(1,3)], of "[]"] tree_okD(1) [OF ok] by auto
  then show ?thesis using path_shape(2) [OF assms(1,3)] by simp
qed

lemma get_node_path_mono:
  assumes "get_node_path L fi c \<noteq> None" "b \<le> c"
  shows "get_node_path L fi b \<noteq> None"
  using assms unfolding get_node_path_def Let_def by (auto split: if_splits)

lemma first_of_node:
  assumes "file_layout_ok L" "get_node_path L fi c = Some (level, offset, noffset)"
    and "get_node_path L fi (c + ((if level = 0 then addrs_per_inode L fi else addrs_per_block L) - last offset)) = Some (level', offset', noffset')"
  shows "level' \<noteq> 0" "last offset' = 0"
proof -
  define A where "A = addrs_per_block L"
  define I where "I = addrs_per_inode L fi"
  define d where "d = c + ((if level = 0 then I else A) - last offset)"
  note s = path_shape [OF assms(1,2)] and s' = path_shape [OF assms(1,3)]
  have A: "0 < A" using assms(1) layout_okD(1) by (auto simp: file_layout_ok_def A_def)
  obtain m where d: "d = I + m * A"
  proof (cases "level = 0")
    case True
    then have "d = I + 0 * A" using s(5) [OF True] by (simp add: d_def I_def)
    then show ?thesis by (rule that)
  next
    case False
    then have "c = I + dnode_no L (dpos L offset) * A + last offset" "last offset < A" using s(4) by (simp_all add: A_def I_def)
    then have "d = I + (dnode_no L (dpos L offset) + 1) * A" using False by (simp add: d_def)
    then show ?thesis by (rule that)
  qed
  show nz: "level' \<noteq> 0"
  proof
    assume "level' = 0"
    then have "d < I" unfolding d_def A_def I_def by (rule conjunct2 [OF s'(5)])
    then show False using d by simp
  qed
  have "d = I + dnode_no L (dpos L offset') * A + last offset'" "last offset' < A" using s'(4) [OF nz] unfolding d_def A_def I_def by blast+
  then have "last offset' = (m * A) mod A" using d by (metis add.assoc add_left_cancel mod_less mod_mult_self3)
  then show "last offset' = 0" by simp
qed


section \<open>Cutting a file\<close>

lemma lookup_cases:
  assumes "file_layout_ok L" "io_ok E" "file_ok L st" "\<not> f2fs_has_inline_data st" "mode \<noteq> ALLOC_NODE"
    and "get_node_path L (f_fi st) b = Some (level, offset, noffset)"
  obtains (found) dn where "get_dnode_of_data L g E b mode st = Some (Inr dn, st)"
      "dn_nid dn = nid_at (f_nodes st) (f_ino st) (dpos L offset)" "nid_at (f_nodes st) (f_ino st) (dpos L offset) \<noteq> 0"
      "dn_ofs_in_node dn = last offset" "dn_blkaddr dn = file_map L st b"
    | (absent) "get_dnode_of_data L g E b mode st = Some (Inl ENOENT, st)" "nid_at (f_nodes st) (f_ino st) (dpos L offset) = 0"
    | (error) e where "get_dnode_of_data L g E b mode st = Some (Inl e, st)" "e \<noteq> ENOENT"
proof -
  obtain r where r: "get_dnode_of_data L g E b mode st = Some (r, st)" "case r of
       Inr dn \<Rightarrow> dn_nid dn = nid_at (f_nodes st) (f_ino st) (dpos L offset) \<and> nid_at (f_nodes st) (f_ino st) (dpos L offset) \<noteq> 0 \<and>
         dn_ofs_in_node dn = last offset \<and> dn_blkaddr dn = file_map L st b
     | Inl e \<Rightarrow> e = ENOENT \<longrightarrow> nid_at (f_nodes st) (f_ino st) (dpos L offset) = 0"
    using get_dnode_lookup [OF assms] by blast
  show thesis
  proof (cases r)
    case (Inl e)
    then show ?thesis using r absent error by (cases "e = ENOENT") auto
  next
    case (Inr dn)
    then show ?thesis using r by (intro found [of dn]) simp_all
  qed
qed

text \<open>Without read errors the lookup finds the node of a block or says that there is none.\<close>

lemma walk_no_error:
  assumes "\<And>n. read_err E n = None" "mode \<noteq> ALLOC_NODE"
  shows "walk_nodes L g E mode i nid p offs ns st = Some (Inl e, st') \<Longrightarrow> e = ENOENT"
  using assms
proof (induction L g E mode i nid p offs ns st rule: walk_nodes.induct)
  case (1 L g E mode i nid p off off' offs noffset noffsets st)
  show ?case
  proof (cases "get_node_page E (get_nid L p off i) st")
    case (Inl e')
    then have "e' = ENOENT" using 1(4) by (simp add: get_node_page_def split: option.splits)
    then show ?thesis using 1(3,5) Inl by (auto simp: Let_def split: if_splits)
  next
    case (Inr q)
    then show ?thesis using 1 by (auto simp: Let_def split: if_splits)
  qed
qed simp_all


lemma lookup_error:
  assumes "\<And>n. read_err E n = None" "mode \<noteq> ALLOC_NODE" "get_dnode_of_data L g E b mode st = Some (Inl e, st')"
  shows "e = ENOENT"
  using assms(3) walk_no_error [OF assms(1,2)] assms(1)
  by (auto simp: get_dnode_of_data_def get_node_page_def split: option.splits prod.splits if_splits sum.splits)

lemma truncate_blocks_found:
  assumes "file_layout_ok L" "file_ok L st" "get_node_path L (f_fi st) from = Some (level, offset, noffset)"
    and "nid_at (f_nodes st) (f_ino st) (dpos L offset) \<noteq> 0" "dn_nid dn = nid_at (f_nodes st) (f_ino st) (dpos L offset)"
    and "dn_ofs_in_node dn = last offset"
  shows "addrs_per_page L st (dn_nid dn) = (if level = 0 then addrs_per_inode L (f_fi st) else addrs_per_block L)"
    "last offset < addrs_per_page L st (dn_nid dn)" "dn_nid dn = f_ino st \<longleftrightarrow> level = 0"
proof -
  note s = path_shape [OF assms(1,3)]
  show i: "dn_nid dn = f_ino st \<longleftrightarrow> level = 0" using inode_level [OF assms(1-3)] assms(5) by simp
  then show a: "addrs_per_page L st (dn_nid dn) = (if level = 0 then addrs_per_inode L (f_fi st) else addrs_per_block L)"
    by (simp add: addrs_per_page_def)
  show "last offset < addrs_per_page L st (dn_nid dn)"
    using conjunct1 [OF s(5)] conjunct2 [OF s(5)] conjunct2 [OF s(4)] by (cases "level = 0") (simp_all add: a)
qed

lemma f2fs_bug_on_False [simp]: "f2fs_bug_on False s = s"
  by (simp add: f2fs_bug_on_def)

text \<open>
  C28: For a file without inline data whose new size leaves at least the length of one node to the
  largest file (the node behind the cut has a path; where it has none the code runs into its
  \<open>BUG()\<close>, \<open>truncate_blocks_bug\<close>), and in an environment that does not report \<open>ENOENT\<close> for a node that is there,
  \<open>truncate_blocks\<close> returns and cuts the map of the file at the new size: the blocks before it keep their
  addresses whatever error occurs, every other block keeps its address or is freed, and without an error none
  is left at or behind it, in the inode, in the node that is cut in two and in every node behind it. The
  tree of nodes stays well-formed: no pointer is left to a freed node.
\<close>
theorem truncate_blocks_refines:
  assumes "file_layout_ok L" "io_ok E" "file_ok L st" "\<not> f2fs_has_inline_data st"
    and b0: "b0 = (from + page_size L - 1) div page_size L" and "get_node_path L (f_fi st) (b0 + addrs_per_block L) \<noteq> None"
  shows "\<exists>r st'. truncate_blocks L g E from st = Some (r, st') \<and> file_ok L st' \<and> same_file st st' \<and>
    (\<forall>b<b0. file_map L st' b = file_map L st b) \<and>
    (\<forall>b. file_map L st' b = file_map L st b \<or> file_map L st' b = null_addr L) \<and> (r = Inr () \<longrightarrow> (\<forall>b\<ge>b0. file_map L st' b = null_addr L))"
    (is "\<exists>r st'. _ = Some (r, st') \<and> ?P r st'")
proof -
  note tb = truncate_blocks_def [of L g E "from" st, folded b0, unfolded Let_def]
  have ok: "tree_ok L (f_ino st) (f_nodes st)" using assms(3) by (simp add: file_ok_def)
  obtain ri where ri: "f_nodes st (f_ino st) = Some ri" using tree_okD(3) [OF ok] by blast
  have stop: "?P (Inl e) st" for e using assms(3) by simp
  show ?thesis
  proof (cases "read_err E (f_ino st)")
    case (Some e)
    then have "truncate_blocks L g E from st = Some (Inl e, st)" by (simp add: tb get_node_page_def)
    then show ?thesis using stop by blast
  next
    case None
    then have pg: "get_node_page E (f_ino st) st = Inr ri" using ri by (simp add: get_node_page_def)
    have "get_node_path L (f_fi st) b0 \<noteq> None" by (rule get_node_path_mono [OF assms(6)]) simp
    then obtain level offset noffset where p: "get_node_path L (f_fi st) b0 = Some (level, offset, noffset)" by auto
    have lookup: "LOOKUP_NODE \<noteq> ALLOC_NODE" by simp
    show ?thesis using assms(1-4) lookup p
    proof (cases rule: lookup_cases [where g = g])
      case absent
      then have "level \<noteq> 0" using inode_level [OF assms(1,3) p] tree_okD(1) [OF ok] by auto
      then show ?thesis using truncate_inode_blocks_map [OF assms(1-3) p, of g] absent by (simp add: tb pg assms(4))
    next
      case (error e)
      then have "truncate_blocks L g E from st = Some (Inl e, st)" by (simp add: tb pg assms(4))
      then show ?thesis using stop by blast
    next
      case f: (found dn)
      note a = truncate_blocks_found [OF assms(1,3) p, of dn]
      have lt: "last offset < addrs_per_page L st (dn_nid dn)" using a(2) f by simp
      show ?thesis
      proof (cases "last offset = 0 \<and> level \<noteq> 0")
        case True
        then have "truncate_blocks L g E from st = truncate_inode_blocks L g E b0 st"
          using f a(3) by (simp add: tb pg assms(4))
        then show ?thesis using truncate_inode_blocks_map [OF assms(1-3) p, of g] True by simp
      next
        case False
        define count where "count = addrs_per_page L st (dn_nid dn) - last offset"
        obtain n st1 where st1: "truncate_data_blocks_range L g (dn_nid dn) (last offset) count st = (n, st1)" by fastforce
        have tr: "truncate_blocks L g E from st = truncate_inode_blocks L g E (b0 + count) st1"
          using f a(3) False lt st1 by (auto simp: tb pg assms(4) count_def)
        have m: "file_ok L st1" "same_file st st1"
          "\<And>b. file_map L st1 b = (if b0 \<le> b \<and> b < b0 + count then null_addr L else file_map L st b)"
          using free_node_range [OF assms(1,3) p _ _ _ st1] f a(1) lt by (simp_all add: count_def)
        note v = same_file_view [OF m(2)]
        have c: "count = (if level = 0 then addrs_per_inode L (f_fi st) else addrs_per_block L) - last offset" using a(1) f by (simp add: count_def)
        have "get_node_path L (f_fi st) (b0 + count) \<noteq> None"
        proof (cases "level = 0")
          case True
          have "last offset = b0" "b0 < addrs_per_inode L (f_fi st)" using path_shape(5) [OF assms(1) p True] by auto
          then have "b0 + count = addrs_per_inode L (f_fi st)" using c True by simp
          then show ?thesis using layout_okD(1) assms(1) by (simp add: get_node_path_def Let_def file_layout_ok_def)
        next
          case False
          then show ?thesis using c by (intro get_node_path_mono [OF assms(6)]) simp
        qed
        then obtain level' offset' noffset' where p': "get_node_path L (f_fi st) (b0 + count) = Some (level', offset', noffset')" by auto
        note first = first_of_node [OF assms(1) p p' [unfolded c]]
        obtain r' st' where t: "truncate_inode_blocks L g E (b0 + count) st1 = Some (r', st')" "file_ok L st'" "same_file st1 st'"
          "\<forall>b<b0 + count. file_map L st' b = file_map L st1 b" "\<forall>b. file_map L st' b = file_map L st1 b \<or> file_map L st' b = null_addr L"
          "r' = Inr () \<longrightarrow> (\<forall>b\<ge>b0 + count. file_map L st' b = null_addr L)"
          using truncate_inode_blocks_map [OF assms(1,2) m(1) _ first(1), where g = g, OF _ disjI1 [OF first(2)]] p'
          unfolding v by blast
        have "?P r' st'"
        proof (intro conjI allI impI)
          show "same_file st st'" using m(2) t(3) by (rule same_file_trans)
          show "file_map L st' b = file_map L st b" if "b < b0" for b using that t(4) m(3) by simp
          show "file_map L st' b = file_map L st b \<or> file_map L st' b = null_addr L" for b using t(5) m(3) by metis
          show "file_map L st' b = null_addr L" if "r' = Inr ()" "b0 \<le> b" for b
            using that t(4,6) m(3) by (cases "b < b0 + count") auto
        qed (rule t(2))
        then show ?thesis using tr t(1) by simp
      qed
    qed
  qed
qed


text \<open>
  In the last node of the largest file the index behind the node is not an index any more, and
  \<open>get_node_path\<close> reaches \<open>BUG()\<close>.
\<close>

lemma truncate_blocks_bug:
  assumes "file_layout_ok L" "\<And>n. read_err E n = None" "file_ok L st" "\<not> f2fs_has_inline_data st"
    and b0: "b0 = (from + page_size L - 1) div page_size L" and p: "get_node_path L (f_fi st) b0 = Some (level, offset, noffset)"
    and "level \<noteq> 0" "nid_at (f_nodes st) (f_ino st) (dpos L offset) \<noteq> 0" "last offset \<noteq> 0"
    and "get_node_path L (f_fi st) (b0 + (addrs_per_block L - last offset)) = None"
  shows "truncate_blocks L g E from st = None"
proof -
  have ok: "tree_ok L (f_ino st) (f_nodes st)" using assms(3) by (simp add: file_ok_def)
  obtain ri where "f_nodes st (f_ino st) = Some ri" using tree_okD(3) [OF ok] by blast
  then have pg: "get_node_page E (f_ino st) st = Inr ri" using assms(2) by (simp add: get_node_page_def)
  have io: "io_ok E" and lookup: "LOOKUP_NODE \<noteq> ALLOC_NODE" using assms(2) by (simp_all add: io_ok_def)
  note tb = truncate_blocks_def [of L g E "from" st, folded b0, unfolded Let_def]
  show ?thesis using assms(1) io assms(3,4) lookup p
  proof (cases rule: lookup_cases [where g = g])
    case (found dn)
    note a = truncate_blocks_found [OF assms(1,3) p found(3,2,4)]
    obtain n st1 where st1: "truncate_data_blocks_range L g (dn_nid dn) (last offset) (addrs_per_block L - last offset) st = (n, st1)" by fastforce
    have "same_file st st1"
      using free_node_range(2) [OF assms(1,3) p found(2) _ _ st1] found(2,3) a(1,2) assms(7) by simp
    then have "truncate_inode_blocks L g E (b0 + (addrs_per_block L - last offset)) st1 = None"
      using assms(10) by (simp add: truncate_inode_blocks_def same_file_view)
    then show ?thesis using found a assms(7,9) st1 by (simp add: tb pg assms(4))
  next
    case (error e)
    then show ?thesis using lookup_error [OF assms(2) lookup error(1)] by simp
  qed (use assms(8) in simp)
qed

section \<open>Freeing a range\<close>

text \<open>The same nodes, at the same places and with the same pointers to their children, and the same node ids.\<close>

definition same_nodes :: "file_state \<Rightarrow> file_state \<Rightarrow> bool" where
  "same_nodes st st' \<longleftrightarrow> f_nm st' = f_nm st \<and>
     (\<forall>n. map_option (\<lambda>p. (n_ofs p, n_nid p)) (f_nodes st' n) = map_option (\<lambda>p. (n_ofs p, n_nid p)) (f_nodes st n))"

lemma same_nodes_trans: "same_nodes st st' \<Longrightarrow> same_nodes st' st'' \<Longrightarrow> same_nodes st st''"
  by (simp add: same_nodes_def)

lemma truncate_range_same_nodes:
  assumes "truncate_data_blocks_range L g nid ofs count st = (n, st')"
  shows "same_nodes st st'"
proof -
  have one: "f_nm (snd (free_data_block L g nid i w)) = f_nm (snd w)" for i w
    by (simp add: free_data_block_def Let_def update_extent_def set_data_blkaddr_def put_node_def case_prod_beta split: option.split)
  have all: "f_nm (snd (fold (free_data_block L g nid) is w)) = f_nm (snd w)" for "is" w
    by (induction "is" arbitrary: w) (simp_all add: one)
  obtain k st1 where f: "fold (free_data_block L g nid) [ofs..<ofs + count] (0, st) = (k, st1)" by fastforce
  then have "f_nm st1 = f_nm st" using all [of "[ofs..<ofs + count]" "(0, st)"] by simp
  then have "f_nm st' = f_nm st" using assms f by (auto simp: truncate_data_blocks_range_def split: if_splits prod.splits)
  then show ?thesis
    using truncate_range_nodes(1) [OF assms] by (simp add: same_nodes_def cut_addrs_def split: option.split)
qed

lemma truncate_hole_map:
  assumes "file_layout_ok L" "io_ok E"
  shows "file_ok L st \<Longrightarrow> \<not> f2fs_has_inline_data st \<Longrightarrow> (\<And>b. b \<in> set is \<Longrightarrow> get_node_path L (f_fi st) b \<noteq> None) \<Longrightarrow>
    \<exists>r st'. truncate_hole L g E is st = Some (r, st') \<and> file_ok L st' \<and> same_file st st' \<and> same_nodes st st' \<and>
      (\<forall>b. file_map L st' b = file_map L st b \<or> b \<in> set is \<and> file_map L st' b = null_addr L) \<and>
      (r = Inr () \<longrightarrow> (\<forall>b\<in>set is. file_map L st' b = null_addr L))"
proof (induction "is" arbitrary: st)
  case Nil
  then show ?case by (simp add: same_nodes_def)
next
  case (Cons i "is")
  have "get_node_path L (f_fi st) i \<noteq> None" using Cons.prems(3) by simp
  then obtain level offset noffset where p: "get_node_path L (f_fi st) i = Some (level, offset, noffset)" by auto
  text \<open>The rest, after the step for \<open>i\<close>.\<close>
  have rest: ?case if step: "truncate_hole L g E (i # is) st = truncate_hole L g E is st1" "file_ok L st1" "same_file st st1" "same_nodes st st1"
    "\<And>b. file_map L st1 b = (if b = i then null_addr L else file_map L st b)" for st1
  proof -
    note v = same_file_view [OF step(3)]
    obtain r st' where w: "truncate_hole L g E is st1 = Some (r, st')" "file_ok L st'" "same_file st1 st'" "same_nodes st1 st'"
      "\<forall>b. file_map L st' b = file_map L st1 b \<or> b \<in> set is \<and> file_map L st' b = null_addr L"
      "r = Inr () \<longrightarrow> (\<forall>b\<in>set is. file_map L st' b = null_addr L)"
      using Cons.IH [of st1] step(2) Cons.prems(2,3) by (auto simp: v)
    have "file_map L st' b = file_map L st b \<or> b \<in> set (i # is) \<and> file_map L st' b = null_addr L" for b
      using w(5) step(5) by (metis list.set_intros(1) list.set_intros(2))
    moreover have "file_map L st' b = null_addr L" if "r = Inr ()" "b \<in> set (i # is)" for b
      using w(5,6) step(5) that by (metis set_ConsD)
    ultimately show ?thesis using w(1-4) step(1) same_file_trans [OF step(3)] same_nodes_trans [OF step(4)] by auto
  qed
  have lookup: "LOOKUP_NODE \<noteq> ALLOC_NODE" by simp
  show ?case using assms Cons.prems(1,2) lookup p
  proof (cases rule: lookup_cases [where g = g])
    case (found dn)
    show ?thesis
    proof (cases "file_map L st i = null_addr L")
      case True
      then show ?thesis using found Cons.prems(1) by (intro rest [of st]) (auto simp: same_nodes_def)
    next
      case False
      obtain n st1 where st1: "truncate_data_blocks_range L g (dn_nid dn) (last offset) 1 st = (n, st1)" by fastforce
      note a = truncate_blocks_found [OF assms(1) Cons.prems(1) p found(3,2,4)]
      have "file_ok L st1" "same_file st st1" "\<And>b. file_map L st1 b = (if i \<le> b \<and> b < i + 1 then null_addr L else file_map L st b)"
        using free_node_range [OF assms(1) Cons.prems(1) p found(2) _ _ st1] found(2,3) a(1,2) by simp_all
      then show ?thesis using found False st1 truncate_range_same_nodes [OF st1] by (intro rest [of st1]) auto
    qed
  next
    case absent
    then have "file_map L st i = null_addr L"
      using p Cons.prems(1) by (simp add: file_map_def file_ok_def tree_okD(2))
    then show ?thesis using absent Cons.prems(1) by (intro rest [of st]) (auto simp: same_nodes_def)
  next
    case (error e)
    then show ?thesis using Cons.prems(1) by (simp add: same_nodes_def)
  qed
qed


section \<open>Searching for data and holes\<close>

datatype seek_whence = SEEK_DATA | SEEK_HOLE

text \<open>The index of the first dirty page from a page on comes from the page cache.\<close>

definition get_first_dirty_index :: "(nat \<Rightarrow> nat) \<Rightarrow> nat \<Rightarrow> seek_whence \<Rightarrow> nat" where
  "get_first_dirty_index first_dirty pgofs whence = (if whence \<noteq> SEEK_DATA then 0 else first_dirty pgofs)"

definition found_offset :: "layout \<Rightarrow> u32 \<Rightarrow> nat \<Rightarrow> nat \<Rightarrow> seek_whence \<Rightarrow> bool" where
  "found_offset L blkaddr dirty pgofs whence \<longleftrightarrow>
     (case whence of
        SEEK_DATA \<Rightarrow> blkaddr = new_addr L \<and> dirty = pgofs \<or> blkaddr \<noteq> new_addr L \<and> blkaddr \<noteq> null_addr L
      | SEEK_HOLE \<Rightarrow> blkaddr = null_addr L)"

text \<open>The entries of one node: found or not, with the index and the byte offset reached.\<close>

fun seek_dnode :: "layout \<Rightarrow> node_page \<Rightarrow> nat \<Rightarrow> seek_whence \<Rightarrow> nat list \<Rightarrow> nat \<Rightarrow> nat \<Rightarrow> bool \<times> nat \<times> nat" where
  "seek_dnode L p dirty whence [] pgofs data_ofs = (False, pgofs, data_ofs)"
| "seek_dnode L p dirty whence (i # is) pgofs data_ofs =
     (if found_offset L (n_addr p i) dirty pgofs whence then (True, pgofs, data_ofs)
      else seek_dnode L p dirty whence is (pgofs + 1) ((pgofs + 1) * page_size L))"

text \<open>
  The loop over the nodes. The result is the byte offset of \<open>found\<close>, or \<open>fail\<close>; the outer option is
  \<open>BUG()\<close> or a loop that does not end.
\<close>

partial_function (option) seek_nodes ::
    "layout \<Rightarrow> geom \<Rightarrow> file_env \<Rightarrow> nat \<Rightarrow> seek_whence \<Rightarrow> nat \<Rightarrow> nat \<Rightarrow> file_state \<Rightarrow> nat option option" where
  "seek_nodes L g E dirty whence pgofs data_ofs st =
     (if \<not> data_ofs < f_size st then Some (if whence = SEEK_DATA then None else Some data_ofs)
      else case get_dnode_of_data L g E pgofs LOOKUP_NODE_RA st of
             None \<Rightarrow> None
           | Some (Inl e, st) \<Rightarrow>
               if e \<noteq> ENOENT then Some None
               else if whence = SEEK_DATA
               then (let pgofs = pgofs_of_next_dnode L (f_fi st) pgofs
                     in seek_nodes L g E dirty whence pgofs (pgofs * page_size L) st)
               else Some (Some data_ofs)
           | Some (Inr dn, st) \<Rightarrow>
               (case f_nodes st (dn_nid dn) of
                  None \<Rightarrow> None
                | Some p \<Rightarrow>
                    (case seek_dnode L p dirty whence [dn_ofs_in_node dn..<addrs_per_page L st (dn_nid dn)] pgofs data_ofs of
                       (hit, pgofs, data_ofs) \<Rightarrow>
                         if hit then Some (Some data_ofs)
                         else seek_nodes L g E dirty whence pgofs (pgofs * page_size L) st)))"

text \<open>\<open>setpos\<close> is \<open>vfs_setpos\<close>, which checks the offset and moves the position of the open file.\<close>

definition f2fs_seek_block ::
    "layout \<Rightarrow> geom \<Rightarrow> file_env \<Rightarrow> (nat \<Rightarrow> nat) \<Rightarrow> (nat \<Rightarrow> errno + nat) \<Rightarrow> nat \<Rightarrow> seek_whence \<Rightarrow> file_state \<Rightarrow> (errno + nat) option" where
  "f2fs_seek_block L g E first_dirty setpos offset whence st =
     (let isize = f_size st;
          found = (\<lambda>data_ofs. setpos (if whence = SEEK_HOLE \<and> data_ofs > isize then isize else data_ofs))
      in if offset \<ge> isize then Some (Inl ENXIO)
         else if f2fs_has_inline_data st \<or> is_inode_flag_set (f_fi st) FI_INLINE_DENTRY
         then Some (found (if whence = SEEK_HOLE then isize else offset))
         else let pgofs = offset div page_size L;
                  dirty = get_first_dirty_index first_dirty pgofs whence
              in case seek_nodes L g E dirty whence pgofs offset st of
                   None \<Rightarrow> None
                 | Some None \<Rightarrow> Some (Inl ENXIO)
                 | Some (Some data_ofs) \<Rightarrow> Some (found data_ofs))"

lemma seek_dnode_spec:
  assumes "seek_dnode L p dirty whence [i..<i + n] pgofs data_ofs = (hit, pgofs', data_ofs')"
    and "\<And>k. k < n \<Longrightarrow> n_addr p (i + k) = m (pgofs + k)"
  shows "pgofs \<le> pgofs' \<and> data_ofs' = (if pgofs' = pgofs then data_ofs else pgofs' * page_size L) \<and>
    (\<forall>b. pgofs \<le> b \<and> b < pgofs' \<longrightarrow> \<not> found_offset L (m b) dirty b whence) \<and>
    (if hit then found_offset L (m pgofs') dirty pgofs' whence else pgofs' = pgofs + n)"
  using assms
proof (induction n arbitrary: i pgofs data_ofs)
  case 0
  then show ?case by auto
next
  case (Suc n)
  have l: "[i..<i + Suc n] = i # [Suc i..<Suc i + n]" by (simp add: upt_conv_Cons del: upt_Suc)
  have m0: "n_addr p i = m pgofs" using Suc.prems(2) [of 0] by simp
  show ?case
  proof (cases "found_offset L (m pgofs) dirty pgofs whence")
    case True
    then show ?thesis using Suc.prems(1) unfolding l by (auto simp: m0)
  next
    case False
    have step: "seek_dnode L p dirty whence [Suc i..<Suc i + n] (pgofs + 1) ((pgofs + 1) * page_size L) = (hit, pgofs', data_ofs')"
      using Suc.prems(1) False unfolding l by (simp add: m0)
    have "n_addr p (Suc i + k) = m (pgofs + 1 + k)" if "k < n" for k using Suc.prems(2) [of "Suc k"] that by simp
    note ih = Suc.IH [OF step this]
    have "\<not> found_offset L (m b) dirty b whence" if "pgofs \<le> b" "b < pgofs'" for b
      using ih False that by (cases "b = pgofs") auto
    then show ?thesis using ih by (auto split: if_splits)
  qed
qed

lemma find_upt_None: "find P [a..<b] = None \<longleftrightarrow> (\<forall>x. a \<le> x \<and> x < b \<longrightarrow> \<not> P x)"
  by (auto simp: find_None_iff)

lemma find_upt_Some:
  assumes "a \<le> x" "x < b" "P x" "\<And>y. a \<le> y \<Longrightarrow> y < x \<Longrightarrow> \<not> P y"
  shows "find P [a..<b] = Some x"
  unfolding find_Some_iff using assms by (intro exI [of _ "x - a"]) auto

lemma find_upt_SomeD:
  assumes "find P [a..<b] = Some x"
  shows "a \<le> x" "x < b" "P x" "a \<le> y \<Longrightarrow> y < x \<Longrightarrow> \<not> P y"
proof -
  obtain i where i: "i < b - a" "P (a + i)" "x = a + i" "\<And>j. j < i \<Longrightarrow> \<not> P (a + j)"
    using assms by (auto simp: find_Some_iff)
  show "a \<le> x" "x < b" "P x" using i(1-3) by simp_all
  show "\<not> P y" if "a \<le> y" "y < x" using i(3) i(4) [of "y - a"] that by simp
qed

lemma find_upt_skip:
  assumes "a \<le> c" "\<And>y. a \<le> y \<Longrightarrow> y < c \<Longrightarrow> y < b \<Longrightarrow> \<not> P y"
  shows "find P [a..<b] = find P [c..<b]"
proof (cases "find P [c..<b]")
  case None
  then have "find P [a..<b] = None" unfolding find_upt_None using assms by (metis not_le)
  then show ?thesis using None by simp
next
  case (Some x)
  note x = find_upt_SomeD [OF this]
  have "find P [a..<b] = Some x"
    using assms x by (intro find_upt_Some) (auto, metis not_le order.strict_trans)
  then show ?thesis using Some by simp
qed

lemma get_node_path_None:
  "get_node_path L fi b = None \<longleftrightarrow>
   addrs_per_inode L fi + (2 + 2 * nids_per_block L + nids_per_block L * nids_per_block L) * addrs_per_block L \<le> b"
  unfolding get_node_path_def Let_def by (auto simp: algebra_simps)

text \<open>The rest of a node: the blocks to its end, and what the map has for them.\<close>

lemma node_rest:
  assumes "file_layout_ok L" "get_node_path L (f_fi st) c = Some (level, offset, noffset)"
    and "c + k < c + ((if level = 0 then addrs_per_inode L (f_fi st) else addrs_per_block L) - last offset)"
  shows "file_map L st (c + k) =
    (case f_nodes st (nid_at (f_nodes st) (f_ino st) (dpos L offset)) of None \<Rightarrow> null_addr L | Some p \<Rightarrow> n_addr p (last offset + k))"
proof -
  define A where "A = addrs_per_block L"
  define I where "I = addrs_per_inode L (f_fi st)"
  define N where "N = nids_per_block L"
  note s = path_shape [OF assms(1,2)]
  have "get_node_path L (f_fi st) (c + k) \<noteq> None"
  proof (cases "level = 0")
    case True
    have "c < I" "last offset = c" using s(5) [OF True] by (simp_all add: I_def)
    then have "c + k < I" using assms(3) True by (simp add: I_def)
    then show ?thesis by (simp add: get_node_path_None I_def)
  next
    case False
    define n where "n = dnode_no L (dpos L offset)"
    have c: "c = I + n * A + last offset" "last offset < A" using s(4) [OF False] by (simp_all add: A_def I_def n_def)
    have "c < I + (2 + 2 * N + N * N) * A" using assms(2) get_node_path_None [of L "f_fi st" c] by (auto simp: A_def I_def N_def not_le)
    then have "n * A < (2 + 2 * N + N * N) * A" using c by linarith
    then have "n < 2 + 2 * N + N * N" unfolding mult_less_cancel2 by blast
    then have "(n + 1) * A \<le> (2 + 2 * N + N * N) * A" by (intro mult_le_mono1) simp
    then have "I + n * A + last offset + k < I + (2 + 2 * N + N * N) * A" using assms(3) c(2) False by (simp add: A_def)
    then show ?thesis unfolding c(1) by (simp add: get_node_path_None A_def I_def N_def)
  qed
  then obtain level' offset' noffset' where p: "get_node_path L (f_fi st) (c + k) = Some (level', offset', noffset')" by auto
  note i = same_node_iff [OF assms(1,2) p]
  have d: "dpos L offset' = dpos L offset" using i(1) assms(3) by (cases "level = 0") auto
  have "last offset' = last offset + k" using i(2) [OF d] by simp
  then show ?thesis using d p
    by (cases "f_nodes st (nid_at (f_nodes st) (f_ino st) (dpos L offset))") (simp_all add: file_map_def)
qed


lemma get_node_path_last:
  assumes "file_layout_ok L" "get_node_path L fi c = Some (level, offset, noffset)"
  shows "last offset \<le> c" "last offset < (if level = 0 then addrs_per_inode L fi else addrs_per_block L)"
proof -
  note s = path_shape [OF assms]
  show "last offset \<le> c" using conjunct1 [OF s(5)] trans_le_add2 [of "last offset"] conjunct1 [OF s(4)] by (cases "level = 0") auto
  show "last offset < (if level = 0 then addrs_per_inode L fi else addrs_per_block L)"
    using conjunct1 [OF s(5)] conjunct2 [OF s(5)] conjunct2 [OF s(4)] by (cases "level = 0") simp_all
qed

lemma seek_nodes_spec:
  assumes "file_layout_ok L" "\<And>n. read_err E n = None" "file_ok L st" "\<not> f2fs_has_inline_data st" "0 < page_size L"
    and "new_addr L \<noteq> null_addr L" "lim = (f_size st + page_size L - 1) div page_size L"
    and path: "\<And>b. b < lim \<Longrightarrow> get_node_path L (f_fi st) b \<noteq> None"
    and past: "whence = SEEK_DATA \<Longrightarrow> (\<And>b. lim \<le> b \<Longrightarrow> \<not> found_offset L (file_map L st b) dirty b whence)"
  defines "P \<equiv> \<lambda>b. found_offset L (file_map L st b) dirty b whence"
  shows "pgofs = data_ofs div page_size L \<Longrightarrow> data_ofs < f_size st \<or> data_ofs = pgofs * page_size L \<Longrightarrow>
    \<exists>x. seek_nodes L g E dirty whence pgofs data_ofs st = Some x \<and>
    (case find P [pgofs..<lim] of
       Some b \<Rightarrow> x = Some (if b = pgofs then data_ofs else b * page_size L)
     | None \<Rightarrow> if whence = SEEK_DATA then x = None else \<exists>d\<ge>f_size st. x = Some d)"
proof (induction "f_size st - pgofs" arbitrary: pgofs data_ofs rule: less_induct)
  case less
  have io: "io_ok E" using assms(2) by (simp add: io_ok_def)
  have lim: "b < lim \<longleftrightarrow> b * page_size L < f_size st" for b
  proof -
    have "b < lim \<longleftrightarrow> Suc b * page_size L \<le> f_size st + page_size L - 1"
      unfolding assms(7) Suc_le_eq [symmetric] using assms(5) by (simp add: less_eq_div_iff_mult_less_eq)
    then show ?thesis using assms(5) by auto
  qed
  note unfold = seek_nodes.simps [of L g E dirty whence pgofs data_ofs st]
  show ?case
  proof (cases "data_ofs < f_size st")
    case False
    then have "\<not> pgofs < lim" using less.prems(2) lim by auto
    then show ?thesis using False by (subst unfold) simp
  next
    case True
    have "pgofs * page_size L \<le> data_ofs" using less.prems(1) by simp
    then have lt: "pgofs * page_size L < f_size st" using True by simp
    have "pgofs \<le> pgofs * page_size L" using assms(5) by simp
    then have lt': "pgofs < f_size st" using lt by (rule le_less_trans)
    have plim: "pgofs < lim" using lt lim by simp
    then obtain level offset noffset where p: "get_node_path L (f_fi st) pgofs = Some (level, offset, noffset)" using path by fastforce
    define n where "n = (if level = 0 then addrs_per_inode L (f_fi st) else addrs_per_block L) - last offset"
    note nr = node_rest [OF assms(1) p, folded n_def]
    note sh = path_shape [OF assms(1) p]
    have n: "0 < n" using conjunct1 [OF sh(5)] conjunct2 [OF sh(5)] conjunct2 [OF sh(4)] by (cases "level = 0") (simp_all add: n_def)
    text \<open>A step to the next node, when nothing was found in this one.\<close>
    have on: ?thesis if step: "seek_nodes L g E dirty whence pgofs data_ofs st = seek_nodes L g E dirty whence (pgofs + n) ((pgofs + n) * page_size L) st"
      "\<And>b. pgofs \<le> b \<Longrightarrow> b < pgofs + n \<Longrightarrow> \<not> P b"
    proof -
      have "f_size st - (pgofs + n) < f_size st - pgofs" using n lt' by simp
      then have ih: "\<exists>x. seek_nodes L g E dirty whence (pgofs + n) ((pgofs + n) * page_size L) st = Some x \<and>
        (case find P [pgofs + n..<lim] of
           Some b \<Rightarrow> x = Some (if b = pgofs + n then (pgofs + n) * page_size L else b * page_size L)
         | None \<Rightarrow> if whence = SEEK_DATA then x = None else \<exists>d\<ge>f_size st. x = Some d)"
        using assms(5) by (intro less.hyps) simp_all
      have find: "find P [pgofs..<lim] = find P [pgofs + n..<lim]" using step(2) by (intro find_upt_skip) auto
      show ?thesis
      proof (cases "find P [pgofs + n..<lim]")
        case None
        then show ?thesis using ih unfolding step(1) find by simp
      next
        case (Some b)
        then have "b \<noteq> pgofs" using find_upt_SomeD(1) n by fastforce
        then show ?thesis using ih Some unfolding step(1) find by (auto split: if_splits)
      qed
    qed
    have ra: "LOOKUP_NODE_RA \<noteq> ALLOC_NODE" by simp
    show ?thesis using assms(1) io assms(3,4) ra p
    proof (cases rule: lookup_cases [where g = g])
      case absent
      have null: "file_map L st (pgofs + k) = null_addr L" if "k < n" for k
        using nr [of k] that absent(2) assms(3) by (simp add: file_ok_def tree_okD(2))
      show ?thesis
      proof (cases whence)
        case SEEK_DATA
        have nx: "pgofs_of_next_dnode L (f_fi st) pgofs = pgofs + n"
          using pgofs_of_next_dnode_step [OF _ p] assms(1) n conjunct1 [OF sh(5)] get_node_path_last [OF assms(1) p]
          by (auto simp: n_def file_layout_ok_def)
        show ?thesis
        proof (rule on)
          show "seek_nodes L g E dirty whence pgofs data_ofs st = seek_nodes L g E dirty whence (pgofs + n) ((pgofs + n) * page_size L) st"
            by (subst unfold) (simp add: True absent(1) SEEK_DATA nx Let_def)
          show "\<not> P b" if "pgofs \<le> b" "b < pgofs + n" for b
            using null [of "b - pgofs"] that assms(6) by (simp add: P_def found_offset_def SEEK_DATA)
        qed
      next
        case SEEK_HOLE
        have "P pgofs" using null [of 0] n by (simp add: P_def found_offset_def SEEK_HOLE)
        then have "find P [pgofs..<lim] = Some pgofs" using plim by (intro find_upt_Some) auto
        then show ?thesis by (subst unfold) (simp add: True absent(1) SEEK_HOLE)
      qed
    next
      case (error e)
      then show ?thesis using lookup_error [OF assms(2) ra error(1)] by simp
    next
      case (found dn)
      have nodes: "\<exists>pg. f_nodes st (dn_nid dn) = Some pg"
        using tree_okD(4) [OF assms(3) [unfolded file_ok_def] sh(1) found(3)] found(2) by simp
      then obtain pg where pg: "f_nodes st (dn_nid dn) = Some pg" by blast
      note a = truncate_blocks_found [OF assms(1,3) p found(3,2,4)]
      have rng: "[dn_ofs_in_node dn..<addrs_per_page L st (dn_nid dn)] = [last offset..<last offset + n]"
        using a(1,2) found(4) by (auto simp: n_def)
      obtain hit pgofs' data_ofs' where sd: "seek_dnode L pg dirty whence [last offset..<last offset + n] pgofs data_ofs = (hit, pgofs', data_ofs')"
        by (metis prod_cases3)
      have "n_addr pg (last offset + k) = file_map L st (pgofs + k)" if "k < n" for k
        using nr [of k] that pg found(2) by simp
      note r = seek_dnode_spec [OF sd this]
      have un: "seek_nodes L g E dirty whence pgofs data_ofs st =
        (if hit then Some (Some data_ofs') else seek_nodes L g E dirty whence pgofs' (pgofs' * page_size L) st)"
        by (subst unfold) (simp add: True found(1) pg rng sd)
      show ?thesis
      proof (cases hit)
        case False
        then show ?thesis using r un by (intro on) (auto simp: P_def)
      next
        case hit: True
        have P: "P pgofs'" using r hit by (simp add: P_def)
        show ?thesis
        proof (cases "pgofs' < lim")
          case True
          then have "find P [pgofs..<lim] = Some pgofs'" using r P by (intro find_upt_Some) (auto simp: P_def)
          then show ?thesis using un hit r by simp
        next
          case False
          then have "whence \<noteq> SEEK_DATA" using P past [of pgofs'] by (auto simp: P_def not_less)
          moreover have "find P [pgofs..<lim] = None" using r False by (auto simp: find_upt_None P_def)
          moreover have "f_size st \<le> data_ofs'" using r False lim [of pgofs'] plim by auto
          ultimately show ?thesis using un hit by simp
        qed
      qed
    qed
  qed
qed


section \<open>Claims\<close>

text \<open>
  C29: For a file without inline data and a range whose end is within the largest file, in an environment
  that does not report \<open>ENOENT\<close> for a node that is there, \<open>truncate_hole\<close> (the blocks of a punched
  hole) returns and removes exactly the blocks of the range from the map of the file: without an error all
  of them, with one some of them, and no block outside. The tree of nodes stays well-formed and keeps
  its shape: every node is still there with the same pointers to its children, also a node that is left
  without a block, and the node ids are untouched (\<open>same_nodes\<close>).
\<close>
theorem truncate_hole_refines:
  assumes "file_layout_ok L" "io_ok E" "file_ok L st" "\<not> f2fs_has_inline_data st" "get_node_path L (f_fi st) pg_end \<noteq> None"
  shows "\<exists>r st'. truncate_hole L g E [pg_start..<pg_end] st = Some (r, st') \<and> file_ok L st' \<and> same_nodes st st' \<and>
    (\<forall>b. \<not> (pg_start \<le> b \<and> b < pg_end) \<longrightarrow> file_map L st' b = file_map L st b) \<and>
    (\<forall>b. file_map L st' b = file_map L st b \<or> file_map L st' b = null_addr L) \<and>
    (r = Inr () \<longrightarrow> (\<forall>b. pg_start \<le> b \<and> b < pg_end \<longrightarrow> file_map L st' b = null_addr L))"
proof -
  have path: "get_node_path L (f_fi st) b \<noteq> None" if "b \<in> set [pg_start..<pg_end]" for b
    using that by (intro get_node_path_mono [OF assms(5)]) simp
  obtain r st' where w: "truncate_hole L g E [pg_start..<pg_end] st = Some (r, st')" "file_ok L st'" "same_nodes st st'"
    "\<forall>b. file_map L st' b = file_map L st b \<or> b \<in> set [pg_start..<pg_end] \<and> file_map L st' b = null_addr L"
    "r = Inr () \<longrightarrow> (\<forall>b\<in>set [pg_start..<pg_end]. file_map L st' b = null_addr L)"
    using truncate_hole_map [where g = g, OF assms(1-4) path] by blast
  show ?thesis using w by (intro exI [of _ r] exI [of _ st'] conjI) (simp_all, blast+)
qed

text \<open>
  C31: For a file without inline data, an offset before its size, no data behind the size and no error
  when nodes are read, \<open>f2fs_seek_block\<close> is the search of the map of the file: from the page of the offset
  to the last page below the size it reports the first one with data (an address, or for the first dirty
  page a reserved block) or without a block, the offset itself when this is its own page; a hole is always
  found at the size at the latest, and without data the answer is \<open>ENXIO\<close>. The skipping over missing nodes
  loses nothing, and the loop ends.
\<close>
theorem seek_block_finds:
  fixes L st whence offset first_dirty
  defines "lim \<equiv> (f_size st + page_size L - 1) div page_size L"
    and "found \<equiv> \<lambda>b. found_offset L (file_map L st b) (get_first_dirty_index first_dirty (offset div page_size L) whence) b whence"
  assumes "file_layout_ok L" "\<forall>n. read_err E n = None" "file_ok L st" "\<not> f2fs_has_inline_data st"
    and "\<not> is_inode_flag_set (f_fi st) FI_INLINE_DENTRY" "0 < page_size L" "new_addr L \<noteq> null_addr L"
    and "get_node_path L (f_fi st) lim \<noteq> None" "\<forall>b\<ge>lim. whence = SEEK_DATA \<longrightarrow> \<not> found b" "offset < f_size st"
  shows "f2fs_seek_block L g E first_dirty setpos offset whence st =
    Some (case find found [offset div page_size L..<lim] of
            Some b \<Rightarrow> setpos (if b = offset div page_size L then offset else b * page_size L)
          | None \<Rightarrow> if whence = SEEK_DATA then Inl ENXIO else setpos (f_size st))"
proof -
  define dirty where "dirty = get_first_dirty_index first_dirty (offset div page_size L) whence"
  have "get_node_path L (f_fi st) b \<noteq> None" if "b < lim" for b using that by (intro get_node_path_mono [OF assms(10)]) simp
  then obtain x where x: "seek_nodes L g E dirty whence (offset div page_size L) offset st = Some x"
    "case find found [offset div page_size L..<lim] of
       Some b \<Rightarrow> x = Some (if b = offset div page_size L then offset else b * page_size L)
     | None \<Rightarrow> if whence = SEEK_DATA then x = None else \<exists>d\<ge>f_size st. x = Some d"
    using seek_nodes_spec [OF assms(3) _ assms(5,6,8,9), where lim = lim and dirty = dirty and whence = whence and g = g
        and pgofs = "offset div page_size L" and data_ofs = offset and E = E] assms(4,11,12)
    unfolding found_def dirty_def lim_def by auto
  note un = f2fs_seek_block_def [of L g E first_dirty setpos offset whence st, unfolded Let_def, folded dirty_def]
  have lt: "b * page_size L < f_size st" if "b < lim" for b
  proof -
    have "Suc b * page_size L \<le> f_size st + page_size L - 1"
      using that assms(8) unfolding lim_def Suc_le_eq [symmetric] by (simp add: less_eq_div_iff_mult_less_eq)
    then show ?thesis using assms(8) by simp
  qed
  show ?thesis
  proof (cases "find found [offset div page_size L..<lim]")
    case None
    then show ?thesis unfolding un using x assms(6,7,12) by (cases whence) auto
  next
    case (Some b)
    then have "b * page_size L < f_size st" using lt find_upt_SomeD(2) by blast
    then show ?thesis unfolding un using x Some assms(6,7,12) by auto
  qed
qed


section \<open>Example\<close>

text \<open>An inode with a direct node and, behind an indirect one, another direct node, 64 bytes a block.\<close>

definition sample_node :: "nat \<Rightarrow> (nat \<Rightarrow> u32) \<Rightarrow> (nat \<Rightarrow> u32) \<Rightarrow> node_page" where
  "sample_node ofs a n = \<lparr>n_ofs = ofs, n_addr = a, n_nid = n\<rparr>"

definition sample_file :: file_state where
  "sample_file = \<lparr>f_ino = 4, f_size = 1100, f_fi = plain_inode,
     f_nodes = [4 \<mapsto> sample_node 0 (\<lambda>i. if i = 2 then 0 else 20) ((\<lambda>_. 0)(0 := 5, 2 := 6)), 5 \<mapsto> sample_node 1 (\<lambda>_. 21) (\<lambda>_. 0),
       6 \<mapsto> sample_node 3 (\<lambda>_. 0) ((\<lambda>_. 0)(0 := 7)), 7 \<mapsto> sample_node 4 (\<lambda>_. 22) (\<lambda>_. 0)],
     f_inline = (\<lambda>_. 0), f_sb = sample_sb, f_nm = sample_nm, f_mgmt = (\<lambda>_. \<lparr>ino_root = Map.empty, ino_list = [], im_ino_num = 0\<rparr>), f_ext = []\<rparr>"

definition calm :: file_env where
  "calm = \<lparr>read_err = (\<lambda>_. None), no_page = (\<lambda>_. False), nid_mem = (\<lambda>_. True)\<rparr>"

lemma small_file_layout: "file_layout_ok small_layout"
  using small_layout_ok by (simp add: file_layout_ok_def) (simp add: small_layout_def)

lemma sample_nid_at:
  "node_pos small_layout q \<Longrightarrow> nid_at (f_nodes sample_file) 4 q =
    (if q = [] then 4 else if q = [0] then 5 else if q = [2] then 6 else if q = [2, 0] then 7 else 0)"
  unfolding node_pos_def by (elim disjE exE conjE) (auto simp: sample_file_def sample_node_def nid_at.simps(2))

lemma sample_file_ok: "file_ok small_layout sample_file" "f_ino sample_file = 4" "\<not> f2fs_has_inline_data sample_file"
  "io_ok calm" "read_err calm n = None" "f_fi sample_file = plain_inode" "f_size sample_file = 1100"
proof -
  show i: "f_ino sample_file = 4" "f_fi sample_file = plain_inode" "f_size sample_file = 1100" by (simp_all add: sample_file_def)
  have nodes: "f_nodes sample_file 0 = None" "\<exists>p. f_nodes sample_file 4 = Some p" "\<exists>p. f_nodes sample_file 5 = Some p"
    "\<exists>p. f_nodes sample_file 6 = Some p" "\<exists>p. f_nodes sample_file 7 = Some p" by (simp_all add: sample_file_def)
  show "file_ok small_layout sample_file"
    unfolding file_ok_def tree_ok_def i using nodes by (auto simp: sample_nid_at)
  show "\<not> f2fs_has_inline_data sample_file"
    by (simp add: f2fs_has_inline_data_def sample_file_def plain_inode_def is_inode_flag_set_def)
  show "io_ok calm" "read_err calm n = None" by (simp_all add: calm_def io_ok_def)
qed


lemma sample_path:
  "get_node_path small_layout plain_inode 1 = Some (0, [1], [0])" "get_node_path small_layout plain_inode 2 = Some (0, [2], [0])"
  "get_node_path small_layout plain_inode 7 = Some (1, [7, 1], [0, 1])"
  "get_node_path small_layout plain_inode 9 = Some (1, [7, 3], [0, 1])" "get_node_path small_layout plain_inode 15 = Some (2, [9, 0, 1], [0, 3, 4])"
  "get_node_path small_layout plain_inode 18 = Some (2, [9, 1, 0], [0, 3, 5])"
  by code_simp+

lemma sample_map: "file_map small_layout sample_file 1 = 20" "file_map small_layout sample_file 2 = 0"
  "file_map small_layout sample_file 7 = 21" "file_map small_layout sample_file 15 = 22"
proof -
  have n: "node_dir1_block small_layout = 7" by (simp add: small_layout_def)
  show "file_map small_layout sample_file 1 = 20" "file_map small_layout sample_file 2 = 0"
    "file_map small_layout sample_file 7 = 21" "file_map small_layout sample_file 15 = 22"
    by (simp_all add: file_map_def sample_file_ok sample_path dpos_def n del: One_nat_def)
      (simp_all add: sample_file_def sample_node_def nid_at.simps(2))
qed

theorem truncate_blocks_refines_witness:
  "\<exists>r st'. truncate_blocks small_layout small_geom calm 150 sample_file = Some (r, st') \<and> file_map small_layout st' 1 = 20 \<and>
    file_map small_layout sample_file 15 = 22 \<and> (r = Inr () \<longrightarrow> file_map small_layout st' 15 = 0)"
proof -
  have n: "null_addr small_layout = 0" "addrs_per_block small_layout = 4" "page_size small_layout = 64" by (simp_all add: small_layout_def)
  have b0: "(3 :: nat) = (150 + page_size small_layout - 1) div page_size small_layout" by (simp add: n)
  have path: "get_node_path small_layout (f_fi sample_file) (3 + addrs_per_block small_layout) \<noteq> None" by (simp add: n sample_path sample_file_ok)
  note w = truncate_blocks_refines [OF small_file_layout sample_file_ok(4,1,3) b0 path, of small_geom, unfolded n]
  then obtain r st' where st': "truncate_blocks small_layout small_geom calm 150 sample_file = Some (r, st')"
    "\<forall>b<3. file_map small_layout st' b = file_map small_layout sample_file b" "r = Inr () \<longrightarrow> (\<forall>b\<ge>3. file_map small_layout st' b = 0)" by blast
  then show ?thesis using sample_map by (intro exI [of _ r] exI [of _ st']) simp
qed

theorem truncate_hole_refines_witness:
  "\<exists>r st'. truncate_hole small_layout small_geom calm [3..<9] sample_file = Some (r, st') \<and> same_nodes sample_file st' \<and>
    file_map small_layout st' 15 = 22 \<and>
    file_map small_layout sample_file 7 = 21 \<and> (r = Inr () \<longrightarrow> file_map small_layout st' 7 = 0)"
proof -
  have n: "null_addr small_layout = 0" by (simp add: small_layout_def)
  have path: "get_node_path small_layout (f_fi sample_file) 9 \<noteq> None" by (simp add: sample_path sample_file_ok)
  obtain r st' where st': "truncate_hole small_layout small_geom calm [3..<9] sample_file = Some (r, st')" "same_nodes sample_file st'"
    "\<forall>b. \<not> (3 \<le> b \<and> b < 9) \<longrightarrow> file_map small_layout st' b = file_map small_layout sample_file b"
    "r = Inr () \<longrightarrow> (\<forall>b. 3 \<le> b \<and> b < 9 \<longrightarrow> file_map small_layout st' b = 0)"
    using truncate_hole_refines [OF small_file_layout sample_file_ok(4,1,3) path, of small_geom 3, unfolded n] by blast
  then show ?thesis using sample_map by (intro exI [of _ r] exI [of _ st']) simp
qed

theorem seek_block_finds_witness:
  "f2fs_seek_block small_layout small_geom calm (\<lambda>_. 0) Inr 70 SEEK_HOLE sample_file = Some (Inr 128)"
proof -
  have n: "page_size small_layout = 64" "new_addr small_layout \<noteq> null_addr small_layout" "(1163 :: nat) div 64 = 18" "(70 :: nat) div 64 = 1"
    by (simp_all add: small_layout_def)
  have fl: "\<not> is_inode_flag_set (f_fi sample_file) FI_INLINE_DENTRY" by (simp add: sample_file_ok plain_inode_def is_inode_flag_set_def)
  have hole: "found_offset small_layout a d b SEEK_HOLE \<longleftrightarrow> a = 0" for a d b by (simp add: found_offset_def small_layout_def)
  have one: "\<not> found_offset small_layout (file_map small_layout sample_file b) d b SEEK_HOLE" if "1 \<le> b" "b < 2" for b d
  proof -
    have "b = 1" using that by simp
    then show ?thesis by (simp add: hole sample_map del: One_nat_def)
  qed
  have "find (\<lambda>b. found_offset small_layout (file_map small_layout sample_file b) (get_first_dirty_index (\<lambda>_. 0) 1 SEEK_HOLE) b SEEK_HOLE) [1..<18] = Some 2"
    by (intro find_upt_Some one) (simp_all add: hole sample_map)
  then show ?thesis
    using seek_block_finds [where E = calm and offset = 70 and whence = SEEK_HOLE and first_dirty = "\<lambda>_. 0" and g = small_geom and setpos = Inr,
        OF small_file_layout _ sample_file_ok(1,3) fl _ n(2)]
      sample_file_ok(5-7) sample_path(6) by (simp add: n del: One_nat_def)
qed

end
