(* ===== verification/File_Alloc.thy ===== *)
theory File_Alloc
  imports File_Ops
begin

text \<open>
  Growing a file: making the missing nodes on the path of a block (\<open>get_dnode_of_data\<close> with
  \<open>ALLOC_NODE\<close>) and reserving the block (\<open>f2fs_reserve_block\<close>). The node ids are those of the free list,
  so that a new node never takes the place of one that is in use.
\<close>

section \<open>A new leaf of the tree\<close>






section \<open>The node ids\<close>

















section \<open>One step down\<close>

lemma file_map_nm [simp]: "file_map L (st\<lparr>f_nm := nm\<rparr>) = file_map L st"
  by (rule ext) (simp add: file_map_def split: option.split prod.split)




section \<open>The walk\<close>











section \<open>Reserving a block\<close>




section \<open>Example\<close>








end
