(* ===== verification/Spec2Isabelle.thy ===== *)
theory Spec2Isabelle
  imports Bit_Search Inode_State Node_Path Dentry_Hash Block_Count Block_Alloc Extent_Cache
    Nat_Flush Sit_Flush Gc_Policy Cp_Recovery Acl Namei File_Alloc
begin

text \<open>
  F2FS (\<open>src/fs/f2fs\<close>), the flash-friendly log-structured file system of Linux 4.1.

  The program. A volume is divided into segments of blocks, segments into sections, sections into
  zones. Everything that is written goes to one of six open segments, the logs, so a block that is
  written again moves. Where a file's blocks are is in its inode and the node blocks below it; where a
  node block is, is in the node address table (NAT); which blocks of a segment are valid is in the
  segment information table (SIT); who owns a block is in the summary of its segment. The checkpoint
  makes the tables of a moment durable; the cleaner moves the valid blocks out of a victim segment.

  The model keeps these parts apart the way the code does. State is passed explicitly: a record per C
  structure with the fields the code uses. Errors are values (\<open>errno + _\<close>), \<open>f2fs_bug_on\<close> is a flag of
  the state that \<open>f2fs_bug_on\<close> sets, C integers are words wherever they can wrap.

  Which theory models what (files under \<open>src/fs/f2fs\<close>):

  \<^item> \<open>F2FS_Prelude\<close>: integer types, kernel bitmaps, the interface \<open>bit_search\<close> of the bit searches.
    \<open>Disk_Layout\<close>: the constants of the format. \<open>Bytes\<close>: little-endian encodings (interface
    \<open>fixed_format\<close>). \<open>Set_Store\<close>: the interfaces \<open>set_store\<close> and \<open>counted_store\<close> of the components
    that keep a set of numbers with a counter. \<open>Meta_Journal\<close>: journal entries in summary blocks and
    the interface \<open>shadow_pages\<close> of a table with two copies of every block.
  \<^item> \<open>Bit_Search\<close> (\<open>f2fs.h\<close>, \<open>segment.c\<close>): \<open>f2fs_test_bit\<close> and its companions, \<open>__find_rev_next_bit\<close>,
    \<open>__find_rev_next_zero_bit\<close>. \<open>Sb_State\<close> (\<open>f2fs.h\<close>, \<open>segment.h\<close>): the superblock in memory, address
    arithmetic, flags. \<open>Block_Count\<close> (\<open>f2fs.h\<close>): counters of valid blocks, nodes and inodes with their
    limits. \<open>Inode_State\<close> (\<open>f2fs.h\<close>): the inode's flags.
  \<^item> Segment manager (\<open>segment.c\<close>, \<open>segment.h\<close>): \<open>Free_Segmap\<close> (used segments and sections),
    \<open>Dirty_Seglist\<close> (segments to clean and to free), \<open>Sit\<close> (valid blocks per segment), \<open>Curseg\<close> and
    \<open>Block_Alloc\<close> (the logs and \<open>allocate_data_block\<close>), \<open>Discard\<close>, \<open>Sit_Flush\<close> (the SIT on the
    device), \<open>Summary_Pack\<close> (the summaries in a checkpoint pack).
  \<^item> Cleaner (\<open>gc.c\<close>, \<open>gc.h\<close>): \<open>Victim\<close> (which segment), \<open>Gc_Policy\<close> (when). \<open>Curseg\<close> uses the victim
    selection through the interface \<open>ssr_provider\<close>, of which \<open>Victim\<close> is the instance.
  \<^item> Node manager (\<open>node.c\<close>, \<open>node.h\<close>): \<open>Node_Path\<close> (from a block index to the path of nodes, and node
    offsets), \<open>Node_Table\<close> and \<open>Nat_Flush\<close> (the NAT in memory and on the device), \<open>Free_Nid\<close>.
  \<^item> Files (\<open>node.c\<close>, \<open>data.c\<close>, \<open>file.c\<close>): \<open>File_Tree\<close> (one file: its node blocks, \<open>get_dnode_of_data\<close>,
    \<open>f2fs_reserve_block\<close>, the truncation of data and node blocks, \<open>remove_inode_page\<close>), \<open>File_Cut\<close>
    (the tree of nodes, its invariant \<open>tree_ok\<close>, and which nodes each truncation step removes),
    \<open>File_Map\<close> (the abstraction \<open>file_map\<close> from block indices to addresses), \<open>File_Ops\<close>
    (\<open>truncate_blocks\<close>, \<open>truncate_hole\<close>, \<open>f2fs_seek_block\<close> as operations of the map), \<open>File_Alloc\<close>
    (making nodes and reserving blocks: the tree of nodes, the map and the table of node addresses together).
  \<^item> \<open>Extent_Cache\<close> (\<open>data.c\<close>): the extent of an inode and the extent trees.
  \<^item> Checkpoint (\<open>checkpoint.c\<close>): \<open>Ino_Entry\<close> (orphans and inodes to write), \<open>Checkpoint\<close> (writing and
    reading the packs), \<open>Cp_Recovery\<close> (what a mount finds).
  \<^item> Directories (\<open>dir.c\<close>, \<open>inline.c\<close>, \<open>hash.c\<close>): \<open>Dentry_Hash\<close>, \<open>Dentry_Block\<close> (one block of
    entries), \<open>Directory\<close> (the hash table of blocks and the directory inside the inode),
    \<open>Directory_Map\<close> and \<open>Directory_Laws\<close> (the directory as a map). \<open>Namei\<close> (\<open>namei.c\<close>): link, unlink,
    rename, exchange.
  \<^item> \<open>Xattr\<close> (\<open>xattr.c\<close>), \<open>Acl\<close> (\<open>acl.c\<close>).

  What the theorems show.

  \<^item> Allocation: \<open>allocate_data_block\<close> gives out a block that no file owns, keeps the invariant of
    segments, lists and logs, and counts the blocks right; \<open>refresh_sit_entry\<close> and
    \<open>invalidate_blocks\<close> change the set of valid blocks by exactly the blocks they name. Victim
    selection ends and yields a segment that may be cleaned or reused. The bit searches find the
    first bit, but \<open>__find_rev_next_bit\<close> does not when it starts inside a word.
  \<^item> Tables: the flushes of NAT and SIT write every dirty entry, leave the copies of the last
    checkpoint alone, and what is read back is what was in memory. \<open>alloc_nid\<close> gives out an id that
    is not in use, and returns when ids are left.
  \<^item> Checkpoint: which pack the mount takes after a crash while a new one is sent. The last checkpoint is
    read from its own blocks when the first or the last block of the new pack is missing and nothing
    left in the area passes for it; the new pack is taken as soon as these two blocks are there, or a last
    block of the same version that an earlier attempt left, whether or not the blocks between arrived. A mount
    after a checkpoint that was written in full takes it and restores the logs, the orphans and the
    counters. A checkpoint block in which one byte changed, other than the field that says where its
    checksum is, is not accepted.
  \<^item> Directories: with \<open>dir_map\<close> as the abstraction and when nothing fails to be read, finding is the
    lookup of the map, adding and removing are its updates, through growth and (with directory level 0)
    through the conversion from inside the inode, the listing shows every entry once however often it is
    interrupted, and the operations of \<open>Namei\<close> are the changes of the maps they are meant to be. What a
    read error, a failed addition, a hole in the listing and a directory level do is shown by the lemmas
    \<open>unreadable_block_hides_entry\<close>, \<open>rename_reports_success\<close>, \<open>failed_add_after_conversion_hides_all\<close>,
    \<open>readdir_skips_after_hole\<close> and \<open>inline_convert_hides\<close>.
  \<^item> Files: with \<open>file_map\<close> as the abstraction, truncation keeps the blocks before the new size and,
    when nothing fails, leaves none behind it and no pointer to a freed node; punching frees exactly
    the range and keeps the nodes; reserving adds one block, with nodes whose ids no node of the file
    uses; the searches for data and holes are searches of the map. Truncating inside the last
    node of the largest file reaches \<open>BUG()\<close> (\<open>truncate_blocks_bug\<close>).
  \<^item> Attributes: setting is the update of the map of attributes; an ACL that is set is read back;
    an inherited ACL gives owner, group class (the mask if there is one) and others no more than the mode asked
    for.
  \<^item> The extent trees agree with the blocks of the file, except when a split leaves a long right part, which
    they then give one block too low (\<open>extent_split_shifts_right_part\<close>).

  Recursion. Loops that the code bounds are structural recursion or have a measure. Loops it does not
  bound are partial functions into \<open>option\<close>, and where they end is proved: \<open>victim_loop\<close>
  (\<open>get_victim_usable\<close>), \<open>alloc_nid\<close> (\<open>alloc_nid_returns\<close>, and where it spins), \<open>flush_pages\<close> of
  \<open>Checkpoint\<close>, the walks over a block of entries (\<open>find_target_loop\<close>, \<open>fill_dentries_loop\<close>: they end on
  well-formed blocks and \<open>find_target_spins\<close> shows one on which they do not) and \<open>add_levels\<close> of
  \<open>Directory\<close>, and \<open>seek_nodes\<close> (\<open>seek_block_finds\<close>). \<open>truncate_tops\<close>, the loop over the five pointers of
  an inode, has a measure. \<open>discard_loop\<close> takes \<open>blocks_per_seg + 1\<close> as fuel; \<open>discard_loop_fuel\<close> shows it enough.

  Parameters. \<open>linux/f2fs_fs.h\<close> is not part of the repository: its constants are the record \<open>layout\<close>,
  what the code needs of them is \<open>layout_ok\<close>, and \<open>small_layout\<close> is an instance with small numbers on
  which the witnesses are evaluated. The sizes of a volume are the record \<open>geom\<close>. The byte formats of
  the checkpoint and summary structures are codecs with the law that reading gives back what was
  written. Rebalancing of a red-black tree, the victim selection as seen from the logs, the numbers of
  the ACL tags, and what can fail below an operation (reading a block, reserving one, memory) are
  arguments too; every theorem about them holds for all their values, and its witness takes one.

  Not modelled: locks and concurrency (every operation is one step), the page cache and the
  submission of I/O (pages are maps from addresses or indices to contents), times, statistics and
  tracing (\<open>debug.c\<close>, \<open>trace.c\<close>), the VFS entry points of files (the rest of \<open>file.c\<close>, \<open>inode.c\<close>),
  the moving of blocks by the cleaner, roll-forward recovery (\<open>recovery.c\<close>) and mounting
  (\<open>super.c\<close>). These are calls into the kernel around the state that is modelled here, or work on
  pages of the cache.
\<close>

end
